(* ===== verification/Prelude.thy ===== *)
theory Prelude
  imports Main "HOL-Library.Word"
begin

text \<open>
  Vocabulary shared by every theory of the development: the machine integers of the code as
  words, byte strings, the error values of \<open>include/mirnext/Support/Result.hpp\<close>, little-endian
  reads and writes (the code's \<open>memcpy\<close> of scalars on the little-endian hosts it supports), and
  the rounding arithmetic of the layout computations.  The collections \<open>size_simps\<close> and
  \<open>result_simps\<close> gather the facts the component proofs hand to the simplifier.
\<close>

unbundle bit_operations_syntax

named_theorems size_simps "bounds and rounding facts of layout arithmetic"
named_theorems result_simps "evaluation of results and their binds"

section \<open>Machine integers and bytes\<close>

type_synonym u8 = "8 word"
type_synonym u16 = "16 word"
type_synonym u32 = "32 word"
type_synonym u64 = "64 word"
type_synonym bytes = "8 word list"

abbreviation (input) SIZE_MAX :: nat where "SIZE_MAX \<equiv> 18446744073709551615"
abbreviation (input) UINT32_MAX :: nat where "UINT32_MAX \<equiv> 4294967295"
abbreviation (input) INT64_MAX :: nat where "INT64_MAX \<equiv> 9223372036854775807"
abbreviation (input) INT32_MAX :: nat where "INT32_MAX \<equiv> 2147483647"

section \<open>Errors and results\<close>

datatype error_code = InvalidArgument | DuplicateName | UnknownName | NoInsertPoint | InvalidOperand

record error =
  code :: error_code
  message :: string

text \<open>\<open>Result<T>\<close>: the left injection is the error, the right one the payload.\<close>

type_synonym 'a result = "error + 'a"

definition mk_error :: "error_code \<Rightarrow> string \<Rightarrow> 'a result" where
  "mk_error c m = Inl \<lparr>code = c, message = m\<rparr>"

definition has_value :: "'a result \<Rightarrow> bool" where
  "has_value r = (case r of Inl _ \<Rightarrow> False | Inr _ \<Rightarrow> True)"

text \<open>\<open>MIRNEXT_RESULT_RET\<close> / \<open>MIRNEXT_TRY_VALUE\<close>: continue with the payload, or return the error.\<close>

definition rbind :: "'a result \<Rightarrow> ('a \<Rightarrow> 'b result) \<Rightarrow> 'b result" where
  "rbind r k = (case r of Inl e \<Rightarrow> Inl e | Inr v \<Rightarrow> k v)"

lemma rbind_Inl [simp, result_simps]: "rbind (Inl e) k = Inl e"
  by (simp add: rbind_def)

lemma rbind_Inr [simp, result_simps]: "rbind (Inr v) k = k v"
  by (simp add: rbind_def)

lemma rbind_mk_error [simp, result_simps]: "rbind (mk_error c m) k = mk_error c m"
  by (simp add: mk_error_def)

lemma rbind_eq_Inr: "rbind r k = Inr v \<longleftrightarrow> (\<exists>u. r = Inr u \<and> k u = Inr v)"
  by (cases r) auto

lemma rbind_eq_Inl: "rbind r k = Inl e \<longleftrightarrow> r = Inl e \<or> (\<exists>u. r = Inr u \<and> k u = Inl e)"
  by (cases r) auto

lemma mk_error_neq_Inr [simp, result_simps]: "mk_error c m \<noteq> Inr v" "Inr v \<noteq> mk_error c m"
  by (simp_all add: mk_error_def)

lemma has_value_simps [simp, result_simps]:
  "has_value (Inl e) = False" "has_value (Inr v) = True" "has_value (mk_error c m) = False"
  by (simp_all add: has_value_def mk_error_def)

lemma has_value_iff: "has_value r \<longleftrightarrow> (\<exists>v. r = Inr v)"
  by (cases r) auto

section \<open>Rounding\<close>

text \<open>\<open>(n + a - 1) / a * a\<close>, the rounding of every layout computation of the code.\<close>

definition round_up :: "nat \<Rightarrow> nat \<Rightarrow> nat" where
  "round_up a n = (n + (a - 1)) div a * a"

lemma round_up_dvd [simp, size_simps]: "a dvd round_up a n"
  by (simp add: round_up_def)

lemma round_up_ge [size_simps]: "0 < a \<Longrightarrow> n \<le> round_up a n"
proof -
  assume a: "0 < a"
  have "n + (a - 1) = (n + (a - 1)) div a * a + (n + (a - 1)) mod a" by simp
  moreover have "(n + (a - 1)) mod a \<le> a - 1" using a mod_less_divisor [of a "n + (a - 1)"] by linarith
  ultimately show ?thesis unfolding round_up_def by linarith
qed

lemma round_up_less [size_simps]: "0 < a \<Longrightarrow> round_up a n < n + a"
proof -
  assume a: "0 < a"
  have "(n + (a - 1)) div a * a \<le> n + (a - 1)" by simp
  with a show ?thesis unfolding round_up_def by linarith
qed

lemma round_up_mono: "m \<le> n \<Longrightarrow> round_up a m \<le> round_up a n"
  unfolding round_up_def by (intro mult_le_mono1 div_le_mono) simp

lemma round_up_id [simp]: "0 < a \<Longrightarrow> a dvd n \<Longrightarrow> round_up a n = n"
proof -
  assume a: "0 < a" and "a dvd n"
  then obtain k where k: "n = a * k" by (auto elim: dvdE)
  have "(a * k + (a - 1)) div a = k + (a - 1) div a"
    using a by (metis add.commute div_mult_self2 neq0_conv)
  also have "(a - 1) div a = 0" using a by simp
  finally have "(a * k + (a - 1)) div a = k" by simp
  with k show ?thesis by (simp add: round_up_def)
qed

lemma round_up_zero [simp]: "0 < a \<Longrightarrow> round_up a 0 = 0"
  by simp

section \<open>Lists\<close>

lemma upt_split_at: "n < m \<Longrightarrow> [0..<m] = [0..<n] @ n # [Suc n..<m]"
  using upt_add_eq_append [of 0 n "m - n"] by (simp add: upt_conv_Cons)

section \<open>Decimal numbers\<close>

text \<open>\<open>std::to_string\<close>.\<close>

fun decimal :: "nat \<Rightarrow> string" where
  "decimal n = (if n < 10 then [char_of (48 + n)] else decimal (n div 10) @ [char_of (48 + n mod 10)])"

declare decimal.simps [simp del]

lemma decimal_nonempty: "decimal n \<noteq> []"
  by (subst decimal.simps) simp

lemma decimal_inj: "decimal m = decimal n \<longleftrightarrow> m = n"
proof -
  have digit: "char_of (48 + a) = (char_of (48 + b) :: char) \<longleftrightarrow> a = b" if "a < 10" "b < 10" for a b :: nat
    using that arg_cong [of "char_of (48 + a) :: char" "char_of (48 + b)" "of_char :: char \<Rightarrow> nat"] by auto
  have "decimal m = decimal n \<Longrightarrow> m = n" for m n
  proof (induction m arbitrary: n rule: decimal.induct)
    case (1 m)
    have d: "decimal k = (if k < 10 then [] else decimal (k div 10)) @ [char_of (48 + k mod 10)]" for k
      by (subst decimal.simps) simp
    have "m mod 10 = n mod 10" and top: "(if m < 10 then [] else decimal (m div 10)) = (if n < 10 then [] else decimal (n div 10))"
      using "1.prems" d [of m] d [of n] digit [of "m mod 10" "n mod 10"] by simp_all
    moreover have "m div 10 = n div 10" using top "1.IH" [of "n div 10"] decimal_nonempty decimal_nonempty [THEN not_sym] by (auto split: if_splits)
    ultimately show ?case by (metis div_mult_mod_eq)
  qed
  then show ?thesis by blast
qed

section \<open>Words as integers\<close>

lemma sint_range: "- (2 ^ (LENGTH('a::len) - 1)) \<le> sint (w :: 'a word) \<and> sint w < 2 ^ (LENGTH('a) - 1)"
  using sint_ge [of w] sint_lt [of w] by simp

lemma sint_word_of_int_range:
  "- (2 ^ (LENGTH('a::len) - 1)) \<le> k \<Longrightarrow> k < 2 ^ (LENGTH('a) - 1) \<Longrightarrow> sint (word_of_int k :: 'a word) = k"
  by (simp add: sint_sbintrunc' signed_take_bit_int_eq_self)

section \<open>Little-endian bytes\<close>

text \<open>The low \<open>n\<close> bytes of a word, least significant first.\<close>

fun put_le :: "nat \<Rightarrow> u64 \<Rightarrow> bytes" where
  "put_le 0 v = []"
| "put_le (Suc n) v = ucast v # put_le n (drop_bit 8 v)"

fun get_le :: "bytes \<Rightarrow> u64" where
  "get_le [] = 0"
| "get_le (b # bs) = (ucast b) OR (push_bit 8 (get_le bs))"

lemma length_put_le [simp]: "length (put_le n v) = n"
  by (induction n arbitrary: v) auto

lemma bit_get_le:
  "bit (get_le bs) k \<longleftrightarrow> k < 64 \<and> k div 8 < length bs \<and> bit (bs ! (k div 8)) (k mod 8)"
proof (induction bs arbitrary: k)
  case Nil
  then show ?case by simp
next
  case (Cons b bs)
  show ?case
  proof (cases "k < 8")
    case True
    then show ?thesis
      by (auto simp: bit_or_iff bit_push_bit_iff bit_ucast_iff)
  next
    case False
    then have "k div 8 = Suc ((k - 8) div 8)" and "k mod 8 = (k - 8) mod 8"
      by (simp_all add: le_div_geq le_mod_geq)
    moreover have "\<not> bit (ucast b :: u64) k"
      using False by (auto simp: bit_ucast_iff dest: bit_imp_le_length)
    ultimately show ?thesis
      using False Cons.IH [of "k - 8"]
      by (auto simp: bit_or_iff bit_push_bit_iff)
  qed
qed

lemma nth_put_le: "i < n \<Longrightarrow> put_le n v ! i = ucast (drop_bit (8 * i) v)"
proof (induction n arbitrary: v i)
  case 0
  then show ?case by simp
next
  case (Suc n)
  then show ?case by (cases i) (simp_all add: drop_bit_drop_bit add.commute)
qed

lemma get_put_le: "get_le (put_le n v) = take_bit (8 * n) v"
proof (rule bit_word_eqI)
  fix k assume "k < LENGTH(64)"
  then have k: "k < 64" by simp
  have "k div 8 < n \<longleftrightarrow> k < 8 * n" by auto
  moreover have "8 * (k div 8) + k mod 8 = k" by simp
  ultimately show "bit (get_le (put_le n v)) k = bit (take_bit (8 * n) v) k"
    using k by (auto simp: bit_get_le nth_put_le bit_ucast_iff bit_drop_bit_eq bit_take_bit_iff)
qed

lemma get_put_le_8 [simp]: "get_le (put_le 8 v) = v"
  by (rule bit_word_eqI) (simp add: get_put_le bit_take_bit_iff)

lemma put_get_le: "length bs = n \<Longrightarrow> n \<le> 8 \<Longrightarrow> put_le n (get_le bs) = bs"
proof (rule nth_equalityI)
  show "length (put_le n (get_le bs)) = length bs" if "length bs = n" using that by simp
next
  fix i
  assume n: "length bs = n" "n \<le> 8" and i: "i < length (put_le n (get_le bs))"
  show "put_le n (get_le bs) ! i = bs ! i"
  proof (rule bit_word_eqI)
    fix k assume "k < LENGTH(8)"
    with n i show "bit (put_le n (get_le bs) ! i) k = bit (bs ! i) k"
      by (auto simp: nth_put_le bit_ucast_iff bit_drop_bit_eq bit_get_le)
  qed
qed

end
