(* ===== verification/SparseBitSet.thy ===== *)
theory SparseBitSet
  imports Prelude
begin

text \<open>
  \<open>include/mirnext/Support/SparseBitSet.hpp\<close>: a set of bit numbers kept as a vector of words
  sorted by index in which no word is zero.  Liveness, live ranges and register assignment keep
  their facts in such sets.  \<open>word.index\<close> is a \<open>size_t\<close> that is always some \<open>bit / 64\<close>, so
  \<open>nat\<close> has the same arithmetic.  A method that tests \<open>this == &other\<close> takes that test as its first
  argument.  The locale \<open>sparse_set\<close> is the interface its clients use; it is interpreted on the
  model at the end.
\<close>

section \<open>Data\<close>

record bit_word =
  windex :: nat
  wbits :: u64

type_synonym bitset = "bit_word list"

text \<open>\<open>std::lower_bound\<close> over the sorted words: the first position whose index is at least the key.\<close>

definition lower_bound :: "bitset \<Rightarrow> nat \<Rightarrow> nat" where
  "lower_bound ws k = length (takeWhile (\<lambda>w. windex w < k) ws)"

section \<open>Operations\<close>

definition bs_empty :: "bitset \<Rightarrow> bool" where
  "bs_empty ws = (ws = [])"

definition bs_clear :: "bitset \<Rightarrow> bitset" where
  "bs_clear ws = []"

definition bs_erase :: "nat \<Rightarrow> bitset \<Rightarrow> bitset" where
  "bs_erase b ws = (let i = lower_bound ws (b div 64) in
     if i = length ws \<or> windex (ws ! i) \<noteq> b div 64 then ws
     else let bits = wbits (ws ! i) AND NOT (push_bit (b mod 64) 1) in
       if bits = 0 then take i ws @ drop (Suc i) ws
       else ws[i := (ws ! i)\<lparr>wbits := bits\<rparr>])"

definition bs_contains :: "nat \<Rightarrow> bitset \<Rightarrow> bool" where
  "bs_contains b ws = (let i = lower_bound ws (b div 64) in
     i \<noteq> length ws \<and> windex (ws ! i) = b div 64 \<and>
     wbits (ws ! i) AND push_bit (b mod 64) 1 \<noteq> 0)"

definition bs_insert :: "nat \<Rightarrow> bitset \<Rightarrow> bitset" where
  "bs_insert b ws = (let i = lower_bound ws (b div 64);
     ws' = (if i = length ws \<or> windex (ws ! i) \<noteq> b div 64
            then take i ws @ \<lparr>windex = b div 64, wbits = 0\<rparr> # drop i ws else ws)
     in ws'[i := (ws' ! i)\<lparr>wbits := wbits (ws' ! i) OR push_bit (b mod 64) 1\<rparr>])"

text \<open>The loop of \<open>intersect_with\<close>: \<open>b\<close> is the iterator into the other set.\<close>

fun intersect_loop :: "bitset \<Rightarrow> bitset \<Rightarrow> bitset" where
  "intersect_loop [] bs = []"
| "intersect_loop (w # ws) bs =
     (let bs' = dropWhile (\<lambda>b. windex b < windex w) bs in
      case bs' of
        [] \<Rightarrow> intersect_loop ws bs'
      | b # _ \<Rightarrow>
          if windex b = windex w \<and> wbits w AND wbits b \<noteq> 0
          then w\<lparr>wbits := wbits w AND wbits b\<rparr> # intersect_loop ws bs'
          else intersect_loop ws bs')"

definition bs_intersect_with :: "bool \<Rightarrow> bitset \<Rightarrow> bitset \<Rightarrow> bitset" where
  "bs_intersect_with same ws other = (if same then ws else intersect_loop ws other)"

text \<open>\<open>std::countr_zero\<close>, and the loop \<open>for (bits = w; bits; bits &= bits - 1)\<close>.\<close>

definition countr_zero :: "u64 \<Rightarrow> nat" where
  "countr_zero w = length (takeWhile (\<lambda>n. \<not> bit w n) [0..<64])"

lemma and_minus_one_less: "(w :: u64) \<noteq> 0 \<Longrightarrow> unat (w AND (w - 1)) < unat w"
proof -
  assume w: "w \<noteq> 0"
  have "unat (w AND (w - 1)) \<le> unat (w - 1)"
    by (simp add: word_and_le1 flip: word_le_nat_alt)
  also have "\<dots> < unat w"
    using w by (simp add: unat_minus_one word_neq_0_conv [symmetric] unat_gt_0)
  finally show ?thesis .
qed

function bit_positions :: "u64 \<Rightarrow> nat list" where
  "bit_positions w = (if w = 0 then [] else countr_zero w # bit_positions (w AND (w - 1)))"
  by pat_completeness auto
termination
  by (relation "measure unat") (auto simp: and_minus_one_less)

declare bit_positions.simps [simp del]

fun erase_if_loop :: "(nat \<Rightarrow> bool) \<Rightarrow> bitset \<Rightarrow> bitset" where
  "erase_if_loop p [] = []"
| "erase_if_loop p (w # ws) =
     (let bits = fold (\<lambda>pos acc. if p (windex w * 64 + pos) then acc AND NOT (push_bit pos 1) else acc)
                   (bit_positions (wbits w)) (wbits w)
      in if bits \<noteq> 0 then w\<lparr>wbits := bits\<rparr> # erase_if_loop p ws else erase_if_loop p ws)"

definition bs_erase_if :: "(nat \<Rightarrow> bool) \<Rightarrow> bitset \<Rightarrow> bitset" where
  "bs_erase_if p ws = erase_if_loop p ws"

text \<open>\<open>union_with\<close>: the scan that finds out whether the other set adds anything, then the merge.\<close>

fun gains_loop :: "bitset \<Rightarrow> bitset \<Rightarrow> bool" where
  "gains_loop existing [] = False"
| "gains_loop existing (w # ws) =
     (let ex = dropWhile (\<lambda>e. windex e < windex w) existing in
      case ex of
        [] \<Rightarrow> True
      | e # _ \<Rightarrow> if windex e \<noteq> windex w \<or> wbits w AND NOT (wbits e) \<noteq> 0 then True
                else gains_loop ex ws)"

fun merge_loop :: "bitset \<Rightarrow> bitset \<Rightarrow> bool \<Rightarrow> bitset \<times> bool" where
  "merge_loop [] [] ch = ([], ch)"
| "merge_loop (a # as) [] ch = (let (m, c) = merge_loop as [] ch in (a # m, c))"
| "merge_loop [] (b # bs) ch = (let (m, c) = merge_loop [] bs True in (b # m, c))"
| "merge_loop (a # as) (b # bs) ch =
     (if windex a < windex b then (let (m, c) = merge_loop as (b # bs) ch in (a # m, c))
      else if windex b < windex a then (let (m, c) = merge_loop (a # as) bs True in (b # m, c))
      else let bits = wbits a OR wbits b;
               (m, c) = merge_loop as bs (ch \<or> bits \<noteq> wbits a)
           in (\<lparr>windex = windex a, wbits = bits\<rparr> # m, c))"

definition bs_union_with :: "bool \<Rightarrow> bitset \<Rightarrow> bitset \<Rightarrow> bitset \<times> bool" where
  "bs_union_with same ws other =
     (if same \<or> bs_empty other then (ws, False)
      else if bs_empty ws then (other, True)
      else if \<not> gains_loop ws other then (ws, False)
      else let (merged, changed) = merge_loop ws other False
           in (if changed then merged else ws, changed))"

fun subtract_loop :: "bitset \<Rightarrow> bitset \<Rightarrow> bitset" where
  "subtract_loop [] bs = []"
| "subtract_loop (w # ws) bs =
     (let bs' = dropWhile (\<lambda>b. windex b < windex w) bs;
          bits = (case bs' of [] \<Rightarrow> wbits w
                  | b # _ \<Rightarrow> if windex b = windex w then wbits w AND NOT (wbits b) else wbits w)
      in if bits \<noteq> 0 then w\<lparr>wbits := bits\<rparr> # subtract_loop ws bs' else subtract_loop ws bs')"

definition bs_subtract :: "bitset \<Rightarrow> bitset \<Rightarrow> bitset" where
  "bs_subtract ws other = subtract_loop ws other"

text \<open>\<open>for_each\<close>: the bit numbers in the order the visitor sees them.\<close>

definition bs_for_each :: "bitset \<Rightarrow> nat list" where
  "bs_for_each ws = concat (map (\<lambda>w. map (\<lambda>p. windex w * 64 + p) (bit_positions (wbits w))) ws)"

definition bs_word_count :: "bitset \<Rightarrow> nat" where
  "bs_word_count ws = length ws"

section \<open>Abstraction and invariant\<close>

text \<open>The bits stored under an index (no word stands for the zero word), and the set of bit numbers.\<close>

fun bs_word :: "bitset \<Rightarrow> nat \<Rightarrow> u64" where
  "bs_word [] k = 0"
| "bs_word (w # ws) k = (if windex w = k then wbits w else bs_word ws k)"

definition bs_elems :: "bitset \<Rightarrow> nat set" where
  "bs_elems ws = {b. bit (bs_word ws (b div 64)) (b mod 64)}"

fun bs_wf :: "bitset \<Rightarrow> bool" where
  "bs_wf [] = True"
| "bs_wf (w # ws) = (wbits w \<noteq> 0 \<and> (\<forall>v \<in> set ws. windex w < windex v) \<and> bs_wf ws)"

lemma lookup_notin: "k \<notin> windex ` set ws \<Longrightarrow> bs_word ws k = 0"
  by (induction ws) auto

lemma lookup_below: "(\<forall>v \<in> set ws. k < windex v) \<Longrightarrow> bs_word ws k = 0"
  by (rule lookup_notin) auto

lemma lookup_neq_0: "bs_wf ws \<Longrightarrow> w \<in> set ws \<Longrightarrow> bs_word ws (windex w) = wbits w"
  by (induction ws) auto

lemma mem_elems: "b \<in> bs_elems ws \<longleftrightarrow> bit (bs_word ws (b div 64)) (b mod 64)"
  by (simp add: bs_elems_def)

lemma bit_lookup_elems: "p < 64 \<Longrightarrow> bit (bs_word ws k) p \<longleftrightarrow> k * 64 + p \<in> bs_elems ws"
  by (simp add: mem_elems)

text \<open>The representation is canonical: two well-formed sets with the same elements are equal.\<close>

lemma lookup_eq_iff_elems: "bs_word a = bs_word b \<longleftrightarrow> bs_elems a = bs_elems b"
proof
  assume "bs_elems a = bs_elems b"
  then have "bit (bs_word a k) p = bit (bs_word b k) p" if "p < 64" for k p
    using that by (simp add: bit_lookup_elems)
  then show "bs_word a = bs_word b" by (intro ext bit_word_eqI) simp
qed (simp add: bs_elems_def)

lemma wf_lookup_inj: "bs_wf a \<Longrightarrow> bs_wf b \<Longrightarrow> bs_word a = bs_word b \<Longrightarrow> a = b"
proof (induction a arbitrary: b)
  case Nil
  then show ?case by (cases b) (auto simp: fun_eq_iff split: if_splits)
next
  case (Cons w ws)
  show ?case
  proof (cases b)
    case Nil
    with Cons.prems show ?thesis by (auto simp: fun_eq_iff split: if_splits)
  next
    case (Cons v vs)
    note b = this
    have eq: "bs_word (w # ws) k = bs_word (v # vs) k" for k
      using Cons.prems(3) b by (simp only: )
    have low: "windex w < windex v \<Longrightarrow> \<forall>u \<in> set vs. windex w < windex u"
      "windex v < windex w \<Longrightarrow> \<forall>u \<in> set ws. windex v < windex u"
      using Cons.prems(1,2) b by auto
    have "\<not> windex w < windex v"
      using eq [of "windex w"] Cons.prems(1) low(1) lookup_below [of vs "windex w"] by auto
    moreover have "\<not> windex v < windex w"
      using eq [of "windex v"] Cons.prems(2) b low(2) lookup_below [of ws "windex v"] by auto
    ultimately have i: "windex v = windex w" by simp
    then have "w = v" using eq [of "windex w"] by simp
    moreover have "bs_word ws k = bs_word vs k" for k
      using eq [of k] i Cons.prems(1,2) b lookup_below [of ws k] lookup_below [of vs k]
      by (cases "k = windex w") auto
    ultimately show ?thesis using Cons.IH [of vs] Cons.prems b by auto
  qed
qed

lemma wf_elems_inj: "bs_wf a \<Longrightarrow> bs_wf b \<Longrightarrow> bs_elems a = bs_elems b \<longleftrightarrow> a = b"
  using wf_lookup_inj lookup_eq_iff_elems by metis

section \<open>Single-bit operations\<close>

lemma lower_bound_simps [simp]:
  "lower_bound [] k = 0"
  "lower_bound (w # ws) k = (if windex w < k then Suc (lower_bound ws k) else 0)"
  by (simp_all add: lower_bound_def)

lemma bs_contains_Cons:
  "bs_contains b (w # ws) =
     (if windex w < b div 64 then bs_contains b ws
      else windex w = b div 64 \<and> wbits w AND push_bit (b mod 64) 1 \<noteq> 0)"
  by (simp add: bs_contains_def Let_def)

lemma bs_insert_Cons:
  "bs_insert b (w # ws) =
     (if windex w < b div 64 then w # bs_insert b ws
      else if windex w = b div 64 then w\<lparr>wbits := wbits w OR push_bit (b mod 64) 1\<rparr> # ws
      else \<lparr>windex = b div 64, wbits = push_bit (b mod 64) 1\<rparr> # w # ws)"
  by (simp add: bs_insert_def Let_def)

lemma bs_erase_Cons:
  "bs_erase b (w # ws) =
     (if windex w < b div 64 then w # bs_erase b ws
      else if windex w = b div 64 then
        (let bits = wbits w AND NOT (push_bit (b mod 64) 1) in
         if bits = 0 then ws else w\<lparr>wbits := bits\<rparr> # ws)
      else w # ws)"
  by (simp add: bs_erase_def Let_def)

lemma bs_single_Nil [simp]:
  "bs_contains b [] = False" "bs_erase b [] = []"
  "bs_insert b [] = [\<lparr>windex = b div 64, wbits = push_bit (b mod 64) 1\<rparr>]"
  by (simp_all add: bs_contains_def bs_erase_def bs_insert_def Let_def)

lemma and_pow_neq_0 [simp]: "(w :: u64) AND 2 ^ n = 0 \<longleftrightarrow> \<not> bit w n"
  by (simp add: and_exp_eq_0_iff_not_bit)

lemma pow_mod_64_neq_0 [simp]: "(2 :: u64) ^ (b mod 64) \<noteq> 0"
  by (simp add: exp_eq_zero_iff)

lemma lookup_beyond: "\<forall>v \<in> set ws. i < windex v \<Longrightarrow> \<not> i < k \<Longrightarrow> bs_word ws k = 0"
  by (rule lookup_below) auto

lemma bs_contains_lookup:
  "bs_wf ws \<Longrightarrow> bs_contains b ws = bit (bs_word ws (b div 64)) (b mod 64)"
proof (induction ws)
  case (Cons w ws)
  then show ?case
    using lookup_beyond [of ws "windex w" "b div 64"] by (auto simp: bs_contains_Cons)
qed simp

lemma set_bs_insert: "windex ` set (bs_insert b ws) \<subseteq> insert (b div 64) (windex ` set ws)"
  by (induction ws) (auto simp: bs_insert_Cons)

lemma wf_bs_insert: "bs_wf ws \<Longrightarrow> bs_wf (bs_insert b ws)"
proof (induction ws)
  case Nil
  then show ?case by simp
next
  case (Cons w ws)
  have "windex w < windex v" if "windex w < b div 64" "v \<in> set (bs_insert b ws)" for v
    using that Cons.prems set_bs_insert [of b ws] by auto
  moreover have "wbits w OR 2 ^ (b mod 64) \<noteq> 0"
    using Cons.prems by (metis or_eq_0_iff bs_wf.simps(2))
  ultimately show ?case
    using Cons by (auto simp: bs_insert_Cons)
qed

lemma lookup_bs_insert:
  "bs_wf ws \<Longrightarrow> bs_word (bs_insert b ws) k =
     (if k = b div 64 then bs_word ws k OR 2 ^ (b mod 64) else bs_word ws k)"
proof (induction ws)
  case (Cons w ws)
  then show ?case
    using lookup_beyond [of ws "windex w" "b div 64"] by (auto simp: bs_insert_Cons)
qed simp

lemma set_bs_erase: "windex ` set (bs_erase b ws) \<subseteq> windex ` set ws"
  by (induction ws) (auto simp: bs_erase_Cons Let_def)

lemma wf_bs_erase: "bs_wf ws \<Longrightarrow> bs_wf (bs_erase b ws)"
proof (induction ws)
  case (Cons w ws)
  have "windex w < windex v" if "v \<in> set (bs_erase b ws)" for v
    using that Cons.prems set_bs_erase [of b ws] by auto
  with Cons show ?case by (auto simp: bs_erase_Cons Let_def)
qed simp

lemma lookup_bs_erase:
  "bs_wf ws \<Longrightarrow> bs_word (bs_erase b ws) k =
     (if k = b div 64 then bs_word ws k AND NOT (2 ^ (b mod 64)) else bs_word ws k)"
proof (induction ws)
  case (Cons w ws)
  then show ?case
    using lookup_beyond [of ws "windex w" "b div 64"] by (auto simp: bs_erase_Cons Let_def)
qed simp

section \<open>Two-set operations\<close>

text \<open>Skipping the words below an index does not change what is stored from that index on.\<close>

lemma lookup_dropWhile:
  "bs_wf bs \<Longrightarrow> i \<le> k \<Longrightarrow> bs_word (dropWhile (\<lambda>b. windex b < i) bs) k = bs_word bs k"
  by (induction bs) auto

lemma wf_dropWhile: "bs_wf bs \<Longrightarrow> bs_wf (dropWhile P bs)"
  by (induction bs) auto

lemma dropWhile_head:
  "bs_wf bs \<Longrightarrow>
   bs_word bs i = (case dropWhile (\<lambda>b. windex b < i) bs of [] \<Rightarrow> 0
                   | b # _ \<Rightarrow> if windex b = i then wbits b else 0)"
proof (induction bs)
  case (Cons b bs)
  then show ?case using lookup_beyond [of bs "windex b" i] by auto
qed simp

lemma intersect_loop_Cons:
  "bs_wf bs \<Longrightarrow> intersect_loop (w # ws) bs =
     (let bits = wbits w AND bs_word bs (windex w);
          rest = intersect_loop ws (dropWhile (\<lambda>b. windex b < windex w) bs)
      in if bits \<noteq> 0 then w\<lparr>wbits := bits\<rparr> # rest else rest)"
  using dropWhile_head [of bs "windex w"]
  by (cases "dropWhile (\<lambda>b. windex b < windex w) bs")
    (simp_all only: intersect_loop.simps list.case Let_def, auto)

lemma set_intersect_loop: "windex ` set (intersect_loop ws bs) \<subseteq> windex ` set ws"
proof (induction ws arbitrary: bs)
  case (Cons w ws)
  then show ?case
    using Cons.IH [of "dropWhile (\<lambda>b. windex b < windex w) bs"]
    by (auto simp: Let_def split: list.splits)
qed simp

lemma wf_intersect_loop: "bs_wf ws \<Longrightarrow> bs_wf (intersect_loop ws bs)"
proof (induction ws arbitrary: bs)
  case (Cons w ws)
  let ?bs = "dropWhile (\<lambda>b. windex b < windex w) bs"
  have "windex w < windex v" if "v \<in> set (intersect_loop ws ?bs)" for v
    using that Cons.prems set_intersect_loop [of ws ?bs] by auto
  with Cons.prems Cons.IH [of ?bs] show ?case
    by (auto simp: Let_def split: list.splits)
qed simp

lemma lookup_intersect_loop:
  "bs_wf ws \<Longrightarrow> bs_wf bs \<Longrightarrow> bs_word (intersect_loop ws bs) k = bs_word ws k AND bs_word bs k"
proof (induction ws arbitrary: bs)
  case (Cons w ws)
  let ?bs = "dropWhile (\<lambda>b. windex b < windex w) bs"
  have IH: "bs_word (intersect_loop ws ?bs) k = bs_word ws k AND bs_word ?bs k"
    using Cons wf_dropWhile by auto
  have below: "k \<le> windex w \<Longrightarrow> bs_word ws k = 0"
    using Cons.prems lookup_beyond [of ws "windex w" k] by auto
  have "bs_word ?bs k = bs_word bs k" if "windex w < k"
    using lookup_dropWhile [of bs "windex w" k] Cons.prems that by simp
  then show ?case
    using IH below Cons.prems
    by (cases k "windex w" rule: linorder_cases) (auto simp: Let_def intersect_loop_Cons simp del: intersect_loop.simps)
qed simp

lemma subtract_loop_Cons:
  "bs_wf bs \<Longrightarrow> subtract_loop (w # ws) bs =
     (let bits = wbits w AND NOT (bs_word bs (windex w));
          rest = subtract_loop ws (dropWhile (\<lambda>b. windex b < windex w) bs)
      in if bits \<noteq> 0 then w\<lparr>wbits := bits\<rparr> # rest else rest)"
  using dropWhile_head [of bs "windex w"]
  by (cases "dropWhile (\<lambda>b. windex b < windex w) bs")
    (simp_all only: subtract_loop.simps list.case Let_def, auto)

lemma set_subtract_loop: "windex ` set (subtract_loop ws bs) \<subseteq> windex ` set ws"
proof (induction ws arbitrary: bs)
  case (Cons w ws)
  then show ?case
    using Cons.IH [of "dropWhile (\<lambda>b. windex b < windex w) bs"] by (auto simp: Let_def)
qed simp

lemma wf_subtract_loop: "bs_wf ws \<Longrightarrow> bs_wf (subtract_loop ws bs)"
proof (induction ws arbitrary: bs)
  case (Cons w ws)
  let ?bs = "dropWhile (\<lambda>b. windex b < windex w) bs"
  have "windex w < windex v" if "v \<in> set (subtract_loop ws ?bs)" for v
    using that Cons.prems set_subtract_loop [of ws ?bs] by auto
  with Cons.prems Cons.IH [of ?bs] show ?case by (auto simp: Let_def)
qed simp

lemma lookup_subtract_loop:
  "bs_wf ws \<Longrightarrow> bs_wf bs \<Longrightarrow>
   bs_word (subtract_loop ws bs) k = bs_word ws k AND NOT (bs_word bs k)"
proof (induction ws arbitrary: bs)
  case (Cons w ws)
  let ?bs = "dropWhile (\<lambda>b. windex b < windex w) bs"
  have IH: "bs_word (subtract_loop ws ?bs) k = bs_word ws k AND NOT (bs_word ?bs k)"
    using Cons wf_dropWhile by auto
  have below: "k \<le> windex w \<Longrightarrow> bs_word ws k = 0"
    using Cons.prems lookup_beyond [of ws "windex w" k] by auto
  have "bs_word ?bs k = bs_word bs k" if "windex w < k"
    using lookup_dropWhile [of bs "windex w" k] Cons.prems that by simp
  then show ?case
    using IH below Cons.prems
    by (cases k "windex w" rule: linorder_cases) (auto simp: Let_def subtract_loop_Cons simp del: subtract_loop.simps)
qed simp

section \<open>Union\<close>

text \<open>What the scan of \<open>union_with\<close> decides: some word of the other set has a bit that is missing here.\<close>

lemma gains_loop_Cons:
  "bs_wf ex \<Longrightarrow> wbits w \<noteq> 0 \<Longrightarrow> gains_loop ex (w # ws) =
     (wbits w AND NOT (bs_word ex (windex w)) \<noteq> 0 \<or>
      gains_loop (dropWhile (\<lambda>e. windex e < windex w) ex) ws)"
  using dropWhile_head [of ex "windex w"]
  by (cases "dropWhile (\<lambda>e. windex e < windex w) ex")
    (simp_all only: gains_loop.simps list.case Let_def, auto)

lemma gains_loop_iff:
  "bs_wf ex \<Longrightarrow> bs_wf ws \<Longrightarrow>
   gains_loop ex ws \<longleftrightarrow> (\<exists>k. bs_word ws k AND NOT (bs_word ex k) \<noteq> 0)"
proof (induction ws arbitrary: ex)
  case (Cons w ws)
  let ?ex = "dropWhile (\<lambda>e. windex e < windex w) ex"
  have "gains_loop ?ex ws \<longleftrightarrow> (\<exists>k. bs_word ws k AND NOT (bs_word ?ex k) \<noteq> 0)"
    using Cons wf_dropWhile by auto
  moreover have "bs_word ws k AND NOT (bs_word ?ex k) = bs_word ws k AND NOT (bs_word ex k)" for k
    using lookup_dropWhile [of ex "windex w" k] Cons.prems lookup_beyond [of ws "windex w" k]
    by (cases "windex w < k") auto
  moreover have "bs_word ws (windex w) = 0"
    using Cons.prems lookup_beyond [of ws "windex w" "windex w"] by auto
  ultimately have "gains_loop ex (w # ws) \<longleftrightarrow>
      wbits w AND NOT (bs_word ex (windex w)) \<noteq> 0 \<or> (\<exists>k. bs_word ws k AND NOT (bs_word ex k) \<noteq> 0)"
    using Cons.prems gains_loop_Cons [of ex w ws] by simp
  also have "\<dots> \<longleftrightarrow> (\<exists>k. bs_word (w # ws) k AND NOT (bs_word ex k) \<noteq> 0)"
    using \<open>bs_word ws (windex w) = 0\<close> by (metis and_zero_eq bit.conj_zero_left bs_word.simps(2))
  finally show ?case .
qed simp

lemma merge_loop_windex:
  "merge_loop as bs ch = (m, c) \<Longrightarrow> v \<in> set m \<Longrightarrow>
   \<exists>u \<in> set as \<union> set bs. windex u = windex v"
proof (induction as bs ch arbitrary: m c v rule: merge_loop.induct)
  case (4 a as b bs ch)
  then show ?case
    by (simp add: Let_def split: prod.splits if_splits; fastforce)
qed (fastforce split: prod.splits)+

lemma bit_word_eq: "\<lparr>windex = i, wbits = x\<rparr> = w \<longleftrightarrow> windex w = i \<and> wbits w = x"
  by (cases w) auto

lemma merge_loop_wf:
  "merge_loop as bs ch = (m, c) \<Longrightarrow> bs_wf as \<Longrightarrow> bs_wf bs \<Longrightarrow> bs_wf m"
proof (induction as bs ch arbitrary: m c rule: merge_loop.induct)
  case (2 a as ch)
  obtain m' c' where r: "merge_loop as [] ch = (m', c')" by fastforce
  with "2.IH" "2.prems" have "bs_wf m'" by auto
  moreover have "windex a < windex v" if "v \<in> set m'" for v
    using merge_loop_windex [OF r that] "2.prems" by auto
  ultimately show ?case using r "2.prems" by auto
next
  case (3 b bs ch)
  obtain m' c' where r: "merge_loop [] bs True = (m', c')" by fastforce
  with "3.IH" "3.prems" have "bs_wf m'" by auto
  moreover have "windex b < windex v" if "v \<in> set m'" for v
    using merge_loop_windex [OF r that] "3.prems" by auto
  ultimately show ?case using r "3.prems" by auto
next
  case (4 a as b bs ch)
  consider (lt) "windex a < windex b" | (gt) "windex b < windex a" | (eq) "windex a = windex b"
    by linarith
  then show ?case
  proof cases
    case lt
    obtain m' c' where r: "merge_loop as (b # bs) ch = (m', c')" by fastforce
    with lt "4.IH"(1) "4.prems" have "bs_wf m'" by auto
    moreover have "windex a < windex v" if "v \<in> set m'" for v
      using merge_loop_windex [OF r that] "4.prems" lt by auto
    ultimately show ?thesis using r lt "4.prems" by auto
  next
    case gt
    obtain m' c' where r: "merge_loop (a # as) bs True = (m', c')" by fastforce
    with gt "4.IH"(2) "4.prems" have "bs_wf m'" by auto
    moreover have "windex b < windex v" if "v \<in> set m'" for v
      using merge_loop_windex [OF r that] "4.prems" gt by auto
    ultimately show ?thesis using r gt "4.prems" by auto
  next
    case eq
    obtain m' c' where r: "merge_loop as bs (ch \<or> wbits a OR wbits b \<noteq> wbits a) = (m', c')"
      by fastforce
    with eq "4.IH"(3) "4.prems" have "bs_wf m'" by auto
    moreover have "windex a < windex v" if "v \<in> set m'" for v
      using merge_loop_windex [OF r that] "4.prems" eq by auto
    ultimately show ?thesis
      using r eq "4.prems" by (auto simp: Let_def or_eq_0_iff)
  qed
qed auto

lemma merge_loop_lookup:
  "merge_loop as bs ch = (m, c) \<Longrightarrow> bs_wf as \<Longrightarrow> bs_wf bs \<Longrightarrow>
   bs_word m k = bs_word as k OR bs_word bs k"
proof (induction as bs ch arbitrary: m c rule: merge_loop.induct)
  case (4 a as b bs ch)
  then show ?case
    using lookup_beyond [of as "windex a" k] lookup_beyond [of bs "windex b" k]
    by (auto simp: Let_def split: prod.splits if_splits)
qed (auto split: prod.splits)

lemma merge_loop_changed:
  "merge_loop as bs ch = (m, c) \<Longrightarrow> bs_wf as \<Longrightarrow> bs_wf bs \<Longrightarrow> c \<longleftrightarrow> ch \<or> m \<noteq> as"
proof (induction as bs ch arbitrary: m c rule: merge_loop.induct)
  case (3 b bs ch)
  then show ?case by (auto split: prod.splits)
next
  case (4 a as b bs ch)
  then show ?case
    by (auto simp: Let_def bit_word_eq split: prod.splits if_splits)
qed (auto split: prod.splits)

section \<open>Visiting bits\<close>

text \<open>\<open>bits &= bits - 1\<close> clears the lowest set bit, the one \<open>countr_zero\<close> names.\<close>

lemma takeWhile_upt_find: "n < m \<Longrightarrow> P n \<Longrightarrow> (\<forall>k < n. \<not> P k) \<Longrightarrow> takeWhile (\<lambda>k. \<not> P k) [0..<m] = [0..<n]"
proof -
  assume n: "n < m" "P n" "\<forall>k < n. \<not> P k"
  have "[0..<m] = [0..<n] @ n # [Suc n..<m]"
    using n(1) by (rule upt_split_at)
  then show ?thesis using n(2,3) by (simp add: takeWhile_append)
qed

lemma lowest_bit:
  assumes "(w :: u64) \<noteq> 0"
  obtains n where "n < 64" "bit w n" "\<forall>k < n. \<not> bit w k" "countr_zero w = n"
    "[0..<64] = [0..<n] @ n # [Suc n..<64]"
proof -
  have ex: "\<exists>n. bit w n" using assms by (auto simp: bit_eq_iff)
  define n where "n = (LEAST n. bit w n)"
  have b: "bit w n" unfolding n_def using ex by (rule LeastI_ex)
  have l: "\<forall>k < n. \<not> bit w k" unfolding n_def using not_less_Least by blast
  have "n < 64" using b bit_imp_le_length by fastforce
  then have "countr_zero w = n"
    using b l by (simp add: countr_zero_def takeWhile_upt_find)
  moreover have "[0..<64] = [0..<n] @ n # [Suc n..<64]"
    using \<open>n < 64\<close> by (rule upt_split_at)
  ultimately show ?thesis using that \<open>n < 64\<close> b l by blast
qed

lemma bit_and_minus_one:
  assumes "n < 64" "bit (w :: u64) n" "\<forall>k < n. \<not> bit w k"
  shows "bit (w AND (w - 1)) k \<longleftrightarrow> bit w k \<and> k \<noteq> n"
proof -
  define u where "u = w AND NOT (2 ^ n)"
  have bu: "bit u k \<longleftrightarrow> bit w k \<and> k \<noteq> n" for k
    using assms(1) by (auto simp: u_def bit_and_iff bit_not_iff bit_exp_iff dest: bit_imp_le_length)
  have "w = u OR 2 ^ n"
    using assms(1,2) by (intro bit_word_eqI) (auto simp: bu bit_or_iff bit_exp_iff)
  also have "\<dots> = u + 2 ^ n"
    using assms(1) by (intro disjunctive_add_eq_or [symmetric] bit_word_eqI)
      (auto simp: bit_and_iff bu bit_exp_iff)
  finally have "w - 1 = u + mask n" by (simp add: mask_eq_exp_minus_1)
  also have "\<dots> = u OR mask n"
    using assms(3) by (intro disjunctive_add_eq_or bit_word_eqI) (auto simp: bit_and_iff bu bit_mask_iff)
  finally show ?thesis using assms(1,3) by (auto simp: bit_and_iff bit_or_iff bu bit_mask_iff)
qed

lemma bit_positions_filter: "bit_positions w = filter (bit w) [0..<64]"
proof (induction w rule: bit_positions.induct)
  case (1 w)
  show ?case
  proof (cases "w = 0")
    case True
    then show ?thesis by (simp add: bit_positions.simps [of 0])
  next
    case False
    obtain n where n: "n < 64" "bit w n" "\<forall>k < n. \<not> bit w k" "countr_zero w = n"
      "[0..<64] = [0..<n] @ n # [Suc n..<64]"
      using lowest_bit [OF False] by metis
    have low: "filter Q [0..<n] = []" if "\<forall>k < n. \<not> Q k" for Q
      using that by (auto simp: filter_empty_conv)
    have "filter (bit (w AND (w - 1))) [0..<64] = filter (bit w) [Suc n..<64]"
      unfolding n(5) filter_append
      using low [of "bit (w AND (w - 1))"] bit_and_minus_one [OF n(1-3)] n(3)
      by (auto intro: filter_cong)
    moreover have "filter (bit w) [0..<64] = n # filter (bit w) [Suc n..<64]"
      unfolding n(5) filter_append using low [OF n(3)] n(2) by simp
    ultimately show ?thesis
      using False 1 n(4) by (simp add: bit_positions.simps [of w])
  qed
qed

lemma fold_clear_bits:
  "bit (fold (\<lambda>pos acc. if P pos then acc AND NOT (push_bit pos 1) else acc) ps (w :: u64)) k \<longleftrightarrow>
   bit w k \<and> \<not> (k \<in> set ps \<and> P k)"
proof (induction ps arbitrary: w)
  case (Cons p ps)
  then show ?case
    by (auto simp: bit_and_iff bit_not_iff bit_exp_iff dest: bit_imp_le_length)
qed simp

lemma set_erase_if_loop: "windex ` set (erase_if_loop p ws) \<subseteq> windex ` set ws"
  by (induction ws) (auto simp: Let_def)

lemma wf_erase_if_loop: "bs_wf ws \<Longrightarrow> bs_wf (erase_if_loop p ws)"
proof (induction ws)
  case (Cons w ws)
  have "windex w < windex v" if "v \<in> set (erase_if_loop p ws)" for v
    using that Cons.prems set_erase_if_loop [of p ws] by auto
  with Cons show ?case by (auto simp: Let_def)
qed simp

lemma bit_erase_if_loop:
  "bs_wf ws \<Longrightarrow> k < 64 \<Longrightarrow>
   bit (bs_word (erase_if_loop p ws) i) k \<longleftrightarrow> bit (bs_word ws i) k \<and> \<not> p (i * 64 + k)"
proof (induction ws)
  case (Cons w ws)
  have "windex w \<notin> windex ` set ws" using Cons.prems by auto
  then have "windex w \<notin> windex ` set (erase_if_loop p ws)"
    using set_erase_if_loop [of p ws] by (rule contra_subsetD [rotated])
  then have zero: "bs_word (erase_if_loop p ws) i = 0" if "i = windex w"
    using that by (simp add: lookup_notin)
  define bits where "bits = fold (\<lambda>pos acc. if p (windex w * 64 + pos)
    then acc AND NOT (push_bit pos 1) else acc) (bit_positions (wbits w)) (wbits w)"
  have bits: "bit bits k \<longleftrightarrow> bit (wbits w) k \<and> \<not> p (windex w * 64 + k)"
    using Cons.prems(2) fold_clear_bits [of "\<lambda>pos. p (windex w * 64 + pos)"]
    by (auto simp: bits_def bit_positions_filter)
  have loop: "erase_if_loop p (w # ws) = (if bits \<noteq> 0 then w\<lparr>wbits := bits\<rparr> # erase_if_loop p ws
    else erase_if_loop p ws)"
    by (simp add: bits_def Let_def)
  show ?case
  proof (cases "i = windex w")
    case True
    then show ?thesis unfolding loop using bits zero by (cases "bits = 0") auto
  next
    case False
    then show ?thesis unfolding loop using Cons by auto
  qed
qed simp

lemma bs_elems_erase_if: "bs_wf ws \<Longrightarrow> bs_elems (bs_erase_if p ws) = {b \<in> bs_elems ws. \<not> p b}"
  by (auto simp: bs_erase_if_def mem_elems bit_erase_if_loop)

text \<open>The visitor sees every element once, in increasing order.\<close>

lemma lookup_Cons_elems:
  assumes "bs_word ws (windex w) = 0"
  shows "bs_elems (w # ws) = (\<lambda>p. windex w * 64 + p) ` {p. bit (wbits w) p} \<union> bs_elems ws"
proof (rule set_eqI)
  fix c
  have low: "p < 64" if "bit (wbits w) p" for p
    using that by (auto dest: bit_imp_le_length)
  show "c \<in> bs_elems (w # ws) \<longleftrightarrow>
    c \<in> (\<lambda>p. windex w * 64 + p) ` {p. bit (wbits w) p} \<union> bs_elems ws"
  proof (cases "c div 64 = windex w")
    case True
    then have c: "c = windex w * 64 + c mod 64" by (metis div_mult_mod_eq)
    have "c \<in> (\<lambda>p. windex w * 64 + p) ` {p. bit (wbits w) p} \<longleftrightarrow> bit (wbits w) (c mod 64)"
      unfolding image_iff using c by (metis add_left_cancel mem_Collect_eq)
    then show ?thesis using True assms by (simp add: mem_elems)
  next
    case False
    then have "c \<notin> (\<lambda>p. windex w * 64 + p) ` {p. bit (wbits w) p}"
      by (auto dest!: low)
    then show ?thesis using False by (simp add: mem_elems)
  qed
qed

lemma set_bs_for_each: "bs_wf ws \<Longrightarrow> set (bs_for_each ws) = bs_elems ws"
proof (induction ws)
  case Nil
  then show ?case by (auto simp: bs_for_each_def mem_elems)
next
  case (Cons w ws)
  have "bs_word ws (windex w) = 0"
    using Cons.prems lookup_beyond [of ws "windex w" "windex w"] by auto
  then have "bs_elems (w # ws) = (\<lambda>p. windex w * 64 + p) ` {p. bit (wbits w) p} \<union> bs_elems ws"
    using lookup_Cons_elems by simp
  moreover have "set (bit_positions v) = {p. bit v p}" for v
    by (auto simp: bit_positions_filter dest: bit_imp_le_length)
  ultimately show ?case using Cons by (simp add: bs_for_each_def)
qed

lemma sorted_bs_for_each: "bs_wf ws \<Longrightarrow> sorted_wrt (<) (bs_for_each ws)"
proof (induction ws)
  case (Cons w ws)
  have "x < y" if x: "x \<in> (\<lambda>p. windex w * 64 + p) ` set (bit_positions (wbits w))"
    and y: "y \<in> set (bs_for_each ws)" for x y
  proof -
    have "x < windex w * 64 + 64" using x by (auto simp: bit_positions_filter)
    obtain v p where v: "v \<in> set ws" "y = windex v * 64 + p"
      using y by (auto simp: bs_for_each_def)
    then have "windex w + 1 \<le> windex v" using Cons.prems by auto
    then have "(windex w + 1) * 64 \<le> windex v * 64" by (rule mult_le_mono1)
    with \<open>x < _\<close> v show ?thesis by simp
  qed
  moreover have "sorted_wrt (<) (map (\<lambda>p. windex w * 64 + p) (bit_positions (wbits w)))"
    by (simp add: bit_positions_filter sorted_wrt_map sorted_wrt_filter flip: strict_sorted_iff)
  ultimately show ?case
    using Cons by (auto simp: bs_for_each_def sorted_wrt_append)
qed (simp add: bs_for_each_def)

section \<open>The interface\<close>

text \<open>
  What the dataflow passes rely on: every operation keeps the representation invariant and is the
  operation on sets its name says, and \<open>union_with\<close> reports exactly whether the set grew.
\<close>

locale sparse_set =
  fixes empty :: "'s"
    and insert' :: "nat \<Rightarrow> 's \<Rightarrow> 's"
    and erase :: "nat \<Rightarrow> 's \<Rightarrow> 's"
    and contains :: "nat \<Rightarrow> 's \<Rightarrow> bool"
    and union_with :: "'s \<Rightarrow> 's \<Rightarrow> 's \<times> bool"
    and subtract :: "'s \<Rightarrow> 's \<Rightarrow> 's"
    and intersect_with :: "'s \<Rightarrow> 's \<Rightarrow> 's"
    and elements :: "'s \<Rightarrow> nat set"
    and invar :: "'s \<Rightarrow> bool"
  assumes empty: "elements empty = {}" "invar empty"
    and insert': "invar s \<Longrightarrow> elements (insert' b s) = insert b (elements s)"
    and invar_insert': "invar s \<Longrightarrow> invar (insert' b s)"
    and erase: "invar s \<Longrightarrow> elements (erase b s) = elements s - {b}"
    and invar_erase: "invar s \<Longrightarrow> invar (erase b s)"
    and contains: "invar s \<Longrightarrow> contains b s \<longleftrightarrow> b \<in> elements s"
    and union_with: "invar s \<Longrightarrow> invar t \<Longrightarrow> elements (fst (union_with s t)) = elements s \<union> elements t"
    and invar_union_with: "invar s \<Longrightarrow> invar t \<Longrightarrow> invar (fst (union_with s t))"
    and changed_union_with: "invar s \<Longrightarrow> invar t \<Longrightarrow> snd (union_with s t) \<longleftrightarrow> \<not> elements t \<subseteq> elements s"
    and subtract: "invar s \<Longrightarrow> invar t \<Longrightarrow> elements (subtract s t) = elements s - elements t"
    and invar_subtract: "invar s \<Longrightarrow> invar t \<Longrightarrow> invar (subtract s t)"
    and intersect_with: "invar s \<Longrightarrow> invar t \<Longrightarrow> elements (intersect_with s t) = elements s \<inter> elements t"
    and invar_intersect_with: "invar s \<Longrightarrow> invar t \<Longrightarrow> invar (intersect_with s t)"
    and canonical: "invar s \<Longrightarrow> invar t \<Longrightarrow> elements s = elements t \<longleftrightarrow> s = t"
begin

lemmas invars = empty(2) invar_insert' invar_erase invar_union_with invar_subtract invar_intersect_with

lemmas element_laws = empty(1) insert' erase contains union_with subtract intersect_with

lemma contains_insert': "invar s \<Longrightarrow> contains c (insert' b s) \<longleftrightarrow> c = b \<or> contains c s"
  by (simp add: element_laws invars)

lemma contains_erase: "invar s \<Longrightarrow> contains c (erase b s) \<longleftrightarrow> c \<noteq> b \<and> contains c s"
  by (auto simp add: element_laws invars)

lemma insert_erase: "invar s \<Longrightarrow> contains b s \<Longrightarrow> insert' b (erase b s) = s"
  by (subst canonical [symmetric]) (auto simp add: element_laws invars)

text \<open>The gen/kill transfer of a backward dataflow problem: \<open>in = (out - kill) \<union> gen\<close>.\<close>

lemma transfer:
  "invar out \<Longrightarrow> invar kill \<Longrightarrow> invar gen \<Longrightarrow>
   elements (fst (union_with (subtract out kill) gen)) = (elements out - elements kill) \<union> elements gen"
  by (simp add: element_laws invars)

lemma unchanged_union_with:
  "invar s \<Longrightarrow> invar t \<Longrightarrow> \<not> snd (union_with s t) \<longleftrightarrow> fst (union_with s t) = s"
  by (subst canonical [symmetric]) (auto simp add: changed_union_with union_with invars)

end

lemma bs_elems_contains: "bs_wf ws \<Longrightarrow> bs_contains b ws \<longleftrightarrow> b \<in> bs_elems ws"
  by (simp add: bs_contains_lookup mem_elems)

lemma bs_elems_insert: "bs_wf ws \<Longrightarrow> bs_elems (bs_insert b ws) = insert b (bs_elems ws)"
proof (rule set_eqI)
  fix c assume "bs_wf ws"
  moreover have "c = b \<longleftrightarrow> c div 64 = b div 64 \<and> c mod 64 = b mod 64" by (metis div_mult_mod_eq)
  ultimately show "c \<in> bs_elems (bs_insert b ws) \<longleftrightarrow> c \<in> insert b (bs_elems ws)"
    by (auto simp: mem_elems lookup_bs_insert bit_or_iff bit_exp_iff)
qed

lemma bs_elems_erase: "bs_wf ws \<Longrightarrow> bs_elems (bs_erase b ws) = bs_elems ws - {b}"
proof (rule set_eqI)
  fix c assume "bs_wf ws"
  moreover have "c = b \<longleftrightarrow> c div 64 = b div 64 \<and> c mod 64 = b mod 64" by (metis div_mult_mod_eq)
  ultimately show "c \<in> bs_elems (bs_erase b ws) \<longleftrightarrow> c \<in> bs_elems ws - {b}"
    by (auto simp: mem_elems lookup_bs_erase bit_and_iff bit_not_iff bit_exp_iff)
qed

lemma bs_elems_subset_lookup:
  "bs_elems a \<subseteq> bs_elems b \<longleftrightarrow> (\<forall>k. bs_word a k AND NOT (bs_word b k) = 0)"
proof
  assume "bs_elems a \<subseteq> bs_elems b"
  then show "\<forall>k. bs_word a k AND NOT (bs_word b k) = 0"
    by (intro allI bit_word_eqI) (auto simp: bit_and_iff bit_not_iff bit_lookup_elems)
next
  assume *: "\<forall>k. bs_word a k AND NOT (bs_word b k) = 0"
  show "bs_elems a \<subseteq> bs_elems b"
  proof
    fix c assume "c \<in> bs_elems a"
    moreover have "\<not> bit (bs_word a (c div 64) AND NOT (bs_word b (c div 64))) (c mod 64)"
      using * by simp
    ultimately show "c \<in> bs_elems b" by (simp add: mem_elems bit_and_iff bit_not_iff)
  qed
qed

lemma bs_elems_intersect:
  "bs_wf a \<Longrightarrow> bs_wf b \<Longrightarrow> bs_elems (bs_intersect_with False a b) = bs_elems a \<inter> bs_elems b"
  by (auto simp: bs_intersect_with_def mem_elems lookup_intersect_loop bit_and_iff)

lemma bs_elems_subtract:
  "bs_wf a \<Longrightarrow> bs_wf b \<Longrightarrow> bs_elems (bs_subtract a b) = bs_elems a - bs_elems b"
  by (auto simp: bs_subtract_def mem_elems lookup_subtract_loop bit_and_iff bit_not_iff)

lemma merge_loop_elems:
  "merge_loop a b ch = (m, c) \<Longrightarrow> bs_wf a \<Longrightarrow> bs_wf b \<Longrightarrow> bs_elems m = bs_elems a \<union> bs_elems b"
  by (auto simp: mem_elems merge_loop_lookup bit_or_iff)

lemma bs_union_with_spec:
  assumes "bs_wf a" "bs_wf b" "bs_union_with False a b = (r, ch)"
  shows "bs_wf r \<and> bs_elems r = bs_elems a \<union> bs_elems b \<and> (ch \<longleftrightarrow> \<not> bs_elems b \<subseteq> bs_elems a)"
proof -
  have nil: "bs_elems [] = {}" by (auto simp: mem_elems)
  have gain: "gains_loop a b \<longleftrightarrow> \<not> bs_elems b \<subseteq> bs_elems a"
    using gains_loop_iff [OF assms(1,2)] by (simp add: bs_elems_subset_lookup)
  show ?thesis
  proof (cases "a = [] \<or> b = [] \<or> \<not> gains_loop a b")
    case True
    then show ?thesis
      using assms gain nil wf_elems_inj [of b "[]"]
      by (auto simp: bs_union_with_def bs_empty_def split: if_splits)
  next
    case False
    obtain m c where mc: "merge_loop a b False = (m, c)" by fastforce
    note m = merge_loop_wf [OF mc assms(1,2)] merge_loop_elems [OF mc assms(1,2)]
      merge_loop_changed [OF mc assms(1,2)]
    then have "c" using False gain wf_elems_inj [OF m(1) assms(1)] by auto
    with False mc m gain assms(3) show ?thesis
      by (auto simp: bs_union_with_def bs_empty_def)
  qed
qed

lemma wf_bs_subtract: "bs_wf a \<Longrightarrow> bs_wf (bs_subtract a b)"
  by (simp add: bs_subtract_def wf_subtract_loop)

lemma wf_bs_intersect: "bs_wf a \<Longrightarrow> bs_wf (bs_intersect_with False a b)"
  by (simp add: bs_intersect_with_def wf_intersect_loop)

lemma bs_elems_Nil [simp]: "bs_elems [] = {}"
  by (auto simp: mem_elems)

interpretation bits: sparse_set "[]" bs_insert bs_erase bs_contains "bs_union_with False" bs_subtract
  "bs_intersect_with False" bs_elems bs_wf
proof
  fix s t :: bitset and b :: nat
  assume s: "bs_wf s" and t: "bs_wf t"
  obtain r ch where u: "bs_union_with False s t = (r, ch)" by fastforce
  note spec = bs_union_with_spec [OF s t u]
  show "bs_elems (fst (bs_union_with False s t)) = bs_elems s \<union> bs_elems t"
    and "bs_wf (fst (bs_union_with False s t))"
    and "snd (bs_union_with False s t) \<longleftrightarrow> \<not> bs_elems t \<subseteq> bs_elems s"
    using spec u by simp_all
qed (simp_all add: bs_elems_insert wf_bs_insert bs_elems_erase wf_bs_erase bs_elems_contains
      bs_elems_subtract bs_elems_intersect wf_elems_inj wf_bs_subtract wf_bs_intersect)

section \<open>Properties\<close>

text \<open>C39: on well-formed sets, \<open>union_with\<close> (both the aliased call and the call on another set) keeps
  the representation well formed, stores the union, and returns true exactly when the set grew.\<close>

theorem union_with_refines:
  assumes "bs_wf a" "bs_wf b" "bs_union_with same a b = (r, changed)" "same \<Longrightarrow> a = b"
  shows "bs_wf r \<and> bs_elems r = bs_elems a \<union> bs_elems b \<and>
    (changed \<longleftrightarrow> bs_elems r \<noteq> bs_elems a)"
proof (cases same)
  case True
  with assms show ?thesis by (auto simp: bs_union_with_def)
next
  case False
  with assms bs_union_with_spec [of a b r changed] show ?thesis by auto
qed

theorem union_with_refines_witness:
  "bs_union_with False [\<lparr>windex = 0, wbits = 5\<rparr>] [\<lparr>windex = 0, wbits = 4\<rparr>, \<lparr>windex = 2, wbits = 8\<rparr>] =
     ([\<lparr>windex = 0, wbits = 5\<rparr>, \<lparr>windex = 2, wbits = 8\<rparr>], True) \<and>
   bs_elems [\<lparr>windex = 0, wbits = 5\<rparr>, \<lparr>windex = 2, wbits = 8\<rparr>] =
     bs_elems [\<lparr>windex = 0, wbits = 5\<rparr>] \<union> bs_elems [\<lparr>windex = 0, wbits = 4\<rparr>, \<lparr>windex = 2, wbits = 8\<rparr>]"
proof -
  have e: "bs_union_with False [\<lparr>windex = 0, wbits = 5\<rparr>] [\<lparr>windex = 0, wbits = 4\<rparr>, \<lparr>windex = 2, wbits = 8\<rparr>] =
     ([\<lparr>windex = 0, wbits = 5\<rparr>, \<lparr>windex = 2, wbits = 8\<rparr>], True)"
    by (simp add: bs_union_with_def bs_empty_def)
  from union_with_refines [OF _ _ e] e show ?thesis by simp
qed

text \<open>On a well-formed set, insertion, removal, intersection, difference and filtering are the
  operations on sets of bit numbers, and membership tests and visits report that set in order.\<close>

lemma set_operations_refine:
  assumes "bs_wf a" "bs_wf b"
  shows "bs_elems (bs_insert n a) = insert n (bs_elems a) \<and> bs_elems (bs_erase n a) = bs_elems a - {n} \<and>
    (bs_contains n a \<longleftrightarrow> n \<in> bs_elems a) \<and>
    bs_elems (bs_intersect_with False a b) = bs_elems a \<inter> bs_elems b \<and>
    bs_elems (bs_subtract a b) = bs_elems a - bs_elems b \<and>
    bs_elems (bs_erase_if p a) = {m \<in> bs_elems a. \<not> p m} \<and>
    set (bs_for_each a) = bs_elems a \<and> sorted_wrt (<) (bs_for_each a)"
  using assms by (simp add: bits.element_laws bs_elems_erase_if set_bs_for_each sorted_bs_for_each)

text \<open>The representation is canonical, so the defaulted \<open>operator==\<close> decides equality of sets.\<close>

lemma equality_is_set_equality:
  assumes "bs_wf a" "bs_wf b"
  shows "a = b \<longleftrightarrow> bs_elems a = bs_elems b"
  using bits.canonical [OF assms] by simp

end
