(* ===== verification/Compression.thy ===== *)
theory Compression
  imports Prelude
begin

text \<open>
  The checked MIR compression of \<open>lib/Serialization/Compression.cpp\<close>: the multiplicative block
  hash, the LZ-style \<open>Compressor\<close> with its 65536-entry chained hash table, and the bounded
  \<open>Decompressor\<close>.  A \<open>std::span\<close> cursor is the list of the bytes not yet consumed.  The table is
  a function from indices to entries; the sentinel \<open>UINT32_MAX\<close> keeps its value.  Loops that
  follow table pointers are \<open>partial_function (option)\<close>, so that not returning is the value
  \<open>None\<close>; that they return is part of the round-trip property.  The decompressor's \<open>block_\<close> and
  \<open>indices_\<close> buffers are modelled by the prefixes written so far (\<open>produced\<close> and \<open>count\<close> are
  their lengths): no read of the code goes beyond these prefixes once its guards are passed.
\<close>

section \<open>Hash\<close>

definition block_size :: nat where "block_size = 2 ^ 18"
definition table_size :: nat where "table_size = block_size div 4"

definition no_entry :: nat where "no_entry = UINT32_MAX"

lemma block_size_pos [simp]: "0 < block_size" by (simp add: block_size_def)
lemma table_size_pos [simp]: "0 < table_size" by (simp add: table_size_def block_size_def)
lemma table_size_no_entry: "table_size < no_entry"
  by (simp add: table_size_def block_size_def no_entry_def)

definition low32 :: "u64 \<Rightarrow> u64" where
  "low32 v = v AND mask 32"

definition multiply :: "u64 \<Rightarrow> u64 \<Rightarrow> u64" where
  "multiply v c =
    (let middle = low32 v * drop_bit 32 c + drop_bit 32 v * low32 c
     in drop_bit 32 v * drop_bit 32 c + drop_bit 32 middle + low32 v * low32 c + push_bit 32 middle)"

definition hash_p1 :: u64 where "hash_p1 = 0x65862b62bdf5ef4d"
definition hash_p2 :: u64 where "hash_p2 = 0x288eea216831e6a7"

definition hash_part :: "bytes \<Rightarrow> u64" where
  "hash_part s = foldl (\<lambda>value b. drop_bit 8 value OR push_bit 56 (ucast b)) 0 s"

function hash_rounds :: "bytes \<Rightarrow> u64 \<Rightarrow> bytes \<times> u64" where
  "hash_rounds bs r =
    (if 16 \<le> length bs then
       let r = r XOR multiply (hash_part (take 8 bs)) hash_p1;
           r = r XOR multiply (hash_part (take 8 (drop 8 bs))) hash_p2;
           r = r XOR multiply r hash_p1
       in hash_rounds (drop 16 bs) r
     else (bs, r))"
  by auto
termination by (relation "measure (length \<circ> fst)") auto

declare hash_rounds.simps [simp del]

definition hash_bytes :: "bytes \<Rightarrow> u64 \<Rightarrow> u64" where
  "hash_bytes bs seed =
    (let (bs, r) = hash_rounds bs (seed + of_nat (length bs));
         (bs, r) = (if 8 \<le> length bs then (drop 8 bs, r XOR multiply (hash_part (take 8 bs)) hash_p1) else (bs, r));
         r = (if bs \<noteq> [] then r XOR multiply (hash_part bs) hash_p2 else r);
         r = r XOR multiply r hash_p1
     in r XOR multiply r hash_p2)"

section \<open>Variable-length integers\<close>

function integer_count :: "nat \<Rightarrow> nat \<Rightarrow> nat" where
  "integer_count value count =
    (if count \<le> 4 \<and> 2 ^ (7 * count) \<le> value then integer_count value (count + 1) else count)"
  by auto
termination by (relation "measure (\<lambda>(v, c). 5 - c)") auto

declare integer_count.simps [simp del]

definition put_integer :: "bytes \<Rightarrow> nat \<Rightarrow> bytes" where
  "put_integer out value =
    (let count = integer_count value 1
     in out @ of_nat (2 ^ (8 - count) OR (drop_bit ((count - 1) * 8) value AND 255))
          # map (\<lambda>n. of_nat (drop_bit ((count - n) * 8) value)) [2..<count + 1])"

definition integer_size :: "nat \<Rightarrow> nat" where
  "integer_size value = (if value < 2 ^ 7 then 1 else if value < 2 ^ 14 then 2 else if value < 2 ^ 21 then 3 else 4)"

section \<open>The compressor\<close>

record entry =
  entry_position :: nat
  entry_number :: nat
  entry_next :: nat
  entry_head :: nat

record compressor =
  c_table :: "nat \<Rightarrow> entry"
  c_output :: bytes
  c_literal :: bytes
  c_free :: nat
  c_number :: nat

definition flush :: "nat \<Rightarrow> compressor \<Rightarrow> compressor" where
  "flush reference s =
    (let len = length (c_literal s)
     in if len = 0 \<and> reference = 0 then s
        else let out = c_output s @ [of_nat (push_bit 5 (min len 7) OR reference)];
                 out = (if 7 \<le> len then put_integer out len else out)
             in s\<lparr>c_output := out @ c_literal s, c_literal := []\<rparr>)"

partial_function (option) chain_last :: "(nat \<Rightarrow> entry) \<Rightarrow> nat \<Rightarrow> nat \<Rightarrow> (nat \<times> nat) option" where
  "chain_last table previous current =
    (if current \<noteq> no_entry \<and> entry_next (table current) \<noteq> no_entry
     then chain_last table current (entry_next (table current))
     else Some (previous, current))"

definition hash_key :: "bytes \<Rightarrow> nat \<Rightarrow> nat" where
  "hash_key block position = unat (hash_bytes (take 4 (drop position block)) 24) mod table_size"

definition put_entry :: "(nat \<Rightarrow> entry) \<Rightarrow> nat \<Rightarrow> nat \<Rightarrow> nat \<Rightarrow> nat \<Rightarrow> nat \<Rightarrow> entry" where
  "put_entry table key current position number =
    (let table = table(current := (table current)\<lparr>entry_position := position\<rparr>);
         table = table(current := (table current)\<lparr>entry_number := number\<rparr>);
         table = table(current := (table current)\<lparr>entry_next := entry_head (table key)\<rparr>)
     in table(key := (table key)\<lparr>entry_head := current\<rparr>))"

definition insert_entry :: "bytes \<Rightarrow> nat \<Rightarrow> compressor \<Rightarrow> compressor option" where
  "insert_entry block position s =
    (let number = c_number s; s = s\<lparr>c_number := number + 1\<rparr>
     in if length block < position + 4 then Some s
        else let key = hash_key block position; current = c_free s
             in if current \<noteq> no_entry
                then Some (s\<lparr>c_free := entry_next (c_table s current),
                            c_table := put_entry (c_table s) key current position number\<rparr>)
                else Option.bind (chain_last (c_table s) no_entry (entry_head (c_table s key)))
                  (\<lambda>(previous, current).
                    if current = no_entry then Some s
                    else let after = entry_next (c_table s current);
                             table = (if previous \<noteq> no_entry
                                      then (c_table s)(previous := (c_table s previous)\<lparr>entry_next := after\<rparr>)
                                      else (c_table s)(key := (c_table s key)\<lparr>entry_head := after\<rparr>))
                         in Some (s\<lparr>c_table := put_entry table key current position number\<rparr>)))"

function match_length :: "bytes \<Rightarrow> nat \<Rightarrow> nat \<Rightarrow> nat \<Rightarrow> nat \<Rightarrow> nat" where
  "match_length block a b bound len =
    (if len < bound \<and> block ! (a + len) = block ! (b + len)
     then match_length block a b bound (len + 1) else len)"
  by auto
termination by (relation "measure (\<lambda>(block, a, b, bound, len). bound - len)") auto

declare match_length.simps [simp del]

record best = best_length :: nat best_size :: nat best_number :: nat

definition consider_match :: "nat \<Rightarrow> nat \<Rightarrow> nat \<Rightarrow> best \<Rightarrow> best" where
  "consider_match len number entry_no best =
    (if len < 4 then best
     else let offset = number - entry_no;
              size = integer_size offset + (if len - 3 < 31 then 0 else integer_size (len - 3))
          in if best_length best = 0 \<or> best_length best + size < len + best_size best
             then \<lparr>best_length = len, best_size = size, best_number = entry_no\<rparr> else best)"

partial_function (option) find_best ::
    "bytes \<Rightarrow> nat \<Rightarrow> nat \<Rightarrow> (nat \<Rightarrow> entry) \<Rightarrow> nat \<Rightarrow> best \<Rightarrow> best option" where
  "find_best block position number table current best =
    (if current = no_entry then Some best
     else let entry = table current;
              bound = min (length block - position) (position - entry_position entry);
              len = match_length block (entry_position entry) position bound 0
          in find_best block position number table (entry_next entry)
               (consider_match len number (entry_number entry) best))"

definition no_best :: best where
  "no_best = \<lparr>best_length = 0, best_size = 0, best_number = 0\<rparr>"

definition search_match :: "bytes \<Rightarrow> nat \<Rightarrow> compressor \<Rightarrow> best option" where
  "search_match block position s =
    (if position + 4 \<le> length block
     then find_best block position (c_number s) (c_table s)
            (entry_head (c_table s (hash_key block position))) no_best
     else Some no_best)"

definition emit_literal :: "u8 \<Rightarrow> compressor \<Rightarrow> compressor" where
  "emit_literal b s =
    (let s = (if length (c_literal s) = 2047 then flush 0 s else s)
     in s\<lparr>c_literal := c_literal s @ [b]\<rparr>)"

definition emit_reference :: "best \<Rightarrow> compressor \<Rightarrow> compressor" where
  "emit_reference best s =
    (let len = best_length best - 3;
         s = flush (min len 31) s;
         s = (if 31 \<le> len then s\<lparr>c_output := put_integer (c_output s) len\<rparr> else s)
     in s\<lparr>c_output := put_integer (c_output s) (c_number s - best_number best)\<rparr>)"

partial_function (option) encode_loop :: "bytes \<Rightarrow> nat \<Rightarrow> compressor \<Rightarrow> compressor option" where
  "encode_loop block position s =
    (if position < length block
     then Option.bind (search_match block position s) (\<lambda>best.
       if best_length best = 0
       then Option.bind (insert_entry block position (emit_literal (block ! position) s))
              (encode_loop block (position + 1))
       else Option.bind (insert_entry block position (emit_reference best s))
              (encode_loop block (position + best_length best)))
     else Some s)"

definition init_table :: "(nat \<Rightarrow> entry) \<Rightarrow> nat \<Rightarrow> entry" where
  "init_table table = (\<lambda>n. if n < table_size
     then (table n)\<lparr>entry_next := (if n = table_size - 1 then no_entry else n + 1), entry_head := no_entry\<rparr>
     else table n)"

definition encode :: "bytes \<Rightarrow> compressor \<Rightarrow> compressor option" where
  "encode block s =
    map_option (flush 0)
      (encode_loop block 0 (s\<lparr>c_table := init_table (c_table s), c_free := 0, c_number := 0\<rparr>))"

function compress_blocks :: "bytes \<Rightarrow> u64 \<Rightarrow> compressor \<Rightarrow> (u64 \<times> compressor) option" where
  "compress_blocks bs checksum s =
    (if bs = [] then Some (checksum, s)
     else let block = take block_size bs; checksum = hash_bytes block checksum
          in Option.bind (encode block s) (compress_blocks (drop block_size bs) checksum))"
  by auto
termination by (relation "measure (\<lambda>(bs, _). length bs)") auto

declare compress_blocks.simps [simp del]

definition mir_prefix :: bytes where "mir_prefix = [0x4D, 0x49, 0x52]"

definition new_compressor :: compressor where
  "new_compressor =
    \<lparr>c_table = (\<lambda>_. \<lparr>entry_position = 0, entry_number = 0, entry_next = no_entry, entry_head = no_entry\<rparr>),
     c_output = [], c_literal = [], c_free = 0, c_number = 0\<rparr>"

definition run_compressor :: "bytes \<Rightarrow> bytes option" where
  "run_compressor bs =
    map_option (\<lambda>(checksum, s). c_output s @ [0] @ map (\<lambda>n. ucast (drop_bit (n * 8) checksum)) [0..<8])
      (compress_blocks bs 42 (new_compressor\<lparr>c_output := mir_prefix\<rparr>))"

definition compress :: "bytes \<Rightarrow> bytes result option" where
  "compress bs = map_option Inr (run_compressor bs)"

section \<open>The decompressor\<close>

definition invalid :: "string \<Rightarrow> 'a result" where
  "invalid m = mk_error InvalidOperand (''binary-compression: '' @ m)"

record decoder =
  d_input :: bytes
  d_maximum :: nat
  d_output :: bytes
  d_block :: bytes
  d_indices :: "nat list"
  d_checksum :: u64

definition get_byte :: "bytes \<Rightarrow> (nat \<times> bytes) result" where
  "get_byte inp = (case inp of [] \<Rightarrow> invalid ''truncated input'' | b # inp \<Rightarrow> Inr (unat b, inp))"

function tag_count :: "nat \<Rightarrow> nat \<Rightarrow> nat" where
  "tag_count value count =
    (if count \<le> 4 \<and> drop_bit (8 - count) value \<noteq> 1 then tag_count value (count + 1) else count)"
  by auto
termination by (relation "measure (\<lambda>(v, c). 5 - c)") auto

declare tag_count.simps [simp del]

fun get_more :: "nat \<Rightarrow> nat \<Rightarrow> bytes \<Rightarrow> (nat \<times> bytes) result" where
  "get_more 0 value inp = Inr (value, inp)"
| "get_more (Suc n) value inp =
    rbind (get_byte inp) (\<lambda>(b, inp). get_more n (value * 256 + b) inp)"

definition get_number :: "bytes \<Rightarrow> (nat \<times> bytes) result" where
  "get_number inp =
    rbind (get_byte inp) (\<lambda>(value, inp).
      let count = tag_count value 1
      in if 4 < count then invalid ''invalid integer tag''
         else get_more (count - 1) (value AND drop_bit count 255) inp)"

definition append_block :: "decoder \<Rightarrow> decoder result" where
  "append_block d =
    (if d_maximum d - length (d_output d) < length (d_block d)
     then invalid ''decompressed byte limit exceeded''
     else Inr (d\<lparr>d_output := d_output d @ d_block d\<rparr>))"

definition finish :: "decoder \<Rightarrow> bytes result" where
  "finish d =
    (if length (d_input d) \<noteq> 8 then invalid ''missing checksum or trailing bytes''
     else let checksum = (if d_block d \<noteq> [] then hash_bytes (d_block d) (d_checksum d) else d_checksum d);
              expected = foldl (\<lambda>v n. v OR push_bit (n * 8) (ucast (d_input d ! n))) 0 [0..<8]
          in if expected \<noteq> checksum then invalid ''checksum mismatch''
             else rbind (append_block d) (\<lambda>d. Inr (d_output d)))"

definition take_literals :: "nat \<Rightarrow> decoder \<Rightarrow> decoder result" where
  "take_literals tag d =
    rbind (if drop_bit 5 tag = 7 then get_number (d_input d) else Inr (drop_bit 5 tag, d_input d))
      (\<lambda>(literals, inp).
        if 2047 < literals \<or> block_size - length (d_block d) < literals \<or> length inp < literals
        then invalid ''invalid literal length''
        else Inr (d\<lparr>d_input := drop literals inp, d_block := d_block d @ take literals inp,
                    d_indices := d_indices d @ map (\<lambda>n. length (d_block d) + n) [0..<literals]\<rparr>))"

definition take_reference :: "nat \<Rightarrow> decoder \<Rightarrow> decoder result" where
  "take_reference tag d =
    (let len = tag AND 31; produced = length (d_block d); count = length (d_indices d)
     in if len = 0 then Inr d
        else rbind (if len = 31 then get_number (d_input d) else Inr (len, d_input d))
          (\<lambda>(len, inp).
            if len = 0 \<or> block_size - produced < len \<or> block_size - produced < len + 3
            then invalid ''invalid reference length''
            else let len = len + 3 in
              rbind (get_number inp) (\<lambda>(offset, inp).
                if offset = 0 \<or> count < offset then invalid ''invalid dictionary reference''
                else let source = d_indices d ! (count - offset)
                     in if produced < source \<or> produced - source < len
                        then invalid ''overlapping or uninitialized reference''
                        else Inr (d\<lparr>d_input := inp,
                                    d_block := d_block d @ take len (drop source (d_block d)),
                                    d_indices := d_indices d @ [produced]\<rparr>))))"

definition end_block :: "decoder \<Rightarrow> decoder result" where
  "end_block d =
    (if length (d_block d) = block_size
     then rbind (append_block (d\<lparr>d_checksum := hash_bytes (d_block d) (d_checksum d)\<rparr>))
            (\<lambda>d. Inr (d\<lparr>d_block := [], d_indices := []\<rparr>))
     else Inr d)"

datatype progress = Finished bytes | Continue decoder

definition decode_step :: "decoder \<Rightarrow> progress result" where
  "decode_step d =
    rbind (get_byte (d_input d)) (\<lambda>(tag, inp).
      let d = d\<lparr>d_input := inp\<rparr>
      in if tag = 0 then rbind (finish d) (\<lambda>out. Inr (Finished out))
         else rbind (take_literals tag d) (\<lambda>d.
              rbind (take_reference tag d) (\<lambda>d.
              rbind (end_block d) (\<lambda>d. Inr (Continue d)))))"

text \<open>Every iteration consumes at least the tag byte.\<close>

lemma get_byte_shrinks: "get_byte inp = Inr (b, rest) \<Longrightarrow> length inp = Suc (length rest)"
  by (auto simp: get_byte_def invalid_def split: list.splits)

lemma get_more_shrinks: "get_more n v inp = Inr (w, rest) \<Longrightarrow> length rest \<le> length inp"
  by (induction n v inp rule: get_more.induct) (fastforce simp: rbind_eq_Inr dest: get_byte_shrinks)+

lemma get_number_shrinks: "get_number inp = Inr (v, rest) \<Longrightarrow> length rest < length inp"
  by (auto simp: get_number_def rbind_eq_Inr Let_def invalid_def
        dest!: get_byte_shrinks get_more_shrinks split: if_splits)

lemma take_literals_shrinks: "take_literals t d = Inr d' \<Longrightarrow> length (d_input d') \<le> length (d_input d)"
  by (auto simp: take_literals_def rbind_eq_Inr Let_def invalid_def
        dest!: get_number_shrinks split: if_splits)

lemma take_reference_shrinks: "take_reference t d = Inr d' \<Longrightarrow> length (d_input d') \<le> length (d_input d)"
  by (auto simp: take_reference_def rbind_eq_Inr Let_def invalid_def
        dest!: get_number_shrinks split: if_splits)

lemma end_block_input: "end_block d = Inr d' \<Longrightarrow> d_input d' = d_input d"
  by (auto simp: end_block_def append_block_def rbind_eq_Inr invalid_def split: if_splits)

lemma decode_step_shrinks:
  assumes "decode_step d = Inr (Continue d')"
  shows "length (d_input d') < length (d_input d)"
proof -
  from assms obtain tag inp d1 d2 where
    b: "get_byte (d_input d) = Inr (tag, inp)"
    and l: "take_literals tag (d\<lparr>d_input := inp\<rparr>) = Inr d1"
    and r: "take_reference tag d1 = Inr d2" and e: "end_block d2 = Inr d'"
    by (auto simp: decode_step_def rbind_eq_Inr Let_def split: if_splits)
  from get_byte_shrinks [OF b] take_literals_shrinks [OF l] take_reference_shrinks [OF r] end_block_input [OF e]
  show ?thesis by simp
qed

function decode_loop :: "decoder \<Rightarrow> bytes result" where
  "decode_loop d =
    (case decode_step d of Inl e \<Rightarrow> Inl e
     | Inr (Finished out) \<Rightarrow> Inr out
     | Inr (Continue d') \<Rightarrow> decode_loop d')"
  by auto
termination
  by (relation "measure (length \<circ> d_input)") (auto dest: decode_step_shrinks)

declare decode_loop.simps [simp del]

definition decompress :: "bytes \<Rightarrow> nat \<Rightarrow> bytes result" where
  "decompress inp maximum =
    (if length inp < 3 \<or> take 3 inp \<noteq> mir_prefix then invalid ''invalid prefix''
     else decode_loop \<lparr>d_input = drop 3 inp, d_maximum = maximum, d_output = [], d_block = [],
                       d_indices = [], d_checksum = 42\<rparr>)"

section \<open>Integers round trip\<close>

lemma integer_count_eq:
  "integer_count v 1 = (if v < 2 ^ 7 then 1 else if v < 2 ^ 14 then 2 else if v < 2 ^ 21 then 3
                        else if v < 2 ^ 28 then 4 else 5)"
  by (simp add: integer_count.simps)

lemma or_nat_disjoint:
  assumes "x < 2 ^ k" shows "2 ^ k OR x = 2 ^ k + (x::nat)"
proof -
  have "take_bit k x = x" using assms by (rule take_bit_nat_eq_self)
  then have "\<not> bit x k" by (metis bit_take_bit_iff less_irrefl)
  then have "2 ^ k AND x = 0" by (auto simp: bit_eq_iff [of _ "0::nat"] bit_and_iff bit_exp_iff)
  then show ?thesis by (simp add: disjunctive_add_eq_or)
qed

lemma tag_count_eq:
  assumes "x < 2 ^ (8 - c)" "1 \<le> c" "c \<le> 4"
  shows "tag_count (2 ^ (8 - c) + x) 1 = c"
proof -
  from assms consider "c = 1" | "c = 2" | "c = 3" | "c = 4" by linarith
  then show ?thesis
    by cases (use assms(1) in \<open>simp_all add: tag_count.simps drop_bit_eq_div\<close>)
qed

lemma and_255_shift: "c \<le> 4 \<Longrightarrow> v AND drop_bit c 255 = v mod 2 ^ (8 - c)" for v :: nat
proof -
  assume c: "c \<le> 4"
  have "drop_bit c (255::nat) = mask (8 - c)"
  proof -
    from c consider "c = 0" | "c = 1" | "c = 2" | "c = 3" | "c = 4" by linarith
    then show ?thesis by cases (simp_all add: drop_bit_eq_div mask_eq_exp_minus_1)
  qed
  then show ?thesis by (simp add: take_bit_eq_mask [symmetric] take_bit_eq_mod)
qed

lemma and_255: "v AND 255 = v mod 256" for v :: nat
  using and_255_shift [of 0 v] by simp

lemma get_byte_Cons [simp]: "get_byte (b # bs) = Inr (unat b, bs)"
  by (simp add: get_byte_def)

lemma unat_byte: "unat (of_nat n :: u8) = n mod 256"
  by (simp add: unat_of_nat)

lemma get_number_tagged:
  assumes "x < 2 ^ (8 - c)" "1 \<le> c" "c \<le> 4"
  shows "get_number (of_nat (2 ^ (8 - c) OR x) # bs) = get_more (c - 1) x bs"
proof -
  have p: "2 ^ (8 - c) + x < (256::nat)"
  proof -
    from assms(2,3) consider "c = 1" | "c = 2" | "c = 3" | "c = 4" by linarith
    then show ?thesis by cases (use assms(1) in simp_all)
  qed
  have "(2 ^ (8 - c) + x) AND drop_bit c 255 = x"
    using assms by (simp add: and_255_shift)
  moreover have "unat (of_nat (2 ^ (8 - c) OR x) :: u8) = 2 ^ (8 - c) + x"
    unfolding or_nat_disjoint [OF assms(1)] unat_byte using p by simp
  moreover have "\<not> 4 < c" using assms by simp
  ultimately show ?thesis
    unfolding get_number_def get_byte_Cons rbind_Inr prod.case
    by (simp only: tag_count_eq [OF assms] Let_def if_False)
qed

lemma get_more_bytes:
  "get_more 2 v (a # b # bs) = Inr ((v * 256 + unat a) * 256 + unat b, bs)"
  "get_more 3 v (a # b # c # bs) = Inr (((v * 256 + unat a) * 256 + unat b) * 256 + unat c, bs)"
  by (simp_all add: numeral_2_eq_2 numeral_3_eq_3)

lemma bytes_of_nat:
  "65536 * (v div 65536) + v div 256 mod 256 * 256 + v mod 256 = (v::nat)"
  "16777216 * (v div 16777216) + 65536 * (v div 65536 mod 256) + v div 256 mod 256 * 256 + v mod 256 = (v::nat)"
proof -
  have d: "v div 65536 = v div 256 div 256" "v div 16777216 = v div 256 div 256 div 256"
    by (simp_all add: div_mult2_eq [symmetric])
  have "v = 256 * (v div 256) + v mod 256" by simp
  moreover have "v div 256 = 256 * (v div 256 div 256) + v div 256 mod 256" by simp
  moreover have "v div 256 div 256 = 256 * (v div 256 div 256 div 256) + v div 256 div 256 mod 256" by simp
  ultimately show "65536 * (v div 65536) + v div 256 mod 256 * 256 + v mod 256 = v"
    "16777216 * (v div 16777216) + 65536 * (v div 65536 mod 256) + v div 256 mod 256 * 256 + v mod 256 = v"
    unfolding d by linarith+
qed

lemma get_put_integer:
  assumes "v < 2 ^ 28"
  shows "\<exists>enc. put_integer out v = out @ enc \<and> (\<forall>rest. get_number (enc @ rest) = Inr (v, rest))"
proof -
  let ?c = "integer_count v 1"
  let ?x = "drop_bit ((?c - 1) * 8) v AND 255"
  let ?enc = "of_nat (2 ^ (8 - ?c) OR ?x) # map (\<lambda>n. of_nat (drop_bit ((?c - n) * 8) v)) [2..<?c + 1]"
  have "get_number (?enc @ rest) = Inr (v, rest)" for rest
  proof -
    from assms consider "v < 2 ^ 7" | "2 ^ 7 \<le> v" "v < 2 ^ 14" | "2 ^ 14 \<le> v" "v < 2 ^ 21"
      | "2 ^ 21 \<le> v" "v < 2 ^ 28" by linarith
    then show ?thesis
    proof cases
      case 1
      then have c: "?c = 1" by (simp only: integer_count_eq if_True)
      show ?thesis unfolding c using 1 get_number_tagged [of v 1 rest]
        by (simp add: and_255)
    next
      case 2
      then have c: "?c = 2" by (simp only: integer_count_eq if_True not_less [symmetric] if_False)
      have "v div 256 < 64" using 2 by (simp add: less_mult_imp_div_less)
      then show ?thesis unfolding c using get_number_tagged [of "v div 256" 2 "of_nat v # rest"]
        by (simp add: and_255 drop_bit_eq_div unat_byte upt_rec get_more_bytes bytes_of_nat)
    next
      case 3
      then have c: "?c = 3" by (simp add: integer_count_eq del: One_nat_def)
      have "v div 65536 < 32" using 3 by (simp add: less_mult_imp_div_less)
      then show ?thesis unfolding c
        using get_number_tagged [of "v div 65536" 3 "of_nat (v div 256) # of_nat v # rest"]
        by (simp add: and_255 drop_bit_eq_div unat_byte upt_rec get_more_bytes bytes_of_nat)
    next
      case 4
      then have c: "?c = 4" by (simp add: integer_count_eq del: One_nat_def)
      have "v div 16777216 < 16" using 4 by (simp add: less_mult_imp_div_less)
      then show ?thesis unfolding c
        using get_number_tagged [of "v div 16777216" 4 "of_nat (v div 65536) # of_nat (v div 256) # of_nat v # rest"]
        by (simp add: and_255 drop_bit_eq_div unat_byte upt_rec get_more_bytes bytes_of_nat)
    qed
  qed
  then show ?thesis unfolding put_integer_def by (intro exI [of _ ?enc]) (simp add: Let_def)
qed

section \<open>What the decompressor does with the emitted groups\<close>

text \<open>Closing the current group of \<open>d\<close> and decoding \<open>rest\<close> from there.\<close>

definition resume :: "decoder \<Rightarrow> bytes \<Rightarrow> bytes result" where
  "resume d rest = rbind (end_block d) (\<lambda>d. decode_loop (d\<lparr>d_input := rest\<rparr>))"

lemma end_block_commutes: "end_block (d\<lparr>d_input := i\<rparr>) = rbind (end_block d) (\<lambda>d. Inr (d\<lparr>d_input := i\<rparr>))"
  by (simp add: end_block_def append_block_def invalid_def mk_error_def)

lemma resume_open: "length (d_block d) < block_size \<Longrightarrow> resume d rest = decode_loop (d\<lparr>d_input := rest\<rparr>)"
  by (simp add: resume_def end_block_def)

lemma resume_input [simp]: "resume (d\<lparr>d_input := i\<rparr>) rest = resume d rest"
  unfolding resume_def end_block_commutes by (cases "end_block d") simp_all

lemma decode_loop_group:
  assumes "tag \<noteq> 0" and l: "take_literals (unat tag) (d\<lparr>d_input := inp\<rparr>) = Inr d1"
    and r: "take_reference (unat tag) d1 = Inr (d2\<lparr>d_input := rest\<rparr>)"
  shows "decode_loop (d\<lparr>d_input := tag # inp\<rparr>) = resume d2 rest"
proof -
  have "unat tag \<noteq> 0" using assms(1) by (simp add: unat_eq_0)
  moreover have "d\<lparr>d_input := tag # inp, d_input := inp\<rparr> = d\<lparr>d_input := inp\<rparr>" by simp
  ultimately have step: "decode_step (d\<lparr>d_input := tag # inp\<rparr>) =
      rbind (end_block (d2\<lparr>d_input := rest\<rparr>)) (\<lambda>d. Inr (Continue d))"
    using l r by (simp add: decode_step_def)
  show ?thesis
    unfolding resume_def decode_loop.simps [of "d\<lparr>d_input := tag # inp\<rparr>"] step end_block_commutes
    by (cases "end_block d2") simp_all
qed

definition tag_byte :: "nat \<Rightarrow> nat \<Rightarrow> u8" where
  "tag_byte n r = of_nat (push_bit 5 (min n 7) OR r)"

lemma tag_byte_fields:
  assumes "r < 32"
  shows "drop_bit 5 (unat (tag_byte n r)) = min n 7" "unat (tag_byte n r) AND 31 = r"
    "n \<noteq> 0 \<or> r \<noteq> 0 \<Longrightarrow> tag_byte n r \<noteq> 0"
proof -
  have "take_bit 5 r = r" using assms by (intro take_bit_nat_eq_self) simp
  then have "\<not> bit r k" if "5 \<le> k" for k using that by (metis bit_take_bit_iff not_less)
  then have "push_bit 5 (min n 7) AND r = 0"
    by (auto simp: bit_eq_iff [of _ "0::nat"] bit_and_iff bit_push_bit_iff)
  then have e: "push_bit 5 (min n 7) OR r = 32 * min n 7 + r"
    by (simp add: disjunctive_add_eq_or [symmetric] push_bit_eq_mult)
  have "32 * min n 7 + r < 256" using assms by linarith
  then have u: "unat (tag_byte n r) = 32 * min n 7 + r"
    unfolding tag_byte_def e unat_byte by simp
  show "drop_bit 5 (unat (tag_byte n r)) = min n 7"
    unfolding u using assms by (simp add: drop_bit_eq_div)
  show "unat (tag_byte n r) AND 31 = r"
    unfolding u using assms and_255_shift [of 3 "32 * min n 7 + r"] by (simp add: drop_bit_eq_div)
  show "tag_byte n r \<noteq> 0" if "n \<noteq> 0 \<or> r \<noteq> 0"
    using that u by (auto simp: unat_eq_0 [symmetric])
qed

lemma take_literals_eq:
  assumes "(if drop_bit 5 tag = 7 then get_number inp else Inr (drop_bit 5 tag, inp)) = Inr (length ls, ls @ rest)"
    and "length ls \<le> 2047" "length (d_block d) + length ls \<le> block_size"
  shows "take_literals tag (d\<lparr>d_input := inp\<rparr>) =
    Inr (d\<lparr>d_input := rest, d_block := d_block d @ ls,
           d_indices := d_indices d @ [length (d_block d)..<length (d_block d) + length ls]\<rparr>)"
proof -
  have idx: "map (\<lambda>n. length (d_block d) + n) [0..<length ls] = [length (d_block d)..<length (d_block d) + length ls]"
    using map_add_upt [of "length (d_block d)" "length ls"] by (simp add: add.commute)
  from assms show ?thesis
    by (cases "drop_bit 5 tag = 7") (auto simp: take_literals_def idx)
qed

lemma take_reference_eq:
  assumes "(if tag AND 31 = 31 then get_number inp else Inr (tag AND 31, inp)) = Inr (len - 3, inp')"
    and "get_number inp' = Inr (offset, rest)" "tag AND 31 \<noteq> 0"
    and len: "4 \<le> len" "length (d_block d) + len \<le> block_size"
    and off: "0 < offset" "offset \<le> length (d_indices d)"
    and src: "d_indices d ! (length (d_indices d) - offset) = source" "source + len \<le> length (d_block d)"
  shows "take_reference tag (d\<lparr>d_input := inp\<rparr>) =
    Inr (d\<lparr>d_input := rest, d_block := d_block d @ take len (drop source (d_block d)),
           d_indices := d_indices d @ [length (d_block d)]\<rparr>)"
proof -
  have c: "len - 3 + 3 = len" "\<not> block_size - length (d_block d) < len - 3" "\<not> block_size - length (d_block d) < len"
    "\<not> len \<le> 3" "\<not> length (d_indices d) < offset" "\<not> length (d_block d) < source"
    "\<not> length (d_block d) - source < len" "offset \<noteq> 0"
    using len off src by linarith+
  show ?thesis
    using assms(1-3) by (cases "tag AND 31 = 31") (simp_all add: take_reference_def Let_def src(1) c)
qed

lemma flush_output:
  assumes "r < 32" "length (c_literal s) \<le> 2047" "c_literal s \<noteq> [] \<or> r \<noteq> 0"
  shows "\<exists>enc. c_output (flush r s) = c_output s @ tag_byte (length (c_literal s)) r # enc \<and>
    (\<forall>d rest. length (d_block d) + length (c_literal s) \<le> block_size \<longrightarrow>
      take_literals (unat (tag_byte (length (c_literal s)) r)) (d\<lparr>d_input := enc @ rest\<rparr>) =
      Inr (d\<lparr>d_input := rest, d_block := d_block d @ c_literal s,
             d_indices := d_indices d @ [length (d_block d)..<length (d_block d) + length (c_literal s)]\<rparr>))"
proof -
  let ?n = "length (c_literal s)"
  obtain enc where enc: "\<And>out. 7 \<le> ?n \<Longrightarrow> put_integer out ?n = out @ enc"
    "\<And>rest. 7 \<le> ?n \<Longrightarrow> get_number (enc @ rest) = Inr (?n, rest)" "\<not> 7 \<le> ?n \<Longrightarrow> enc = []"
  proof (cases "7 \<le> ?n")
    case True
    have "?n < 2 ^ 28" using assms(2) by simp
    from get_put_integer [OF this, of "[]"] obtain enc where
      e: "put_integer [] ?n = enc" "\<forall>rest. get_number (enc @ rest) = Inr (?n, rest)" by auto
    have "put_integer out ?n = out @ enc" for out
      using e(1) by (simp add: put_integer_def Let_def)
    with e(2) True show ?thesis by (intro that [of enc]) auto
  qed (rule that [of "[]"], auto)
  have out: "c_output (flush r s) = c_output s @ tag_byte ?n r # (enc @ c_literal s)"
    using assms(3) enc by (auto simp: flush_def Let_def tag_byte_def)
  have dec: "take_literals (unat (tag_byte ?n r)) (d\<lparr>d_input := (enc @ c_literal s) @ rest\<rparr>) =
      Inr (d\<lparr>d_input := rest, d_block := d_block d @ c_literal s,
             d_indices := d_indices d @ [length (d_block d)..<length (d_block d) + ?n]\<rparr>)"
    if "length (d_block d) + ?n \<le> block_size" for d rest
  proof -
    have lit: "(if drop_bit 5 (unat (tag_byte ?n r)) = 7 then get_number ((enc @ c_literal s) @ rest)
        else Inr (drop_bit 5 (unat (tag_byte ?n r)), (enc @ c_literal s) @ rest)) = Inr (?n, c_literal s @ rest)"
      using enc(2) [of "c_literal s @ rest"] enc(3) by (auto simp: tag_byte_fields(1) [OF assms(1)])
    from take_literals_eq [OF lit assms(2) that] show ?thesis .
  qed
  from out dec show ?thesis by blast
qed

lemma reference_decodes:
  assumes len: "4 \<le> len" "length (d_block d) + len \<le> block_size" "len < 2 ^ 28"
    and off: "0 < offset" "offset \<le> length (d_indices d)" "offset < 2 ^ 28"
    and src: "d_indices d ! (length (d_indices d) - offset) = source" "source + len \<le> length (d_block d)"
    and tag: "tag AND 31 = min (len - 3) 31"
    and enc: "enc = put_integer (if 31 \<le> len - 3 then put_integer [] (len - 3) else []) offset"
  shows "take_reference tag (d\<lparr>d_input := enc @ rest\<rparr>) =
    Inr (d\<lparr>d_input := rest, d_block := d_block d @ take len (drop source (d_block d)),
           d_indices := d_indices d @ [length (d_block d)]\<rparr>)"
proof -
  from get_put_integer [OF off(3)] obtain e2 where e2: "put_integer [] offset = e2"
    "\<And>rest. get_number (e2 @ rest) = Inr (offset, rest)" by (metis append_Nil)
  have "len - 3 < 2 ^ 28" using len by simp
  from get_put_integer [OF this] obtain e1 where e1: "put_integer [] (len - 3) = e1"
    "\<And>rest. get_number (e1 @ rest) = Inr (len - 3, rest)" by (metis append_Nil)
  have app: "put_integer out offset = out @ e2" for out
    using e2(1) by (simp add: put_integer_def Let_def)
  have l: "(if tag AND 31 = 31 then get_number (enc @ rest) else Inr (tag AND 31, enc @ rest)) = Inr (len - 3, e2 @ rest)"
    unfolding enc tag using e1 by (auto simp: app)
  have "tag AND 31 \<noteq> 0" using tag len(1) by simp
  from take_reference_eq [OF l e2(2) this len(1,2) off(1,2) src] show ?thesis .
qed

section \<open>The table of the compressor\<close>

text \<open>
  \<open>linked t A\<close>: chains through the entries \<open>A\<close> stay in \<open>A\<close>, their numbers strictly decrease, and
  no entry is the successor of two others or of two buckets.
\<close>

definition linked :: "(nat \<Rightarrow> entry) \<Rightarrow> nat set \<Rightarrow> bool" where
  "linked t A \<longleftrightarrow>
    (\<forall>c\<in>A. entry_next (t c) \<noteq> no_entry \<longrightarrow>
        entry_next (t c) \<in> A \<and> entry_number (t (entry_next (t c))) < entry_number (t c)) \<and>
    (\<forall>k<table_size. entry_head (t k) \<noteq> no_entry \<longrightarrow> entry_head (t k) \<in> A) \<and>
    (\<forall>c\<in>A. \<forall>c'\<in>A. entry_next (t c) \<noteq> no_entry \<longrightarrow> entry_next (t c) = entry_next (t c') \<longrightarrow> c = c') \<and>
    (\<forall>k<table_size. \<forall>k'<table_size. entry_head (t k) \<noteq> no_entry \<longrightarrow>
        entry_head (t k) = entry_head (t k') \<longrightarrow> k = k') \<and>
    (\<forall>k<table_size. \<forall>c\<in>A. entry_head (t k) \<noteq> no_entry \<longrightarrow> entry_next (t c) \<noteq> entry_head (t k))"

text \<open>\<open>isolated t A c\<close>: neither a bucket nor an entry of \<open>A\<close> leads to \<open>c\<close>.\<close>

definition isolated :: "(nat \<Rightarrow> entry) \<Rightarrow> nat set \<Rightarrow> nat \<Rightarrow> bool" where
  "isolated t A c \<longleftrightarrow> (\<forall>k<table_size. entry_head (t k) \<noteq> c) \<and> (\<forall>x\<in>A. entry_next (t x) \<noteq> c)"

lemma linkedD:
  assumes "linked t A"
  shows "c \<in> A \<Longrightarrow> entry_next (t c) \<noteq> no_entry \<Longrightarrow> entry_next (t c) \<in> A"
    and "c \<in> A \<Longrightarrow> entry_next (t c) \<noteq> no_entry \<Longrightarrow> entry_number (t (entry_next (t c))) < entry_number (t c)"
    and "k < table_size \<Longrightarrow> entry_head (t k) \<noteq> no_entry \<Longrightarrow> entry_head (t k) \<in> A"
    and "c \<in> A \<Longrightarrow> c' \<in> A \<Longrightarrow> entry_next (t c) \<noteq> no_entry \<Longrightarrow> entry_next (t c) = entry_next (t c') \<Longrightarrow> c = c'"
    and "k < table_size \<Longrightarrow> k' < table_size \<Longrightarrow> entry_head (t k) \<noteq> no_entry \<Longrightarrow>
         entry_head (t k) = entry_head (t k') \<Longrightarrow> k = k'"
    and "k < table_size \<Longrightarrow> c \<in> A \<Longrightarrow> entry_head (t k) \<noteq> no_entry \<Longrightarrow> entry_next (t c) \<noteq> entry_head (t k)"
  using assms unfolding linked_def by blast+

lemma put_entry_simps:
  "entry_position (put_entry t k c p n x) = (if x = c then p else entry_position (t x))"
  "entry_number (put_entry t k c p n x) = (if x = c then n else entry_number (t x))"
  "entry_next (put_entry t k c p n x) = (if x = c then entry_head (t k) else entry_next (t x))"
  "entry_head (put_entry t k c p n x) = (if x = k then c else entry_head (t x))"
  by (auto simp: put_entry_def Let_def)

lemma linked_put_entry:
  assumes l: "linked t A" and iso: "isolated t A c" and c: "c \<notin> A" "c \<noteq> no_entry" and k: "k < table_size"
    and n: "\<And>x. x \<in> A \<Longrightarrow> entry_number (t x) < n"
  shows "linked (put_entry t k c p n) (insert c A)"
proof -
  note D = linkedD [OF l]
  have i: "\<And>k. k < table_size \<Longrightarrow> entry_head (t k) \<noteq> c" "\<And>x. x \<in> A \<Longrightarrow> entry_next (t x) \<noteq> c"
    using iso by (simp_all add: isolated_def)
  show ?thesis
    unfolding linked_def put_entry_simps
  proof (intro conjI ballI allI impI)
    fix x assume x: "x \<in> insert c A" "(if x = c then entry_head (t k) else entry_next (t x)) \<noteq> no_entry"
    then show "(if x = c then entry_head (t k) else entry_next (t x)) \<in> insert c A"
      using D(1,3) k by auto
    from x
    show "(if (if x = c then entry_head (t k) else entry_next (t x)) = c then n
        else entry_number (t (if x = c then entry_head (t k) else entry_next (t x))))
        < (if x = c then n else entry_number (t x))"
      using D(2,3) k i n by auto
  next
    fix j assume "j < table_size" "(if j = k then c else entry_head (t j)) \<noteq> no_entry"
    then show "(if j = k then c else entry_head (t j)) \<in> insert c A" using D(3) by auto
  next
    fix x y assume "x \<in> insert c A" "y \<in> insert c A" "(if x = c then entry_head (t k) else entry_next (t x)) \<noteq> no_entry"
      "(if x = c then entry_head (t k) else entry_next (t x)) = (if y = c then entry_head (t k) else entry_next (t y))"
    then show "x = y" using D(4,6) k by (auto split: if_splits) metis
  next
    fix j j' assume "j < table_size" "j' < table_size" "(if j = k then c else entry_head (t j)) \<noteq> no_entry"
      "(if j = k then c else entry_head (t j)) = (if j' = k then c else entry_head (t j'))"
    then show "j = j'" using D(5) i by (auto split: if_splits)
  next
    fix j x assume "j < table_size" "x \<in> insert c A" "(if j = k then c else entry_head (t j)) \<noteq> no_entry"
    then show "(if x = c then entry_head (t k) else entry_next (t x)) \<noteq> (if j = k then c else entry_head (t j))"
      using D(5) [of j k] D(6) [of j x] i(1) [OF k] i(2) [of x] k
      by (cases "x = c"; cases "j = k") auto
  qed
qed

text \<open>
  \<open>alloc free\<close>: the entries taken off the free list, which is popped in index order.
  \<open>table_ok t free idx\<close>: the chains hold allocated entries only, each recording the position that
  \<open>idx\<close> (the dictionary the decompressor will have at this point) holds under its number.
\<close>

definition alloc :: "nat \<Rightarrow> nat set" where
  "alloc free = {c. c < table_size \<and> (free = no_entry \<or> c < free)}"

definition recorded :: "(nat \<Rightarrow> entry) \<Rightarrow> nat set \<Rightarrow> nat list \<Rightarrow> bool" where
  "recorded t A idx \<longleftrightarrow>
    (\<forall>c\<in>A. entry_number (t c) < length idx \<and> idx ! entry_number (t c) = entry_position (t c))"

definition table_ok :: "(nat \<Rightarrow> entry) \<Rightarrow> nat \<Rightarrow> nat list \<Rightarrow> bool" where
  "table_ok t free idx \<longleftrightarrow>
    (free = no_entry \<or> free < table_size) \<and>
    (\<forall>c < table_size. c \<notin> alloc free \<longrightarrow> entry_next (t c) = (if c = table_size - 1 then no_entry else c + 1)) \<and>
    recorded t (alloc free) idx \<and> linked t (alloc free)"

lemma no_entry_alloc [simp]: "no_entry \<notin> alloc free"
  using table_size_no_entry by (auto simp: alloc_def)

lemma no_entry_pos [simp]: "0 < no_entry" "no_entry \<noteq> 0" by (simp_all add: no_entry_def)

lemma table_ok_init: "table_ok (init_table t) 0 []"
  by (auto simp: table_ok_def alloc_def init_table_def linked_def recorded_def)

lemma recorded_put_entry:
  "recorded t A idx \<Longrightarrow> recorded (put_entry t k c p (length idx)) (insert c A) (idx @ [p])"
  by (auto simp: recorded_def put_entry_simps nth_append)

lemma recorded_grow: "recorded t A idx \<Longrightarrow> recorded t A (idx @ [p])"
  by (auto simp: recorded_def nth_append)

lemma table_ok_grow: "table_ok t free idx \<Longrightarrow> table_ok t free (idx @ [p])"
  by (auto simp: table_ok_def recorded_grow)

lemma isolated_outside: "linked t A \<Longrightarrow> c \<notin> A \<Longrightarrow> c \<noteq> no_entry \<Longrightarrow> isolated t A c"
  unfolding isolated_def by (metis linkedD(1,3))

lemma table_ok_pop:
  assumes ok: "table_ok t free idx" and free: "free \<noteq> no_entry" and k: "k < table_size"
  shows "table_ok (put_entry t k free p (length idx)) (entry_next (t free)) (idx @ [p])"
proof -
  have l: "linked t (alloc free)" and r: "recorded t (alloc free) idx" and f: "free < table_size"
    using ok free by (simp_all add: table_ok_def)
  have na: "free \<notin> alloc free" using free by (simp add: alloc_def)
  have n: "entry_next (t free) = (if free = table_size - 1 then no_entry else free + 1)"
    using ok f na unfolding table_ok_def by blast
  have a: "alloc (entry_next (t free)) = insert free (alloc free)"
    using f free table_size_no_entry unfolding n alloc_def by auto
  have ne: "entry_next (t free) = no_entry \<or> entry_next (t free) < table_size"
    using f unfolding n by auto
  have "linked (put_entry t k free p (length idx)) (insert free (alloc free))"
    using r by (intro linked_put_entry l isolated_outside na free k) (simp add: recorded_def)
  moreover have "entry_next (put_entry t k free p (length idx) c) = (if c = table_size - 1 then no_entry else c + 1)"
    if "c < table_size" "c \<notin> insert free (alloc free)" for c
    using that ok unfolding table_ok_def by (simp add: put_entry_simps)
  ultimately show ?thesis
    using ne recorded_put_entry [OF r] unfolding table_ok_def a by blast
qed

text \<open>With the free list empty, the last entry of the bucket's chain is unlinked and reused.\<close>

lemma chain_last_returns:
  assumes "linked t A" "current = no_entry \<or> current \<in> A"
    and "previous \<noteq> no_entry \<Longrightarrow> previous \<in> A \<and> entry_next (t previous) = current \<and> current \<noteq> no_entry"
    and "previous = no_entry \<Longrightarrow> entry_head (t k) = current"
  shows "\<exists>previous' current'. chain_last t previous current = Some (previous', current') \<and>
    (current' \<noteq> no_entry \<longrightarrow> current' \<in> A \<and> entry_next (t current') = no_entry) \<and>
    (previous' \<noteq> no_entry \<longrightarrow> previous' \<in> A \<and> entry_next (t previous') = current' \<and> current' \<noteq> no_entry) \<and>
    (previous' = no_entry \<longrightarrow> entry_head (t k) = current')"
  using assms
proof (induction "entry_number (t current)" arbitrary: previous current rule: less_induct)
  case less
  show ?case
  proof (cases "current \<noteq> no_entry \<and> entry_next (t current) \<noteq> no_entry")
    case True
    then have c: "current \<in> A" using less.prems by blast
    from True linkedD(1,2) [OF less.prems(1) c] less.hyps [of "entry_next (t current)" current] less.prems(1) c
    show ?thesis by (simp add: chain_last.simps [of t previous current])
  next
    case False
    with less.prems show ?thesis by (auto simp: chain_last.simps [of t previous current])
  qed
qed

lemma linked_unlink:
  assumes l: "linked t A" and cur: "cur \<in> A" "cur \<noteq> no_entry" and k: "k < table_size"
    and prev: "prev \<noteq> no_entry \<Longrightarrow> prev \<in> A \<and> entry_next (t prev) = cur"
    and head: "prev = no_entry \<Longrightarrow> entry_head (t k) = cur"
    and t1: "t1 = (if prev \<noteq> no_entry then t(prev := (t prev)\<lparr>entry_next := no_entry\<rparr>)
                   else t(k := (t k)\<lparr>entry_head := no_entry\<rparr>))"
  shows "linked t1 (A - {cur})" "isolated t1 (A - {cur}) cur"
proof -
  note D = linkedD [OF l]
  have f: "entry_number (t1 x) = entry_number (t x)"
    "entry_next (t1 x) = (if prev \<noteq> no_entry \<and> x = prev then no_entry else entry_next (t x))"
    "entry_head (t1 x) = (if prev = no_entry \<and> x = k then no_entry else entry_head (t x))" for x
    by (auto simp: t1)
  have nx: "entry_next (t1 x) \<noteq> cur" if "x \<in> A" for x
  proof (cases "prev = no_entry")
    case True
    then show ?thesis using D(6) [OF k that] head cur by (simp add: f)
  next
    case False
    then show ?thesis using D(4) [of x prev] that prev cur by (auto simp: f)
  qed
  have hd: "entry_head (t1 j) \<noteq> cur" if "j < table_size" for j
  proof (cases "prev = no_entry")
    case True
    then show ?thesis using D(5) [OF that k] head cur by (auto simp: f)
  next
    case False
    then show ?thesis using D(6) [OF that, of prev] prev cur by (auto simp: f)
  qed
  show "isolated t1 (A - {cur}) cur"
    using nx hd by (auto simp: isolated_def)
  show "linked t1 (A - {cur})"
    unfolding linked_def
  proof (intro conjI ballI allI impI)
    fix x assume x: "x \<in> A - {cur}" "entry_next (t1 x) \<noteq> no_entry"
    then show "entry_next (t1 x) \<in> A - {cur}" using nx [of x] D(1) [of x] by (auto simp: f split: if_splits)
    from x show "entry_number (t1 (entry_next (t1 x))) < entry_number (t1 x)"
      using D(2) [of x] by (auto simp: f split: if_splits)
  next
    fix j assume "j < table_size" "entry_head (t1 j) \<noteq> no_entry"
    then show "entry_head (t1 j) \<in> A - {cur}" using hd [of j] D(3) [of j] by (auto simp: f split: if_splits)
  next
    fix x y assume "x \<in> A - {cur}" "y \<in> A - {cur}" "entry_next (t1 x) \<noteq> no_entry" "entry_next (t1 x) = entry_next (t1 y)"
    then show "x = y" using D(4) [of x y] by (auto simp: f split: if_splits)
  next
    fix i j assume "i < table_size" "j < table_size" "entry_head (t1 i) \<noteq> no_entry" "entry_head (t1 i) = entry_head (t1 j)"
    then show "i = j" using D(5) [of i j] by (auto simp: f split: if_splits)
  next
    fix j x assume "j < table_size" "x \<in> A - {cur}" "entry_head (t1 j) \<noteq> no_entry"
    then show "entry_next (t1 x) \<noteq> entry_head (t1 j)" using D(6) [of j x] by (auto simp: f split: if_splits)
  qed
qed

lemma hash_key_less [simp]: "hash_key b p < table_size"
  by (simp add: hash_key_def)

lemma insert_entry_recycle:
  assumes "\<not> length block < p + 4" "c_free s = no_entry" "cur \<noteq> no_entry" "entry_next (c_table s cur) = no_entry"
    and "chain_last (c_table s) no_entry (entry_head (c_table s (hash_key block p))) = Some (prev, cur)"
    and "t1 = (if prev \<noteq> no_entry then (c_table s)(prev := (c_table s prev)\<lparr>entry_next := no_entry\<rparr>)
               else (c_table s)(hash_key block p := (c_table s (hash_key block p))\<lparr>entry_head := no_entry\<rparr>))"
  shows "insert_entry block p s =
    Some (s\<lparr>c_number := c_number s + 1, c_table := put_entry t1 (hash_key block p) cur p (c_number s)\<rparr>)"
proof -
  have "c_table (s\<lparr>c_number := c_number s + 1\<rparr>) = c_table s" "c_free (s\<lparr>c_number := c_number s + 1\<rparr>) = no_entry"
    using assms(2) by simp_all
  then show ?thesis
    unfolding insert_entry_def Let_def using assms(1-5)
    by (simp only: if_False if_True not_True_eq_False bind.bind_lunit prod.case assms(6) refl simp_thms)
qed

lemma insert_entry_returns:
  assumes ok: "table_ok (c_table s) (c_free s) idx" and num: "c_number s = length idx"
  shows "\<exists>t free. insert_entry block p s = Some (s\<lparr>c_number := Suc (length idx), c_free := free, c_table := t\<rparr>) \<and>
    table_ok t free (idx @ [p])"
proof -
  let ?t = "c_table s" and ?k = "hash_key block p"
  show ?thesis
  proof (cases "length block < p + 4")
    case True
    then show ?thesis using table_ok_grow [OF ok, of p] num
      by (intro exI [of _ ?t] exI [of _ "c_free s"]) (simp add: insert_entry_def)
  next
    case len: False
    show ?thesis
    proof (cases "c_free s = no_entry")
      case False
      with table_ok_pop [OF ok False hash_key_less, of block p p] len num show ?thesis
        by (auto simp: insert_entry_def Let_def)
    next
      case True
      have l: "linked ?t (alloc no_entry)" and r: "recorded ?t (alloc no_entry) idx"
        using ok True by (simp_all add: table_ok_def)
      have hd: "entry_head (?t ?k) = no_entry \<or> entry_head (?t ?k) \<in> alloc no_entry"
        using linkedD(3) [OF l hash_key_less] by blast
      from chain_last_returns [OF l hd, of no_entry ?k]
      obtain prev cur where c: "chain_last ?t no_entry (entry_head (?t ?k)) = Some (prev, cur)"
        "cur \<noteq> no_entry \<Longrightarrow> cur \<in> alloc no_entry \<and> entry_next (?t cur) = no_entry"
        "prev \<noteq> no_entry \<Longrightarrow> prev \<in> alloc no_entry \<and> entry_next (?t prev) = cur"
        "prev = no_entry \<Longrightarrow> entry_head (?t ?k) = cur" by blast
      show ?thesis
      proof (cases "cur = no_entry")
        case True
        with c(1) len \<open>c_free s = no_entry\<close> num table_ok_grow [OF ok, of p] show ?thesis
          by (intro exI [of _ ?t] exI [of _ "c_free s"]) (simp add: insert_entry_def Let_def)
      next
        case cur: False
        define t1 where "t1 = (if prev \<noteq> no_entry then ?t(prev := (?t prev)\<lparr>entry_next := no_entry\<rparr>)
                               else ?t(?k := (?t ?k)\<lparr>entry_head := no_entry\<rparr>))"
        have same: "entry_number (t1 x) = entry_number (?t x)" "entry_position (t1 x) = entry_position (?t x)" for x
          by (auto simp: t1_def)
        have l1: "linked t1 (alloc no_entry - {cur})" "isolated t1 (alloc no_entry - {cur}) cur"
          using linked_unlink [OF l _ cur hash_key_less c(3,4) t1_def] c(2) cur by auto
        have ins: "insert cur (alloc no_entry - {cur}) = alloc no_entry" using c(2) cur by auto
        have "linked (put_entry t1 ?k cur p (length idx)) (alloc no_entry)"
          using linked_put_entry [OF l1 _ cur hash_key_less [of block p], of "length idx" p] r
          unfolding ins by (auto simp: recorded_def same)
        moreover have "recorded (put_entry t1 ?k cur p (length idx)) (alloc no_entry) (idx @ [p])"
          using recorded_put_entry [of t1 "alloc no_entry - {cur}" idx ?k cur p] r
          unfolding ins by (auto simp: recorded_def same)
        ultimately have "table_ok (put_entry t1 ?k cur p (length idx)) no_entry (idx @ [p])"
          by (simp add: table_ok_def alloc_def)
        moreover have "insert_entry block p s = Some (s\<lparr>c_number := Suc (length idx), c_free := no_entry,
            c_table := put_entry t1 ?k cur p (length idx)\<rparr>)"
          using insert_entry_recycle [OF len True cur _ c(1) t1_def] c(2) [OF cur] True num
          by simp
        ultimately show ?thesis by blast
      qed
    qed
  qed
qed

section \<open>The search for a match\<close>

lemma match_length_spec:
  assumes "len \<le> bound" "\<forall>i<len. block ! (a + i) = block ! (b + i)"
  shows "match_length block a b bound len \<le> bound \<and>
    (\<forall>i<match_length block a b bound len. block ! (a + i) = block ! (b + i))"
  using assms
proof (induction block a b bound len rule: match_length.induct)
  case (1 block a b bound len)
  show ?case
  proof (cases "len < bound \<and> block ! (a + len) = block ! (b + len)")
    case True
    then show ?thesis using 1 by (simp add: match_length.simps [of block a b bound len] less_Suc_eq)
  next
    case False
    then show ?thesis using 1(2,3) by (auto simp: match_length.simps [of block a b bound len])
  qed
qed

text \<open>A usable match: the dictionary entry it names repeats at the current position.\<close>

definition usable :: "bytes \<Rightarrow> nat \<Rightarrow> nat list \<Rightarrow> best \<Rightarrow> bool" where
  "usable block pos idx best \<longleftrightarrow>
    (best_length best \<noteq> 0 \<longrightarrow> 4 \<le> best_length best \<and> pos + best_length best \<le> length block \<and>
      best_number best < length idx \<and> idx ! best_number best + best_length best \<le> pos \<and>
      take (best_length best) (drop (idx ! best_number best) block) = take (best_length best) (drop pos block))"

lemma usable_none [simp]: "usable block pos idx no_best"
  by (simp add: usable_def no_best_def)

lemma usable_consider:
  assumes "usable block pos idx best" "no < length idx" "idx ! no = src" "src < pos" "pos \<le> length block"
    and len: "len = match_length block src pos (min (length block - pos) (pos - src)) 0"
  shows "usable block pos idx (consider_match len number no best)"
proof -
  have m: "len \<le> length block - pos" "len \<le> pos - src" "\<forall>i<len. block ! (src + i) = block ! (pos + i)"
    using match_length_spec [of 0 "min (length block - pos) (pos - src)" block src pos] unfolding len by simp_all
  have "take len (drop src block) = take len (drop pos block)"
    using m assms(4,5) by (intro nth_equalityI) simp_all
  with m assms(1-5) show ?thesis
    unfolding usable_def consider_match_def Let_def
    by (cases "len < 4") (simp_all add: le_diff_conv2 add.commute)
qed

lemma find_best_returns:
  assumes ok: "table_ok t free idx" and pos: "\<forall>i\<in>set idx. i < pos" "pos \<le> length block"
    and "current = no_entry \<or> current \<in> alloc free" "usable block pos idx best"
  shows "\<exists>best'. find_best block pos number t current best = Some best' \<and> usable block pos idx best'"
  using assms(4,5)
proof (induction "entry_number (t current)" arbitrary: current best rule: less_induct)
  case less
  show ?case
  proof (cases "current = no_entry")
    case True
    then show ?thesis using less.prems by (simp add: find_best.simps [of block pos number t no_entry])
  next
    case False
    then have c: "current \<in> alloc free" using less.prems by blast
    have l: "linked t (alloc free)" and r: "recorded t (alloc free) idx"
      using ok by (simp_all add: table_ok_def)
    have e: "entry_number (t current) < length idx" "idx ! entry_number (t current) = entry_position (t current)"
      using r c by (auto simp: recorded_def)
    then have "entry_position (t current) < pos" using pos(1) nth_mem by metis
    from usable_consider [OF less.prems(2) e this pos(2) refl]
    have u: "usable block pos idx (consider_match (match_length block (entry_position (t current)) pos
        (min (length block - pos) (pos - entry_position (t current))) 0) number (entry_number (t current)) best)" .
    show ?thesis
    proof (cases "entry_next (t current) = no_entry")
      case True
      with False u show ?thesis
        by (simp add: find_best.simps [of block pos number t current] find_best.simps [of block pos number t no_entry] Let_def)
    next
      case nx: False
      from less.hyps [OF linkedD(2) [OF l c nx] _ u] linkedD(1) [OF l c nx] False
      show ?thesis by (simp add: find_best.simps [of block pos number t current] Let_def)
    qed
  qed
qed

lemma search_match_returns:
  assumes ok: "table_ok (c_table s) (c_free s) idx" and pos: "\<forall>i\<in>set idx. i < pos" "pos \<le> length block"
  shows "\<exists>best. search_match block pos s = Some best \<and> usable block pos idx best"
proof -
  have l: "linked (c_table s) (alloc (c_free s))" using ok by (simp add: table_ok_def)
  have "entry_head (c_table s (hash_key block pos)) = no_entry \<or> entry_head (c_table s (hash_key block pos)) \<in> alloc (c_free s)"
    using linkedD(3) [OF l hash_key_less] by blast
  from find_best_returns [OF ok pos this usable_none] show ?thesis
    by (simp add: search_match_def)
qed

section \<open>Compressor and decompressor in step\<close>

text \<open>
  \<open>in_step block start prefix pos s d\<close>: decoding what the compressor has emitted since \<open>prefix\<close>
  takes the decoder \<open>start\<close> to \<open>d\<close>, whose block extended by the pending literals is the first
  \<open>pos\<close> bytes of the block.  \<open>dictionary d pos\<close> is the decoder's dictionary once the pending
  literals are flushed.
\<close>

definition in_step :: "bytes \<Rightarrow> decoder \<Rightarrow> bytes \<Rightarrow> nat \<Rightarrow> compressor \<Rightarrow> decoder \<Rightarrow> bool" where
  "in_step block start prefix pos s d \<longleftrightarrow>
    (\<exists>enc. c_output s = prefix @ enc \<and> (\<forall>rest. resume start (enc @ rest) = resume d rest)) \<and>
    pos \<le> length block \<and> length block \<le> block_size \<and>
    length (c_literal s) \<le> 2047 \<and> d_block d @ c_literal s = take pos block \<and>
    d_maximum d = d_maximum start \<and> d_output d = d_output start \<and> d_checksum d = d_checksum start"

definition dictionary :: "decoder \<Rightarrow> nat \<Rightarrow> nat list" where
  "dictionary d pos = d_indices d @ [length (d_block d)..<pos]"

lemma in_step_lengths: "in_step block start prefix pos s d \<Longrightarrow> length (d_block d) + length (c_literal s) = pos"
proof -
  assume i: "in_step block start prefix pos s d"
  then have "length (d_block d @ c_literal s) = pos" by (simp add: in_step_def)
  then show ?thesis by simp
qed

lemma flush_fields [simp]:
  "c_table (flush r s) = c_table s" "c_free (flush r s) = c_free s" "c_number (flush r s) = c_number s"
  "c_literal (flush r s) = []"
  by (auto simp: flush_def Let_def)

lemma in_step_flush:
  assumes i: "in_step block start prefix pos s d"
  shows "\<exists>d'. in_step block start prefix pos (flush 0 s) d' \<and> dictionary d' pos = dictionary d pos"
proof (cases "c_literal s = []")
  case True
  with i show ?thesis by (auto simp: flush_def)
next
  case False
  let ?n = "length (c_literal s)"
  have len: "length (d_block d) + ?n = pos" using in_step_lengths [OF i] .
  from i obtain enc where enc: "c_output s = prefix @ enc" "\<And>rest. resume start (enc @ rest) = resume d rest"
    and b: "pos \<le> length block" "length block \<le> block_size" "?n \<le> 2047" "d_block d @ c_literal s = take pos block"
    by (auto simp: in_step_def)
  from flush_output [of 0 s] b(3) False obtain more where
    out: "c_output (flush 0 s) = c_output s @ tag_byte ?n 0 # more"
    and dec: "\<And>d rest. length (d_block d) + ?n \<le> block_size \<Longrightarrow>
      take_literals (unat (tag_byte ?n 0)) (d\<lparr>d_input := more @ rest\<rparr>) =
      Inr (d\<lparr>d_input := rest, d_block := d_block d @ c_literal s,
             d_indices := d_indices d @ [length (d_block d)..<length (d_block d) + ?n]\<rparr>)" by auto
  let ?d = "d\<lparr>d_block := take pos block, d_indices := dictionary d pos\<rparr>"
  have tl: "take_literals (unat (tag_byte ?n 0)) (d\<lparr>d_input := more @ rest\<rparr>) = Inr (?d\<lparr>d_input := rest\<rparr>)" for rest
    using dec [of d rest] len b by (simp add: dictionary_def)
  have tr: "take_reference (unat (tag_byte ?n 0)) (?d\<lparr>d_input := rest\<rparr>) = Inr (?d\<lparr>d_input := rest\<rparr>)" for rest
    using tag_byte_fields(2) [of 0 ?n] by (simp add: take_reference_def)
  have nz: "tag_byte ?n 0 \<noteq> 0" using tag_byte_fields(3) [of 0 ?n] False by simp
  have "length (d_block d) < block_size" using len b False by (cases "c_literal s") auto
  then have "resume d ((tag_byte ?n 0 # more) @ rest) = resume ?d rest" for rest
    using decode_loop_group [OF nz tl tr] by (simp add: resume_open)
  then have "resume start ((enc @ tag_byte ?n 0 # more) @ rest) = resume ?d rest" for rest
    using enc(2) [of "(tag_byte ?n 0 # more) @ rest"] by simp
  with i out enc(1) b(1) have "in_step block start prefix pos (flush 0 s) ?d"
    by (auto simp: in_step_def)
  then show ?thesis
    using b(1) by (intro exI [of _ ?d]) (auto simp: dictionary_def)
qed

lemma in_step_literal:
  assumes i: "in_step block start prefix pos s d" and pos: "pos < length block"
  shows "\<exists>d'. in_step block start prefix (pos + 1) (emit_literal (block ! pos) s) d' \<and>
    dictionary d' (pos + 1) = dictionary d pos @ [pos]"
proof -
  let ?s = "if length (c_literal s) = 2047 then flush 0 s else s"
  obtain d' where d': "in_step block start prefix pos ?s d'" "dictionary d' pos = dictionary d pos"
    using in_step_flush [OF i] i by (cases "length (c_literal s) = 2047") auto
  have "length (c_literal ?s) < 2047" using i by (auto simp: in_step_def)
  then have "in_step block start prefix (pos + 1) (emit_literal (block ! pos) s) d'"
    using d'(1) pos by (auto simp: in_step_def emit_literal_def Let_def take_Suc_conv_app_nth simp flip: append_assoc)
  moreover have "length (d_block d') \<le> pos" using in_step_lengths [OF d'(1)] by simp
  ultimately show ?thesis using d'(2) by (auto simp: dictionary_def)
qed

lemma emit_reference_output:
  "c_output (emit_reference best s) = c_output (flush (min (best_length best - 3) 31) s) @
    put_integer (if 31 \<le> best_length best - 3 then put_integer [] (best_length best - 3) else [])
      (c_number s - best_number best)"
    "c_literal (emit_reference best s) = []" "c_table (emit_reference best s) = c_table s"
    "c_free (emit_reference best s) = c_free s" "c_number (emit_reference best s) = c_number s"
  by (simp_all add: emit_reference_def Let_def put_integer_def)

lemma in_step_reference:
  assumes i: "in_step block start prefix pos s d" and u: "usable block pos (dictionary d pos) best"
    and n: "best_length best \<noteq> 0" and num: "c_number s = length (dictionary d pos)" "length (dictionary d pos) \<le> pos"
  shows "\<exists>d'. in_step block start prefix (pos + best_length best) (emit_reference best s) d' \<and>
    dictionary d' (pos + best_length best) = dictionary d pos @ [pos]"
proof -
  let ?n = "length (c_literal s)" and ?len = "best_length best" and ?idx = "dictionary d pos"
  let ?r = "min (?len - 3) 31" and ?src = "?idx ! best_number best" and ?off = "c_number s - best_number best"
  have len: "length (d_block d) + ?n = pos" using in_step_lengths [OF i] .
  from i obtain enc where enc: "c_output s = prefix @ enc" "\<And>rest. resume start (enc @ rest) = resume d rest"
    and b: "pos \<le> length block" "length block \<le> block_size" "?n \<le> 2047" "d_block d @ c_literal s = take pos block"
    by (auto simp: in_step_def)
  from u n have best: "4 \<le> ?len" "pos + ?len \<le> length block" "best_number best < length ?idx" "?src + ?len \<le> pos"
    "take ?len (drop ?src block) = take ?len (drop pos block)" by (auto simp: usable_def)
  have small: "?len < 2 ^ 28" using best(2) b(2) by (simp add: block_size_def)
  have "?off \<le> pos" using num by linarith
  then have offs: "?off < 2 ^ 28" using b(1,2) by (simp add: block_size_def)
  have r: "?r < 32" "?r \<noteq> 0" using best(1) by auto
  from flush_output [OF r(1) b(3)] r(2) obtain more where
    out: "c_output (flush ?r s) = c_output s @ tag_byte ?n ?r # more"
    and dec: "\<And>d rest. length (d_block d) + ?n \<le> block_size \<Longrightarrow>
      take_literals (unat (tag_byte ?n ?r)) (d\<lparr>d_input := more @ rest\<rparr>) =
      Inr (d\<lparr>d_input := rest, d_block := d_block d @ c_literal s,
             d_indices := d_indices d @ [length (d_block d)..<length (d_block d) + ?n]\<rparr>)" by blast
  let ?ref = "put_integer (if 31 \<le> ?len - 3 then put_integer [] (?len - 3) else []) ?off"
  let ?d1 = "d\<lparr>d_block := take pos block, d_indices := ?idx\<rparr>"
  let ?d = "d\<lparr>d_block := take (pos + ?len) block, d_indices := ?idx @ [pos]\<rparr>"
  have tl: "take_literals (unat (tag_byte ?n ?r)) (d\<lparr>d_input := more @ rest\<rparr>) = Inr (?d1\<lparr>d_input := rest\<rparr>)" for rest
    using dec [of d rest] len b by (simp add: dictionary_def)
  have copy: "take pos block @ take ?len (drop ?src (take pos block)) = take (pos + ?len) block"
    using best(4) by (simp add: best(5) [symmetric] drop_take take_add min_absorb1)
  have tr: "take_reference (unat (tag_byte ?n ?r)) (?d1\<lparr>d_input := ?ref @ rest\<rparr>) = Inr (?d\<lparr>d_input := rest\<rparr>)" for rest
  proof -
    have off: "0 < ?off" "?off \<le> length (d_indices ?d1)" "length (d_indices ?d1) - ?off = best_number best"
      using best(3) num by simp_all
    have "take_reference (unat (tag_byte ?n ?r)) (?d1\<lparr>d_input := ?ref @ rest\<rparr>) =
      Inr (?d1\<lparr>d_input := rest, d_block := d_block ?d1 @ take ?len (drop ?src (d_block ?d1)),
            d_indices := d_indices ?d1 @ [length (d_block ?d1)]\<rparr>)"
      using best b off offs by (intro reference_decodes small tag_byte_fields(2) [OF r(1)] refl) simp_all
    then show ?thesis using copy b(1) by simp
  qed
  have nz: "tag_byte ?n ?r \<noteq> 0" using tag_byte_fields(3) [OF r(1)] r(2) by blast
  have "length (d_block d) < block_size" using len b best(1,2) by linarith
  then have "resume d ((tag_byte ?n ?r # more @ ?ref) @ rest) = resume ?d rest" for rest
    using decode_loop_group [OF nz tl tr, of rest] by (simp add: resume_open)
  then have "resume start ((enc @ tag_byte ?n ?r # more @ ?ref) @ rest) = resume ?d rest" for rest
    using enc(2) [of "(tag_byte ?n ?r # more @ ?ref) @ rest"] by simp
  moreover have "c_output (emit_reference best s) = prefix @ enc @ tag_byte ?n ?r # more @ ?ref"
    using emit_reference_output(1) [of best s] out enc(1) by simp
  ultimately have "in_step block start prefix (pos + ?len) (emit_reference best s) ?d"
    using best(2) b(2) emit_reference_output(2) [of best s] in_step_def [of block start prefix pos s d] i
    unfolding in_step_def by auto
  then show ?thesis
    using best(2) by (intro exI [of _ ?d]) (simp add: dictionary_def)
qed

section \<open>Blocks\<close>

lemma encode_loop_returns:
  assumes "in_step block start prefix pos s d" "table_ok (c_table s) (c_free s) (dictionary d pos)"
    "c_number s = length (dictionary d pos)" "length (dictionary d pos) \<le> pos" "\<forall>i\<in>set (dictionary d pos). i < pos"
  shows "\<exists>s' d'. encode_loop block pos s = Some s' \<and> in_step block start prefix (length block) s' d'"
  using assms
proof (induction "length block - pos" arbitrary: pos s d rule: less_induct)
  case less
  have pos: "pos \<le> length block" using less.prems(1) by (simp add: in_step_def)
  show ?case
  proof (cases "pos < length block")
    case False
    then have "encode_loop block pos s = Some s" "pos = length block"
      using pos by (simp_all add: encode_loop.simps [of block "length block" s])
    with less.prems(1) show ?thesis by blast
  next
    case True
    from search_match_returns [OF less.prems(2,5) pos] obtain best where
      best: "search_match block pos s = Some best" "usable block pos (dictionary d pos) best" by blast
    define s1 where "s1 = (if best_length best = 0 then emit_literal (block ! pos) s else emit_reference best s)"
    define step where "step = (if best_length best = 0 then 1 else best_length best)"
    have step: "0 < step" by (simp add: step_def)
    obtain d1 where d1: "in_step block start prefix (pos + step) s1 d1"
      "dictionary d1 (pos + step) = dictionary d pos @ [pos]"
      using in_step_literal [OF less.prems(1) True] in_step_reference [OF less.prems(1) best(2) _ less.prems(3,4)]
      unfolding s1_def step_def by (cases "best_length best = 0") auto
    have same: "c_table s1 = c_table s" "c_free s1 = c_free s" "c_number s1 = c_number s"
      using usable_def [of block pos "dictionary d pos" best] best(2) in_step_lengths
      by (simp_all add: s1_def emit_literal_def emit_reference_def Let_def)
    have "table_ok (c_table s1) (c_free s1) (dictionary d pos)" "c_number s1 = length (dictionary d pos)"
      unfolding same using less.prems(2,3) by simp_all
    from insert_entry_returns [OF this, of block pos] obtain t free where
      ins: "insert_entry block pos s1 = Some (s1\<lparr>c_number := Suc (length (dictionary d pos)), c_free := free, c_table := t\<rparr>)"
        "table_ok t free (dictionary d pos @ [pos])" by blast
    let ?s2 = "s1\<lparr>c_number := Suc (length (dictionary d pos)), c_free := free, c_table := t\<rparr>"
    have "in_step block start prefix (pos + step) ?s2 d1" using d1(1) by (simp add: in_step_def)
    then have "\<exists>s' d'. encode_loop block (pos + step) ?s2 = Some s' \<and> in_step block start prefix (length block) s' d'"
      using ins(2) less.prems(4,5) step True
      by (intro less.hyps) (auto simp: d1(2) less_Suc_eq trans_less_add1)
    moreover have "encode_loop block pos s = encode_loop block (pos + step) ?s2"
      using True best(1) ins(1) unfolding s1_def step_def
      by (cases "best_length best = 0") (simp_all add: encode_loop.simps [of block pos s])
    ultimately show ?thesis by simp
  qed
qed

lemma encode_returns:
  assumes "length block \<le> block_size" "c_literal s = []" "d_block d = []" "d_indices d = []"
  shows "\<exists>s' enc d'. encode block s = Some s' \<and> c_output s' = c_output s @ enc \<and> c_literal s' = [] \<and>
    (\<forall>rest. decode_loop (d\<lparr>d_input := enc @ rest\<rparr>) = resume d' rest) \<and> d_block d' = block \<and>
    d_maximum d' = d_maximum d \<and> d_output d' = d_output d \<and> d_checksum d' = d_checksum d"
proof -
  let ?s = "s\<lparr>c_table := init_table (c_table s), c_free := 0, c_number := 0\<rparr>"
  have i: "in_step block d (c_output s) 0 ?s d"
    using assms by (auto simp: in_step_def)
  have dict: "dictionary d 0 = []" using assms by (simp add: dictionary_def)
  from encode_loop_returns [OF i] obtain s1 d1 where
    l: "encode_loop block 0 ?s = Some s1" "in_step block d (c_output s) (length block) s1 d1"
    using table_ok_init [of "c_table s"] by (auto simp: dict)
  from in_step_flush [OF l(2)] obtain d2 where d2: "in_step block d (c_output s) (length block) (flush 0 s1) d2"
    by blast
  then obtain enc where enc: "c_output (flush 0 s1) = c_output s @ enc" "\<forall>rest. resume d (enc @ rest) = resume d2 rest"
    "d_block d2 = block" "d_maximum d2 = d_maximum d" "d_output d2 = d_output d" "d_checksum d2 = d_checksum d"
    by (auto simp: in_step_def)
  then have "\<forall>rest. decode_loop (d\<lparr>d_input := enc @ rest\<rparr>) = resume d2 rest"
    using assms(3) by (simp add: resume_open)
  with l(1) enc show ?thesis
    by (intro exI [of _ "flush 0 s1"] exI [of _ enc] exI [of _ d2]) (simp add: encode_def)
qed

definition closed_checksum :: "decoder \<Rightarrow> u64" where
  "closed_checksum d = (if d_block d \<noteq> [] then hash_bytes (d_block d) (d_checksum d) else d_checksum d)"

lemma compress_blocks_returns:
  assumes "c_literal s = []" "d_block d = []" "d_indices d = []" "d_checksum d = checksum"
    and "length (d_output d) + length bs \<le> d_maximum d"
  shows "\<exists>s' checksum' enc d'. compress_blocks bs checksum s = Some (checksum', s') \<and> c_output s' = c_output s @ enc \<and>
    (\<forall>rest. decode_loop (d\<lparr>d_input := enc @ rest\<rparr>) = decode_loop (d'\<lparr>d_input := rest\<rparr>)) \<and>
    d_output d' @ d_block d' = d_output d @ bs \<and> d_maximum d' = d_maximum d \<and> closed_checksum d' = checksum'"
  using assms
proof (induction bs checksum s arbitrary: d rule: compress_blocks.induct)
  case (1 bs checksum s)
  show ?case
  proof (cases "bs = []")
    case True
    with "1.prems" show ?thesis
      by (intro exI [of _ s] exI [of _ checksum] exI [of _ "[]"] exI [of _ d])
        (simp add: compress_blocks.simps closed_checksum_def)
  next
    case False
    let ?block = "take block_size bs" and ?rest = "drop block_size bs"
    let ?checksum = "hash_bytes ?block checksum"
    from encode_returns [of ?block s d] "1.prems" obtain s1 enc d1 where
      e: "encode ?block s = Some s1" "c_output s1 = c_output s @ enc" "c_literal s1 = []"
        "\<And>rest. decode_loop (d\<lparr>d_input := enc @ rest\<rparr>) = resume d1 rest" "d_block d1 = ?block"
        "d_maximum d1 = d_maximum d" "d_output d1 = d_output d" "d_checksum d1 = checksum" by auto
    have c: "compress_blocks bs checksum s = compress_blocks ?rest ?checksum s1"
      using False e(1) by (simp add: compress_blocks.simps [of bs checksum s])
    show ?thesis
    proof (cases "length bs < block_size")
      case True
      with e c False show ?thesis
        by (intro exI [of _ s1] exI [of _ ?checksum] exI [of _ enc] exI [of _ d1])
          (simp add: compress_blocks.simps [of "[]"] resume_open closed_checksum_def)
    next
      case full: False
      let ?d = "d1\<lparr>d_checksum := ?checksum, d_output := d_output d @ ?block, d_block := [], d_indices := []\<rparr>"
      have "\<not> d_maximum d - length (d_output d) < block_size" using full "1.prems"(5) by linarith
      then have "end_block d1 = Inr ?d"
        using full e by (simp add: end_block_def append_block_def)
      then have r: "resume d1 rest = decode_loop (?d\<lparr>d_input := rest\<rparr>)" for rest
        by (simp add: resume_def)
      have "length (d_output ?d) + length ?rest \<le> d_maximum ?d"
        using "1.prems"(5) e(6) full by simp
      from "1.IH" [OF False refl refl e(1,3) _ _ _ this] obtain s2 checksum' enc2 d2 where
        ih: "compress_blocks ?rest ?checksum s1 = Some (checksum', s2)" "c_output s2 = c_output s1 @ enc2"
          "\<And>rest. decode_loop (?d\<lparr>d_input := enc2 @ rest\<rparr>) = decode_loop (d2\<lparr>d_input := rest\<rparr>)"
          "d_output d2 @ d_block d2 = d_output ?d @ ?rest" "d_maximum d2 = d_maximum ?d" "closed_checksum d2 = checksum'"
        by auto
      have "decode_loop (d\<lparr>d_input := (enc @ enc2) @ rest\<rparr>) = decode_loop (d2\<lparr>d_input := rest\<rparr>)" for rest
        using e(4) [of "enc2 @ rest"] r [of "enc2 @ rest"] ih(3) by simp
      with ih c e(2,6) show ?thesis
        by (intro exI [of _ s2] exI [of _ checksum'] exI [of _ "enc @ enc2"] exI [of _ d2]) simp
    qed
  qed
qed

lemma checksum_bytes_prefix:
  "n \<le> 8 \<Longrightarrow> foldl (\<lambda>v n. v OR push_bit (n * 8) (ucast ((map (\<lambda>n. ucast (drop_bit (n * 8) c)) [0..<8] :: bytes) ! n))) 0 [0..<n] =
    take_bit (n * 8) (c :: u64)"
proof (induction n)
  case 0
  then show ?case by simp
next
  case (Suc n)
  then have n: "n < 8" by simp
  have "take_bit (n * 8) c OR push_bit (n * 8) (ucast (ucast (drop_bit (n * 8) c) :: u8)) = take_bit (Suc n * 8) c"
    using n by (intro bit_word_eqI)
      (auto simp: bit_or_iff bit_push_bit_iff bit_take_bit_iff bit_ucast_iff bit_drop_bit_eq)
  with n Suc show ?case by simp
qed

lemma checksum_bytes:
  "foldl (\<lambda>v n. v OR push_bit (n * 8) (ucast ((map (\<lambda>n. ucast (drop_bit (n * 8) c)) [0..<8] :: bytes) ! n))) 0 [0..<8] = (c :: u64)"
  using checksum_bytes_prefix [of 8 c] by (simp add: take_bit_word_eq_self)

lemma compress_roundtrip:
  assumes "length bs \<le> maximum"
  shows "\<exists>out. compress bs = Some (Inr out) \<and> decompress out maximum = Inr bs"
proof -
  let ?d = "\<lparr>d_input = [], d_maximum = maximum, d_output = [], d_block = [], d_indices = [], d_checksum = 42\<rparr>"
  from compress_blocks_returns [of "new_compressor\<lparr>c_output := mir_prefix\<rparr>" ?d 42 bs] assms
  obtain s checksum enc d where
    c: "compress_blocks bs 42 (new_compressor\<lparr>c_output := mir_prefix\<rparr>) = Some (checksum, s)"
      "c_output s = mir_prefix @ enc"
      "\<And>rest. decode_loop (?d\<lparr>d_input := enc @ rest\<rparr>) = decode_loop (d\<lparr>d_input := rest\<rparr>)"
      "d_output d @ d_block d = bs" "d_maximum d = maximum" "closed_checksum d = checksum"
    by (auto simp: new_compressor_def)
  define sum :: bytes where "sum = map (\<lambda>n. ucast (drop_bit (n * 8) checksum)) [0..<8]"
  define out where "out = mir_prefix @ enc @ [0] @ sum"
  have "compress bs = Some (Inr out)"
    using c(1,2) by (simp add: compress_def run_compressor_def out_def sum_def)
  moreover have "decompress out maximum = decode_loop (?d\<lparr>d_input := enc @ 0 # sum\<rparr>)"
    by (simp add: decompress_def out_def mir_prefix_def)
  moreover have "length (d_output d) + length (d_block d) = length bs"
    using c(4) by (metis length_append)
  then have fits: "\<not> maximum - length (d_output d) < length (d_block d)" using assms by simp
  have "length sum = 8" by (simp add: sum_def)
  then have "finish (d\<lparr>d_input := sum\<rparr>) = Inr bs"
    using checksum_bytes [of checksum] c(4-6) fits
    by (cases "d_block d = []") (simp_all add: finish_def append_block_def closed_checksum_def sum_def [symmetric] Let_def)
  then have "decode_loop (d\<lparr>d_input := 0 # sum\<rparr>) = Inr bs"
    by (simp add: decode_loop.simps [of "d\<lparr>d_input := 0 # sum\<rparr>"] decode_step_def)
  ultimately show ?thesis using c(3) by simp
qed

text \<open>C1: the round trip.  Compressing always returns, and decompressing what it returned under a
  byte limit the input respects gives the input back.\<close>

theorem decompress_compress:
  assumes "length bs \<le> maximum"
  shows "\<exists>out. compress bs = Some (Inr out) \<and> decompress out maximum = Inr bs"
  by (rule compress_roundtrip [OF assms])

theorem decompress_compress_witness:
  "\<exists>out. compress [1, 2, 1, 2, 1, 2, 1, 2, 3] = Some (Inr out) \<and> decompress out 9 = Inr [1, 2, 1, 2, 1, 2, 1, 2, 3]"
  using decompress_compress [of "[1, 2, 1, 2, 1, 2, 1, 2, 3]" 9] by simp

section \<open>Bounds of the decompressor on arbitrary input\<close>

definition decoder_ok :: "decoder \<Rightarrow> bool" where
  "decoder_ok d \<longleftrightarrow> length (d_block d) < block_size \<and> length (d_indices d) \<le> length (d_block d) \<and>
    length (d_output d) \<le> d_maximum d"

lemma take_literals_bounds:
  assumes "take_literals t d = Inr d'" "length (d_block d) \<le> block_size" "length (d_indices d) \<le> length (d_block d)"
  shows "length (d_block d') \<le> block_size \<and> length (d_indices d') \<le> length (d_block d') \<and>
    d_output d' = d_output d \<and> d_maximum d' = d_maximum d"
  using assms by (auto simp: take_literals_def rbind_eq_Inr invalid_def split: if_splits)

lemma take_reference_bounds:
  assumes "take_reference t d = Inr d'" "length (d_block d) \<le> block_size" "length (d_indices d) \<le> length (d_block d)"
  shows "length (d_block d') \<le> block_size \<and> length (d_indices d') \<le> length (d_block d') \<and>
    d_output d' = d_output d \<and> d_maximum d' = d_maximum d"
proof (cases "t AND 31 = 0")
  case True
  with assms show ?thesis by (simp add: take_reference_def)
next
  case False
  with assms(1) obtain len src inp where
    c: "\<not> block_size - length (d_block d) < len + 3" "\<not> length (d_block d) < src" "\<not> length (d_block d) - src < len + 3"
    and d': "d' = d\<lparr>d_input := inp, d_block := d_block d @ take (len + 3) (drop src (d_block d)),
                    d_indices := d_indices d @ [length (d_block d)]\<rparr>"
    unfolding take_reference_def Let_def rbind_eq_Inr invalid_def
    by (simp split: prod.splits if_splits add: rbind_eq_Inr invalid_def) blast+
  from c assms(2,3) d' show ?thesis by simp
qed

lemma end_block_bounds:
  assumes "end_block d = Inr d'" "length (d_block d) \<le> block_size" "length (d_indices d) \<le> length (d_block d)"
    "length (d_output d) \<le> d_maximum d"
  shows "decoder_ok d' \<and> d_maximum d' = d_maximum d"
  using assms by (auto simp: end_block_def append_block_def invalid_def decoder_ok_def split: if_splits)

lemma decode_step_ok:
  assumes ok: "decoder_ok d" and step: "decode_step d = Inr (Continue d')"
  shows "decoder_ok d' \<and> d_maximum d' = d_maximum d"
proof -
  from step obtain tag inp d1 d2 where
    l: "take_literals tag (d\<lparr>d_input := inp\<rparr>) = Inr d1"
    and r: "take_reference tag d1 = Inr d2" and e: "end_block d2 = Inr d'"
    by (auto simp: decode_step_def rbind_eq_Inr Let_def split: if_splits)
  note b1 = take_literals_bounds [OF l]
  have "length (d_block d1) \<le> block_size \<and> length (d_indices d1) \<le> length (d_block d1) \<and>
    d_output d1 = d_output d \<and> d_maximum d1 = d_maximum d"
    using b1 ok by (simp add: decoder_ok_def)
  moreover from this take_reference_bounds [OF r] have "length (d_block d2) \<le> block_size \<and> length (d_indices d2) \<le> length (d_block d2) \<and>
    d_output d2 = d_output d1 \<and> d_maximum d2 = d_maximum d1" by simp
  ultimately show ?thesis
    using end_block_bounds [OF e] ok by (simp add: decoder_ok_def)
qed

lemma finish_bounded: "finish d = Inr out \<Longrightarrow> length (d_output d) \<le> d_maximum d \<Longrightarrow> length out \<le> d_maximum d"
  by (auto simp: finish_def append_block_def rbind_eq_Inr Let_def invalid_def split: if_splits)

lemma decode_step_finished:
  "decode_step d = Inr (Finished out) \<Longrightarrow> \<exists>inp. finish (d\<lparr>d_input := inp\<rparr>) = Inr out"
  by (auto simp: decode_step_def rbind_eq_Inr Let_def split: if_splits)

lemma decode_loop_bounded: "decoder_ok d \<Longrightarrow> decode_loop d = Inr out \<Longrightarrow> length out \<le> d_maximum d"
proof (induction d rule: decode_loop.induct)
  case (1 d)
  show ?case
  proof (cases "decode_step d")
    case (Inl e)
    with 1(3) show ?thesis by (simp add: decode_loop.simps [of d])
  next
    case (Inr p)
    show ?thesis
    proof (cases p)
      case (Finished o')
      with Inr 1(3) have "decode_step d = Inr (Finished out)" by (simp add: decode_loop.simps [of d])
      from decode_step_finished [OF this] finish_bounded 1(2) show ?thesis
        by (fastforce simp: decoder_ok_def)
    next
      case (Continue d')
      with Inr 1(3) have "decode_loop d' = Inr out" by (simp add: decode_loop.simps [of d])
      with 1(1) [OF Inr Continue] decode_step_ok [OF 1(2)] Inr Continue show ?thesis by simp
    qed
  qed
qed

definition start_decoder :: "bytes \<Rightarrow> nat \<Rightarrow> decoder" where
  "start_decoder inp maximum =
    \<lparr>d_input = inp, d_maximum = maximum, d_output = [], d_block = [], d_indices = [], d_checksum = 42\<rparr>"

text \<open>The decoder states the loop goes through.\<close>

inductive decoder_reaches :: "decoder \<Rightarrow> decoder \<Rightarrow> bool" where
  decoder_here: "decoder_reaches d d"
| decoder_step: "decoder_reaches d d1 \<Longrightarrow> decode_step d1 = Inr (Continue d2) \<Longrightarrow> decoder_reaches d d2"

lemma decoder_reaches_ok: "decoder_reaches d d' \<Longrightarrow> decoder_ok d \<Longrightarrow> decoder_ok d' \<and> d_maximum d' = d_maximum d"
  by (induction rule: decoder_reaches.induct) (auto dest: decode_step_ok)

lemma start_decoder_ok: "decoder_ok (start_decoder inp maximum)"
  by (simp add: start_decoder_def decoder_ok_def)

text \<open>C15: decompressing arbitrary bytes never overruns the block buffer or the index table at any
  iteration, and output that is returned respects the caller's byte limit.\<close>

theorem decompress_safe:
  assumes "decoder_reaches (start_decoder (drop 3 inp) maximum) d"
  shows "length (d_block d) < block_size \<and> length (d_indices d) < block_size \<and> length (d_output d) \<le> maximum \<and>
    (\<forall>out. decompress inp maximum = Inr out \<longrightarrow> length out \<le> maximum)"
proof -
  have m: "d_maximum (start_decoder (drop 3 inp) maximum) = maximum" by (simp add: start_decoder_def)
  from decoder_reaches_ok [OF assms start_decoder_ok] m
  have "decoder_ok d" "d_maximum d = maximum" by simp_all
  moreover have "length out \<le> maximum" if "decompress inp maximum = Inr out" for out
    using decode_loop_bounded [OF start_decoder_ok, of "drop 3 inp" maximum out] that
    by (auto simp: decompress_def start_decoder_def invalid_def split: if_splits)
  ultimately show ?thesis by (auto simp: decoder_ok_def)
qed

theorem decompress_safe_witness:
  "decoder_reaches (start_decoder [0x20, 0x63, 0x00] 4)
     ((start_decoder [0x20, 0x63, 0x00] 4)\<lparr>d_input := [0x00], d_block := [0x63], d_indices := [0]\<rparr>) \<and>
   length [0x63 :: u8] < block_size \<and>
   (case decompress (mir_prefix @ [0x20, 0x63, 0x00]) 4 of Inl _ \<Rightarrow> True | Inr out \<Rightarrow> length out \<le> 4)"
proof -
  have s: "decode_step (start_decoder [0x20, 0x63, 0x00] 4) =
      Inr (Continue ((start_decoder [0x20, 0x63, 0x00] 4)\<lparr>d_input := [0x00], d_block := [0x63], d_indices := [0]\<rparr>))"
    by (simp add: decode_step_def start_decoder_def take_literals_def take_reference_def end_block_def block_size_def)
  have r: "decoder_reaches (start_decoder (drop 3 (mir_prefix @ [0x20, 0x63, 0x00])) 4)
      ((start_decoder [0x20, 0x63, 0x00] 4)\<lparr>d_input := [0x00], d_block := [0x63], d_indices := [0]\<rparr>)"
    by (rule decoder_step [OF decoder_here]) (simp add: mir_prefix_def s)
  from decompress_safe [OF r] r show ?thesis
    by (simp add: mir_prefix_def split: sum.split)
qed

end
