(* ===== verification/IRTypes.thy ===== *)
theory IRTypes
  imports Prelude
begin

text \<open>
  The IR types of \<open>include/mirnext/IR/IR.hpp\<close> (\<open>Type\<close>, \<open>Signature\<close>) with the checks of
  \<open>lib/IR/IR.cpp\<close> (\<open>Type::valid\<close>, \<open>Signature::verify\<close>).  The enumerations keep the order of the
  code through \<open>kind_index\<close> and \<open>element_index\<close>, which the code's comparisons and casts use.
\<close>

section \<open>Types\<close>

datatype (plugins only: code size) kind = K_Bool | K_I8 | K_U8 | K_I16 | K_U16 | K_I32 | K_U32 | K_I64 | K_U64 | K_F32 | K_F64
  | K_LongDouble | K_Pointer | K_Block | K_ReturnBlock | K_Undef | K_Vector

datatype (plugins only: code size) vector_element = E_I8 | E_U8 | E_I16 | E_U16 | E_I32 | E_U32 | E_I64 | E_U64 | E_F32 | E_F64

datatype (plugins only: code size) block_class = BlkDefault | BlkClass1 | BlkClass2 | BlkClass3 | BlkClass4

definition all_kinds :: "kind list" where
  "all_kinds = [K_Bool, K_I8, K_U8, K_I16, K_U16, K_I32, K_U32, K_I64, K_U64, K_F32, K_F64,
    K_LongDouble, K_Pointer, K_Block, K_ReturnBlock, K_Undef, K_Vector]"

definition all_elements :: "vector_element list" where
  "all_elements = [E_I8, E_U8, E_I16, E_U16, E_I32, E_U32, E_I64, E_U64, E_F32, E_F64]"

primrec kind_index :: "kind \<Rightarrow> nat" where
  "kind_index K_Bool = 0" | "kind_index K_I8 = 1" | "kind_index K_U8 = 2" | "kind_index K_I16 = 3"
| "kind_index K_U16 = 4" | "kind_index K_I32 = 5" | "kind_index K_U32 = 6" | "kind_index K_I64 = 7"
| "kind_index K_U64 = 8" | "kind_index K_F32 = 9" | "kind_index K_F64 = 10"
| "kind_index K_LongDouble = 11" | "kind_index K_Pointer = 12" | "kind_index K_Block = 13"
| "kind_index K_ReturnBlock = 14" | "kind_index K_Undef = 15" | "kind_index K_Vector = 16"

primrec element_index :: "vector_element \<Rightarrow> nat" where
  "element_index E_I8 = 0" | "element_index E_U8 = 1" | "element_index E_I16 = 2"
| "element_index E_U16 = 3" | "element_index E_I32 = 4" | "element_index E_U32 = 5"
| "element_index E_I64 = 6" | "element_index E_U64 = 7" | "element_index E_F32 = 8"
| "element_index E_F64 = 9"

record ir_type =
  type_kind :: kind
  type_bclass :: block_class
  type_size :: nat
  type_element :: vector_element
  type_bits :: nat
  type_lanes :: nat

definition mk_type :: "kind \<Rightarrow> ir_type" where
  "mk_type k = \<lparr>type_kind = k, type_bclass = BlkDefault, type_size = 0, type_element = E_I8,
                type_bits = 0, type_lanes = 0\<rparr>"

definition type_i64 :: ir_type where "type_i64 = mk_type K_I64"
definition type_pointer :: ir_type where "type_pointer = mk_type K_Pointer"

definition vector128 :: "vector_element \<Rightarrow> nat \<Rightarrow> ir_type" where
  "vector128 e lanes = (mk_type K_Vector)\<lparr>type_element := e, type_bits := 128, type_lanes := lanes\<rparr>"

definition block_type :: "nat \<Rightarrow> block_class \<Rightarrow> ir_type" where
  "block_type n c = (mk_type K_Block)\<lparr>type_size := n, type_bclass := c\<rparr>"

definition return_block :: "nat \<Rightarrow> ir_type" where
  "return_block n = (mk_type K_ReturnBlock)\<lparr>type_size := n\<rparr>"

definition is_block :: "ir_type \<Rightarrow> bool" where
  "is_block t \<longleftrightarrow> type_kind t = K_Block \<or> type_kind t = K_ReturnBlock"

definition is_float :: "ir_type \<Rightarrow> bool" where
  "is_float t \<longleftrightarrow> kind_index K_F32 \<le> kind_index (type_kind t) \<and> kind_index (type_kind t) \<le> kind_index K_LongDouble"

definition is_integer :: "ir_type \<Rightarrow> bool" where
  "is_integer t \<longleftrightarrow> kind_index (type_kind t) \<le> kind_index K_U64 \<or> type_kind t = K_Pointer"

definition is_scalar :: "ir_type \<Rightarrow> bool" where
  "is_scalar t \<longleftrightarrow> is_integer t \<or> is_float t"

definition is_vector :: "ir_type \<Rightarrow> bool" where
  "is_vector t \<longleftrightarrow> type_kind t = K_Vector"

definition vector_lane_type :: "ir_type \<Rightarrow> ir_type" where
  "vector_lane_type t =
    (if is_vector t then mk_type (all_kinds ! (element_index (type_element t) + 1)) else mk_type K_Undef)"

definition vector_mask_type :: "ir_type \<Rightarrow> ir_type" where
  "vector_mask_type t =
    (if \<not> is_vector t then mk_type K_Undef
     else if type_lanes t = 16 then vector128 E_U8 16
     else if type_lanes t = 8 then vector128 E_U16 8
     else if type_lanes t = 4 then vector128 E_U32 4
     else vector128 E_U64 2)"

primrec element_bits :: "vector_element \<Rightarrow> nat" where
  "element_bits E_I8 = 8" | "element_bits E_U8 = 8"
| "element_bits E_I16 = 16" | "element_bits E_U16 = 16"
| "element_bits E_I32 = 32" | "element_bits E_U32 = 32" | "element_bits E_F32 = 32"
| "element_bits E_I64 = 64" | "element_bits E_U64 = 64" | "element_bits E_F64 = 64"

definition valid_type :: "ir_type \<Rightarrow> bool" where
  "valid_type t =
    (if type_kind t = K_Vector
     then element_bits (type_element t) \<noteq> 0 \<and> type_bits t = 128 \<and> type_lanes t \<noteq> 0 \<and>
          type_lanes t = type_bits t div element_bits (type_element t)
     else kind_index (type_kind t) \<le> kind_index K_Undef \<and> (\<not> is_block t \<or> type_size t \<le> INT64_MAX))"

text \<open>The constructors are the only way the code makes a type; the fields a constructor does not
  mention keep their defaults.\<close>

definition constructed :: "ir_type \<Rightarrow> bool" where
  "constructed t \<longleftrightarrow>
    (if is_vector t then t = vector128 (type_element t) (type_lanes t)
     else if type_kind t = K_Block then t = block_type (type_size t) (type_bclass t)
     else if type_kind t = K_ReturnBlock then t = return_block (type_size t)
     else t = mk_type (type_kind t))"

section \<open>Signatures\<close>

record signature =
  results :: "ir_type list"
  parameters :: "ir_type list"
  variadic :: bool

definition type_invalid :: "string \<Rightarrow> 'a result" where
  "type_invalid m = mk_error InvalidOperand m"

fun verify_results :: "ir_type list \<Rightarrow> unit result" where
  "verify_results [] = Inr ()"
| "verify_results (t # ts) =
    (if \<not> valid_type t \<or> (\<not> is_scalar t \<and> \<not> is_vector t)
     then type_invalid ''function result must be scalar or vector''
     else verify_results ts)"

fun verify_parameters :: "nat \<Rightarrow> ir_type list \<Rightarrow> unit result" where
  "verify_parameters n [] = Inr ()"
| "verify_parameters n (t # ts) =
    (if \<not> valid_type t \<or> type_kind t = K_Undef then type_invalid ''invalid parameter type''
     else if is_block t \<and> type_size t = 0 then type_invalid ''block parameter must have a nonzero size''
     else if type_kind t = K_ReturnBlock \<and> n \<noteq> 0 then type_invalid ''return block must be the first parameter''
     else verify_parameters (n + 1) ts)"

definition verify_signature :: "signature \<Rightarrow> unit result" where
  "verify_signature s =
    rbind (verify_results (results s)) (\<lambda>_.
    rbind (verify_parameters 0 (parameters s)) (\<lambda>_.
      if results s \<noteq> [] \<and> parameters s \<noteq> [] \<and> type_kind (parameters s ! 0) = K_ReturnBlock
      then type_invalid ''return block cannot accompany scalar results''
      else Inr ()))"

section \<open>Facts\<close>

lemma kind_index_inj [simp]: "kind_index a = kind_index b \<longleftrightarrow> a = b"
  by (cases a; cases b; simp)

lemma all_kinds_index [simp]: "all_kinds ! kind_index k = k"
  by (cases k; simp add: all_kinds_def)

lemma all_elements_index [simp]: "all_elements ! element_index e = e"
  by (cases e; simp add: all_elements_def)

lemma mk_type_fields [simp]:
  "type_kind (mk_type k) = k" "type_bclass (mk_type k) = BlkDefault" "type_size (mk_type k) = 0"
  "type_element (mk_type k) = E_I8" "type_bits (mk_type k) = 0" "type_lanes (mk_type k) = 0"
  by (simp_all add: mk_type_def)

lemma vector128_fields [simp]:
  "type_kind (vector128 e n) = K_Vector" "type_element (vector128 e n) = e"
  "type_bits (vector128 e n) = 128" "type_lanes (vector128 e n) = n" "is_vector (vector128 e n)"
  by (simp_all add: vector128_def is_vector_def)

lemma mk_type_eq [simp]: "mk_type a = mk_type b \<longleftrightarrow> a = b"
  by (metis mk_type_fields(1))

lemma vector128_eq [simp]: "vector128 e n = vector128 e' n' \<longleftrightarrow> e = e' \<and> n = n'"
  by (metis vector128_fields(2,4))

lemma valid_vectorE:
  assumes "valid_type t" "is_vector t"
  obtains "type_lanes t = 16" "element_bits (type_element t) = 8"
    | "type_lanes t = 8" "element_bits (type_element t) = 16"
    | "type_lanes t = 4" "element_bits (type_element t) = 32"
    | "type_lanes t = 2" "element_bits (type_element t) = 64"
  using assms by (cases "type_element t") (auto simp: valid_type_def is_vector_def)

text \<open>A signature that passes \<open>verify\<close>, as a predicate.\<close>

definition good_signature :: "signature \<Rightarrow> bool" where
  "good_signature s \<longleftrightarrow>
    list_all (\<lambda>t. valid_type t \<and> (is_scalar t \<or> is_vector t)) (results s) \<and>
    list_all (\<lambda>t. valid_type t \<and> type_kind t \<noteq> K_Undef \<and> \<not> (is_block t \<and> type_size t = 0)) (parameters s) \<and>
    list_all (\<lambda>t. type_kind t \<noteq> K_ReturnBlock) (tl (parameters s)) \<and>
    (results s = [] \<or> parameters s = [] \<or> type_kind (hd (parameters s)) \<noteq> K_ReturnBlock)"

lemma verify_results_ok: "verify_results ts = Inr () \<longleftrightarrow> list_all (\<lambda>t. valid_type t \<and> (is_scalar t \<or> is_vector t)) ts"
  by (induction ts) (auto simp: type_invalid_def)

lemma verify_parameters_ok:
  "verify_parameters n ts = Inr () \<longleftrightarrow>
    list_all (\<lambda>t. valid_type t \<and> type_kind t \<noteq> K_Undef \<and> \<not> (is_block t \<and> type_size t = 0)) ts \<and>
    list_all (\<lambda>t. type_kind t \<noteq> K_ReturnBlock) (if n = 0 then tl ts else ts)"
proof (induction n ts rule: verify_parameters.induct)
  case (1 n)
  then show ?case by simp
next
  case (2 n t ts)
  then show ?case by (auto simp: type_invalid_def)
qed

lemma verify_signature_ok: "verify_signature s = Inr () \<longleftrightarrow> good_signature s"
  by (cases "parameters s")
    (auto simp: verify_signature_def good_signature_def rbind_eq_Inr verify_results_ok verify_parameters_ok type_invalid_def)

end
