(* ===== verification/Opcodes.thy ===== *)
theory Opcodes
  imports IRTypes
begin

text \<open>
  The opcodes of \<open>include/mirnext/IR/Opcodes.def\<close> and \<open>VectorOps.def\<close>, one constructor each, with
  their descriptor: wire code, spelling, operand roles, count rule and control flow.  The one
  enumeration of the code is a sum of families, in which the operations of the interpreter and of
  the folder are written.  \<open>opcode_of_wire\<close> is the \<open>lower_bound\<close> search of \<open>Binary.cpp\<close> in the
  table, whose order is that of the definition files.
\<close>

section \<open>Opcodes\<close>

datatype (plugins only: code size) vector_op1 = O_VMov | O_VAdd | O_VSub | O_VAnd | O_VOr | O_VXor
  | O_VEq | O_VNe | O_VLt | O_VLe | O_VGt | O_VGe | O_VSplat | O_VExtract | O_VInsert | O_VShuffle
  | O_VMul | O_VDiv | O_VNeg | O_VAbs | O_VShl | O_VShr | O_VMin | O_VMax | O_VAddSat | O_VSubSat
  | O_VAvgr | O_VPopcnt

datatype (plugins only: code size) vector_op2 = O_VAndNot | O_VBitcast | O_VBitselect | O_VAnyTrue
  | O_VAllTrue | O_VBitmask | O_VSwizzle | O_VExtendLow | O_VExtendHigh | O_VNarrowSat | O_VExtmulLow
  | O_VExtmulHigh | O_VExtaddPairwise | O_VDot | O_VQ15MulrSat | O_VSqrt | O_VPMin | O_VPMax | O_VCeil
  | O_VFloor | O_VTrunc | O_VNearest | O_VConvert | O_VConvertLow | O_VConvertZero | O_VTruncSat
  | O_VTruncSatZero

datatype (plugins only: code size) move_op = O_Mov | O_FMov | O_DMov | O_LDMov

datatype (plugins only: code size) ext_op = O_Ext8 | O_Ext16 | O_Ext32 | O_UExt8 | O_UExt16 | O_UExt32

datatype (plugins only: code size) conv_op = O_I2F | O_I2D | O_I2LD | O_UI2F | O_UI2D | O_UI2LD | O_F2I
  | O_D2I | O_LD2I | O_F2D | O_F2LD | O_D2F | O_D2LD | O_LD2F | O_LD2D

datatype (plugins only: code size) neg_op = O_Neg | O_Negs | O_FNeg | O_DNeg | O_LDNeg

datatype (plugins only: code size) arith_op = O_Add | O_Adds | O_Sub | O_Subs | O_Mul | O_Muls | O_Div
  | O_Divs | O_UDiv | O_UDivs | O_Mod | O_Mods | O_UMod | O_UMods | O_And | O_Ands | O_Or | O_Ors | O_Xor
  | O_Xors | O_Lsh | O_Lshs | O_Rsh | O_Rshs | O_URsh | O_URshs

datatype (plugins only: code size) farith_op = O_FAdd | O_DAdd | O_LDAdd | O_FSub | O_DSub | O_LDSub
  | O_FMul | O_DMul | O_LDMul | O_FDiv | O_DDiv | O_LDDiv

datatype (plugins only: code size) cmp_op = O_Eq | O_Eqs | O_Ne | O_Nes | O_Lt | O_Lts | O_ULt | O_ULts
  | O_Le | O_Les | O_ULe | O_ULes | O_Gt | O_Gts | O_UGt | O_UGts | O_Ge | O_Ges | O_UGe | O_UGes

datatype (plugins only: code size) fcmp_op = O_FEq | O_DEq | O_LDEq | O_FNe | O_DNe | O_LDNe | O_FLt
  | O_DLt | O_LDLt | O_FLe | O_DLe | O_LDLe | O_FGt | O_DGt | O_LDGt | O_FGe | O_DGe | O_LDGe

datatype (plugins only: code size) ovf_op = O_Addo | O_Addos | O_Subo | O_Subos | O_Mulo | O_Mulos
  | O_UMulo | O_UMulos

datatype (plugins only: code size) test_op = O_Bt | O_Bts | O_Bf | O_Bfs

datatype (plugins only: code size) branch_op = O_Beq | O_Beqs | O_Bne | O_Bnes | O_Blt | O_Blts | O_UBlt
  | O_UBlts | O_Ble | O_Bles | O_UBle | O_UBles | O_Bgt | O_Bgts | O_UBgt | O_UBgts | O_Bge | O_Bges
  | O_UBge | O_UBges

datatype (plugins only: code size) fbranch_op = O_FBeq | O_DBeq | O_LDBeq | O_FBne | O_DBne | O_LDBne
  | O_FBlt | O_DBlt | O_LDBlt | O_FBle | O_DBle | O_LDBle | O_FBgt | O_DBgt | O_LDBgt | O_FBge | O_DBge
  | O_LDBge

datatype (plugins only: code size) misc_op = O_Addr | O_Addr8 | O_Addr16 | O_Addr32 | O_Jmp | O_Bo
  | O_UBo | O_Bno | O_UBno | O_LAddr | O_JmpIndirect | O_Call | O_Inline | O_JCall | O_Switch | O_Ret
  | O_JRet | O_Alloca | O_BStart | O_BEnd | O_VaArg | O_VaBlockArg | O_VaStart | O_VaEnd | O_Label
  | O_PrSet | O_PrBeq | O_PrBne

datatype (plugins only: code size) opcode =
  OVec1 vector_op1 | OVec2 vector_op2 
  | OMove move_op | OExt ext_op | OConv conv_op | ONeg neg_op | OArith arith_op | OFArith farith_op | OCmp cmp_op | OFCmp fcmp_op 
  | OOvf ovf_op | OTest test_op | OBranch branch_op | OFBranch fbranch_op | OMisc misc_op

datatype operand_count = CountFixed | CountCall | CountReturn | CountSwitch
datatype control_flow = FlowNext | FlowBranch | FlowExit

record descriptor =
  wire_number :: nat
  spelling :: string
  roles :: string
  operand_count :: operand_count
  control_flow :: control_flow

definition descriptor_row :: "nat \<Rightarrow> string \<Rightarrow> string \<Rightarrow> operand_count \<Rightarrow> control_flow \<Rightarrow> descriptor" where
  "descriptor_row n s r c f = \<lparr>wire_number = n, spelling = s, roles = r, operand_count = c, control_flow = f\<rparr>"

section \<open>Descriptors\<close>

primrec vector_op1_descriptor :: "vector_op1 \<Rightarrow> descriptor" where
  "vector_op1_descriptor O_VMov = descriptor_row 185 ''vmov'' ''Vv'' CountFixed FlowNext"
| "vector_op1_descriptor O_VAdd = descriptor_row 186 ''vadd'' ''Vvv'' CountFixed FlowNext"
| "vector_op1_descriptor O_VSub = descriptor_row 187 ''vsub'' ''Vvv'' CountFixed FlowNext"
| "vector_op1_descriptor O_VAnd = descriptor_row 188 ''vand'' ''Vvv'' CountFixed FlowNext"
| "vector_op1_descriptor O_VOr = descriptor_row 189 ''vor'' ''Vvv'' CountFixed FlowNext"
| "vector_op1_descriptor O_VXor = descriptor_row 190 ''vxor'' ''Vvv'' CountFixed FlowNext"
| "vector_op1_descriptor O_VEq = descriptor_row 191 ''veq'' ''Vvv'' CountFixed FlowNext"
| "vector_op1_descriptor O_VNe = descriptor_row 192 ''vne'' ''Vvv'' CountFixed FlowNext"
| "vector_op1_descriptor O_VLt = descriptor_row 193 ''vlt'' ''Vvv'' CountFixed FlowNext"
| "vector_op1_descriptor O_VLe = descriptor_row 194 ''vle'' ''Vvv'' CountFixed FlowNext"
| "vector_op1_descriptor O_VGt = descriptor_row 195 ''vgt'' ''Vvv'' CountFixed FlowNext"
| "vector_op1_descriptor O_VGe = descriptor_row 196 ''vge'' ''Vvv'' CountFixed FlowNext"
| "vector_op1_descriptor O_VSplat = descriptor_row 197 ''vsplat'' ''Va'' CountFixed FlowNext"
| "vector_op1_descriptor O_VExtract = descriptor_row 198 ''vextract'' ''Avi'' CountFixed FlowNext"
| "vector_op1_descriptor O_VInsert = descriptor_row 199 ''vinsert'' ''Vvai'' CountFixed FlowNext"
| "vector_op1_descriptor O_VShuffle = descriptor_row 200 ''vshuffle'' ''Vvva'' CountFixed FlowNext"
| "vector_op1_descriptor O_VMul = descriptor_row 201 ''vmul'' ''Vvv'' CountFixed FlowNext"
| "vector_op1_descriptor O_VDiv = descriptor_row 202 ''vdiv'' ''Vvv'' CountFixed FlowNext"
| "vector_op1_descriptor O_VNeg = descriptor_row 203 ''vneg'' ''Vv'' CountFixed FlowNext"
| "vector_op1_descriptor O_VAbs = descriptor_row 204 ''vabs'' ''Vv'' CountFixed FlowNext"
| "vector_op1_descriptor O_VShl = descriptor_row 205 ''vshl'' ''Vvi'' CountFixed FlowNext"
| "vector_op1_descriptor O_VShr = descriptor_row 206 ''vshr'' ''Vvi'' CountFixed FlowNext"
| "vector_op1_descriptor O_VMin = descriptor_row 207 ''vmin'' ''Vvv'' CountFixed FlowNext"
| "vector_op1_descriptor O_VMax = descriptor_row 208 ''vmax'' ''Vvv'' CountFixed FlowNext"
| "vector_op1_descriptor O_VAddSat = descriptor_row 209 ''vadd_sat'' ''Vvv'' CountFixed FlowNext"
| "vector_op1_descriptor O_VSubSat = descriptor_row 210 ''vsub_sat'' ''Vvv'' CountFixed FlowNext"
| "vector_op1_descriptor O_VAvgr = descriptor_row 211 ''vavgr'' ''Vvv'' CountFixed FlowNext"
| "vector_op1_descriptor O_VPopcnt = descriptor_row 212 ''vpopcnt'' ''Vv'' CountFixed FlowNext"

primrec vector_op2_descriptor :: "vector_op2 \<Rightarrow> descriptor" where
  "vector_op2_descriptor O_VAndNot = descriptor_row 213 ''vandnot'' ''Vvv'' CountFixed FlowNext"
| "vector_op2_descriptor O_VBitcast = descriptor_row 214 ''vbitcast'' ''Vv'' CountFixed FlowNext"
| "vector_op2_descriptor O_VBitselect = descriptor_row 215 ''vbitselect'' ''Vvvv'' CountFixed FlowNext"
| "vector_op2_descriptor O_VAnyTrue = descriptor_row 216 ''vany_true'' ''Iv'' CountFixed FlowNext"
| "vector_op2_descriptor O_VAllTrue = descriptor_row 217 ''vall_true'' ''Iv'' CountFixed FlowNext"
| "vector_op2_descriptor O_VBitmask = descriptor_row 218 ''vbitmask'' ''Iv'' CountFixed FlowNext"
| "vector_op2_descriptor O_VSwizzle = descriptor_row 219 ''vswizzle'' ''Vvv'' CountFixed FlowNext"
| "vector_op2_descriptor O_VExtendLow = descriptor_row 220 ''vextend_low'' ''Vv'' CountFixed FlowNext"
| "vector_op2_descriptor O_VExtendHigh = descriptor_row 221 ''vextend_high'' ''Vv'' CountFixed FlowNext"
| "vector_op2_descriptor O_VNarrowSat = descriptor_row 222 ''vnarrow_sat'' ''Vvv'' CountFixed FlowNext"
| "vector_op2_descriptor O_VExtmulLow = descriptor_row 223 ''vextmul_low'' ''Vvv'' CountFixed FlowNext"
| "vector_op2_descriptor O_VExtmulHigh = descriptor_row 224 ''vextmul_high'' ''Vvv'' CountFixed FlowNext"
| "vector_op2_descriptor O_VExtaddPairwise = descriptor_row 225 ''vextadd_pairwise'' ''Vv'' CountFixed FlowNext"
| "vector_op2_descriptor O_VDot = descriptor_row 226 ''vdot'' ''Vvv'' CountFixed FlowNext"
| "vector_op2_descriptor O_VQ15MulrSat = descriptor_row 227 ''vq15mulr_sat'' ''Vvv'' CountFixed FlowNext"
| "vector_op2_descriptor O_VSqrt = descriptor_row 228 ''vsqrt'' ''Vv'' CountFixed FlowNext"
| "vector_op2_descriptor O_VPMin = descriptor_row 229 ''vpmin'' ''Vvv'' CountFixed FlowNext"
| "vector_op2_descriptor O_VPMax = descriptor_row 230 ''vpmax'' ''Vvv'' CountFixed FlowNext"
| "vector_op2_descriptor O_VCeil = descriptor_row 231 ''vceil'' ''Vv'' CountFixed FlowNext"
| "vector_op2_descriptor O_VFloor = descriptor_row 232 ''vfloor'' ''Vv'' CountFixed FlowNext"
| "vector_op2_descriptor O_VTrunc = descriptor_row 233 ''vtrunc'' ''Vv'' CountFixed FlowNext"
| "vector_op2_descriptor O_VNearest = descriptor_row 234 ''vnearest'' ''Vv'' CountFixed FlowNext"
| "vector_op2_descriptor O_VConvert = descriptor_row 235 ''vconvert'' ''Vv'' CountFixed FlowNext"
| "vector_op2_descriptor O_VConvertLow = descriptor_row 236 ''vconvert_low'' ''Vv'' CountFixed FlowNext"
| "vector_op2_descriptor O_VConvertZero = descriptor_row 237 ''vconvert_zero'' ''Vv'' CountFixed FlowNext"
| "vector_op2_descriptor O_VTruncSat = descriptor_row 238 ''vtrunc_sat'' ''Vv'' CountFixed FlowNext"
| "vector_op2_descriptor O_VTruncSatZero = descriptor_row 239 ''vtrunc_sat_zero'' ''Vv'' CountFixed FlowNext"

primrec move_op_descriptor :: "move_op \<Rightarrow> descriptor" where
  "move_op_descriptor O_Mov = descriptor_row 0 ''mov'' ''Ii'' CountFixed FlowNext"
| "move_op_descriptor O_FMov = descriptor_row 1 ''fmov'' ''Ff'' CountFixed FlowNext"
| "move_op_descriptor O_DMov = descriptor_row 2 ''dmov'' ''Dd'' CountFixed FlowNext"
| "move_op_descriptor O_LDMov = descriptor_row 3 ''ldmov'' ''Ee'' CountFixed FlowNext"

primrec ext_op_descriptor :: "ext_op \<Rightarrow> descriptor" where
  "ext_op_descriptor O_Ext8 = descriptor_row 4 ''ext8'' ''Ii'' CountFixed FlowNext"
| "ext_op_descriptor O_Ext16 = descriptor_row 5 ''ext16'' ''Ii'' CountFixed FlowNext"
| "ext_op_descriptor O_Ext32 = descriptor_row 6 ''ext32'' ''Ii'' CountFixed FlowNext"
| "ext_op_descriptor O_UExt8 = descriptor_row 7 ''uext8'' ''Ii'' CountFixed FlowNext"
| "ext_op_descriptor O_UExt16 = descriptor_row 8 ''uext16'' ''Ii'' CountFixed FlowNext"
| "ext_op_descriptor O_UExt32 = descriptor_row 9 ''uext32'' ''Ii'' CountFixed FlowNext"

primrec conv_op_descriptor :: "conv_op \<Rightarrow> descriptor" where
  "conv_op_descriptor O_I2F = descriptor_row 10 ''i2f'' ''Fi'' CountFixed FlowNext"
| "conv_op_descriptor O_I2D = descriptor_row 11 ''i2d'' ''Di'' CountFixed FlowNext"
| "conv_op_descriptor O_I2LD = descriptor_row 12 ''i2ld'' ''Ei'' CountFixed FlowNext"
| "conv_op_descriptor O_UI2F = descriptor_row 13 ''ui2f'' ''Fi'' CountFixed FlowNext"
| "conv_op_descriptor O_UI2D = descriptor_row 14 ''ui2d'' ''Di'' CountFixed FlowNext"
| "conv_op_descriptor O_UI2LD = descriptor_row 15 ''ui2ld'' ''Ei'' CountFixed FlowNext"
| "conv_op_descriptor O_F2I = descriptor_row 16 ''f2i'' ''If'' CountFixed FlowNext"
| "conv_op_descriptor O_D2I = descriptor_row 17 ''d2i'' ''Id'' CountFixed FlowNext"
| "conv_op_descriptor O_LD2I = descriptor_row 18 ''ld2i'' ''Ie'' CountFixed FlowNext"
| "conv_op_descriptor O_F2D = descriptor_row 19 ''f2d'' ''Df'' CountFixed FlowNext"
| "conv_op_descriptor O_F2LD = descriptor_row 20 ''f2ld'' ''Ef'' CountFixed FlowNext"
| "conv_op_descriptor O_D2F = descriptor_row 21 ''d2f'' ''Fd'' CountFixed FlowNext"
| "conv_op_descriptor O_D2LD = descriptor_row 22 ''d2ld'' ''Ed'' CountFixed FlowNext"
| "conv_op_descriptor O_LD2F = descriptor_row 23 ''ld2f'' ''Fe'' CountFixed FlowNext"
| "conv_op_descriptor O_LD2D = descriptor_row 24 ''ld2d'' ''De'' CountFixed FlowNext"

primrec neg_op_descriptor :: "neg_op \<Rightarrow> descriptor" where
  "neg_op_descriptor O_Neg = descriptor_row 25 ''neg'' ''Ii'' CountFixed FlowNext"
| "neg_op_descriptor O_Negs = descriptor_row 26 ''negs'' ''Ii'' CountFixed FlowNext"
| "neg_op_descriptor O_FNeg = descriptor_row 27 ''fneg'' ''Ff'' CountFixed FlowNext"
| "neg_op_descriptor O_DNeg = descriptor_row 28 ''dneg'' ''Dd'' CountFixed FlowNext"
| "neg_op_descriptor O_LDNeg = descriptor_row 29 ''ldneg'' ''Ee'' CountFixed FlowNext"

primrec arith_op_descriptor :: "arith_op \<Rightarrow> descriptor" where
  "arith_op_descriptor O_Add = descriptor_row 34 ''add'' ''Iii'' CountFixed FlowNext"
| "arith_op_descriptor O_Adds = descriptor_row 35 ''adds'' ''Iii'' CountFixed FlowNext"
| "arith_op_descriptor O_Sub = descriptor_row 39 ''sub'' ''Iii'' CountFixed FlowNext"
| "arith_op_descriptor O_Subs = descriptor_row 40 ''subs'' ''Iii'' CountFixed FlowNext"
| "arith_op_descriptor O_Mul = descriptor_row 44 ''mul'' ''Iii'' CountFixed FlowNext"
| "arith_op_descriptor O_Muls = descriptor_row 45 ''muls'' ''Iii'' CountFixed FlowNext"
| "arith_op_descriptor O_Div = descriptor_row 49 ''div'' ''Iii'' CountFixed FlowNext"
| "arith_op_descriptor O_Divs = descriptor_row 50 ''divs'' ''Iii'' CountFixed FlowNext"
| "arith_op_descriptor O_UDiv = descriptor_row 51 ''udiv'' ''Iii'' CountFixed FlowNext"
| "arith_op_descriptor O_UDivs = descriptor_row 52 ''udivs'' ''Iii'' CountFixed FlowNext"
| "arith_op_descriptor O_Mod = descriptor_row 56 ''mod'' ''Iii'' CountFixed FlowNext"
| "arith_op_descriptor O_Mods = descriptor_row 57 ''mods'' ''Iii'' CountFixed FlowNext"
| "arith_op_descriptor O_UMod = descriptor_row 58 ''umod'' ''Iii'' CountFixed FlowNext"
| "arith_op_descriptor O_UMods = descriptor_row 59 ''umods'' ''Iii'' CountFixed FlowNext"
| "arith_op_descriptor O_And = descriptor_row 60 ''and'' ''Iii'' CountFixed FlowNext"
| "arith_op_descriptor O_Ands = descriptor_row 61 ''ands'' ''Iii'' CountFixed FlowNext"
| "arith_op_descriptor O_Or = descriptor_row 62 ''or'' ''Iii'' CountFixed FlowNext"
| "arith_op_descriptor O_Ors = descriptor_row 63 ''ors'' ''Iii'' CountFixed FlowNext"
| "arith_op_descriptor O_Xor = descriptor_row 64 ''xor'' ''Iii'' CountFixed FlowNext"
| "arith_op_descriptor O_Xors = descriptor_row 65 ''xors'' ''Iii'' CountFixed FlowNext"
| "arith_op_descriptor O_Lsh = descriptor_row 66 ''lsh'' ''Iii'' CountFixed FlowNext"
| "arith_op_descriptor O_Lshs = descriptor_row 67 ''lshs'' ''Iii'' CountFixed FlowNext"
| "arith_op_descriptor O_Rsh = descriptor_row 68 ''rsh'' ''Iii'' CountFixed FlowNext"
| "arith_op_descriptor O_Rshs = descriptor_row 69 ''rshs'' ''Iii'' CountFixed FlowNext"
| "arith_op_descriptor O_URsh = descriptor_row 70 ''ursh'' ''Iii'' CountFixed FlowNext"
| "arith_op_descriptor O_URshs = descriptor_row 71 ''urshs'' ''Iii'' CountFixed FlowNext"

primrec farith_op_descriptor :: "farith_op \<Rightarrow> descriptor" where
  "farith_op_descriptor O_FAdd = descriptor_row 36 ''fadd'' ''Fff'' CountFixed FlowNext"
| "farith_op_descriptor O_DAdd = descriptor_row 37 ''dadd'' ''Ddd'' CountFixed FlowNext"
| "farith_op_descriptor O_LDAdd = descriptor_row 38 ''ldadd'' ''Eee'' CountFixed FlowNext"
| "farith_op_descriptor O_FSub = descriptor_row 41 ''fsub'' ''Fff'' CountFixed FlowNext"
| "farith_op_descriptor O_DSub = descriptor_row 42 ''dsub'' ''Ddd'' CountFixed FlowNext"
| "farith_op_descriptor O_LDSub = descriptor_row 43 ''ldsub'' ''Eee'' CountFixed FlowNext"
| "farith_op_descriptor O_FMul = descriptor_row 46 ''fmul'' ''Fff'' CountFixed FlowNext"
| "farith_op_descriptor O_DMul = descriptor_row 47 ''dmul'' ''Ddd'' CountFixed FlowNext"
| "farith_op_descriptor O_LDMul = descriptor_row 48 ''ldmul'' ''Eee'' CountFixed FlowNext"
| "farith_op_descriptor O_FDiv = descriptor_row 53 ''fdiv'' ''Fff'' CountFixed FlowNext"
| "farith_op_descriptor O_DDiv = descriptor_row 54 ''ddiv'' ''Ddd'' CountFixed FlowNext"
| "farith_op_descriptor O_LDDiv = descriptor_row 55 ''lddiv'' ''Eee'' CountFixed FlowNext"

primrec cmp_op_descriptor :: "cmp_op \<Rightarrow> descriptor" where
  "cmp_op_descriptor O_Eq = descriptor_row 72 ''eq'' ''Iii'' CountFixed FlowNext"
| "cmp_op_descriptor O_Eqs = descriptor_row 73 ''eqs'' ''Iii'' CountFixed FlowNext"
| "cmp_op_descriptor O_Ne = descriptor_row 77 ''ne'' ''Iii'' CountFixed FlowNext"
| "cmp_op_descriptor O_Nes = descriptor_row 78 ''nes'' ''Iii'' CountFixed FlowNext"
| "cmp_op_descriptor O_Lt = descriptor_row 82 ''lt'' ''Iii'' CountFixed FlowNext"
| "cmp_op_descriptor O_Lts = descriptor_row 83 ''lts'' ''Iii'' CountFixed FlowNext"
| "cmp_op_descriptor O_ULt = descriptor_row 84 ''ult'' ''Iii'' CountFixed FlowNext"
| "cmp_op_descriptor O_ULts = descriptor_row 85 ''ults'' ''Iii'' CountFixed FlowNext"
| "cmp_op_descriptor O_Le = descriptor_row 89 ''le'' ''Iii'' CountFixed FlowNext"
| "cmp_op_descriptor O_Les = descriptor_row 90 ''les'' ''Iii'' CountFixed FlowNext"
| "cmp_op_descriptor O_ULe = descriptor_row 91 ''ule'' ''Iii'' CountFixed FlowNext"
| "cmp_op_descriptor O_ULes = descriptor_row 92 ''ules'' ''Iii'' CountFixed FlowNext"
| "cmp_op_descriptor O_Gt = descriptor_row 96 ''gt'' ''Iii'' CountFixed FlowNext"
| "cmp_op_descriptor O_Gts = descriptor_row 97 ''gts'' ''Iii'' CountFixed FlowNext"
| "cmp_op_descriptor O_UGt = descriptor_row 98 ''ugt'' ''Iii'' CountFixed FlowNext"
| "cmp_op_descriptor O_UGts = descriptor_row 99 ''ugts'' ''Iii'' CountFixed FlowNext"
| "cmp_op_descriptor O_Ge = descriptor_row 103 ''ge'' ''Iii'' CountFixed FlowNext"
| "cmp_op_descriptor O_Ges = descriptor_row 104 ''ges'' ''Iii'' CountFixed FlowNext"
| "cmp_op_descriptor O_UGe = descriptor_row 105 ''uge'' ''Iii'' CountFixed FlowNext"
| "cmp_op_descriptor O_UGes = descriptor_row 106 ''uges'' ''Iii'' CountFixed FlowNext"

primrec fcmp_op_descriptor :: "fcmp_op \<Rightarrow> descriptor" where
  "fcmp_op_descriptor O_FEq = descriptor_row 74 ''feq'' ''Iff'' CountFixed FlowNext"
| "fcmp_op_descriptor O_DEq = descriptor_row 75 ''deq'' ''Idd'' CountFixed FlowNext"
| "fcmp_op_descriptor O_LDEq = descriptor_row 76 ''ldeq'' ''Iee'' CountFixed FlowNext"
| "fcmp_op_descriptor O_FNe = descriptor_row 79 ''fne'' ''Iff'' CountFixed FlowNext"
| "fcmp_op_descriptor O_DNe = descriptor_row 80 ''dne'' ''Idd'' CountFixed FlowNext"
| "fcmp_op_descriptor O_LDNe = descriptor_row 81 ''ldne'' ''Iee'' CountFixed FlowNext"
| "fcmp_op_descriptor O_FLt = descriptor_row 86 ''flt'' ''Iff'' CountFixed FlowNext"
| "fcmp_op_descriptor O_DLt = descriptor_row 87 ''dlt'' ''Idd'' CountFixed FlowNext"
| "fcmp_op_descriptor O_LDLt = descriptor_row 88 ''ldlt'' ''Iee'' CountFixed FlowNext"
| "fcmp_op_descriptor O_FLe = descriptor_row 93 ''fle'' ''Iff'' CountFixed FlowNext"
| "fcmp_op_descriptor O_DLe = descriptor_row 94 ''dle'' ''Idd'' CountFixed FlowNext"
| "fcmp_op_descriptor O_LDLe = descriptor_row 95 ''ldle'' ''Iee'' CountFixed FlowNext"
| "fcmp_op_descriptor O_FGt = descriptor_row 100 ''fgt'' ''Iff'' CountFixed FlowNext"
| "fcmp_op_descriptor O_DGt = descriptor_row 101 ''dgt'' ''Idd'' CountFixed FlowNext"
| "fcmp_op_descriptor O_LDGt = descriptor_row 102 ''ldgt'' ''Iee'' CountFixed FlowNext"
| "fcmp_op_descriptor O_FGe = descriptor_row 107 ''fge'' ''Iff'' CountFixed FlowNext"
| "fcmp_op_descriptor O_DGe = descriptor_row 108 ''dge'' ''Idd'' CountFixed FlowNext"
| "fcmp_op_descriptor O_LDGe = descriptor_row 109 ''ldge'' ''Iee'' CountFixed FlowNext"

primrec ovf_op_descriptor :: "ovf_op \<Rightarrow> descriptor" where
  "ovf_op_descriptor O_Addo = descriptor_row 110 ''addo'' ''Iii'' CountFixed FlowNext"
| "ovf_op_descriptor O_Addos = descriptor_row 111 ''addos'' ''Iii'' CountFixed FlowNext"
| "ovf_op_descriptor O_Subo = descriptor_row 112 ''subo'' ''Iii'' CountFixed FlowNext"
| "ovf_op_descriptor O_Subos = descriptor_row 113 ''subos'' ''Iii'' CountFixed FlowNext"
| "ovf_op_descriptor O_Mulo = descriptor_row 114 ''mulo'' ''Iii'' CountFixed FlowNext"
| "ovf_op_descriptor O_Mulos = descriptor_row 115 ''mulos'' ''Iii'' CountFixed FlowNext"
| "ovf_op_descriptor O_UMulo = descriptor_row 116 ''umulo'' ''Iii'' CountFixed FlowNext"
| "ovf_op_descriptor O_UMulos = descriptor_row 117 ''umulos'' ''Iii'' CountFixed FlowNext"

primrec test_op_descriptor :: "test_op \<Rightarrow> descriptor" where
  "test_op_descriptor O_Bt = descriptor_row 119 ''bt'' ''li'' CountFixed FlowBranch"
| "test_op_descriptor O_Bts = descriptor_row 120 ''bts'' ''li'' CountFixed FlowBranch"
| "test_op_descriptor O_Bf = descriptor_row 121 ''bf'' ''li'' CountFixed FlowBranch"
| "test_op_descriptor O_Bfs = descriptor_row 122 ''bfs'' ''li'' CountFixed FlowBranch"

primrec branch_op_descriptor :: "branch_op \<Rightarrow> descriptor" where
  "branch_op_descriptor O_Beq = descriptor_row 123 ''beq'' ''lii'' CountFixed FlowBranch"
| "branch_op_descriptor O_Beqs = descriptor_row 124 ''beqs'' ''lii'' CountFixed FlowBranch"
| "branch_op_descriptor O_Bne = descriptor_row 128 ''bne'' ''lii'' CountFixed FlowBranch"
| "branch_op_descriptor O_Bnes = descriptor_row 129 ''bnes'' ''lii'' CountFixed FlowBranch"
| "branch_op_descriptor O_Blt = descriptor_row 133 ''blt'' ''lii'' CountFixed FlowBranch"
| "branch_op_descriptor O_Blts = descriptor_row 134 ''blts'' ''lii'' CountFixed FlowBranch"
| "branch_op_descriptor O_UBlt = descriptor_row 135 ''ublt'' ''lii'' CountFixed FlowBranch"
| "branch_op_descriptor O_UBlts = descriptor_row 136 ''ublts'' ''lii'' CountFixed FlowBranch"
| "branch_op_descriptor O_Ble = descriptor_row 140 ''ble'' ''lii'' CountFixed FlowBranch"
| "branch_op_descriptor O_Bles = descriptor_row 141 ''bles'' ''lii'' CountFixed FlowBranch"
| "branch_op_descriptor O_UBle = descriptor_row 142 ''uble'' ''lii'' CountFixed FlowBranch"
| "branch_op_descriptor O_UBles = descriptor_row 143 ''ubles'' ''lii'' CountFixed FlowBranch"
| "branch_op_descriptor O_Bgt = descriptor_row 147 ''bgt'' ''lii'' CountFixed FlowBranch"
| "branch_op_descriptor O_Bgts = descriptor_row 148 ''bgts'' ''lii'' CountFixed FlowBranch"
| "branch_op_descriptor O_UBgt = descriptor_row 149 ''ubgt'' ''lii'' CountFixed FlowBranch"
| "branch_op_descriptor O_UBgts = descriptor_row 150 ''ubgts'' ''lii'' CountFixed FlowBranch"
| "branch_op_descriptor O_Bge = descriptor_row 154 ''bge'' ''lii'' CountFixed FlowBranch"
| "branch_op_descriptor O_Bges = descriptor_row 155 ''bges'' ''lii'' CountFixed FlowBranch"
| "branch_op_descriptor O_UBge = descriptor_row 156 ''ubge'' ''lii'' CountFixed FlowBranch"
| "branch_op_descriptor O_UBges = descriptor_row 157 ''ubges'' ''lii'' CountFixed FlowBranch"

primrec fbranch_op_descriptor :: "fbranch_op \<Rightarrow> descriptor" where
  "fbranch_op_descriptor O_FBeq = descriptor_row 125 ''fbeq'' ''lff'' CountFixed FlowBranch"
| "fbranch_op_descriptor O_DBeq = descriptor_row 126 ''dbeq'' ''ldd'' CountFixed FlowBranch"
| "fbranch_op_descriptor O_LDBeq = descriptor_row 127 ''ldbeq'' ''lee'' CountFixed FlowBranch"
| "fbranch_op_descriptor O_FBne = descriptor_row 130 ''fbne'' ''lff'' CountFixed FlowBranch"
| "fbranch_op_descriptor O_DBne = descriptor_row 131 ''dbne'' ''ldd'' CountFixed FlowBranch"
| "fbranch_op_descriptor O_LDBne = descriptor_row 132 ''ldbne'' ''lee'' CountFixed FlowBranch"
| "fbranch_op_descriptor O_FBlt = descriptor_row 137 ''fblt'' ''lff'' CountFixed FlowBranch"
| "fbranch_op_descriptor O_DBlt = descriptor_row 138 ''dblt'' ''ldd'' CountFixed FlowBranch"
| "fbranch_op_descriptor O_LDBlt = descriptor_row 139 ''ldblt'' ''lee'' CountFixed FlowBranch"
| "fbranch_op_descriptor O_FBle = descriptor_row 144 ''fble'' ''lff'' CountFixed FlowBranch"
| "fbranch_op_descriptor O_DBle = descriptor_row 145 ''dble'' ''ldd'' CountFixed FlowBranch"
| "fbranch_op_descriptor O_LDBle = descriptor_row 146 ''ldble'' ''lee'' CountFixed FlowBranch"
| "fbranch_op_descriptor O_FBgt = descriptor_row 151 ''fbgt'' ''lff'' CountFixed FlowBranch"
| "fbranch_op_descriptor O_DBgt = descriptor_row 152 ''dbgt'' ''ldd'' CountFixed FlowBranch"
| "fbranch_op_descriptor O_LDBgt = descriptor_row 153 ''ldbgt'' ''lee'' CountFixed FlowBranch"
| "fbranch_op_descriptor O_FBge = descriptor_row 158 ''fbge'' ''lff'' CountFixed FlowBranch"
| "fbranch_op_descriptor O_DBge = descriptor_row 159 ''dbge'' ''ldd'' CountFixed FlowBranch"
| "fbranch_op_descriptor O_LDBge = descriptor_row 160 ''ldbge'' ''lee'' CountFixed FlowBranch"

primrec misc_op_descriptor :: "misc_op \<Rightarrow> descriptor" where
  "misc_op_descriptor O_Addr = descriptor_row 30 ''addr'' ''Ir'' CountFixed FlowNext"
| "misc_op_descriptor O_Addr8 = descriptor_row 31 ''addr8'' ''Ir'' CountFixed FlowNext"
| "misc_op_descriptor O_Addr16 = descriptor_row 32 ''addr16'' ''Ir'' CountFixed FlowNext"
| "misc_op_descriptor O_Addr32 = descriptor_row 33 ''addr32'' ''Ir'' CountFixed FlowNext"
| "misc_op_descriptor O_Jmp = descriptor_row 118 ''jmp'' ''l'' CountFixed FlowExit"
| "misc_op_descriptor O_Bo = descriptor_row 161 ''bo'' ''l'' CountFixed FlowBranch"
| "misc_op_descriptor O_UBo = descriptor_row 162 ''ubo'' ''l'' CountFixed FlowBranch"
| "misc_op_descriptor O_Bno = descriptor_row 163 ''bno'' ''l'' CountFixed FlowBranch"
| "misc_op_descriptor O_UBno = descriptor_row 164 ''ubno'' ''l'' CountFixed FlowBranch"
| "misc_op_descriptor O_LAddr = descriptor_row 165 ''laddr'' ''Il'' CountFixed FlowNext"
| "misc_op_descriptor O_JmpIndirect = descriptor_row 166 ''jmpi'' ''i'' CountFixed FlowExit"
| "misc_op_descriptor O_Call = descriptor_row 167 ''call'' '''' CountCall FlowNext"
| "misc_op_descriptor O_Inline = descriptor_row 168 ''inline'' '''' CountCall FlowNext"
| "misc_op_descriptor O_JCall = descriptor_row 169 ''jcall'' '''' CountCall FlowNext"
| "misc_op_descriptor O_Switch = descriptor_row 170 ''switch'' '''' CountSwitch FlowExit"
| "misc_op_descriptor O_Ret = descriptor_row 171 ''ret'' '''' CountReturn FlowExit"
| "misc_op_descriptor O_JRet = descriptor_row 172 ''jret'' ''i'' CountFixed FlowExit"
| "misc_op_descriptor O_Alloca = descriptor_row 173 ''alloca'' ''Ii'' CountFixed FlowNext"
| "misc_op_descriptor O_BStart = descriptor_row 174 ''bstart'' ''I'' CountFixed FlowNext"
| "misc_op_descriptor O_BEnd = descriptor_row 175 ''bend'' ''i'' CountFixed FlowNext"
| "misc_op_descriptor O_VaArg = descriptor_row 176 ''va_arg'' ''Iia'' CountFixed FlowNext"
| "misc_op_descriptor O_VaBlockArg = descriptor_row 177 ''va_block_arg'' ''iiii'' CountFixed FlowNext"
| "misc_op_descriptor O_VaStart = descriptor_row 178 ''va_start'' ''i'' CountFixed FlowNext"
| "misc_op_descriptor O_VaEnd = descriptor_row 179 ''va_end'' ''i'' CountFixed FlowNext"
| "misc_op_descriptor O_Label = descriptor_row 180 ''label'' '''' CountFixed FlowNext"
| "misc_op_descriptor O_PrSet = descriptor_row 182 ''prset'' ''ai'' CountFixed FlowNext"
| "misc_op_descriptor O_PrBeq = descriptor_row 183 ''prbeq'' ''lai'' CountFixed FlowBranch"
| "misc_op_descriptor O_PrBne = descriptor_row 184 ''prbne'' ''lai'' CountFixed FlowBranch"

primrec instruction_descriptor :: "opcode \<Rightarrow> descriptor" where
  "instruction_descriptor (OVec1 op) = vector_op1_descriptor op"
| "instruction_descriptor (OVec2 op) = vector_op2_descriptor op"
| "instruction_descriptor (OMove op) = move_op_descriptor op"
| "instruction_descriptor (OExt op) = ext_op_descriptor op"
| "instruction_descriptor (OConv op) = conv_op_descriptor op"
| "instruction_descriptor (ONeg op) = neg_op_descriptor op"
| "instruction_descriptor (OArith op) = arith_op_descriptor op"
| "instruction_descriptor (OFArith op) = farith_op_descriptor op"
| "instruction_descriptor (OCmp op) = cmp_op_descriptor op"
| "instruction_descriptor (OFCmp op) = fcmp_op_descriptor op"
| "instruction_descriptor (OOvf op) = ovf_op_descriptor op"
| "instruction_descriptor (OTest op) = test_op_descriptor op"
| "instruction_descriptor (OBranch op) = branch_op_descriptor op"
| "instruction_descriptor (OFBranch op) = fbranch_op_descriptor op"
| "instruction_descriptor (OMisc op) = misc_op_descriptor op"

section \<open>The wire table\<close>

text \<open>Every opcode in enumeration order.\<close>

definition all_opcodes :: "opcode list" where
  "all_opcodes = [
    OMove O_Mov, OMove O_FMov, OMove O_DMov, OMove O_LDMov, OExt O_Ext8, OExt O_Ext16, OExt O_Ext32,
    OExt O_UExt8, OExt O_UExt16, OExt O_UExt32, OConv O_I2F, OConv O_I2D, OConv O_I2LD, OConv O_UI2F,
    OConv O_UI2D, OConv O_UI2LD, OConv O_F2I, OConv O_D2I, OConv O_LD2I, OConv O_F2D, OConv O_F2LD,
    OConv O_D2F, OConv O_D2LD, OConv O_LD2F, OConv O_LD2D, ONeg O_Neg, ONeg O_Negs, ONeg O_FNeg,
    ONeg O_DNeg, ONeg O_LDNeg, OMisc O_Addr, OMisc O_Addr8, OMisc O_Addr16, OMisc O_Addr32, OArith O_Add,
    OArith O_Adds, OFArith O_FAdd, OFArith O_DAdd, OFArith O_LDAdd, OArith O_Sub, OArith O_Subs,
    OFArith O_FSub, OFArith O_DSub, OFArith O_LDSub, OArith O_Mul, OArith O_Muls, OFArith O_FMul,
    OFArith O_DMul, OFArith O_LDMul, OArith O_Div, OArith O_Divs, OArith O_UDiv, OArith O_UDivs,
    OFArith O_FDiv, OFArith O_DDiv, OFArith O_LDDiv, OArith O_Mod, OArith O_Mods, OArith O_UMod,
    OArith O_UMods, OArith O_And, OArith O_Ands, OArith O_Or, OArith O_Ors, OArith O_Xor, OArith O_Xors,
    OArith O_Lsh, OArith O_Lshs, OArith O_Rsh, OArith O_Rshs, OArith O_URsh, OArith O_URshs, OCmp O_Eq,
    OCmp O_Eqs, OFCmp O_FEq, OFCmp O_DEq, OFCmp O_LDEq, OCmp O_Ne, OCmp O_Nes, OFCmp O_FNe, OFCmp O_DNe,
    OFCmp O_LDNe, OCmp O_Lt, OCmp O_Lts, OCmp O_ULt, OCmp O_ULts, OFCmp O_FLt, OFCmp O_DLt, OFCmp O_LDLt,
    OCmp O_Le, OCmp O_Les, OCmp O_ULe, OCmp O_ULes, OFCmp O_FLe, OFCmp O_DLe, OFCmp O_LDLe, OCmp O_Gt,
    OCmp O_Gts, OCmp O_UGt, OCmp O_UGts, OFCmp O_FGt, OFCmp O_DGt, OFCmp O_LDGt, OCmp O_Ge, OCmp O_Ges,
    OCmp O_UGe, OCmp O_UGes, OFCmp O_FGe, OFCmp O_DGe, OFCmp O_LDGe, OOvf O_Addo, OOvf O_Addos,
    OOvf O_Subo, OOvf O_Subos, OOvf O_Mulo, OOvf O_Mulos, OOvf O_UMulo, OOvf O_UMulos, OMisc O_Jmp,
    OTest O_Bt, OTest O_Bts, OTest O_Bf, OTest O_Bfs, OBranch O_Beq, OBranch O_Beqs, OFBranch O_FBeq,
    OFBranch O_DBeq, OFBranch O_LDBeq, OBranch O_Bne, OBranch O_Bnes, OFBranch O_FBne, OFBranch O_DBne,
    OFBranch O_LDBne, OBranch O_Blt, OBranch O_Blts, OBranch O_UBlt, OBranch O_UBlts, OFBranch O_FBlt,
    OFBranch O_DBlt, OFBranch O_LDBlt, OBranch O_Ble, OBranch O_Bles, OBranch O_UBle, OBranch O_UBles,
    OFBranch O_FBle, OFBranch O_DBle, OFBranch O_LDBle, OBranch O_Bgt, OBranch O_Bgts, OBranch O_UBgt,
    OBranch O_UBgts, OFBranch O_FBgt, OFBranch O_DBgt, OFBranch O_LDBgt, OBranch O_Bge, OBranch O_Bges,
    OBranch O_UBge, OBranch O_UBges, OFBranch O_FBge, OFBranch O_DBge, OFBranch O_LDBge, OMisc O_Bo,
    OMisc O_UBo, OMisc O_Bno, OMisc O_UBno, OMisc O_LAddr, OMisc O_JmpIndirect, OMisc O_Call,
    OMisc O_Inline, OMisc O_JCall, OMisc O_Switch, OMisc O_Ret, OMisc O_JRet, OMisc O_Alloca,
    OMisc O_BStart, OMisc O_BEnd, OMisc O_VaArg, OMisc O_VaBlockArg, OMisc O_VaStart, OMisc O_VaEnd,
    OMisc O_Label, OMisc O_PrSet, OMisc O_PrBeq, OMisc O_PrBne, OVec1 O_VMov, OVec1 O_VAdd, OVec1 O_VSub,
    OVec1 O_VAnd, OVec1 O_VOr, OVec1 O_VXor, OVec1 O_VEq, OVec1 O_VNe, OVec1 O_VLt, OVec1 O_VLe,
    OVec1 O_VGt, OVec1 O_VGe, OVec1 O_VSplat, OVec1 O_VExtract, OVec1 O_VInsert, OVec1 O_VShuffle,
    OVec1 O_VMul, OVec1 O_VDiv, OVec1 O_VNeg, OVec1 O_VAbs, OVec1 O_VShl, OVec1 O_VShr, OVec1 O_VMin,
    OVec1 O_VMax, OVec1 O_VAddSat, OVec1 O_VSubSat, OVec1 O_VAvgr, OVec1 O_VPopcnt, OVec2 O_VAndNot,
    OVec2 O_VBitcast, OVec2 O_VBitselect, OVec2 O_VAnyTrue, OVec2 O_VAllTrue, OVec2 O_VBitmask,
    OVec2 O_VSwizzle, OVec2 O_VExtendLow, OVec2 O_VExtendHigh, OVec2 O_VNarrowSat, OVec2 O_VExtmulLow,
    OVec2 O_VExtmulHigh, OVec2 O_VExtaddPairwise, OVec2 O_VDot, OVec2 O_VQ15MulrSat, OVec2 O_VSqrt,
    OVec2 O_VPMin, OVec2 O_VPMax, OVec2 O_VCeil, OVec2 O_VFloor, OVec2 O_VTrunc, OVec2 O_VNearest,
    OVec2 O_VConvert, OVec2 O_VConvertLow, OVec2 O_VConvertZero, OVec2 O_VTruncSat,
    OVec2 O_VTruncSatZero]"

definition wire_code :: "opcode \<Rightarrow> nat" where
  "wire_code op = wire_number (instruction_descriptor op)"

definition wire_codes :: "(opcode \<times> nat) list" where
  "wire_codes = map (\<lambda>op. (op, wire_code op)) all_opcodes"

definition opcode_of_wire :: "nat \<Rightarrow> opcode option" where
  "opcode_of_wire number =
    (case dropWhile (\<lambda>(op, c). c < number) wire_codes of
       [] \<Rightarrow> None
     | (op, c) # _ \<Rightarrow> if c = number then Some op else None)"

section \<open>Vector rules\<close>

datatype (plugins only: code size) vector_rule = VR_Move | VR_Arithmetic | VR_Bits | VR_Compare
  | VR_Splat | VR_Extract | VR_Insert | VR_Shuffle | VR_Multiply | VR_FloatBinary | VR_Negate
  | VR_Absolute | VR_Shift | VR_MinMax | VR_Saturate | VR_Average | VR_Popcount | VR_Bitcast
  | VR_Bitselect | VR_AnyTrue | VR_AllTrue | VR_Bitmask | VR_Swizzle | VR_Extend | VR_Narrow
  | VR_Extmul | VR_Pairwise | VR_Dot | VR_Q15 | VR_FloatUnary | VR_Convert | VR_ConvertLow
  | VR_ConvertZero | VR_TruncSat | VR_TruncSatZero

primrec vector_rule1 :: "vector_op1 \<Rightarrow> vector_rule" where
  "vector_rule1 O_VMov = VR_Move"
| "vector_rule1 O_VAdd = VR_Arithmetic"
| "vector_rule1 O_VSub = VR_Arithmetic"
| "vector_rule1 O_VAnd = VR_Bits"
| "vector_rule1 O_VOr = VR_Bits"
| "vector_rule1 O_VXor = VR_Bits"
| "vector_rule1 O_VEq = VR_Compare"
| "vector_rule1 O_VNe = VR_Compare"
| "vector_rule1 O_VLt = VR_Compare"
| "vector_rule1 O_VLe = VR_Compare"
| "vector_rule1 O_VGt = VR_Compare"
| "vector_rule1 O_VGe = VR_Compare"
| "vector_rule1 O_VSplat = VR_Splat"
| "vector_rule1 O_VExtract = VR_Extract"
| "vector_rule1 O_VInsert = VR_Insert"
| "vector_rule1 O_VShuffle = VR_Shuffle"
| "vector_rule1 O_VMul = VR_Multiply"
| "vector_rule1 O_VDiv = VR_FloatBinary"
| "vector_rule1 O_VNeg = VR_Negate"
| "vector_rule1 O_VAbs = VR_Absolute"
| "vector_rule1 O_VShl = VR_Shift"
| "vector_rule1 O_VShr = VR_Shift"
| "vector_rule1 O_VMin = VR_MinMax"
| "vector_rule1 O_VMax = VR_MinMax"
| "vector_rule1 O_VAddSat = VR_Saturate"
| "vector_rule1 O_VSubSat = VR_Saturate"
| "vector_rule1 O_VAvgr = VR_Average"
| "vector_rule1 O_VPopcnt = VR_Popcount"

primrec vector_rule2 :: "vector_op2 \<Rightarrow> vector_rule" where
  "vector_rule2 O_VAndNot = VR_Bits"
| "vector_rule2 O_VBitcast = VR_Bitcast"
| "vector_rule2 O_VBitselect = VR_Bitselect"
| "vector_rule2 O_VAnyTrue = VR_AnyTrue"
| "vector_rule2 O_VAllTrue = VR_AllTrue"
| "vector_rule2 O_VBitmask = VR_Bitmask"
| "vector_rule2 O_VSwizzle = VR_Swizzle"
| "vector_rule2 O_VExtendLow = VR_Extend"
| "vector_rule2 O_VExtendHigh = VR_Extend"
| "vector_rule2 O_VNarrowSat = VR_Narrow"
| "vector_rule2 O_VExtmulLow = VR_Extmul"
| "vector_rule2 O_VExtmulHigh = VR_Extmul"
| "vector_rule2 O_VExtaddPairwise = VR_Pairwise"
| "vector_rule2 O_VDot = VR_Dot"
| "vector_rule2 O_VQ15MulrSat = VR_Q15"
| "vector_rule2 O_VSqrt = VR_FloatUnary"
| "vector_rule2 O_VPMin = VR_FloatBinary"
| "vector_rule2 O_VPMax = VR_FloatBinary"
| "vector_rule2 O_VCeil = VR_FloatUnary"
| "vector_rule2 O_VFloor = VR_FloatUnary"
| "vector_rule2 O_VTrunc = VR_FloatUnary"
| "vector_rule2 O_VNearest = VR_FloatUnary"
| "vector_rule2 O_VConvert = VR_Convert"
| "vector_rule2 O_VConvertLow = VR_ConvertLow"
| "vector_rule2 O_VConvertZero = VR_ConvertZero"
| "vector_rule2 O_VTruncSat = VR_TruncSat"
| "vector_rule2 O_VTruncSatZero = VR_TruncSatZero"

definition vector_rule_of :: "opcode \<Rightarrow> vector_rule option" where
  "vector_rule_of op = (case op of OVec1 v \<Rightarrow> Some (vector_rule1 v) | OVec2 v \<Rightarrow> Some (vector_rule2 v) | _ \<Rightarrow> None)"

definition vector_opcode :: "opcode \<Rightarrow> bool" where
  "vector_opcode op \<longleftrightarrow> vector_rule_of op \<noteq> None"

definition vector_comparison :: "opcode \<Rightarrow> bool" where
  "vector_comparison op \<longleftrightarrow> vector_rule_of op = Some VR_Compare"

definition vector_signed :: "ir_type \<Rightarrow> bool" where
  "vector_signed t \<longleftrightarrow> is_vector t \<and> is_integer (vector_lane_type t) \<and> element_index (type_element t) mod 2 = 0"

definition vector_integer :: "nat \<Rightarrow> bool \<Rightarrow> ir_type" where
  "vector_integer bits sign =
    (let element = (if bits = 8 then 0 else if bits = 16 then 2 else if bits = 32 then 4 else 6)
     in vector128 (all_elements ! (element + (if sign then 0 else 1))) (128 div bits))"

definition vector_widened :: "ir_type \<Rightarrow> ir_type" where
  "vector_widened t =
    (if valid_type t \<and> is_vector t \<and> is_integer (vector_lane_type t) \<and> 4 \<le> type_lanes t
     then vector_integer (256 div type_lanes t) (vector_signed t)
     else mk_type K_Undef)"

definition plain_integer :: "ir_type \<Rightarrow> bool" where
  "plain_integer t \<longleftrightarrow> is_integer t \<and> type_kind t \<noteq> K_Pointer"

definition vector_types :: "opcode \<Rightarrow> ir_type \<Rightarrow> ir_type list \<Rightarrow> bool" where
  "vector_types op dest inputs =
    (case vector_rule_of op of None \<Rightarrow> False | Some rule \<Rightarrow>
     if inputs = [] \<or> \<not> valid_type dest then False
     else let a = inputs ! 0 in
     if rule = VR_Splat
     then is_vector dest \<and> is_scalar a \<and> type_kind a \<noteq> K_Pointer \<and>
          (if is_integer (vector_lane_type dest) then is_integer a else a = vector_lane_type dest)
     else if \<not> valid_type a \<or> \<not> is_vector a then False
     else let lane = vector_lane_type a; bits = 128 div type_lanes a;
              int = is_integer lane; signed_input = vector_signed a in
     if rule = VR_Extract then (if int then plain_integer dest else dest = lane)
     else if rule = VR_AnyTrue \<or> rule = VR_AllTrue \<or> rule = VR_Bitmask
     then plain_integer dest \<and> (rule = VR_AnyTrue \<or> int)
     else if \<not> is_vector dest then False
     else if rule = VR_Bitcast then True
     else if rule = VR_Bitselect then length inputs = 3 \<and> inputs ! 1 = dest \<and> inputs ! 2 = dest
     else if rule = VR_Extend \<or> rule = VR_Extmul \<or> rule = VR_Pairwise
     then int \<and> dest = vector_widened a \<and> (rule \<noteq> VR_Pairwise \<or> bits \<le> 16) \<and>
          (rule \<noteq> VR_Extmul \<or> length inputs = 2 \<and> inputs ! 1 = a)
     else if rule = VR_Narrow
     then length inputs = 2 \<and> inputs ! 1 = a \<and> int \<and> signed_input \<and> (bits = 16 \<or> bits = 32) \<and>
          is_integer (vector_lane_type dest) \<and> type_lanes dest = type_lanes a * 2
     else if rule = VR_Dot
     then a = vector_integer 16 True \<and> length inputs = 2 \<and> inputs ! 1 = a \<and> dest = vector_integer 32 True
     else let f32 = vector128 E_F32 4; f64 = vector128 E_F64 2 in
     if rule = VR_Convert then int \<and> bits = 32 \<and> dest = f32
     else if rule = VR_ConvertLow then (int \<and> bits = 32 \<or> a = f32) \<and> dest = f64
     else if rule = VR_ConvertZero then a = f64 \<and> dest = f32
     else if rule = VR_TruncSat \<or> rule = VR_TruncSatZero
     then a = (if rule = VR_TruncSat then f32 else f64) \<and> is_integer (vector_lane_type dest) \<and> type_lanes dest = 4
     else if dest \<noteq> (if vector_comparison op then vector_mask_type a else a) then False
     else if rule = VR_Insert
     then length inputs = 3 \<and> (if int then plain_integer (inputs ! 1) else inputs ! 1 = lane)
     else if rule = VR_Shift then length inputs = 2 \<and> int \<and> plain_integer (inputs ! 1)
     else if rule = VR_Shuffle then length inputs = 3 \<and> inputs ! 1 = a
     else if rule = VR_Swizzle
     then bits = 8 \<and> int \<and> length inputs = 2 \<and> inputs ! 1 = vector_integer 8 False
     else if length inputs = 2 \<and> inputs ! 1 \<noteq> a then False
     else (case rule of
             VR_Multiply \<Rightarrow> \<not> int \<or> bits \<noteq> 8
           | VR_FloatBinary \<Rightarrow> \<not> int
           | VR_FloatUnary \<Rightarrow> \<not> int
           | VR_Absolute \<Rightarrow> \<not> int \<or> signed_input
           | VR_MinMax \<Rightarrow> \<not> int \<or> bits \<le> 32
           | VR_Saturate \<Rightarrow> int \<and> bits \<le> 16
           | VR_Average \<Rightarrow> int \<and> \<not> signed_input \<and> bits \<le> 16
           | VR_Popcount \<Rightarrow> int \<and> bits = 8
           | VR_Q15 \<Rightarrow> a = vector_integer 16 True
           | _ \<Rightarrow> True))"

section \<open>The wire table is searchable\<close>

text \<open>What a result of the rules always is: a valid type, and for a vector result one with full-width lanes.\<close>

lemma vector_types_valid: "vector_types op dest inputs \<Longrightarrow> valid_type dest \<and> inputs \<noteq> []"
  by (auto simp: vector_types_def Let_def split: option.splits if_splits)

lemma wire_code_list: "map wire_code all_opcodes = [0..<181] @ [182..<240]"
  by (simp add: all_opcodes_def wire_code_def descriptor_row_def upt_rec)

lemma wire_codes_increasing: "sorted_wrt (<) (map snd wire_codes)"
proof -
  have "map snd wire_codes = map wire_code all_opcodes" by (simp add: wire_codes_def)
  then show ?thesis by (simp add: wire_code_list sorted_wrt_append del: map_map)
qed

lemma dropWhile_sorted_find:
  "sorted_wrt (<) (map snd xs) \<Longrightarrow> (x, c) \<in> set xs \<Longrightarrow> \<exists>rest. dropWhile (\<lambda>(_, d). d < (c::nat)) xs = (x, c) # rest"
  by (induction xs) force+

lemma all_opcodes_complete: "op \<in> set all_opcodes"
proof (cases op)
  case (OVec1 x)
  then show ?thesis by (cases x) (simp_all add: all_opcodes_def)
next
  case (OVec2 x)
  then show ?thesis by (cases x) (simp_all add: all_opcodes_def)
next
  case (OMove x)
  then show ?thesis by (cases x) (simp_all add: all_opcodes_def)
next
  case (OExt x)
  then show ?thesis by (cases x) (simp_all add: all_opcodes_def)
next
  case (OConv x)
  then show ?thesis by (cases x) (simp_all add: all_opcodes_def)
next
  case (ONeg x)
  then show ?thesis by (cases x) (simp_all add: all_opcodes_def)
next
  case (OArith x)
  then show ?thesis by (cases x) (simp_all add: all_opcodes_def)
next
  case (OFArith x)
  then show ?thesis by (cases x) (simp_all add: all_opcodes_def)
next
  case (OCmp x)
  then show ?thesis by (cases x) (simp_all add: all_opcodes_def)
next
  case (OFCmp x)
  then show ?thesis by (cases x) (simp_all add: all_opcodes_def)
next
  case (OOvf x)
  then show ?thesis by (cases x) (simp_all add: all_opcodes_def)
next
  case (OTest x)
  then show ?thesis by (cases x) (simp_all add: all_opcodes_def)
next
  case (OBranch x)
  then show ?thesis by (cases x) (simp_all add: all_opcodes_def)
next
  case (OFBranch x)
  then show ?thesis by (cases x) (simp_all add: all_opcodes_def)
next
  case (OMisc x)
  then show ?thesis by (cases x) (simp_all add: all_opcodes_def)
qed

text \<open>C38: every opcode is found again from its wire code, so distinct opcodes have distinct codes.\<close>

theorem opcode_of_wire_code: "opcode_of_wire (wire_code op) = Some op"
proof -
  have "(op, wire_code op) \<in> set wire_codes"
    using all_opcodes_complete by (auto simp: wire_codes_def)
  from dropWhile_sorted_find [OF wire_codes_increasing this] show ?thesis
    by (auto simp: opcode_of_wire_def)
qed

end
