(* ===== verification/IntegerFolding.thy ===== *)
theory IntegerFolding
  imports Opcodes "HOL-Library.Signed_Division"
begin

text \<open>
  \<open>lib/Transforms/IntegerFolding.cpp\<close>: the width-aware folder of integer operations shared by the
  optimizer and the interpreter.  Operands are 64-bit words; the \<open>s\<close> suffixed operations work on
  the low 32 bits.  \<open>None\<close> is the empty optional: the operation is not an integer operation, an
  operand is missing, or the operation is undefined for the operands.
\<close>

section \<open>The folder\<close>

definition low :: "u64 \<Rightarrow> u32" where "low x = ucast x"

definition result32 :: "u64 \<Rightarrow> u64" where "result32 x = scast (low x)"

primrec fold_ext :: "ext_op \<Rightarrow> u64 \<Rightarrow> u64" where
  "fold_ext O_Ext8 = (\<lambda>a. scast (ucast a :: u8))"
| "fold_ext O_Ext16 = (\<lambda>a. scast (ucast a :: u16))"
| "fold_ext O_Ext32 = (\<lambda>a. result32 a)"
| "fold_ext O_UExt8 = (\<lambda>a. ucast (ucast a :: u8))"
| "fold_ext O_UExt16 = (\<lambda>a. ucast (ucast a :: u16))"
| "fold_ext O_UExt32 = (\<lambda>a. ucast (ucast a :: u32))"

primrec fold_test :: "test_op \<Rightarrow> u64 \<Rightarrow> u64" where
  "fold_test O_Bt = (\<lambda>a. a)"
| "fold_test O_Bts = (\<lambda>a. result32 a)"
| "fold_test O_Bf = (\<lambda>a. of_bool (a = 0))"
| "fold_test O_Bfs = (\<lambda>a. of_bool (low a = 0))"

definition fold_unary :: "opcode \<Rightarrow> u64 \<Rightarrow> u64 option" where
  "fold_unary op a =
    (case op of
       OExt e \<Rightarrow> Some (fold_ext e a)
     | ONeg n \<Rightarrow> (case n of O_Neg \<Rightarrow> Some (0 - a) | O_Negs \<Rightarrow> Some (result32 (0 - a)) | _ \<Rightarrow> None)
     | OTest t \<Rightarrow> Some (fold_test t a)
     | _ \<Rightarrow> None)"

definition signed_div :: "'a::len word \<Rightarrow> 'a word \<Rightarrow> 'a word option" where
  "signed_div x y = (if y = 0 \<or> sint x = - (2 ^ (LENGTH('a) - 1)) \<and> sint y = -1 then None
                     else Some (word_of_int (sint x sdiv sint y)))"

definition signed_mod :: "'a::len word \<Rightarrow> 'a word \<Rightarrow> 'a word option" where
  "signed_mod x y = (if y = 0 \<or> sint x = - (2 ^ (LENGTH('a) - 1)) \<and> sint y = -1 then None
                     else Some (word_of_int (sint x smod sint y)))"

primrec fold_arith :: "arith_op \<Rightarrow> u64 \<Rightarrow> u64 \<Rightarrow> u64 option" where
  "fold_arith O_Add = (\<lambda>a b. Some (a + b))"
| "fold_arith O_Adds = (\<lambda>a b. Some (result32 (a + b)))"
| "fold_arith O_Sub = (\<lambda>a b. Some (a - b))"
| "fold_arith O_Subs = (\<lambda>a b. Some (result32 (a - b)))"
| "fold_arith O_Mul = (\<lambda>a b. Some (a * b))"
| "fold_arith O_Muls = (\<lambda>a b. Some (result32 (a * b)))"
| "fold_arith O_Div = (\<lambda>a b. signed_div a b)"
| "fold_arith O_Divs = (\<lambda>a b. map_option scast (signed_div (low a) (low b)))"
| "fold_arith O_UDiv = (\<lambda>a b. if b = 0 then None else Some (a div b))"
| "fold_arith O_UDivs = (\<lambda>a b. if low b = 0 then None else Some (ucast (low a div low b)))"
| "fold_arith O_Mod = (\<lambda>a b. signed_mod a b)"
| "fold_arith O_Mods = (\<lambda>a b. map_option scast (signed_mod (low a) (low b)))"
| "fold_arith O_UMod = (\<lambda>a b. if b = 0 then None else Some (a mod b))"
| "fold_arith O_UMods = (\<lambda>a b. if low b = 0 then None else Some (ucast (low a mod low b)))"
| "fold_arith O_And = (\<lambda>a b. Some (a AND b))"
| "fold_arith O_Ands = (\<lambda>a b. Some (result32 (a AND b)))"
| "fold_arith O_Or = (\<lambda>a b. Some (a OR b))"
| "fold_arith O_Ors = (\<lambda>a b. Some (result32 (a OR b)))"
| "fold_arith O_Xor = (\<lambda>a b. Some (a XOR b))"
| "fold_arith O_Xors = (\<lambda>a b. Some (result32 (a XOR b)))"
| "fold_arith O_Lsh = (\<lambda>a b. if 64 \<le> b then None else Some (push_bit (unat b) a))"
| "fold_arith O_Lshs = (\<lambda>a b. if 32 \<le> low b then None else Some (result32 (ucast (push_bit (unat (low b)) (low a)))))"
| "fold_arith O_Rsh = (\<lambda>a b. if 64 \<le> b then None else Some (signed_drop_bit (unat b) a))"
| "fold_arith O_Rshs = (\<lambda>a b. if 32 \<le> low b then None else Some (scast (signed_drop_bit (unat (low b)) (low a))))"
| "fold_arith O_URsh = (\<lambda>a b. if 64 \<le> b then None else Some (drop_bit (unat b) a))"
| "fold_arith O_URshs = (\<lambda>a b. if 32 \<le> low b then None else Some (ucast (drop_bit (unat (low b)) (low a))))"

primrec fold_overflow :: "ovf_op \<Rightarrow> u64 \<Rightarrow> u64 \<Rightarrow> u64" where
  "fold_overflow O_Addo = (\<lambda>a b. a + b)"
| "fold_overflow O_Addos = (\<lambda>a b. result32 (a + b))"
| "fold_overflow O_Subo = (\<lambda>a b. a - b)"
| "fold_overflow O_Subos = (\<lambda>a b. result32 (a - b))"
| "fold_overflow O_Mulo = (\<lambda>a b. a * b)"
| "fold_overflow O_Mulos = (\<lambda>a b. result32 (a * b))"
| "fold_overflow O_UMulo = (\<lambda>a b. a * b)"
| "fold_overflow O_UMulos = (\<lambda>a b. ucast (low (a * b)))"

primrec fold_compare :: "cmp_op \<Rightarrow> u64 \<Rightarrow> u64 \<Rightarrow> bool" where
  "fold_compare O_Eq = (\<lambda>a b. sint a = sint b)"
| "fold_compare O_Eqs = (\<lambda>a b. sint (low a) = sint (low b))"
| "fold_compare O_Ne = (\<lambda>a b. sint a \<noteq> sint b)"
| "fold_compare O_Nes = (\<lambda>a b. sint (low a) \<noteq> sint (low b))"
| "fold_compare O_Lt = (\<lambda>a b. sint a < sint b)"
| "fold_compare O_Lts = (\<lambda>a b. sint (low a) < sint (low b))"
| "fold_compare O_ULt = (\<lambda>a b. a < b)"
| "fold_compare O_ULts = (\<lambda>a b. low a < low b)"
| "fold_compare O_Le = (\<lambda>a b. sint a \<le> sint b)"
| "fold_compare O_Les = (\<lambda>a b. sint (low a) \<le> sint (low b))"
| "fold_compare O_ULe = (\<lambda>a b. a \<le> b)"
| "fold_compare O_ULes = (\<lambda>a b. low a \<le> low b)"
| "fold_compare O_Gt = (\<lambda>a b. sint a > sint b)"
| "fold_compare O_Gts = (\<lambda>a b. sint (low a) > sint (low b))"
| "fold_compare O_UGt = (\<lambda>a b. a > b)"
| "fold_compare O_UGts = (\<lambda>a b. low a > low b)"
| "fold_compare O_Ge = (\<lambda>a b. sint a \<ge> sint b)"
| "fold_compare O_Ges = (\<lambda>a b. sint (low a) \<ge> sint (low b))"
| "fold_compare O_UGe = (\<lambda>a b. a \<ge> b)"
| "fold_compare O_UGes = (\<lambda>a b. low a \<ge> low b)"

text \<open>The comparison that a conditional branch performs.\<close>

primrec branch_compare :: "branch_op \<Rightarrow> cmp_op" where
  "branch_compare O_Beq = O_Eq" | "branch_compare O_Beqs = O_Eqs"
| "branch_compare O_Bne = O_Ne" | "branch_compare O_Bnes = O_Nes"
| "branch_compare O_Blt = O_Lt" | "branch_compare O_Blts = O_Lts"
| "branch_compare O_UBlt = O_ULt" | "branch_compare O_UBlts = O_ULts"
| "branch_compare O_Ble = O_Le" | "branch_compare O_Bles = O_Les"
| "branch_compare O_UBle = O_ULe" | "branch_compare O_UBles = O_ULes"
| "branch_compare O_Bgt = O_Gt" | "branch_compare O_Bgts = O_Gts"
| "branch_compare O_UBgt = O_UGt" | "branch_compare O_UBgts = O_UGts"
| "branch_compare O_Bge = O_Ge" | "branch_compare O_Bges = O_Ges"
| "branch_compare O_UBge = O_UGe" | "branch_compare O_UBges = O_UGes"

definition fold_binary :: "opcode \<Rightarrow> u64 \<Rightarrow> u64 \<Rightarrow> u64 option" where
  "fold_binary op a b =
    (case op of
       OArith r \<Rightarrow> fold_arith r a b
     | OOvf r \<Rightarrow> Some (fold_overflow r a b)
     | OCmp c \<Rightarrow> Some (of_bool (fold_compare c a b))
     | OBranch c \<Rightarrow> Some (of_bool (fold_compare (branch_compare c) a b))
     | _ \<Rightarrow> None)"

definition fold_integer :: "opcode \<Rightarrow> u64 option \<Rightarrow> u64 option \<Rightarrow> u64 option" where
  "fold_integer op a b =
    (case a of None \<Rightarrow> None
     | Some a \<Rightarrow> (case fold_unary op a of
         Some r \<Rightarrow> Some r
       | None \<Rightarrow> (case b of None \<Rightarrow> None | Some b \<Rightarrow> fold_binary op a b)))"

section \<open>Signed division on words\<close>

lemma sdiv_range:
  assumes "- k \<le> x" "x < k" "\<not> (x = - k \<and> y = -1)"
  shows "- k \<le> x sdiv y" "x sdiv y < (k::int)"
proof -
  have r: "- \<bar>x\<bar> \<le> x sdiv y" "x sdiv y \<le> \<bar>x\<bar>" using sdiv_int_range [of x y] by simp_all
  have "\<bar>x\<bar> \<le> k" using assms by linarith
  with r show "- k \<le> x sdiv y" by linarith
  show "x sdiv y < k"
  proof (cases "x = - k")
    case False
    with assms r show ?thesis by linarith
  next
    case True
    then have "x sdiv y \<noteq> - x" using assms int_sdiv_negated_is_minus1 [of x y] by auto
    with True r assms show ?thesis by linarith
  qed
qed

text \<open>Truncating division on words: the exact quotient and remainder, whenever it is defined.\<close>

lemma signed_div_exact: "signed_div x y = Some q \<Longrightarrow> sint q = sint x sdiv sint y"
  using sdiv_range [OF _ _, of "2 ^ (LENGTH('a) - 1)" "sint x" "sint y"] sint_range [of x]
  by (auto simp: signed_div_def sint_word_of_int_range split: if_splits)

lemma signed_mod_exact:
  assumes "signed_mod x y = Some r"
  shows "sint r = sint x smod sint y" "\<bar>sint r\<bar> < \<bar>sint y\<bar>"
proof -
  have y: "sint y \<noteq> 0" using assms by (auto simp: signed_mod_def signed_eq_0_iff split: if_splits)
  have b: "- \<bar>sint y\<bar> + 1 \<le> sint x smod sint y" "sint x smod sint y \<le> \<bar>sint y\<bar> - 1"
    using smod_int_range [OF y, of "sint x"] by simp_all
  have "\<bar>sint y\<bar> \<le> 2 ^ (LENGTH('a) - 1)" using sint_range [of y] by linarith
  then have "- (2 ^ (LENGTH('a) - 1)) \<le> sint x smod sint y" "sint x smod sint y < 2 ^ (LENGTH('a) - 1)"
    using b by linarith+
  then show e: "sint r = sint x smod sint y"
    using assms by (auto simp: signed_mod_def sint_word_of_int_range split: if_splits)
  show "\<bar>sint r\<bar> < \<bar>sint y\<bar>" unfolding e using b by linarith
qed

text \<open>Truncating division: the remainder is smaller than the divisor and has the dividend's sign.\<close>

definition truncates :: "int \<Rightarrow> int \<Rightarrow> int \<Rightarrow> int \<Rightarrow> bool" where
  "truncates x y q r \<longleftrightarrow> x = q * y + r \<and> \<bar>r\<bar> < \<bar>y\<bar> \<and> (r = 0 \<or> sgn r = sgn x)"

lemma smod_sign: "x smod y = 0 \<or> sgn (x smod y) = sgn (x::int)"
proof (cases "\<bar>x\<bar> mod \<bar>y\<bar> = 0")
  case True
  then show ?thesis by (simp add: smod_int_alt_def)
next
  case False
  then have "0 < \<bar>x\<bar> mod \<bar>y\<bar>"
    by (cases "y = 0") (auto simp: order.not_eq_order_implies_strict)
  then show ?thesis by (simp add: smod_int_alt_def sgn_mult)
qed

lemma signed_div_mod_law:
  "signed_div x y = Some q \<Longrightarrow> signed_mod x y = Some r \<Longrightarrow> truncates (sint x) (sint y) (sint q) (sint r)"
  using signed_div_exact [of x y q] signed_mod_exact [of x y r] sdiv_mult_smod_eq [of "sint x" "sint y"] smod_sign
  by (auto simp: truncates_def)

lemma signed_division_cases:
  fixes x y :: "'a::len word"
  shows "(y = 0 \<or> sint x = - (2 ^ (LENGTH('a) - 1)) \<and> sint y = -1) \<and> signed_div x y = None \<and> signed_mod x y = None \<or>
    (\<exists>q r. signed_div x y = Some q \<and> signed_mod x y = Some r \<and> truncates (sint x) (sint y) (sint q) (sint r))"
proof (cases "y = 0 \<or> sint x = - (2 ^ (LENGTH('a) - 1)) \<and> sint y = -1")
  case True
  then show ?thesis by (simp add: signed_div_def signed_mod_def)
next
  case False
  then obtain q r where "signed_div x y = Some q" "signed_mod x y = Some r"
    by (simp add: signed_div_def signed_mod_def)
  with signed_div_mod_law show ?thesis by blast
qed

lemma unsigned_truncates: "b \<noteq> 0 \<Longrightarrow> truncates (uint a) (uint b) (uint (a div b)) (uint (a mod b))" for a b :: "'a::len word"
proof -
  assume "b \<noteq> 0"
  then have "0 < uint b" by (simp add: word_neq_0_conv [symmetric] word_gt_0_no uint_0_iff order_less_le)
  then show ?thesis
    using pos_mod_sign [of "uint b" "uint a"] pos_mod_bound [of "uint b" "uint a"]
    by (auto simp: truncates_def uint_div uint_mod sgn_if order_less_le mod_pos_pos_trivial)
qed

lemma sint_scast_up: "sint (scast (w :: u32) :: u64) = sint w"
  by (rule sint_up_scast) (simp add: is_up)

lemma uint_ucast_up: "uint (ucast (w :: u32) :: u64) = uint w"
  by (simp add: unsigned_ucast_eq take_bit_int_eq_self_iff uint_bounded [THEN order_less_le_trans])

lemma low_scast [simp]: "low (scast w) = w"
  by (rule bit_word_eqI) (simp add: low_def bit_ucast_iff bit_word_scast_iff)

lemma low_ucast [simp]: "low (ucast w) = w"
  by (rule bit_word_eqI) (simp add: low_def bit_ucast_iff)

text \<open>The low half commutes with the operations of the folder.\<close>

lemma mod_64_32: "(x::int) mod 18446744073709551616 mod 4294967296 = x mod 4294967296"
  by (simp add: mod_mod_cancel)

lemma low_add: "low (a + b) = low a + low b"
  unfolding low_def by transfer (simp add: take_bit_eq_mod, metis mod_64_32 mod_add_eq)

lemma low_diff: "low (a - b) = low a - low b"
  unfolding low_def by transfer (simp add: take_bit_eq_mod, metis mod_64_32 mod_diff_eq)

lemma low_mult: "low (a * b) = low a * low b"
  unfolding low_def by transfer (simp add: take_bit_eq_mod, metis mod_64_32 mod_mult_eq)

lemma low_bits: "low (a AND b) = low a AND low b" "low (a OR b) = low a OR low b" "low (a XOR b) = low a XOR low b"
  unfolding low_def by (transfer, simp)+

lemmas low_homs = low_add low_diff low_mult low_bits

lemma sint_signed_drop_bit: "sint (signed_drop_bit n (a::'a::len word)) = sint a div 2 ^ n"
  by (simp add: sint_signed_drop_bit_eq drop_bit_eq_div)

lemma uint_push_bit: "uint (push_bit n (a::'a::len word)) = uint a * 2 ^ n mod 2 ^ LENGTH('a)"
  unfolding unsigned_push_bit_eq by (simp only: push_bit_eq_mult take_bit_eq_mod)

lemma uint_drop_bit: "uint (drop_bit n (a::'a::len word)) = uint a div 2 ^ n"
  unfolding unsigned_drop_bit_eq
  by (simp add: drop_bit_eq_div take_bit_int_eq_self [OF unsigned_greater_eq unsigned_less])

section \<open>Properties\<close>

text \<open>C20: division and remainder of the folder obey the truncating division law at both widths and
  both signednesses, and are undefined exactly for a zero divisor or the one overflowing quotient.\<close>

theorem fold_division_law:
  "(case (fold_integer (OArith O_Div) (Some a) (Some b), fold_integer (OArith O_Mod) (Some a) (Some b)) of
     (Some q, Some r) \<Rightarrow> truncates (sint a) (sint b) (sint q) (sint r)
   | (None, None) \<Rightarrow> b = 0 \<or> sint a = - (2 ^ 63) \<and> sint b = -1 | _ \<Rightarrow> False) \<and>
   (case (fold_integer (OArith O_Divs) (Some a) (Some b), fold_integer (OArith O_Mods) (Some a) (Some b)) of
     (Some q, Some r) \<Rightarrow> truncates (sint (low a)) (sint (low b)) (sint q) (sint r)
   | (None, None) \<Rightarrow> low b = 0 \<or> sint (low a) = - (2 ^ 31) \<and> sint (low b) = -1 | _ \<Rightarrow> False) \<and>
   (case (fold_integer (OArith O_UDiv) (Some a) (Some b), fold_integer (OArith O_UMod) (Some a) (Some b)) of
     (Some q, Some r) \<Rightarrow> truncates (uint a) (uint b) (uint q) (uint r)
   | (None, None) \<Rightarrow> b = 0 | _ \<Rightarrow> False) \<and>
   (case (fold_integer (OArith O_UDivs) (Some a) (Some b), fold_integer (OArith O_UMods) (Some a) (Some b)) of
     (Some q, Some r) \<Rightarrow> truncates (uint (low a)) (uint (low b)) (uint q) (uint r)
   | (None, None) \<Rightarrow> low b = 0 | _ \<Rightarrow> False)"
proof -
  have f: "fold_integer (OArith op) (Some a) (Some b) = fold_arith op a b" for op
    by (simp add: fold_integer_def fold_unary_def fold_binary_def)
  have signed64: "case (signed_div a b, signed_mod a b) of
     (Some q, Some r) \<Rightarrow> truncates (sint a) (sint b) (sint q) (sint r)
   | (None, None) \<Rightarrow> b = 0 \<or> sint a = - (2 ^ 63) \<and> sint b = -1 | _ \<Rightarrow> False"
    using signed_division_cases [of b a] by auto
  have signed32: "case (map_option scast (signed_div (low a) (low b)) :: u64 option, map_option scast (signed_mod (low a) (low b)) :: u64 option) of
     (Some q, Some r) \<Rightarrow> truncates (sint (low a)) (sint (low b)) (sint q) (sint r)
   | (None, None) \<Rightarrow> low b = 0 \<or> sint (low a) = - (2 ^ 31) \<and> sint (low b) = -1 | _ \<Rightarrow> False"
    using signed_division_cases [of "low b" "low a"] by (auto simp: sint_scast_up)
  show ?thesis
    unfolding f
    using signed64 signed32 unsigned_truncates [of b a] unsigned_truncates [of "low b" "low a"]
    by (simp add: uint_ucast_up)
qed


text \<open>The operations on the low halves, by what fills the high half of the result: the sign, zeros, or a truth
  value in the whole word.  \<open>narrow_partial\<close> are those that can be undefined.\<close>

definition narrow_signed :: "opcode list" where
  "narrow_signed =
    map OArith [O_Adds, O_Subs, O_Muls, O_Divs, O_Mods, O_Ands, O_Ors, O_Xors, O_Lshs, O_Rshs] @
    map OOvf [O_Addos, O_Subos, O_Mulos] @ [ONeg O_Negs, OTest O_Bts, OExt O_Ext32]"

definition narrow_unsigned :: "opcode list" where
  "narrow_unsigned = map OArith [O_UDivs, O_UMods, O_URshs] @ [OOvf O_UMulos, OExt O_UExt32]"

definition narrow_truth :: "opcode list" where
  "narrow_truth = OTest O_Bfs #
    map OCmp [O_Eqs, O_Nes, O_Lts, O_ULts, O_Les, O_ULes, O_Gts, O_UGts, O_Ges, O_UGes] @
    map OBranch [O_Beqs, O_Bnes, O_Blts, O_UBlts, O_Bles, O_UBles, O_Bgts, O_UBgts, O_Bges, O_UBges]"

definition narrow_partial :: "opcode list" where
  "narrow_partial = map OArith [O_Divs, O_Mods, O_UDivs, O_UMods, O_Lshs, O_Rshs, O_URshs]"

lemma low_uminus: "low (- a) = - low a"
  using low_diff [of 0 a] by (simp add: low_def)

text \<open>The integer that the total operations compute from the low halves; the result is this integer modulo
  \<open>2 ^ 32\<close>, extended.\<close>

definition narrow_integer :: "opcode \<Rightarrow> int \<Rightarrow> int \<Rightarrow> int option" where
  "narrow_integer op x y =
    (if op \<in> {OArith O_Adds, OOvf O_Addos} then Some (x + y)
     else if op \<in> {OArith O_Subs, OOvf O_Subos} then Some (x - y)
     else if op \<in> {OArith O_Muls, OOvf O_Mulos, OOvf O_UMulos} then Some (x * y)
     else if op = OArith O_Ands then Some (x AND y)
     else if op = OArith O_Ors then Some (x OR y)
     else if op = OArith O_Xors then Some (x XOR y)
     else if op = ONeg O_Negs then Some (- x)
     else if op \<in> {OTest O_Bts, OExt O_Ext32, OExt O_UExt32} then Some x
     else None)"

text \<open>The relation that a test, a comparison or a branch holds of, on the signed or unsigned low halves.\<close>

definition narrow_relation :: "opcode \<Rightarrow> u32 \<Rightarrow> u32 \<Rightarrow> bool option" where
  "narrow_relation op x y =
    (if op = OTest O_Bfs then Some (uint x = 0)
     else if op \<in> {OCmp O_Eqs, OBranch O_Beqs} then Some (uint x = uint y)
     else if op \<in> {OCmp O_Nes, OBranch O_Bnes} then Some (uint x \<noteq> uint y)
     else if op \<in> {OCmp O_Lts, OBranch O_Blts} then Some (sint x < sint y)
     else if op \<in> {OCmp O_Les, OBranch O_Bles} then Some (sint x \<le> sint y)
     else if op \<in> {OCmp O_Gts, OBranch O_Bgts} then Some (sint y < sint x)
     else if op \<in> {OCmp O_Ges, OBranch O_Bges} then Some (sint y \<le> sint x)
     else if op \<in> {OCmp O_ULts, OBranch O_UBlts} then Some (uint x < uint y)
     else if op \<in> {OCmp O_ULes, OBranch O_UBles} then Some (uint x \<le> uint y)
     else if op \<in> {OCmp O_UGts, OBranch O_UBgts} then Some (uint y < uint x)
     else if op \<in> {OCmp O_UGes, OBranch O_UBges} then Some (uint y \<le> uint x)
     else None)"

lemma low_integers:
  "low a + low b = word_of_int (uint (low a) + uint (low b))" "low a - low b = word_of_int (uint (low a) - uint (low b))"
  "low a * low b = word_of_int (uint (low a) * uint (low b))" "low a AND low b = word_of_int (uint (low a) AND uint (low b))"
  "low a OR low b = word_of_int (uint (low a) OR uint (low b))" "low a XOR low b = word_of_int (uint (low a) XOR uint (low b))"
  "- low a = word_of_int (- uint (low a))"
  by (simp_all add: wi_hom_syms and_word.abs_eq or_word.abs_eq xor_word.abs_eq flip: word_and_def word_or_def word_xor_def)

text \<open>C22: every narrow operation of the folder, unary, binary, comparison or branch, depends on the low 32 bits of
  its operands only; its result is the sign extension of a 32-bit word for the signed operations, the zero extension
  for the unsigned ones and 0 or 1 for the tests and comparisons; it is undefined only for division, remainder and
  shifts; the low half of a total operation is the exact integer result modulo \<open>2 ^ 32\<close>; and a test, comparison or
  branch is 1 exactly when its relation holds of the signed or unsigned low halves.\<close>

theorem narrow_operations_use_low_halves:
  assumes "op \<in> set (narrow_signed @ narrow_unsigned @ narrow_truth)" "low a = low a'" "low b = low b'"
  shows "fold_integer op (Some a) (Some b) = fold_integer op (Some a') (Some b') \<and>
    (case fold_integer op (Some a) (Some b) of
       None \<Rightarrow> op \<in> set narrow_partial
     | Some r \<Rightarrow>
        (if op \<in> set narrow_signed then sint r = sint (low r)
         else if op \<in> set narrow_unsigned then uint r = uint (low r)
         else r \<in> {0, 1}) \<and>
        (case narrow_integer op (uint (low a)) (uint (low b)) of Some k \<Rightarrow> low r = word_of_int k | None \<Rightarrow> True) \<and>
        (case narrow_relation op (low a) (low b) of Some P \<Rightarrow> r = of_bool P | None \<Rightarrow> op \<notin> set narrow_truth))"
proof (rule conjI)
  note folds = fold_integer_def fold_unary_def fold_binary_def result32_def
  have halves: "(ucast a :: u32) = ucast a'" using assms(2) by (simp add: low_def)
  show "fold_integer op (Some a) (Some b) = fold_integer op (Some a') (Some b')"
    using assms by (auto simp: halves narrow_signed_def narrow_unsigned_def narrow_truth_def folds low_homs low_uminus)
  have zero: "x = 0 \<longleftrightarrow> uint x = 0" for x :: u32 by (simp only: uint_0_iff)
  have sint_uint_eq: "sint x = sint y \<longleftrightarrow> uint x = uint y" for x y :: u32
    by (simp only: word_eq_iff_signed [symmetric] word_uint_eq_iff [symmetric])
  from assms(1) consider "op \<in> set narrow_signed" | "op \<in> set narrow_unsigned" | "op \<in> set narrow_truth" by auto
  then show "case fold_integer op (Some a) (Some b) of
       None \<Rightarrow> op \<in> set narrow_partial
     | Some r \<Rightarrow>
        (if op \<in> set narrow_signed then sint r = sint (low r)
         else if op \<in> set narrow_unsigned then uint r = uint (low r)
         else r \<in> {0, 1}) \<and>
        (case narrow_integer op (uint (low a)) (uint (low b)) of Some k \<Rightarrow> low r = word_of_int k | None \<Rightarrow> True) \<and>
        (case narrow_relation op (low a) (low b) of Some P \<Rightarrow> r = of_bool P | None \<Rightarrow> op \<notin> set narrow_truth)"
  proof cases
    case 1
    then have "narrow_relation op (low a) (low b) = None" "op \<notin> set narrow_truth"
      by (auto simp: narrow_signed_def narrow_truth_def narrow_relation_def)
    with 1 show ?thesis
      by (auto simp: narrow_signed_def narrow_integer_def narrow_partial_def folds sint_scast_up low_homs low_uminus
        low_integers [symmetric] split: option.split if_splits)
  next
    case 2
    then have "narrow_relation op (low a) (low b) = None" "op \<notin> set narrow_truth"
      by (auto simp: narrow_unsigned_def narrow_truth_def narrow_relation_def)
    with 2 show ?thesis
      by (auto simp: narrow_signed_def narrow_unsigned_def narrow_integer_def narrow_partial_def folds uint_ucast_up low_homs low_def [of a, symmetric]
        low_integers [symmetric] split: option.split if_splits)
  next
    case 3
    then show ?thesis
      by (auto simp: narrow_signed_def narrow_unsigned_def narrow_truth_def narrow_integer_def narrow_relation_def folds word_le_def word_less_def zero sint_uint_eq split: option.split if_splits)
  qed
qed

theorem narrow_operations_use_low_halves_witness:
  "fold_integer (OArith O_Adds) (Some 0x100000001) (Some 0x7fffffff) = fold_integer (OArith O_Adds) (Some 1) (Some 0x7fffffff) \<and>
   fold_integer (OArith O_Adds) (Some 1) (Some 0x7fffffff) = Some 0xffffffff80000000"
proof -
  have "low 0x100000001 = low 1" by (simp add: low_def)
  then show ?thesis
    using narrow_operations_use_low_halves [of "OArith O_Adds" "0x100000001" 1 "0x7fffffff" "0x7fffffff"]
    by (simp add: narrow_signed_def fold_integer_def fold_unary_def fold_binary_def result32_def low_def)
qed

text \<open>C31: the six shifts are multiplication by a power of two modulo the width (sign-extended for the narrow
  one), flooring signed division and unsigned division, and are undefined exactly for counts outside the width.\<close>

theorem fold_shift_law:
  "(case fold_integer (OArith O_Lsh) (Some a) (Some b) of
      None \<Rightarrow> 64 \<le> uint b | Some r \<Rightarrow> uint b < 64 \<and> uint r = uint a * 2 ^ unat b mod 2 ^ 64) \<and>
   (case fold_integer (OArith O_Lshs) (Some a) (Some b) of
      None \<Rightarrow> 32 \<le> uint (low b)
    | Some r \<Rightarrow> uint (low b) < 32 \<and> uint (low r) = uint (low a) * 2 ^ unat (low b) mod 2 ^ 32 \<and> sint r = sint (low r)) \<and>
   (case fold_integer (OArith O_Rsh) (Some a) (Some b) of
      None \<Rightarrow> 64 \<le> uint b | Some r \<Rightarrow> uint b < 64 \<and> sint r = sint a div 2 ^ unat b) \<and>
   (case fold_integer (OArith O_URsh) (Some a) (Some b) of
      None \<Rightarrow> 64 \<le> uint b | Some r \<Rightarrow> uint b < 64 \<and> uint r = uint a div 2 ^ unat b) \<and>
   (case fold_integer (OArith O_Rshs) (Some a) (Some b) of
      None \<Rightarrow> 32 \<le> uint (low b) | Some r \<Rightarrow> uint (low b) < 32 \<and> sint r = sint (low a) div 2 ^ unat (low b)) \<and>
   (case fold_integer (OArith O_URshs) (Some a) (Some b) of
      None \<Rightarrow> 32 \<le> uint (low b) | Some r \<Rightarrow> uint (low b) < 32 \<and> uint r = uint (low a) div 2 ^ unat (low b))"
proof -
  have f: "fold_integer (OArith op) (Some a) (Some b) = fold_arith op a b" for op
    by (simp add: fold_integer_def fold_unary_def fold_binary_def)
  have l: "64 \<le> b \<longleftrightarrow> 64 \<le> uint b" "32 \<le> low b \<longleftrightarrow> 32 \<le> uint (low b)"
    by (simp_all add: word_le_def)
  show ?thesis
    unfolding f using uint_push_bit [of "unat b" a] uint_push_bit [of "unat (low b)" "low a"]
    by (simp add: l result32_def uint_push_bit uint_drop_bit sint_signed_drop_bit sint_scast_up uint_ucast_up not_le del: push_bit_eq_mult)
qed

end
