(* ===== verification/Values.thy ===== *)
theory Values
  imports IRTypes
begin

text \<open>
  Typed values at execution boundaries: \<open>include/mirnext/Execution/Value.hpp\<close> and
  \<open>lib/Execution/Value.cpp\<close>.  A \<open>ScalarValue\<close> is its type and its 16-byte storage; a block argument
  carries the bytes it borrows.  \<open>ld_size\<close> is \<open>sizeof (long double)\<close> on the host, which the code
  tests at compile time.
\<close>

section \<open>Scalar values\<close>

definition storage_size :: nat where "storage_size = 16"

record scalar_value =
  sv_type :: ir_type
  sv_storage :: bytes

definition sv_make :: "ir_type \<Rightarrow> bytes \<Rightarrow> scalar_value" where
  "sv_make t bs = \<lparr>sv_type = t, sv_storage = bs @ replicate (storage_size - length bs) 0\<rparr>"

definition sv_i64 :: "u64 \<Rightarrow> scalar_value" where "sv_i64 v = sv_make type_i64 (put_le 8 v)"
definition sv_u64 :: "u64 \<Rightarrow> scalar_value" where "sv_u64 v = sv_make (mk_type K_U64) (put_le 8 v)"
definition sv_pointer :: "u64 \<Rightarrow> scalar_value" where "sv_pointer v = sv_make type_pointer (put_le 8 v)"

definition value_invalid :: "'a result" where
  "value_invalid = mk_error InvalidArgument ''execution scalar type/storage mismatch''"

definition from_storage :: "ir_type \<Rightarrow> bytes \<Rightarrow> scalar_value result" where
  "from_storage t bs =
    (if \<not> valid_type t \<or> (\<not> is_scalar t \<and> \<not> is_vector t) \<or> length bs < storage_size then value_invalid
     else Inr \<lparr>sv_type = t, sv_storage = take storage_size bs\<rparr>)"

definition sv_vector :: "ir_type \<Rightarrow> bytes \<Rightarrow> scalar_value result" where
  "sv_vector t bs = (if \<not> valid_type t \<or> \<not> is_vector t \<or> length bs \<noteq> storage_size then value_invalid
                     else from_storage t bs)"

text \<open>\<open>read<std::uint64_t>\<close> and its kin: a little-endian read of the leading bytes.\<close>

definition sv_bits :: "scalar_value \<Rightarrow> u64" where
  "sv_bits v = get_le (take 8 (sv_storage v))"

definition as_u64 :: "scalar_value \<Rightarrow> u64 result" where
  "as_u64 v = (if \<not> is_integer (sv_type v) then value_invalid else Inr (sv_bits v))"

definition as_float :: "scalar_value \<Rightarrow> bytes result" where
  "as_float v = (if type_kind (sv_type v) \<noteq> K_F32 then value_invalid else Inr (take 4 (sv_storage v)))"

definition as_double :: "scalar_value \<Rightarrow> bytes result" where
  "as_double v = (if type_kind (sv_type v) \<noteq> K_F64 then value_invalid else Inr (take 8 (sv_storage v)))"

definition as_long_double :: "nat \<Rightarrow> scalar_value \<Rightarrow> bytes result" where
  "as_long_double ld_size v =
    (if type_kind (sv_type v) \<noteq> K_LongDouble then value_invalid else Inr (take ld_size (sv_storage v)))"

section \<open>Arguments\<close>

record block_value =
  bv_type :: ir_type
  bv_bytes :: bytes
  bv_writable :: bytes

datatype argument = ArgScalar scalar_value | ArgBlock block_value

definition block_argument :: "bytes \<Rightarrow> block_class \<Rightarrow> argument" where
  "block_argument bs c = ArgBlock \<lparr>bv_type = block_type (length bs) c, bv_bytes = bs, bv_writable = []\<rparr>"

definition return_buffer :: "bytes \<Rightarrow> argument" where
  "return_buffer bs = ArgBlock \<lparr>bv_type = return_block (length bs), bv_bytes = bs, bv_writable = bs\<rparr>"

fun argument_type :: "argument \<Rightarrow> ir_type" where
  "argument_type (ArgScalar v) = sv_type v"
| "argument_type (ArgBlock b) = bv_type b"

definition arg_invalid :: "string \<Rightarrow> 'a result" where
  "arg_invalid m = mk_error InvalidOperand m"

definition check_argument_count :: "signature \<Rightarrow> nat \<Rightarrow> unit result" where
  "check_argument_count sig count =
    (if count < length (parameters sig) \<or> (\<not> variadic sig \<and> count \<noteq> length (parameters sig))
     then arg_invalid ''call argument count mismatch'' else Inr ())"

definition normalize_bits :: "kind \<Rightarrow> u64 \<Rightarrow> scalar_value option" where
  "normalize_bits k bits =
    (case k of
       K_I8 \<Rightarrow> Some (sv_i64 (scast (ucast bits :: u8)))
     | K_I16 \<Rightarrow> Some (sv_i64 (scast (ucast bits :: u16)))
     | K_I32 \<Rightarrow> Some (sv_i64 (scast (ucast bits :: u32)))
     | K_U8 \<Rightarrow> Some (sv_u64 (ucast (ucast bits :: u8)))
     | K_U16 \<Rightarrow> Some (sv_u64 (ucast (ucast bits :: u16)))
     | K_U32 \<Rightarrow> Some (sv_u64 (ucast (ucast bits :: u32)))
     | _ \<Rightarrow> None)"

definition normalize_scalar :: "nat \<Rightarrow> ir_type \<Rightarrow> scalar_value \<Rightarrow> scalar_value result" where
  "normalize_scalar ld_size t v =
    (if is_vector t \<or> is_vector (sv_type v)
     then (if t \<noteq> sv_type v then arg_invalid ''vector type mismatch'' else from_storage t (sv_storage v))
     else if \<not> is_scalar t \<or> \<not> is_scalar (sv_type v) then arg_invalid ''invalid scalar type''
     else if is_float t
     then (if t = sv_type v then Inr v
           else if ld_size = 8 \<and> (type_kind t = K_LongDouble \<and> type_kind (sv_type v) = K_F64 \<or>
                                  type_kind t = K_F64 \<and> type_kind (sv_type v) = K_LongDouble)
           then from_storage t (sv_storage v)
           else arg_invalid ''floating scalar type mismatch'')
     else if \<not> is_integer (sv_type v) then arg_invalid ''integer scalar type mismatch''
     else let normalized = (case normalize_bits (type_kind t) (sv_bits v) of Some n \<Rightarrow> n | None \<Rightarrow> v)
          in from_storage t (sv_storage normalized))"

definition normalize_argument :: "nat \<Rightarrow> ir_type \<Rightarrow> argument \<Rightarrow> bool \<Rightarrow> argument result" where
  "normalize_argument ld_size t arg unnamed =
    (if is_block t
     then (case arg of
             ArgScalar _ \<Rightarrow> arg_invalid ''block argument size, ABI classification or mutability mismatch''
           | ArgBlock b \<Rightarrow>
               if \<not> valid_type t \<or> bv_type b \<noteq> t \<or> length (bv_bytes b) \<noteq> type_size t \<or>
                  (type_kind t = K_ReturnBlock \<and> length (bv_writable b) \<noteq> type_size t)
               then arg_invalid ''block argument size, ABI classification or mutability mismatch''
               else if type_size t = 0 \<or> (unnamed \<and> type_kind t = K_ReturnBlock)
               then arg_invalid ''invalid variadic block argument''
               else Inr arg)
     else (case arg of
             ArgBlock _ \<Rightarrow> arg_invalid ''scalar parameter received a block''
           | ArgScalar v \<Rightarrow>
               if unnamed \<and> is_vector (sv_type v) then arg_invalid ''v128 variadic arguments are not supported''
               else if unnamed \<and> type_kind (sv_type v) = K_F32
               then arg_invalid ''float variadic argument must be promoted to double''
               else rbind (normalize_scalar ld_size t v) (\<lambda>v. Inr (ArgScalar v))))"

record normalized =
  n_blocks :: "bytes list"
  n_values :: "argument list"

fun normalize_loop :: "nat \<Rightarrow> signature \<Rightarrow> bool \<Rightarrow> nat \<Rightarrow> argument list \<Rightarrow> normalized \<Rightarrow> normalized result" where
  "normalize_loop ld_size sig copy_blocks n [] acc = Inr acc"
| "normalize_loop ld_size sig copy_blocks n (arg # args) acc =
    (let t = (if n < length (parameters sig) then parameters sig ! n else argument_type arg)
     in rbind (normalize_argument ld_size t arg (length (parameters sig) \<le> n)) (\<lambda>value.
          normalize_loop ld_size sig copy_blocks (n + 1) args
            (case value of
               ArgBlock b \<Rightarrow>
                 if copy_blocks \<and> type_kind t \<noteq> K_ReturnBlock
                 then acc\<lparr>n_blocks := n_blocks acc @ [bv_bytes b],
                          n_values := n_values acc @ [block_argument (bv_bytes b) (type_bclass t)]\<rparr>
                 else acc\<lparr>n_values := n_values acc @ [value]\<rparr>
             | ArgScalar _ \<Rightarrow> acc\<lparr>n_values := n_values acc @ [value]\<rparr>)))"

definition normalize_arguments :: "nat \<Rightarrow> signature \<Rightarrow> argument list \<Rightarrow> bool \<Rightarrow> normalized result" where
  "normalize_arguments ld_size sig args copy_blocks =
    rbind (check_argument_count sig (length args)) (\<lambda>_.
      normalize_loop ld_size sig copy_blocks 0 args \<lparr>n_blocks = [], n_values = []\<rparr>)"

section \<open>Normalized values\<close>

lemma length_sv_make [simp]: "length bs \<le> storage_size \<Longrightarrow> length (sv_storage (sv_make t bs)) = storage_size"
  by (simp add: sv_make_def)

lemma sv_bits_make [simp]: "sv_bits (sv_i64 v) = v" "sv_bits (sv_u64 v) = v" "sv_bits (sv_pointer v) = v"
  by (simp_all add: sv_bits_def sv_i64_def sv_u64_def sv_pointer_def sv_make_def)

lemma sv_make_type [simp]: "sv_type (sv_make t bs) = t" "sv_type (sv_i64 v) = type_i64"
  "sv_type (sv_u64 v) = mk_type K_U64" "sv_type (sv_pointer v) = type_pointer"
  by (simp_all add: sv_make_def sv_i64_def sv_u64_def sv_pointer_def)

lemma from_storage_Inr:
  "from_storage t bs = Inr v \<longleftrightarrow> valid_type t \<and> (is_scalar t \<or> is_vector t) \<and> storage_size \<le> length bs \<and>
    v = \<lparr>sv_type = t, sv_storage = take storage_size bs\<rparr>"
  by (auto simp: from_storage_def value_invalid_def)

text \<open>The integer a value denotes at a kind: its low bits, sign or zero extended.\<close>

definition extend_kind :: "kind \<Rightarrow> u64 \<Rightarrow> u64" where
  "extend_kind k bits =
    (case k of K_I8 \<Rightarrow> scast (ucast bits :: u8) | K_I16 \<Rightarrow> scast (ucast bits :: u16)
     | K_I32 \<Rightarrow> scast (ucast bits :: u32) | K_U8 \<Rightarrow> ucast (ucast bits :: u8)
     | K_U16 \<Rightarrow> ucast (ucast bits :: u16) | K_U32 \<Rightarrow> ucast (ucast bits :: u32) | _ \<Rightarrow> bits)"

lemma normalize_bits_extend: "normalize_bits k bits = Some n \<Longrightarrow> sv_bits n = extend_kind k bits"
  by (auto simp: normalize_bits_def extend_kind_def split: kind.splits)

lemma normalize_bits_None: "normalize_bits k bits = None \<Longrightarrow> extend_kind k bits = bits"
  by (auto simp: normalize_bits_def extend_kind_def split: kind.splits)

lemma extend_kind_idem [simp]: "extend_kind k (extend_kind k b) = extend_kind k b"
proof -
  have "ucast (scast (w :: u8) :: u64) = w" "ucast (ucast (w :: u8) :: u64) = w" for w
    by (rule bit_word_eqI, simp add: bit_word_scast_iff bit_ucast_iff)+
  moreover have "ucast (scast (w :: u16) :: u64) = w" "ucast (ucast (w :: u16) :: u64) = w" for w
    by (rule bit_word_eqI, simp add: bit_word_scast_iff bit_ucast_iff)+
  moreover have "ucast (scast (w :: u32) :: u64) = w" "ucast (ucast (w :: u32) :: u64) = w" for w
    by (rule bit_word_eqI, simp add: bit_word_scast_iff bit_ucast_iff)+
  ultimately show ?thesis by (cases k) (simp_all add: extend_kind_def)
qed

lemma normalize_bits_storage:
  "normalize_bits k b = Some n \<Longrightarrow> sv_storage n = put_le 8 (extend_kind k b) @ replicate 8 0"
  by (auto simp: normalize_bits_def extend_kind_def sv_i64_def sv_u64_def sv_make_def storage_size_def split: kind.splits)

lemma normalize_bits_cong: "normalize_bits k b = None \<longleftrightarrow> normalize_bits k b' = None"
  by (auto simp: normalize_bits_def split: kind.splits)

lemma integer_not_float: "is_integer t \<Longrightarrow> \<not> is_float t \<and> \<not> is_vector t \<and> is_scalar t \<and> \<not> is_block t"
  by (cases "type_kind t") (auto simp: is_integer_def is_float_def is_vector_def is_scalar_def is_block_def)

lemma normalize_scalar_integer_eq:
  assumes "is_integer t" "is_integer (sv_type v)" "valid_type t" "length (sv_storage v) = storage_size"
  shows "normalize_scalar ld t v = Inr \<lparr>sv_type = t, sv_storage =
    (case normalize_bits (type_kind t) (sv_bits v) of
       Some n \<Rightarrow> put_le 8 (extend_kind (type_kind t) (sv_bits v)) @ replicate 8 0 | None \<Rightarrow> sv_storage v)\<rparr>"
  using assms integer_not_float [of t] integer_not_float [of "sv_type v"]
  by (auto simp: normalize_scalar_def from_storage_def normalize_bits_storage storage_size_def split: option.splits)

text \<open>C29: normalizing an integer to an integer type yields that type, the low bits of the value
  extended as the type prescribes, and normalizing again changes nothing.\<close>

theorem normalize_scalar_integer:
  assumes t: "is_integer t" "valid_type t" and v: "is_integer (sv_type v)" "length (sv_storage v) = storage_size"
  shows "\<exists>w. normalize_scalar ld t v = Inr w \<and> sv_type w = t \<and> length (sv_storage w) = storage_size \<and>
    sv_bits w = extend_kind (type_kind t) (sv_bits v) \<and> normalize_scalar ld t w = Inr w"
proof (cases "normalize_bits (type_kind t) (sv_bits v)")
  case None
  let ?w = "v\<lparr>sv_type := t\<rparr>"
  have b: "sv_bits ?w = sv_bits v" by (simp add: sv_bits_def)
  then have "normalize_bits (type_kind t) (sv_bits ?w) = None" using None by simp
  moreover have "normalize_scalar ld t v = Inr ?w"
    using normalize_scalar_integer_eq [of t v ld] t v None by simp
  ultimately show ?thesis
    using normalize_scalar_integer_eq [of t ?w ld] t v None normalize_bits_None [OF None] b
    by (intro exI [of _ ?w]) simp
next
  case (Some n)
  let ?w = "\<lparr>sv_type = t, sv_storage = put_le 8 (extend_kind (type_kind t) (sv_bits v)) @ replicate 8 0\<rparr>"
  have b: "sv_bits ?w = extend_kind (type_kind t) (sv_bits v)" by (simp add: sv_bits_def)
  have "normalize_bits (type_kind t) (sv_bits ?w) \<noteq> None"
    using Some normalize_bits_cong [of "type_kind t" "sv_bits v" "sv_bits ?w"] by simp
  then obtain n' where "normalize_bits (type_kind t) (sv_bits ?w) = Some n'" by blast
  moreover have "normalize_scalar ld t v = Inr ?w"
    using normalize_scalar_integer_eq [of t v ld] t v Some by simp
  ultimately show ?thesis
    using normalize_scalar_integer_eq [of t ?w ld] t v Some b
    by (intro exI [of _ ?w]) (simp add: storage_size_def)
qed

theorem normalize_scalar_integer_witness:
  "\<exists>w. normalize_scalar 16 (mk_type K_I8) (sv_u64 0x1ff) = Inr w \<and> sv_type w = mk_type K_I8 \<and>
    sv_bits w = - 1"
  using normalize_scalar_integer [of "mk_type K_I8" "sv_u64 0x1ff" 16]
  by (auto simp: is_integer_def valid_type_def is_block_def extend_kind_def sv_u64_def storage_size_def
      simp del: sv_bits_make(2) sv_make_type)
    (auto simp: sv_u64_def [symmetric])

lemma normalize_scalar_type: "normalize_scalar ld t v = Inr w \<Longrightarrow> sv_type w = t"
  by (auto simp: normalize_scalar_def from_storage_Inr arg_invalid_def Let_def split: if_splits)

lemma normalize_argument_type: "normalize_argument ld t a u = Inr b \<Longrightarrow> argument_type b = t"
  by (auto simp: normalize_argument_def arg_invalid_def rbind_eq_Inr dest: normalize_scalar_type
      split: if_splits argument.splits)

lemma normalize_argument_block: "normalize_argument ld t a u = Inr (ArgBlock b) \<Longrightarrow>
  a = ArgBlock b \<and> is_block t \<and> bv_type b = t \<and> length (bv_bytes b) = type_size t"
  by (auto simp: normalize_argument_def arg_invalid_def rbind_eq_Inr split: if_splits argument.splits)

lemma copied_block_type:
  assumes "constructed t" "is_block t" "type_kind t \<noteq> K_ReturnBlock" "length bs = type_size t"
  shows "argument_type (block_argument bs (type_bclass t)) = t"
proof -
  have "type_kind t = K_Block" "\<not> is_vector t" using assms by (auto simp: is_block_def is_vector_def)
  then show ?thesis using assms by (simp add: constructed_def block_argument_def)
qed

fun arg_bytes :: "argument \<Rightarrow> bytes" where
  "arg_bytes (ArgScalar v) = []"
| "arg_bytes (ArgBlock b) = bv_bytes b"

definition parameter_type :: "signature \<Rightarrow> nat \<Rightarrow> argument \<Rightarrow> ir_type" where
  "parameter_type sig n a = (if n < length (parameters sig) then parameters sig ! n else argument_type a)"

lemma normalize_loop_typed:
  assumes "normalize_loop ld sig cp n args acc = Inr r"
    and "\<forall>t\<in>set (parameters sig). constructed t" "\<forall>a\<in>set args. constructed (argument_type a)"
  shows "\<exists>vs. n_values r = n_values acc @ vs \<and> length vs = length args \<and>
    (\<forall>i<length args. argument_type (vs ! i) = parameter_type sig (n + i) (args ! i) \<and> arg_bytes (vs ! i) = arg_bytes (args ! i))"
  using assms
proof (induction args arbitrary: n acc)
  case Nil
  then show ?case by simp
next
  case (Cons a args)
  let ?t = "parameter_type sig n a"
  from Cons.prems(1) obtain v acc' where
    v: "normalize_argument ld ?t a (length (parameters sig) \<le> n) = Inr v"
    and l: "normalize_loop ld sig cp (n + 1) args acc' = Inr r"
    and acc': "acc' = (case v of
               ArgBlock b \<Rightarrow>
                 if cp \<and> type_kind ?t \<noteq> K_ReturnBlock
                 then acc\<lparr>n_blocks := n_blocks acc @ [bv_bytes b],
                          n_values := n_values acc @ [block_argument (bv_bytes b) (type_bclass ?t)]\<rparr>
                 else acc\<lparr>n_values := n_values acc @ [v]\<rparr>
             | ArgScalar _ \<Rightarrow> acc\<lparr>n_values := n_values acc @ [v]\<rparr>)"
    unfolding normalize_loop.simps Let_def parameter_type_def [symmetric] rbind_eq_Inr by blast
  have c: "constructed ?t" using Cons.prems(2,3) by (auto simp: parameter_type_def)
  have "\<exists>w. n_values acc' = n_values acc @ [w] \<and> argument_type w = ?t \<and> arg_bytes w = arg_bytes a"
  proof (cases v)
    case (ArgScalar s)
    then have "arg_bytes a = []"
      using v by (auto simp: normalize_argument_def arg_invalid_def split: if_splits argument.splits)
    then show ?thesis using acc' ArgScalar normalize_argument_type [OF v] by (intro exI [of _ v]) simp
  next
    case (ArgBlock b)
    with normalize_argument_block [OF v [unfolded ArgBlock]] copied_block_type [OF c] normalize_argument_type [OF v]
    show ?thesis using acc' by (auto simp: block_argument_def)
  qed
  then obtain w where w: "n_values acc' = n_values acc @ [w]" "argument_type w = ?t" "arg_bytes w = arg_bytes a" by blast
  from Cons.IH [OF l] Cons.prems(2,3) obtain vs where
    vs: "n_values r = n_values acc' @ vs" "length vs = length args"
      "\<forall>i<length args. argument_type (vs ! i) = parameter_type sig (n + 1 + i) (args ! i) \<and> arg_bytes (vs ! i) = arg_bytes (args ! i)"
    by auto
  show ?case
    using vs w by (intro exI [of _ "w # vs"]) (auto simp: nth_Cons split: nat.splits)
qed

text \<open>C30: normalized arguments are the arguments of the call, one each, at the parameter's type for a
  named argument and at its own type otherwise, block contents unchanged whether copied or borrowed.\<close>

theorem normalize_arguments_typed:
  assumes "normalize_arguments ld sig args cp = Inr r"
    and "\<forall>t\<in>set (parameters sig). constructed t" "\<forall>a\<in>set args. constructed (argument_type a)"
  shows "length (n_values r) = length args \<and> length (parameters sig) \<le> length args \<and>
    (\<forall>i<length args. argument_type (n_values r ! i) =
        (if i < length (parameters sig) then parameters sig ! i else argument_type (args ! i)) \<and>
      arg_bytes (n_values r ! i) = arg_bytes (args ! i))"
proof -
  from assms(1) have "check_argument_count sig (length args) = Inr ()"
    and l: "normalize_loop ld sig cp 0 args \<lparr>n_blocks = [], n_values = []\<rparr> = Inr r"
    by (auto simp: normalize_arguments_def rbind_eq_Inr)
  then have "length (parameters sig) \<le> length args"
    by (auto simp: check_argument_count_def arg_invalid_def split: if_splits)
  with normalize_loop_typed [OF l assms(2,3)] show ?thesis by (auto simp: parameter_type_def)
qed

theorem normalize_arguments_typed_witness:
  "let sig = \<lparr>results = [], parameters = [mk_type K_I32], variadic = True\<rparr>;
       args = [ArgScalar (sv_u64 7), block_argument [1, 2, 3] BlkClass1]
   in case normalize_arguments 16 sig args True of Inl _ \<Rightarrow> False
      | Inr r \<Rightarrow> length (n_values r) = 2 \<and> argument_type (n_values r ! 0) = mk_type K_I32 \<and>
                arg_bytes (n_values r ! 1) = [1, 2, 3]"
proof -
  let ?sig = "\<lparr>results = [], parameters = [mk_type K_I32], variadic = True\<rparr>"
  let ?args = "[ArgScalar (sv_u64 7), block_argument [1, 2, 3] BlkClass1]"
  have "\<exists>r. normalize_arguments 16 ?sig ?args True = Inr r"
    by (simp add: normalize_arguments_def check_argument_count_def normalize_argument_def is_block_def block_argument_def
        block_type_def is_vector_def normalize_scalar_def is_scalar_def is_integer_def is_float_def normalize_bits_def
        from_storage_def valid_type_def sv_i64_def storage_size_def sv_make_def Let_def)
  then obtain r where r: "normalize_arguments 16 ?sig ?args True = Inr r" by blast
  have "constructed (mk_type K_I32)" "constructed (mk_type K_U64)" "constructed (block_type 3 BlkClass1)"
    by (simp_all add: constructed_def is_vector_def block_type_def)
  then have "length (n_values r) = length ?args \<and> argument_type (n_values r ! 0) = mk_type K_I32 \<and> arg_bytes (n_values r ! 1) = [1, 2, 3]"
    using normalize_arguments_typed [OF r]
    by (simp add: block_argument_def numeral_3_eq_3 All_less_Suc2 eval_nat_numeral)
  with r show ?thesis by simp
qed

end
