(* ===== verification/InterpreterScalar.thy ===== *)
theory InterpreterScalar
  imports IntegerFolding Values
begin

text \<open>
  \<open>lib/Execution/InterpreterScalar.cpp\<close>: the scalar operations of the interpreter, with the
  overflow flags of the \<open>o\<close> suffixed operations.  Floating-point values are their object
  representations; the host's IEEE arithmetic is the argument \<open>fp\<close> (\<open>host_fp\<close>), whose fields are the
  operations of the built-in floating types the code applies.
\<close>

section \<open>Overflow flags\<close>

record overflow_flags =
  signed_flag :: bool
  unsigned_flag :: bool

datatype overflow_kind = Addo | Subo | Mulo | UMulo

text \<open>The template \<open>overflow<S>\<close>: \<open>'a\<close> is the width, \<open>lo\<close> and \<open>hi\<close> the limits of \<open>S\<close>.  The signed
  arithmetic of the tests is on the exact values; \<open>overflow_arithmetic_in_range\<close> shows that it never
  leaves the range of \<open>S\<close>.  \<open>/\<close> truncates.\<close>

definition hi_of :: "'a::len itself \<Rightarrow> int" where "hi_of _ = 2 ^ (LENGTH('a) - 1) - 1"
definition lo_of :: "'a::len itself \<Rightarrow> int" where "lo_of _ = - (2 ^ (LENGTH('a) - 1))"
definition umax_of :: "'a::len itself \<Rightarrow> int" where "umax_of _ = 2 ^ LENGTH('a) - 1"

definition mul_overflows :: "int \<Rightarrow> int \<Rightarrow> int \<Rightarrow> int \<Rightarrow> bool" where
  "mul_overflows lo hi a b =
    (if a = 0 then False
     else if a = -1 then b < - hi
     else if a > 0 then (if b > 0 then hi sdiv a < b else lo sdiv a > b)
     else (if b > 0 then lo sdiv a < b else hi sdiv a > b))"

definition overflow :: "overflow_kind \<Rightarrow> 'a::len word \<Rightarrow> 'a word \<Rightarrow> overflow_flags \<Rightarrow> overflow_flags" where
  "overflow op x y flags =
    (let a = sint x; b = sint y; lo = lo_of TYPE('a); hi = hi_of TYPE('a); umax = umax_of TYPE('a)
     in case op of
          Addo \<Rightarrow> flags\<lparr>unsigned_flag := (uint x > umax - uint y),
                       signed_flag := (if b \<ge> 0 then a > hi - b else a < lo - b)\<rparr>
        | Subo \<Rightarrow> flags\<lparr>unsigned_flag := (uint x < uint y),
                       signed_flag := (if b < 0 then a > hi + b else a < lo + b)\<rparr>
        | Mulo \<Rightarrow> flags\<lparr>signed_flag := mul_overflows lo hi a b\<rparr>
        | UMulo \<Rightarrow> flags\<lparr>unsigned_flag := (uint x \<noteq> 0 \<and> umax div uint x < uint y)\<rparr>)"

section \<open>Floating operations\<close>

datatype fp = Fp32 | Fp64 | FpLong
datatype comparison = CEq | CNe | CLt | CLe | CGt | CGe

record host_fp =
  fp_long_size :: nat
  fp_zero :: "fp \<Rightarrow> bytes"
  fp_neg :: "fp \<Rightarrow> bytes \<Rightarrow> bytes"
  fp_add :: "fp \<Rightarrow> bytes \<Rightarrow> bytes \<Rightarrow> bytes"
  fp_sub :: "fp \<Rightarrow> bytes \<Rightarrow> bytes \<Rightarrow> bytes"
  fp_mul :: "fp \<Rightarrow> bytes \<Rightarrow> bytes \<Rightarrow> bytes"
  fp_div :: "fp \<Rightarrow> bytes \<Rightarrow> bytes \<Rightarrow> bytes"
  fp_compare :: "fp \<Rightarrow> comparison \<Rightarrow> bytes \<Rightarrow> bytes \<Rightarrow> bool"
  fp_finite :: "fp \<Rightarrow> bytes \<Rightarrow> bool"
  fp_below_int64 :: "fp \<Rightarrow> bytes \<Rightarrow> bool"
  fp_above_int64 :: "fp \<Rightarrow> bytes \<Rightarrow> bool"
  fp_truncate :: "fp \<Rightarrow> bytes \<Rightarrow> u64"
  fp_of_signed :: "fp \<Rightarrow> u64 \<Rightarrow> bytes"
  fp_of_unsigned :: "fp \<Rightarrow> u64 \<Rightarrow> bytes"
  fp_cast :: "fp \<Rightarrow> fp \<Rightarrow> bytes \<Rightarrow> bytes"

definition fp_size :: "host_fp \<Rightarrow> fp \<Rightarrow> nat" where
  "fp_size h f = (case f of Fp32 \<Rightarrow> 4 | Fp64 \<Rightarrow> 8 | FpLong \<Rightarrow> fp_long_size h)"

definition raw_fp :: "host_fp \<Rightarrow> fp \<Rightarrow> scalar_value \<Rightarrow> bytes" where
  "raw_fp h f v = take (fp_size h f) (sv_storage v)"

definition sv_fp :: "fp \<Rightarrow> bytes \<Rightarrow> scalar_value" where
  "sv_fp f bs = sv_make (mk_type (case f of Fp32 \<Rightarrow> K_F32 | Fp64 \<Rightarrow> K_F64 | FpLong \<Rightarrow> K_LongDouble)) bs"

definition scalar_invalid :: "string \<Rightarrow> 'a result" where
  "scalar_invalid m = mk_error InvalidOperand m"

datatype fp_op = FpMov | FpNeg | FpAdd | FpSub | FpMul | FpDiv | FpCompare comparison

definition floating :: "host_fp \<Rightarrow> fp \<Rightarrow> fp_op \<Rightarrow> scalar_value list \<Rightarrow> scalar_value result" where
  "floating h f op vs =
    (let a = raw_fp h f (vs ! 0); b = (if 1 < length vs then raw_fp h f (vs ! 1) else fp_zero h f)
     in case op of
          FpMov \<Rightarrow> Inr (sv_fp f a)
        | FpNeg \<Rightarrow> Inr (sv_fp f (fp_neg h f a))
        | FpAdd \<Rightarrow> Inr (sv_fp f (fp_add h f a b))
        | FpSub \<Rightarrow> Inr (sv_fp f (fp_sub h f a b))
        | FpMul \<Rightarrow> Inr (sv_fp f (fp_mul h f a b))
        | FpDiv \<Rightarrow> Inr (sv_fp f (fp_div h f a b))
        | FpCompare c \<Rightarrow> Inr (sv_i64 (of_bool (fp_compare h f c a b))))"

definition to_integer :: "host_fp \<Rightarrow> fp \<Rightarrow> scalar_value \<Rightarrow> scalar_value result" where
  "to_integer h f v =
    (let value = raw_fp h f v
     in if \<not> fp_finite h f value \<or> fp_below_int64 h f value \<or> fp_above_int64 h f value
        then scalar_invalid ''floating conversion outside integer range''
        else Inr (sv_i64 (fp_truncate h f value)))"

primrec farith_parts :: "farith_op \<Rightarrow> fp \<times> fp_op" where
  "farith_parts O_FAdd = (Fp32, FpAdd)" | "farith_parts O_DAdd = (Fp64, FpAdd)" | "farith_parts O_LDAdd = (FpLong, FpAdd)"
| "farith_parts O_FSub = (Fp32, FpSub)" | "farith_parts O_DSub = (Fp64, FpSub)" | "farith_parts O_LDSub = (FpLong, FpSub)"
| "farith_parts O_FMul = (Fp32, FpMul)" | "farith_parts O_DMul = (Fp64, FpMul)" | "farith_parts O_LDMul = (FpLong, FpMul)"
| "farith_parts O_FDiv = (Fp32, FpDiv)" | "farith_parts O_DDiv = (Fp64, FpDiv)" | "farith_parts O_LDDiv = (FpLong, FpDiv)"

primrec fcmp_parts :: "fcmp_op \<Rightarrow> fp \<times> comparison" where
  "fcmp_parts O_FEq = (Fp32, CEq)" | "fcmp_parts O_DEq = (Fp64, CEq)" | "fcmp_parts O_LDEq = (FpLong, CEq)"
| "fcmp_parts O_FNe = (Fp32, CNe)" | "fcmp_parts O_DNe = (Fp64, CNe)" | "fcmp_parts O_LDNe = (FpLong, CNe)"
| "fcmp_parts O_FLt = (Fp32, CLt)" | "fcmp_parts O_DLt = (Fp64, CLt)" | "fcmp_parts O_LDLt = (FpLong, CLt)"
| "fcmp_parts O_FLe = (Fp32, CLe)" | "fcmp_parts O_DLe = (Fp64, CLe)" | "fcmp_parts O_LDLe = (FpLong, CLe)"
| "fcmp_parts O_FGt = (Fp32, CGt)" | "fcmp_parts O_DGt = (Fp64, CGt)" | "fcmp_parts O_LDGt = (FpLong, CGt)"
| "fcmp_parts O_FGe = (Fp32, CGe)" | "fcmp_parts O_DGe = (Fp64, CGe)" | "fcmp_parts O_LDGe = (FpLong, CGe)"

primrec fbranch_parts :: "fbranch_op \<Rightarrow> fp \<times> comparison" where
  "fbranch_parts O_FBeq = (Fp32, CEq)" | "fbranch_parts O_DBeq = (Fp64, CEq)" | "fbranch_parts O_LDBeq = (FpLong, CEq)"
| "fbranch_parts O_FBne = (Fp32, CNe)" | "fbranch_parts O_DBne = (Fp64, CNe)" | "fbranch_parts O_LDBne = (FpLong, CNe)"
| "fbranch_parts O_FBlt = (Fp32, CLt)" | "fbranch_parts O_DBlt = (Fp64, CLt)" | "fbranch_parts O_LDBlt = (FpLong, CLt)"
| "fbranch_parts O_FBle = (Fp32, CLe)" | "fbranch_parts O_DBle = (Fp64, CLe)" | "fbranch_parts O_LDBle = (FpLong, CLe)"
| "fbranch_parts O_FBgt = (Fp32, CGt)" | "fbranch_parts O_DBgt = (Fp64, CGt)" | "fbranch_parts O_LDBgt = (FpLong, CGt)"
| "fbranch_parts O_FBge = (Fp32, CGe)" | "fbranch_parts O_DBge = (Fp64, CGe)" | "fbranch_parts O_LDBge = (FpLong, CGe)"

definition convert :: "host_fp \<Rightarrow> conv_op \<Rightarrow> scalar_value \<Rightarrow> scalar_value result" where
  "convert h op v =
    (case op of
       O_I2F \<Rightarrow> Inr (sv_fp Fp32 (fp_of_signed h Fp32 (sv_bits v)))
     | O_I2D \<Rightarrow> Inr (sv_fp Fp64 (fp_of_signed h Fp64 (sv_bits v)))
     | O_I2LD \<Rightarrow> Inr (sv_fp FpLong (fp_of_signed h FpLong (sv_bits v)))
     | O_UI2F \<Rightarrow> Inr (sv_fp Fp32 (fp_of_unsigned h Fp32 (sv_bits v)))
     | O_UI2D \<Rightarrow> Inr (sv_fp Fp64 (fp_of_unsigned h Fp64 (sv_bits v)))
     | O_UI2LD \<Rightarrow> Inr (sv_fp FpLong (fp_of_unsigned h FpLong (sv_bits v)))
     | O_F2D \<Rightarrow> Inr (sv_fp Fp64 (fp_cast h Fp32 Fp64 (raw_fp h Fp32 v)))
     | O_F2LD \<Rightarrow> Inr (sv_fp FpLong (fp_cast h Fp32 FpLong (raw_fp h Fp32 v)))
     | O_D2F \<Rightarrow> Inr (sv_fp Fp32 (fp_cast h Fp64 Fp32 (raw_fp h Fp64 v)))
     | O_D2LD \<Rightarrow> Inr (sv_fp FpLong (fp_cast h Fp64 FpLong (raw_fp h Fp64 v)))
     | O_LD2F \<Rightarrow> Inr (sv_fp Fp32 (fp_cast h FpLong Fp32 (raw_fp h FpLong v)))
     | O_LD2D \<Rightarrow> Inr (sv_fp Fp64 (fp_cast h FpLong Fp64 (raw_fp h FpLong v)))
     | O_F2I \<Rightarrow> to_integer h Fp32 v
     | O_D2I \<Rightarrow> to_integer h Fp64 v
     | O_LD2I \<Rightarrow> to_integer h FpLong v)"

section \<open>The scalar evaluator\<close>

type_synonym scalar_outcome = "scalar_value option result"

definition folded :: "opcode \<Rightarrow> u64 \<Rightarrow> u64 option \<Rightarrow> scalar_outcome" where
  "folded base a b =
    (case fold_integer base (Some a) b of
       Some r \<Rightarrow> Inr (Some (sv_u64 r))
     | None \<Rightarrow>
         if base \<in> set (map OArith [O_Div, O_Divs, O_UDiv, O_UDivs, O_Mod, O_Mods, O_UMod, O_UMods])
         then scalar_invalid ''integer division by zero or signed division overflow''
         else if base \<in> set (map OArith [O_Lsh, O_Lshs, O_Rsh, O_Rshs, O_URsh, O_URshs])
         then scalar_invalid ''shift count outside operand width''
         else Inr None)"

definition some_value :: "scalar_value result \<Rightarrow> scalar_outcome" where
  "some_value r = rbind r (\<lambda>v. Inr (Some v))"

definition evaluate_overflow :: "ovf_op \<Rightarrow> u64 \<Rightarrow> u64 \<Rightarrow> bool \<Rightarrow> overflow_flags \<Rightarrow> scalar_outcome \<times> overflow_flags" where
  "evaluate_overflow op a b two flags =
    (let second = (if two then Some b else None)
     in case op of
       O_Addo \<Rightarrow> (folded (OArith O_Add) a second, overflow Addo a b flags)
     | O_Addos \<Rightarrow> (folded (OArith O_Adds) a second, overflow Addo (low a) (low b) flags)
     | O_Subo \<Rightarrow> (folded (OArith O_Sub) a second, overflow Subo a b flags)
     | O_Subos \<Rightarrow> (folded (OArith O_Subs) a second, overflow Subo (low a) (low b) flags)
     | O_Mulo \<Rightarrow> (folded (OArith O_Mul) a second, overflow Mulo a b flags)
     | O_Mulos \<Rightarrow> (folded (OArith O_Muls) a second, overflow Mulo (low a) (low b) flags)
     | O_UMulo \<Rightarrow> (Inr (Some (sv_u64 (a * b))), overflow UMulo a b flags)
     | O_UMulos \<Rightarrow> (Inr (Some (sv_u64 ((ucast (low a) * ucast (low b)) AND mask 32))),
                   overflow UMulo (low a) (low b) flags))"

definition evaluate_scalar :: "host_fp \<Rightarrow> opcode \<Rightarrow> scalar_value list \<Rightarrow> overflow_flags \<Rightarrow> scalar_outcome \<times> overflow_flags" where
  "evaluate_scalar h op vs flags =
    (let a = (if vs = [] then 0 else sv_bits (vs ! 0));
         b = (if length vs < 2 then 0 else sv_bits (vs ! 1));
         rest = (\<lambda>base. folded base a (if 1 < length vs then Some b else None))
     in case op of
       OMove m \<Rightarrow> ((case m of
           O_Mov \<Rightarrow> Inr (Some (sv_u64 a))
         | O_FMov \<Rightarrow> some_value (floating h Fp32 FpMov vs)
         | O_DMov \<Rightarrow> some_value (floating h Fp64 FpMov vs)
         | O_LDMov \<Rightarrow> some_value (floating h FpLong FpMov vs)), flags)
     | ONeg n \<Rightarrow> ((case n of
           O_Neg \<Rightarrow> Inr (Some (sv_u64 (0 - a)))
         | O_Negs \<Rightarrow> Inr (Some (sv_i64 (scast (0 - low a))))
         | O_FNeg \<Rightarrow> some_value (floating h Fp32 FpNeg vs)
         | O_DNeg \<Rightarrow> some_value (floating h Fp64 FpNeg vs)
         | O_LDNeg \<Rightarrow> some_value (floating h FpLong FpNeg vs)), flags)
     | OExt e \<Rightarrow> (Inr (Some (case e of
           O_Ext8 \<Rightarrow> sv_i64 (scast (ucast a :: u8))
         | O_Ext16 \<Rightarrow> sv_i64 (scast (ucast a :: u16))
         | O_Ext32 \<Rightarrow> sv_i64 (scast (ucast a :: u32))
         | O_UExt8 \<Rightarrow> sv_u64 (ucast (ucast a :: u8))
         | O_UExt16 \<Rightarrow> sv_u64 (ucast (ucast a :: u16))
         | O_UExt32 \<Rightarrow> sv_u64 (ucast (ucast a :: u32)))), flags)
     | OOvf r \<Rightarrow> evaluate_overflow r a b (1 < length vs) flags
     | OFArith r \<Rightarrow> (case farith_parts r of (f, k) \<Rightarrow> (some_value (floating h f k vs), flags))
     | OFCmp r \<Rightarrow> (case fcmp_parts r of (f, c) \<Rightarrow> (some_value (floating h f (FpCompare c) vs), flags))
     | OFBranch r \<Rightarrow> (case fbranch_parts r of (f, c) \<Rightarrow> (some_value (floating h f (FpCompare c) vs), flags))
     | OConv r \<Rightarrow> (some_value (convert h r (vs ! 0)), flags)
     | _ \<Rightarrow> (rest op, flags))"

section \<open>The overflow flags are exact\<close>

lemma signed_wraps:
  "sint (word_of_int k :: 'a::len word) \<noteq> k \<longleftrightarrow> k < lo_of TYPE('a) \<or> hi_of TYPE('a) < k"
  using sint_word_of_int_range [where ?'a = 'a, of k] sint_range [of "word_of_int k :: 'a word"]
  unfolding lo_of_def hi_of_def by linarith

lemma unsigned_wraps:
  "uint (word_of_int k :: 'a::len word) \<noteq> k \<longleftrightarrow> k < 0 \<or> umax_of TYPE('a) < k"
proof -
  have "uint (word_of_int k :: 'a word) = k mod 2 ^ LENGTH('a)" by (simp add: uint_word_of_int)
  moreover have "k mod 2 ^ LENGTH('a) = k \<longleftrightarrow> 0 \<le> k \<and> k < 2 ^ LENGTH('a)"
    by (metis mod_pos_pos_trivial pos_mod_bound pos_mod_sign zero_less_numeral zero_less_power)
  ultimately show ?thesis by (auto simp: umax_of_def)
qed

lemma sint_in_limits: "lo_of TYPE('a) \<le> sint (x :: 'a::len word)" "sint x \<le> hi_of TYPE('a)"
  using sint_range [of x] by (simp_all add: lo_of_def hi_of_def)

lemma limits: "lo_of TYPE('a) = - hi_of TYPE('a) - 1" "0 \<le> hi_of TYPE('a::len)"
  by (simp_all add: lo_of_def hi_of_def)

lemma uint_in_limits: "uint (x :: 'a::len word) \<le> umax_of TYPE('a)"
  using uint_bounded [of x] by (simp add: umax_of_def)

lemma div_less_iff: "0 < a \<Longrightarrow> h div a < b \<longleftrightarrow> h < b * (a::int)"
proof -
  assume a: "0 < a"
  have e: "h = h div a * a + h mod a" by simp
  have m: "0 \<le> h mod a" "h mod a < a" using a by simp_all
  show "h div a < b \<longleftrightarrow> h < b * a"
  proof
    assume "h div a < b"
    then have "(h div a + 1) * a \<le> b * a" using a by (intro mult_right_mono) simp_all
    moreover have "(h div a + 1) * a = h div a * a + a" by (simp add: distrib_right)
    ultimately show "h < b * a" using e m by linarith
  next
    assume "h < b * a"
    then show "h div a < b"
      using a e m by (metis add_increasing2 mult_right_mono not_less order_less_imp_le order_le_less_trans)
  qed
qed

lemma mul_overflows_exact:
  assumes lo: "lo = - hi - 1" and hi: "0 \<le> hi" and b: "lo \<le> b" "b \<le> hi"
  shows "mul_overflows lo hi a b \<longleftrightarrow> a * b < lo \<or> hi < a * b"
proof -
  consider "a = 0" | "a = -1" | "0 < a" "0 < b" | "0 < a" "b \<le> 0" | "a < -1" "0 < b" | "a < -1" "b \<le> 0"
    by linarith
  then show ?thesis
  proof cases
    case 1
    with assms show ?thesis by (simp add: mul_overflows_def)
  next
    case 2
    with assms show ?thesis by (auto simp: mul_overflows_def)
  next
    case 3
    moreover from 3 have "0 < a * b" by (rule mult_pos_pos)
    then have "\<not> a * b < lo" using lo hi by linarith
    moreover have "hi sdiv a = hi div a" using 3 hi by (simp add: signed_divide_int_def sgn_if)
    ultimately show ?thesis using lo hi by (auto simp: mul_overflows_def div_less_iff mult.commute)
  next
    case 4
    moreover from 4 have "a * b \<le> 0" by (simp add: mult_nonneg_nonpos)
    then have "\<not> hi < a * b" using hi by linarith
    moreover have "lo sdiv a = - ((- lo) div a)" using 4 hi lo by (simp add: signed_divide_int_def sgn_if)
    moreover have "b < - ((- lo) div a) \<longleftrightarrow> (- lo) div a < - b" by linarith
    ultimately show ?thesis using lo hi by (auto simp: mul_overflows_def div_less_iff mult.commute)
  next
    case 5
    moreover from 5 have "a * b < 0" by (simp add: mult_neg_pos)
    then have "\<not> hi < a * b" using hi by linarith
    moreover have "lo sdiv a = (- lo) div (- a)" using 5 hi lo by (simp add: signed_divide_int_def sgn_if)
    ultimately show ?thesis using lo hi by (auto simp: mul_overflows_def div_less_iff mult.commute)
  next
    case 6
    moreover from 6 have "0 \<le> a * b" by (simp add: mult_nonpos_nonpos)
    then have "\<not> a * b < lo" using lo hi by linarith
    moreover have "hi sdiv a = - (hi div (- a))" using 6 hi lo by (auto simp: signed_divide_int_def sgn_if)
    moreover have "b < - (hi div (- a)) \<longleftrightarrow> hi div (- a) < - b" by linarith
    ultimately show ?thesis using lo hi by (auto simp: mul_overflows_def div_less_iff mult.commute)
  qed
qed

text \<open>The template computes the flags of the exact results, at every width.\<close>

lemma overflow_exact:
  fixes x y :: "'a::len word"
  shows "signed_flag (overflow Addo x y f) \<longleftrightarrow> sint (x + y) \<noteq> sint x + sint y"
    "unsigned_flag (overflow Addo x y f) \<longleftrightarrow> uint (x + y) \<noteq> uint x + uint y"
    "signed_flag (overflow Subo x y f) \<longleftrightarrow> sint (x - y) \<noteq> sint x - sint y"
    "unsigned_flag (overflow Subo x y f) \<longleftrightarrow> uint (x - y) \<noteq> uint x - uint y"
    "signed_flag (overflow Mulo x y f) \<longleftrightarrow> sint (x * y) \<noteq> sint x * sint y"
    "unsigned_flag (overflow UMulo x y f) \<longleftrightarrow> uint (x * y) \<noteq> uint x * uint y"
    "unsigned_flag (overflow Mulo x y f) = unsigned_flag f"
    "signed_flag (overflow UMulo x y f) = signed_flag f"
proof -
  have s: "x + y = word_of_int (sint x + sint y)" "x - y = word_of_int (sint x - sint y)"
    "x * y = word_of_int (sint x * sint y)"
    by (simp_all add: wi_hom_syms)
  have u: "x + y = word_of_int (uint x + uint y)" "x - y = word_of_int (uint x - uint y)"
    "x * y = word_of_int (uint x * uint y)"
    by (simp_all add: wi_hom_syms)
  note l = limits [where ?'a = 'a] sint_in_limits [of x] sint_in_limits [of y] uint_in_limits [of x] uint_in_limits [of y]
  have nn: "0 \<le> uint x" "0 \<le> uint y" by simp_all
  then have sum: "\<not> uint x + uint y < 0" "\<not> umax_of TYPE('a) < uint x - uint y"
    using uint_in_limits [of x] by linarith+
  show "signed_flag (overflow Addo x y f) \<longleftrightarrow> sint (x + y) \<noteq> sint x + sint y"
    unfolding s signed_wraps using l by (auto simp: overflow_def Let_def)
  show "signed_flag (overflow Subo x y f) \<longleftrightarrow> sint (x - y) \<noteq> sint x - sint y"
    unfolding s signed_wraps using l by (auto simp: overflow_def Let_def)
  show "signed_flag (overflow Mulo x y f) \<longleftrightarrow> sint (x * y) \<noteq> sint x * sint y"
    unfolding s signed_wraps using mul_overflows_exact [OF l(1,2) l(5,6)] by (simp add: overflow_def Let_def)
  show "unsigned_flag (overflow Addo x y f) \<longleftrightarrow> uint (x + y) \<noteq> uint x + uint y"
    unfolding u unsigned_wraps using nn sum by (auto simp: overflow_def Let_def)
  show "unsigned_flag (overflow Subo x y f) \<longleftrightarrow> uint (x - y) \<noteq> uint x - uint y"
    unfolding u unsigned_wraps using l nn sum by (auto simp: overflow_def Let_def)
  have "uint x \<noteq> 0 \<and> umax_of TYPE('a) div uint x < uint y \<longleftrightarrow> umax_of TYPE('a) < uint x * uint y"
  proof (cases "uint x = 0")
    case True
    then show ?thesis using uint_in_limits [of x] by simp
  next
    case False
    then have "0 < uint x" using nn by linarith
    from div_less_iff [OF this] False show ?thesis by (simp add: mult.commute)
  qed
  moreover have "\<not> uint x * uint y < 0" using mult_nonneg_nonneg [OF nn] by linarith
  ultimately show "unsigned_flag (overflow UMulo x y f) \<longleftrightarrow> uint (x * y) \<noteq> uint x * uint y"
    unfolding u unsigned_wraps by (auto simp: overflow_def Let_def)
qed (simp_all add: overflow_def Let_def)

text \<open>The signed arithmetic of the tests stays within the type: nothing the code computes there can overflow.\<close>

lemma overflow_arithmetic_in_range:
  fixes x y :: "'a::len word"
  shows "0 \<le> sint y \<Longrightarrow> lo_of TYPE('a) \<le> hi_of TYPE('a) - sint y \<and> hi_of TYPE('a) - sint y \<le> hi_of TYPE('a)"
    "sint y < 0 \<Longrightarrow> lo_of TYPE('a) \<le> lo_of TYPE('a) - sint y \<and> lo_of TYPE('a) - sint y \<le> hi_of TYPE('a)"
    "sint y < 0 \<Longrightarrow> lo_of TYPE('a) \<le> hi_of TYPE('a) + sint y \<and> hi_of TYPE('a) + sint y \<le> hi_of TYPE('a)"
    "0 \<le> sint y \<Longrightarrow> lo_of TYPE('a) \<le> lo_of TYPE('a) + sint y \<and> lo_of TYPE('a) + sint y \<le> hi_of TYPE('a)"
  using sint_in_limits [of y] limits [where ?'a = 'a] by linarith+

lemma folded_ring:
  "folded (OArith O_Add) a (Some b) = Inr (Some (sv_u64 (a + b)))"
  "folded (OArith O_Adds) a (Some b) = Inr (Some (sv_u64 (scast (low a + low b))))"
  "folded (OArith O_Sub) a (Some b) = Inr (Some (sv_u64 (a - b)))"
  "folded (OArith O_Subs) a (Some b) = Inr (Some (sv_u64 (scast (low a - low b))))"
  "folded (OArith O_Mul) a (Some b) = Inr (Some (sv_u64 (a * b)))"
  "folded (OArith O_Muls) a (Some b) = Inr (Some (sv_u64 (scast (low a * low b))))"
  by (simp_all add: folded_def fold_integer_def fold_unary_def fold_binary_def result32_def low_homs)

lemma narrow_product: "(ucast x * ucast y :: u64) AND mask 32 = ucast (x * y :: u32)"
proof -
  have "low ((ucast x * ucast y) AND mask 32) = x * y"
    by (simp only: low_bits low_mult low_ucast)
      (rule bit_word_eqI, simp add: low_def bit_and_iff bit_ucast_iff bit_mask_iff)
  moreover have "ucast (low (v AND mask 32)) = v AND mask 32" for v
    by (rule bit_word_eqI) (auto simp: low_def bit_ucast_iff bit_and_iff bit_mask_iff)
  ultimately show ?thesis by metis
qed

text \<open>What an overflow operation promises: the wrapped result, and each flag it defines set exactly
  when the exact result differs from the wrapped one; the other flag is kept.\<close>

definition overflow_contract :: "(int \<Rightarrow> int \<Rightarrow> int) \<Rightarrow> 'a::len word \<Rightarrow> 'a word \<Rightarrow> 'a word \<Rightarrow> bool \<Rightarrow> bool \<Rightarrow>
    overflow_flags \<Rightarrow> overflow_flags \<Rightarrow> bool" where
  "overflow_contract exact x y r sets_signed sets_unsigned old new \<longleftrightarrow>
    r = word_of_int (exact (sint x) (sint y)) \<and>
    (if sets_signed then signed_flag new \<longleftrightarrow> sint r \<noteq> exact (sint x) (sint y) else signed_flag new = signed_flag old) \<and>
    (if sets_unsigned then unsigned_flag new \<longleftrightarrow> uint r \<noteq> exact (uint x) (uint y) else unsigned_flag new = unsigned_flag old)"

definition returns :: "scalar_outcome \<times> overflow_flags \<Rightarrow> (u64 \<Rightarrow> overflow_flags \<Rightarrow> bool) \<Rightarrow> bool" where
  "returns out P = (case out of (Inr (Some v), f) \<Rightarrow> P (sv_bits v) f | _ \<Rightarrow> False)"

text \<open>C7: the eight overflow operations of the interpreter return the wrapped result and set their
  flags exactly when the exact signed or unsigned result does not fit the width.\<close>

theorem overflow_operations_exact:
  fixes x y :: scalar_value
  defines "a \<equiv> sv_bits x" and "b \<equiv> sv_bits y"
  shows
  "returns (evaluate_scalar h (OOvf O_Addo) [x, y] f) (\<lambda>r g. overflow_contract (+) a b r True True f g) \<and>
   returns (evaluate_scalar h (OOvf O_Addos) [x, y] f)
     (\<lambda>r g. r = scast (low r) \<and> overflow_contract (+) (low a) (low b) (low r) True True f g) \<and>
   returns (evaluate_scalar h (OOvf O_Subo) [x, y] f) (\<lambda>r g. overflow_contract (-) a b r True True f g) \<and>
   returns (evaluate_scalar h (OOvf O_Subos) [x, y] f)
     (\<lambda>r g. r = scast (low r) \<and> overflow_contract (-) (low a) (low b) (low r) True True f g) \<and>
   returns (evaluate_scalar h (OOvf O_Mulo) [x, y] f) (\<lambda>r g. overflow_contract (*) a b r True False f g) \<and>
   returns (evaluate_scalar h (OOvf O_Mulos) [x, y] f)
     (\<lambda>r g. r = scast (low r) \<and> overflow_contract (*) (low a) (low b) (low r) True False f g) \<and>
   returns (evaluate_scalar h (OOvf O_UMulo) [x, y] f) (\<lambda>r g. overflow_contract (*) a b r False True f g) \<and>
   returns (evaluate_scalar h (OOvf O_UMulos) [x, y] f)
     (\<lambda>r g. r = ucast (low r) \<and> overflow_contract (*) (low a) (low b) (low r) False True f g)"
proof -
  have e: "evaluate_scalar h (OOvf op) [x, y] f = evaluate_overflow op a b True f" for op
    by (simp add: evaluate_scalar_def a_def b_def)
  have w: "word_of_int (sint p + sint q) = p + q" "word_of_int (sint p - sint q) = p - q"
    "word_of_int (sint p * sint q) = p * q" for p q :: "'a::len word"
    by (simp_all add: wi_hom_syms)
  show ?thesis
    unfolding e
    by (simp add: evaluate_overflow_def returns_def overflow_contract_def folded_ring overflow_exact narrow_product w)
qed

text \<open>C23: an integer operation with two operands is never skipped: it returns the folded value, or the
  division or shift error exactly when the folder is undefined, and leaves the flags alone.\<close>

theorem arithmetic_never_skipped:
  "case evaluate_scalar h (OArith op) [x, y] f of
     (Inr (Some v), g) \<Rightarrow> g = f \<and> fold_integer (OArith op) (Some (sv_bits x)) (Some (sv_bits y)) = Some (sv_bits v)
   | (Inr None, g) \<Rightarrow> False
   | (Inl e, g) \<Rightarrow> g = f \<and> code e = InvalidOperand \<and>
       fold_integer (OArith op) (Some (sv_bits x)) (Some (sv_bits y)) = None"
proof -
  have e: "evaluate_scalar h (OArith op) [x, y] f = (folded (OArith op) (sv_bits x) (Some (sv_bits y)), f)"
    by (simp add: evaluate_scalar_def)
  have "fold_integer (OArith op) (Some (sv_bits x)) (Some (sv_bits y)) = fold_arith op (sv_bits x) (sv_bits y)"
    by (simp add: fold_integer_def fold_unary_def fold_binary_def)
  then show ?thesis
    unfolding e folded_def
    by (cases op) (auto simp: scalar_invalid_def mk_error_def split: option.splits)
qed

end
