(* ===== verification/InterpreterVector.thy ===== *)
theory InterpreterVector
  imports Opcodes Values "HOL-Library.Signed_Division"
begin

text \<open>
  \<open>lib/Execution/InterpreterVector.cpp\<close>: the portable SIMD128 reference semantics.  A vector value
  is its 16 storage bytes; a lane is read and written as the low bytes of a 64-bit word.  The lane
  floating-point types are the parameters \<open>'f\<close> (\<open>float\<close>) and \<open>'d\<close> (\<open>double\<close>) with the host's
  operations on them (\<open>lane_fp\<close>, \<open>host_simd\<close>).
\<close>

section \<open>Lanes\<close>

definition read_lane :: "scalar_value \<Rightarrow> nat \<Rightarrow> nat \<Rightarrow> u64" where
  "read_lane v width n = get_le (take width (drop (width * n) (sv_storage v)))"

definition sign_bit :: "nat \<Rightarrow> u64" where
  "sign_bit width = push_bit (width * 8 - 1) 1"

definition signed_lane :: "u64 \<Rightarrow> nat \<Rightarrow> u64" where
  "signed_lane bits width = (bits XOR sign_bit width) - sign_bit width"

definition mask_for :: "nat \<Rightarrow> u64" where
  "mask_for width = (if width = 8 then - 1 else push_bit (width * 8) 1 - 1)"

text \<open>\<open>memcpy\<close> of \<open>bs\<close> to offset \<open>off\<close> of the storage.\<close>

definition copy_at :: "bytes \<Rightarrow> nat \<Rightarrow> bytes \<Rightarrow> bytes" where
  "copy_at result off bs = take off result @ bs @ drop (off + length bs) result"

definition put_lane :: "nat \<Rightarrow> bytes \<Rightarrow> nat \<Rightarrow> u64 \<Rightarrow> bytes" where
  "put_lane out_width result n bits = copy_at result (n * out_width) (put_le out_width bits)"

definition empty_storage :: bytes where
  "empty_storage = replicate storage_size 0"

text \<open>The loops that fill the lanes \<open>0..<count\<close> of an empty storage.\<close>

definition fill_lanes :: "nat \<Rightarrow> nat \<Rightarrow> (nat \<Rightarrow> u64) \<Rightarrow> bytes" where
  "fill_lanes out_width count f = foldl (\<lambda>r n. put_lane out_width r n (f n)) empty_storage [0..<count]"

section \<open>Floating lanes\<close>

record 'f lane_fp =
  lf_bytes :: nat
  lf_of_bits :: "u64 \<Rightarrow> 'f"
  lf_to_bits :: "'f \<Rightarrow> u64"
  lf_add :: "'f \<Rightarrow> 'f \<Rightarrow> 'f"
  lf_sub :: "'f \<Rightarrow> 'f \<Rightarrow> 'f"
  lf_mul :: "'f \<Rightarrow> 'f \<Rightarrow> 'f"
  lf_div :: "'f \<Rightarrow> 'f \<Rightarrow> 'f"
  lf_sqrt :: "'f \<Rightarrow> 'f"
  lf_ceil :: "'f \<Rightarrow> 'f"
  lf_floor :: "'f \<Rightarrow> 'f"
  lf_trunc :: "'f \<Rightarrow> 'f"
  lf_fabs :: "'f \<Rightarrow> 'f"
  lf_fmod :: "'f \<Rightarrow> 'f \<Rightarrow> 'f"
  lf_copysign :: "'f \<Rightarrow> 'f \<Rightarrow> 'f"
  lf_less :: "'f \<Rightarrow> 'f \<Rightarrow> bool"
  lf_eq :: "'f \<Rightarrow> 'f \<Rightarrow> bool"
  lf_isnan :: "'f \<Rightarrow> bool"
  lf_isfinite :: "'f \<Rightarrow> bool"
  lf_zero :: 'f
  lf_half :: 'f
  lf_one :: 'f
  lf_two :: 'f

record ('f, 'd) host_simd =
  simd_float :: "'f lane_fp"
  simd_double :: "'d lane_fp"
  simd_widen :: "'f \<Rightarrow> 'd"
  simd_shorten :: "'d \<Rightarrow> 'f"
  simd_of_signed :: "u64 \<Rightarrow> 'd"
  simd_of_unsigned :: "u64 \<Rightarrow> 'd"
  simd_at_most :: "'d \<Rightarrow> int \<Rightarrow> bool"
  simd_at_least :: "'d \<Rightarrow> int \<Rightarrow> bool"
  simd_to_int :: "'d \<Rightarrow> int"

definition quiet_nan :: "'f lane_fp \<Rightarrow> u64" where
  "quiet_nan h = (if lf_bytes h = 4 then 0x7fc00000 else 0x7ff8000000000000)"

definition nearest :: "'f lane_fp \<Rightarrow> 'f \<Rightarrow> 'f" where
  "nearest h a =
    (if \<not> lf_isfinite h a \<or> lf_eq h a (lf_zero h) then a
     else let absolute = lf_fabs h a; integral = lf_floor h absolute; fraction = lf_sub h absolute integral;
              integral = (if lf_less h (lf_half h) fraction \<or>
                             lf_eq h fraction (lf_half h) \<and> \<not> lf_eq h (lf_fmod h integral (lf_two h)) (lf_zero h)
                          then lf_add h integral (lf_one h) else integral)
          in lf_copysign h integral a)"

definition floating_lane :: "'f lane_fp \<Rightarrow> opcode \<Rightarrow> u64 \<Rightarrow> u64 \<Rightarrow> u64" where
  "floating_lane h op first second =
    (let a = lf_of_bits h first; b = lf_of_bits h second
     in if op = OVec2 O_VPMin then (if lf_less h b a then second else first)
        else if op = OVec2 O_VPMax then (if lf_less h a b then second else first)
        else if op = OVec1 O_VMin \<or> op = OVec1 O_VMax
        then (if lf_isnan h a \<or> lf_isnan h b then quiet_nan h
              else if lf_eq h a (lf_zero h) \<and> lf_eq h b (lf_zero h)
              then (if op = OVec1 O_VMin then first OR second else first AND second)
              else if op = OVec1 O_VMin then (if lf_less h a b then first else second)
              else (if lf_less h b a then first else second))
        else let result =
               (if op = OVec1 O_VAdd then lf_add h a b
                else if op = OVec1 O_VSub then lf_sub h a b
                else if op = OVec1 O_VMul then lf_mul h a b
                else if op = OVec1 O_VDiv then lf_div h a b
                else if op = OVec2 O_VSqrt then lf_sqrt h a
                else if op = OVec2 O_VCeil then lf_ceil h a
                else if op = OVec2 O_VFloor then lf_floor h a
                else if op = OVec2 O_VTrunc then lf_trunc h a
                else if op = OVec2 O_VNearest then nearest h a
                else lf_zero h)
             in if lf_isnan h result then quiet_nan h else lf_to_bits h result)"

definition compare_by :: "opcode \<Rightarrow> ('a \<Rightarrow> 'a \<Rightarrow> bool) \<Rightarrow> ('a \<Rightarrow> 'a \<Rightarrow> bool) \<Rightarrow> 'a \<Rightarrow> 'a \<Rightarrow> bool" where
  "compare_by op lt same a b =
    (if op = OVec1 O_VEq then same a b
     else if op = OVec1 O_VNe then \<not> same a b
     else if op = OVec1 O_VLt then lt a b
     else if op = OVec1 O_VLe then lt a b \<or> same a b
     else if op = OVec1 O_VGt then lt b a
     else if op = OVec1 O_VGe then lt b a \<or> same a b
     else False)"

section \<open>The integer lane operations\<close>

definition vector_error :: "string \<Rightarrow> 'a result" where
  "vector_error m = mk_error InvalidOperand m"

definition clamp :: "int \<Rightarrow> int \<Rightarrow> int \<Rightarrow> int" where
  "clamp v lo hi = (if v < lo then lo else if hi < v then hi else v)"

definition saturate_bounds :: "bool \<Rightarrow> nat \<Rightarrow> int \<times> int" where
  "saturate_bounds sign width =
    (if sign then (- (2 ^ (width * 8 - 1)), 2 ^ (width * 8 - 1) - 1) else (0, sint (mask_for width)))"

definition popcount :: "u64 \<Rightarrow> nat" where
  "popcount a = length (filter (bit a) [0..<64])"

definition shift_lane :: "opcode \<Rightarrow> nat \<Rightarrow> bool \<Rightarrow> u64 \<Rightarrow> scalar_value \<Rightarrow> u64 result" where
  "shift_lane op width sign a amount =
    rbind (as_u64 amount) (\<lambda>count.
      let k = unat (count AND of_nat (width * 8 - 1))
      in Inr (if op = OVec1 O_VShl then push_bit k a
              else if sign then signed_drop_bit k (signed_lane a width)
              else drop_bit k a))"

definition integer_lane :: "opcode \<Rightarrow> nat \<Rightarrow> bool \<Rightarrow> scalar_value list \<Rightarrow> u64 \<Rightarrow> u64 \<Rightarrow> u64 result" where
  "integer_lane op width sign values a b =
    (let sa = sint (signed_lane a width); sb = sint (signed_lane b width)
     in if op = OVec1 O_VAdd then Inr (a + b)
        else if op = OVec1 O_VSub then Inr (a - b)
        else if op = OVec1 O_VMul then Inr (a * b)
        else if op = OVec1 O_VShl \<or> op = OVec1 O_VShr then shift_lane op width sign a (values ! 1)
        else if op = OVec1 O_VMin then Inr (if sign then (if sa < sb then a else b) else (if a < b then a else b))
        else if op = OVec1 O_VMax then Inr (if sign then (if sa > sb then a else b) else (if a > b then a else b))
        else if op = OVec1 O_VAddSat \<or> op = OVec1 O_VSubSat
        then (case saturate_bounds sign width of (lo, hi) \<Rightarrow>
                let first = (if sign then sa else sint a); second = (if sign then sb else sint b)
                in Inr (word_of_int (clamp (if op = OVec1 O_VAddSat then first + second else first - second) lo hi)))
        else if op = OVec1 O_VAvgr then Inr (drop_bit 1 (a + b + 1))
        else if op = OVec1 O_VPopcnt then Inr (of_nat (popcount a))
        else if op = OVec2 O_VQ15MulrSat then Inr (word_of_int (min ((sa * sb + 16384) div 2 ^ 15) 32767))
        else vector_error ''unknown SIMD128 operation'')"

definition float_source :: "ir_type \<Rightarrow> bool" where
  "float_source t \<longleftrightarrow> is_float (vector_lane_type t)"

definition lane_bits :: "('f, 'd) host_simd \<Rightarrow> opcode \<Rightarrow> ir_type \<Rightarrow> nat \<Rightarrow> scalar_value list \<Rightarrow> u64 \<Rightarrow> u64 \<Rightarrow> u64 result" where
  "lane_bits h op source width values a b =
    (let sign = vector_signed source; sa = sint (signed_lane a width); sb = sint (signed_lane b width)
     in if op = OVec1 O_VAnd then Inr (a AND b)
        else if op = OVec1 O_VOr then Inr (a OR b)
        else if op = OVec1 O_VXor then Inr (a XOR b)
        else if op = OVec2 O_VAndNot then Inr (a AND NOT b)
        else if op = OVec1 O_VNeg \<or> op = OVec1 O_VAbs
        then (if float_source source
              then Inr (if op = OVec1 O_VNeg then a XOR sign_bit width else a AND NOT (sign_bit width))
              else Inr (if op = OVec1 O_VNeg \<or> sa < 0 then 0 - a else a))
        else if vector_comparison op
        then let yes = (if float_source source
                        then (if width = 4
                              then compare_by op (lf_less (simd_float h)) (lf_eq (simd_float h))
                                     (lf_of_bits (simd_float h) a) (lf_of_bits (simd_float h) b)
                              else compare_by op (lf_less (simd_double h)) (lf_eq (simd_double h))
                                     (lf_of_bits (simd_double h) a) (lf_of_bits (simd_double h) b))
                        else if sign then compare_by op (<) (=) sa sb
                        else compare_by op (<) (=) a b)
             in Inr (if yes then mask_for width else 0)
        else if float_source source
        then Inr (if width = 4 then floating_lane (simd_float h) op a b else floating_lane (simd_double h) op a b)
        else integer_lane op width sign values a b)"

section \<open>The evaluator\<close>

fun lane_loop :: "(nat \<Rightarrow> u64 result) \<Rightarrow> nat \<Rightarrow> nat list \<Rightarrow> bytes \<Rightarrow> bytes result" where
  "lane_loop f out_width [] result = Inr result"
| "lane_loop f out_width (n # ns) result =
    rbind (f n) (\<lambda>bits. lane_loop f out_width ns (put_lane out_width result n bits))"

definition insert_extract :: "opcode \<Rightarrow> ir_type \<Rightarrow> nat \<Rightarrow> nat \<Rightarrow> bool \<Rightarrow> scalar_value list \<Rightarrow> bytes result" where
  "insert_extract op source lanes width sign values =
    (case as_u64 (values ! (if op = OVec1 O_VExtract then 1 else 2)) of
       Inl _ \<Rightarrow> vector_error ''invalid SIMD128 lane''
     | Inr index \<Rightarrow>
         if of_nat lanes \<le> index then vector_error ''invalid SIMD128 lane''
         else if op = OVec1 O_VInsert
         then Inr (copy_at (sv_storage (values ! 0)) (unat index * width) (take width (sv_storage (values ! 1))))
         else let bits = read_lane (values ! 0) width (unat index);
                  bits = (if sign then signed_lane bits width else bits)
              in Inr (copy_at empty_storage 0 (put_le (if float_source source then width else 8) bits)))"

fun shuffle_loop :: "bool \<Rightarrow> nat \<Rightarrow> nat \<Rightarrow> nat \<Rightarrow> scalar_value list \<Rightarrow> nat list \<Rightarrow> bytes \<Rightarrow> bytes result" where
  "shuffle_loop swizzle lanes width out_width values [] result = Inr result"
| "shuffle_loop swizzle lanes width out_width values (n # ns) result =
    (let index = unat (sv_storage (values ! (if swizzle then 1 else 2)) ! n)
     in if swizzle \<and> 16 \<le> index then shuffle_loop swizzle lanes width out_width values ns result
        else if 2 * lanes \<le> index then vector_error ''invalid SIMD128 shuffle index''
        else shuffle_loop swizzle lanes width out_width values ns
               (put_lane out_width result n
                  (read_lane (values ! (if index < lanes then 0 else 1)) width (index mod lanes))))"

definition bitselect :: "bytes \<Rightarrow> bytes \<Rightarrow> bytes \<Rightarrow> bytes" where
  "bitselect m a b = map (\<lambda>n. (m ! n AND a ! n) OR (NOT (m ! n) AND b ! n)) [0..<16]"

definition reduce_lanes :: "opcode \<Rightarrow> nat \<Rightarrow> nat \<Rightarrow> scalar_value \<Rightarrow> u64" where
  "reduce_lanes op lanes width v =
    foldl (\<lambda>answer n. let a = read_lane v width n in
        if op = OVec2 O_VAnyTrue then answer OR of_bool (a \<noteq> 0)
        else if op = OVec2 O_VAllTrue then answer AND of_bool (a \<noteq> 0)
        else answer OR push_bit n (drop_bit (width * 8 - 1) a AND 1))
      (of_bool (op = OVec2 O_VAllTrue)) [0..<lanes]"

definition extended_lane :: "opcode \<Rightarrow> nat \<Rightarrow> nat \<Rightarrow> bool \<Rightarrow> scalar_value list \<Rightarrow> nat \<Rightarrow> u64" where
  "extended_lane op lanes width sign values n =
    (let high = (op = OVec2 O_VExtendHigh \<or> op = OVec2 O_VExtmulHigh);
         read = (\<lambda>arg i. let bits = read_lane (values ! arg) width i in if sign then signed_lane bits width else bits);
         i = (if op = OVec2 O_VExtaddPairwise \<or> op = OVec2 O_VDot then 2 * n else n + (if high then lanes div 2 else 0));
         value = read 0 i;
         value = (if op = OVec2 O_VExtmulLow \<or> op = OVec2 O_VExtmulHigh then value * read 1 i else value);
         value = (if op = OVec2 O_VExtaddPairwise then value + read 0 (i + 1) else value)
     in if op = OVec2 O_VDot then value * read 1 i + read 0 (i + 1) * read 1 (i + 1) else value)"

definition narrow_lane :: "nat \<Rightarrow> nat \<Rightarrow> nat \<Rightarrow> bool \<Rightarrow> scalar_value list \<Rightarrow> nat \<Rightarrow> u64" where
  "narrow_lane lanes width out_width signed_result values n =
    (let lo = (if signed_result then - (2 ^ (out_width * 8 - 1)) else 0);
         hi = (if signed_result then 2 ^ (out_width * 8 - 1) - 1 else 2 ^ (out_width * 8) - 1)
     in word_of_int (clamp (sint (signed_lane (read_lane (values ! (n div lanes)) width (n mod lanes)) width)) lo hi))"

definition converted_lane :: "('f, 'd) host_simd \<Rightarrow> opcode \<Rightarrow> ir_type \<Rightarrow> ir_type \<Rightarrow> nat \<Rightarrow> nat \<Rightarrow> bool \<Rightarrow> u64 \<Rightarrow> u64" where
  "converted_lane h op source destination width out_width sign bits =
    (let widened = (if width = 4 then simd_widen h (lf_of_bits (simd_float h) bits) else lf_of_bits (simd_double h) bits)
     in if op = OVec2 O_VTruncSat \<or> op = OVec2 O_VTruncSatZero
        then let signed_result = vector_signed destination;
                 lo = (if signed_result then - 2147483648 else 0);
                 hi = (if signed_result then 2147483647 else 4294967295)
             in word_of_int (if lf_isnan (simd_double h) widened then 0
                             else if simd_at_most h widened lo then lo
                             else if simd_at_least h widened hi then hi
                             else simd_to_int h (lf_trunc (simd_double h) widened))
        else let value = (if float_source source then widened
                          else if sign then simd_of_signed h (signed_lane bits width)
                          else simd_of_unsigned h bits)
             in if out_width = 4 then lf_to_bits (simd_float h) (simd_shorten h value)
                else lf_to_bits (simd_double h) value)"

definition vector_group :: "opcode \<Rightarrow> opcode list \<Rightarrow> bool" where
  "vector_group op ops \<longleftrightarrow> op \<in> set ops"

definition evaluate_vector :: "('f, 'd) host_simd \<Rightarrow> opcode \<Rightarrow> ir_type \<Rightarrow> scalar_value list \<Rightarrow> scalar_value result" where
  "evaluate_vector h op destination values =
    (if values = [] \<or> 3 < length values then vector_error ''invalid SIMD128 operand count''
     else if \<not> vector_types op destination (map sv_type values)
     then vector_error ''invalid SIMD128 operand/result types''
     else let source = sv_type (values ! 0);
              lanes = (if is_vector source then type_lanes source else type_lanes destination);
              width = 16 div lanes;
              out_width = (if is_vector destination then 16 div type_lanes destination else 8);
              sign = vector_signed source;
              finish = from_storage destination
          in if vector_group op [OVec1 O_VMov, OVec2 O_VBitcast] then finish (sv_storage (values ! 0))
             else if op = OVec1 O_VSplat
             then finish (foldl (\<lambda>r n. copy_at r (n * out_width) (take out_width (sv_storage (values ! 0))))
                            empty_storage [0..<type_lanes destination])
             else if vector_group op [OVec1 O_VExtract, OVec1 O_VInsert]
             then rbind (insert_extract op source lanes width sign values) finish
             else if vector_group op [OVec1 O_VShuffle, OVec2 O_VSwizzle]
             then rbind (shuffle_loop (op = OVec2 O_VSwizzle) lanes width out_width values [0..<lanes] empty_storage) finish
             else if op = OVec2 O_VBitselect
             then finish (bitselect (sv_storage (values ! 0)) (sv_storage (values ! 1)) (sv_storage (values ! 2)))
             else if vector_group op [OVec2 O_VAnyTrue, OVec2 O_VAllTrue, OVec2 O_VBitmask]
             then finish (put_lane out_width empty_storage 0 (reduce_lanes op lanes width (values ! 0)))
             else if vector_group op [OVec2 O_VExtendLow, OVec2 O_VExtendHigh, OVec2 O_VExtmulLow, OVec2 O_VExtmulHigh,
                       OVec2 O_VExtaddPairwise, OVec2 O_VDot]
             then finish (fill_lanes out_width (type_lanes destination) (extended_lane op lanes width sign values))
             else if op = OVec2 O_VNarrowSat
             then finish (fill_lanes out_width (lanes * 2)
                            (narrow_lane lanes width out_width (vector_signed destination) values))
             else if vector_group op [OVec2 O_VConvert, OVec2 O_VConvertLow, OVec2 O_VConvertZero, OVec2 O_VTruncSat,
                       OVec2 O_VTruncSatZero]
             then finish (fill_lanes out_width (min lanes (type_lanes destination))
                            (\<lambda>n. converted_lane h op source destination width out_width sign (read_lane (values ! 0) width n)))
             else rbind (lane_loop (\<lambda>n.
                           let a = read_lane (values ! 0) width n;
                               b = (if 1 < length values \<and> is_vector (sv_type (values ! 1)) then read_lane (values ! 1) width n else 0)
                           in rbind (lane_bits h op source width values a b) (\<lambda>bits. Inr (bits AND mask_for width)))
                         out_width [0..<lanes] empty_storage) finish)"

section \<open>Reading back written lanes\<close>

definition sv_wf :: "scalar_value \<Rightarrow> bool" where
  "sv_wf v \<longleftrightarrow> length (sv_storage v) = storage_size"

definition lane_of :: "bytes \<Rightarrow> nat \<Rightarrow> nat \<Rightarrow> u64" where
  "lane_of bs width n = get_le (take width (drop (width * n) bs))"

lemma read_lane_of: "read_lane v width n = lane_of (sv_storage v) width n"
  by (simp add: read_lane_def lane_of_def)

lemma length_empty_storage [simp]: "length empty_storage = storage_size"
  by (simp add: empty_storage_def)

lemma length_copy_at [simp]: "off + length bs \<le> length r \<Longrightarrow> length (copy_at r off bs) = length r"
  by (simp add: copy_at_def)

lemma length_put_lane [simp]: "Suc n * w \<le> length r \<Longrightarrow> length (put_lane w r n bits) = length r"
  by (simp add: put_lane_def)

lemma lane_of_put_same:
  assumes "Suc n * w \<le> length r"
  shows "lane_of (put_lane w r n bits) w n = take_bit (8 * w) bits"
proof -
  have "take w (drop (w * n) (put_lane w r n bits)) = put_le w bits"
    using assms by (simp add: put_lane_def copy_at_def mult.commute)
  then show ?thesis by (simp add: lane_of_def get_put_le)
qed

lemma lane_of_put_other:
  assumes "Suc n * w \<le> length r" "m \<noteq> n"
  shows "lane_of (put_lane w r n bits) w m = lane_of r w m"
proof -
  have "take w (drop (w * m) (put_lane w r n bits)) = take w (drop (w * m) r)"
  proof (cases "m < n")
    case True
    then have "Suc m * w \<le> n * w" by (intro mult_le_mono1) simp
    then have "w * m + w \<le> n * w" by (simp add: mult.commute)
    then have "w \<le> n * w - w * m" by linarith
    with assms show ?thesis
      by (simp add: put_lane_def copy_at_def drop_take min_absorb1)
  next
    case False
    with assms(2) have "Suc n \<le> m" by simp
    then have "Suc n * w \<le> m * w" by (rule mult_le_mono1)
    from \<open>Suc n \<le> m\<close> have nm: "n \<le> m" by simp
    have "drop (w * m) (put_lane w r n bits) = drop (w * m) r"
      using assms(1) \<open>Suc n * w \<le> m * w\<close> nm
      by (simp add: put_lane_def copy_at_def mult.commute)
    then show ?thesis by simp
  qed
  then show ?thesis by (simp add: lane_of_def)
qed

lemma lane_loop_result:
  assumes "lane_loop f w ns r = Inr r'" "\<forall>n\<in>set ns. Suc n * w \<le> length r" "distinct ns"
  shows "length r' = length r \<and> (\<forall>n\<in>set ns. \<exists>bits. f n = Inr bits \<and> lane_of r' w n = take_bit (8 * w) bits) \<and>
    (\<forall>n. n \<notin> set ns \<longrightarrow> lane_of r' w n = lane_of r w n)"
  using assms
proof (induction ns arbitrary: r)
  case Nil
  then show ?case by simp
next
  case (Cons n ns)
  from Cons.prems(1) obtain bits where b: "f n = Inr bits" "lane_loop f w ns (put_lane w r n bits) = Inr r'"
    by (auto simp: rbind_eq_Inr)
  have len: "length (put_lane w r n bits) = length r" using Cons.prems(2) by simp
  from Cons.IH [OF b(2)] Cons.prems(2,3) len
  have ih: "length r' = length r" "\<forall>m\<in>set ns. \<exists>bits. f m = Inr bits \<and> lane_of r' w m = take_bit (8 * w) bits"
    "\<forall>m. m \<notin> set ns \<longrightarrow> lane_of r' w m = lane_of (put_lane w r n bits) w m" by auto
  have n: "Suc n * w \<le> length r" using Cons.prems(2) by simp
  have "lane_of r' w n = take_bit (8 * w) bits"
    using ih(3) Cons.prems(3) lane_of_put_same [OF n] by simp
  moreover have "lane_of r' w m = lane_of r w m" if "m \<notin> set (n # ns)" for m
    using that ih(3) lane_of_put_other [OF n] by simp
  ultimately show ?case using ih b(1) by auto
qed

lemma fill_lanes_loop: "Inr (fill_lanes w k f) = lane_loop (\<lambda>n. Inr (f n)) w [0..<k] empty_storage"
proof -
  have "Inr (foldl (\<lambda>r n. put_lane w r n (f n)) r ns) = lane_loop (\<lambda>n. Inr (f n)) w ns r" for r ns
    by (induction ns arbitrary: r) simp_all
  then show ?thesis by (simp add: fill_lanes_def)
qed

lemma fill_lanes_result:
  assumes "k * w \<le> storage_size"
  shows "length (fill_lanes w k f) = storage_size" "n < k \<Longrightarrow> lane_of (fill_lanes w k f) w n = take_bit (8 * w) (f n)"
proof -
  have "Suc n * w \<le> storage_size" if "n < k" for n
    using mult_le_mono1 [of "Suc n" k w] that assms by linarith
  then have b: "\<forall>n\<in>set [0..<k]. Suc n * w \<le> length empty_storage" by simp
  from lane_loop_result [OF fill_lanes_loop [symmetric] b]
  show "length (fill_lanes w k f) = storage_size" "n < k \<Longrightarrow> lane_of (fill_lanes w k f) w n = take_bit (8 * w) (f n)"
    by auto
qed

section \<open>The operations that work lane by lane\<close>

definition lane_ops :: "opcode list" where
  "lane_ops = map OVec1 [O_VAdd, O_VSub, O_VAnd, O_VOr, O_VXor, O_VEq, O_VNe, O_VLt, O_VLe, O_VGt, O_VGe,
      O_VMul, O_VDiv, O_VNeg, O_VAbs, O_VShl, O_VShr, O_VMin, O_VMax, O_VAddSat, O_VSubSat, O_VAvgr, O_VPopcnt] @
    map OVec2 [O_VAndNot, O_VQ15MulrSat, O_VSqrt, O_VPMin, O_VPMax, O_VCeil, O_VFloor, O_VTrunc, O_VNearest]"

lemma mask_type_lanes: "valid_type a \<Longrightarrow> is_vector a \<Longrightarrow> type_lanes (vector_mask_type a) = type_lanes a \<and> is_vector (vector_mask_type a)"
  by (erule valid_vectorE, assumption) (simp_all add: vector_mask_type_def)

definition lane_rules :: "vector_rule list" where
  "lane_rules = [VR_Arithmetic, VR_Bits, VR_Compare, VR_Multiply, VR_FloatBinary, VR_Negate, VR_Absolute, VR_Shift,
    VR_MinMax, VR_Saturate, VR_Average, VR_Popcount, VR_Q15, VR_FloatUnary]"

lemma lane_ops_rule: "op \<in> set lane_ops \<Longrightarrow> \<exists>r \<in> set lane_rules. vector_rule_of op = Some r"
  by (auto simp: lane_ops_def lane_rules_def vector_rule_of_def)

lemma vector_types_shape:
  assumes "vector_rule_of op = Some r" "r \<in> set lane_rules" "vector_types op dest (a # ts)"
  shows "valid_type a \<and> is_vector a \<and> dest = (if vector_comparison op then vector_mask_type a else a)"
proof -
  have n: "r \<notin> {VR_Splat, VR_Extract, VR_AnyTrue, VR_AllTrue, VR_Bitmask, VR_Bitcast, VR_Bitselect, VR_Extend, VR_Extmul,
      VR_Pairwise, VR_Narrow, VR_Dot, VR_Convert, VR_ConvertLow, VR_ConvertZero, VR_TruncSat, VR_TruncSatZero}"
    using assms(2) by (auto simp: lane_rules_def)
  have "valid_type a \<and> is_vector a"
    using assms(3) n unfolding vector_types_def assms(1) option.case Let_def by (simp split: if_splits)
  moreover have "dest = (if vector_comparison op then vector_mask_type a else a)"
    using assms(3) n unfolding vector_types_def assms(1) option.case Let_def by (simp split: if_splits)
  ultimately show ?thesis by blast
qed

lemma lane_ops_types:
  "op \<in> set lane_ops \<Longrightarrow> vector_types op dest (a # ts) \<Longrightarrow>
   valid_type a \<and> is_vector a \<and> dest = (if vector_comparison op then vector_mask_type a else a)"
  using lane_ops_rule vector_types_shape by blast

lemma lane_ops_shape:
  assumes "op \<in> set lane_ops" "vector_types op dest (a # ts)"
  shows "is_vector dest \<and> type_lanes dest = type_lanes a \<and> type_lanes a \<in> {2, 4, 8, 16}"
proof -
  note t = lane_ops_types [OF assms]
  then have "type_lanes a \<in> {2, 4, 8, 16}" by (auto elim: valid_vectorE)
  with t mask_type_lanes show ?thesis by auto
qed

definition lane_step :: "('f, 'd) host_simd \<Rightarrow> opcode \<Rightarrow> scalar_value list \<Rightarrow> nat \<Rightarrow> u64 result" where
  "lane_step h op values n =
    (let source = sv_type (values ! 0); width = 16 div type_lanes source;
         a = read_lane (values ! 0) width n;
         b = (if 1 < length values \<and> is_vector (sv_type (values ! 1)) then read_lane (values ! 1) width n else 0)
     in rbind (lane_bits h op source width values a b) (\<lambda>bits. Inr (bits AND mask_for width)))"

lemma lane_ops_not_grouped:
  assumes "op \<in> set lane_ops"
  shows "\<not> vector_group op [OVec1 O_VMov, OVec2 O_VBitcast]" "op \<noteq> OVec1 O_VSplat"
    "\<not> vector_group op [OVec1 O_VExtract, OVec1 O_VInsert]" "\<not> vector_group op [OVec1 O_VShuffle, OVec2 O_VSwizzle]"
    "op \<noteq> OVec2 O_VBitselect" "\<not> vector_group op [OVec2 O_VAnyTrue, OVec2 O_VAllTrue, OVec2 O_VBitmask]"
    "\<not> vector_group op [OVec2 O_VExtendLow, OVec2 O_VExtendHigh, OVec2 O_VExtmulLow, OVec2 O_VExtmulHigh,
                       OVec2 O_VExtaddPairwise, OVec2 O_VDot]"
    "op \<noteq> OVec2 O_VNarrowSat"
    "\<not> vector_group op [OVec2 O_VConvert, OVec2 O_VConvertLow, OVec2 O_VConvertZero, OVec2 O_VTruncSat,
                       OVec2 O_VTruncSatZero]"
  using assms unfolding lane_ops_def vector_group_def by auto

lemma evaluate_lane_op:
  assumes op: "op \<in> set lane_ops" and v: "values \<noteq> []" "length values \<le> 3"
    and t: "vector_types op dest (map sv_type values)"
  shows "evaluate_vector h op dest values =
    rbind (lane_loop (lane_step h op values) (16 div type_lanes (sv_type (values ! 0)))
             [0..<type_lanes (sv_type (values ! 0))] empty_storage) (from_storage dest)"
proof -
  obtain x xs where vs_eq: "values = x # xs" using v by (cases "values") auto
  from t have "vector_types op dest (sv_type x # map sv_type xs)" by (simp add: vs_eq)
  from lane_ops_types [OF op this] lane_ops_shape [OF op this]
  have s: "is_vector (sv_type x)" "is_vector dest" "type_lanes dest = type_lanes (sv_type x)" by auto
  have c: "\<not> (values = [] \<or> 3 < length values)" using v by simp
  show ?thesis
    unfolding evaluate_vector_def if_not_P [OF c] lane_step_def
    using lane_ops_not_grouped [OF op] t s by (simp add: vs_eq Let_def)
qed

lemma mask_take_bit:
  assumes "w \<in> {1, 2, 4, 8}"
  shows "take_bit (8 * w) (v AND mask_for w) = v AND mask_for w" "mask_for w = mask (8 * w)"
proof -
  have m: "mask_for w = mask (8 * w)"
    using assms by (auto simp: mask_for_def mask_eq_exp_minus_1)
  then show "mask_for w = mask (8 * w)" .
  show "take_bit (8 * w) (v AND mask_for w) = v AND mask_for w"
    unfolding m by (simp add: take_bit_eq_mask [symmetric])
qed

text \<open>A lane operation that succeeds works lane by lane: the result has the destination type, and each
  of its lanes is the operation on the operands' lanes, masked to the lane width.\<close>

lemma vector_lanewise:
  assumes "op \<in> set lane_ops" "evaluate_vector h op dest values = Inr r"
    and "width = 16 div type_lanes (sv_type (values ! 0))" "n < type_lanes (sv_type (values ! 0))"
  shows "sv_type r = dest \<and> length (sv_storage r) = storage_size \<and>
    (\<exists>bits. lane_bits h op (sv_type (values ! 0)) width values (read_lane (values ! 0) width n)
        (if 1 < length values \<and> is_vector (sv_type (values ! 1)) then read_lane (values ! 1) width n else 0) = Inr bits \<and>
      read_lane r width n = bits AND mask_for width)"
proof -
  let ?lanes = "type_lanes (sv_type (values ! 0))"
  have v: "values \<noteq> []" "length values \<le> 3" and t: "vector_types op dest (map sv_type values)"
    using assms(2) by (auto simp: evaluate_vector_def vector_error_def split: if_splits)
  obtain x xs where vs_eq: "values = x # xs" using v by (cases "values") auto
  have l: "?lanes \<in> {2, 4, 8, 16}"
    using lane_ops_shape [OF assms(1), of dest "sv_type x" "map sv_type xs"] t by (simp add: vs_eq)
  then have w: "width \<in> {1, 2, 4, 8}" "?lanes * width = 16" using assms(3) by auto
  from evaluate_lane_op [OF assms(1) v t, of h] assms(2,3)
  have "rbind (lane_loop (lane_step h op values) width [0..<?lanes] empty_storage) (from_storage dest) = Inr r" by simp
  then obtain bs where
    bs: "lane_loop (lane_step h op values) width [0..<?lanes] empty_storage = Inr bs" "from_storage dest bs = Inr r"
    by (auto simp: rbind_eq_Inr)
  have "Suc m * width \<le> 16" if "m < ?lanes" for m
    using mult_le_mono1 [of "Suc m" ?lanes width] that w(2) by linarith
  then have "\<forall>m\<in>set [0..<?lanes]. Suc m * width \<le> length empty_storage" by (simp add: storage_size_def)
  from lane_loop_result [OF bs(1) this] assms(4)
  have len: "length bs = storage_size"
    and lane: "\<exists>b. lane_step h op values n = Inr b \<and> lane_of bs width n = take_bit (8 * width) b" by auto
  from bs(2) len have r: "sv_type r = dest" "sv_storage r = bs"
    by (auto simp: from_storage_Inr)
  from lane obtain b where b: "lane_step h op values n = Inr b" "lane_of bs width n = take_bit (8 * width) b" by blast
  then obtain bits where bits: "lane_bits h op (sv_type (values ! 0)) width values (read_lane (values ! 0) width n)
        (if 1 < length values \<and> is_vector (sv_type (values ! 1)) then read_lane (values ! 1) width n else 0) = Inr bits"
      "b = bits AND mask_for width"
    unfolding lane_step_def Let_def assms(3) [symmetric] rbind_eq_Inr by blast
  have "read_lane r width n = bits AND mask_for width"
    unfolding read_lane_of r(2) b(2) bits(2) by (rule mask_take_bit(1) [OF w(1)])
  with r len bits(1) show ?thesis by blast
qed

section \<open>Well-typed operations do not fail\<close>

lemma vector_lane_kind:
  assumes "is_vector t" shows "is_integer (vector_lane_type t) \<longleftrightarrow> \<not> float_source t"
proof -
  have "vector_lane_type t = mk_type (all_kinds ! (element_index (type_element t) + 1))"
    using assms by (simp add: vector_lane_type_def)
  then show ?thesis
    by (cases "type_element t") (simp_all add: float_source_def is_integer_def is_float_def all_kinds_def)
qed

definition float_rules :: "vector_rule list" where
  "float_rules = [VR_FloatBinary, VR_FloatUnary]"

lemma vector_types_float:
  assumes "vector_rule_of op = Some r" "r \<in> set float_rules" "vector_types op dest (a # ts)"
  shows "\<not> is_integer (vector_lane_type a)"
proof -
  have n: "r \<notin> {VR_Splat, VR_Extract, VR_AnyTrue, VR_AllTrue, VR_Bitmask, VR_Bitcast, VR_Bitselect, VR_Extend, VR_Extmul,
      VR_Pairwise, VR_Narrow, VR_Dot, VR_Convert, VR_ConvertLow, VR_ConvertZero, VR_TruncSat, VR_TruncSatZero,
      VR_Insert, VR_Shift, VR_Shuffle, VR_Swizzle}" "r = VR_FloatBinary \<or> r = VR_FloatUnary"
    using assms(2) by (auto simp: float_rules_def)
  show ?thesis
    using n(2) assms(3) n(1) unfolding vector_types_def assms(1) option.case Let_def
    by (elim disjE) (simp_all split: if_splits)
qed

lemma vector_types_shift:
  assumes "vector_rule_of op = Some VR_Shift" "vector_types op dest (a # ts)"
  shows "length ts = 1 \<and> plain_integer (ts ! 0)"
  using assms(2) unfolding vector_types_def assms(1) option.case Let_def by (simp split: if_splits)

lemma lane_bits_total:
  assumes "op \<in> set lane_ops" "vector_types op dest (map sv_type values)" "values \<noteq> []"
  shows "\<exists>bits. lane_bits h op (sv_type (values ! 0)) width values a b = Inr bits"
proof -
  obtain v vs where vs_eq: "values = v # vs" using assms(3) by (cases "values") auto
  have t: "vector_types op dest (sv_type v # map sv_type vs)" using assms(2) by (simp add: vs_eq)
  have vec: "is_vector (sv_type v)" using lane_ops_types [OF assms(1) t] by simp
  have float: "float_source (sv_type v)" if "vector_rule_of op = Some r" "r \<in> set float_rules" for r
    using vector_types_float [OF that t] vector_lane_kind [OF vec] by simp
  have shift: "\<exists>bits. shift_lane op width sign a (values ! 1) = Inr bits"
    if "vector_rule_of op = Some VR_Shift" for sign
    using vector_types_shift [OF that t] by (cases vs) (auto simp: vs_eq shift_lane_def as_u64_def plain_integer_def Let_def)
  have int: "\<exists>bits. integer_lane op width sign values a b = Inr bits"
    if "\<not> float_source (sv_type v)"
      "op \<notin> set (map OVec1 [O_VAnd, O_VOr, O_VXor, O_VNeg, O_VAbs, O_VEq, O_VNe, O_VLt, O_VLe, O_VGt, O_VGe] @ [OVec2 O_VAndNot])" for sign
  proof -
    have "op \<in> set (map OVec1 [O_VAdd, O_VSub, O_VMul, O_VMin, O_VMax, O_VAddSat, O_VSubSat, O_VAvgr, O_VPopcnt] @ [OVec2 O_VQ15MulrSat]) \<or>
        op \<in> set (map OVec1 [O_VShl, O_VShr]) \<or> (\<exists>r. vector_rule_of op = Some r \<and> r \<in> set float_rules)"
      using assms(1) that(2) by (auto simp: lane_ops_def vector_rule_of_def float_rules_def)
    then show ?thesis
    proof (elim disjE)
      assume "op \<in> set (map OVec1 [O_VShl, O_VShr])"
      with shift show ?thesis by (auto simp: integer_lane_def vector_rule_of_def)
    next
      assume "\<exists>r. vector_rule_of op = Some r \<and> r \<in> set float_rules"
      with float that(1) show ?thesis by blast
    qed (auto simp: integer_lane_def saturate_bounds_def Let_def)
  qed
  have cmp: "vector_comparison op" if "op \<in> set (map OVec1 [O_VEq, O_VNe, O_VLt, O_VLe, O_VGt, O_VGe])"
    using that by (auto simp: vector_comparison_def vector_rule_of_def)
  show ?thesis
    using int cmp unfolding lane_bits_def Let_def by (auto simp: vs_eq)
qed

lemma lane_loop_total: "(\<And>n. \<exists>b. f n = Inr b) \<Longrightarrow> \<exists>r'. lane_loop f w ns r = Inr r'"
proof (induction ns arbitrary: r)
  case (Cons n ns)
  from Cons.prems obtain b where "f n = Inr b" by blast
  with Cons show ?case by simp
qed simp

lemma evaluate_lane_op_returns:
  assumes "op \<in> set lane_ops" "vector_types op dest (map sv_type values)" "values \<noteq> []" "length values \<le> 3"
  shows "\<exists>r. evaluate_vector h op dest values = Inr r"
proof -
  let ?width = "16 div type_lanes (sv_type (values ! 0))" and ?lanes = "type_lanes (sv_type (values ! 0))"
  obtain v vs where vs_eq: "values = v # vs" using assms(3) by (cases "values") auto
  have l: "?lanes \<in> {2, 4, 8, 16}" "is_vector dest"
    using lane_ops_shape [OF assms(1), of dest "sv_type v" "map sv_type vs"] assms(2) by (simp_all add: vs_eq)
  have "\<exists>b. lane_step h op values n = Inr b" for n
  proof -
    obtain b where "lane_bits h op (sv_type (values ! 0)) ?width values (read_lane (values ! 0) ?width n)
        (if 1 < length values \<and> is_vector (sv_type (values ! 1)) then read_lane (values ! 1) ?width n else 0) = Inr b"
      using lane_bits_total [OF assms(1,2,3)] by blast
    then show ?thesis by (simp add: lane_step_def Let_def)
  qed
  then obtain bs where bs: "lane_loop (lane_step h op values) ?width [0..<?lanes] empty_storage = Inr bs"
    using lane_loop_total by blast
  have "?lanes * ?width = 16" using l(1) by auto
  then have "Suc m * ?width \<le> 16" if "m < ?lanes" for m
    using mult_le_mono1 [of "Suc m" ?lanes ?width] that by linarith
  then have "\<forall>m\<in>set [0..<?lanes]. Suc m * ?width \<le> length empty_storage" by (simp add: storage_size_def)
  from lane_loop_result [OF bs this] have "length bs = storage_size" by simp
  with bs l(2) vector_types_valid [OF assms(2)] evaluate_lane_op [OF assms(1,3,4,2), of h] show ?thesis
    by (simp add: from_storage_def)
qed

section \<open>Saturation\<close>

lemma bit_top:
  fixes v :: u64
  assumes "uint v < 2 ^ Suc k" "k < 64"
  shows "bit v k \<longleftrightarrow> 2 ^ k \<le> uint v"
proof -
  have e: "bit v k \<longleftrightarrow> odd (uint v div 2 ^ k)"
    using assms(2) bit_uint_iff [of v k] bit_iff_odd [of "uint v" k] by simp
  show ?thesis
  proof (cases "2 ^ k \<le> uint v")
    case True
    define d where "d = uint v - 2 ^ k"
    have "uint v = d + 2 ^ k" "0 \<le> d" "d < 2 ^ k" using True assms(1) by (simp_all add: d_def)
    then have "uint v div 2 ^ k = 1" by (simp add: div_add_self2)
    with True e show ?thesis by simp
  next
    case False
    then have "uint v div 2 ^ k = 0" by (simp add: div_pos_pos_trivial)
    with False e show ?thesis by simp
  qed
qed

lemma bit_sign_bit: "1 \<le> w \<Longrightarrow> w \<le> 8 \<Longrightarrow> bit (sign_bit w) n \<longleftrightarrow> n = w * 8 - 1"
  by (auto simp: sign_bit_def bit_exp_iff exp_eq_zero_iff)

lemma signed_lane_eq:
  assumes "1 \<le> w" "w \<le> 8"
  shows "signed_lane v w = (if bit v (w * 8 - 1) then v - sign_bit w - sign_bit w else v)"
proof -
  note s = bit_sign_bit [OF assms]
  show ?thesis
  proof (cases "bit v (w * 8 - 1)")
    case False
    then have "v AND sign_bit w = 0" by (auto simp: bit_eq_iff [of _ "0::u64"] bit_and_iff s)
    then have "v + sign_bit w = v XOR sign_bit w" by (rule disjunctive_add_eq_xor)
    then have "signed_lane v w = v" unfolding signed_lane_def by (metis add_diff_cancel_right')
    with False show ?thesis by simp
  next
    case True
    then have n: "NOT v AND sign_bit w = 0" by (auto simp: bit_eq_iff [of _ "0::u64"] bit_and_iff bit_not_iff s)
    have "v - sign_bit w = v XOR sign_bit w"
      using disjunctive_diff_eq_and_not [OF n] disjunctive_diff_eq_xor [OF n] by simp
    with True show ?thesis unfolding signed_lane_def by simp
  qed
qed

text \<open>The lane's integer: two's complement of the lane's width.\<close>

lemma signed_lane_int:
  assumes "w \<in> {1, 2}" "uint v < 2 ^ (8 * w)"
  shows "sint (signed_lane v w) = (if 2 ^ (8 * w - 1) \<le> uint v then uint v - 2 ^ (8 * w) else uint v)"
proof -
  let ?k = "8 * w - 1"
  have k: "Suc ?k = 8 * w" "?k < 64" "1 \<le> w" "w \<le> 8" using assms(1) by auto
  have u: "0 \<le> uint v" "uint v < 65536" using assms by auto
  have b: "bit v (w * 8 - 1) \<longleftrightarrow> 2 ^ ?k \<le> uint v"
    using bit_top [of v ?k] assms(2) k(1,2) by (simp add: mult.commute)
  have small: "sint (word_of_int z :: u64) = z" if "- 65536 \<le> z" "z < 65536" for z
    using that by (intro sint_word_of_int_range) auto
  show ?thesis
  proof (cases "2 ^ ?k \<le> uint v")
    case True
    have "sign_bit w + sign_bit w = word_of_int (2 ^ (8 * w))"
      using assms(1) by (auto simp: sign_bit_def)
    moreover have "v = word_of_int (uint v)" by simp
    ultimately have "signed_lane v w = word_of_int (uint v - 2 ^ (8 * w))"
      using True b signed_lane_eq [OF k(3,4)] by (metis diff_diff_add wi_hom_sub)
    moreover have "(2::int) ^ (8 * w) \<le> 65536" "(0::int) \<le> 2 ^ (8 * w)" using assms(1) by auto
    then have "- 65536 \<le> uint v - 2 ^ (8 * w)" "uint v - 2 ^ (8 * w) < 65536" using u by linarith+
    ultimately have "sint (signed_lane v w) = uint v - 2 ^ (8 * w)"
      using small [of "uint v - 2 ^ (8 * w)"] u by (simp del: of_int_diff)
    with True show ?thesis by simp
  next
    case False
    then have "signed_lane v w = v" using b signed_lane_eq [OF k(3,4)] by simp
    with False small [of "uint v"] u show ?thesis by simp
  qed
qed

text \<open>The integer a lane of an integer vector denotes.\<close>

definition lane_int :: "ir_type \<Rightarrow> nat \<Rightarrow> u64 \<Rightarrow> int" where
  "lane_int t width v = (if vector_signed t then sint (signed_lane v width) else uint v)"

definition lane_min :: "ir_type \<Rightarrow> nat \<Rightarrow> int" where
  "lane_min t width = (if vector_signed t then - (2 ^ (8 * width - 1)) else 0)"

definition lane_max :: "ir_type \<Rightarrow> nat \<Rightarrow> int" where
  "lane_max t width = (if vector_signed t then 2 ^ (8 * width - 1) - 1 else 2 ^ (8 * width) - 1)"

lemma clamp_range: "lo \<le> hi \<Longrightarrow> lo \<le> clamp x lo hi \<and> clamp x lo hi \<le> hi"
  by (auto simp: clamp_def)

lemma uint_lane: "w \<in> {1, 2} \<Longrightarrow> uint (read_lane v w n) < 2 ^ (8 * w)"
proof -
  assume w: "w \<in> {1, 2}"
  have "length (take w (drop (w * n) (sv_storage v))) \<le> w" by simp
  then have "read_lane v w n = take_bit (8 * w) (read_lane v w n)"
    using w by (intro bit_word_eqI) (auto simp: read_lane_def bit_get_le bit_take_bit_iff)
  then have "uint (read_lane v w n) = take_bit (8 * w) (uint (read_lane v w n))"
    by (metis unsigned_take_bit_eq)
  then show ?thesis by (metis take_bit_int_less_exp)
qed

lemma masked_int:
  assumes w: "w \<in> {1, 2}" and c: "lane_min t w \<le> c" "c \<le> lane_max t w"
  shows "lane_int t w (word_of_int c AND mask_for w) = c"
proof -
  let ?v = "word_of_int c AND mask_for w :: u64"
  have "?v = take_bit (8 * w) (word_of_int c)"
    using mask_take_bit(2) [of w] w by (auto simp: take_bit_eq_mask)
  then have u: "uint ?v = c mod 2 ^ (8 * w)"
    using w by (simp add: unsigned_take_bit_eq uint_word_of_int_eq min_def) (auto simp: take_bit_eq_mod)
  then have b: "uint ?v < 2 ^ (8 * w)" by simp
  show ?thesis
  proof (cases "0 \<le> c")
    case True
    have "lane_max t w < 2 ^ (8 * w)" using w by (auto simp: lane_max_def)
    then have "c mod 2 ^ (8 * w) = c" using True c by (intro mod_pos_pos_trivial) linarith+
    with u b c w show ?thesis
      by (auto simp: lane_int_def signed_lane_int lane_max_def)
  next
    case False
    then have s: "vector_signed t" using c by (auto simp: lane_min_def split: if_splits)
    have "(c + 2 ^ (8 * w)) mod 2 ^ (8 * w) = c + 2 ^ (8 * w)"
      using False c s w by (intro mod_pos_pos_trivial) (auto simp: lane_min_def)
    then have "uint ?v = c + 2 ^ (8 * w)" using u by simp
    with s b c w show ?thesis
      by (auto simp: lane_int_def signed_lane_int lane_min_def)
  qed
qed

lemma saturate_types:
  assumes "op = OVec1 O_VAddSat \<or> op = OVec1 O_VSubSat" "vector_types op dest [a, b]"
  shows "valid_type a \<and> is_vector a \<and> b = a \<and> dest = a \<and> \<not> float_source a \<and> 16 div type_lanes a \<in> {1, 2}"
proof -
  have r: "vector_rule_of op = Some VR_Saturate" "\<not> vector_comparison op"
    using assms(1) by (auto simp: vector_rule_of_def vector_comparison_def)
  have t: "valid_type a" "is_vector a" "b = a" "dest = a" "is_integer (vector_lane_type a)" "128 div type_lanes a \<le> 16"
    using assms(2) r(2) unfolding vector_types_def r(1) option.case Let_def by (simp_all split: if_splits)
  from t(1,2) have "type_lanes a \<in> {2, 4, 8, 16}" by (auto elim: valid_vectorE)
  with t vector_lane_kind show ?thesis by auto
qed

lemma integer_lane_saturate:
  assumes "op = OVec1 O_VAddSat \<or> op = OVec1 O_VSubSat" "w \<in> {1, 2}" "uint a < 2 ^ (8 * w)" "uint b < 2 ^ (8 * w)"
  shows "integer_lane op w (vector_signed t) values a b = Inr (word_of_int (clamp
    (if op = OVec1 O_VAddSat then lane_int t w a + lane_int t w b else lane_int t w a - lane_int t w b)
    (lane_min t w) (lane_max t w)))"
proof -
  have small: "sint v = uint v" if "uint v < 2 ^ (8 * w)" for v :: u64
  proof -
    have "uint v < 65536" using that assms(2) by auto
    moreover have "- (2 ^ (LENGTH(64) - 1)) \<le> uint v" by (rule order_trans [of _ 0]) simp_all
    ultimately have "sint (word_of_int (uint v) :: u64) = uint v"
      by (intro sint_word_of_int_range) (simp_all del: word_of_int_uint)
    then show ?thesis by simp
  qed
  have "sint (mask_for w) = 2 ^ (8 * w) - 1"
    using assms(2) by (auto simp: mask_for_def)
  with small [OF assms(3)] small [OF assms(4)] assms(1) show ?thesis
    by (auto simp: integer_lane_def saturate_bounds_def lane_int_def lane_min_def lane_max_def mult.commute Let_def)
qed

text \<open>C25: saturating addition and subtraction deliver, in every lane, the exact sum or difference of
  the lanes clamped to the range of the lane type.\<close>

theorem saturating_lanes_clamp:
  assumes op: "op = OVec1 O_VAddSat \<or> op = OVec1 O_VSubSat"
    and ev: "evaluate_vector h op dest [x, y] = Inr r"
    and n: "n < type_lanes (sv_type x)" and width: "width = 16 div type_lanes (sv_type x)"
  shows "lane_int dest width (read_lane r width n) =
    clamp (if op = OVec1 O_VAddSat
           then lane_int (sv_type x) width (read_lane x width n) + lane_int (sv_type y) width (read_lane y width n)
           else lane_int (sv_type x) width (read_lane x width n) - lane_int (sv_type y) width (read_lane y width n))
      (lane_min dest width) (lane_max dest width)"
proof -
  have t: "vector_types op dest [sv_type x, sv_type y]"
    using ev by (auto simp: evaluate_vector_def vector_error_def split: if_splits)
  note s = saturate_types [OF op t]
  have lop: "op \<in> set lane_ops" using op by (auto simp: lane_ops_def)
  have w: "width \<in> {1, 2}" using s width by simp
  obtain bits where bits: "lane_bits h op (sv_type x) width [x, y] (read_lane x width n) (read_lane y width n) = Inr bits"
    "read_lane r width n = bits AND mask_for width"
    using vector_lanewise [OF lop ev, of width n] n width s by auto
  have "lane_bits h op (sv_type x) width [x, y] (read_lane x width n) (read_lane y width n) =
      integer_lane op width (vector_signed (sv_type x)) [x, y] (read_lane x width n) (read_lane y width n)"
    using op s by (auto simp: lane_bits_def vector_comparison_def vector_rule_of_def Let_def)
  moreover note integer_lane_saturate [OF op w uint_lane [OF w] uint_lane [OF w], of "sv_type x" "[x, y]" x n y n]
  ultimately have "bits = word_of_int (clamp (if op = OVec1 O_VAddSat
           then lane_int (sv_type x) width (read_lane x width n) + lane_int (sv_type x) width (read_lane y width n)
           else lane_int (sv_type x) width (read_lane x width n) - lane_int (sv_type x) width (read_lane y width n))
      (lane_min (sv_type x) width) (lane_max (sv_type x) width))"
    using bits(1) by (metis Inr_inject)
  moreover have "lane_min (sv_type x) width \<le> lane_max (sv_type x) width" by (auto simp: lane_min_def lane_max_def)
  ultimately show ?thesis
    using masked_int [OF w, of "sv_type x"] clamp_range s bits(2) by simp
qed

text \<open>A host whose floating types have one value, to apply the integer properties.\<close>

definition point_fp :: "nat \<Rightarrow> unit lane_fp" where
  "point_fp n = \<lparr>lf_bytes = n, lf_of_bits = (\<lambda>_. ()), lf_to_bits = (\<lambda>_. 0), lf_add = (\<lambda>_ _. ()), lf_sub = (\<lambda>_ _. ()),
    lf_mul = (\<lambda>_ _. ()), lf_div = (\<lambda>_ _. ()), lf_sqrt = id, lf_ceil = id, lf_floor = id, lf_trunc = id, lf_fabs = id,
    lf_fmod = (\<lambda>_ _. ()), lf_copysign = (\<lambda>_ _. ()), lf_less = (\<lambda>_ _. False), lf_eq = (\<lambda>_ _. True),
    lf_isnan = (\<lambda>_. False), lf_isfinite = (\<lambda>_. True), lf_zero = (), lf_half = (), lf_one = (), lf_two = ()\<rparr>"

definition point_host :: "(unit, unit) host_simd" where
  "point_host = \<lparr>simd_float = point_fp 4, simd_double = point_fp 8, simd_widen = id, simd_shorten = id,
    simd_of_signed = (\<lambda>_. ()), simd_of_unsigned = (\<lambda>_. ()), simd_at_most = (\<lambda>_ _. False),
    simd_at_least = (\<lambda>_ _. False), simd_to_int = (\<lambda>_. 0)\<rparr>"

definition splat_i8 :: "u8 \<Rightarrow> scalar_value" where
  "splat_i8 b = \<lparr>sv_type = vector128 E_I8 16, sv_storage = replicate 16 b\<rparr>"

lemma splat_i8_types:
  "vector_types (OVec1 O_VAddSat) (vector128 E_I8 16) (map sv_type [splat_i8 a, splat_i8 b])"
  by (simp add: vector_types_def vector_rule_of_def splat_i8_def valid_type_def vector_comparison_def is_integer_def
      vector_lane_type_def all_kinds_def)

theorem saturating_lanes_clamp_witness:
  "\<exists>r. evaluate_vector point_host (OVec1 O_VAddSat) (vector128 E_I8 16) [splat_i8 100, splat_i8 100] = Inr r \<and>
    lane_int (vector128 E_I8 16) 1 (read_lane r 1 3) = 127"
proof -
  obtain r where r: "evaluate_vector point_host (OVec1 O_VAddSat) (vector128 E_I8 16) [splat_i8 100, splat_i8 100] = Inr r"
    using evaluate_lane_op_returns [OF _ splat_i8_types, of 100 100 point_host] by (auto simp: lane_ops_def)
  have s: "vector_signed (vector128 E_I8 16)"
    by (simp add: vector_signed_def is_integer_def vector_lane_type_def all_kinds_def)
  have "sint (signed_lane (read_lane (splat_i8 100) 1 3) 1) = 100"
    using signed_lane_int [of 1 "read_lane (splat_i8 100) 1 3"]
    by (simp add: read_lane_def splat_i8_def)
  with saturating_lanes_clamp [OF _ r, of 3 1] r s show ?thesis
    by (simp add: splat_i8_def lane_int_def lane_max_def lane_min_def clamp_def)
qed

text \<open>C26: a well-typed lane operation never fails, so the evaluator's fall-through error is
  unreachable, and its result is a full vector of the destination type.\<close>

theorem vector_lane_ops_total:
  assumes "op \<in> set lane_ops" "vector_types op dest (map sv_type values)" "values \<noteq> []" "length values \<le> 3"
  shows "\<exists>r. evaluate_vector h op dest values = Inr r \<and> sv_type r = dest \<and> valid_type dest \<and> is_vector dest \<and> sv_wf r"
proof -
  obtain v vs where vs_eq: "values = v # vs" using assms(3) by (cases "values") auto
  have l: "type_lanes (sv_type (values ! 0)) \<in> {2, 4, 8, 16}" "is_vector dest"
    using lane_ops_shape [OF assms(1), of dest "sv_type v" "map sv_type vs"] assms(2) by (simp_all add: vs_eq)
  then have "0 < type_lanes (sv_type (values ! 0))" by auto
  moreover obtain r where "evaluate_vector h op dest values = Inr r"
    using evaluate_lane_op_returns [OF assms] by blast
  ultimately show ?thesis
    using vector_lanewise [OF assms(1) _ refl, of h dest "values" r 0] vector_types_valid [OF assms(2)] l(2)
    by (auto simp: sv_wf_def)
qed

theorem vector_lane_ops_total_witness:
  "\<exists>r. evaluate_vector point_host (OVec1 O_VAddSat) (vector128 E_I8 16) [splat_i8 1, splat_i8 2] = Inr r \<and>
    sv_type r = vector128 E_I8 16 \<and> sv_wf r"
  using vector_lane_ops_total [OF _ splat_i8_types, of 1 2 point_host] by (auto simp: lane_ops_def)

lemma uint_masked: "w \<in> {1, 2, 4, 8} \<Longrightarrow> uint (v AND mask_for w) = uint v mod 2 ^ (8 * w)" for v :: u64
proof -
  assume "w \<in> {1, 2, 4, 8}"
  from mask_take_bit(2) [OF this] have "v AND mask_for w = take_bit (8 * w) v" by (simp only: take_bit_eq_mask)
  then have "uint (v AND mask_for w) = take_bit (8 * w) (uint v)" by (simp only: unsigned_take_bit_eq)
  then show ?thesis by (simp only: take_bit_eq_mod)
qed

lemma word_arith_mod:
  assumes "k \<le> 64"
  shows "uint (a + b :: u64) mod 2 ^ k = (uint a + uint b) mod 2 ^ k"
    "uint (a - b :: u64) mod 2 ^ k = (uint a - uint b) mod 2 ^ k"
    "uint (a * b :: u64) mod 2 ^ k = (uint a * uint b) mod 2 ^ k"
proof -
  have "(2::int) ^ k dvd 18446744073709551616" using le_imp_power_dvd [OF assms, of "2::int"] by simp
  then show "uint (a + b :: u64) mod 2 ^ k = (uint a + uint b) mod 2 ^ k"
    "uint (a - b :: u64) mod 2 ^ k = (uint a - uint b) mod 2 ^ k"
    "uint (a * b :: u64) mod 2 ^ k = (uint a * uint b) mod 2 ^ k"
    by (simp_all add: uint_word_ariths mod_mod_cancel)
qed

lemma uint_mask_for: "w \<in> {1, 2, 4, 8} \<Longrightarrow> uint (mask_for w) = 2 ^ (8 * w) - 1"
  by (auto simp: mask_for_def mask_eq_exp_minus_1 unsigned_minus_1_eq_mask mask_numeral)

text \<open>C24: on integer vectors, addition, subtraction and multiplication are exact modulo the lane
  width, and each of the six comparisons fills the lane with ones exactly when the integers of the two lanes,
  signed or unsigned by the type of the source, stand in its relation, and with zeros otherwise.\<close>

theorem integer_lanes_exact:
  assumes ev: "evaluate_vector h op dest [x, y] = Inr r" and int: "\<not> float_source (sv_type x)"
    and n: "n < type_lanes (sv_type x)" and width: "width = 16 div type_lanes (sv_type x)"
    and vec: "is_vector (sv_type y)" and lane: "i = lane_int (sv_type x) width (read_lane x width n)"
      "j = lane_int (sv_type x) width (read_lane y width n)"
  shows "(op = OVec1 O_VAdd \<longrightarrow> uint (read_lane r width n) = (uint (read_lane x width n) + uint (read_lane y width n)) mod 2 ^ (8 * width)) \<and>
    (op = OVec1 O_VSub \<longrightarrow> uint (read_lane r width n) = (uint (read_lane x width n) - uint (read_lane y width n)) mod 2 ^ (8 * width)) \<and>
    (op = OVec1 O_VMul \<longrightarrow> uint (read_lane r width n) = (uint (read_lane x width n) * uint (read_lane y width n)) mod 2 ^ (8 * width)) \<and>
    (op = OVec1 O_VEq \<longrightarrow> uint (read_lane r width n) = (if i = j then 2 ^ (8 * width) - 1 else 0)) \<and>
    (op = OVec1 O_VNe \<longrightarrow> uint (read_lane r width n) = (if i \<noteq> j then 2 ^ (8 * width) - 1 else 0)) \<and>
    (op = OVec1 O_VLt \<longrightarrow> uint (read_lane r width n) = (if i < j then 2 ^ (8 * width) - 1 else 0)) \<and>
    (op = OVec1 O_VLe \<longrightarrow> uint (read_lane r width n) = (if i \<le> j then 2 ^ (8 * width) - 1 else 0)) \<and>
    (op = OVec1 O_VGt \<longrightarrow> uint (read_lane r width n) = (if j < i then 2 ^ (8 * width) - 1 else 0)) \<and>
    (op = OVec1 O_VGe \<longrightarrow> uint (read_lane r width n) = (if j \<le> i then 2 ^ (8 * width) - 1 else 0))"
proof -
  have t: "vector_types op dest [sv_type x, sv_type y]"
    using ev by (auto simp: evaluate_vector_def vector_error_def split: if_splits)
  have lanes: "width \<in> {1, 2, 4, 8} \<and> (\<exists>bits. lane_bits h op (sv_type x) width [x, y] (read_lane x width n) (read_lane y width n) = Inr bits \<and>
      read_lane r width n = bits AND mask_for width)" if "op \<in> set lane_ops"
    using vector_lanewise [OF that ev, of width n] lane_ops_shape [OF that t] n width vec by auto
  have arith: "op \<in> set lane_ops" if "op = OVec1 O_VAdd \<or> op = OVec1 O_VSub \<or> op = OVec1 O_VMul"
    using that by (auto simp: lane_ops_def)
  have noncmp: "\<not> vector_comparison (OVec1 O_VAdd)" "\<not> vector_comparison (OVec1 O_VSub)" "\<not> vector_comparison (OVec1 O_VMul)"
    by (simp_all add: vector_comparison_def vector_rule_of_def)
  have mod: "8 * width \<le> 64" if "op \<in> set lane_ops" using lanes [OF that] by auto
  have noncmps: "vector_comparison (OVec1 v)" if "v \<in> {O_VEq, O_VNe, O_VLt, O_VLe, O_VGt, O_VGe}" for v
    using that by (auto simp: vector_comparison_def vector_rule_of_def)
  have compare: "uint (read_lane r width n) = (if compare_by op (<) (=) i j then 2 ^ (8 * width) - 1 else 0)"
    if c: "op = OVec1 v" "v \<in> {O_VEq, O_VNe, O_VLt, O_VLe, O_VGt, O_VGe}" for v
  proof -
    have "op \<in> set lane_ops" using c by (auto simp: lane_ops_def)
    then obtain bits where b: "lane_bits h op (sv_type x) width [x, y] (read_lane x width n) (read_lane y width n) = Inr bits"
      "read_lane r width n = bits AND mask_for width" and w: "width \<in> {1, 2, 4, 8}" using lanes by blast
    have "compare_by op (<) (=) (read_lane x width n) (read_lane y width n) =
        compare_by op (<) (=) (uint (read_lane x width n)) (uint (read_lane y width n))"
      by (simp add: compare_by_def word_less_def word_uint_eq_iff)
    with b(1) int c noncmps [OF c(2)] have "bits = (if compare_by op (<) (=) i j then mask_for width else 0)"
      by (auto simp: lane_bits_def lane_int_def lane)
    with b(2) uint_mask_for [OF w] show ?thesis by simp
  qed
  have relations: "compare_by (OVec1 O_VEq) (<) (=) i j = (i = j)" "compare_by (OVec1 O_VNe) (<) (=) i j = (i \<noteq> j)"
    "compare_by (OVec1 O_VLt) (<) (=) i j = (i < j)" "compare_by (OVec1 O_VLe) (<) (=) i j = (i \<le> j)"
    "compare_by (OVec1 O_VGt) (<) (=) i j = (j < i)" "compare_by (OVec1 O_VGe) (<) (=) i j = (j \<le> i)"
    by (auto simp: compare_by_def)
  show ?thesis
    using arith lanes mod noncmp compare int
    by (auto simp: lane_bits_def integer_lane_def uint_masked word_arith_mod relations)
qed

theorem integer_lanes_exact_witness:
  "(\<exists>r. evaluate_vector point_host (OVec1 O_VAdd) (vector128 E_I8 16) [splat_i8 200, splat_i8 100] = Inr r \<and>
     uint (read_lane r 1 5) = 44) \<and>
   (\<exists>r. evaluate_vector point_host (OVec1 O_VLt) (vector128 E_U8 16) [splat_i8 200, splat_i8 100] = Inr r \<and>
     uint (read_lane r 1 5) = 255) \<and>
   (\<exists>r. evaluate_vector point_host (OVec1 O_VLt) (vector128 E_U8 16) [splat_i8 100, splat_i8 100] = Inr r \<and>
     uint (read_lane r 1 5) = 0)"
proof -
  have t: "vector_types (OVec1 O_VAdd) (vector128 E_I8 16) (map sv_type [splat_i8 a, splat_i8 b])"
    "vector_types (OVec1 O_VLt) (vector128 E_U8 16) (map sv_type [splat_i8 a, splat_i8 b])" for a b
    by (auto simp: vector_types_def vector_rule_of_def splat_i8_def valid_type_def vector_comparison_def is_integer_def
      vector_lane_type_def all_kinds_def vector_mask_type_def vector_integer_def Let_def)
  have s: "vector_signed (vector128 E_I8 16)"
    by (simp add: vector_signed_def is_integer_def vector_lane_type_def all_kinds_def)
  have lane: "sint (signed_lane (read_lane (splat_i8 200) 1 5) 1) = - 56" "sint (signed_lane (read_lane (splat_i8 100) 1 5) 1) = 100"
    using signed_lane_int [of 1 "read_lane (splat_i8 200) 1 5"] signed_lane_int [of 1 "read_lane (splat_i8 100) 1 5"]
    by (simp_all add: read_lane_def splat_i8_def)
  have ev: "\<exists>r. evaluate_vector point_host (OVec1 O_VAdd) (vector128 E_I8 16) [splat_i8 a, splat_i8 b] = Inr r"
    "\<exists>r. evaluate_vector point_host (OVec1 O_VLt) (vector128 E_U8 16) [splat_i8 a, splat_i8 b] = Inr r" for a b
    using evaluate_lane_op_returns [OF _ t(1) [of a b], of point_host] evaluate_lane_op_returns [OF _ t(2) [of a b], of point_host]
    by (auto simp: lane_ops_def)
  obtain r1 r2 r3 where r: "evaluate_vector point_host (OVec1 O_VAdd) (vector128 E_I8 16) [splat_i8 200, splat_i8 100] = Inr r1"
    "evaluate_vector point_host (OVec1 O_VLt) (vector128 E_U8 16) [splat_i8 200, splat_i8 100] = Inr r2"
    "evaluate_vector point_host (OVec1 O_VLt) (vector128 E_U8 16) [splat_i8 100, splat_i8 100] = Inr r3"
    using ev [of 200 100] ev(2) [of 100 100] by auto
  have f: "\<not> float_source (sv_type (splat_i8 a))" "5 < type_lanes (sv_type (splat_i8 a))" "1 = 16 div type_lanes (sv_type (splat_i8 a))"
    "is_vector (sv_type (splat_i8 a))" for a
    by (simp_all add: splat_i8_def float_source_def is_float_def vector_lane_type_def all_kinds_def)
  have "uint (read_lane r1 1 5) = 44"
    using integer_lanes_exact [OF r(1) f refl refl] by (simp add: splat_i8_def read_lane_def)
  moreover have "uint (read_lane r2 1 5) = 255"
    using integer_lanes_exact [OF r(2) f refl refl] s lane by (simp add: lane_int_def) (simp add: splat_i8_def)
  moreover have "uint (read_lane r3 1 5) = 0"
    using integer_lanes_exact [OF r(3) f refl refl] by simp
  ultimately show ?thesis using r by simp
qed

end
