(* ===== verification/X86ABI.thy ===== *)
theory X86ABI
  imports IRTypes
begin

text \<open>
  \<open>lib/Target/X86ABI.cpp\<close>: the System V and Windows x86-64 calling conventions as pure layout
  functions.  \<open>layout_x86_arguments\<close> is the fold of \<open>place_argument\<close> over the parameter types; the
  layout record threads the stack size and the two register cursors exactly as the code does.
  Sizes are natural numbers: the code's guards keep every sum below \<open>INT64_MAX\<close>.
\<close>

section \<open>Registers\<close>

datatype abi = X86SysV | X86Windows | AArch64Linux | AArch64MacOS

datatype (plugins only: code size) x86_register = X_AX | X_CX | X_DX | X_BX | X_SP | X_BP | X_SI
    | X_DI | X_R8 | X_R9 | X_R10 | X_R11 | X_R12 | X_R13 | X_R14 | X_R15 | X_XMM0 | X_XMM1 | X_XMM2
    | X_XMM3 | X_XMM4 | X_XMM5 | X_XMM6 | X_XMM7 | X_XMM8 | X_XMM9 | X_XMM10 | X_XMM11 | X_XMM12
    | X_XMM13 | X_XMM14 | X_XMM15 | X_ST0 | X_ST1

definition all_x86 :: "x86_register list" where
  "all_x86 = [X_AX, X_CX, X_DX, X_BX, X_SP, X_BP, X_SI, X_DI, X_R8, X_R9, X_R10, X_R11, X_R12, X_R13
    , X_R14, X_R15, X_XMM0, X_XMM1, X_XMM2, X_XMM3, X_XMM4, X_XMM5, X_XMM6, X_XMM7, X_XMM8, X_XMM9
    , X_XMM10, X_XMM11, X_XMM12, X_XMM13, X_XMM14, X_XMM15, X_ST0, X_ST1]"

primrec x86_number :: "x86_register \<Rightarrow> nat" where
  "x86_number X_AX = 0" | "x86_number X_CX = 1" | "x86_number X_DX = 2"
| "x86_number X_BX = 3" | "x86_number X_SP = 4" | "x86_number X_BP = 5"
| "x86_number X_SI = 6" | "x86_number X_DI = 7" | "x86_number X_R8 = 8"
| "x86_number X_R9 = 9" | "x86_number X_R10 = 10" | "x86_number X_R11 = 11"
| "x86_number X_R12 = 12" | "x86_number X_R13 = 13" | "x86_number X_R14 = 14"
| "x86_number X_R15 = 15" | "x86_number X_XMM0 = 16" | "x86_number X_XMM1 = 17"
| "x86_number X_XMM2 = 18" | "x86_number X_XMM3 = 19" | "x86_number X_XMM4 = 20"
| "x86_number X_XMM5 = 21" | "x86_number X_XMM6 = 22" | "x86_number X_XMM7 = 23"
| "x86_number X_XMM8 = 24" | "x86_number X_XMM9 = 25" | "x86_number X_XMM10 = 26"
| "x86_number X_XMM11 = 27" | "x86_number X_XMM12 = 28" | "x86_number X_XMM13 = 29"
| "x86_number X_XMM14 = 30" | "x86_number X_XMM15 = 31" | "x86_number X_ST0 = 32"
| "x86_number X_ST1 = 33"

definition abi_supported :: "abi \<Rightarrow> bool" where
  "abi_supported a \<longleftrightarrow> a = X86SysV \<or> a = X86Windows"

definition abi_invalid :: "string \<Rightarrow> 'a result" where
  "abi_invalid m = mk_error InvalidArgument (''x86 ABI: '' @ m)"

definition integer_registers :: "abi \<Rightarrow> x86_register list" where
  "integer_registers a = (if a = X86Windows then [X_CX, X_DX, X_R8, X_R9] else [X_DI, X_SI, X_DX, X_CX, X_R8, X_R9])"

definition x86_integer_argument_register :: "abi \<Rightarrow> nat \<Rightarrow> x86_register option" where
  "x86_integer_argument_register a n =
    (if abi_supported a \<and> n < length (integer_registers a) then Some (integer_registers a ! n) else None)"

definition x86_floating_argument_register :: "abi \<Rightarrow> nat \<Rightarrow> x86_register option" where
  "x86_floating_argument_register a n =
    (if abi_supported a \<and> n < (if a = X86Windows then 4 else 8) then Some (all_x86 ! (x86_number X_XMM0 + n)) else None)"

definition x86_callee_saved_register :: "abi \<Rightarrow> x86_register \<Rightarrow> bool" where
  "x86_callee_saved_register a r \<longleftrightarrow>
    (let n = x86_number r
     in abi_supported a \<and> (r = X_BX \<or> (12 \<le> n \<and> n \<le> 15) \<or>
          (a = X86Windows \<and> (r = X_SI \<or> r = X_DI \<or> (22 \<le> n \<and> n \<le> 31)))))"

definition x86_spill_displacement :: "abi \<Rightarrow> bool \<Rightarrow> bool \<Rightarrow> ir_type \<Rightarrow> nat \<Rightarrow> int result" where
  "x86_spill_displacement a frame_pointer is_variadic t byte_offset =
    (if \<not> abi_supported a \<or> \<not> valid_type t \<or> (\<not> is_scalar t \<and> \<not> is_vector t) \<or> byte_offset mod 8 \<noteq> 0
     then abi_invalid ''invalid spill slot''
     else let sz = (if is_vector t \<or> type_kind t = K_LongDouble then 16 else 8);
              save = (if is_variadic \<and> a = X86SysV then 176 else 0)
          in if INT64_MAX - sz - save < byte_offset then abi_invalid ''spill displacement overflow''
             else Inr (if frame_pointer then - int (byte_offset + sz + save) else int byte_offset))"

definition x86_reload_register :: "abi \<Rightarrow> ir_type \<Rightarrow> bool \<Rightarrow> x86_register option" where
  "x86_reload_register a t first =
    (if \<not> abi_supported a \<or> \<not> valid_type t \<or> (\<not> is_scalar t \<and> \<not> is_vector t) \<or> type_kind t = K_LongDouble then None
     else if \<not> is_float t \<and> \<not> is_vector t then Some (if first then X_R10 else X_R11)
     else Some (if a = X86Windows then (if first then X_XMM4 else X_XMM5) else (if first then X_XMM8 else X_XMM9)))"

section \<open>Argument layout\<close>

record location =
  loc_registers :: "x86_register list"
  loc_offset :: nat
  loc_size :: nat
  loc_aggregate :: bool
  loc_by_value :: bool
  loc_indirect :: bool

record arg_layout =
  lay_arguments :: "location list"
  lay_stack :: nat
  lay_integers :: nat
  lay_floats :: nat
  lay_xmm :: nat

definition assign :: "abi \<Rightarrow> ir_type \<Rightarrow> arg_layout \<Rightarrow> x86_register option \<times> arg_layout" where
  "assign a t out =
    (let win = (a = X86Windows)
     in if type_kind t = K_LongDouble then (None, out)
        else if is_float t \<or> is_vector t
        then let out = (if win then out\<lparr>lay_integers := lay_integers out + 1\<rparr> else out)
             in (x86_floating_argument_register a (lay_floats out), out\<lparr>lay_floats := lay_floats out + 1\<rparr>)
        else let out = (if win then out\<lparr>lay_floats := lay_floats out + 1\<rparr> else out)
             in (x86_integer_argument_register a (lay_integers out), out\<lparr>lay_integers := lay_integers out + 1\<rparr>))"

text \<open>\<open>loc.registers[loc.register_count++] = *assign (t)\<close>, taken only when a register is known to be available.\<close>

definition assign_to :: "abi \<Rightarrow> ir_type \<Rightarrow> location \<times> arg_layout \<Rightarrow> location \<times> arg_layout" where
  "assign_to a t s = (case s of (loc, out) \<Rightarrow> (case assign a t out of
      (Some r, out) \<Rightarrow> (loc\<lparr>loc_registers := loc_registers loc @ [r]\<rparr>, out)
    | (None, out) \<Rightarrow> (loc, out)))"

definition integer_type :: ir_type where "integer_type = type_i64"
definition double_type :: ir_type where "double_type = mk_type K_F64"

definition assign_registers :: "abi \<Rightarrow> ir_type \<Rightarrow> location \<times> arg_layout \<Rightarrow> location \<times> arg_layout" where
  "assign_registers a t s =
    (case s of (loc, out) \<Rightarrow>
     let win = (a = X86Windows); block = (type_kind t = K_Block); c = type_bclass t in
     if block \<and> \<not> win \<and> (c = BlkClass1 \<or> c = BlkClass2)
     then let scalar = (if c = BlkClass1 then integer_type else double_type);
              available = (\<lambda>n. (if c = BlkClass1 then x86_integer_argument_register a n
                                else x86_floating_argument_register a n) \<noteq> None);
              count = (if c = BlkClass1 then lay_integers out else lay_floats out)
          in if available count \<and> (loc_size loc \<le> 8 \<or> available (count + 1))
             then let s = assign_to a scalar s in if 8 < loc_size loc then assign_to a scalar s else s
             else s
     else if block \<and> \<not> win \<and> (c = BlkClass3 \<or> c = BlkClass4)
     then if x86_integer_argument_register a (lay_integers out) \<noteq> None \<and>
             x86_floating_argument_register a (lay_floats out) \<noteq> None
          then assign_to a (if c = BlkClass3 then double_type else integer_type)
                 (assign_to a (if c = BlkClass3 then integer_type else double_type) s)
          else s
     else if \<not> block \<or> win
     then assign_to a (if block \<or> loc_indirect loc then integer_type else t) s
     else s)"

definition place_on_stack :: "abi \<Rightarrow> ir_type \<Rightarrow> location \<times> arg_layout \<Rightarrow> (location \<times> arg_layout) result" where
  "place_on_stack a t s =
    (case s of (loc, out) \<Rightarrow>
     let win = (a = X86Windows) in
     if loc_registers loc \<noteq> [] then Inr (loc, out)
     else rbind (if \<not> win \<and> is_vector t
                 then (if INT64_MAX - 15 < lay_stack out then abi_invalid ''vector stack alignment overflow''
                       else Inr (out\<lparr>lay_stack := (lay_stack out + 15) div 16 * 16\<rparr>))
                 else Inr out)
            (\<lambda>out. let loc = loc\<lparr>loc_offset := lay_stack out\<rparr>; sz = (if win then 8 else loc_size loc)
                   in if INT64_MAX - 63 - lay_stack out < sz then abi_invalid ''argument stack area overflow''
                      else Inr (loc, out\<lparr>lay_stack := lay_stack out + sz\<rparr>)))"

definition new_location :: "abi \<Rightarrow> ir_type \<Rightarrow> location" where
  "new_location a t =
    (let win = (a = X86Windows); block = (type_kind t = K_Block)
     in \<lparr>loc_registers = [], loc_offset = 0,
         loc_size = (if block then (type_size t + 7) div 8 * 8
                     else if is_vector t \<or> type_kind t = K_LongDouble then 16 else 8),
         loc_aggregate = block, loc_by_value = (block \<and> (\<not> win \<or> type_size t \<le> 8)),
         loc_indirect = (win \<and> is_vector t)\<rparr>)"

definition count_xmm :: "ir_type \<Rightarrow> arg_layout \<Rightarrow> arg_layout" where
  "count_xmm t out =
    (if is_vector t \<or> type_kind t = K_F32 \<or> type_kind t = K_F64
     then out\<lparr>lay_xmm := min 8 (lay_xmm out + 1)\<rparr> else out)"

definition place_argument :: "abi \<Rightarrow> ir_type \<Rightarrow> arg_layout \<Rightarrow> arg_layout result" where
  "place_argument a t out =
    (let block = (type_kind t = K_Block); c = type_bclass t in
     if \<not> valid_type t \<or> (\<not> is_scalar t \<and> \<not> is_vector t \<and> \<not> is_block t) then abi_invalid ''invalid parameter type''
     else if is_block t \<and> (type_size t = 0 \<or> INT64_MAX - 15 < type_size t) then abi_invalid ''invalid block size''
     else if block \<and> c \<noteq> BlkDefault \<and> (16 < type_size t \<or> ((c = BlkClass3 \<or> c = BlkClass4) \<and> type_size t \<le> 8))
     then abi_invalid ''invalid block classification''
     else rbind (place_on_stack a t (assign_registers a t (new_location a t, count_xmm t out)))
            (\<lambda>(loc, out). Inr (out\<lparr>lay_arguments := lay_arguments out @ [loc]\<rparr>)))"

fun place_arguments :: "abi \<Rightarrow> ir_type list \<Rightarrow> arg_layout \<Rightarrow> arg_layout result" where
  "place_arguments a [] out = Inr out"
| "place_arguments a (t # ts) out = rbind (place_argument a t out) (place_arguments a ts)"

definition layout_x86_arguments :: "abi \<Rightarrow> ir_type list \<Rightarrow> arg_layout result" where
  "layout_x86_arguments a types =
    (if \<not> abi_supported a then abi_invalid ''unsupported target''
     else place_arguments a types
       \<lparr>lay_arguments = [], lay_stack = (if a = X86Windows then 32 else 0), lay_integers = 0, lay_floats = 0, lay_xmm = 0\<rparr>)"

section \<open>Result layout\<close>

record result_layout =
  res_registers :: "x86_register list"
  res_integers :: nat
  res_floats :: nat
  res_x87 :: nat

fun place_results :: "ir_type list \<Rightarrow> result_layout \<Rightarrow> result_layout result" where
  "place_results [] r = Inr r"
| "place_results (t # ts) r =
    (if \<not> valid_type t \<or> (\<not> is_scalar t \<and> \<not> is_vector t) then abi_invalid ''invalid return type''
     else if is_vector t \<or> type_kind t = K_F32 \<or> type_kind t = K_F64
     then (if res_floats r = 2 then abi_invalid ''floating return registers exhausted''
           else place_results ts (r\<lparr>res_registers := res_registers r @ [if res_floats r \<noteq> 0 then X_XMM1 else X_XMM0],
                                    res_floats := res_floats r + 1\<rparr>))
     else if type_kind t = K_LongDouble
     then (if res_x87 r = 2 then abi_invalid ''x87 return registers exhausted''
           else place_results ts (r\<lparr>res_registers := res_registers r @ [if res_x87 r \<noteq> 0 then X_ST1 else X_ST0],
                                    res_x87 := res_x87 r + 1\<rparr>))
     else (if res_integers r = 2 then abi_invalid ''integer return registers exhausted''
           else place_results ts (r\<lparr>res_registers := res_registers r @ [if res_integers r \<noteq> 0 then X_DX else X_AX],
                                    res_integers := res_integers r + 1\<rparr>)))"

definition layout_x86_results :: "abi \<Rightarrow> ir_type list \<Rightarrow> x86_register list result" where
  "layout_x86_results a types =
    (if \<not> abi_supported a then abi_invalid ''unsupported target''
     else if a = X86Windows \<and> 1 < length types then abi_invalid ''Windows does not support multiple return values''
     else rbind (place_results types \<lparr>res_registers = [], res_integers = 0, res_floats = 0, res_x87 = 0\<rparr>)
            (\<lambda>r. Inr (res_registers r)))"

section \<open>Layout facts\<close>

text \<open>The registers an ABI has handed out once the cursors stand at the given counts.\<close>

definition float_registers :: "abi \<Rightarrow> x86_register list" where
  "float_registers a = map (\<lambda>n. all_x86 ! (16 + n)) [0..<if a = X86Windows then 4 else 8]"

definition handed_out :: "abi \<Rightarrow> arg_layout \<Rightarrow> x86_register set" where
  "handed_out a out =
    set (take (lay_integers out) (integer_registers a)) \<union> set (take (lay_floats out) (float_registers a))"

definition argument_registers :: "arg_layout \<Rightarrow> x86_register list" where
  "argument_registers out = concat (map loc_registers (lay_arguments out))"

text \<open>The stack slots of a layout, as (offset, bytes), in argument order; a Windows slot is one word.\<close>

definition stack_slots :: "abi \<Rightarrow> location list \<Rightarrow> (nat \<times> nat) list" where
  "stack_slots a ls =
    map (\<lambda>l. (loc_offset l, if a = X86Windows then 8 else loc_size l)) (filter (\<lambda>l. loc_registers l = []) ls)"

definition slots_ok :: "nat \<Rightarrow> (nat \<times> nat) list \<Rightarrow> nat \<Rightarrow> bool" where
  "slots_ok lo ss hi \<longleftrightarrow>
    sorted_wrt (\<lambda>x y. fst x + snd x \<le> fst y) ss \<and> list_all (\<lambda>x. lo \<le> fst x \<and> 8 dvd fst x \<and> fst x + snd x \<le> hi) ss"

definition shadow_space :: "abi \<Rightarrow> nat" where
  "shadow_space a = (if a = X86Windows then 32 else 0)"

definition layout_inv :: "abi \<Rightarrow> arg_layout \<Rightarrow> bool" where
  "layout_inv a out \<longleftrightarrow>
    distinct (argument_registers out) \<and> set (argument_registers out) \<subseteq> handed_out a out \<and>
    slots_ok (shadow_space a) (stack_slots a (lay_arguments out)) (lay_stack out) \<and>
    8 dvd lay_stack out \<and> shadow_space a \<le> lay_stack out"

lemma integer_registers_distinct: "distinct (integer_registers a)"
  by (simp add: integer_registers_def)

lemma float_registers_eq:
  "float_registers a = (if a = X86Windows then [X_XMM0, X_XMM1, X_XMM2, X_XMM3]
     else [X_XMM0, X_XMM1, X_XMM2, X_XMM3, X_XMM4, X_XMM5, X_XMM6, X_XMM7])"
  by (simp add: float_registers_def all_x86_def upt_rec numeral_eq_Suc)

lemma float_registers_distinct: "distinct (float_registers a)"
  by (simp add: float_registers_eq)

lemma registers_apart: "set (integer_registers a) \<inter> set (float_registers a) = {}"
  by (simp add: float_registers_eq integer_registers_def)

lemma x86_integer_argument_register_eq:
  "x86_integer_argument_register a n = Some r \<longleftrightarrow>
    abi_supported a \<and> n < length (integer_registers a) \<and> r = integer_registers a ! n"
  by (auto simp: x86_integer_argument_register_def)

lemma x86_floating_argument_register_eq:
  "x86_floating_argument_register a n = Some r \<longleftrightarrow>
    abi_supported a \<and> n < length (float_registers a) \<and> r = float_registers a ! n"
  by (auto simp: x86_floating_argument_register_def float_registers_def)

lemma nth_fresh_take:
  assumes "distinct xs" "n < length xs"
  shows "xs ! n \<notin> set (take n xs)"
  using assms by (metis distinct_take not_distinct_conv_prefix take_Suc_conv_app_nth distinct_append
      disjoint_insert(1) list.simps(15) inf_commute)

lemma set_take_mono: "m \<le> n \<Longrightarrow> set (take m xs) \<subseteq> set (take n xs)"
  by (simp add: set_take_subset_set_take)

lemma assign_result:
  assumes "assign a t out = (q, out')"
  shows "lay_arguments out' = lay_arguments out" "lay_stack out' = lay_stack out"
    "handed_out a out \<subseteq> handed_out a out'"
    "\<And>r. q = Some r \<Longrightarrow> r \<in> handed_out a out' \<and> r \<notin> handed_out a out"
proof -
  show "lay_arguments out' = lay_arguments out" "lay_stack out' = lay_stack out"
    using assms by (auto simp: assign_def Let_def split: if_splits)
  show "handed_out a out \<subseteq> handed_out a out'"
    using assms set_take_mono [of "lay_integers out" "lay_integers out'" "integer_registers a"]
      set_take_mono [of "lay_floats out" "lay_floats out'" "float_registers a"]
    by (auto simp: assign_def Let_def handed_out_def split: if_splits)
  fix r assume q: "q = Some r"
  have I: "integer_registers a ! n \<notin> set (take n (integer_registers a))" if "n < length (integer_registers a)" for n
    using nth_fresh_take [OF integer_registers_distinct that] .
  have F: "float_registers a ! n \<notin> set (take n (float_registers a))" if "n < length (float_registers a)" for n
    using nth_fresh_take [OF float_registers_distinct that] .
  have IF: "x \<notin> set (float_registers a)" if "x \<in> set (integer_registers a)" for x
    using registers_apart that by blast
  show "r \<in> handed_out a out' \<and> r \<notin> handed_out a out"
  proof (cases "is_float t \<or> is_vector t")
    case True
    then have n: "lay_floats out < length (float_registers a)" and r: "r = float_registers a ! lay_floats out"
      and o: "lay_floats out' = lay_floats out + 1"
      using assms q by (auto simp: assign_def Let_def x86_floating_argument_register_eq split: if_splits)
    from n have "r \<in> set (take (lay_floats out') (float_registers a))"
      by (simp add: r o take_Suc_conv_app_nth)
    moreover have "r \<notin> set (take (lay_integers out) (integer_registers a))"
      using IF n r by (metis in_set_takeD nth_mem)
    ultimately show ?thesis using F [OF n] by (simp add: handed_out_def r)
  next
    case False
    then have n: "lay_integers out < length (integer_registers a)" and r: "r = integer_registers a ! lay_integers out"
      and o: "lay_integers out' = lay_integers out + 1"
      using assms q by (auto simp: assign_def Let_def x86_integer_argument_register_eq split: if_splits)
    from n have "r \<in> set (take (lay_integers out') (integer_registers a))"
      by (simp add: r o take_Suc_conv_app_nth)
    moreover have "r \<notin> set (take (lay_floats out) (float_registers a))"
      using IF n r by (metis in_set_takeD nth_mem)
    ultimately show ?thesis using I [OF n] by (simp add: handed_out_def r)
  qed
qed

text \<open>What one step of register assignment keeps of a pair of a location and a layout.\<close>

definition step_ok :: "abi \<Rightarrow> x86_register set \<Rightarrow> location \<times> arg_layout \<Rightarrow> location \<times> arg_layout \<Rightarrow> bool" where
  "step_ok a U s s' \<longleftrightarrow>
    lay_arguments (snd s') = lay_arguments (snd s) \<and> lay_stack (snd s') = lay_stack (snd s) \<and>
    (distinct (loc_registers (fst s)) \<and> set (loc_registers (fst s)) \<subseteq> handed_out a (snd s) \<and>
     U \<subseteq> handed_out a (snd s) \<and> set (loc_registers (fst s)) \<inter> U = {} \<longrightarrow>
     distinct (loc_registers (fst s')) \<and> set (loc_registers (fst s')) \<subseteq> handed_out a (snd s') \<and>
     U \<subseteq> handed_out a (snd s') \<and> set (loc_registers (fst s')) \<inter> U = {}) \<and>
    loc_size (fst s') = loc_size (fst s) \<and> loc_offset (fst s') = loc_offset (fst s)"

lemma step_ok_refl [simp]: "step_ok a U s s"
  by (simp add: step_ok_def)

lemma step_ok_trans: "step_ok a U s s' \<Longrightarrow> step_ok a U s' s'' \<Longrightarrow> step_ok a U s s''"
  by (simp add: step_ok_def)

lemma assign_to_ok: "step_ok a U s (assign_to a t s)"
proof -
  obtain loc out where s: "s = (loc, out)" by (cases s)
  obtain q out' where as: "assign a t out = (q, out')" by (cases "assign a t out")
  note A = assign_result [OF as]
  show ?thesis
    using A(1-3) A(4) by (cases q) (auto simp: step_ok_def assign_to_def s as)
qed

lemma assign_twice_ok: "step_ok a U s (assign_to a t (assign_to a t' s))"
  using step_ok_trans [OF assign_to_ok assign_to_ok] .

lemma assign_registers_ok: "step_ok a U s (assign_registers a t s)"
  by (cases s) (simp add: assign_registers_def Let_def assign_to_ok assign_twice_ok split: if_split)

lemma slots_ok_snoc:
  "slots_ok lo ss m \<Longrightarrow> lo \<le> m \<Longrightarrow> m \<le> p \<Longrightarrow> 8 dvd p \<Longrightarrow> p + n \<le> hi \<Longrightarrow> slots_ok lo (ss @ [(p, n)]) hi"
  by (fastforce simp: slots_ok_def sorted_wrt_append list_all_iff)

lemma slots_ok_mono: "slots_ok lo ss m \<Longrightarrow> m \<le> hi \<Longrightarrow> slots_ok lo ss hi"
  by (fastforce simp: slots_ok_def list_all_iff)

lemma handed_out_simps [simp]:
  "handed_out a (out\<lparr>lay_stack := n\<rparr>) = handed_out a out"
  "handed_out a (out\<lparr>lay_arguments := ls\<rparr>) = handed_out a out"
  "handed_out a (out\<lparr>lay_xmm := n\<rparr>) = handed_out a out"
  by (simp_all add: handed_out_def)

lemma place_on_stack_ok:
  assumes "place_on_stack a t (loc, out) = Inr (loc', out')" "8 dvd loc_size loc" "8 dvd lay_stack out"
  shows "loc_registers loc' = loc_registers loc" "lay_arguments out' = lay_arguments out"
    "lay_stack out \<le> lay_stack out'" "8 dvd lay_stack out'" "handed_out a out' = handed_out a out"
    "loc_registers loc = [] \<Longrightarrow> lay_stack out \<le> loc_offset loc' \<and> 8 dvd loc_offset loc' \<and>
       loc_offset loc' + (if a = X86Windows then 8 else loc_size loc') \<le> lay_stack out'"
proof -
  have al: "8 dvd (n + 15) div 16 * 16" "n \<le> (n + 15) div 16 * 16" for n :: nat
    by (simp add: dvd_mult) presburger
  note D = assms(1) [unfolded place_on_stack_def Let_def abi_invalid_def]
  show "loc_registers loc' = loc_registers loc" "lay_arguments out' = lay_arguments out"
    "handed_out a out' = handed_out a out"
    using D by (auto simp: rbind_eq_Inr split: if_splits)
  show "lay_stack out \<le> lay_stack out'" "8 dvd lay_stack out'"
    using D assms(2,3) al [of "lay_stack out"] by (auto simp: rbind_eq_Inr split: if_splits)
  show "lay_stack out \<le> loc_offset loc' \<and> 8 dvd loc_offset loc' \<and>
       loc_offset loc' + (if a = X86Windows then 8 else loc_size loc') \<le> lay_stack out'" if "loc_registers loc = []"
    using D assms(2,3) al [of "lay_stack out"] that by (auto simp: rbind_eq_Inr split: if_splits)
qed

lemma place_argument_inv:
  assumes inv: "layout_inv a out" and p: "place_argument a t out = Inr out'"
  shows "layout_inv a out'" "length (lay_arguments out') = length (lay_arguments out) + 1"
proof -
  define loc0 where "loc0 = new_location a t"
  define out0 where "out0 = count_xmm t out"
  obtain loc1 out1 where s1: "assign_registers a t (loc0, out0) = (loc1, out1)" by fastforce
  from p obtain loc2 out2 where s2: "place_on_stack a t (loc1, out1) = Inr (loc2, out2)"
    and o': "out' = out2\<lparr>lay_arguments := lay_arguments out2 @ [loc2]\<rparr>"
    by (auto simp: place_argument_def Let_def abi_invalid_def rbind_eq_Inr loc0_def [symmetric] out0_def [symmetric]
        s1 split: if_splits)
  have out0: "lay_arguments out0 = lay_arguments out" "lay_stack out0 = lay_stack out" "handed_out a out0 = handed_out a out"
    by (simp_all add: out0_def count_xmm_def)
  have R: "step_ok a (set (argument_registers out)) (loc0, out0) (loc1, out1)"
    using assign_registers_ok [of a _ "(loc0, out0)" t] s1 by simp
  have loc1: "lay_arguments out1 = lay_arguments out" "lay_stack out1 = lay_stack out" "loc_size loc1 = loc_size loc0"
    "distinct (loc_registers loc1)" "set (loc_registers loc1) \<subseteq> handed_out a out1"
    "set (argument_registers out) \<subseteq> handed_out a out1" "set (loc_registers loc1) \<inter> set (argument_registers out) = {}"
    using R inv by (simp_all add: step_ok_def out0 layout_inv_def loc0_def new_location_def Let_def)
  have "8 dvd loc_size loc1" by (simp add: loc1 loc0_def new_location_def Let_def)
  moreover have "8 dvd lay_stack out1" using inv by (simp add: loc1 layout_inv_def)
  ultimately have S: "loc_registers loc2 = loc_registers loc1" "lay_arguments out2 = lay_arguments out"
      "lay_stack out \<le> lay_stack out2" "8 dvd lay_stack out2" "handed_out a out2 = handed_out a out1"
      "loc_registers loc1 = [] \<Longrightarrow> lay_stack out \<le> loc_offset loc2 \<and> 8 dvd loc_offset loc2 \<and>
         loc_offset loc2 + (if a = X86Windows then 8 else loc_size loc2) \<le> lay_stack out2"
    using place_on_stack_ok [OF s2] loc1(1,2) by simp_all
  show "length (lay_arguments out') = length (lay_arguments out) + 1" by (simp add: o' S)
  have slots: "slots_ok (shadow_space a) (stack_slots a (lay_arguments out')) (lay_stack out')"
  proof (cases "loc_registers loc1 = []")
    case True
    have "stack_slots a (lay_arguments out') = stack_slots a (lay_arguments out) @
        [(loc_offset loc2, if a = X86Windows then 8 else loc_size loc2)]"
      by (simp add: o' stack_slots_def S True)
    then show ?thesis
      using slots_ok_snoc [of "shadow_space a" "stack_slots a (lay_arguments out)" "lay_stack out" "loc_offset loc2"
          "if a = X86Windows then 8 else loc_size loc2" "lay_stack out2"] inv S(6) [OF True]
      by (simp add: layout_inv_def o')
  next
    case False
    then have "stack_slots a (lay_arguments out') = stack_slots a (lay_arguments out)"
      by (simp add: o' stack_slots_def S)
    then show ?thesis using inv slots_ok_mono [OF _ S(3)] by (simp add: layout_inv_def o')
  qed
  have "argument_registers out' = argument_registers out @ loc_registers loc1"
    by (simp add: o' argument_registers_def S)
  then show "layout_inv a out'"
    using inv slots loc1 S by (auto simp: layout_inv_def o')
qed

lemma place_arguments_inv:
  "layout_inv a out \<Longrightarrow> place_arguments a ts out = Inr out' \<Longrightarrow>
    layout_inv a out' \<and> length (lay_arguments out') = length (lay_arguments out) + length ts"
proof (induction ts arbitrary: out)
  case (Cons t ts)
  from Cons.prems(2) obtain o1 where "place_argument a t out = Inr o1" "place_arguments a ts o1 = Inr out'"
    by (auto simp: rbind_eq_Inr)
  with place_argument_inv [OF Cons.prems(1)] Cons.IH [of o1] show ?case by auto
qed simp

lemma layout_inv_start:
  "layout_inv a \<lparr>lay_arguments = [], lay_stack = (if a = X86Windows then 32 else 0), lay_integers = 0, lay_floats = 0, lay_xmm = 0\<rparr>"
  by (simp add: layout_inv_def argument_registers_def stack_slots_def slots_ok_def shadow_space_def)

lemma handed_out_volatile:
  "r \<in> handed_out a out \<Longrightarrow> r \<in> set (integer_registers a) \<union> set (float_registers a)"
  by (auto simp: handed_out_def dest: in_set_takeD)

lemma argument_register_volatile:
  "r \<in> set (integer_registers a) \<union> set (float_registers a) \<Longrightarrow> \<not> x86_callee_saved_register a r"
  by (auto simp: integer_registers_def float_registers_eq x86_callee_saved_register_def Let_def split: if_splits)

lemma reload_register_apart:
  "r \<in> set (integer_registers a) \<union> set (float_registers a) \<Longrightarrow> x86_reload_register a t first \<noteq> Some r"
  by (auto simp: integer_registers_def float_registers_eq x86_reload_register_def split: if_splits)

text \<open>C16: a successful argument layout places one location per parameter; no register is used twice,
  none is callee-saved or a reload scratch register; the stack slots are word-aligned, follow one
  another without overlap above the shadow space and lie inside the counted stack area.\<close>

theorem argument_layout_sound:
  "case layout_x86_arguments a types of Inl e \<Rightarrow> True
   | Inr out \<Rightarrow>
      length (lay_arguments out) = length types \<and> distinct (argument_registers out) \<and>
      list_all (\<lambda>r. \<not> x86_callee_saved_register a r \<and> x86_reload_register a t first \<noteq> Some r) (argument_registers out) \<and>
      slots_ok (shadow_space a) (stack_slots a (lay_arguments out)) (lay_stack out)"
proof (cases "layout_x86_arguments a types")
  case (Inr out)
  then have "layout_inv a out \<and> length (lay_arguments out) = length types"
    using place_arguments_inv [OF layout_inv_start, of a types out]
    by (auto simp: layout_x86_arguments_def abi_invalid_def split: if_splits)
  then show ?thesis
    using handed_out_volatile argument_register_volatile reload_register_apart Inr
    by (auto simp: layout_inv_def list_all_iff subset_iff)
qed simp

section \<open>The layout of scalar and vector parameters never fails\<close>

lemma place_on_stack_total:
  assumes "loc_size loc \<le> 16" "lay_stack out + 32 \<le> INT64_MAX - 64"
  shows "\<exists>loc' out'. place_on_stack a t (loc, out) = Inr (loc', out') \<and> lay_stack out' \<le> lay_stack out + 32"
proof -
  define up where "up = (lay_stack out + 15) div 16 * 16"
  have up: "up \<le> lay_stack out + 15" by (simp add: up_def)
  have al: "\<not> INT64_MAX - 15 < lay_stack out" using assms(2) by simp
  have fits: "\<not> INT64_MAX - 63 - m < n" if "n \<le> 16" "m \<le> lay_stack out + 15" for m n
    using that assms(2) by linarith
  consider "loc_registers loc \<noteq> []" | "loc_registers loc = []" "a = X86Windows"
    | "loc_registers loc = []" "a \<noteq> X86Windows" "is_vector t"
    | "loc_registers loc = []" "a \<noteq> X86Windows" "\<not> is_vector t" by blast
  then show ?thesis
  proof cases
    case 2
    then show ?thesis using fits [of 8 "lay_stack out"] by (simp add: place_on_stack_def)
  next
    case 3
    then show ?thesis using fits [OF assms(1) up] up al assms(1)
      by (simp add: place_on_stack_def Let_def up_def [symmetric])
  next
    case 4
    then show ?thesis using fits [OF assms(1), of "lay_stack out"] assms(1) by (simp add: place_on_stack_def Let_def)
  qed (simp add: place_on_stack_def)
qed

lemma place_argument_total:
  assumes "valid_type t" "is_scalar t \<or> is_vector t" "lay_stack out + 32 \<le> INT64_MAX - 64"
  shows "\<exists>out'. place_argument a t out = Inr out' \<and> lay_stack out' \<le> lay_stack out + 32"
proof -
  have nb: "type_kind t \<noteq> K_Block" "\<not> is_block t"
    using assms(2) by (auto simp: is_scalar_def is_integer_def is_float_def is_vector_def is_block_def)
  obtain loc1 out1 where s1: "assign_registers a t (new_location a t, count_xmm t out) = (loc1, out1)" by fastforce
  have R: "lay_stack out1 = lay_stack out" "loc_size loc1 = loc_size (new_location a t)"
    using assign_registers_ok [of a "{}" "(new_location a t, count_xmm t out)" t] s1
    by (simp_all add: step_ok_def count_xmm_def)
  have sz: "loc_size loc1 \<le> 16" using nb by (simp add: R new_location_def Let_def)
  have up: "(lay_stack out + 15) div 16 * 16 \<le> lay_stack out + 15" by simp
  obtain loc2 out2 where s2: "place_on_stack a t (loc1, out1) = Inr (loc2, out2)" "lay_stack out2 \<le> lay_stack out + 32"
    using place_on_stack_total [of loc1 out1 a t] sz assms(3) by (auto simp: R)
  then show ?thesis
    using assms(1,2) nb by (auto simp: place_argument_def Let_def s1)
qed

lemma place_arguments_total:
  "list_all (\<lambda>t. valid_type t \<and> (is_scalar t \<or> is_vector t)) ts \<Longrightarrow>
    lay_stack out + 32 * length ts + 32 \<le> INT64_MAX - 64 \<Longrightarrow> \<exists>out'. place_arguments a ts out = Inr out'"
proof (induction ts arbitrary: out)
  case (Cons t ts)
  from Cons.prems obtain o1 where o1: "place_argument a t out = Inr o1" "lay_stack o1 \<le> lay_stack out + 32"
    using place_argument_total [of t out a] by auto
  with Cons.IH [of o1] Cons.prems show ?case by auto
qed simp

text \<open>C40: on the two x86 conventions every list of fewer than two to the fifty-seven valid scalar and vector
  parameters has a layout: no branch of the placement rejects it.\<close>

theorem argument_layout_total:
  assumes "abi_supported a" "list_all (\<lambda>t. valid_type t \<and> (is_scalar t \<or> is_vector t)) types"
    "length types < 2 ^ 57"
  shows "has_value (layout_x86_arguments a types)"
  using place_arguments_total [OF assms(2), of "\<lparr>lay_arguments = [], lay_stack = (if a = X86Windows then 32 else 0),
      lay_integers = 0, lay_floats = 0, lay_xmm = 0\<rparr>" a] assms(1,3)
  by (auto simp: layout_x86_arguments_def has_value_iff)

theorem argument_layout_total_witness:
  "has_value (layout_x86_arguments X86SysV [type_i64, vector128 E_F32 4])"
  by (rule argument_layout_total) (simp_all add: abi_supported_def type_i64_def valid_type_def is_scalar_def is_integer_def)

definition results_ok :: "result_layout \<Rightarrow> bool" where
  "results_ok r \<longleftrightarrow> distinct (res_registers r) \<and> res_integers r \<le> 2 \<and> res_floats r \<le> 2 \<and> res_x87 r \<le> 2 \<and>
     set (res_registers r) = set (take (res_integers r) [X_AX, X_DX]) \<union> set (take (res_floats r) [X_XMM0, X_XMM1])
        \<union> set (take (res_x87 r) [X_ST0, X_ST1])"

lemma below_two: "(n::nat) \<le> 2 \<Longrightarrow> n \<noteq> 2 \<Longrightarrow> n = 0 \<or> n = 1"
  by auto

lemma take_pair: "n \<le> 2 \<Longrightarrow> take n [x, y] = (if n = 0 then [] else if n = 1 then [x] else [x, y])"
  by (cases n rule: nat.exhaust; simp add: take_Cons')

lemma results_ok_float:
  "results_ok r \<Longrightarrow> res_floats r \<noteq> 2 \<Longrightarrow>
    results_ok (r\<lparr>res_registers := res_registers r @ [if res_floats r \<noteq> 0 then X_XMM1 else X_XMM0], res_floats := res_floats r + 1\<rparr>)"
  using below_two [of "res_floats r"] by (auto simp: results_ok_def take_pair split: if_splits)

lemma results_ok_x87:
  "results_ok r \<Longrightarrow> res_x87 r \<noteq> 2 \<Longrightarrow>
    results_ok (r\<lparr>res_registers := res_registers r @ [if res_x87 r \<noteq> 0 then X_ST1 else X_ST0], res_x87 := res_x87 r + 1\<rparr>)"
  using below_two [of "res_x87 r"] by (auto simp: results_ok_def take_pair split: if_splits)

lemma results_ok_int:
  "results_ok r \<Longrightarrow> res_integers r \<noteq> 2 \<Longrightarrow>
    results_ok (r\<lparr>res_registers := res_registers r @ [if res_integers r \<noteq> 0 then X_DX else X_AX], res_integers := res_integers r + 1\<rparr>)"
  using below_two [of "res_integers r"] by (auto simp: results_ok_def take_pair split: if_splits)

lemma place_results_inv:
  "results_ok r \<Longrightarrow> place_results ts r = Inr r' \<Longrightarrow>
   results_ok r' \<and> length (res_registers r') = length (res_registers r) + length ts"
proof (induction ts arbitrary: r)
  case (Cons t ts)
  from Cons.prems(2) obtain r1 where "place_results ts r1 = Inr r'" "results_ok r1"
    "length (res_registers r1) = length (res_registers r) + 1"
    using results_ok_float [OF Cons.prems(1)] results_ok_x87 [OF Cons.prems(1)] results_ok_int [OF Cons.prems(1)]
    by (simp add: abi_invalid_def split: if_split_asm)
  with Cons.IH [of r1] show ?case by simp
qed simp

lemma results_ok_set: "results_ok r \<Longrightarrow> set (res_registers r) \<subseteq> {X_AX, X_DX, X_XMM0, X_XMM1, X_ST0, X_ST1}"
  by (auto simp: results_ok_def take_pair split: if_splits)

text \<open>A successful result layout gives each result its own register, one of the six return registers.\<close>

lemma result_layout_sound:
  "case layout_x86_results a types of Inl e \<Rightarrow> True
   | Inr rs \<Rightarrow> length rs = length types \<and> distinct rs \<and>
       set rs \<subseteq> {X_AX, X_DX, X_XMM0, X_XMM1, X_ST0, X_ST1} \<and> length rs \<le> (if a = X86Windows then 1 else 6)"
proof (cases "layout_x86_results a types")
  case (Inr rs)
  then obtain r where "place_results types \<lparr>res_registers = [], res_integers = 0, res_floats = 0, res_x87 = 0\<rparr> = Inr r"
    "rs = res_registers r" "a = X86Windows \<Longrightarrow> length types \<le> 1"
    by (auto simp: layout_x86_results_def abi_invalid_def rbind_eq_Inr split: if_splits)
  moreover have "results_ok \<lparr>res_registers = [], res_integers = 0, res_floats = 0, res_x87 = 0\<rparr>"
    by (simp add: results_ok_def)
  ultimately have "results_ok r" "length rs = length types" "rs = res_registers r" "a = X86Windows \<Longrightarrow> length types \<le> 1"
    using place_results_inv [of "\<lparr>res_registers = [], res_integers = 0, res_floats = 0, res_x87 = 0\<rparr>" types r] by auto
  moreover from this(1) have "length (res_registers r) \<le> card {X_AX, X_DX, X_XMM0, X_XMM1, X_ST0, X_ST1}"
    using distinct_card [of "res_registers r"] card_mono [OF _ results_ok_set [of r]] by (simp add: results_ok_def)
  ultimately show ?thesis using Inr results_ok_set [of r] by (simp add: results_ok_def)
qed simp

section \<open>Two layouts that differ from the platform document\<close>

text \<open>A long double on the System V stack is 16 bytes wide and 16-aligned by the platform document; after an
  odd number of stacked words the code places it on an 8-byte boundary.\<close>

lemma long_double_unaligned:
  "case layout_x86_arguments X86SysV [type_i64, type_i64, type_i64, type_i64, type_i64, type_i64, type_i64, mk_type K_LongDouble] of Inl e \<Rightarrow> False
   | Inr out \<Rightarrow> loc_offset (last (lay_arguments out)) = 8"
  by (simp add: layout_x86_arguments_def abi_supported_def type_i64_def valid_type_def is_scalar_def is_integer_def
      is_float_def is_block_def is_vector_def place_argument_def Let_def new_location_def count_xmm_def
      assign_registers_def assign_to_def assign_def place_on_stack_def x86_integer_argument_register_def
      integer_registers_def)

text \<open>A block of class 2 travels in an SSE register, yet the count of SSE registers for a variadic call is zero.\<close>

lemma block_not_counted:
  "case layout_x86_arguments X86SysV [block_type 8 BlkClass2] of Inl e \<Rightarrow> False
   | Inr out \<Rightarrow> argument_registers out = [X_XMM0] \<and> lay_xmm out = 0"
  by (simp add: layout_x86_arguments_def abi_supported_def block_type_def double_type_def valid_type_def is_scalar_def
      is_integer_def is_float_def is_block_def is_vector_def place_argument_def Let_def new_location_def count_xmm_def
      assign_registers_def assign_to_def assign_def place_on_stack_def x86_floating_argument_register_def
      argument_registers_def all_x86_def)

end
