(* ===== verification/TargetMachine.thy ===== *)
theory TargetMachine
  imports X86ABI Opcodes
begin

text \<open>
  \<open>lib/Target/TargetMachine.cpp\<close>, \<open>Addressing.cpp\<close> and \<open>VectorCost.cpp\<close>: the facts of the host the
  machine passes share.  The preprocessor's choice of the host is the argument \<open>host\<close>, an ABI; the size
  of \<open>long double\<close> is \<open>ld_size\<close>.  Physical registers are the numbers of the code's tables.
\<close>

section \<open>The machine\<close>

datatype architecture = ArchNative | ArchX86_64 | ArchAArch64
datatype register_bank = BankInteger | BankFloating | BankX87

record physical_register =
  pr_architecture :: architecture
  pr_encoding :: nat

record register_record =
  ri_reg :: physical_register
  ri_name :: string
  ri_bank :: register_bank
  ri_reserved :: bool

record target_machine =
  tm_architecture :: architecture
  tm_abi :: abi
  tm_registers :: "register_record list"

definition host_architecture :: "abi \<Rightarrow> architecture" where
  "host_architecture host = (if host = AArch64Linux \<or> host = AArch64MacOS then ArchAArch64 else ArchX86_64)"

definition addressing_rules :: "abi \<Rightarrow> architecture \<Rightarrow> architecture" where
  "addressing_rules host requested = (if requested = ArchNative then host_architecture host else requested)"

definition arm_names :: "string list" where
  "arm_names =
    [''r0'', ''r1'', ''r2'', ''r3'', ''r4'', ''r5'', ''r6'', ''r7'', ''r8'', ''r9'', ''r10'', ''r11'',
     ''r12'', ''r13'', ''r14'', ''r15'', ''r16'', ''r17'', ''r18'', ''r19'', ''r20'', ''r21'', ''r22'',
     ''r23'', ''r24'', ''r25'', ''r26'', ''r27'', ''r28'', ''r29'', ''r30'', ''sp'', ''v0'', ''v1'', ''v2'',
     ''v3'', ''v4'', ''v5'', ''v6'', ''v7'', ''v8'', ''v9'', ''v10'', ''v11'', ''v12'', ''v13'', ''v14'',
     ''v15'', ''v16'', ''v17'', ''v18'', ''v19'', ''v20'', ''v21'', ''v22'', ''v23'', ''v24'', ''v25'',
     ''v26'', ''v27'', ''v28'', ''v29'', ''v30'', ''v31'']"

definition x86_names :: "string list" where
  "x86_names =
    [''rax'', ''rcx'', ''rdx'', ''rbx'', ''rsp'', ''rbp'', ''rsi'', ''rdi'', ''r8'', ''r9'', ''r10'',
     ''r11'', ''r12'', ''r13'', ''r14'', ''r15'', ''xmm0'', ''xmm1'', ''xmm2'', ''xmm3'', ''xmm4'', ''xmm5'',
     ''xmm6'', ''xmm7'', ''xmm8'', ''xmm9'', ''xmm10'', ''xmm11'', ''xmm12'', ''xmm13'', ''xmm14'',
     ''xmm15'', ''st0'', ''st1'']"

definition bank_of :: "architecture \<Rightarrow> nat \<Rightarrow> register_bank" where
  "bank_of a n =
    (if a = ArchAArch64 then (if n < 32 then BankInteger else BankFloating)
     else if n < 16 then BankInteger else if n < 32 then BankFloating else BankX87)"

definition reserved_register :: "abi \<Rightarrow> nat \<Rightarrow> bool" where
  "reserved_register host n \<longleftrightarrow>
    (if host_architecture host = ArchAArch64
     then n = 29 \<or> n = 31 \<or> n = 9 \<or> n = 10 \<or> n = 48 \<or> n = 49 \<or> (host = AArch64MacOS \<and> n = 18)
     else n = 4 \<or> n = 5 \<or> n = 10 \<or> n = 11 \<or> 32 \<le> n \<or> n = (if host = X86Windows then 20 else 24) \<or>
          n = (if host = X86Windows then 21 else 25))"

definition register_names :: "architecture \<Rightarrow> string list" where
  "register_names a = (if a = ArchAArch64 then arm_names else x86_names)"

definition register_row :: "abi \<Rightarrow> nat \<Rightarrow> register_record" where
  "register_row host n =
    (let a = host_architecture host
     in \<lparr>ri_reg = \<lparr>pr_architecture = a, pr_encoding = n\<rparr>, ri_name = register_names a ! n, ri_bank = bank_of a n,
         ri_reserved = reserved_register host n\<rparr>)"

definition native_machine :: "abi \<Rightarrow> target_machine" where
  "native_machine host =
    \<lparr>tm_architecture = host_architecture host, tm_abi = host,
     tm_registers = map (register_row host) [0..<length (register_names (host_architecture host))]\<rparr>"

definition native :: "abi \<Rightarrow> architecture \<Rightarrow> target_machine result" where
  "native host requested =
    (if addressing_rules host requested \<noteq> host_architecture host
     then mk_error InvalidArgument ''cross-target machine compilation is unsupported''
     else Inr (native_machine host))"

primrec machine_name :: "abi \<Rightarrow> string" where
  "machine_name X86SysV = ''x86_64-sysv''"
| "machine_name X86Windows = ''x86_64-windows''"
| "machine_name AArch64Linux = ''aarch64-linux''"
| "machine_name AArch64MacOS = ''aarch64-macos''"

fun find_register_in :: "register_record list \<Rightarrow> string \<Rightarrow> physical_register option" where
  "find_register_in [] nm = None"
| "find_register_in (i # is) nm = (if ri_name i = nm then Some (ri_reg i) else find_register_in is nm)"

definition find_register :: "target_machine \<Rightarrow> string \<Rightarrow> physical_register result" where
  "find_register m nm =
    (case find_register_in (tm_registers m) nm of Some r \<Rightarrow> Inr r
     | None \<Rightarrow> mk_error InvalidArgument (''unknown hardware register for '' @ machine_name (tm_abi m) @ '': '' @ nm))"

definition register_info :: "target_machine \<Rightarrow> physical_register \<Rightarrow> register_record option" where
  "register_info m r =
    (if pr_architecture r = tm_architecture m \<and> pr_encoding r < length (tm_registers m)
     then Some (tm_registers m ! pr_encoding r) else None)"

definition scalar_type :: "nat \<Rightarrow> ir_type \<Rightarrow> ir_type" where
  "scalar_type ld_size t =
    (if is_vector t then t
     else if is_integer t \<or> is_block t then type_i64
     else if type_kind t = K_LongDouble \<and> ld_size = 8 then mk_type K_F64
     else t)"

definition accepts_register :: "nat \<Rightarrow> target_machine \<Rightarrow> physical_register \<Rightarrow> ir_type \<Rightarrow> bool" where
  "accepts_register ld_size m r t =
    (case register_info m r of None \<Rightarrow> False
     | Some info \<Rightarrow>
        if \<not> valid_type t \<or> (\<not> is_scalar t \<and> \<not> is_vector t \<and> \<not> is_block t) then False
        else let t = scalar_type ld_size t
             in if tm_architecture m = ArchX86_64 \<and> type_kind t = K_LongDouble then False
                else if is_float t \<or> is_vector t then ri_bank info = BankFloating else ri_bank info = BankInteger)"

definition call_clobbers :: "target_machine \<Rightarrow> physical_register \<Rightarrow> ir_type \<Rightarrow> bool" where
  "call_clobbers m r t =
    (if register_info m r = None then False
     else let n = pr_encoding r
          in if tm_architecture m = ArchAArch64
             then if n < 32 then \<not> (19 \<le> n \<and> n \<le> 28)
                  else is_vector t \<or> type_kind t = K_LongDouble \<or> \<not> (40 \<le> n \<and> n \<le> 47)
             else \<not> x86_callee_saved_register (tm_abi m) (all_x86 ! n))"

text \<open>\<open>TypeLayout\<close> as (size, alignment); the alignment of \<open>long double\<close> equals its size on the hosts.\<close>

definition type_layout :: "nat \<Rightarrow> ir_type \<Rightarrow> (nat \<times> nat) result" where
  "type_layout ld_size t =
    (if \<not> valid_type t \<or> (\<not> is_scalar t \<and> \<not> is_vector t)
     then mk_error InvalidArgument ''layout requires a scalar or vector type''
     else if is_vector t then Inr (16, 16)
     else case type_kind t of
         K_I8 \<Rightarrow> Inr (1, 1) | K_U8 \<Rightarrow> Inr (1, 1)
       | K_I16 \<Rightarrow> Inr (2, 2) | K_U16 \<Rightarrow> Inr (2, 2)
       | K_I32 \<Rightarrow> Inr (4, 4) | K_U32 \<Rightarrow> Inr (4, 4) | K_F32 \<Rightarrow> Inr (4, 4)
       | K_LongDouble \<Rightarrow> Inr (ld_size, ld_size)
       | _ \<Rightarrow> Inr (8, 8))"

definition narrow_opcode :: "opcode \<Rightarrow> opcode" where
  "narrow_opcode op =
    (case op of
       OMove x \<Rightarrow>
         (case x of
            O_LDMov \<Rightarrow> OMove O_DMov
          | _ \<Rightarrow> op)
       | OConv x \<Rightarrow>
         (case x of
            O_I2LD \<Rightarrow> OConv O_I2D
          | O_UI2LD \<Rightarrow> OConv O_UI2D
          | O_LD2I \<Rightarrow> OConv O_D2I
          | O_F2LD \<Rightarrow> OConv O_F2D
          | O_D2LD \<Rightarrow> OMove O_DMov
          | O_LD2D \<Rightarrow> OMove O_DMov
          | O_LD2F \<Rightarrow> OConv O_D2F
          | _ \<Rightarrow> op)
       | ONeg x \<Rightarrow>
         (case x of
            O_LDNeg \<Rightarrow> ONeg O_DNeg
          | _ \<Rightarrow> op)
       | OFArith x \<Rightarrow>
         (case x of
            O_LDAdd \<Rightarrow> OFArith O_DAdd
          | O_LDSub \<Rightarrow> OFArith O_DSub
          | O_LDMul \<Rightarrow> OFArith O_DMul
          | O_LDDiv \<Rightarrow> OFArith O_DDiv
          | _ \<Rightarrow> op)
       | OFCmp x \<Rightarrow>
         (case x of
            O_LDEq \<Rightarrow> OFCmp O_DEq
          | O_LDNe \<Rightarrow> OFCmp O_DNe
          | O_LDLt \<Rightarrow> OFCmp O_DLt
          | O_LDLe \<Rightarrow> OFCmp O_DLe
          | O_LDGt \<Rightarrow> OFCmp O_DGt
          | O_LDGe \<Rightarrow> OFCmp O_DGe
          | _ \<Rightarrow> op)
       | OFBranch x \<Rightarrow>
         (case x of
            O_LDBeq \<Rightarrow> OFBranch O_DBeq
          | O_LDBne \<Rightarrow> OFBranch O_DBne
          | O_LDBlt \<Rightarrow> OFBranch O_DBlt
          | O_LDBle \<Rightarrow> OFBranch O_DBle
          | O_LDBgt \<Rightarrow> OFBranch O_DBgt
          | O_LDBge \<Rightarrow> OFBranch O_DBge
          | _ \<Rightarrow> op)
       | _ \<Rightarrow> op)"

definition target_opcode :: "nat \<Rightarrow> opcode \<Rightarrow> opcode" where
  "target_opcode ld_size op = (if ld_size \<noteq> 8 then op else narrow_opcode op)"

section \<open>Addressing\<close>

fun log2_loop :: "nat \<Rightarrow> nat" where
  "log2_loop n = (if n div 2 = 0 then 0 else 1 + log2_loop (n div 2))"

declare log2_loop.simps [simp del]

primrec memory_size :: "nat \<Rightarrow> kind \<Rightarrow> nat option" where
  "memory_size ld_size K_I8 = Some 1" | "memory_size ld_size K_U8 = Some 1"
| "memory_size ld_size K_I16 = Some 2" | "memory_size ld_size K_U16 = Some 2"
| "memory_size ld_size K_I32 = Some 4" | "memory_size ld_size K_U32 = Some 4" | "memory_size ld_size K_F32 = Some 4"
| "memory_size ld_size K_Bool = Some 8" | "memory_size ld_size K_I64 = Some 8" | "memory_size ld_size K_U64 = Some 8"
| "memory_size ld_size K_Pointer = Some 8" | "memory_size ld_size K_F64 = Some 8"
| "memory_size ld_size K_LongDouble = Some ld_size"
| "memory_size ld_size K_Block = None" | "memory_size ld_size K_ReturnBlock = None"
| "memory_size ld_size K_Undef = None" | "memory_size ld_size K_Vector = None"

text \<open>The displacement is an \<open>int64_t\<close>; the signed \<open>%\<close> and \<open>/\<close> are used on nonnegative values only.\<close>

definition accepts_address :: "nat \<Rightarrow> architecture \<Rightarrow> ir_type \<Rightarrow> int \<Rightarrow> bool \<Rightarrow> nat \<Rightarrow> bool" where
  "accepts_address ld_size a t displacement indexed scale =
    (if a = ArchX86_64
     then (\<not> indexed \<or> scale = 1 \<or> scale = 2 \<or> scale = 4 \<or> scale = 8) \<and>
          - 2147483648 \<le> displacement \<and> displacement \<le> 2147483647
     else if is_vector t
     then (if indexed then displacement = 0 \<and> (scale = 1 \<or> scale = 16)
           else 0 \<le> displacement \<and> displacement mod 16 = 0 \<and> displacement div 16 < 4096)
     else case memory_size ld_size (type_kind t) of None \<Rightarrow> False
     | Some n \<Rightarrow>
        let shift = log2_loop n
        in if displacement = 0 \<and> (\<not> indexed \<or> scale = 1 \<or> scale = shift) then True
           else shift \<noteq> 0 \<and> \<not> indexed \<and> 0 \<le> displacement \<and> displacement mod int shift = 0 \<and>
                displacement div int shift < 4096)"

section \<open>Vector costs\<close>

definition vector_cost :: "architecture \<Rightarrow> opcode \<Rightarrow> ir_type \<Rightarrow> nat option" where
  "vector_cost a op t =
    (if \<not> is_vector t \<or> \<not> vector_types op t [t, t] then None
     else if op \<in> {OVec1 O_VMov, OVec1 O_VAdd, OVec1 O_VSub, OVec1 O_VAnd, OVec1 O_VOr, OVec1 O_VXor} then Some 1
     else if op = OVec1 O_VNeg
     then Some (if a = ArchAArch64 then 1 else if is_float (vector_lane_type t) then 5 else 2)
     else if op = OVec1 O_VDiv then Some 8
     else if op = OVec1 O_VMul
     then Some (if is_float (vector_lane_type t) then 1
                else if type_lanes t = 2 then (if a = ArchAArch64 then 9 else 10)
                else if type_lanes t = 4 \<and> a = ArchX86_64 then 6 else 1)
     else None)"

definition splat_cost :: "architecture \<Rightarrow> ir_type \<Rightarrow> nat" where
  "splat_cost a t = (if a = ArchAArch64 then 1 else if 8 \<le> type_lanes t then 4 else 2)"

definition scalar_cost :: "opcode \<Rightarrow> nat" where
  "scalar_cost op =
    (if op = OArith O_Mul \<or> op = OArith O_Muls then 2
     else if op = OFArith O_FDiv \<or> op = OFArith O_DDiv then 8 else 1)"

section \<open>Facts of the machine\<close>

lemma names_distinct: "distinct (register_names a)"
  by (simp add: register_names_def arm_names_def x86_names_def)

lemma length_register_names: "length (register_names a) = (if a = ArchAArch64 then 64 else 34)"
  by (simp add: register_names_def arm_names_def x86_names_def)

lemma find_register_in_nth:
  "distinct (map ri_name is) \<Longrightarrow> n < length is \<Longrightarrow> find_register_in is (ri_name (is ! n)) = Some (ri_reg (is ! n))"
  by (induction "is" arbitrary: n) (auto simp: nth_Cons split: nat.splits)

lemma native_machine_fields [simp]:
  "tm_architecture (native_machine host) = host_architecture host" "tm_abi (native_machine host) = host"
  "length (tm_registers (native_machine host)) = length (register_names (host_architecture host))"
  "n < length (register_names (host_architecture host)) \<Longrightarrow> tm_registers (native_machine host) ! n = register_row host n"
  by (simp_all add: native_machine_def)

lemma native_names: "map ri_name (tm_registers (native_machine host)) = register_names (host_architecture host)"
  by (rule nth_equalityI) (simp_all add: native_machine_def register_row_def Let_def)

lemma register_info_native:
  "register_info (native_machine host) r =
    (if pr_architecture r = host_architecture host \<and> pr_encoding r < length (register_names (host_architecture host))
     then Some (register_row host (pr_encoding r)) else None)"
  by (simp add: register_info_def)

text \<open>On the native machine every register of the table is found by its name, and its handle leads back to its row.\<close>

lemma register_lookup_roundtrip:
  "case native host requested of Inl e \<Rightarrow> host_architecture host \<noteq> addressing_rules host requested
   | Inr m \<Rightarrow> list_all (\<lambda>i. find_register m (ri_name i) = Inr (ri_reg i) \<and> register_info m (ri_reg i) = Some i) (tm_registers m)"
proof (cases "addressing_rules host requested = host_architecture host")
  case True
  let ?m = "native_machine host"
  have "find_register ?m (ri_name (tm_registers ?m ! n)) = Inr (ri_reg (tm_registers ?m ! n))"
    if "n < length (tm_registers ?m)" for n
    using find_register_in_nth [OF _ that] names_distinct [of "host_architecture host"]
    by (simp add: find_register_def native_names)
  moreover have "register_info ?m (ri_reg (tm_registers ?m ! n)) = Some (tm_registers ?m ! n)"
    if "n < length (tm_registers ?m)" for n
    using that by (simp add: register_info_native register_row_def Let_def)
  ultimately show ?thesis using True by (simp add: native_def list_all_length)
qed (simp add: native_def mk_error_def)

text \<open>The x86 register numbers are the positions in the table of the machine.\<close>

definition x86_handle :: "x86_register \<Rightarrow> physical_register" where
  "x86_handle r = \<lparr>pr_architecture = ArchX86_64, pr_encoding = x86_number r\<rparr>"

lemma all_x86_number [simp]: "all_x86 ! x86_number r = r"
  by (cases r) (simp_all add: all_x86_def)

lemma x86_number_less: "x86_number r < 34"
  by (cases r) simp_all

lemma supported_host: "abi_supported host \<Longrightarrow> host_architecture host = ArchX86_64"
  by (auto simp: abi_supported_def host_architecture_def)

lemma register_info_x86:
  "abi_supported host \<Longrightarrow> register_info (native_machine host) (x86_handle r) = Some (register_row host (x86_number r))"
  by (simp add: register_info_native x86_handle_def supported_host length_register_names x86_number_less)

lemma scalar_type_cases:
  "is_scalar t \<or> is_vector t \<Longrightarrow> is_float (scalar_type n t) \<or> is_vector (scalar_type n t) \<longleftrightarrow> is_float t \<or> is_vector t"
  by (cases "type_kind t")
    (simp_all add: scalar_type_def is_float_def is_vector_def is_integer_def is_scalar_def type_i64_def is_block_def)

lemma scalar_type_long_double: "type_kind (scalar_type n t) = K_LongDouble \<Longrightarrow> type_kind t = K_LongDouble"
  by (auto simp: scalar_type_def type_i64_def split: if_splits)

text \<open>C32: on an x86 host the two reload registers of a type, where it has them, are two different
  registers that the allocator never hands out, that belong to the bank of the type and that a call
  clobbers, so that no live value sits in them.\<close>

theorem reload_registers_reserved:
  "case (x86_reload_register host t True, x86_reload_register host t False) of
     (Some r, Some r') \<Rightarrow>
       r \<noteq> r' \<and> list_all (\<lambda>r. accepts_register ld_size (native_machine host) (x86_handle r) t \<and>
                       call_clobbers (native_machine host) (x86_handle r) t \<and>
                       map_option ri_reserved (register_info (native_machine host) (x86_handle r)) = Some True) [r, r']
   | (None, None) \<Rightarrow>
       (if abi_supported host \<and> valid_type t \<and> (is_scalar t \<or> is_vector t) then type_kind t = K_LongDouble else True)
   | _ \<Rightarrow> False"
proof (cases "\<not> abi_supported host \<or> \<not> valid_type t \<or> \<not> (is_scalar t \<or> is_vector t) \<or> type_kind t = K_LongDouble")
  case True
  then show ?thesis by (auto simp: x86_reload_register_def)
next
  case False
  then have h: "abi_supported host" "valid_type t" "is_scalar t \<or> is_vector t" "type_kind t \<noteq> K_LongDouble" by auto
  have nl: "type_kind (scalar_type ld_size t) \<noteq> K_LongDouble" using scalar_type_long_double h(4) by blast
  have nf: "is_float (scalar_type ld_size t) \<or> is_vector (scalar_type ld_size t) \<longleftrightarrow> is_float t \<or> is_vector t"
    by (rule scalar_type_cases [OF h(3)])
  have acc: "accepts_register ld_size (native_machine host) (x86_handle r) t =
      (bank_of ArchX86_64 (x86_number r) = (if is_float t \<or> is_vector t then BankFloating else BankInteger))" for r
    using h nl nf by (auto simp: accepts_register_def register_info_x86 Let_def register_row_def supported_host)
  have clob: "call_clobbers (native_machine host) (x86_handle r) t = (\<not> x86_callee_saved_register host r)" for r
    using h by (simp add: call_clobbers_def register_info_x86 Let_def supported_host) (simp add: x86_handle_def)
  have res: "map_option ri_reserved (register_info (native_machine host) (x86_handle r)) = Some (reserved_register host (x86_number r))" for r
    using h by (simp add: register_info_x86 register_row_def Let_def)
  from h(1) have "host = X86SysV \<or> host = X86Windows" by (simp add: abi_supported_def)
  then show ?thesis
    using h by (cases "is_float t \<or> is_vector t")
      (auto simp: x86_reload_register_def acc clob res bank_of_def reserved_register_def host_architecture_def
        x86_callee_saved_register_def abi_supported_def)
qed

text \<open>With a \<open>long double\<close> of 8 or 16 bytes the layout exists exactly for the valid scalar and vector
  types; its alignment is its size, a power of two of at most 16 bytes.\<close>

lemma type_layout_natural:
  "ld_size = 8 \<or> ld_size = 16 \<Longrightarrow>
    (case type_layout ld_size t of Inl e \<Rightarrow> \<not> (valid_type t \<and> (is_scalar t \<or> is_vector t))
     | Inr (n, al) \<Rightarrow> valid_type t \<and> (is_scalar t \<or> is_vector t) \<and> al = n \<and> n \<in> {1, 2, 4, 8, 16})"
  by (cases "type_kind t") (auto simp: type_layout_def mk_error_def)

text \<open>The opcodes that compute on \<open>long double\<close>, by their spelling.\<close>

definition long_double_opcode :: "opcode \<Rightarrow> bool" where
  "long_double_opcode op \<longleftrightarrow>
    (case op of OMove x \<Rightarrow> x = O_LDMov
     | OConv x \<Rightarrow> x \<in> {O_I2LD, O_UI2LD, O_LD2I, O_F2LD, O_D2LD, O_LD2F, O_LD2D}
     | ONeg x \<Rightarrow> x = O_LDNeg
     | OFArith x \<Rightarrow> x \<in> {O_LDAdd, O_LDSub, O_LDMul, O_LDDiv}
     | OFCmp x \<Rightarrow> x \<in> {O_LDEq, O_LDNe, O_LDLt, O_LDLe, O_LDGt, O_LDGe}
     | OFBranch x \<Rightarrow> x \<in> {O_LDBeq, O_LDBne, O_LDBlt, O_LDBle, O_LDBgt, O_LDBge}
     | _ \<Rightarrow> False)"

text \<open>Where \<open>long double\<close> is \<open>double\<close>, opcode selection leaves no long double operation, keeps the
  operand count rule and the control flow, and leaves every other opcode alone; with a wider long double it is the identity.\<close>

lemma target_opcode_narrows:
  "\<not> long_double_opcode (target_opcode 8 op) \<and>
   target_opcode ld_size (target_opcode ld_size op) = target_opcode ld_size op \<and>
   operand_count (instruction_descriptor (target_opcode ld_size op)) = operand_count (instruction_descriptor op) \<and>
   control_flow (instruction_descriptor (target_opcode ld_size op)) = control_flow (instruction_descriptor op) \<and>
   length (roles (instruction_descriptor (target_opcode ld_size op))) = length (roles (instruction_descriptor op)) \<and>
   (long_double_opcode op \<or> target_opcode ld_size op = op) \<and> (ld_size = 8 \<or> target_opcode ld_size op = op)"
proof (cases op)
  case (OMove x)
  then show ?thesis by (cases x) (simp_all add: target_opcode_def narrow_opcode_def long_double_opcode_def descriptor_row_def)
next
  case (OConv x)
  then show ?thesis by (cases x) (simp_all add: target_opcode_def narrow_opcode_def long_double_opcode_def descriptor_row_def)
next
  case (ONeg x)
  then show ?thesis by (cases x) (simp_all add: target_opcode_def narrow_opcode_def long_double_opcode_def descriptor_row_def)
next
  case (OFArith x)
  then show ?thesis by (cases x) (simp_all add: target_opcode_def narrow_opcode_def long_double_opcode_def descriptor_row_def)
next
  case (OFCmp x)
  then show ?thesis by (cases x) (simp_all add: target_opcode_def narrow_opcode_def long_double_opcode_def descriptor_row_def)
next
  case (OFBranch x)
  then show ?thesis by (cases x) (simp_all add: target_opcode_def narrow_opcode_def long_double_opcode_def descriptor_row_def)
qed (simp_all add: target_opcode_def narrow_opcode_def long_double_opcode_def)

section \<open>Facts of addressing and costs\<close>

lemma log2_loop_values [simp]:
  "log2_loop 1 = 0" "log2_loop (Suc 0) = 0" "log2_loop 2 = 1" "log2_loop 4 = 2" "log2_loop 8 = 3" "log2_loop 16 = 4"
  by (simp_all add: log2_loop.simps)

text \<open>The model prices exactly the legal uses of its nine operations; each costs between 1 and 10 instructions.\<close>

lemma vector_cost_legal:
  "case vector_cost a op t of
     None \<Rightarrow> \<not> (is_vector t \<and> vector_types op t [t, t] \<and>
       op \<in> OVec1 ` {O_VMov, O_VAdd, O_VSub, O_VAnd, O_VOr, O_VXor, O_VNeg, O_VDiv, O_VMul})
   | Some c \<Rightarrow> is_vector t \<and> vector_types op t [t, t] \<and> 1 \<le> c \<and> c \<le> 10"
  by (auto simp: vector_cost_def)

end
