(* ===== verification/CodeMemory.thy ===== *)
theory CodeMemory
  imports Prelude
begin

text \<open>
  \<open>lib/Execution/CodeMemory.cpp\<close>: reservation and publication of executable code.  The provider, an
  abstract class over the operating system, is a record of functions on a state of its own; addresses
  and sizes are natural numbers, and the guards that keep the code's 64-bit sums from wrapping are
  explicit.  Memory is a map from addresses to bytes.  The buffers handed to \<open>publish\<close> do not alias
  the region.
\<close>

section \<open>Slots\<close>

definition memory_invalid :: "string \<Rightarrow> 'a result" where
  "memory_invalid m = mk_error InvalidArgument (''code-memory: '' @ m)"

type_synonym slot = "nat \<times> nat"

fun slot_loop :: "nat list \<Rightarrow> nat \<Rightarrow> slot list \<Rightarrow> (slot list \<times> nat) result" where
  "slot_loop [] len slots = Inr (slots, len)"
| "slot_loop (sz # szs) len slots =
    (if sz = 0 \<or> SIZE_MAX - 15 < len then memory_invalid ''empty allocation or code size overflow''
     else let len = (len + 15) div 16 * 16
          in if SIZE_MAX - len < sz then memory_invalid ''code size overflow''
             else slot_loop szs (len + sz) (slots @ [(len, sz)]))"

definition slot_layout :: "nat list \<Rightarrow> nat \<Rightarrow> (slot list \<times> nat) result" where
  "slot_layout szs page =
    (if szs = [] then memory_invalid ''empty reservation''
     else rbind (slot_loop szs 0 [])
       (\<lambda>(slots, len). if SIZE_MAX - (page - 1) < len then memory_invalid ''mapping size overflow''
                       else Inr (slots, (len + page - 1) div page * page)))"

section \<open>Provider and regions\<close>

record mapped =
  map_data :: nat
  map_size :: nat

record 'p provider =
  pv_page_size :: nat
  pv_allocate :: "'p \<Rightarrow> nat \<Rightarrow> mapped result \<times> 'p"
  pv_release :: "'p \<Rightarrow> mapped \<Rightarrow> unit result \<times> 'p"
  pv_make_writable :: "'p \<Rightarrow> mapped \<Rightarrow> unit result \<times> 'p"
  pv_make_executable :: "'p \<Rightarrow> mapped \<Rightarrow> unit result \<times> 'p"
  pv_flush :: "'p \<Rightarrow> mapped \<Rightarrow> unit result \<times> 'p"

definition allocate_region :: "'p provider \<Rightarrow> 'p \<Rightarrow> nat \<Rightarrow> nat \<Rightarrow> mapped result \<times> 'p" where
  "allocate_region pv p len page =
    (case pv_allocate pv p len of
       (Inl e, p) \<Rightarrow> (Inl e, p)
     | (Inr m, p) \<Rightarrow>
         if map_data m = 0 \<or> map_data m mod page \<noteq> 0 \<or> map_size m \<noteq> len \<or> SIZE_MAX - map_data m < len
         then (memory_invalid ''invalid mapped region'', snd (pv_release pv p m))
         else (Inr m, p))"

section \<open>Reservations\<close>

text \<open>A reservation holds its region until publication consumes it; a moved-from one holds none.\<close>

record reservation =
  rsv_region :: "mapped option"
  rsv_slots :: "slot list"
  rsv_publication :: mapped

definition empty_mapping :: mapped where
  "empty_mapping = \<lparr>map_data = 0, map_size = 0\<rparr>"

definition reservation_size :: "reservation \<Rightarrow> nat" where
  "reservation_size r = (if rsv_region r \<noteq> None then length (rsv_slots r) else 0)"

definition reservation_address :: "reservation \<Rightarrow> nat \<Rightarrow> nat result" where
  "reservation_address r n =
    (case rsv_region r of
       Some m \<Rightarrow> if length (rsv_slots r) \<le> n then memory_invalid ''invalid or consumed reservation slot''
                 else Inr (map_data m + fst (rsv_slots r ! n))
     | None \<Rightarrow> memory_invalid ''invalid or consumed reservation slot'')"

record executable_code =
  exe_region :: mapped
  exe_offset :: nat
  exe_size :: nat

definition code_address :: "executable_code \<Rightarrow> nat" where
  "code_address c = map_data (exe_region c) + exe_offset c"

type_synonym memory = "nat \<Rightarrow> u8"

definition code_bytes :: "memory \<Rightarrow> executable_code \<Rightarrow> bytes" where
  "code_bytes mem c = map (\<lambda>i. mem (code_address c + i)) [0..<exe_size c]"

definition write_bytes :: "memory \<Rightarrow> nat \<Rightarrow> bytes \<Rightarrow> memory" where
  "write_bytes mem a bs = (\<lambda>x. if a \<le> x \<and> x < a + length bs then bs ! (x - a) else mem x)"

fun copy_buffers :: "nat \<Rightarrow> slot list \<Rightarrow> bytes list \<Rightarrow> memory \<Rightarrow> memory" where
  "copy_buffers base (s # ss) (b # bs) mem = copy_buffers base ss bs (write_bytes mem (base + fst s) b)"
| "copy_buffers base _ _ mem = mem"

definition consumed :: "reservation \<Rightarrow> reservation" where
  "consumed r = r\<lparr>rsv_region := None, rsv_slots := [], rsv_publication := empty_mapping\<rparr>"

definition publish :: "'p provider \<Rightarrow> 'p \<times> memory \<Rightarrow> reservation \<Rightarrow> bytes list \<Rightarrow>
    executable_code list result \<times> reservation \<times> 'p \<times> memory" where
  "publish pv w r buffers =
    (case w of (p, mem) \<Rightarrow>
     case rsv_region r of
       None \<Rightarrow> (memory_invalid ''invalid or consumed publication'', r, p, mem)
     | Some m \<Rightarrow>
       if length buffers \<noteq> length (rsv_slots r) then (memory_invalid ''invalid or consumed publication'', r, p, mem)
       else if map length buffers \<noteq> map snd (rsv_slots r)
       then (memory_invalid ''publication does not match reservation'', r, p, mem)
       else (case pv_make_writable pv p (rsv_publication r) of
           (Inl e, p) \<Rightarrow> (Inl e, r, snd (pv_make_executable pv p (rsv_publication r)), mem)
         | (Inr _, p) \<Rightarrow>
             let mem = copy_buffers (map_data m) (rsv_slots r) buffers mem
             in case pv_make_executable pv p (rsv_publication r) of
                  (Inl e, p) \<Rightarrow> (Inl e, r, snd (pv_make_executable pv p (rsv_publication r)), mem)
                | (Inr _, p) \<Rightarrow>
                    (case pv_flush pv p (rsv_publication r) of
                       (Inl e, p) \<Rightarrow> (Inl e, r, p, mem)
                     | (Inr _, p) \<Rightarrow>
                         (Inr (map (\<lambda>s. \<lparr>exe_region = m, exe_offset = fst s, exe_size = snd s\<rparr>) (rsv_slots r)),
                          consumed r, p, mem))))"

text \<open>\<open>CodeMemory::reserve\<close>: a mapping of its own for each batch.\<close>

definition memory_reserve :: "'p provider option \<Rightarrow> 'p \<Rightarrow> nat list \<Rightarrow> reservation result \<times> 'p" where
  "memory_reserve pvo p szs =
    (case pvo of None \<Rightarrow> (memory_invalid ''missing provider'', p)
     | Some pv \<Rightarrow>
       let page = pv_page_size pv
       in if page = 0 \<or> page mod 16 \<noteq> 0 then (memory_invalid ''invalid page size'', p)
          else case slot_layout szs page of
              Inl e \<Rightarrow> (Inl e, p)
            | Inr (slots, len) \<Rightarrow>
                (case allocate_region pv p len page of
                   (Inl e, p) \<Rightarrow> (Inl e, p)
                 | (Inr m, p) \<Rightarrow> (Inr \<lparr>rsv_region = Some m, rsv_slots = slots, rsv_publication = m\<rparr>, p)))"

section \<open>Arenas\<close>

record arena =
  ar_region :: "mapped option"
  ar_page :: nat
  ar_used :: nat

definition arena_create :: "'p provider option \<Rightarrow> 'p \<Rightarrow> nat \<Rightarrow> arena result \<times> 'p" where
  "arena_create pvo p cap =
    (case pvo of None \<Rightarrow> (memory_invalid ''missing arena provider'', p)
     | Some pv \<Rightarrow>
       let page = pv_page_size pv
       in if page = 0 \<or> page mod 16 \<noteq> 0 then (memory_invalid ''invalid arena page size'', p)
          else if cap = 0 \<or> SIZE_MAX - (page - 1) < cap then (memory_invalid ''empty arena or capacity overflow'', p)
          else case allocate_region pv p ((cap + page - 1) div page * page) page of
              (Inl e, p) \<Rightarrow> (Inl e, p)
            | (Inr m, p) \<Rightarrow> (Inr \<lparr>ar_region = Some m, ar_page = page, ar_used = 0\<rparr>, p))"

definition arena_capacity :: "arena \<Rightarrow> nat" where
  "arena_capacity a = (case ar_region a of Some m \<Rightarrow> map_size m | None \<Rightarrow> 0)"

definition arena_remaining :: "arena \<Rightarrow> nat" where
  "arena_remaining a = (case ar_region a of Some m \<Rightarrow> arena_capacity a - ar_used a | None \<Rightarrow> 0)"

definition arena_address :: "arena \<Rightarrow> nat" where
  "arena_address a = (case ar_region a of Some m \<Rightarrow> map_data m | None \<Rightarrow> 0)"

definition arena_reserve :: "arena \<Rightarrow> nat list \<Rightarrow> reservation result \<times> arena" where
  "arena_reserve a szs =
    (case ar_region a of None \<Rightarrow> (memory_invalid ''moved-from code arena'', a)
     | Some m \<Rightarrow>
       (case slot_layout szs (ar_page a) of
          Inl e \<Rightarrow> (Inl e, a)
        | Inr (slots, len) \<Rightarrow>
            if arena_remaining a < len then (memory_invalid ''code arena capacity exhausted'', a)
            else (Inr \<lparr>rsv_region = Some m, rsv_slots = map (\<lambda>s. (fst s + ar_used a, snd s)) slots,
                       rsv_publication = \<lparr>map_data = map_data m + ar_used a, map_size = len\<rparr>\<rparr>,
                  a\<lparr>ar_used := ar_used a + len\<rparr>)))"

section \<open>The layout of a batch\<close>

definition packed :: "slot list \<Rightarrow> nat \<Rightarrow> bool" where
  "packed ss hi \<longleftrightarrow>
    sorted_wrt (\<lambda>x y. fst x + snd x \<le> fst y) ss \<and>
    list_all (\<lambda>s. 16 dvd fst s \<and> 0 < snd s \<and> fst s + snd s \<le> hi) ss"

lemma packed_Nil [simp]: "packed [] hi"
  by (simp add: packed_def)

lemma packed_snoc:
  "packed ss m \<Longrightarrow> m \<le> p \<Longrightarrow> 16 dvd p \<Longrightarrow> 0 < n \<Longrightarrow> p + n \<le> hi \<Longrightarrow> packed (ss @ [(p, n)]) hi"
  by (fastforce simp: packed_def sorted_wrt_append list_all_iff)

lemma packed_mono: "packed ss m \<Longrightarrow> m \<le> hi \<Longrightarrow> packed ss hi"
  by (fastforce simp: packed_def list_all_iff)

lemma round16: "16 dvd (n + 15) div 16 * (16::nat)" "n \<le> (n + 15) div 16 * (16::nat)" "(n + 15) div 16 * (16::nat) \<le> n + 15"
  by (simp, presburger, simp)

lemma slot_loop_ok:
  "slot_loop szs len ss = Inr (ss', len') \<Longrightarrow> packed ss len \<Longrightarrow> len \<le> SIZE_MAX \<Longrightarrow>
    packed ss' len' \<and> map snd ss' = map snd ss @ szs \<and> len' \<le> SIZE_MAX"
proof (induction szs len ss rule: slot_loop.induct)
  case (2 sz szs len ss)
  let ?l = "(len + 15) div 16 * 16"
  from "2.prems"(1) have c: "sz \<noteq> 0" "len \<le> SIZE_MAX - 15" "sz \<le> SIZE_MAX - ?l"
    "slot_loop szs (?l + sz) (ss @ [(?l, sz)]) = Inr (ss', len')"
    by (auto simp: memory_invalid_def Let_def not_less split: if_splits)
  have "?l \<le> SIZE_MAX" using round16(3) [of len] c(2) by linarith
  then have "?l + sz \<le> SIZE_MAX" using c(3) by linarith
  moreover have "packed (ss @ [(?l, sz)]) (?l + sz)"
    using packed_snoc [OF "2.prems"(2) round16(2,1)] c(1) by simp
  ultimately show ?case using "2.IH" [of ?l] c by (simp add: not_less)
qed auto

lemma round_page: "0 < page \<Longrightarrow> (n + page - Suc 0) div page * page = round_up page (n::nat)"
  by (simp add: round_up_def)

lemma slot_layout_ok:
  assumes "slot_layout szs page = Inr (ss, len)" "0 < page" "16 dvd page"
  shows "packed ss len" "map snd ss = szs" "page dvd len" "0 < len" "len \<le> SIZE_MAX" "16 dvd len"
proof -
  from assms obtain n where n: "slot_loop szs 0 [] = Inr (ss, n)" "n \<le> SIZE_MAX - (page - 1)" "szs \<noteq> []"
    and len: "len = round_up page n"
    by (auto simp: slot_layout_def memory_invalid_def rbind_eq_Inr round_page [OF assms(2)] not_less split: if_splits)
  note L = slot_loop_ok [OF n(1)]
  have ge: "n \<le> len" "len < n + page" using round_up_ge [OF assms(2)] round_up_less [OF assms(2)] len by simp_all
  show "map snd ss = szs" using L by simp
  show "page dvd len" by (simp add: len)
  then show "16 dvd len" using assms(3) by (rule dvd_trans [rotated])
  show "packed ss len" using L packed_mono [OF _ ge(1)] by simp
  have "ss \<noteq> []" using L n(3) by auto
  then have pos: "0 < n" using L by (cases ss) (auto simp: packed_def)
  then show "0 < len" using ge(1) by simp
  show "len \<le> SIZE_MAX" using ge n(2) pos by linarith
qed

text \<open>A successful layout keeps the sizes in order, on 16-byte boundaries, without overlap, inside a whole
  number of pages; no sum of it passes the end of the address space.\<close>

lemma slot_layout_sound:
  assumes "0 < page" "16 dvd page"
  shows "case slot_layout szs page of Inl e \<Rightarrow> True
    | Inr (ss, len) \<Rightarrow> packed ss len \<and> map snd ss = szs \<and> page dvd len \<and> len \<le> SIZE_MAX"
  using slot_layout_ok [OF _ assms] by (auto split: sum.split)

section \<open>Publication\<close>

lemma write_bytes_outside: "x < a \<or> a + length bs \<le> x \<Longrightarrow> write_bytes mem a bs x = mem x"
  by (auto simp: write_bytes_def)

lemma copy_buffers_outside:
  "(\<And>s. s \<in> set ss \<Longrightarrow> x < base + fst s \<or> base + fst s + snd s \<le> x) \<Longrightarrow> map length bs = map snd ss \<Longrightarrow>
    copy_buffers base ss bs mem x = mem x"
proof (induction base ss bs mem rule: copy_buffers.induct)
  case (1 base s ss b bs mem)
  then show ?case using write_bytes_outside [of x "base + fst s" b mem] by (auto simp: add.assoc)
qed auto

lemma copy_buffers_inside:
  "packed ss hi \<Longrightarrow> map length bs = map snd ss \<Longrightarrow> i < length ss \<Longrightarrow> j < snd (ss ! i) \<Longrightarrow>
    copy_buffers base ss bs mem (base + fst (ss ! i) + j) = bs ! i ! j"
proof (induction base ss bs mem arbitrary: i rule: copy_buffers.induct)
  case (1 base s ss b bs mem)
  have p: "packed ss hi" "\<And>t. t \<in> set ss \<Longrightarrow> fst s + snd s \<le> fst t" using "1.prems"(1) by (auto simp: packed_def)
  show ?case
  proof (cases i)
    case 0
    have "copy_buffers base ss bs (write_bytes mem (base + fst s) b) (base + fst s + j)
        = write_bytes mem (base + fst s) b (base + fst s + j)"
      using "1.prems"(2,4) 0 p(2) by (intro copy_buffers_outside) (auto simp: add.assoc dest!: p(2))
    then show ?thesis using "1.prems"(2,4) 0 by (simp add: write_bytes_def)
  next
    case (Suc k)
    then show ?thesis using "1.IH" [of k] "1.prems" p(1) by simp
  qed
qed auto

text \<open>A reservation as \<open>reserve\<close> makes it: its slots lie, packed from the region's base, inside the
  publication range.\<close>

definition reservation_ok :: "reservation \<Rightarrow> bool" where
  "reservation_ok r \<longleftrightarrow>
    (case rsv_region r of None \<Rightarrow> rsv_slots r = []
     | Some m \<Rightarrow> packed (rsv_slots r) (map_data (rsv_publication r) - map_data m + map_size (rsv_publication r)) \<and>
         map_data m \<le> map_data (rsv_publication r) \<and>
         list_all (\<lambda>s. map_data (rsv_publication r) \<le> map_data m + fst s) (rsv_slots r))"

definition in_range :: "mapped \<Rightarrow> nat \<Rightarrow> bool" where
  "in_range m x \<longleftrightarrow> map_data m \<le> x \<and> x < map_data m + map_size m"

lemma publish_fields:
  assumes "publish pv (p, mem) r buffers = (res, r', p', mem')"
  shows "has_value res \<Longrightarrow> \<exists>m. rsv_region r = Some m \<and> map length buffers = map snd (rsv_slots r) \<and>
      mem' = copy_buffers (map_data m) (rsv_slots r) buffers mem \<and> r' = consumed r \<and>
      res = Inr (map (\<lambda>s. \<lparr>exe_region = m, exe_offset = fst s, exe_size = snd s\<rparr>) (rsv_slots r))"
    "\<not> has_value res \<Longrightarrow> r' = r"
    "mem' = mem \<or> (\<exists>m. rsv_region r = Some m \<and> map length buffers = map snd (rsv_slots r) \<and>
      mem' = copy_buffers (map_data m) (rsv_slots r) buffers mem)"
  using assms by (auto simp: publish_def memory_invalid_def mk_error_def Let_def split: option.splits if_splits prod.splits sum.splits)

lemma reservation_ok_outside:
  "reservation_ok r \<Longrightarrow> rsv_region r = Some m \<Longrightarrow> \<not> in_range (rsv_publication r) x \<Longrightarrow> s \<in> set (rsv_slots r) \<Longrightarrow>
    x < map_data m + fst s \<or> map_data m + fst s + snd s \<le> x"
  by (force simp: reservation_ok_def packed_def list_all_iff in_range_def)

text \<open>C9: publication is all or nothing: it returns either an error and the unconsumed reservation, or one
  handle per buffer whose code bytes are exactly that buffer, with the reservation consumed; in
  both cases no byte outside the publication range changes.\<close>

theorem publication_all_or_nothing:
  assumes "reservation_ok r"
  shows "case publish pv (p, mem) r buffers of
      (Inl e, r', p', mem') \<Rightarrow> r' = r \<and> {x. mem' x \<noteq> mem x} \<subseteq> {x. in_range (rsv_publication r) x}
    | (Inr handles, r', p', mem') \<Rightarrow>
        map (code_bytes mem') handles = buffers \<and> reservation_size r' = 0 \<and> \<not> has_value (reservation_address r' n) \<and>
        {x. mem' x \<noteq> mem x} \<subseteq> {x. in_range (rsv_publication r) x}"
proof -
  obtain res r' p' mem' where e: "publish pv (p, mem) r buffers = (res, r', p', mem')" by (metis prod_cases4)
  note F = publish_fields [OF e]
  have out: "{x. mem' x \<noteq> mem x} \<subseteq> {x. in_range (rsv_publication r) x}"
  proof -
    have "mem' x = mem x" if x: "\<not> in_range (rsv_publication r) x" for x
      using F(3)
    proof (elim disjE exE conjE)
      fix m assume "rsv_region r = Some m" "map length buffers = map snd (rsv_slots r)"
        "mem' = copy_buffers (map_data m) (rsv_slots r) buffers mem"
      then show ?thesis using copy_buffers_outside reservation_ok_outside [OF assms _ x] by blast
    qed simp
    then show ?thesis by blast
  qed
  show ?thesis
  proof (cases res)
    case (Inl er)
    then show ?thesis using F(2) out by (simp add: e)
  next
    case (Inr handles)
    then obtain m where m: "rsv_region r = Some m" "map length buffers = map snd (rsv_slots r)"
      "mem' = copy_buffers (map_data m) (rsv_slots r) buffers mem" "r' = consumed r"
      "handles = map (\<lambda>s. \<lparr>exe_region = m, exe_offset = fst s, exe_size = snd s\<rparr>) (rsv_slots r)"
      using F(1) by auto
    from m(2) have len: "length buffers = length (rsv_slots r)" by (metis length_map)
    have pk: "packed (rsv_slots r) (map_data (rsv_publication r) - map_data m + map_size (rsv_publication r))"
      using assms m(1) unfolding reservation_ok_def by (simp del: add_diff_assoc2)
    have "map (code_bytes mem') handles = buffers"
    proof (rule nth_equalityI)
      fix i assume "i < length (map (code_bytes mem') handles)"
      then have i: "i < length (rsv_slots r)" by (simp add: m(5))
      then have li: "length (buffers ! i) = snd (rsv_slots r ! i)" using m(2) len by (metis nth_map)
      show "map (code_bytes mem') handles ! i = buffers ! i"
        using i li copy_buffers_inside [OF pk m(2) i]
        by (intro nth_equalityI) (simp_all add: m(3,5) code_bytes_def code_address_def)
    qed (simp add: m(5) len)
    then show ?thesis using out
      by (simp add: e Inr m(4) consumed_def reservation_size_def reservation_address_def memory_invalid_def)
  qed
qed

section \<open>Arenas over time\<close>

inductive arena_history :: "'p provider option \<Rightarrow> arena \<Rightarrow> reservation list \<Rightarrow> bool" for pvo :: "'p provider option" where
  created: "arena_create pvo p cap = (Inr a, p') \<Longrightarrow> arena_history pvo a []"
| reserved: "arena_history pvo a rs \<Longrightarrow> arena_reserve a szs = (Inr r, a') \<Longrightarrow> arena_history pvo a' (rs @ [r])"
| refused: "arena_history pvo a rs \<Longrightarrow> arena_reserve a szs = (Inl e, a') \<Longrightarrow> arena_history pvo a' rs"

inductive_cases arena_historyE: "arena_history pvo a rs"

definition range_end :: "mapped \<Rightarrow> nat" where
  "range_end m = map_data m + map_size m"

definition arena_inv :: "arena \<Rightarrow> reservation list \<Rightarrow> bool" where
  "arena_inv a rs \<longleftrightarrow>
    (case ar_region a of None \<Rightarrow> False
     | Some m \<Rightarrow>
        0 < ar_page a \<and> 16 dvd ar_page a \<and> ar_page a dvd ar_used a \<and> ar_used a \<le> map_size m \<and>
        ar_page a dvd map_data m \<and> range_end m \<le> SIZE_MAX \<and>
        sorted_wrt (\<lambda>r s. range_end (rsv_publication r) \<le> map_data (rsv_publication s)) rs \<and>
        list_all (\<lambda>r. rsv_region r = Some m \<and> reservation_ok r \<and> ar_page a dvd map_data (rsv_publication r) \<and>
          ar_page a dvd map_size (rsv_publication r) \<and> map_data m \<le> map_data (rsv_publication r) \<and>
          range_end (rsv_publication r) \<le> map_data m + ar_used a) rs)"

lemma arena_inv_created: "arena_create pvo p cap = (Inr a, p') \<Longrightarrow> arena_inv a []"
proof -
  assume e: "arena_create pvo p cap = (Inr a, p')"
  then obtain pv m where h: "pvo = Some pv" "0 < pv_page_size pv" "16 dvd pv_page_size pv" "0 < cap"
    "a = \<lparr>ar_region = Some m, ar_page = pv_page_size pv, ar_used = 0\<rparr>"
    "map_data m mod pv_page_size pv = 0"
    "map_size m = (cap + pv_page_size pv - Suc 0) div pv_page_size pv * pv_page_size pv"
    "\<not> SIZE_MAX - map_data m < map_size m"
    by (auto simp: arena_create_def allocate_region_def memory_invalid_def mk_error_def Let_def
        split: option.splits if_splits prod.splits sum.splits)
  have "cap \<le> map_size m" using h(7) round_page [OF h(2)] round_up_ge [OF h(2)] by simp
  then have "map_data m + map_size m \<le> SIZE_MAX" using h(4,8) by linarith
  then show "arena_inv a []" using h(2,3,5,6) by (auto simp: arena_inv_def range_end_def)
qed

lemma arena_inv_reserved:
  assumes inv: "arena_inv a rs" and res: "arena_reserve a szs = (Inr r, a')"
  shows "arena_inv a' (rs @ [r])"
proof -
  from inv obtain m where m: "ar_region a = Some m" by (auto simp: arena_inv_def split: option.splits)
  have I: "0 < ar_page a" "16 dvd ar_page a" "ar_page a dvd ar_used a" "ar_used a \<le> map_size m"
    "ar_page a dvd map_data m" "range_end m \<le> SIZE_MAX"
    "sorted_wrt (\<lambda>r s. range_end (rsv_publication r) \<le> map_data (rsv_publication s)) rs"
    "list_all (\<lambda>r. rsv_region r = Some m \<and> reservation_ok r \<and> ar_page a dvd map_data (rsv_publication r) \<and>
          ar_page a dvd map_size (rsv_publication r) \<and> map_data m \<le> map_data (rsv_publication r) \<and>
          range_end (rsv_publication r) \<le> map_data m + ar_used a) rs"
    using inv m by (simp_all add: arena_inv_def)
  from res m obtain slots len where L: "slot_layout szs (ar_page a) = Inr (slots, len)" "len \<le> arena_remaining a"
    and r: "r = \<lparr>rsv_region = Some m, rsv_slots = map (\<lambda>s. (fst s + ar_used a, snd s)) slots,
       rsv_publication = \<lparr>map_data = map_data m + ar_used a, map_size = len\<rparr>\<rparr>"
    and a': "a' = a\<lparr>ar_used := ar_used a + len\<rparr>"
    by (auto simp: arena_reserve_def memory_invalid_def mk_error_def not_less split: sum.splits if_splits)
  note P = slot_layout_ok [OF L(1) I(1,2)]
  have fits: "ar_used a + len \<le> map_size m" using L(2) I(4) m by (simp add: arena_remaining_def arena_capacity_def)
  have al: "16 dvd ar_used a" using I(2,3) by (rule dvd_trans)
  have "packed (rsv_slots r) (ar_used a + len)"
    using P(1) al by (auto simp: r packed_def sorted_wrt_map list_all_iff)
  then have ok: "reservation_ok r" by (auto simp: reservation_ok_def r list_all_iff)
  have so: "sorted_wrt (\<lambda>r s. range_end (rsv_publication r) \<le> map_data (rsv_publication s)) (rs @ [r])"
    using I(7,8) by (auto simp: sorted_wrt_append list_all_iff r)
  have bd: "list_all (\<lambda>r. rsv_region r = Some m \<and> reservation_ok r \<and> ar_page a dvd map_data (rsv_publication r) \<and>
          ar_page a dvd map_size (rsv_publication r) \<and> map_data m \<le> map_data (rsv_publication r) \<and>
          range_end (rsv_publication r) \<le> map_data m + (ar_used a + len)) (rs @ [r])"
    using I(3,5,8) P(3) ok by (fastforce simp: list_all_iff r range_end_def)
  show ?thesis
    unfolding arena_inv_def a' using m I(1-3,5,6) fits P(3) so bd by simp
qed

lemma arena_reserve_refused: "arena_reserve a szs = (Inl e, a') \<Longrightarrow> a' = a"
  by (auto simp: arena_reserve_def split: option.splits sum.splits if_splits)

lemma arena_history_inv: "arena_history pvo a rs \<Longrightarrow> arena_inv a rs"
  by (induction rule: arena_history.induct) (auto dest: arena_inv_created arena_inv_reserved arena_reserve_refused)

text \<open>C11: whatever sequence of requests an arena serves or refuses, the page ranges it has handed out follow one
  another without overlap, each starts and ends on a page boundary inside the mapping, and the
  slots of each lie in its own range: publishing one batch never touches the pages of another.\<close>

theorem arena_batches_disjoint:
  assumes "arena_history pvo a rs"
  shows "sorted_wrt (\<lambda>r s. range_end (rsv_publication r) \<le> map_data (rsv_publication s)) rs \<and>
    list_all (\<lambda>r. reservation_ok r \<and> ar_page a dvd map_data (rsv_publication r) \<and>
      ar_page a dvd map_size (rsv_publication r) \<and> arena_address a \<le> map_data (rsv_publication r) \<and>
      range_end (rsv_publication r) \<le> arena_address a + arena_capacity a) rs"
  using arena_history_inv [OF assms]
  by (auto simp: arena_inv_def arena_address_def arena_capacity_def list_all_iff split: option.splits)

text \<open>A provider that always maps at one address and logs what it is asked for.\<close>

datatype provider_event = Allocated nat | Writable nat nat | Executable nat nat | Flushed nat nat | Released nat nat

definition logging_provider :: "nat \<Rightarrow> provider_event list provider" where
  "logging_provider base =
    \<lparr>pv_page_size = 4096,
     pv_allocate = (\<lambda>p n. (Inr \<lparr>map_data = base, map_size = n\<rparr>, p @ [Allocated n])),
     pv_release = (\<lambda>p m. (Inr (), p @ [Released (map_data m) (map_size m)])),
     pv_make_writable = (\<lambda>p m. (Inr (), p @ [Writable (map_data m) (map_size m)])),
     pv_make_executable = (\<lambda>p m. (Inr (), p @ [Executable (map_data m) (map_size m)])),
     pv_flush = (\<lambda>p m. (Inr (), p @ [Flushed (map_data m) (map_size m)]))\<rparr>"

lemma logged_arena:
  "arena_history (Some (logging_provider 8192))
     \<lparr>ar_region = Some \<lparr>map_data = 8192, map_size = 8192\<rparr>, ar_page = 4096, ar_used = 4096\<rparr>
     [\<lparr>rsv_region = Some \<lparr>map_data = 8192, map_size = 8192\<rparr>, rsv_slots = [(0, 10), (16, 3)],
       rsv_publication = \<lparr>map_data = 8192, map_size = 4096\<rparr>\<rparr>]"
proof -
  have c: "arena_create (Some (logging_provider 8192)) [] 5000 =
      (Inr \<lparr>ar_region = Some \<lparr>map_data = 8192, map_size = 8192\<rparr>, ar_page = 4096, ar_used = 0\<rparr>, [Allocated 8192])"
    by (simp add: arena_create_def logging_provider_def allocate_region_def Let_def)
  have r: "arena_reserve \<lparr>ar_region = Some \<lparr>map_data = 8192, map_size = 8192\<rparr>, ar_page = 4096, ar_used = 0\<rparr> [10, 3] =
      (Inr \<lparr>rsv_region = Some \<lparr>map_data = 8192, map_size = 8192\<rparr>, rsv_slots = [(0, 10), (16, 3)],
         rsv_publication = \<lparr>map_data = 8192, map_size = 4096\<rparr>\<rparr>,
       \<lparr>ar_region = Some \<lparr>map_data = 8192, map_size = 8192\<rparr>, ar_page = 4096, ar_used = 4096\<rparr>)"
    by (simp add: arena_reserve_def slot_layout_def Let_def arena_remaining_def arena_capacity_def)
  from arena_history.reserved [OF arena_history.created [OF c] r] show ?thesis by simp
qed

theorem arena_batches_disjoint_witness:
  "4096 dvd (8192::nat) \<and> reservation_ok \<lparr>rsv_region = Some \<lparr>map_data = 8192, map_size = 8192\<rparr>,
     rsv_slots = [(0, 10), (16, 3)], rsv_publication = \<lparr>map_data = 8192, map_size = 4096\<rparr>\<rparr>"
  using arena_batches_disjoint [OF logged_arena] by simp

theorem publication_all_or_nothing_witness:
  "case publish (logging_provider 8192) ([], \<lambda>_. 0)
      \<lparr>rsv_region = Some \<lparr>map_data = 8192, map_size = 4096\<rparr>, rsv_slots = [(0, 2)],
       rsv_publication = \<lparr>map_data = 8192, map_size = 4096\<rparr>\<rparr> [[0x90, 0xc3]] of
     (Inl e, r', p', mem') \<Rightarrow> False
   | (Inr handles, r', p', mem') \<Rightarrow> map (code_bytes mem') handles = [[0x90, 0xc3]]"
proof -
  let ?r = "\<lparr>rsv_region = Some \<lparr>map_data = 8192, map_size = 4096\<rparr>, rsv_slots = [(0, 2)],
       rsv_publication = \<lparr>map_data = 8192, map_size = 4096\<rparr>\<rparr>"
  have "reservation_ok ?r" by (simp add: reservation_ok_def packed_def)
  from publication_all_or_nothing [OF this, where pv = "logging_provider 8192" and p = "[]" and mem = "\<lambda>_. 0" and buffers = "[[0x90, 0xc3]]" and n = 0]
  show ?thesis by (simp add: publish_def logging_provider_def Let_def)
qed

section \<open>Write access\<close>

text \<open>What the operating system documents of protection changes, over the set of writable addresses: an
  attempt to open a range opens at most that range, a successful protection closes it, and
  neither a failed protection nor a flush opens anything.\<close>

definition protects :: "'p provider \<Rightarrow> ('p \<Rightarrow> nat set) \<Rightarrow> bool" where
  "protects pv W \<longleftrightarrow>
    (\<forall>p m. W (snd (pv_make_writable pv p m)) \<subseteq> W p \<union> {x. in_range m x} \<and>
           W (snd (pv_make_executable pv p m)) \<subseteq> W p \<and>
           (has_value (fst (pv_make_executable pv p m)) \<longrightarrow> W (snd (pv_make_executable pv p m)) \<inter> {x. in_range m x} = {}) \<and>
           W (snd (pv_flush pv p m)) \<subseteq> W p)"

lemma protectsD:
  assumes "protects pv W"
  shows "pv_make_writable pv p m = (q, p') \<Longrightarrow> W p' \<subseteq> W p \<union> {x. in_range m x}"
    "pv_make_executable pv p m = (q, p') \<Longrightarrow> W p' \<subseteq> W p"
    "pv_make_executable pv p m = (Inr u, p') \<Longrightarrow> W p' \<inter> {x. in_range m x} = {}"
    "pv_flush pv p m = (q, p') \<Longrightarrow> W p' \<subseteq> W p"
  using assms unfolding protects_def by (metis fst_conv snd_conv has_value_simps(2))+

text \<open>C28: with such a system underneath, publication leaves no address writable that was not writable before,
  except, when it reports an error, in the range being published; and the handles of a successful
  publication are not writable.\<close>

theorem publication_closes_writes:
  assumes "protects pv W"
  shows "case publish pv (p, mem) r buffers of
      (Inl e, r', p', mem') \<Rightarrow> W p' \<subseteq> W p \<union> {x. in_range (rsv_publication r) x}
    | (Inr handles, r', p', mem') \<Rightarrow> W p' \<subseteq> W p \<and> W p' \<inter> {x. in_range (rsv_publication r) x} = {}"
proof -
  note D = protectsD [OF assms]
  obtain res r' p' mem' where e: "publish pv (p, mem) r buffers = (res, r', p', mem')" by (metis prod_cases4)
  obtain q1 p1 where 1: "pv_make_writable pv p (rsv_publication r) = (q1, p1)" by fastforce
  obtain q2 p2 where 2: "pv_make_executable pv p1 (rsv_publication r) = (q2, p2)" by fastforce
  obtain q3 p3 where 3: "pv_flush pv p2 (rsv_publication r) = (q3, p3)" by fastforce
  obtain q4 p4 where 4: "pv_make_executable pv p2 (rsv_publication r) = (q4, p4)" by fastforce
  note A = D(1) [OF 1] D(2) [OF 2] D(4) [OF 3] D(2) [OF 4]
  have B: "has_value q2 \<Longrightarrow> W p2 \<inter> {x. in_range (rsv_publication r) x} = {}"
    using D(3) 2 by (cases q2) auto
  have c: "p' \<in> {p, p1, p2, p3, p4} \<and> (has_value res \<longrightarrow> p' = p3 \<and> has_value q2)"
    using e 1 2 3 4
    by (auto simp: publish_def Let_def memory_invalid_def split: option.splits if_splits sum.splits prod.splits)
  show ?thesis
  proof (cases res)
    case (Inl er)
    then show ?thesis using c A by (auto simp: e)
  next
    case (Inr hs)
    then have "p' = p3" "has_value q2" using c by auto
    then have "W p3 \<subseteq> W p \<and> W p3 \<inter> {x. in_range (rsv_publication r) x} = {}" using A B by blast
    then show ?thesis using \<open>p' = p3\<close> by (simp add: e Inr)
  qed
qed

text \<open>The logging provider under this reading of its log.\<close>

primrec protect_step :: "nat set \<Rightarrow> provider_event \<Rightarrow> nat set" where
  "protect_step S (Allocated n) = S"
| "protect_step S (Writable a n) = S \<union> {a..<a + n}"
| "protect_step S (Executable a n) = S - {a..<a + n}"
| "protect_step S (Flushed a n) = S"
| "protect_step S (Released a n) = S"

definition open_addresses :: "provider_event list \<Rightarrow> nat set" where
  "open_addresses log = foldl protect_step {} log"

lemma logging_provider_protects: "protects (logging_provider base) open_addresses"
  by (auto simp: protects_def logging_provider_def open_addresses_def in_range_def)

theorem publication_closes_writes_witness:
  "case publish (logging_provider 8192) ([], \<lambda>_. 0)
      \<lparr>rsv_region = Some \<lparr>map_data = 8192, map_size = 4096\<rparr>, rsv_slots = [(0, 1)],
       rsv_publication = \<lparr>map_data = 8192, map_size = 4096\<rparr>\<rparr> [[0xc3]] of
     (Inl e, r', p', mem') \<Rightarrow> False
   | (Inr handles, r', p', mem') \<Rightarrow> open_addresses p' = {} \<and> mem' 8192 = 0xc3"
  using publication_closes_writes [OF logging_provider_protects [of 8192], where p = "[]" and mem = "\<lambda>_. 0" and
      r = "\<lparr>rsv_region = Some \<lparr>map_data = 8192, map_size = 4096\<rparr>, rsv_slots = [(0, 1)],
       rsv_publication = \<lparr>map_data = 8192, map_size = 4096\<rparr>\<rparr>" and buffers = "[[0xc3]]"]
  by (simp add: publish_def logging_provider_def Let_def open_addresses_def write_bytes_def)

end
