(* ===== verification/CodeBytes.thy ===== *)
theory CodeBytes
  imports Prelude "HOL-Library.Product_Lexorder"
begin

text \<open>
  Byte buffers as the code generator uses them: the \<open>read\<close> and \<open>write\<close> helpers of
  \<open>lib/CodeGen/CompiledFunction.cpp\<close> and \<open>CompiledBlock.cpp\<close> (the encoders' \<open>put\<close> and \<open>set\<close> are the
  same loops), and the check that no two byte ranges overlap, which both \<open>verify\<close> functions make
  by sorting.  A write outside the buffer is undefined in the code; every caller's range is checked first.
\<close>

named_theorems bytes_simps "reads and writes of byte buffers"

section \<open>Reads and writes\<close>

definition read_at :: "bytes \<Rightarrow> nat \<Rightarrow> nat \<Rightarrow> u64" where
  "read_at b at n = get_le (take n (drop at b))"

definition write_at :: "bytes \<Rightarrow> nat \<Rightarrow> u64 \<Rightarrow> nat \<Rightarrow> bytes" where
  "write_at b at v n = take at b @ put_le n v @ drop (at + n) b"

lemma length_write_at [simp, bytes_simps]: "at + n \<le> length b \<Longrightarrow> length (write_at b at v n) = length b"
  by (simp add: write_at_def)

lemma nth_write_at: "at + n \<le> length b \<Longrightarrow> i < length b \<Longrightarrow>
    write_at b at v n ! i = (if at \<le> i \<and> i < at + n then put_le n v ! (i - at) else b ! i)"
  by (auto simp: write_at_def nth_append min_def)

lemma read_write_same [bytes_simps]: "at + n \<le> length b \<Longrightarrow> read_at (write_at b at v n) at n = take_bit (8 * n) v"
  by (simp add: read_at_def write_at_def get_put_le min_def)

lemma read_at_cong:
  "length b = length b' \<Longrightarrow> (\<And>i. at \<le> i \<Longrightarrow> i < at + n \<Longrightarrow> i < length b \<Longrightarrow> b ! i = b' ! i) \<Longrightarrow> read_at b at n = read_at b' at n"
proof -
  assume l: "length b = length b'" and e: "\<And>i. at \<le> i \<Longrightarrow> i < at + n \<Longrightarrow> i < length b \<Longrightarrow> b ! i = b' ! i"
  have "take n (drop at b) = take n (drop at b')"
    using l e by (intro nth_equalityI) auto
  then show ?thesis by (simp add: read_at_def)
qed

lemma read_write_other [bytes_simps]:
  "at + n \<le> length b \<Longrightarrow> p + m \<le> at \<or> at + n \<le> p \<Longrightarrow> read_at (write_at b at v n) p m = read_at b p m"
  by (rule read_at_cong) (auto simp: nth_write_at)

lemma bit_read_at:
  "bit (read_at b at n) k \<longleftrightarrow> k < 64 \<and> k < 8 * n \<and> at + k div 8 < length b \<and> bit (b ! (at + k div 8)) (k mod 8)"
  unfolding read_at_def bit_get_le
  by (cases "k div 8 < n \<and> at + k div 8 < length b") (auto simp: less_mult_imp_div_less)

lemma read_at_take_bit: "take_bit (8 * n) (read_at b at n) = read_at b at n"
  by (rule bit_word_eqI) (auto simp: bit_take_bit_iff bit_read_at)

lemma unat_read_at_less: "unat (read_at b at n) < 2 ^ (8 * n)"
proof -
  have "unat (read_at b at n) = take_bit (8 * n) (unat (read_at b at n))"
    using arg_cong [OF read_at_take_bit [of n b at], of unat] by (simp add: unsigned_take_bit_eq)
  also have "\<dots> < 2 ^ (8 * n)" by simp
  finally show ?thesis .
qed

section \<open>Disjoint ranges\<close>

fun adjacent_ok :: "(nat \<times> nat) list \<Rightarrow> bool" where
  "adjacent_ok (x # y # xs) = (snd x \<le> fst y \<and> adjacent_ok (y # xs))"
| "adjacent_ok _ = True"

text \<open>\<open>std::sort\<close> on pairs, then the comparison of neighbours.\<close>

definition no_overlap :: "(nat \<times> nat) list \<Rightarrow> bool" where
  "no_overlap xs = adjacent_ok (sort xs)"

definition disjoint_ranges :: "(nat \<times> nat) list \<Rightarrow> bool" where
  "disjoint_ranges xs \<longleftrightarrow>
    distinct xs \<and> (\<forall>x\<in>set xs. \<forall>y\<in>set xs. x \<noteq> y \<longrightarrow> snd x \<le> fst y \<or> snd y \<le> fst x)"

lemma adjacent_ok_sorted:
  "adjacent_ok xs \<Longrightarrow> (\<And>x. x \<in> set xs \<Longrightarrow> fst x < snd x) \<Longrightarrow> sorted_wrt (\<lambda>x y. snd x \<le> fst y) xs"
proof (induction xs rule: adjacent_ok.induct)
  case (1 x y xs)
  then have s: "sorted_wrt (\<lambda>x y. snd x \<le> fst y) (y # xs)" by simp
  have "fst y < snd y" "snd x \<le> fst y" using "1.prems" by auto
  then have "\<forall>z\<in>set (y # xs). snd x \<le> fst z" using s by (auto intro: order_trans less_imp_le)
  with s show ?case by (simp del: sorted_wrt.simps(2) add: sorted_wrt.simps(2) [of _ x])
qed auto

lemma no_overlap_disjoint:
  assumes "no_overlap xs" "\<And>x. x \<in> set xs \<Longrightarrow> fst x < snd x"
  shows "disjoint_ranges xs"
proof -
  have S: "sorted_wrt (\<lambda>x y. snd x \<le> fst y) (sort xs)"
    using assms by (intro adjacent_ok_sorted) (auto simp: no_overlap_def)
  have "i = j" if "i < length (sort xs)" "j < length (sort xs)" "sort xs ! i = sort xs ! j" for i j
    using sorted_wrt_nth_less [OF S, of i j] sorted_wrt_nth_less [OF S, of j i] that assms(2) nth_mem [of i "sort xs"]
    by (metis leD linorder_neqE_nat set_sort)
  then have "distinct (sort xs)" by (auto simp: distinct_conv_nth)
  then have "distinct xs" by simp
  moreover have "snd x \<le> fst y \<or> snd y \<le> fst x" if "x \<in> set xs" "y \<in> set xs" "x \<noteq> y" for x y
  proof -
    from that obtain i j where "i < length (sort xs)" "j < length (sort xs)" "sort xs ! i = x" "sort xs ! j = y"
      by (metis in_set_conv_nth set_sort)
    with that(3) S show ?thesis
      by (metis linorder_neqE_nat sorted_wrt_nth_less)
  qed
  ultimately show ?thesis by (auto simp: disjoint_ranges_def)
qed

lemma disjoint_ranges_Cons:
  "disjoint_ranges (x # xs) \<longleftrightarrow>
    x \<notin> set xs \<and> (\<forall>y\<in>set xs. snd x \<le> fst y \<or> snd y \<le> fst x) \<and> disjoint_ranges xs"
  by (auto simp: disjoint_ranges_def)

section \<open>Patching disjoint fields\<close>

text \<open>What relocation needs of a byte buffer, and what follows for a sequence of patches to fields that do not
  overlap: each field ends up with its own value and the rest of the buffer is left alone.\<close>

locale byte_store =
  fixes rd :: "'m \<Rightarrow> nat \<Rightarrow> nat \<Rightarrow> u64"
    and wr :: "'m \<Rightarrow> nat \<Rightarrow> u64 \<Rightarrow> nat \<Rightarrow> 'm"
    and len :: "'m \<Rightarrow> nat"
  assumes len_wr: "at + n \<le> len m \<Longrightarrow> len (wr m at v n) = len m"
    and rd_same: "at + n \<le> len m \<Longrightarrow> rd (wr m at v n) at n = take_bit (8 * n) v"
    and rd_other: "at + n \<le> len m \<Longrightarrow> p + k \<le> at \<or> at + n \<le> p \<Longrightarrow> rd (wr m at v n) p k = rd m p k"
begin

lemma patches_len:
  "list_all (\<lambda>(at, v, n). at + n \<le> len m) ps \<Longrightarrow> len (foldl (\<lambda>m (at, v, n). wr m at v n) m ps) = len m"
  by (induction ps arbitrary: m) (auto simp: len_wr)

lemma patches_other:
  "list_all (\<lambda>(at, v, n). at + n \<le> len m \<and> (p + k \<le> at \<or> at + n \<le> p)) ps \<Longrightarrow>
    rd (foldl (\<lambda>m (at, v, n). wr m at v n) m ps) p k = rd m p k"
proof (induction ps arbitrary: m)
  case (Cons x ps)
  obtain at v n where x: "x = (at, v, n)" by (cases x)
  from Cons.prems x have h: "at + n \<le> len m" "p + k \<le> at \<or> at + n \<le> p" by auto
  have "list_all (\<lambda>(at, v, n). at + n \<le> len (wr m (fst x) (fst (snd x)) (snd (snd x))) \<and> (p + k \<le> at \<or> at + n \<le> p)) ps"
    using Cons.prems h by (simp add: len_wr x)
  from Cons.IH [OF this] show ?case using rd_other [OF h] by (simp add: x)
qed simp

lemma patches_same:
  assumes "disjoint_ranges (map (\<lambda>(at, v, n). (at, at + n)) ps)" "list_all (\<lambda>(at, v, n). at + n \<le> len m) ps"
    "(at, v, n) \<in> set ps"
  shows "rd (foldl (\<lambda>m (at, v, n). wr m at v n) m ps) at n = take_bit (8 * n) v"
  using assms
proof (induction ps arbitrary: m)
  case (Cons x ps)
  obtain a w l where x: "x = (a, w, l)" by (cases x)
  have al: "a + l \<le> len m" using Cons.prems(2) x by auto
  have D: "disjoint_ranges (map (\<lambda>(at, v, n). (at, at + n)) ps)"
    and sep: "\<forall>y\<in>set ps. case y of (b, u, k) \<Rightarrow> a + l \<le> b \<or> b + k \<le> a"
    using Cons.prems(1) x by (fastforce simp: disjoint_ranges_Cons)+
  have B: "list_all (\<lambda>(at, v, n). at + n \<le> len (wr m a w l)) ps"
    using Cons.prems(2) x by (simp add: len_wr [OF al])
  show ?case
  proof (cases "(at, v, n) = x")
    case True
    then have "list_all (\<lambda>(b, u, k). b + k \<le> len (wr m a w l) \<and> (a + l \<le> b \<or> b + k \<le> a)) ps"
      using B sep by (fastforce simp: list_all_iff)
    then have "rd (foldl (\<lambda>m (at, v, n). wr m at v n) (wr m a w l) ps) a l = rd (wr m a w l) a l"
      by (rule patches_other)
    then show ?thesis using True x rd_same [OF al] by simp
  next
    case False
    then show ?thesis using Cons.IH [OF D B] Cons.prems(3) x by auto
  qed
qed simp

end

interpretation buffer: byte_store read_at write_at length
  by unfold_locales (auto simp: bytes_simps)

end
