(* ===== verification/CompiledFunction.thy ===== *)
theory CompiledFunction
  imports CodeBytes TargetMachine
begin

text \<open>
  \<open>lib/CodeGen/CompiledFunction.cpp\<close>: an owned code artifact, its verification, and its relocation to
  a base address.  Symbols and builtins are parameters (the artifact only compares them and hands them
  to the resolver); the frame layout an artifact carries is not interpreted here and left out.  The
  identity that ties a label handle to its artifact is a natural number.  Offsets and sizes are naturals,
  addresses and cell contents 64-bit words.
\<close>

section \<open>Artifacts\<close>

datatype relocation_kind = WideMove | LocalAddress | AbsoluteSymbol

record ('s, 'b) relocation =
  rel_kind :: relocation_kind
  rel_offset :: nat
  rel_shift :: nat
  rel_symbol :: "'s option"
  rel_builtin :: "'b option"
  rel_displacement :: u64

record pool_entry =
  pool_offset :: nat
  pool_reference :: nat
  pool_next :: nat
  pool_call :: bool

record label_handle =
  lh_index :: nat
  lh_owner :: nat

record label_row =
  lr_label :: label_handle
  lr_name :: string
  lr_offset :: nat
  lr_ordinal :: "nat option"

record ('s, 'b) compiled =
  cf_module :: string
  cf_name :: string
  cf_architecture :: architecture
  cf_identity :: nat
  cf_bytes :: bytes
  cf_labels :: "label_row list"
  cf_relocations :: "('s, 'b) relocation list"
  cf_constants :: "pool_entry list"

text \<open>\<open>CompiledFunctionData\<close>: what an encoder fills in.\<close>

record encoded_label =
  el_name :: string
  el_offset :: nat
  el_ordinal :: "nat option"

record ('s, 'b) code_data =
  cd_module :: string
  cd_name :: string
  cd_architecture :: architecture
  cd_bytes :: bytes
  cd_labels :: "encoded_label list"
  cd_relocations :: "('s, 'b) relocation list"
  cd_constants :: "pool_entry list"

definition artifact_invalid :: "('s, 'b) compiled \<Rightarrow> string \<Rightarrow> 'a result" where
  "artifact_invalid f why = mk_error InvalidOperand (cf_module f @ ''/'' @ cf_name f @ '' [relocate]: '' @ why)"

section \<open>Verification\<close>

definition field_bytes :: "relocation_kind \<Rightarrow> nat" where
  "field_bytes k = (if k = WideMove then 4 else 8)"

fun verify_labels :: "('s, 'b) compiled \<Rightarrow> nat \<Rightarrow> nat list \<Rightarrow> string list \<Rightarrow> label_row list \<Rightarrow> unit result" where
  "verify_labels f n ordinals names [] = Inr ()"
| "verify_labels f n ordinals names (l # ls) =
    (if lh_owner (lr_label l) \<noteq> cf_identity f \<or> lh_index (lr_label l) \<noteq> n \<or> length (cf_bytes f) < lr_offset l \<or>
        (cf_architecture f = ArchAArch64 \<and> lr_offset l mod 4 \<noteq> 0)
     then artifact_invalid f ''invalid label offset or identity''
     else if lr_ordinal l \<noteq> None \<and> the (lr_ordinal l) \<in> set ordinals
     then artifact_invalid f ''duplicate source label correspondence''
     else if lr_name l \<noteq> [] \<and> lr_name l \<in> set names
     then artifact_invalid f ''duplicate compiled label name''
     else verify_labels f (n + 1) (case lr_ordinal l of Some k \<Rightarrow> k # ordinals | None \<Rightarrow> ordinals)
            (if lr_name l \<noteq> [] then lr_name l # names else names) ls)"

definition verify_relocation :: "('s, 'b) compiled \<Rightarrow> ('s, 'b) relocation \<Rightarrow> unit result" where
  "verify_relocation f r =
    (let b = cf_bytes f; arm = (cf_architecture f = ArchAArch64); sz = field_bytes (rel_kind r)
     in if length b < rel_offset r \<or> length b - rel_offset r < sz \<or>
           ((arm \<or> rel_kind r = LocalAddress) \<and> rel_offset r mod sz \<noteq> 0)
        then artifact_invalid f ''relocation outside code or unaligned''
        else case rel_kind r of
          LocalAddress \<Rightarrow>
            if rel_symbol r \<noteq> None \<or> rel_builtin r \<noteq> None \<or> rel_shift r \<noteq> 0 \<or> rel_displacement r \<noteq> 0 \<or>
               length b < unat (read_at b (rel_offset r) 8)
            then artifact_invalid f ''invalid local address relocation'' else Inr ()
        | WideMove \<Rightarrow>
            if \<not> arm \<or> (rel_symbol r \<noteq> None) = (rel_builtin r \<noteq> None) \<or> 48 < rel_shift r \<or> rel_shift r mod 16 \<noteq> 0
            then artifact_invalid f ''invalid symbol relocation''
            else let w = read_at b (rel_offset r) 4; c = w AND 0xff800000
                 in if (c \<noteq> 0xd2800000 \<and> c \<noteq> 0xf2800000) \<or> drop_bit 21 w AND 3 \<noteq> of_nat (rel_shift r div 16)
                    then artifact_invalid f ''invalid wide-move opcode'' else Inr ()
        | AbsoluteSymbol \<Rightarrow>
            if arm \<or> (rel_symbol r \<noteq> None) = (rel_builtin r \<noteq> None) \<or> rel_shift r \<noteq> 0 \<or> read_at b (rel_offset r) 8 \<noteq> 0
            then artifact_invalid f ''invalid absolute symbol relocation'' else Inr ())"

fun verify_all :: "('x \<Rightarrow> unit result) \<Rightarrow> 'x list \<Rightarrow> unit result" where
  "verify_all check [] = Inr ()"
| "verify_all check (x # xs) = rbind (check x) (\<lambda>_. verify_all check xs)"

definition occupied :: "('s, 'b) relocation list \<Rightarrow> (nat \<times> nat) list" where
  "occupied rs = map (\<lambda>r. (rel_offset r, rel_offset r + field_bytes (rel_kind r))) rs"

text \<open>\<open>std::lower_bound\<close> on the sorted ranges: the first whose end lies beyond the offset.\<close>

definition range_after :: "(nat \<times> nat) list \<Rightarrow> nat \<Rightarrow> (nat \<times> nat) option" where
  "range_after ranges off = find (\<lambda>r. \<not> snd r \<le> off) (sort ranges)"

definition verify_constant :: "('s, 'b) compiled \<Rightarrow> nat \<times> pool_entry \<Rightarrow> unit result" where
  "verify_constant f nc =
    (case nc of (n, c) \<Rightarrow>
     let b = cf_bytes f; start = pool_offset (cf_constants f ! 0); ref = pool_reference c
     in if pool_offset c mod 16 \<noteq> 0 \<or> length b < pool_offset c \<or> length b - pool_offset c < 16 \<or>
           pool_offset c \<noteq> start + n * 16 \<or> start < ref \<or> start - ref < 4 \<or> start < pool_next c \<or>
           pool_next c < ref + 4 \<or> pool_offset c < pool_next c \<or> INT32_MAX < pool_offset c - pool_next c \<or>
           unat (read_at b ref 4) \<noteq> pool_offset c - pool_next c \<or> read_at b (pool_offset c + 8) 8 \<noteq> 0
        then artifact_invalid f ''invalid constant pool entry''
        else if pool_call c \<and> (ref < 2 \<or> pool_next c \<noteq> ref + 4 \<or> b ! (ref - 2) \<noteq> 0xff \<or>
                               (b ! (ref - 1) \<noteq> 0x15 \<and> b ! (ref - 1) \<noteq> 0x25))
        then artifact_invalid f ''invalid pool call instruction''
        else case range_after (occupied (cf_relocations f)) ref of
               Some r \<Rightarrow> if fst r < ref + 4 then artifact_invalid f ''relocation overlaps constant pool displacement'' else Inr ()
             | None \<Rightarrow> Inr ())"

definition verify_pool_label :: "('s, 'b) compiled \<Rightarrow> label_row \<Rightarrow> unit result" where
  "verify_pool_label f l =
    (if pool_offset (cf_constants f ! 0) < lr_offset l then artifact_invalid f ''label inside constant pool'' else Inr ())"

definition verify_pool_relocation :: "('s, 'b) compiled \<Rightarrow> ('s, 'b) relocation \<Rightarrow> unit result" where
  "verify_pool_relocation f r =
    (let start = pool_offset (cf_constants f ! 0)
     in if rel_offset r < start
        then (if start - rel_offset r < 8 then artifact_invalid f ''relocation crosses constant pool boundary'' else Inr ())
        else if rel_kind r \<noteq> AbsoluteSymbol \<or> (rel_offset r - start) mod 16 \<noteq> 0
        then artifact_invalid f ''relocation inside constant pool padding'' else Inr ())"

definition verify_pool :: "('s, 'b) compiled \<Rightarrow> unit result" where
  "verify_pool f =
    (if cf_architecture f = ArchAArch64 \<and> cf_constants f \<noteq> [] then artifact_invalid f ''x86 constant pool on aarch64''
     else rbind (verify_all (verify_constant f) (zip [0..<length (cf_constants f)] (cf_constants f))) (\<lambda>_.
       if cf_constants f = [] then Inr ()
       else if pool_offset (last (cf_constants f)) + 16 \<noteq> length (cf_bytes f)
       then artifact_invalid f ''incomplete constant pool''
       else rbind (verify_all (verify_pool_label f) (cf_labels f))
              (\<lambda>_. verify_all (verify_pool_relocation f) (cf_relocations f))))"

definition verify_compiled :: "('s, 'b) compiled \<Rightarrow> unit result" where
  "verify_compiled f =
    (if cf_architecture f \<noteq> ArchAArch64 \<and> cf_architecture f \<noteq> ArchX86_64
     then artifact_invalid f ''unsupported code target''
     else if cf_bytes f = [] \<or> length (cf_bytes f) mod 16 \<noteq> 0
     then artifact_invalid f ''empty or unaligned code''
     else rbind (verify_labels f 0 [] [] (cf_labels f)) (\<lambda>_.
          rbind (verify_all (verify_relocation f) (cf_relocations f)) (\<lambda>_.
            if \<not> no_overlap (occupied (cf_relocations f)) then artifact_invalid f ''overlapping code relocations''
            else verify_pool f)))"

text \<open>\<open>ArtifactBuilder::finish\<close>: the labels get handles of the new artifact, then everything is verified.\<close>

definition finish_artifact :: "nat \<Rightarrow> ('s, 'b) code_data \<Rightarrow> ('s, 'b) compiled result" where
  "finish_artifact identity d =
    (let f = \<lparr>cf_module = cd_module d, cf_name = cd_name d, cf_architecture = cd_architecture d, cf_identity = identity,
              cf_bytes = cd_bytes d,
              cf_labels = map (\<lambda>(n, l). \<lparr>lr_label = \<lparr>lh_index = n, lh_owner = identity\<rparr>, lr_name = el_name l,
                                        lr_offset = el_offset l, lr_ordinal = el_ordinal l\<rparr>)
                            (zip [0..<length (cd_labels d)] (cd_labels d)),
              cf_relocations = cd_relocations d, cf_constants = cd_constants d\<rparr>
     in rbind (verify_compiled f) (\<lambda>_. Inr f))"

section \<open>Relocation\<close>

text \<open>A resolver may be absent, as an empty \<open>std::function\<close> is; resolved values are remembered per symbol.\<close>

type_synonym ('s, 'b) resolver = "('s option \<times> 'b option \<Rightarrow> u64 result) option"
type_synonym ('s, 'b) resolved = "(('s option \<times> 'b option) \<times> u64) list"

definition resolve_symbol :: "('s, 'b) compiled \<Rightarrow> ('s, 'b) resolver \<Rightarrow> ('s, 'b) relocation \<Rightarrow> ('s, 'b) resolved \<Rightarrow>
    (u64 \<times> ('s, 'b) resolved) result" where
  "resolve_symbol f resolve r known =
    (case map_of known (rel_symbol r, rel_builtin r) of
       Some v \<Rightarrow> Inr (v, known)
     | None \<Rightarrow>
        (case resolve of None \<Rightarrow> artifact_invalid f ''unresolved code symbol''
         | Some g \<Rightarrow>
            (case g (rel_symbol r, rel_builtin r) of
               Inl e \<Rightarrow> Inl \<lparr>code = code e, message = cf_module f @ ''/'' @ cf_name f @ '' [relocate]: '' @ message e\<rparr>
             | Inr v \<Rightarrow> Inr (v, known @ [((rel_symbol r, rel_builtin r), v)]))))"

definition wide_patch :: "u64 \<Rightarrow> u64 \<Rightarrow> nat \<Rightarrow> u64" where
  "wide_patch w address shift =
    (w AND NOT (push_bit 5 0xffff)) OR push_bit 5 (drop_bit shift address AND 0xffff)"

definition relocate_field :: "('s, 'b) compiled \<Rightarrow> u64 \<Rightarrow> ('s, 'b) resolver \<Rightarrow> ('s, 'b) relocation \<Rightarrow>
    bytes \<times> ('s, 'b) resolved \<Rightarrow> (bytes \<times> ('s, 'b) resolved) result" where
  "relocate_field f base resolve r st =
    (case st of (b, known) \<Rightarrow>
     if rel_kind r = LocalAddress
     then Inr (write_at b (rel_offset r) (base + read_at (cf_bytes f) (rel_offset r) 8) 8, known)
     else rbind (resolve_symbol f resolve r known) (\<lambda>(v, known).
       let address = v + rel_displacement r
       in if rel_kind r = AbsoluteSymbol then Inr (write_at b (rel_offset r) address 8, known)
          else Inr (write_at b (rel_offset r) (wide_patch (read_at b (rel_offset r) 4) address (rel_shift r)) 4, known)))"

fun relocate_fields :: "('s, 'b) compiled \<Rightarrow> u64 \<Rightarrow> ('s, 'b) resolver \<Rightarrow> ('s, 'b) relocation list \<Rightarrow>
    bytes \<times> ('s, 'b) resolved \<Rightarrow> (bytes \<times> ('s, 'b) resolved) result" where
  "relocate_fields f base resolve [] st = Inr st"
| "relocate_fields f base resolve (r # rs) st =
    rbind (relocate_field f base resolve r st) (relocate_fields f base resolve rs)"

text \<open>A call or jump through the pool becomes a direct one when its cell is near enough.\<close>

definition relocate_call :: "('s, 'b) compiled \<Rightarrow> u64 \<Rightarrow> bytes \<Rightarrow> pool_entry \<Rightarrow> bytes" where
  "relocate_call f base b c =
    (if \<not> pool_call c then b
     else let difference = read_at b (pool_offset c) 8 - (base + of_nat (pool_next c)); ref = pool_reference c
          in if difference \<le> of_nat INT32_MAX \<or> - 1 - of_nat INT32_MAX \<le> difference
             then write_at (b[ref - 2 := 0x40, ref - 1 := (if cf_bytes f ! (ref - 1) = 0x25 then 0xe9 else 0xe8)])
                    ref difference 4
             else b)"

definition relocate :: "('s, 'b) compiled \<Rightarrow> u64 \<Rightarrow> ('s, 'b) resolver \<Rightarrow> bytes result" where
  "relocate f base resolve =
    rbind (verify_compiled f) (\<lambda>_.
      if (cf_architecture f = ArchAArch64 \<and> unat base mod 4 \<noteq> 0) \<or> SIZE_MAX - unat base < length (cf_bytes f)
      then artifact_invalid f ''unaligned or overflowing code base''
      else rbind (relocate_fields f base resolve (cf_relocations f) (cf_bytes f, [])) (\<lambda>(b, known).
        Inr (foldl (relocate_call f base) b (cf_constants f))))"

section \<open>Labels\<close>

fun find_label_in :: "label_row list \<Rightarrow> string \<Rightarrow> label_handle option" where
  "find_label_in [] nm = None"
| "find_label_in (l # ls) nm = (if lr_name l = nm then Some (lr_label l) else find_label_in ls nm)"

definition find_label :: "('s, 'b) compiled \<Rightarrow> string \<Rightarrow> label_handle result" where
  "find_label f nm =
    (if nm = [] then artifact_invalid f ''empty label name''
     else case find_label_in (cf_labels f) nm of Some l \<Rightarrow> Inr l
          | None \<Rightarrow> artifact_invalid f (''unknown label: '' @ nm))"

record label_address =
  la_label :: label_handle
  la_relative :: "label_handle option"
  la_displacement :: u64

definition label_offset :: "('s, 'b) compiled \<Rightarrow> label_handle \<Rightarrow> nat result" where
  "label_offset f l =
    (if lh_owner l \<noteq> cf_identity f \<or> length (cf_labels f) \<le> lh_index l then artifact_invalid f ''foreign compiled label''
     else Inr (lr_offset (cf_labels f ! lh_index l)))"

fun label_values :: "('s, 'b) compiled \<Rightarrow> u64 \<Rightarrow> label_address list \<Rightarrow> u64 list \<Rightarrow> u64 list result" where
  "label_values f base [] vs = Inr vs"
| "label_values f base (r # rs) vs =
    rbind (label_offset f (la_label r)) (\<lambda>off.
      let v = of_nat off + la_displacement r
      in case la_relative r of
           Some l \<Rightarrow> rbind (label_offset f l) (\<lambda>other. label_values f base rs (vs @ [v - of_nat other]))
         | None \<Rightarrow> label_values f base rs (vs @ [v + base]))"

definition label_addresses :: "('s, 'b) compiled \<Rightarrow> u64 \<Rightarrow> label_address list \<Rightarrow> u64 list result" where
  "label_addresses f base refs = rbind (verify_compiled f) (\<lambda>_. label_values f base refs [])"

section \<open>What verification gives\<close>

named_theorems verified "facts of a verified artifact"

lemma verify_all_ok: "verify_all check xs = Inr () \<longleftrightarrow> list_all (\<lambda>x. check x = Inr ()) xs"
  by (induction xs) (auto simp: rbind_eq_Inr)

lemma artifact_invalid_simps [simp]:
  "artifact_invalid f why \<noteq> Inr v" "rbind (artifact_invalid f why) k = artifact_invalid f why"
  by (simp_all add: artifact_invalid_def)

lemma unit_result: "(r :: unit result) = Inr u \<longleftrightarrow> r = Inr ()"
  by (cases u) simp

lemma verify_compiledD:
  assumes "verify_compiled f = Inr u"
  shows "cf_bytes f \<noteq> []" "16 dvd length (cf_bytes f)" "verify_labels f 0 [] [] (cf_labels f) = Inr ()"
    "list_all (\<lambda>r. verify_relocation f r = Inr ()) (cf_relocations f)"
    "no_overlap (occupied (cf_relocations f))" "verify_pool f = Inr ()"
  using assms by (auto simp: verify_compiled_def rbind_eq_Inr verify_all_ok split: if_splits)

lemma field_bytes_pos [simp]: "0 < field_bytes k"
  by (simp add: field_bytes_def)

lemma verify_relocationD:
  assumes "verify_relocation f r = Inr ()"
  shows "rel_offset r + field_bytes (rel_kind r) \<le> length (cf_bytes f)"
    "rel_kind r = LocalAddress \<Longrightarrow> unat (read_at (cf_bytes f) (rel_offset r) 8) \<le> length (cf_bytes f)"
    "rel_kind r = AbsoluteSymbol \<Longrightarrow> read_at (cf_bytes f) (rel_offset r) 8 = 0"
    "rel_kind r = WideMove \<Longrightarrow> cf_architecture f = ArchAArch64"
  using assms by (auto simp: verify_relocation_def Let_def split: if_splits)

lemma verified_fields [verified]:
  assumes "verify_compiled f = Inr u"
  shows "list_all (\<lambda>(lo, hi). lo < hi \<and> hi \<le> length (cf_bytes f)) (occupied (cf_relocations f))"
    "disjoint_ranges (occupied (cf_relocations f))"
proof -
  show A: "list_all (\<lambda>(lo, hi). lo < hi \<and> hi \<le> length (cf_bytes f)) (occupied (cf_relocations f))"
    using verify_compiledD(4) [OF assms] verify_relocationD(1) [of f]
    by (fastforce simp: occupied_def list_all_iff)
  show "disjoint_ranges (occupied (cf_relocations f))"
    using no_overlap_disjoint [OF verify_compiledD(5) [OF assms]] A by (fastforce simp: list_all_iff)
qed

section \<open>Relocation patches its fields\<close>

definition resolved_address :: "('s, 'b) resolver \<Rightarrow> ('s, 'b) relocation \<Rightarrow> u64" where
  "resolved_address resolve r =
    (case resolve of None \<Rightarrow> 0
     | Some g \<Rightarrow> (case g (rel_symbol r, rel_builtin r) of Inl e \<Rightarrow> 0 | Inr v \<Rightarrow> v)) + rel_displacement r"

text \<open>The value a field holds after relocation, from the unrelocated bytes.\<close>

definition field_value :: "('s, 'b) compiled \<Rightarrow> u64 \<Rightarrow> ('s, 'b) resolver \<Rightarrow> ('s, 'b) relocation \<Rightarrow> u64" where
  "field_value f base resolve r =
    (case rel_kind r of
       LocalAddress \<Rightarrow> base + read_at (cf_bytes f) (rel_offset r) 8
     | AbsoluteSymbol \<Rightarrow> resolved_address resolve r
     | WideMove \<Rightarrow> wide_patch (read_at (cf_bytes f) (rel_offset r) 4) (resolved_address resolve r) (rel_shift r))"

definition field_patch :: "('s, 'b) compiled \<Rightarrow> u64 \<Rightarrow> ('s, 'b) resolver \<Rightarrow> ('s, 'b) relocation \<Rightarrow> nat \<times> u64 \<times> nat" where
  "field_patch f base resolve r = (rel_offset r, field_value f base resolve r, field_bytes (rel_kind r))"

abbreviation apply_patches :: "bytes \<Rightarrow> (nat \<times> u64 \<times> nat) list \<Rightarrow> bytes" where
  "apply_patches b ps \<equiv> foldl (\<lambda>m (at, v, n). write_at m at v n) b ps"

definition cache_ok :: "('s, 'b) resolver \<Rightarrow> ('s, 'b) resolved \<Rightarrow> bool" where
  "cache_ok resolve known \<longleftrightarrow>
    (case resolve of None \<Rightarrow> known = [] | Some g \<Rightarrow> list_all (\<lambda>(k, v). g k = Inr v) known)"

lemma resolve_symbol_ok:
  assumes "resolve_symbol f resolve r known = Inr (v, known')" "cache_ok resolve known"
  shows "v + rel_displacement r = resolved_address resolve r \<and> cache_ok resolve known'"
proof (cases resolve)
  case None
  with assms show ?thesis by (auto simp: resolve_symbol_def cache_ok_def)
next
  case (Some g)
  show ?thesis
  proof (cases "map_of known (rel_symbol r, rel_builtin r)")
    case None
    with assms Some show ?thesis
      by (auto simp: resolve_symbol_def cache_ok_def resolved_address_def split: sum.splits)
  next
    case (Some w)
    with \<open>resolve = Some g\<close> assms have "g (rel_symbol r, rel_builtin r) = Inr w"
      by (auto simp: cache_ok_def list_all_iff dest: map_of_SomeD)
    with Some \<open>resolve = Some g\<close> assms show ?thesis by (auto simp: resolve_symbol_def resolved_address_def)
  qed
qed

lemma relocate_field_ok:
  assumes "relocate_field f base resolve r (b, known) = Inr (b', known')" "cache_ok resolve known"
    "read_at b (rel_offset r) (field_bytes (rel_kind r)) = read_at (cf_bytes f) (rel_offset r) (field_bytes (rel_kind r))"
  shows "b' = apply_patches b [field_patch f base resolve r] \<and> cache_ok resolve known'"
  using assms resolve_symbol_ok [of f resolve r known]
  by (cases "rel_kind r")
    (auto simp: relocate_field_def field_patch_def field_value_def field_bytes_def rbind_eq_Inr Let_def)

lemma relocate_fields_ok:
  "relocate_fields f base resolve rs (b, known) = Inr (b', known') \<Longrightarrow> cache_ok resolve known \<Longrightarrow>
    disjoint_ranges (occupied rs) \<Longrightarrow> list_all (\<lambda>(lo, hi). hi \<le> length b) (occupied rs) \<Longrightarrow>
    list_all (\<lambda>r. read_at b (rel_offset r) (field_bytes (rel_kind r)) =
                 read_at (cf_bytes f) (rel_offset r) (field_bytes (rel_kind r))) rs \<Longrightarrow>
    b' = apply_patches b (map (field_patch f base resolve) rs)"
proof (induction rs arbitrary: b known)
  case (Cons r rs)
  let ?n = "field_bytes (rel_kind r)"
  from Cons.prems(1) obtain b1 k1 where s: "relocate_field f base resolve r (b, known) = Inr (b1, k1)"
    "relocate_fields f base resolve rs (b1, k1) = Inr (b', known')"
    by (auto simp: rbind_eq_Inr)
  from relocate_field_ok [OF s(1) Cons.prems(2)] Cons.prems(5)
  have b1: "b1 = write_at b (rel_offset r) (field_value f base resolve r) ?n" and c: "cache_ok resolve k1"
    by (auto simp: field_patch_def)
  have fits: "rel_offset r + ?n \<le> length b" using Cons.prems(4) by (simp add: occupied_def)
  have D: "disjoint_ranges (occupied rs)"
    and sep: "\<forall>q\<in>set rs. rel_offset r + ?n \<le> rel_offset q \<or> rel_offset q + field_bytes (rel_kind q) \<le> rel_offset r"
    using Cons.prems(3) by (auto simp: occupied_def disjoint_ranges_Cons)
  have "list_all (\<lambda>q. read_at b1 (rel_offset q) (field_bytes (rel_kind q)) =
                 read_at (cf_bytes f) (rel_offset q) (field_bytes (rel_kind q))) rs"
    using Cons.prems(5) sep fits by (auto simp: list_all_iff b1 read_write_other)
  moreover have "list_all (\<lambda>(lo, hi). hi \<le> length b1) (occupied rs)"
    using Cons.prems(4) fits by (simp add: b1 occupied_def)
  ultimately show ?case using Cons.IH [OF s(2) c D] by (simp add: b1 field_patch_def)
qed simp

section \<open>Calls through the pool\<close>

definition call_site :: "pool_entry \<Rightarrow> nat \<times> nat" where
  "call_site c = (pool_reference c - 2, pool_reference c + 4)"

definition call_sites :: "('s, 'b) compiled \<Rightarrow> (nat \<times> nat) list" where
  "call_sites f = map call_site (filter pool_call (cf_constants f))"

lemma range_after_clear:
  assumes "no_overlap xs" "\<And>x. x \<in> set xs \<Longrightarrow> fst x < snd x"
    "\<not> (case range_after xs off of Some r \<Rightarrow> fst r < off + 4 | None \<Rightarrow> False)" "x \<in> set xs"
  shows "snd x \<le> off \<or> off + 4 \<le> fst x"
proof -
  have S: "sorted_wrt (\<lambda>x y. snd x \<le> fst y) (sort xs)"
    using assms(1,2) by (intro adjacent_ok_sorted) (auto simp: no_overlap_def)
  from assms(4) obtain i where i: "i < length (sort xs)" "sort xs ! i = x" by (metis in_set_conv_nth set_sort)
  show ?thesis
  proof (cases "range_after xs off")
    case None
    then show ?thesis using assms(4) by (cases x) (auto simp: range_after_def find_None_iff)
  next
    case (Some r)
    then obtain j where j: "j < length (sort xs)" "r = sort xs ! j" "\<forall>k<j. snd (sort xs ! k) \<le> off"
      by (auto simp: range_after_def find_Some_iff)
    have r: "off + 4 \<le> fst r" "r \<in> set xs" using assms(3) Some j nth_mem [of j "sort xs"] by auto
    have le: "snd r \<le> fst x" if "j < i" using sorted_wrt_nth_less [OF S that] i j by simp
    have "off + 4 \<le> fst x" if "j \<le> i"
      using that r le assms(2) [of r] i j by (cases "i = j") auto
    then show ?thesis using i j(3) by (cases "i < j") auto
  qed
qed

lemma verified_constant [verified]:
  assumes v: "verify_compiled f = Inr u" and c: "c \<in> set (cf_constants f)"
  shows "pool_reference c + 4 \<le> pool_next c" "pool_next c \<le> pool_offset c" "pool_offset c + 16 \<le> length (cf_bytes f)"
    "pool_offset c - pool_next c \<le> INT32_MAX"
    "unat (read_at (cf_bytes f) (pool_reference c) 4) = pool_offset c - pool_next c"
    "pool_call c \<Longrightarrow> 2 \<le> pool_reference c \<and> pool_next c = pool_reference c + 4 \<and>
      cf_bytes f ! (pool_reference c - 2) = 0xff \<and> cf_bytes f ! (pool_reference c - 1) \<in> {0x15, 0x25}"
    "x \<in> set (occupied (cf_relocations f)) \<Longrightarrow> snd x \<le> pool_reference c \<or> pool_reference c + 4 \<le> fst x"
    "cf_architecture f \<noteq> ArchAArch64"
proof -
  have pool: "verify_pool f = Inr ()" using verify_compiledD(6) [OF v] .
  from c obtain n where n: "n < length (cf_constants f)" "cf_constants f ! n = c" by (auto simp: in_set_conv_nth)
  have arch: "cf_architecture f \<noteq> ArchAArch64" using pool c by (cases "cf_constants f = []") (auto simp: verify_pool_def)
  then have "list_all (\<lambda>nc. verify_constant f nc = Inr ()) (zip [0..<length (cf_constants f)] (cf_constants f))"
    using pool c by (auto simp: verify_pool_def rbind_eq_Inr verify_all_ok)
  moreover have "(n, c) \<in> set (zip [0..<length (cf_constants f)] (cf_constants f))"
    using n by (auto simp: set_zip intro!: exI [of _ n])
  ultimately have C: "verify_constant f (n, c) = Inr ()" by (simp add: list_all_iff)
  show "pool_reference c + 4 \<le> pool_next c" "pool_next c \<le> pool_offset c" "pool_offset c + 16 \<le> length (cf_bytes f)"
    "pool_offset c - pool_next c \<le> INT32_MAX"
    "unat (read_at (cf_bytes f) (pool_reference c) 4) = pool_offset c - pool_next c"
    using C by (auto simp: verify_constant_def Let_def split: if_splits)
  show "pool_call c \<Longrightarrow> 2 \<le> pool_reference c \<and> pool_next c = pool_reference c + 4 \<and>
      cf_bytes f ! (pool_reference c - 2) = 0xff \<and> cf_bytes f ! (pool_reference c - 1) \<in> {0x15, 0x25}"
    using C by (auto simp: verify_constant_def Let_def split: if_splits)
  have "\<not> (case range_after (occupied (cf_relocations f)) (pool_reference c) of Some r \<Rightarrow> fst r < pool_reference c + 4 | None \<Rightarrow> False)"
    using C by (auto simp: verify_constant_def Let_def split: if_splits option.splits)
  then show "x \<in> set (occupied (cf_relocations f)) \<Longrightarrow> snd x \<le> pool_reference c \<or> pool_reference c + 4 \<le> fst x"
    using range_after_clear [OF verify_compiledD(5) [OF v]] verified_fields(1) [OF v]
    by (fastforce simp: list_all_iff)
  show "cf_architecture f \<noteq> ArchAArch64" by (rule arch)
qed

text \<open>The last byte of an unrelocated 8-byte field is zero, because its value is at most the size of the code.\<close>

lemma field_top_byte:
  assumes v: "verify_compiled f = Inr u" and arch: "cf_architecture f \<noteq> ArchAArch64"
    and small: "length (cf_bytes f) < 2 ^ 48" and x: "(lo, hi) \<in> set (occupied (cf_relocations f))"
  shows "hi = lo + 8 \<and> cf_bytes f ! (lo + 7) = 0 \<and> cf_bytes f ! (lo + 6) = 0"
proof -
  from x obtain r where r: "r \<in> set (cf_relocations f)" "lo = rel_offset r" "hi = rel_offset r + field_bytes (rel_kind r)"
    by (auto simp: occupied_def)
  have V: "verify_relocation f r = Inr ()" using verify_compiledD(4) [OF v] r(1) by (simp add: list_all_iff)
  note D = verify_relocationD [OF V]
  have k: "rel_kind r \<noteq> WideMove" using D(4) arch by auto
  then have h: "hi = lo + 8" "lo + 8 \<le> length (cf_bytes f)" using D(1) r by (auto simp: field_bytes_def)
  have "unat (read_at (cf_bytes f) lo 8) < 2 ^ 48"
    using D(2,3) k small r(2) by (cases "rel_kind r") auto
  then have "take_bit 48 (read_at (cf_bytes f) lo 8) = read_at (cf_bytes f) lo 8"
    by (metis unsigned_take_bit_eq unsigned_word_eqI take_bit_nat_eq_self)
  then have z: "\<not> bit (read_at (cf_bytes f) lo 8) k" if "48 \<le> k" for k
    using that by (metis bit_take_bit_iff not_le)
  have "cf_bytes f ! (lo + i) = 0" if "i = 6 \<or> i = 7" for i
  proof (rule bit_word_eqI)
    fix k assume k: "k < LENGTH(8)"
    then have "(8 * i + k) div 8 = i" "(8 * i + k) mod 8 = k" by auto
    then have "bit (read_at (cf_bytes f) lo 8) (8 * i + k) = bit (cf_bytes f ! (lo + i)) k"
      using that k h(2) by (auto simp: bit_read_at)
    then show "bit (cf_bytes f ! (lo + i)) k = bit 0 k" using z [of "8 * i + k"] that by auto
  qed
  then show ?thesis using h(1) by simp
qed

lemma fields_clear_of_calls:
  assumes v: "verify_compiled f = Inr u" and small: "length (cf_bytes f) < 2 ^ 48"
    and x: "x \<in> set (occupied (cf_relocations f))" and y: "y \<in> set (call_sites f)"
  shows "snd x \<le> fst y \<or> snd y \<le> fst x"
proof -
  from y obtain c where c: "c \<in> set (cf_constants f)" "pool_call c" "y = call_site c" by (auto simp: call_sites_def)
  obtain lo hi where lh: "x = (lo, hi)" by (cases x)
  note C = verified_constant [OF v c(1)]
  note T = field_top_byte [OF v C(8) small x [unfolded lh]]
  have S: "cf_bytes f ! (pool_reference c - 2) = 0xff" "cf_bytes f ! (pool_reference c - 1) \<in> {0x15, 0x25}" "2 \<le> pool_reference c"
    using C(6) c(2) by auto
  have cl: "hi \<le> pool_reference c \<or> pool_reference c + 4 \<le> lo" using C(7) [OF x] lh by simp
  have "hi \<noteq> pool_reference c"
  proof
    assume "hi = pool_reference c"
    then have "lo + 7 = pool_reference c - 1" using T S(3) by auto
    then show False using T S(2) by auto
  qed
  moreover have "hi \<noteq> pool_reference c - 1"
  proof
    assume "hi = pool_reference c - 1"
    then have "lo + 7 = pool_reference c - 2" using T S(3) by auto
    then show False using T S(1) by auto
  qed
  ultimately show ?thesis using cl by (auto simp: lh c(3) call_site_def)
qed

definition site_in :: "bytes \<Rightarrow> pool_entry \<Rightarrow> bool" where
  "site_in b c \<longleftrightarrow> (\<not> pool_call c \<or> (2 \<le> pool_reference c \<and> pool_reference c + 4 \<le> length b))"

lemma relocate_call_other:
  fixes f :: "('s, 'b) compiled" and base :: u64
  assumes "site_in b c"
  shows "length (relocate_call f base b c) = length b"
    "pool_call c \<Longrightarrow> i < fst (call_site c) \<or> snd (call_site c) \<le> i \<Longrightarrow> i < length b \<Longrightarrow> relocate_call f base b c ! i = b ! i"
    "\<not> pool_call c \<Longrightarrow> relocate_call f base b c = b"
  using assms by (auto simp: relocate_call_def site_in_def call_site_def Let_def nth_write_at nth_list_update)

lemma relocate_calls_other:
  "list_all (site_in b) cs \<Longrightarrow>
    length (foldl (relocate_call f base) b cs) = length b \<and>
    (i < length b \<longrightarrow> list_all (\<lambda>s. i < fst s \<or> snd s \<le> i) (map call_site (filter pool_call cs)) \<longrightarrow>
       foldl (relocate_call f base) b cs ! i = b ! i)"
proof (induction cs arbitrary: b)
  case (Cons c cs)
  have l: "length (relocate_call f base b c) = length b" using Cons.prems by (simp add: relocate_call_other(1))
  have "list_all (site_in (relocate_call f base b c)) cs" using Cons.prems l by (auto simp: list_all_iff site_in_def)
  from Cons.IH [OF this] show ?case
    using Cons.prems relocate_call_other [where b = b and c = c and f = f and base = base] l by (cases "pool_call c") auto
qed simp

lemma verified_sites: "verify_compiled f = Inr u \<Longrightarrow> list_all (site_in (cf_bytes f)) (cf_constants f)"
  using verified_constant [of f u] by (fastforce simp: list_all_iff site_in_def)

section \<open>Relocation\<close>

lemma relocate_cases:
  assumes "relocate f base resolve = Inr b"
  shows "verify_compiled f = Inr ()"
    "b = foldl (relocate_call f base) (apply_patches (cf_bytes f) (map (field_patch f base resolve) (cf_relocations f))) (cf_constants f)"
proof -
  from assms obtain u b1 known where r: "verify_compiled f = Inr u"
    "relocate_fields f base resolve (cf_relocations f) (cf_bytes f, []) = Inr (b1, known)"
    "b = foldl (relocate_call f base) b1 (cf_constants f)"
    by (auto simp: relocate_def rbind_eq_Inr split: if_splits)
  show "verify_compiled f = Inr ()" using r(1) unit_result by blast
  have "b1 = apply_patches (cf_bytes f) (map (field_patch f base resolve) (cf_relocations f))"
  proof (rule relocate_fields_ok [OF r(2)])
    show "cache_ok resolve []" by (simp add: cache_ok_def split: option.split)
    show "list_all (\<lambda>(lo, hi). hi \<le> length (cf_bytes f)) (occupied (cf_relocations f))"
      using verified_fields(1) [OF r(1)] by (auto simp: list_all_iff)
  qed (simp_all add: verified_fields [OF r(1)] list_all_iff)
  with r(3) show "b = foldl (relocate_call f base) (apply_patches (cf_bytes f) (map (field_patch f base resolve) (cf_relocations f))) (cf_constants f)"
    by simp
qed

lemma patches_fit: "verify_compiled f = Inr u \<Longrightarrow>
    list_all (\<lambda>(at, v, n). at + n \<le> length (cf_bytes f)) (map (field_patch f base resolve) (cf_relocations f))"
  using verified_fields(1) [of f u] by (auto simp: list_all_iff occupied_def field_patch_def)

lemma patch_ranges: "map (\<lambda>(at, v, n). (at, at + n)) (map (field_patch f base resolve) rs) = occupied rs"
  by (simp add: occupied_def field_patch_def)

lemma relocation_effect:
  assumes "length (cf_bytes f) < 2 ^ 48"
  shows "case relocate f base resolve of Inl e \<Rightarrow> True
    | Inr b \<Rightarrow>
       length b = length (cf_bytes f) \<and>
       list_all (\<lambda>r. read_at b (rel_offset r) (field_bytes (rel_kind r)) =
                    take_bit (8 * field_bytes (rel_kind r)) (field_value f base resolve r)) (cf_relocations f) \<and>
       {i. i < length b \<and> b ! i \<noteq> cf_bytes f ! i} \<subseteq>
         (\<Union>(lo, hi) \<in> set (occupied (cf_relocations f) @ call_sites f). {lo..<hi})"
proof (cases "relocate f base resolve")
  case (Inr b)
  note R = relocate_cases [OF Inr]
  let ?ps = "map (field_patch f base resolve) (cf_relocations f)"
  define b1 where "b1 = apply_patches (cf_bytes f) ?ps"
  have b: "b = foldl (relocate_call f base) b1 (cf_constants f)" using R(2) by (simp add: b1_def)
  have l1: "length b1 = length (cf_bytes f)" unfolding b1_def by (rule buffer.patches_len [OF patches_fit [OF R(1)]])
  have "list_all (site_in b1) (cf_constants f)" using verified_sites [OF R(1)] by (simp add: list_all_iff site_in_def l1)
  note K = relocate_calls_other [OF this, of f base, folded b call_sites_def]
  have len: "length b = length (cf_bytes f)" using K l1 by simp
  have same: "b ! i = b1 ! i" if "i < length b" "\<forall>s\<in>set (call_sites f). i < fst s \<or> snd s \<le> i" for i
    using K that len l1 by (simp add: list_all_iff)
  have "read_at b (rel_offset r) (field_bytes (rel_kind r)) = take_bit (8 * field_bytes (rel_kind r)) (field_value f base resolve r)"
    if r: "r \<in> set (cf_relocations f)" for r
  proof -
    have x: "(rel_offset r, rel_offset r + field_bytes (rel_kind r)) \<in> set (occupied (cf_relocations f))"
      using r by (auto simp: occupied_def)
    have "read_at b (rel_offset r) (field_bytes (rel_kind r)) = read_at b1 (rel_offset r) (field_bytes (rel_kind r))"
    proof (rule read_at_cong)
      fix i assume i: "rel_offset r \<le> i" "i < rel_offset r + field_bytes (rel_kind r)" "i < length b"
      have "i < fst s \<or> snd s \<le> i" if "s \<in> set (call_sites f)" for s
        using fields_clear_of_calls [OF R(1) assms x that] i by auto
      then show "b ! i = b1 ! i" using same i(3) by blast
    qed (simp add: len l1)
    also have "\<dots> = take_bit (8 * field_bytes (rel_kind r)) (field_value f base resolve r)"
      unfolding b1_def
      by (rule buffer.patches_same) (use r patches_fit [OF R(1)] verified_fields(2) [OF R(1)] in
          \<open>auto simp only: patch_ranges field_patch_def image_iff set_map\<close>)
    finally show ?thesis .
  qed
  then have A: "list_all (\<lambda>r. read_at b (rel_offset r) (field_bytes (rel_kind r)) =
      take_bit (8 * field_bytes (rel_kind r)) (field_value f base resolve r)) (cf_relocations f)"
    by (simp add: list_all_iff)
  have "i \<in> (\<Union>(lo, hi) \<in> set (occupied (cf_relocations f) @ call_sites f). {lo..<hi})"
    if i: "i < length b" "b ! i \<noteq> cf_bytes f ! i" for i
  proof (rule ccontr)
    assume "i \<notin> (\<Union>(lo, hi) \<in> set (occupied (cf_relocations f) @ call_sites f). {lo..<hi})"
    then have out: "\<forall>(lo, hi)\<in>set (occupied (cf_relocations f)). i < lo \<or> hi \<le> i"
      "\<forall>s\<in>set (call_sites f). i < fst s \<or> snd s \<le> i" by fastforce+
    have "list_all (\<lambda>(at, v, n). at + n \<le> length (cf_bytes f) \<and> (i + 1 \<le> at \<or> at + n \<le> i)) ?ps"
      using patches_fit [OF R(1), of base resolve] out(1) by (fastforce simp: list_all_iff occupied_def field_patch_def)
    from buffer.patches_other [OF this] have "read_at b1 i 1 = read_at (cf_bytes f) i 1" by (simp add: b1_def)
    then have "ucast (b1 ! i) = (ucast (cf_bytes f ! i) :: u64)"
      using i(1) len l1 by (simp add: read_at_def Cons_nth_drop_Suc [symmetric])
    note U = this
    have "b1 ! i = cf_bytes f ! i"
    proof (rule bit_word_eqI)
      fix k assume "k < LENGTH(8)"
      then show "bit (b1 ! i) k = bit (cf_bytes f ! i) k"
        using arg_cong [OF U, of "\<lambda>w. bit w k"] by (simp add: bit_ucast_iff)
    qed
    with same [OF i(1) out(2)] i(2) show False by simp
  qed
  then have "{i. i < length b \<and> b ! i \<noteq> cf_bytes f ! i} \<subseteq>
      (\<Union>(lo, hi) \<in> set (occupied (cf_relocations f) @ call_sites f). {lo..<hi})" by blast
  with A show ?thesis using Inr len by (simp del: set_append)
qed simp

text \<open>C10: a successful relocation keeps the size of the code, writes into every field the value its kind
  prescribes, computed from the unrelocated bytes, the base and the resolver, and changes no byte
  outside the fields and the sites of pool calls.\<close>

theorem relocation_writes_fields:
  assumes "length (cf_bytes f) < 2 ^ 48"
  shows "case relocate f base resolve of Inl e \<Rightarrow> True
    | Inr b \<Rightarrow>
       length b = length (cf_bytes f) \<and>
       list_all (\<lambda>r. read_at b (rel_offset r) (field_bytes (rel_kind r)) =
                    take_bit (8 * field_bytes (rel_kind r)) (field_value f base resolve r)) (cf_relocations f) \<and>
       {i. i < length b \<and> b ! i \<noteq> cf_bytes f ! i} \<subseteq>
         (\<Union>(lo, hi) \<in> set (occupied (cf_relocations f) @ call_sites f). {lo..<hi})"
  by (rule relocation_effect [OF assms])

section \<open>A small artifact\<close>

text \<open>Sixteen zero bytes with a local address in the first half and a symbol's address in the second.\<close>

definition sample :: "(nat, nat) compiled" where
  "sample = \<lparr>cf_module = ''m'', cf_name = ''f'', cf_architecture = ArchX86_64, cf_identity = 7, cf_bytes = replicate 16 0,
     cf_labels = [],
     cf_relocations = [\<lparr>rel_kind = LocalAddress, rel_offset = 0, rel_shift = 0, rel_symbol = None, rel_builtin = None, rel_displacement = 0\<rparr>,
       \<lparr>rel_kind = AbsoluteSymbol, rel_offset = 8, rel_shift = 0, rel_symbol = Some 3, rel_builtin = None, rel_displacement = 5\<rparr>],
     cf_constants = []\<rparr>"

lemma get_le_zero [simp]: "get_le (replicate n 0) = 0"
  by (induction n) auto

lemma read_at_zero [simp]: "read_at (replicate n 0) at k = 0"
  by (simp add: read_at_def)

lemma sample_verified: "verify_compiled sample = Inr ()"
  by (simp add: verify_compiled_def sample_def verify_relocation_def Let_def field_bytes_def no_overlap_def occupied_def
      verify_pool_def)

lemma sample_relocates: "has_value (relocate sample 0x1000 (Some (\<lambda>_. Inr 0x2000)))"
  by (simp add: relocate_def sample_verified) (simp add: sample_def relocate_field_def resolve_symbol_def Let_def)

theorem relocation_writes_fields_witness:
  "case relocate sample 0x1000 (Some (\<lambda>_. Inr 0x2000)) of Inl e \<Rightarrow> False
   | Inr b \<Rightarrow> length b = 16 \<and> read_at b 0 8 = 0x1000 \<and> read_at b 8 8 = 0x2005"
proof -
  obtain b where b: "relocate sample 0x1000 (Some (\<lambda>_. Inr 0x2000)) = Inr b"
    using sample_relocates by (auto simp: has_value_iff)
  have s: "length (cf_bytes sample) < 2 ^ 48" by (simp add: sample_def)
  show ?thesis
    using relocation_writes_fields [OF s, where base = "0x1000" and resolve = "Some (\<lambda>_. Inr 0x2000)"] b
    by (simp add: sample_def field_bytes_def field_value_def resolved_address_def)
qed

section \<open>Wide moves\<close>

lemma mask16: "(0xffff :: u64) = mask 16"
  by (simp add: mask_eq_exp_minus_1)

lemma bit_wide_patch:
  "bit (wide_patch w a s) k \<longleftrightarrow> (if 5 \<le> k \<and> k < 21 then bit a (s + k - 5) else bit w k \<and> k < 64)"
  by (auto simp: wide_patch_def mask16 bit_simps dest: bit_imp_le_length)

text \<open>The immediate of a wide-move instruction, bits 5 to 20.\<close>

definition wide_immediate :: "u64 \<Rightarrow> u64" where
  "wide_immediate w = drop_bit 5 w AND 0xffff"

lemma bit_wide_immediate: "bit (wide_immediate (wide_patch w a s)) k \<longleftrightarrow> k < 16 \<and> bit a (s + k)"
  by (auto simp: wide_immediate_def mask16 bit_wide_patch bit_simps)

text \<open>C34: the four patched wide moves of an address carry its four 16-bit parts, so the sequence rebuilds the
  address, and every other bit of each instruction is kept.\<close>

theorem wide_moves_rebuild_address:
  "(wide_immediate (wide_patch w0 a 0) OR push_bit 16 (wide_immediate (wide_patch w1 a 16)) OR
      push_bit 32 (wide_immediate (wide_patch w2 a 32)) OR push_bit 48 (wide_immediate (wide_patch w3 a 48)) = a) \<and>
   wide_patch w a s AND NOT (push_bit 5 0xffff) = w AND NOT (push_bit 5 0xffff)"
proof
  show "wide_immediate (wide_patch w0 a 0) OR push_bit 16 (wide_immediate (wide_patch w1 a 16)) OR
      push_bit 32 (wide_immediate (wide_patch w2 a 32)) OR push_bit 48 (wide_immediate (wide_patch w3 a 48)) = a"
  proof (rule bit_word_eqI)
    fix k assume k: "k < LENGTH(64)"
    consider "k < 16" | "16 \<le> k" "k < 32" | "32 \<le> k" "k < 48" | "48 \<le> k" by linarith
    then show "bit (wide_immediate (wide_patch w0 a 0) OR push_bit 16 (wide_immediate (wide_patch w1 a 16)) OR
      push_bit 32 (wide_immediate (wide_patch w2 a 32)) OR push_bit 48 (wide_immediate (wide_patch w3 a 48))) k = bit a k"
      using k by cases (auto simp: bit_wide_immediate bit_or_iff bit_push_bit_iff)
  qed
  show "wide_patch w a s AND NOT (push_bit 5 0xffff) = w AND NOT (push_bit 5 0xffff)"
    by (rule bit_word_eqI) (auto simp: mask16 bit_wide_patch bit_simps)
qed

section \<open>Pool calls keep their target\<close>

text \<open>Where control goes from the six bytes at a position: through a 32-bit pc-relative cell, or directly; the
  second component tells a call from a jump.\<close>

definition transfer :: "bytes \<Rightarrow> u64 \<Rightarrow> nat \<Rightarrow> (bool \<times> u64) option" where
  "transfer b base at =
    (if b ! at = 0xff \<and> b ! (at + 1) \<in> {0x15, 0x25}
     then Some (b ! (at + 1) = 0x15, read_at b (at + 6 + unat (read_at b (at + 2) 4)) 8)
     else if b ! at = 0x40 \<and> b ! (at + 1) \<in> {0xe8, 0xe9}
     then Some (b ! (at + 1) = 0xe8, base + of_nat (at + 6) + signed_take_bit 31 (read_at b (at + 2) 4))
     else None)"

lemma unat_less_of_uint: "uint w < 2 ^ k \<Longrightarrow> unat w < 2 ^ k"
proof -
  assume "uint w < 2 ^ k"
  then have "int (unat w) < int (2 ^ k)" by simp
  then show ?thesis by (simp only: of_nat_less_iff)
qed

lemma near_difference:
  fixes d :: u64
  assumes "d \<le> of_nat INT32_MAX \<or> - 1 - of_nat INT32_MAX \<le> d"
  shows "signed_take_bit 31 (take_bit 32 d) = d"
proof -
  have e: "signed_take_bit 31 (take_bit 32 d) = signed_take_bit 31 d"
    by (rule bit_word_eqI) (auto simp: bit_signed_take_bit_iff bit_take_bit_iff)
  show ?thesis
  proof (cases "d \<le> of_nat INT32_MAX")
    case True
    then have "unat d < 2 ^ 31" by (simp add: word_le_nat_alt)
    then have t: "take_bit 31 d = d"
      by (metis unsigned_take_bit_eq unsigned_word_eqI take_bit_nat_eq_self)
    then have "\<not> bit d k" if "31 \<le> k" for k using that by (metis bit_take_bit_iff not_le)
    then show ?thesis unfolding e by (intro bit_word_eqI) (auto simp: bit_signed_take_bit_iff min_def)
  next
    case False
    with assms have "- 1 - of_nat INT32_MAX \<le> d" by simp
    then have "18446744071562067968 \<le> uint d" by (simp add: word_le_def)
    moreover have "uint (NOT d) = 18446744073709551615 - uint d"
      using take_bit_int_eq_self [of "uint d" 64] uint_bounded [of d]
      by (simp add: unsigned_not_eq take_bit_not_eq_mask_diff mask_eq_exp_minus_1)
    ultimately have "uint (NOT d) < 2 ^ 31" by simp
    then have "unat (NOT d) < 2 ^ 31" by (rule unat_less_of_uint)
    then have t: "take_bit 31 (NOT d) = NOT d"
      by (metis unsigned_take_bit_eq unsigned_word_eqI take_bit_nat_eq_self)
    then have "\<not> bit (NOT d) k" if "31 \<le> k" for k using that by (metis bit_take_bit_iff not_le)
    then have "bit d k" if "31 \<le> k" "k < 64" for k using that by (auto simp: bit_not_iff simp del: not_one_eq)
    then show ?thesis unfolding e by (intro bit_word_eqI) (auto simp: bit_signed_take_bit_iff min_def)
  qed
qed


text \<open>C17: rewriting a pool call, if its site and cell are as verification found them, leaves where it goes and
  whether it is a call or a jump unchanged, and changes only the six bytes of the site.\<close>

theorem pool_call_keeps_target:
  assumes "pool_call c" "2 \<le> pool_reference c" "pool_next c = pool_reference c + 4" "pool_next c \<le> pool_offset c"
    "pool_offset c + 8 \<le> length b" "unat (read_at b (pool_reference c) 4) = pool_offset c - pool_next c"
    "b ! (pool_reference c - 2) = 0xff" "b ! (pool_reference c - 1) \<in> {0x15, 0x25}"
    "cf_bytes f ! (pool_reference c - 1) = b ! (pool_reference c - 1)"
  shows "transfer (relocate_call f base b c) base (pool_reference c - 2) = transfer b base (pool_reference c - 2) \<and>
    transfer b base (pool_reference c - 2) = Some (b ! (pool_reference c - 1) = 0x15, read_at b (pool_offset c) 8) \<and>
    {i. relocate_call f base b c ! i \<noteq> b ! i \<and> i < length b} \<subseteq> {pool_reference c - 2..<pool_reference c + 4}"
proof -
  obtain r where r: "pool_reference c = r + 2" using assms(2) by (metis le_Suc_ex add.commute)
  define d where "d = read_at b (pool_offset c) 8 - (base + of_nat (pool_next c))"
  have fit: "r + 6 \<le> length b" using assms(3,4,5) r by simp
  have cell: "r + 6 + unat (read_at b (r + 2) 4) = pool_offset c" using assms(3,4,6) r by simp
  have T: "transfer b base r = Some (b ! (r + 1) = 0x15, read_at b (pool_offset c) 8)"
    using assms(7,8) cell by (simp add: transfer_def r)
  have out: "{i. relocate_call f base b c ! i \<noteq> b ! i \<and> i < length b} \<subseteq> {r..<r + 6}"
  proof
    fix i assume i: "i \<in> {i. relocate_call f base b c ! i \<noteq> b ! i \<and> i < length b}"
    have "site_in b c" using assms(1,2) fit r by (simp add: site_in_def)
    from relocate_call_other(2) [OF this, of i f base] i show "i \<in> {r..<r + 6}"
      by (cases "i < r \<or> r + 6 \<le> i") (use assms(1) r in \<open>auto simp: call_site_def\<close>)
  qed
  show ?thesis
  proof (cases "d \<le> of_nat INT32_MAX \<or> - 1 - of_nat INT32_MAX \<le> d")
    case False
    then have "relocate_call f base b c = b" using assms(1) by (simp add: relocate_call_def Let_def d_def)
    then show ?thesis using T r by simp
  next
    case True
    define p where "p = b[r := 0x40, r + 1 := (if b ! (r + 1) = 0x25 then 0xe9 else 0xe8)]"
    have w: "relocate_call f base b c = write_at p (r + 2) d 4"
      using True assms(1,9) by (simp add: relocate_call_def Let_def d_def [symmetric] r p_def)
    have lp: "length p = length b" by (simp add: p_def)
    have n: "write_at p (r + 2) d 4 ! r = 0x40" "write_at p (r + 2) d 4 ! (r + 1) = (if b ! (r + 1) = 0x25 then 0xe9 else 0xe8)"
      using fit lp by (simp_all add: nth_write_at p_def)
    have rd: "read_at (write_at p (r + 2) d 4) (r + 2) 4 = take_bit 32 d"
      using fit lp read_write_same [of "r + 2" 4 p d] by simp
    have "base + of_nat (r + 6) + d = read_at b (pool_offset c) 8"
      using assms(3) r by (simp add: d_def)
    then have "transfer (relocate_call f base b c) base r = Some (b ! (r + 1) = 0x15, read_at b (pool_offset c) 8)"
      using n rd near_difference [OF True] assms(8) by (auto simp: w transfer_def r)
    with T show ?thesis using out r by (simp add: add.commute)
  qed
qed

theorem pool_call_keeps_target_witness:
  "transfer (relocate_call (sample\<lparr>cf_bytes := [0xff, 0x15, 0, 0, 0, 0] @ replicate 8 0\<rparr>) 0 ([0xff, 0x15, 0, 0, 0, 0] @ replicate 8 0)
     \<lparr>pool_offset = 6, pool_reference = 2, pool_next = 6, pool_call = True\<rparr>) 0 0 = Some (True, 0)"
  using pool_call_keeps_target [where f = "sample\<lparr>cf_bytes := [0xff, 0x15, 0, 0, 0, 0] @ replicate 8 0\<rparr>" and base = 0 and
      c = "\<lparr>pool_offset = 6, pool_reference = 2, pool_next = 6, pool_call = True\<rparr>" and b = "[0xff, 0x15, 0, 0, 0, 0] @ replicate 8 0"]
  by (simp add: read_at_def)

section \<open>Labels\<close>

lemma verify_labelsD:
  "verify_labels f n ords names ls = Inr () \<Longrightarrow> k < length ls \<Longrightarrow>
    lr_label (ls ! k) = \<lparr>lh_index = n + k, lh_owner = cf_identity f\<rparr> \<and> lr_offset (ls ! k) \<le> length (cf_bytes f) \<and>
    (lr_name (ls ! k) \<noteq> [] \<longrightarrow> lr_name (ls ! k) \<notin> set names \<and> find_label_in ls (lr_name (ls ! k)) = Some (lr_label (ls ! k)))"
proof (induction f n ords names ls arbitrary: k rule: verify_labels.induct)
  case (2 f n ords names l ls)
  from "2.prems"(1) have c: "lr_label l = \<lparr>lh_index = n, lh_owner = cf_identity f\<rparr>" "lr_offset l \<le> length (cf_bytes f)"
    "lr_name l = [] \<or> lr_name l \<notin> set names"
    and v: "verify_labels f (n + 1) (case lr_ordinal l of Some k \<Rightarrow> k # ords | None \<Rightarrow> ords)
        (if lr_name l \<noteq> [] then lr_name l # names else names) ls = Inr ()"
    by (cases "lr_label l"; auto split: if_splits)+
  show ?case
  proof (cases k)
    case 0
    then show ?thesis using c by auto
  next
    case (Suc j)
    have IH: "lr_label (ls ! j) = \<lparr>lh_index = n + 1 + j, lh_owner = cf_identity f\<rparr> \<and> lr_offset (ls ! j) \<le> length (cf_bytes f) \<and>
      (lr_name (ls ! j) \<noteq> [] \<longrightarrow> lr_name (ls ! j) \<notin> set (if lr_name l \<noteq> [] then lr_name l # names else names) \<and>
         find_label_in ls (lr_name (ls ! j)) = Some (lr_label (ls ! j)))"
      using "2.IH" "2.prems" v Suc by (auto split: if_splits)
    then show ?thesis using Suc by (auto split: if_splits)
  qed
qed simp

text \<open>C35: in a verified artifact every named label is found by its name, and its address is the base plus its offset,
  which lies within the code.\<close>

theorem label_address_roundtrip:
  "case verify_compiled f of Inl e \<Rightarrow> \<not> has_value (label_addresses f base refs)
   | Inr _ \<Rightarrow> list_all (\<lambda>l. (lr_name l = [] \<or> find_label f (lr_name l) = Inr (lr_label l)) \<and>
        label_addresses f base [\<lparr>la_label = lr_label l, la_relative = None, la_displacement = d\<rparr>] = Inr [of_nat (lr_offset l) + d + base] \<and>
        lr_offset l \<le> length (cf_bytes f)) (cf_labels f)"
proof (cases "verify_compiled f")
  case (Inr u)
  have V: "verify_labels f 0 [] [] (cf_labels f) = Inr ()" using verify_compiledD(3) [OF Inr] .
  show ?thesis
    using verify_labelsD [OF V] Inr
    by (auto simp: list_all_length label_addresses_def label_offset_def find_label_def)
qed (simp add: label_addresses_def)

end
