(* ===== verification/CompiledBlock.thy ===== *)
theory CompiledBlock
  imports CompiledFunction
begin

text \<open>
  \<open>lib/CodeGen/CompiledBlock.cpp\<close>: a separately published block, whose branches to other blocks are
  successor relocations over an artifact.  A version identity is an owner and an index.  The 32-bit
  instruction words of the code are kept in the 64-bit words its \<open>read\<close> returns.
\<close>

section \<open>Block artifacts\<close>

record version_id =
  vi_owner :: nat
  vi_index :: nat

definition same_program :: "version_id \<Rightarrow> version_id \<Rightarrow> bool" where
  "same_program a b \<longleftrightarrow> vi_owner a = vi_owner b"

datatype successor_kind = Branch26 | Branch19 | Address21 | Relative32 | AbsoluteAddress

record block_relocation =
  br_kind :: successor_kind
  br_offset :: nat
  br_next :: nat
  br_target :: version_id

record ('s, 'b) compiled_block =
  cb_version :: version_id
  cb_code :: "('s, 'b) compiled"
  cb_successors :: "block_relocation list"

definition block_prefix :: "('s, 'b) compiled_block \<Rightarrow> string" where
  "block_prefix k = cf_module (cb_code k) @ ''/'' @ cf_name (cb_code k) @ '' [bbv-relocate #'' @ decimal (vi_index (cb_version k)) @ '']: ''"

definition block_invalid :: "('s, 'b) compiled_block \<Rightarrow> string \<Rightarrow> 'a result" where
  "block_invalid k why =
    mk_error InvalidOperand (block_prefix k @ why)"

section \<open>Branch fields\<close>

text \<open>\<open>aarch64_branch_displacement\<close> of \<open>lib/CodeGen/AArch64Encoding.cpp\<close>.\<close>

definition aarch64_branch_displacement :: "int \<Rightarrow> bool \<Rightarrow> u64 result" where
  "aarch64_branch_displacement d short_branch =
    (let bits = (if short_branch then 19 else 26); limit = 2 ^ (bits + 1)
     in if d mod 4 \<noteq> 0 \<or> d < - limit \<or> limit \<le> d
        then mk_error InvalidOperand ''aarch64 branch displacement out of range''
        else let v = word_of_int (d div 4) AND mask bits
             in Inr (if short_branch then push_bit 5 v else v))"

definition difference :: "u64 \<Rightarrow> u64 \<Rightarrow> int \<Rightarrow> int \<Rightarrow> int result" where
  "difference target origin low high =
    (if origin \<le> target
     then (let d = target - origin
           in if d \<le> word_of_int high then Inr (uint d)
              else mk_error InvalidOperand ''successor displacement out of range'')
     else (let d = origin - target
           in if d \<le> word_of_int (- (low + 1)) + 1 then Inr (- uint d)
              else mk_error InvalidOperand ''successor displacement out of range''))"

section \<open>Verification\<close>

definition successor_bytes :: "successor_kind \<Rightarrow> nat" where
  "successor_bytes k = (if k = AbsoluteAddress then 8 else 4)"

definition successor_spans :: "block_relocation \<Rightarrow> (nat \<times> nat) list" where
  "successor_spans r =
    (if br_kind r = Branch19 then [(br_offset r + 8, br_offset r + 12)] else []) @
    [(br_offset r, br_offset r + successor_bytes (br_kind r))]"

definition verify_word :: "('s, 'b) compiled_block \<Rightarrow> block_relocation \<Rightarrow> unit result" where
  "verify_word k r =
    (let b = cf_bytes (cb_code k); w = read_at b (br_offset r) 4
     in case br_kind r of
       Branch26 \<Rightarrow> if w AND 0x7c000000 \<noteq> 0x14000000 \<or> w AND 0x3ffffff \<noteq> 0
                   then block_invalid k ''invalid branch26 opcode'' else Inr ()
     | Address21 \<Rightarrow> if w AND 0x9f000000 \<noteq> 0x10000000 \<or> w AND 0x60ffffe0 \<noteq> 0
                    then block_invalid k ''invalid adr opcode'' else Inr ()
     | Branch19 \<Rightarrow>
         if (w AND 0xff000010 \<noteq> 0x54000000 \<and> w AND 0x7e000000 \<noteq> 0x34000000) \<or> w AND 0xffffe0 \<noteq> 0
         then block_invalid k ''invalid branch19 opcode''
         else if length b - br_offset r < 12 \<or> read_at b (br_offset r + 8) 4 \<noteq> 0xd503201f
         then block_invalid k ''missing conditional expansion slot'' else Inr ()
     | _ \<Rightarrow> block_invalid k ''unknown successor relocation'')"

definition verify_successor :: "('s, 'b) compiled_block \<Rightarrow> block_relocation \<Rightarrow> unit result" where
  "verify_successor k r =
    (let f = cb_code k; b = cf_bytes f; arm = (cf_architecture f = ArchAArch64); sz = successor_bytes (br_kind r)
     in if \<not> same_program (cb_version k) (br_target r) then block_invalid k ''foreign successor identity''
        else if length b < br_offset r \<or> length b - br_offset r < sz \<or> (arm \<and> br_offset r mod 4 \<noteq> 0)
        then block_invalid k ''invalid successor offset''
        else rbind
          (if br_kind r = AbsoluteAddress
           then (if br_offset r mod 8 \<noteq> 0 \<or> br_next r \<noteq> 0 \<or> read_at b (br_offset r) 8 \<noteq> 0
                 then block_invalid k ''invalid absolute successor'' else Inr ())
           else if br_kind r = Relative32
           then (if arm \<or> br_next r < br_offset r + 4 \<or> length b < br_next r \<or> read_at b (br_offset r) 4 \<noteq> 0
                 then block_invalid k ''invalid x86 successor'' else Inr ())
           else if \<not> arm \<or> br_next r \<noteq> 0 then block_invalid k ''invalid aarch64 successor''
           else verify_word k r)
          (\<lambda>_. if cf_constants f \<noteq> [] \<and> pool_offset (cf_constants f ! 0) \<le> br_offset r
               then block_invalid k ''successor inside constant pool'' else Inr ()))"

definition block_occupied :: "('s, 'b) compiled_block \<Rightarrow> (nat \<times> nat) list" where
  "block_occupied k =
    occupied (cf_relocations (cb_code k)) @
    map (\<lambda>c. (pool_reference c, pool_reference c + 4)) (cf_constants (cb_code k)) @
    concat (map successor_spans (cb_successors k))"

definition verify_block :: "('s, 'b) compiled_block \<Rightarrow> unit result" where
  "verify_block k =
    rbind (verify_compiled (cb_code k)) (\<lambda>_.
    rbind (verify_all (verify_successor k) (cb_successors k)) (\<lambda>_.
      if \<not> no_overlap (block_occupied k) then block_invalid k ''overlapping successor relocation'' else Inr ()))"

definition finish_block :: "version_id \<Rightarrow> ('s, 'b) compiled \<Rightarrow> block_relocation list \<Rightarrow> ('s, 'b) compiled_block result" where
  "finish_block v f ss =
    (let k = \<lparr>cb_version = v, cb_code = f, cb_successors = ss\<rparr> in rbind (verify_block k) (\<lambda>_. Inr k))"

section \<open>Relocation\<close>

type_synonym block_resolver = "(version_id \<Rightarrow> u64 result) option"

text \<open>Resolved addresses are remembered by the index of the target, which verification has tied to this program.\<close>

definition resolve_successor :: "('s, 'b) compiled_block \<Rightarrow> block_resolver \<Rightarrow> block_relocation \<Rightarrow> (nat \<times> u64) list \<Rightarrow>
    (u64 \<times> (nat \<times> u64) list) result" where
  "resolve_successor k resolve r known =
    (case resolve of None \<Rightarrow> block_invalid k ''unresolved block successor''
     | Some g \<Rightarrow>
        (case map_of known (vi_index (br_target r)) of
           Some v \<Rightarrow> Inr (v, known)
         | None \<Rightarrow>
            (case g (br_target r) of
               Inl e \<Rightarrow> Inl \<lparr>code = code e, message = block_prefix k @ message e\<rparr>
             | Inr v \<Rightarrow> Inr (v, (vi_index (br_target r), v) # known))))"

definition displacement_range :: "successor_kind \<Rightarrow> nat" where
  "displacement_range k = (if k = Address21 then 20 else if k = Relative32 then 31 else 27)"

definition address21_bits :: "int \<Rightarrow> u64" where
  "address21_bits d = (let v = word_of_int d AND 0x1fffff in push_bit 29 (v AND 3) OR push_bit 5 (drop_bit 2 v))"

definition patch_branch :: "('s, 'b) compiled_block \<Rightarrow> block_relocation \<Rightarrow> int \<Rightarrow> bytes \<Rightarrow> bytes result" where
  "patch_branch k r d b =
    (let off = br_offset r; w = read_at b off 4
     in if br_kind r = Relative32 then Inr (write_at b off (word_of_int d) 4)
        else if br_kind r = Address21 then Inr (write_at b off (w OR address21_bits d) 4)
        else if br_kind r = Branch19 \<and> (d < - (2 ^ 20) \<or> 2 ^ 20 \<le> d)
        then (case aarch64_branch_displacement (d - 8) False of
                Inl e \<Rightarrow> block_invalid k (message e)
              | Inr v \<Rightarrow> Inr (write_at (write_at b off (w OR push_bit 5 2) 4) (off + 8) (0x14000000 OR v) 4))
        else (case aarch64_branch_displacement d (br_kind r = Branch19) of
                Inl e \<Rightarrow> block_invalid k (message e)
              | Inr v \<Rightarrow> Inr (write_at b off (w OR v) 4)))"

definition patch_successor :: "('s, 'b) compiled_block \<Rightarrow> u64 \<Rightarrow> block_relocation \<Rightarrow> u64 \<Rightarrow> bytes \<Rightarrow> bytes result" where
  "patch_successor k base r address b =
    (if cf_architecture (cb_code k) = ArchAArch64 \<and> unat address mod 4 \<noteq> 0
     then block_invalid k ''unaligned block successor''
     else if br_kind r = AbsoluteAddress then Inr (write_at b (br_offset r) address 8)
     else let origin = base + of_nat (if br_kind r = Relative32 then br_next r else br_offset r);
              range = displacement_range (br_kind r)
          in case difference address origin (- (2 ^ range)) (2 ^ range - 1) of
               Inl e \<Rightarrow> block_invalid k (message e)
             | Inr d \<Rightarrow> patch_branch k r d b)"

fun relocate_successors :: "('s, 'b) compiled_block \<Rightarrow> u64 \<Rightarrow> block_resolver \<Rightarrow> block_relocation list \<Rightarrow>
    bytes \<times> (nat \<times> u64) list \<Rightarrow> bytes result" where
  "relocate_successors k base resolve [] st = Inr (fst st)"
| "relocate_successors k base resolve (r # rs) st =
    rbind (resolve_successor k resolve r (snd st)) (\<lambda>(address, known).
    rbind (patch_successor k base r address (fst st)) (\<lambda>b.
      relocate_successors k base resolve rs (b, known)))"

definition relocate_block :: "('s, 'b) compiled_block \<Rightarrow> u64 \<Rightarrow> block_resolver \<Rightarrow> ('s, 'b) resolver \<Rightarrow> bytes result" where
  "relocate_block k base resolve symbols =
    rbind (verify_block k) (\<lambda>_.
    rbind (relocate (cb_code k) base symbols) (\<lambda>b.
      relocate_successors k base resolve (cb_successors k) (b, [])))"

section \<open>Displacements\<close>

lemma signed_displacement:
  "- (2 ^ n) \<le> d \<Longrightarrow> d < 2 ^ n \<Longrightarrow> signed_take_bit n (take_bit (Suc n) (word_of_int d :: u64)) = word_of_int d"
proof -
  assume d: "- (2 ^ n) \<le> d" "d < 2 ^ n"
  have "signed_take_bit n (take_bit (Suc n) (word_of_int d :: u64)) = signed_take_bit n (word_of_int d)"
    by (rule bit_word_eqI) (auto simp: bit_signed_take_bit_iff bit_take_bit_iff min_def)
  also have "\<dots> = word_of_int (signed_take_bit n d)"
    by (rule bit_word_eqI) (auto simp: bit_signed_take_bit_iff bit_word_of_int_iff)
  also have "signed_take_bit n d = d" using d by (rule signed_take_bit_int_eq_self)
  finally show ?thesis .
qed

lemma difference_ok:
  assumes "difference t s (- (2 ^ n)) (2 ^ n - 1) = Inr d" "n < 62"
  shows "word_of_int d = t - s" "- (2 ^ n) \<le> d" "d < 2 ^ n"
proof -
  have p: "(2::int) ^ n \<le> 2 ^ 61" using assms(2) by (intro power_increasing) auto
  have h: "uint (word_of_int (2 ^ n - 1) :: u64) = 2 ^ n - 1"
    unfolding uint_word_of_int using p by (intro mod_pos_pos_trivial) auto
  have "word_of_int (- (- (2 ^ n) + 1)) + 1 = (word_of_int (2 ^ n) :: u64)"
    by (simp add: wi_hom_syms)
  then have l: "uint (word_of_int (- (- (2 ^ n) + 1)) + 1 :: u64) = 2 ^ n"
    using p by (simp only: uint_word_of_int) (intro mod_pos_pos_trivial; simp)
  show "word_of_int d = t - s"
    using assms(1) by (auto simp: difference_def Let_def mk_error_def wi_hom_neg [symmetric] split: if_splits)
  have u: "0 \<le> uint (t - s)" "0 \<le> uint (s - t)" "(0::int) < 2 ^ n" by simp_all
  have "(d = uint (t - s) \<and> uint (t - s) \<le> 2 ^ n - 1) \<or> (d = - uint (s - t) \<and> uint (s - t) \<le> 2 ^ n)"
    using assms(1) h l unfolding difference_def Let_def word_le_def mk_error_def
    by (simp only: split: if_splits) auto
  then show "- (2 ^ n) \<le> d" "d < 2 ^ n"
    using u by (auto; linarith)+
qed

section \<open>Where a branch goes\<close>

definition branch26_target :: "bytes \<Rightarrow> u64 \<Rightarrow> nat \<Rightarrow> u64" where
  "branch26_target b base at =
    base + of_nat at + signed_take_bit 27 (push_bit 2 (read_at b at 4 AND mask 26))"

text \<open>The architectures' reading of the patched instruction; a conditional branch that skips one instruction to a
  slot that no longer holds the reserved NOP goes on to where the slot's jump goes.\<close>

definition successor_target :: "bytes \<Rightarrow> u64 \<Rightarrow> block_relocation \<Rightarrow> u64" where
  "successor_target b base r =
    (let off = br_offset r; w = read_at b off 4 in
     case br_kind r of
       AbsoluteAddress \<Rightarrow> read_at b off 8
     | Relative32 \<Rightarrow> base + of_nat (br_next r) + signed_take_bit 31 w
     | Address21 \<Rightarrow> base + of_nat off + signed_take_bit 20 ((drop_bit 29 w AND mask 2) OR push_bit 2 (drop_bit 5 w AND mask 19))
     | Branch26 \<Rightarrow> branch26_target b base off
     | Branch19 \<Rightarrow>
         let d = signed_take_bit 20 (push_bit 2 (drop_bit 5 w AND mask 19))
         in if d = 8 \<and> read_at b (off + 8) 4 \<noteq> 0xd503201f then branch26_target b base (off + 8)
            else base + of_nat off + d)"

lemma mask_constants: "(0x3ffffff :: u64) = mask 26" "(0xffffe0 :: u64) = push_bit 5 (mask 19)" "(0x1fffff :: u64) = mask 21"
    "(3 :: u64) = mask 2" "(0x60ffffe0 :: u64) = push_bit 29 (mask 2) OR push_bit 5 (mask 19)"
  by (simp_all add: mask_eq_exp_minus_1 push_bit_eq_mult)

lemma scaled_field:
  assumes "d mod 4 = 0" "n \<le> 30"
  shows "push_bit 2 (word_of_int (d div 4) AND mask n) = (take_bit (n + 2) (word_of_int d) :: u64)"
proof (rule bit_word_eqI)
  fix k assume k: "k < LENGTH(64)"
  have d: "d = 4 * (d div 4)" using assms(1) by presburger
  have "bit d k = (2 \<le> k \<and> bit (d div 4) (k - 2))"
  proof -
    have "d = push_bit 2 (d div 4)" using d by (simp add: push_bit_eq_mult)
    then have "bit d k = bit (push_bit 2 (d div 4)) k" by simp
    then show ?thesis by (simp only: bit_push_bit_iff_int)
  qed
  then show "bit (push_bit 2 (word_of_int (d div 4) AND mask n) :: u64) k = bit (take_bit (n + 2) (word_of_int d) :: u64) k"
    using k assms(2) by (auto simp: bit_push_bit_iff bit_take_bit_iff bit_word_of_int_iff bit_and_iff bit_mask_iff)
qed

lemma aarch64_branch_displacement_ok:
  assumes "aarch64_branch_displacement d s = Inr v"
  shows "d mod 4 = 0" "- (2 ^ (if s then 20 else 27)) \<le> d" "d < 2 ^ (if s then 20 else 27)"
    "v = (if s then push_bit 5 (word_of_int (d div 4) AND mask 19) else word_of_int (d div 4) AND mask 26)"
  using assms by (auto simp: aarch64_branch_displacement_def Let_def mk_error_def split: if_splits)

lemma branch26_decode:
  assumes "w AND mask 26 = 0" "aarch64_branch_displacement d False = Inr v"
  shows "signed_take_bit 27 (push_bit 2 ((w OR v) AND mask 26)) = word_of_int d"
proof -
  note V = aarch64_branch_displacement_ok [OF assms(2)]
  have "(w OR v) AND mask 26 = word_of_int (d div 4) AND mask 26"
    using assms(1) V(4) by (simp add: bit.conj_disj_distrib2)
  then have "push_bit 2 ((w OR v) AND mask 26) = take_bit 28 (word_of_int d)"
    using scaled_field [OF V(1), of 26] by simp
  then show ?thesis using signed_displacement [of 27 d] V(2,3) by simp
qed

lemma branch19_decode:
  assumes "w AND push_bit 5 (mask 19) = 0" "aarch64_branch_displacement d True = Inr v"
  shows "signed_take_bit 20 (push_bit 2 (drop_bit 5 (w OR v) AND mask 19)) = word_of_int d"
proof -
  note V = aarch64_branch_displacement_ok [OF assms(2)]
  have z: "drop_bit 5 w AND mask 19 = 0"
  proof (rule bit_word_eqI)
    fix k assume "k < LENGTH(64)"
    show "bit (drop_bit 5 w AND mask 19) k = bit 0 k"
      using arg_cong [OF assms(1), of "\<lambda>x. bit x (5 + k)"] by (auto simp: bit_simps)
  qed
  have v: "drop_bit 5 v = word_of_int (d div 4) AND mask 19"
    using V(4) by (intro bit_word_eqI) (auto simp: bit_simps)
  have "drop_bit 5 (w OR v) AND mask 19 = word_of_int (d div 4) AND mask 19"
    using z by (simp add: drop_bit_or v bit.conj_disj_distrib2 and.assoc)
  then have "push_bit 2 (drop_bit 5 (w OR v) AND mask 19) = take_bit 21 (word_of_int d)"
    using scaled_field [OF V(1), of 19] by simp
  then show ?thesis using signed_displacement [of 20 d] V(2,3) by simp
qed

lemma address21_decode:
  assumes "w AND (push_bit 29 (mask 2) OR push_bit 5 (mask 19)) = 0" "- (2 ^ 20) \<le> d" "d < 2 ^ 20"
  shows "signed_take_bit 20 ((drop_bit 29 (w OR address21_bits d) AND mask 2) OR
    push_bit 2 (drop_bit 5 (w OR address21_bits d) AND mask 19)) = word_of_int d"
proof -
  have "(drop_bit 29 (w OR address21_bits d) AND mask 2) OR push_bit 2 (drop_bit 5 (w OR address21_bits d) AND mask 19)
      = take_bit 21 (word_of_int d)"
  proof (rule bit_word_eqI)
    fix k assume k: "k < LENGTH(64)"
    have w: "\<not> bit w j" if "(5 \<le> j \<and> j < 24) \<or> j = 29 \<or> j = 30" for j
      using arg_cong [OF assms(1), of "\<lambda>x. bit x j"] that
      by (auto simp: bit_simps)
    consider "k = 0" | "k = 1" | j where "k = j + 2" "j < 19" | j where "k = j + 2" "19 \<le> j"
      by (metis One_nat_def Suc_1 add.commute add_2_eq_Suc le_Suc_ex less_Suc0 not_less_eq not_le nat_neq_iff less_2_cases)
    then show "bit ((drop_bit 29 (w OR address21_bits d) AND mask 2) OR push_bit 2 (drop_bit 5 (w OR address21_bits d) AND mask 19)) k
      = bit (take_bit 21 (word_of_int d) :: u64) k"
      using k w [of 29] w [of 30] w [of "5 + (k - 2)"]
      by cases (auto simp: address21_bits_def Let_def mask_constants bit_simps)
  qed
  then show ?thesis using signed_displacement [of 20 d] assms(2,3) by simp
qed

section \<open>Patching one successor\<close>

lemma verify_successorD:
  assumes "verify_successor k r = Inr u"
  shows "br_offset r + successor_bytes (br_kind r) \<le> length (cf_bytes (cb_code k))"
    "br_kind r = AbsoluteAddress \<Longrightarrow> read_at (cf_bytes (cb_code k)) (br_offset r) 8 = 0"
    "br_kind r = Relative32 \<Longrightarrow> read_at (cf_bytes (cb_code k)) (br_offset r) 4 = 0"
    "br_kind r \<noteq> AbsoluteAddress \<Longrightarrow> br_kind r \<noteq> Relative32 \<Longrightarrow> cf_architecture (cb_code k) = ArchAArch64 \<and> verify_word k r = Inr ()"
  using assms by (auto simp: verify_successor_def Let_def rbind_eq_Inr block_invalid_def split: if_splits)

lemma verify_wordD:
  assumes "verify_word k r = Inr ()"
  shows "br_kind r = Branch26 \<Longrightarrow> read_at (cf_bytes (cb_code k)) (br_offset r) 4 AND mask 26 = 0"
    "br_kind r = Address21 \<Longrightarrow> read_at (cf_bytes (cb_code k)) (br_offset r) 4 AND (push_bit 29 (mask 2) OR push_bit 5 (mask 19)) = 0"
    "br_kind r = Branch19 \<Longrightarrow> read_at (cf_bytes (cb_code k)) (br_offset r) 4 AND push_bit 5 (mask 19) = 0 \<and>
       br_offset r + 12 \<le> length (cf_bytes (cb_code k)) \<and> read_at (cf_bytes (cb_code k)) (br_offset r + 8) 4 = 0xd503201f"
  using assms by (auto simp: verify_word_def Let_def block_invalid_def mask_constants split: if_splits)

text \<open>A patch is made of writes inside the successor's own spans.\<close>

definition within_spans :: "block_relocation \<Rightarrow> bytes \<Rightarrow> bytes \<Rightarrow> bool" where
  "within_spans r b b' \<longleftrightarrow> length b' = length b \<and>
    (\<forall>i<length b. (\<forall>s\<in>set (successor_spans r). i < fst s \<or> snd s \<le> i) \<longrightarrow> b' ! i = b ! i)"

lemma patch_successor_spans:
  assumes "patch_successor k base r address b = Inr b'"
    "list_all (\<lambda>s. snd s \<le> length b) (successor_spans r)"
  shows "within_spans r b b'"
  using assms
  by (auto simp: patch_successor_def patch_branch_def block_invalid_def Let_def within_spans_def successor_spans_def
      successor_bytes_def nth_write_at split: if_splits sum.splits)

lemma take_bit_64 [simp]: "take_bit 64 (x :: u64) = x"
  by (rule bit_word_eqI) (simp add: bit_take_bit_iff)

lemma low_fields:
  fixes x :: u64
  shows "take_bit 32 x AND mask 26 = x AND mask 26" "drop_bit 5 (take_bit 32 x) AND mask 19 = drop_bit 5 x AND mask 19"
    "drop_bit 29 (take_bit 32 x) AND mask 2 = drop_bit 29 x AND mask 2" "signed_take_bit 31 (take_bit 32 x) = signed_take_bit 31 x"
  by (rule bit_word_eqI; auto simp: bit_simps min_def)+

lemma origin_cancel: "word_of_int d = t - (s :: u64) \<Longrightarrow> s + word_of_int d = t"
  by simp

lemma branch26_reaches:
  assumes "read_at b off 4 = take_bit 32 (w OR v)" "w AND mask 26 = 0" "aarch64_branch_displacement d False = Inr v"
  shows "branch26_target b base off = base + of_nat off + word_of_int d"
  by (simp only: branch26_target_def assms(1) low_fields branch26_decode [OF assms(2,3)])

lemma skip_slot:
  assumes "w AND push_bit 5 (mask 19) = 0"
  shows "signed_take_bit 20 (push_bit 2 (drop_bit 5 (take_bit 32 (w OR push_bit 5 2)) AND mask 19)) = (8 :: u64)"
proof -
  have "drop_bit 5 (take_bit 32 (w OR push_bit 5 2)) AND mask 19 = (2 :: u64)"
  proof (rule bit_word_eqI)
    fix k assume k: "k < LENGTH(64)"
    show "bit (drop_bit 5 (take_bit 32 (w OR push_bit 5 2)) AND mask 19) k = bit (2 :: u64) k"
      unfolding low_fields using k arg_cong [OF assms, of "\<lambda>x. bit x (5 + k)"]
      by (auto simp: bit_simps)
  qed
  then show ?thesis by (simp add: push_bit_eq_mult)
qed

lemma slot_not_nop: "aarch64_branch_displacement d False = Inr v \<Longrightarrow> take_bit 32 (0x14000000 OR v) \<noteq> 0xd503201f"
proof
  assume a: "aarch64_branch_displacement d False = Inr v" "take_bit 32 (0x14000000 OR v) = 0xd503201f"
  have "\<not> bit v 31" using aarch64_branch_displacement_ok(4) [OF a(1)] by (simp add: bit_simps)
  then have "\<not> bit (take_bit 32 (0x14000000 OR v)) 31" by (simp add: bit_simps)
  then show False using a(2) by simp
qed

lemma patch_successor_reaches:
  assumes v: "verify_successor k r = Inr ()" and p: "patch_successor k base r address b = Inr b'"
    and len: "length b = length (cf_bytes (cb_code k))"
    and same: "\<And>s. s \<in> set (successor_spans r) \<Longrightarrow> read_at b (fst s) (snd s - fst s) = read_at (cf_bytes (cb_code k)) (fst s) (snd s - fst s)"
  shows "successor_target b' base r = address"
proof (cases "br_kind r = AbsoluteAddress")
  case True
  then show ?thesis
    using p verify_successorD(1) [OF v] len
    by (auto simp: patch_successor_def block_invalid_def successor_target_def successor_bytes_def bytes_simps split: if_splits)
next
  case na: False
  let ?off = "br_offset r" and ?w = "read_at b (br_offset r) 4" and ?o = "cf_bytes (cb_code k)"
  have fit: "?off + 4 \<le> length b" using verify_successorD(1) [OF v] na len by (simp add: successor_bytes_def)
  have w: "?w = read_at ?o ?off 4" using same [of "(?off, ?off + 4)"] na by (simp add: successor_spans_def successor_bytes_def)
  define s where "s = base + of_nat (if br_kind r = Relative32 then br_next r else ?off)"
  from p na obtain d where d: "difference address s (- (2 ^ displacement_range (br_kind r))) (2 ^ displacement_range (br_kind r) - 1) = Inr d"
    and pb: "patch_branch k r d b = Inr b'"
    by (auto simp: patch_successor_def block_invalid_def Let_def s_def split: if_splits sum.splits)
  have dr: "displacement_range (br_kind r) < 62" by (simp add: displacement_range_def)
  note D = difference_ok [OF d dr]
  have go: "s + word_of_int d = address" using D(1) by simp
  show ?thesis
  proof (cases "br_kind r = Relative32")
    case True
    have "read_at b' ?off 4 = take_bit 32 (word_of_int d)"
      using pb True fit by (auto simp: patch_branch_def bytes_simps)
    then show ?thesis using True go D(2,3) signed_displacement [of 31 d]
      by (simp add: successor_target_def s_def displacement_range_def)
  next
    case False
    then have V: "verify_word k r = Inr ()" and s: "s = base + of_nat ?off" using verify_successorD(4) [OF v na] by (simp_all add: s_def)
    note W = verify_wordD [OF V, folded w]
    show ?thesis
    proof (cases "br_kind r")
      case Address21
      have "read_at b' ?off 4 = take_bit 32 (?w OR address21_bits d)"
        using pb Address21 fit by (auto simp: patch_branch_def Let_def bytes_simps)
      note r1 = this
      have d20: "- (2 ^ 20) \<le> d" "d < 2 ^ 20" using D(2,3) Address21 by (simp_all add: displacement_range_def)
      have "successor_target b' base r = base + of_nat ?off + word_of_int d"
        by (simp only: successor_target_def Let_def Address21 successor_kind.case r1 low_fields
            address21_decode [OF W(2) [OF Address21] d20])
      then show ?thesis using go s by (simp only:)
    next
      case Branch26
      then obtain v where "aarch64_branch_displacement d False = Inr v" "b' = write_at b ?off (?w OR v) 4"
        using pb by (auto simp: patch_branch_def block_invalid_def Let_def split: sum.splits)
      then show ?thesis
        using Branch26 go s fit branch26_reaches [OF _ W(1), of b' ?off v d base] by (simp add: successor_target_def bytes_simps)
    next
      case Branch19
      note B = W(3) [OF Branch19]
      have slot: "read_at b (?off + 8) 4 = 0xd503201f"
        using same [of "(?off + 8, ?off + 12)"] B Branch19 by (simp add: successor_spans_def)
      have fit2: "?off + 12 \<le> length b" using B len by simp
      show ?thesis
      proof (cases "d < - (2 ^ 20) \<or> 2 ^ 20 \<le> d")
        case True
        then obtain v where v: "aarch64_branch_displacement (d - 8) False = Inr v"
          "b' = write_at (write_at b ?off (?w OR push_bit 5 2) 4) (?off + 8) (0x14000000 OR v) 4"
          using pb Branch19 by (auto simp: patch_branch_def block_invalid_def Let_def split: sum.splits)
        have r1: "read_at b' ?off 4 = take_bit 32 (?w OR push_bit 5 2)"
          and r2: "read_at b' (?off + 8) 4 = take_bit 32 (0x14000000 OR v)"
          using fit2 v(2) by (simp_all add: bytes_simps)
        have "branch26_target b' base (?off + 8) = base + of_nat (?off + 8) + word_of_int (d - 8)"
          using branch26_reaches [OF r2 _ v(1)] by (simp add: mask_eq_exp_minus_1)
        also have "\<dots> = s + word_of_int d" by (simp add: s wi_hom_sub [symmetric])
        also have "\<dots> = address" by (rule go)
        finally show ?thesis
          using Branch19 skip_slot B slot_not_nop [OF v(1)] by (simp add: successor_target_def r1 r2)
      next
        case False
        then obtain v where v: "aarch64_branch_displacement d True = Inr v" "b' = write_at b ?off (?w OR v) 4"
          using pb Branch19 by (auto simp: patch_branch_def block_invalid_def Let_def split: sum.splits)
        have r1: "read_at b' ?off 4 = take_bit 32 (?w OR v)" and r2: "read_at b' (?off + 8) 4 = 0xd503201f"
          using fit2 v(2) slot by (simp_all add: bytes_simps)
        have "successor_target b' base r = base + of_nat ?off + word_of_int d"
          by (simp only: successor_target_def Let_def Branch19 successor_kind.case r1 r2 low_fields
              branch19_decode [OF B [THEN conjunct1] v(1)] simp_thms if_False)
        then show ?thesis using go s by (simp only:)
      qed
    qed (use False na in simp_all)
  qed
qed

section \<open>Patching all successors\<close>

lemma read_zero_byte:
  assumes "read_at b at n = 0" "n \<le> 8" "i < n" "at + n \<le> length b"
  shows "b ! (at + i) = 0"
proof (rule bit_word_eqI)
  fix k assume k: "k < LENGTH(8)"
  then have "(8 * i + k) div 8 = i" "(8 * i + k) mod 8 = k" by auto
  then have "bit (read_at b at n) (8 * i + k) = bit (b ! (at + i)) k"
    using k assms(2-4) by (auto simp: bit_read_at)
  then show "bit (b ! (at + i)) k = bit 0 k" by (simp add: assms(1))
qed

definition same_spans :: "block_relocation \<Rightarrow> bytes \<Rightarrow> bytes \<Rightarrow> bool" where
  "same_spans r b b' \<longleftrightarrow> length b' = length b \<and>
    (\<forall>s\<in>set (successor_spans r). \<forall>i. fst s \<le> i \<longrightarrow> i < snd s \<longrightarrow> i < length b \<longrightarrow> b' ! i = b ! i)"

lemma same_spans_read:
  "same_spans r b b' \<Longrightarrow> s \<in> set (successor_spans r) \<Longrightarrow> read_at b' (fst s) (snd s - fst s) = read_at b (fst s) (snd s - fst s)"
  by (rule read_at_cong) (auto simp: same_spans_def)

lemma successor_target_cong: "same_spans r b b' \<Longrightarrow> successor_target b' base r = successor_target b base r"
  using same_spans_read [of r b b' "(br_offset r, br_offset r + successor_bytes (br_kind r))"]
    same_spans_read [of r b b' "(br_offset r + 8, br_offset r + 12)"]
  by (cases "br_kind r")
    (simp_all add: successor_spans_def successor_target_def branch26_target_def successor_bytes_def Let_def)

definition block_cache_ok :: "('s, 'b) compiled_block \<Rightarrow> block_resolver \<Rightarrow> (nat \<times> u64) list \<Rightarrow> bool" where
  "block_cache_ok k resolve known \<longleftrightarrow>
    (\<forall>g i v. resolve = Some g \<longrightarrow> map_of known i = Some v \<longrightarrow> g \<lparr>vi_owner = vi_owner (cb_version k), vi_index = i\<rparr> = Inr v)"

lemma resolve_successor_ok:
  assumes "resolve_successor k resolve r known = Inr (v, known')" "block_cache_ok k resolve known"
    "same_program (cb_version k) (br_target r)"
  shows "\<exists>g. resolve = Some g \<and> g (br_target r) = Inr v" "block_cache_ok k resolve known'"
proof -
  have t: "br_target r = \<lparr>vi_owner = vi_owner (cb_version k), vi_index = vi_index (br_target r)\<rparr>"
    using assms(3) by (cases "br_target r") (simp add: same_program_def)
  obtain g where g: "resolve = Some g" using assms(1) by (auto simp: resolve_successor_def block_invalid_def split: option.splits)
  have "map_of known (vi_index (br_target r)) = Some w \<Longrightarrow> g (br_target r) = Inr w" for w
    using assms(2) g t unfolding block_cache_ok_def by metis
  then show "\<exists>g. resolve = Some g \<and> g (br_target r) = Inr v"
    using assms(1) g by (auto simp: resolve_successor_def block_cache_ok_def split: option.splits sum.splits)
  show "block_cache_ok k resolve known'"
    using assms(1,2) g t by (auto simp: resolve_successor_def block_cache_ok_def split: option.splits sum.splits if_splits)
qed

lemma same_program_verified: "verify_successor k r = Inr () \<Longrightarrow> same_program (cb_version k) (br_target r)"
  by (auto simp: verify_successor_def block_invalid_def Let_def split: if_splits)

lemma within_spans_others:
  "within_spans r b b' \<Longrightarrow> (\<And>s t. s \<in> set (successor_spans r) \<Longrightarrow> t \<in> set (successor_spans q) \<Longrightarrow> snd s \<le> fst t \<or> snd t \<le> fst s) \<Longrightarrow>
    same_spans q b b'"
  unfolding within_spans_def same_spans_def by (meson leD le_less_linear order_trans)

lemma relocate_successors_ok:
  assumes "relocate_successors k base resolve rs (b, known) = Inr b'" "block_cache_ok k resolve known"
    "list_all (\<lambda>r. verify_successor k r = Inr ()) rs" "disjoint_ranges (concat (map successor_spans rs))"
    "list_all (\<lambda>s. snd s \<le> length b) (concat (map successor_spans rs))"
    "length b = length (cf_bytes (cb_code k))" "list_all (\<lambda>r. same_spans r (cf_bytes (cb_code k)) b) rs"
  shows "length b' = length b \<and>
    (\<forall>i<length b. (\<forall>s\<in>set (concat (map successor_spans rs)). i < fst s \<or> snd s \<le> i) \<longrightarrow> b' ! i = b ! i) \<and>
    (\<forall>r\<in>set rs. \<exists>g. resolve = Some g \<and> g (br_target r) = Inr (successor_target b' base r))"
  using assms
proof (induction rs arbitrary: b known)
  case (Cons r rs)
  from Cons.prems(1) obtain v k1 b1 where s: "resolve_successor k resolve r known = Inr (v, k1)"
    "patch_successor k base r v b = Inr b1" "relocate_successors k base resolve rs (b1, k1) = Inr b'"
    by (auto simp: rbind_eq_Inr)
  have vr: "verify_successor k r = Inr ()" using Cons.prems(3) by simp
  note R = resolve_successor_ok [OF s(1) Cons.prems(2) same_program_verified [OF vr]]
  have sp: "list_all (\<lambda>s. snd s \<le> length b) (successor_spans r)" using Cons.prems(5) by simp
  note P = patch_successor_spans [OF s(2) sp]
  have tr: "successor_target b1 base r = v"
    using patch_successor_reaches [OF vr s(2) Cons.prems(6)] Cons.prems(7) same_spans_read by fastforce
  have D: "disjoint_ranges (concat (map successor_spans rs))"
    and sep: "\<And>s t. s \<in> set (successor_spans r) \<Longrightarrow> t \<in> set (concat (map successor_spans rs)) \<Longrightarrow> snd s \<le> fst t \<or> snd t \<le> fst s"
  proof -
    show "disjoint_ranges (concat (map successor_spans rs))"
      using Cons.prems(4) by (auto simp: disjoint_ranges_def)
    fix s t assume st: "s \<in> set (successor_spans r)" "t \<in> set (concat (map successor_spans rs))"
    have "s \<noteq> t" using Cons.prems(4) st by (auto simp: disjoint_ranges_def)
    then show "snd s \<le> fst t \<or> snd t \<le> fst s" using Cons.prems(4) st unfolding disjoint_ranges_def by simp
  qed
  have l1: "length b1 = length b" using P by (simp add: within_spans_def)
  have "list_all (\<lambda>q. same_spans q (cf_bytes (cb_code k)) b1) rs"
  proof (simp add: list_all_iff, intro ballI)
    fix q assume q: "q \<in> set rs"
    have "same_spans q b b1" using within_spans_others [OF P, of q] sep q by force
    moreover have "same_spans q (cf_bytes (cb_code k)) b" using Cons.prems(7) q by (simp add: list_all_iff)
    ultimately show "same_spans q (cf_bytes (cb_code k)) b1" by (simp add: same_spans_def)
  qed
  then have IH: "length b' = length b1 \<and>
    (\<forall>i<length b1. (\<forall>s\<in>set (concat (map successor_spans rs)). i < fst s \<or> snd s \<le> i) \<longrightarrow> b' ! i = b1 ! i) \<and>
    (\<forall>r\<in>set rs. \<exists>g. resolve = Some g \<and> g (br_target r) = Inr (successor_target b' base r))"
    using Cons.IH [OF s(3) R(2)] Cons.prems(3,5,6) D l1 by simp
  have "same_spans r b1 b'"
    unfolding same_spans_def using IH sep by (meson leD le_less_linear order_trans)
  then have T: "successor_target b' base r = v" using successor_target_cong tr by metis
  have U: "b' ! i = b ! i" if "i < length b" "\<forall>s\<in>set (concat (map successor_spans (r # rs))). i < fst s \<or> snd s \<le> i" for i
  proof -
    have "\<forall>s\<in>set (concat (map successor_spans rs)). i < fst s \<or> snd s \<le> i" using that by simp
    moreover have "i < length b1" using that(1) l1 by simp
    ultimately have "b' ! i = b1 ! i" using IH by blast
    moreover have "b1 ! i = b ! i" using P that by (auto simp: within_spans_def)
    ultimately show ?thesis by simp
  qed
  show ?case
  proof (intro conjI allI impI ballI)
    show "length b' = length b" using IH l1 by simp
    show "b' ! i = b ! i" if "i < length b" "\<forall>s\<in>set (concat (map successor_spans (r # rs))). i < fst s \<or> snd s \<le> i" for i
      using U that by blast
    show "\<exists>g. resolve = Some g \<and> g (br_target q) = Inr (successor_target b' base q)" if "q \<in> set (r # rs)" for q
    proof (cases "q = r")
      case True
      then show ?thesis using R(1) T by simp
    next
      case False
      then show ?thesis using that IH by simp
    qed
  qed
qed simp

section \<open>Relocating a block\<close>

lemma verify_blockD:
  assumes "verify_block k = Inr u"
  shows "verify_compiled (cb_code k) = Inr ()" "list_all (\<lambda>r. verify_successor k r = Inr ()) (cb_successors k)"
    "no_overlap (block_occupied k)"
  using assms by (auto simp: verify_block_def rbind_eq_Inr verify_all_ok block_invalid_def split: if_splits)

lemma span_nonempty: "s \<in> set (successor_spans r) \<Longrightarrow> fst s < snd s"
  by (auto simp: successor_spans_def successor_bytes_def split: if_splits)

lemma span_fits:
  "verify_successor k r = Inr () \<Longrightarrow> s \<in> set (successor_spans r) \<Longrightarrow> snd s \<le> length (cf_bytes (cb_code k))"
  using verify_successorD [of k r "()"] verify_wordD [of k r]
  by (auto simp: successor_spans_def successor_bytes_def split: if_splits)

lemma disjoint_rangesD: "disjoint_ranges xs \<Longrightarrow> x \<in> set xs \<Longrightarrow> y \<in> set xs \<Longrightarrow> x \<noteq> y \<Longrightarrow> snd x \<le> fst y \<or> snd y \<le> fst x"
  by (simp add: disjoint_ranges_def)

lemma disjoint_ranges_append:
  assumes "disjoint_ranges (xs @ ys)"
  shows "disjoint_ranges xs" "disjoint_ranges ys" "x \<in> set xs \<Longrightarrow> y \<in> set ys \<Longrightarrow> snd x \<le> fst y \<or> snd y \<le> fst x"
    "x \<in> set xs \<Longrightarrow> y \<in> set ys \<Longrightarrow> x \<noteq> y"
proof -
  have d: "distinct (xs @ ys)" using assms by (simp add: disjoint_ranges_def)
  show "disjoint_ranges xs" "disjoint_ranges ys"
    using d disjoint_rangesD [OF assms] unfolding disjoint_ranges_def by simp_all
  show "x \<in> set xs \<Longrightarrow> y \<in> set ys \<Longrightarrow> x \<noteq> y" using d by auto
  then show "x \<in> set xs \<Longrightarrow> y \<in> set ys \<Longrightarrow> snd x \<le> fst y \<or> snd y \<le> fst x"
    using disjoint_rangesD [OF assms, of x y] by simp
qed

lemma block_disjoint:
  assumes "verify_block k = Inr u"
  shows "disjoint_ranges (block_occupied k)"
proof (rule no_overlap_disjoint [OF verify_blockD(3) [OF assms]])
  fix x assume "x \<in> set (block_occupied k)"
  then consider "x \<in> set (occupied (cf_relocations (cb_code k)))" | c :: pool_entry where "x = (pool_reference c, pool_reference c + 4)"
    | r :: block_relocation where "x \<in> set (successor_spans r)" unfolding block_occupied_def set_append set_map set_concat by (elim UnE UN_E imageE) blast+
  then show "fst x < snd x"
    using verified_fields(1) [OF verify_blockD(1) [OF assms]] span_nonempty
    by cases (auto simp: list_all_iff)
qed

lemmas block_parts = disjoint_ranges_append [OF block_disjoint [unfolded block_occupied_def]]
lemmas block_inner = disjoint_ranges_append [OF block_parts(2)]

text \<open>On x86 a successor field holds zeros, so it cannot run into the opcode bytes of a pool call.\<close>

lemma spans_clear_of_calls:
  assumes v: "verify_block k = Inr u" and r: "r \<in> set (cb_successors k)" and s: "s \<in> set (successor_spans r)"
    and y: "y \<in> set (call_sites (cb_code k))"
  shows "snd s \<le> fst y \<or> snd y \<le> fst s"
proof -
  let ?f = "cb_code k"
  from y obtain c where c: "c \<in> set (cf_constants ?f)" "pool_call c" "y = call_site c" by (auto simp: call_sites_def)
  note C = verified_constant [OF verify_blockD(1) [OF v] c(1)]
  have vr: "verify_successor k r = Inr ()" using verify_blockD(2) [OF v] r by (simp add: list_all_iff)
  note D = verify_successorD [OF vr]
  define n where "n = successor_bytes (br_kind r)"
  have x86: "br_kind r = AbsoluteAddress \<or> br_kind r = Relative32" using D(4) C(8) by auto
  then have z: "read_at (cf_bytes ?f) (br_offset r) n = 0" "0 < n" "n \<le> 8"
    and se: "s = (br_offset r, br_offset r + n)"
    using D(2,3) s by (auto simp: n_def successor_bytes_def successor_spans_def)
  have z0: "cf_bytes ?f ! (br_offset r + n - 1) = 0"
    using read_zero_byte [OF z(1,3), of "n - 1"] z(2) D(1) by (simp add: n_def)
  have S: "cf_bytes ?f ! (pool_reference c - 2) = 0xff" "cf_bytes ?f ! (pool_reference c - 1) \<in> {0x15, 0x25}" "2 \<le> pool_reference c"
    using C(6) c(2) by auto
  have "br_offset r + n \<noteq> pool_reference c" using z0 S(2) by auto
  moreover have "br_offset r + n \<noteq> pool_reference c - 1"
  proof
    assume "br_offset r + n = pool_reference c - 1"
    then have "br_offset r + n - 1 = pool_reference c - 2" by simp
    then show False using z0 S(1) by simp
  qed
  moreover have "snd s \<le> pool_reference c \<or> pool_reference c + 4 \<le> fst s"
  proof -
    have "s \<in> set (concat (map successor_spans (cb_successors k)))" using r s by auto
    with block_inner(3) [OF v, of "(pool_reference c, pool_reference c + 4)" s] c(1) show ?thesis by auto
  qed
  ultimately show ?thesis by (auto simp: c(3) call_site_def se)
qed

text \<open>C12: after a successful relocation every successor of the block goes where the resolver put its target, whichever
  of the five encodings it uses, the far form of a conditional branch included.\<close>

theorem successors_reach_targets:
  assumes "length (cf_bytes (cb_code k)) < 2 ^ 48"
  shows "case relocate_block k base resolve symbols of Inl e \<Rightarrow> True
    | Inr b \<Rightarrow> length b = length (cf_bytes (cb_code k)) \<and>
        list_all (\<lambda>r. case resolve of None \<Rightarrow> False
                     | Some g \<Rightarrow> g (br_target r) = Inr (successor_target b base r)) (cb_successors k)"
proof (cases "relocate_block k base resolve symbols")
  case (Inr b)
  then obtain u b0 where h: "verify_block k = Inr u" "relocate (cb_code k) base symbols = Inr b0"
    "relocate_successors k base resolve (cb_successors k) (b0, []) = Inr b"
    by (auto simp: relocate_block_def rbind_eq_Inr)
  let ?o = "cf_bytes (cb_code k)" and ?ss = "concat (map successor_spans (cb_successors k))"
  note V = verify_blockD [OF h(1)]
  note E = relocation_effect [OF assms, of base symbols, unfolded h(2) sum.case]
  have len: "length b0 = length ?o" using E by simp
  have D: "disjoint_ranges ?ss"
    and sep: "\<And>x s. x \<in> set (occupied (cf_relocations (cb_code k))) \<Longrightarrow> s \<in> set ?ss \<Longrightarrow> snd x \<le> fst s \<or> snd s \<le> fst x"
  proof -
    show "disjoint_ranges ?ss" by (rule block_inner(2) [OF h(1)])
    show "x \<in> set (occupied (cf_relocations (cb_code k))) \<Longrightarrow> s \<in> set ?ss \<Longrightarrow> snd x \<le> fst s \<or> snd s \<le> fst x" for x s
      using block_parts(3) [OF h(1), of x s] by simp
  qed
  have "same_spans r ?o b0" if r: "r \<in> set (cb_successors k)" for r
    unfolding same_spans_def
  proof (intro conjI ballI allI impI)
    fix s i assume s: "s \<in> set (successor_spans r)" and i: "fst s \<le> i" "i < snd s" "i < length ?o"
    show "b0 ! i = ?o ! i"
    proof (rule ccontr)
      assume "b0 ! i \<noteq> ?o ! i"
      then have "i \<in> {i. i < length b0 \<and> b0 ! i \<noteq> ?o ! i}" using i(3) len by simp
      from subsetD [OF E [THEN conjunct2, THEN conjunct2] this]
      obtain x where x: "x \<in> set (occupied (cf_relocations (cb_code k)) @ call_sites (cb_code k))" "fst x \<le> i" "i < snd x"
        by (elim UN_E) (simp only: case_prod_beta atLeastLessThan_iff)
      have "s \<in> set ?ss" using s r by auto
      then have "snd x \<le> fst s \<or> snd s \<le> fst x"
        using x(1) sep spans_clear_of_calls [OF h(1) r s] unfolding set_append by blast
      then show False using i x(2,3) by auto
    qed
  qed (simp add: len)
  then have S: "list_all (\<lambda>r. same_spans r ?o b0) (cb_successors k)" by (simp add: list_all_iff)
  have F: "list_all (\<lambda>s. snd s \<le> length b0) ?ss"
    unfolding list_all_iff
  proof
    fix s assume "s \<in> set ?ss"
    then obtain r where "r \<in> set (cb_successors k)" "s \<in> set (successor_spans r)" by auto
    then show "snd s \<le> length b0" using V(2) span_fits [of k r s] len by (simp add: list_all_iff)
  qed
  have "block_cache_ok k resolve []" by (simp add: block_cache_ok_def)
  note R = relocate_successors_ok [OF h(3) this V(2) D F len S]
  show ?thesis
    unfolding Inr sum.case list_all_iff
  proof (intro conjI ballI)
    show "length b = length ?o" using R len by simp
    fix r assume "r \<in> set (cb_successors k)"
    then obtain g where "resolve = Some g" "g (br_target r) = Inr (successor_target b base r)" using R by blast
    then show "case resolve of None \<Rightarrow> False | Some g \<Rightarrow> g (br_target r) = Inr (successor_target b base r)" by simp
  qed
qed simp

text \<open>An x86 block of sixteen zero bytes whose first four are the displacement of a jump.\<close>

definition sample_block :: "(nat, nat) compiled_block" where
  "sample_block = \<lparr>cb_version = \<lparr>vi_owner = 1, vi_index = 0\<rparr>, cb_code = sample\<lparr>cf_relocations := []\<rparr>,
     cb_successors = [\<lparr>br_kind = Relative32, br_offset = 0, br_next = 4, br_target = \<lparr>vi_owner = 1, vi_index = 2\<rparr>\<rparr>]\<rparr>"

lemma sample_block_verified: "verify_block sample_block = Inr ()"
  by (simp add: verify_block_def sample_block_def sample_def verify_compiled_def no_overlap_def occupied_def verify_pool_def
      verify_successor_def Let_def same_program_def successor_bytes_def block_occupied_def successor_spans_def)

lemma sample_block_relocates: "has_value (relocate_block sample_block 0x1000 (Some (\<lambda>_. Inr 0x3000)) None)"
proof -
  have v: "verify_compiled (sample\<lparr>cf_relocations := []\<rparr>) = Inr ()"
    by (simp add: sample_def verify_compiled_def no_overlap_def occupied_def verify_pool_def)
  have r: "relocate (sample\<lparr>cf_relocations := []\<rparr>) 0x1000 None = Inr (replicate 16 0)"
    by (simp add: relocate_def v) (simp add: sample_def)
  note r' = r [simplified sample_def, simplified]
  have d: "difference 0x3000 (0x1000 + 4) (- (2 ^ 31)) (2 ^ 31 - 1) = Inr 0x1ffc"
    by (simp add: difference_def Let_def)
  show ?thesis
    by (simp add: relocate_block_def sample_block_verified)
      (simp add: sample_block_def r' resolve_successor_def patch_successor_def displacement_range_def Let_def
        d [simplified] sample_def patch_branch_def)
qed

theorem successors_reach_targets_witness:
  "case relocate_block sample_block 0x1000 (Some (\<lambda>_. Inr 0x3000)) None of Inl e \<Rightarrow> False
   | Inr b \<Rightarrow> 0x1004 + signed_take_bit 31 (read_at b 0 4) = 0x3000"
proof -
  obtain b where b: "relocate_block sample_block 0x1000 (Some (\<lambda>_. Inr 0x3000)) None = Inr b"
    using sample_block_relocates by (auto simp: has_value_iff)
  have s: "length (cf_bytes (cb_code sample_block)) < 2 ^ 48" by (simp add: sample_block_def sample_def)
  show ?thesis
    using successors_reach_targets [OF s, where base = "0x1000" and resolve = "Some (\<lambda>_. Inr 0x3000)" and symbols = None] b
    by (simp add: sample_block_def successor_target_def)
qed

end
