(* ===== verification/PatternTables.thy ===== *)
theory PatternTables
  imports IRTypes
begin

text \<open>
  What the two declaration tables of the code generator share: the rows, the tokens of their strings, and the
  counting sort by opcode that groups the rows at compile time (\<open>compile_patterns\<close> of
  \<open>lib/CodeGen/X86Patterns.cpp\<close> and \<open>lib/CodeGen/AArch64Patterns.cpp\<close>).
\<close>

section \<open>Rows and tokens\<close>

record encoding_declaration =
  dc_code :: nat
  dc_constraints :: string
  dc_encoding :: string
  dc_shape :: nat

definition blank :: "char \<Rightarrow> bool" where "blank c = (c = CHR '' '' \<or> c = CHR 0x09)"

lemma dropWhile_shorter: "length (dropWhile P xs) \<le> length xs"
  by (induction xs) auto

definition decimal_digit :: "char \<Rightarrow> nat option" where
  "decimal_digit c = (let n = of_char c :: nat in if 48 \<le> n \<and> n \<le> 57 then Some (n - 48) else None)"

definition type_bit :: "kind \<Rightarrow> nat" where
  "type_bit k = (if kind_index k < 32 then 2 ^ kind_index k else 0)"

definition signed_kinds :: "kind list" where "signed_kinds = [K_I8, K_I16, K_I32, K_I64]"
definition unsigned_kinds :: "kind list" where "unsigned_kinds = [K_U8, K_U16, K_U32, K_U64]"

section \<open>The counting sort\<close>

text \<open>The counting sort of the rows by opcode: \<open>table.offsets\<close>, and the filling of \<open>table.indexes\<close>.\<close>

definition code_totals :: "nat \<Rightarrow> encoding_declaration list \<Rightarrow> nat list" where
  "code_totals codes ps = fold (\<lambda>p counts. counts[dc_code p + 1 := counts ! (dc_code p + 1) + 1]) ps (replicate (codes + 1) 0)"

fun prefix_sums :: "nat \<Rightarrow> nat list \<Rightarrow> nat list" where
  "prefix_sums acc [] = []"
| "prefix_sums acc (n # ns) = (acc + n) # prefix_sums (acc + n) ns"

definition code_offsets :: "nat \<Rightarrow> encoding_declaration list \<Rightarrow> nat list" where
  "code_offsets codes ps = prefix_sums 0 (code_totals codes ps)"

fun fill_indexes :: "encoding_declaration list \<Rightarrow> nat \<Rightarrow> nat list \<times> nat list \<Rightarrow> nat list \<times> nat list" where
  "fill_indexes [] row (next_slot, indexes) = (next_slot, indexes)"
| "fill_indexes (p # ps) row (next_slot, indexes) =
    fill_indexes ps (row + 1) (next_slot[dc_code p := next_slot ! dc_code p + 1], indexes[next_slot ! dc_code p := row])"

definition rows_below :: "encoding_declaration list \<Rightarrow> nat \<Rightarrow> nat" where
  "rows_below ps c = length (filter (\<lambda>p. dc_code p < c) ps)"

definition code_rows :: "encoding_declaration list \<Rightarrow> nat \<Rightarrow> nat \<Rightarrow> nat list" where
  "code_rows ps n c = filter (\<lambda>row. dc_code (ps ! row) = c) [0..<n]"

definition codes_ok :: "nat \<Rightarrow> encoding_declaration list \<Rightarrow> bool" where
  "codes_ok codes ps = list_all (\<lambda>p. dc_code p < codes) ps"

lemma code_totals_fold:
  assumes "codes_ok codes ps" "length counts = codes + 1"
  shows "fold (\<lambda>p counts. counts[dc_code p + 1 := counts ! (dc_code p + 1) + 1]) ps counts =
    map (\<lambda>k. counts ! k + length (filter (\<lambda>p. dc_code p + 1 = k) ps)) [0..<codes + 1]"
  using assms
proof (induction ps arbitrary: counts)
  case Nil
  then show ?case by (intro nth_equalityI) (simp_all del: upt_Suc)
next
  case (Cons p ps)
  then show ?case by (auto simp: codes_ok_def nth_list_update intro!: nth_equalityI)
qed

lemma prefix_sums_nth: "k < length ns \<Longrightarrow> prefix_sums acc ns ! k = acc + sum_list (take (Suc k) ns)"
  by (induction ns arbitrary: acc k) (auto simp: nth_Cons' take_Cons' split: nat.split)

lemma length_prefix_sums [simp]: "length (prefix_sums acc ns) = length ns"
  by (induction ns arbitrary: acc) auto

lemma rows_below_Suc: "rows_below ps (Suc c) = rows_below ps c + length (filter (\<lambda>p. dc_code p = c) ps)"
  by (induction ps) (auto simp: rows_below_def)

lemma rows_below_mono: "c \<le> d \<Longrightarrow> rows_below ps c \<le> rows_below ps d"
  by (induction rule: dec_induct) (auto simp: rows_below_Suc)

lemma totals_sum: "sum_list (map (\<lambda>k. length (filter (\<lambda>p. dc_code p + 1 = k) ps)) [0..<Suc c]) = rows_below ps c"
proof (induction c)
  case 0
  then show ?case by (simp add: rows_below_def)
next
  case (Suc c)
  have "(\<lambda>p. dc_code p + 1 = Suc c) = (\<lambda>p. dc_code p = c)" by auto
  with Suc show ?case by (simp add: rows_below_Suc)
qed

lemma code_offsets_nth:
  assumes "codes_ok codes ps" "c \<le> codes"
  shows "code_offsets codes ps ! c = rows_below ps c"
proof -
  let ?f = "\<lambda>k. length (filter (\<lambda>p. dc_code p + 1 = k) ps)"
  have t: "code_totals codes ps = map ?f [0..<codes + 1]"
    unfolding code_totals_def using code_totals_fold [OF assms(1), of "replicate (codes + 1) 0"]
    by (auto simp: nth_append simp del: upt_Suc replicate.simps)
  have "take (Suc c) (map ?f [0..<codes + 1]) = map ?f [0..<Suc c]"
    using assms(2) by (simp add: take_map del: upt_Suc)
  with assms(2) show ?thesis
    unfolding code_offsets_def t using totals_sum [of ps c] by (simp add: prefix_sums_nth del: upt_Suc)
qed

lemma length_code_rows: "n \<le> length ps \<Longrightarrow> length (code_rows ps n c) = length (filter (\<lambda>p. dc_code p = c) (take n ps))"
proof (induction n)
  case (Suc n)
  then show ?case by (simp add: code_rows_def take_Suc_conv_app_nth)
qed (simp add: code_rows_def)

lemma code_rows_le: "n \<le> length ps \<Longrightarrow> length (code_rows ps n c) \<le> length (filter (\<lambda>p. dc_code p = c) ps)"
  unfolding length_code_rows by (metis append_take_drop_id filter_append le_add1 length_append)

text \<open>The invariant of the filling loop after \<open>n\<close> rows: the slots of every code hold the rows seen so far.\<close>

definition filled :: "nat \<Rightarrow> encoding_declaration list \<Rightarrow> nat \<Rightarrow> nat list \<times> nat list \<Rightarrow> bool" where
  "filled codes ps n = (\<lambda>(next_slot, indexes).
     length next_slot = codes + 1 \<and> length indexes = length ps \<and>
     (\<forall>c<codes. next_slot ! c = rows_below ps c + length (code_rows ps n c) \<and>
       (\<forall>j<length (code_rows ps n c). indexes ! (rows_below ps c + j) = code_rows ps n c ! j)))"

lemma filled_step:
  assumes "codes_ok codes ps" "n < length ps" and f: "filled codes ps n (next_slot, indexes)" and d: "d = dc_code (ps ! n)"
  shows "filled codes ps (Suc n) (next_slot[d := next_slot ! d + 1], indexes[next_slot ! d := n])"
proof -
  have dc: "d < codes" using assms(1,2) d by (simp add: codes_ok_def list_all_length)
  have rows: "code_rows ps (Suc n) c = code_rows ps n c @ (if c = d then [n] else [])" for c
    by (simp add: code_rows_def d)
  have total: "length (code_rows ps n c) + (if c = d then 1 else 0) \<le> length (filter (\<lambda>p. dc_code p = c) ps)" for c
    using code_rows_le [of "Suc n" ps c] assms(2) unfolding rows by (auto split: if_splits)
  have slot: "next_slot ! d = rows_below ps d + length (code_rows ps n d)" using f dc by (simp add: filled_def)
  have before: "rows_below ps c + j < next_slot ! d" if "c < d" "j < length (code_rows ps n c)" for c j
    using that total [of c] rows_below_mono [of "Suc c" d ps] slot by (simp add: rows_below_Suc)
  have after: "next_slot ! d < rows_below ps c" if "d < c" for c
    using that total [of d] rows_below_mono [of "Suc d" c ps] slot by (simp add: rows_below_Suc)
  have inside: "next_slot ! d < length ps"
    using total [of d] slot rows_below_Suc [of ps d] length_filter_le [of "\<lambda>p. dc_code p < Suc d" ps]
    by (simp add: rows_below_def)
  have other: "rows_below ps c + j \<noteq> next_slot ! d" if "c \<noteq> d" "j < length (code_rows ps n c)" for c j
    using that before [of c j] after [of c] by (metis add_lessD1 linorder_neqE_nat not_add_less1 order_less_irrefl)
  show ?thesis
    unfolding filled_def prod.case
  proof (intro conjI allI impI)
    fix c j
    assume c: "c < codes"
    then show "next_slot[d := next_slot ! d + 1] ! c = rows_below ps c + length (code_rows ps (Suc n) c)"
      using f dc by (auto simp: filled_def rows nth_list_update)
    assume "j < length (code_rows ps (Suc n) c)"
    then show "indexes[next_slot ! d := n] ! (rows_below ps c + j) = code_rows ps (Suc n) c ! j"
      using f c dc slot other [of c j] inside by (auto simp: filled_def rows nth_append nth_list_update less_Suc_eq split: if_splits)
  qed (use f in \<open>simp_all add: filled_def\<close>)
qed

lemma filled_all:
  assumes "codes_ok codes ps" "filled codes ps n st" "n \<le> length ps"
  shows "filled codes ps (length ps) (fill_indexes (drop n ps) n st)"
  using assms(2,3)
proof (induction "length ps - n" arbitrary: n st)
  case 0
  then show ?case by (cases st) simp
next
  case (Suc k)
  then have n: "n < length ps" by simp
  obtain a b where st: "st = (a, b)" by (cases st)
  show ?case
    using Suc.hyps(1) [of "Suc n", OF _ filled_step [OF assms(1) n Suc.prems(1) [unfolded st] refl]] Suc.hyps(2) n
    by (simp add: st Cons_nth_drop_Suc [symmetric, OF n])
qed

text \<open>The rows of a code, as the selection reads them from the sorted table.\<close>

definition bucket :: "nat list \<Rightarrow> nat list \<Rightarrow> nat \<Rightarrow> nat list" where
  "bucket indexes offsets c = map ((!) indexes) [offsets ! c ..< offsets ! (c + 1)]"

definition sorted_rows :: "nat \<Rightarrow> encoding_declaration list \<Rightarrow> nat list" where
  "sorted_rows codes ps = snd (fill_indexes ps 0 (code_offsets codes ps, replicate (length ps) 0))"

lemma bucket_code_rows:
  assumes "codes_ok codes ps" "c < codes"
  shows "bucket (sorted_rows codes ps) (code_offsets codes ps) c = code_rows ps (length ps) c"
proof -
  have len: "length (code_offsets codes ps) = codes + 1"
  proof -
    have "length (fold (\<lambda>p counts. counts[dc_code p + 1 := counts ! (dc_code p + 1) + 1]) ps counts) = length counts" for counts
      by (induction ps arbitrary: counts) simp_all
    from this [of "replicate (codes + 1) 0"] show ?thesis by (simp only: code_offsets_def code_totals_def length_prefix_sums length_replicate)
  qed
  have "filled codes ps 0 (code_offsets codes ps, replicate (length ps) 0)"
    using code_offsets_nth [OF assms(1)] by (simp add: filled_def code_rows_def len)
  from filled_all [OF assms(1) this]
  obtain ns where f: "filled codes ps (length ps) (ns, sorted_rows codes ps)"
    by (cases "fill_indexes ps 0 (code_offsets codes ps, replicate (length ps) 0)") (simp add: sorted_rows_def)
  have o: "code_offsets codes ps ! c = rows_below ps c"
    "code_offsets codes ps ! Suc c = rows_below ps c + length (code_rows ps (length ps) c)"
    using code_offsets_nth [OF assms(1), of c] code_offsets_nth [OF assms(1), of "Suc c"] assms(2)
    by (simp_all add: rows_below_Suc length_code_rows)
  show ?thesis
    unfolding bucket_def using f assms(2) by (intro nth_equalityI) (auto simp: o filled_def)
qed

lemma find_filter: "List.find P (filter Q xs) = List.find (\<lambda>x. Q x \<and> P x) xs"
  by (induction xs) auto

lemma find_none: "list_all (\<lambda>x. \<not> P x) xs \<Longrightarrow> List.find P xs = None"
  by (induction xs) auto

end
