(* ===== verification/X86Recipes.thy ===== *)
theory X86Recipes
  imports PatternTables
begin

text \<open>
  \<open>lib/CodeGen/X86EncodingRecipes.cpp\<close>: the x86 encoding declarations are strings; at compile time they are
  parsed into one flat array of operations, one of words and one of recipes.  The declaration table is an
  argument of the model: everything here holds for every table.
\<close>

section \<open>Operations\<close>

datatype (plugins only: code size) encoding_kind = EK_Byte | EK_Rex | EK_Register | EK_RegisterRM
  | EK_ByteRegisterRM | EK_Memory | EK_TemporaryMemory | EK_SwitchMemory | EK_AddressAdd
  | EK_AddressDisplacement | EK_AddressScale | EK_Immediate8 | EK_Immediate32 | EK_Immediate64
  | EK_SwitchTable | EK_RIPMemory | EK_Label8 | EK_Label32 | EK_CallPointer | EK_Extension
  | EK_OpcodeRegister | EK_OpcodePhysical | EK_PoolConstant | EK_PhysicalRegister | EK_PhysicalRM
  | EK_Literal8 | EK_Literal32

type_synonym encoding_operation = "encoding_kind \<times> nat"

text \<open>What the parser hands to its two callbacks, in order.\<close>

datatype parse_event = Operation encoding_operation | EndWord nat

section \<open>The recipe parser\<close>

record parse_flags =
  pf_opcodes :: nat
  pf_prefix :: bool
  pf_rex :: bool
  pf_modrm :: bool
  pf_sib :: bool
  pf_disp8 :: bool
  pf_disp32 :: bool
  pf_imm8 :: bool
  pf_imm32 :: bool
  pf_imm64 :: bool
  pf_table :: bool

definition no_flags :: parse_flags where
  "no_flags = \<lparr>pf_opcodes = 0, pf_prefix = False, pf_rex = False, pf_modrm = False, pf_sib = False,
     pf_disp8 = False, pf_disp32 = False, pf_imm8 = False, pf_imm32 = False, pf_imm64 = False, pf_table = False\<rparr>"

definition word_maximum :: "parse_flags \<Rightarrow> nat" where
  "word_maximum f = pf_opcodes f + of_bool (pf_prefix f) + of_bool (pf_rex f) + of_bool (pf_modrm f) +
     of_bool (pf_sib f) + of_bool (pf_disp8 f) + 4 * of_bool (pf_disp32 f) + of_bool (pf_imm8 f) +
     4 * of_bool (pf_imm32 f) + 8 * of_bool (pf_imm64 f) + 4 * of_bool (pf_table f)"

definition hex_digit :: "char \<Rightarrow> nat option" where
  "hex_digit c = (let n = of_char c :: nat in
     if 48 \<le> n \<and> n \<le> 57 then Some (n - 48) else if 65 \<le> n \<and> n \<le> 70 then Some (n - 65 + 10) else None)"

definition octal_digit :: "string \<Rightarrow> (nat \<times> string) option" where
  "octal_digit cs = (case cs of [] \<Rightarrow> None
     | c # cs \<Rightarrow> let n = of_char c :: nat in if 48 \<le> n \<and> n \<le> 55 then Some (n - 48, cs) else None)"

fun number_loop :: "nat \<Rightarrow> string \<Rightarrow> (nat \<times> string) option" where
  "number_loop n [] = Some (n, [])"
| "number_loop n (c # cs) = (case hex_digit c of
     None \<Rightarrow> Some (n, c # cs)
   | Some d \<Rightarrow> if (SIZE_MAX - d) div 16 < n then None else number_loop (n * 16 + d) cs)"

definition hex_number :: "string \<Rightarrow> (nat \<times> string) option" where
  "hex_number cs = (case number_loop 0 cs of
     None \<Rightarrow> None | Some (n, rest) \<Rightarrow> if rest = cs then None else Some (n, rest))"

text \<open>The operand index of a register, memory or label field is at most two.\<close>

definition operand_digit :: "string \<Rightarrow> (nat \<times> string) option" where
  "operand_digit cs = (case octal_digit cs of
     None \<Rightarrow> None | Some (n, cs) \<Rightarrow> if 2 < n then None else Some (n, cs))"

text \<open>A number that must not exceed a bound.\<close>

definition bounded_number :: "nat \<Rightarrow> string \<Rightarrow> (nat \<times> string) option" where
  "bounded_number bound cs = (case hex_number cs of
     None \<Rightarrow> None | Some (n, cs) \<Rightarrow> if bound < n then None else Some (n, cs))"

type_synonym token_result = "(parse_flags \<times> encoding_operation \<times> string) option"

text \<open>A token with an argument: the argument becomes the value of the operation.\<close>

definition with_argument :: "(nat \<times> string) option \<Rightarrow> encoding_kind \<Rightarrow> parse_flags \<Rightarrow> token_result" where
  "with_argument a k f = (case a of None \<Rightarrow> None | Some (n, cs) \<Rightarrow> Some (f, (k, n), cs))"

definition rex_token :: "parse_flags \<Rightarrow> char \<Rightarrow> string \<Rightarrow> token_result" where
  "rex_token f c cs =
    (if pf_opcodes f \<noteq> 0 \<and> (pf_opcodes f \<noteq> 1 \<or> pf_prefix f) then None
     else let f = (if pf_opcodes f \<noteq> 0 then f\<lparr>pf_prefix := True, pf_opcodes := 0\<rparr> else f)
          in Some (f\<lparr>pf_rex := True\<rparr>, (EK_Rex, of_char c), cs))"

definition memory_token :: "parse_flags \<Rightarrow> string \<Rightarrow> token_result" where
  "memory_token f cs = (case cs of [] \<Rightarrow> None
     | c # rest \<Rightarrow> let f = f\<lparr>pf_modrm := True, pf_sib := True\<rparr> in
         if c = CHR ''t'' then Some (f\<lparr>pf_disp8 := True\<rparr>, (EK_TemporaryMemory, 0), rest)
         else if c = CHR ''T'' then Some (f\<lparr>pf_disp8 := True\<rparr>, (EK_SwitchMemory, 0), rest)
         else with_argument (operand_digit cs) EK_Memory (f\<lparr>pf_disp32 := True\<rparr>))"

definition address_token :: "parse_flags \<Rightarrow> string \<Rightarrow> token_result" where
  "address_token f cs = (case cs of [] \<Rightarrow> None
     | c # rest \<Rightarrow> let f = f\<lparr>pf_sib := True\<rparr> in
         if c = CHR ''p'' then Some (f\<lparr>pf_disp32 := True\<rparr>, (EK_AddressAdd, 0), rest)
         else if c = CHR ''m'' then Some (f, (EK_AddressScale, 0), rest)
         else if c = CHR ''d'' then (case hex_number rest of
             None \<Rightarrow> None
           | Some (n, rest) \<Rightarrow>
               Some (if n \<le> 127 \<or> SIZE_MAX - 127 \<le> n then f\<lparr>pf_disp8 := True\<rparr> else f\<lparr>pf_disp32 := True\<rparr>,
                 (EK_AddressDisplacement, n), rest))
         else None)"

definition opcode_token :: "parse_flags \<Rightarrow> string \<Rightarrow> token_result" where
  "opcode_token f cs =
    (let f' = (if pf_opcodes f = 0 then f\<lparr>pf_opcodes := 1\<rparr> else f)
     in case cs of [] \<Rightarrow> None
      | c # rest \<Rightarrow>
          if c = CHR ''h'' then (case rest of [] \<Rightarrow> None
            | d # rest \<Rightarrow> (case hex_digit d of None \<Rightarrow> None | Some n \<Rightarrow> Some (f', (EK_OpcodePhysical, n), rest)))
          else with_argument (operand_digit cs) EK_OpcodeRegister f')"

definition parse_token :: "parse_flags \<Rightarrow> char \<Rightarrow> string \<Rightarrow> token_result" where
  "parse_token f c cs =
    (if c \<in> {CHR ''X'', CHR ''Y'', CHR ''Z''} then rex_token f c cs
     else if c = CHR ''r'' then with_argument (operand_digit cs) EK_Register (f\<lparr>pf_modrm := True\<rparr>)
     else if c = CHR ''R'' then with_argument (operand_digit cs) EK_RegisterRM (f\<lparr>pf_modrm := True\<rparr>)
     else if c = CHR ''S'' then with_argument (operand_digit cs) EK_ByteRegisterRM (f\<lparr>pf_modrm := True\<rparr>)
     else if c = CHR ''m'' then memory_token f cs
     else if c = CHR ''a'' then address_token f cs
     else if c = CHR ''i'' then with_argument (octal_digit cs) EK_Immediate8 (f\<lparr>pf_imm8 := True\<rparr>)
     else if c = CHR ''I'' then with_argument (octal_digit cs) EK_Immediate32 (f\<lparr>pf_imm32 := True\<rparr>)
     else if c = CHR ''J'' then with_argument (octal_digit cs) EK_Immediate64 (f\<lparr>pf_imm64 := True\<rparr>)
     else if c = CHR ''T'' then Some (f\<lparr>pf_table := True, pf_modrm := True\<rparr>, (EK_SwitchTable, 0), cs)
     else if c = CHR ''q'' then Some (f\<lparr>pf_modrm := True\<rparr>, (EK_RIPMemory, 0), cs)
     else if c = CHR ''l'' then with_argument (operand_digit cs) EK_Label8 (f\<lparr>pf_disp8 := True\<rparr>)
     else if c = CHR ''L'' then with_argument (operand_digit cs) EK_Label32 (f\<lparr>pf_disp32 := True\<rparr>)
     else if c = CHR ''P'' then with_argument (octal_digit cs) EK_CallPointer (f\<lparr>pf_modrm := True, pf_disp32 := True\<rparr>)
     else if c = CHR ''/'' then with_argument (octal_digit cs) EK_Extension (f\<lparr>pf_modrm := True\<rparr>)
     else if c = CHR ''+'' then opcode_token f cs
     else if c = CHR ''c'' then with_argument (hex_number cs) EK_PoolConstant (f\<lparr>pf_disp32 := True\<rparr>)
     else if c = CHR ''h'' then with_argument (bounded_number 31 cs) EK_PhysicalRegister (f\<lparr>pf_modrm := True\<rparr>)
     else if c = CHR ''H'' then with_argument (bounded_number 31 cs) EK_PhysicalRM (f\<lparr>pf_modrm := True\<rparr>)
     else if c = CHR ''v'' then with_argument (bounded_number 255 cs) EK_Literal8 (f\<lparr>pf_imm8 := True\<rparr>)
     else if c = CHR ''V'' then with_argument (bounded_number UINT32_MAX cs) EK_Literal32 (f\<lparr>pf_imm32 := True\<rparr>)
     else None)"

lemma octal_digit_shorter: "octal_digit cs = Some (n, cs') \<Longrightarrow> length cs' < length cs"
  by (auto simp: octal_digit_def Let_def split: list.splits if_splits)

lemma operand_digit_shorter: "operand_digit cs = Some (n, cs') \<Longrightarrow> length cs' < length cs"
  by (auto simp: operand_digit_def dest: octal_digit_shorter split: option.splits if_splits)

lemma number_loop_shorter: "number_loop n cs = Some (m, cs') \<Longrightarrow> length cs' \<le> length cs"
  by (induction n cs rule: number_loop.induct) (fastforce split: option.splits if_splits)+

lemma hex_number_shorter: "hex_number cs = Some (n, cs') \<Longrightarrow> length cs' \<le> length cs"
  by (auto simp: hex_number_def dest: number_loop_shorter split: option.splits if_splits)

lemma bounded_number_shorter: "bounded_number b cs = Some (n, cs') \<Longrightarrow> length cs' \<le> length cs"
  by (auto simp: bounded_number_def dest: hex_number_shorter split: option.splits if_splits)

lemmas argument_shorter = octal_digit_shorter operand_digit_shorter hex_number_shorter bounded_number_shorter

lemma with_argument_shorter:
  assumes "\<And>n cs'. a = Some (n, cs') \<Longrightarrow> length cs' \<le> length cs" and "with_argument a k f = Some (g, op, cs')"
  shows "length cs' \<le> length cs"
  using assms by (auto simp: with_argument_def split: option.splits)

lemma parse_token_shorter: "parse_token f c cs = Some (g, op, cs') \<Longrightarrow> length cs' \<le> length cs"
proof -
  assume p: "parse_token f c cs = Some (g, op, cs')"
  have arg: "with_argument a k h = Some (g, op, cs') \<Longrightarrow>
      a \<in> {octal_digit cs, operand_digit cs, hex_number cs} \<union> range (\<lambda>b. bounded_number b cs) \<Longrightarrow> length cs' \<le> length cs"
    for a k h
    by (erule with_argument_shorter [rotated]) (auto dest: argument_shorter less_imp_le [OF octal_digit_shorter] less_imp_le [OF operand_digit_shorter] dest!: sym [of "Some _"])
  have mem: "length cs' \<le> length cs" if "memory_token f cs = Some (g, op, cs')"
    using that arg by (auto simp: memory_token_def Let_def split: list.splits if_splits)
  have addr: "length cs' \<le> length cs" if "address_token f cs = Some (g, op, cs')"
    using that by (auto simp: address_token_def Let_def dest!: argument_shorter split: list.splits if_splits option.splits)
  have opc: "length cs' \<le> length cs" if "opcode_token f cs = Some (g, op, cs')"
    using that arg by (auto simp: opcode_token_def Let_def split: list.splits if_splits option.splits)
  have rex: "length cs' \<le> length cs" if "rex_token f c cs = Some (g, op, cs')"
    using that by (auto simp: rex_token_def Let_def split: if_splits)
  show ?thesis
    using p arg mem addr opc rex unfolding parse_token_def by (auto split: if_splits)
qed

function parse_recipe :: "parse_flags \<Rightarrow> string \<Rightarrow> bool \<times> parse_event list" where
  "parse_recipe f [] = (True, [EndWord (word_maximum f)])"
| "parse_recipe f (c # cs) =
    (if c = CHR '' '' \<or> c = CHR 0x09 then parse_recipe f cs
     else if c = CHR '';'' then apsnd ((#) (EndWord (word_maximum f))) (parse_recipe no_flags cs)
     else case hex_digit c of
       Some d \<Rightarrow> (case cs of [] \<Rightarrow> (False, [])
         | c' # cs' \<Rightarrow> (case hex_digit c' of None \<Rightarrow> (False, [])
             | Some d' \<Rightarrow> if pf_opcodes f = 3 then (False, [])
                 else apsnd ((#) (Operation (EK_Byte, d * 16 + d')))
                        (parse_recipe (f\<lparr>pf_opcodes := pf_opcodes f + 1\<rparr>) cs')))
     | None \<Rightarrow> (case parse_token f c cs of None \<Rightarrow> (False, [])
         | Some (g, op, cs') \<Rightarrow> apsnd ((#) (Operation op)) (parse_recipe g cs')))"
  by pat_completeness auto
termination
  by (relation "measure (length \<circ> snd)") (auto dest: parse_token_shorter)

section \<open>The compiled tables\<close>

record encoding_word =
  ew_first :: nat
  ew_count :: nat
  ew_maximum :: nat

record recipe_index =
  rx_first :: nat
  rx_count :: nat
  rx_maximum :: nat

record recipe_table =
  rt_operations :: "encoding_operation list"
  rt_words :: "encoding_word list"
  rt_recipes :: "recipe_index list"

text \<open>The two callbacks on the growing table; \<open>start\<close> is where the current word began.\<close>

fun compile_event :: "parse_event \<Rightarrow> nat \<times> recipe_index \<times> recipe_table \<Rightarrow> nat \<times> recipe_index \<times> recipe_table" where
  "compile_event (Operation op) (start, r, t) = (start, r, t\<lparr>rt_operations := rt_operations t @ [op]\<rparr>)"
| "compile_event (EndWord n) (start, r, t) =
    (length (rt_operations t),
     r\<lparr>rx_count := rx_count r + 1, rx_maximum := rx_maximum r + n\<rparr>,
     t\<lparr>rt_words := rt_words t @ [\<lparr>ew_first = start, ew_count = length (rt_operations t) - start, ew_maximum = n\<rparr>]\<rparr>)"

definition compile_row :: "encoding_declaration \<Rightarrow> recipe_table \<Rightarrow> recipe_table" where
  "compile_row d t =
    (let r = \<lparr>rx_first = length (rt_words t), rx_count = 0, rx_maximum = 0\<rparr>;
         (start, r, t) = fold compile_event (snd (parse_recipe no_flags (dc_encoding d))) (length (rt_operations t), r, t)
     in t\<lparr>rt_recipes := rt_recipes t @ [r]\<rparr>)"

definition compile_recipes :: "encoding_declaration list \<Rightarrow> recipe_table" where
  "compile_recipes ds = fold compile_row ds \<lparr>rt_operations = [], rt_words = [], rt_recipes = []\<rparr>"

definition valid_encodings :: "encoding_declaration list \<Rightarrow> bool" where
  "valid_encodings ds = list_all (\<lambda>d. fst (parse_recipe no_flags (dc_encoding d))) ds"

text \<open>\<open>subspan\<close> within bounds.\<close>

definition subspan :: "'a list \<Rightarrow> nat \<Rightarrow> nat \<Rightarrow> 'a list" where
  "subspan xs first count = take count (drop first xs)"

record encoding_recipe =
  er_words :: "encoding_word list"
  er_operations :: "encoding_operation list"
  er_maximum :: nat

definition x86_encoding_recipe :: "recipe_table \<Rightarrow> nat \<Rightarrow> encoding_recipe option" where
  "x86_encoding_recipe t n =
    (if length (rt_recipes t) \<le> n then None
     else let r = rt_recipes t ! n
          in Some \<lparr>er_words = subspan (rt_words t) (rx_first r) (rx_count r), er_operations = rt_operations t,
                   er_maximum = rx_maximum r\<rparr>)"

text \<open>The operations of a word, as the encoder walks them.\<close>

definition word_operations :: "encoding_recipe \<Rightarrow> encoding_word \<Rightarrow> encoding_operation list" where
  "word_operations r w = subspan (er_operations r) (ew_first w) (ew_count w)"

section \<open>The flat tables hold the rows\<close>

text \<open>The reference: the words of a list of parse events, each with its own operations.\<close>

fun event_words :: "encoding_operation list \<Rightarrow> parse_event list \<Rightarrow> (encoding_operation list \<times> nat) list" where
  "event_words acc [] = []"
| "event_words acc (Operation op # es) = event_words (acc @ [op]) es"
| "event_words acc (EndWord n # es) = (acc, n) # event_words [] es"

definition row_words :: "encoding_declaration \<Rightarrow> (encoding_operation list \<times> nat) list" where
  "row_words d = event_words [] (snd (parse_recipe no_flags (dc_encoding d)))"

definition word_in :: "recipe_table \<Rightarrow> encoding_word \<Rightarrow> encoding_operation list \<times> nat" where
  "word_in t w = (subspan (rt_operations t) (ew_first w) (ew_count w), ew_maximum w)"

definition words_ok :: "recipe_table \<Rightarrow> bool" where
  "words_ok t = (\<forall>w \<in> set (rt_words t). ew_first w + ew_count w \<le> length (rt_operations t))"

text \<open>A row of a table is right when its span of words is the reference and its maximum the sum.\<close>

definition row_ok :: "recipe_table \<Rightarrow> recipe_index \<Rightarrow> encoding_declaration \<Rightarrow> bool" where
  "row_ok t r d = (rx_first r + rx_count r \<le> length (rt_words t) \<and>
     map (word_in t) (subspan (rt_words t) (rx_first r) (rx_count r)) = row_words d \<and>
     rx_maximum r = sum_list (map snd (row_words d)))"

lemma subspan_append: "a + n \<le> length xs \<Longrightarrow> subspan (xs @ ys) a n = subspan xs a n"
  by (simp add: subspan_def)

lemma subspan_tail: "a \<le> length xs \<Longrightarrow> subspan (xs @ ys) a (length xs - a + length ys) = drop a xs @ ys"
  by (simp add: subspan_def)

lemma subspan_subset: "set (subspan xs a n) \<subseteq> set xs"
  unfolding subspan_def using set_take_subset set_drop_subset by (metis order_trans)

lemma compile_event_run:
  assumes "fold compile_event es (start, r, t) = (start', r', t')" "start \<le> length (rt_operations t)"
    and "words_ok t" "rx_first r + rx_count r = length (rt_words t)"
  shows "\<exists>ops ws. rt_operations t' = rt_operations t @ ops \<and> rt_words t' = rt_words t @ ws \<and> rt_recipes t' = rt_recipes t \<and>
      words_ok t' \<and> map (word_in t') ws = event_words (drop start (rt_operations t)) es \<and>
      rx_first r' = rx_first r \<and> rx_count r' = rx_count r + length ws \<and>
      rx_maximum r' = rx_maximum r + sum_list (map snd (event_words (drop start (rt_operations t)) es))"
  using assms
proof (induction es arbitrary: start r t)
  case Nil
  then show ?case by auto
next
  case (Cons e es)
  show ?case
  proof (cases e)
    case (Operation op)
    let ?t = "t\<lparr>rt_operations := rt_operations t @ [op]\<rparr>"
    have "words_ok ?t" using Cons.prems(3) by (auto simp: words_ok_def)
    with Cons.IH [of start r ?t] Cons.prems show ?thesis by (auto simp: Operation)
  next
    case (EndWord n)
    let ?w = "\<lparr>ew_first = start, ew_count = length (rt_operations t) - start, ew_maximum = n\<rparr>"
    let ?t = "t\<lparr>rt_words := rt_words t @ [?w]\<rparr>"
    let ?r = "r\<lparr>rx_count := rx_count r + 1, rx_maximum := rx_maximum r + n\<rparr>"
    have ok: "words_ok ?t" using Cons.prems(2,3) by (auto simp: words_ok_def)
    from Cons.IH [of "length (rt_operations t)" ?r ?t] ok Cons.prems(1,4)
    obtain ops ws where i: "rt_operations t' = rt_operations t @ ops" "rt_words t' = rt_words t @ ?w # ws"
      "rt_recipes t' = rt_recipes t" "words_ok t'" "map (word_in t') ws = event_words [] es"
      "rx_first r' = rx_first r" "rx_count r' = rx_count r + 1 + length ws"
      "rx_maximum r' = rx_maximum r + n + sum_list (map snd (event_words [] es))"
      by (auto simp: EndWord)
    have "word_in t' ?w = (drop start (rt_operations t), n)"
      using Cons.prems(2) by (simp add: word_in_def i(1) subspan_def)
    with i show ?thesis by (intro exI [of _ ops] exI [of _ "?w # ws"]) (simp add: EndWord)
  qed
qed

lemma row_ok_extend:
  assumes "row_ok t r d" "words_ok t" "rt_operations t' = rt_operations t @ ops" "rt_words t' = rt_words t @ ws"
  shows "row_ok t' r d"
proof -
  have sp: "subspan (rt_words t') (rx_first r) (rx_count r) = subspan (rt_words t) (rx_first r) (rx_count r)"
    using assms(1,4) by (simp add: row_ok_def subspan_append)
  have "word_in t' w = word_in t w" if "w \<in> set (subspan (rt_words t) (rx_first r) (rx_count r))" for w
    using that subspan_subset [of "rt_words t"] assms(2,3)
    by (auto simp: word_in_def words_ok_def subsetD intro!: subspan_append)
  then show ?thesis
    using assms(1,4) sp by (simp add: row_ok_def cong: map_cong)
qed

lemma compile_row_effect:
  assumes "words_ok t" "t' = compile_row d t"
  shows "\<exists>ops ws r. rt_operations t' = rt_operations t @ ops \<and> rt_words t' = rt_words t @ ws \<and>
    rt_recipes t' = rt_recipes t @ [r] \<and> words_ok t' \<and> row_ok t' r d"
proof -
  let ?es = "snd (parse_recipe no_flags (dc_encoding d))"
  let ?r = "\<lparr>rx_first = length (rt_words t), rx_count = 0, rx_maximum = 0\<rparr>"
  obtain s1 r1 t1 where e: "fold compile_event ?es (length (rt_operations t), ?r, t) = (s1, r1, t1)"
    by (metis prod_cases3)
  from compile_event_run [OF e] assms(1) obtain ops ws where
    i: "rt_operations t1 = rt_operations t @ ops" "rt_words t1 = rt_words t @ ws" "rt_recipes t1 = rt_recipes t" "words_ok t1"
      "map (word_in t1) ws = row_words d" "rx_first r1 = length (rt_words t)" "rx_count r1 = length ws"
      "rx_maximum r1 = sum_list (map snd (row_words d))"
    by (auto simp: row_words_def)
  have t': "t' = t1\<lparr>rt_recipes := rt_recipes t1 @ [r1]\<rparr>" using assms(2) e by (simp add: compile_row_def Let_def)
  have sp: "subspan (rt_words t1) (rx_first r1) (rx_count r1) = ws" using i by (simp add: subspan_def)
  have w: "word_in t' = word_in t1" by (rule ext) (simp add: word_in_def t')
  have "row_ok t' r1 d"
    unfolding row_ok_def w using i sp by (simp add: t')
  moreover have "words_ok t'" using i(4) by (simp add: words_ok_def t')
  ultimately show ?thesis using i by (intro exI [of _ ops] exI [of _ ws] exI [of _ r1]) (simp add: t')
qed

lemma compile_rows:
  assumes "words_ok t" "list_all2 (row_ok t) (rt_recipes t) ds"
  shows "words_ok (fold compile_row es t) \<and> list_all2 (row_ok (fold compile_row es t)) (rt_recipes (fold compile_row es t)) (ds @ es)"
  using assms
proof (induction es arbitrary: t ds)
  case Nil
  then show ?case by simp
next
  case (Cons e es)
  from compile_row_effect [OF Cons.prems(1) refl, of e] obtain ops ws r where
    i: "rt_operations (compile_row e t) = rt_operations t @ ops" "rt_words (compile_row e t) = rt_words t @ ws"
      "rt_recipes (compile_row e t) = rt_recipes t @ [r]" "words_ok (compile_row e t)" "row_ok (compile_row e t) r e"
    by blast
  have "list_all2 (row_ok (compile_row e t)) (rt_recipes t) ds"
    using Cons.prems row_ok_extend [OF _ Cons.prems(1) i(1,2)] by (auto elim: list_all2_mono)
  then have "list_all2 (row_ok (compile_row e t)) (rt_recipes (compile_row e t)) (ds @ [e])"
    using i by (simp add: list_all2_appendI)
  from Cons.IH [OF i(4) this] show ?case by simp
qed

lemma recipe_row:
  assumes "x86_encoding_recipe (compile_recipes ds) n = Some r"
  shows "n < length ds \<and> map (\<lambda>w. (word_operations r w, ew_maximum w)) (er_words r) = row_words (ds ! n) \<and>
    er_maximum r = sum_list (map snd (row_words (ds ! n)))"
proof -
  let ?t = "compile_recipes ds"
  have all: "list_all2 (row_ok ?t) (rt_recipes ?t) ds"
    using compile_rows [of "\<lparr>rt_operations = [], rt_words = [], rt_recipes = []\<rparr>" "[]" ds]
    by (simp add: words_ok_def compile_recipes_def)
  have n: "n < length (rt_recipes ?t)" using assms by (simp add: x86_encoding_recipe_def Let_def split: if_splits)
  then have ok: "row_ok ?t (rt_recipes ?t ! n) (ds ! n)" using all by (simp add: list_all2_conv_all_nth)
  have "(\<lambda>w. (word_operations r w, ew_maximum w)) = word_in ?t"
    using assms by (auto simp: fun_eq_iff x86_encoding_recipe_def Let_def word_operations_def word_in_def split: if_splits)
  then show ?thesis
    using ok n list_all2_lengthD [OF all] assms
    by (auto simp: row_ok_def x86_encoding_recipe_def Let_def split: if_splits)
qed

lemma recipe_exists: "n < length ds \<Longrightarrow> x86_encoding_recipe (compile_recipes ds) n \<noteq> None"
  using list_all2_lengthD [OF conjunct2 [OF compile_rows [of "\<lparr>rt_operations = [], rt_words = [], rt_recipes = []\<rparr>" "[]" ds]]]
  by (simp add: words_ok_def compile_recipes_def x86_encoding_recipe_def Let_def)

text \<open>C36: the recipe the encoder looks up in the flat compile-time tables is, word by word, what parsing the
  string of that row alone gives, and its maximum is the sum of the maxima of its words.  A recipe exists for
  exactly the rows of the declaration table.\<close>

theorem flat_recipe_is_row:
  "case x86_encoding_recipe (compile_recipes ds) n of
     None \<Rightarrow> length ds \<le> n
   | Some r \<Rightarrow> n < length ds \<and> map (\<lambda>w. (word_operations r w, ew_maximum w)) (er_words r) = row_words (ds ! n) \<and>
       er_maximum r = sum_list (map snd (row_words (ds ! n)))"
  using recipe_row [of ds n] recipe_exists [of n ds]
  by (cases "x86_encoding_recipe (compile_recipes ds) n") (auto simp: not_less [symmetric])

end
