(* ===== verification/MachineOperands.thy ===== *)
theory MachineOperands
  imports CompiledFunction Opcodes
begin

text \<open>
  \<open>include/mirnext/CodeGen/MachineIR.hpp\<close>: the operands and instructions of the machine program, as the
  pattern matchers and the encoders read them, and the descriptions of the native vector operations
  (\<open>NativeVector.hpp\<close>, \<open>Vector.hpp\<close>).  A pointer to a label, a slot or a symbol is a natural number, its
  identity; a virtual register or a symbol carries the immutable data its pointer reaches.  The three
  floating operands are bit patterns.
\<close>

section \<open>Registers, symbols and memory\<close>

record virtual_register =
  vr_id :: nat
  vr_type :: ir_type

datatype machine_register = VirtualReg virtual_register | PhysicalReg physical_register

datatype (plugins only: code size) builtin = CopyBlock | CopyArgument | VariadicScalar | VariadicBlock
  | FloatToLongDouble | DoubleToLongDouble | IntegerToLongDouble | UnsignedToLongDouble | UnsignedToFloat
  | UnsignedToDouble | LongDoubleToFloat | LongDoubleToDouble | LongDoubleToInteger | LongDoubleAdd
  | LongDoubleSub | LongDoubleMul | LongDoubleDiv | LongDoubleNeg | LongDoubleEq | LongDoubleNe
  | LongDoubleLt | LongDoubleLe | LongDoubleGt | LongDoubleGe

datatype symbol_kind = SymFunction | SymData | SymPrototype | SymImport | SymForward | SymBuiltinPrototype

record machine_symbol =
  ms_module :: string
  ms_name :: string
  ms_kind :: symbol_kind
  ms_signature :: "signature option"
  ms_exported :: bool
  ms_anonymous :: "nat option"
  ms_builtin :: "builtin option"

text \<open>\<open>MachineSymbolReference\<close>: the pointer, what it points to, and the displacement.\<close>

record symbol_reference =
  sr_pointer :: nat
  sr_symbol :: machine_symbol
  sr_displacement :: u64

record machine_memory =
  mm_type :: ir_type
  mm_base :: "machine_register option"
  mm_index :: "machine_register option"
  mm_displacement :: int
  mm_scale :: nat
  mm_alias :: string
  mm_nonalias :: string
  mm_location :: "nat option"

definition memory_equal :: "machine_memory \<Rightarrow> machine_memory \<Rightarrow> bool" where
  "memory_equal a b = (mm_type a = mm_type b \<and> mm_base a = mm_base b \<and> mm_index a = mm_index b \<and>
     mm_displacement a = mm_displacement b \<and> mm_scale a = mm_scale b \<and> mm_alias a = mm_alias b \<and>
     mm_nonalias a = mm_nonalias b)"

section \<open>Operands\<close>

text \<open>A null register pointer is \<^term>\<open>VReg None\<close>.\<close>

datatype operand = IntOp int | UIntOp u64 | FloatOp u32 | DoubleOp u64 | LongDoubleOp "80 word"
  | VReg "virtual_register option" | PReg physical_register | Mem machine_memory | LabelOp nat
  | SymbolOp symbol_reference | SlotOp nat int | BuiltinOp builtin

text \<open>Comparison of floating bit patterns with \<open>m\<close> mantissa bits: a NaN equals nothing, the zeros are
  equal.\<close>

definition float_nan :: "nat \<Rightarrow> nat \<Rightarrow> 'w::len word \<Rightarrow> bool" where
  "float_nan m e w = (take_bit e (drop_bit m w) = mask e \<and> take_bit m w \<noteq> 0)"

definition float_equal :: "nat \<Rightarrow> nat \<Rightarrow> 'w::len word \<Rightarrow> 'w word \<Rightarrow> bool" where
  "float_equal m e a b = (\<not> float_nan m e a \<and> \<not> float_nan m e b \<and>
     (a = b \<or> take_bit (m + e) a = 0 \<and> take_bit (m + e) b = 0))"

text \<open>\<open>operator==\<close> of \<open>MachineOperand\<close>: the comparison of the variant; that of \<open>long double\<close>, whose format
  depends on the host, is the parameter \<open>ld_eq\<close>.\<close>

definition operand_equal :: "(80 word \<Rightarrow> 80 word \<Rightarrow> bool) \<Rightarrow> operand \<Rightarrow> operand \<Rightarrow> bool" where
  "operand_equal ld_eq a b = (case a of
     FloatOp x \<Rightarrow> (case b of FloatOp y \<Rightarrow> float_equal 23 8 x y | _ \<Rightarrow> False)
   | DoubleOp x \<Rightarrow> (case b of DoubleOp y \<Rightarrow> float_equal 52 11 x y | _ \<Rightarrow> False)
   | LongDoubleOp x \<Rightarrow> (case b of LongDoubleOp y \<Rightarrow> ld_eq x y | _ \<Rightarrow> False)
   | Mem x \<Rightarrow> (case b of Mem y \<Rightarrow> memory_equal x y | _ \<Rightarrow> False)
   | SymbolOp x \<Rightarrow> (case b of SymbolOp y \<Rightarrow> sr_pointer x = sr_pointer y \<and> sr_displacement x = sr_displacement y | _ \<Rightarrow> False)
   | _ \<Rightarrow> a = b)"

definition as_integer :: "operand \<Rightarrow> u64 option" where
  "as_integer o1 = (case o1 of IntOp n \<Rightarrow> Some (word_of_int n) | UIntOp n \<Rightarrow> Some n | _ \<Rightarrow> None)"

definition as_memory :: "operand \<Rightarrow> machine_memory option" where
  "as_memory o1 = (case o1 of Mem m \<Rightarrow> Some m | _ \<Rightarrow> None)"

definition as_label :: "operand \<Rightarrow> nat option" where
  "as_label o1 = (case o1 of LabelOp l \<Rightarrow> Some l | _ \<Rightarrow> None)"

definition as_physical :: "operand \<Rightarrow> physical_register option" where
  "as_physical o1 = (case o1 of PReg r \<Rightarrow> Some r | _ \<Rightarrow> None)"

definition is_symbolic :: "operand \<Rightarrow> bool" where
  "is_symbolic o1 = (case o1 of SymbolOp _ \<Rightarrow> True | BuiltinOp _ \<Rightarrow> True | _ \<Rightarrow> False)"

text \<open>The two halves of a \<open>CodeSymbolRequest\<close> and the displacement, of a symbolic operand.\<close>

definition symbol_part :: "operand \<Rightarrow> machine_symbol option" where
  "symbol_part o1 = (case o1 of SymbolOp s \<Rightarrow> Some (sr_symbol s) | _ \<Rightarrow> None)"

definition builtin_part :: "operand \<Rightarrow> builtin option" where
  "builtin_part o1 = (case o1 of BuiltinOp b \<Rightarrow> Some b | _ \<Rightarrow> None)"

definition displacement_part :: "operand \<Rightarrow> u64" where
  "displacement_part o1 = (case o1 of SymbolOp s \<Rightarrow> sr_displacement s | _ \<Rightarrow> 0)"

section \<open>Opcodes\<close>

text \<open>\<open>MachinePseudoOpcode\<close>; a native vector operation is its row in \<open>NativeVectorOps.def\<close>.\<close>

datatype pseudo_opcode = PseudoUse | X86Mov128 | X86Mov128Unaligned | NativeOp nat

datatype machine_opcode = IROp opcode | Pseudo pseudo_opcode

record native_descriptor =
  nd_opcode :: nat
  nd_name :: string
  nd_roles :: string
  nd_architecture :: architecture
  nd_tied :: bool
  nd_maximum :: nat

definition native_rows :: "(string \<times> string \<times> architecture \<times> bool \<times> nat) list" where
  "native_rows =
    [(''X86VectorZero'', ''V'', ArchX86_64, False, 0),
     (''X86VectorOnes'', ''V'', ArchX86_64, False, 0),
     (''X86VectorFromGP'', ''Vi'', ArchX86_64, False, 0),
     (''X86VectorToGP'', ''Iv'', ArchX86_64, False, 0),
     (''X86VectorCopyBits'', ''Bb'', ArchX86_64, False, 0),
     (''X86Unpack8'', ''Vvv'', ArchX86_64, True, 0),
     (''X86Unpack16'', ''Vvv'', ArchX86_64, True, 0),
     (''X86Unpack32'', ''Vvv'', ArchX86_64, True, 0),
     (''X86Unpack64'', ''Vvv'', ArchX86_64, True, 0),
     (''X86Shuffle32'', ''Vvn'', ArchX86_64, False, 255),
     (''X86ShuffleLow16'', ''Vvn'', ArchX86_64, False, 255),
     (''X86ShuffleHigh16'', ''Vvn'', ArchX86_64, False, 255),
     (''X86VectorLeft'', ''Vvn'', ArchX86_64, True, 16),
     (''X86VectorRight'', ''Vvn'', ArchX86_64, True, 16),
     (''X86VectorEq8'', ''Vvv'', ArchX86_64, True, 0),
     (''X86VectorGt8'', ''Vvv'', ArchX86_64, True, 0),
     (''X86VectorEq16'', ''Vvv'', ArchX86_64, True, 0),
     (''X86VectorGt16'', ''Vvv'', ArchX86_64, True, 0),
     (''X86VectorEq32'', ''Vvv'', ArchX86_64, True, 0),
     (''X86VectorGt32'', ''Vvv'', ArchX86_64, True, 0),
     (''X86CompareF32'', ''Vvvn'', ArchX86_64, True, 7),
     (''X86CompareF64'', ''Vvvn'', ArchX86_64, True, 7),
     (''X86Multiply16'', ''Vvv'', ArchX86_64, True, 0),
     (''X86MultiplyU32Wide'', ''Vvv'', ArchX86_64, True, 0),
     (''X86MultiplyF32'', ''Vvv'', ArchX86_64, True, 0),
     (''X86DivideF32'', ''Vvv'', ArchX86_64, True, 0),
     (''X86SqrtF32'', ''Vv'', ArchX86_64, False, 0),
     (''X86MultiplyF64'', ''Vvv'', ArchX86_64, True, 0),
     (''X86DivideF64'', ''Vvv'', ArchX86_64, True, 0),
     (''X86SqrtF64'', ''Vv'', ArchX86_64, False, 0),
     (''X86SatAddS8'', ''Vvv'', ArchX86_64, True, 0),
     (''X86SatAddS16'', ''Vvv'', ArchX86_64, True, 0),
     (''X86SatAddU8'', ''Vvv'', ArchX86_64, True, 0),
     (''X86SatAddU16'', ''Vvv'', ArchX86_64, True, 0),
     (''X86SatSubS8'', ''Vvv'', ArchX86_64, True, 0),
     (''X86SatSubS16'', ''Vvv'', ArchX86_64, True, 0),
     (''X86SatSubU8'', ''Vvv'', ArchX86_64, True, 0),
     (''X86SatSubU16'', ''Vvv'', ArchX86_64, True, 0),
     (''X86Average8'', ''Vvv'', ArchX86_64, True, 0),
     (''X86Average16'', ''Vvv'', ArchX86_64, True, 0),
     (''X86Dot16'', ''Vvv'', ArchX86_64, True, 0),
     (''X86NarrowS16'', ''Vvv'', ArchX86_64, True, 0),
     (''X86NarrowU16'', ''Vvv'', ArchX86_64, True, 0),
     (''X86NarrowS32'', ''Vvv'', ArchX86_64, True, 0),
     (''X86BitsLeft16'', ''Vvn'', ArchX86_64, True, 16),
     (''X86BitsRight16'', ''Vvn'', ArchX86_64, True, 16),
     (''X86BitsSignedRight16'', ''Vvn'', ArchX86_64, True, 16),
     (''X86BitsLeft32'', ''Vvn'', ArchX86_64, True, 32),
     (''X86BitsRight32'', ''Vvn'', ArchX86_64, True, 32),
     (''X86BitsSignedRight32'', ''Vvn'', ArchX86_64, True, 32),
     (''X86BitsLeft64'', ''Vvn'', ArchX86_64, True, 64),
     (''X86BitsRight64'', ''Vvn'', ArchX86_64, True, 64),
     (''X86VariableLeft16'', ''Vvv'', ArchX86_64, True, 0),
     (''X86VariableRight16'', ''Vvv'', ArchX86_64, True, 0),
     (''X86VariableSignedRight16'', ''Vvv'', ArchX86_64, True, 0),
     (''X86VariableLeft32'', ''Vvv'', ArchX86_64, True, 0),
     (''X86VariableRight32'', ''Vvv'', ArchX86_64, True, 0),
     (''X86VariableSignedRight32'', ''Vvv'', ArchX86_64, True, 0),
     (''X86VariableLeft64'', ''Vvv'', ArchX86_64, True, 0),
     (''X86VariableRight64'', ''Vvv'', ArchX86_64, True, 0),
     (''A64VectorZero'', ''V'', ArchAArch64, False, 0),
     (''A64VectorOnes'', ''V'', ArchAArch64, False, 0),
     (''A64VectorNot'', ''Vv'', ArchAArch64, False, 0),
     (''A64VectorDupGP'', ''Vin'', ArchAArch64, False, 8),
     (''A64VectorDupLane'', ''Bbn'', ArchAArch64, False, 31),
     (''A64VectorExtract'', ''Ivn'', ArchAArch64, False, 31),
     (''A64VectorExtractSigned'', ''Ivn'', ArchAArch64, False, 31),
     (''A64VectorInsertGP'', ''Vvin'', ArchAArch64, True, 31),
     (''A64VectorInsertFP'', ''Vvbn'', ArchAArch64, True, 31),
     (''A64VectorTable'', ''Vvv'', ArchAArch64, False, 0),
     (''A64VectorExt'', ''Vvvn'', ArchAArch64, False, 15),
     (''A64VectorEq8'', ''Vvv'', ArchAArch64, False, 0),
     (''A64VectorGt8'', ''Vvv'', ArchAArch64, False, 0),
     (''A64VectorHi8'', ''Vvv'', ArchAArch64, False, 0),
     (''A64VectorZip18'', ''Vvv'', ArchAArch64, False, 0),
     (''A64VectorZip28'', ''Vvv'', ArchAArch64, False, 0),
     (''A64VectorRev8'', ''Vv'', ArchAArch64, False, 0),
     (''A64VectorEq16'', ''Vvv'', ArchAArch64, False, 0),
     (''A64VectorGt16'', ''Vvv'', ArchAArch64, False, 0),
     (''A64VectorHi16'', ''Vvv'', ArchAArch64, False, 0),
     (''A64VectorZip116'', ''Vvv'', ArchAArch64, False, 0),
     (''A64VectorZip216'', ''Vvv'', ArchAArch64, False, 0),
     (''A64VectorRev16'', ''Vv'', ArchAArch64, False, 0),
     (''A64VectorEq32'', ''Vvv'', ArchAArch64, False, 0),
     (''A64VectorGt32'', ''Vvv'', ArchAArch64, False, 0),
     (''A64VectorHi32'', ''Vvv'', ArchAArch64, False, 0),
     (''A64VectorZip132'', ''Vvv'', ArchAArch64, False, 0),
     (''A64VectorZip232'', ''Vvv'', ArchAArch64, False, 0),
     (''A64VectorRev32'', ''Vv'', ArchAArch64, False, 0),
     (''A64VectorEq64'', ''Vvv'', ArchAArch64, False, 0),
     (''A64VectorGt64'', ''Vvv'', ArchAArch64, False, 0),
     (''A64VectorHi64'', ''Vvv'', ArchAArch64, False, 0),
     (''A64VectorZip164'', ''Vvv'', ArchAArch64, False, 0),
     (''A64VectorZip264'', ''Vvv'', ArchAArch64, False, 0),
     (''A64VectorFEq32'', ''Vvv'', ArchAArch64, False, 0),
     (''A64VectorFGt32'', ''Vvv'', ArchAArch64, False, 0),
     (''A64VectorFGe32'', ''Vvv'', ArchAArch64, False, 0),
     (''A64VectorFEq64'', ''Vvv'', ArchAArch64, False, 0),
     (''A64VectorFGt64'', ''Vvv'', ArchAArch64, False, 0),
     (''A64VectorFGe64'', ''Vvv'', ArchAArch64, False, 0),
     (''A64Multiply16'', ''Vvv'', ArchAArch64, False, 0),
     (''A64Multiply32'', ''Vvv'', ArchAArch64, False, 0),
     (''A64MultiplyF32'', ''Vvv'', ArchAArch64, False, 0),
     (''A64DivideF32'', ''Vvv'', ArchAArch64, False, 0),
     (''A64SqrtF32'', ''Vv'', ArchAArch64, False, 0),
     (''A64MultiplyF64'', ''Vvv'', ArchAArch64, False, 0),
     (''A64DivideF64'', ''Vvv'', ArchAArch64, False, 0),
     (''A64SqrtF64'', ''Vv'', ArchAArch64, False, 0),
     (''A64SShift8'', ''Vvv'', ArchAArch64, False, 0),
     (''A64UShift8'', ''Vvv'', ArchAArch64, False, 0),
     (''A64Negate8'', ''Vv'', ArchAArch64, False, 0),
     (''A64Absolute8'', ''Vv'', ArchAArch64, False, 0),
     (''A64SShift16'', ''Vvv'', ArchAArch64, False, 0),
     (''A64UShift16'', ''Vvv'', ArchAArch64, False, 0),
     (''A64Negate16'', ''Vv'', ArchAArch64, False, 0),
     (''A64Absolute16'', ''Vv'', ArchAArch64, False, 0),
     (''A64SShift32'', ''Vvv'', ArchAArch64, False, 0),
     (''A64UShift32'', ''Vvv'', ArchAArch64, False, 0),
     (''A64Negate32'', ''Vv'', ArchAArch64, False, 0),
     (''A64Absolute32'', ''Vv'', ArchAArch64, False, 0),
     (''A64SShift64'', ''Vvv'', ArchAArch64, False, 0),
     (''A64UShift64'', ''Vvv'', ArchAArch64, False, 0),
     (''A64Negate64'', ''Vv'', ArchAArch64, False, 0),
     (''A64Absolute64'', ''Vv'', ArchAArch64, False, 0),
     (''A64SatAddS8'', ''Vvv'', ArchAArch64, False, 0),
     (''A64SatSubS8'', ''Vvv'', ArchAArch64, False, 0),
     (''A64SatAddU8'', ''Vvv'', ArchAArch64, False, 0),
     (''A64SatSubU8'', ''Vvv'', ArchAArch64, False, 0),
     (''A64Average8'', ''Vvv'', ArchAArch64, False, 0),
     (''A64SatAddS16'', ''Vvv'', ArchAArch64, False, 0),
     (''A64SatSubS16'', ''Vvv'', ArchAArch64, False, 0),
     (''A64SatAddU16'', ''Vvv'', ArchAArch64, False, 0),
     (''A64SatSubU16'', ''Vvv'', ArchAArch64, False, 0),
     (''A64Average16'', ''Vvv'', ArchAArch64, False, 0),
     (''A64MinS8'', ''Vvv'', ArchAArch64, False, 0),
     (''A64MaxS8'', ''Vvv'', ArchAArch64, False, 0),
     (''A64MinU8'', ''Vvv'', ArchAArch64, False, 0),
     (''A64MaxU8'', ''Vvv'', ArchAArch64, False, 0),
     (''A64MinS16'', ''Vvv'', ArchAArch64, False, 0),
     (''A64MaxS16'', ''Vvv'', ArchAArch64, False, 0),
     (''A64MinU16'', ''Vvv'', ArchAArch64, False, 0),
     (''A64MaxU16'', ''Vvv'', ArchAArch64, False, 0),
     (''A64MinS32'', ''Vvv'', ArchAArch64, False, 0),
     (''A64MaxS32'', ''Vvv'', ArchAArch64, False, 0),
     (''A64MinU32'', ''Vvv'', ArchAArch64, False, 0),
     (''A64MaxU32'', ''Vvv'', ArchAArch64, False, 0),
     (''A64CountBytes'', ''Vv'', ArchAArch64, False, 0),
     (''A64Q15Multiply'', ''Vvv'', ArchAArch64, False, 0),
     (''A64ExtendS8Low'', ''Vv'', ArchAArch64, False, 0),
     (''A64ExtmulS8Low'', ''Vvv'', ArchAArch64, False, 0),
     (''A64ExtendS8High'', ''Vv'', ArchAArch64, False, 0),
     (''A64ExtmulS8High'', ''Vvv'', ArchAArch64, False, 0),
     (''A64ExtendU8Low'', ''Vv'', ArchAArch64, False, 0),
     (''A64ExtmulU8Low'', ''Vvv'', ArchAArch64, False, 0),
     (''A64ExtendU8High'', ''Vv'', ArchAArch64, False, 0),
     (''A64ExtmulU8High'', ''Vvv'', ArchAArch64, False, 0),
     (''A64ExtendS16Low'', ''Vv'', ArchAArch64, False, 0),
     (''A64ExtmulS16Low'', ''Vvv'', ArchAArch64, False, 0),
     (''A64ExtendS16High'', ''Vv'', ArchAArch64, False, 0),
     (''A64ExtmulS16High'', ''Vvv'', ArchAArch64, False, 0),
     (''A64ExtendU16Low'', ''Vv'', ArchAArch64, False, 0),
     (''A64ExtmulU16Low'', ''Vvv'', ArchAArch64, False, 0),
     (''A64ExtendU16High'', ''Vv'', ArchAArch64, False, 0),
     (''A64ExtmulU16High'', ''Vvv'', ArchAArch64, False, 0),
     (''A64ExtendS32Low'', ''Vv'', ArchAArch64, False, 0),
     (''A64ExtmulS32Low'', ''Vvv'', ArchAArch64, False, 0),
     (''A64ExtendS32High'', ''Vv'', ArchAArch64, False, 0),
     (''A64ExtmulS32High'', ''Vvv'', ArchAArch64, False, 0),
     (''A64ExtendU32Low'', ''Vv'', ArchAArch64, False, 0),
     (''A64ExtmulU32Low'', ''Vvv'', ArchAArch64, False, 0),
     (''A64ExtendU32High'', ''Vv'', ArchAArch64, False, 0),
     (''A64ExtmulU32High'', ''Vvv'', ArchAArch64, False, 0),
     (''A64PairwiseS8'', ''Vv'', ArchAArch64, False, 0),
     (''A64PairwiseU8'', ''Vv'', ArchAArch64, False, 0),
     (''A64PairwiseS16'', ''Vv'', ArchAArch64, False, 0),
     (''A64PairwiseU16'', ''Vv'', ArchAArch64, False, 0),
     (''A64NarrowS16Low'', ''Vv'', ArchAArch64, False, 0),
     (''A64NarrowS16High'', ''Vvv'', ArchAArch64, True, 0),
     (''A64NarrowU16Low'', ''Vv'', ArchAArch64, False, 0),
     (''A64NarrowU16High'', ''Vvv'', ArchAArch64, True, 0),
     (''A64NarrowS32Low'', ''Vv'', ArchAArch64, False, 0),
     (''A64NarrowS32High'', ''Vvv'', ArchAArch64, True, 0),
     (''A64NarrowU32Low'', ''Vv'', ArchAArch64, False, 0),
     (''A64NarrowU32High'', ''Vvv'', ArchAArch64, True, 0),
     (''A64PairAdd32'', ''Vvv'', ArchAArch64, False, 0),
     (''A64CeilF32'', ''Vv'', ArchAArch64, False, 0),
     (''A64FloorF32'', ''Vv'', ArchAArch64, False, 0),
     (''A64TruncF32'', ''Vv'', ArchAArch64, False, 0),
     (''A64NearestF32'', ''Vv'', ArchAArch64, False, 0),
     (''A64CeilF64'', ''Vv'', ArchAArch64, False, 0),
     (''A64FloorF64'', ''Vv'', ArchAArch64, False, 0),
     (''A64TruncF64'', ''Vv'', ArchAArch64, False, 0),
     (''A64NearestF64'', ''Vv'', ArchAArch64, False, 0),
     (''A64ConvertS32'', ''Vv'', ArchAArch64, False, 0),
     (''A64ConvertU32'', ''Vv'', ArchAArch64, False, 0),
     (''A64ConvertS64'', ''Vv'', ArchAArch64, False, 0),
     (''A64ConvertU64'', ''Vv'', ArchAArch64, False, 0),
     (''A64PromoteLow'', ''Vv'', ArchAArch64, False, 0),
     (''A64DemoteZero'', ''Vv'', ArchAArch64, False, 0),
     (''A64TruncSatS32'', ''Vv'', ArchAArch64, False, 0),
     (''A64TruncSatU32'', ''Vv'', ArchAArch64, False, 0),
     (''A64NarrowBits64'', ''Vv'', ArchAArch64, False, 0),
     (''A64WidenShift32'', ''Vv'', ArchAArch64, False, 0)]"

definition A64VectorDupGP :: nat where "A64VectorDupGP = 63"
definition A64VectorDupLane :: nat where "A64VectorDupLane = 64"
definition A64VectorExtract :: nat where "A64VectorExtract = 65"
definition A64VectorExtractSigned :: nat where "A64VectorExtractSigned = 66"
definition A64VectorInsertGP :: nat where "A64VectorInsertGP = 67"
definition A64VectorInsertFP :: nat where "A64VectorInsertFP = 68"

definition native_vector_descriptor :: "machine_opcode \<Rightarrow> native_descriptor option" where
  "native_vector_descriptor c = (case c of
     Pseudo (NativeOp n) \<Rightarrow>
       if n < length native_rows
       then case native_rows ! n of (nm, ro, a, ti, mx) \<Rightarrow>
         Some \<lparr>nd_opcode = n, nd_name = nm, nd_roles = ro, nd_architecture = a, nd_tied = ti, nd_maximum = mx\<rparr>
       else None
   | _ \<Rightarrow> None)"

definition opcode_name :: "machine_opcode \<Rightarrow> string" where
  "opcode_name c = (case c of
     IROp op \<Rightarrow> spelling (instruction_descriptor op)
   | Pseudo PseudoUse \<Rightarrow> ''use''
   | Pseudo X86Mov128 \<Rightarrow> ''x86-mov128''
   | Pseudo X86Mov128Unaligned \<Rightarrow> ''x86-mov128-unaligned''
   | Pseudo (NativeOp n) \<Rightarrow> (case native_vector_descriptor c of Some d \<Rightarrow> nd_name d | None \<Rightarrow> ''invalid-pseudo''))"

section \<open>Operands of native vector operations\<close>

definition native_integer :: "operand \<Rightarrow> nat option" where
  "native_integer o1 = (case o1 of UIntOp n \<Rightarrow> Some (unat n) | IntOp n \<Rightarrow> if 0 \<le> n then Some (nat n) else None | _ \<Rightarrow> None)"

definition lane_immediate_ok :: "nat \<Rightarrow> nat \<Rightarrow> bool" where
  "lane_immediate_ok op v =
    (\<not> (op = A64VectorExtractSigned \<and> v mod 8 = 0) \<and>
     \<not> (op = A64VectorDupGP \<and> v \<notin> {1, 2, 4, 8}) \<and>
     \<not> (op \<in> {A64VectorDupLane, A64VectorExtract, A64VectorExtractSigned, A64VectorInsertGP, A64VectorInsertFP} \<and>
        (v = 0 \<or> v mod 16 = 0)))"

definition native_type_ok :: "char \<Rightarrow> ir_type \<Rightarrow> bool" where
  "native_type_ok role t =
    (if role = CHR ''I'' \<or> role = CHR ''i'' then is_integer t
     else if role = CHR ''B'' \<or> role = CHR ''b'' then type_kind t = K_F32 \<or> type_kind t = K_F64 \<or> is_vector t
     else is_vector t)"

definition native_operand_ok :: "target_machine option \<Rightarrow> native_descriptor \<Rightarrow> char \<times> operand \<Rightarrow> bool" where
  "native_operand_ok target d = (\<lambda>(role, o1).
    if role = CHR ''n''
    then (case native_integer o1 of None \<Rightarrow> False | Some v \<Rightarrow> v \<le> nd_maximum d \<and> lane_immediate_ok (nd_opcode d) v)
    else let integer = (role = CHR ''I'' \<or> role = CHR ''i'') in
      (case o1 of
        VReg r \<Rightarrow> (case r of None \<Rightarrow> False | Some r \<Rightarrow> native_type_ok role (vr_type r))
      | PReg r \<Rightarrow>
          let boundary = (if nd_architecture d = ArchAArch64 then 32 else 16)
          in pr_architecture r = nd_architecture d \<and>
             \<not> (integer \<and> nd_architecture d = ArchAArch64 \<and> pr_encoding r = 31) \<and>
             pr_encoding r < boundary * 2 \<and> (pr_encoding r < boundary) = integer \<and>
             (case target of None \<Rightarrow> True | Some tm \<Rightarrow> register_info tm r \<noteq> None)
      | _ \<Rightarrow> False))"

definition native_vector_operands ::
  "(80 word \<Rightarrow> 80 word \<Rightarrow> bool) \<Rightarrow> native_descriptor \<Rightarrow> operand list \<Rightarrow> target_machine option \<Rightarrow> bool" where
  "native_vector_operands ld_eq d ops target =
    (length ops = length (nd_roles d) \<and>
     (case target of None \<Rightarrow> True | Some tm \<Rightarrow> tm_architecture tm = nd_architecture d) \<and>
     (nd_tied d \<longrightarrow> operand_equal ld_eq (ops ! 0) (ops ! 1)) \<and>
     list_all (native_operand_ok target d) (zip (nd_roles d) ops))"

definition type_shape :: "ir_type \<Rightarrow> nat" where
  "type_shape t =
    (if \<not> is_vector t then 0
     else if is_float (vector_lane_type t) then (if type_lanes t = 4 then 5 else 6)
     else if type_lanes t = 16 then 1 else if type_lanes t = 8 then 2 else if type_lanes t = 4 then 3 else 4)"

fun vector_type :: "operand list \<Rightarrow> ir_type option" where
  "vector_type [] = None"
| "vector_type (o1 # ops) = (case o1 of
     VReg (Some r) \<Rightarrow> if is_vector (vr_type r) then Some (vr_type r) else vector_type ops
   | Mem m \<Rightarrow> if is_vector (mm_type m) then Some (mm_type m) else vector_type ops
   | _ \<Rightarrow> vector_type ops)"

definition vector_shape :: "operand list \<Rightarrow> nat" where
  "vector_shape ops = (case vector_type ops of Some t \<Rightarrow> type_shape t | None \<Rightarrow> 0)"

section \<open>Instructions, blocks and functions\<close>

record machine_instruction =
  mi_opcode :: machine_opcode
  mi_shape :: nat
  mi_operands :: "operand list"
  mi_lowered_call :: bool
  mi_order :: nat
  mi_arguments :: "physical_register list"
  mi_dependencies :: "(nat \<times> virtual_register) list"

definition make_instruction :: "machine_opcode \<Rightarrow> operand list \<Rightarrow> machine_instruction" where
  "make_instruction c ops = \<lparr>mi_opcode = c, mi_shape = vector_shape ops, mi_operands = ops, mi_lowered_call = False, mi_order = 0,
     mi_arguments = [], mi_dependencies = []\<rparr>"

record machine_label =
  ml_pointer :: nat
  ml_name :: string
  ml_ordinal :: "nat option"
  ml_addressed :: bool

record machine_block =
  mb_labels :: "nat list"
  mb_instructions :: "machine_instruction list"

record machine_function =
  mf_module :: string
  mf_name :: string
  mf_target :: target_machine
  mf_blocks :: "machine_block list"
  mf_labels :: "machine_label list"
  mf_registers :: "virtual_register list"
  mf_globals :: "physical_register list"

type_synonym symbol_resolver = "(machine_symbol, builtin) resolver"

end
