(* ===== verification/X86Patterns.thy ===== *)
theory X86Patterns
  imports X86Recipes MachineOperands
begin

text \<open>
  \<open>lib/CodeGen/X86Patterns.cpp\<close>: selection of the encoding of a machine instruction.  The rows of the
  declaration table are grouped by opcode with a counting sort, and the first row of the group whose
  operand constraints hold is taken.  The table is an argument of the model.
\<close>

section \<open>Pattern codes and constraints\<close>

text \<open>\<open>enum class PatternCode\<close>: the opcodes, the two private moves, the native x86 operations.\<close>

definition opcode_number :: "opcode \<Rightarrow> nat" where
  "opcode_number op = length (takeWhile (\<lambda>x. x \<noteq> op) all_opcodes)"

definition aligned_move :: nat where "aligned_move = length all_opcodes"

definition x86_natives :: "nat \<Rightarrow> nat" where
  "x86_natives n = length (filter (\<lambda>(_, _, a, _). a = ArchX86_64) (take n native_rows))"

definition code_count :: nat where
  "code_count = length all_opcodes + 2 + x86_natives (length native_rows)"

datatype (plugins only: code size) constraint_kind = CK_Invalid | CK_Any | CK_Register | CK_LowRegister
  | CK_Physical | CK_Zero | CK_Immediate | CK_Scale | CK_Constant | CK_Memory | CK_LongLabel
  | CK_ShortLabel | CK_Same

type_synonym operand_constraint = "constraint_kind \<times> nat"

fun decimal_number :: "nat \<Rightarrow> string \<Rightarrow> nat option" where
  "decimal_number n [] = Some n"
| "decimal_number n (c # cs) = (case decimal_digit c of
     None \<Rightarrow> None
   | Some d \<Rightarrow> if (UINT32_MAX - d) div 10 < n then None else decimal_number (n * 10 + d) cs)"

definition decode_memory :: "string \<Rightarrow> operand_constraint" where
  "decode_memory tag =
    (if tag = ''f'' then (CK_Memory, type_bit K_F32)
     else if tag = ''d'' then (CK_Memory, type_bit K_F64)
     else if tag = ''ld'' then (CK_Memory, type_bit K_LongDouble)
     else if tag = ''v'' then (CK_Memory, type_bit K_Vector)
     else let prefixed = (tag \<noteq> [] \<and> (hd tag = CHR ''u'' \<or> hd tag = CHR ''s''));
              signed_ok = (\<not> (prefixed \<and> hd tag = CHR ''u''));
              unsigned_ok = (\<not> (prefixed \<and> hd tag = CHR ''s''));
              tag = (if prefixed then tl tag else tag)
          in case tag of
               [c] \<Rightarrow> (case decimal_digit c of
                   Some n \<Rightarrow> if 3 < n then (CK_Invalid, 0)
                     else (CK_Memory, (if signed_ok then type_bit (signed_kinds ! n) else 0) OR
                            (if unsigned_ok then type_bit (unsigned_kinds ! n) else 0) OR
                            (if n = 3 then type_bit K_Pointer else 0))
                 | None \<Rightarrow> (CK_Invalid, 0))
             | _ \<Rightarrow> (CK_Invalid, 0))"

definition decode :: "string \<Rightarrow> operand_constraint" where
  "decode token =
    (if token = ''X'' then (CK_Any, 0)
     else if token = ''r'' then (CK_Register, 0)
     else if token = ''t'' then (CK_LowRegister, 0)
     else if token = ''z'' then (CK_Zero, 0)
     else if token = ''s'' then (CK_Scale, 0)
     else if token = ''L'' then (CK_LongLabel, 0)
     else if token = ''l'' then (CK_ShortLabel, 0)
     else case token of
       [] \<Rightarrow> (CK_Invalid, 0)
     | c # tag \<Rightarrow>
        if tag = [] \<and> decimal_digit c \<noteq> None then (CK_Same, the (decimal_digit c))
        else if c = CHR ''i'' \<and> length tag = 1 \<and> (case decimal_digit (hd tag) of Some d \<Rightarrow> d \<le> 3 | None \<Rightarrow> False)
        then (CK_Immediate, 8 * 2 ^ the (decimal_digit (hd tag)))
        else if c = CHR ''h'' \<or> c = CHR ''c''
        then (if tag = [] then (CK_Invalid, 0)
              else case decimal_number 0 tag of
                None \<Rightarrow> (CK_Invalid, 0)
              | Some n \<Rightarrow> if c = CHR ''h'' \<and> 33 < n then (CK_Invalid, 0)
                          else (if c = CHR ''h'' then CK_Physical else CK_Constant, n))
        else if c \<noteq> CHR ''m'' then (CK_Invalid, 0)
        else decode_memory tag)"

section \<open>The compiled table\<close>

record compiled_pattern =
  cp_operands :: "operand_constraint list"
  cp_tail :: bool

text \<open>The loop over the tokens of a constraint string; the flag is \<open>table.valid\<close>.\<close>

function compile_constraints :: "string \<Rightarrow> compiled_pattern \<times> bool \<Rightarrow> compiled_pattern \<times> bool" where
  "compile_constraints source (out, valid) =
    (if source = [] then (out, valid)
     else let token = takeWhile (\<lambda>c. \<not> blank c) source; rest = dropWhile (\<lambda>c. \<not> blank c) source
     in if token = ''$'' then (out\<lparr>cp_tail := True\<rparr>, valid \<and> rest = [])
        else if length (cp_operands out) = 4 then (out, False)
        else let c = decode token;
                 valid = (valid \<and> fst c \<noteq> CK_Invalid \<and> \<not> (fst c = CK_Same \<and> length (cp_operands out) \<le> snd c));
                 out = out\<lparr>cp_operands := cp_operands out @ [c]\<rparr>;
                 next_source = dropWhile blank rest
             in if rest = [] \<or> next_source = [] then (out, valid) else compile_constraints next_source (out, valid))"
  by pat_completeness auto

termination
proof (relation "measure (length \<circ> fst)", simp, goal_cases)
  case (1 source out valid token rest c valid' out' next_source)
  let ?r = "dropWhile (\<lambda>c. \<not> blank c) source"
  have r: "?r \<noteq> []" using 1 by simp
  then have "blank (hd ?r)" by (metis hd_dropWhile)
  then have "length (dropWhile blank ?r) < length ?r" using r by (cases ?r) (auto simp: le_imp_less_Suc dropWhile_shorter)
  also have "\<dots> \<le> length source" by (rule dropWhile_shorter)
  finally show ?case using 1 by simp
qed

definition compiled_row :: "encoding_declaration \<Rightarrow> compiled_pattern \<times> bool" where
  "compiled_row d = compile_constraints (dc_constraints d) (\<lparr>cp_operands = [], cp_tail = False\<rparr>, True)"

record pattern_table =
  pt_rows :: "encoding_declaration list"
  pt_compiled :: "compiled_pattern list"
  pt_indexes :: "nat list"
  pt_offsets :: "nat list"
  pt_valid :: bool

definition compile_patterns :: "nat \<Rightarrow> encoding_declaration list \<Rightarrow> pattern_table" where
  "compile_patterns codes ps = (let rows = map compiled_row ps; offsets = code_offsets codes ps in
     \<lparr>pt_rows = ps, pt_compiled = map fst rows,
      pt_indexes = sorted_rows codes ps,
      pt_offsets = offsets, pt_valid = list_all snd rows\<rparr>)"

section \<open>Matching\<close>

record pattern_options =
  po_short :: bool
  po_range :: "(int \<times> nat) option"
  po_layout :: bool
  po_shape :: nat

definition is_x86_register :: "operand \<Rightarrow> bool" where
  "is_x86_register o1 = (case o1 of VReg r \<Rightarrow> r \<noteq> None | PReg r \<Rightarrow> pr_architecture r = ArchX86_64 | _ \<Rightarrow> False)"

definition short_branch :: "pattern_options \<Rightarrow> bool" where
  "short_branch opts =
    (po_short opts \<and> (case po_range opts of
       None \<Rightarrow> True
     | Some (distance, maximum) \<Rightarrow>
         if distance < 0 then maximum \<le> 123 \<and> - 124 + int maximum \<le> distance else distance \<le> 129))"

definition x86_operands_equal :: "(80 word \<Rightarrow> 80 word \<Rightarrow> bool) \<Rightarrow> operand \<Rightarrow> operand \<Rightarrow> bool" where
  "x86_operands_equal ld_eq a b = (case as_integer a of
     Some v \<Rightarrow> as_integer b = Some v
   | None \<Rightarrow> (case as_memory a of
       Some m \<Rightarrow> (case as_memory b of
           None \<Rightarrow> False
         | Some m' \<Rightarrow> mm_type m = mm_type m' \<and> mm_base m = mm_base m' \<and> mm_index m = mm_index m' \<and>
             mm_displacement m = mm_displacement m' \<and> (mm_index m = None \<or> mm_scale m = mm_scale m'))
     | None \<Rightarrow> operand_equal ld_eq a b))"

definition legal_scale :: "nat \<Rightarrow> bool" where "legal_scale s = (s = 1 \<or> s = 2 \<or> s = 4 \<or> s = 8)"

definition immediate_fits :: "nat \<Rightarrow> u64 \<Rightarrow> bool" where
  "immediate_fits bits v = (let bound = 2 ^ (bits - 1) in - bound \<le> sint v \<and> sint v < bound)"

definition match_memory :: "nat \<Rightarrow> operand \<Rightarrow> bool" where
  "match_memory kinds o1 = (case o1 of
     VReg (Some r) \<Rightarrow> kinds = type_bit K_LongDouble \<and> type_kind (vr_type r) = K_LongDouble
   | Mem m \<Rightarrow> kinds AND type_bit (type_kind (mm_type m)) \<noteq> 0 \<and>
       - 2147483648 \<le> mm_displacement m \<and> mm_displacement m \<le> 2147483647 \<and>
       (mm_index m = None \<or> legal_scale (mm_scale m))
   | _ \<Rightarrow> False)"

definition match_operand ::
  "(80 word \<Rightarrow> 80 word \<Rightarrow> bool) \<Rightarrow> pattern_options \<Rightarrow> operand list \<Rightarrow> operand_constraint \<times> operand \<Rightarrow> bool" where
  "match_operand ld_eq opts ops = (\<lambda>((k, p), o1). (case k of
     CK_Any \<Rightarrow> True
   | CK_Register \<Rightarrow> is_x86_register o1
   | CK_LowRegister \<Rightarrow> (case as_physical o1 of
       Some r \<Rightarrow> pr_architecture r = ArchX86_64 \<and> pr_encoding r \<le> 3 | None \<Rightarrow> False)
   | CK_Physical \<Rightarrow> (case as_physical o1 of
       Some r \<Rightarrow> pr_architecture r = ArchX86_64 \<and> pr_encoding r = p | None \<Rightarrow> False)
   | CK_Zero \<Rightarrow> as_integer o1 = Some 0
   | CK_Scale \<Rightarrow> (case as_integer o1 of Some v \<Rightarrow> legal_scale (unat v) | None \<Rightarrow> False)
   | CK_Constant \<Rightarrow> as_integer o1 = Some (of_nat p)
   | CK_Immediate \<Rightarrow> (case as_integer o1 of
       None \<Rightarrow> p = 64 \<and> is_symbolic o1
     | Some v \<Rightarrow> p < 64 \<longrightarrow> immediate_fits p v)
   | CK_Memory \<Rightarrow> match_memory p o1
   | CK_ShortLabel \<Rightarrow> as_label o1 \<noteq> None \<and> short_branch opts
   | CK_LongLabel \<Rightarrow> as_label o1 \<noteq> None \<or> is_symbolic o1
   | CK_Same \<Rightarrow> x86_operands_equal ld_eq o1 (ops ! p)
   | CK_Invalid \<Rightarrow> False))"

definition match_pattern :: "(80 word \<Rightarrow> 80 word \<Rightarrow> bool) \<Rightarrow> compiled_pattern \<Rightarrow> operand list \<Rightarrow> pattern_options \<Rightarrow> bool" where
  "match_pattern ld_eq p ops opts =
    (\<not> (length ops < length (cp_operands p) \<or> (\<not> cp_tail p \<and> length ops \<noteq> length (cp_operands p))) \<and>
     list_all (match_operand ld_eq opts ops) (zip (cp_operands p) ops))"

section \<open>Selection\<close>

definition wanted_code :: "(80 word \<Rightarrow> 80 word \<Rightarrow> bool) \<Rightarrow> machine_opcode \<Rightarrow> operand list \<Rightarrow> nat option" where
  "wanted_code ld_eq c ops = (case native_vector_descriptor c of
     Some d \<Rightarrow>
       if nd_architecture d \<noteq> ArchX86_64 \<or> \<not> native_vector_operands ld_eq d ops None then None
       else Some (aligned_move + 2 + x86_natives (nd_opcode d))
   | None \<Rightarrow> (case c of
       IROp op \<Rightarrow> Some (opcode_number op)
     | Pseudo X86Mov128 \<Rightarrow> Some aligned_move
     | Pseudo X86Mov128Unaligned \<Rightarrow> Some (aligned_move + 1)
     | _ \<Rightarrow> None))"

definition candidate_options :: "recipe_table \<Rightarrow> nat \<Rightarrow> pattern_options \<Rightarrow> pattern_options" where
  "candidate_options rt row opts = (case po_range opts of
     Some (distance, maximum) \<Rightarrow>
       if po_layout opts
       then opts\<lparr>po_range := Some (distance, case x86_encoding_recipe rt row of Some r \<Rightarrow> er_maximum r | None \<Rightarrow> 0)\<rparr>
       else opts
   | None \<Rightarrow> opts)"

definition accepts_row ::
  "(80 word \<Rightarrow> 80 word \<Rightarrow> bool) \<Rightarrow> pattern_table \<Rightarrow> recipe_table \<Rightarrow> nat \<Rightarrow> operand list \<Rightarrow> pattern_options \<Rightarrow> nat \<Rightarrow> bool" where
  "accepts_row ld_eq pt rt shape ops opts row =
    (\<not> (shape \<noteq> 0 \<and> dc_shape (pt_rows pt ! row) \<noteq> 0 \<and> shape \<noteq> dc_shape (pt_rows pt ! row)) \<and>
     match_pattern ld_eq (pt_compiled pt ! row) ops (candidate_options rt row opts))"

definition x86_instruction_pattern ::
  "(80 word \<Rightarrow> 80 word \<Rightarrow> bool) \<Rightarrow> pattern_table \<Rightarrow> recipe_table \<Rightarrow> machine_opcode \<Rightarrow> operand list \<Rightarrow> pattern_options \<Rightarrow> nat option" where
  "x86_instruction_pattern ld_eq pt rt c ops opts = (case wanted_code ld_eq c ops of
     None \<Rightarrow> None
   | Some wanted \<Rightarrow>
       if code_count \<le> wanted then None
       else let shape = (if po_shape opts \<noteq> 0 then po_shape opts else vector_shape ops)
            in List.find (accepts_row ld_eq pt rt shape ops opts)
                 (bucket (pt_indexes pt) (pt_offsets pt) wanted))"

section \<open>Selection by scanning\<close>

text \<open>The reference selection: the first row of the whole declaration table with the wanted code whose shape
  and constraints accept the operands.\<close>

definition first_row ::
  "(80 word \<Rightarrow> 80 word \<Rightarrow> bool) \<Rightarrow> encoding_declaration list \<Rightarrow> recipe_table \<Rightarrow> machine_opcode \<Rightarrow> operand list \<Rightarrow> pattern_options \<Rightarrow> nat option" where
  "first_row ld_eq ps rt c ops opts =
    List.find (\<lambda>row. Some (dc_code (ps ! row)) = wanted_code ld_eq c ops \<and>
       accepts_row ld_eq (compile_patterns code_count ps) rt (if po_shape opts \<noteq> 0 then po_shape opts else vector_shape ops) ops opts row)
      [0..<length ps]"

lemma selection_first:
  assumes "codes_ok code_count ps"
  shows "x86_instruction_pattern ld_eq (compile_patterns code_count ps) rt c ops opts = first_row ld_eq ps rt c ops opts"
proof (cases "wanted_code ld_eq c ops")
  case None
  then show ?thesis by (simp add: x86_instruction_pattern_def first_row_def find_none list_all_iff)
next
  case (Some w)
  show ?thesis
  proof (cases "w < code_count")
    case False
    then have "list_all (\<lambda>row. dc_code (ps ! row) \<noteq> w) [0..<length ps]"
      using assms by (auto simp: codes_ok_def list_all_length list_all_iff)
    then show ?thesis
      using False Some by (auto simp: x86_instruction_pattern_def first_row_def list_all_iff intro!: find_none [symmetric])
  next
    case True
    show ?thesis
      using True Some bucket_code_rows [OF assms True]
      by (simp add: x86_instruction_pattern_def first_row_def Let_def code_rows_def find_filter compile_patterns_def)
  qed
qed

text \<open>C37: when every row of the declaration table has a code of the enumeration, the selection through the
  grouped, sorted table finds the row that a scan of the whole table in declaration order would find: the
  counting sort keeps every row of a code, in order, and mixes in none of another.\<close>

theorem selection_is_first_row:
  assumes "codes_ok code_count ps"
  shows "x86_instruction_pattern ld_eq (compile_patterns code_count ps) rt c ops opts = first_row ld_eq ps rt c ops opts"
  using assms by (rule selection_first)

definition sample_row :: encoding_declaration where
  "sample_row = \<lparr>dc_code = 0, dc_constraints = ''r r'', dc_encoding = ''X 8B r0 R1'', dc_shape = 0\<rparr>"

definition plain_options :: pattern_options where
  "plain_options = \<lparr>po_short = False, po_range = None, po_layout = False, po_shape = 0\<rparr>"

theorem selection_is_first_row_witness:
  "x86_instruction_pattern (=) (compile_patterns code_count [sample_row]) (compile_recipes [sample_row]) (IROp (OMove O_Mov))
     [PReg (x86_handle X_AX), PReg (x86_handle X_DX)] plain_options =
   first_row (=) [sample_row] (compile_recipes [sample_row]) (IROp (OMove O_Mov)) [PReg (x86_handle X_AX), PReg (x86_handle X_DX)] plain_options"
  by (rule selection_is_first_row) (simp add: codes_ok_def sample_row_def code_count_def)

section \<open>Legality and the field that holds the operand\<close>

text \<open>A short branch is legal only where its one-byte displacement reaches: whenever the rule accepts a
  distance and the branch takes at least two bytes, at most 128 and at most its conservative maximum, the distance
  measured from the end of the branch is within a signed byte.\<close>

lemma short_branch_reaches:
  assumes "short_branch opts" "po_range opts = Some (distance, maximum)" "2 \<le> taken" "taken \<le> maximum" "taken \<le> 128"
  shows "- 128 \<le> distance - int taken \<and> distance - int taken \<le> 127"
  using assms by (auto simp: short_branch_def split: if_splits)

text \<open>An immediate that the pattern accepts for a field of one, two or four bytes is not changed by the
  field: the low bytes the encoder writes, sign-extended as the processor does, give the operand back.\<close>

lemma accepted_immediate_survives:
  assumes "match_operand ld_eq opts ops ((CK_Immediate, 8 * 2 ^ k), o1)" "k \<le> 2" "as_integer o1 = Some v"
  shows "signed_take_bit (8 * 2 ^ k - 1) v = v"
proof -
  have k: "8 * 2 ^ k < (64 :: nat)" "0 < (8 * 2 ^ k :: nat)"
    using assms(2) by (auto simp: le_Suc_eq numeral_2_eq_2)
  then have "immediate_fits (8 * 2 ^ k) v" using assms(1,3) by (simp add: match_operand_def)
  then have b: "- (2 ^ (8 * 2 ^ k - 1)) \<le> sint v" "sint v < 2 ^ (8 * 2 ^ k - 1)"
    by (simp_all add: immediate_fits_def Let_def)
  have "(word_of_int (signed_take_bit (8 * 2 ^ k - 1) (sint v)) :: u64) = signed_take_bit (8 * 2 ^ k - 1) (word_of_int (sint v))"
    by (rule of_int_signed_take_bit)
  then show ?thesis using b by (simp add: signed_take_bit_int_eq_self)
qed

end
