(* ===== verification/X86Address.thy ===== *)
theory X86Address
  imports CodeBytes X86ABI
begin

text \<open>
  \<open>encode_x86_address\<close> of \<open>lib/CodeGen/X86Encoding.cpp\<close>: the ModRM, SIB and displacement fields of a memory
  operand, with a model of how an x86-64 processor decodes the bytes (Intel SDM volume 2, tables 2-2, 2-3 and
  2-5) to state what the encoding means.  Registers are their hardware numbers.
\<close>

section \<open>Encoding\<close>

record x86_address =
  xa_mod :: nat
  xa_rm :: nat
  xa_scale :: nat
  xa_index :: nat
  xa_base :: nat
  xa_disp_bytes :: nat
  xa_sib :: bool
  xa_rex_b :: bool
  xa_rex_x :: bool
  xa_disp :: u32

definition addressable :: "nat option \<Rightarrow> nat option \<Rightarrow> int \<Rightarrow> nat \<Rightarrow> bool" where
  "addressable base index disp scale =
    ((case base of None \<Rightarrow> True | Some b \<Rightarrow> b < 16) \<and>
     (case index of None \<Rightarrow> True | Some i \<Rightarrow> i < 16 \<and> i \<noteq> x86_number X_SP \<and> scale \<in> {1, 2, 4, 8}) \<and>
     - 2147483648 \<le> disp \<and> disp \<le> 2147483647)"

text \<open>The mode and the number of displacement bytes.\<close>

definition displacement_mode :: "nat option \<Rightarrow> int \<Rightarrow> nat \<times> nat" where
  "displacement_mode base disp = (case base of
     None \<Rightarrow> (0, 4)
   | Some b \<Rightarrow> if disp \<noteq> 0 \<or> b = x86_number X_BP \<or> b = x86_number X_R13
       then (if - 128 \<le> disp \<and> disp \<le> 127 then (1, 1) else (2, 4)) else (0, 0))"

definition encode_x86_address :: "nat option \<Rightarrow> nat option \<Rightarrow> int \<Rightarrow> nat \<Rightarrow> x86_address result" where
  "encode_x86_address base index disp scale =
    (if \<not> addressable base index disp scale
     then mk_error InvalidOperand ''x86 address: invalid register, scale or displacement''
     else let sib = (index \<noteq> None \<or> base = None \<or> base = Some (x86_number X_SP) \<or> base = Some (x86_number X_R12))
          in Inr \<lparr>xa_mod = fst (displacement_mode base disp), xa_rm = (if sib then 4 else the base mod 8),
               xa_scale = (if index = None \<or> scale = 1 then 0 else if scale = 2 then 1 else if scale = 4 then 2 else 3),
               xa_index = (case index of Some i \<Rightarrow> i mod 8 | None \<Rightarrow> 4),
               xa_base = (case base of Some b \<Rightarrow> b mod 8 | None \<Rightarrow> 5),
               xa_disp_bytes = snd (displacement_mode base disp), xa_sib = sib,
               xa_rex_b = (case base of Some b \<Rightarrow> 8 \<le> b | None \<Rightarrow> False),
               xa_rex_x = (case index of Some i \<Rightarrow> 8 \<le> i | None \<Rightarrow> False), xa_disp = word_of_int disp\<rparr>)"

text \<open>The byte with the fields of widths 2, 3 and 3, as the encoder puts both ModRM and SIB.\<close>

definition packed_byte :: "nat \<Rightarrow> nat \<Rightarrow> nat \<Rightarrow> u64" where
  "packed_byte a b c = of_nat (push_bit 6 a OR push_bit 3 b OR c)"

definition address_bytes :: "nat \<Rightarrow> x86_address \<Rightarrow> bytes" where
  "address_bytes reg a = put_le 1 (packed_byte (xa_mod a) reg (xa_rm a)) @
     (if xa_sib a then put_le 1 (packed_byte (xa_scale a) (xa_index a) (xa_base a)) else []) @
     put_le (xa_disp_bytes a) (ucast (xa_disp a))"

section \<open>Decoding\<close>

definition unpacked_byte :: "u8 \<Rightarrow> nat \<times> nat \<times> nat" where
  "unpacked_byte w = (unat w div 64, unat w div 8 mod 8, unat w mod 8)"

definition with_rex :: "bool \<Rightarrow> nat \<Rightarrow> nat" where
  "with_rex rex n = n + (if rex then 8 else 0)"

text \<open>The displacement that follows: none, a signed byte or a signed doubleword; the rest of the stream must be
  exactly that.\<close>

definition decode_displacement :: "nat \<Rightarrow> bytes \<Rightarrow> int option" where
  "decode_displacement n bs =
    (if length bs \<noteq> n then None
     else Some (if n = 1 then sint (ucast (get_le bs) :: u8) else if n = 4 then sint (ucast (get_le bs) :: u32) else 0))"

definition displacement_bytes :: "nat \<Rightarrow> nat \<Rightarrow> nat" where
  "displacement_bytes md base = (if md = 1 then 1 else if md = 2 \<or> md = 0 \<and> base = 5 then 4 else 0)"

text \<open>A decoded memory operand: the ModRM register field, the base, the index with its scale, the displacement.
  Register-direct and instruction-relative forms are no memory operand of this kind.\<close>

type_synonym decoded = "nat \<times> nat option \<times> (nat \<times> nat) option \<times> int"

definition decode_sib :: "bool \<Rightarrow> bool \<Rightarrow> nat \<Rightarrow> nat \<Rightarrow> u8 \<Rightarrow> bytes \<Rightarrow> decoded option" where
  "decode_sib rex_b rex_x md reg s bs =
    (let (sc, ix, base) = unpacked_byte s; index = with_rex rex_x ix
     in map_option (\<lambda>d. (reg, if md = 0 \<and> base = 5 then None else Some (with_rex rex_b base),
            if index = 4 then None else Some (index, 2 ^ sc), d))
          (decode_displacement (displacement_bytes md base) bs))"

definition decode_address :: "bool \<Rightarrow> bool \<Rightarrow> bytes \<Rightarrow> decoded option" where
  "decode_address rex_b rex_x bs = (case bs of
     [] \<Rightarrow> None
   | m # bs \<Rightarrow> (let (md, reg, rm) = unpacked_byte m in
       if md = 3 then None
       else if rm = 4 then (case bs of [] \<Rightarrow> None | s # bs \<Rightarrow> decode_sib rex_b rex_x md reg s bs)
       else if md = 0 \<and> rm = 5 then None
       else map_option (\<lambda>d. (reg, Some (with_rex rex_b rm), None, d)) (decode_displacement (displacement_bytes md rm) bs)))"

section \<open>Round trip\<close>

lemma packed_nat:
  assumes "b < 8" "c < 8"
  shows "push_bit 6 a OR push_bit 3 b OR c = a * 64 + b * 8 + (c :: nat)"
proof -
  have t: "take_bit 3 c = c" "take_bit 3 b = b" using assms by (simp_all add: take_bit_nat_eq_self)
  have bc: "push_bit 3 b OR c = push_bit 3 b + c"
    by (rule disjunctive_add_eq_or [symmetric], rule bit_eqI)
      (metis t(1) bit_and_iff bit_push_bit_iff bit_take_bit_iff bit_0_eq bot_apply bot_bool_def linorder_not_less)
  have lo: "push_bit 3 b + c < 2 ^ 6" using assms by (simp add: push_bit_eq_mult)
  then have t6: "take_bit 6 (push_bit 3 b + c) = push_bit 3 b + c" by (simp only: take_bit_nat_eq_self)
  have "push_bit 6 a OR (push_bit 3 b + c) = push_bit 6 a + (push_bit 3 b + c)"
    by (rule disjunctive_add_eq_or [symmetric], rule bit_eqI)
      (metis t6 bit_and_iff bit_push_bit_iff bit_take_bit_iff bit_0_eq bot_apply bot_bool_def linorder_not_less)
  then show ?thesis unfolding or.assoc bc by (simp add: push_bit_eq_mult)
qed

lemma unpack_packed:
  assumes "a < 4" "b < 8" "c < 8"
  shows "unpacked_byte (ucast (packed_byte a b c)) = (a, b, c)"
proof -
  have n: "a * 64 + b * 8 + c < 256" using assms by simp
  have "unat (ucast (packed_byte a b c) :: u8) = (a * 64 + b * 8 + c) mod 2 ^ 8"
    unfolding packed_byte_def packed_nat [OF assms(2,3)] using n
    by (simp add: unsigned_ucast_eq take_bit_eq_mod unat_of_nat del: of_nat_add of_nat_mult)
  then have u: "unat (ucast (packed_byte a b c) :: u8) = c + 8 * (b + 8 * a)" using n by simp
  have e: "(c + 8 * x) div 8 = x" "(c + 8 * x) mod 8 = c" "(b + 8 * a) div 8 = a" "(b + 8 * a) mod 8 = b" for x
    using assms by simp_all
  have "(64 :: nat) = 8 * 8" by simp
  then show ?thesis unfolding unpacked_byte_def u by (simp only: div_mult2_eq e)
qed

lemma signed_low_bytes:
  "- 128 \<le> d \<Longrightarrow> d \<le> 127 \<Longrightarrow> sint (ucast (take_bit 8 (ucast (word_of_int d :: u32) :: u64)) :: u8) = d"
  "- 2147483648 \<le> d \<Longrightarrow> d \<le> 2147483647 \<Longrightarrow> sint (ucast (take_bit 32 (ucast (word_of_int d :: u32) :: u64)) :: u32) = d"
proof -
  have e: "ucast (take_bit 8 (ucast (word_of_int d :: u32) :: u64)) = (word_of_int d :: u8)"
    "ucast (take_bit 32 (ucast (word_of_int d :: u32) :: u64)) = (word_of_int d :: u32)"
    by (rule bit_word_eqI, simp add: bit_ucast_iff bit_take_bit_iff bit_word_of_int_iff)+
  show "- 128 \<le> d \<Longrightarrow> d \<le> 127 \<Longrightarrow> sint (ucast (take_bit 8 (ucast (word_of_int d :: u32) :: u64)) :: u8) = d"
    unfolding e by (intro sint_word_of_int_range) simp_all
  show "- 2147483648 \<le> d \<Longrightarrow> d \<le> 2147483647 \<Longrightarrow> sint (ucast (take_bit 32 (ucast (word_of_int d :: u32) :: u64)) :: u32) = d"
    unfolding e by (intro sint_word_of_int_range) simp_all
qed

lemma decode_put_displacement:
  "- 128 \<le> d \<Longrightarrow> d \<le> 127 \<Longrightarrow> decode_displacement 1 (put_le 1 (ucast (word_of_int d :: u32))) = Some d"
  "- 2147483648 \<le> d \<Longrightarrow> d \<le> 2147483647 \<Longrightarrow> decode_displacement 4 (put_le 4 (ucast (word_of_int d :: u32))) = Some d"
  "decode_displacement 0 (put_le 0 v) = Some 0"
  unfolding decode_displacement_def length_put_le get_put_le using signed_low_bytes by simp_all

lemma with_rex_split: "n < 16 \<Longrightarrow> with_rex (8 \<le> n) (n mod 8) = n"
proof (cases "n < 8")
  case False
  assume "n < 16"
  with False obtain m where "n = m + 8" "m < 8" by (metis add.commute le_Suc_ex less_diff_conv2 not_less add_less_cancel_left numeral_Bit0)
  then show ?thesis by (simp add: with_rex_def)
qed (simp add: with_rex_def)

lemma low_register:
  assumes "n < (16 :: nat)"
  shows "n mod 8 = 4 \<longleftrightarrow> n = 4 \<or> n = 12" "n mod 8 = 5 \<longleftrightarrow> n = 5 \<or> n = 13"
  using assms by presburger+

lemmas register_numbers = x86_number.simps(1-16)

text \<open>The encoder's fields, base register by base register.\<close>

lemma encoded_fields:
  assumes "encode_x86_address base index disp scale = Inr a"
  shows "addressable base index disp scale" "xa_mod a < 4" "xa_rm a < 8" "xa_scale a < 4" "xa_index a < 8" "xa_base a < 8"
    "decode_displacement (xa_disp_bytes a) (put_le (xa_disp_bytes a) (ucast (xa_disp a))) = Some disp"
    "xa_mod a \<noteq> 3" "xa_rm a = 4 \<longleftrightarrow> xa_sib a" "\<not> (xa_mod a = 0 \<and> xa_rm a = 5)"
    "xa_disp_bytes a = displacement_bytes (xa_mod a) (if xa_sib a then xa_base a else xa_rm a)"
    "(if xa_mod a = 0 \<and> xa_base a = 5 then None else Some (with_rex (xa_rex_b a) (xa_base a))) = base"
    "(if with_rex (xa_rex_x a) (xa_index a) = 4 then None else Some (with_rex (xa_rex_x a) (xa_index a), 2 ^ xa_scale a)) =
       map_option (\<lambda>i. (i, scale)) index"
    "\<not> xa_sib a \<Longrightarrow> Some (with_rex (xa_rex_b a) (xa_rm a)) = base \<and> index = None"
proof -
  have ok: "addressable base index disp scale" using assms by (auto simp: encode_x86_address_def split: if_splits)
  note d = decode_put_displacement decode_put_displacement(1) [unfolded One_nat_def]
  define sz where "sz = displacement_mode base disp"
  have p: "xa_mod a = fst sz" "xa_disp_bytes a = snd sz"
    "xa_sib a = (index \<noteq> None \<or> base = None \<or> base = Some 4 \<or> base = Some 12)"
    "xa_rm a = (if xa_sib a then 4 else the base mod 8)"
    "xa_scale a = (if index = None \<or> scale = 1 then 0 else if scale = 2 then 1 else if scale = 4 then 2 else 3)"
    "xa_index a = (case index of Some i \<Rightarrow> i mod 8 | None \<Rightarrow> 4)"
    "xa_base a = (case base of Some b \<Rightarrow> b mod 8 | None \<Rightarrow> 5)"
    "xa_rex_b a = (case base of Some b \<Rightarrow> 8 \<le> b | None \<Rightarrow> False)"
    "xa_rex_x a = (case index of Some i \<Rightarrow> 8 \<le> i | None \<Rightarrow> False)" "xa_disp a = word_of_int disp"
    using assms ok by (auto simp: encode_x86_address_def Let_def sz_def [symmetric])
  have base16: "b < 16" if "base = Some b" for b using ok that by (simp add: addressable_def)
  have index16: "i < 16 \<and> i \<noteq> 4 \<and> scale \<in> {1, 2, 4, 8}" if "index = Some i" for i using ok that by (simp add: addressable_def)
  have sizes: "sz = (0, 4) \<and> base = None \<or> (sz = (0, 0) \<and> disp = 0 \<or> sz = (1, 1) \<and> - 128 \<le> disp \<and> disp \<le> 127 \<or> sz = (2, 4)) \<and> base \<noteq> None"
    by (auto simp: sz_def displacement_mode_def split: option.splits)
  have zero: "fst sz = 0 \<and> base = Some b \<longrightarrow> b \<noteq> 5 \<and> b \<noteq> 13" for b
    by (auto simp: sz_def displacement_mode_def)
  show "addressable base index disp scale" by (rule ok)
  show "xa_mod a < 4" "xa_mod a \<noteq> 3" using sizes p(1) by auto
  show "xa_rm a < 8" "xa_scale a < 4" "xa_index a < 8" "xa_base a < 8"
    by (simp_all add: p split: option.split)
  show "decode_displacement (xa_disp_bytes a) (put_le (xa_disp_bytes a) (ucast (xa_disp a))) = Some disp"
    using sizes ok by (auto simp: p(2,10) d addressable_def simp del: put_le.simps)
  show "xa_rm a = 4 \<longleftrightarrow> xa_sib a"
    using base16 low_register(1) by (cases base) (auto simp: p(3,4))
  show "\<not> (xa_mod a = 0 \<and> xa_rm a = 5)"
    using base16 low_register(2) zero by (cases base) (auto simp: p(1,3,4))
  show "xa_disp_bytes a = displacement_bytes (xa_mod a) (if xa_sib a then xa_base a else xa_rm a)"
    using base16 low_register(2) zero sizes by (cases base) (auto simp: p(1-4,7) displacement_bytes_def)
  show "(if xa_mod a = 0 \<and> xa_base a = 5 then None else Some (with_rex (xa_rex_b a) (xa_base a))) = base"
    using base16 low_register(2) zero sizes by (cases base) (auto simp: p(1,7,8) with_rex_split)
  show "(if with_rex (xa_rex_x a) (xa_index a) = 4 then None else Some (with_rex (xa_rex_x a) (xa_index a), 2 ^ xa_scale a)) =
       map_option (\<lambda>i. (i, scale)) index"
  proof (cases index)
    case None
    then show ?thesis by (simp add: p with_rex_def)
  next
    case (Some i)
    then show ?thesis using index16 [OF Some] by (auto simp: p(5,6,9) with_rex_split)
  qed
  show "\<not> xa_sib a \<Longrightarrow> Some (with_rex (xa_rex_b a) (xa_rm a)) = base \<and> index = None"
    using base16 by (auto simp: p(3,4,8) with_rex_split)
qed

lemma decode_encoded:
  assumes e: "encode_x86_address base index disp scale = Inr a" and r: "reg < 8"
  shows "decode_address (xa_rex_b a) (xa_rex_x a) (address_bytes reg a) = Some (reg, base, map_option (\<lambda>i. (i, scale)) index, disp)"
proof -
  note f = encoded_fields [OF e]
  have m: "unpacked_byte (ucast (packed_byte (xa_mod a) reg (xa_rm a))) = (xa_mod a, reg, xa_rm a)"
    by (rule unpack_packed [OF f(2) r f(3)])
  have s: "unpacked_byte (ucast (packed_byte (xa_scale a) (xa_index a) (xa_base a))) = (xa_scale a, xa_index a, xa_base a)"
    by (rule unpack_packed [OF f(4-6)])
  show ?thesis
  proof (cases "xa_sib a")
    case True
    then have "address_bytes reg a = ucast (packed_byte (xa_mod a) reg (xa_rm a)) #
        ucast (packed_byte (xa_scale a) (xa_index a) (xa_base a)) # put_le (xa_disp_bytes a) (ucast (xa_disp a))"
      by (simp add: address_bytes_def)
    then have "decode_address (xa_rex_b a) (xa_rex_x a) (address_bytes reg a) =
        decode_sib (xa_rex_b a) (xa_rex_x a) (xa_mod a) reg (ucast (packed_byte (xa_scale a) (xa_index a) (xa_base a)))
          (put_le (xa_disp_bytes a) (ucast (xa_disp a)))"
      using True f(8,9) by (simp only: decode_address_def list.case m Let_def prod.case if_False if_True)
    also have "\<dots> = Some (reg, base, map_option (\<lambda>i. (i, scale)) index, disp)"
      unfolding decode_sib_def s Let_def prod.case using True f(7,11-13) by simp
    finally show ?thesis .
  next
    case False
    then have "address_bytes reg a = ucast (packed_byte (xa_mod a) reg (xa_rm a)) # put_le (xa_disp_bytes a) (ucast (xa_disp a))"
      by (simp add: address_bytes_def)
    then have "decode_address (xa_rex_b a) (xa_rex_x a) (address_bytes reg a) =
        map_option (\<lambda>d. (reg, Some (with_rex (xa_rex_b a) (xa_rm a)), None, d))
          (decode_displacement (displacement_bytes (xa_mod a) (xa_rm a)) (put_le (xa_disp_bytes a) (ucast (xa_disp a))))"
      using False f(8-10) by (simp only: decode_address_def list.case m Let_def prod.case if_False if_True)
    then show ?thesis using False f(7,11) f(14) by simp
  qed
qed

text \<open>C27: the fields the encoder chooses for a memory operand, put into a ModRM byte (next to any register
  field), an optional SIB byte and a displacement, are decoded by the processor's rules to the very base, index,
  scale and displacement of the operand, through all the special cases of the format (SP and R12 need a SIB byte,
  BP and R13 need a displacement, no base means a doubleword, SP is no index).  The encoder refuses exactly the
  operands outside the format.\<close>

theorem address_roundtrip:
  "case encode_x86_address base index disp scale of
     Inl e \<Rightarrow> code e = InvalidOperand \<and> \<not> addressable base index disp scale
   | Inr a \<Rightarrow> addressable base index disp scale \<and> list_all (\<lambda>reg.
       decode_address (xa_rex_b a) (xa_rex_x a) (address_bytes reg a) = Some (reg, base, map_option (\<lambda>i. (i, scale)) index, disp)) [0..<8]"
proof (cases "encode_x86_address base index disp scale")
  case (Inl e)
  then show ?thesis by (auto simp: encode_x86_address_def mk_error_def Let_def split: if_splits prod.splits)
next
  case (Inr a)
  then show ?thesis using decode_encoded [OF Inr] encoded_fields(1) [OF Inr] by (simp add: list_all_iff)
qed

end
