(* ===== verification/X86Encoding.thy ===== *)
theory X86Encoding
  imports X86Patterns X86Address
begin

text \<open>
  \<open>lib/CodeGen/X86Encoding.cpp\<close>: the x86-64 encoder.  An instruction is encoded by walking the operations of
  the words of its recipe; the engine appends bytes and collects relocations, label fixups and constant pool
  references, which are patched when the whole body is laid out.  \<open>std::unordered_map::at\<close> throws for a missing
  key; the exception is the error \<^term>\<open>mk_error InvalidArgument ''out_of_range''\<close>.
\<close>

section \<open>The engine\<close>

record encode_context =
  ec_module :: string
  ec_name :: string
  ec_target :: string
  ec_known :: symbol_resolver
  ec_ld_eq :: "80 word \<Rightarrow> 80 word \<Rightarrow> bool"
  ec_patterns :: pattern_table
  ec_recipes :: recipe_table

record label_fixup =
  lf_label :: nat
  lf_offset :: nat
  lf_next :: nat
  lf_size :: nat
  lf_operand :: nat

record pool_fixup =
  px_value :: operand
  px_offset :: nat
  px_next :: nat
  px_call :: bool

record engine =
  en_bytes :: bytes
  en_relocations :: "(machine_symbol, builtin) relocation list"
  en_constants :: "pool_entry list"
  en_labels :: "label_fixup list"
  en_pool :: "pool_fixup list"
  en_known :: "(operand \<times> u64) list"

definition empty_engine :: engine where
  "empty_engine = \<lparr>en_bytes = [], en_relocations = [], en_constants = [], en_labels = [], en_pool = [], en_known = []\<rparr>"

definition engine_invalid :: "encode_context \<Rightarrow> string \<Rightarrow> 'a result" where
  "engine_invalid cx why =
    mk_error InvalidOperand (ec_module cx @ ''/'' @ ec_name cx @ '' ['' @ ec_target cx @ '', encode]: '' @ why)"

definition out_of_range :: "'a result" where
  "out_of_range = mk_error InvalidArgument ''out_of_range''"

definition emit_bytes :: "u64 \<Rightarrow> nat \<Rightarrow> engine \<Rightarrow> engine" where
  "emit_bytes v n en = en\<lparr>en_bytes := en_bytes en @ put_le n v\<rparr>"

definition patch_bytes :: "nat \<Rightarrow> u64 \<Rightarrow> nat \<Rightarrow> engine \<Rightarrow> engine" where
  "patch_bytes at v n en = en\<lparr>en_bytes := write_at (en_bytes en) at v n\<rparr>"

definition physical_number :: "encode_context \<Rightarrow> operand \<Rightarrow> nat result" where
  "physical_number cx o1 = (case as_physical o1 of
     Some r \<Rightarrow> if pr_architecture r \<noteq> ArchX86_64 \<or> 32 \<le> pr_encoding r
               then engine_invalid cx ''expected allocated x86 register'' else Inr (pr_encoding r)
   | None \<Rightarrow> engine_invalid cx ''expected allocated x86 register'')"

fun find_known :: "operand \<Rightarrow> (operand \<times> u64) list \<Rightarrow> u64 option" where
  "find_known o1 [] = None"
| "find_known o1 ((o2, v) # ks) = (if operand_equal (\<lambda>_ _. False) o2 o1 then Some v else find_known o1 ks)"

definition resolve_known :: "encode_context \<Rightarrow> operand \<Rightarrow> engine \<Rightarrow> (u64 \<times> engine) result" where
  "resolve_known cx o1 en = (case as_integer o1 of
     Some n \<Rightarrow> Inr (n, en)
   | None \<Rightarrow> (case ec_known cx of
       None \<Rightarrow> engine_invalid cx ''unresolved immediate''
     | Some known \<Rightarrow>
         if \<not> is_symbolic o1 then engine_invalid cx ''unresolved immediate''
         else case find_known o1 (en_known en) of
           Some v \<Rightarrow> Inr (v, en)
         | None \<Rightarrow> (case known (symbol_part o1, builtin_part o1) of
             Inl e \<Rightarrow> (case engine_invalid cx (message e) of Inl e' \<Rightarrow> Inl (e'\<lparr>code := code e\<rparr>) | Inr x \<Rightarrow> Inr x)
           | Inr a \<Rightarrow> let v = a + displacement_part o1 in Inr (v, en\<lparr>en_known := en_known en @ [(o1, v)]\<rparr>))))"

definition symbol_relocation :: "operand \<Rightarrow> nat \<Rightarrow> (machine_symbol, builtin) relocation" where
  "symbol_relocation o1 at = \<lparr>rel_kind = AbsoluteSymbol, rel_offset = at, rel_shift = 0, rel_symbol = symbol_part o1,
     rel_builtin = builtin_part o1, rel_displacement = displacement_part o1\<rparr>"

definition add_relocation :: "encode_context \<Rightarrow> operand \<Rightarrow> nat \<Rightarrow> engine \<Rightarrow> engine result" where
  "add_relocation cx o1 at en =
    (if \<not> is_symbolic o1 then engine_invalid cx ''invalid symbolic immediate''
     else Inr (en\<lparr>en_relocations := en_relocations en @ [symbol_relocation o1 at]\<rparr>))"

section \<open>Normalization of the operands\<close>

definition normalize_alloca :: "encode_context \<Rightarrow> machine_opcode \<Rightarrow> operand list \<Rightarrow> operand list result" where
  "normalize_alloca cx c ops =
    (if c = IROp (OMisc O_Alloca) \<and> 1 < length ops
     then (case as_integer (ops ! 1) of
         None \<Rightarrow> Inr ops
       | Some n \<Rightarrow> if INT64_MAX - 15 < unat n then engine_invalid cx ''stack allocation roundup overflow''
                   else Inr (ops[1 := UIntOp ((n + 15) AND NOT 15)]))
     else Inr ops)"

fun normalize_symbols :: "encode_context \<Rightarrow> bool \<Rightarrow> nat \<Rightarrow> operand list \<Rightarrow> engine \<Rightarrow> (operand list \<times> engine) result" where
  "normalize_symbols cx lowered n [] en = Inr ([], en)"
| "normalize_symbols cx lowered n (o1 # ops) en =
    (if n = 0 \<and> lowered \<or> \<not> is_symbolic o1
     then rbind (normalize_symbols cx lowered (n + 1) ops en) (\<lambda>(ops, en). Inr (o1 # ops, en))
     else rbind (resolve_known cx o1 en) (\<lambda>(v, en).
          rbind (normalize_symbols cx lowered (n + 1) ops en) (\<lambda>(ops, en). Inr (UIntOp v # ops, en))))"

definition normalize_operands :: "encode_context \<Rightarrow> machine_opcode \<Rightarrow> bool \<Rightarrow> operand list \<Rightarrow> engine \<Rightarrow> (operand list \<times> engine) result" where
  "normalize_operands cx c lowered ops en =
    rbind (normalize_alloca cx c ops) (\<lambda>ops.
      if ec_known cx = None then Inr (ops, en) else normalize_symbols cx lowered 0 ops en)"

section \<open>One word of an instruction\<close>

record word_fields =
  wf_opcode :: "nat list"
  wf_prefix :: "nat option"
  wf_mod :: "nat option"
  wf_reg :: "nat option"
  wf_rm :: "nat option"
  wf_scale :: "nat option"
  wf_index :: "nat option"
  wf_base :: "nat option"
  wf_disp_size :: "nat option"
  wf_imm_size :: "nat option"
  wf_rex :: nat
  wf_force_rex :: bool
  wf_low_opcode :: "nat option"
  wf_disp :: u64
  wf_imm :: u64
  wf_symbolic :: "operand option"
  wf_label :: "nat option"
  wf_label_operand :: nat
  wf_constant :: "operand option"
  wf_call :: bool
  wf_table :: bool

definition no_fields :: word_fields where
  "no_fields = \<lparr>wf_opcode = [], wf_prefix = None, wf_mod = None, wf_reg = None, wf_rm = None, wf_scale = None,
     wf_index = None, wf_base = None, wf_disp_size = None, wf_imm_size = None, wf_rex = 0, wf_force_rex = False,
     wf_low_opcode = None, wf_disp = 0, wf_imm = 0, wf_symbolic = None, wf_label = None, wf_label_operand = 0,
     wf_constant = None, wf_call = False, wf_table = False\<rparr>"

definition nth_operand :: "operand list \<Rightarrow> nat \<Rightarrow> operand option" where
  "nth_operand ops n = (if n < length ops then Some (ops ! n) else None)"

definition register_operand :: "encode_context \<Rightarrow> operand list \<Rightarrow> nat \<Rightarrow> nat result" where
  "register_operand cx ops n = (case nth_operand ops n of
     Some o1 \<Rightarrow> physical_number cx o1 | None \<Rightarrow> engine_invalid cx ''missing register operand'')"

text \<open>\<open>encoded_reg\<close>: the three bits of a register number and what it asks of the REX prefix.\<close>

definition encoded_reg :: "nat \<Rightarrow> nat \<Rightarrow> bool \<Rightarrow> word_fields \<Rightarrow> nat \<times> word_fields" where
  "encoded_reg n bit_value byte wd =
    (let n = (if 16 \<le> n then n - 16 else n)
     in (n mod 8, wd\<lparr>wf_force_rex := wf_force_rex wd \<or> byte \<and> 4 \<le> n,
                     wf_rex := (if 8 \<le> n then wf_rex wd OR bit_value else wf_rex wd)\<rparr>))"

definition memory_fields :: "encode_context \<Rightarrow> nat option \<Rightarrow> nat option \<Rightarrow> int \<Rightarrow> nat \<Rightarrow> word_fields \<Rightarrow> word_fields result" where
  "memory_fields cx b i d s wd =
    (if wf_mod wd \<noteq> None \<or> wf_rm wd \<noteq> None \<or> wf_scale wd \<noteq> None \<or> wf_index wd \<noteq> None \<or> wf_base wd \<noteq> None \<or> wf_disp_size wd \<noteq> None
     then engine_invalid cx ''duplicate address fields''
     else case encode_x86_address b i d s of
       Inl e \<Rightarrow> engine_invalid cx (message e)
     | Inr a \<Rightarrow>
        (let wd = wd\<lparr>wf_mod := Some (xa_mod a), wf_rm := Some (xa_rm a),
                     wf_rex := wf_rex wd OR (if xa_rex_b a then 1 else 0) OR (if xa_rex_x a then 2 else 0)\<rparr>;
             wd = (if xa_sib a then wd\<lparr>wf_scale := Some (xa_scale a), wf_index := Some (xa_index a), wf_base := Some (xa_base a)\<rparr> else wd)
         in Inr (if xa_disp_bytes a \<noteq> 0 then wd\<lparr>wf_disp_size := Some (xa_disp_bytes a), wf_disp := ucast (xa_disp a)\<rparr> else wd)))"

text \<open>The base or index of a memory operand: absent, an allocated register, or not allocated yet.\<close>

definition address_register :: "encode_context \<Rightarrow> string \<Rightarrow> machine_register option \<Rightarrow> nat option result" where
  "address_register cx why r = (case r of
     None \<Rightarrow> Inr None
   | Some (PhysicalReg p) \<Rightarrow> Inr (Some (pr_encoding p))
   | Some (VirtualReg _) \<Rightarrow> engine_invalid cx why)"

definition memory_operand :: "encode_context \<Rightarrow> operand option \<Rightarrow> word_fields \<Rightarrow> word_fields result" where
  "memory_operand cx o1 wd = (case Option.bind o1 as_memory of
     None \<Rightarrow> engine_invalid cx ''missing memory operand''
   | Some m \<Rightarrow>
       rbind (address_register cx ''unallocated address base'' (mm_base m)) (\<lambda>b.
       rbind (address_register cx ''unallocated address index'' (mm_index m)) (\<lambda>i.
         memory_fields cx b i (mm_displacement m) (mm_scale m) wd)))"

definition computed_address :: "encode_context \<Rightarrow> encoding_kind \<Rightarrow> nat \<Rightarrow> operand list \<Rightarrow> word_fields \<Rightarrow> word_fields result" where
  "computed_address cx k n ops wd =
    rbind (register_operand cx ops 1) (\<lambda>b.
      if k = EK_AddressDisplacement then memory_fields cx (Some b) None (sint (of_nat n :: u64)) 1 wd
      else case nth_operand ops 2 of
        None \<Rightarrow> engine_invalid cx ''missing address operand''
      | Some o1 \<Rightarrow>
          if k = EK_AddressScale
          then (case as_integer o1 of
              None \<Rightarrow> engine_invalid cx ''invalid address scale''
            | Some v \<Rightarrow> if \<not> legal_scale (unat v) then engine_invalid cx ''invalid address scale''
                        else memory_fields cx None (Some b) 0 (unat v) wd)
          else if as_physical o1 \<noteq> None
          then rbind (physical_number cx o1) (\<lambda>i. memory_fields cx (Some b) (Some i) 0 1 wd)
          else (case as_integer o1 of
              None \<Rightarrow> engine_invalid cx ''noninteger address displacement''
            | Some v \<Rightarrow> memory_fields cx (Some b) None (sint v) 1 wd))"

definition register_field :: "encoding_kind \<Rightarrow> nat \<Rightarrow> word_fields \<Rightarrow> word_fields" where
  "register_field k r wd =
    (let (v, wd) = encoded_reg r (if k = EK_Register \<or> k = EK_PhysicalRegister then 4 else 1) (k = EK_ByteRegisterRM) wd
     in if k = EK_Register \<or> k = EK_PhysicalRegister then wd\<lparr>wf_reg := Some v\<rparr>
        else if k = EK_OpcodeRegister \<or> k = EK_OpcodePhysical then wd\<lparr>wf_low_opcode := Some v\<rparr>
        else wd\<lparr>wf_rm := Some v, wf_mod := Some 3\<rparr>)"

definition immediate_field :: "encode_context \<Rightarrow> nat \<Rightarrow> operand option \<Rightarrow> word_fields \<Rightarrow> word_fields result" where
  "immediate_field cx sz o1 wd = (case o1 of
     None \<Rightarrow> engine_invalid cx ''missing immediate operand''
   | Some o1 \<Rightarrow> let wd = wd\<lparr>wf_imm_size := Some sz\<rparr> in
       (case as_integer o1 of
          Some v \<Rightarrow> Inr (wd\<lparr>wf_imm := v\<rparr>)
        | None \<Rightarrow> if sz = 8 then Inr (wd\<lparr>wf_symbolic := Some o1\<rparr>) else engine_invalid cx ''unresolved narrow immediate''))"

definition label_field :: "encode_context \<Rightarrow> nat \<Rightarrow> nat \<Rightarrow> operand list \<Rightarrow> word_fields \<Rightarrow> word_fields result" where
  "label_field cx sz n ops wd = (case Option.bind (nth_operand ops n) as_label of
     None \<Rightarrow> engine_invalid cx ''invalid label field''
   | Some l \<Rightarrow> if wf_label wd \<noteq> None \<or> wf_disp_size wd \<noteq> None then engine_invalid cx ''invalid label field''
       else Inr (wd\<lparr>wf_label := Some l, wf_label_operand := n, wf_disp_size := Some sz\<rparr>))"

definition rip_fields :: "word_fields \<Rightarrow> word_fields" where
  "rip_fields wd = wd\<lparr>wf_mod := Some 0, wf_rm := Some 5\<rparr>"

definition rex_field :: "encode_context \<Rightarrow> nat \<Rightarrow> word_fields \<Rightarrow> word_fields result" where
  "rex_field cx n wd =
    (if wf_opcode wd \<noteq> [] \<and> (length (wf_opcode wd) \<noteq> 1 \<or> wf_prefix wd \<noteq> None) then engine_invalid cx ''duplicate prefix''
     else let wd = (if wf_opcode wd \<noteq> [] then wd\<lparr>wf_prefix := Some (hd (wf_opcode wd)), wf_opcode := []\<rparr> else wd)
          in Inr (wd\<lparr>wf_rex := (if n = of_char CHR ''X'' then wf_rex wd OR 8 else wf_rex wd),
                     wf_force_rex := wf_force_rex wd \<or> n = of_char CHR ''Z''\<rparr>))"

text \<open>The switch over the kind of an operation; \<open>table_at\<close> tells of a switch table of an earlier word.\<close>

definition apply_field :: "encode_context \<Rightarrow> nat option \<Rightarrow> operand list \<Rightarrow> encoding_operation \<Rightarrow> word_fields \<Rightarrow> word_fields result" where
  "apply_field cx table_at ops = (\<lambda>(k, n) wd. case k of
     EK_Byte \<Rightarrow> if length (wf_opcode wd) = 3 then engine_invalid cx ''too many opcode bytes''
                else Inr (wd\<lparr>wf_opcode := wf_opcode wd @ [n]\<rparr>)
   | EK_Rex \<Rightarrow> rex_field cx n wd
   | EK_Register \<Rightarrow> rbind (register_operand cx ops n) (\<lambda>r. Inr (register_field k r wd))
   | EK_RegisterRM \<Rightarrow> rbind (register_operand cx ops n) (\<lambda>r. Inr (register_field k r wd))
   | EK_ByteRegisterRM \<Rightarrow> rbind (register_operand cx ops n) (\<lambda>r. Inr (register_field k r wd))
   | EK_OpcodeRegister \<Rightarrow> rbind (register_operand cx ops n) (\<lambda>r. Inr (register_field k r wd))
   | EK_PhysicalRegister \<Rightarrow> Inr (register_field k n wd)
   | EK_PhysicalRM \<Rightarrow> Inr (register_field k n wd)
   | EK_OpcodePhysical \<Rightarrow> Inr (register_field k n wd)
   | EK_Extension \<Rightarrow> Inr (wd\<lparr>wf_reg := Some n\<rparr>)
   | EK_Memory \<Rightarrow> memory_operand cx (nth_operand ops n) wd
   | EK_TemporaryMemory \<Rightarrow> memory_fields cx (Some (x86_number X_SP)) None (- 16) 1 wd
   | EK_SwitchMemory \<Rightarrow>
       rbind (register_operand cx ops 0) (\<lambda>r. memory_fields cx (Some (x86_number X_R11)) (Some r) 0 8 wd)
   | EK_AddressAdd \<Rightarrow> computed_address cx k n ops wd
   | EK_AddressDisplacement \<Rightarrow> computed_address cx k n ops wd
   | EK_AddressScale \<Rightarrow> computed_address cx k n ops wd
   | EK_Immediate8 \<Rightarrow> immediate_field cx 1 (nth_operand ops n) wd
   | EK_Immediate32 \<Rightarrow> immediate_field cx 4 (nth_operand ops n) wd
   | EK_Immediate64 \<Rightarrow> immediate_field cx 8 (nth_operand ops n) wd
   | EK_Literal8 \<Rightarrow> Inr (wd\<lparr>wf_imm_size := Some 1, wf_imm := of_nat n\<rparr>)
   | EK_Literal32 \<Rightarrow> Inr (wd\<lparr>wf_imm_size := Some 4, wf_imm := of_nat n\<rparr>)
   | EK_RIPMemory \<Rightarrow> Inr (rip_fields wd)
   | EK_SwitchTable \<Rightarrow> if table_at \<noteq> None then engine_invalid cx ''duplicate switch table''
                       else Inr (rip_fields (wd\<lparr>wf_table := True\<rparr>))
   | EK_Label8 \<Rightarrow> label_field cx 1 n ops wd
   | EK_Label32 \<Rightarrow> label_field cx 4 n ops wd
   | EK_PoolConstant \<Rightarrow> Inr (rip_fields (wd\<lparr>wf_constant := Some (UIntOp (of_nat n)), wf_disp_size := Some 4\<rparr>))
   | EK_CallPointer \<Rightarrow> (case nth_operand ops n of
        None \<Rightarrow> engine_invalid cx ''missing call target''
      | Some o1 \<Rightarrow> Inr (rip_fields (wd\<lparr>wf_constant := Some o1, wf_call := True, wf_disp_size := Some 4\<rparr>))))"

fun apply_fields :: "encode_context \<Rightarrow> nat option \<Rightarrow> operand list \<Rightarrow> encoding_operation list \<Rightarrow> word_fields \<Rightarrow> word_fields result" where
  "apply_fields cx table_at ops [] wd = Inr wd"
| "apply_fields cx table_at ops (f # fs) wd = rbind (apply_field cx table_at ops f wd) (apply_fields cx table_at ops fs)"

text \<open>\<open>value_or\<close>\<close>

definition value_or :: "'a option \<Rightarrow> 'a \<Rightarrow> 'a" where
  "value_or x d = (case x of Some v \<Rightarrow> v | None \<Rightarrow> d)"

text \<open>The bytes in front of the displacement: prefix, REX, opcode, ModRM and SIB.\<close>

definition opcode_bytes :: "nat list \<Rightarrow> nat \<Rightarrow> bytes" where
  "opcode_bytes op low = concat (map (\<lambda>(n, b). put_le 1 (of_nat b OR (if n = 0 then of_nat low else 0))) (zip [0..<length op] op))"

definition word_head :: "word_fields \<Rightarrow> bytes" where
  "word_head wd =
    (case wf_prefix wd of Some p \<Rightarrow> put_le 1 (of_nat p) | None \<Rightarrow> []) @
    (if wf_rex wd \<noteq> 0 \<or> wf_force_rex wd then put_le 1 (0x40 OR of_nat (wf_rex wd)) else []) @
    opcode_bytes (wf_opcode wd) (value_or (wf_low_opcode wd) 0) @
    (if wf_mod wd \<noteq> None \<or> wf_reg wd \<noteq> None \<or> wf_rm wd \<noteq> None
     then put_le 1 (packed_byte (value_or (wf_mod wd) 0) (value_or (wf_reg wd) 0) (value_or (wf_rm wd) 0)) else []) @
    (if wf_scale wd \<noteq> None \<or> wf_index wd \<noteq> None \<or> wf_base wd \<noteq> None
     then put_le 1 (packed_byte (value_or (wf_scale wd) 0) (value_or (wf_index wd) 0) (value_or (wf_base wd) 0)) else [])"

definition emit_immediate :: "encode_context \<Rightarrow> word_fields \<Rightarrow> engine \<Rightarrow> engine result" where
  "emit_immediate cx wd en = (case wf_imm_size wd of
     None \<Rightarrow> Inr en
   | Some sz \<Rightarrow> rbind (case wf_symbolic wd of
         None \<Rightarrow> Inr en | Some o1 \<Rightarrow> add_relocation cx o1 (length (en_bytes en)) en)
       (\<lambda>en. Inr (emit_bytes (wf_imm wd) sz en)))"

definition word_fixups :: "word_fields \<Rightarrow> nat \<Rightarrow> engine \<Rightarrow> engine" where
  "word_fixups wd at en =
    (let end = length (en_bytes en)
     in en\<lparr>en_labels := en_labels en @ (case wf_label wd of
             Some l \<Rightarrow> [\<lparr>lf_label = l, lf_offset = at, lf_next = end, lf_size = the (wf_disp_size wd), lf_operand = wf_label_operand wd\<rparr>]
           | None \<Rightarrow> []),
           en_pool := en_pool en @ (case wf_constant wd of
             Some o1 \<Rightarrow> [\<lparr>px_value = o1, px_offset = at, px_next = end, px_call = wf_call wd\<rparr>]
           | None \<Rightarrow> [])\<rparr>)"

text \<open>The emission of a word; the returned \<open>table_at\<close> is where a switch table displacement was put.\<close>

definition emit_word :: "encode_context \<Rightarrow> nat \<Rightarrow> word_fields \<Rightarrow> nat option \<times> engine \<Rightarrow> (nat option \<times> engine) result" where
  "emit_word cx maximum wd = (\<lambda>(table_at, en).
    (if wf_opcode wd = [] then engine_invalid cx ''invalid opcode bytes''
     else let start = length (en_bytes en);
              en = en\<lparr>en_bytes := en_bytes en @ word_head wd\<rparr>;
              displacement_at = length (en_bytes en);
              en = (case wf_disp_size wd of Some sz \<Rightarrow> emit_bytes (wf_disp wd) sz en | None \<Rightarrow> en)
          in rbind (emit_immediate cx wd en) (\<lambda>en.
               let table_at = (if wf_table wd then Some (length (en_bytes en)) else table_at);
                   en = (if wf_table wd then emit_bytes 0 4 en else en);
                   en = word_fixups wd displacement_at en
               in if maximum < length (en_bytes en) - start then engine_invalid cx ''encoding exceeds conservative instruction size''
                  else Inr (table_at, en))))"

section \<open>An instruction\<close>

fun encode_words :: "encode_context \<Rightarrow> operand list \<Rightarrow> encoding_recipe \<Rightarrow> encoding_word list \<Rightarrow> nat option \<times> engine \<Rightarrow> (nat option \<times> engine) result" where
  "encode_words cx ops r [] st = Inr st"
| "encode_words cx ops r (w # ws) st =
    rbind (apply_fields cx (fst st) ops (word_operations r w) no_fields) (\<lambda>wd.
    rbind (emit_word cx (ew_maximum w) wd st) (encode_words cx ops r ws))"

fun switch_targets :: "encode_context \<Rightarrow> nat \<Rightarrow> operand list \<Rightarrow> engine \<Rightarrow> engine result" where
  "switch_targets cx n [] en = Inr en"
| "switch_targets cx n (o1 # ops) en = (case as_label o1 of
     None \<Rightarrow> engine_invalid cx ''invalid switch target''
   | Some l \<Rightarrow> switch_targets cx (n + 1) ops (emit_bytes 0 8
       (en\<lparr>en_labels := en_labels en @ [\<lparr>lf_label = l, lf_offset = length (en_bytes en), lf_next = 0, lf_size = 8, lf_operand = n\<rparr>]\<rparr>)))"

text \<open>\<open>while (size % n) put (0, 1)\<close>\<close>

definition pad_to :: "nat \<Rightarrow> engine \<Rightarrow> engine" where
  "pad_to n en = en\<lparr>en_bytes := en_bytes en @ replicate (round_up n (length (en_bytes en)) - length (en_bytes en)) 0\<rparr>"

definition encode_switch :: "encode_context \<Rightarrow> nat \<Rightarrow> operand list \<Rightarrow> engine \<Rightarrow> engine result" where
  "encode_switch cx at ops en =
    (let en = pad_to 8 en; displacement = length (en_bytes en) - at - 4
     in if INT32_MAX < displacement then engine_invalid cx ''switch table too far''
        else switch_targets cx 1 (tl ops) (patch_bytes at (of_nat displacement) 4 en))"

definition encode_instruction :: "encode_context \<Rightarrow> operand list \<Rightarrow> nat \<Rightarrow> engine \<Rightarrow> engine result" where
  "encode_instruction cx ops pattern en = (case x86_encoding_recipe (ec_recipes cx) pattern of
     None \<Rightarrow> engine_invalid cx ''invalid encoding recipe''
   | Some r \<Rightarrow> rbind (encode_words cx ops r (er_words r) (None, en)) (\<lambda>(table_at, en).
       case table_at of None \<Rightarrow> Inr en | Some at \<Rightarrow> encode_switch cx at ops en))"

section \<open>A function\<close>

record prepared =
  pp_opcode :: machine_opcode
  pp_operands :: "operand list"
  pp_pattern :: nat

text \<open>The state of the first pass: the conservative offsets, the instructions with their pattern.\<close>

record layout_state =
  ls_estimate :: nat
  ls_offsets :: "nat \<rightharpoonup> nat"
  ls_prepared :: "prepared list"
  ls_engine :: engine

definition select_pattern :: "encode_context \<Rightarrow> machine_opcode \<Rightarrow> operand list \<Rightarrow> pattern_options \<Rightarrow> nat option" where
  "select_pattern cx = x86_instruction_pattern (ec_ld_eq cx) (ec_patterns cx) (ec_recipes cx)"

definition long_options :: "nat \<Rightarrow> pattern_options" where
  "long_options shape = \<lparr>po_short = False, po_range = None, po_layout = False, po_shape = shape\<rparr>"

fun estimate_labels :: "nat list \<Rightarrow> nat list \<Rightarrow> layout_state \<Rightarrow> layout_state" where
  "estimate_labels aligned [] st = st"
| "estimate_labels aligned (l # ls) st =
    (let e = ls_estimate st + (if l \<in> set aligned then 8 else 0)
     in estimate_labels aligned ls (st\<lparr>ls_estimate := e,
          ls_offsets := (if ls_offsets st l = None then (ls_offsets st)(l \<mapsto> e) else ls_offsets st)\<rparr>))"

definition estimate_instruction :: "encode_context \<Rightarrow> machine_instruction \<Rightarrow> layout_state \<Rightarrow> layout_state result" where
  "estimate_instruction cx i st =
    (if mi_opcode i = Pseudo PseudoUse then Inr st
     else rbind (normalize_operands cx (mi_opcode i) (mi_lowered_call i) (mi_operands i) (ls_engine st)) (\<lambda>(ops, en).
       case select_pattern cx (mi_opcode i) ops (long_options (mi_shape i)) of
         None \<Rightarrow> engine_invalid cx (''no encoding for '' @ opcode_name (mi_opcode i))
       | Some p \<Rightarrow>
          (let e = ls_estimate st + (case x86_encoding_recipe (ec_recipes cx) p of Some r \<Rightarrow> er_maximum r | None \<Rightarrow> 0);
               switch = (mi_opcode i = IROp (OMisc O_Switch));
               e' = (if switch then e + (length ops - 1) * 8 else e)
           in if switch \<and> INT32_MAX div 8 < length ops - 1 then engine_invalid cx ''switch table too large''
              else if INT32_MAX < e' then engine_invalid cx ''function exceeds rel32 layout range''
              else Inr (st\<lparr>ls_estimate := e', ls_engine := en,
                     ls_prepared := ls_prepared st @ [\<lparr>pp_opcode = mi_opcode i, pp_operands = ops, pp_pattern = p\<rparr>]\<rparr>))))"

fun estimate_instructions :: "encode_context \<Rightarrow> machine_instruction list \<Rightarrow> layout_state \<Rightarrow> layout_state result" where
  "estimate_instructions cx [] st = Inr st"
| "estimate_instructions cx (i # is) st = rbind (estimate_instruction cx i st) (estimate_instructions cx is)"

fun estimate_blocks :: "encode_context \<Rightarrow> nat list \<Rightarrow> machine_block list \<Rightarrow> layout_state \<Rightarrow> layout_state result" where
  "estimate_blocks cx aligned [] st = Inr st"
| "estimate_blocks cx aligned (b # bs) st =
    rbind (estimate_instructions cx (mb_instructions b) (estimate_labels aligned (mb_labels b) st)) (estimate_blocks cx aligned bs)"

text \<open>The alignment fillers.\<close>

definition nops :: "nat list list" where
  "nops = [[], [0x90], [0x66, 0x90], [0x0f, 0x1f, 0xc0], [0x48, 0x0f, 0x1f, 0xc0], [0x0f, 0x1f, 0x44, 0, 0],
     [0x66, 0x0f, 0x1f, 0x44, 0, 0], [0x0f, 0x1f, 0x80, 0, 0, 0, 0]]"

definition align_loop :: "engine \<Rightarrow> engine" where
  "align_loop en = (let sz = (8 - length (en_bytes en) mod 8) mod 8
     in en\<lparr>en_bytes := en_bytes en @ map of_nat (nops ! sz)\<rparr>)"

text \<open>The second pass: what remains of the prepared instructions, the offsets, the engine.\<close>

type_synonym emission = "prepared list \<times> (nat \<rightharpoonup> nat) \<times> engine"

fun emit_labels :: "nat list \<Rightarrow> nat list \<Rightarrow> (nat \<rightharpoonup> nat) \<times> engine \<Rightarrow> (nat \<rightharpoonup> nat) \<times> engine" where
  "emit_labels aligned [] st = st"
| "emit_labels aligned (l # ls) (offsets, en) =
    (let en = (if l \<in> set aligned then align_loop en else en)
     in emit_labels aligned ls (offsets(l \<mapsto> length (en_bytes en)), en))"

definition branch_opcode :: "machine_opcode \<Rightarrow> bool" where
  "branch_opcode c = (case c of IROp op \<Rightarrow> control_flow (instruction_descriptor op) = FlowBranch \<or> op = OMisc O_Jmp | Pseudo _ \<Rightarrow> False)"

definition branch_pattern :: "encode_context \<Rightarrow> prepared \<Rightarrow> (nat \<rightharpoonup> nat) \<Rightarrow> engine \<Rightarrow> nat result" where
  "branch_pattern cx p offsets en =
    (if \<not> branch_opcode (pp_opcode p) then Inr (pp_pattern p)
     else case Option.bind (nth_operand (pp_operands p) 0) as_label of
       None \<Rightarrow> engine_invalid cx ''branch has no label''
     | Some l \<Rightarrow> (case offsets l of
         None \<Rightarrow> out_of_range
       | Some at \<Rightarrow>
          (case select_pattern cx (pp_opcode p) (pp_operands p)
              \<lparr>po_short = True, po_range = Some (int at - int (length (en_bytes en)), 0), po_layout = True, po_shape = 0\<rparr> of
            None \<Rightarrow> engine_invalid cx ''branch encoding not found''
          | Some k \<Rightarrow> Inr k)))"

fun emit_instructions :: "encode_context \<Rightarrow> machine_instruction list \<Rightarrow> emission \<Rightarrow> emission result" where
  "emit_instructions cx [] st = Inr st"
| "emit_instructions cx (i # is) (ps, offsets, en) =
    (if mi_opcode i = Pseudo PseudoUse then emit_instructions cx is (ps, offsets, en)
     else rbind (branch_pattern cx (hd ps) offsets en) (\<lambda>pattern.
          rbind (encode_instruction cx (pp_operands (hd ps)) pattern en) (\<lambda>en.
            emit_instructions cx is (tl ps, offsets, en))))"

fun emit_blocks :: "encode_context \<Rightarrow> nat list \<Rightarrow> machine_block list \<Rightarrow> emission \<Rightarrow> emission result" where
  "emit_blocks cx aligned [] st = Inr st"
| "emit_blocks cx aligned (b # bs) (ps, offsets, en) =
    rbind (emit_instructions cx (mb_instructions b) (ps, emit_labels aligned (mb_labels b) (offsets, en))) (emit_blocks cx aligned bs)"

section \<open>Patching and finishing\<close>

definition local_relocation :: "nat \<Rightarrow> (machine_symbol, builtin) relocation" where
  "local_relocation at = \<lparr>rel_kind = LocalAddress, rel_offset = at, rel_shift = 0, rel_symbol = None, rel_builtin = None,
     rel_displacement = 0\<rparr>"

definition fix_label :: "encode_context \<Rightarrow> (nat \<rightharpoonup> nat) \<Rightarrow> label_fixup \<Rightarrow> engine \<Rightarrow> engine result" where
  "fix_label cx offsets r en = (case offsets (lf_label r) of
     None \<Rightarrow> engine_invalid cx ''missing code label''
   | Some at \<Rightarrow>
       if lf_size r = 8
       then Inr (patch_bytes (lf_offset r) (of_nat at) 8 (en\<lparr>en_relocations := en_relocations en @ [local_relocation (lf_offset r)]\<rparr>))
       else let d = int at - int (lf_next r)
            in if (if lf_size r = 1 then d < - 128 \<or> 127 < d else d < - 2147483648 \<or> 2147483647 < d)
               then engine_invalid cx ''branch displacement out of range''
               else Inr (patch_bytes (lf_offset r) (word_of_int d) (lf_size r) en))"

fun fix_labels :: "encode_context \<Rightarrow> (nat \<rightharpoonup> nat) \<Rightarrow> label_fixup list \<Rightarrow> engine \<Rightarrow> engine result" where
  "fix_labels cx offsets [] en = Inr en"
| "fix_labels cx offsets (r # rs) en = rbind (fix_label cx offsets r en) (fix_labels cx offsets rs)"

definition add_constant :: "encode_context \<Rightarrow> pool_fixup \<Rightarrow> engine \<Rightarrow> engine result" where
  "add_constant cx r en =
    (let at = length (en_bytes en)
     in if INT32_MAX < at - px_next r then engine_invalid cx ''constant pool too far''
        else let en = patch_bytes (px_offset r) (of_nat (at - px_next r)) 4 en
             in rbind (case as_integer (px_value r) of
                    Some n \<Rightarrow> Inr (emit_bytes n 8 en)
                  | None \<Rightarrow> rbind (add_relocation cx (px_value r) at en) (\<lambda>en. Inr (emit_bytes 0 8 en)))
                (\<lambda>en. let en = emit_bytes 0 8 en
                  in Inr (en\<lparr>en_constants := en_constants en @ [\<lparr>pool_offset = at, pool_reference = px_offset r,
                       pool_next = px_next r, pool_call = px_call r\<rparr>]\<rparr>)))"

fun add_constants :: "encode_context \<Rightarrow> pool_fixup list \<Rightarrow> engine \<Rightarrow> engine result" where
  "add_constants cx [] en = Inr en"
| "add_constants cx (r # rs) en = rbind (add_constant cx r en) (add_constants cx rs)"

definition finish_pool :: "encode_context \<Rightarrow> engine \<Rightarrow> engine result" where
  "finish_pool cx en = add_constants cx (en_pool en) (pad_to 16 en)"

fun encoded_labels :: "(nat \<rightharpoonup> nat) \<Rightarrow> machine_label list \<Rightarrow> encoded_label list result" where
  "encoded_labels offsets [] = Inr []"
| "encoded_labels offsets (l # ls) = (case offsets (ml_pointer l) of
     None \<Rightarrow> out_of_range
   | Some at \<Rightarrow> rbind (encoded_labels offsets ls) (\<lambda>rest. Inr (\<lparr>el_name = ml_name l, el_offset = at, el_ordinal = ml_ordinal l\<rparr> # rest)))"

definition finish_code :: "nat \<Rightarrow> encode_context \<Rightarrow> architecture \<Rightarrow> encoded_label list \<Rightarrow> engine \<Rightarrow> (machine_symbol, builtin) compiled result" where
  "finish_code identity cx arch ls en =
    finish_artifact identity \<lparr>cd_module = ec_module cx, cd_name = ec_name cx, cd_architecture = arch, cd_bytes = en_bytes en,
      cd_labels = ls, cd_relocations = en_relocations en, cd_constants = en_constants en\<rparr>"

text \<open>\<open>run\<close>, up to the patching and after it.\<close>

definition lay_out :: "encode_context \<Rightarrow> machine_function \<Rightarrow> nat list \<Rightarrow> ((nat \<rightharpoonup> nat) \<times> engine) result" where
  "lay_out cx f aligned =
    rbind (estimate_blocks cx aligned (mf_blocks f)
        \<lparr>ls_estimate = 0, ls_offsets = Map.empty, ls_prepared = [], ls_engine = empty_engine\<rparr>) (\<lambda>st.
    rbind (emit_blocks cx aligned (mf_blocks f) (ls_prepared st, ls_offsets st, ls_engine st)) (\<lambda>(ps, offsets, en).
      Inr (offsets, en)))"

definition finish_function :: "nat \<Rightarrow> encode_context \<Rightarrow> machine_function \<Rightarrow> (nat \<rightharpoonup> nat) \<times> engine \<Rightarrow> (machine_symbol, builtin) compiled result" where
  "finish_function identity cx f = (\<lambda>(offsets, en).
    rbind (fix_labels cx offsets (en_labels en) en) (\<lambda>en.
    rbind (finish_pool cx en) (\<lambda>en.
    rbind (encoded_labels offsets (mf_labels f)) (\<lambda>ls.
      finish_code identity cx (tm_architecture (mf_target f)) ls en))))"

definition encode_x86 :: "nat \<Rightarrow> encode_context \<Rightarrow> machine_function \<Rightarrow> nat list \<Rightarrow> (machine_symbol, builtin) compiled result" where
  "encode_x86 identity cx f aligned = rbind (lay_out cx f aligned) (finish_function identity cx f)"

end
