(* ===== verification/CodeFields.thy ===== *)
theory CodeFields
  imports CodeBytes "HOL-Library.Multiset"
begin

text \<open>
  What both encoders need of the fields they leave open while a body grows: the fields recorded by a step lie
  within the bytes that step appended and do not overlap, so all fields of the finished body are disjoint and a
  later patch of one field leaves the others alone.
\<close>

section \<open>Fields within a span\<close>

definition fields_within :: "nat \<Rightarrow> nat \<Rightarrow> (nat \<times> nat) list \<Rightarrow> bool" where
  "fields_within lo hi xs \<longleftrightarrow> disjoint_ranges xs \<and> (\<forall>(a, b)\<in>set xs. lo \<le> a \<and> a < b \<and> b \<le> hi)"

named_theorems field_intros

lemma fields_within_Nil [simp, field_intros]: "fields_within lo hi []"
  by (simp add: fields_within_def disjoint_ranges_def)

lemma fields_within_single: "fields_within lo hi [(a, b)] \<longleftrightarrow> lo \<le> a \<and> a < b \<and> b \<le> hi"
  by (simp add: fields_within_def disjoint_ranges_def)

lemma fields_within_mono: "fields_within lo hi xs \<Longrightarrow> lo' \<le> lo \<Longrightarrow> hi \<le> hi' \<Longrightarrow> fields_within lo' hi' xs"
  by (fastforce simp: fields_within_def)

lemma fields_within_append:
  assumes "fields_within lo mid xs" "fields_within mid hi ys" "lo \<le> mid" "mid \<le> hi"
  shows "fields_within lo hi (xs @ ys)"
proof -
  have s: "snd x \<le> fst y" if "x \<in> set xs" "y \<in> set ys" for x y
    using assms(1,2) that by (fastforce simp: fields_within_def)
  have "set xs \<inter> set ys = {}" using assms(1,2) by (fastforce simp: fields_within_def)
  then have "disjoint_ranges (xs @ ys)"
    using assms(1,2) s by (auto simp: fields_within_def disjoint_ranges_def)
  then show ?thesis using assms by (fastforce simp: fields_within_def)
qed

lemma disjoint_ranges_mset: "mset xs = mset ys \<Longrightarrow> disjoint_ranges xs = disjoint_ranges ys"
  using mset_eq_setD [of xs ys] mset_eq_imp_distinct_iff [of xs ys] by (simp add: disjoint_ranges_def)

lemma fields_within_mset: "mset xs = mset ys \<Longrightarrow> fields_within lo hi xs = fields_within lo hi ys"
  using mset_eq_setD [of xs ys] disjoint_ranges_mset [of xs ys] by (simp add: fields_within_def)

lemma fields_within_part: "fields_within lo hi (xs @ ys) \<Longrightarrow> fields_within lo hi xs \<and> fields_within lo hi ys"
  by (auto simp: fields_within_def disjoint_ranges_def)

lemma fields_within_sep:
  assumes "fields_within lo hi (xs @ ys)" "x \<in> set xs" "y \<in> set ys"
  shows "snd x \<le> fst y \<or> snd y \<le> fst x"
proof -
  have d: "distinct (xs @ ys)" and p: "\<And>x y. x \<in> set (xs @ ys) \<Longrightarrow> y \<in> set (xs @ ys) \<Longrightarrow> x \<noteq> y \<Longrightarrow> snd x \<le> fst y \<or> snd y \<le> fst x"
    using assms(1) unfolding fields_within_def disjoint_ranges_def by blast+
  from d assms(2,3) have "x \<noteq> y" by auto
  with p [of x y] assms(2,3) show ?thesis by simp
qed

lemma fields_withinD: "fields_within lo hi xs \<Longrightarrow> (a, b) \<in> set xs \<Longrightarrow> lo \<le> a \<and> a < b \<and> b \<le> hi"
  by (auto simp: fields_within_def)

lemma fields_within_disjoint: "fields_within lo hi xs \<Longrightarrow> disjoint_ranges xs"
  by (simp add: fields_within_def)

section \<open>Growth\<close>

text \<open>A step from a body of \<open>n\<close> bytes with the fields \<open>xs\<close> to one of \<open>m\<close> bytes with the fields \<open>ys\<close>.\<close>

definition grows :: "nat \<Rightarrow> (nat \<times> nat) list \<Rightarrow> nat \<Rightarrow> (nat \<times> nat) list \<Rightarrow> bool" where
  "grows n xs m ys \<longleftrightarrow> n \<le> m \<and> (\<exists>new. mset ys = mset xs + mset new \<and> fields_within n m new)"

lemma grows_refl [field_intros]: "n \<le> m \<Longrightarrow> grows n xs m xs"
  unfolding grows_def by (intro conjI exI [of _ "[]"]) simp_all

lemma grows_trans:
  assumes "grows n xs m ys" "grows m ys k zs"
  shows "grows n xs k zs"
proof -
  obtain a b where a: "mset ys = mset xs + mset a" "fields_within n m a" and b: "mset zs = mset ys + mset b" "fields_within m k b"
    using assms by (auto simp: grows_def)
  moreover have "n \<le> m" "m \<le> k" using assms by (auto simp: grows_def)
  ultimately show ?thesis
    unfolding grows_def by (intro conjI exI [of _ "a @ b"] fields_within_append [of n m a k b]) simp_all
qed

lemma grows_one: "n \<le> a \<Longrightarrow> a < b \<Longrightarrow> b \<le> m \<Longrightarrow> mset ys = mset xs + {#(a, b)#} \<Longrightarrow> grows n xs m ys"
  unfolding grows_def by (intro conjI exI [of _ "[(a, b)]"]) (simp_all add: fields_within_single)

lemma grows_fields:
  assumes "grows n xs m ys" "fields_within 0 n xs"
  shows "fields_within 0 m ys"
proof -
  obtain new where "mset ys = mset (xs @ new)" "fields_within n m new" "n \<le> m"
    using assms(1) by (auto simp: grows_def)
  then show ?thesis
    using fields_within_append [OF assms(2), of m new] fields_within_mset [of ys "xs @ new" 0 m] by simp
qed

section \<open>Bytes that only grow\<close>

lemma take_bit_all [simp]: "take_bit 64 v = (v :: u64)"
  by (rule bit_word_eqI) (simp add: bit_take_bit_iff)

lemma read_at_append [bytes_simps]: "p + k \<le> length b \<Longrightarrow> read_at (b @ cs) p k = read_at b p k"
  by (simp add: read_at_def)

lemma read_at_tail [bytes_simps]: "read_at (b @ put_le n v @ cs) (length b) n = take_bit (8 * n) v"
  by (simp add: read_at_def get_put_le)

text \<open>A sign-extended field of \<open>n\<close> bytes, as the processor reads a displacement.\<close>

definition signed_field :: "bytes \<Rightarrow> nat \<Rightarrow> nat \<Rightarrow> int" where
  "signed_field b at n = signed_take_bit (8 * n - 1) (uint (read_at b at n))"

lemma signed_field_value:
  assumes "read_at b at n = take_bit (8 * n) (word_of_int d)" "n \<in> {1, 4}" "- (2 ^ (8 * n - 1)) \<le> d" "d < 2 ^ (8 * n - 1)"
  shows "signed_field b at n = d"
proof -
  have "uint (read_at b at n) = take_bit (8 * n) d"
    using assms(1,2) by (auto simp: unsigned_take_bit_eq unsigned_of_int take_bit_take_bit)
  moreover have "signed_take_bit (8 * n - 1) (take_bit (8 * n) d) = signed_take_bit (8 * n - 1) d"
    using assms(2) by (intro signed_take_bit_take_bit [THEN trans]) auto
  ultimately show ?thesis
    unfolding signed_field_def using assms(3,4) by (simp add: signed_take_bit_int_eq_self)
qed

end
