(* ===== verification/BodyListing.thy ===== *)
theory BodyListing
  imports CodeFields MachineOperands
begin

text \<open>
  What it means for a body of machine code to hold the blocks of a function in order.  A listing of the body gives
  every label its place and every instruction the spans of its words, one after the other from the start of the
  body; the words are what the encoder of the target takes for one machine instruction.  The listings of both
  encoders are stated with these definitions; nothing here refers to the state of an encoder.
\<close>

section \<open>Listings\<close>

text \<open>A label with its place; an instruction with its operands as encoded, its words with the places where each starts
  and ends, and the place of its switch table when it has one.\<close>

datatype (plugins only: code size) 'w item =
    LabelItem nat nat
  | CodeItem machine_instruction "operand list" "('w \<times> nat \<times> nat) list" "nat option"

text \<open>The labels and instructions of the blocks; only the pseudo instruction that keeps a register alive has no code.\<close>

definition coded :: "machine_instruction list \<Rightarrow> machine_instruction list" where
  "coded is = filter (\<lambda>i. mi_opcode i \<noteq> Pseudo PseudoUse) is"

definition body_source :: "machine_block list \<Rightarrow> (nat + machine_instruction) list" where
  "body_source bs = concat (map (\<lambda>b. map Inl (mb_labels b) @ map Inr (coded (mb_instructions b))) bs)"

primrec item_source :: "'w item \<Rightarrow> nat + machine_instruction" where
  "item_source (LabelItem l p) = Inl l"
| "item_source (CodeItem i ops ws table) = Inr i"

fun listed_labels :: "'w item list \<Rightarrow> (nat \<times> nat) list" where
  "listed_labels [] = []"
| "listed_labels (LabelItem l p # xs) = (l, p) # listed_labels xs"
| "listed_labels (CodeItem i ops ws table # xs) = listed_labels xs"

text \<open>The words of an instruction follow each other; a switch table starts at the next multiple of eight and has eight
  bytes for every operand after the first; a label stands where the code before it ends, for an aligned label
  at the next multiple of eight.\<close>

fun contiguous :: "nat \<Rightarrow> ('w \<times> nat \<times> nat) list \<Rightarrow> bool" where
  "contiguous a [] = True"
| "contiguous a ((w, s, e) # ws) = (s = a \<and> s < e \<and> contiguous e ws)"

definition words_end :: "nat \<Rightarrow> ('w \<times> nat \<times> nat) list \<Rightarrow> nat" where
  "words_end a ws = (if ws = [] then a else snd (snd (last ws)))"

primrec item_end :: "nat \<Rightarrow> 'w item \<Rightarrow> nat" where
  "item_end a (LabelItem l p) = p"
| "item_end a (CodeItem i ops ws table) = (case table of None \<Rightarrow> words_end a ws | Some t \<Rightarrow> t + 8 * (length ops - 1))"

primrec item_laid :: "nat list \<Rightarrow> nat \<Rightarrow> 'w item \<Rightarrow> bool" where
  "item_laid aligned a (LabelItem l p) = (p = (if l \<in> set aligned then round_up 8 a else a))"
| "item_laid aligned a (CodeItem i ops ws table) =
    (contiguous a ws \<and> (case table of None \<Rightarrow> True | Some t \<Rightarrow> t = round_up 8 (words_end a ws)))"

fun items_laid :: "nat list \<Rightarrow> nat \<Rightarrow> 'w item list \<Rightarrow> bool" where
  "items_laid aligned a [] = True"
| "items_laid aligned a (x # xs) = (item_laid aligned a x \<and> items_laid aligned (item_end a x) xs)"

definition items_end :: "nat \<Rightarrow> 'w item list \<Rightarrow> nat" where
  "items_end a xs = foldl item_end a xs"

text \<open>A listing of the blocks that fills the body.\<close>

definition lists_body :: "nat list \<Rightarrow> machine_block list \<Rightarrow> nat \<Rightarrow> 'w item list \<Rightarrow> bool" where
  "lists_body aligned bs len xs \<longleftrightarrow> map item_source xs = body_source bs \<and> items_laid aligned 0 xs \<and> items_end 0 xs = len"

text \<open>The label that an operand names, if it is one.\<close>

definition operand_label :: "operand list \<Rightarrow> nat \<Rightarrow> nat option" where
  "operand_label ops n = (if n < length ops then as_label (ops ! n) else None)"

section \<open>Composition\<close>

lemma items_laid_append: "items_laid aligned a (xs @ ys) \<longleftrightarrow> items_laid aligned a xs \<and> items_laid aligned (items_end a xs) ys"
  by (induction xs arbitrary: a) (simp_all add: items_end_def)

lemma items_end_simps [simp]:
  "items_end a [] = a" "items_end a (x # xs) = items_end (item_end a x) xs" "items_end a (xs @ ys) = items_end (items_end a xs) ys"
  by (simp_all add: items_end_def)

lemma listed_labels_append [simp]: "listed_labels (xs @ ys) = listed_labels xs @ listed_labels ys"
  by (induction xs rule: listed_labels.induct) simp_all

lemma body_source_simps [simp]:
  "body_source [] = []"
  "body_source (b # bs) = map Inl (mb_labels b) @ map Inr (coded (mb_instructions b)) @ body_source bs"
  by (simp_all add: body_source_def)

lemma coded_simps [simp]:
  "coded [] = []" "coded (i # is) = (if mi_opcode i = Pseudo PseudoUse then coded is else i # coded is)"
  by (simp_all add: coded_def)

lemma words_end_simps [simp]: "words_end a [] = a" "words_end a ((w, s, e) # ws) = words_end e ws"
  by (simp_all add: words_end_def)

text \<open>The labels of the blocks are those listed.\<close>

lemma listed_source: "set (map fst (listed_labels xs)) = {l. Inl l \<in> set (map item_source xs)}"
  by (induction xs rule: listed_labels.induct) auto

lemma source_label: "Inl l \<in> set (body_source bs) \<longleftrightarrow> (\<exists>b\<in>set bs. l \<in> set (mb_labels b))"
  by (auto simp: body_source_def)

text \<open>Symbols and integers, which the encoders resolve and round, are no labels.\<close>

lemma symbolic_no_label: "is_symbolic o1 \<Longrightarrow> as_label o1 = None"
  by (cases o1) (simp_all add: is_symbolic_def as_label_def)

lemma integer_no_label: "as_integer o1 = Some v \<Longrightarrow> as_label o1 = None"
  by (cases o1) (simp_all add: as_integer_def as_label_def)

end
