(* ===== verification/X86Layout.thy ===== *)
theory X86Layout
  imports X86Encoding BodyListing
begin

text \<open>
  The fields the x86 encoder leaves open never overlap, so that after patching every recorded label, switch entry and
  constant reference holds what it should; the displacement, immediate and table bytes of a word follow its operations.
\<close>

section \<open>Recipes whose words have one displacement field\<close>

definition label_operation :: "encoding_operation \<Rightarrow> bool" where
  "label_operation f = (fst f = EK_Label8 \<or> fst f = EK_Label32)"

definition pool_operation :: "encoding_operation \<Rightarrow> bool" where
  "pool_operation f = (fst f = EK_PoolConstant \<or> fst f = EK_CallPointer)"

definition displacement_operation :: "encoding_operation \<Rightarrow> bool" where
  "displacement_operation f = (label_operation f \<or> pool_operation f)"

definition one_displacement :: "encoding_operation list \<Rightarrow> bool" where
  "one_displacement fs = (length (filter displacement_operation fs) \<le> 1)"

definition recipes_separate :: "encoding_declaration list \<Rightarrow> bool" where
  "recipes_separate ds = list_all (\<lambda>d. list_all (one_displacement \<circ> fst) (row_words d)) ds"

section \<open>The fields of a word\<close>

definition word_ok :: "word_fields \<Rightarrow> bool" where
  "word_ok wd \<longleftrightarrow> (wf_label wd \<noteq> None \<longrightarrow> wf_disp_size wd = Some 1 \<or> wf_disp_size wd = Some 4) \<and>
     (wf_constant wd \<noteq> None \<longrightarrow> wf_disp_size wd = Some 4) \<and> (wf_label wd = None \<or> wf_constant wd = None)"

text \<open>What a label or pool operation asks for: the size of the field and what it refers to.\<close>

definition label_bytes :: "encoding_kind \<Rightarrow> nat" where
  "label_bytes k = (if k = EK_Label8 then 1 else 4)"

definition pool_value :: "operand list \<Rightarrow> encoding_operation \<Rightarrow> operand option" where
  "pool_value ops f =
    (if fst f = EK_PoolConstant then Some (UIntOp (of_nat (snd f))) else if snd f < length ops then Some (ops ! snd f) else None)"

text \<open>The bytes of a word behind its displacement: the immediate that the last immediate operation asks for, and the
  displacement of a switch table.\<close>

definition immediate_step :: "nat \<Rightarrow> encoding_operation \<Rightarrow> nat" where
  "immediate_step b f = (case fst f of EK_Immediate8 \<Rightarrow> 1 | EK_Literal8 \<Rightarrow> 1 | EK_Immediate32 \<Rightarrow> 4 | EK_Literal32 \<Rightarrow> 4 | EK_Immediate64 \<Rightarrow> 8 | _ \<Rightarrow> b)"

definition has_table :: "encoding_operation list \<Rightarrow> bool" where
  "has_table fs = list_ex (\<lambda>f. fst f = EK_SwitchTable) fs"

definition trailing_bytes :: "encoding_operation list \<Rightarrow> nat" where
  "trailing_bytes fs = foldl immediate_step 0 fs + (if has_table fs then 4 else 0)"

text \<open>What the other operations keep.\<close>

definition keeps_displacement :: "word_fields \<Rightarrow> word_fields \<Rightarrow> bool" where
  "keeps_displacement wd wd' \<longleftrightarrow> wf_label wd' = wf_label wd \<and> wf_label_operand wd' = wf_label_operand wd \<and>
     wf_constant wd' = wf_constant wd \<and> wf_call wd' = wf_call wd \<and> (wf_disp_size wd = None \<or> wf_disp_size wd' = wf_disp_size wd)"

definition immediate_of :: "word_fields \<Rightarrow> nat" where
  "immediate_of wd = (case wf_imm_size wd of None \<Rightarrow> 0 | Some n \<Rightarrow> n)"

definition same_trailing :: "word_fields \<Rightarrow> word_fields \<Rightarrow> bool" where
  "same_trailing wd wd' \<longleftrightarrow> immediate_of wd' = immediate_of wd \<and> wf_table wd' = wf_table wd"

lemma engine_invalid_neq [simp]: "engine_invalid cx why \<noteq> Inr v" "out_of_range \<noteq> Inr v"
  by (simp_all add: engine_invalid_def out_of_range_def)

lemma memory_fields_word:
  "memory_fields cx b i d s wd = Inr wd' \<Longrightarrow> keeps_displacement wd wd' \<and> same_trailing wd wd'"
  by (auto simp: memory_fields_def Let_def keeps_displacement_def same_trailing_def immediate_of_def split: if_splits sum.splits)

lemma computed_address_word:
  "computed_address cx k n ops wd = Inr wd' \<Longrightarrow> keeps_displacement wd wd' \<and> same_trailing wd wd'"
  by (auto simp: computed_address_def rbind_eq_Inr dest!: memory_fields_word split: if_splits option.splits)

lemma memory_operand_word:
  "memory_operand cx o1 wd = Inr wd' \<Longrightarrow> keeps_displacement wd wd' \<and> same_trailing wd wd'"
  by (auto simp: memory_operand_def rbind_eq_Inr dest!: memory_fields_word split: option.splits)

lemma register_field_word: "keeps_displacement wd (register_field k r wd) \<and> same_trailing wd (register_field k r wd)"
  by (simp add: register_field_def encoded_reg_def Let_def keeps_displacement_def same_trailing_def immediate_of_def)

lemma rip_fields_word: "keeps_displacement wd (rip_fields wd) \<and> same_trailing wd (rip_fields wd)"
  by (simp add: rip_fields_def keeps_displacement_def same_trailing_def immediate_of_def)

lemma rex_field_word: "rex_field cx n wd = Inr wd' \<Longrightarrow> keeps_displacement wd wd' \<and> same_trailing wd wd'"
  by (auto simp: rex_field_def keeps_displacement_def same_trailing_def immediate_of_def Let_def split: if_splits)

lemma immediate_field_word:
  "immediate_field cx sz o1 wd = Inr wd' \<Longrightarrow> keeps_displacement wd wd' \<and> immediate_of wd' = sz \<and> wf_table wd' = wf_table wd"
  by (auto simp: immediate_field_def keeps_displacement_def immediate_of_def Let_def split: if_splits option.splits)

lemma label_field_word:
  "label_field cx sz n ops wd = Inr wd' \<Longrightarrow>
    (\<exists>l. operand_label ops n = Some l \<and> wf_label wd' = Some l) \<and> wf_label_operand wd' = n \<and> wf_disp_size wd' = Some sz \<and>
    wf_constant wd' = wf_constant wd \<and> same_trailing wd wd'"
  by (auto simp: label_field_def nth_operand_def operand_label_def same_trailing_def immediate_of_def split: if_splits option.splits)

lemma apply_field_other:
  assumes "apply_field cx t ops f wd = Inr wd'" "\<not> displacement_operation f"
  shows "keeps_displacement wd wd'"
proof -
  obtain k n where f: "f = (k, n)" by (cases f)
  note words = memory_fields_word computed_address_word memory_operand_word rex_field_word immediate_field_word
  show ?thesis
    using assms unfolding f apply_field_def displacement_operation_def label_operation_def pool_operation_def
    by (cases k) (auto simp: rbind_eq_Inr register_field_word dest!: words split: if_splits option.splits,
      (simp add: rip_fields_def keeps_displacement_def)+)
qed

lemma apply_field_label:
  assumes "apply_field cx t ops (k, n) wd = Inr wd'" "label_operation (k, n)"
  shows "\<exists>l. operand_label ops n = Some l \<and> wf_label wd' = Some l" "wf_label_operand wd' = n"
    "wf_disp_size wd' = Some (label_bytes k)" "wf_constant wd' = wf_constant wd"
  using assms by (auto simp: apply_field_def label_operation_def label_bytes_def dest: label_field_word)

lemma apply_field_pool:
  assumes "apply_field cx t ops f wd = Inr wd'" "pool_operation f"
  shows "\<exists>v. pool_value ops f = Some v \<and> wf_constant wd' = Some v" "wf_call wd' = (wf_call wd \<or> fst f = EK_CallPointer)"
    "wf_disp_size wd' = Some 4" "wf_label wd' = wf_label wd"
  using assms by (cases f; auto simp: apply_field_def pool_operation_def pool_value_def rip_fields_def nth_operand_def split: option.splits if_splits)+

lemma apply_field_trailing:
  assumes "apply_field cx t ops f wd = Inr wd'"
  shows "immediate_of wd' = immediate_step (immediate_of wd) f \<and> wf_table wd' = (wf_table wd \<or> fst f = EK_SwitchTable)"
proof -
  obtain k n where f: "f = (k, n)" by (cases f)
  note words = memory_fields_word computed_address_word memory_operand_word rex_field_word immediate_field_word label_field_word
  have r: "immediate_of (register_field k n wd) = immediate_of wd" "wf_table (register_field k n wd) = wf_table wd" for k n
    using register_field_word [of wd k n] by (simp_all add: same_trailing_def)
  show ?thesis
    using assms unfolding f apply_field_def immediate_step_def
    by (cases k) (auto simp: rbind_eq_Inr r rip_fields_def same_trailing_def dest!: words split: if_splits option.splits,
      (simp add: immediate_of_def)+)
qed

text \<open>A word with one displacement: the field is the one its operation asks for.\<close>

lemma keeps_trans: "keeps_displacement a b \<Longrightarrow> keeps_displacement b c \<Longrightarrow> keeps_displacement a c"
  by (auto simp: keeps_displacement_def)

lemma apply_fields_append: "apply_fields cx t ops (fs @ gs) wd = rbind (apply_fields cx t ops fs wd) (apply_fields cx t ops gs)"
  by (induction fs arbitrary: wd) (auto simp: rbind_def split: sum.split)

lemma apply_fields_other:
  "apply_fields cx t ops fs wd = Inr wd' \<Longrightarrow> filter displacement_operation fs = [] \<Longrightarrow> keeps_displacement wd wd'"
proof (induction fs arbitrary: wd)
  case (Cons f fs)
  then show ?case by (auto simp: rbind_eq_Inr split: if_splits dest!: apply_field_other intro: keeps_trans)
qed (simp add: keeps_displacement_def)

lemma apply_fields_trailing:
  "apply_fields cx t ops fs wd = Inr wd' \<Longrightarrow>
    immediate_of wd' = foldl immediate_step (immediate_of wd) fs \<and> wf_table wd' = (wf_table wd \<or> has_table fs)"
proof (induction fs arbitrary: wd)
  case (Cons f fs)
  then obtain wd1 where a: "apply_field cx t ops f wd = Inr wd1" "apply_fields cx t ops fs wd1 = Inr wd'"
    by (auto simp: rbind_eq_Inr)
  show ?case using Cons.IH [OF a(2)] apply_field_trailing [OF a(1)] by (auto simp: has_table_def)
qed (simp add: has_table_def)

lemma one_displacement_split:
  assumes "one_displacement fs" "f \<in> set fs" "displacement_operation f"
  shows "\<exists>as bs. fs = as @ f # bs \<and> filter displacement_operation as = [] \<and> filter displacement_operation bs = []"
proof -
  obtain as bs where fs: "fs = as @ f # bs" using split_list [OF assms(2)] by blast
  then have "length (filter displacement_operation as) + length (filter displacement_operation bs) = 0"
    using assms(1,3) by (simp add: one_displacement_def)
  then show ?thesis using fs by (intro exI [of _ as] exI [of _ bs]) simp
qed

lemma word_displacement:
  assumes "apply_fields cx t ops fs no_fields = Inr wd" "one_displacement fs" "(k, n) \<in> set fs"
  shows "label_operation (k, n) \<Longrightarrow> (\<exists>l. operand_label ops n = Some l \<and> wf_label wd = Some l) \<and> wf_label_operand wd = n \<and>
      wf_disp_size wd = Some (label_bytes k) \<and> wf_constant wd = None"
    and "pool_operation (k, n) \<Longrightarrow> (\<exists>v. pool_value ops (k, n) = Some v \<and> wf_constant wd = Some v) \<and> wf_call wd = (k = EK_CallPointer) \<and>
      wf_disp_size wd = Some 4 \<and> wf_label wd = None"
proof -
  have "\<exists>wd1 wd2. keeps_displacement no_fields wd1 \<and> apply_field cx t ops (k, n) wd1 = Inr wd2 \<and> keeps_displacement wd2 wd"
    if d: "displacement_operation (k, n)"
  proof -
    obtain as bs where fs: "fs = as @ (k, n) # bs" "filter displacement_operation as = []" "filter displacement_operation bs = []"
      using one_displacement_split [OF assms(2,3) d] by blast
    then obtain wd1 wd2 where w: "apply_fields cx t ops as no_fields = Inr wd1" "apply_field cx t ops (k, n) wd1 = Inr wd2"
      "apply_fields cx t ops bs wd2 = Inr wd"
      using assms(1) by (auto simp: apply_fields_append rbind_eq_Inr)
    then show ?thesis using apply_fields_other [OF w(1) fs(2)] apply_fields_other [OF w(3) fs(3)] by blast
  qed
  note parts = this
  show "(\<exists>l. operand_label ops n = Some l \<and> wf_label wd = Some l) \<and> wf_label_operand wd = n \<and>
      wf_disp_size wd = Some (label_bytes k) \<and> wf_constant wd = None" if l: "label_operation (k, n)"
  proof -
    obtain wd1 wd2 where w: "keeps_displacement no_fields wd1" "apply_field cx t ops (k, n) wd1 = Inr wd2" "keeps_displacement wd2 wd"
      using parts l by (auto simp: displacement_operation_def)
    show ?thesis using w(1,3) apply_field_label [OF w(2) l] by (auto simp: keeps_displacement_def no_fields_def)
  qed
  show "(\<exists>v. pool_value ops (k, n) = Some v \<and> wf_constant wd = Some v) \<and> wf_call wd = (k = EK_CallPointer) \<and>
      wf_disp_size wd = Some 4 \<and> wf_label wd = None" if p: "pool_operation (k, n)"
  proof -
    obtain wd1 wd2 where w: "keeps_displacement no_fields wd1" "apply_field cx t ops (k, n) wd1 = Inr wd2" "keeps_displacement wd2 wd"
      using parts p by (auto simp: displacement_operation_def)
    show ?thesis using w(1,3) apply_field_pool [OF w(2) p] by (auto simp: keeps_displacement_def no_fields_def)
  qed
qed

lemma apply_fields_ok:
  assumes "apply_fields cx t ops fs no_fields = Inr wd" "one_displacement fs"
  shows "word_ok wd"
proof (cases "filter displacement_operation fs")
  case Nil
  then show ?thesis using apply_fields_other [OF assms(1) Nil] by (simp add: keeps_displacement_def word_ok_def no_fields_def)
next
  case (Cons f gs)
  then have f: "f \<in> set fs" "displacement_operation f" using filter_eq_ConsD [OF Cons] by auto
  then show ?thesis
    using word_displacement [OF assms, of "fst f" "snd f"]
    by (auto simp: displacement_operation_def word_ok_def label_bytes_def split: if_splits)
qed

section \<open>The invariant of the engine\<close>

definition en_fields :: "engine \<Rightarrow> (nat \<times> nat) list" where
  "en_fields en = map (\<lambda>r. (lf_offset r, lf_offset r + lf_size r)) (en_labels en) @ map (\<lambda>p. (px_offset p, px_offset p + 4)) (en_pool en)"

definition engine_ok :: "engine \<Rightarrow> bool" where
  "engine_ok en \<longleftrightarrow> fields_within 0 (length (en_bytes en)) (en_fields en) \<and>
     list_all (\<lambda>r. lf_size r \<in> {1, 4, 8}) (en_labels en) \<and> list_all (\<lambda>p. px_next p \<le> length (en_bytes en)) (en_pool en) \<and>
     en_constants en = []"

lemma engine_ok_empty: "engine_ok empty_engine"
  by (simp add: engine_ok_def empty_engine_def en_fields_def)

lemma engine_ok_longer:
  "engine_ok en \<Longrightarrow> length (en_bytes en) \<le> length (en_bytes en') \<Longrightarrow> en_labels en' = en_labels en \<Longrightarrow> en_pool en' = en_pool en \<Longrightarrow>
    en_constants en' = en_constants en \<Longrightarrow> engine_ok en'"
  unfolding engine_ok_def en_fields_def by (auto elim: fields_within_mono simp: list_all_iff)

lemma engine_ok_label:
  assumes "engine_ok en" "length (en_bytes en) \<le> lf_offset r" "lf_offset r + lf_size r \<le> length (en_bytes en')" "lf_size r \<in> {1, 4, 8}"
    and "en_labels en' = en_labels en @ [r]" "en_pool en' = en_pool en" "en_constants en' = en_constants en"
  shows "engine_ok en'"
proof -
  have l: "length (en_bytes en) \<le> length (en_bytes en')" using assms(2,3) by simp
  have "grows (length (en_bytes en)) (en_fields en) (length (en_bytes en')) (en_fields en')"
    by (rule grows_one [of _ "lf_offset r" "lf_offset r + lf_size r"]) (use assms in \<open>auto simp: en_fields_def\<close>)
  with assms l show ?thesis unfolding engine_ok_def by (auto dest: grows_fields simp: list_all_iff)
qed

lemma engine_ok_pool:
  assumes "engine_ok en" "length (en_bytes en) \<le> px_offset p" "px_offset p + 4 \<le> length (en_bytes en')" "px_next p \<le> length (en_bytes en')"
    and "en_labels en' = en_labels en" "en_pool en' = en_pool en @ [p]" "en_constants en' = en_constants en"
  shows "engine_ok en'"
proof -
  have l: "length (en_bytes en) \<le> length (en_bytes en')" using assms(2,3) by simp
  have "grows (length (en_bytes en)) (en_fields en) (length (en_bytes en')) (en_fields en')"
    by (rule grows_one [of _ "px_offset p" "px_offset p + 4"]) (use assms in \<open>auto simp: en_fields_def\<close>)
  with assms l show ?thesis unfolding engine_ok_def by (auto dest: grows_fields simp: list_all_iff)
qed

text \<open>A step that only appends bytes.\<close>

definition appends :: "engine \<Rightarrow> engine \<Rightarrow> bool" where
  "appends en en' \<longleftrightarrow> (\<exists>cs. en_bytes en' = en_bytes en @ cs) \<and> en_labels en' = en_labels en \<and> en_pool en' = en_pool en \<and>
     en_constants en' = en_constants en"

lemma appends_refl [simp]: "appends en en"
  by (simp add: appends_def)

lemma appends_emit [simp]: "appends en (emit_bytes v n en)"
  by (simp add: appends_def emit_bytes_def)

lemma appends_trans: "appends a b \<Longrightarrow> appends b c \<Longrightarrow> appends a c"
  by (auto simp: appends_def)

lemma appends_relocation: "add_relocation cx o1 at en = Inr en' \<Longrightarrow> appends en en'"
  by (auto simp: add_relocation_def appends_def split: if_splits)

lemma appends_immediate: "emit_immediate cx wd en = Inr en' \<Longrightarrow> appends en en'"
  unfolding emit_immediate_def
  by (auto simp: rbind_eq_Inr split: option.splits intro: appends_trans [OF appends_relocation appends_emit])

lemma appends_longer: "appends en en' \<Longrightarrow> length (en_bytes en) \<le> length (en_bytes en')"
  by (auto simp: appends_def)

lemma appends_ok: "engine_ok en \<Longrightarrow> appends en en' \<Longrightarrow> engine_ok en'"
  by (rule engine_ok_longer) (auto simp: appends_def)

lemma word_fixups_ok:
  assumes "engine_ok en" "word_ok wd" "appends en en'" "length (en_bytes en) \<le> at"
    and "\<And>n. wf_disp_size wd = Some n \<Longrightarrow> at + n \<le> length (en_bytes en')"
  shows "engine_ok (word_fixups wd at en')"
proof (cases "wf_label wd")
  case None
  note label = this
  show ?thesis
  proof (cases "wf_constant wd")
    case None
    then show ?thesis
      using appends_ok [OF assms(1,3)] label by (simp add: word_fixups_def)
  next
    case (Some o1)
    show ?thesis
      by (rule engine_ok_pool [OF assms(1), of "\<lparr>px_value = o1, px_offset = at, px_next = length (en_bytes en'), px_call = wf_call wd\<rparr>"])
        (use assms label Some in \<open>simp_all add: word_fixups_def Let_def word_ok_def appends_def\<close>)
  qed
next
  case (Some l)
  obtain n where n: "wf_disp_size wd = Some n" "n = 1 \<or> n = 4" using assms(2) Some by (auto simp: word_ok_def)
  show ?thesis
    by (rule engine_ok_label [OF assms(1), of "\<lparr>lf_label = l, lf_offset = at, lf_next = length (en_bytes en'), lf_size = n,
          lf_operand = wf_label_operand wd\<rparr>"])
      (use assms n Some in \<open>auto simp: word_fixups_def Let_def word_ok_def appends_def\<close>)
qed

lemma emit_word_ok:
  assumes "engine_ok en" "word_ok wd" "emit_word cx maximum wd (t, en) = Inr (t', en')" "\<And>at. t = Some at \<Longrightarrow> at + 4 \<le> length (en_bytes en)"
  shows "engine_ok en'" "length (en_bytes en) \<le> length (en_bytes en')"
    "\<And>at. t' = Some at \<Longrightarrow> at + 4 \<le> length (en_bytes en') \<and> (t = Some at \<or> length (en_bytes en) \<le> at)"
proof -
  define head where "head = en\<lparr>en_bytes := en_bytes en @ word_head wd\<rparr>"
  define disp where "disp = (case wf_disp_size wd of Some sz \<Rightarrow> emit_bytes (wf_disp wd) sz head | None \<Rightarrow> head)"
  from assms(3) obtain im where im: "emit_immediate cx wd disp = Inr im"
    and e: "(t', en') = ((if wf_table wd then Some (length (en_bytes im)) else t),
        word_fixups wd (length (en_bytes head)) (if wf_table wd then emit_bytes 0 4 im else im))"
    unfolding emit_word_def Let_def prod.case head_def [symmetric] disp_def [symmetric]
    by (auto simp: rbind_eq_Inr split: if_splits)
  define tab where "tab = (if wf_table wd then emit_bytes 0 4 im else im)"
  have h: "appends en head" by (simp add: appends_def head_def)
  have d: "appends head disp" by (simp add: disp_def split: option.split)
  have i: "appends disp im" by (rule appends_immediate [OF im])
  have t: "appends im tab" by (simp add: tab_def)
  have all: "appends en tab" using h d i t by (blast intro: appends_trans)
  have en': "en' = word_fixups wd (length (en_bytes head)) tab" using e by (simp add: tab_def)
  have size: "length (en_bytes head) + n \<le> length (en_bytes tab)" if "wf_disp_size wd = Some n" for n
    using appends_longer [OF i] appends_longer [OF t] that by (simp add: disp_def emit_bytes_def)
  show "engine_ok en'"
    unfolding en' by (rule word_fixups_ok [OF assms(1,2) all appends_longer [OF h] size])
  have same: "en_bytes en' = en_bytes tab" by (simp add: en' word_fixups_def Let_def)
  show "length (en_bytes en) \<le> length (en_bytes en')" using appends_longer [OF all] by (simp add: same)
  fix at
  assume "t' = Some at"
  then show "at + 4 \<le> length (en_bytes en') \<and> (t = Some at \<or> length (en_bytes en) \<le> at)"
    using e assms(4) appends_longer [OF h] appends_longer [OF d] appends_longer [OF i] appends_longer [OF all]
    unfolding same by (auto simp: tab_def emit_bytes_def split: if_splits)
qed

section \<open>Instructions, blocks and functions keep it\<close>

lemma encode_words_ok:
  assumes "engine_ok en" "encode_words cx ops r ws (t, en) = Inr (t', en')" "list_all (\<lambda>w. one_displacement (word_operations r w)) ws"
    and "\<And>at. t = Some at \<Longrightarrow> at + 4 \<le> length (en_bytes en)"
  shows "engine_ok en' \<and> (t' = None \<or> the t' + 4 \<le> length (en_bytes en'))"
  using assms
proof (induction ws arbitrary: t en)
  case Nil
  then show ?case by (cases t') auto
next
  case (Cons w ws)
  obtain wd t1 en1 where a: "apply_fields cx t ops (word_operations r w) no_fields = Inr wd"
    and e: "emit_word cx (ew_maximum w) wd (t, en) = Inr (t1, en1)" and r: "encode_words cx ops r ws (t1, en1) = Inr (t', en')"
    using Cons.prems(2) by (auto simp: rbind_eq_Inr)
  have ok: "word_ok wd" using apply_fields_ok [OF a] Cons.prems(3) by simp
  note s = emit_word_ok [OF Cons.prems(1) ok e Cons.prems(4)]
  show ?case using Cons.IH [OF s(1) r _ conjunct1 [OF s(3)]] Cons.prems(3) by simp
qed

lemma switch_targets_ok: "engine_ok en \<Longrightarrow> switch_targets cx n ops en = Inr en' \<Longrightarrow> engine_ok en'"
proof (induction ops arbitrary: n en)
  case (Cons o1 ops)
  then obtain l where l: "as_label o1 = Some l" by (auto split: option.splits)
  let ?r = "\<lparr>lf_label = l, lf_offset = length (en_bytes en), lf_next = 0, lf_size = 8, lf_operand = n\<rparr>"
  have "engine_ok (emit_bytes 0 8 (en\<lparr>en_labels := en_labels en @ [?r]\<rparr>))"
    by (rule engine_ok_label [OF Cons.prems(1), of ?r]) (simp_all add: emit_bytes_def)
  with Cons show ?case by (simp add: l)
qed simp

lemma appends_pad [simp]: "appends en (pad_to n en)"
  by (simp add: pad_to_def appends_def)

lemma engine_ok_patch: "engine_ok en \<Longrightarrow> at + n \<le> length (en_bytes en) \<Longrightarrow> engine_ok (patch_bytes at v n en)"
  by (erule engine_ok_longer) (simp_all add: patch_bytes_def)

lemma encode_switch_ok:
  assumes "engine_ok en" "encode_switch cx at ops en = Inr en'" "at + 4 \<le> length (en_bytes en)"
  shows "engine_ok en'"
proof -
  have p: "engine_ok (pad_to 8 en)" by (rule appends_ok [OF assms(1) appends_pad])
  moreover have "at + 4 \<le> length (en_bytes (pad_to 8 en))"
    using assms(3) appends_longer [OF appends_pad, of en 8] by (rule order_trans)
  ultimately show ?thesis
    using assms(2) by (auto simp: encode_switch_def Let_def split: if_splits intro: switch_targets_ok [OF engine_ok_patch])
qed

text \<open>The recipes of the context come from a table whose words have one displacement field each.\<close>

definition separate_context :: "encode_context \<Rightarrow> bool" where
  "separate_context cx \<longleftrightarrow> (\<exists>ds. ec_recipes cx = compile_recipes ds \<and> recipes_separate ds)"

lemma separate_words:
  assumes "separate_context cx" "x86_encoding_recipe (ec_recipes cx) n = Some r"
  shows "list_all (\<lambda>w. one_displacement (word_operations r w)) (er_words r)"
proof -
  obtain ds where ds: "ec_recipes cx = compile_recipes ds" "recipes_separate ds" using assms(1) by (auto simp: separate_context_def)
  have row: "n < length ds" "map (\<lambda>w. (word_operations r w, ew_maximum w)) (er_words r) = row_words (ds ! n)"
    using recipe_row [of ds n r] assms(2) ds(1) by auto
  then have "list_all (one_displacement \<circ> fst) (map (\<lambda>w. (word_operations r w, ew_maximum w)) (er_words r))"
    using ds(2) by (simp add: recipes_separate_def list_all_length)
  then show ?thesis by (simp add: list_all_iff)
qed

lemma encode_instruction_ok:
  assumes "separate_context cx" "engine_ok en" "encode_instruction cx ops p en = Inr en'"
  shows "engine_ok en'"
proof -
  obtain r t en1 where r: "x86_encoding_recipe (ec_recipes cx) p = Some r" "encode_words cx ops r (er_words r) (None, en) = Inr (t, en1)"
    and e: "(case t of None \<Rightarrow> Inr en1 | Some at \<Rightarrow> encode_switch cx at ops en1) = Inr en'"
    using assms(3) by (auto simp: encode_instruction_def rbind_eq_Inr split: option.splits)
  have w: "engine_ok en1 \<and> (t = None \<or> the t + 4 \<le> length (en_bytes en1))"
    by (rule encode_words_ok [OF assms(2) r(2) separate_words [OF assms(1) r(1)]]) simp
  show ?thesis
  proof (cases t)
    case None
    then show ?thesis using w e by simp
  next
    case (Some at)
    then show ?thesis using w e encode_switch_ok [of en1 cx at ops en'] by simp
  qed
qed

lemma align_loop_ok: "engine_ok en \<Longrightarrow> engine_ok (align_loop en)"
  by (erule engine_ok_longer) (simp_all add: align_loop_def Let_def)

lemma emit_labels_ok: "engine_ok (snd st) \<Longrightarrow> engine_ok (snd (emit_labels aligned ls st))"
  by (induction aligned ls st rule: emit_labels.induct) (simp_all add: Let_def align_loop_ok)

lemma emit_instructions_ok:
  assumes "separate_context cx"
  shows "emit_instructions cx is (ps, offsets, en) = Inr (ps', offsets', en') \<Longrightarrow> engine_ok en \<Longrightarrow> engine_ok en' \<and> offsets' = offsets"
proof (induction "is" arbitrary: ps en)
  case (Cons i "is")
  then show ?case
    by (auto simp: rbind_eq_Inr split: if_splits dest: encode_instruction_ok [OF assms])
qed simp

lemma emit_blocks_ok:
  assumes "separate_context cx"
  shows "emit_blocks cx aligned bs (ps, offsets, en) = Inr (ps', offsets', en') \<Longrightarrow> engine_ok en \<Longrightarrow> engine_ok en'"
proof (induction bs arbitrary: ps offsets en)
  case (Cons b bs)
  obtain o1 e1 where l: "emit_labels aligned (mb_labels b) (offsets, en) = (o1, e1)" by (metis surj_pair)
  from Cons.prems(1) obtain ps2 o2 e2 where i: "emit_instructions cx (mb_instructions b) (ps, o1, e1) = Inr (ps2, o2, e2)"
    and r: "emit_blocks cx aligned bs (ps2, o2, e2) = Inr (ps', offsets', en')"
    by (auto simp: rbind_eq_Inr l)
  have "engine_ok e1" using emit_labels_ok [of "(offsets, en)" aligned "mb_labels b"] Cons.prems(2) by (simp add: l)
  then show ?case using Cons.IH [OF r] emit_instructions_ok [OF assms i] by blast
qed simp

text \<open>The first pass touches nothing of the engine but the known addresses.\<close>

definition same_code :: "engine \<Rightarrow> engine \<Rightarrow> bool" where
  "same_code en en' \<longleftrightarrow> en_bytes en' = en_bytes en \<and> en_labels en' = en_labels en \<and> en_pool en' = en_pool en \<and>
     en_constants en' = en_constants en \<and> en_relocations en' = en_relocations en"

lemma same_code_refl [simp]: "same_code en en"
  by (simp add: same_code_def)

lemma same_code_trans: "same_code a b \<Longrightarrow> same_code b c \<Longrightarrow> same_code a c"
  by (simp add: same_code_def)

lemma resolve_same: "resolve_known cx o1 en = Inr (v, en') \<Longrightarrow> same_code en en'"
  by (auto simp: resolve_known_def same_code_def Let_def engine_invalid_def mk_error_def split: option.splits if_splits sum.splits)

lemma normalize_symbols_same: "normalize_symbols cx l n ops en = Inr (ops', en') \<Longrightarrow> same_code en en'"
  by (induction ops arbitrary: n en ops')
    (auto simp: rbind_eq_Inr split: if_splits dest!: resolve_same intro: same_code_trans)

lemma normalize_same: "normalize_operands cx c l ops en = Inr (ops', en') \<Longrightarrow> same_code en en'"
  by (auto simp: normalize_operands_def rbind_eq_Inr split: if_splits dest!: normalize_symbols_same)

lemma estimate_labels_engine [simp]: "ls_engine (estimate_labels aligned ls st) = ls_engine st"
  by (induction ls arbitrary: st) (simp_all add: Let_def)

lemma estimate_instruction_same:
  assumes "estimate_instruction cx i st = Inr st1"
  shows "same_code (ls_engine st) (ls_engine st1)"
proof (cases "mi_opcode i = Pseudo PseudoUse")
  case True
  then show ?thesis using assms by (simp add: estimate_instruction_def)
next
  case False
  then obtain ops en where n: "normalize_operands cx (mi_opcode i) (mi_lowered_call i) (mi_operands i) (ls_engine st) = Inr (ops, en)"
    using assms by (auto simp: estimate_instruction_def rbind_eq_Inr)
  then obtain p where "select_pattern cx (mi_opcode i) ops (long_options (mi_shape i)) = Some p"
    using assms False by (auto simp: estimate_instruction_def split: option.splits)
  then have "ls_engine st1 = en"
    using assms False n by (auto simp: estimate_instruction_def Let_def split: if_splits)
  then show ?thesis using normalize_same [OF n] by simp
qed

lemma estimate_instructions_same: "estimate_instructions cx is st = Inr st' \<Longrightarrow> same_code (ls_engine st) (ls_engine st')"
proof (induction "is" arbitrary: st)
  case (Cons i "is")
  then obtain st1 where i: "estimate_instruction cx i st = Inr st1" "estimate_instructions cx is st1 = Inr st'"
    by (auto simp: rbind_eq_Inr)
  have "same_code (ls_engine st) (ls_engine st1)"
    by (rule estimate_instruction_same [OF i(1)])
  then show ?case using Cons.IH [OF i(2)] by (rule same_code_trans)
qed simp

lemma estimate_blocks_same: "estimate_blocks cx aligned bs st = Inr st' \<Longrightarrow> same_code (ls_engine st) (ls_engine st')"
proof (induction bs arbitrary: st)
  case (Cons b bs)
  then obtain st1 where b: "estimate_instructions cx (mb_instructions b) (estimate_labels aligned (mb_labels b) st) = Inr st1"
    "estimate_blocks cx aligned bs st1 = Inr st'"
    by (auto simp: rbind_eq_Inr)
  show ?case using estimate_instructions_same [OF b(1)] Cons.IH [OF b(2)] by (auto intro: same_code_trans)
qed simp

lemma lay_out_ok:
  assumes "separate_context cx" "lay_out cx f aligned = Inr (offsets, en)"
  shows "engine_ok en"
proof -
  obtain st ps where st: "estimate_blocks cx aligned (mf_blocks f)
      \<lparr>ls_estimate = 0, ls_offsets = Map.empty, ls_prepared = [], ls_engine = empty_engine\<rparr> = Inr st"
    and e: "emit_blocks cx aligned (mf_blocks f) (ls_prepared st, ls_offsets st, ls_engine st) = Inr (ps, offsets, en)"
    using assms(2) by (auto simp: lay_out_def rbind_eq_Inr)
  have "engine_ok (ls_engine st)"
    using estimate_blocks_same [OF st] engine_ok_longer [OF engine_ok_empty, of "ls_engine st"] by (simp add: same_code_def)
  then show ?thesis by (rule emit_blocks_ok [OF assms(1) e])
qed

section \<open>Patching\<close>

definition label_patch :: "(nat \<rightharpoonup> nat) \<Rightarrow> label_fixup \<Rightarrow> nat \<times> u64 \<times> nat" where
  "label_patch offsets r =
    (lf_offset r, if lf_size r = 8 then of_nat (the (offsets (lf_label r))) else word_of_int (int (the (offsets (lf_label r))) - int (lf_next r)), lf_size r)"

text \<open>What a successful patch has checked of a fixup.\<close>

definition label_reachable :: "(nat \<rightharpoonup> nat) \<Rightarrow> label_fixup \<Rightarrow> bool" where
  "label_reachable offsets r \<longleftrightarrow> offsets (lf_label r) \<noteq> None \<and> (lf_size r = 8 \<or>
     (let d = int (the (offsets (lf_label r))) - int (lf_next r)
      in if lf_size r = 1 then - 128 \<le> d \<and> d \<le> 127 else - 2147483648 \<le> d \<and> d \<le> 2147483647))"

lemma fix_labels_patches:
  assumes "fix_labels cx offsets rs en = Inr en'"
  shows "en_bytes en' = apply_patches (en_bytes en) (map (label_patch offsets) rs) \<and> en_pool en' = en_pool en \<and>
    en_constants en' = en_constants en \<and> list_all (label_reachable offsets) rs \<and>
    en_relocations en' = en_relocations en @ map (local_relocation \<circ> lf_offset) (filter (\<lambda>r. lf_size r = 8) rs)"
  using assms
proof (induction rs arbitrary: en)
  case (Cons r rs)
  then obtain en1 where f: "fix_label cx offsets r en = Inr en1" "fix_labels cx offsets rs en1 = Inr en'"
    by (auto simp: rbind_eq_Inr)
  have "en_bytes en1 = (case label_patch offsets r of (at, v, n) \<Rightarrow> write_at (en_bytes en) at v n) \<and> en_pool en1 = en_pool en \<and>
      en_constants en1 = en_constants en \<and> label_reachable offsets r \<and>
      en_relocations en1 = en_relocations en @ (if lf_size r = 8 then [local_relocation (lf_offset r)] else [])"
    using f(1) by (auto simp: fix_label_def label_patch_def label_reachable_def patch_bytes_def Let_def split: option.splits if_splits)
  with Cons.IH [OF f(2)] show ?case by auto
qed simp

text \<open>The pool appends cells and patches its references only.\<close>

lemma add_constant_effect:
  assumes "add_constant cx r en = Inr en'"
  shows "\<exists>v. en_bytes en' = write_at (en_bytes en) (px_offset r) (of_nat (length (en_bytes en) - px_next r)) 4 @ put_le 8 v @ put_le 8 0 \<and>
      (case as_integer (px_value r) of Some n \<Rightarrow> v = n \<and> en_relocations en' = en_relocations en
        | None \<Rightarrow> v = 0 \<and> is_symbolic (px_value r) \<and>
            en_relocations en' = en_relocations en @ [symbol_relocation (px_value r) (length (en_bytes en))]) \<and>
      length (en_bytes en) - px_next r \<le> INT32_MAX \<and>
      en_constants en' = en_constants en @ [\<lparr>pool_offset = length (en_bytes en), pool_reference = px_offset r, pool_next = px_next r,
        pool_call = px_call r\<rparr>]"
  using assms
  by (auto simp: add_constant_def add_relocation_def rbind_eq_Inr Let_def patch_bytes_def emit_bytes_def split: if_splits option.splits)

lemma add_constants_keep:
  assumes "add_constants cx rs en = Inr en'" "p + k \<le> length (en_bytes en)"
    and "list_all (\<lambda>r. px_offset r + 4 \<le> length (en_bytes en) \<and> (p + k \<le> px_offset r \<or> px_offset r + 4 \<le> p)) rs"
  shows "read_at (en_bytes en') p k = read_at (en_bytes en) p k \<and> set (en_relocations en) \<subseteq> set (en_relocations en') \<and>
    set (en_constants en) \<subseteq> set (en_constants en')"
  using assms
proof (induction rs arbitrary: en)
  case (Cons r rs)
  then obtain en1 where a: "add_constant cx r en = Inr en1" "add_constants cx rs en1 = Inr en'"
    by (auto simp: rbind_eq_Inr)
  obtain v where v: "en_bytes en1 = write_at (en_bytes en) (px_offset r) (of_nat (length (en_bytes en) - px_next r)) 4 @ put_le 8 v @ put_le 8 0"
    using add_constant_effect [OF a(1)] by blast
  have mono: "set (en_relocations en) \<subseteq> set (en_relocations en1)" "set (en_constants en) \<subseteq> set (en_constants en1)"
    using add_constant_effect [OF a(1)] by (auto split: option.splits)
  have h: "px_offset r + 4 \<le> length (en_bytes en)" "p + k \<le> px_offset r \<or> px_offset r + 4 \<le> p" using Cons.prems(3) by simp_all
  have len: "length (en_bytes en1) = length (en_bytes en) + 16" using h by (simp add: v)
  have "read_at (en_bytes en1) p k = read_at (en_bytes en) p k"
    using Cons.prems(2) h by (simp add: v read_at_append read_write_other)
  moreover have "list_all (\<lambda>r. px_offset r + 4 \<le> length (en_bytes en1) \<and> (p + k \<le> px_offset r \<or> px_offset r + 4 \<le> p)) rs"
    using Cons.prems(3) len by (fastforce simp: list_all_iff)
  ultimately show ?case using Cons.IH [OF a(2)] Cons.prems(2) len mono by auto
qed simp

definition pool_entry_ok :: "engine \<Rightarrow> pool_fixup \<Rightarrow> pool_entry \<Rightarrow> bool" where
  "pool_entry_ok en r c \<longleftrightarrow> pool_reference c = px_offset r \<and> pool_next c = px_next r \<and> pool_call c = px_call r \<and>
     signed_field (en_bytes en) (px_offset r) 4 + int (px_next r) = int (pool_offset c) \<and>
     (case as_integer (px_value r) of Some n \<Rightarrow> read_at (en_bytes en) (pool_offset c) 8 = n
      | None \<Rightarrow> is_symbolic (px_value r) \<and> symbol_relocation (px_value r) (pool_offset c) \<in> set (en_relocations en))"

definition pool_fields :: "pool_fixup list \<Rightarrow> (nat \<times> nat) list" where
  "pool_fields rs = map (\<lambda>r. (px_offset r, px_offset r + 4)) rs"

lemma add_constants_entry:
  assumes "add_constants cx rs en = Inr en'" "fields_within 0 n (pool_fields rs)" "n \<le> length (en_bytes en)"
    and "list_all (\<lambda>r. px_next r \<le> length (en_bytes en)) rs" "r \<in> set rs"
  shows "\<exists>c :: pool_entry. c \<in> set (en_constants en') \<and> pool_entry_ok en' r c"
  using assms
proof (induction rs arbitrary: en)
  case (Cons q rs)
  then obtain en1 where a: "add_constant cx q en = Inr en1" "add_constants cx rs en1 = Inr en'"
    by (auto simp: rbind_eq_Inr)
  let ?L = "length (en_bytes en)"
  let ?c = "\<lparr>pool_offset = ?L, pool_reference = px_offset q, pool_next = px_next q, pool_call = px_call q\<rparr>"
  obtain v where v: "en_bytes en1 = write_at (en_bytes en) (px_offset q) (of_nat (?L - px_next q)) 4 @ put_le 8 v @ put_le 8 0"
    "case as_integer (px_value q) of Some n \<Rightarrow> v = n
       | None \<Rightarrow> v = 0 \<and> is_symbolic (px_value q) \<and> symbol_relocation (px_value q) ?L \<in> set (en_relocations en1)"
    "?L - px_next q \<le> INT32_MAX" "?c \<in> set (en_constants en1)"
  proof -
    from add_constant_effect [OF a(1)] obtain v where
      "en_bytes en1 = write_at (en_bytes en) (px_offset q) (of_nat (?L - px_next q)) 4 @ put_le 8 v @ put_le 8 0 \<and>
        (case as_integer (px_value q) of Some n \<Rightarrow> v = n \<and> en_relocations en1 = en_relocations en
          | None \<Rightarrow> v = 0 \<and> is_symbolic (px_value q) \<and> en_relocations en1 = en_relocations en @ [symbol_relocation (px_value q) ?L]) \<and>
        ?L - px_next q \<le> INT32_MAX \<and> en_constants en1 = en_constants en @ [?c]"
      by blast
    then show thesis by (intro that [of v]) (auto split: option.splits)
  qed
  have split: "fields_within 0 n ([(px_offset q, px_offset q + 4)] @ pool_fields rs)" using Cons.prems(2) by (simp add: pool_fields_def)
  have q: "px_offset q + 4 \<le> n" using Cons.prems(2) by (simp add: pool_fields_def fields_within_def)
  have len: "length (en_bytes en1) = ?L + 16" using q Cons.prems(3) by (simp add: v(1))
  show ?case
  proof (cases "r = q")
    case False
    have "fields_within 0 n (pool_fields rs)" using fields_within_part [OF split] by blast
    moreover have "list_all (\<lambda>r. px_next r \<le> length (en_bytes en1)) rs"
      using Cons.prems(4) len by (auto simp: list_all_iff intro: order_trans)
    ultimately show ?thesis using False Cons.IH [OF a(2)] Cons.prems(3,5) len by simp
  next
    case True
    have inside: "b \<le> n" if "(a, b) \<in> set (pool_fields rs)" for a b
      using fields_withinD [OF conjunct2 [OF fields_within_part [OF split]] that] by simp
    have sep: "list_all (\<lambda>r. px_offset r + 4 \<le> length (en_bytes en1) \<and> (px_offset q + 4 \<le> px_offset r \<or> px_offset r + 4 \<le> px_offset q)) rs"
      unfolding list_all_iff
    proof
      fix r
      assume "r \<in> set rs"
      then have m: "(px_offset r, px_offset r + 4) \<in> set (pool_fields rs)" by (simp add: pool_fields_def)
      show "px_offset r + 4 \<le> length (en_bytes en1) \<and> (px_offset q + 4 \<le> px_offset r \<or> px_offset r + 4 \<le> px_offset q)"
        using fields_within_sep [OF split _ m, of "(px_offset q, px_offset q + 4)"] inside [OF m] Cons.prems(3) len by simp
    qed
    have cell: "list_all (\<lambda>r. px_offset r + 4 \<le> length (en_bytes en1) \<and> (?L + 8 \<le> px_offset r \<or> px_offset r + 4 \<le> ?L)) rs"
      unfolding list_all_iff
    proof
      fix r
      assume "r \<in> set rs"
      then have m: "(px_offset r, px_offset r + 4) \<in> set (pool_fields rs)" by (simp add: pool_fields_def)
      show "px_offset r + 4 \<le> length (en_bytes en1) \<and> (?L + 8 \<le> px_offset r \<or> px_offset r + 4 \<le> ?L)"
        using inside [OF m] Cons.prems(3) len by simp
    qed
    note k1 = add_constants_keep [OF a(2) _ sep] and k2 = add_constants_keep [OF a(2) _ cell]
    have next_le: "px_next q \<le> ?L" using Cons.prems(4) by simp
    have "read_at (en_bytes en1) (px_offset q) 4 = take_bit (8 * 4) (word_of_int (int ?L - int (px_next q)))"
      using q Cons.prems(3) next_le by (simp add: v(1) read_at_append read_write_same of_nat_diff)
    then have f: "read_at (en_bytes en') (px_offset q) 4 = take_bit (8 * 4) (word_of_int (int ?L - int (px_next q)))"
      using k1 q Cons.prems(3) len by simp
    have "signed_field (en_bytes en') (px_offset q) 4 = int ?L - int (px_next q)"
    proof (rule signed_field_value [OF f])
      show "- (2 ^ (8 * 4 - 1)) \<le> int ?L - int (px_next q)" using next_le by simp
      show "int ?L - int (px_next q) < 2 ^ (8 * 4 - 1)" using v(3) by simp
    qed simp
    moreover have "read_at (en_bytes en1) ?L 8 = v"
      using read_at_tail [of "write_at (en_bytes en) (px_offset q) (of_nat (?L - px_next q)) 4" 8 v "put_le 8 0"] q Cons.prems(3)
      by (simp add: v(1))
    then have "read_at (en_bytes en') ?L 8 = v" using k2 len by simp
    moreover have "set (en_relocations en1) \<subseteq> set (en_relocations en')" "?c \<in> set (en_constants en')"
      using k2 len v(4) by auto
    ultimately show ?thesis
      using v(2) True by (intro exI [of _ ?c]) (auto simp: pool_entry_ok_def split: option.splits)
  qed
qed simp

section \<open>The finished function\<close>

text \<open>What holds of every fixup of the laid out body in the bytes of the artifact.\<close>

definition label_fixed :: "(nat \<rightharpoonup> nat) \<Rightarrow> (machine_symbol, builtin) compiled \<Rightarrow> label_fixup \<Rightarrow> bool" where
  "label_fixed offsets cf r = (case offsets (lf_label r) of
     None \<Rightarrow> False
   | Some at \<Rightarrow>
       if lf_size r = 8
       then read_at (cf_bytes cf) (lf_offset r) 8 = of_nat at \<and> local_relocation (lf_offset r) \<in> set (cf_relocations cf)
       else signed_field (cf_bytes cf) (lf_offset r) (lf_size r) + int (lf_next r) = int at)"

lemma finish_code_fields:
  assumes "finish_code identity cx arch ls en = Inr cf"
  shows "cf_bytes cf = en_bytes en" "cf_relocations cf = en_relocations en" "cf_constants cf = en_constants en"
    "map lr_offset (cf_labels cf) = map el_offset ls" "map lr_name (cf_labels cf) = map el_name ls" "verify_compiled cf = Inr ()"
  using assms by (auto simp: finish_code_def finish_artifact_def Let_def rbind_eq_Inr intro!: nth_equalityI)

lemma finish_function_parts:
  assumes "finish_function identity cx f (offsets, en) = Inr cf"
  shows "\<exists>en1 en2 ls. fix_labels cx offsets (en_labels en) en = Inr en1 \<and> add_constants cx (en_pool en) (pad_to 16 en1) = Inr en2 \<and>
    encoded_labels offsets (mf_labels f) = Inr ls \<and> finish_code identity cx (tm_architecture (mf_target f)) ls en2 = Inr cf"
proof -
  obtain en1 en2 ls where e: "fix_labels cx offsets (en_labels en) en = Inr en1" "finish_pool cx en1 = Inr en2"
    "encoded_labels offsets (mf_labels f) = Inr ls" "finish_code identity cx (tm_architecture (mf_target f)) ls en2 = Inr cf"
    using assms by (auto simp: finish_function_def rbind_eq_Inr)
  moreover have "en_pool en1 = en_pool en" using fix_labels_patches [OF e(1)] by blast
  ultimately show ?thesis by (auto simp: finish_pool_def)
qed

definition label_fields :: "engine \<Rightarrow> (nat \<times> nat) list" where
  "label_fields en = map (\<lambda>r. (lf_offset r, lf_offset r + lf_size r)) (en_labels en)"

lemma engine_fields_split: "engine_ok en \<Longrightarrow> fields_within 0 (length (en_bytes en)) (label_fields en @ pool_fields (en_pool en))"
  by (simp add: engine_ok_def en_fields_def label_fields_def pool_fields_def)

lemma label_patches_fit:
  assumes "engine_ok en"
  shows "list_all (\<lambda>(at, v, n). at + n \<le> length (en_bytes en)) (map (label_patch offsets) (en_labels en))"
    "disjoint_ranges (map (\<lambda>(at, v, n). (at, at + n)) (map (label_patch offsets) (en_labels en)))"
proof -
  have f: "fields_within 0 (length (en_bytes en)) (label_fields en)"
    using fields_within_part [OF engine_fields_split [OF assms]] by blast
  have "map (\<lambda>(at, v, n). (at, at + n)) (map (label_patch offsets) (en_labels en)) = label_fields en"
    by (simp add: label_fields_def label_patch_def)
  then show "disjoint_ranges (map (\<lambda>(at, v, n). (at, at + n)) (map (label_patch offsets) (en_labels en)))"
    using fields_within_disjoint [OF f] by simp
  have "lf_offset r + lf_size r \<le> length (en_bytes en)" if "r \<in> set (en_labels en)" for r
    using fields_withinD [OF f, of "lf_offset r" "lf_offset r + lf_size r"] that by (simp add: label_fields_def)
  then show "list_all (\<lambda>(at, v, n). at + n \<le> length (en_bytes en)) (map (label_patch offsets) (en_labels en))"
    by (simp add: list_all_iff label_patch_def)
qed

lemma finished_labels:
  assumes "separate_context cx" "lay_out cx f aligned = Inr (offsets, en)" "finish_function identity cx f (offsets, en) = Inr cf"
    and "r \<in> set (en_labels en)"
  shows "label_fixed offsets cf r"
proof -
  have ok: "engine_ok en" by (rule lay_out_ok [OF assms(1,2)])
  obtain en1 en2 ls where e: "fix_labels cx offsets (en_labels en) en = Inr en1" "add_constants cx (en_pool en) (pad_to 16 en1) = Inr en2"
    "finish_code identity cx (tm_architecture (mf_target f)) ls en2 = Inr cf"
    using finish_function_parts [OF assms(3)] by blast
  note patches = fix_labels_patches [OF e(1)]
  let ?n = "lf_size r" and ?at = "lf_offset r"
  have len: "length (en_bytes en1) = length (en_bytes en)"
    using patches buffer.patches_len [OF label_patches_fit(1) [OF ok], of offsets] by simp
  note split = engine_fields_split [OF ok]
  have field: "(?at, ?at + ?n) \<in> set (label_fields en)" using assms(4) by (simp add: label_fields_def)
  have within: "?at + ?n \<le> length (en_bytes en)" "?n \<in> {1, 4, 8}"
    using fields_withinD [OF conjunct1 [OF fields_within_part [OF split]] field] ok assms(4) by (auto simp: engine_ok_def list_all_iff)
  have "label_patch offsets r \<in> set (map (label_patch offsets) (en_labels en))" using assms(4) by simp
  then have "read_at (en_bytes en1) ?at ?n = take_bit (8 * ?n) (fst (snd (label_patch offsets r)))"
    using patches buffer.patches_same [OF label_patches_fit(2) [OF ok] label_patches_fit(1) [OF ok], of ?at "fst (snd (label_patch offsets r))" ?n offsets]
    by (simp add: label_patch_def)
  then have p: "read_at (en_bytes (pad_to 16 en1)) ?at ?n = take_bit (8 * ?n) (fst (snd (label_patch offsets r)))"
    using within len by (simp add: pad_to_def read_at_append)
  have "list_all (\<lambda>p. px_offset p + 4 \<le> length (en_bytes en) \<and> (?at + ?n \<le> px_offset p \<or> px_offset p + 4 \<le> ?at)) (en_pool en)"
    unfolding list_all_iff
  proof
    fix p
    assume "p \<in> set (en_pool en)"
    then have m: "(px_offset p, px_offset p + 4) \<in> set (pool_fields (en_pool en))" by (simp add: pool_fields_def)
    show "px_offset p + 4 \<le> length (en_bytes en) \<and> (?at + ?n \<le> px_offset p \<or> px_offset p + 4 \<le> ?at)"
      using fields_within_sep [OF split field m] fields_withinD [OF conjunct2 [OF fields_within_part [OF split]] m] by simp
  qed
  then have "list_all (\<lambda>p. px_offset p + 4 \<le> length (en_bytes (pad_to 16 en1)) \<and> (?at + ?n \<le> px_offset p \<or> px_offset p + 4 \<le> ?at)) (en_pool en)"
    using len by (auto simp: pad_to_def list_all_iff)
  from add_constants_keep [OF e(2) _ this] within len
  have keep: "read_at (en_bytes en2) ?at ?n = take_bit (8 * ?n) (fst (snd (label_patch offsets r)))"
    "set (en_relocations en1) \<subseteq> set (en_relocations en2)"
    using p by (auto simp: pad_to_def)
  have reach: "label_reachable offsets r" using patches assms(4) by (auto simp: list_all_iff)
  then obtain at where at: "offsets (lf_label r) = Some at" by (auto simp: label_reachable_def)
  note fin = finish_code_fields [OF e(3)]
  show ?thesis
  proof (cases "?n = 8")
    case True
    have "local_relocation ?at \<in> set (en_relocations en1)" using patches assms(4) True by auto
    then show ?thesis using keep at True fin by (auto simp: label_fixed_def label_patch_def)
  next
    case False
    then have n: "?n \<in> {1, 4}" using within by simp
    have "signed_field (en_bytes en2) ?at ?n = int at - int (lf_next r)"
      by (rule signed_field_value) (use keep(1) n at reach False in \<open>auto simp: label_patch_def label_reachable_def Let_def split: if_splits\<close>)
    then show ?thesis using at False fin by (simp add: label_fixed_def)
  qed
qed

lemma finished_pool:
  assumes "separate_context cx" "lay_out cx f aligned = Inr (offsets, en)" "finish_function identity cx f (offsets, en) = Inr cf"
    and "r \<in> set (en_pool en)"
  shows "\<exists>c :: pool_entry. c \<in> set (cf_constants cf) \<and>
    pool_entry_ok \<lparr>en_bytes = cf_bytes cf, en_relocations = cf_relocations cf, en_constants = [], en_labels = [], en_pool = [], en_known = []\<rparr> r c"
proof -
  have ok: "engine_ok en" by (rule lay_out_ok [OF assms(1,2)])
  obtain en1 en2 ls where e: "fix_labels cx offsets (en_labels en) en = Inr en1" "add_constants cx (en_pool en) (pad_to 16 en1) = Inr en2"
    "finish_code identity cx (tm_architecture (mf_target f)) ls en2 = Inr cf"
    using finish_function_parts [OF assms(3)] by blast
  have len: "length (en_bytes en1) = length (en_bytes en)"
    using fix_labels_patches [OF e(1)] buffer.patches_len [OF label_patches_fit(1) [OF ok], of offsets] by simp
  have n: "length (en_bytes en) \<le> length (en_bytes (pad_to 16 en1))" using len by (simp add: pad_to_def)
  have "fields_within 0 (length (en_bytes en)) (pool_fields (en_pool en))"
    using fields_within_part [OF engine_fields_split [OF ok]] by blast
  moreover have "list_all (\<lambda>r. px_next r \<le> length (en_bytes (pad_to 16 en1))) (en_pool en)"
    using ok n by (auto simp: engine_ok_def list_all_iff intro: order_trans)
  ultimately obtain c :: pool_entry where "c \<in> set (en_constants en2)" "pool_entry_ok en2 r c"
    using add_constants_entry [OF e(2) _ n _ assms(4)] by blast
  then show ?thesis
    by (intro exI [of _ c]) (auto simp: finish_code_fields [OF e(3)] pool_entry_ok_def split: option.splits)
qed

end
