(* ===== verification/X86Listing.thy ===== *)
theory X86Listing
  imports X86Layout
begin

text \<open>
  The body the x86 encoder lays out has a listing: every label stands where the listing places it, every word of
  every instruction has its span, and each label, switch entry or pool constant that a word refers to is recorded
  with the place of its field and the end of its word.
\<close>

section \<open>Words\<close>

type_synonym x86_word = "encoding_operation list \<times> nat \<times> nat"

text \<open>The span of a word is as long as its prefixes, opcode and address bytes, displacement, immediate and table field.\<close>

definition word_encoded :: "encode_context \<Rightarrow> operand list \<Rightarrow> x86_word \<Rightarrow> bool" where
  "word_encoded cx ops = (\<lambda>(fs, s, e). \<exists>t wd. apply_fields cx t ops fs no_fields = Inr wd \<and>
     e = s + length (word_head wd) + (case wf_disp_size wd of None \<Rightarrow> 0 | Some n \<Rightarrow> n) + trailing_bytes fs)"

definition recorded_label :: "engine \<Rightarrow> operand list \<Rightarrow> x86_word \<Rightarrow> encoding_operation \<Rightarrow> bool" where
  "recorded_label en ops = (\<lambda>(fs, s, e) (k, n). label_operation (k, n) \<longrightarrow> (\<exists>l p. operand_label ops n = Some l \<and>
     s < p \<and> p + label_bytes k + trailing_bytes fs = e \<and>
     \<lparr>lf_label = l, lf_offset = p, lf_next = e, lf_size = label_bytes k, lf_operand = n\<rparr> \<in> set (en_labels en)))"

definition recorded_pool :: "engine \<Rightarrow> operand list \<Rightarrow> x86_word \<Rightarrow> encoding_operation \<Rightarrow> bool" where
  "recorded_pool en ops = (\<lambda>(fs, s, e) f. pool_operation f \<longrightarrow> (\<exists>v p. pool_value ops f = Some v \<and>
     s < p \<and> p + 4 + trailing_bytes fs = e \<and>
     \<lparr>px_value = v, px_offset = p, px_next = e, px_call = (fst f = EK_CallPointer)\<rparr> \<in> set (en_pool en)))"

definition word_recorded :: "engine \<Rightarrow> operand list \<Rightarrow> x86_word \<Rightarrow> bool" where
  "word_recorded en ops w \<longleftrightarrow> list_all (recorded_label en ops w) (fst w) \<and> list_all (recorded_pool en ops w) (fst w)"

text \<open>Records are only added.\<close>

definition more_records :: "engine \<Rightarrow> engine \<Rightarrow> bool" where
  "more_records en en' \<longleftrightarrow> set (en_labels en) \<subseteq> set (en_labels en') \<and> set (en_pool en) \<subseteq> set (en_pool en')"

lemma more_records_refl [simp]: "more_records en en"
  by (simp add: more_records_def)

lemma more_records_trans: "more_records a b \<Longrightarrow> more_records b c \<Longrightarrow> more_records a c"
  by (auto simp: more_records_def)

lemma more_records_appends: "appends en en' \<Longrightarrow> more_records en en'"
  by (simp add: more_records_def appends_def)

lemma word_recorded_mono: "word_recorded en ops w \<Longrightarrow> more_records en en' \<Longrightarrow> word_recorded en' ops w"
  unfolding word_recorded_def recorded_label_def recorded_pool_def more_records_def list_all_iff
  by (cases w) (fastforce split: prod.splits)

lemma emit_immediate_length: "emit_immediate cx wd en = Inr en' \<Longrightarrow> length (en_bytes en') = length (en_bytes en) + immediate_of wd"
  by (auto simp: emit_immediate_def rbind_eq_Inr emit_bytes_def add_relocation_def immediate_of_def split: option.splits if_splits)

lemma emit_word_engine:
  assumes "emit_word cx maximum wd (t, en) = Inr (t', en')"
  shows "\<exists>im. appends en im \<and> en' = word_fixups wd (length (en_bytes en) + length (word_head wd)) im \<and>
    length (en_bytes im) = length (en_bytes en) + length (word_head wd) + (case wf_disp_size wd of None \<Rightarrow> 0 | Some n \<Rightarrow> n) +
      immediate_of wd + (if wf_table wd then 4 else 0) \<and>
    t' = (if wf_table wd then Some (length (en_bytes im) - 4) else t) \<and> wf_opcode wd \<noteq> []"
proof -
  define head where "head = en\<lparr>en_bytes := en_bytes en @ word_head wd\<rparr>"
  define disp where "disp = (case wf_disp_size wd of Some sz \<Rightarrow> emit_bytes (wf_disp wd) sz head | None \<Rightarrow> head)"
  from assms obtain im where im: "emit_immediate cx wd disp = Inr im" and op: "wf_opcode wd \<noteq> []"
    and e: "(t', en') = ((if wf_table wd then Some (length (en_bytes im)) else t),
        word_fixups wd (length (en_bytes head)) (if wf_table wd then emit_bytes 0 4 im else im))"
    unfolding emit_word_def Let_def prod.case head_def [symmetric] disp_def [symmetric]
    by (auto simp: rbind_eq_Inr split: if_splits)
  have "appends en head" by (simp add: appends_def head_def)
  moreover have "appends head disp" by (simp add: disp_def split: option.split)
  moreover have "appends disp im" by (rule appends_immediate [OF im])
  ultimately have a: "appends en im" by (blast intro: appends_trans)
  have l: "length (en_bytes im) = length (en_bytes en) + length (word_head wd) + (case wf_disp_size wd of None \<Rightarrow> 0 | Some n \<Rightarrow> n) + immediate_of wd"
    using emit_immediate_length [OF im] by (simp add: disp_def head_def emit_bytes_def split: option.splits)
  have "appends im (emit_bytes 0 4 im)" by simp
  then show ?thesis
    using e a l op
    by (intro exI [of _ "if wf_table wd then emit_bytes 0 4 im else im"])
      (auto simp: head_def emit_bytes_def intro: appends_trans [unfolded emit_bytes_def])
qed

lemma word_head_pos: "wf_opcode wd \<noteq> [] \<Longrightarrow> 0 < length (word_head wd)"
proof -
  assume "wf_opcode wd \<noteq> []"
  then obtain b bs where "wf_opcode wd = b # bs" by (cases "wf_opcode wd") auto
  then show ?thesis by (simp add: word_head_def opcode_bytes_def upt_rec)
qed

lemma emit_word_listed:
  assumes "apply_fields cx t0 ops fs no_fields = Inr wd" "one_displacement fs" "emit_word cx maximum wd (t, en) = Inr (t', en')"
  shows "length (en_bytes en) < length (en_bytes en')" "more_records en en'"
    "word_encoded cx ops (fs, length (en_bytes en), length (en_bytes en'))"
    "word_recorded en' ops (fs, length (en_bytes en), length (en_bytes en'))"
    "t' = (if has_table fs then Some (length (en_bytes en') - 4) else t)"
proof -
  obtain im where im: "appends en im" "en' = word_fixups wd (length (en_bytes en) + length (word_head wd)) im"
    "length (en_bytes im) = length (en_bytes en) + length (word_head wd) + (case wf_disp_size wd of None \<Rightarrow> 0 | Some n \<Rightarrow> n) +
      immediate_of wd + (if wf_table wd then 4 else 0)"
    "t' = (if wf_table wd then Some (length (en_bytes im) - 4) else t)" "wf_opcode wd \<noteq> []"
    using emit_word_engine [OF assms(3)] by blast
  have trail: "immediate_of wd + (if wf_table wd then 4 else 0) = trailing_bytes fs" "wf_table wd = has_table fs"
    using apply_fields_trailing [OF assms(1)] by (simp_all add: trailing_bytes_def no_fields_def immediate_of_def)
  have b: "en_bytes en' = en_bytes im" by (simp add: im(2) word_fixups_def Let_def)
  have len: "length (en_bytes en') = length (en_bytes en) + length (word_head wd) + (case wf_disp_size wd of None \<Rightarrow> 0 | Some n \<Rightarrow> n) +
      trailing_bytes fs"
    using im(3) trail b by simp
  note pos = word_head_pos [OF im(5)]
  show "length (en_bytes en) < length (en_bytes en')" using len pos by simp
  show "more_records en en'"
    using more_records_appends [OF im(1)] by (auto simp: im(2) word_fixups_def Let_def more_records_def)
  show "word_encoded cx ops (fs, length (en_bytes en), length (en_bytes en'))"
    using assms(1) len by (auto simp: word_encoded_def)
  show "t' = (if has_table fs then Some (length (en_bytes en') - 4) else t)" using im(4) trail(2) b by simp
  have "recorded_label en' ops (fs, length (en_bytes en), length (en_bytes en')) (k, n)" if "(k, n) \<in> set fs" for k n
  proof -
    note w = word_displacement(1) [OF assms(1,2) that]
    show ?thesis unfolding recorded_label_def prod.case
    proof
      assume l: "label_operation (k, n)"
      then obtain l where "operand_label ops n = Some l" "wf_label wd = Some l" using w by blast
      then show "\<exists>l p. operand_label ops n = Some l \<and> length (en_bytes en) < p \<and> p + label_bytes k + trailing_bytes fs = length (en_bytes en') \<and>
          \<lparr>lf_label = l, lf_offset = p, lf_next = length (en_bytes en'), lf_size = label_bytes k, lf_operand = n\<rparr> \<in> set (en_labels en')"
        using w [OF l] len pos b
        by (intro exI [of _ l] exI [of _ "length (en_bytes en) + length (word_head wd)"]) (auto simp: im(2) word_fixups_def Let_def)
    qed
  qed
  moreover have "recorded_pool en' ops (fs, length (en_bytes en), length (en_bytes en')) (k, n)" if "(k, n) \<in> set fs" for k n
  proof -
    note w = word_displacement(2) [OF assms(1,2) that]
    show ?thesis unfolding recorded_pool_def prod.case
    proof
      assume p: "pool_operation (k, n)"
      then obtain v where "pool_value ops (k, n) = Some v" "wf_constant wd = Some v" using w by blast
      then show "\<exists>v p. pool_value ops (k, n) = Some v \<and> length (en_bytes en) < p \<and> p + 4 + trailing_bytes fs = length (en_bytes en') \<and>
          \<lparr>px_value = v, px_offset = p, px_next = length (en_bytes en'), px_call = (fst (k, n) = EK_CallPointer)\<rparr> \<in> set (en_pool en')"
        using w [OF p] len pos b
        by (intro exI [of _ v] exI [of _ "length (en_bytes en) + length (word_head wd)"]) (auto simp: im(2) word_fixups_def Let_def)
    qed
  qed
  ultimately show "word_recorded en' ops (fs, length (en_bytes en), length (en_bytes en'))"
    by (auto simp: word_recorded_def list_all_iff)
qed

section \<open>Instructions\<close>

lemma encode_words_listed:
  assumes "encode_words cx ops r rws (t, en) = Inr (t', en')" "list_all (\<lambda>w. one_displacement (word_operations r w)) rws"
  shows "\<exists>ws. map fst ws = map (word_operations r) rws \<and> contiguous (length (en_bytes en)) ws \<and>
    words_end (length (en_bytes en)) ws = length (en_bytes en') \<and> list_all (word_encoded cx ops) ws \<and>
    list_all (word_recorded en' ops) ws \<and> more_records en en' \<and> length (en_bytes en) \<le> length (en_bytes en') \<and>
    (t' \<noteq> None \<longleftrightarrow> t \<noteq> None \<or> list_ex (\<lambda>w. has_table (fst w)) ws)"
  using assms
proof (induction rws arbitrary: t en)
  case Nil
  then show ?case by (intro exI [of _ "[]"]) simp
next
  case (Cons w rws)
  let ?fs = "word_operations r w" and ?L = "length (en_bytes en)"
  obtain wd t1 en1 where a: "apply_fields cx t ops ?fs no_fields = Inr wd"
    and e: "emit_word cx (ew_maximum w) wd (t, en) = Inr (t1, en1)" and r: "encode_words cx ops r rws (t1, en1) = Inr (t', en')"
    using Cons.prems(1) by (auto simp: rbind_eq_Inr)
  have one: "one_displacement ?fs" "list_all (\<lambda>w. one_displacement (word_operations r w)) rws" using Cons.prems(2) by simp_all
  note w = emit_word_listed [OF a one(1) e]
  obtain ws where ws: "map fst ws = map (word_operations r) rws" "contiguous (length (en_bytes en1)) ws"
    "words_end (length (en_bytes en1)) ws = length (en_bytes en')" "list_all (word_encoded cx ops) ws"
    "list_all (word_recorded en' ops) ws" "more_records en1 en'" "length (en_bytes en1) \<le> length (en_bytes en')"
    "t' \<noteq> None \<longleftrightarrow> t1 \<noteq> None \<or> list_ex (\<lambda>w. has_table (fst w)) ws"
    using Cons.IH [OF r one(2)] by (elim exE conjE) (rule that; assumption)
  show ?case
  proof (intro exI conjI)
    show "list_all (word_recorded en' ops) ((?fs, ?L, length (en_bytes en1)) # ws)"
      using word_recorded_mono [OF w(4) ws(6)] ws(5) by simp
    show "more_records en en'" by (rule more_records_trans [OF w(2) ws(6)])
    show "(t' \<noteq> None) = (t \<noteq> None \<or> list_ex (\<lambda>w. has_table (fst w)) ((?fs, ?L, length (en_bytes en1)) # ws))"
      using w(5) ws(8) by simp
  qed (use w(1,3) ws(1-4,7) in simp_all)
qed

text \<open>The entries of a switch table.\<close>

definition entry_recorded :: "engine \<Rightarrow> operand list \<Rightarrow> nat \<Rightarrow> nat \<Rightarrow> bool" where
  "entry_recorded en ops t n \<longleftrightarrow> (\<exists>l. operand_label ops n = Some l \<and>
     \<lparr>lf_label = l, lf_offset = t + 8 * (n - 1), lf_next = 0, lf_size = 8, lf_operand = n\<rparr> \<in> set (en_labels en))"

lemma entry_recorded_mono: "entry_recorded en ops t n \<Longrightarrow> more_records en en' \<Longrightarrow> entry_recorded en' ops t n"
  by (auto simp: entry_recorded_def more_records_def)

lemma switch_targets_listed:
  "switch_targets cx n ops en = Inr en' \<Longrightarrow>
    more_records en en' \<and> length (en_bytes en') = length (en_bytes en) + 8 * length ops \<and>
    (\<forall>k<length ops. \<exists>l. as_label (ops ! k) = Some l \<and>
      \<lparr>lf_label = l, lf_offset = length (en_bytes en) + 8 * k, lf_next = 0, lf_size = 8, lf_operand = n + k\<rparr> \<in> set (en_labels en'))"
proof (induction ops arbitrary: n en)
  case (Cons o1 ops)
  then obtain l where l: "as_label o1 = Some l" by (auto split: option.splits)
  let ?r = "\<lparr>lf_label = l, lf_offset = length (en_bytes en), lf_next = 0, lf_size = 8, lf_operand = n\<rparr>"
  let ?e = "emit_bytes 0 8 (en\<lparr>en_labels := en_labels en @ [?r]\<rparr>)"
  have s: "switch_targets cx (n + 1) ops ?e = Inr en'" using Cons.prems l by simp
  have e: "length (en_bytes ?e) = length (en_bytes en) + 8" "set (en_labels ?e) = insert ?r (set (en_labels en))" "en_pool ?e = en_pool en"
    by (simp_all add: emit_bytes_def)
  note IH = Cons.IH [OF s]
  have "\<exists>l. as_label ((o1 # ops) ! k) = Some l \<and>
      \<lparr>lf_label = l, lf_offset = length (en_bytes en) + 8 * k, lf_next = 0, lf_size = 8, lf_operand = n + k\<rparr> \<in> set (en_labels en')"
    if "k < length (o1 # ops)" for k
  proof (cases k)
    case 0
    have "?r \<in> set (en_labels en')" using IH e(2) by (auto simp: more_records_def)
    then show ?thesis using 0 l by simp
  next
    case (Suc j)
    then show ?thesis using IH that e(1) by (auto simp: algebra_simps)
  qed
  then show ?case using IH e by (auto simp: more_records_def)
qed simp

lemma encode_switch_listed:
  assumes "encode_switch cx at ops en = Inr en'" "at + 4 \<le> length (en_bytes en)"
  shows "more_records en en' \<and> length (en_bytes en') = round_up 8 (length (en_bytes en)) + 8 * (length ops - 1) \<and>
    list_all (entry_recorded en' ops (round_up 8 (length (en_bytes en)))) [1..<length ops]"
proof -
  let ?p = "pad_to 8 en" and ?T = "round_up 8 (length (en_bytes en))"
  obtain v where s: "switch_targets cx 1 (tl ops) (patch_bytes at v 4 ?p) = Inr en'"
    using assms(1) by (auto simp: encode_switch_def Let_def split: if_splits)
  have len: "length (en_bytes ?p) = ?T" using round_up_ge [of 8 "length (en_bytes en)"] by (simp add: pad_to_def)
  then have at: "at + 4 \<le> length (en_bytes ?p)" using assms(2) round_up_ge [of 8 "length (en_bytes en)"] by simp
  have patched: "length (en_bytes (patch_bytes at v 4 ?p)) = ?T" using at len by (simp add: patch_bytes_def)
  have m: "more_records en (patch_bytes at v 4 ?p)" by (simp add: more_records_def patch_bytes_def pad_to_def)
  note t = switch_targets_listed [OF s]
  have "entry_recorded en' ops ?T n" if "1 \<le> n" "n < length ops" for n
  proof -
    have "n - 1 < length (tl ops)" "tl ops ! (n - 1) = ops ! n" using that by (simp_all add: nth_tl)
    then show ?thesis using t that patched by (auto simp: entry_recorded_def operand_label_def)
  qed
  then show ?thesis using t m patched more_records_trans [OF m] by (auto simp: list_all_iff)
qed

definition item_recorded :: "engine \<Rightarrow> encoding_operation list item \<Rightarrow> bool" where
  "item_recorded en x = (case x of LabelItem l p \<Rightarrow> True
   | CodeItem i ops ws table \<Rightarrow> list_all (word_recorded en ops) ws \<and>
       (case table of None \<Rightarrow> True | Some t \<Rightarrow> list_all (entry_recorded en ops t) [1..<length ops]))"

lemma item_recorded_mono: "item_recorded en x \<Longrightarrow> more_records en en' \<Longrightarrow> item_recorded en' x"
  unfolding item_recorded_def list_all_iff
  by (cases x) (auto split: option.splits intro: word_recorded_mono entry_recorded_mono)

text \<open>What an instruction is encoded as: its operands normalized, its labels unchanged, the words of the recipe of a
  pattern selected for it, and a table exactly when a word asks for one.\<close>

definition item_encoded :: "encode_context \<Rightarrow> encoding_operation list item \<Rightarrow> bool" where
  "item_encoded cx x = (case x of LabelItem l p \<Rightarrow> True
   | CodeItem i ops ws table \<Rightarrow>
       map as_label ops = map as_label (mi_operands i) \<and>
       (\<exists>en en'. normalize_operands cx (mi_opcode i) (mi_lowered_call i) (mi_operands i) en = Inr (ops, en')) \<and>
       (\<exists>opts p r. select_pattern cx (mi_opcode i) ops opts = Some p \<and> x86_encoding_recipe (ec_recipes cx) p = Some r \<and>
          map fst ws = map (word_operations r) (er_words r)) \<and>
       list_all (word_encoded cx ops) ws \<and> (table \<noteq> None) = list_ex (\<lambda>w. has_table (fst w)) ws)"

lemma encode_instruction_listed:
  assumes "separate_context cx" "engine_ok en" "encode_instruction cx ops p en = Inr en'"
    and "map as_label ops = map as_label (mi_operands i)"
    and "normalize_operands cx (mi_opcode i) (mi_lowered_call i) (mi_operands i) en0 = Inr (ops, en1)"
    and "select_pattern cx (mi_opcode i) ops opts = Some p"
  shows "\<exists>x. item_source x = Inr i \<and> item_encoded cx x \<and> item_recorded en' x \<and> item_laid aligned (length (en_bytes en)) x \<and>
    item_end (length (en_bytes en)) x = length (en_bytes en') \<and> more_records en en'"
proof -
  let ?L = "length (en_bytes en)"
  obtain r t en2 where r: "x86_encoding_recipe (ec_recipes cx) p = Some r" "encode_words cx ops r (er_words r) (None, en) = Inr (t, en2)"
    and e: "(case t of None \<Rightarrow> Inr en2 | Some at \<Rightarrow> encode_switch cx at ops en2) = Inr en'"
    using assms(3) by (auto simp: encode_instruction_def rbind_eq_Inr split: option.splits)
  note one = separate_words [OF assms(1) r(1)]
  have table: "t = None \<or> the t + 4 \<le> length (en_bytes en2)"
    using encode_words_ok [OF assms(2) r(2) one] by simp
  obtain ws where ws: "map fst ws = map (word_operations r) (er_words r)" "contiguous ?L ws" "words_end ?L ws = length (en_bytes en2)"
    "list_all (word_encoded cx ops) ws" "list_all (word_recorded en2 ops) ws" "more_records en en2"
    "t \<noteq> None \<longleftrightarrow> list_ex (\<lambda>w. has_table (fst w)) ws"
    using encode_words_listed [OF r(2) one] by auto
  let ?table = "map_option (\<lambda>_. round_up 8 (length (en_bytes en2))) t"
  have s: "more_records en2 en' \<and> item_end ?L (CodeItem i ops ws ?table) = length (en_bytes en') \<and>
      (case ?table of None \<Rightarrow> True | Some t \<Rightarrow> list_all (entry_recorded en' ops t) [1..<length ops])"
    using e ws(3) table encode_switch_listed [of cx "the t" ops en2 en'] by (cases t) auto
  have "list_all (word_recorded en' ops) ws" using ws(5) s by (auto simp: list_all_iff intro: word_recorded_mono)
  then show ?thesis
    using ws s assms(4-6) r(1) more_records_trans [OF ws(6)]
    by (intro exI [of _ "CodeItem i ops ws ?table"]) (auto simp: item_encoded_def item_recorded_def split: option.splits)
qed

section \<open>The first pass\<close>

lemma normalize_symbols_labels: "normalize_symbols cx lowered n ops en = Inr (ops', en') \<Longrightarrow> map as_label ops' = map as_label ops"
  by (induction ops arbitrary: n en ops')
    (auto simp: rbind_eq_Inr symbolic_no_label split: if_splits, simp_all add: as_label_def)

lemma normalize_alloca_labels: "normalize_alloca cx c ops = Inr ops' \<Longrightarrow> map as_label ops' = map as_label ops"
  by (auto simp: normalize_alloca_def map_update as_label_def [of "UIntOp _"] list_update_same_conv dest: integer_no_label
      split: if_splits option.splits)

lemma normalize_labels: "normalize_operands cx c lowered ops en = Inr (ops', en') \<Longrightarrow> map as_label ops' = map as_label ops"
  by (auto simp: normalize_operands_def rbind_eq_Inr split: if_splits dest!: normalize_symbols_labels normalize_alloca_labels)

text \<open>A prepared instruction belongs to its machine instruction.\<close>

definition prepares :: "encode_context \<Rightarrow> machine_instruction \<Rightarrow> prepared \<Rightarrow> bool" where
  "prepares cx i p \<longleftrightarrow> pp_opcode p = mi_opcode i \<and>
     (\<exists>en en'. normalize_operands cx (mi_opcode i) (mi_lowered_call i) (mi_operands i) en = Inr (pp_operands p, en')) \<and>
     select_pattern cx (mi_opcode i) (pp_operands p) (long_options (mi_shape i)) = Some (pp_pattern p)"

lemma estimate_instruction_prepares:
  assumes "estimate_instruction cx i st = Inr st1" "mi_opcode i \<noteq> Pseudo PseudoUse"
  shows "\<exists>p. ls_prepared st1 = ls_prepared st @ [p] \<and> prepares cx i p \<and> ls_offsets st1 = ls_offsets st"
proof -
  obtain ops en where n: "normalize_operands cx (mi_opcode i) (mi_lowered_call i) (mi_operands i) (ls_engine st) = Inr (ops, en)"
    using assms by (auto simp: estimate_instruction_def rbind_eq_Inr)
  then obtain p where p: "select_pattern cx (mi_opcode i) ops (long_options (mi_shape i)) = Some p"
    using assms by (auto simp: estimate_instruction_def split: option.splits)
  then show ?thesis
    using assms n
    by (intro exI [of _ "\<lparr>pp_opcode = mi_opcode i, pp_operands = ops, pp_pattern = p\<rparr>"])
      (auto simp: estimate_instruction_def Let_def prepares_def split: if_splits)
qed

lemma estimate_instructions_prepares:
  "estimate_instructions cx is st = Inr st' \<Longrightarrow>
    \<exists>ps. ls_prepared st' = ls_prepared st @ ps \<and> list_all2 (prepares cx) (coded is) ps \<and> ls_offsets st' = ls_offsets st"
proof (induction "is" arbitrary: st)
  case (Cons i "is")
  then obtain st1 where i: "estimate_instruction cx i st = Inr st1" "estimate_instructions cx is st1 = Inr st'"
    by (auto simp: rbind_eq_Inr)
  obtain ps where ps: "ls_prepared st' = ls_prepared st1 @ ps" "list_all2 (prepares cx) (coded is) ps" "ls_offsets st' = ls_offsets st1"
    using Cons.IH [OF i(2)] by blast
  show ?case
  proof (cases "mi_opcode i = Pseudo PseudoUse")
    case True
    then show ?thesis using i(1) ps by (auto simp: estimate_instruction_def)
  next
    case False
    then obtain p where "ls_prepared st1 = ls_prepared st @ [p]" "prepares cx i p" "ls_offsets st1 = ls_offsets st"
      using estimate_instruction_prepares [OF i(1)] by blast
    then show ?thesis using ps False by (intro exI [of _ "p # ps"]) simp
  qed
qed simp

lemma estimate_labels_offsets:
  "ls_prepared (estimate_labels aligned ls st) = ls_prepared st \<and> dom (ls_offsets (estimate_labels aligned ls st)) \<subseteq> dom (ls_offsets st) \<union> set ls"
proof (induction ls arbitrary: st)
  case (Cons l ls)
  show ?case
    using Cons [of "st\<lparr>ls_estimate := ls_estimate st + (if l \<in> set aligned then 8 else 0),
        ls_offsets := (if ls_offsets st l = None then (ls_offsets st)(l \<mapsto> ls_estimate st + (if l \<in> set aligned then 8 else 0)) else ls_offsets st)\<rparr>"]
    by (auto simp: Let_def split: if_splits)
qed simp

lemma estimate_blocks_prepares:
  "estimate_blocks cx aligned bs st = Inr st' \<Longrightarrow>
    \<exists>ps. ls_prepared st' = ls_prepared st @ ps \<and> list_all2 (prepares cx) (concat (map (\<lambda>b. coded (mb_instructions b)) bs)) ps \<and>
      dom (ls_offsets st') \<subseteq> dom (ls_offsets st) \<union> (\<Union>b\<in>set bs. set (mb_labels b))"
proof (induction bs arbitrary: st)
  case (Cons b bs)
  let ?st = "estimate_labels aligned (mb_labels b) st"
  obtain st1 where b: "estimate_instructions cx (mb_instructions b) ?st = Inr st1" "estimate_blocks cx aligned bs st1 = Inr st'"
    using Cons.prems by (auto simp: rbind_eq_Inr)
  obtain ps where ps: "ls_prepared st1 = ls_prepared ?st @ ps" "list_all2 (prepares cx) (coded (mb_instructions b)) ps"
    "ls_offsets st1 = ls_offsets ?st"
    using estimate_instructions_prepares [OF b(1)] by blast
  obtain qs where qs: "ls_prepared st' = ls_prepared st1 @ qs" "list_all2 (prepares cx) (concat (map (\<lambda>b. coded (mb_instructions b)) bs)) qs"
    "dom (ls_offsets st') \<subseteq> dom (ls_offsets st1) \<union> (\<Union>b\<in>set bs. set (mb_labels b))"
    using Cons.IH [OF b(2)] by blast
  have l: "ls_prepared ?st = ls_prepared st" "dom (ls_offsets ?st) \<subseteq> dom (ls_offsets st) \<union> set (mb_labels b)"
    using estimate_labels_offsets by blast+
  show ?case
  proof (intro exI conjI)
    show "ls_prepared st' = ls_prepared st @ (ps @ qs)" using ps(1) qs(1) l(1) by simp
    show "list_all2 (prepares cx) (concat (map (\<lambda>b. coded (mb_instructions b)) (b # bs))) (ps @ qs)"
      using ps(2) qs(2) by (simp add: list_all2_appendI)
    show "dom (ls_offsets st') \<subseteq> dom (ls_offsets st) \<union> (\<Union>b\<in>set (b # bs). set (mb_labels b))"
      using qs(3) ps(3) l(2) by auto
  qed
qed simp

section \<open>The second pass\<close>

text \<open>What a stretch of the body that holds a list of items has.\<close>

definition stretch :: "encode_context \<Rightarrow> nat list \<Rightarrow> engine \<Rightarrow> encoding_operation list item list \<Rightarrow> engine \<Rightarrow> bool" where
  "stretch cx aligned en xs en' \<longleftrightarrow> items_laid aligned (length (en_bytes en)) xs \<and> items_end (length (en_bytes en)) xs = length (en_bytes en') \<and>
     list_all (item_encoded cx) xs \<and> list_all (item_recorded en') xs \<and> more_records en en'"

lemma stretch_Nil [simp]: "stretch cx aligned en [] en"
  by (simp add: stretch_def)

lemma stretch_append:
  assumes "stretch cx aligned en xs en1" "stretch cx aligned en1 ys en2"
  shows "stretch cx aligned en (xs @ ys) en2"
  using assms item_recorded_mono [of en1 _ en2] more_records_trans [of en en1 en2]
  by (auto simp: stretch_def items_laid_append list_all_iff)

lemma align_loop_length: "length (en_bytes (align_loop en)) = round_up 8 (length (en_bytes en))"
proof -
  define n where "n = length (en_bytes en)"
  have nop: "length (nops ! k) = k" if "k < 8" for k :: nat
  proof -
    have "k = 0 \<or> k = 1 \<or> k = 2 \<or> k = 3 \<or> k = 4 \<or> k = 5 \<or> k = 6 \<or> k = 7" using that by linarith
    then show ?thesis by (elim disjE) (simp_all add: nops_def)
  qed
  have k: "(8 - n mod 8) mod 8 < 8" by simp
  have "round_up 8 n = n + (8 - n mod 8) mod 8"
  proof (cases "n mod 8 = 0")
    case True
    then show ?thesis by (simp add: dvd_eq_mod_eq_0)
  next
    case False
    define q r where "q = n div 8" and "r = n mod 8"
    have n: "n = 8 * q + r" "0 < r" "r < 8" using False by (simp_all add: q_def r_def)
    have "(r + 7) div 8 = 1" by (rule div_nat_eqI) (use n(2,3) in simp_all)
    then have "(n + 7) div 8 = q + 1" using div_mult_self2 [of 8 "r + 7" q] by (simp add: n(1) algebra_simps)
    moreover have "(8 - n mod 8) mod 8 = 8 - r" using n(2,3) by (simp add: r_def [symmetric])
    ultimately show ?thesis using n by (simp add: round_up_def)
  qed
  then show ?thesis using nop [OF k] by (simp add: align_loop_def Let_def n_def)
qed

lemma emit_labels_listed:
  "emit_labels aligned ls (offsets, en) = (offsets', en') \<Longrightarrow>
    \<exists>xs. map item_source xs = map Inl ls \<and> stretch cx aligned en xs en' \<and> offsets' = offsets ++ map_of (rev (listed_labels xs))"
proof (induction ls arbitrary: offsets en)
  case (Cons l ls)
  let ?e = "if l \<in> set aligned then align_loop en else en"
  let ?x = "LabelItem l (length (en_bytes ?e)) :: encoding_operation list item"
  have "emit_labels aligned ls (offsets(l \<mapsto> length (en_bytes ?e)), ?e) = (offsets', en')"
    using Cons.prems by (simp only: emit_labels.simps Let_def)
  from Cons.IH [OF this] obtain xs where xs: "map item_source xs = map Inl ls" "stretch cx aligned ?e xs en'"
    "offsets' = offsets(l \<mapsto> length (en_bytes ?e)) ++ map_of (rev (listed_labels xs))"
    by blast
  have "stretch cx aligned en [?x] ?e"
    by (simp add: stretch_def item_encoded_def item_recorded_def align_loop_length) (simp add: more_records_def align_loop_def Let_def)
  then have "stretch cx aligned en ([?x] @ xs) en'" using xs(2) by (rule stretch_append)
  moreover have "offsets(l \<mapsto> p) ++ map_of (rev ys) = offsets ++ map_of (rev ((l, p) # ys))" for p ys
    by (auto simp: fun_eq_iff map_add_def map_of_append split: option.splits)
  ultimately show ?case using xs(1,3) by (intro exI [of _ "?x # xs"]) simp
qed (auto intro!: exI [of _ "[]"])

lemma emit_instructions_listed:
  assumes "separate_context cx"
  shows "emit_instructions cx is (ps @ qs, offsets, en) = Inr (rest, offsets', en') \<Longrightarrow> list_all2 (prepares cx) (coded is) ps \<Longrightarrow> engine_ok en \<Longrightarrow>
    rest = qs \<and> offsets' = offsets \<and> (\<exists>xs. map item_source xs = map Inr (coded is) \<and> stretch cx aligned en xs en' \<and> listed_labels xs = [])"
proof (induction "is" arbitrary: ps en)
  case Nil
  then show ?case by (auto intro!: exI [of _ "[]"])
next
  case (Cons i "is")
  show ?case
  proof (cases "mi_opcode i = Pseudo PseudoUse")
    case True
    then show ?thesis using Cons by simp
  next
    case False
    then obtain p ps' where ps: "ps = p # ps'" "prepares cx i p" "list_all2 (prepares cx) (coded is) ps'"
      using Cons.prems(2) by (auto simp: list_all2_Cons1)
    obtain k en1 where k: "branch_pattern cx p offsets en = Inr k" "encode_instruction cx (pp_operands p) k en = Inr en1"
      "emit_instructions cx is (ps' @ qs, offsets, en1) = Inr (rest, offsets', en')"
      using Cons.prems(1) False by (auto simp: ps(1) rbind_eq_Inr)
    obtain opts where opts: "select_pattern cx (mi_opcode i) (pp_operands p) opts = Some k"
      using k(1) ps(2) by (auto simp: branch_pattern_def prepares_def out_of_range_def split: if_splits option.splits)
    obtain en0 en2 where n: "normalize_operands cx (mi_opcode i) (mi_lowered_call i) (mi_operands i) en0 = Inr (pp_operands p, en2)"
      using ps(2) by (auto simp: prepares_def)
    obtain x where x: "item_source x = Inr i" "item_encoded cx x" "item_recorded en1 x" "item_laid aligned (length (en_bytes en)) x"
      "item_end (length (en_bytes en)) x = length (en_bytes en1)" "more_records en en1"
      using encode_instruction_listed [OF assms Cons.prems(3) k(2) normalize_labels [OF n] n opts] by blast
    have ok: "engine_ok en1" by (rule encode_instruction_ok [OF assms Cons.prems(3) k(2)])
    obtain xs where xs: "rest = qs" "offsets' = offsets" "map item_source xs = map Inr (coded is)" "stretch cx aligned en1 xs en'" "listed_labels xs = []"
      using Cons.IH [OF k(3) ps(3) ok] by blast
    have "stretch cx aligned en [x] en1" using x by (simp add: stretch_def)
    then have "stretch cx aligned en ([x] @ xs) en'" using xs(4) by (rule stretch_append)
    moreover have "listed_labels (x # xs) = []" using x(1) xs(5) by (cases x) simp_all
    ultimately show ?thesis using x(1) xs False by (intro conjI exI [of _ "x # xs"]) simp_all
  qed
qed

lemma emit_blocks_listed:
  assumes "separate_context cx"
  shows "emit_blocks cx aligned bs (ps, offsets, en) = Inr (rest, offsets', en') \<Longrightarrow>
    list_all2 (prepares cx) (concat (map (\<lambda>b. coded (mb_instructions b)) bs)) ps \<Longrightarrow> engine_ok en \<Longrightarrow>
    \<exists>xs. map item_source xs = body_source bs \<and> stretch cx aligned en xs en' \<and> offsets' = offsets ++ map_of (rev (listed_labels xs))"
proof (induction bs arbitrary: ps offsets en)
  case Nil
  then show ?case by (auto intro!: exI [of _ "[]"])
next
  case (Cons b bs)
  obtain o1 e1 where l: "emit_labels aligned (mb_labels b) (offsets, en) = (o1, e1)" by (metis surj_pair)
  obtain ps1 ps2 where ps: "ps = ps1 @ ps2" "list_all2 (prepares cx) (coded (mb_instructions b)) ps1"
    "list_all2 (prepares cx) (concat (map (\<lambda>b. coded (mb_instructions b)) bs)) ps2"
    using Cons.prems(2) by (auto simp: list_all2_append1)
  obtain ps3 o2 e2 where i: "emit_instructions cx (mb_instructions b) (ps1 @ ps2, o1, e1) = Inr (ps3, o2, e2)"
    and r: "emit_blocks cx aligned bs (ps3, o2, e2) = Inr (rest, offsets', en')"
    using Cons.prems(1) by (auto simp: rbind_eq_Inr l ps(1))
  have ok1: "engine_ok e1" using emit_labels_ok [of "(offsets, en)" aligned "mb_labels b"] Cons.prems(3) by (simp add: l)
  have ok2: "engine_ok e2" using emit_instructions_ok [OF assms i ok1] by blast
  obtain xs where xs: "map item_source xs = map Inl (mb_labels b)" "stretch cx aligned en xs e1" "o1 = offsets ++ map_of (rev (listed_labels xs))"
    using emit_labels_listed [OF l] by blast
  obtain ys where ys: "ps3 = ps2" "o2 = o1" "map item_source ys = map Inr (coded (mb_instructions b))" "stretch cx aligned e1 ys e2" "listed_labels ys = []"
    using emit_instructions_listed [OF assms i ps(2) ok1] by blast
  obtain zs where zs: "map item_source zs = body_source bs" "stretch cx aligned e2 zs en'" "offsets' = o2 ++ map_of (rev (listed_labels zs))"
    using Cons.IH [OF r _ ok2] ps(3) ys(1) by blast
  show ?case
  proof (intro exI conjI)
    show "map item_source (xs @ ys @ zs) = body_source (b # bs)" using xs(1) ys(3) zs(1) by simp
    show "stretch cx aligned en (xs @ ys @ zs) en'" by (rule stretch_append [OF xs(2) stretch_append [OF ys(4) zs(2)]])
    show "offsets' = offsets ++ map_of (rev (listed_labels (xs @ ys @ zs)))"
      using xs(3) ys(2,5) zs(3) by simp
  qed
qed

text \<open>The laid out body has a listing, which fixes the offset of every label.\<close>

lemma lay_out_listed:
  assumes "separate_context cx" "lay_out cx f aligned = Inr (offsets, en)"
  shows "\<exists>xs. lists_body aligned (mf_blocks f) (length (en_bytes en)) xs \<and> list_all (item_encoded cx) xs \<and>
    list_all (item_recorded en) xs \<and> offsets = map_of (rev (listed_labels xs))"
proof -
  obtain st ps where st: "estimate_blocks cx aligned (mf_blocks f)
      \<lparr>ls_estimate = 0, ls_offsets = Map.empty, ls_prepared = [], ls_engine = empty_engine\<rparr> = Inr st"
    and e: "emit_blocks cx aligned (mf_blocks f) (ls_prepared st, ls_offsets st, ls_engine st) = Inr (ps, offsets, en)"
    using assms(2) by (auto simp: lay_out_def rbind_eq_Inr)
  have same: "same_code empty_engine (ls_engine st)" using estimate_blocks_same [OF st] by simp
  then have ok: "engine_ok (ls_engine st)"
    using engine_ok_longer [OF engine_ok_empty, of "ls_engine st"] by (simp add: same_code_def)
  have p: "list_all2 (prepares cx) (concat (map (\<lambda>b. coded (mb_instructions b)) (mf_blocks f))) (ls_prepared st)"
    "dom (ls_offsets st) \<subseteq> (\<Union>b\<in>set (mf_blocks f). set (mb_labels b))"
    using estimate_blocks_prepares [OF st] by auto
  obtain xs where xs: "map item_source xs = body_source (mf_blocks f)" "stretch cx aligned (ls_engine st) xs en"
    "offsets = ls_offsets st ++ map_of (rev (listed_labels xs))"
    using emit_blocks_listed [OF assms(1) e p(1) ok] by blast
  have "dom (ls_offsets st) \<subseteq> dom (map_of (rev (listed_labels xs)))"
  proof
    fix l assume "l \<in> dom (ls_offsets st)"
    then have "Inl l \<in> set (map item_source xs)" using p(2) xs(1) source_label [of l "mf_blocks f"] by auto
    then have "l \<in> set (map fst (listed_labels xs))" using listed_source [of xs] by blast
    then show "l \<in> dom (map_of (rev (listed_labels xs)))" by (simp add: dom_map_of_conv_image_fst)
  qed
  then have "offsets = map_of (rev (listed_labels xs))" using xs(3) by (auto simp: fun_eq_iff map_add_def domIff split: option.splits)
  then show ?thesis
    using xs(1,2) same by (intro exI [of _ xs]) (simp add: stretch_def lists_body_def same_code_def empty_engine_def)
qed

section \<open>The finished artifact\<close>

text \<open>A word refers to a label: its displacement field, sign-extended and added to the end of the word, is the place of
  the label.  The field lies in front of the immediate.\<close>

definition label_reached :: "(nat \<rightharpoonup> nat) \<Rightarrow> (machine_symbol, builtin) compiled \<Rightarrow> operand list \<Rightarrow> x86_word \<Rightarrow> encoding_operation \<Rightarrow> bool" where
  "label_reached places cf ops = (\<lambda>(fs, s, e) (k, n). label_operation (k, n) \<longrightarrow>
     (\<exists>l place p. operand_label ops n = Some l \<and> places l = Some place \<and> s < p \<and> p + label_bytes k + trailing_bytes fs = e \<and>
       signed_field (cf_bytes cf) p (label_bytes k) + int e = int place))"

text \<open>An entry of a switch table holds the place of its label and is relocated to the address of the artifact.\<close>

definition entry_reached :: "(nat \<rightharpoonup> nat) \<Rightarrow> (machine_symbol, builtin) compiled \<Rightarrow> operand list \<Rightarrow> nat \<Rightarrow> nat \<Rightarrow> bool" where
  "entry_reached places cf ops t n \<longleftrightarrow> (\<exists>l place. operand_label ops n = Some l \<and> places l = Some place \<and>
     read_at (cf_bytes cf) (t + 8 * (n - 1)) 8 = of_nat place \<and> local_relocation (t + 8 * (n - 1)) \<in> set (cf_relocations cf))"

definition labels_reached :: "(nat \<rightharpoonup> nat) \<Rightarrow> (machine_symbol, builtin) compiled \<Rightarrow> encoding_operation list item \<Rightarrow> bool" where
  "labels_reached places cf x = (case x of LabelItem l p \<Rightarrow> True
   | CodeItem i ops ws table \<Rightarrow> list_all (\<lambda>w. list_all (label_reached places cf ops w) (fst w)) ws \<and>
       (case table of None \<Rightarrow> True | Some t \<Rightarrow> list_all (entry_reached places cf ops t) [1..<length ops]))"

text \<open>A word refers to the constant pool: its displacement field, added to the end of the word, is the offset of a
  cell behind the body that the artifact records for it; the cell holds the constant, or a relocation for its symbol.\<close>

definition cell_reached :: "(machine_symbol, builtin) compiled \<Rightarrow> operand list \<Rightarrow> x86_word \<Rightarrow> encoding_operation \<Rightarrow> bool" where
  "cell_reached cf ops = (\<lambda>(fs, s, e) f. pool_operation f \<longrightarrow>
     (\<exists>v p c. pool_value ops f = Some v \<and> s < p \<and> p + 4 + trailing_bytes fs = e \<and> c \<in> set (cf_constants cf) \<and>
       pool_reference c = p \<and> pool_next c = e \<and> pool_call c = (fst f = EK_CallPointer) \<and>
       signed_field (cf_bytes cf) p 4 + int e = int (pool_offset c) \<and>
       (case as_integer v of Some n \<Rightarrow> read_at (cf_bytes cf) (pool_offset c) 8 = n
        | None \<Rightarrow> is_symbolic v \<and> symbol_relocation v (pool_offset c) \<in> set (cf_relocations cf))))"

definition cells_reached :: "(machine_symbol, builtin) compiled \<Rightarrow> encoding_operation list item \<Rightarrow> bool" where
  "cells_reached cf x = (case x of LabelItem l p \<Rightarrow> True
   | CodeItem i ops ws table \<Rightarrow> list_all (\<lambda>w. list_all (cell_reached cf ops w) (fst w)) ws)"

lemma recorded_labels_reached:
  assumes "\<And>r. r \<in> set (en_labels en) \<Longrightarrow> label_fixed places cf r" "item_recorded en x"
  shows "labels_reached places cf x"
proof (cases x)
  case (CodeItem i ops ws table)
  have word: "label_reached places cf ops (fs, s, e) (k, n)" if r: "recorded_label en ops (fs, s, e) (k, n)" for fs s e k n
    unfolding label_reached_def prod.case
  proof
    assume "label_operation (k, n)"
    then obtain l p where l: "operand_label ops n = Some l" "s < p" "p + label_bytes k + trailing_bytes fs = e"
      "\<lparr>lf_label = l, lf_offset = p, lf_next = e, lf_size = label_bytes k, lf_operand = n\<rparr> \<in> set (en_labels en)"
      using r by (auto simp: recorded_label_def)
    have "label_bytes k \<noteq> 8" by (simp add: label_bytes_def)
    then obtain place where "places l = Some place" "signed_field (cf_bytes cf) p (label_bytes k) + int e = int place"
      using assms(1) [OF l(4)] by (auto simp: label_fixed_def split: option.splits)
    then show "\<exists>l place p. operand_label ops n = Some l \<and> places l = Some place \<and> s < p \<and> p + label_bytes k + trailing_bytes fs = e \<and>
        signed_field (cf_bytes cf) p (label_bytes k) + int e = int place"
      using l by blast
  qed
  have entry: "entry_reached places cf ops t n" if "entry_recorded en ops t n" for t n
    using that by (auto simp: entry_recorded_def entry_reached_def label_fixed_def dest!: assms(1) split: option.splits)
  show ?thesis
    using assms(2) word entry unfolding CodeItem labels_reached_def item_recorded_def word_recorded_def list_all_iff
    by (auto split: option.splits)
qed (simp add: labels_reached_def)

lemma recorded_cells_reached:
  assumes "\<And>r. r \<in> set (en_pool en) \<Longrightarrow> \<exists>c :: pool_entry. c \<in> set (cf_constants cf) \<and>
      pool_entry_ok \<lparr>en_bytes = cf_bytes cf, en_relocations = cf_relocations cf, en_constants = [], en_labels = [], en_pool = [], en_known = []\<rparr> r c"
    and "item_recorded en x"
  shows "cells_reached cf x"
proof (cases x)
  case (CodeItem i ops ws table)
  have word: "cell_reached cf ops (fs, s, e) f" if r: "recorded_pool en ops (fs, s, e) f" for fs s e f
    unfolding cell_reached_def prod.case
  proof
    assume "pool_operation f"
    then obtain v p where v: "pool_value ops f = Some v" "s < p" "p + 4 + trailing_bytes fs = e"
      "\<lparr>px_value = v, px_offset = p, px_next = e, px_call = (fst f = EK_CallPointer)\<rparr> \<in> set (en_pool en)"
      using r by (auto simp: recorded_pool_def)
    from assms(1) [OF v(4)] obtain c where c: "c \<in> set (cf_constants cf)"
      "pool_entry_ok \<lparr>en_bytes = cf_bytes cf, en_relocations = cf_relocations cf, en_constants = [], en_labels = [], en_pool = [], en_known = []\<rparr>
        \<lparr>px_value = v, px_offset = p, px_next = e, px_call = (fst f = EK_CallPointer)\<rparr> c"
      by blast
    show "\<exists>v p c. pool_value ops f = Some v \<and> s < p \<and> p + 4 + trailing_bytes fs = e \<and> c \<in> set (cf_constants cf) \<and>
        pool_reference c = p \<and> pool_next c = e \<and> pool_call c = (fst f = EK_CallPointer) \<and>
        signed_field (cf_bytes cf) p 4 + int e = int (pool_offset c) \<and>
        (case as_integer v of Some n \<Rightarrow> read_at (cf_bytes cf) (pool_offset c) 8 = n
         | None \<Rightarrow> is_symbolic v \<and> symbol_relocation v (pool_offset c) \<in> set (cf_relocations cf))"
      using v(1-3) c by (intro exI [of _ v] exI [of _ p] exI [of _ c]) (simp add: pool_entry_ok_def split: option.splits)
  qed
  show ?thesis
    using assms(2) word unfolding CodeItem cells_reached_def item_recorded_def word_recorded_def list_all_iff by fastforce
qed (simp add: cells_reached_def)

text \<open>The cells follow the body, sixteen bytes each.\<close>

lemma add_constants_cells:
  assumes "add_constants cx rs en = Inr en'" "list_all (\<lambda>r. px_offset r + 4 \<le> length (en_bytes en)) rs"
  shows "map pool_offset (en_constants en') = map pool_offset (en_constants en) @ map (\<lambda>k. length (en_bytes en) + 16 * k) [0..<length rs] \<and>
    length (en_bytes en') = length (en_bytes en) + 16 * length rs"
  using assms
proof (induction rs arbitrary: en)
  case (Cons r rs)
  then obtain en1 where a: "add_constant cx r en = Inr en1" "add_constants cx rs en1 = Inr en'" by (auto simp: rbind_eq_Inr)
  have e: "length (en_bytes en1) = length (en_bytes en) + 16"
    "map pool_offset (en_constants en1) = map pool_offset (en_constants en) @ [length (en_bytes en)]"
    using add_constant_effect [OF a(1)] Cons.prems(2) by auto
  have "list_all (\<lambda>r. px_offset r + 4 \<le> length (en_bytes en1)) rs" using Cons.prems(2) e(1) by (auto simp: list_all_iff)
  from Cons.IH [OF a(2) this] show ?case
    using e by (simp add: map_upt_Suc del: upt_Suc)
qed simp

lemma finished_cells:
  assumes "separate_context cx" "lay_out cx f aligned = Inr (offsets, en)" "finish_function identity cx f (offsets, en) = Inr cf"
  shows "map pool_offset (cf_constants cf) = map (\<lambda>k. round_up 16 (length (en_bytes en)) + 16 * k) [0..<length (cf_constants cf)] \<and>
    length (cf_bytes cf) = round_up 16 (length (en_bytes en)) + 16 * length (cf_constants cf)"
proof -
  have ok: "engine_ok en" by (rule lay_out_ok [OF assms(1,2)])
  obtain en1 en2 ls where e: "fix_labels cx offsets (en_labels en) en = Inr en1" "add_constants cx (en_pool en) (pad_to 16 en1) = Inr en2"
    "finish_code identity cx (tm_architecture (mf_target f)) ls en2 = Inr cf"
    using finish_function_parts [OF assms(3)] by blast
  have len: "length (en_bytes en1) = length (en_bytes en)" "en_constants en1 = []"
    using fix_labels_patches [OF e(1)] buffer.patches_len [OF label_patches_fit(1) [OF ok], of offsets] ok by (simp_all add: engine_ok_def)
  have pad: "length (en_bytes (pad_to 16 en1)) = round_up 16 (length (en_bytes en))" "en_constants (pad_to 16 en1) = []"
    using len round_up_ge [of 16 "length (en_bytes en)"] by (simp_all add: pad_to_def)
  have "px_offset r + 4 \<le> length (en_bytes (pad_to 16 en1))" if "r \<in> set (en_pool en)" for r
  proof -
    have "(px_offset r, px_offset r + 4) \<in> set (pool_fields (en_pool en))" using that by (simp add: pool_fields_def)
    then have "px_offset r + 4 \<le> length (en_bytes en)"
      using fields_withinD [OF conjunct2 [OF fields_within_part [OF engine_fields_split [OF ok]]]] by blast
    then show ?thesis using pad(1) round_up_ge [of 16 "length (en_bytes en)"] by simp
  qed
  then have cells: "map pool_offset (en_constants en2) = map (\<lambda>k. round_up 16 (length (en_bytes en)) + 16 * k) [0..<length (en_pool en)]"
    "length (en_bytes en2) = round_up 16 (length (en_bytes en)) + 16 * length (en_pool en)"
    using add_constants_cells [OF e(2)] by (simp_all add: pad list_all_iff)
  have "length (en_constants en2) = length (en_pool en)" using arg_cong [OF cells(1), of length] by simp
  then show ?thesis using cells finish_code_fields [OF e(3)] by simp
qed

lemma encoded_labels_places:
  "encoded_labels offsets ms = Inr ls \<Longrightarrow> map (\<lambda>l. (el_name l, Some (el_offset l))) ls = map (\<lambda>m. (ml_name m, offsets (ml_pointer m))) ms"
  by (induction ms arbitrary: ls) (auto simp: rbind_eq_Inr split: option.splits)

lemma finished_label_places:
  assumes "finish_function identity cx f (offsets, en) = Inr cf"
  shows "map (\<lambda>r. (lr_name r, Some (lr_offset r))) (cf_labels cf) = map (\<lambda>m. (ml_name m, offsets (ml_pointer m))) (mf_labels f)"
proof -
  obtain en2 ls where e: "encoded_labels offsets (mf_labels f) = Inr ls"
    "finish_code identity cx (tm_architecture (mf_target f)) ls en2 = Inr cf"
    using finish_function_parts [OF assms] by blast
  have z: "map (\<lambda>r. (g (h r), Some (k r))) xs = zip (map (\<lambda>r. g (h r)) xs) (map Some (map k xs))" for g h k and xs :: "'z list"
    by (induction xs) simp_all
  have "map (\<lambda>r. (lr_name r, Some (lr_offset r))) (cf_labels cf) = map (\<lambda>l. (el_name l, Some (el_offset l))) ls"
    using z [of id lr_name lr_offset "cf_labels cf"] z [of id el_name el_offset ls] finish_code_fields(4,5) [OF e(2)] by simp
  then show ?thesis using encoded_labels_places [OF e(1)] by simp
qed

text \<open>The listing of an encoded function.\<close>

lemma encoded_listing:
  assumes "separate_context cx" "encode_x86 identity cx f aligned = Inr cf"
  shows "\<exists>xs len. lists_body aligned (mf_blocks f) len xs \<and> list_all (item_encoded cx) xs \<and>
    list_all (labels_reached (map_of (rev (listed_labels xs))) cf) xs \<and> list_all (cells_reached cf) xs \<and>
    map pool_offset (cf_constants cf) = map (\<lambda>k. round_up 16 len + 16 * k) [0..<length (cf_constants cf)] \<and>
    length (cf_bytes cf) = round_up 16 len + 16 * length (cf_constants cf) \<and>
    map (\<lambda>r. (lr_name r, Some (lr_offset r))) (cf_labels cf) =
      map (\<lambda>m. (ml_name m, map_of (rev (listed_labels xs)) (ml_pointer m))) (mf_labels f)"
proof -
  obtain offsets en where l: "lay_out cx f aligned = Inr (offsets, en)" and e: "finish_function identity cx f (offsets, en) = Inr cf"
    using assms(2) by (auto simp: encode_x86_def rbind_eq_Inr)
  obtain xs where xs: "lists_body aligned (mf_blocks f) (length (en_bytes en)) xs" "list_all (item_encoded cx) xs"
    "list_all (item_recorded en) xs" "offsets = map_of (rev (listed_labels xs))"
    using lay_out_listed [OF assms(1) l] by blast
  have "labels_reached offsets cf x" "cells_reached cf x" if "x \<in> set xs" for x
    using recorded_labels_reached [OF finished_labels [OF assms(1) l e]] recorded_cells_reached [OF finished_pool [OF assms(1) l e]]
      xs(3) that by (auto simp: list_all_iff)
  then show ?thesis
    using xs finished_cells [OF assms(1) l e] finished_label_places [OF e]
    by (intro exI [of _ xs] exI [of _ "length (en_bytes en)"]) (simp add: list_all_iff)
qed

section \<open>Two small functions\<close>

lemma single_row_selected:
  assumes "dc_code d = opcode_number op" "op \<in> set all_opcodes" "dc_shape d = 0"
    and "ec_patterns cx = compile_patterns code_count [d]" "ec_recipes cx = compile_recipes [d]"
    and "\<And>opts. match_pattern (ec_ld_eq cx) (fst (compiled_row d)) ops opts"
  shows "select_pattern cx (IROp op) ops opts = Some 0"
proof -
  have "opcode_number op < code_count"
    using length_takeWhile_le [of "\<lambda>x. x \<noteq> op" all_opcodes] by (simp add: opcode_number_def code_count_def)
  then have ok: "codes_ok code_count [d]" by (simp add: codes_ok_def assms(1))
  have m: "match_pattern (ec_ld_eq cx) (pt_compiled (compile_patterns code_count [d]) ! 0) ops o2" for o2
    using assms(6) by (simp add: compile_patterns_def Let_def)
  have w: "wanted_code (ec_ld_eq cx) (IROp op) ops = Some (opcode_number op)"
    by (simp add: wanted_code_def native_vector_descriptor_def)
  have "dc_shape (pt_rows (compile_patterns code_count [d]) ! 0) = 0"
    using assms(3) by (simp add: compile_patterns_def Let_def)
  then show ?thesis
    unfolding select_pattern_def assms(4,5) selection_first [OF ok] using m
    by (simp add: first_row_def w accepts_row_def assms(1))
qed

definition sample_context :: "encoding_declaration \<Rightarrow> encode_context" where
  "sample_context d = \<lparr>ec_module = ''m'', ec_name = ''f'', ec_target = ''x86_64'', ec_known = None, ec_ld_eq = (=),
     ec_patterns = compile_patterns code_count [d], ec_recipes = compile_recipes [d]\<rparr>"

definition sample_function :: "machine_instruction \<Rightarrow> machine_function" where
  "sample_function i = \<lparr>mf_module = ''m'', mf_name = ''f'', mf_target = native_machine X86SysV,
     mf_blocks = [\<lparr>mb_labels = [0], mb_instructions = [i]\<rparr>],
     mf_labels = [\<lparr>ml_pointer = 0, ml_name = ''start'', ml_ordinal = None, ml_addressed = False\<rparr>],
     mf_registers = [], mf_globals = []\<rparr>"

definition sample_recipe :: "encoding_operation list \<Rightarrow> nat \<Rightarrow> recipe_table" where
  "sample_recipe fs n = \<lparr>rt_operations = fs, rt_words = [\<lparr>ew_first = 0, ew_count = length fs, ew_maximum = n\<rparr>],
     rt_recipes = [\<lparr>rx_first = 0, rx_count = 1, rx_maximum = n\<rparr>]\<rparr>"

lemma sample_compiled:
  assumes "parse_recipe no_flags (dc_encoding d) = (True, map Operation fs @ [EndWord n])"
  shows "compile_recipes [d] = sample_recipe fs n" "row_words d = [(fs, n)]"
proof -
  have f: "fold compile_event (map Operation fs) (s, r, t) = (s, r, t\<lparr>rt_operations := rt_operations t @ fs\<rparr>)" for s r t
    by (induction fs arbitrary: t) simp_all
  show "compile_recipes [d] = sample_recipe fs n"
    by (simp add: compile_recipes_def compile_row_def assms f sample_recipe_def del: parse_recipe.simps)
  have e: "event_words acc (map Operation fs @ [EndWord n]) = [(acc @ fs, n)]" for acc
    by (induction fs arbitrary: acc) simp_all
  show "row_words d = [(fs, n)]"
    by (simp add: row_words_def assms e del: parse_recipe.simps)
qed

lemma sample_separate: "row_words d = [(fs, n)] \<Longrightarrow> one_displacement fs \<Longrightarrow> separate_context (sample_context d)"
  unfolding separate_context_def by (intro exI [of _ "[d]"]) (simp add: sample_context_def recipes_separate_def)

lemma sample_laid_out:
  assumes "compile_recipes [d] = sample_recipe fs n" "n \<le> INT32_MAX" "op \<noteq> OMisc O_Switch" "op \<noteq> OMisc O_Alloca"
    and "\<And>opts. select_pattern (sample_context d) (IROp op) ops opts = Some 0"
    and "branch_opcode (IROp op) \<Longrightarrow> ops = [LabelOp 0]"
    and "encode_instruction (sample_context d) ops 0 empty_engine = Inr en"
  shows "lay_out (sample_context d) (sample_function (make_instruction (IROp op) ops)) [] = Inr ([0 \<mapsto> 0], en)"
proof -
  have r: "x86_encoding_recipe (ec_recipes (sample_context d)) 0 =
      Some \<lparr>er_words = [\<lparr>ew_first = 0, ew_count = length fs, ew_maximum = n\<rparr>], er_operations = fs, er_maximum = n\<rparr>"
    by (simp add: sample_context_def assms(1) sample_recipe_def x86_encoding_recipe_def Let_def subspan_def)
  have k: "ec_known (sample_context d) = None" by (simp add: sample_context_def)
  have b: "branch_pattern (sample_context d) \<lparr>pp_opcode = IROp op, pp_operands = ops, pp_pattern = 0\<rparr> [0 \<mapsto> 0] empty_engine = Inr 0"
  proof (cases "branch_opcode (IROp op)")
    case True
    then show ?thesis using assms(5) by (simp add: branch_pattern_def assms(6) nth_operand_def as_label_def)
  qed (simp add: branch_pattern_def)
  have e: "length (en_bytes empty_engine) = 0" by (simp add: empty_engine_def)
  show ?thesis
    unfolding lay_out_def sample_function_def
    using assms(2-4) by (simp add: estimate_instruction_def make_instruction_def normalize_operands_def normalize_alloca_def k r
      assms(5,7) Let_def b e)
qed

definition jump_row :: encoding_declaration where
  "jump_row = \<lparr>dc_code = opcode_number (OMisc O_Jmp), dc_constraints = ''L'', dc_encoding = ''E9 L0'', dc_shape = 0\<rparr>"

definition jump_engine :: engine where
  "jump_engine = \<lparr>en_bytes = [0xE9, 0, 0, 0, 0], en_relocations = [], en_constants = [],
     en_labels = [\<lparr>lf_label = 0, lf_offset = 1, lf_next = 5, lf_size = 4, lf_operand = 0\<rparr>], en_pool = [], en_known = []\<rparr>"

lemma jump_parsed: "parse_recipe no_flags (dc_encoding jump_row) = (True, map Operation [(EK_Byte, 0xE9), (EK_Label32, 0)] @ [EndWord 5])"
  unfolding jump_row_def by code_simp

lemma jump_laid_out:
  "lay_out (sample_context jump_row) (sample_function (make_instruction (IROp (OMisc O_Jmp)) [LabelOp 0])) [] = Inr ([0 \<mapsto> 0], jump_engine)"
proof (rule sample_laid_out [OF sample_compiled(1) [OF jump_parsed]])
  have c: "compiled_row jump_row = (\<lparr>cp_operands = [(CK_LongLabel, 0)], cp_tail = False\<rparr>, True)"
    unfolding compiled_row_def jump_row_def by code_simp
  show "select_pattern (sample_context jump_row) (IROp (OMisc O_Jmp)) [LabelOp 0] opts = Some 0" for opts
    by (rule single_row_selected [of jump_row])
      (simp_all add: jump_row_def all_opcodes_def sample_context_def c [unfolded jump_row_def] match_pattern_def match_operand_def as_label_def)
  have b: "put_le (Suc 0) 233 = [233]" "put_le 4 0 = [0, 0, 0, 0]" by code_simp+
  show "encode_instruction (sample_context jump_row) [LabelOp 0] 0 empty_engine = Inr jump_engine"
    unfolding encode_instruction_def sample_context_def
    by (simp add: b sample_compiled(1) [OF jump_parsed] sample_recipe_def x86_encoding_recipe_def Let_def subspan_def word_operations_def
      apply_field_def no_fields_def label_field_def nth_operand_def as_label_def emit_word_def word_head_def opcode_bytes_def value_or_def
      emit_bytes_def emit_immediate_def word_fixups_def empty_engine_def jump_engine_def del: put_le.simps)
qed simp_all

definition call_row :: encoding_declaration where
  "call_row = \<lparr>dc_code = opcode_number (OMisc O_Call), dc_constraints = ''i3'', dc_encoding = ''FF /2 P0'', dc_shape = 0\<rparr>"

definition call_engine :: engine where
  "call_engine = \<lparr>en_bytes = [0xFF, 0x15, 0, 0, 0, 0], en_relocations = [], en_constants = [], en_labels = [],
     en_pool = [\<lparr>px_value = UIntOp 5, px_offset = 2, px_next = 6, px_call = True\<rparr>], en_known = []\<rparr>"

lemma call_parsed: "parse_recipe no_flags (dc_encoding call_row) =
    (True, map Operation [(EK_Byte, 0xFF), (EK_Extension, 2), (EK_CallPointer, 0)] @ [EndWord 6])"
  unfolding call_row_def by code_simp

lemma call_laid_out:
  "lay_out (sample_context call_row) (sample_function (make_instruction (IROp (OMisc O_Call)) [UIntOp 5])) [] = Inr ([0 \<mapsto> 0], call_engine)"
proof (rule sample_laid_out [OF sample_compiled(1) [OF call_parsed]])
  have c: "compiled_row call_row = (\<lparr>cp_operands = [(CK_Immediate, 64)], cp_tail = False\<rparr>, True)"
    unfolding compiled_row_def call_row_def by code_simp
  show "select_pattern (sample_context call_row) (IROp (OMisc O_Call)) [UIntOp 5] opts = Some 0" for opts
    by (rule single_row_selected [of call_row])
      (simp_all add: call_row_def all_opcodes_def sample_context_def c [unfolded call_row_def] match_pattern_def match_operand_def as_integer_def)
  have b: "put_le (Suc 0) 255 = [255]" "put_le (Suc 0) (packed_byte 0 2 5) = [0x15]" "put_le 4 0 = [0, 0, 0, 0]"
    by code_simp+
  show "encode_instruction (sample_context call_row) [UIntOp 5] 0 empty_engine = Inr call_engine"
    unfolding encode_instruction_def sample_context_def
    by (simp add: b sample_compiled(1) [OF call_parsed] sample_recipe_def x86_encoding_recipe_def Let_def subspan_def word_operations_def
      apply_field_def no_fields_def rip_fields_def nth_operand_def emit_word_def word_head_def opcode_bytes_def value_or_def
      emit_bytes_def emit_immediate_def word_fixups_def empty_engine_def call_engine_def del: put_le.simps)
qed (simp_all add: branch_opcode_def descriptor_row_def)

section \<open>The samples encode\<close>

definition sample_artifact :: "bytes \<Rightarrow> pool_entry list \<Rightarrow> (machine_symbol, builtin) compiled" where
  "sample_artifact b cs = \<lparr>cf_module = ''m'', cf_name = ''f'', cf_architecture = ArchX86_64, cf_identity = 1, cf_bytes = b,
     cf_labels = [\<lparr>lr_label = \<lparr>lh_index = 0, lh_owner = 1\<rparr>, lr_name = ''start'', lr_offset = 0, lr_ordinal = None\<rparr>],
     cf_relocations = [], cf_constants = cs\<rparr>"

definition jump_bytes :: bytes where
  "jump_bytes = [0xE9, 0xFB, 0xFF, 0xFF, 0xFF] @ replicate 11 0"

definition call_bytes :: bytes where
  "call_bytes = [0xFF, 0x15, 10, 0, 0, 0] @ replicate 10 0 @ [5] @ replicate 15 0"

definition call_cell :: pool_entry where
  "call_cell = \<lparr>pool_offset = 16, pool_reference = 2, pool_next = 6, pool_call = True\<rparr>"

lemma padded_sample_verified:
  assumes "b \<noteq> []" "16 dvd length b" "verify_pool (sample_artifact b cs) = Inr ()"
  shows "verify_compiled (sample_artifact b cs) = Inr ()"
  using assms by (simp add: verify_compiled_def sample_artifact_def occupied_def no_overlap_def dvd_eq_mod_eq_0)

lemma sample_finished:
  assumes "fix_labels (sample_context d) offsets (en_labels en) en = Inr en1" "add_constants (sample_context d) (en_pool en1) (pad_to 16 en1) = Inr en2"
    and "offsets 0 = Some 0" "en_relocations en2 = []" "verify_compiled (sample_artifact (en_bytes en2) (en_constants en2)) = Inr ()"
  shows "finish_function 1 (sample_context d) (sample_function i) (offsets, en) = Inr (sample_artifact (en_bytes en2) (en_constants en2))"
  using assms
  by (simp add: finish_function_def finish_pool_def sample_function_def finish_code_def finish_artifact_def sample_context_def Let_def
    sample_artifact_def native_machine_def host_architecture_def)

lemma jump_encoded:
  "encode_x86 1 (sample_context jump_row) (sample_function (make_instruction (IROp (OMisc O_Jmp)) [LabelOp 0])) [] =
    Inr (sample_artifact jump_bytes [])"
proof -
  have w: "write_at [0xE9, 0, 0, 0, 0] 1 (word_of_int (- 5)) 4 = [0xE9, 0xFB, 0xFF, 0xFF, 0xFF]" by code_simp
  let ?en = "jump_engine\<lparr>en_bytes := [0xE9, 0xFB, 0xFF, 0xFF, 0xFF]\<rparr>"
  have "fix_labels (sample_context jump_row) [0 \<mapsto> 0] (en_labels jump_engine) jump_engine = Inr ?en"
    using w by (simp add: jump_engine_def fix_label_def patch_bytes_def)
  moreover have "add_constants (sample_context jump_row) (en_pool ?en) (pad_to 16 ?en) = Inr (?en\<lparr>en_bytes := jump_bytes\<rparr>)"
    by (simp add: jump_engine_def pad_to_def jump_bytes_def round_up_def)
  moreover have "verify_compiled (sample_artifact jump_bytes []) = Inr ()"
    by (rule padded_sample_verified) (simp_all add: jump_bytes_def verify_pool_def sample_artifact_def)
  ultimately show ?thesis
    using sample_finished [of jump_row "[0 \<mapsto> 0]" jump_engine ?en "?en\<lparr>en_bytes := jump_bytes\<rparr>"] 
    by (simp add: encode_x86_def jump_laid_out) (simp add: jump_engine_def)
qed

lemma call_encoded:
  "encode_x86 1 (sample_context call_row) (sample_function (make_instruction (IROp (OMisc O_Call)) [UIntOp 5])) [] =
    Inr (sample_artifact call_bytes [call_cell])"
proof -
  let ?b = "[0xFF, 0x15, 0, 0, 0, 0] @ replicate 10 (0 :: u8)"
  have pad: "pad_to 16 call_engine = call_engine\<lparr>en_bytes := ?b\<rparr>"
    by (simp add: pad_to_def call_engine_def round_up_def)
  have w: "write_at ?b 2 10 4 @ put_le 8 5 @ put_le 8 0 = call_bytes" unfolding call_bytes_def by code_simp
  let ?en = "call_engine\<lparr>en_bytes := call_bytes, en_constants := [call_cell]\<rparr>"
  have "add_constants (sample_context call_row) (en_pool call_engine) (pad_to 16 call_engine) = Inr ?en"
    unfolding pad using w
    by (simp add: call_engine_def add_constant_def Let_def patch_bytes_def emit_bytes_def as_integer_def call_cell_def
      del: put_le.simps append.simps replicate.simps)
  moreover have "verify_pool (sample_artifact call_bytes [call_cell]) = Inr ()"
  proof -
    have r: "read_at call_bytes 2 4 = 10" "read_at call_bytes 24 8 = 0" unfolding call_bytes_def by code_simp+
    have l: "length call_bytes = 32" "call_bytes ! 0 = 0xFF" "call_bytes ! 1 = 0x15" by (simp_all add: call_bytes_def)
    show ?thesis
      using r l by (simp add: verify_pool_def sample_artifact_def verify_constant_def verify_pool_label_def Let_def range_after_def occupied_def call_cell_def)
  qed
  then have "verify_compiled (sample_artifact call_bytes [call_cell]) = Inr ()"
    by (rule padded_sample_verified [rotated 2]) (simp_all add: call_bytes_def)
  ultimately show ?thesis
    using sample_finished [of call_row "[0 \<mapsto> 0]" call_engine call_engine ?en]
    by (simp add: encode_x86_def call_laid_out) (simp add: call_engine_def)
qed

section \<open>Properties\<close>

text \<open>C13: a function the x86 encoder encodes has a listing of its body: its blocks' labels and instructions in order from offset
  0, each label where the code before it ends (for an aligned label at the next multiple of eight), each
  instruction as the words of the recipe of a pattern selected for it, each word as long as its encoded bytes.  In
  the finished bytes every word that refers to a label reaches it: its displacement, sign-extended and added to the end
  of the word, is the place the listing gives the label; every entry of a switch table is the place of its label
  and is recorded for relocation; and the label rows of the artifact carry the places.  This holds for every declaration
  table no word of which has two displacements.\<close>

theorem branches_reach_labels:
  assumes "separate_context cx" "encode_x86 identity cx f aligned = Inr cf"
  shows "\<exists>xs len. lists_body aligned (mf_blocks f) len xs \<and> length (cf_bytes cf) = round_up 16 len + 16 * length (cf_constants cf) \<and>
    list_all (item_encoded cx) xs \<and> list_all (labels_reached (map_of (rev (listed_labels xs))) cf) xs \<and>
    map (\<lambda>r. (lr_name r, Some (lr_offset r))) (cf_labels cf) =
      map (\<lambda>m. (ml_name m, map_of (rev (listed_labels xs)) (ml_pointer m))) (mf_labels f)"
  using encoded_listing [OF assms] by blast

theorem branches_reach_labels_witness:
  "\<exists>xs len. lists_body [] (mf_blocks (sample_function (make_instruction (IROp (OMisc O_Jmp)) [LabelOp 0]))) len xs \<and>
    length jump_bytes = round_up 16 len + 16 * length ([] :: pool_entry list) \<and> list_all (item_encoded (sample_context jump_row)) xs \<and>
    list_all (labels_reached (map_of (rev (listed_labels xs))) (sample_artifact jump_bytes [])) xs \<and>
    map (\<lambda>r. (lr_name r, Some (lr_offset r))) (cf_labels (sample_artifact jump_bytes [])) =
      [(''start'', map_of (rev (listed_labels xs)) 0)] \<and> signed_field jump_bytes 1 4 + 5 = 0"
proof -
  have "one_displacement [(EK_Byte, 0xE9), (EK_Label32, 0)]"
    by (simp add: one_displacement_def displacement_operation_def label_operation_def pool_operation_def)
  then have "separate_context (sample_context jump_row)" by (rule sample_separate [OF sample_compiled(2) [OF jump_parsed]])
  moreover have "signed_field jump_bytes 1 4 + 5 = 0" unfolding jump_bytes_def by code_simp
  ultimately show ?thesis
    using branches_reach_labels [OF _ jump_encoded] by (simp add: sample_artifact_def sample_function_def)
qed

text \<open>C21: in the listing of an encoded function every word that refers to the constant pool reaches a cell of its own: its
  displacement, sign-extended and added to the end of the word, is the offset of an entry the artifact records with
  exactly this field and this end; the cell holds the constant, or a relocation for the symbol it stands for.  The cells
  are the sixteen-byte slots behind the body, in order, and end the artifact.\<close>

theorem constants_reach_cells:
  assumes "separate_context cx" "encode_x86 identity cx f aligned = Inr cf"
  shows "\<exists>xs len. lists_body aligned (mf_blocks f) len xs \<and> list_all (item_encoded cx) xs \<and> list_all (cells_reached cf) xs \<and>
    map pool_offset (cf_constants cf) = map (\<lambda>k. round_up 16 len + 16 * k) [0..<length (cf_constants cf)] \<and>
    length (cf_bytes cf) = round_up 16 len + 16 * length (cf_constants cf)"
  using encoded_listing [OF assms] by blast

theorem constants_reach_cells_witness:
  "\<exists>xs len. lists_body [] (mf_blocks (sample_function (make_instruction (IROp (OMisc O_Call)) [UIntOp 5]))) len xs \<and>
    list_all (item_encoded (sample_context call_row)) xs \<and> list_all (cells_reached (sample_artifact call_bytes [call_cell])) xs \<and>
    map pool_offset [call_cell] = map (\<lambda>k. round_up 16 len + 16 * k) [0..<1] \<and> length call_bytes = round_up 16 len + 16 \<and>
    signed_field call_bytes 2 4 + 6 = 16 \<and> read_at call_bytes 16 8 = 5"
proof -
  have "one_displacement [(EK_Byte, 0xFF), (EK_Extension, 2), (EK_CallPointer, 0)]"
    by (simp add: one_displacement_def displacement_operation_def label_operation_def pool_operation_def)
  then have "separate_context (sample_context call_row)" by (rule sample_separate [OF sample_compiled(2) [OF call_parsed]])
  moreover have "signed_field call_bytes 2 4 + 6 = 16 \<and> read_at call_bytes 16 8 = 5" unfolding call_bytes_def by code_simp
  ultimately show ?thesis
    using constants_reach_cells [OF _ call_encoded] by (simp add: sample_artifact_def)
qed

end
