(* ===== verification/AArch64Patterns.thy ===== *)
theory AArch64Patterns
  imports PatternTables MachineOperands
begin

text \<open>
  \<open>lib/CodeGen/AArch64Patterns.cpp\<close>: the operand constraints of the AArch64 declaration table, the compile-time
  parsing of its encoding strings into words and fields, and the selection of a recipe.  The table is an argument;
  a table that fails one of the \<open>static_assert\<close>s, for which there is no program, is \<^term>\<open>None\<close> or not valid.
\<close>

section \<open>Constraints\<close>

text \<open>\<open>enum class PatternCode\<close>: the opcodes, four variants of the overflow branches, the native operations.\<close>

definition a64_opcode_number :: "opcode \<Rightarrow> nat" where
  "a64_opcode_number op = length (takeWhile (\<lambda>x. x \<noteq> op) all_opcodes)"

definition SubUnsignedOverflow :: nat where "SubUnsignedOverflow = length all_opcodes"
definition SubUnsignedNoOverflow :: nat where "SubUnsignedNoOverflow = length all_opcodes + 1"
definition MultiplyOverflow :: nat where "MultiplyOverflow = length all_opcodes + 2"
definition MultiplyNoOverflow :: nat where "MultiplyNoOverflow = length all_opcodes + 3"

definition a64_natives :: "nat \<Rightarrow> nat" where
  "a64_natives n = length (filter (\<lambda>(_, _, a, _). a = ArchAArch64) (take n native_rows))"

definition a64_code_count :: nat where
  "a64_code_count = length all_opcodes + 4 + a64_natives (length native_rows)"

datatype (plugins only: code size) a64_constraint_kind = AC_Invalid | AC_Any | AC_Register | AC_Physical
  | AC_IndexedMemory | AC_DisplacedMemory | AC_WideImmediate | AC_InvertedImmediate | AC_AddImmediate
  | AC_AlignedAddImmediate | AC_Shift | AC_Label | AC_LabelOrSymbol | AC_FloatZero | AC_DoubleZero

record a64_constraint =
  ac_kind :: a64_constraint_kind
  ac_parameter :: nat
  ac_types :: nat

definition plain_constraint :: "a64_constraint_kind \<Rightarrow> nat \<Rightarrow> a64_constraint" where
  "plain_constraint k p = \<lparr>ac_kind = k, ac_parameter = p, ac_types = 0\<rparr>"

definition char_digit :: "char \<Rightarrow> nat" where "char_digit c = of_char c - 48"

definition a64_memory_kinds :: "string \<Rightarrow> (nat \<times> nat) option" where
  "a64_memory_kinds tag =
    (if tag = ''f'' then Some (type_bit K_F32, 4)
     else if tag = ''d'' then Some (type_bit K_F64, 8)
     else if tag = ''ld'' then Some (type_bit K_LongDouble, 16)
     else if tag = ''v'' then Some (type_bit K_Vector, 16)
     else let signed_ok = (tag \<noteq> [] \<and> hd tag \<noteq> CHR ''u''); unsigned_ok = (tag \<noteq> [] \<and> hd tag \<noteq> CHR ''s'');
              tag = (if \<not> signed_ok \<or> \<not> unsigned_ok then tl tag else tag)
          in case tag of
               [] \<Rightarrow> None
             | c # _ \<Rightarrow> (case decimal_digit c of
                 None \<Rightarrow> None
               | Some n \<Rightarrow> if 3 < n then None
                   else Some ((if signed_ok then type_bit (signed_kinds ! n) else 0) OR
                              (if unsigned_ok then type_bit (unsigned_kinds ! n) else 0) OR
                              (if n = 3 then type_bit K_Pointer else 0), 2 ^ n)))"

definition a64_decode :: "string \<Rightarrow> a64_constraint" where
  "a64_decode token =
    (if token = ''X'' then plain_constraint AC_Any 0
     else if token = ''r'' then plain_constraint AC_Register 0
     else case token of
       [] \<Rightarrow> plain_constraint AC_Invalid 0
     | c # tag \<Rightarrow>
        if c = CHR ''h'' then plain_constraint AC_Physical (foldl (\<lambda>n d. n * 10 + char_digit d) 0 tag)
        else if c = CHR ''m'' \<or> c = CHR ''M''
        then (case a64_memory_kinds tag of
            None \<Rightarrow> plain_constraint AC_Invalid 0
          | Some (kinds, scale) \<Rightarrow>
              \<lparr>ac_kind = (if c = CHR ''m'' then AC_IndexedMemory else AC_DisplacedMemory), ac_parameter = scale, ac_types = kinds\<rparr>)
        else if token = ''Zf'' then plain_constraint AC_FloatZero 0
        else if token = ''Zd'' then plain_constraint AC_DoubleZero 0
        else if (c = CHR ''Z'' \<or> c = CHR ''N'') \<and> tag \<noteq> []
        then plain_constraint (if c = CHR ''Z'' then AC_WideImmediate else AC_InvertedImmediate) (char_digit (hd tag) + 1)
        else if token = ''I'' then plain_constraint AC_AddImmediate 0
        else if token = ''Iu'' then plain_constraint AC_AlignedAddImmediate 0
        else if c = CHR ''S'' \<and> tag \<noteq> []
        then plain_constraint AC_Shift (if hd tag = CHR ''r'' \<or> hd tag = CHR ''l'' then 32 else 64)
        else if token = ''l'' then plain_constraint AC_Label 0
        else if token = ''L'' then plain_constraint AC_LabelOrSymbol 0
        else plain_constraint AC_Invalid 0)"

record a64_pattern =
  ap_operands :: "a64_constraint list"
  ap_tail :: bool

lemma blank_rest_shorter:
  "dropWhile P source \<noteq> [] \<Longrightarrow> (\<And>c. \<not> P c \<Longrightarrow> Q c) \<Longrightarrow>
    length (dropWhile Q (dropWhile P source)) < length source"
proof -
  assume r: "dropWhile P source \<noteq> []" and q: "\<And>c. \<not> P c \<Longrightarrow> Q c"
  have "Q (hd (dropWhile P source))" using r q by (metis hd_dropWhile)
  then have "length (dropWhile Q (dropWhile P source)) < length (dropWhile P source)"
    using r by (cases "dropWhile P source") (auto simp: le_imp_less_Suc dropWhile_shorter)
  then show ?thesis using dropWhile_shorter [of P source] by linarith
qed

function a64_constraints :: "string \<Rightarrow> a64_pattern \<times> bool \<Rightarrow> a64_pattern \<times> bool" where
  "a64_constraints source (out, valid) =
    (if source = [] then (out, valid)
     else let token = takeWhile (\<lambda>c. \<not> blank c) source; rest = dropWhile (\<lambda>c. \<not> blank c) source
     in if token = ''$'' then (out\<lparr>ap_tail := True\<rparr>, valid)
        else if length (ap_operands out) = 4 then (out, False)
        else let c = a64_decode token; valid = (valid \<and> ac_kind c \<noteq> AC_Invalid);
                 out = out\<lparr>ap_operands := ap_operands out @ [c]\<rparr>; next_source = dropWhile blank rest
             in if rest = [] \<or> next_source = [] then (out, valid) else a64_constraints next_source (out, valid))"
  by pat_completeness auto
termination
proof (relation "measure (length \<circ> fst)", simp, goal_cases)
  case (1 source out valid token rest c valid' out' next_source)
  then show ?case using blank_rest_shorter [of "\<lambda>c. \<not> blank c" source blank] by simp
qed

definition a64_row :: "encoding_declaration \<Rightarrow> a64_pattern \<times> bool" where
  "a64_row d = a64_constraints (dc_constraints d) (\<lparr>ap_operands = [], ap_tail = False\<rparr>, True)"

record a64_table =
  at_rows :: "encoding_declaration list"
  at_compiled :: "a64_pattern list"
  at_indexes :: "nat list"
  at_offsets :: "nat list"
  at_valid :: bool

definition a64_compile_patterns :: "nat \<Rightarrow> encoding_declaration list \<Rightarrow> a64_table" where
  "a64_compile_patterns codes ps = (let rows = map a64_row ps in
     \<lparr>at_rows = ps, at_compiled = map fst rows, at_indexes = sorted_rows codes ps, at_offsets = code_offsets codes ps,
      at_valid = list_all snd rows\<rparr>)"

section \<open>Matching\<close>

definition add_immediate :: "u64 \<Rightarrow> bool" where
  "add_immediate v = (unat v < 4096 \<or> (v AND 4095 = 0 \<and> unat (drop_bit 12 v) < 4096))"

definition wide_chunk :: "u64 \<Rightarrow> nat \<Rightarrow> u64" where
  "wide_chunk v n = drop_bit (16 * n) v AND 65535"

definition round_up_16 :: "u64 \<Rightarrow> u64" where
  "round_up_16 v = (v + 15) div 16 * 16"

definition a64_memory_match :: "a64_constraint \<Rightarrow> machine_memory \<Rightarrow> bool" where
  "a64_memory_match c m =
    (ac_types c AND type_bit (type_kind (mm_type m)) \<noteq> 0 \<and>
     (if ac_kind c = AC_IndexedMemory
      then mm_displacement m = 0 \<and> (mm_index m = None \<or> mm_scale m = 1 \<or> mm_scale m = ac_parameter c)
      else mm_index m = None \<and> 0 \<le> mm_displacement m \<and> mm_displacement m mod int (ac_parameter c) = 0 \<and>
           mm_displacement m div int (ac_parameter c) < 4096))"

definition token_match :: "a64_constraint \<times> operand \<Rightarrow> bool" where
  "token_match = (\<lambda>(c, o1). (case ac_kind c of
     AC_Any \<Rightarrow> True
   | AC_Register \<Rightarrow> (case o1 of VReg _ \<Rightarrow> True | PReg _ \<Rightarrow> True | _ \<Rightarrow> False)
   | AC_Physical \<Rightarrow> (case as_physical o1 of Some r \<Rightarrow> pr_encoding r = ac_parameter c | None \<Rightarrow> False)
   | AC_IndexedMemory \<Rightarrow> (case as_memory o1 of Some m \<Rightarrow> a64_memory_match c m | None \<Rightarrow> False)
   | AC_DisplacedMemory \<Rightarrow> (case as_memory o1 of Some m \<Rightarrow> a64_memory_match c m | None \<Rightarrow> False)
   | AC_FloatZero \<Rightarrow> (case o1 of FloatOp w \<Rightarrow> take_bit 31 w = 0 | _ \<Rightarrow> False)
   | AC_DoubleZero \<Rightarrow> (case o1 of DoubleOp w \<Rightarrow> take_bit 63 w = 0 | _ \<Rightarrow> False)
   | AC_WideImmediate \<Rightarrow> (case as_integer o1 of
       None \<Rightarrow> ac_parameter c = 4 \<and> is_symbolic o1
     | Some v \<Rightarrow> length (filter (\<lambda>n. wide_chunk v n \<noteq> 0) [0..<4]) \<le> ac_parameter c)
   | AC_InvertedImmediate \<Rightarrow> (case as_integer o1 of
       None \<Rightarrow> False
     | Some v \<Rightarrow> length (filter (\<lambda>n. wide_chunk (NOT v) n \<noteq> 0) [0..<4]) \<le> ac_parameter c)
   | AC_AddImmediate \<Rightarrow> (case as_integer o1 of None \<Rightarrow> False | Some v \<Rightarrow> add_immediate v)
   | AC_AlignedAddImmediate \<Rightarrow> (case as_integer o1 of None \<Rightarrow> False | Some v \<Rightarrow> add_immediate (round_up_16 v))
   | AC_Shift \<Rightarrow> (case as_integer o1 of None \<Rightarrow> False | Some v \<Rightarrow> unat v < ac_parameter c)
   | AC_Label \<Rightarrow> as_label o1 \<noteq> None
   | AC_LabelOrSymbol \<Rightarrow> as_label o1 \<noteq> None \<or> is_symbolic o1
   | AC_Invalid \<Rightarrow> False))"

definition a64_match :: "a64_pattern \<Rightarrow> operand list \<Rightarrow> bool" where
  "a64_match p ops =
    (\<not> (length ops < length (ap_operands p) \<or> (\<not> ap_tail p \<and> length (ap_operands p) \<noteq> length ops)) \<and>
     list_all token_match (zip (ap_operands p) ops))"

section \<open>Encoding strings\<close>

datatype (plugins only: code size) a64_field_kind = AF_Register | AF_BitImmediate | AF_IndexedMemory | AF_DisplacedMemory
  | AF_RightShift | AF_LeftShift | AF_WideImmediate | AF_ArithmeticImmediate | AF_ImmediateR | AF_ImmediateS
  | AF_ShortLabel | AF_Label | AF_SwitchTable

record a64_field =
  af_kind :: a64_field_kind
  af_parameter :: nat
  af_shift :: nat
  af_flags :: nat

definition field_of :: "a64_field_kind \<Rightarrow> nat \<Rightarrow> nat \<Rightarrow> nat \<Rightarrow> a64_field" where
  "field_of k p s g = \<lparr>af_kind = k, af_parameter = p, af_shift = s, af_flags = g\<rparr>"

definition a64_hex :: "char \<Rightarrow> nat option" where
  "a64_hex c = (let n = of_char c :: nat in
     if 48 \<le> n \<and> n \<le> 57 then Some (n - 48) else if 97 \<le> n \<and> n \<le> 102 then Some (n - 97 + 10)
     else if 65 \<le> n \<and> n \<le> 70 then Some (n - 65 + 10) else None)"

fun a64_digits :: "u32 \<Rightarrow> string \<Rightarrow> u32 option" where
  "a64_digits v [] = Some v"
| "a64_digits v (c # cs) = (case a64_hex c of
     None \<Rightarrow> None
   | Some d \<Rightarrow> if UINT32_MAX div 16 < unat v then None else a64_digits (v * 16 + of_nat d) cs)"

definition a64_number :: "string \<Rightarrow> u32 option" where
  "a64_number cs = (if cs = [] then None else a64_digits 0 cs)"

text \<open>A number stored into a \<open>std::uint8_t\<close>.\<close>

definition a64_byte :: "string \<Rightarrow> nat option" where
  "a64_byte cs = map_option (\<lambda>v. unat v mod 256) (a64_number cs)"

definition register_token :: "string \<Rightarrow> a64_field option" where
  "register_token token =
    (let flags = (if hd token = CHR ''h'' then 1 else if hd token = CHR ''v'' then 2 else 0); which = token ! 1;
         shift = (if which = CHR ''d'' then 0 else if which = CHR ''n'' then 5 else if which = CHR ''m'' then 16
                  else if which = CHR ''a'' then 10 else 255)
     in case a64_byte (drop 2 token) of
          None \<Rightarrow> None
        | Some p \<Rightarrow> if shift = 255 \<or> (if flags = 1 then 31 else 2) < p then None else Some (field_of AF_Register p shift flags))"

definition bits_token :: "string \<Rightarrow> a64_field option" where
  "bits_token token =
    (let a = takeWhile (\<lambda>c. c \<noteq> CHR ''.'') (tl token); r = dropWhile (\<lambda>c. c \<noteq> CHR ''.'') (tl token);
         b = takeWhile (\<lambda>c. c \<noteq> CHR ''.'') (tl r); q = dropWhile (\<lambda>c. c \<noteq> CHR ''.'') (tl r)
     in if r = [] \<or> q = [] then None
        else case (a64_byte a, a64_byte b, a64_byte (tl q)) of
          (Some s, Some g, Some p) \<Rightarrow> if g = 0 \<or> 32 < s + g \<or> 3 < p then None else Some (field_of AF_BitImmediate p s g)
        | _ \<Rightarrow> None)"

definition a64_token :: "string \<Rightarrow> a64_field option" where
  "a64_token token = (case token of
     [] \<Rightarrow> None
   | c # cs \<Rightarrow>
      if (c = CHR ''r'' \<or> c = CHR ''v'' \<or> c = CHR ''h'') \<and> 3 \<le> length token then register_token token
      else if c = CHR ''b'' then bits_token token
      else if token = ''m'' then Some (field_of AF_IndexedMemory 0 0 0)
      else if token = ''M'' then Some (field_of AF_DisplacedMemory 0 0 0)
      else if token = ''S'' then Some (field_of AF_RightShift 0 0 0)
      else if token = ''SL'' then Some (field_of AF_LeftShift 64 0 0)
      else if token = ''Sl'' then Some (field_of AF_LeftShift 32 0 0)
      else if c = CHR ''Z'' \<or> c = CHR ''N''
      then (case a64_byte cs of None \<Rightarrow> None
         | Some p \<Rightarrow> if 3 < p then None else Some (field_of AF_WideImmediate p 0 (if c = CHR ''N'' then 1 else 0)))
      else if token = ''I'' then Some (field_of AF_ArithmeticImmediate 0 0 0)
      else if token = ''Iu'' then Some (field_of AF_ArithmeticImmediate 0 0 1)
      else if c = CHR ''I'' \<or> c = CHR ''i''
      then (case a64_byte cs of None \<Rightarrow> None
         | Some p \<Rightarrow> if 63 < p then None else Some (field_of (if c = CHR ''I'' then AF_ImmediateR else AF_ImmediateS) p 0 0))
      else if token = ''l'' then Some (field_of AF_ShortLabel 0 0 0)
      else if token = ''L'' then Some (field_of AF_Label 0 0 0)
      else if token = ''T'' then Some (field_of AF_SwitchTable 0 0 0)
      else None)"

definition trim :: "string \<Rightarrow> string" where
  "trim s = rev (dropWhile blank (rev (dropWhile blank s)))"

text \<open>The tokens of a trimmed string, and the words between semicolons.\<close>

function a64_tokens :: "string \<Rightarrow> string list" where
  "a64_tokens s =
    (if s = [] then []
     else takeWhile (\<lambda>c. \<not> blank c) s #
       (let rest = dropWhile blank (dropWhile (\<lambda>c. \<not> blank c) s)
        in if dropWhile (\<lambda>c. \<not> blank c) s = [] then [] else a64_tokens rest))"
  by pat_completeness auto
termination
proof (relation "measure length", simp, goal_cases)
  case (1 s rest)
  then show ?case using blank_rest_shorter [of "\<lambda>c. \<not> blank c" s blank] by simp
qed

function split_words :: "string \<Rightarrow> string list" where
  "split_words s =
    (let rest = dropWhile (\<lambda>c. c \<noteq> CHR '';'') s
     in takeWhile (\<lambda>c. c \<noteq> CHR '';'') s # (if rest = [] then [] else split_words (tl rest)))"
  by pat_completeness auto
termination
proof (relation "measure length", simp, goal_cases)
  case (1 s rest)
  then have "0 < length rest" "length rest \<le> length s" using dropWhile_shorter [of "\<lambda>c. c \<noteq> CHR '';''" s] by simp_all
  then show ?case by (cases rest) simp_all
qed

fun all_some :: "'a option list \<Rightarrow> 'a list option" where
  "all_some [] = Some []"
| "all_some (x # xs) = (case x of None \<Rightarrow> None | Some v \<Rightarrow> map_option ((#) v) (all_some xs))"

text \<open>The opcode, the mask of the bits it fixes, and the fields of a word; an empty word has no bits.\<close>

definition a64_header :: "string \<Rightarrow> (u32 \<times> u32) option" where
  "a64_header header =
    (let code = takeWhile (\<lambda>c. c \<noteq> CHR '':'') header; rest = dropWhile (\<lambda>c. c \<noteq> CHR '':'') header
     in case a64_number code of
          None \<Rightarrow> None
        | Some c \<Rightarrow> (case (if rest = [] then Some (NOT 0) else a64_number (tl rest)) of
            None \<Rightarrow> None
          | Some m \<Rightarrow> if c AND NOT m \<noteq> 0 then None else Some (c, m)))"

definition a64_word_text :: "string \<Rightarrow> ((u32 \<times> u32) \<times> a64_field list) option" where
  "a64_word_text s = (case a64_tokens (trim s) of
     [] \<Rightarrow> Some ((0, NOT 0), [])
   | h # ts \<Rightarrow> (case (a64_header h, all_some (map a64_token ts)) of
       (Some w, Some fs) \<Rightarrow> Some (w, fs) | _ \<Rightarrow> None))"

record a64_word =
  aw_opcode :: u32
  aw_mask :: u32
  aw_first :: nat
  aw_count :: nat

record a64_encoding =
  ae_words :: "a64_word list"
  ae_fields :: "a64_field list"
  ae_offsets :: "nat list"

fun add_words :: "((u32 \<times> u32) \<times> a64_field list) list \<Rightarrow> a64_encoding \<Rightarrow> a64_encoding" where
  "add_words [] e = e"
| "add_words (((c, m), fs) # ws) e =
    add_words ws (e\<lparr>ae_words := ae_words e @ [\<lparr>aw_opcode = c, aw_mask = m, aw_first = length (ae_fields e), aw_count = length fs\<rparr>],
                    ae_fields := ae_fields e @ fs\<rparr>)"

fun compile_encoding :: "encoding_declaration list \<Rightarrow> a64_encoding \<Rightarrow> a64_encoding option" where
  "compile_encoding [] e = Some (e\<lparr>ae_offsets := ae_offsets e @ [length (ae_words e)]\<rparr>)"
| "compile_encoding (d # ds) e = (case all_some (map a64_word_text (split_words (dc_encoding d))) of
     None \<Rightarrow> None
   | Some ws \<Rightarrow> compile_encoding ds (add_words ws (e\<lparr>ae_offsets := ae_offsets e @ [length (ae_words e)]\<rparr>)))"

section \<open>Selection\<close>

datatype a64_overflow = OverflowDefault | OverflowSubtract | OverflowMultiply

record a64_recipe =
  ar_words :: "a64_word list"
  ar_fields :: "a64_field list"

definition native_pattern_code :: "(80 word \<Rightarrow> 80 word \<Rightarrow> bool) \<Rightarrow> machine_opcode \<Rightarrow> operand list \<Rightarrow> nat option" where
  "native_pattern_code ld_eq c ops = (case native_vector_descriptor c of
     Some d \<Rightarrow>
       if nd_architecture d \<noteq> ArchAArch64 \<or> \<not> native_vector_operands ld_eq d ops None then None
       else Some (length all_opcodes + 4 + a64_natives (nd_opcode d))
   | None \<Rightarrow> (case c of IROp op \<Rightarrow> Some (a64_opcode_number op) | _ \<Rightarrow> None))"

definition overflow_code :: "a64_overflow \<Rightarrow> machine_opcode \<Rightarrow> nat \<Rightarrow> nat" where
  "overflow_code ov c wanted =
    (if c \<in> {IROp (OMisc O_Bo), IROp (OMisc O_Bno), IROp (OMisc O_UBo), IROp (OMisc O_UBno)}
     then (if ov = OverflowMultiply
           then (if c = IROp (OMisc O_Bo) \<or> c = IROp (OMisc O_UBo) then MultiplyOverflow else MultiplyNoOverflow)
           else if ov = OverflowSubtract \<and> c = IROp (OMisc O_UBo) then SubUnsignedOverflow
           else if ov = OverflowSubtract \<and> c = IROp (OMisc O_UBno) then SubUnsignedNoOverflow
           else wanted)
     else wanted)"

definition a64_instruction_ok :: "(80 word \<Rightarrow> 80 word \<Rightarrow> bool) \<Rightarrow> a64_table \<Rightarrow> machine_opcode \<Rightarrow> operand list \<Rightarrow> bool" where
  "a64_instruction_ok ld_eq t c ops = (case native_pattern_code ld_eq c ops of
     None \<Rightarrow> False
   | Some wanted \<Rightarrow> wanted < a64_code_count \<and>
       list_ex (\<lambda>row. a64_match (at_compiled t ! row) ops) (bucket (at_indexes t) (at_offsets t) wanted))"

definition a64_accepts :: "a64_table \<Rightarrow> nat \<Rightarrow> operand list \<Rightarrow> nat \<Rightarrow> bool" where
  "a64_accepts t shape ops row =
    (\<not> (shape \<noteq> 0 \<and> dc_shape (at_rows t ! row) \<noteq> 0 \<and> shape \<noteq> dc_shape (at_rows t ! row)) \<and> a64_match (at_compiled t ! row) ops)"

definition row_recipe :: "a64_encoding \<Rightarrow> nat \<Rightarrow> a64_recipe" where
  "row_recipe e row =
    \<lparr>ar_words = take (ae_offsets e ! (row + 1) - ae_offsets e ! row) (drop (ae_offsets e ! row) (ae_words e)), ar_fields = ae_fields e\<rparr>"

definition aarch64_encoding_recipe ::
  "(80 word \<Rightarrow> 80 word \<Rightarrow> bool) \<Rightarrow> a64_table \<Rightarrow> a64_encoding \<Rightarrow> machine_opcode \<Rightarrow> operand list \<Rightarrow> a64_overflow \<Rightarrow> nat \<Rightarrow> a64_recipe option" where
  "aarch64_encoding_recipe ld_eq t e c ops ov vshape = (case native_pattern_code ld_eq c ops of
     None \<Rightarrow> None
   | Some base_code \<Rightarrow>
       let wanted = overflow_code ov c base_code; shape = (if vshape \<noteq> 0 then vshape else vector_shape ops)
       in if a64_code_count \<le> wanted then None
          else map_option (row_recipe e) (List.find (a64_accepts t shape ops) (bucket (at_indexes t) (at_offsets t) wanted)))"

end
