(* ===== verification/AArch64Encoding.thy ===== *)
theory AArch64Encoding
  imports AArch64Patterns CompiledBlock
begin

text \<open>
  \<open>lib/CodeGen/AArch64Encoding.cpp\<close>: the AArch64 encoder.  Every word of a recipe starts as a fixed opcode with
  the mask of the bits it owns; each field is placed into bits that nothing owns yet.  Branches, label addresses
  and switch tables are recorded as fixups and patched at the end.  An operand index outside the operand list,
  undefined in the source, is the error of a missing operand.
\<close>

section \<open>The engine\<close>

record a64_context =
  ax_module :: string
  ax_name :: string
  ax_target :: string
  ax_known :: symbol_resolver
  ax_ld_eq :: "80 word \<Rightarrow> 80 word \<Rightarrow> bool"
  ax_table :: a64_table
  ax_encoding :: a64_encoding

record a64_fixup =
  xf_label :: nat
  xf_offset :: nat
  xf_absolute :: bool
  xf_short :: bool
  xf_operand :: nat
  xf_address :: bool

type_synonym known_address = "(symbol_reference option \<times> builtin option) \<times> u64"

record a64_engine =
  ag_bytes :: bytes
  ag_relocations :: "(machine_symbol, builtin) relocation list"
  ag_fixups :: "a64_fixup list"
  ag_known :: "known_address list"

definition a64_empty :: a64_engine where
  "a64_empty = \<lparr>ag_bytes = [], ag_relocations = [], ag_fixups = [], ag_known = []\<rparr>"

definition a64_invalid :: "a64_context \<Rightarrow> string \<Rightarrow> 'a result" where
  "a64_invalid cx why =
    mk_error InvalidOperand (ax_module cx @ ''/'' @ ax_name cx @ '' ['' @ ax_target cx @ '', encode]: '' @ why)"

definition a64_put :: "u64 \<Rightarrow> nat \<Rightarrow> a64_engine \<Rightarrow> a64_engine" where
  "a64_put v n en = en\<lparr>ag_bytes := ag_bytes en @ put_le n v\<rparr>"

definition a64_set :: "nat \<Rightarrow> u64 \<Rightarrow> nat \<Rightarrow> a64_engine \<Rightarrow> a64_engine" where
  "a64_set at v n en = en\<lparr>ag_bytes := write_at (ag_bytes en) at v n\<rparr>"

definition symbol_key :: "operand \<Rightarrow> symbol_reference option \<times> builtin option" where
  "symbol_key o1 = (case o1 of SymbolOp s \<Rightarrow> (Some s, None) | BuiltinOp b \<Rightarrow> (None, Some b) | _ \<Rightarrow> (None, None))"

text \<open>\<open>operator==\<close> on the remembered symbol reference compares the pointer and the displacement.\<close>

definition same_key :: "symbol_reference option \<times> builtin option \<Rightarrow> operand \<Rightarrow> bool" where
  "same_key key o1 = (case o1 of
     SymbolOp s \<Rightarrow> (case fst key of Some t \<Rightarrow> sr_pointer t = sr_pointer s \<and> sr_displacement t = sr_displacement s | None \<Rightarrow> False) \<and> snd key = None
   | BuiltinOp b \<Rightarrow> fst key = None \<and> snd key = Some b
   | _ \<Rightarrow> False)"

definition a64_resolve :: "a64_context \<Rightarrow> operand \<Rightarrow> a64_engine \<Rightarrow> (u64 \<times> a64_engine) result" where
  "a64_resolve cx o1 en =
    (if \<not> is_symbolic o1 then a64_invalid cx ''not a symbol operand''
     else case List.find (\<lambda>(key, v). same_key key o1) (ag_known en) of
       Some (key, v) \<Rightarrow> Inr (v, en)
     | None \<Rightarrow> (case ax_known cx of
         None \<Rightarrow> mk_error InvalidArgument ''bad_function_call''
       | Some known \<Rightarrow> (case known (symbol_part o1, builtin_part o1) of
           Inl e \<Rightarrow> (case a64_invalid cx (message e) of Inl e' \<Rightarrow> Inl (e'\<lparr>code := code e\<rparr>) | Inr x \<Rightarrow> Inr x)
         | Inr a \<Rightarrow> let v = a + displacement_part o1 in Inr (v, en\<lparr>ag_known := ag_known en @ [(symbol_key o1, v)]\<rparr>))))"

section \<open>Normalization\<close>

definition a64_alloca :: "a64_context \<Rightarrow> machine_opcode \<Rightarrow> operand list \<Rightarrow> operand list result" where
  "a64_alloca cx c ops =
    (if c = IROp (OMisc O_Alloca) \<and> 1 < length ops
     then (case as_integer (ops ! 1) of
         None \<Rightarrow> Inr ops
       | Some n \<Rightarrow> if INT64_MAX - 15 < unat n then a64_invalid cx ''invalid stack allocation size''
                   else Inr (ops[1 := UIntOp ((n + 15) AND NOT 15)]))
     else Inr ops)"

definition lowered_target :: "operand \<Rightarrow> bool" where
  "lowered_target o1 = (case symbol_part o1 of Some s \<Rightarrow> ms_signature s \<noteq> None | None \<Rightarrow> False)"

fun a64_symbols :: "a64_context \<Rightarrow> bool \<Rightarrow> nat \<Rightarrow> operand list \<Rightarrow> a64_engine \<Rightarrow> (operand list \<times> a64_engine) result" where
  "a64_symbols cx lowered n [] en = Inr ([], en)"
| "a64_symbols cx lowered n (o1 # ops) en =
    (if \<not> is_symbolic o1 \<or> (lowered_target o1 \<and> n = 0 \<and> lowered)
     then rbind (a64_symbols cx lowered (n + 1) ops en) (\<lambda>(ops, en). Inr (o1 # ops, en))
     else rbind (a64_resolve cx o1 en) (\<lambda>(v, en).
          rbind (a64_symbols cx lowered (n + 1) ops en) (\<lambda>(ops, en). Inr (UIntOp v # ops, en))))"

definition a64_normalize :: "a64_context \<Rightarrow> machine_opcode \<Rightarrow> bool \<Rightarrow> operand list \<Rightarrow> a64_engine \<Rightarrow> (operand list \<times> a64_engine) result" where
  "a64_normalize cx c lowered ops en =
    rbind (a64_alloca cx c ops) (\<lambda>ops.
      if ax_known cx = None then Inr (ops, en) else a64_symbols cx lowered 0 ops en)"

section \<open>Fields\<close>

text \<open>The instruction word under construction and the bits that are owned.\<close>

type_synonym word_bits = "u32 \<times> u32"

definition set_field :: "a64_context \<Rightarrow> u32 \<Rightarrow> nat \<Rightarrow> nat \<Rightarrow> word_bits \<Rightarrow> word_bits result" where
  "set_field cx v bits shift w =
    (let m = push_bit shift (mask bits)
     in if mask bits < v \<or> snd w AND m \<noteq> 0 then a64_invalid cx ''invalid encoding field''
        else Inr (fst w OR push_bit shift v, snd w OR m))"

text \<open>The size of the addressed unit.\<close>

primrec kind_scale :: "kind \<Rightarrow> nat" where
  "kind_scale K_Bool = 8" | "kind_scale K_I8 = 1" | "kind_scale K_U8 = 1" | "kind_scale K_I16 = 2"
| "kind_scale K_U16 = 2" | "kind_scale K_I32 = 4" | "kind_scale K_U32 = 4" | "kind_scale K_I64 = 8"
| "kind_scale K_U64 = 8" | "kind_scale K_F32 = 4" | "kind_scale K_F64 = 8" | "kind_scale K_LongDouble = 16"
| "kind_scale K_Pointer = 8" | "kind_scale K_Block = 8" | "kind_scale K_ReturnBlock = 8" | "kind_scale K_Undef = 8"
| "kind_scale K_Vector = 16"

definition a64_nth :: "operand list \<Rightarrow> nat \<Rightarrow> operand option" where
  "a64_nth ops n = (if n < length ops then Some (ops ! n) else None)"

definition integer_at :: "operand list \<Rightarrow> nat \<Rightarrow> u64 option" where
  "integer_at ops n = Option.bind (a64_nth ops n) as_integer"

definition register_field :: "a64_context \<Rightarrow> operand list \<Rightarrow> a64_field \<Rightarrow> word_bits \<Rightarrow> word_bits result" where
  "register_field cx ops f w =
    rbind (if af_flags f = 1 then Inr (af_parameter f)
           else case a64_nth ops (af_parameter f) of
             None \<Rightarrow> a64_invalid cx ''missing register operand''
           | Some o1 \<Rightarrow> (case as_physical o1 of
               None \<Rightarrow> a64_invalid cx ''unallocated encoding register''
             | Some p \<Rightarrow> if af_flags f = 2
                 then (if pr_encoding p < 32 then a64_invalid cx ''expected vector register'' else Inr (pr_encoding p - 32))
                 else Inr (pr_encoding p)))
      (\<lambda>r. set_field cx (of_nat r) 5 (af_shift f) w)"

definition bit_field :: "a64_context \<Rightarrow> machine_opcode \<Rightarrow> operand list \<Rightarrow> a64_field \<Rightarrow> word_bits \<Rightarrow> word_bits result" where
  "bit_field cx c ops f w =
    (if length ops \<le> af_parameter f then a64_invalid cx ''missing native vector immediate''
     else case as_integer (ops ! af_parameter f) of
       None \<Rightarrow> a64_invalid cx ''invalid native vector immediate''
     | Some v \<Rightarrow> rbind (set_field cx (ucast v) (af_flags f) (af_shift f) w) (\<lambda>w.
         if c = Pseudo (NativeOp A64VectorExtract) then set_field cx (if v AND 7 = 0 then 1 else 0) 1 30 w else Inr w))"

definition memory_at :: "operand list \<Rightarrow> machine_memory option" where
  "memory_at ops = (case Option.bind (a64_nth ops 0) as_memory of
     Some m \<Rightarrow> Some m | None \<Rightarrow> Option.bind (a64_nth ops 1) as_memory)"

definition indexed_field :: "a64_context \<Rightarrow> machine_memory \<Rightarrow> word_bits \<Rightarrow> word_bits result" where
  "indexed_field cx m w =
    rbind (case mm_index m of
        None \<Rightarrow> Inr 31
      | Some (PhysicalReg p) \<Rightarrow> Inr (pr_encoding p)
      | Some (VirtualReg _) \<Rightarrow> a64_invalid cx ''unallocated memory index'') (\<lambda>index.
    rbind (set_field cx (of_nat index) 5 16 w) (set_field cx (if mm_scale m = 1 then 6 else 7) 4 12))"

definition displaced_field :: "a64_context \<Rightarrow> machine_memory \<Rightarrow> word_bits \<Rightarrow> word_bits result" where
  "displaced_field cx m w =
    (let unit = int (kind_scale (type_kind (mm_type m)))
     in if mm_displacement m < 0 \<or> mm_displacement m mod unit \<noteq> 0 then a64_invalid cx ''invalid memory displacement''
        else set_field cx (word_of_int (mm_displacement m div unit)) 12 10 w)"

definition memory_field :: "a64_context \<Rightarrow> operand list \<Rightarrow> a64_field \<Rightarrow> word_bits \<Rightarrow> word_bits result" where
  "memory_field cx ops f w = (case memory_at ops of
     None \<Rightarrow> a64_invalid cx ''invalid encoded memory base''
   | Some m \<Rightarrow> (case mm_base m of
       Some (PhysicalReg p) \<Rightarrow> rbind (set_field cx (of_nat (pr_encoding p)) 5 5 w)
         (if af_kind f = AF_IndexedMemory then indexed_field cx m else displaced_field cx m)
     | _ \<Rightarrow> a64_invalid cx ''invalid encoded memory base''))"

definition shift_field :: "a64_context \<Rightarrow> operand list \<Rightarrow> a64_field \<Rightarrow> word_bits \<Rightarrow> word_bits result" where
  "shift_field cx ops f w =
    (let bits = (if af_kind f = AF_RightShift then 64 else af_parameter f)
     in case integer_at ops 2 of
          None \<Rightarrow> a64_invalid cx ''invalid shift immediate''
        | Some v \<Rightarrow>
            if bits \<le> unat v then a64_invalid cx ''invalid shift immediate''
            else if af_kind f = AF_RightShift then set_field cx (ucast v) 6 16 w
            else rbind (set_field cx (ucast ((of_nat bits - v) AND (of_nat bits - 1))) 6 16 w)
                   (set_field cx (ucast (of_nat bits - 1 - v)) 6 10))"

text \<open>The non-zero chunks of a wide immediate with their positions; the first of an inverted one is kept inverted.\<close>

definition wide_chunks :: "bool \<Rightarrow> u64 \<Rightarrow> (u64 \<times> nat) list" where
  "wide_chunks inverted value =
    (let v = (if inverted then NOT value else value);
         ns = filter (\<lambda>n. wide_chunk v n \<noteq> 0) [0..<4];
         immediates = map (\<lambda>(k, n). (if inverted \<and> 0 < k then NOT (wide_chunk v n) AND 65535 else wide_chunk v n, n))
                        (zip [0..<length ns] ns)
     in if v = 0 then [(0, 0)] else immediates)"

definition wide_fields :: "a64_context \<Rightarrow> u64 \<times> nat \<Rightarrow> word_bits \<Rightarrow> word_bits result" where
  "wide_fields cx c w = rbind (set_field cx (ucast (fst c)) 16 5 w) (set_field cx (of_nat (snd c)) 2 21)"

definition wide_relocation :: "operand \<Rightarrow> nat \<Rightarrow> nat \<Rightarrow> (machine_symbol, builtin) relocation" where
  "wide_relocation o1 at shift = \<lparr>rel_kind = WideMove, rel_offset = at, rel_shift = shift, rel_symbol = symbol_part o1,
     rel_builtin = builtin_part o1, rel_displacement = displacement_part o1\<rparr>"

definition wide_field :: "a64_context \<Rightarrow> operand list \<Rightarrow> a64_field \<Rightarrow> word_bits \<times> a64_engine \<Rightarrow> (word_bits \<times> a64_engine) result" where
  "wide_field cx ops f = (\<lambda>(w, en). case a64_nth ops 1 of
     None \<Rightarrow> a64_invalid cx ''invalid symbolic immediate''
   | Some o1 \<Rightarrow> (case as_integer o1 of
       None \<Rightarrow>
         if \<not> is_symbolic o1 \<or> af_flags f \<noteq> 0 then a64_invalid cx ''invalid symbolic immediate''
         else let r = wide_relocation o1 (length (ag_bytes en)) (af_parameter f * 16)
              in rbind (wide_fields cx (0, af_parameter f) w) (\<lambda>w. Inr (w, en\<lparr>ag_relocations := ag_relocations en @ [r]\<rparr>))
     | Some v \<Rightarrow> let cs = wide_chunks (af_flags f \<noteq> 0) v
         in if length cs \<le> af_parameter f then a64_invalid cx ''invalid wide immediate index''
            else rbind (wide_fields cx (cs ! af_parameter f) w) (\<lambda>w. Inr (w, en))))"

definition arithmetic_field :: "a64_context \<Rightarrow> operand list \<Rightarrow> a64_field \<Rightarrow> word_bits \<Rightarrow> word_bits result" where
  "arithmetic_field cx ops f w = (case integer_at ops (if af_flags f \<noteq> 0 then 1 else 2) of
     None \<Rightarrow> a64_invalid cx ''noninteger arithmetic immediate''
   | Some v \<Rightarrow>
       if af_flags f \<noteq> 0 \<and> SIZE_MAX - 15 < unat v then a64_invalid cx ''arithmetic roundup overflow''
       else let v = (if af_flags f \<noteq> 0 then (v + 15) AND NOT 15 else v); shift = (4096 \<le> unat v)
            in if shift \<and> (v AND 4095 \<noteq> 0 \<or> 4096 \<le> unat (drop_bit 12 v)) then a64_invalid cx ''arithmetic immediate out of range''
               else rbind (set_field cx (ucast (if shift then drop_bit 12 v else v)) 12 10 w)
                      (set_field cx (of_bool shift) 2 22))"

text \<open>What a word gathers: its bits, the engine, and where a switch table displacement goes.\<close>

type_synonym word_state = "word_bits \<times> nat option \<times> a64_engine"

definition label_fixup_field :: "a64_context \<Rightarrow> machine_opcode \<Rightarrow> operand list \<Rightarrow> a64_field \<Rightarrow> word_state \<Rightarrow> word_state result" where
  "label_fixup_field cx c ops f = (\<lambda>(w, at, en).
    let address = (c = IROp (OMisc O_LAddr)); n = (if address then 1 else 0)
    in case Option.bind (a64_nth ops n) as_label of
         None \<Rightarrow> a64_invalid cx ''nonlabel branch relocation''
       | Some l \<Rightarrow> Inr (w, at, en\<lparr>ag_fixups := ag_fixups en @ [\<lparr>xf_label = l, xf_offset = length (ag_bytes en), xf_absolute = False,
           xf_short = (af_kind f = AF_ShortLabel), xf_operand = n, xf_address = address\<rparr>]\<rparr>))"

definition apply_a64_field :: "a64_context \<Rightarrow> machine_opcode \<Rightarrow> operand list \<Rightarrow> a64_field \<Rightarrow> word_state \<Rightarrow> word_state result" where
  "apply_a64_field cx c ops f = (\<lambda>(w, at, en). case af_kind f of
     AF_Register \<Rightarrow> rbind (register_field cx ops f w) (\<lambda>w. Inr (w, at, en))
   | AF_BitImmediate \<Rightarrow> rbind (bit_field cx c ops f w) (\<lambda>w. Inr (w, at, en))
   | AF_IndexedMemory \<Rightarrow> rbind (memory_field cx ops f w) (\<lambda>w. Inr (w, at, en))
   | AF_DisplacedMemory \<Rightarrow> rbind (memory_field cx ops f w) (\<lambda>w. Inr (w, at, en))
   | AF_RightShift \<Rightarrow> rbind (shift_field cx ops f w) (\<lambda>w. Inr (w, at, en))
   | AF_LeftShift \<Rightarrow> rbind (shift_field cx ops f w) (\<lambda>w. Inr (w, at, en))
   | AF_WideImmediate \<Rightarrow> rbind (wide_field cx ops f (w, en)) (\<lambda>(w, en). Inr (w, at, en))
   | AF_ArithmeticImmediate \<Rightarrow> rbind (arithmetic_field cx ops f w) (\<lambda>w. Inr (w, at, en))
   | AF_ImmediateR \<Rightarrow> rbind (set_field cx (of_nat (af_parameter f)) 6 16 w) (\<lambda>w. Inr (w, at, en))
   | AF_ImmediateS \<Rightarrow> rbind (set_field cx (of_nat (af_parameter f)) 6 10 w) (\<lambda>w. Inr (w, at, en))
   | AF_ShortLabel \<Rightarrow> label_fixup_field cx c ops f (w, at, en)
   | AF_Label \<Rightarrow> label_fixup_field cx c ops f (w, at, en)
   | AF_SwitchTable \<Rightarrow> if at \<noteq> None then a64_invalid cx ''duplicate switch table'' else Inr (w, Some (length (ag_bytes en)), en))"

fun apply_a64_fields :: "a64_context \<Rightarrow> machine_opcode \<Rightarrow> operand list \<Rightarrow> a64_field list \<Rightarrow> word_state \<Rightarrow> word_state result" where
  "apply_a64_fields cx c ops [] st = Inr st"
| "apply_a64_fields cx c ops (f # fs) st = rbind (apply_a64_field cx c ops f st) (apply_a64_fields cx c ops fs)"

section \<open>Instructions\<close>

definition a64_word_fields :: "a64_recipe \<Rightarrow> a64_word \<Rightarrow> a64_field list" where
  "a64_word_fields r w = take (aw_count w) (drop (aw_first w) (ar_fields r))"

fun encode_a64_words :: "a64_context \<Rightarrow> machine_opcode \<Rightarrow> operand list \<Rightarrow> a64_recipe \<Rightarrow> a64_word list \<Rightarrow> nat option \<times> a64_engine \<Rightarrow> (nat option \<times> a64_engine) result" where
  "encode_a64_words cx c ops r [] st = Inr st"
| "encode_a64_words cx c ops r (w # ws) (at, en) =
    rbind (apply_a64_fields cx c ops (a64_word_fields r w) ((aw_opcode w, aw_mask w), at, en)) (\<lambda>(bits, at, en).
      encode_a64_words cx c ops r ws (at, a64_put (ucast (fst bits)) 4 en))"

fun a64_targets :: "a64_context \<Rightarrow> nat \<Rightarrow> operand list \<Rightarrow> a64_engine \<Rightarrow> a64_engine result" where
  "a64_targets cx n [] en = Inr en"
| "a64_targets cx n (o1 # ops) en = (case as_label o1 of
     None \<Rightarrow> a64_invalid cx ''nonlabel switch target''
   | Some l \<Rightarrow> a64_targets cx (n + 1) ops (a64_put 0 8 (en\<lparr>ag_fixups := ag_fixups en @
       [\<lparr>xf_label = l, xf_offset = length (ag_bytes en), xf_absolute = True, xf_short = False, xf_operand = n, xf_address = False\<rparr>]\<rparr>)))"

definition a64_switch :: "a64_context \<Rightarrow> nat \<Rightarrow> operand list \<Rightarrow> a64_engine \<Rightarrow> a64_engine result" where
  "a64_switch cx at ops en =
    (let en = (if length (ag_bytes en) mod 8 = 4 then a64_put 0 4 en else en);
         displacement = (length (ag_bytes en) - at) div 4
     in if 2 ^ 19 \<le> displacement then a64_invalid cx ''switch table offset out of range''
        else a64_targets cx 1 (tl ops)
               (a64_set at (read_at (ag_bytes en) at 4 OR push_bit 5 (of_nat displacement)) 4 en))"

definition a64_instruction :: "a64_context \<Rightarrow> machine_opcode \<Rightarrow> operand list \<Rightarrow> a64_overflow \<Rightarrow> bool \<Rightarrow> nat \<Rightarrow> nat \<Rightarrow> a64_engine \<Rightarrow> a64_engine result" where
  "a64_instruction cx c ops ov lowered order shape en =
    rbind (a64_normalize cx c lowered ops en) (\<lambda>(ops, en).
      case aarch64_encoding_recipe (ax_ld_eq cx) (ax_table cx) (ax_encoding cx) c ops ov shape of
        None \<Rightarrow> a64_invalid cx (''no target encoding for '' @ opcode_name c @ '' #'' @ decimal order)
      | Some r \<Rightarrow> rbind (encode_a64_words cx c ops r (ar_words r) (None, en)) (\<lambda>(at, en).
          case at of None \<Rightarrow> Inr en | Some at \<Rightarrow> a64_switch cx at ops en))"

section \<open>Functions\<close>

text \<open>Which instruction set the flags last, for the overflow branches.\<close>

definition next_overflow :: "machine_opcode \<Rightarrow> a64_overflow \<Rightarrow> a64_overflow" where
  "next_overflow c ov =
    (if c \<in> {IROp (OOvf O_Subo), IROp (OOvf O_Subos)} then OverflowSubtract
     else if c \<in> {IROp (OOvf O_Mulo), IROp (OOvf O_Mulos), IROp (OOvf O_UMulo), IROp (OOvf O_UMulos)} then OverflowMultiply
     else if c \<in> {IROp (OOvf O_Addo), IROp (OOvf O_Addos)} then OverflowDefault
     else case c of IROp op \<Rightarrow> if control_flow (instruction_descriptor op) = FlowBranch then OverflowDefault else ov
       | Pseudo _ \<Rightarrow> ov)"

fun a64_instructions :: "a64_context \<Rightarrow> machine_instruction list \<Rightarrow> a64_overflow \<times> a64_engine \<Rightarrow> (a64_overflow \<times> a64_engine) result" where
  "a64_instructions cx [] st = Inr st"
| "a64_instructions cx (i # is) (ov, en) =
    (if mi_opcode i = Pseudo PseudoUse then a64_instructions cx is (ov, en)
     else rbind (a64_instruction cx (mi_opcode i) (mi_operands i) ov (mi_lowered_call i) (mi_order i) (mi_shape i) en)
       (\<lambda>en. a64_instructions cx is (next_overflow (mi_opcode i) ov, en)))"

text \<open>\<open>emplace\<close> keeps the first offset of a label.\<close>

definition place_labels :: "nat list \<Rightarrow> nat \<Rightarrow> (nat \<rightharpoonup> nat) \<Rightarrow> (nat \<rightharpoonup> nat)" where
  "place_labels ls at labels = fold (\<lambda>l m. if m l = None then m(l \<mapsto> at) else m) ls labels"

fun a64_blocks :: "a64_context \<Rightarrow> machine_block list \<Rightarrow> (nat \<rightharpoonup> nat) \<times> a64_overflow \<times> a64_engine \<Rightarrow> ((nat \<rightharpoonup> nat) \<times> a64_engine) result" where
  "a64_blocks cx [] (labels, ov, en) = Inr (labels, en)"
| "a64_blocks cx (b # bs) (labels, ov, en) =
    (let ov = (if mb_labels b = [] then ov else OverflowDefault);
         labels = place_labels (mb_labels b) (length (ag_bytes en)) labels
     in rbind (a64_instructions cx (mb_instructions b) (ov, en)) (\<lambda>(ov, en). a64_blocks cx bs (labels, ov, en)))"

definition a64_local :: "nat \<Rightarrow> (machine_symbol, builtin) relocation" where
  "a64_local at = \<lparr>rel_kind = LocalAddress, rel_offset = at, rel_shift = 0, rel_symbol = None, rel_builtin = None, rel_displacement = 0\<rparr>"

definition a64_fix :: "a64_context \<Rightarrow> (nat \<rightharpoonup> nat) \<Rightarrow> a64_fixup \<Rightarrow> a64_engine \<Rightarrow> a64_engine result" where
  "a64_fix cx labels r en = (case labels (xf_label r) of
     None \<Rightarrow> a64_invalid cx ''unknown code label''
   | Some at \<Rightarrow>
       let w = read_at (ag_bytes en) (xf_offset r) 4; d = int at - int (xf_offset r)
       in if xf_absolute r
          then Inr (a64_set (xf_offset r) (of_nat at) 8 (en\<lparr>ag_relocations := ag_relocations en @ [a64_local (xf_offset r)]\<rparr>))
          else if xf_address r
          then (if d < - (2 ^ 20) \<or> 2 ^ 20 \<le> d then a64_invalid cx ''label address displacement out of range''
                else Inr (a64_set (xf_offset r) (w OR address21_bits d) 4 en))
          else case aarch64_branch_displacement d (xf_short r) of
            Inl e \<Rightarrow> a64_invalid cx (message e)
          | Inr v \<Rightarrow> Inr (a64_set (xf_offset r) (w OR v) 4 en))"

fun a64_fixes :: "a64_context \<Rightarrow> (nat \<rightharpoonup> nat) \<Rightarrow> a64_fixup list \<Rightarrow> a64_engine \<Rightarrow> a64_engine result" where
  "a64_fixes cx labels [] en = Inr en"
| "a64_fixes cx labels (r # rs) en = rbind (a64_fix cx labels r en) (a64_fixes cx labels rs)"

definition a64_pad :: "a64_engine \<Rightarrow> a64_engine" where
  "a64_pad en = en\<lparr>ag_bytes := ag_bytes en @ replicate (round_up 16 (length (ag_bytes en)) - length (ag_bytes en)) 0\<rparr>"

fun a64_labels :: "(nat \<rightharpoonup> nat) \<Rightarrow> machine_label list \<Rightarrow> encoded_label list result" where
  "a64_labels labels [] = Inr []"
| "a64_labels labels (l # ls) = (case labels (ml_pointer l) of
     None \<Rightarrow> mk_error InvalidArgument ''out_of_range''
   | Some at \<Rightarrow> rbind (a64_labels labels ls) (\<lambda>rest. Inr (\<lparr>el_name = ml_name l, el_offset = at, el_ordinal = ml_ordinal l\<rparr> # rest)))"

definition a64_lay_out :: "a64_context \<Rightarrow> machine_function \<Rightarrow> ((nat \<rightharpoonup> nat) \<times> a64_engine) result" where
  "a64_lay_out cx f = a64_blocks cx (mf_blocks f) (Map.empty, OverflowDefault, a64_empty)"

definition a64_finish :: "nat \<Rightarrow> a64_context \<Rightarrow> machine_function \<Rightarrow> (nat \<rightharpoonup> nat) \<times> a64_engine \<Rightarrow> (machine_symbol, builtin) compiled result" where
  "a64_finish identity cx f = (\<lambda>(labels, en).
    rbind (a64_fixes cx labels (ag_fixups en) en) (\<lambda>en.
    rbind (a64_labels labels (mf_labels f)) (\<lambda>ls.
      let en = a64_pad en
      in finish_artifact identity \<lparr>cd_module = ax_module cx, cd_name = ax_name cx, cd_architecture = tm_architecture (mf_target f),
           cd_bytes = ag_bytes en, cd_labels = ls, cd_relocations = ag_relocations en, cd_constants = []\<rparr>)))"

definition encode_aarch64 :: "nat \<Rightarrow> a64_context \<Rightarrow> machine_function \<Rightarrow> (machine_symbol, builtin) compiled result" where
  "encode_aarch64 identity cx f = rbind (a64_lay_out cx f) (a64_finish identity cx f)"

end
