(* ===== verification/AArch64Layout.thy ===== *)
theory AArch64Layout
  imports AArch64Encoding CodeFields
begin

text \<open>
  Properties of the AArch64 encoder: a field never writes a bit that another owns, the bits of a branch stay clear
  until it is patched, and after patching every recorded branch, label address and switch entry has the offset of its label.
\<close>

section \<open>The bits of a field\<close>

lemma masked_value: "v \<le> mask b \<Longrightarrow> take_bit b v = (v :: 'a::len word)"
proof -
  assume "v \<le> mask b"
  then have "uint v \<le> uint (mask b :: 'a word)" by (simp add: word_le_def)
  also have "\<dots> < 2 ^ b" using and_mask_lt_2p [of "mask b :: 'a word" b] by simp
  finally have "v AND mask b = v" by (simp add: mask_eq_iff)
  then show ?thesis by (simp add: take_bit_eq_mask)
qed

lemma push_clear: "v \<le> mask b \<Longrightarrow> push_bit s (mask b) AND X = 0 \<Longrightarrow> push_bit s v AND X = (0 :: 'a::len word)"
proof (rule bit_word_eqI)
  fix k
  assume v: "v \<le> mask b" and z: "push_bit s (mask b) AND X = 0" and k: "k < LENGTH('a)"
  have "bit v j \<Longrightarrow> j < b" for j using masked_value [OF v] by (metis bit_take_bit_iff)
  moreover have "\<not> bit (push_bit s (mask b) AND X) k" using z by simp
  ultimately show "bit (push_bit s v AND X) k = bit (0 :: 'a word) k"
    using k by (auto simp: bit_simps)
qed

lemma or_and_zero: "(a OR b) AND X = (0 :: 'a::len word) \<longleftrightarrow> a AND X = 0 \<and> b AND X = 0"
  by (auto simp: bit_eq_iff bit_simps)

lemma set_field_effect:
  "set_field cx v bits shift w = Inr w' \<Longrightarrow> w' = (fst w OR push_bit shift v, snd w OR push_bit shift (mask bits)) \<and> v \<le> mask bits \<and>
    snd w AND push_bit shift (mask bits) = 0"
  by (auto simp: set_field_def Let_def a64_invalid_def split: if_splits)

lemma set_field_clear:
  assumes "set_field cx v bits shift w = Inr w'" "fst w AND X = 0" "push_bit shift (mask bits) AND X = 0"
  shows "fst w' AND X = 0"
  using set_field_effect [OF assms(1)] push_clear [of v bits shift X] assms(2,3) by (simp add: or_and_zero)

lemma a64_invalid_neq [simp]: "a64_invalid cx why \<noteq> Inr v"
  by (simp add: a64_invalid_def)

text \<open>The bits a field may set.\<close>

definition field_bits :: "a64_field \<Rightarrow> u32" where
  "field_bits f = (case af_kind f of
     AF_Register \<Rightarrow> push_bit (af_shift f) (mask 5)
   | AF_BitImmediate \<Rightarrow> push_bit (af_shift f) (mask (af_flags f)) OR push_bit 30 (mask 1)
   | AF_IndexedMemory \<Rightarrow> push_bit 5 (mask 5) OR push_bit 16 (mask 5) OR push_bit 12 (mask 4)
   | AF_DisplacedMemory \<Rightarrow> push_bit 5 (mask 5) OR push_bit 10 (mask 12)
   | AF_RightShift \<Rightarrow> push_bit 16 (mask 6)
   | AF_LeftShift \<Rightarrow> push_bit 16 (mask 6) OR push_bit 10 (mask 6)
   | AF_WideImmediate \<Rightarrow> push_bit 5 (mask 16) OR push_bit 21 (mask 2)
   | AF_ArithmeticImmediate \<Rightarrow> push_bit 10 (mask 12) OR push_bit 22 (mask 2)
   | AF_ImmediateR \<Rightarrow> push_bit 16 (mask 6)
   | AF_ImmediateS \<Rightarrow> push_bit 10 (mask 6)
   | _ \<Rightarrow> 0)"

lemma wide_fields_clear:
  "wide_fields cx c w = Inr w' \<Longrightarrow> fst w AND X = 0 \<Longrightarrow> push_bit 5 (mask 16) AND X = 0 \<Longrightarrow> push_bit 21 (mask 2) AND X = 0 \<Longrightarrow> fst w' AND X = 0"
  by (auto simp: wide_fields_def rbind_eq_Inr dest!: set_field_clear)

lemma memory_field_clear:
  assumes "memory_field cx ops f w = Inr w'" "fst w AND X = 0" "field_bits f AND X = 0" "af_kind f = AF_IndexedMemory \<or> af_kind f = AF_DisplacedMemory"
  shows "fst w' AND X = 0"
  using assms
  by (auto simp: memory_field_def indexed_field_def displaced_field_def rbind_eq_Inr field_bits_def or_and_zero Let_def
      split: option.splits machine_register.splits if_splits dest!: set_field_clear)

lemma apply_field_clear:
  assumes "apply_a64_field cx c ops f (w, at, en) = Inr (w', at', en')" "fst w AND X = 0" "field_bits f AND X = 0"
  shows "fst w' AND X = 0"
proof (cases "af_kind f")
  case AF_Register
  then show ?thesis using assms
    by (auto simp: apply_a64_field_def register_field_def rbind_eq_Inr field_bits_def dest!: set_field_clear)
next
  case AF_BitImmediate
  then show ?thesis using assms
    by (auto simp: apply_a64_field_def bit_field_def rbind_eq_Inr field_bits_def or_and_zero split: if_splits option.splits dest!: set_field_clear)
next
  case AF_IndexedMemory
  then show ?thesis using assms by (auto simp: apply_a64_field_def rbind_eq_Inr dest!: memory_field_clear)
next
  case AF_DisplacedMemory
  then show ?thesis using assms by (auto simp: apply_a64_field_def rbind_eq_Inr dest!: memory_field_clear)
next
  case AF_RightShift
  then show ?thesis using assms
    by (auto simp: apply_a64_field_def shift_field_def rbind_eq_Inr field_bits_def Let_def split: if_splits option.splits dest!: set_field_clear)
next
  case AF_LeftShift
  then show ?thesis using assms
    by (auto simp: apply_a64_field_def shift_field_def rbind_eq_Inr field_bits_def or_and_zero Let_def split: if_splits option.splits dest!: set_field_clear)
next
  case AF_WideImmediate
  then show ?thesis using assms
    by (auto simp: apply_a64_field_def wide_field_def rbind_eq_Inr field_bits_def or_and_zero Let_def split: if_splits option.splits dest!: wide_fields_clear)
next
  case AF_ArithmeticImmediate
  then show ?thesis using assms
    by (auto simp: apply_a64_field_def arithmetic_field_def rbind_eq_Inr field_bits_def or_and_zero Let_def split: if_splits option.splits dest!: set_field_clear)
qed (use assms in \<open>auto simp: apply_a64_field_def label_fixup_field_def rbind_eq_Inr field_bits_def Let_def split: if_splits option.splits dest!: set_field_clear\<close>)

section \<open>Words with one open field\<close>

definition is_label :: "a64_field \<Rightarrow> bool" where
  "is_label f = (af_kind f = AF_ShortLabel \<or> af_kind f = AF_Label)"

definition is_table :: "a64_field \<Rightarrow> bool" where
  "is_table f = (af_kind f = AF_SwitchTable)"

text \<open>The bits a fixup will write: the two parts of an ADR, or the offset of a branch.\<close>

definition open_bits :: "bool \<Rightarrow> bool \<Rightarrow> u32" where
  "open_bits address short_branch =
    (if address then push_bit 29 (mask 2) OR push_bit 5 (mask 19) else if short_branch then push_bit 5 (mask 19) else mask 26)"

definition word_separate :: "bool \<Rightarrow> a64_word \<Rightarrow> a64_field list \<Rightarrow> bool" where
  "word_separate address w fs = (case filter (\<lambda>f. is_label f \<or> is_table f) fs of
     [] \<Rightarrow> True
   | [l] \<Rightarrow> is_table l \<or> (let X = open_bits address (af_kind l = AF_ShortLabel)
       in aw_opcode w AND X = 0 \<and> list_all (\<lambda>f. field_bits f AND X = 0) fs)
   | _ \<Rightarrow> False)"

lemma apply_fields_clear:
  assumes "apply_a64_fields cx c ops fs (w, at, en) = Inr (w', at', en')" "fst w AND X = 0" "list_all (\<lambda>f. field_bits f AND X = 0) fs"
  shows "fst w' AND X = 0"
  using assms
proof (induction fs arbitrary: w at en)
  case (Cons f fs)
  then obtain w1 at1 en1 where a: "apply_a64_field cx c ops f (w, at, en) = Inr (w1, at1, en1)"
    "apply_a64_fields cx c ops fs (w1, at1, en1) = Inr (w', at', en')"
    by (auto simp: rbind_eq_Inr)
  show ?case using Cons.IH [OF a(2)] apply_field_clear [OF a(1)] Cons.prems(2,3) by simp
qed simp

text \<open>A field leaves the bytes alone and records at most one fixup or table, at the current offset.\<close>

definition label_record :: "machine_opcode \<Rightarrow> nat \<Rightarrow> a64_field \<Rightarrow> a64_fixup \<Rightarrow> bool" where
  "label_record c at f r \<longleftrightarrow> xf_offset r = at \<and> \<not> xf_absolute r \<and> xf_address r = (c = IROp (OMisc O_LAddr)) \<and>
     xf_short r = (af_kind f = AF_ShortLabel)"

lemma apply_field_engine:
  assumes "apply_a64_field cx c ops f (w, at, en) = Inr (w', at', en')"
  shows "ag_bytes en' = ag_bytes en"
    "if is_label f then at' = at \<and> (\<exists>r. ag_fixups en' = ag_fixups en @ [r] \<and> label_record c (length (ag_bytes en)) f r)
     else ag_fixups en' = ag_fixups en \<and> (if is_table f then at = None \<and> at' = Some (length (ag_bytes en)) else at' = at)"
  using assms
  by (cases "af_kind f"; auto simp: apply_a64_field_def rbind_eq_Inr is_label_def is_table_def wide_field_def label_fixup_field_def label_record_def
      Let_def split: if_splits option.splits)+

lemma apply_fields_engine:
  assumes "apply_a64_fields cx c ops fs (w, at, en) = Inr (w', at', en')"
  shows "ag_bytes en' = ag_bytes en"
    "filter (\<lambda>f. is_label f \<or> is_table f) fs = [] \<Longrightarrow> ag_fixups en' = ag_fixups en \<and> at' = at"
    "filter (\<lambda>f. is_label f \<or> is_table f) fs = [l] \<Longrightarrow>
       if is_label l then at' = at \<and> (\<exists>r. ag_fixups en' = ag_fixups en @ [r] \<and> label_record c (length (ag_bytes en)) l r)
       else ag_fixups en' = ag_fixups en \<and> at = None \<and> at' = Some (length (ag_bytes en))"
  using assms
proof (induction fs arbitrary: w at en)
  case (Cons f fs)
  {
    case 1
    then show ?case using Cons.IH(1) by (auto simp: rbind_eq_Inr dest: apply_field_engine(1))
  next
    case 2
    then obtain w1 at1 en1 where a: "apply_a64_field cx c ops f (w, at, en) = Inr (w1, at1, en1)"
      "apply_a64_fields cx c ops fs (w1, at1, en1) = Inr (w', at', en')"
      by (auto simp: rbind_eq_Inr)
    show ?case using Cons.IH(2) [OF _ a(2)] apply_field_engine(2) [OF a(1)] 2 by (auto split: if_splits)
  next
    case 3
    then obtain w1 at1 en1 where a: "apply_a64_field cx c ops f (w, at, en) = Inr (w1, at1, en1)"
      "apply_a64_fields cx c ops fs (w1, at1, en1) = Inr (w', at', en')"
      by (auto simp: rbind_eq_Inr)
    note e = apply_field_engine [OF a(1)]
    show ?case
    proof (cases "is_label f \<or> is_table f")
      case True
      then have "filter (\<lambda>f. is_label f \<or> is_table f) fs = []" "f = l" using 3 by auto
      then show ?thesis using Cons.IH(2) [OF _ a(2)] e True by (auto split: if_splits)
    next
      case False
      then show ?thesis using Cons.IH(3) [OF _ a(2)] e 3 by (auto split: if_splits)
    qed
  }
qed simp_all

section \<open>The invariant of the engine\<close>

definition xf_size :: "a64_fixup \<Rightarrow> nat" where
  "xf_size r = (if xf_absolute r then 8 else 4)"

definition a64_fields :: "nat option \<Rightarrow> a64_engine \<Rightarrow> (nat \<times> nat) list" where
  "a64_fields at en = (case at of None \<Rightarrow> [] | Some a \<Rightarrow> [(a, a + 4)]) @ map (\<lambda>r. (xf_offset r, xf_offset r + xf_size r)) (ag_fixups en)"

text \<open>The bits a branch or an address will be written to are clear.\<close>

definition fixup_clear :: "bytes \<Rightarrow> a64_fixup \<Rightarrow> bool" where
  "fixup_clear b r \<longleftrightarrow> xf_absolute r \<or> read_at b (xf_offset r) 4 AND ucast (open_bits (xf_address r) (xf_short r)) = 0"

definition a64_ok :: "nat option \<Rightarrow> a64_engine \<Rightarrow> bool" where
  "a64_ok at en \<longleftrightarrow> fields_within 0 (length (ag_bytes en)) (a64_fields at en) \<and> list_all (fixup_clear (ag_bytes en)) (ag_fixups en)"

lemma a64_ok_empty: "a64_ok None a64_empty"
  by (simp add: a64_ok_def a64_empty_def a64_fields_def)

lemma a64_ok_fixup:
  assumes "a64_ok at en" "r \<in> set (ag_fixups en)"
  shows "xf_offset r + xf_size r \<le> length (ag_bytes en)" "fixup_clear (ag_bytes en) r"
  using assms unfolding a64_ok_def a64_fields_def list_all_iff fields_within_def by fastforce+

text \<open>A step that keeps the words of the recorded fixups and adds one field at the end.\<close>

definition same_fixups :: "a64_engine \<Rightarrow> bytes \<Rightarrow> bool" where
  "same_fixups en b \<longleftrightarrow> list_all (\<lambda>r. read_at b (xf_offset r) (xf_size r) = read_at (ag_bytes en) (xf_offset r) (xf_size r)) (ag_fixups en)"

lemma same_fixups_clear: "a64_ok at en \<Longrightarrow> same_fixups en b \<Longrightarrow> list_all (fixup_clear b) (ag_fixups en)"
  unfolding a64_ok_def same_fixups_def list_all_iff fixup_clear_def xf_size_def by (metis (full_types))

lemma same_fixups_append: "a64_ok at en \<Longrightarrow> same_fixups en (ag_bytes en @ cs)"
  by (auto simp: same_fixups_def list_all_iff read_at_append dest: a64_ok_fixup(1))

lemma a64_ok_grow:
  assumes "a64_ok at en" "ag_bytes en' = ag_bytes en @ cs" "ag_fixups en' = ag_fixups en"
  shows "a64_ok at en'"
  using assms(1) same_fixups_clear [OF assms(1) same_fixups_append [OF assms(1), of cs]] assms(2,3)
  by (auto simp: a64_ok_def a64_fields_def intro: fields_within_mono)

lemma a64_ok_add:
  assumes "a64_ok at en" "ag_bytes en' = ag_bytes en @ cs" "ag_fixups en' = ag_fixups en @ [r]"
    and "xf_offset r = length (ag_bytes en)" "xf_size r = length cs" "fixup_clear (ag_bytes en') r"
  shows "a64_ok at en'"
proof -
  have "0 < length cs" using assms(5) by (cases cs) (auto simp: xf_size_def split: if_splits)
  then have "grows (length (ag_bytes en)) (a64_fields at en) (length (ag_bytes en')) (a64_fields at en')"
    using assms by (intro grows_one [of _ "length (ag_bytes en)" "length (ag_bytes en')"]) (auto simp: a64_fields_def)
  then have "fields_within 0 (length (ag_bytes en')) (a64_fields at en')"
    by (rule grows_fields) (use assms(1) in \<open>simp add: a64_ok_def\<close>)
  then show ?thesis
    using same_fixups_clear [OF assms(1) same_fixups_append [OF assms(1), of cs]] assms(2,3,6) by (simp add: a64_ok_def)
qed

lemma a64_ok_table:
  assumes "a64_ok None en" "ag_bytes en' = ag_bytes en @ cs" "ag_fixups en' = ag_fixups en" "length cs = 4"
  shows "a64_ok (Some (length (ag_bytes en))) en'"
proof -
  have "grows (length (ag_bytes en)) (a64_fields None en) (length (ag_bytes en')) (a64_fields (Some (length (ag_bytes en))) en')"
    using assms by (intro grows_one [of _ "length (ag_bytes en)" "length (ag_bytes en')"]) (auto simp: a64_fields_def)
  then have "fields_within 0 (length (ag_bytes en')) (a64_fields (Some (length (ag_bytes en))) en')"
    by (rule grows_fields) (use assms(1) in \<open>simp add: a64_ok_def\<close>)
  then show ?thesis
    using same_fixups_clear [OF assms(1) same_fixups_append [OF assms(1), of cs]] assms(2,3) by (simp add: a64_ok_def)
qed

lemma a64_ok_drop: "a64_ok at en \<Longrightarrow> a64_ok None en"
  using fields_within_part [of 0 "length (ag_bytes en)" "a64_fields at en" "[]"] unfolding a64_ok_def a64_fields_def
  by (auto split: option.splits dest: fields_within_part [where xs = "[x]" for x, simplified])

section \<open>Words, instructions and blocks keep it\<close>

lemma word_read: "read_at (b @ put_le 4 (ucast (v :: u32))) (length b) 4 = ucast v"
proof -
  have "take_bit 32 (ucast v :: u64) = ucast v" by (rule bit_word_eqI) (auto simp: bit_simps dest: bit_imp_le_length)
  then show ?thesis using read_at_tail [of b 4 "ucast v" "[]"] by simp
qed

lemma clear_word:
  assumes "v AND X = (0 :: u32)" shows "ucast v AND ucast X = (0 :: u64)"
proof -
  have "ucast v AND ucast X = (ucast (v AND X :: u32) :: u64)" by (rule bit_word_eqI) (auto simp: bit_simps)
  then show ?thesis using assms by simp
qed

lemma encode_word_ok:
  assumes "word_separate (c = IROp (OMisc O_LAddr)) w fs" "a64_ok at en"
    and "apply_a64_fields cx c ops fs ((aw_opcode w, aw_mask w), at, en) = Inr (bits, at', en')"
  shows "a64_ok at' (a64_put (ucast (fst bits)) 4 en')"
proof -
  let ?ls = "filter (\<lambda>f. is_label f \<or> is_table f) fs" and ?L = "length (ag_bytes en)"
  note e = apply_fields_engine [OF assms(3)]
  have b: "ag_bytes (a64_put (ucast (fst bits)) 4 en') = ag_bytes en @ put_le 4 (ucast (fst bits))"
    using e(1) by (simp add: a64_put_def)
  have l4: "length (put_le 4 v) = 4" for v by simp
  consider "?ls = []" | l where "?ls = [l]" using assms(1) by (auto simp: word_separate_def split: list.splits)
  then show ?thesis
  proof cases
    case 1
    then show ?thesis using a64_ok_grow [OF assms(2) b] e(2) by (simp add: a64_put_def)
  next
    case 2
    note l = 2 and e3 = e(3) [OF 2]
    show ?thesis
    proof (cases "is_label l")
      case False
      then show ?thesis using a64_ok_table [of en _ "put_le 4 (ucast (fst bits))"] e3 assms(2) b l4 by (simp add: a64_put_def)
    next
      case True
      then obtain r where r: "at' = at" "ag_fixups en' = ag_fixups en @ [r]" "label_record c ?L l r" using e3 by auto
      let ?X = "open_bits (c = IROp (OMisc O_LAddr)) (af_kind l = AF_ShortLabel)"
      have "\<not> is_table l" using True by (auto simp: is_label_def is_table_def)
      then have x: "aw_opcode w AND ?X = 0" "list_all (\<lambda>f. field_bits f AND ?X = 0) fs"
        using assms(1) l by (simp_all add: word_separate_def Let_def)
      have "fst bits AND ?X = 0" by (rule apply_fields_clear [OF _ _ x(2)]) (use assms(3) x(1) in \<open>auto simp: surjective_pairing\<close>)
      then have "fixup_clear (ag_bytes (a64_put (ucast (fst bits)) 4 en')) r"
        using r(3) clear_word unfolding b fixup_clear_def label_record_def by (simp add: word_read)
      then show ?thesis
        using a64_ok_add [OF assms(2) b, of r] r l4 by (simp add: a64_put_def label_record_def xf_size_def)
    qed
  qed
qed

lemma encode_words_a64_ok:
  assumes "list_all (\<lambda>w. word_separate (c = IROp (OMisc O_LAddr)) w (a64_word_fields r w)) ws" "a64_ok at en"
    and "encode_a64_words cx c ops r ws (at, en) = Inr (at', en')"
  shows "a64_ok at' en'"
  using assms
proof (induction ws arbitrary: at en)
  case (Cons w ws)
  then obtain bits at1 en1 where a: "apply_a64_fields cx c ops (a64_word_fields r w) ((aw_opcode w, aw_mask w), at, en) = Inr (bits, at1, en1)"
    "encode_a64_words cx c ops r ws (at1, a64_put (ucast (fst bits)) 4 en1) = Inr (at', en')"
    by (auto simp: rbind_eq_Inr)
  show ?case using Cons.IH [OF _ encode_word_ok [OF _ Cons.prems(2) a(1)] a(2)] Cons.prems(1) by simp
qed simp

lemma targets_a64_ok: "a64_ok at en \<Longrightarrow> a64_targets cx n ops en = Inr en' \<Longrightarrow> a64_ok at en'"
proof (induction ops arbitrary: n en)
  case (Cons o1 ops)
  then obtain l where l: "as_label o1 = Some l" by (auto split: option.splits)
  let ?r = "\<lparr>xf_label = l, xf_offset = length (ag_bytes en), xf_absolute = True, xf_short = False, xf_operand = n, xf_address = False\<rparr>"
  have "a64_ok at (a64_put 0 8 (en\<lparr>ag_fixups := ag_fixups en @ [?r]\<rparr>))"
    by (rule a64_ok_add [OF Cons.prems(1), of _ "put_le 8 0" ?r]) (simp_all add: a64_put_def xf_size_def fixup_clear_def)
  with Cons show ?case by (simp add: l)
qed simp

lemma switch_a64_ok:
  assumes "a64_ok (Some at) en" "a64_switch cx at ops en = Inr en'"
  shows "a64_ok None en'"
proof -
  define p where "p = (if length (ag_bytes en) mod 8 = 4 then a64_put 0 4 en else en)"
  have p: "a64_ok (Some at) p"
  proof (cases "length (ag_bytes en) mod 8 = 4")
    case True
    then show ?thesis using a64_ok_grow [OF assms(1), of p "put_le 4 0"] by (simp add: p_def a64_put_def)
  qed (simp add: p_def assms(1))
  define v where "v = read_at (ag_bytes p) at 4 OR push_bit 5 (of_nat ((length (ag_bytes p) - at) div 4))"
  have f: "fields_within 0 (length (ag_bytes p)) ([(at, at + 4)] @ a64_fields None p)" using p by (simp add: a64_ok_def a64_fields_def)
  then have at: "at + 4 \<le> length (ag_bytes p)" using fields_withinD [OF f, of at "at + 4"] by simp
  have "same_fixups p (write_at (ag_bytes p) at v 4)"
    unfolding same_fixups_def list_all_iff
  proof
    fix r assume r: "r \<in> set (ag_fixups p)"
    have "at + 4 \<le> xf_offset r \<or> xf_offset r + xf_size r \<le> at"
      using fields_within_sep [OF f, of "(at, at + 4)" "(xf_offset r, xf_offset r + xf_size r)"] r by (auto simp: a64_fields_def)
    then show "read_at (write_at (ag_bytes p) at v 4) (xf_offset r) (xf_size r) = read_at (ag_bytes p) (xf_offset r) (xf_size r)"
      using at a64_ok_fixup(1) [OF p r] by (intro read_write_other) auto
  qed
  then have "list_all (fixup_clear (write_at (ag_bytes p) at v 4)) (ag_fixups p)" by (rule same_fixups_clear [OF p])
  then have "a64_ok (Some at) (a64_set at v 4 p)" using p at by (simp add: a64_ok_def a64_set_def a64_fields_def)
  then have "a64_ok None (a64_set at v 4 p)" by (rule a64_ok_drop)
  moreover have "a64_targets cx 1 (tl ops) (a64_set at v 4 p) = Inr en'"
    using assms(2) unfolding a64_switch_def p_def [symmetric] Let_def v_def by (simp split: if_splits)
  ultimately show ?thesis by (rule targets_a64_ok)
qed

text \<open>Every word of every row of the table has at most one open field, and nothing else writes its bits.\<close>

definition encoding_separate :: "encoding_declaration list \<Rightarrow> a64_encoding \<Rightarrow> bool" where
  "encoding_separate ps e = list_all (\<lambda>row. list_all
     (\<lambda>w. word_separate (dc_code (ps ! row) = a64_opcode_number (OMisc O_LAddr)) w (a64_word_fields (row_recipe e row) w))
     (ar_words (row_recipe e row))) [0..<length ps]"

definition separate_a64 :: "a64_context \<Rightarrow> bool" where
  "separate_a64 cx \<longleftrightarrow> (\<exists>ps. ax_table cx = a64_compile_patterns a64_code_count ps \<and> codes_ok a64_code_count ps \<and>
     encoding_separate ps (ax_encoding cx))"

lemma takeWhile_before: "x \<in> set xs \<Longrightarrow> length (takeWhile (\<lambda>y. y \<noteq> x) xs) < length xs"
  by (induction xs) auto

lemma a64_opcode_number_less: "a64_opcode_number op < length all_opcodes"
  using all_opcodes_complete [of op] by (simp add: a64_opcode_number_def takeWhile_before)

lemma a64_opcode_number_eq: "a64_opcode_number a = a64_opcode_number b \<longleftrightarrow> a = b"
proof -
  have "all_opcodes ! a64_opcode_number op = op" for op
    unfolding a64_opcode_number_def using a64_opcode_number_less [of op, unfolded a64_opcode_number_def]
    by (blast dest: nth_length_takeWhile)
  then show ?thesis by metis
qed

lemma wanted_address:
  assumes "native_pattern_code ld_eq c ops = Some n"
  shows "overflow_code ov c n = a64_opcode_number (OMisc O_LAddr) \<longleftrightarrow> c = IROp (OMisc O_LAddr)"
proof (cases "native_vector_descriptor c")
  case (Some d)
  then have "length all_opcodes \<le> n" using assms by (auto simp: native_pattern_code_def split: if_splits)
  then have "length all_opcodes \<le> overflow_code ov c n"
    by (auto simp: overflow_code_def SubUnsignedOverflow_def SubUnsignedNoOverflow_def MultiplyOverflow_def MultiplyNoOverflow_def)
  moreover have "c \<noteq> IROp (OMisc O_LAddr)" using Some by (auto simp: native_vector_descriptor_def)
  ultimately show ?thesis using a64_opcode_number_less [of "OMisc O_LAddr"] by simp
next
  case None
  then obtain op where op: "c = IROp op" "n = a64_opcode_number op"
    using assms by (auto simp: native_pattern_code_def split: machine_opcode.splits)
  have "length all_opcodes \<le> overflow_code ov c n \<or> overflow_code ov c n = n"
    by (auto simp: overflow_code_def SubUnsignedOverflow_def SubUnsignedNoOverflow_def MultiplyOverflow_def MultiplyNoOverflow_def)
  then show ?thesis
  proof
    assume "overflow_code ov c n = n"
    then show ?thesis using op a64_opcode_number_eq by simp
  next
    assume l: "length all_opcodes \<le> overflow_code ov c n"
    have "op = OMisc O_LAddr \<Longrightarrow> overflow_code ov c n = n" by (simp add: overflow_code_def op(1))
    then show ?thesis using l op a64_opcode_number_less [of "OMisc O_LAddr"] by auto
  qed
qed

lemma recipe_separate:
  assumes "separate_a64 cx" "aarch64_encoding_recipe ld_eq (ax_table cx) (ax_encoding cx) c ops ov shape = Some r"
  shows "list_all (\<lambda>w. word_separate (c = IROp (OMisc O_LAddr)) w (a64_word_fields r w)) (ar_words r)"
proof -
  obtain ps where ps: "ax_table cx = a64_compile_patterns a64_code_count ps" "codes_ok a64_code_count ps" "encoding_separate ps (ax_encoding cx)"
    using assms(1) by (auto simp: separate_a64_def)
  obtain n where n: "native_pattern_code ld_eq c ops = Some n" using assms(2) by (auto simp: aarch64_encoding_recipe_def split: option.splits)
  let ?w = "overflow_code ov c n"
  obtain row sh where row: "?w < a64_code_count" "r = row_recipe (ax_encoding cx) row"
    "List.find (a64_accepts (ax_table cx) sh ops) (bucket (at_indexes (ax_table cx)) (at_offsets (ax_table cx)) ?w) = Some row"
    using assms(2) n by (auto simp: aarch64_encoding_recipe_def Let_def split: if_splits)
  have "row \<in> set (bucket (at_indexes (ax_table cx)) (at_offsets (ax_table cx)) ?w)"
    using row(3) unfolding find_Some_iff by (metis nth_mem)
  then have m: "row \<in> set (code_rows ps (length ps) ?w)"
    using bucket_code_rows [OF ps(2) row(1)] by (simp add: ps(1) a64_compile_patterns_def Let_def)
  have s: "list_all (\<lambda>w. word_separate (dc_code (ps ! row) = a64_opcode_number (OMisc O_LAddr)) w (a64_word_fields r w)) (ar_words r)"
    using bspec [OF ps(3) [unfolded encoding_separate_def list_all_iff], of row] m
    unfolding row(2) code_rows_def by (simp add: list_all_iff)
  have "dc_code (ps ! row) = ?w" using m by (auto simp: code_rows_def)
  then show ?thesis using s wanted_address [OF n] by simp
qed

text \<open>Normalization only remembers addresses.\<close>

lemma a64_resolve_same: "a64_resolve cx o1 en = Inr (v, en') \<Longrightarrow> ag_bytes en' = ag_bytes en \<and> ag_fixups en' = ag_fixups en"
  by (auto simp: a64_resolve_def Let_def a64_invalid_def mk_error_def split: option.splits if_splits sum.splits)

lemma a64_symbols_same: "a64_symbols cx l n ops en = Inr (ops', en') \<Longrightarrow> ag_bytes en' = ag_bytes en \<and> ag_fixups en' = ag_fixups en"
  by (induction ops arbitrary: n en ops') (auto simp: rbind_eq_Inr split: if_splits dest!: a64_resolve_same)

lemma a64_normalize_same: "a64_normalize cx c l ops en = Inr (ops', en') \<Longrightarrow> ag_bytes en' = ag_bytes en \<and> ag_fixups en' = ag_fixups en"
  by (auto simp: a64_normalize_def rbind_eq_Inr split: if_splits dest!: a64_symbols_same)

lemma instruction_a64_ok:
  assumes "separate_a64 cx" "a64_ok None en" "a64_instruction cx c ops ov l order shape en = Inr en'"
  shows "a64_ok None en'"
proof -
  obtain ops1 en1 r at en2 where a: "a64_normalize cx c l ops en = Inr (ops1, en1)"
    "aarch64_encoding_recipe (ax_ld_eq cx) (ax_table cx) (ax_encoding cx) c ops1 ov shape = Some r"
    "encode_a64_words cx c ops1 r (ar_words r) (None, en1) = Inr (at, en2)"
    "(case at of None \<Rightarrow> Inr en2 | Some at \<Rightarrow> a64_switch cx at ops1 en2) = Inr en'"
    using assms(3) by (auto simp: a64_instruction_def rbind_eq_Inr split: option.splits)
  have "a64_ok None en1" using a64_normalize_same [OF a(1)] assms(2) by (simp add: a64_ok_def a64_fields_def)
  from encode_words_a64_ok [OF recipe_separate [OF assms(1) a(2)] this a(3)] have w: "a64_ok at en2" .
  show ?thesis
  proof (cases at)
    case None
    then show ?thesis using w a(4) by simp
  next
    case (Some k)
    show ?thesis by (rule switch_a64_ok [of k en2 cx ops1]) (use w a(4) Some in simp_all)
  qed
qed

lemma instructions_a64_ok:
  assumes "separate_a64 cx"
  shows "a64_instructions cx is (ov, en) = Inr (ov', en') \<Longrightarrow> a64_ok None en \<Longrightarrow> a64_ok None en'"
  by (induction "is" arbitrary: ov en) (auto simp: rbind_eq_Inr split: if_splits dest: instruction_a64_ok [OF assms])

lemma blocks_a64_ok:
  assumes "separate_a64 cx"
  shows "a64_blocks cx bs (labels, ov, en) = Inr (labels', en') \<Longrightarrow> a64_ok None en \<Longrightarrow> a64_ok None en'"
proof (induction bs arbitrary: labels ov en)
  case (Cons b bs)
  then show ?case
    by (auto simp: rbind_eq_Inr Let_def dest!: instructions_a64_ok [OF assms] split: if_splits)
qed simp

lemma lay_out_a64_ok: "separate_a64 cx \<Longrightarrow> a64_lay_out cx f = Inr (labels, en) \<Longrightarrow> a64_ok None en"
  unfolding a64_lay_out_def by (rule blocks_a64_ok [OF _ _ a64_ok_empty])

section \<open>Patching\<close>

text \<open>The offset an instruction word adds to its own place: an ADR, a conditional branch, or a branch.\<close>

definition word_offset :: "bool \<Rightarrow> bool \<Rightarrow> u64 \<Rightarrow> int" where
  "word_offset address short_branch w =
    (if address then sint (signed_take_bit 20 ((drop_bit 29 w AND mask 2) OR push_bit 2 (drop_bit 5 w AND mask 19)))
     else if short_branch then sint (signed_take_bit 20 (push_bit 2 (drop_bit 5 w AND mask 19)))
     else sint (signed_take_bit 27 (push_bit 2 (w AND mask 26))))"

definition fixup_reaches :: "(nat \<rightharpoonup> nat) \<Rightarrow> bytes \<Rightarrow> (machine_symbol, builtin) relocation list \<Rightarrow> a64_fixup \<Rightarrow> bool" where
  "fixup_reaches labels b rs r = (case labels (xf_label r) of
     None \<Rightarrow> False
   | Some at \<Rightarrow>
       if xf_absolute r then read_at b (xf_offset r) 8 = of_nat at \<and> a64_local (xf_offset r) \<in> set rs
       else int (xf_offset r) + word_offset (xf_address r) (xf_short r) (read_at b (xf_offset r) 4) = int at)"

lemma sint_small: "- (2 ^ 27) \<le> d \<Longrightarrow> d < 2 ^ 27 \<Longrightarrow> sint (word_of_int d :: u64) = d"
  by (simp add: signed_of_int signed_take_bit_int_eq_self)

lemma word_offset_branch:
  assumes "w AND ucast (open_bits False s) = 0" "aarch64_branch_displacement d s = Inr v"
  shows "word_offset False s (w OR v) = d"
proof -
  note V = aarch64_branch_displacement_ok [OF assms(2)]
  have o: "ucast (push_bit 5 (mask 19) :: u32) = (push_bit 5 (mask 19) :: u64)" "ucast (mask 26 :: u32) = (mask 26 :: u64)"
    by (rule bit_word_eqI; auto simp: bit_simps)+
  show ?thesis
  proof (cases s)
    case True
    then show ?thesis
      using branch19_decode [of w d v] assms V(2,3) by (simp add: word_offset_def open_bits_def o sint_small)
  next
    case False
    then show ?thesis
      using branch26_decode [of w d v] assms V(2,3) by (simp add: word_offset_def open_bits_def o sint_small)
  qed
qed

lemma word_offset_address:
  assumes "w AND ucast (open_bits True s) = 0" "- (2 ^ 20) \<le> d" "d < 2 ^ 20"
  shows "word_offset True s (w OR address21_bits d) = d"
proof -
  have o: "ucast (open_bits True s) = (push_bit 29 (mask 2) OR push_bit 5 (mask 19) :: u64)"
    unfolding open_bits_def by (rule bit_word_eqI) (auto simp: bit_simps)
  show ?thesis
    using address21_decode [of w d] assms by (simp add: word_offset_def o sint_small)
qed

lemma low_word: "(\<And>k. 32 \<le> k \<Longrightarrow> \<not> bit (v :: u64) k) \<Longrightarrow> take_bit 32 v = v"
  by (rule bit_word_eqI) (auto simp: bit_simps not_le [symmetric])

lemma branch_value_low: "aarch64_branch_displacement d s = Inr v \<Longrightarrow> take_bit 32 v = v"
  using aarch64_branch_displacement_ok(4) [of d s v] by (intro low_word) (auto simp: bit_simps split: if_splits)

lemma address_value_low: "take_bit 32 (address21_bits d) = address21_bits d"
  by (rule low_word) (auto simp: address21_bits_def Let_def mask_constants bit_simps)

definition fixup_span :: "a64_fixup \<Rightarrow> nat \<times> nat" where
  "fixup_span r = (xf_offset r, xf_offset r + xf_size r)"

lemma a64_fix_effect:
  assumes "a64_fix cx labels r en = Inr en'" "xf_offset r + xf_size r \<le> length (ag_bytes en)" "fixup_clear (ag_bytes en) r"
  shows "(\<exists>v. ag_bytes en' = write_at (ag_bytes en) (xf_offset r) v (xf_size r)) \<and> set (ag_relocations en) \<subseteq> set (ag_relocations en') \<and>
    fixup_reaches labels (ag_bytes en') (ag_relocations en') r"
proof -
  let ?w = "read_at (ag_bytes en) (xf_offset r) 4"
  obtain at where at: "labels (xf_label r) = Some at" using assms(1) by (auto simp: a64_fix_def split: option.splits)
  have low: "take_bit 32 ?w = ?w" using read_at_take_bit [of 4 "ag_bytes en" "xf_offset r"] by simp
  have written: "read_at (write_at (ag_bytes en) (xf_offset r) (?w OR v) 4) (xf_offset r) 4 = ?w OR v"
    if "take_bit 32 v = v" "\<not> xf_absolute r" for v
    using assms(2) that low by (simp add: read_write_same xf_size_def take_bit_or)
  show ?thesis
  proof (cases "xf_absolute r")
    case True
    then show ?thesis
      using assms(1,2) at by (auto simp: a64_fix_def a64_set_def fixup_reaches_def xf_size_def read_write_same Let_def)
  next
    case False
    let ?d = "int at - int (xf_offset r)"
    show ?thesis
    proof (cases "xf_address r")
      case True
      have "word_offset True (xf_short r) (?w OR address21_bits ?d) = ?d"
        using assms(1,3) at False True
        by (intro word_offset_address) (auto simp: a64_fix_def fixup_clear_def Let_def split: if_splits)
      then show ?thesis
        using assms(1) at False True written [OF address_value_low False]
        by (auto simp: a64_fix_def a64_set_def fixup_reaches_def xf_size_def Let_def split: if_splits)
    next
      case addr: False
      then obtain v where v: "aarch64_branch_displacement ?d (xf_short r) = Inr v"
        using assms(1) at False by (auto simp: a64_fix_def Let_def split: sum.splits)
      have "word_offset False (xf_short r) (?w OR v) = ?d"
        using assms(3) False addr v by (intro word_offset_branch) (auto simp: fixup_clear_def)
      then show ?thesis
        using assms(1) at False addr v written [OF branch_value_low [OF v] False]
        by (auto simp: a64_fix_def a64_set_def fixup_reaches_def xf_size_def Let_def)
    qed
  qed
qed

lemma fixup_reaches_cong:
  "read_at b' (xf_offset r) (xf_size r) = read_at b (xf_offset r) (xf_size r) \<Longrightarrow> set rs \<subseteq> set rs' \<Longrightarrow>
    fixup_reaches labels b rs r \<Longrightarrow> fixup_reaches labels b' rs' r"
  by (auto simp: fixup_reaches_def xf_size_def split: option.splits if_splits)

lemma a64_fixes_effect:
  assumes "a64_fixes cx labels rs en = Inr en'" "fields_within 0 (length (ag_bytes en)) (map fixup_span rs)"
    and "list_all (fixup_clear (ag_bytes en)) rs"
  shows "length (ag_bytes en') = length (ag_bytes en) \<and> set (ag_relocations en) \<subseteq> set (ag_relocations en') \<and>
    (\<forall>p k. p + k \<le> length (ag_bytes en) \<longrightarrow> list_all (\<lambda>r. snd (fixup_span r) \<le> p \<or> p + k \<le> fst (fixup_span r)) rs \<longrightarrow>
      read_at (ag_bytes en') p k = read_at (ag_bytes en) p k) \<and>
    list_all (fixup_reaches labels (ag_bytes en') (ag_relocations en')) rs"
  using assms
proof (induction rs arbitrary: en)
  case (Cons r rs)
  then obtain en1 where f: "a64_fix cx labels r en = Inr en1" "a64_fixes cx labels rs en1 = Inr en'" by (auto simp: rbind_eq_Inr)
  have split: "fields_within 0 (length (ag_bytes en)) ([fixup_span r] @ map fixup_span rs)" using Cons.prems(2) by simp
  have r: "xf_offset r + xf_size r \<le> length (ag_bytes en)"
    using fields_withinD [OF split, of "xf_offset r" "xf_offset r + xf_size r"] by (simp add: fixup_span_def)
  have sep: "snd (fixup_span q) \<le> fst (fixup_span r) \<or> snd (fixup_span r) \<le> fst (fixup_span q)" if "q \<in> set rs" for q
    using fields_within_sep [OF split, of "fixup_span r" "fixup_span q"] that by auto
  have fit: "xf_offset q + xf_size q \<le> length (ag_bytes en)" if "q \<in> set rs" for q
    using fields_withinD [OF conjunct2 [OF fields_within_part [OF split]], of "xf_offset q" "xf_offset q + xf_size q"] that
    by (auto simp: fixup_span_def)
  note e = a64_fix_effect [OF f(1) r]
  have clear: "fixup_clear (ag_bytes en) r" using Cons.prems(3) by simp
  obtain v where v: "ag_bytes en1 = write_at (ag_bytes en) (xf_offset r) v (xf_size r)" using e [OF clear] by blast
  have len: "length (ag_bytes en1) = length (ag_bytes en)" using r by (simp add: v)
  have keep: "read_at (ag_bytes en1) p k = read_at (ag_bytes en) p k"
    if "p + k \<le> length (ag_bytes en)" "snd (fixup_span r) \<le> p \<or> p + k \<le> fst (fixup_span r)" for p k
    using that r unfolding v fixup_span_def by (intro read_write_other) auto
  have "list_all (fixup_clear (ag_bytes en1)) rs"
    unfolding list_all_iff
  proof
    fix q assume q: "q \<in> set rs"
    have "read_at (ag_bytes en1) (xf_offset q) (xf_size q) = read_at (ag_bytes en) (xf_offset q) (xf_size q)"
      using keep [of "xf_offset q" "xf_size q"] fit [OF q] sep [OF q] by (auto simp: fixup_span_def)
    then show "fixup_clear (ag_bytes en1) q" using Cons.prems(3) q by (auto simp: fixup_clear_def list_all_iff xf_size_def split: if_splits)
  qed
  moreover have "fields_within 0 (length (ag_bytes en1)) (map fixup_span rs)"
    using conjunct2 [OF fields_within_part [OF split]] len by simp
  ultimately have IH: "length (ag_bytes en') = length (ag_bytes en1)" "set (ag_relocations en1) \<subseteq> set (ag_relocations en')"
    "\<And>p k. p + k \<le> length (ag_bytes en1) \<Longrightarrow> list_all (\<lambda>r. snd (fixup_span r) \<le> p \<or> p + k \<le> fst (fixup_span r)) rs \<Longrightarrow>
      read_at (ag_bytes en') p k = read_at (ag_bytes en1) p k"
    "list_all (fixup_reaches labels (ag_bytes en') (ag_relocations en')) rs"
    using Cons.IH [OF f(2)] by blast+
  have "read_at (ag_bytes en') (xf_offset r) (xf_size r) = read_at (ag_bytes en1) (xf_offset r) (xf_size r)"
    by (rule IH(3)) (use r len sep in \<open>auto simp: list_all_iff fixup_span_def\<close>)
  then have "fixup_reaches labels (ag_bytes en') (ag_relocations en') r"
    using fixup_reaches_cong e [OF clear] IH(2) by blast
  then show ?case using IH e [OF clear] len keep by auto
qed simp

section \<open>The finished function\<close>

lemma a64_finish_parts:
  assumes "a64_finish identity cx f (labels, en) = Inr cf"
  shows "\<exists>en1 ls. a64_fixes cx labels (ag_fixups en) en = Inr en1 \<and> a64_labels labels (mf_labels f) = Inr ls \<and>
    cf_bytes cf = ag_bytes (a64_pad en1) \<and> cf_relocations cf = ag_relocations en1 \<and> map lr_offset (cf_labels cf) = map el_offset ls"
  using assms
  by (auto simp: a64_finish_def finish_artifact_def Let_def rbind_eq_Inr a64_pad_def intro!: nth_equalityI)

lemma a64_labels_offsets: "a64_labels labels ms = Inr ls \<Longrightarrow> map el_offset ls = map (\<lambda>m. the (labels (ml_pointer m))) ms"
  by (induction ms arbitrary: ls) (auto simp: rbind_eq_Inr split: option.splits)

lemma finished_fixups:
  assumes "separate_a64 cx" "a64_lay_out cx f = Inr (labels, en)" "a64_finish identity cx f (labels, en) = Inr cf"
  shows "list_all (fixup_reaches labels (cf_bytes cf) (cf_relocations cf)) (ag_fixups en) \<and>
    map lr_offset (cf_labels cf) = map (\<lambda>m. the (labels (ml_pointer m))) (mf_labels f)"
proof -
  have ok: "a64_ok None en" by (rule lay_out_a64_ok [OF assms(1,2)])
  obtain en1 ls where e: "a64_fixes cx labels (ag_fixups en) en = Inr en1" "a64_labels labels (mf_labels f) = Inr ls"
    "cf_bytes cf = ag_bytes (a64_pad en1)" "cf_relocations cf = ag_relocations en1" "map lr_offset (cf_labels cf) = map el_offset ls"
    using a64_finish_parts [OF assms(3)] by blast
  have "map fixup_span (ag_fixups en) = a64_fields None en" by (simp add: a64_fields_def fixup_span_def)
  then have E: "length (ag_bytes en1) = length (ag_bytes en)" "list_all (fixup_reaches labels (ag_bytes en1) (ag_relocations en1)) (ag_fixups en)"
    using a64_fixes_effect [OF e(1)] ok by (auto simp: a64_ok_def)
  have "fixup_reaches labels (cf_bytes cf) (cf_relocations cf) r" if "r \<in> set (ag_fixups en)" for r
    using fixup_reaches_cong [of "cf_bytes cf" r "ag_bytes en1" "ag_relocations en1" "cf_relocations cf" labels] E
      a64_ok_fixup(1) [OF ok that] that by (simp add: e(3,4) a64_pad_def read_at_append list_all_iff)
  then show ?thesis using a64_labels_offsets [OF e(2)] e(5) by (simp add: list_all_iff)
qed

section \<open>A small function\<close>

definition a64_jump :: encoding_declaration where
  "a64_jump = \<lparr>dc_code = a64_opcode_number (OMisc O_Jmp), dc_constraints = ''L'', dc_encoding = ''14000000:fc000000 L'', dc_shape = 0\<rparr>"

definition a64_jump_encoding :: a64_encoding where
  "a64_jump_encoding = \<lparr>ae_words = [\<lparr>aw_opcode = 0x14000000, aw_mask = 0xfc000000, aw_first = 0, aw_count = 1\<rparr>],
     ae_fields = [field_of AF_Label 0 0 0], ae_offsets = [0, 1]\<rparr>"

definition a64_sample_context :: a64_context where
  "a64_sample_context = \<lparr>ax_module = ''m'', ax_name = ''f'', ax_target = ''aarch64'', ax_known = None, ax_ld_eq = (=),
     ax_table = a64_compile_patterns a64_code_count [a64_jump], ax_encoding = a64_jump_encoding\<rparr>"

definition a64_sample_function :: machine_function where
  "a64_sample_function = \<lparr>mf_module = ''m'', mf_name = ''f'', mf_target = native_machine AArch64Linux,
     mf_blocks = [\<lparr>mb_labels = [0], mb_instructions = [make_instruction (IROp (OMisc O_Jmp)) [LabelOp 0]]\<rparr>],
     mf_labels = [\<lparr>ml_pointer = 0, ml_name = ''start'', ml_ordinal = None, ml_addressed = False\<rparr>],
     mf_registers = [], mf_globals = []\<rparr>"

definition a64_sample_engine :: a64_engine where
  "a64_sample_engine = \<lparr>ag_bytes = [0, 0, 0, 0x14], ag_relocations = [],
     ag_fixups = [\<lparr>xf_label = 0, xf_offset = 0, xf_absolute = False, xf_short = False, xf_operand = 0, xf_address = False\<rparr>], ag_known = []\<rparr>"

text \<open>The encoding of the sample is what the compile-time parser makes of its string.\<close>

lemma a64_jump_compiled: "compile_encoding [a64_jump] \<lparr>ae_words = [], ae_fields = [], ae_offsets = []\<rparr> = Some a64_jump_encoding"
proof -
  have t: "a64_tokens (trim ''14000000:fc000000 L'') = [''14000000:fc000000'', ''L'']"
    "split_words ''14000000:fc000000 L'' = [''14000000:fc000000 L'']" by code_simp+
  have n: "a64_number ''14000000'' = Some 0x14000000" "a64_number ''fc000000'' = Some 0xfc000000"
    by (simp_all add: a64_number_def a64_hex_def Let_def)
  have "a64_header ''14000000:fc000000'' = Some (0x14000000, 0xfc000000)"
    by (simp add: a64_header_def n)
  moreover have "a64_token ''L'' = Some (field_of AF_Label 0 0 0)" by (simp add: a64_token_def)
  ultimately have "a64_word_text ''14000000:fc000000 L'' = Some ((0x14000000, 0xfc000000), [field_of AF_Label 0 0 0])"
    by (simp add: a64_word_text_def t del: a64_tokens.simps)
  then show ?thesis by (simp add: a64_jump_def a64_jump_encoding_def t(2) del: split_words.simps)
qed

lemma a64_jump_row: "a64_row a64_jump = (\<lparr>ap_operands = [plain_constraint AC_LabelOrSymbol 0], ap_tail = False\<rparr>, True)"
  unfolding a64_row_def a64_jump_def by code_simp

lemma a64_jump_codes: "codes_ok a64_code_count [a64_jump]"
  using a64_opcode_number_less [of "OMisc O_Jmp"] by (simp add: codes_ok_def a64_code_count_def a64_jump_def)

lemma a64_sample_separate: "separate_a64 a64_sample_context"
proof -
  have n: "a64_opcode_number (OMisc O_Jmp) \<noteq> a64_opcode_number (OMisc O_LAddr)" by (simp add: a64_opcode_number_eq)
  have "word_separate False \<lparr>aw_opcode = 0x14000000, aw_mask = 0xfc000000, aw_first = 0, aw_count = 1\<rparr> [field_of AF_Label 0 0 0]"
    by code_simp
  then have "encoding_separate [a64_jump] a64_jump_encoding"
    using n by (simp add: encoding_separate_def row_recipe_def a64_jump_encoding_def a64_word_fields_def a64_jump_def)
  then show ?thesis
    unfolding separate_a64_def using a64_jump_codes by (intro exI [of _ "[a64_jump]"]) (simp add: a64_sample_context_def)
qed

lemma a64_sample_recipe:
  "aarch64_encoding_recipe (=) (a64_compile_patterns a64_code_count [a64_jump]) a64_jump_encoding (IROp (OMisc O_Jmp)) [LabelOp 0] ov sh =
    Some (row_recipe a64_jump_encoding 0)"
proof -
  let ?t = "a64_compile_patterns a64_code_count [a64_jump]" and ?w = "a64_opcode_number (OMisc O_Jmp)"
  have w: "?w < a64_code_count" using a64_jump_codes by (simp add: codes_ok_def a64_jump_def)
  have "bucket (at_indexes ?t) (at_offsets ?t) ?w = [0]"
    using bucket_code_rows [OF a64_jump_codes w] by (simp add: a64_compile_patterns_def Let_def code_rows_def a64_jump_def)
  moreover have "a64_accepts ?t sh1 [LabelOp 0] 0" for sh1
    by (simp add: a64_accepts_def a64_compile_patterns_def Let_def a64_jump_row a64_match_def token_match_def plain_constraint_def as_label_def)
      (simp add: a64_jump_def)
  ultimately show ?thesis
    using w by (simp add: aarch64_encoding_recipe_def native_pattern_code_def native_vector_descriptor_def overflow_code_def Let_def)
qed

lemma a64_sample_laid_out: "a64_lay_out a64_sample_context a64_sample_function = Inr ([0 \<mapsto> 0], a64_sample_engine)"
proof -
  have b: "put_le 4 (ucast (0x14000000 :: u32)) = [0, 0, 0, 0x14]" by code_simp
  have r: "row_recipe a64_jump_encoding 0 = \<lparr>ar_words = [\<lparr>aw_opcode = 0x14000000, aw_mask = 0xfc000000, aw_first = 0, aw_count = 1\<rparr>],
      ar_fields = [field_of AF_Label 0 0 0]\<rparr>"
    by (simp add: row_recipe_def a64_jump_encoding_def)
  show ?thesis
    using b
    by (simp add: a64_lay_out_def a64_sample_function_def a64_sample_context_def make_instruction_def Let_def a64_instruction_def a64_normalize_def
      a64_alloca_def a64_sample_recipe r a64_word_fields_def apply_a64_field_def field_of_def label_fixup_field_def a64_nth_def as_label_def
      a64_put_def a64_empty_def a64_sample_engine_def place_labels_def del: put_le.simps)
qed

end
