(* ===== verification/AArch64Listing.thy ===== *)
theory AArch64Listing
  imports AArch64Layout BodyListing
begin

text \<open>
  The body the AArch64 encoder lays out has a listing: every label stands where the listing places it, every word of
  every instruction has its four bytes, and each label or switch entry a word refers to is recorded with the place
  of its word.
\<close>

section \<open>Words\<close>

type_synonym a64_span = "a64_field list \<times> nat \<times> nat"

text \<open>Which operand names the label: the second of a label address, the first of a branch.\<close>

definition address_code :: "machine_opcode \<Rightarrow> bool" where
  "address_code c = (c = IROp (OMisc O_LAddr))"

definition label_operand :: "machine_opcode \<Rightarrow> nat" where
  "label_operand c = (if address_code c then 1 else 0)"

definition a64_recorded :: "a64_engine \<Rightarrow> machine_opcode \<Rightarrow> operand list \<Rightarrow> nat \<Rightarrow> a64_field \<Rightarrow> bool" where
  "a64_recorded en c ops s f \<longleftrightarrow> (is_label f \<longrightarrow> (\<exists>l. operand_label ops (label_operand c) = Some l \<and>
     \<lparr>xf_label = l, xf_offset = s, xf_absolute = False, xf_short = (af_kind f = AF_ShortLabel), xf_operand = label_operand c,
       xf_address = address_code c\<rparr> \<in> set (ag_fixups en)))"

definition a64_word_recorded :: "a64_engine \<Rightarrow> machine_opcode \<Rightarrow> operand list \<Rightarrow> a64_span \<Rightarrow> bool" where
  "a64_word_recorded en c ops w = list_all (a64_recorded en c ops (fst (snd w))) (fst w)"

definition more_fixups :: "a64_engine \<Rightarrow> a64_engine \<Rightarrow> bool" where
  "more_fixups en en' \<longleftrightarrow> set (ag_fixups en) \<subseteq> set (ag_fixups en')"

lemma more_fixups_refl [simp]: "more_fixups en en"
  by (simp add: more_fixups_def)

lemma more_fixups_trans: "more_fixups a b \<Longrightarrow> more_fixups b c \<Longrightarrow> more_fixups a c"
  by (auto simp: more_fixups_def)

lemma a64_recorded_mono: "a64_recorded en c ops s f \<Longrightarrow> more_fixups en en' \<Longrightarrow> a64_recorded en' c ops s f"
  by (auto simp: a64_recorded_def more_fixups_def)

lemma a64_word_recorded_mono: "a64_word_recorded en c ops w \<Longrightarrow> more_fixups en en' \<Longrightarrow> a64_word_recorded en' c ops w"
  by (auto simp: a64_word_recorded_def list_all_iff intro: a64_recorded_mono)

lemma apply_field_fixups:
  assumes "apply_a64_field cx c ops f (w, at, en) = Inr (w', at', en')"
  shows "more_fixups en en'" "at' \<noteq> None \<longleftrightarrow> at \<noteq> None \<or> is_table f"
  using apply_field_engine(2) [OF assms] by (auto simp: more_fixups_def is_label_def is_table_def split: if_splits)

lemma apply_field_recorded:
  assumes "apply_a64_field cx c ops f (w, at, en) = Inr (w', at', en')"
  shows "a64_recorded en' c ops (length (ag_bytes en)) f"
  using assms
  by (cases "af_kind f"; auto simp: a64_recorded_def is_label_def apply_a64_field_def label_fixup_field_def label_operand_def address_code_def
      operand_label_def a64_nth_def Let_def split: if_splits option.splits)

lemma apply_fields_recorded:
  assumes "apply_a64_fields cx c ops fs (w, at, en) = Inr (w', at', en')"
  shows "ag_bytes en' = ag_bytes en \<and> more_fixups en en' \<and> (at' \<noteq> None \<longleftrightarrow> at \<noteq> None \<or> list_ex is_table fs) \<and>
    list_all (a64_recorded en' c ops (length (ag_bytes en))) fs"
  using assms
proof (induction fs arbitrary: w at en)
  case (Cons f fs)
  then obtain w1 at1 en1 where a: "apply_a64_field cx c ops f (w, at, en) = Inr (w1, at1, en1)"
    "apply_a64_fields cx c ops fs (w1, at1, en1) = Inr (w', at', en')"
    by (auto simp: rbind_eq_Inr)
  note s = apply_field_fixups [OF a(1)] apply_field_engine(1) [OF a(1)] apply_field_recorded [OF a(1)] and r = Cons.IH [OF a(2)]
  show ?case using s r by (auto intro: more_fixups_trans a64_recorded_mono)
qed simp

section \<open>Instructions\<close>

text \<open>All code consists of four-byte words and eight-byte entries.\<close>

definition whole_words :: "a64_engine \<Rightarrow> bool" where
  "whole_words en \<longleftrightarrow> 4 dvd length (ag_bytes en)"

lemma encode_words_spans:
  assumes "encode_a64_words cx c ops r rws (at, en) = Inr (at', en')"
  shows "\<exists>ws. map fst ws = map (a64_word_fields r) rws \<and> contiguous (length (ag_bytes en)) ws \<and>
    words_end (length (ag_bytes en)) ws = length (ag_bytes en') \<and> list_all (\<lambda>(fs, s, e). e = s + 4) ws \<and>
    list_all (a64_word_recorded en' c ops) ws \<and> more_fixups en en' \<and>
    (at' \<noteq> None \<longleftrightarrow> at \<noteq> None \<or> list_ex (\<lambda>w. list_ex is_table (fst w)) ws) \<and> length (ag_bytes en') = length (ag_bytes en) + 4 * length rws"
  using assms
proof (induction rws arbitrary: at en)
  case Nil
  then show ?case by (intro exI [of _ "[]"]) simp
next
  case (Cons w rws)
  let ?fs = "a64_word_fields r w" and ?L = "length (ag_bytes en)"
  obtain bits at1 en1 where a: "apply_a64_fields cx c ops ?fs ((aw_opcode w, aw_mask w), at, en) = Inr (bits, at1, en1)"
    "encode_a64_words cx c ops r rws (at1, a64_put (ucast (fst bits)) 4 en1) = Inr (at', en')"
    using Cons.prems by (auto simp: rbind_eq_Inr)
  let ?e = "a64_put (ucast (fst bits)) 4 en1"
  note f = apply_fields_recorded [OF a(1)]
  have e: "length (ag_bytes ?e) = ?L + 4" "ag_fixups ?e = ag_fixups en1" using f by (simp_all add: a64_put_def)
  obtain ws where ws: "map fst ws = map (a64_word_fields r) rws" "contiguous (length (ag_bytes ?e)) ws"
    "words_end (length (ag_bytes ?e)) ws = length (ag_bytes en')" "list_all (\<lambda>(fs, s, e). e = s + 4) ws"
    "list_all (a64_word_recorded en' c ops) ws" "more_fixups ?e en'"
    "at' \<noteq> None \<longleftrightarrow> at1 \<noteq> None \<or> list_ex (\<lambda>w. list_ex is_table (fst w)) ws" "length (ag_bytes en') = length (ag_bytes ?e) + 4 * length rws"
    using Cons.IH [OF a(2)] by (elim exE conjE) (rule that; assumption)
  have m: "more_fixups en1 en'" using ws(6) e(2) by (simp add: more_fixups_def)
  have "list_all (a64_recorded en' c ops ?L) ?fs" using f m by (auto simp: list_all_iff intro: a64_recorded_mono)
  moreover have "more_fixups en en'" using f m more_fixups_trans by blast
  ultimately show ?case
  proof (intro exI conjI)
    show "(at' \<noteq> None) = (at \<noteq> None \<or> list_ex (\<lambda>w. list_ex is_table (fst w)) ((?fs, ?L, ?L + 4) # ws))"
      using ws(7) f by simp
  qed (use ws(1-5,8) e(1) in \<open>simp_all add: a64_word_recorded_def [of _ _ _ "(_, _)"]\<close>)
qed

definition a64_entry_recorded :: "a64_engine \<Rightarrow> operand list \<Rightarrow> nat \<Rightarrow> nat \<Rightarrow> bool" where
  "a64_entry_recorded en ops t n \<longleftrightarrow> (\<exists>l. operand_label ops n = Some l \<and>
     \<lparr>xf_label = l, xf_offset = t + 8 * (n - 1), xf_absolute = True, xf_short = False, xf_operand = n, xf_address = False\<rparr> \<in> set (ag_fixups en))"

lemma a64_entry_mono: "a64_entry_recorded en ops t n \<Longrightarrow> more_fixups en en' \<Longrightarrow> a64_entry_recorded en' ops t n"
  by (auto simp: a64_entry_recorded_def more_fixups_def)

lemma a64_targets_listed:
  "a64_targets cx n ops en = Inr en' \<Longrightarrow>
    more_fixups en en' \<and> length (ag_bytes en') = length (ag_bytes en) + 8 * length ops \<and>
    (\<forall>k<length ops. \<exists>l. as_label (ops ! k) = Some l \<and>
      \<lparr>xf_label = l, xf_offset = length (ag_bytes en) + 8 * k, xf_absolute = True, xf_short = False, xf_operand = n + k, xf_address = False\<rparr>
        \<in> set (ag_fixups en'))"
proof (induction ops arbitrary: n en)
  case (Cons o1 ops)
  then obtain l where l: "as_label o1 = Some l" by (auto split: option.splits)
  let ?r = "\<lparr>xf_label = l, xf_offset = length (ag_bytes en), xf_absolute = True, xf_short = False, xf_operand = n, xf_address = False\<rparr>"
  let ?e = "a64_put 0 8 (en\<lparr>ag_fixups := ag_fixups en @ [?r]\<rparr>)"
  have s: "a64_targets cx (n + 1) ops ?e = Inr en'" using Cons.prems l by simp
  have e: "length (ag_bytes ?e) = length (ag_bytes en) + 8" "set (ag_fixups ?e) = insert ?r (set (ag_fixups en))"
    by (simp_all add: a64_put_def)
  note IH = Cons.IH [OF s]
  have "\<exists>l. as_label ((o1 # ops) ! k) = Some l \<and>
      \<lparr>xf_label = l, xf_offset = length (ag_bytes en) + 8 * k, xf_absolute = True, xf_short = False, xf_operand = n + k, xf_address = False\<rparr>
        \<in> set (ag_fixups en')"
    if "k < length (o1 # ops)" for k
  proof (cases k)
    case 0
    have "?r \<in> set (ag_fixups en')" using IH e(2) by (auto simp: more_fixups_def)
    then show ?thesis using 0 l by simp
  next
    case (Suc j)
    then show ?thesis using IH that e(1) by (auto simp: algebra_simps)
  qed
  then show ?case using IH e by (auto simp: more_fixups_def)
qed simp

lemma a64_switch_listed:
  assumes "a64_switch cx at ops en = Inr en'" "at + 4 \<le> length (ag_bytes en)" "whole_words en"
  shows "more_fixups en en' \<and> length (ag_bytes en') = round_up 8 (length (ag_bytes en)) + 8 * (length ops - 1) \<and>
    list_all (a64_entry_recorded en' ops (round_up 8 (length (ag_bytes en)))) [1..<length ops]"
proof -
  define p where "p = (if length (ag_bytes en) mod 8 = 4 then a64_put 0 4 en else en)"
  let ?T = "round_up 8 (length (ag_bytes en))"
  have len: "length (ag_bytes p) = ?T"
  proof -
    obtain k where k: "length (ag_bytes en) = 4 * k" using assms(3) by (auto simp: whole_words_def elim: dvdE)
    show ?thesis
    proof (cases "even k")
      case True
      then obtain j where "k = 2 * j" by (rule evenE)
      then show ?thesis by (simp add: p_def k)
    next
      case False
      then obtain j where "k = 2 * j + 1" by (rule oddE)
      then have "length (ag_bytes en) = 8 * j + 4" using k by simp
      moreover have "(8 * j + 11) div 8 = j + 1" by (rule div_nat_eqI) simp_all
      ultimately show ?thesis by (simp add: p_def a64_put_def round_up_def)
    qed
  qed
  obtain v where s: "a64_targets cx 1 (tl ops) (a64_set at v 4 p) = Inr en'"
    using assms(1) by (auto simp: a64_switch_def p_def [symmetric] Let_def split: if_splits)
  have at: "at + 4 \<le> length (ag_bytes p)" using assms(2) len round_up_ge [of 8 "length (ag_bytes en)"] by simp
  have patched: "length (ag_bytes (a64_set at v 4 p)) = ?T" using at len by (simp add: a64_set_def)
  have m: "more_fixups en (a64_set at v 4 p)" by (simp add: more_fixups_def a64_set_def p_def a64_put_def)
  note t = a64_targets_listed [OF s]
  have "a64_entry_recorded en' ops ?T n" if "1 \<le> n" "n < length ops" for n
  proof -
    have "n - 1 < length (tl ops)" "tl ops ! (n - 1) = ops ! n" using that by (simp_all add: nth_tl)
    then show ?thesis using t that patched by (auto simp: a64_entry_recorded_def operand_label_def)
  qed
  then show ?thesis using t m patched more_fixups_trans [OF m] by (auto simp: list_all_iff)
qed

definition a64_item_recorded :: "a64_engine \<Rightarrow> a64_field list item \<Rightarrow> bool" where
  "a64_item_recorded en x = (case x of LabelItem l p \<Rightarrow> True
   | CodeItem i ops ws table \<Rightarrow> list_all (a64_word_recorded en (mi_opcode i) ops) ws \<and>
       (case table of None \<Rightarrow> True | Some t \<Rightarrow> list_all (a64_entry_recorded en ops t) [1..<length ops]))"

lemma a64_item_recorded_mono: "a64_item_recorded en x \<Longrightarrow> more_fixups en en' \<Longrightarrow> a64_item_recorded en' x"
  unfolding a64_item_recorded_def list_all_iff
  by (cases x) (auto split: option.splits intro: a64_word_recorded_mono a64_entry_mono)

text \<open>What an instruction is encoded as: its operands normalized, its labels unchanged, the words of the recipe its opcode
  and operands select, four bytes each, and a table exactly when a word asks for one.\<close>

definition a64_item_encoded :: "a64_context \<Rightarrow> a64_field list item \<Rightarrow> bool" where
  "a64_item_encoded cx x = (case x of LabelItem l p \<Rightarrow> True
   | CodeItem i ops ws table \<Rightarrow>
       map as_label ops = map as_label (mi_operands i) \<and>
       (\<exists>en en'. a64_normalize cx (mi_opcode i) (mi_lowered_call i) (mi_operands i) en = Inr (ops, en')) \<and>
       (\<exists>ov r. aarch64_encoding_recipe (ax_ld_eq cx) (ax_table cx) (ax_encoding cx) (mi_opcode i) ops ov (mi_shape i) = Some r \<and>
          map fst ws = map (a64_word_fields r) (ar_words r)) \<and>
       list_all (\<lambda>(fs, s, e). e = s + 4) ws \<and> (table \<noteq> None) = list_ex (\<lambda>w. list_ex is_table (fst w)) ws)"

lemma a64_symbols_labels: "a64_symbols cx lowered n ops en = Inr (ops', en') \<Longrightarrow> map as_label ops' = map as_label ops"
  by (induction ops arbitrary: n en ops')
    (auto simp: rbind_eq_Inr symbolic_no_label split: if_splits, simp_all add: as_label_def)

lemma a64_normalize_labels: "a64_normalize cx c lowered ops en = Inr (ops', en') \<Longrightarrow> map as_label ops' = map as_label ops"
proof -
  have "map as_label qs = map as_label os" if "a64_alloca cx c os = Inr qs" for os qs
    using that by (auto simp: a64_alloca_def map_update as_label_def [of "UIntOp _"] list_update_same_conv dest: integer_no_label
      split: if_splits option.splits)
  then show "a64_normalize cx c lowered ops en = Inr (ops', en') \<Longrightarrow> map as_label ops' = map as_label ops"
    by (auto simp: a64_normalize_def rbind_eq_Inr split: if_splits dest!: a64_symbols_labels)
qed

lemma a64_instruction_listed:
  assumes "separate_a64 cx" "a64_ok None en" "whole_words en"
    and "a64_instruction cx (mi_opcode i) (mi_operands i) ov (mi_lowered_call i) order (mi_shape i) en = Inr en'"
  shows "\<exists>x. item_source x = Inr i \<and> a64_item_encoded cx x \<and> a64_item_recorded en' x \<and> item_laid [] (length (ag_bytes en)) x \<and>
    item_end (length (ag_bytes en)) x = length (ag_bytes en') \<and> more_fixups en en' \<and> whole_words en'"
proof -
  let ?L = "length (ag_bytes en)" and ?c = "mi_opcode i"
  obtain ops en1 r at en2 where a: "a64_normalize cx ?c (mi_lowered_call i) (mi_operands i) en = Inr (ops, en1)"
    "aarch64_encoding_recipe (ax_ld_eq cx) (ax_table cx) (ax_encoding cx) ?c ops ov (mi_shape i) = Some r"
    "encode_a64_words cx ?c ops r (ar_words r) (None, en1) = Inr (at, en2)"
    "(case at of None \<Rightarrow> Inr en2 | Some at \<Rightarrow> a64_switch cx at ops en2) = Inr en'"
    using assms(4) by (auto simp: a64_instruction_def rbind_eq_Inr split: option.splits)
  have same: "ag_bytes en1 = ag_bytes en" "ag_fixups en1 = ag_fixups en" using a64_normalize_same [OF a(1)] by simp_all
  have "a64_ok None en1" using same assms(2) by (simp add: a64_ok_def a64_fields_def)
  from encode_words_a64_ok [OF recipe_separate [OF assms(1) a(2)] this a(3)] have ok: "a64_ok at en2" .
  obtain ws where ws: "map fst ws = map (a64_word_fields r) (ar_words r)" "contiguous ?L ws" "words_end ?L ws = length (ag_bytes en2)"
    "list_all (\<lambda>(fs, s, e). e = s + 4) ws" "list_all (a64_word_recorded en2 ?c ops) ws" "more_fixups en1 en2"
    "at \<noteq> None \<longleftrightarrow> list_ex (\<lambda>w. list_ex is_table (fst w)) ws" "length (ag_bytes en2) = ?L + 4 * length (ar_words r)"
    using encode_words_spans [OF a(3)] unfolding same by (elim exE conjE) (rule that; simp)
  have whole: "whole_words en2" using assms(3) ws(8) by (simp add: whole_words_def)
  let ?table = "map_option (\<lambda>_. round_up 8 (length (ag_bytes en2))) at"
  have s: "more_fixups en2 en' \<and> item_end ?L (CodeItem i ops ws ?table) = length (ag_bytes en') \<and>
      (case ?table of None \<Rightarrow> True | Some t \<Rightarrow> list_all (a64_entry_recorded en' ops t) [1..<length ops]) \<and> whole_words en'"
  proof (cases at)
    case None
    then show ?thesis using a(4) ws(3) whole by simp
  next
    case (Some t)
    have "fields_within 0 (length (ag_bytes en2)) (a64_fields (Some t) en2)" using ok Some by (simp add: a64_ok_def)
    then have "t + 4 \<le> length (ag_bytes en2)" using fields_withinD [of 0 _ "a64_fields (Some t) en2" t "t + 4"] by (simp add: a64_fields_def)
    moreover have "(4 :: nat) dvd round_up 8 n" for n using round_up_dvd [of 8 n] by (rule dvd_trans [rotated]) simp
    ultimately show ?thesis
      using a(4) Some a64_switch_listed [of cx t ops en2 en'] whole by (auto simp: whole_words_def)
  qed
  have "list_all (a64_word_recorded en' ?c ops) ws"
    using ws(5) s by (auto simp: list_all_iff intro: a64_word_recorded_mono)
  moreover have "more_fixups en en'" using ws(6) s by (auto simp: more_fixups_def same)
  ultimately show ?thesis
    using ws(1-4,7) s a(1,2) a64_normalize_labels [OF a(1)]
    by (intro exI [of _ "CodeItem i ops ws ?table"]) (auto simp: a64_item_encoded_def a64_item_recorded_def split: option.splits)
qed

section \<open>Blocks\<close>

definition a64_stretch :: "a64_context \<Rightarrow> a64_engine \<Rightarrow> a64_field list item list \<Rightarrow> a64_engine \<Rightarrow> bool" where
  "a64_stretch cx en xs en' \<longleftrightarrow> items_laid [] (length (ag_bytes en)) xs \<and> items_end (length (ag_bytes en)) xs = length (ag_bytes en') \<and>
     list_all (a64_item_encoded cx) xs \<and> list_all (a64_item_recorded en') xs \<and> more_fixups en en'"

lemma a64_stretch_append:
  assumes "a64_stretch cx en xs en1" "a64_stretch cx en1 ys en2"
  shows "a64_stretch cx en (xs @ ys) en2"
  using assms a64_item_recorded_mono [of en1 _ en2] more_fixups_trans [of en en1 en2]
  by (auto simp: a64_stretch_def items_laid_append list_all_iff)

lemma a64_instructions_listed:
  assumes "separate_a64 cx"
  shows "a64_instructions cx is (ov, en) = Inr (ov', en') \<Longrightarrow> a64_ok None en \<Longrightarrow> whole_words en \<Longrightarrow>
    \<exists>xs. map item_source xs = map Inr (coded is) \<and> a64_stretch cx en xs en' \<and> listed_labels xs = [] \<and> whole_words en'"
proof (induction "is" arbitrary: ov en)
  case Nil
  then show ?case by (auto simp: a64_stretch_def intro!: exI [of _ "[]"])
next
  case (Cons i "is")
  show ?case
  proof (cases "mi_opcode i = Pseudo PseudoUse")
    case True
    then show ?thesis using Cons by simp
  next
    case False
    then obtain en1 where k: "a64_instruction cx (mi_opcode i) (mi_operands i) ov (mi_lowered_call i) (mi_order i) (mi_shape i) en = Inr en1"
      "a64_instructions cx is (next_overflow (mi_opcode i) ov, en1) = Inr (ov', en')"
      using Cons.prems(1) by (auto simp: rbind_eq_Inr)
    obtain x where x: "item_source x = Inr i" "a64_item_encoded cx x" "a64_item_recorded en1 x" "item_laid [] (length (ag_bytes en)) x"
      "item_end (length (ag_bytes en)) x = length (ag_bytes en1)" "more_fixups en en1" "whole_words en1"
      using a64_instruction_listed [OF assms Cons.prems(2,3) k(1)] by blast
    have ok: "a64_ok None en1" by (rule instruction_a64_ok [OF assms Cons.prems(2) k(1)])
    obtain xs where xs: "map item_source xs = map Inr (coded is)" "a64_stretch cx en1 xs en'" "listed_labels xs = []" "whole_words en'"
      using Cons.IH [OF k(2) ok x(7)] by blast
    have "a64_stretch cx en [x] en1" using x by (simp add: a64_stretch_def)
    then have "a64_stretch cx en ([x] @ xs) en'" using xs(2) by (rule a64_stretch_append)
    moreover have "listed_labels (x # xs) = []" using x(1) xs(3) by (cases x) simp_all
    ultimately show ?thesis using x(1) xs False by (intro exI [of _ "x # xs"]) simp
  qed
qed

lemma place_labels_map: "place_labels ls at labels = map_of (map (\<lambda>l. (l, at)) ls) ++ labels"
proof (induction ls arbitrary: labels)
  case (Cons l ls)
  have "place_labels (l # ls) at labels = map_of (map (\<lambda>l. (l, at)) ls) ++ (if labels l = None then labels(l \<mapsto> at) else labels)"
    using Cons by (simp add: place_labels_def)
  moreover have "map_of (map (\<lambda>l. (l, at)) ls) k = None \<or> map_of (map (\<lambda>l. (l, at)) ls) k = Some at" for k
    by (auto simp: map_of_map_restrict restrict_map_def)
  ultimately show ?case by (auto simp: fun_eq_iff map_add_def split: option.splits)
qed (simp add: place_labels_def)

lemma a64_blocks_listed:
  assumes "separate_a64 cx"
  shows "a64_blocks cx bs (labels, ov, en) = Inr (labels', en') \<Longrightarrow> a64_ok None en \<Longrightarrow> whole_words en \<Longrightarrow>
    \<exists>xs. map item_source xs = body_source bs \<and> a64_stretch cx en xs en' \<and> labels' = map_of (listed_labels xs) ++ labels"
proof (induction bs arbitrary: labels ov en)
  case Nil
  then show ?case by (auto simp: a64_stretch_def intro!: exI [of _ "[]"])
next
  case (Cons b bs)
  let ?L = "length (ag_bytes en)"
  obtain ov0 ov1 en1 where k: "a64_instructions cx (mb_instructions b) (ov0, en) = Inr (ov1, en1)"
    "a64_blocks cx bs (place_labels (mb_labels b) ?L labels, ov1, en1) = Inr (labels', en')"
    using Cons.prems(1) by (auto simp: rbind_eq_Inr Let_def)
  let ?xs = "map (\<lambda>l. LabelItem l ?L) (mb_labels b) :: a64_field list item list"
  have "items_laid [] ?L (map (\<lambda>l. LabelItem l ?L) ls :: a64_field list item list) \<and> items_end ?L (map (\<lambda>l. LabelItem l ?L) ls :: a64_field list item list) = ?L" for ls
    by (induction ls) simp_all
  then have x: "a64_stretch cx en ?xs en"
    by (simp add: a64_stretch_def list_all_iff a64_item_encoded_def a64_item_recorded_def)
  have "listed_labels (map (\<lambda>l. LabelItem l ?L) ls :: a64_field list item list) = map (\<lambda>l. (l, ?L)) ls" for ls
    by (induction ls) simp_all
  then have l: "listed_labels ?xs = map (\<lambda>l. (l, ?L)) (mb_labels b)" "map item_source ?xs = map Inl (mb_labels b)" by simp_all
  obtain ys where ys: "map item_source ys = map Inr (coded (mb_instructions b))" "a64_stretch cx en ys en1" "listed_labels ys = []" "whole_words en1"
    using a64_instructions_listed [OF assms k(1) Cons.prems(2,3)] by blast
  have ok: "a64_ok None en1" by (rule instructions_a64_ok [OF assms k(1) Cons.prems(2)])
  obtain zs where zs: "map item_source zs = body_source bs" "a64_stretch cx en1 zs en'"
    "labels' = map_of (listed_labels zs) ++ place_labels (mb_labels b) ?L labels"
    using Cons.IH [OF k(2) ok ys(4)] by blast
  show ?case
  proof (intro exI conjI)
    show "map item_source (?xs @ ys @ zs) = body_source (b # bs)" using l ys(1) zs(1) by simp
    show "a64_stretch cx en (?xs @ ys @ zs) en'" by (rule a64_stretch_append [OF x a64_stretch_append [OF ys(2) zs(2)]])
    show "labels' = map_of (listed_labels (?xs @ ys @ zs)) ++ labels"
      using zs(3) ys(3) l(1) by (simp add: place_labels_map)
  qed
qed

text \<open>The laid out body has a listing, which fixes the offset of every label; the first place of a label counts.\<close>

lemma a64_lay_out_listed:
  assumes "separate_a64 cx" "a64_lay_out cx f = Inr (labels, en)"
  shows "\<exists>xs. lists_body [] (mf_blocks f) (length (ag_bytes en)) xs \<and> list_all (a64_item_encoded cx) xs \<and>
    list_all (a64_item_recorded en) xs \<and> labels = map_of (listed_labels xs)"
proof -
  have "whole_words a64_empty" by (simp add: whole_words_def a64_empty_def)
  from a64_blocks_listed [OF assms(1) assms(2) [unfolded a64_lay_out_def] a64_ok_empty this]
  show ?thesis by (fastforce simp: a64_stretch_def lists_body_def a64_empty_def)
qed

section \<open>The finished artifact\<close>

text \<open>A word refers to a label: the offset in the instruction, added to the place of the word, is the place of the label.\<close>

definition a64_label_reached :: "(nat \<rightharpoonup> nat) \<Rightarrow> (machine_symbol, builtin) compiled \<Rightarrow> machine_opcode \<Rightarrow> operand list \<Rightarrow> nat \<Rightarrow> a64_field \<Rightarrow> bool" where
  "a64_label_reached places cf c ops s f \<longleftrightarrow> (is_label f \<longrightarrow> (\<exists>l place. operand_label ops (label_operand c) = Some l \<and> places l = Some place \<and>
     int s + word_offset (address_code c) (af_kind f = AF_ShortLabel) (read_at (cf_bytes cf) s 4) = int place))"

definition a64_entry_reached :: "(nat \<rightharpoonup> nat) \<Rightarrow> (machine_symbol, builtin) compiled \<Rightarrow> operand list \<Rightarrow> nat \<Rightarrow> nat \<Rightarrow> bool" where
  "a64_entry_reached places cf ops t n \<longleftrightarrow> (\<exists>l place. operand_label ops n = Some l \<and> places l = Some place \<and>
     read_at (cf_bytes cf) (t + 8 * (n - 1)) 8 = of_nat place \<and> a64_local (t + 8 * (n - 1)) \<in> set (cf_relocations cf))"

definition a64_labels_reached :: "(nat \<rightharpoonup> nat) \<Rightarrow> (machine_symbol, builtin) compiled \<Rightarrow> a64_field list item \<Rightarrow> bool" where
  "a64_labels_reached places cf x = (case x of LabelItem l p \<Rightarrow> True
   | CodeItem i ops ws table \<Rightarrow> list_all (\<lambda>w. list_all (a64_label_reached places cf (mi_opcode i) ops (fst (snd w))) (fst w)) ws \<and>
       (case table of None \<Rightarrow> True | Some t \<Rightarrow> list_all (a64_entry_reached places cf ops t) [1..<length ops]))"

lemma a64_recorded_reached:
  assumes "\<And>r. r \<in> set (ag_fixups en) \<Longrightarrow> fixup_reaches places (cf_bytes cf) (cf_relocations cf) r" "a64_item_recorded en x"
  shows "a64_labels_reached places cf x"
proof (cases x)
  case (CodeItem i ops ws table)
  have word: "a64_label_reached places cf c ops s f" if "a64_recorded en c ops s f" for c s f
    using that by (auto simp: a64_recorded_def a64_label_reached_def fixup_reaches_def dest!: assms(1) split: option.splits)
  have entry: "a64_entry_reached places cf ops t n" if "a64_entry_recorded en ops t n" for t n
    using that by (auto simp: a64_entry_recorded_def a64_entry_reached_def fixup_reaches_def dest!: assms(1) split: option.splits)
  show ?thesis
    using assms(2) word entry unfolding CodeItem a64_labels_reached_def a64_item_recorded_def a64_word_recorded_def list_all_iff
    by (auto split: option.splits)
qed (simp add: a64_labels_reached_def)

lemma a64_labels_places:
  "a64_labels labels ms = Inr ls \<Longrightarrow> map (\<lambda>l. (el_name l, Some (el_offset l))) ls = map (\<lambda>m. (ml_name m, labels (ml_pointer m))) ms"
  by (induction ms arbitrary: ls) (auto simp: rbind_eq_Inr split: option.splits)

lemma a64_finished_label_places:
  assumes "a64_finish identity cx f (labels, en) = Inr cf"
  shows "map (\<lambda>r. (lr_name r, Some (lr_offset r))) (cf_labels cf) = map (\<lambda>m. (ml_name m, labels (ml_pointer m))) (mf_labels f)"
proof -
  obtain ls where ls: "a64_labels labels (mf_labels f) = Inr ls"
    "cf_labels cf = map (\<lambda>(n, l). \<lparr>lr_label = \<lparr>lh_index = n, lh_owner = identity\<rparr>, lr_name = el_name l, lr_offset = el_offset l,
       lr_ordinal = el_ordinal l\<rparr>) (zip [0..<length ls] ls)"
    using assms by (auto simp: a64_finish_def finish_artifact_def Let_def rbind_eq_Inr)
  have "map (\<lambda>r. (lr_name r, Some (lr_offset r))) (cf_labels cf) = map (\<lambda>l. (el_name l, Some (el_offset l))) ls"
    by (rule nth_equalityI) (simp_all add: ls(2))
  then show ?thesis using a64_labels_places [OF ls(1)] by simp
qed

lemma a64_encoded_listing:
  assumes "separate_a64 cx" "encode_aarch64 identity cx f = Inr cf"
  shows "\<exists>xs len. lists_body [] (mf_blocks f) len xs \<and> length (cf_bytes cf) = round_up 16 len \<and> list_all (a64_item_encoded cx) xs \<and>
    list_all (a64_labels_reached (map_of (listed_labels xs)) cf) xs \<and>
    map (\<lambda>r. (lr_name r, Some (lr_offset r))) (cf_labels cf) =
      map (\<lambda>m. (ml_name m, map_of (listed_labels xs) (ml_pointer m))) (mf_labels f)"
proof -
  obtain labels en where l: "a64_lay_out cx f = Inr (labels, en)" and e: "a64_finish identity cx f (labels, en) = Inr cf"
    using assms(2) by (auto simp: encode_aarch64_def rbind_eq_Inr)
  obtain xs where xs: "lists_body [] (mf_blocks f) (length (ag_bytes en)) xs" "list_all (a64_item_encoded cx) xs"
    "list_all (a64_item_recorded en) xs" "labels = map_of (listed_labels xs)"
    using a64_lay_out_listed [OF assms(1) l] by blast
  have ok: "a64_ok None en" by (rule lay_out_a64_ok [OF assms(1) l])
  obtain en1 where en1: "a64_fixes cx labels (ag_fixups en) en = Inr en1" "cf_bytes cf = ag_bytes (a64_pad en1)"
    using a64_finish_parts [OF e] by blast
  have "map fixup_span (ag_fixups en) = a64_fields None en" by (simp add: a64_fields_def fixup_span_def)
  then have "length (ag_bytes en1) = length (ag_bytes en)" using a64_fixes_effect [OF en1(1)] ok by (auto simp: a64_ok_def)
  then have len: "length (cf_bytes cf) = round_up 16 (length (ag_bytes en))"
    using round_up_ge [of 16 "length (ag_bytes en)"] by (simp add: en1(2) a64_pad_def)
  have "a64_labels_reached labels cf x" if "x \<in> set xs" for x
    using a64_recorded_reached [of en labels cf x] finished_fixups [OF assms(1) l e] xs(3) that by (auto simp: list_all_iff)
  then show ?thesis
    using xs len a64_finished_label_places [OF e]
    by (intro exI [of _ xs] exI [of _ "length (ag_bytes en)"]) (simp add: list_all_iff)
qed

section \<open>A sample encodes\<close>

definition a64_jump_bytes :: bytes where
  "a64_jump_bytes = [0, 0, 0, 0x14] @ replicate 12 0"

definition a64_sample_artifact :: "(machine_symbol, builtin) compiled" where
  "a64_sample_artifact = \<lparr>cf_module = ''m'', cf_name = ''f'', cf_architecture = ArchAArch64, cf_identity = 1, cf_bytes = a64_jump_bytes,
     cf_labels = [\<lparr>lr_label = \<lparr>lh_index = 0, lh_owner = 1\<rparr>, lr_name = ''start'', lr_offset = 0, lr_ordinal = None\<rparr>],
     cf_relocations = [], cf_constants = []\<rparr>"

lemma a64_sample_encoded: "encode_aarch64 1 a64_sample_context a64_sample_function = Inr a64_sample_artifact"
proof -
  have "aarch64_branch_displacement 0 False = Inr 0" by code_simp
  moreover have "write_at [0, 0, 0, 0x14] 0 (read_at [0, 0, 0, 0x14] 0 4 OR 0) 4 = [0, 0, 0, 0x14]" by code_simp
  ultimately have f: "a64_fixes a64_sample_context [0 \<mapsto> 0] (ag_fixups a64_sample_engine) a64_sample_engine = Inr a64_sample_engine"
    by (simp add: a64_sample_engine_def a64_fix_def a64_set_def Let_def)
  have p: "ag_bytes (a64_pad a64_sample_engine) = a64_jump_bytes"
    by (simp add: a64_pad_def a64_sample_engine_def a64_jump_bytes_def round_up_def)
  have v: "verify_compiled a64_sample_artifact = Inr ()"
    by (simp add: verify_compiled_def a64_sample_artifact_def a64_jump_bytes_def occupied_def no_overlap_def verify_pool_def)
  have r: "ag_relocations (a64_pad a64_sample_engine) = []" by (simp add: a64_pad_def a64_sample_engine_def)
  have "a64_finish 1 a64_sample_context a64_sample_function ([0 \<mapsto> 0], a64_sample_engine) = Inr a64_sample_artifact"
    using f v by (simp add: a64_finish_def a64_sample_function_def finish_artifact_def p r Let_def)
      (simp add: a64_sample_context_def a64_sample_artifact_def native_machine_def host_architecture_def)
  then show ?thesis by (simp add: encode_aarch64_def a64_sample_laid_out)
qed

section \<open>Properties\<close>

text \<open>C14: a function the AArch64 encoder encodes has a listing of its body: its blocks' labels and instructions in order
  from offset 0, each label where the code before it ends, each instruction as the four-byte words of the recipe its
  opcode and operands select, a switch table at the next multiple of eight.  In the finished bytes every word with
  a label field reaches its label: the offset in the instruction (26 bits of a branch, 19 of a conditional one, the two
  parts of an ADR), added to the place of the word, is the place the listing gives the label; every entry of a switch
  table is the place of its label and is recorded for relocation; and the label rows of the artifact carry the places.  This
  holds for every table whose words have one open field that no other field of the word overlaps.\<close>

theorem a64_branches_reach_labels:
  assumes "separate_a64 cx" "encode_aarch64 identity cx f = Inr cf"
  shows "\<exists>xs len. lists_body [] (mf_blocks f) len xs \<and> length (cf_bytes cf) = round_up 16 len \<and> list_all (a64_item_encoded cx) xs \<and>
    list_all (a64_labels_reached (map_of (listed_labels xs)) cf) xs \<and>
    map (\<lambda>r. (lr_name r, Some (lr_offset r))) (cf_labels cf) =
      map (\<lambda>m. (ml_name m, map_of (listed_labels xs) (ml_pointer m))) (mf_labels f)"
  by (rule a64_encoded_listing [OF assms])

theorem a64_branches_reach_labels_witness:
  "\<exists>xs len. lists_body [] (mf_blocks a64_sample_function) len xs \<and> length a64_jump_bytes = round_up 16 len \<and>
    list_all (a64_item_encoded a64_sample_context) xs \<and>
    list_all (a64_labels_reached (map_of (listed_labels xs)) a64_sample_artifact) xs \<and>
    [(''start'', Some 0)] = [(''start'', map_of (listed_labels xs) 0)] \<and> word_offset False False (read_at a64_jump_bytes 0 4) = 0"
proof -
  have "word_offset False False (read_at a64_jump_bytes 0 4) = 0" unfolding a64_jump_bytes_def by code_simp
  then show ?thesis
    using a64_branches_reach_labels [OF a64_sample_separate a64_sample_encoded]
    by (simp add: a64_sample_artifact_def a64_sample_function_def)
qed

end
