(* ===== verification/AddressModes.thy ===== *)
theory AddressModes
  imports X86Address AArch64Layout
begin

text \<open>
  The optimizer's address predicate (\<open>lib/Target/Addressing.cpp\<close>) against what the two encoders can encode.
\<close>

lemma log2_loop_power: "n \<in> {1, 2, 4, 8, 16} \<Longrightarrow> n = 2 ^ k \<longleftrightarrow> k = log2_loop n"
proof -
  have inj: "(2 :: nat) ^ j = 2 ^ k \<longleftrightarrow> k = j" for j by auto
  assume "n \<in> {1, 2, 4, 8, 16}"
  then show ?thesis
    by (auto simp: inj [of 0, simplified] inj [of 1, simplified] inj [of 2, simplified] inj [of 3, simplified] inj [of 4, simplified])
qed

lemma multiple_below: "0 < k \<Longrightarrow> (0 \<le> d \<and> d mod k = 0 \<and> d div k < 4096) \<longleftrightarrow> (\<exists>q\<in>{0..<4096}. d = k * q)" for k d :: int
  by (auto simp: pos_imp_zdiv_nonneg_iff intro!: bexI [of _ "d div k"])

text \<open>Access sizes are powers of two, and their logarithm is at most the unit of the encoder's offset field.\<close>

lemma memory_size_powers: "ld_size = 8 \<or> ld_size = 16 \<Longrightarrow> memory_size ld_size t = Some n \<Longrightarrow> n \<in> {1, 2, 4, 8, 16}"
  by (cases t) auto

lemma memory_size_scale: "ld_size = 8 \<or> ld_size = 16 \<Longrightarrow> memory_size ld_size t = Some n \<Longrightarrow> log2_loop n \<le> kind_scale t"
  by (cases t) auto

text \<open>C33: what the optimizer's address predicate accepts, exactly.  On x86-64 it is the addresses the encoder can encode,
  over any base and any index a memory operand can name.  On AArch64 without an index it is, for vectors, the 4096 multiples
  of 16 from 0 that the encoder's field holds; for scalars it is, as a comment of the source says, not the encoder's rule but the
  4096 multiples from 0 of \<open>k\<close> where the access has \<open>2 ^ k\<close> bytes (only 0 for bytes), so that a displacement of 3 is accepted and
  8 rejected for eight bytes.  With an index there is no displacement, and the scale is 1, or 16 for vectors and \<open>k\<close>
  for scalars.  An accepted displacement that is a multiple of the access unit fits the twelve-bit offset field of the
  encoder, which then holds it in units.\<close>

theorem accepted_addresses_exact:
  assumes "ld_size = 8 \<or> ld_size = 16" "b < 16" "i < 16" "i \<noteq> x86_number X_SP" "mm_type m = t" "mm_displacement m = d"
  shows "accepts_address ld_size ArchX86_64 t d indexed scale =
      (\<exists>e. encode_x86_address (Some b) (if indexed then Some i else None) d scale = Inr e) \<and>
    accepts_address ld_size ArchAArch64 t d False scale =
      (if is_vector t then \<exists>q\<in>{0..<4096}. d = 16 * q
       else \<exists>k. memory_size ld_size (type_kind t) = Some (2 ^ k) \<and> (d = 0 \<or> 0 < k \<and> (\<exists>q\<in>{0..<4096}. d = int k * q))) \<and>
    accepts_address ld_size ArchAArch64 t d True scale =
      (d = 0 \<and> (if is_vector t then scale = 1 \<or> scale = 16
       else \<exists>k. memory_size ld_size (type_kind t) = Some (2 ^ k) \<and> (scale = 1 \<or> scale = k))) \<and>
    (accepts_address ld_size ArchAArch64 t d False scale \<and> d mod int (kind_scale (type_kind t)) = 0 \<longrightarrow>
      (\<exists>w. displaced_field cx m (0, 0) = Inr w \<and> uint (drop_bit 10 (fst w)) * int (kind_scale (type_kind t)) = d))"
proof -
  let ?u = "int (kind_scale (type_kind t))"
  have x86: "accepts_address ld_size ArchX86_64 t d indexed scale =
      (\<exists>e. encode_x86_address (Some b) (if indexed then Some i else None) d scale = Inr e)"
    using assms(2-4) by (auto simp: accepts_address_def encode_x86_address_def addressable_def Let_def mk_error_def)
  have size: "n = 2 ^ k \<longleftrightarrow> k = log2_loop n" if "memory_size ld_size (type_kind t) = Some n" for n k
    using log2_loop_power [OF memory_size_powers [OF assms(1) that]] .
  have plain: "accepts_address ld_size ArchAArch64 t d False scale =
      (if is_vector t then \<exists>q\<in>{0..<4096}. d = 16 * q
       else \<exists>k. memory_size ld_size (type_kind t) = Some (2 ^ k) \<and> (d = 0 \<or> 0 < k \<and> (\<exists>q\<in>{0..<4096}. d = int k * q)))"
  proof (cases "is_vector t")
    case True
    then show ?thesis using multiple_below [of 16 d] by (simp add: accepts_address_def)
  next
    case False
    show ?thesis
    proof (cases "memory_size ld_size (type_kind t)")
      case (Some n)
      then show ?thesis
        using False multiple_below [of "int (log2_loop n)" d] by (auto simp: accepts_address_def Let_def size [OF Some])
    qed (simp add: accepts_address_def False)
  qed
  have index: "accepts_address ld_size ArchAArch64 t d True scale =
      (d = 0 \<and> (if is_vector t then scale = 1 \<or> scale = 16
       else \<exists>k. memory_size ld_size (type_kind t) = Some (2 ^ k) \<and> (scale = 1 \<or> scale = k)))"
    by (cases "memory_size ld_size (type_kind t)") (auto simp: accepts_address_def Let_def size)
  have fits: "\<exists>w. displaced_field cx m (0, 0) = Inr w \<and> uint (drop_bit 10 (fst w)) * ?u = d"
    if acc: "accepts_address ld_size ArchAArch64 t d False scale" and u: "d mod ?u = 0"
  proof -
    have pos: "0 < ?u" by (cases "type_kind t") simp_all
    have "0 \<le> d \<and> d \<le> ?u * 4095"
    proof (cases "is_vector t")
      case True
      then show ?thesis using acc unfolding plain by (auto simp: is_vector_def)
    next
      case False
      then obtain k where k: "memory_size ld_size (type_kind t) = Some (2 ^ k)" "d = 0 \<or> (\<exists>q\<in>{0..<4096}. d = int k * q)"
        using acc unfolding plain by auto
      have "int k \<le> ?u" using memory_size_scale [OF assms(1) k(1)] size [OF k(1), of k] by simp
      then have "int k * q \<le> ?u * 4095" if "0 \<le> q" "q < 4096" for q using that by (intro mult_mono) auto
      then show ?thesis using k(2) pos by auto
    qed
    note span = this
    have q: "0 \<le> d div ?u" "d div ?u < 4096" "d div ?u * ?u = d" "\<not> d < 0"
    proof -
      have e: "?u * (d div ?u) = d" using u mult_div_mod_eq [of ?u d] by linarith
      note b = span
      then have "?u * (d div ?u) \<le> ?u * 4095" by (simp only: e)
      then have "d div ?u \<le> 4095" using pos by (simp only: mult_le_cancel_left_pos)
      then show "d div ?u < 4096" by simp
      show "0 \<le> d div ?u" using b pos by (simp add: pos_imp_zdiv_nonneg_iff)
      show "d div ?u * ?u = d" using e by (simp only: mult.commute)
      show "\<not> d < 0" using b by simp
    qed
    have v: "uint (word_of_int (d div ?u) :: u32) = d div ?u"
      using q by (simp add: unsigned_of_int take_bit_int_eq_self)
    have "\<not> mask 12 < (word_of_int (d div ?u) :: u32)"
      using q(2) unfolding word_less_def v by (simp add: mask_numeral)
    then have f: "displaced_field cx m (0, 0) = Inr (push_bit 10 (word_of_int (d div ?u)), push_bit 10 (mask 12))"
      using u q(4) by (simp add: displaced_field_def Let_def assms(5,6) set_field_def)
    have "drop_bit 10 (push_bit 10 w) = w" if "uint w < 4096" for w :: u32
    proof (rule bit_word_eqI)
      fix n assume "n < LENGTH(32)"
      have "w = take_bit 12 w" using that by (simp add: word_uint_eq_iff unsigned_take_bit_eq take_bit_int_eq_self)
      then have "bit w n \<Longrightarrow> n < 12" by (metis bit_take_bit_iff)
      then show "bit (drop_bit 10 (push_bit 10 w)) n = bit w n" by (auto simp: bit_simps)
    qed
    from this [of "word_of_int (d div ?u)"] f v q show ?thesis by auto
  qed
  show ?thesis by (intro conjI x86 plain index impI) (rule fits, simp_all)
qed

definition sample_memory :: "ir_type \<Rightarrow> int \<Rightarrow> machine_memory" where
  "sample_memory t d = \<lparr>mm_type = t, mm_base = None, mm_index = None, mm_displacement = d, mm_scale = 1,
     mm_alias = [], mm_nonalias = [], mm_location = None\<rparr>"

theorem accepted_addresses_exact_witness:
  "accepts_address 8 ArchAArch64 (mk_type K_I64) 24 False 1 \<and>
   (\<exists>w. displaced_field a64_sample_context (sample_memory (mk_type K_I64) 24) (0, 0) = Inr w \<and> uint (drop_bit 10 (fst w)) * 8 = 24) \<and>
   accepts_address 8 ArchAArch64 (mk_type K_I64) 3 False 1 \<and> \<not> accepts_address 8 ArchAArch64 (mk_type K_I64) 8 False 1 \<and>
   accepts_address 8 ArchAArch64 (vector128 E_I8 16) 65520 False 1 \<and> \<not> accepts_address 8 ArchAArch64 (vector128 E_I8 16) 65536 False 1 \<and>
   accepts_address 8 ArchX86_64 (mk_type K_I64) (- 2147483648) False 1 \<and> \<not> accepts_address 8 ArchX86_64 (mk_type K_I64) 0 True 3"
proof -
  have t: "\<not> is_vector (mk_type K_I64)" "is_vector (vector128 E_I8 16)" by (simp_all add: is_vector_def vector128_def)
  have accepts: "accepts_address 8 ArchAArch64 (mk_type K_I64) 24 False 1" "accepts_address 8 ArchAArch64 (mk_type K_I64) 3 False 1"
    "\<not> accepts_address 8 ArchAArch64 (mk_type K_I64) 8 False 1"
    by (simp_all add: accepts_address_def t)
  moreover have "\<exists>w. displaced_field a64_sample_context (sample_memory (mk_type K_I64) 24) (0, 0) = Inr w \<and> uint (drop_bit 10 (fst w)) * 8 = 24"
    using accepted_addresses_exact [of 8 0 1 "sample_memory (mk_type K_I64) 24" "mk_type K_I64" 24 False 1 a64_sample_context] accepts
    by (simp add: sample_memory_def)
  moreover have "accepts_address 8 ArchAArch64 (vector128 E_I8 16) 65520 False 1 \<and> \<not> accepts_address 8 ArchAArch64 (vector128 E_I8 16) 65536 False 1"
    using accepted_addresses_exact [of 8 0 1 "sample_memory (vector128 E_I8 16) d" "vector128 E_I8 16" d False 1 a64_sample_context for d]
    by (auto simp: sample_memory_def t)
  moreover have "accepts_address 8 ArchX86_64 (mk_type K_I64) (- 2147483648) False 1 \<and> \<not> accepts_address 8 ArchX86_64 (mk_type K_I64) 0 True 3"
    by (simp add: accepts_address_def)
  ultimately show ?thesis by simp
qed

end
