(* ===== verification/FunctionIR.thy ===== *)
theory FunctionIR
  imports Opcodes
begin

text \<open>
  What the analyses read of a function (\<open>include/mirnext/IR/IR.hpp\<close>): operands, instructions, blocks, registers and the
  data that refers to labels.  A register is its index in the function, a label the number of the object; the block of
  a label is the block that lists it.  The verification of a function is an argument of the analyses.
\<close>

section \<open>Data\<close>

record ir_memory =
  im_type :: ir_type
  im_base :: "nat option"
  im_index :: "nat option"
  im_displacement :: "64 word"
  im_scale :: nat
  im_alias :: string
  im_nonalias :: string

record ir_symbol =
  is_name :: string
  is_signature :: "signature option"

datatype ir_operand = IrInt "64 word" | IrUInt u64 | IrFloat u32 | IrDouble u64 | IrLongDouble "80 word" | IrString string
  | IrVector ir_type bytes | IrRegister nat | IrMemory ir_memory | IrLabel nat | IrSymbol ir_symbol "64 word"

record ir_instruction =
  ii_opcode :: opcode
  ii_operands :: "ir_operand list"

record ir_block =
  ib_labels :: "nat list"
  ib_instructions :: "ir_instruction list"

record ir_register =
  ig_type :: ir_type
  ig_name :: string
  ig_hardware :: string
  ig_memory_backed :: bool

text \<open>A label of a function, and the initializers of the data that uses the labels of the function.\<close>

record ir_label =
  il_function :: nat
  il_label :: nat

datatype data_initializer = LabelData ir_label "ir_label option" "64 word" | OtherData

record ir_function =
  if_id :: nat
  if_name :: string
  if_registers :: "ir_register list"
  if_blocks :: "ir_block list"
  if_ssa :: bool
  if_label_data :: "data_initializer list"

section \<open>Reading it\<close>

definition require_register_ir :: "ir_function \<Rightarrow> unit result" where
  "require_register_ir f =
    (if if_ssa f then mk_error InvalidArgument (if_name f @ '': operation requires completed register IR'') else Inr ())"

text \<open>The last instruction of a block, when it changes the control flow.\<close>

definition terminator :: "ir_block \<Rightarrow> ir_instruction option" where
  "terminator b =
    (if ib_instructions b = [] then None
     else let i = last (ib_instructions b)
          in if control_flow (instruction_descriptor (ii_opcode i)) \<noteq> FlowNext then Some i else None)"

definition output_operand :: "ir_instruction \<Rightarrow> nat \<Rightarrow> bool" where
  "output_operand i n =
    (let d = instruction_descriptor (ii_opcode i)
     in if operand_count d = CountCall
        then (case ii_operands i of
            IrSymbol s _ # _ \<Rightarrow> (case is_signature s of
                Some sg \<Rightarrow> 2 \<le> n \<and> n - 2 < length (results sg) | None \<Rightarrow> False)
          | _ \<Rightarrow> False)
        else n < length (roles d) \<and> (let c = of_char (roles d ! n) :: nat in 65 \<le> c \<and> c \<le> 90))"

definition label_at :: "ir_instruction \<Rightarrow> nat \<Rightarrow> nat option" where
  "label_at i n = (if n < length (ii_operands i) then (case ii_operands i ! n of IrLabel l \<Rightarrow> Some l | _ \<Rightarrow> None) else None)"

text \<open>\<open>indices.at (&label->block ())\<close>: a label that no block lists, or an operand that is none, is the exception.\<close>

definition block_of :: "ir_function \<Rightarrow> nat option \<Rightarrow> nat result" where
  "block_of f l = (case l of None \<Rightarrow> mk_error InvalidArgument ''out_of_range''
   | Some l \<Rightarrow> (case List.find (\<lambda>b. l \<in> set (ib_labels (if_blocks f ! b))) [0..<length (if_blocks f)] of
       None \<Rightarrow> mk_error InvalidArgument ''out_of_range'' | Some b \<Rightarrow> Inr b))"

lemma block_of_less: "block_of f l = Inr b \<Longrightarrow> b < length (if_blocks f)"
  by (auto simp: block_of_def find_Some_iff split: option.splits)

fun collect :: "'a result list \<Rightarrow> 'a list result" where
  "collect [] = Inr []"
| "collect (r # rs) = rbind r (\<lambda>x. rbind (collect rs) (\<lambda>xs. Inr (x # xs)))"

lemma collect_set: "collect rs = Inr xs \<Longrightarrow> x \<in> set xs \<Longrightarrow> Inr x \<in> set rs"
  by (induction rs arbitrary: xs) (auto simp: rbind_eq_Inr)

end
