(* ===== verification/GraphSearch.thy ===== *)
theory GraphSearch
  imports Prelude "HOL-Library.While_Combinator"
begin

text \<open>
  The depth-first search with an explicit stack that the graph analyses share
  (\<open>lib/Analysis/ControlFlow.cpp\<close>, \<open>lib/Analysis/FunctionGraph.cpp\<close>, \<open>lib/CodeGen/GraphAnalysis.cpp\<close>): the stack holds
  a block and the index of its next outgoing edge.  The loops of the analyses differ in what they write down; here the
  search is stated once, with the blocks found and finished, and each analysis is shown to follow it.
\<close>

section \<open>The search\<close>

record search =
  sr_stack :: "(nat \<times> nat) list"
  sr_found :: "nat list"
  sr_done :: "nat list"
  sr_back :: "(nat \<times> nat) set"

definition search_push :: "nat \<Rightarrow> search \<Rightarrow> search" where
  "search_push t s = s\<lparr>sr_stack := (t, 0) # sr_stack s, sr_found := t # sr_found s\<rparr>"

definition search_step :: "(nat \<Rightarrow> nat list) \<Rightarrow> search \<Rightarrow> search" where
  "search_step succ s = (case sr_stack s of
     [] \<Rightarrow> s
   | (b, k) # rest \<Rightarrow>
       if k = length (succ b) then s\<lparr>sr_stack := rest, sr_done := b # sr_done s\<rparr>
       else let t = succ b ! k; s' = s\<lparr>sr_stack := (b, k + 1) # rest\<rparr>
            in if t \<notin> set (sr_found s) then search_push t s'
               else if t \<notin> set (sr_done s) then s'\<lparr>sr_back := insert (b, k) (sr_back s)\<rparr>
               else s')"

definition grey :: "search \<Rightarrow> nat list" where
  "grey s = map fst (sr_stack s)"

definition traversed :: "(nat \<Rightarrow> nat list) \<Rightarrow> search \<Rightarrow> nat \<Rightarrow> nat \<Rightarrow> bool" where
  "traversed succ s a i \<longleftrightarrow> a \<in> set (sr_done s) \<and> i < length (succ a) \<or> (\<exists>k. (a, k) \<in> set (sr_stack s) \<and> i < k)"

text \<open>\<open>x\<close> stands before \<open>y\<close> in a list.\<close>

definition precedes :: "'a list \<Rightarrow> 'a \<Rightarrow> 'a \<Rightarrow> bool" where
  "precedes xs x y \<longleftrightarrow> (\<exists>us vs. xs = us @ x # vs \<and> y \<in> set vs)"

lemma precedes_Cons: "precedes (b # xs) x y \<longleftrightarrow> precedes xs x y \<or> (x = b \<and> y \<in> set xs)"
  unfolding precedes_def by (auto simp: Cons_eq_append_conv)

lemma precedes_Nil [simp]: "\<not> precedes [] x y"
  by (simp add: precedes_def)

lemma precedes_set: "precedes xs x y \<Longrightarrow> x \<in> set xs \<and> y \<in> set xs"
  by (auto simp: precedes_def)

text \<open>An edge marked back leads to the block itself or to one still on the stack below it, which finishes later; any
  other edge leads to a block that finishes before.\<close>

definition edge_ok :: "(nat \<Rightarrow> nat list) \<Rightarrow> search \<Rightarrow> nat \<Rightarrow> nat \<Rightarrow> bool" where
  "edge_ok succ s a i \<longleftrightarrow> (let t = succ a ! i in t \<in> set (sr_found s) \<and>
     (if (a, i) \<in> sr_back s
      then (if a \<in> set (sr_done s) then t = a \<or> t \<notin> set (sr_done s) \<or> precedes (sr_done s) t a
            else t \<in> set (dropWhile (\<lambda>x. x \<noteq> a) (grey s)))
      else (if a \<in> set (sr_done s) then precedes (sr_done s) a t
            else t \<in> set (sr_done s) \<or> t \<in> set (takeWhile (\<lambda>x. x \<noteq> a) (grey s)))))"

definition search_ok :: "(nat \<Rightarrow> nat list) \<Rightarrow> nat \<Rightarrow> nat set \<Rightarrow> search \<Rightarrow> bool" where
  "search_ok succ n roots s \<longleftrightarrow>
     distinct (sr_found s) \<and> set (sr_found s) \<subseteq> {..<n} \<and> roots \<subseteq> set (sr_found s) \<and>
     distinct (grey s @ sr_done s) \<and> set (sr_found s) = set (grey s @ sr_done s) \<and>
     (\<forall>(b, k) \<in> set (sr_stack s). k \<le> length (succ b)) \<and>
     (\<forall>(a, i) \<in> sr_back s. traversed succ s a i) \<and>
     (\<forall>a i. traversed succ s a i \<longrightarrow> edge_ok succ s a i) \<and>
     (\<forall>x \<in> set (sr_found s) - roots. \<exists>a i. traversed succ s a i \<and> succ a ! i = x \<and> (a, i) \<notin> sr_back s)"

named_theorems search_simps

lemma search_okD [search_simps]:
  assumes "search_ok succ n roots s"
  shows "distinct (sr_found s)" "set (sr_found s) \<subseteq> {..<n}" "roots \<subseteq> set (sr_found s)"
    "distinct (grey s)" "distinct (sr_done s)" "set (grey s) \<inter> set (sr_done s) = {}"
    "set (sr_found s) = set (grey s) \<union> set (sr_done s)"
    "(b, k) \<in> set (sr_stack s) \<Longrightarrow> k \<le> length (succ b)"
    "(a, i) \<in> sr_back s \<Longrightarrow> traversed succ s a i" "traversed succ s a i \<Longrightarrow> edge_ok succ s a i"
    "x \<in> set (sr_found s) \<Longrightarrow> x \<notin> roots \<Longrightarrow> \<exists>a i. traversed succ s a i \<and> succ a ! i = x \<and> (a, i) \<notin> sr_back s"
  using assms unfolding search_ok_def by auto

lemma traversed_found: "search_ok succ n roots s \<Longrightarrow> traversed succ s a i \<Longrightarrow> a \<in> set (sr_found s)"
  unfolding search_okD(7) traversed_def grey_def by (metis UnCI fst_conv image_eqI list.set_map)

section \<open>The steps keep the invariant\<close>

lemma search_pop_ok:
  assumes ok: "search_ok succ n roots s" and s: "sr_stack s = (b, k) # rest" "k = length (succ b)"
  shows "search_ok succ n roots (search_step succ s)"
proof -
  define s' where "s' = s\<lparr>sr_stack := rest, sr_done := b # sr_done s\<rparr>"
  have step: "search_step succ s = s'" using s by (simp add: search_step_def s'_def)
  have g: "grey s = b # grey s'" by (simp add: grey_def s s'_def)
  have fields: "sr_done s' = b # sr_done s" "sr_found s' = sr_found s" "sr_back s' = sr_back s" by (simp_all add: s'_def)
  note D = search_okD [OF ok]
  have b: "b \<notin> set (grey s')" "b \<notin> set (sr_done s)" using D(4,6) g by auto
  have tr: "traversed succ s' a i = traversed succ s a i" for a i
    using s b by (auto simp: traversed_def s'_def grey_def image_iff)
  have "edge_ok succ s' a i" if t: "traversed succ s a i" for a i
  proof -
    note e = D(10) [OF t, unfolded edge_ok_def Let_def]
    let ?t = "succ a ! i"
    have f: "?t \<in> set (sr_found s)" using e by simp
    show ?thesis
    proof (cases "a = b")
      case True
      then show ?thesis using e f b D(6) unfolding edge_ok_def Let_def
        by (auto simp: fields g precedes_Cons dest: precedes_set set_dropWhileD)
    next
      case False
      then show ?thesis using e f b D(6) unfolding edge_ok_def Let_def
        by (auto simp: fields g precedes_Cons split: if_splits)
    qed
  qed
  then show ?thesis
    unfolding step search_ok_def tr using D ok g b s
    by (auto simp: s'_def grey_def search_ok_def)
qed

lemma search_push_ok:
  assumes ok: "search_ok succ n roots s" and s: "sr_stack s = (b, k) # rest" "k \<noteq> length (succ b)"
    and t: "succ b ! k \<notin> set (sr_found s)" "succ b ! k < n"
  shows "search_ok succ n roots (search_step succ s)"
proof -
  let ?t = "succ b ! k"
  define s' where "s' = s\<lparr>sr_stack := (?t, 0) # (b, k + 1) # rest, sr_found := ?t # sr_found s\<rparr>"
  have step: "search_step succ s = s'" using s t by (simp add: search_step_def search_push_def s'_def Let_def)
  note D = search_okD [OF ok]
  have g: "grey s' = ?t # grey s" "grey s = b # map fst rest" by (simp_all add: grey_def s s'_def)
  have b: "b \<in> set (sr_found s)" "b \<notin> set (map fst rest)" "b \<notin> set (sr_done s)" using D(4,6,7) g by auto
  have tr: "traversed succ s' a i \<longleftrightarrow> traversed succ s a i \<or> (a = b \<and> i = k)" for a i
    using s b by (auto simp: traversed_def s'_def less_Suc_eq image_iff)
  have nb: "(b, k) \<notin> sr_back s" using D(9) [of b k] b s(1) by (force simp: traversed_def)
  have tn: "?t \<noteq> b" "?t \<notin> set (sr_done s)" "?t \<notin> set (grey s)" using t b D(7) by auto
  have "edge_ok succ s' a i" if "traversed succ s' a i" for a i
  proof (cases "a = b \<and> i = k")
    case True
    then show ?thesis using nb b tn by (simp add: edge_ok_def g, simp add: s'_def)
  next
    case False
    then have o: "traversed succ s a i" using that tr by blast
    have "a \<noteq> ?t" using traversed_found [OF ok o] t by auto
    then show ?thesis using D(10) [OF o] unfolding edge_ok_def Let_def g by (auto simp: s'_def split: if_splits)
  qed
  moreover have "\<exists>a i. traversed succ s' a i \<and> succ a ! i = x \<and> (a, i) \<notin> sr_back s'" if x: "x \<in> set (sr_found s')" "x \<notin> roots" for x
  proof (cases "x = ?t")
    case True
    then show ?thesis using nb tr by (intro exI [of _ b] exI [of _ k]) (simp add: s'_def)
  next
    case False
    then show ?thesis using D(11) [of x] x tr by (auto simp: s'_def)
  qed
  moreover have "(\<forall>(b, k) \<in> set (sr_stack s'). k \<le> length (succ b))"
    using D(8) s by (auto simp: s'_def Suc_le_eq le_neq_implies_less)
  ultimately show ?thesis
    unfolding step search_ok_def using D(1-7,9) t tn g tr s
    by (auto simp: s'_def grey_def)
qed

lemma search_advance_ok:
  assumes ok: "search_ok succ n roots s" and s: "sr_stack s = (b, k) # rest" "k \<noteq> length (succ b)"
    and t: "succ b ! k \<in> set (sr_found s)"
  shows "search_ok succ n roots (search_step succ s)"
proof -
  let ?t = "succ b ! k"
  define marks where "marks = (if ?t \<in> set (sr_done s) then sr_back s else insert (b, k) (sr_back s))"
  define s' where "s' = s\<lparr>sr_stack := (b, k + 1) # rest, sr_back := marks\<rparr>"
  have step: "search_step succ s = s'" using s t by (simp add: search_step_def s'_def marks_def)
  note D = search_okD [OF ok]
  have g: "grey s' = grey s" "grey s = b # map fst rest" by (simp_all add: grey_def s s'_def)
  have b: "b \<in> set (sr_found s)" "b \<notin> set (map fst rest)" "b \<notin> set (sr_done s)" using D(4,6,7) g by auto
  have tr: "traversed succ s' a i \<longleftrightarrow> traversed succ s a i \<or> (a = b \<and> i = k)" for a i
    using s b by (auto simp: traversed_def s'_def less_Suc_eq image_iff)
  have nt: "\<not> traversed succ s b k" using b s(1) by (force simp: traversed_def)
  then have nb: "(b, k) \<notin> sr_back s" using D(9) by blast
  have "edge_ok succ s' a i" if "traversed succ s' a i" for a i
  proof (cases "a = b \<and> i = k")
    case True
    then show ?thesis using nb b t D(7) g by (auto simp: edge_ok_def s'_def marks_def Let_def)
  next
    case False
    then have o: "traversed succ s a i" using that tr by blast
    then show ?thesis using D(10) [OF o] False unfolding edge_ok_def Let_def g by (auto simp: s'_def marks_def split: if_splits)
  qed
  moreover have "\<exists>a i. traversed succ s' a i \<and> succ a ! i = x \<and> (a, i) \<notin> sr_back s'" if x: "x \<in> set (sr_found s')" "x \<notin> roots" for x
  proof -
    obtain a i where a: "traversed succ s a i" "succ a ! i = x" "(a, i) \<notin> sr_back s" using D(11) [of x] x by (auto simp: s'_def)
    then have "(a, i) \<noteq> (b, k)" using nt by auto
    then show ?thesis using a tr by (intro exI [of _ a] exI [of _ i]) (simp add: s'_def marks_def)
  qed
  moreover have "(\<forall>(b, k) \<in> set (sr_stack s'). k \<le> length (succ b))"
    using D(8) s by (auto simp: s'_def Suc_le_eq le_neq_implies_less)
  moreover have "\<forall>(a, i) \<in> sr_back s'. traversed succ s' a i" using D(9) tr by (auto simp: s'_def marks_def split: if_splits)
  ultimately show ?thesis
    unfolding step search_ok_def using D(1-7) g s by (auto simp: s'_def grey_def)
qed

definition closed_below :: "(nat \<Rightarrow> nat list) \<Rightarrow> nat \<Rightarrow> bool" where
  "closed_below succ n \<longleftrightarrow> (\<forall>b<n. \<forall>t\<in>set (succ b). t < n)"

lemma search_step_ok:
  assumes "search_ok succ n roots s" "closed_below succ n"
  shows "search_ok succ n roots (search_step succ s)"
proof (cases "sr_stack s")
  case Nil
  then show ?thesis using assms(1) by (simp add: search_step_def)
next
  case (Cons p rest)
  obtain b k where p: "p = (b, k)" by fastforce
  note D = search_okD [OF assms(1)]
  have b: "b < n" using D(2,7) Cons by (auto simp: p grey_def)
  show ?thesis
  proof (cases "k = length (succ b)")
    case True
    then show ?thesis using search_pop_ok [OF assms(1)] Cons p by simp
  next
    case False
    then have "k < length (succ b)" using D(8) [of b k] Cons p by simp
    then have "succ b ! k < n" using assms(2) b by (simp add: closed_below_def)
    then show ?thesis
      using search_push_ok [OF assms(1) Cons [unfolded p] False] search_advance_ok [OF assms(1) Cons [unfolded p] False] by blast
  qed
qed

section \<open>The search ends\<close>

definition search_weight :: "(nat \<Rightarrow> nat list) \<Rightarrow> search \<Rightarrow> nat" where
  "search_weight succ s = (\<Sum>(b, k) \<leftarrow> sr_stack s. Suc (length (succ b) - k))"

definition search_less :: "(nat \<Rightarrow> nat list) \<Rightarrow> nat \<Rightarrow> (search \<times> search) set" where
  "search_less succ n = measures [\<lambda>s. n - length (sr_found s), search_weight succ]"

lemma wf_search_less: "wf (search_less succ n)"
  by (simp add: search_less_def)

lemma found_bound: "search_ok succ n roots s \<Longrightarrow> length (sr_found s) \<le> n"
  using distinct_card [OF search_okD(1), of succ n roots s] card_mono [OF _ search_okD(2), of n] by fastforce

lemma search_step_less:
  assumes ok: "search_ok succ n roots s" and cl: "closed_below succ n" and ne: "sr_stack s \<noteq> []"
  shows "(search_step succ s, s) \<in> search_less succ n"
proof -
  obtain b k rest where s: "sr_stack s = (b, k) # rest" using ne by (cases "sr_stack s") auto
  have "k \<le> length (succ b)" using search_okD(8) [OF ok, of b k] s by simp
  then consider "k = length (succ b)" | "k < length (succ b)" by linarith
  then show ?thesis
  proof cases
    case 1
    then show ?thesis by (simp add: search_step_def s search_less_def search_weight_def)
  next
    case 2
    show ?thesis
    proof (cases "succ b ! k \<in> set (sr_found s)")
      case True
      then show ?thesis using 2 by (simp add: search_step_def s search_less_def search_weight_def Let_def) arith
    next
      case False
      have "length (sr_found (search_step succ s)) \<le> n" by (rule found_bound [OF search_step_ok [OF ok cl]])
      then show ?thesis using 2 False by (auto simp: search_step_def search_push_def s search_less_def Let_def intro: diff_less_mono2)
    qed
  qed
qed

text \<open>A loop whose state follows the search step by step ends, and its final state follows a search with an empty
  stack.\<close>

lemma search_simulation:
  assumes cl: "closed_below succ n"
    and step: "\<And>s a. R s a \<Longrightarrow> search_ok succ n roots a \<Longrightarrow> (P s \<longleftrightarrow> sr_stack a \<noteq> []) \<and> (P s \<longrightarrow> R (c s) (search_step succ a))"
    and init: "R s0 a0" "search_ok succ n roots a0"
  shows "\<exists>t a. while_option P c s0 = Some t \<and> R t a \<and> search_ok succ n roots a \<and> sr_stack a = []"
  using wf_search_less [of succ n] init
proof (induction a0 arbitrary: s0 rule: wf_induct_rule)
  case (less a)
  note 2 = less.IH less.prems
  note S = step [OF less.prems]
  show ?case
  proof (cases "P s0")
    case True
    have "\<exists>t a. while_option P c (c s0) = Some t \<and> R t a \<and> search_ok succ n roots a \<and> sr_stack a = []"
      using S True by (intro 2(1) [OF search_step_less [OF 2(3) cl]] search_step_ok [OF 2(3) cl]) auto
    then show ?thesis using True by (subst while_option_unfold) simp
  next
    case False
    then show ?thesis using S 2(2,3) by (subst while_option_unfold) auto
  qed
qed

section \<open>What a finished search has found\<close>

definition succ_edges :: "(nat \<Rightarrow> nat list) \<Rightarrow> (nat \<times> nat) set" where
  "succ_edges succ = {(a, t). t \<in> set (succ a)}"

definition position :: "nat list \<Rightarrow> nat \<Rightarrow> nat" where
  "position xs x = length (takeWhile (\<lambda>y. y \<noteq> x) xs)"

lemma position_less: "x \<in> set xs \<Longrightarrow> position xs x < length xs"
  by (induction xs) (auto simp: position_def)

lemma position_nth: "x \<in> set xs \<Longrightarrow> xs ! position xs x = x"
  using position_less [of x xs] unfolding position_def by (blast dest: nth_length_takeWhile)

lemma nth_position: "distinct xs \<Longrightarrow> i < length xs \<Longrightarrow> position xs (xs ! i) = i"
  using position_less [of "xs ! i" xs] position_nth [of "xs ! i" xs] by (simp add: nth_eq_iff_index_eq)

lemma position_inj: "x \<in> set xs \<Longrightarrow> y \<in> set xs \<Longrightarrow> position xs x = position xs y \<Longrightarrow> x = y"
  by (metis position_nth)

lemma precedes_position: "distinct xs \<Longrightarrow> precedes xs x y \<longleftrightarrow> x \<in> set xs \<and> y \<in> set xs \<and> position xs x < position xs y"
proof (induction xs)
  case (Cons b xs)
  then show ?case by (auto simp: precedes_Cons position_def)
qed simp

lemma finished_edges:
  assumes "search_ok succ n roots s" "sr_stack s = []" "a \<in> set (sr_done s)" "i < length (succ a)"
  shows "succ a ! i \<in> set (sr_done s)" "(a, i) \<in> sr_back s \<longleftrightarrow> position (sr_done s) (succ a ! i) \<le> position (sr_done s) a"
proof -
  note D = search_okD [OF assms(1)]
  have g: "grey s = []" using assms(2) by (simp add: grey_def)
  have e: "edge_ok succ s a i" by (rule D(10)) (use assms in \<open>auto simp: traversed_def\<close>)
  then show "succ a ! i \<in> set (sr_done s)" using D(7) g by (auto simp: edge_ok_def Let_def)
  then show "(a, i) \<in> sr_back s \<longleftrightarrow> position (sr_done s) (succ a ! i) \<le> position (sr_done s) a"
    using e assms(3) D(5) by (auto simp: edge_ok_def Let_def precedes_position split: if_splits)
qed

text \<open>Every block found is a root or the target of an edge from a block that comes before it.\<close>

lemma finished_parent:
  assumes "search_ok succ n roots s" "sr_stack s = []" "x \<in> set (sr_done s)" "x \<notin> roots"
  shows "\<exists>a\<in>set (sr_done s). x \<in> set (succ a) \<and> position (sr_done s) a < position (sr_done s) x"
proof -
  note D = search_okD [OF assms(1)]
  have g: "grey s = []" using assms(2) by (simp add: grey_def)
  obtain a i where a: "traversed succ s a i" "succ a ! i = x" "(a, i) \<notin> sr_back s"
    using D(11) [of x] D(7) g assms(3,4) by auto
  have d: "a \<in> set (sr_done s)" "i < length (succ a)" using a(1) assms(2) by (auto simp: traversed_def)
  show ?thesis using finished_edges [OF assms(1,2) d] a d by (intro bexI [of _ a]) auto
qed

lemma finished_reachable:
  assumes "search_ok succ n roots s" "sr_stack s = []"
  shows "set (sr_done s) = (succ_edges succ)\<^sup>* `` roots"
proof (intro equalityI subsetI)
  note D = search_okD [OF assms(1)]
  have g: "grey s = []" using assms(2) by (simp add: grey_def)
  fix x
  assume "x \<in> set (sr_done s)"
  then show "x \<in> (succ_edges succ)\<^sup>* `` roots"
  proof (induction "position (sr_done s) x" arbitrary: x rule: less_induct)
    case less
    show ?case
    proof (cases "x \<in> roots")
      case False
      obtain a where a: "a \<in> set (sr_done s)" "x \<in> set (succ a)" "position (sr_done s) a < position (sr_done s) x"
        using finished_parent [OF assms less.prems False] by blast
      then have "(a, x) \<in> succ_edges succ" by (simp add: succ_edges_def)
      then show ?thesis using less.hyps [OF a(3,1)] by (blast intro: rtrancl_into_rtrancl)
    qed auto
  qed
next
  note D = search_okD [OF assms(1)]
  have g: "grey s = []" using assms(2) by (simp add: grey_def)
  fix x
  assume "x \<in> (succ_edges succ)\<^sup>* `` roots"
  then obtain r where r: "r \<in> roots" "(r, x) \<in> (succ_edges succ)\<^sup>*" by auto
  have "r \<in> set (sr_done s)" using D(3,7) g r(1) by auto
  with r(2) show "x \<in> set (sr_done s)"
  proof (induction rule: rtrancl_induct)
    case (step y z)
    then have "y \<in> set (sr_done s)" "z \<in> set (succ y)" by (auto simp: succ_edges_def)
    then show ?case using finished_edges(1) [OF assms] by (metis in_set_conv_nth)
  qed
qed

text \<open>The start of a search, possibly after others.\<close>

lemma search_start_ok:
  assumes "search_ok succ n roots s" "sr_stack s = []" "r \<notin> set (sr_found s)" "r < n"
  shows "search_ok succ n (insert r roots) (search_push r s)"
proof -
  note D = search_okD [OF assms(1)]
  have g: "grey s = []" "grey (search_push r s) = [r]" using assms(2) by (simp_all add: grey_def search_push_def)
  have tr: "traversed succ (search_push r s) a i = traversed succ s a i" for a i
    using assms(2) by (auto simp: traversed_def search_push_def)
  have "edge_ok succ (search_push r s) a i" if t: "traversed succ s a i" for a i
  proof -
    have "a \<in> set (sr_done s)" using t assms(2) by (auto simp: traversed_def)
    then show ?thesis using D(10) [OF t] by (auto simp: edge_ok_def Let_def search_push_def)
  qed
  then show ?thesis
    unfolding search_ok_def tr using D g assms by (auto simp: search_push_def)
qed

definition search_empty :: search where
  "search_empty = \<lparr>sr_stack = [], sr_found = [], sr_done = [], sr_back = {}\<rparr>"

lemma search_empty_ok: "search_ok succ n {} search_empty"
  by (auto simp: search_ok_def search_empty_def grey_def traversed_def)

section \<open>Paths\<close>

fun node_path :: "(nat \<Rightarrow> nat list) \<Rightarrow> nat list \<Rightarrow> bool" where
  "node_path succ [] = False"
| "node_path succ [b] = True"
| "node_path succ (a # b # p) = (b \<in> set (succ a) \<and> node_path succ (b # p))"

end
