(* ===== verification/FlowGraph.thy ===== *)
theory FlowGraph
  imports FunctionIR GraphSearch
begin

text \<open>
  \<open>lib/Analysis/ControlFlow.cpp\<close> and the construction of \<open>lib/Analysis/FunctionGraph.cpp\<close>: the edges of a function, its
  address-taken blocks, the search from the entries, and the graph with entry, exit and prologue nodes.
\<close>

section \<open>Edges\<close>

datatype edge_kind = EdgeBranch | EdgeFallthrough | EdgeSwitchCase | EdgeIndirect | EdgeEntry | EdgeExit

record flow_edge =
  ed_source :: nat
  ed_destination :: nat
  ed_kind :: edge_kind
  ed_operand :: nat

definition plain_edge :: "nat \<Rightarrow> nat \<Rightarrow> edge_kind \<Rightarrow> flow_edge" where
  "plain_edge s d k = \<lparr>ed_source = s, ed_destination = d, ed_kind = k, ed_operand = SIZE_MAX\<rparr>"

definition operand_edge :: "nat \<Rightarrow> nat \<Rightarrow> edge_kind \<Rightarrow> nat \<Rightarrow> flow_edge" where
  "operand_edge s d k p = \<lparr>ed_source = s, ed_destination = d, ed_kind = k, ed_operand = p\<rparr>"

text \<open>The edges with, for every block, the numbers of those that enter and leave it.\<close>

record flow_graph =
  fg_edges :: "flow_edge list"
  fg_incoming :: "nat list list"
  fg_outgoing :: "nat list list"

definition empty_graph :: "nat \<Rightarrow> flow_graph" where
  "empty_graph n = \<lparr>fg_edges = [], fg_incoming = replicate n [], fg_outgoing = replicate n []\<rparr>"

definition add_edge :: "flow_edge \<Rightarrow> flow_graph \<Rightarrow> flow_graph" where
  "add_edge e g = (let eid = length (fg_edges g) in
     g\<lparr>fg_edges := fg_edges g @ [e],
       fg_outgoing := (fg_outgoing g)[ed_source e := fg_outgoing g ! ed_source e @ [eid]],
       fg_incoming := (fg_incoming g)[ed_destination e := fg_incoming g ! ed_destination e @ [eid]]\<rparr>)"

definition add_edges :: "flow_edge list \<Rightarrow> flow_graph \<Rightarrow> flow_graph" where
  "add_edges es g = fold add_edge es g"

section \<open>The control flow of a function\<close>

text \<open>\<open>LAddr\<close> takes the address of the block of its second operand; so does data that holds a label or the base of a
  label difference of the function.\<close>

definition instruction_marks :: "ir_function \<Rightarrow> ir_instruction \<Rightarrow> nat result list" where
  "instruction_marks f i = (if ii_opcode i = OMisc O_LAddr then [block_of f (label_at i 1)] else [])"

definition own_label :: "ir_function \<Rightarrow> ir_label \<Rightarrow> nat result list" where
  "own_label f l = (if il_function l = if_id f then [block_of f (Some (il_label l))] else [])"

definition data_marks :: "ir_function \<Rightarrow> data_initializer \<Rightarrow> nat result list" where
  "data_marks f d = (case d of
     LabelData l base _ \<Rightarrow> own_label f l @ (case base of None \<Rightarrow> [] | Some b \<Rightarrow> own_label f b)
   | OtherData \<Rightarrow> [])"

definition address_marks :: "ir_function \<Rightarrow> nat list result" where
  "address_marks f =
    collect (concat (map (\<lambda>b. concat (map (instruction_marks f) (ib_instructions b))) (if_blocks f)) @
             concat (map (data_marks f) (if_label_data f)))"

definition mark_blocks :: "nat list \<Rightarrow> nat \<Rightarrow> bool list" where
  "mark_blocks bs n = fold (\<lambda>b marks. marks[b := True]) bs (replicate n False)"

definition indirect_targets :: "bool list \<Rightarrow> nat list" where
  "indirect_targets marks = filter ((!) marks) [0..<length marks]"

definition fallthrough :: "nat \<Rightarrow> nat \<Rightarrow> flow_edge list" where
  "fallthrough n b = (if b + 1 < n then [plain_edge b (b + 1) EdgeFallthrough] else [])"

definition switch_edges :: "ir_function \<Rightarrow> nat \<Rightarrow> ir_instruction \<Rightarrow> flow_edge list result" where
  "switch_edges f b i =
    collect (map (\<lambda>p. rbind (block_of f (label_at i p)) (\<lambda>t. Inr (operand_edge b t EdgeSwitchCase p))) [1..<length (ii_operands i)])"

definition direct_edges :: "ir_function \<Rightarrow> nat \<Rightarrow> flow_edge list result" where
  "direct_edges f b = (case terminator (if_blocks f ! b) of
     None \<Rightarrow> Inr (fallthrough (length (if_blocks f)) b)
   | Some i \<Rightarrow>
       if ii_opcode i = OMisc O_Switch then switch_edges f b i
       else if ii_opcode i = OMisc O_Jmp \<or> control_flow (instruction_descriptor (ii_opcode i)) = FlowBranch
       then rbind (block_of f (label_at i 0)) (\<lambda>t.
              Inr ((if ii_opcode i \<noteq> OMisc O_Jmp then fallthrough (length (if_blocks f)) b else []) @ [operand_edge b t EdgeBranch 0]))
       else Inr [])"

text \<open>The indirect edges come after all direct ones, in the order the arguments of a phi follow.\<close>

definition indirect_edges :: "ir_function \<Rightarrow> nat list \<Rightarrow> nat \<Rightarrow> flow_edge list" where
  "indirect_edges f targets b = (case terminator (if_blocks f ! b) of
     Some i \<Rightarrow> if ii_opcode i = OMisc O_JmpIndirect then map (\<lambda>t. plain_edge b t EdgeIndirect) targets else []
   | None \<Rightarrow> [])"

definition targets_of :: "flow_graph \<Rightarrow> nat \<Rightarrow> nat list" where
  "targets_of g b = map (\<lambda>eid. ed_destination (fg_edges g ! eid)) (fg_outgoing g ! b)"

subsection \<open>The search from the entries\<close>

record visit =
  vs_stack :: "(nat \<times> nat) list"
  vs_reachable :: "bool list"
  vs_postorder :: "nat list"

definition visit_step :: "flow_graph \<Rightarrow> visit \<Rightarrow> visit" where
  "visit_step g s = (case vs_stack s of
     [] \<Rightarrow> s
   | (b, k) # rest \<Rightarrow>
       if k = length (fg_outgoing g ! b) then s\<lparr>vs_stack := rest, vs_postorder := vs_postorder s @ [b]\<rparr>
       else let t = ed_destination (fg_edges g ! (fg_outgoing g ! b ! k)); s = s\<lparr>vs_stack := (b, k + 1) # rest\<rparr>
            in if \<not> vs_reachable s ! t then s\<lparr>vs_stack := (t, 0) # vs_stack s, vs_reachable := (vs_reachable s)[t := True]\<rparr> else s)"

definition visit_all :: "flow_graph \<Rightarrow> visit \<Rightarrow> visit option" where
  "visit_all g = while_option (\<lambda>s. vs_stack s \<noteq> []) (visit_step g)"

text \<open>One search per entry that is not yet reached; the reversed postorders follow each other.\<close>

fun visit_roots :: "flow_graph \<Rightarrow> nat list \<Rightarrow> bool list \<times> nat list \<Rightarrow> (bool list \<times> nat list) option" where
  "visit_roots g [] (reach, order) = Some (reach, order)"
| "visit_roots g (r # rs) (reach, order) =
    (if reach ! r then visit_roots g rs (reach, order)
     else (case visit_all g \<lparr>vs_stack = [(r, 0)], vs_reachable = reach[r := True], vs_postorder = []\<rparr> of
         None \<Rightarrow> None
       | Some s \<Rightarrow> visit_roots g rs (vs_reachable s, order @ rev (vs_postorder s))))"

record control_flow_graph =
  cg_graph :: flow_graph
  cg_reverse_postorder :: "nat list"
  cg_entry_roots :: "nat list"
  cg_reachable :: "bool list"

definition control_flow_edges :: "ir_function \<Rightarrow> nat list \<Rightarrow> flow_edge list result" where
  "control_flow_edges f targets =
    (let blocks = [0..<length (if_blocks f)]
     in rbind (collect (map (direct_edges f) blocks)) (\<lambda>ess. Inr (concat ess @ concat (map (indirect_edges f targets) blocks))))"

text \<open>\<open>ControlFlowAnalysis::run\<close>; the outer option is the search, which is shown to return.\<close>

definition control_flow_analysis :: "(ir_function \<Rightarrow> unit result) \<Rightarrow> ir_function \<Rightarrow> control_flow_graph result option" where
  "control_flow_analysis verify f = (let n = length (if_blocks f) in
     case rbind (verify f) (\<lambda>_. rbind (address_marks f) (\<lambda>marks. let targets = indirect_targets (mark_blocks marks n) in
          rbind (control_flow_edges f targets) (\<lambda>es. Inr (targets, add_edges es (empty_graph n))))) of
       Inl e \<Rightarrow> Some (Inl e)
     | Inr (targets, g) \<Rightarrow>
         let roots = 0 # filter (\<lambda>r. r \<noteq> 0) targets
         in map_option (\<lambda>(reach, order). Inr \<lparr>cg_graph = g, cg_reverse_postorder = order, cg_entry_roots = roots, cg_reachable = reach\<rparr>)
              (visit_roots g roots (replicate n False, [])))"

section \<open>Well-formed graphs\<close>

definition edge_within :: "nat \<Rightarrow> flow_edge \<Rightarrow> bool" where
  "edge_within n e \<longleftrightarrow> ed_source e < n \<and> ed_destination e < n"

text \<open>The edges stay inside, and the lists of a block are the numbers of its edges in order.\<close>

definition graph_ok :: "nat \<Rightarrow> flow_graph \<Rightarrow> bool" where
  "graph_ok n g \<longleftrightarrow> length (fg_outgoing g) = n \<and> length (fg_incoming g) = n \<and> list_all (edge_within n) (fg_edges g) \<and>
     (\<forall>b<n. fg_outgoing g ! b = filter (\<lambda>eid. ed_source (fg_edges g ! eid) = b) [0..<length (fg_edges g)] \<and>
            fg_incoming g ! b = filter (\<lambda>eid. ed_destination (fg_edges g ! eid) = b) [0..<length (fg_edges g)])"

lemma graph_ok_empty: "graph_ok n (empty_graph n)"
  by (simp add: graph_ok_def empty_graph_def)

lemma filter_edges_append:
  "filter (\<lambda>eid. P ((es @ [e]) ! eid)) [0..<Suc (length es)] = filter (\<lambda>eid. P (es ! eid)) [0..<length es] @ (if P e then [length es] else [])"
  by (auto simp: nth_append intro!: filter_cong)

lemma graph_ok_add: "graph_ok n g \<Longrightarrow> edge_within n e \<Longrightarrow> graph_ok n (add_edge e g)"
  using filter_edges_append [of "\<lambda>x. ed_source x = b" "fg_edges g" e for b]
    filter_edges_append [of "\<lambda>x. ed_destination x = b" "fg_edges g" e for b]
  by (auto simp: graph_ok_def add_edge_def Let_def edge_within_def nth_list_update simp del: upt_Suc)

lemma graph_ok_adds: "graph_ok n g \<Longrightarrow> list_all (edge_within n) es \<Longrightarrow> graph_ok n (add_edges es g)"
  by (induction es arbitrary: g) (simp_all add: add_edges_def graph_ok_add)

lemma edges_of_adds: "fg_edges (add_edges es g) = fg_edges g @ es"
  by (induction es arbitrary: g) (simp_all add: add_edges_def add_edge_def Let_def)

lemma graph_okD:
  assumes "graph_ok n g"
  shows "eid \<in> set (fg_outgoing g ! b) \<Longrightarrow> b < n \<Longrightarrow> eid < length (fg_edges g) \<and> ed_source (fg_edges g ! eid) = b"
    "eid \<in> set (fg_incoming g ! b) \<Longrightarrow> b < n \<Longrightarrow> eid < length (fg_edges g) \<and> ed_destination (fg_edges g ! eid) = b"
    "eid < length (fg_edges g) \<Longrightarrow> eid \<in> set (fg_outgoing g ! ed_source (fg_edges g ! eid)) \<and> ed_source (fg_edges g ! eid) < n"
    "eid < length (fg_edges g) \<Longrightarrow> eid \<in> set (fg_incoming g ! ed_destination (fg_edges g ! eid)) \<and> ed_destination (fg_edges g ! eid) < n"
  using assms by (auto simp: graph_ok_def list_all_length edge_within_def)

lemma graph_closed: "graph_ok n g \<Longrightarrow> closed_below (targets_of g) n"
  unfolding closed_below_def targets_of_def using graph_okD(1,4) by fastforce

lemma targets_edges: "graph_ok n g \<Longrightarrow> b < n \<Longrightarrow> t \<in> set (targets_of g b) \<longleftrightarrow> (\<exists>e\<in>set (fg_edges g). ed_source e = b \<and> ed_destination e = t)"
  unfolding targets_of_def using graph_okD(1,3) by (fastforce simp: in_set_conv_nth image_iff)

lemma incoming_preds:
  assumes g: "graph_ok n g" and b: "b < n"
  shows "set (map (\<lambda>eid. ed_source (fg_edges g ! eid)) (fg_incoming g ! b)) = {a. a < n \<and> b \<in> set (targets_of g a)}"
proof -
  have inc: "fg_incoming g ! b = filter (\<lambda>eid. ed_destination (fg_edges g ! eid) = b) [0..<length (fg_edges g)]"
    using g b by (simp add: graph_ok_def)
  have "a < n \<and> b \<in> set (targets_of g a) \<longleftrightarrow> (\<exists>eid<length (fg_edges g). ed_destination (fg_edges g ! eid) = b \<and> ed_source (fg_edges g ! eid) = a)" for a
  proof
    assume "\<exists>eid<length (fg_edges g). ed_destination (fg_edges g ! eid) = b \<and> ed_source (fg_edges g ! eid) = a"
    then obtain eid where e: "eid < length (fg_edges g)" "ed_destination (fg_edges g ! eid) = b" "ed_source (fg_edges g ! eid) = a"
      by blast
    have "a < n" using graph_okD(3) [OF g e(1)] e(3) by simp
    then show "a < n \<and> b \<in> set (targets_of g a)" using targets_edges [OF g, of a b] nth_mem [OF e(1)] e(2,3) by blast
  next
    assume "a < n \<and> b \<in> set (targets_of g a)"
    then obtain e where "e \<in> set (fg_edges g)" "ed_source e = a" "ed_destination e = b" using targets_edges [OF g] by blast
    then show "\<exists>eid<length (fg_edges g). ed_destination (fg_edges g ! eid) = b \<and> ed_source (fg_edges g ! eid) = a"
      by (auto simp: in_set_conv_nth)
  qed
  then show ?thesis unfolding inc by auto
qed

section \<open>The edges of a function are well-formed\<close>

lemma collect_all: "collect rs = Inr xs \<Longrightarrow> (\<And>x. Inr x \<in> set rs \<Longrightarrow> P x) \<Longrightarrow> list_all P xs"
  using collect_set by (fastforce simp: list_all_iff)

lemma address_marks_less: "address_marks f = Inr ms \<Longrightarrow> list_all (\<lambda>b. b < length (if_blocks f)) ms"
  unfolding address_marks_def
  by (erule collect_all)
    (auto simp: instruction_marks_def data_marks_def own_label_def split: if_splits data_initializer.splits option.splits
      dest!: sym [of "Inr _"] dest: block_of_less)

lemma mark_blocks_nth: "list_all (\<lambda>b. b < n) bs \<Longrightarrow> i < n \<Longrightarrow> mark_blocks bs n ! i \<longleftrightarrow> i \<in> set bs"
proof -
  have "length (fold (\<lambda>b marks. marks[b := True]) bs m) = length m \<and> (i < length m \<longrightarrow> list_all (\<lambda>b. b < length m) bs \<longrightarrow>
      fold (\<lambda>b marks. marks[b := True]) bs m ! i = (m ! i \<or> i \<in> set bs))" for m
    by (induction bs arbitrary: m) (auto simp: nth_list_update)
  from this [of "replicate n False"] show "list_all (\<lambda>b. b < n) bs \<Longrightarrow> i < n \<Longrightarrow> ?thesis" by (simp add: mark_blocks_def)
qed

lemma length_mark_blocks [simp]: "length (mark_blocks bs n) = n"
proof -
  have "length (fold (\<lambda>b marks. marks[b := True]) bs m) = length m" for m by (induction bs arbitrary: m) simp_all
  then show ?thesis by (simp add: mark_blocks_def)
qed

lemma indirect_targets_marks: "list_all (\<lambda>b. b < n) ms \<Longrightarrow> set (indirect_targets (mark_blocks ms n)) = set ms"
  using mark_blocks_nth [of n ms] by (auto simp: indirect_targets_def list_all_iff)

lemma direct_edges_within:
  assumes "direct_edges f b = Inr es" "b < length (if_blocks f)"
  shows "list_all (\<lambda>e. edge_within (length (if_blocks f)) e \<and> ed_source e = b) es"
proof (cases "terminator (if_blocks f ! b)")
  case None
  then show ?thesis using assms by (auto simp: direct_edges_def fallthrough_def plain_edge_def edge_within_def)
next
  case (Some i)
  show ?thesis
  proof (cases "ii_opcode i = OMisc O_Switch")
    case True
    then have "switch_edges f b i = Inr es" using assms Some by (simp add: direct_edges_def)
    then show ?thesis
      unfolding switch_edges_def using assms(2)
      by (elim collect_all) (auto simp: rbind_eq_Inr operand_edge_def edge_within_def dest!: sym [of "Inr _"], erule block_of_less)
  next
    case False
    then show ?thesis
      using assms Some
      by (auto simp: direct_edges_def rbind_eq_Inr fallthrough_def plain_edge_def operand_edge_def edge_within_def dest: block_of_less split: if_splits)
  qed
qed

lemma control_flow_edges_within:
  assumes "control_flow_edges f ts = Inr es" "list_all (\<lambda>b. b < length (if_blocks f)) ts"
  shows "list_all (edge_within (length (if_blocks f))) es"
proof -
  let ?n = "length (if_blocks f)"
  obtain ess where ess: "collect (map (direct_edges f) [0..<?n]) = Inr ess" "es = concat ess @ concat (map (indirect_edges f ts) [0..<?n])"
    using assms(1) by (auto simp: control_flow_edges_def Let_def rbind_eq_Inr)
  have "list_all (list_all (edge_within ?n)) ess"
    by (rule collect_all [OF ess(1)]) (auto simp: list_all_iff dest!: sym [of "Inr _"] dest: direct_edges_within [unfolded list_all_iff])
  moreover have "list_all (edge_within ?n) (indirect_edges f ts b)" if "b < ?n" for b
    using that assms(2) by (auto simp: indirect_edges_def plain_edge_def edge_within_def list_all_iff split: option.splits)
  ultimately show ?thesis by (auto simp: ess(2) list_all_iff)
qed

section \<open>The search reaches exactly the reachable blocks\<close>

definition visit_follows :: "nat \<Rightarrow> nat list \<Rightarrow> visit \<Rightarrow> search \<Rightarrow> bool" where
  "visit_follows n order s a \<longleftrightarrow> vs_stack s = sr_stack a \<and> length (vs_reachable s) = n \<and>
     (\<forall>b<n. vs_reachable s ! b \<longleftrightarrow> b \<in> set (sr_found a)) \<and>
     distinct (order @ vs_postorder s) \<and> set (order @ vs_postorder s) = set (sr_done a)"

lemma visit_step_follows:
  assumes g: "graph_ok n g" and R: "visit_follows n order s a" and ok: "search_ok (targets_of g) n roots a"
  shows "(vs_stack s \<noteq> [] \<longleftrightarrow> sr_stack a \<noteq> []) \<and>
    (vs_stack s \<noteq> [] \<longrightarrow> visit_follows n order (visit_step g s) (search_step (targets_of g) a))"
proof (cases "vs_stack s")
  case Nil
  then show ?thesis using R by (simp add: visit_follows_def)
next
  case (Cons p rest)
  obtain b k where p: "p = (b, k)" by fastforce
  note D = search_okD [OF ok]
  have st: "sr_stack a = (b, k) # rest" using R Cons p by (simp add: visit_follows_def)
  have b: "b < n" "b \<notin> set (sr_done a)" using D(2,6,7) st by (auto simp: grey_def)
  have k: "k \<le> length (targets_of g b)" using D(8) [of b k] st by simp
  have len: "length (targets_of g b) = length (fg_outgoing g ! b)" by (simp add: targets_of_def)
  have t: "k < length (targets_of g b) \<Longrightarrow> targets_of g b ! k < n"
    using graph_closed [OF g] b(1) by (simp add: closed_below_def)
  have n: "k < length (fg_outgoing g ! b) \<Longrightarrow> targets_of g b ! k = ed_destination (fg_edges g ! (fg_outgoing g ! b ! k))"
    by (simp add: targets_of_def)
  show ?thesis
    using R b k t n unfolding visit_follows_def
    by (auto simp: visit_step_def search_step_def search_push_def st Cons p len Let_def nth_list_update)
qed

lemma visit_all_follows:
  assumes g: "graph_ok n g" and "visit_follows n order s a" "search_ok (targets_of g) n roots a"
  shows "\<exists>t b. visit_all g s = Some t \<and> visit_follows n order t b \<and> search_ok (targets_of g) n roots b \<and> sr_stack b = []"
  unfolding visit_all_def
  by (rule search_simulation [where R = "visit_follows n order", OF graph_closed [OF g] _ assms(2,3)]) (rule visit_step_follows [OF g])

definition roots_visited :: "flow_graph \<Rightarrow> nat \<Rightarrow> nat set \<Rightarrow> bool list \<times> nat list \<Rightarrow> bool" where
  "roots_visited g n roots = (\<lambda>(reach, order). length reach = n \<and> distinct order \<and>
     (\<exists>a. search_ok (targets_of g) n roots a \<and> sr_stack a = [] \<and> set order = set (sr_done a) \<and>
       (\<forall>b<n. reach ! b \<longleftrightarrow> b \<in> set (sr_done a))))"

lemma search_more_roots:
  "search_ok succ n roots s \<Longrightarrow> r \<in> set (sr_found s) \<Longrightarrow> search_ok succ n (insert r roots) s"
  by (auto simp: search_ok_def)

lemma visit_roots_visited:
  assumes g: "graph_ok n g" and "roots_visited g n roots (reach, order)" "list_all (\<lambda>r. r < n) rs"
  shows "\<exists>st. visit_roots g rs (reach, order) = Some st \<and> roots_visited g n (roots \<union> set rs) st"
  using assms(2,3)
proof (induction rs arbitrary: roots reach order)
  case (Cons r rs)
  obtain a where a: "search_ok (targets_of g) n roots a" "sr_stack a = []" "set order = set (sr_done a)"
    "\<forall>b<n. reach ! b \<longleftrightarrow> b \<in> set (sr_done a)" "length reach = n" "distinct order"
    using Cons.prems(1) by (auto simp: roots_visited_def)
  have r: "r < n" "list_all (\<lambda>r. r < n) rs" using Cons.prems(2) by simp_all
  have found: "set (sr_found a) = set (sr_done a)" using search_okD(7) [OF a(1)] a(2) by (simp add: grey_def)
  show ?case
  proof (cases "reach ! r")
    case True
    then have "roots_visited g n (insert r roots) (reach, order)"
      using a found r search_more_roots [OF a(1), of r] by (auto simp: roots_visited_def)
    from Cons.IH [OF this r(2)] True show ?thesis by simp
  next
    case False
    then have new: "r \<notin> set (sr_found a)" using a(4) found r by simp
    let ?s = "\<lparr>vs_stack = [(r, 0)], vs_reachable = reach[r := True], vs_postorder = []\<rparr>"
    have "visit_follows n order ?s (search_push r a)"
      using a found r by (auto simp: visit_follows_def search_push_def nth_list_update)
    from visit_all_follows [OF g this search_start_ok [OF a(1,2) new r(1)]]
    obtain t b where t: "visit_all g ?s = Some t" "visit_follows n order t b" "search_ok (targets_of g) n (insert r roots) b" "sr_stack b = []"
      by blast
    have "set (sr_found b) = set (sr_done b)" using search_okD(7) [OF t(3)] t(4) by (simp add: grey_def)
    then have "roots_visited g n (insert r roots) (vs_reachable t, order @ rev (vs_postorder t))"
      using t(2-4) by (auto simp: roots_visited_def visit_follows_def)
    from Cons.IH [OF this r(2)] False t(1) show ?thesis by simp
  qed
qed simp

lemma roots_visited_start: "roots_visited g n {} (replicate n False, [])"
  using search_empty_ok [of "targets_of g" n] by (auto simp: roots_visited_def search_empty_def intro!: exI [of _ search_empty])

text \<open>The marks are exactly the blocks some path of edges leads to from a root.\<close>

lemma roots_visited_reachable:
  assumes "roots_visited g n roots (reach, order)"
  shows "distinct order \<and> set order = {b. b < n \<and> reach ! b} \<and> set order = (succ_edges (targets_of g))\<^sup>* `` roots"
proof -
  obtain a where a: "search_ok (targets_of g) n roots a" "sr_stack a = []" "set order = set (sr_done a)"
    "\<forall>b<n. reach ! b \<longleftrightarrow> b \<in> set (sr_done a)" "distinct order"
    using assms by (auto simp: roots_visited_def)
  have "set (sr_done a) \<subseteq> {..<n}" using search_okD(2,7) [OF a(1)] by auto
  then show ?thesis using a finished_reachable [OF a(1,2)] by auto
qed

lemma control_flow_analysis_parts:
  assumes "if_blocks f \<noteq> []"
  shows "(\<exists>e. control_flow_analysis verify f = Some (Inl e)) \<or>
    (\<exists>cg marks es. control_flow_analysis verify f = Some (Inr cg) \<and> verify f = Inr () \<and> address_marks f = Inr marks \<and>
      control_flow_edges f (indirect_targets (mark_blocks marks (length (if_blocks f)))) = Inr es \<and>
      cg_graph cg = add_edges es (empty_graph (length (if_blocks f))) \<and> graph_ok (length (if_blocks f)) (cg_graph cg) \<and>
      cg_entry_roots cg = 0 # filter (\<lambda>r. r \<noteq> 0) (indirect_targets (mark_blocks marks (length (if_blocks f)))) \<and>
      length (cg_reachable cg) = length (if_blocks f) \<and>
      roots_visited (cg_graph cg) (length (if_blocks f)) (insert 0 (set marks)) (cg_reachable cg, cg_reverse_postorder cg))"
proof -
  let ?n = "length (if_blocks f)"
  define front where "front = rbind (verify f) (\<lambda>_. rbind (address_marks f) (\<lambda>marks. let targets = indirect_targets (mark_blocks marks ?n) in
          rbind (control_flow_edges f targets) (\<lambda>es. Inr (targets, add_edges es (empty_graph ?n)))))"
  show ?thesis
  proof (cases front)
    case (Inl e)
    then show ?thesis by (simp add: control_flow_analysis_def Let_def front_def)
  next
    case (Inr tg)
    then obtain marks es where m: "verify f = Inr ()" "address_marks f = Inr marks"
      "control_flow_edges f (indirect_targets (mark_blocks marks ?n)) = Inr es"
      "tg = (indirect_targets (mark_blocks marks ?n), add_edges es (empty_graph ?n))"
      by (auto simp: front_def rbind_eq_Inr Let_def)
    let ?ts = "indirect_targets (mark_blocks marks ?n)" and ?g = "add_edges es (empty_graph ?n)"
    have ml: "list_all (\<lambda>b. b < ?n) marks" by (rule address_marks_less [OF m(2)])
    have ts: "set ?ts = set marks" by (rule indirect_targets_marks [OF ml])
    have "list_all (\<lambda>b. b < ?n) ?ts" using ml ts by (simp add: list_all_iff)
    then have g: "graph_ok ?n ?g" by (intro graph_ok_adds graph_ok_empty control_flow_edges_within [OF m(3)])
    let ?roots = "0 # filter (\<lambda>r. r \<noteq> 0) ?ts"
    have "list_all (\<lambda>r. r < ?n) ?roots" using ml ts assms by (auto simp: list_all_iff)
    from visit_roots_visited [OF g roots_visited_start this]
    obtain st where st: "visit_roots ?g ?roots (replicate ?n False, []) = Some st" "roots_visited ?g ?n (set ?roots) st" by auto
    obtain reach order where ro: "st = (reach, order)" by fastforce
    have "set ?roots = insert 0 (set marks)" using ts by auto
    then have rv: "roots_visited ?g ?n (insert 0 (set marks)) (reach, order)" using st(2) by (simp only: ro)
    have "control_flow_analysis verify f =
        Some (Inr \<lparr>cg_graph = ?g, cg_reverse_postorder = order, cg_entry_roots = ?roots, cg_reachable = reach\<rparr>)"
      using Inr st(1) m(4) by (simp add: control_flow_analysis_def Let_def front_def ro)
    moreover have "length reach = ?n" using rv by (simp add: roots_visited_def)
    ultimately show ?thesis using m g rv by simp
  qed
qed

text \<open>C18: the control flow analysis of a function with a body returns; the graph it returns is well-formed, its
  reachable marks are exactly the blocks some path of edges leads to from block 0 or from a block whose address is
  taken, and its reverse postorder lists each of them once.\<close>

theorem control_flow_reachable:
  assumes "if_blocks f \<noteq> []"
  shows "case control_flow_analysis verify f of
      None \<Rightarrow> False
    | Some (Inl e) \<Rightarrow> True
    | Some (Inr cg) \<Rightarrow>
        graph_ok (length (if_blocks f)) (cg_graph cg) \<and>
        set (cg_reverse_postorder cg) = (succ_edges (targets_of (cg_graph cg)))\<^sup>* `` set (cg_entry_roots cg) \<and>
        set (cg_reverse_postorder cg) = {b. b < length (cg_reachable cg) \<and> cg_reachable cg ! b} \<and>
        distinct (cg_reverse_postorder cg)"
proof -
  let ?n = "length (if_blocks f)"
  from control_flow_analysis_parts [OF assms, of verify] show ?thesis
  proof (elim disjE exE conjE)
    fix cg marks es
    assume h: "control_flow_analysis verify f = Some (Inr cg)" "graph_ok ?n (cg_graph cg)" "address_marks f = Inr marks"
      "cg_entry_roots cg = 0 # filter (\<lambda>r. r \<noteq> 0) (indirect_targets (mark_blocks marks ?n))"
      "roots_visited (cg_graph cg) ?n (insert 0 (set marks)) (cg_reachable cg, cg_reverse_postorder cg)" "length (cg_reachable cg) = ?n"
    have "set (cg_entry_roots cg) = insert 0 (set marks)"
      using indirect_targets_marks [OF address_marks_less [OF h(3)]] h(4) by auto
    then show ?thesis using roots_visited_reachable [OF h(5)] h(2) unfolding h(1) h(6) option.case sum.case by metis
  qed simp
qed

definition loop_function :: ir_function where
  "loop_function = \<lparr>if_id = 0, if_name = ''f'', if_registers = [],
     if_blocks = [\<lparr>ib_labels = [], ib_instructions = []\<rparr>,
       \<lparr>ib_labels = [7], ib_instructions = [\<lparr>ii_opcode = OMisc O_Jmp, ii_operands = [IrLabel 7]\<rparr>]\<rparr>,
       \<lparr>ib_labels = [8], ib_instructions = [\<lparr>ii_opcode = OMisc O_Ret, ii_operands = []\<rparr>]\<rparr>],
     if_ssa = False, if_label_data = []\<rparr>"

lemma loop_function_blocks: "if_blocks loop_function \<noteq> []" "length (if_blocks loop_function) = 3"
  by (simp_all add: loop_function_def)

theorem control_flow_reachable_witness:
  "case control_flow_analysis (\<lambda>_. Inr ()) loop_function of
      None \<Rightarrow> False
    | Some (Inl e) \<Rightarrow> True
    | Some (Inr cg) \<Rightarrow>
        graph_ok 3 (cg_graph cg) \<and>
        set (cg_reverse_postorder cg) = (succ_edges (targets_of (cg_graph cg)))\<^sup>* `` set (cg_entry_roots cg) \<and>
        set (cg_reverse_postorder cg) = {b. b < length (cg_reachable cg) \<and> cg_reachable cg ! b} \<and>
        distinct (cg_reverse_postorder cg)"
  using control_flow_reachable [OF loop_function_blocks(1), of "\<lambda>_. Inr ()"] by (simp only: loop_function_blocks(2))

end
