(* ===== verification/FunctionGraph.thy ===== *)
theory FunctionGraph
  imports FlowGraph
begin

text \<open>
  \<open>lib/Analysis/FunctionGraph.cpp\<close>, the graph: entry, exit and prologue nodes before the blocks, the marks of the blocks
  whose address is taken, the edges of the layout, and \<open>enumerate\<close>, which numbers the nodes in preorder and reverse
  postorder and marks the back edges.  The traversal of \<open>lib/CodeGen/GraphAnalysis.cpp\<close> is the same loop.
\<close>

section \<open>The numbering of the nodes\<close>

record numbering =
  nm_stack :: "(nat \<times> nat) list"
  nm_preorder :: "nat list"
  nm_rpost :: "nat list"
  nm_back :: "bool list"
  nm_pre :: nat
  nm_post :: nat

definition numbering_step :: "flow_graph \<Rightarrow> numbering \<Rightarrow> numbering" where
  "numbering_step g s = (case nm_stack s of
     [] \<Rightarrow> s
   | (b, k) # rest \<Rightarrow>
       if k = length (fg_outgoing g ! b)
       then s\<lparr>nm_stack := rest, nm_rpost := (nm_rpost s)[b := nm_post s], nm_post := nm_post s - 1\<rparr>
       else let eid = fg_outgoing g ! b ! k; t = ed_destination (fg_edges g ! eid); s = s\<lparr>nm_stack := (b, k + 1) # rest\<rparr>
            in if nm_preorder s ! t = 0
               then s\<lparr>nm_stack := (t, 0) # nm_stack s, nm_preorder := (nm_preorder s)[t := nm_pre s], nm_pre := nm_pre s + 1\<rparr>
               else if nm_rpost s ! t = 0 then s\<lparr>nm_back := (nm_back s)[eid := True]\<rparr>
               else s)"

definition numbering_start :: "flow_graph \<Rightarrow> nat \<Rightarrow> numbering" where
  "numbering_start g count = \<lparr>nm_stack = [(0, 0)], nm_preorder = (replicate count 0)[0 := 1], nm_rpost = replicate count 0,
     nm_back = replicate (length (fg_edges g)) False, nm_pre = 2, nm_post = count\<rparr>"

definition number_graph :: "flow_graph \<Rightarrow> nat \<Rightarrow> numbering option" where
  "number_graph g count = while_option (\<lambda>s. nm_stack s \<noteq> []) (numbering_step g) (numbering_start g count)"

text \<open>The blocks in the order of their numbers, the unreached ones first.\<close>

definition rpost_order :: "nat list \<Rightarrow> nat \<Rightarrow> nat list" where
  "rpost_order rpost count = sort_key ((!) rpost) [0..<count]"

section \<open>The graph of a function\<close>

datatype node_kind = NodeEntry | NodeExit | NodePrologue | NodeBody

record graph_node =
  gn_kind :: node_kind
  gn_body :: "nat option"
  gn_address_taken :: bool

record function_graph =
  fn_nodes :: "graph_node list"
  fn_flow :: flow_graph
  fn_preorder :: "nat list"
  fn_rpost :: "nat list"
  fn_order :: "nat list"
  fn_back :: "bool list"

definition has_prologue :: "ir_function \<Rightarrow> bool" where
  "has_prologue f \<longleftrightarrow> ib_labels (if_blocks f ! 0) \<noteq> []"

definition body_offset :: "ir_function \<Rightarrow> nat" where
  "body_offset f = (if has_prologue f then 3 else 2)"

definition plain_node :: "node_kind \<Rightarrow> graph_node" where
  "plain_node k = \<lparr>gn_kind = k, gn_body = None, gn_address_taken = False\<rparr>"

definition graph_nodes :: "ir_function \<Rightarrow> nat list \<Rightarrow> graph_node list" where
  "graph_nodes f marks =
     [plain_node NodeEntry, plain_node NodeExit] @ (if has_prologue f then [plain_node NodePrologue] else []) @
     map (\<lambda>b. \<lparr>gn_kind = NodeBody, gn_body = Some b, gn_address_taken = b \<in> set marks\<rparr>) [0..<length (if_blocks f)]"

definition shift_edge :: "nat \<Rightarrow> flow_edge \<Rightarrow> flow_edge" where
  "shift_edge offset e = e\<lparr>ed_source := ed_source e + offset, ed_destination := ed_destination e + offset\<rparr>"

definition entry_exit_edge :: "nat \<Rightarrow> flow_graph \<Rightarrow> flow_graph" where
  "entry_exit_edge b g =
    (let g = (if b \<noteq> 0 \<and> fg_incoming g ! b = [] then add_edge (plain_edge 0 b EdgeEntry) g else g)
     in if b \<noteq> 1 \<and> fg_outgoing g ! b = [] then add_edge (plain_edge b 1 EdgeExit) g else g)"

definition graph_layout :: "ir_function \<Rightarrow> flow_edge list \<Rightarrow> flow_graph" where
  "graph_layout f es =
    (let offset = body_offset f; count = offset + length (if_blocks f)
     in fold entry_exit_edge [0..<count]
          (add_edges ((if has_prologue f then [plain_edge 2 offset EdgeFallthrough] else []) @ map (shift_edge offset) es)
            (empty_graph count)))"

definition enumerate_graph :: "graph_node list \<Rightarrow> flow_graph \<Rightarrow> function_graph option" where
  "enumerate_graph nodes g =
     map_option (\<lambda>s. \<lparr>fn_nodes = nodes, fn_flow = g, fn_preorder = nm_preorder s, fn_rpost = nm_rpost s,
         fn_order = rpost_order (nm_rpost s) (length nodes), fn_back = nm_back s\<rparr>)
       (number_graph g (length nodes))"

definition owner_error :: "ir_function \<Rightarrow> 'a result" where
  "owner_error f = mk_error InvalidArgument (if_name f @ '': analysis owner mismatch'')"

text \<open>\<open>FunctionGraphAnalysis::run\<close>; the manager belongs to the function \<open>owner\<close>, and the control flow analysis it
  returns is that of the function.\<close>

definition function_graph_analysis ::
  "(ir_function \<Rightarrow> unit result) \<Rightarrow> nat \<Rightarrow> ir_function \<Rightarrow> function_graph result option" where
  "function_graph_analysis verify owner f =
    (if owner \<noteq> if_id f then Some (owner_error f)
     else case control_flow_analysis verify f of
       None \<Rightarrow> None
     | Some (Inl e) \<Rightarrow> Some (Inl e)
     | Some (Inr source) \<Rightarrow> (case address_marks f of
           Inl e \<Rightarrow> Some (Inl e)
         | Inr marks \<Rightarrow> map_option Inr (enumerate_graph (graph_nodes f marks) (graph_layout f (fg_edges (cg_graph source))))))"

section \<open>The layout is a well-formed graph\<close>

lemma length_graph_nodes [simp]: "length (graph_nodes f marks) = body_offset f + length (if_blocks f)"
  by (simp add: graph_nodes_def body_offset_def)

lemma graph_ok_entry_exit: "graph_ok n g \<Longrightarrow> b < n \<Longrightarrow> 2 \<le> n \<Longrightarrow> graph_ok n (entry_exit_edge b g)"
  by (simp add: entry_exit_edge_def Let_def graph_ok_add edge_within_def plain_edge_def)

lemma graph_ok_fold_entry_exit: "graph_ok n g \<Longrightarrow> list_all (\<lambda>b. b < n) bs \<Longrightarrow> 2 \<le> n \<Longrightarrow> graph_ok n (fold entry_exit_edge bs g)"
  by (induction bs arbitrary: g) (simp_all add: graph_ok_entry_exit)

lemma graph_ok_layout:
  assumes "list_all (edge_within (length (if_blocks f))) es" "if_blocks f \<noteq> []"
  shows "graph_ok (body_offset f + length (if_blocks f)) (graph_layout f es)"
  using assms unfolding graph_layout_def Let_def
  by (intro graph_ok_fold_entry_exit graph_ok_adds graph_ok_empty)
    (auto simp: list_all_iff edge_within_def shift_edge_def plain_edge_def body_offset_def)

section \<open>What the numbering says\<close>

definition numbering_follows :: "flow_graph \<Rightarrow> nat \<Rightarrow> numbering \<Rightarrow> search \<Rightarrow> bool" where
  "numbering_follows g n s a \<longleftrightarrow> nm_stack s = sr_stack a \<and> length (nm_preorder s) = n \<and> length (nm_rpost s) = n \<and>
     length (nm_back s) = length (fg_edges g) \<and> nm_pre s = Suc (length (sr_found a)) \<and> nm_post s = n - length (sr_done a) \<and>
     (\<forall>b<n. nm_preorder s ! b = (if b \<in> set (sr_found a) then length (sr_found a) - position (sr_found a) b else 0)) \<and>
     (\<forall>b<n. nm_rpost s ! b = (if b \<in> set (sr_done a) then Suc (n - length (sr_done a) + position (sr_done a) b) else 0)) \<and>
     (\<forall>eid<length (fg_edges g). nm_back s ! eid \<longleftrightarrow> (\<exists>(b, k)\<in>sr_back a. fg_outgoing g ! b ! k = eid))"

lemma position_Cons: "position (x # xs) y = (if y = x then 0 else Suc (position xs y))"
  by (simp add: position_def)

lemma done_bound: "search_ok succ n roots s \<Longrightarrow> length (sr_done s) \<le> n"
  using distinct_card [OF search_okD(5), of succ n roots s] card_mono [of "{..<n}" "set (sr_done s)"]
    search_okD(2,7) [of succ n roots s] by fastforce

lemma numbering_step_follows:
  assumes g: "graph_ok n g" and R: "numbering_follows g n s a" and ok: "search_ok (targets_of g) n roots a"
  shows "(nm_stack s \<noteq> [] \<longleftrightarrow> sr_stack a \<noteq> []) \<and>
    (nm_stack s \<noteq> [] \<longrightarrow> numbering_follows g n (numbering_step g s) (search_step (targets_of g) a))"
proof (cases "nm_stack s")
  case Nil
  then show ?thesis using R by (simp add: numbering_follows_def)
next
  case (Cons p rest)
  obtain b k where p: "p = (b, k)" by fastforce
  note D = search_okD [OF ok]
  have st: "sr_stack a = (b, k) # rest" using R Cons p by (simp add: numbering_follows_def)
  have b: "b < n" "b \<notin> set (sr_done a)" using D(2,6,7) st by (auto simp: grey_def)
  have len: "length (targets_of g b) = length (fg_outgoing g ! b)" by (simp add: targets_of_def)
  have k: "k \<le> length (fg_outgoing g ! b)" using D(8) [of b k] st len by simp
  show ?thesis
  proof (cases "k = length (fg_outgoing g ! b)")
    case True
    have "set (b # sr_done a) \<subseteq> {..<n}" using D(2,7) b(1) by auto
    then have "length (b # sr_done a) \<le> n"
      using distinct_card [of "b # sr_done a"] card_mono [of "{..<n}" "set (b # sr_done a)"] D(5) b(2) by simp
    then have "Suc (length (sr_done a)) \<le> n" by simp
    then show ?thesis using R b True unfolding numbering_follows_def
      by (auto simp: numbering_step_def search_step_def st Cons p len nth_list_update position_Cons)
  next
    case False
    let ?eid = "fg_outgoing g ! b ! k"
    let ?t = "ed_destination (fg_edges g ! ?eid)"
    have kl: "k < length (fg_outgoing g ! b)" using k False by simp
    then have "?eid \<in> set (fg_outgoing g ! b)" by simp
    then have e: "?eid < length (fg_edges g)" using graph_okD(1) [OF g] b(1) by blast
    have t: "?t < n" using graph_okD(4) [OF g e] by simp
    have tt: "targets_of g b ! k = ?t" using kl by (simp add: targets_of_def)
    have pre: "nm_preorder s ! ?t = 0 \<longleftrightarrow> ?t \<notin> set (sr_found a)"
      using R t position_less [of ?t "sr_found a"] by (auto simp: numbering_follows_def)
    have post: "nm_rpost s ! ?t = 0 \<longleftrightarrow> ?t \<notin> set (sr_done a)" using R t by (auto simp: numbering_follows_def)
    have step: "numbering_step g s = (let s = s\<lparr>nm_stack := (b, k + 1) # rest\<rparr> in
        if ?t \<notin> set (sr_found a) then s\<lparr>nm_stack := (?t, 0) # nm_stack s, nm_preorder := (nm_preorder s)[?t := nm_pre s], nm_pre := nm_pre s + 1\<rparr>
        else if ?t \<notin> set (sr_done a) then s\<lparr>nm_back := (nm_back s)[?eid := True]\<rparr> else s)"
      using False pre post by (simp add: numbering_step_def Cons p Let_def)
    have astep: "search_step (targets_of g) a = (let s = a\<lparr>sr_stack := (b, k + 1) # rest\<rparr> in
        if ?t \<notin> set (sr_found a) then search_push ?t s else if ?t \<notin> set (sr_done a) then s\<lparr>sr_back := insert (b, k) (sr_back a)\<rparr> else s)"
      using False by (simp add: search_step_def st len tt Let_def)
    consider "?t \<notin> set (sr_found a)" | "?t \<in> set (sr_found a)" "?t \<notin> set (sr_done a)" | "?t \<in> set (sr_found a)" "?t \<in> set (sr_done a)"
      by blast
    then have "numbering_follows g n (numbering_step g s) (search_step (targets_of g) a)"
    proof cases
      case 1
      then have "?t \<notin> set (sr_done a)" using D(7) by auto
      with 1 R t show ?thesis unfolding step astep numbering_follows_def
        by (auto simp: search_push_def nth_list_update position_Cons)
    next
      case 2
      then show ?thesis using R e unfolding step astep numbering_follows_def by (auto simp: nth_list_update)
    next
      case 3
      then show ?thesis using R unfolding step astep numbering_follows_def by auto
    qed
    then show ?thesis using st Cons by simp
  qed
qed

text \<open>What the analyses rely on: a node has a number iff it is reached from node 0, no two reached nodes share one, and
  every reached node but node 0 has an edge from a reached node of a smaller number.\<close>

definition numbering_ok :: "nat \<Rightarrow> flow_graph \<Rightarrow> nat list \<Rightarrow> bool" where
  "numbering_ok n g rpost \<longleftrightarrow> 0 < n \<and> graph_ok n g \<and> length rpost = n \<and> list_all (\<lambda>r. r \<le> n) rpost \<and>
     {b. b < n \<and> rpost ! b \<noteq> 0} = (succ_edges (targets_of g))\<^sup>* `` {0} \<and>
     inj_on ((!) rpost) {b. b < n \<and> rpost ! b \<noteq> 0} \<and>
     (\<forall>b<n. rpost ! b \<noteq> 0 \<longrightarrow> b \<noteq> 0 \<longrightarrow>
       (\<exists>e\<in>set (fg_edges g). ed_destination e = b \<and> rpost ! ed_source e \<noteq> 0 \<and> rpost ! ed_source e < rpost ! b))"

lemma number_graph_follows:
  assumes g: "graph_ok n g" and n: "0 < n"
  shows "\<exists>s a. number_graph g n = Some s \<and> numbering_follows g n s a \<and> search_ok (targets_of g) n {0} a \<and> sr_stack a = []"
  unfolding number_graph_def
proof (rule search_simulation [OF graph_closed [OF g]])
  show "numbering_follows g n (numbering_start g n) (search_push 0 search_empty)"
    using n by (auto simp: numbering_follows_def numbering_start_def search_push_def search_empty_def nth_list_update position_def)
  show "search_ok (targets_of g) n {0} (search_push 0 search_empty)"
    using search_start_ok [OF search_empty_ok, of 0 n "targets_of g"] n by (simp add: search_empty_def)
qed (rule numbering_step_follows [OF g])

lemma numbering_follows_ok:
  assumes g: "graph_ok n g" and n: "0 < n" and R: "numbering_follows g n s a"
    and ok: "search_ok (targets_of g) n {0} a" "sr_stack a = []"
  shows "numbering_ok n g (nm_rpost s)"
proof -
  note D = search_okD [OF ok(1)]
  have r: "nm_rpost s ! b = (if b \<in> set (sr_done a) then Suc (n - length (sr_done a) + position (sr_done a) b) else 0)" if "b < n" for b
    using R that by (simp add: numbering_follows_def)
  have dn: "set (sr_done a) \<subseteq> {..<n}" using D(2,7) by auto
  moreover have "nm_rpost s ! b \<noteq> 0 \<longleftrightarrow> b \<in> set (sr_done a)" if "b < n" for b using r [OF that] by simp
  ultimately have s: "{b. b < n \<and> nm_rpost s ! b \<noteq> 0} = set (sr_done a)" by blast
  have db: "length (sr_done a) \<le> n" by (rule done_bound [OF ok(1)])
  have "list_all (\<lambda>r. r \<le> n) (nm_rpost s)"
  proof -
    have "nm_rpost s ! b \<le> n" if "b < n" for b using r [OF that] position_less [of b "sr_done a"] db by auto
    then show ?thesis using R by (auto simp: list_all_length numbering_follows_def)
  qed
  moreover have "inj_on ((!) (nm_rpost s)) (set (sr_done a))"
    using dn r position_inj by (intro inj_onI) (metis add_left_cancel lessThan_iff nat.inject subset_iff)
  moreover have "\<exists>e\<in>set (fg_edges g). ed_destination e = b \<and> nm_rpost s ! ed_source e \<noteq> 0 \<and> nm_rpost s ! ed_source e < nm_rpost s ! b"
    if b: "b < n" "nm_rpost s ! b \<noteq> 0" "b \<noteq> 0" for b
  proof -
    have "b \<in> set (sr_done a)" using b s by blast
    then obtain p where p: "p \<in> set (sr_done a)" "b \<in> set (targets_of g p)" "position (sr_done a) p < position (sr_done a) b"
      using finished_parent [OF ok, of b] b(3) by auto
    then have "p < n" using dn by auto
    then obtain e where "e \<in> set (fg_edges g)" "ed_source e = p" "ed_destination e = b" using targets_edges [OF g] p(2) by blast
    then show ?thesis using p \<open>p < n\<close> \<open>b \<in> set (sr_done a)\<close> r b(1) by (intro bexI [of _ e]) auto
  qed
  ultimately show ?thesis
    using g n R finished_reachable [OF ok] s by (simp add: numbering_ok_def numbering_follows_def)
qed

lemma numbering_follows_back:
  assumes g: "graph_ok n g" and R: "numbering_follows g n s a"
    and ok: "search_ok (targets_of g) n {0} a" "sr_stack a = []" and e: "eid < length (fg_edges g)"
  shows "nm_back s ! eid \<longleftrightarrow> nm_rpost s ! ed_source (fg_edges g ! eid) \<noteq> 0 \<and>
    nm_rpost s ! ed_destination (fg_edges g ! eid) \<le> nm_rpost s ! ed_source (fg_edges g ! eid)"
proof -
  note D = search_okD [OF ok(1)]
  let ?s = "ed_source (fg_edges g ! eid)" and ?t = "ed_destination (fg_edges g ! eid)"
  have r: "nm_rpost s ! b = (if b \<in> set (sr_done a) then Suc (n - length (sr_done a) + position (sr_done a) b) else 0)" if "b < n" for b
    using R that by (simp add: numbering_follows_def)
  have o: "eid \<in> set (fg_outgoing g ! ?s)" "?s < n" "?t < n" using graph_okD(3,4) [OF g e] by auto
  obtain i where i: "i < length (fg_outgoing g ! ?s)" "fg_outgoing g ! ?s ! i = eid" using o(1) by (meson in_set_conv_nth)
  have u: "b = ?s \<and> k = i" if bk: "(b, k) \<in> sr_back a" "fg_outgoing g ! b ! k = eid" for b k
  proof -
    have t: "b \<in> set (sr_done a)" "k < length (fg_outgoing g ! b)"
      using D(9) [OF bk(1)] ok(2) by (auto simp: traversed_def targets_of_def)
    then have bn: "b < n" using D(2,7) by auto
    have "eid \<in> set (fg_outgoing g ! b)" using t(2) bk(2) by (metis nth_mem)
    then have bs: "b = ?s" using graph_okD(1) [OF g _ bn] by auto
    have "distinct (fg_outgoing g ! b)" using g bn by (simp add: graph_ok_def)
    moreover have "fg_outgoing g ! ?s ! k = fg_outgoing g ! ?s ! i" using bk(2) i(2) bs by simp
    ultimately have "k = i" using nth_eq_iff_index_eq i(1) t(2) bs by metis
    then show ?thesis using bs by simp
  qed
  have "nm_back s ! eid \<longleftrightarrow> (\<exists>(b, k)\<in>sr_back a. fg_outgoing g ! b ! k = eid)" using R e by (simp add: numbering_follows_def)
  also have "\<dots> \<longleftrightarrow> (?s, i) \<in> sr_back a" using u i(2) by fast
  also have "\<dots> \<longleftrightarrow> ?s \<in> set (sr_done a) \<and> position (sr_done a) ?t \<le> position (sr_done a) ?s"
  proof (cases "?s \<in> set (sr_done a)")
    case True
    have "i < length (targets_of g ?s)" "targets_of g ?s ! i = ?t" using i by (simp_all add: targets_of_def)
    then show ?thesis using finished_edges(2) [OF ok True, of i] True by simp
  next
    case False
    then show ?thesis using D(9) [of ?s i] ok(2) by (auto simp: traversed_def)
  qed
  also have "\<dots> \<longleftrightarrow> nm_rpost s ! ?s \<noteq> 0 \<and> nm_rpost s ! ?t \<le> nm_rpost s ! ?s"
  proof (cases "?s \<in> set (sr_done a)")
    case True
    have "?t \<in> set (targets_of g ?s)" unfolding targets_of_def using nth_mem [OF i(1)] i(2) by force
    then have "?t \<in> set (sr_done a)" using finished_edges(1) [OF ok True] by (metis in_set_conv_nth)
    then show ?thesis using r [OF o(2)] r [OF o(3)] True by simp
  next
    case False
    then show ?thesis using r [OF o(2)] by simp
  qed
  finally show ?thesis .
qed

text \<open>The analysis returns an error or a numbered graph.\<close>

definition function_graph_ok :: "function_graph \<Rightarrow> bool" where
  "function_graph_ok fg \<longleftrightarrow> (let n = length (fn_nodes fg); g = fn_flow fg; rpost = fn_rpost fg in
     numbering_ok n g rpost \<and> fn_order fg = rpost_order rpost n \<and>
     length (fn_preorder fg) = n \<and> {b. b < n \<and> fn_preorder fg ! b \<noteq> 0} = {b. b < n \<and> rpost ! b \<noteq> 0} \<and>
     length (fn_back fg) = length (fg_edges g) \<and>
     {eid. eid < length (fg_edges g) \<and> fn_back fg ! eid} =
       {eid. eid < length (fg_edges g) \<and> rpost ! ed_source (fg_edges g ! eid) \<noteq> 0 \<and>
             rpost ! ed_destination (fg_edges g ! eid) \<le> rpost ! ed_source (fg_edges g ! eid)})"

lemma rpost_order: "sorted (map ((!) rpost) (rpost_order rpost n)) \<and> distinct (rpost_order rpost n) \<and> set (rpost_order rpost n) = {..<n}"
  by (auto simp: rpost_order_def)

lemma function_graph_numbering: "function_graph_ok fg \<Longrightarrow> numbering_ok (length (fn_nodes fg)) (fn_flow fg) (fn_rpost fg)"
  by (simp add: function_graph_ok_def Let_def)

lemma function_graph_okD:
  assumes "function_graph_ok fg"
  shows "graph_ok (length (fn_nodes fg)) (fn_flow fg)"
    "{b. b < length (fn_nodes fg) \<and> fn_rpost fg ! b \<noteq> 0} = (succ_edges (targets_of (fn_flow fg)))\<^sup>* `` {0}"
    "inj_on ((!) (fn_rpost fg)) {b. b < length (fn_nodes fg) \<and> fn_rpost fg ! b \<noteq> 0}"
    "{eid. eid < length (fg_edges (fn_flow fg)) \<and> fn_back fg ! eid} =
       {eid. eid < length (fg_edges (fn_flow fg)) \<and> fn_rpost fg ! ed_source (fg_edges (fn_flow fg) ! eid) \<noteq> 0 \<and>
         fn_rpost fg ! ed_destination (fg_edges (fn_flow fg) ! eid) \<le> fn_rpost fg ! ed_source (fg_edges (fn_flow fg) ! eid)}"
    "fn_order fg = rpost_order (fn_rpost fg) (length (fn_nodes fg))"
    "0 < length (fn_nodes fg)"
  using assms [unfolded function_graph_ok_def Let_def] function_graph_numbering [OF assms, unfolded numbering_ok_def]
  by - ((elim conjE, assumption)+)

lemma function_graph_preorder:
  assumes "function_graph_ok fg"
  shows "{b. b < length (fn_nodes fg) \<and> fn_preorder fg ! b \<noteq> 0} = (succ_edges (targets_of (fn_flow fg)))\<^sup>* `` {0}"
  using assms [unfolded function_graph_ok_def Let_def] function_graph_okD(2) [OF assms] by (elim conjE) (simp only:)

lemma enumerate_graph_ok:
  assumes "graph_ok (length nodes) g" "nodes \<noteq> []"
  shows "\<exists>fg. enumerate_graph nodes g = Some fg \<and> function_graph_ok fg \<and> fn_nodes fg = nodes \<and> fn_flow fg = g"
proof -
  let ?n = "length nodes"
  obtain s a where s: "number_graph g ?n = Some s" "numbering_follows g ?n s a" "search_ok (targets_of g) ?n {0} a" "sr_stack a = []"
    using number_graph_follows [OF assms(1)] assms(2) by auto
  note D = search_okD [OF s(3)]
  have "{b. b < ?n \<and> nm_rpost s ! b \<noteq> 0} = set (sr_done a)"
    using s(2) D(2,7) by (auto simp: numbering_follows_def split: if_splits)
  moreover have "{b. b < ?n \<and> nm_preorder s ! b \<noteq> 0} = set (sr_found a)"
    using s(2) D(2) position_less [of _ "sr_found a"] by (auto simp: numbering_follows_def split: if_splits)
  moreover have "set (sr_found a) = set (sr_done a)" using D(7) s(4) by (simp add: grey_def)
  moreover have "numbering_ok ?n g (nm_rpost s)" using numbering_follows_ok [OF assms(1) _ s(2-4)] assms(2) by simp
  ultimately show ?thesis
    using s(1,2) numbering_follows_back [OF assms(1) s(2-4)] assms(2)
    by (auto simp: enumerate_graph_def function_graph_ok_def Let_def numbering_follows_def)
qed

lemma function_graph_analysis_cases:
  assumes "if_blocks f \<noteq> []"
  shows "(\<exists>e. function_graph_analysis verify owner f = Some (Inl e)) \<or>
    (\<exists>fg marks. function_graph_analysis verify owner f = Some (Inr fg) \<and> function_graph_ok fg \<and> fn_nodes fg = graph_nodes f marks)"
proof (cases "owner = if_id f")
  case True
  from control_flow_analysis_parts [OF assms, of verify] show ?thesis
  proof (elim disjE exE conjE)
    fix cg marks es
    assume h: "control_flow_analysis verify f = Some (Inr cg)" "address_marks f = Inr marks"
      "control_flow_edges f (indirect_targets (mark_blocks marks (length (if_blocks f)))) = Inr es"
      "cg_graph cg = add_edges es (empty_graph (length (if_blocks f)))"
    have ml: "list_all (\<lambda>b. b < length (if_blocks f)) marks" by (rule address_marks_less [OF h(2)])
    then have "list_all (\<lambda>b. b < length (if_blocks f)) (indirect_targets (mark_blocks marks (length (if_blocks f))))"
      using indirect_targets_marks [OF ml] by (simp add: list_all_iff)
    then have "graph_ok (length (graph_nodes f marks)) (graph_layout f es)"
      using graph_ok_layout [OF control_flow_edges_within [OF h(3)] assms] by simp
    then obtain fg where "enumerate_graph (graph_nodes f marks) (graph_layout f es) = Some fg" "function_graph_ok fg" "fn_nodes fg = graph_nodes f marks"
      using enumerate_graph_ok [of "graph_nodes f marks"] by (auto simp: graph_nodes_def)
    moreover have "fg_edges (cg_graph cg) = es" by (simp add: h(4) edges_of_adds empty_graph_def)
    ultimately show ?thesis using h(1,2) True by (auto simp: function_graph_analysis_def)
  qed (use True in \<open>simp add: function_graph_analysis_def\<close>)
qed (simp add: function_graph_analysis_def owner_error_def mk_error_def)

text \<open>C19: the analysis of a function with a body returns; in the graph it returns the numbered nodes are exactly
  those reached from the entry, no two share a number, an edge is marked back exactly when it leads from a reached
  node to one that does not come later in reverse postorder, and the order lists every node once by its number.\<close>

theorem function_graph_numbered:
  assumes "if_blocks f \<noteq> []"
  shows "case function_graph_analysis verify owner f of
      None \<Rightarrow> False
    | Some (Inl e) \<Rightarrow> True
    | Some (Inr fg) \<Rightarrow> (let n = length (fn_nodes fg); g = fn_flow fg; rpost = fn_rpost fg in
        graph_ok n g \<and>
        {b. b < n \<and> rpost ! b \<noteq> 0} = (succ_edges (targets_of g))\<^sup>* `` {0} \<and>
        {b. b < n \<and> fn_preorder fg ! b \<noteq> 0} = (succ_edges (targets_of g))\<^sup>* `` {0} \<and>
        inj_on ((!) rpost) {b. b < n \<and> rpost ! b \<noteq> 0} \<and>
        {eid. eid < length (fg_edges g) \<and> fn_back fg ! eid} =
          {eid. eid < length (fg_edges g) \<and> rpost ! ed_source (fg_edges g ! eid) \<noteq> 0 \<and>
                rpost ! ed_destination (fg_edges g ! eid) \<le> rpost ! ed_source (fg_edges g ! eid)} \<and>
        sorted (map ((!) rpost) (fn_order fg)) \<and> distinct (fn_order fg) \<and> set (fn_order fg) = {..<n})"
proof -
  from function_graph_analysis_cases [OF assms, of verify owner] show ?thesis
  proof (elim disjE exE conjE)
    fix fg marks
    assume h: "function_graph_analysis verify owner f = Some (Inr fg)" "function_graph_ok fg"
    note D = function_graph_okD [OF h(2)]
    have "sorted (map ((!) (fn_rpost fg)) (fn_order fg))" "distinct (fn_order fg)" "set (fn_order fg) = {..<length (fn_nodes fg)}"
      using rpost_order unfolding D(5) by auto
    with D(1-4) function_graph_preorder [OF h(2)] show ?thesis unfolding h(1) option.case sum.case Let_def by blast
  qed simp
qed

theorem function_graph_numbered_witness:
  "case function_graph_analysis (\<lambda>_. Inr ()) 0 loop_function of
      None \<Rightarrow> False
    | Some (Inl e) \<Rightarrow> True
    | Some (Inr fg) \<Rightarrow> (let n = length (fn_nodes fg); g = fn_flow fg; rpost = fn_rpost fg in
        graph_ok n g \<and>
        {b. b < n \<and> rpost ! b \<noteq> 0} = (succ_edges (targets_of g))\<^sup>* `` {0} \<and>
        {b. b < n \<and> fn_preorder fg ! b \<noteq> 0} = (succ_edges (targets_of g))\<^sup>* `` {0} \<and>
        inj_on ((!) rpost) {b. b < n \<and> rpost ! b \<noteq> 0} \<and>
        {eid. eid < length (fg_edges g) \<and> fn_back fg ! eid} =
          {eid. eid < length (fg_edges g) \<and> rpost ! ed_source (fg_edges g ! eid) \<noteq> 0 \<and>
                rpost ! ed_destination (fg_edges g ! eid) \<le> rpost ! ed_source (fg_edges g ! eid)} \<and>
        sorted (map ((!) rpost) (fn_order fg)) \<and> distinct (fn_order fg) \<and> set (fn_order fg) = {..<n})"
  by (rule function_graph_numbered [OF loop_function_blocks(1)])

end
