(* ===== verification/Dataflow.thy ===== *)
theory Dataflow
  imports Prelude "HOL-Library.While_Combinator"
begin

text \<open>
  Backward gen/kill problems over a graph, as sets: what is live at a node, the step of a worklist solver, its
  invariant and its end.  The liveness analyses of the IR (\<open>lib/Analysis/FunctionGraph.cpp\<close>) and of machine code
  (\<open>lib/CodeGen/Liveness.cpp\<close>) keep their work in different structures; each is shown to follow this step.
\<close>

section \<open>Live facts\<close>

record flow_problem =
  fp_nodes :: nat
  fp_succ :: "nat \<Rightarrow> nat set"
  fp_gen :: "nat \<Rightarrow> nat set"
  fp_kill :: "nat \<Rightarrow> nat set"
  fp_seed :: "nat \<Rightarrow> nat set"

text \<open>A fact is live at the start of a node that generates it, and of one that does not kill it and at whose end it is
  live: it is seeded there or live at the start of a successor.\<close>

inductive live_at :: "flow_problem \<Rightarrow> nat \<Rightarrow> nat \<Rightarrow> bool" for p where
  gen: "r \<in> fp_gen p b \<Longrightarrow> live_at p b r"
| seed: "r \<in> fp_seed p b \<Longrightarrow> r \<notin> fp_kill p b \<Longrightarrow> live_at p b r"
| flow: "t \<in> fp_succ p b \<Longrightarrow> live_at p t r \<Longrightarrow> r \<notin> fp_kill p b \<Longrightarrow> live_at p b r"

definition live_end :: "flow_problem \<Rightarrow> nat \<Rightarrow> nat \<Rightarrow> bool" where
  "live_end p b r \<longleftrightarrow> r \<in> fp_seed p b \<or> (\<exists>t\<in>fp_succ p b. live_at p t r)"

lemma live_at_end: "live_at p b r \<longleftrightarrow> r \<in> fp_gen p b \<or> (live_end p b r \<and> r \<notin> fp_kill p b)"
  by (subst live_at.simps) (auto simp: live_end_def)

definition problem_ok :: "flow_problem \<Rightarrow> bool" where
  "problem_ok p \<longleftrightarrow> (\<forall>b<fp_nodes p. fp_succ p b \<subseteq> {..<fp_nodes p} \<and> finite (fp_gen p b) \<and> finite (fp_seed p b))"

definition flow_facts :: "flow_problem \<Rightarrow> nat set" where
  "flow_facts p = (\<Union>b<fp_nodes p. fp_gen p b \<union> fp_seed p b)"

lemma live_at_facts: "live_at p b r \<Longrightarrow> problem_ok p \<Longrightarrow> b < fp_nodes p \<Longrightarrow> r \<in> flow_facts p"
proof (induction rule: live_at.induct)
  case (flow t b r)
  then have "t < fp_nodes p" by (auto simp: problem_ok_def)
  with flow show ?case by blast
qed (auto simp: flow_facts_def)

lemma finite_flow_facts: "problem_ok p \<Longrightarrow> finite (flow_facts p)"
  by (auto simp: flow_facts_def problem_ok_def)

section \<open>The solver\<close>

record flow_state =
  fs_in :: "nat \<Rightarrow> nat set"
  fs_out :: "nat \<Rightarrow> nat set"
  fs_work :: "nat set"

definition flow_out :: "flow_problem \<Rightarrow> flow_state \<Rightarrow> nat \<Rightarrow> nat set" where
  "flow_out p s b = fs_out s b \<union> (\<Union>t\<in>fp_succ p b. fs_in s t)"

definition flow_transfer :: "flow_problem \<Rightarrow> nat \<Rightarrow> nat set \<Rightarrow> nat set" where
  "flow_transfer p b x = (x - fp_kill p b) \<union> fp_gen p b"

definition flow_preds :: "flow_problem \<Rightarrow> nat \<Rightarrow> nat set" where
  "flow_preds p b = {a. a < fp_nodes p \<and> b \<in> fp_succ p a}"

definition flow_step :: "flow_problem \<Rightarrow> nat \<Rightarrow> flow_state \<Rightarrow> flow_state" where
  "flow_step p b s = (let out = flow_out p s b; new = flow_transfer p b out;
      s = s\<lparr>fs_out := (fs_out s)(b := out), fs_work := fs_work s - {b}\<rparr>
    in if new = fs_in s b then s else s\<lparr>fs_in := (fs_in s)(b := new), fs_work := fs_work s \<union> flow_preds p b\<rparr>)"

text \<open>The facts are live, the end of a node has what its successors had when it was last visited, and a node without
  work is settled.\<close>

definition settled :: "flow_problem \<Rightarrow> flow_state \<Rightarrow> nat \<Rightarrow> bool" where
  "settled p s b \<longleftrightarrow> fs_out s b = flow_out p s b \<and> fs_in s b = flow_transfer p b (fs_out s b)"

definition flow_ok :: "flow_problem \<Rightarrow> flow_state \<Rightarrow> bool" where
  "flow_ok p s \<longleftrightarrow> fs_work s \<subseteq> {..<fp_nodes p} \<and>
     (\<forall>b<fp_nodes p. fs_in s b \<subseteq> Collect (live_at p b) \<and> fs_in s b \<subseteq> flow_transfer p b (fs_out s b) \<and>
        fp_seed p b \<subseteq> fs_out s b \<and> fs_out s b \<subseteq> fp_seed p b \<union> (\<Union>t\<in>fp_succ p b. fs_in s t) \<and>
        (b \<notin> fs_work s \<longrightarrow> settled p s b))"

lemma flow_step_grows:
  assumes ok: "flow_ok p s" and b: "b < fp_nodes p"
  shows "fs_in s a \<subseteq> fs_in (flow_step p b s) a"
proof -
  have "fs_in s b \<subseteq> flow_transfer p b (fs_out s b)" using ok b by (simp add: flow_ok_def)
  also have "\<dots> \<subseteq> flow_transfer p b (flow_out p s b)" by (auto simp: flow_transfer_def flow_out_def)
  finally show ?thesis by (simp add: flow_step_def Let_def)
qed

lemma flow_transfer_live:
  assumes ok: "flow_ok p s" and p: "problem_ok p" and b: "b < fp_nodes p"
  shows "flow_transfer p b (flow_out p s b) \<subseteq> Collect (live_at p b)"
proof
  have out: "fs_out s b \<subseteq> fp_seed p b \<union> (\<Union>t\<in>fp_succ p b. fs_in s t)" using ok b by (simp add: flow_ok_def)
  fix r
  assume "r \<in> flow_transfer p b (flow_out p s b)"
  then consider "r \<in> fp_gen p b" | t where "r \<notin> fp_kill p b" "t \<in> fp_succ p b" "r \<in> fs_in s t"
    | "r \<notin> fp_kill p b" "r \<in> fp_seed p b"
    using out unfolding flow_transfer_def flow_out_def by blast
  then show "r \<in> Collect (live_at p b)"
  proof cases
    case 2
    then have "t < fp_nodes p" using p b by (auto simp: problem_ok_def)
    then have "live_at p t r" using ok 2(3) by (auto simp: flow_ok_def)
    then show ?thesis using 2 by (auto intro: live_at.flow)
  qed (auto intro: live_at.intros)
qed

lemma flow_step_ok:
  assumes ok: "flow_ok p s" and p: "problem_ok p" and b: "b \<in> fs_work s"
  shows "flow_ok p (flow_step p b s)"
proof -
  let ?s = "flow_step p b s"
  have bn: "b < fp_nodes p" using ok b by (auto simp: flow_ok_def)
  have grows: "fs_in s a \<subseteq> fs_in ?s a" for a by (rule flow_step_grows [OF ok bn])
  have out: "fs_out ?s = (fs_out s)(b := flow_out p s b)" by (simp add: flow_step_def Let_def)
  have inn: "fs_in ?s = (fs_in s)(b := flow_transfer p b (flow_out p s b))" by (auto simp: flow_step_def Let_def)
  have work: "fs_work ?s = fs_work s - {b} \<union> (if flow_transfer p b (flow_out p s b) = fs_in s b then {} else flow_preds p b)"
    by (simp add: flow_step_def Let_def)
  have "settled p ?s a" if a: "a < fp_nodes p" "a \<notin> fs_work ?s" for a
  proof (cases "flow_transfer p b (flow_out p s b) = fs_in s b")
    case eq: True
    then have same: "fs_in ?s = fs_in s" using inn by auto
    show ?thesis
    proof (cases "a = b")
      case True
      then show ?thesis using same out eq by (simp add: settled_def flow_out_def)
    next
      case False
      then have "settled p s a" using ok a work eq by (auto simp: flow_ok_def)
      then show ?thesis using same out False by (auto simp: settled_def flow_out_def)
    qed
  next
    case False
    then have nb: "b \<notin> fp_succ p a" using a work by (auto simp: flow_preds_def)
    then have succ: "(\<Union>t\<in>fp_succ p a. fs_in ?s t) = (\<Union>t\<in>fp_succ p a. fs_in s t)" using inn by auto
    show ?thesis
    proof (cases "a = b")
      case True
      then show ?thesis using out inn succ by (auto simp: settled_def flow_out_def)
    next
      case ab: False
      then have "settled p s a" using ok a work False by (auto simp: flow_ok_def)
      then show ?thesis using succ out inn ab by (auto simp: settled_def flow_out_def)
    qed
  qed
  moreover have "fs_in ?s a \<subseteq> Collect (live_at p a)" if "a < fp_nodes p" for a
    using ok that inn flow_transfer_live [OF ok p bn] by (auto simp: flow_ok_def)
  moreover have "fs_in ?s a \<subseteq> flow_transfer p a (fs_out ?s a)" if "a < fp_nodes p" for a
    using ok that inn out by (auto simp: flow_ok_def)
  moreover have "fp_seed p a \<subseteq> fs_out ?s a" if "a < fp_nodes p" for a
    using ok that out by (auto simp: flow_ok_def flow_out_def)
  moreover have "fs_out ?s a \<subseteq> fp_seed p a \<union> (\<Union>t\<in>fp_succ p a. fs_in ?s t)" if "a < fp_nodes p" for a
  proof -
    have "fs_out ?s a \<subseteq> fp_seed p a \<union> (\<Union>t\<in>fp_succ p a. fs_in s t)"
      using ok that out by (auto simp: flow_ok_def flow_out_def)
    then show ?thesis using grows by blast
  qed
  moreover have "fs_work ?s \<subseteq> {..<fp_nodes p}" using ok work by (auto simp: flow_ok_def flow_preds_def)
  ultimately show ?thesis by (simp add: flow_ok_def)
qed

definition flow_less :: "flow_problem \<Rightarrow> (flow_state \<times> flow_state) set" where
  "flow_less p = measures [\<lambda>s. \<Sum>b<fp_nodes p. card (flow_facts p - fs_in s b), \<lambda>s. card (fs_work s)]"

lemma wf_flow_less: "wf (flow_less p)"
  by (simp add: flow_less_def)

lemma flow_step_less:
  assumes ok: "flow_ok p s" and p: "problem_ok p" and b: "b \<in> fs_work s"
  shows "(flow_step p b s, s) \<in> flow_less p"
proof (cases "flow_transfer p b (flow_out p s b) = fs_in s b")
  case True
  have "fs_work s \<subseteq> {..<fp_nodes p}" using ok by (simp add: flow_ok_def)
  then have "finite (fs_work s)" by (rule finite_subset) simp
  then have "card (fs_work s - {b}) < card (fs_work s)" by (rule card_Diff1_less [OF _ b])
  moreover have "fs_in (flow_step p b s) = fs_in s" "fs_work (flow_step p b s) = fs_work s - {b}"
    using True by (simp_all add: flow_step_def Let_def)
  ultimately show ?thesis by (simp only: flow_less_def in_measures) simp
next
  case False
  let ?s = "flow_step p b s" and ?U = "flow_facts p"
  have bn: "b < fp_nodes p" using ok b by (auto simp: flow_ok_def)
  have inn: "fs_in ?s b = flow_transfer p b (flow_out p s b)" by (simp add: flow_step_def Let_def)
  have fin: "finite ?U" by (rule finite_flow_facts [OF p])
  have "fs_in s b \<subset> fs_in ?s b" using flow_step_grows [OF ok bn, of b] False inn by auto
  moreover have "fs_in ?s b \<subseteq> ?U" using flow_transfer_live [OF ok p bn] live_at_facts [OF _ p bn] inn by auto
  ultimately have less: "card (?U - fs_in ?s b) < card (?U - fs_in s b)" using fin by (intro psubset_card_mono) auto
  have "(\<Sum>a<fp_nodes p. card (?U - fs_in ?s a)) < (\<Sum>a<fp_nodes p. card (?U - fs_in s a))"
  proof (rule sum_strict_mono_ex1)
    show "\<forall>a\<in>{..<fp_nodes p}. card (?U - fs_in ?s a) \<le> card (?U - fs_in s a)"
      using flow_step_grows [OF ok bn] fin by (intro ballI card_mono) auto
    show "\<exists>a\<in>{..<fp_nodes p}. card (?U - fs_in ?s a) < card (?U - fs_in s a)" using less bn by auto
  qed simp
  then show ?thesis by (simp add: flow_less_def)
qed

text \<open>When no work is left, the solution is exactly what is live.\<close>

lemma flow_solved:
  assumes ok: "flow_ok p s" and p: "problem_ok p" and w: "fs_work s = {}" and b: "b < fp_nodes p"
  shows "fs_in s b = Collect (live_at p b)" "fs_out s b = Collect (live_end p b)"
proof -
  have settled: "settled p s a" if "a < fp_nodes p" for a using ok w that by (simp add: flow_ok_def)
  have seed: "fp_seed p a \<subseteq> fs_out s a" if "a < fp_nodes p" for a using ok that by (simp add: flow_ok_def)
  have complete: "live_at p a r \<Longrightarrow> a < fp_nodes p \<Longrightarrow> r \<in> fs_in s a" for a r
  proof (induction rule: live_at.induct)
    case (gen r b)
    then show ?case using settled [of b] by (auto simp: settled_def flow_transfer_def)
  next
    case (seed r b)
    then show ?case using settled [of b] \<open>\<And>a. a < fp_nodes p \<Longrightarrow> fp_seed p a \<subseteq> fs_out s a\<close>
      by (auto simp: settled_def flow_transfer_def)
  next
    case (flow t b r)
    then have "t < fp_nodes p" using p by (auto simp: problem_ok_def)
    then have "r \<in> fs_out s b" using flow settled [of b] by (auto simp: settled_def flow_out_def)
    then show ?case using flow settled [of b] by (auto simp: settled_def flow_transfer_def)
  qed
  have live: "fs_in s a = Collect (live_at p a)" if "a < fp_nodes p" for a
    using ok complete that by (auto simp: flow_ok_def)
  then show "fs_in s b = Collect (live_at p b)" using b by blast
  have succ: "t < fp_nodes p" if "t \<in> fp_succ p b" for t using p b that by (auto simp: problem_ok_def)
  have "fs_out s b = fp_seed p b \<union> (\<Union>t\<in>fp_succ p b. fs_in s t)"
    using ok b settled [OF b] by (auto simp: flow_ok_def settled_def flow_out_def)
  then show "fs_out s b = Collect (live_end p b)" using live succ by (auto simp: live_end_def)
qed

text \<open>A loop that keeps a relation to a solver, doing one step of it for a node with work each time, ends with the
  solution.\<close>

lemma flow_simulation:
  assumes p: "problem_ok p"
    and step: "\<And>s a. R s a \<Longrightarrow> flow_ok p a \<Longrightarrow> (P s \<longleftrightarrow> fs_work a \<noteq> {}) \<and> (P s \<longrightarrow> (\<exists>b\<in>fs_work a. R (c s) (flow_step p b a)))"
    and init: "R s0 a0" "flow_ok p a0"
  shows "\<exists>t a. while_option P c s0 = Some t \<and> R t a \<and> flow_ok p a \<and> fs_work a = {}"
  using wf_flow_less [of p] init
proof (induction a0 arbitrary: s0 rule: wf_induct_rule)
  case (less a)
  note S = step [OF less.prems]
  show ?case
  proof (cases "P s0")
    case True
    then obtain b where b: "b \<in> fs_work a" "R (c s0) (flow_step p b a)" using S by blast
    have "\<exists>t a. while_option P c (c s0) = Some t \<and> R t a \<and> flow_ok p a \<and> fs_work a = {}"
      by (rule less.IH [OF flow_step_less [OF less.prems(2) p b(1)] b(2) flow_step_ok [OF less.prems(2) p b(1)]])
    then show ?thesis using True by (subst while_option_unfold) simp
  next
    case False
    then show ?thesis using S less.prems by (subst while_option_unfold) auto
  qed
qed

end
