(* ===== verification/IRLiveness.thy ===== *)
theory IRLiveness
  imports FunctionGraph Dataflow SparseBitSet
begin

text \<open>
  Register liveness of a function (\<open>LivenessAnalysis::run\<close> in \<open>lib/Analysis/FunctionGraph.cpp\<close>): the registers a block
  reads before it writes them and those it writes, and the backward solver, whose worklist is a ring of one more
  element than there are nodes.  The sets are the sparse bit sets of the code.
\<close>

section \<open>Registers read and written\<close>

text \<open>The analysis reads the destination of \<open>LAddr\<close> as an input.\<close>

definition live_output :: "ir_instruction \<Rightarrow> nat \<Rightarrow> bool" where
  "live_output i p \<longleftrightarrow> ii_opcode i \<noteq> OMisc O_LAddr \<and> output_operand i p"

definition optional_list :: "'a option \<Rightarrow> 'a list" where
  "optional_list x = (case x of None \<Rightarrow> [] | Some y \<Rightarrow> [y])"

definition operand_inputs :: "ir_instruction \<Rightarrow> nat \<Rightarrow> nat list" where
  "operand_inputs i p = (case ii_operands i ! p of
     IrRegister r \<Rightarrow> if live_output i p then [] else [r]
   | IrMemory m \<Rightarrow> optional_list (im_base m) @ optional_list (im_index m)
   | _ \<Rightarrow> [])"

definition instruction_inputs :: "nat list \<Rightarrow> ir_instruction \<Rightarrow> nat list" where
  "instruction_inputs hardware i =
     (if ii_opcode i = OMisc O_Ret then hardware else []) @ concat (map (operand_inputs i) [0..<length (ii_operands i)])"

definition operand_outputs :: "ir_instruction \<Rightarrow> nat \<Rightarrow> nat list" where
  "operand_outputs i p = (case ii_operands i ! p of IrRegister r \<Rightarrow> if live_output i p then [r] else [] | _ \<Rightarrow> [])"

definition instruction_outputs :: "ir_instruction \<Rightarrow> nat list" where
  "instruction_outputs i = concat (map (operand_outputs i) [0..<length (ii_operands i)])"

text \<open>Registers bound to hardware are read by every return.\<close>

definition hardware_registers :: "ir_function \<Rightarrow> nat list" where
  "hardware_registers f =
     filter (\<lambda>r. ig_hardware (if_registers f ! r) \<noteq> [] \<and> \<not> ig_memory_backed (if_registers f ! r)) [0..<length (if_registers f)]"

section \<open>The facts of a block\<close>

definition use_input :: "bitset \<Rightarrow> nat \<Rightarrow> bitset \<Rightarrow> bitset" where
  "use_input killed r generated = (if bs_contains r killed then generated else bs_insert r generated)"

definition instruction_facts :: "nat list \<Rightarrow> ir_instruction \<Rightarrow> bitset \<times> bitset \<Rightarrow> bitset \<times> bitset" where
  "instruction_facts hardware i = (\<lambda>(generated, killed).
     (fold (use_input killed) (instruction_inputs hardware i) generated, fold bs_insert (instruction_outputs i) killed))"

definition block_facts :: "nat list \<Rightarrow> ir_instruction list \<Rightarrow> bitset \<times> bitset" where
  "block_facts hardware is = fold (instruction_facts hardware) is ([], [])"

definition node_instructions :: "ir_function \<Rightarrow> graph_node \<Rightarrow> ir_instruction list" where
  "node_instructions f node = (case gn_body node of None \<Rightarrow> [] | Some b \<Rightarrow> ib_instructions (if_blocks f ! b))"

section \<open>The solver\<close>

record live_state =
  lv_in :: "bitset list"
  lv_out :: "bitset list"
  lv_queue :: "nat list"
  lv_head :: nat
  lv_tail :: nat
  lv_pending :: nat
  lv_queued :: "bool list"
  lv_transfers :: nat

definition ring_next :: "nat list \<Rightarrow> nat \<Rightarrow> nat" where
  "ring_next queue k = (if k + 1 = length queue then 0 else k + 1)"

definition enqueue_pred :: "nat \<Rightarrow> live_state \<Rightarrow> live_state" where
  "enqueue_pred pred s =
    (if lv_queued s ! pred then s
     else s\<lparr>lv_queued := (lv_queued s)[pred := True], lv_queue := (lv_queue s)[lv_tail s := pred],
            lv_tail := ring_next (lv_queue s) (lv_tail s), lv_pending := lv_pending s + 1\<rparr>)"

definition gather_out :: "flow_graph \<Rightarrow> bitset list \<Rightarrow> nat \<Rightarrow> bitset \<Rightarrow> bitset" where
  "gather_out g ins b out =
    fold (\<lambda>eid out. fst (bs_union_with False out (ins ! ed_destination (fg_edges g ! eid)))) (fg_outgoing g ! b) out"

definition live_transfer :: "bitset \<Rightarrow> bitset \<Rightarrow> bitset \<Rightarrow> bitset" where
  "live_transfer generated killed out = fst (bs_union_with False (bs_subtract out killed) generated)"

definition live_step :: "flow_graph \<Rightarrow> bitset list \<Rightarrow> bitset list \<Rightarrow> live_state \<Rightarrow> live_state" where
  "live_step g generated killed s =
    (let b = lv_queue s ! lv_head s;
         out = gather_out g (lv_in s) b (lv_out s ! b);
         next_in = live_transfer (generated ! b) (killed ! b) out;
         s = s\<lparr>lv_head := ring_next (lv_queue s) (lv_head s), lv_pending := lv_pending s - 1,
               lv_queued := (lv_queued s)[b := False], lv_transfers := lv_transfers s + 1, lv_out := (lv_out s)[b := out]\<rparr>
     in if next_in = lv_in s ! b then s
        else fold enqueue_pred (map (\<lambda>eid. ed_source (fg_edges g ! eid)) (fg_incoming g ! b)) (s\<lparr>lv_in := (lv_in s)[b := next_in]\<rparr>))"

definition live_start :: "nat list \<Rightarrow> nat \<Rightarrow> live_state" where
  "live_start order count = \<lparr>lv_in = replicate count [], lv_out = replicate count [], lv_queue = rev order @ [0], lv_head = 0,
     lv_tail = count, lv_pending = count, lv_queued = replicate count True, lv_transfers = 0\<rparr>"

definition solve_liveness :: "flow_graph \<Rightarrow> bitset list \<Rightarrow> bitset list \<Rightarrow> nat list \<Rightarrow> nat \<Rightarrow> live_state option" where
  "solve_liveness g generated killed order count =
     while_option (\<lambda>s. lv_pending s \<noteq> 0) (live_step g generated killed) (live_start order count)"

section \<open>The analysis\<close>

record register_liveness =
  rl_registers :: nat
  rl_in :: "bitset list"
  rl_out :: "bitset list"
  rl_generated :: "bitset list"
  rl_killed :: "bitset list"
  rl_transfers :: nat

definition live_in :: "register_liveness \<Rightarrow> nat \<Rightarrow> nat \<Rightarrow> bool" where
  "live_in lv b r \<longleftrightarrow> b < length (rl_in lv) \<and> r < rl_registers lv \<and> bs_contains r (rl_in lv ! b)"

definition live_out :: "register_liveness \<Rightarrow> nat \<Rightarrow> nat \<Rightarrow> bool" where
  "live_out lv b r \<longleftrightarrow> b < length (rl_out lv) \<and> r < rl_registers lv \<and> bs_contains r (rl_out lv ! b)"

definition graph_liveness :: "ir_function \<Rightarrow> function_graph \<Rightarrow> register_liveness option" where
  "graph_liveness f fg =
    (let facts = map (\<lambda>node. block_facts (hardware_registers f) (node_instructions f node)) (fn_nodes fg);
         generated = map fst facts; killed = map snd facts
     in map_option (\<lambda>s. \<lparr>rl_registers = length (if_registers f), rl_in = lv_in s, rl_out = lv_out s, rl_generated = generated,
            rl_killed = killed, rl_transfers = lv_transfers s\<rparr>)
          (solve_liveness (fn_flow fg) generated killed (fn_order fg) (length (fn_nodes fg))))"

definition liveness_analysis :: "(ir_function \<Rightarrow> unit result) \<Rightarrow> nat \<Rightarrow> ir_function \<Rightarrow> register_liveness result option" where
  "liveness_analysis verify owner f = (case require_register_ir f of
     Inl e \<Rightarrow> Some (Inl e)
   | Inr _ \<Rightarrow>
       if owner \<noteq> if_id f then Some (owner_error f)
       else case function_graph_analysis verify owner f of
         None \<Rightarrow> None
       | Some (Inl e) \<Rightarrow> Some (Inl e)
       | Some (Inr fg) \<Rightarrow> map_option Inr (graph_liveness f fg))"

section \<open>The facts of a block are those of its instructions\<close>

text \<open>Some instruction reads the register and none before it writes it; some instruction writes it.\<close>

definition exposed :: "nat list \<Rightarrow> ir_instruction list \<Rightarrow> nat \<Rightarrow> bool" where
  "exposed hardware is r \<longleftrightarrow>
     (\<exists>k<length is. r \<in> set (instruction_inputs hardware (is ! k)) \<and> (\<forall>j<k. r \<notin> set (instruction_outputs (is ! j))))"

definition written :: "ir_instruction list \<Rightarrow> nat \<Rightarrow> bool" where
  "written is r \<longleftrightarrow> (\<exists>i\<in>set is. r \<in> set (instruction_outputs i))"

lemma exposed_Nil [simp]: "\<not> exposed hardware [] r"
  by (simp add: exposed_def)

lemma exposed_Cons:
  "exposed hardware (i # is) r \<longleftrightarrow>
     r \<in> set (instruction_inputs hardware i) \<or> (r \<notin> set (instruction_outputs i) \<and> exposed hardware is r)"
  by (simp add: exposed_def Ex_less_Suc2 All_less_Suc2) blast

lemma exposed_append: "exposed hardware (xs @ ys) r \<longleftrightarrow> exposed hardware xs r \<or> (\<not> written xs r \<and> exposed hardware ys r)"
  by (induction xs) (auto simp: exposed_Cons written_def)

lemma fold_use_input:
  "bs_wf k \<Longrightarrow> bs_wf g \<Longrightarrow> bs_wf (fold (use_input k) rs g) \<and> bs_elems (fold (use_input k) rs g) = bs_elems g \<union> (set rs - bs_elems k)"
proof (induction rs arbitrary: g)
  case (Cons r rs)
  have "bs_wf (use_input k r g)" "bs_elems (use_input k r g) = bs_elems g \<union> ({r} - bs_elems k)"
    using Cons.prems by (auto simp: use_input_def bits.element_laws bits.invars)
  then show ?case using Cons.IH [of "use_input k r g"] Cons.prems(1) by auto
qed simp

lemma fold_insert_bits: "bs_wf k \<Longrightarrow> bs_wf (fold bs_insert rs k) \<and> bs_elems (fold bs_insert rs k) = set rs \<union> bs_elems k"
  by (induction rs arbitrary: k) (auto simp: bits.element_laws bits.invars)

lemma fold_instruction_facts:
  assumes "bs_wf g" "bs_wf k"
  shows "case fold (instruction_facts hardware) is (g, k) of (g', k') \<Rightarrow>
    bs_wf g' \<and> bs_wf k' \<and> bs_elems g' = bs_elems g \<union> ({r. exposed hardware is r} - bs_elems k) \<and>
    bs_elems k' = bs_elems k \<union> {r. written is r}"
  using assms
proof (induction "is" arbitrary: g k)
  case (Cons i "is")
  let ?g = "fold (use_input k) (instruction_inputs hardware i) g" and ?k = "fold bs_insert (instruction_outputs i) k"
  have "bs_wf ?g" "bs_elems ?g = bs_elems g \<union> (set (instruction_inputs hardware i) - bs_elems k)"
    "bs_wf ?k" "bs_elems ?k = set (instruction_outputs i) \<union> bs_elems k"
    using fold_use_input fold_insert_bits Cons.prems by blast+
  with Cons.IH [of ?g ?k] show ?case
    by (auto simp: instruction_facts_def exposed_Cons written_def split: prod.splits)
qed (auto simp: written_def)

lemma block_facts_spec:
  "bs_wf (fst (block_facts hardware is))" "bs_wf (snd (block_facts hardware is))"
  "bs_elems (fst (block_facts hardware is)) = {r. exposed hardware is r}"
  "bs_elems (snd (block_facts hardware is)) = {r. written is r}"
  using fold_instruction_facts [of "[]" "[]" hardware "is"] by (auto simp: block_facts_def bits.element_laws bits.invars)

section \<open>The ring holds the pending nodes\<close>

definition ring_work :: "live_state \<Rightarrow> nat list" where
  "ring_work s = map (\<lambda>i. lv_queue s ! ((lv_head s + i) mod length (lv_queue s))) [0..<lv_pending s]"

definition ring_ok :: "nat \<Rightarrow> live_state \<Rightarrow> nat list \<Rightarrow> bool" where
  "ring_ok n s work \<longleftrightarrow> length (lv_queue s) = Suc n \<and> lv_head s \<le> n \<and> lv_tail s = (lv_head s + lv_pending s) mod Suc n \<and>
     lv_pending s \<le> n \<and> work = ring_work s \<and> distinct work \<and> set work \<subseteq> {..<n} \<and>
     length (lv_queued s) = n \<and> (\<forall>b<n. lv_queued s ! b \<longleftrightarrow> b \<in> set work)"

lemma ring_okD:
  assumes "ring_ok n s work"
  shows "length (lv_queue s) = Suc n" "lv_tail s = (lv_head s + lv_pending s) mod Suc n" "work = ring_work s"
    "length (lv_queued s) = n" "lv_head s \<le> n" "\<forall>b<n. lv_queued s ! b \<longleftrightarrow> b \<in> set work" "distinct work" "set work \<subseteq> {..<n}"
    "lv_pending s \<le> n"
  using assms unfolding ring_ok_def by - ((elim conjE, assumption)+)

lemma ring_next_mod: "length queue = Suc n \<Longrightarrow> k \<le> n \<Longrightarrow> ring_next queue k = Suc k mod Suc n"
  by (auto simp: ring_next_def)

lemma mod_add_inj:
  fixes h i j m :: nat
  assumes "(h + i) mod m = (h + j) mod m" "i < m" "j < m"
  shows "i = j"
proof -
  obtain q r where "h + i + m * q = h + j + m * r" using assms(1) nat_mod_eq_iff by blast
  then have "i + m * q = j + m * r" by simp
  then have "i mod m = j mod m" using nat_mod_eq_iff by blast
  then show ?thesis using assms by simp
qed

lemma ring_enqueue:
  assumes R: "ring_ok n s work" and p: "pred < n"
  shows "\<exists>work'. ring_ok n (enqueue_pred pred s) work' \<and> set work' = insert pred (set work)"
proof (cases "lv_queued s ! pred")
  case True
  then show ?thesis using R p by (intro exI [of _ work]) (auto simp: enqueue_pred_def ring_ok_def)
next
  case False
  then have new: "pred \<notin> set work" using R p by (simp add: ring_ok_def)
  note len = ring_okD [OF R]
  have "length (pred # work) \<le> n"
    using distinct_card [of "pred # work"] card_mono [of "{..<n}" "set (pred # work)"] len(7,8) p new by simp
  then have pend: "lv_pending s < n" using len(3) by (simp add: ring_work_def)
  let ?s = "enqueue_pred pred s"
  have s: "lv_queued ?s = (lv_queued s)[pred := True]" "lv_queue ?s = (lv_queue s)[lv_tail s := pred]"
    "lv_head ?s = lv_head s" "lv_tail ?s = Suc (lv_tail s) mod Suc n" "lv_pending ?s = Suc (lv_pending s)"
    using False len(1,2) ring_next_mod [OF len(1), of "lv_tail s"] by (simp_all add: enqueue_pred_def)
  have other: "(lv_head s + i) mod Suc n \<noteq> lv_tail s" if "i < lv_pending s" for i
    using mod_add_inj [of "lv_head s" i "Suc n" "lv_pending s"] that pend len(2) by auto
  have "map (\<lambda>i. (lv_queue s)[lv_tail s := pred] ! ((lv_head s + i) mod Suc n)) [0..<lv_pending s] = work"
    unfolding len(3) ring_work_def len(1) using other [symmetric] by (intro map_cong refl nth_list_update_neq) simp
  moreover have "(lv_queue s)[lv_tail s := pred] ! ((lv_head s + lv_pending s) mod Suc n) = pred"
    unfolding len(2) by (rule nth_list_update_eq) (simp add: len(1))
  ultimately have "ring_work ?s = work @ [pred]" by (simp add: ring_work_def s len(1))
  moreover have "Suc (lv_tail s) mod Suc n = (lv_head s + Suc (lv_pending s)) mod Suc n"
    unfolding len(2) by (simp add: mod_Suc_eq)
  ultimately have "ring_ok n ?s (work @ [pred])"
    using len new pend p unfolding ring_ok_def s by (auto simp: nth_list_update)
  then show ?thesis by auto
qed

lemma enqueue_pred_sets [simp]: "lv_in (enqueue_pred p s) = lv_in s" "lv_out (enqueue_pred p s) = lv_out s"
  by (simp_all add: enqueue_pred_def)

lemma ring_enqueue_all:
  "ring_ok n s work \<Longrightarrow> set ps \<subseteq> {..<n} \<Longrightarrow>
   \<exists>work'. ring_ok n (fold enqueue_pred ps s) work' \<and> set work' = set work \<union> set ps \<and>
     lv_in (fold enqueue_pred ps s) = lv_in s \<and> lv_out (fold enqueue_pred ps s) = lv_out s"
proof (induction ps arbitrary: s work)
  case (Cons p ps)
  have "p < n" using Cons.prems(2) by simp
  then obtain work' where w: "ring_ok n (enqueue_pred p s) work'" "set work' = insert p (set work)"
    using ring_enqueue [OF Cons.prems(1)] by blast
  from Cons.IH [OF w(1)] w(2) Cons.prems(2) show ?case by auto
qed auto

lemma ring_dequeue:
  assumes R: "ring_ok n s work" and w: "lv_pending s \<noteq> 0"
    and s': "lv_queue s' = lv_queue s" "lv_head s' = ring_next (lv_queue s) (lv_head s)" "lv_tail s' = lv_tail s"
      "lv_pending s' = lv_pending s - 1" "lv_queued s' = (lv_queued s)[lv_queue s ! lv_head s := False]"
  shows "work \<noteq> [] \<and> hd work = lv_queue s ! lv_head s \<and> ring_ok n s' (tl work)"
proof -
  note len = ring_okD [OF R]
  obtain k where k: "lv_pending s = Suc k" using w by (cases "lv_pending s") auto
  have upt: "[0..<Suc k] = 0 # map Suc [0..<k]" by (simp only: map_Suc_upt upt_conv_Cons)
  have work: "work = lv_queue s ! lv_head s # map (\<lambda>i. lv_queue s ! ((lv_head s + Suc i) mod Suc n)) [0..<k]"
    unfolding len(3) ring_work_def k len(1) upt using len(5) by (simp add: comp_def)
  have head: "lv_head s' = Suc (lv_head s) mod Suc n" using s'(2) ring_next_mod [OF len(1,5)] by simp
  have shift: "(lv_head s' + i) mod Suc n = Suc (lv_head s + i) mod Suc n" for i unfolding head by (simp add: mod_add_left_eq)
  have "ring_work s' = tl work" unfolding work by (simp add: ring_work_def s'(1,4) k len(1) shift)
  moreover have "lv_tail s' = (lv_head s' + lv_pending s') mod Suc n"
    unfolding shift s'(3,4) len(2) k by simp
  moreover have "set work = insert (lv_queue s ! lv_head s) (set (tl work))" "lv_queue s ! lv_head s \<notin> set (tl work)" "distinct (tl work)"
    using len(7) unfolding work by auto
  moreover have "work \<noteq> []" "hd work = lv_queue s ! lv_head s" unfolding work by simp_all
  ultimately show ?thesis
    using len k s'(1,4,5) head unfolding ring_ok_def s'(3) by (auto simp: nth_list_update)
qed

section \<open>The solver finds what is live\<close>

definition live_problem :: "flow_graph \<Rightarrow> bitset list \<Rightarrow> bitset list \<Rightarrow> nat \<Rightarrow> flow_problem" where
  "live_problem g generated killed n = \<lparr>fp_nodes = n, fp_succ = (\<lambda>b. if b < n then set (targets_of g b) else {}),
     fp_gen = (\<lambda>b. if b < n then bs_elems (generated ! b) else {}), fp_kill = (\<lambda>b. bs_elems (killed ! b)), fp_seed = (\<lambda>b. {})\<rparr>"

definition sets_follow :: "nat \<Rightarrow> bitset list \<Rightarrow> (nat \<Rightarrow> nat set) \<Rightarrow> bool" where
  "sets_follow n xs f \<longleftrightarrow> length xs = n \<and> (\<forall>b<n. bs_wf (xs ! b) \<and> bs_elems (xs ! b) = f b)"

definition live_follows :: "nat \<Rightarrow> live_state \<Rightarrow> flow_state \<Rightarrow> bool" where
  "live_follows n s a \<longleftrightarrow> sets_follow n (lv_in s) (fs_in a) \<and> sets_follow n (lv_out s) (fs_out a) \<and>
     (\<exists>work. ring_ok n s work \<and> set work = fs_work a)"

lemma sets_followD: "sets_follow n xs f \<Longrightarrow> length xs = n \<and> (\<forall>b<n. \<forall>r. bs_contains r (xs ! b) \<longleftrightarrow> r \<in> f b)"
  by (simp add: sets_follow_def bits.element_laws)

lemma sets_follow_update: "sets_follow n xs f \<Longrightarrow> bs_wf x \<Longrightarrow> bs_elems x = v \<Longrightarrow> sets_follow n (xs[b := x]) (f(b := v))"
  by (auto simp: sets_follow_def nth_list_update)

lemma fold_union:
  "bs_wf out \<Longrightarrow> \<forall>t\<in>set ts. bs_wf (h t) \<Longrightarrow>
   bs_wf (fold (\<lambda>t out. fst (bs_union_with False out (h t))) ts out) \<and>
   bs_elems (fold (\<lambda>t out. fst (bs_union_with False out (h t))) ts out) = bs_elems out \<union> (\<Union>t\<in>set ts. bs_elems (h t))"
proof (induction ts arbitrary: out)
  case (Cons t ts)
  have "bs_wf (fst (bs_union_with False out (h t)))" "bs_elems (fst (bs_union_with False out (h t))) = bs_elems out \<union> bs_elems (h t)"
    using Cons.prems by (simp_all add: bits.element_laws bits.invars)
  then show ?case using Cons.IH [of "fst (bs_union_with False out (h t))"] Cons.prems(2) by auto
qed simp

lemma gather_out_spec:
  assumes g: "graph_ok n g" and b: "b < n" and ins: "sets_follow n ins f" and out: "bs_wf out"
  shows "bs_wf (gather_out g ins b out) \<and> bs_elems (gather_out g ins b out) = bs_elems out \<union> (\<Union>t\<in>set (targets_of g b). f t)"
proof -
  have t: "ed_destination (fg_edges g ! eid) < n" if "eid \<in> set (fg_outgoing g ! b)" for eid
    using graph_okD(1) [OF g that b] graph_okD(4) [OF g] by blast
  then have "\<forall>eid\<in>set (fg_outgoing g ! b). bs_wf (ins ! ed_destination (fg_edges g ! eid))"
    using ins by (simp add: sets_follow_def)
  from fold_union [OF out this] show ?thesis
    using ins t by (simp add: gather_out_def targets_of_def sets_follow_def)
qed

lemma live_transfer_spec:
  assumes "bs_wf generated" "bs_wf killed" "bs_wf out"
  shows "bs_wf (live_transfer generated killed out)"
    "bs_elems (live_transfer generated killed out) = (bs_elems out - bs_elems killed) \<union> bs_elems generated"
  using assms bits.transfer by (simp_all add: live_transfer_def bits.invars)

lemma ring_ok_in [simp]: "ring_ok n (s\<lparr>lv_in := x\<rparr>) work = ring_ok n s work"
  by (simp add: ring_ok_def ring_work_def)

lemma live_step_follows:
  assumes g: "graph_ok n g" and facts: "length generated = n" "length killed = n" "list_all bs_wf generated" "list_all bs_wf killed"
    and R: "live_follows n s a"
  shows "(lv_pending s \<noteq> 0 \<longleftrightarrow> fs_work a \<noteq> {}) \<and>
    (lv_pending s \<noteq> 0 \<longrightarrow> (\<exists>b\<in>fs_work a. live_follows n (live_step g generated killed s) (flow_step (live_problem g generated killed n) b a)))"
proof -
  obtain work where w: "ring_ok n s work" "set work = fs_work a" and sets: "sets_follow n (lv_in s) (fs_in a)" "sets_follow n (lv_out s) (fs_out a)"
    using R by (auto simp: live_follows_def)
  note W = ring_okD [OF w(1)]
  have "lv_pending s \<noteq> 0 \<longleftrightarrow> fs_work a \<noteq> {}" using w(2) [symmetric] W(3) by (simp add: ring_work_def)
  moreover have "\<exists>b\<in>fs_work a. live_follows n (live_step g generated killed s) (flow_step (live_problem g generated killed n) b a)"
    if pend: "lv_pending s \<noteq> 0"
  proof -
    let ?p = "live_problem g generated killed n"
    define b where "b = lv_queue s ! lv_head s"
    define out where "out = gather_out g (lv_in s) b (lv_out s ! b)"
    define new where "new = live_transfer (generated ! b) (killed ! b) out"
    define s' where "s' = s\<lparr>lv_head := ring_next (lv_queue s) (lv_head s), lv_pending := lv_pending s - 1,
               lv_queued := (lv_queued s)[b := False], lv_transfers := lv_transfers s + 1, lv_out := (lv_out s)[b := out]\<rparr>"
    have deq: "work \<noteq> []" "hd work = b" "ring_ok n s' (tl work)"
      using ring_dequeue [OF w(1) pend, of s'] by (simp_all add: s'_def b_def)
    then have b: "b \<in> fs_work a" "b < n" "set (tl work) = fs_work a - {b}"
      using W(7,8) w(2) by (cases work; auto)+
    have wf: "bs_wf (generated ! b)" "bs_wf (killed ! b)" "bs_wf (lv_out s ! b)" "bs_wf (lv_in s ! b)" "bs_elems (lv_in s ! b) = fs_in a b"
      "bs_elems (lv_out s ! b) = fs_out a b"
      using facts sets b(2) by (simp_all add: list_all_length sets_follow_def)
    have out_spec: "bs_wf out" "bs_elems out = flow_out ?p a b"
      using gather_out_spec [OF g b(2) sets(1) wf(3)] wf(6) b(2) by (simp_all add: out_def flow_out_def live_problem_def)
    have new_spec: "bs_wf new" "bs_elems new = flow_transfer ?p b (flow_out ?p a b)"
      using live_transfer_spec [OF wf(1,2) out_spec(1)] out_spec(2) b(2)
      by (simp_all add: new_def flow_transfer_def live_problem_def)
    have same: "new = lv_in s ! b \<longleftrightarrow> flow_transfer ?p b (flow_out ?p a b) = fs_in a b"
      using bits.canonical [OF new_spec(1) wf(4)] new_spec(2) wf(5) by simp
    have outs: "sets_follow n (lv_out s') ((fs_out a)(b := flow_out ?p a b))"
      using sets_follow_update [OF sets(2) out_spec] by (simp add: s'_def)
    have step: "live_step g generated killed s = (if new = lv_in s ! b then s'
        else fold enqueue_pred (map (\<lambda>eid. ed_source (fg_edges g ! eid)) (fg_incoming g ! b)) (s'\<lparr>lv_in := (lv_in s')[b := new]\<rparr>))"
      by (simp add: live_step_def Let_def new_def out_def s'_def b_def)
    have "live_follows n (live_step g generated killed s) (flow_step ?p b a)"
    proof (cases "new = lv_in s ! b")
      case True
      then have "flow_step ?p b a = a\<lparr>fs_out := (fs_out a)(b := flow_out ?p a b), fs_work := fs_work a - {b}\<rparr>"
        using same by (simp add: flow_step_def Let_def)
      moreover have "lv_in s' = lv_in s" by (simp add: s'_def)
      ultimately show ?thesis using True deq(3) b(3) outs sets(1) unfolding step live_follows_def by auto
    next
      case False
      let ?s = "s'\<lparr>lv_in := (lv_in s')[b := new]\<rparr>"
      let ?preds = "map (\<lambda>eid. ed_source (fg_edges g ! eid)) (fg_incoming g ! b)"
      have r: "ring_ok n ?s (tl work)" using deq(3) by simp
      have preds: "set ?preds = flow_preds ?p b"
        using incoming_preds [OF g b(2)] by (auto simp: flow_preds_def live_problem_def)
      then have "set ?preds \<subseteq> {..<n}" by (auto simp: flow_preds_def live_problem_def)
      from ring_enqueue_all [OF r this] preds obtain work' where
        w': "ring_ok n (live_step g generated killed s) work'" "set work' = set (tl work) \<union> flow_preds ?p b"
          "lv_in (live_step g generated killed s) = (lv_in s')[b := new]" "lv_out (live_step g generated killed s) = lv_out s'"
        using False step by auto
      have fstep: "flow_step ?p b a = a\<lparr>fs_out := (fs_out a)(b := flow_out ?p a b),
          fs_in := (fs_in a)(b := flow_transfer ?p b (flow_out ?p a b)), fs_work := fs_work a - {b} \<union> flow_preds ?p b\<rparr>"
        using same False by (simp add: flow_step_def Let_def)
      have "sets_follow n ((lv_in s')[b := new]) ((fs_in a)(b := flow_transfer ?p b (flow_out ?p a b)))"
        using sets_follow_update [OF sets(1) new_spec] by (simp add: s'_def)
      then show ?thesis using w' outs b(3) unfolding live_follows_def fstep by auto
    qed
    then show ?thesis using b(1) by blast
  qed
  ultimately show ?thesis by blast
qed

lemma finite_elems: "bs_wf ws \<Longrightarrow> finite (bs_elems ws)"
  using finite_set [of "bs_for_each ws"] by (simp add: set_bs_for_each)

lemma live_problem_ok:
  "graph_ok n g \<Longrightarrow> length generated = n \<Longrightarrow> list_all bs_wf generated \<Longrightarrow> problem_ok (live_problem g generated killed n)"
  using graph_closed [of n g] finite_elems by (auto simp: problem_ok_def live_problem_def closed_below_def list_all_length)

lemma live_start_follows:
  assumes "distinct order" "set order = {..<n}"
  shows "live_follows n (live_start order n) \<lparr>fs_in = (\<lambda>b. {}), fs_out = (\<lambda>b. {}), fs_work = {..<n}\<rparr>"
proof -
  have len: "length order = n" using distinct_card [OF assms(1)] assms(2) by simp
  have "ring_work (live_start order n) = rev order"
    by (rule nth_equalityI) (auto simp: ring_work_def live_start_def len nth_append)
  then show ?thesis
    using assms len by (auto simp: live_follows_def sets_follow_def ring_ok_def bits.element_laws live_start_def intro!: exI [of _ "rev order"])
qed

lemma solve_liveness_exact:
  assumes g: "graph_ok n g" and facts: "length generated = n" "length killed = n" "list_all bs_wf generated" "list_all bs_wf killed"
    and order: "distinct order" "set order = {..<n}"
  shows "\<exists>s. solve_liveness g generated killed order n = Some s \<and>
    sets_follow n (lv_in s) (\<lambda>b. Collect (live_at (live_problem g generated killed n) b)) \<and>
    sets_follow n (lv_out s) (\<lambda>b. Collect (live_end (live_problem g generated killed n) b))"
proof -
  let ?p = "live_problem g generated killed n"
  note p = live_problem_ok [OF g facts(1,3), of killed]
  have "flow_ok ?p \<lparr>fs_in = (\<lambda>b. {}), fs_out = (\<lambda>b. {}), fs_work = {..<n}\<rparr>" by (auto simp: flow_ok_def live_problem_def)
  then obtain s a where s: "solve_liveness g generated killed order n = Some s" "live_follows n s a" "flow_ok ?p a" "fs_work a = {}"
    unfolding solve_liveness_def
    using flow_simulation [where R = "live_follows n" and P = "\<lambda>s. lv_pending s \<noteq> 0" and c = "live_step g generated killed",
        OF p live_step_follows [OF g facts] live_start_follows [OF order]] by blast
  have "b < n \<Longrightarrow> fs_in a b = Collect (live_at ?p b) \<and> fs_out a b = Collect (live_end ?p b)" for b
    using flow_solved [OF s(3) p s(4)] by (simp add: live_problem_def)
  then show ?thesis using s(1,2) by (auto simp: live_follows_def sets_follow_def)
qed

section \<open>Liveness is reading before writing on some path\<close>

definition path_instructions :: "ir_function \<Rightarrow> function_graph \<Rightarrow> nat list \<Rightarrow> ir_instruction list" where
  "path_instructions f fg p = concat (map (\<lambda>b. node_instructions f (fn_nodes fg ! b)) p)"

text \<open>Along some path from the node an instruction reads the register and none before it writes it.\<close>

definition read_on_path :: "ir_function \<Rightarrow> function_graph \<Rightarrow> nat \<Rightarrow> nat \<Rightarrow> bool" where
  "read_on_path f fg b r \<longleftrightarrow>
     (\<exists>q. node_path (targets_of (fn_flow fg)) (b # q) \<and> exposed (hardware_registers f) (path_instructions f fg (b # q)) r)"

definition function_problem :: "ir_function \<Rightarrow> function_graph \<Rightarrow> flow_problem" where
  "function_problem f fg =
    (let facts = map (\<lambda>node. block_facts (hardware_registers f) (node_instructions f node)) (fn_nodes fg)
     in live_problem (fn_flow fg) (map fst facts) (map snd facts) (length (fn_nodes fg)))"

lemma function_problem_fields:
  assumes "b < length (fn_nodes fg)"
  shows "fp_succ (function_problem f fg) b = set (targets_of (fn_flow fg) b)"
    "r \<in> fp_gen (function_problem f fg) b \<longleftrightarrow> exposed (hardware_registers f) (node_instructions f (fn_nodes fg ! b)) r"
    "r \<in> fp_kill (function_problem f fg) b \<longleftrightarrow> written (node_instructions f (fn_nodes fg ! b)) r"
    "fp_seed (function_problem f fg) b = {}"
  using assms by (simp_all add: function_problem_def live_problem_def Let_def block_facts_spec)

lemma live_at_path:
  assumes "live_at (function_problem f fg) b r" "graph_ok (length (fn_nodes fg)) (fn_flow fg)" "b < length (fn_nodes fg)"
  shows "read_on_path f fg b r"
  using assms
proof (induction rule: live_at.induct)
  case (gen r b)
  then show ?case
    by (auto simp: read_on_path_def path_instructions_def function_problem_fields intro!: exI [of _ "[]"])
next
  case (flow t b r)
  note F = function_problem_fields [OF flow.prems(2)]
  have t: "t \<in> set (targets_of (fn_flow fg) b)" using flow.hyps(1) F(1) by simp
  then have "t < length (fn_nodes fg)" using graph_closed [OF flow.prems(1)] flow.prems(2) by (auto simp: closed_below_def)
  then obtain q where q: "node_path (targets_of (fn_flow fg)) (t # q)" "exposed (hardware_registers f) (path_instructions f fg (t # q)) r"
    using flow.IH flow.prems(1) by (auto simp: read_on_path_def)
  have "\<not> written (node_instructions f (fn_nodes fg ! b)) r" using flow.hyps F(3) by simp
  with q t show ?case
    unfolding read_on_path_def by (intro exI [of _ "t # q"]) (simp add: path_instructions_def exposed_append)
qed (simp add: function_problem_fields)

lemma path_live_at:
  assumes "graph_ok (length (fn_nodes fg)) (fn_flow fg)" "b < length (fn_nodes fg)"
    and "node_path (targets_of (fn_flow fg)) (b # q)" "exposed (hardware_registers f) (path_instructions f fg (b # q)) r"
  shows "live_at (function_problem f fg) b r"
  using assms(2-4)
proof (induction q arbitrary: b)
  case Nil
  then show ?case by (intro live_at.gen) (simp add: function_problem_fields path_instructions_def)
next
  case (Cons t q)
  note F = function_problem_fields [OF Cons.prems(1)]
  have t: "t \<in> set (targets_of (fn_flow fg) b)" "node_path (targets_of (fn_flow fg)) (t # q)" using Cons.prems(2) by simp_all
  then have tn: "t < length (fn_nodes fg)" using graph_closed [OF assms(1)] Cons.prems(1) by (auto simp: closed_below_def)
  consider "exposed (hardware_registers f) (node_instructions f (fn_nodes fg ! b)) r"
    | "\<not> written (node_instructions f (fn_nodes fg ! b)) r" "exposed (hardware_registers f) (path_instructions f fg (t # q)) r"
    using Cons.prems(3) by (auto simp: path_instructions_def exposed_append)
  then show ?case
  proof cases
    case 1
    then show ?thesis using F(2) by (auto intro: live_at.gen)
  next
    case 2
    then show ?thesis using Cons.IH [OF tn t(2)] t(1) F(1,3) by (auto intro: live_at.flow [of t])
  qed
qed

lemma live_at_iff_path:
  assumes "graph_ok (length (fn_nodes fg)) (fn_flow fg)" "b < length (fn_nodes fg)"
  shows "live_at (function_problem f fg) b r \<longleftrightarrow> read_on_path f fg b r"
  using live_at_path [OF _ assms] path_live_at [OF assms] by (auto simp: read_on_path_def)

lemma graph_liveness_exact:
  assumes "function_graph_ok fg"
  shows "\<exists>lv. graph_liveness f fg = Some lv \<and>
    (\<forall>b r. live_in lv b r = (b < length (fn_nodes fg) \<and> r < length (if_registers f) \<and> read_on_path f fg b r)) \<and>
    (\<forall>b r. live_out lv b r = (b < length (fn_nodes fg) \<and> r < length (if_registers f) \<and>
        (\<exists>t. t \<in> set (targets_of (fn_flow fg) b) \<and> read_on_path f fg t r)))"
proof -
  let ?n = "length (fn_nodes fg)" and ?p = "function_problem f fg"
  define facts where "facts = map (\<lambda>node. block_facts (hardware_registers f) (node_instructions f node)) (fn_nodes fg)"
  have g: "graph_ok ?n (fn_flow fg)" by (rule function_graph_okD(1) [OF assms])
  have order: "distinct (fn_order fg)" "set (fn_order fg) = {..<?n}"
    using rpost_order function_graph_okD(5) [OF assms] by auto
  have "list_all bs_wf (map fst facts)" "list_all bs_wf (map snd facts)" "length facts = ?n"
    by (auto simp: list_all_iff facts_def block_facts_spec)
  then obtain s where s: "solve_liveness (fn_flow fg) (map fst facts) (map snd facts) (fn_order fg) ?n = Some s"
    "sets_follow ?n (lv_in s) (\<lambda>b. Collect (live_at ?p b))" "sets_follow ?n (lv_out s) (\<lambda>b. Collect (live_end ?p b))"
    using solve_liveness_exact [OF g _ _ _ _ order, of "map fst facts" "map snd facts"]
    by (auto simp: function_problem_def Let_def facts_def)
  have out: "live_end ?p b r \<longleftrightarrow> (\<exists>t. t \<in> set (targets_of (fn_flow fg) b) \<and> read_on_path f fg t r)" if "b < ?n" for b r
  proof -
    have "t < ?n" if "t \<in> set (targets_of (fn_flow fg) b)" for t
      using graph_closed [OF g] \<open>b < ?n\<close> that by (auto simp: closed_below_def)
    then show ?thesis
      unfolding live_end_def function_problem_fields(1,4) [OF \<open>b < ?n\<close>] using live_at_iff_path [OF g] by blast
  qed
  define lv where "lv = \<lparr>rl_registers = length (if_registers f), rl_in = lv_in s, rl_out = lv_out s, rl_generated = map fst facts,
            rl_killed = map snd facts, rl_transfers = lv_transfers s\<rparr>"
  have "graph_liveness f fg = Some lv"
    unfolding graph_liveness_def Let_def facts_def [symmetric] s(1) by (simp add: lv_def)
  moreover have "live_in lv b r = (b < ?n \<and> r < length (if_registers f) \<and> read_on_path f fg b r)" for b r
  proof -
    have "live_in lv b r \<longleftrightarrow> b < ?n \<and> r < length (if_registers f) \<and> live_at ?p b r"
      using sets_followD [OF s(2)] by (auto simp: live_in_def lv_def)
    then show ?thesis using live_at_iff_path [OF g] by blast
  qed
  moreover have "live_out lv b r = (b < ?n \<and> r < length (if_registers f) \<and>
      (\<exists>t. t \<in> set (targets_of (fn_flow fg) b) \<and> read_on_path f fg t r))" for b r
  proof -
    have "live_out lv b r \<longleftrightarrow> b < ?n \<and> r < length (if_registers f) \<and> live_end ?p b r"
      using sets_followD [OF s(3)] by (auto simp: live_out_def lv_def)
    then show ?thesis using out by blast
  qed
  ultimately show ?thesis by blast
qed

text \<open>C6: the liveness analysis of a register function returns whenever its graph does; a register is live at the start
  of a node exactly when some path of instructions from there reads it before writing it, and live at the end exactly
  when that holds for some successor.\<close>

theorem live_registers_exact:
  assumes "if_blocks f \<noteq> []"
  shows "case function_graph_analysis verify owner f of
      None \<Rightarrow> False
    | Some (Inl e) \<Rightarrow> True
    | Some (Inr fg) \<Rightarrow> (case liveness_analysis verify owner f of
          None \<Rightarrow> False
        | Some (Inl e) \<Rightarrow> if_ssa f
        | Some (Inr lv) \<Rightarrow>
            (\<forall>b r. live_in lv b r = (b < length (fn_nodes fg) \<and> r < length (if_registers f) \<and> read_on_path f fg b r)) \<and>
            (\<forall>b r. live_out lv b r = (b < length (fn_nodes fg) \<and> r < length (if_registers f) \<and>
                (\<exists>t. t \<in> set (targets_of (fn_flow fg) b) \<and> read_on_path f fg t r))))"
proof -
  from function_graph_analysis_cases [OF assms, of verify owner] show ?thesis
  proof (elim disjE exE conjE)
    fix fg marks
    assume h: "function_graph_analysis verify owner f = Some (Inr fg)" "function_graph_ok fg"
    then have "owner = if_id f" by (auto simp: function_graph_analysis_def owner_error_def mk_error_def split: if_splits)
    with h(1) graph_liveness_exact [OF h(2), of f] show ?thesis
      by (auto simp: liveness_analysis_def require_register_ir_def mk_error_def)
  qed simp
qed

definition live_function :: ir_function where
  "live_function = \<lparr>if_id = 0, if_name = ''f'', if_registers = [\<lparr>ig_type = type_i64, ig_name = ''x'', ig_hardware = [], ig_memory_backed = False\<rparr>],
     if_blocks = [\<lparr>ib_labels = [], ib_instructions = [\<lparr>ii_opcode = OMove O_Mov, ii_operands = [IrRegister 0, IrInt 1]\<rparr>]\<rparr>,
       \<lparr>ib_labels = [7], ib_instructions = [\<lparr>ii_opcode = OMisc O_Ret, ii_operands = [IrRegister 0]\<rparr>]\<rparr>],
     if_ssa = False, if_label_data = []\<rparr>"

theorem live_registers_exact_witness:
  "case function_graph_analysis (\<lambda>_. Inr ()) 0 live_function of
      None \<Rightarrow> False
    | Some (Inl e) \<Rightarrow> True
    | Some (Inr fg) \<Rightarrow> (case liveness_analysis (\<lambda>_. Inr ()) 0 live_function of
          None \<Rightarrow> False
        | Some (Inl e) \<Rightarrow> if_ssa live_function
        | Some (Inr lv) \<Rightarrow>
            (\<forall>b r. live_in lv b r = (b < length (fn_nodes fg) \<and> r < length (if_registers live_function) \<and> read_on_path live_function fg b r)) \<and>
            (\<forall>b r. live_out lv b r = (b < length (fn_nodes fg) \<and> r < length (if_registers live_function) \<and>
                (\<exists>t. t \<in> set (targets_of (fn_flow fg) b) \<and> read_on_path live_function fg t r))))"
proof -
  have "if_blocks live_function \<noteq> []" by (simp add: live_function_def)
  then show ?thesis by (rule live_registers_exact)
qed

end
