(* ===== verification/DominatorSets.thy ===== *)
theory DominatorSets
  imports Prelude
begin

text \<open>
  Dominators as sets, for \<open>DominatorAnalysis::run\<close> (\<open>lib/Analysis/FunctionGraph.cpp\<close>): the nodes every path from node 0
  passes, the chains of immediate dominators as the analysis holds them while it runs, and what one pass over the
  nodes in reverse postorder does to them.  A node whose immediate dominator is not known yet counts as dominated by
  every node.
\<close>

section \<open>The setting\<close>

text \<open>The reached nodes, the edges between them, and numbers that no two of them share; every node but node 0 has an
  edge from a node of a smaller number.\<close>

record dom_setting =
  ds_nodes :: "nat set"
  ds_edges :: "(nat \<times> nat) set"
  ds_num :: "nat \<Rightarrow> nat"

definition setting_ok :: "dom_setting \<Rightarrow> bool" where
  "setting_ok S \<longleftrightarrow> finite (ds_nodes S) \<and> 0 \<in> ds_nodes S \<and> ds_edges S \<subseteq> ds_nodes S \<times> ds_nodes S \<and>
     inj_on (ds_num S) (ds_nodes S) \<and>
     (\<forall>b\<in>ds_nodes S. b \<noteq> 0 \<longrightarrow> (\<exists>a. (a, b) \<in> ds_edges S \<and> ds_num S a < ds_num S b))"

definition increasing :: "dom_setting \<Rightarrow> (nat \<times> nat) set" where
  "increasing S = {(a, b) \<in> ds_edges S. ds_num S a < ds_num S b}"

lemma setting_okD:
  assumes "setting_ok S"
  shows "finite (ds_nodes S)" "0 \<in> ds_nodes S" "(a, b) \<in> ds_edges S \<Longrightarrow> a \<in> ds_nodes S \<and> b \<in> ds_nodes S"
    "b \<in> ds_nodes S \<Longrightarrow> b \<noteq> 0 \<Longrightarrow> \<exists>a. (a, b) \<in> ds_edges S \<and> ds_num S a < ds_num S b"
    "a \<in> ds_nodes S \<Longrightarrow> b \<in> ds_nodes S \<Longrightarrow> ds_num S a = ds_num S b \<Longrightarrow> a = b"
  using assms unfolding setting_ok_def by (auto dest: inj_onD)

lemma entry_first:
  assumes S: "setting_ok S"
  shows "b \<in> ds_nodes S \<Longrightarrow> b \<noteq> 0 \<Longrightarrow> ds_num S 0 < ds_num S b"
proof (induction "ds_num S b" arbitrary: b rule: less_induct)
  case less
  obtain a where a: "(a, b) \<in> ds_edges S" "ds_num S a < ds_num S b" using setting_okD(4) [OF S less.prems] by blast
  then have "a \<in> ds_nodes S" using setting_okD(3) [OF S] by blast
  then show ?case using less.hyps [OF a(2)] a(2) by (cases "a = 0") auto
qed

lemma increasing_target:
  assumes S: "setting_ok S" and e: "(a, b) \<in> increasing S"
  shows "b \<noteq> 0"
proof
  assume "b = 0"
  then have "ds_num S a < ds_num S 0" "a \<in> ds_nodes S" using e setting_okD(3) [OF S] by (auto simp: increasing_def)
  then show False using entry_first [OF S, of a] by (cases "a = 0") auto
qed

lemma increasing_trancl_num: "(a, b) \<in> (increasing S)\<^sup>+ \<Longrightarrow> ds_num S a < ds_num S b"
  by (induction rule: trancl_induct) (auto simp: increasing_def)

lemma increasing_rtrancl_num: "(a, b) \<in> (increasing S)\<^sup>* \<Longrightarrow> ds_num S a \<le> ds_num S b"
  by (induction rule: rtrancl_induct) (auto simp: increasing_def)

section \<open>Dominators\<close>

text \<open>Some path from node 0 to the node avoids another.\<close>

inductive avoids :: "dom_setting \<Rightarrow> nat \<Rightarrow> nat \<Rightarrow> bool" for S t where
  start: "t \<noteq> 0 \<Longrightarrow> avoids S t 0"
| step: "avoids S t a \<Longrightarrow> (a, b) \<in> ds_edges S \<Longrightarrow> b \<noteq> t \<Longrightarrow> avoids S t b"

definition dominators :: "dom_setting \<Rightarrow> nat \<Rightarrow> nat set" where
  "dominators S b = {t. \<not> avoids S t b}"

lemma avoids_increasing: "(a, b) \<in> (increasing S)\<^sup>* \<Longrightarrow> avoids S t a \<Longrightarrow> ds_num S t \<le> ds_num S a \<Longrightarrow> avoids S t b"
proof (induction rule: rtrancl_induct)
  case (step y z)
  then have "ds_num S t < ds_num S z" using increasing_rtrancl_num by (fastforce simp: increasing_def)
  then show ?case using step by (auto intro: avoids.step simp: increasing_def)
qed

section \<open>Chains of immediate dominators\<close>

type_synonym dom_map = "nat \<Rightarrow> nat option"

inductive chain :: "dom_map \<Rightarrow> nat \<Rightarrow> nat \<Rightarrow> bool" for m where
  here: "m b = Some p \<Longrightarrow> chain m b b"
| up: "m b = Some p \<Longrightarrow> chain m p t \<Longrightarrow> chain m b t"

definition above :: "dom_map \<Rightarrow> nat \<Rightarrow> nat set" where
  "above m b = {t. m b = None \<or> chain m b t}"

definition tree_ok :: "dom_setting \<Rightarrow> dom_map \<Rightarrow> bool" where
  "tree_ok S m \<longleftrightarrow> m 0 = Some 0 \<and>
     (\<forall>b p. m b = Some p \<longrightarrow> b \<in> ds_nodes S \<and> m p \<noteq> None \<and> (b \<noteq> 0 \<longrightarrow> (p, b) \<in> (increasing S)\<^sup>+))"

lemma tree_okD:
  assumes "tree_ok S m"
  shows "m 0 = Some 0" "m b = Some p \<Longrightarrow> b \<in> ds_nodes S" "m b = Some p \<Longrightarrow> m p \<noteq> None"
    "m b = Some p \<Longrightarrow> b \<noteq> 0 \<Longrightarrow> (p, b) \<in> (increasing S)\<^sup>+" "m b = Some p \<Longrightarrow> b \<noteq> 0 \<Longrightarrow> ds_num S p < ds_num S b"
  using assms increasing_trancl_num [of p b S] unfolding tree_ok_def by blast+

lemma chain_below:
  assumes T: "tree_ok S m"
  shows "chain m b t \<Longrightarrow> m t \<noteq> None \<and> t \<in> ds_nodes S \<and> (t, b) \<in> (increasing S)\<^sup>*"
proof (induction rule: chain.induct)
  case (here b p)
  then show ?case using tree_okD(2) [OF T] by auto
next
  case (up b p t)
  then show ?case using tree_okD(1,4) [OF T] by (cases "b = 0") (auto dest!: trancl_into_rtrancl dest: rtrancl_trans)
qed

lemma chain_num: "tree_ok S m \<Longrightarrow> chain m b t \<Longrightarrow> ds_num S t \<le> ds_num S b"
  using chain_below increasing_rtrancl_num by blast

lemma chain_unfold: "m b = Some p \<Longrightarrow> chain m b t \<longleftrightarrow> t = b \<or> chain m p t"
  by (auto intro: chain.intros elim: chain.cases)

lemma chain_root:
  assumes "m 0 = Some 0"
  shows "chain m 0 t \<longleftrightarrow> t = 0"
proof
  show "chain m 0 t \<Longrightarrow> t = 0" by (induction "0 :: nat" t rule: chain.induct) (use assms in auto)
qed (use assms in \<open>auto intro: chain.here\<close>)

lemma chain_trans: "chain m b a \<Longrightarrow> chain m a t \<Longrightarrow> chain m b t"
  by (induction rule: chain.induct) (auto intro: chain.up)

lemma chain_linear:
  assumes T: "tree_ok S m"
  shows "chain m b s \<Longrightarrow> chain m b t \<Longrightarrow> ds_num S t \<le> ds_num S s \<Longrightarrow> chain m s t"
proof (induction rule: chain.induct)
  case (up b p s)
  show ?case
  proof (cases "t = b")
    case True
    have "ds_num S s \<le> ds_num S p" by (rule chain_num [OF T up.hyps(2)])
    then have "b = 0" using True up.prems(2) tree_okD(5) [OF T up.hyps(1)] by fastforce
    then show ?thesis using up True tree_okD(1) [OF T] by auto
  next
    case False
    then show ?thesis using up chain_unfold [of m b p t] by simp
  qed
qed

lemma above_insert:
  assumes m: "m b = Some p" and T: "tree_ok S m"
  shows "above m b = insert b (above m p)"
proof -
  have "above m p = {t. chain m p t}" using tree_okD(3) [OF T m] unfolding above_def by blast
  moreover have "above m b = {t. chain m b t}" using m by (simp add: above_def)
  moreover have "chain m b t \<longleftrightarrow> t = b \<or> chain m p t" for t by (rule chain_unfold) (rule m)
  ultimately show ?thesis by blast
qed

lemma above_self: "b \<in> above m b"
  by (cases "m b") (auto simp: above_def intro: chain.here)

lemma above_root: "tree_ok S m \<Longrightarrow> above m 0 = {0}"
  using chain_root [of m] tree_okD(1) [of S m] by (auto simp: above_def)

text \<open>The known chains are finite, and a chain determines the immediate dominator at its foot.\<close>

lemma above_nodes: "tree_ok S m \<Longrightarrow> m b \<noteq> None \<Longrightarrow> above m b \<subseteq> ds_nodes S"
  using chain_below [of S m b] by (auto simp: above_def)

lemma above_determines:
  assumes S: "setting_ok S" and T: "tree_ok S m" "tree_ok S m'"
    and m: "m b = Some p" "m' b = Some q" and eq: "above m b = above m' b"
  shows "p = q"
proof (cases "b = 0")
  case True
  then show ?thesis using m tree_okD(1) [OF T(1)] tree_okD(1) [OF T(2)] by simp
next
  case False
  have less: "ds_num S p < ds_num S b" "ds_num S q < ds_num S b" using tree_okD(5) m T False by blast+
  have kn: "m p \<noteq> None" "m' q \<noteq> None" using tree_okD(3) m T by blast+
  have "p \<in> above m' b" "q \<in> above m b"
    using above_insert [OF m(1) T(1)] above_insert [OF m(2) T(2)] above_self eq by blast+
  then have "p \<in> above m' q" "q \<in> above m p"
    using above_insert [OF m(1) T(1)] above_insert [OF m(2) T(2)] less by auto
  then have "chain m' q p" "chain m p q" using kn by (auto simp: above_def)
  then have "ds_num S p \<le> ds_num S q" "ds_num S q \<le> ds_num S p" "p \<in> ds_nodes S" "q \<in> ds_nodes S"
    using chain_num [OF T(1)] chain_num [OF T(2)] chain_below [OF T(1)] chain_below [OF T(2)] by blast+
  then show ?thesis using setting_okD(5) [OF S, of p q] by simp
qed

section \<open>One visit\<close>

text \<open>What the predecessors of a node agree on; a visit makes their nearest common dominator the immediate one.\<close>

definition agreed :: "dom_setting \<Rightarrow> dom_map \<Rightarrow> nat \<Rightarrow> nat set" where
  "agreed S m c = (\<Inter>q \<in> {q. (q, c) \<in> ds_edges S}. above m q)"

definition all_dominators :: "dom_setting \<Rightarrow> dom_map \<Rightarrow> bool" where
  "all_dominators S m \<longleftrightarrow> (\<forall>b. dominators S b \<subseteq> above m b)"

lemma dominators_agreed:
  assumes "all_dominators S m"
  shows "dominators S c \<subseteq> insert c (agreed S m c)"
proof
  fix t
  assume t: "t \<in> dominators S c"
  have "t \<in> above m q" if "t \<noteq> c" "(q, c) \<in> ds_edges S" for q
  proof -
    have "t \<in> dominators S q" using t that by (auto simp: dominators_def intro: avoids.step)
    then show ?thesis using assms by (auto simp: all_dominators_def)
  qed
  then show "t \<in> insert c (agreed S m c)" by (auto simp: agreed_def)
qed

lemma above_mono:
  assumes T: "tree_ok S m" and c: "above (m(c \<mapsto> p)) c \<subseteq> above m c"
  shows "above (m(c \<mapsto> p)) b \<subseteq> above m b"
proof -
  have "chain (m(c \<mapsto> p)) b t \<Longrightarrow> t \<in> above m b" for b t
  proof (induction rule: chain.induct)
    case (here b q)
    show ?case by (rule above_self)
  next
    case (up b q t)
    show ?case
    proof (cases "b = c")
      case True
      have "chain (m(c \<mapsto> p)) b t" by (rule chain.up [OF up.hyps])
      then have "t \<in> above (m(c \<mapsto> p)) c" unfolding True above_def by blast
      then show ?thesis using c True by blast
    next
      case False
      then have q: "m b = Some q" using up.hyps(1) by simp
      have "chain m q t" using up.IH tree_okD(3) [OF T q] unfolding above_def by blast
      then have "chain m b t" by (rule chain.up [rotated]) (rule q)
      then show ?thesis unfolding above_def by blast
    qed
  qed
  then show ?thesis by (auto simp: above_def)
qed

lemma chain_update_out:
  assumes "tree_ok S m"
  shows "chain (m(c \<mapsto> p)) b t \<Longrightarrow> ds_num S b < ds_num S c \<Longrightarrow> chain m b t"
proof (induction rule: chain.induct)
  case (up b q t)
  then have q: "m b = Some q" by (auto split: if_splits)
  then have "ds_num S q \<le> ds_num S b" using tree_okD(1,5) [OF assms] by (metis less_or_eq_imp_le option.inject)
  then show ?case using up q by (auto intro: chain.up)
qed (auto intro: chain.here split: if_splits)

lemma chain_update_in:
  assumes "tree_ok S m"
  shows "chain m b t \<Longrightarrow> ds_num S b < ds_num S c \<Longrightarrow> chain (m(c \<mapsto> p)) b t"
proof (induction rule: chain.induct)
  case (up b q t)
  then have "ds_num S q \<le> ds_num S b" using tree_okD(1,5) [OF assms] by (metis less_or_eq_imp_le option.inject)
  then have "ds_num S q < ds_num S c" using up.prems by simp
  then have "chain (m(c \<mapsto> p)) q t" by (rule up.IH)
  moreover have "(m(c \<mapsto> p)) b = Some q" using up by auto
  ultimately show ?case by (rule chain.up [rotated])
next
  case (here b q)
  then have "(m(c \<mapsto> p)) b = Some q" by auto
  then show ?case by (rule chain.here)
qed

lemma above_update_below: "tree_ok S m \<Longrightarrow> ds_num S b < ds_num S c \<Longrightarrow> above (m(c \<mapsto> p)) b = above m b"
  using chain_update_out [of S m c p b] chain_update_in [of S m b _ c p] by (auto simp: above_def)

lemma above_update_here: "tree_ok S (m(c \<mapsto> p)) \<Longrightarrow> tree_ok S m \<Longrightarrow> ds_num S p < ds_num S c \<Longrightarrow>
  above (m(c \<mapsto> p)) c = insert c (above m p)"
  using above_insert [of "m(c \<mapsto> p)" c p S] above_update_below [of S m p c p] by simp

lemma tree_ok_update:
  assumes S: "setting_ok S" and T: "tree_ok S m" and c: "c \<in> ds_nodes S" "c \<noteq> 0"
    and known: "\<forall>u\<in>ds_nodes S. ds_num S u < ds_num S c \<longrightarrow> m u \<noteq> None"
    and p: "m p \<noteq> None" "above m p = agreed S m c"
  shows "tree_ok S (m(c \<mapsto> p))"
proof -
  obtain q where q: "(q, c) \<in> ds_edges S" "ds_num S q < ds_num S c" using setting_okD(4) [OF S c] by blast
  then have "m q \<noteq> None" using known setting_okD(3) [OF S q(1)] by blast
  moreover have "p \<in> above m q" using p(2) above_self [of p m] q(1) by (auto simp: agreed_def)
  ultimately have "chain m q p" by (auto simp: above_def)
  then have "(p, q) \<in> (increasing S)\<^sup>*" using chain_below [OF T] by blast
  then have inc: "(p, c) \<in> (increasing S)\<^sup>+" using q by (auto simp: increasing_def intro: rtrancl_into_trancl1)
  show ?thesis
    unfolding tree_ok_def using T c p(1) inc by (auto simp: tree_ok_def)
qed

text \<open>The dominators survive a visit: those below the node keep their place on the chain, and those above it dominate
  the node itself, because an increasing path leads on from there.\<close>

lemma all_dominators_update:
  assumes S: "setting_ok S" and T: "tree_ok S m" and T': "tree_ok S (m(c \<mapsto> p))" and D: "all_dominators S m"
    and p: "above m p = agreed S m c" "ds_num S p < ds_num S c"
  shows "all_dominators S (m(c \<mapsto> p))"
proof -
  let ?m = "m(c \<mapsto> p)"
  have "t \<in> above ?m b" if "t \<in> dominators S b" for b t
    using that
  proof (induction "ds_num S b" arbitrary: b rule: less_induct)
    case less
    consider "b = c" | "?m b = None" | q where "b \<noteq> c" "?m b = Some q" by fastforce
    then show ?case
    proof cases
      case 1
      then show ?thesis
        using dominators_agreed [OF D, of c] less.prems above_update_here [OF T' T p(2)] p(1) by auto
    next
      case 2
      then show ?thesis by (simp add: above_def)
    next
      case 3
      then have q: "m b = Some q" by simp
      have in_b: "t \<in> insert b (above m q)"
        using D less.prems above_insert [OF q T] by (auto simp: all_dominators_def)
      show ?thesis
      proof (cases "t = b \<or> b = 0")
        case True
        then show ?thesis using above_self in_b q tree_okD(1) [OF T] above_root [OF T] by auto
      next
        case False
        have inc: "(q, b) \<in> (increasing S)\<^sup>+" using tree_okD(4) [OF T q] False by blast
        have "chain m q t" using in_b False tree_okD(3) [OF T q] by (auto simp: above_def)
        then have "ds_num S t \<le> ds_num S q" by (rule chain_num [OF T])
        then have "t \<in> dominators S q"
          using less.prems avoids_increasing [OF trancl_into_rtrancl [OF inc]] by (auto simp: dominators_def)
        then have "t \<in> above ?m q" by (rule less.hyps [OF increasing_trancl_num [OF inc]])
        then show ?thesis using above_insert [OF 3(2) T'] by blast
      qed
    qed
  qed
  then show ?thesis by (auto simp: all_dominators_def)
qed

section \<open>One pass\<close>

text \<open>No node has more above it than its predecessors agree on; a pass starts from such a map.\<close>

definition refinable :: "dom_setting \<Rightarrow> dom_map \<Rightarrow> nat \<Rightarrow> bool" where
  "refinable S m v \<longleftrightarrow> insert v (agreed S m v) \<subseteq> above m v"

definition pass_inv :: "dom_setting \<Rightarrow> dom_map \<Rightarrow> nat set \<Rightarrow> dom_map \<Rightarrow> bool" where
  "pass_inv S m0 visited m \<longleftrightarrow> tree_ok S m \<and> all_dominators S m \<and> (\<forall>b. above m b \<subseteq> above m0 b) \<and>
     (\<forall>v\<in>visited. v \<noteq> 0 \<longrightarrow> m v \<noteq> None \<and> refinable S m v \<and>
        (\<forall>u. (u, v) \<in> increasing S \<longrightarrow> above m v \<subseteq> insert v (above m u)) \<and>
        (m = m0 \<longrightarrow> above m v \<subseteq> insert v (agreed S m v))) \<and>
     (\<forall>v. v \<notin> visited \<longrightarrow> m v = m0 v)"

lemma pass_invD:
  assumes "pass_inv S m0 visited m"
  shows "tree_ok S m" "all_dominators S m" "above m b \<subseteq> above m0 b"
    "v \<in> visited \<Longrightarrow> v \<noteq> 0 \<Longrightarrow> m v \<noteq> None" "v \<in> visited \<Longrightarrow> v \<noteq> 0 \<Longrightarrow> refinable S m v"
    "v \<in> visited \<Longrightarrow> v \<noteq> 0 \<Longrightarrow> (u, v) \<in> increasing S \<Longrightarrow> above m v \<subseteq> insert v (above m u)"
    "v \<in> visited \<Longrightarrow> v \<noteq> 0 \<Longrightarrow> m = m0 \<Longrightarrow> above m v \<subseteq> insert v (agreed S m v)" "v \<notin> visited \<Longrightarrow> m v = m0 v"
  using assms unfolding pass_inv_def by blast+

text \<open>A visit only takes from what is above the node.\<close>

lemma visit_shrinks:
  assumes S: "setting_ok S" and T0: "tree_ok S m0" and J0: "refinable S m0 c" and inv: "pass_inv S m0 visited m"
    and c: "c \<in> ds_nodes S" "c \<noteq> 0" "c \<notin> visited"
    and earlier: "\<forall>u\<in>ds_nodes S. ds_num S u < ds_num S c \<longrightarrow> u = 0 \<or> u \<in> visited"
  shows "insert c (agreed S m c) \<subseteq> above m c"
proof (cases "m c")
  case None
  then show ?thesis by (simp add: above_def)
next
  case (Some p0)
  note P = pass_invD [OF inv]
  have same: "m0 c = Some p0" using P(8) [OF c(3)] Some by simp
  have inc: "(p0, c) \<in> (increasing S)\<^sup>+" by (rule tree_okD(4) [OF P(1) Some c(2)])
  have down: "t \<in> above m p0" if "(p0, y) \<in> (increasing S)\<^sup>*" "ds_num S y < ds_num S c" "t \<in> above m y" "ds_num S t \<le> ds_num S p0" for y t
    using that
  proof (induction rule: rtrancl_induct)
    case (step y z)
    have yz: "ds_num S y < ds_num S z" "z \<in> ds_nodes S" "y \<in> ds_nodes S" using step.hyps(2) setting_okD(3) [OF S] by (auto simp: increasing_def)
    have "z \<noteq> 0" by (rule increasing_target [OF S step.hyps(2)])
    then have "above m z \<subseteq> insert z (above m y)" using P(6) earlier step.prems(1) step.hyps(2) yz by blast
    moreover have "t \<noteq> z" using step.prems(3) yz increasing_rtrancl_num [OF step.hyps(1)] by auto
    ultimately show ?case using step yz by auto
  qed
  have "t \<in> above m p0" if t: "t \<in> agreed S m c" "t \<noteq> c" for t
  proof -
    have "t \<in> agreed S m0 c" using t(1) P(3) by (auto simp: agreed_def)
    then have "t \<in> above m0 c" using J0 by (auto simp: refinable_def)
    then have "t \<in> above m0 p0" using above_insert [OF same T0] t(2) by simp
    then have "chain m0 p0 t" using tree_okD(3) [OF T0 same] by (auto simp: above_def)
    then have n: "ds_num S t \<le> ds_num S p0" by (rule chain_num [OF T0])
    obtain y where y: "(p0, y) \<in> (increasing S)\<^sup>*" "(y, c) \<in> increasing S" using inc by (auto elim: tranclE intro: trancl_into_rtrancl)
    have "t \<in> above m y" "ds_num S y < ds_num S c" using t(1) y(2) by (auto simp: agreed_def increasing_def)
    then show ?thesis using down [OF y(1) _ _ n] by blast
  qed
  then show ?thesis using above_insert [OF Some P(1)] by blast
qed

lemma visit_inv:
  assumes S: "setting_ok S" and T0: "tree_ok S m0" and J0: "refinable S m0 c" and inv: "pass_inv S m0 visited m"
    and c: "c \<in> ds_nodes S" "c \<noteq> 0" "c \<notin> visited"
    and earlier: "\<forall>u\<in>ds_nodes S. ds_num S u < ds_num S c \<longrightarrow> u = 0 \<or> u \<in> visited"
    and later: "\<forall>u\<in>visited. u = 0 \<or> ds_num S u < ds_num S c"
    and p: "m p \<noteq> None" "above m p = agreed S m c"
  shows "pass_inv S m0 (insert c visited) (m(c \<mapsto> p))"
proof -
  let ?m = "m(c \<mapsto> p)"
  note P = pass_invD [OF inv]
  have root: "m 0 \<noteq> None" using tree_okD(1) [OF P(1)] by simp
  have "m u \<noteq> None" if "u = 0 \<or> u \<in> visited" for u
    using that root P(4) [of u] by (cases "u = 0") auto
  then have known: "\<forall>u\<in>ds_nodes S. ds_num S u < ds_num S c \<longrightarrow> m u \<noteq> None" using earlier by blast
  have T': "tree_ok S ?m" by (rule tree_ok_update [OF S P(1) c(1,2) known p])
  have less: "ds_num S p < ds_num S c" using tree_okD(5) [OF T', of c p] c(2) by simp
  have here: "above ?m c = insert c (agreed S m c)" using above_update_here [OF T' P(1) less] p(2) by simp
  have shrink: "above ?m b \<subseteq> above m b" for b
    by (rule above_mono [OF P(1)]) (use here visit_shrinks [OF S T0 J0 inv c earlier] in simp)
  have below: "above ?m v = above m v" if "ds_num S v < ds_num S c" for v by (rule above_update_below [OF P(1) that])
  have agree: "agreed S ?m v \<subseteq> agreed S m v" for v using shrink by (auto simp: agreed_def)
  have old: "above ?m v = above m v" if "v \<in> visited" "v \<noteq> 0" for v
  proof -
    have "ds_num S v < ds_num S c" using bspec [OF later that(1)] that(2) by simp
    then show ?thesis by (rule below)
  qed
  have same: "m = m0 \<and> ?m = m" if "?m = m0"
  proof -
    have "m c = Some p" using P(8) [OF c(3)] fun_cong [OF that, of c] by simp
    then show ?thesis using that by auto
  qed
  have vis: "?m v \<noteq> None \<and> refinable S ?m v \<and> (\<forall>u. (u, v) \<in> increasing S \<longrightarrow> above ?m v \<subseteq> insert v (above ?m u)) \<and>
      (?m = m0 \<longrightarrow> above ?m v \<subseteq> insert v (agreed S ?m v))" if v: "v \<in> insert c visited" "v \<noteq> 0" for v
  proof (cases "v = c")
    case True
    have "above ?m c \<subseteq> insert c (above ?m u)" if "(u, c) \<in> increasing S" for u
      using that here below [of u] by (auto simp: increasing_def agreed_def)
    moreover have "?m = m0 \<longrightarrow> above ?m c \<subseteq> insert c (agreed S ?m c)" using same here by auto
    ultimately show ?thesis using True here agree [of c] by (auto simp: refinable_def)
  next
    case False
    then have vv: "v \<in> visited" using v by blast
    have "above ?m v \<subseteq> insert v (above ?m u)" if u: "(u, v) \<in> increasing S" for u
    proof -
      have "ds_num S u < ds_num S c" using u later vv v(2) by (fastforce simp: increasing_def)
      then show ?thesis using P(6) [OF vv v(2) u] below old [OF vv v(2)] by simp
    qed
    moreover have "refinable S ?m v" using P(5) [OF vv v(2)] old [OF vv v(2)] agree [of v] by (auto simp: refinable_def)
    moreover have "?m = m0 \<longrightarrow> above ?m v \<subseteq> insert v (agreed S ?m v)" using same P(7) [OF vv v(2)] by simp
    ultimately show ?thesis using P(4) [OF vv v(2)] by simp
  qed
  have "above ?m b \<subseteq> above m0 b" for b by (rule subset_trans [OF shrink P(3)])
  moreover have "?m v = m0 v" if "v \<notin> insert c visited" for v using P(8) [of v] that by simp
  ultimately show ?thesis
    unfolding pass_inv_def using T' all_dominators_update [OF S P(1) T' P(2) p(2) less] vis by blast
qed

lemma pass_start: "tree_ok S m0 \<Longrightarrow> all_dominators S m0 \<Longrightarrow> pass_inv S m0 {} m0"
  by (simp add: pass_inv_def)

definition dom_start :: dom_map where
  "dom_start = (\<lambda>b. if b = 0 then Some 0 else None)"

lemma dom_start_ok:
  assumes "setting_ok S"
  shows "tree_ok S dom_start" "all_dominators S dom_start" "v \<noteq> 0 \<Longrightarrow> refinable S dom_start v"
proof -
  show T: "tree_ok S dom_start" using setting_okD(2) [OF assms] by (simp add: tree_ok_def dom_start_def)
  have "dominators S 0 \<subseteq> {0}" by (auto simp: dominators_def intro: avoids.start)
  then show "all_dominators S dom_start"
    using above_root [OF T] by (auto simp: all_dominators_def above_def dom_start_def)
qed (simp add: refinable_def above_def dom_start_def)

section \<open>The passes end with the dominators\<close>

text \<open>A pass that changes nothing leaves a map on which every node has above it exactly what dominates it.\<close>

lemma settled_dominators:
  assumes S: "setting_ok S" and T: "tree_ok S m" and D: "all_dominators S m"
    and fix_point: "\<forall>v\<in>ds_nodes S. v \<noteq> 0 \<longrightarrow> above m v \<subseteq> insert v (agreed S m v)"
  shows "above m b = dominators S b \<or> b \<notin> ds_nodes S"
proof -
  have "b \<in> ds_nodes S \<Longrightarrow> t \<notin> above m b" if "avoids S t b" for t b
    using that
  proof (induction rule: avoids.induct)
    case start
    then show ?case using above_root [OF T] by simp
  next
    case (step a b)
    have a: "a \<in> ds_nodes S" using setting_okD(3) [OF S step.hyps(2)] by blast
    show ?case
    proof (cases "b = 0")
      case True
      then show ?thesis using above_root [OF T] step.hyps(3) by auto
    next
      case False
      then have "above m b \<subseteq> insert b (above m a)" using fix_point step.prems step.hyps(2) by (auto simp: agreed_def)
      then show ?thesis using step.IH [OF a] step.hyps(3) by blast
    qed
  qed
  then show ?thesis using D by (auto simp: dominators_def all_dominators_def)
qed

definition dom_weight :: "dom_setting \<Rightarrow> dom_map \<Rightarrow> nat" where
  "dom_weight S m = (\<Sum>b\<in>ds_nodes S. if m b = None then Suc (card (ds_nodes S)) else card (above m b))"

lemma pass_less:
  assumes S: "setting_ok S" and T0: "tree_ok S m0" and inv: "pass_inv S m0 visited m" and ne: "m \<noteq> m0"
  shows "dom_weight S m < dom_weight S m0"
  unfolding dom_weight_def
proof (rule sum_strict_mono_ex1)
  note P = pass_invD [OF inv]
  have fin: "finite (ds_nodes S)" by (rule setting_okD(1) [OF S])
  have sub: "above m b \<subseteq> ds_nodes S" if "m b \<noteq> None" for b by (rule above_nodes [OF P(1) that])
  have sub0: "above m0 b \<subseteq> ds_nodes S" "finite (above m0 b)" if "m0 b \<noteq> None" for b
    using above_nodes [OF T0 that] fin finite_subset by blast+
  have none: "m0 b = None" if "m b = None" for b
  proof (rule ccontr)
    assume "m0 b \<noteq> None"
    then have "finite (above m b)" using sub0(2) P(3) finite_subset by blast
    moreover have "above m b = UNIV" using that by (simp add: above_def)
    ultimately show False by simp
  qed
  let ?w = "\<lambda>m b. if m b = None then Suc (card (ds_nodes S)) else card (above m b)"
  have le: "card (above m b) \<le> ?w m0 b" if "m b \<noteq> None" for b
    using card_mono [OF fin sub [OF that]] card_mono [OF sub0(2) P(3)] by (cases "m0 b") auto
  show "\<forall>b\<in>ds_nodes S. ?w m b \<le> ?w m0 b"
  proof
    fix b
    show "?w m b \<le> ?w m0 b" using le [of b] none [of b] by (cases "m b = None") auto
  qed
  obtain v where v: "m v \<noteq> m0 v" using ne by auto
  then have mv: "m v \<noteq> None" using none [of v] by metis
  then have "v \<in> ds_nodes S" using tree_okD(2) [OF P(1)] by auto
  moreover have "?w m v < ?w m0 v"
  proof (cases "m0 v")
    case None
    then show ?thesis using mv card_mono [OF fin sub [OF mv]] by auto
  next
    case (Some q)
    obtain p where p: "m v = Some p" using mv by auto
    have "above m v \<noteq> above m0 v" using above_determines [OF S P(1) T0 p Some] v p Some by auto
    then have "above m v \<subset> above m0 v" using P(3) by blast
    moreover have "finite (above m0 v)" by (rule sub0(2)) (simp add: Some)
    ultimately have "card (above m v) < card (above m0 v)" by (rule psubset_card_mono [rotated])
    then show ?thesis using p Some by simp
  qed
  ultimately show "\<exists>b\<in>ds_nodes S. ?w m b < ?w m0 b" by blast
qed (rule setting_okD(1) [OF S])

text \<open>The nearest common ancestor of two known nodes.\<close>

lemma above_common_climb:
  assumes T: "tree_ok S m" and a: "m a = Some p" and less: "ds_num S b < ds_num S a" and kb: "m b \<noteq> None"
  shows "above m a \<inter> above m b = above m p \<inter> above m b"
proof -
  have "a \<notin> above m b"
    using less chain_num [OF T, of b a] kb by (auto simp: above_def)
  then show ?thesis using above_insert [OF a T] by auto
qed

end
