(* ===== verification/Dominators.thy ===== *)
theory Dominators
  imports FunctionGraph DominatorSets
begin

text \<open>
  \<open>DominatorAnalysis::run\<close> and \<open>DominatorTree::dominates\<close> (\<open>lib/Analysis/FunctionGraph.cpp\<close>): the iteration that intersects
  the chains of the predecessors until nothing changes, the numbering of the tree, and the query.  \<open>SIZE_MAX\<close>, which
  marks a node without immediate dominator, is \<open>None\<close>; a loop that does not end or reads such an entry as an index has
  no result.
\<close>

section \<open>Intersection\<close>

partial_function (option) climb :: "nat list \<Rightarrow> nat option list \<Rightarrow> nat \<Rightarrow> nat \<Rightarrow> nat option" where
  "climb rpost imm bound x =
    (if rpost ! bound < rpost ! x then (case imm ! x of None \<Rightarrow> None | Some p \<Rightarrow> climb rpost imm bound p) else Some x)"

partial_function (option) intersect :: "nat list \<Rightarrow> nat option list \<Rightarrow> nat \<Rightarrow> nat \<Rightarrow> nat option" where
  "intersect rpost imm a b =
    (if a = b then Some a
     else Option.bind (climb rpost imm b a) (\<lambda>a. Option.bind (climb rpost imm a b) (\<lambda>b. intersect rpost imm a b)))"

fun common_parent :: "nat list \<Rightarrow> nat option list \<Rightarrow> nat list \<Rightarrow> nat option \<Rightarrow> nat option option" where
  "common_parent rpost imm [] parent = Some parent"
| "common_parent rpost imm (pred # preds) parent =
    (if imm ! pred = None then common_parent rpost imm preds parent
     else (case parent of
         None \<Rightarrow> common_parent rpost imm preds (Some pred)
       | Some a \<Rightarrow> Option.bind (intersect rpost imm a pred) (\<lambda>a. common_parent rpost imm preds (Some a))))"

section \<open>The iteration\<close>

definition dom_visit :: "flow_graph \<Rightarrow> nat list \<Rightarrow> nat \<Rightarrow> nat option list \<times> bool \<Rightarrow> (nat option list \<times> bool) option" where
  "dom_visit g rpost b = (\<lambda>(imm, changed).
    if b \<noteq> 0 \<and> rpost ! b \<noteq> 0
    then Option.bind (common_parent rpost imm (map (\<lambda>eid. ed_source (fg_edges g ! eid)) (fg_incoming g ! b)) None) (\<lambda>parent.
           if imm ! b \<noteq> parent then Some (imm[b := parent], True) else Some (imm, changed))
    else Some (imm, changed))"

fun dom_pass :: "flow_graph \<Rightarrow> nat list \<Rightarrow> nat list \<Rightarrow> nat option list \<times> bool \<Rightarrow> (nat option list \<times> bool) option" where
  "dom_pass g rpost [] s = Some s"
| "dom_pass g rpost (b # bs) s = Option.bind (dom_visit g rpost b s) (dom_pass g rpost bs)"

partial_function (option) dom_iterate ::
  "flow_graph \<Rightarrow> nat list \<Rightarrow> nat list \<Rightarrow> nat option list \<Rightarrow> nat \<Rightarrow> (nat option list \<times> nat) option" where
  "dom_iterate g rpost order imm iterations =
    Option.bind (dom_pass g rpost order (imm, False)) (\<lambda>(imm, changed).
      if changed then dom_iterate g rpost order imm (iterations + 1) else Some (imm, iterations + 1))"

lemmas dominator_loops [code] = climb.simps intersect.simps dom_iterate.simps

section \<open>The numbering of the tree\<close>

definition dom_children :: "nat option list \<Rightarrow> nat \<Rightarrow> nat list list" where
  "dom_children imm count =
    fold (\<lambda>b children. case imm ! b of None \<Rightarrow> children | Some p \<Rightarrow> children[p := children ! p @ [b]]) [1..<count] (replicate count [])"

record intervals =
  iv_stack :: "(nat \<times> nat) list"
  iv_begin :: "nat list"
  iv_end :: "nat list"
  iv_time :: nat

definition interval_step :: "nat list list \<Rightarrow> intervals \<Rightarrow> intervals" where
  "interval_step children s = (case iv_stack s of
     [] \<Rightarrow> s
   | (b, k) # rest \<Rightarrow>
       if k = length (children ! b) then s\<lparr>iv_stack := rest, iv_end := (iv_end s)[b := iv_time s], iv_time := iv_time s + 1\<rparr>
       else let child = children ! b ! k
            in s\<lparr>iv_stack := (child, 0) # (b, k + 1) # rest, iv_begin := (iv_begin s)[child := iv_time s], iv_time := iv_time s + 1\<rparr>)"

definition interval_start :: "nat \<Rightarrow> intervals" where
  "interval_start count = \<lparr>iv_stack = [(0, 0)], iv_begin = (replicate count 0)[0 := 1], iv_end = replicate count 0, iv_time = 2\<rparr>"

definition number_tree :: "nat list list \<Rightarrow> nat \<Rightarrow> intervals option" where
  "number_tree children count = while_option (\<lambda>s. iv_stack s \<noteq> []) (interval_step children) (interval_start count)"

section \<open>The analysis\<close>

record dominator_tree =
  dt_immediate :: "nat option list"
  dt_begin :: "nat list"
  dt_end :: "nat list"
  dt_iterations :: nat

definition dominates :: "dominator_tree \<Rightarrow> nat \<Rightarrow> nat \<Rightarrow> bool" where
  "dominates t ancestor block =
    (if length (dt_immediate t) \<le> ancestor \<or> length (dt_immediate t) \<le> block then False
     else if dt_immediate t ! block = None then True
     else dt_immediate t ! ancestor \<noteq> None \<and> dt_begin t ! ancestor \<le> dt_begin t ! block \<and> dt_end t ! block \<le> dt_end t ! ancestor)"

definition graph_dominators :: "function_graph \<Rightarrow> dominator_tree option" where
  "graph_dominators fg =
    (let count = length (fn_nodes fg)
     in Option.bind (dom_iterate (fn_flow fg) (fn_rpost fg) (fn_order fg) ((replicate count None)[0 := Some 0]) 0) (\<lambda>(imm, iterations).
        Option.bind (number_tree (dom_children imm count) count) (\<lambda>s.
          Some \<lparr>dt_immediate = imm, dt_begin = iv_begin s, dt_end = iv_end s, dt_iterations = iterations\<rparr>)))"

definition dominator_analysis :: "(ir_function \<Rightarrow> unit result) \<Rightarrow> nat \<Rightarrow> ir_function \<Rightarrow> dominator_tree result option" where
  "dominator_analysis verify owner f =
    (if owner \<noteq> if_id f then Some (owner_error f)
     else case function_graph_analysis verify owner f of
       None \<Rightarrow> None
     | Some (Inl e) \<Rightarrow> Some (Inl e)
     | Some (Inr fg) \<Rightarrow> map_option Inr (graph_dominators fg))"

section \<open>The setting of a numbered graph\<close>

definition graph_setting :: "nat \<Rightarrow> flow_graph \<Rightarrow> nat list \<Rightarrow> dom_setting" where
  "graph_setting n g rpost = \<lparr>ds_nodes = {b. b < n \<and> rpost ! b \<noteq> 0},
     ds_edges = {(a, b). a < n \<and> rpost ! a \<noteq> 0 \<and> b \<in> set (targets_of g a)}, ds_num = (!) rpost\<rparr>"

lemma graph_setting_simps [simp]:
  "ds_num (graph_setting n g rpost) = (!) rpost"
  "b \<in> ds_nodes (graph_setting n g rpost) \<longleftrightarrow> b < n \<and> rpost ! b \<noteq> 0"
  "(a, b) \<in> ds_edges (graph_setting n g rpost) \<longleftrightarrow> a < n \<and> rpost ! a \<noteq> 0 \<and> b \<in> set (targets_of g a)"
  by (simp_all add: graph_setting_def)

lemma numbering_okD:
  assumes "numbering_ok n g rpost"
  shows "0 < n" "graph_ok n g" "length rpost = n" "{b. b < n \<and> rpost ! b \<noteq> 0} = (succ_edges (targets_of g))\<^sup>* `` {0}"
    "inj_on ((!) rpost) {b. b < n \<and> rpost ! b \<noteq> 0}"
    "b < n \<Longrightarrow> rpost ! b \<noteq> 0 \<Longrightarrow> b \<noteq> 0 \<Longrightarrow>
      \<exists>e\<in>set (fg_edges g). ed_destination e = b \<and> rpost ! ed_source e \<noteq> 0 \<and> rpost ! ed_source e < rpost ! b"
  using assms unfolding numbering_ok_def by blast+

lemma reached_step:
  assumes N: "numbering_ok n g rpost" and a: "a < n" "rpost ! a \<noteq> 0" "b \<in> set (targets_of g a)"
  shows "b < n \<and> rpost ! b \<noteq> 0"
proof -
  have "(0, a) \<in> (succ_edges (targets_of g))\<^sup>*" using numbering_okD(4) [OF N] a(1,2) by blast
  then have "(0, b) \<in> (succ_edges (targets_of g))\<^sup>*" using a(3) by (auto simp: succ_edges_def intro: rtrancl_into_rtrancl)
  then show ?thesis using numbering_okD(4) [OF N] by blast
qed

lemma graph_setting_ok:
  assumes N: "numbering_ok n g rpost"
  shows "setting_ok (graph_setting n g rpost)"
proof -
  have "0 < n \<and> rpost ! 0 \<noteq> 0" using numbering_okD(1,4) [OF N] by blast
  moreover have parent: "\<exists>a. (a, b) \<in> ds_edges (graph_setting n g rpost) \<and> rpost ! a < rpost ! b" if b: "b < n" "rpost ! b \<noteq> 0" "b \<noteq> 0" for b
  proof -
    obtain e where e: "e \<in> set (fg_edges g)" "ed_destination e = b" "rpost ! ed_source e \<noteq> 0" "rpost ! ed_source e < rpost ! b"
      using numbering_okD(6) [OF N b] by blast
    have "ed_source e < n" using graph_okD(3) [OF numbering_okD(2) [OF N]] e(1) by (metis in_set_conv_nth)
    moreover from this have "b \<in> set (targets_of g (ed_source e))"
      using targets_edges [OF numbering_okD(2) [OF N]] e(1,2) by blast
    ultimately show ?thesis using e(3,4) by (intro exI [of _ "ed_source e"]) simp
  qed
  moreover have "ds_edges (graph_setting n g rpost) \<subseteq> ds_nodes (graph_setting n g rpost) \<times> ds_nodes (graph_setting n g rpost)"
    using reached_step [OF N] by (simp add: graph_setting_def subset_iff) blast
  moreover have "inj_on ((!) rpost) (ds_nodes (graph_setting n g rpost))" "finite (ds_nodes (graph_setting n g rpost))"
    using numbering_okD(5) [OF N] by (simp_all add: graph_setting_def)
  moreover have "\<forall>b\<in>ds_nodes (graph_setting n g rpost). b \<noteq> 0 \<longrightarrow>
      (\<exists>a. (a, b) \<in> ds_edges (graph_setting n g rpost) \<and> rpost ! a < rpost ! b)"
    using parent unfolding graph_setting_simps(2) Ball_def by blast
  ultimately show ?thesis
    unfolding setting_ok_def graph_setting_simps(1,2) by (elim conjE) (intro conjI)
qed

section \<open>Intersection is the nearest common dominator\<close>

definition dom_fun :: "nat option list \<Rightarrow> dom_map" where
  "dom_fun imm b = (if b < length imm then imm ! b else None)"

lemma dom_fun_nth: "dom_fun imm b = Some p \<Longrightarrow> imm ! b = Some p"
  by (simp add: dom_fun_def split: if_splits)

lemma climb_spec:
  assumes S: "setting_ok S" "ds_num S = (!) rpost" and T: "tree_ok S (dom_fun imm)" and k: "dom_fun imm bound \<noteq> None"
  shows "dom_fun imm x \<noteq> None \<Longrightarrow> \<exists>y. climb rpost imm bound x = Some y \<and> dom_fun imm y \<noteq> None \<and> rpost ! y \<le> rpost ! bound \<and>
    rpost ! y \<le> rpost ! x \<and> above (dom_fun imm) x \<inter> above (dom_fun imm) bound = above (dom_fun imm) y \<inter> above (dom_fun imm) bound"
proof (induction "rpost ! x" arbitrary: x rule: less_induct)
  case less
  show ?case
  proof (cases "rpost ! bound < rpost ! x")
    case True
    obtain p where p: "dom_fun imm x = Some p" using less.prems by auto
    obtain q where q: "dom_fun imm bound = Some q" using k by auto
    have "x \<noteq> 0"
    proof
      assume "x = 0"
      then have "rpost ! bound < rpost ! 0" using True by simp
      then show False using entry_first [OF S(1) tree_okD(2) [OF T q]] S(2) by (cases "bound = 0") auto
    qed
    then have "rpost ! p < rpost ! x" using tree_okD(5) [OF T p] S(2) by simp
    from less.hyps [OF this tree_okD(3) [OF T p]] obtain y where
      y: "climb rpost imm bound p = Some y" "dom_fun imm y \<noteq> None" "rpost ! y \<le> rpost ! bound" "rpost ! y \<le> rpost ! p"
        "above (dom_fun imm) p \<inter> above (dom_fun imm) bound = above (dom_fun imm) y \<inter> above (dom_fun imm) bound"
      by blast
    have "climb rpost imm bound x = Some y" using y(1) True dom_fun_nth [OF p] by (subst climb.simps) simp
    moreover have "above (dom_fun imm) x \<inter> above (dom_fun imm) bound = above (dom_fun imm) p \<inter> above (dom_fun imm) bound"
      using above_common_climb [OF T p _ k] True S(2) by simp
    ultimately show ?thesis using y \<open>rpost ! p < rpost ! x\<close> by auto
  next
    case False
    then show ?thesis using less.prems by (subst climb.simps) auto
  qed
qed

lemma intersect_spec:
  assumes S: "setting_ok S" "ds_num S = (!) rpost" and T: "tree_ok S (dom_fun imm)"
  shows "dom_fun imm a \<noteq> None \<Longrightarrow> dom_fun imm b \<noteq> None \<Longrightarrow>
    \<exists>r. intersect rpost imm a b = Some r \<and> dom_fun imm r \<noteq> None \<and> above (dom_fun imm) r = above (dom_fun imm) a \<inter> above (dom_fun imm) b"
proof (induction "rpost ! a + rpost ! b" arbitrary: a b rule: less_induct)
  case less
  show ?case
  proof (cases "a = b")
    case True
    then show ?thesis using less.prems by (subst intersect.simps) simp
  next
    case False
    have nodes: "a \<in> ds_nodes S" "b \<in> ds_nodes S" using less.prems tree_okD(2) [OF T] by auto
    then have ne: "rpost ! a \<noteq> rpost ! b" using setting_okD(5) [OF S(1) nodes] False S(2) by auto
    obtain x where x: "climb rpost imm b a = Some x" "dom_fun imm x \<noteq> None" "rpost ! x \<le> rpost ! b" "rpost ! x \<le> rpost ! a"
      "above (dom_fun imm) a \<inter> above (dom_fun imm) b = above (dom_fun imm) x \<inter> above (dom_fun imm) b"
      using climb_spec [OF S T less.prems(2,1)] by blast
    obtain y where y: "climb rpost imm x b = Some y" "dom_fun imm y \<noteq> None" "rpost ! y \<le> rpost ! x" "rpost ! y \<le> rpost ! b"
      "above (dom_fun imm) b \<inter> above (dom_fun imm) x = above (dom_fun imm) y \<inter> above (dom_fun imm) x"
      using climb_spec [OF S T x(2) less.prems(2)] by blast
    have "rpost ! x + rpost ! y < rpost ! a + rpost ! b" using x(3,4) y(3,4) ne by linarith
    from less.hyps [OF this x(2) y(2)] obtain r where
      "intersect rpost imm x y = Some r" "dom_fun imm r \<noteq> None" "above (dom_fun imm) r = above (dom_fun imm) x \<inter> above (dom_fun imm) y"
      by blast
    moreover have "intersect rpost imm a b = intersect rpost imm x y" using False x(1) y(1) by (subst intersect.simps) simp
    ultimately show ?thesis using x(5) y(5) by auto
  qed
qed

definition parent_set :: "nat option list \<Rightarrow> nat option \<Rightarrow> nat set" where
  "parent_set imm parent = (case parent of None \<Rightarrow> UNIV | Some a \<Rightarrow> above (dom_fun imm) a)"

lemma common_parent_spec:
  assumes S: "setting_ok S" "ds_num S = (!) rpost" and T: "tree_ok S (dom_fun imm)"
  shows "\<forall>q\<in>set preds. q < length imm \<Longrightarrow> \<forall>a. parent = Some a \<longrightarrow> dom_fun imm a \<noteq> None \<Longrightarrow>
    \<exists>r. common_parent rpost imm preds parent = Some r \<and> (\<forall>a. r = Some a \<longrightarrow> dom_fun imm a \<noteq> None) \<and>
      parent_set imm r = parent_set imm parent \<inter> (\<Inter>q\<in>set preds. above (dom_fun imm) q) \<and>
      (r = None \<longrightarrow> (\<forall>q\<in>set preds. dom_fun imm q = None))"
proof (induction preds arbitrary: parent)
  case (Cons q preds)
  have q: "dom_fun imm q = imm ! q" using Cons.prems(1) by (simp add: dom_fun_def)
  have rest: "\<forall>q\<in>set preds. q < length imm" using Cons.prems(1) by simp
  show ?case
  proof (cases "imm ! q")
    case None
    then have "above (dom_fun imm) q = UNIV" using q by (simp add: above_def)
    then show ?thesis using Cons.IH [OF rest Cons.prems(2)] None q by simp
  next
    case (Some p)
    then have kq: "dom_fun imm q \<noteq> None" using q by simp
    have "\<exists>a. common_parent rpost imm (q # preds) parent = common_parent rpost imm preds (Some a) \<and> dom_fun imm a \<noteq> None \<and>
        above (dom_fun imm) a = parent_set imm parent \<inter> above (dom_fun imm) q"
    proof (cases parent)
      case None
      then show ?thesis using Some kq by (intro exI [of _ q]) (simp add: parent_set_def)
    next
      case (Some a)
      then obtain r where "intersect rpost imm a q = Some r" "dom_fun imm r \<noteq> None" "above (dom_fun imm) r = above (dom_fun imm) a \<inter> above (dom_fun imm) q"
        using intersect_spec [OF S T _ kq] Cons.prems(2) by blast
      then show ?thesis using Some kq q by (intro exI [of _ r]) (auto simp: parent_set_def)
    qed
    then obtain a where a: "common_parent rpost imm (q # preds) parent = common_parent rpost imm preds (Some a)" "dom_fun imm a \<noteq> None"
      "above (dom_fun imm) a = parent_set imm parent \<inter> above (dom_fun imm) q" by blast
    then obtain r where r: "common_parent rpost imm preds (Some a) = Some r" "\<forall>a. r = Some a \<longrightarrow> dom_fun imm a \<noteq> None"
      "parent_set imm r = parent_set imm (Some a) \<inter> (\<Inter>q\<in>set preds. above (dom_fun imm) q)"
      using Cons.IH [OF rest, of "Some a"] by auto
    have "parent_set imm r \<noteq> UNIV"
    proof -
      have "parent_set imm r \<subseteq> above (dom_fun imm) a" using r(3) by (simp add: parent_set_def)
      also have "\<dots> \<subseteq> ds_nodes S" by (rule above_nodes [OF T a(2)])
      finally show ?thesis using setting_okD(1) [OF S(1)] finite_subset infinite_UNIV_nat by metis
    qed
    then have "r \<noteq> None" by (auto simp: parent_set_def)
    then show ?thesis using a r by (auto simp: parent_set_def)
  qed
qed (simp add: parent_set_def)

section \<open>A pass visits every reached node\<close>

lemma dom_fun_update: "c < length imm \<Longrightarrow> dom_fun (imm[c := Some p]) = (dom_fun imm)(c \<mapsto> p)"
  by (auto simp: dom_fun_def nth_list_update)

lemma agreed_preds:
  assumes g: "graph_ok n g" and T: "tree_ok (graph_setting n g rpost) m" and b: "b < n"
  shows "(\<Inter>q\<in>set (map (\<lambda>eid. ed_source (fg_edges g ! eid)) (fg_incoming g ! b)). above m q) = agreed (graph_setting n g rpost) m b"
proof -
  have "above m q = UNIV" if "rpost ! q = 0" for q
    using tree_okD(2) [OF T, of q] that by (cases "m q") (auto simp: above_def)
  then show ?thesis
    unfolding incoming_preds [OF g b] agreed_def by auto
qed

lemma dom_visit_spec:
  assumes N: "numbering_ok n g rpost" and len: "length imm = n" and T: "tree_ok (graph_setting n g rpost) (dom_fun imm)"
    and c: "c < n" "c \<noteq> 0" "rpost ! c \<noteq> 0"
    and known: "\<And>u. u < n \<Longrightarrow> rpost ! u \<noteq> 0 \<Longrightarrow> rpost ! u < rpost ! c \<Longrightarrow> dom_fun imm u \<noteq> None"
  shows "\<exists>p. dom_visit g rpost c (imm, changed) = Some (imm[c := Some p], changed \<or> imm ! c \<noteq> Some p) \<and>
    dom_fun imm p \<noteq> None \<and> above (dom_fun imm) p = agreed (graph_setting n g rpost) (dom_fun imm) c"
proof -
  let ?S = "graph_setting n g rpost" and ?preds = "map (\<lambda>eid. ed_source (fg_edges g ! eid)) (fg_incoming g ! c)"
  have S: "setting_ok ?S" "ds_num ?S = (!) rpost" by (simp_all add: graph_setting_ok [OF N])
  have g: "graph_ok n g" by (rule numbering_okD(2) [OF N])
  have preds: "set ?preds = {a. a < n \<and> c \<in> set (targets_of g a)}" by (rule incoming_preds [OF g c(1)])
  then have "\<forall>q\<in>set ?preds. q < length imm" using len by auto
  from common_parent_spec [OF S T this, of None] obtain r where
    r: "common_parent rpost imm ?preds None = Some r" "\<forall>a. r = Some a \<longrightarrow> dom_fun imm a \<noteq> None"
      "parent_set imm r = (\<Inter>q\<in>set ?preds. above (dom_fun imm) q)" "r = None \<longrightarrow> (\<forall>q\<in>set ?preds. dom_fun imm q = None)"
    by (auto simp: parent_set_def)
  obtain q where "(q, c) \<in> ds_edges ?S" "ds_num ?S q < ds_num ?S c" using setting_okD(4) [OF S(1), of c] c by auto
  then have q: "q \<in> set ?preds" "dom_fun imm q \<noteq> None" using known [of q] unfolding preds by auto
  then have "r \<noteq> None" using r(4) by metis
  then obtain p where p: "r = Some p" by auto
  have "above (dom_fun imm) p = agreed ?S (dom_fun imm) c"
    using r(3) agreed_preds [OF g T c(1)] by (simp add: p parent_set_def)
  moreover have "dom_visit g rpost c (imm, changed) = Some (imm[c := Some p], changed \<or> imm ! c \<noteq> Some p)"
  proof (cases "imm ! c = Some p")
    case True
    then have "imm[c := Some p] = imm" by (metis list_update_id)
    then show ?thesis using r(1) c p True by (simp add: dom_visit_def)
  qed (use r(1) c p in \<open>simp add: dom_visit_def\<close>)
  ultimately show ?thesis using r(2) p by blast
qed

lemma dom_pass_spec:
  assumes N: "numbering_ok n g rpost" and T0: "tree_ok (graph_setting n g rpost) m0"
    and J0: "\<And>v. v \<noteq> 0 \<Longrightarrow> refinable (graph_setting n g rpost) m0 v"
  shows "sorted (map ((!) rpost) bs) \<Longrightarrow> distinct bs \<Longrightarrow> set bs \<subseteq> {..<n} \<Longrightarrow>
    {b. b < n \<and> rpost ! b \<noteq> 0} - {0} \<subseteq> visited \<union> set bs \<Longrightarrow> visited \<inter> set bs = {} \<Longrightarrow>
    visited \<subseteq> {b. b < n \<and> rpost ! b \<noteq> 0} - {0} \<Longrightarrow> \<forall>u\<in>visited. \<forall>b\<in>set bs. rpost ! b \<noteq> 0 \<longrightarrow> rpost ! u < rpost ! b \<Longrightarrow>
    length imm = n \<Longrightarrow> pass_inv (graph_setting n g rpost) m0 visited (dom_fun imm) \<Longrightarrow> changed = (dom_fun imm \<noteq> m0) \<Longrightarrow>
    \<exists>imm' changed'. dom_pass g rpost bs (imm, changed) = Some (imm', changed') \<and> length imm' = n \<and>
      pass_inv (graph_setting n g rpost) m0 ({b. b < n \<and> rpost ! b \<noteq> 0} - {0}) (dom_fun imm') \<and> changed' = (dom_fun imm' \<noteq> m0)"
proof (induction bs arbitrary: visited imm changed)
  case Nil
  then have "visited = {b. b < n \<and> rpost ! b \<noteq> 0} - {0}" by auto
  then show ?case using Nil by simp
next
  case (Cons c bs)
  let ?S = "graph_setting n g rpost" and ?R = "{b. b < n \<and> rpost ! b \<noteq> 0} - {0}"
  have S: "setting_ok ?S" by (rule graph_setting_ok [OF N])
  note prems = Cons.prems
  have tail: "sorted (map ((!) rpost) bs)" "distinct bs" "set bs \<subseteq> {..<n}" "c < n" "c \<notin> set bs" "c \<notin> visited"
    using prems(1-3,5) by auto
  show ?case
  proof (cases "c \<noteq> 0 \<and> rpost ! c \<noteq> 0")
    case False
    have "?R \<subseteq> visited \<union> set bs" "visited \<inter> set bs = {}" "\<forall>u\<in>visited. \<forall>b\<in>set bs. rpost ! b \<noteq> 0 \<longrightarrow> rpost ! u < rpost ! b"
      using prems(4,5,7) False by auto
    from Cons.IH [OF tail(1-3) this(1,2) prems(6) this(3) prems(8-10)] False show ?thesis by (auto simp: dom_visit_def)
  next
    case True
    note P = pass_invD [OF prems(9)]
    have earlier: "u = 0 \<or> u \<in> visited" if u: "u < n" "rpost ! u \<noteq> 0" "rpost ! u < rpost ! c" for u
    proof -
      have "u \<notin> set (c # bs)" using prems(1) u(3) by fastforce
      then show ?thesis using prems(4) u(1,2) by blast
    qed
    have root: "dom_fun imm 0 \<noteq> None" using tree_okD(1) [OF P(1)] by simp
    have known: "dom_fun imm u \<noteq> None" if "u < n" "rpost ! u \<noteq> 0" "rpost ! u < rpost ! c" for u
      using earlier [OF that] root P(4) [of u] by (cases "u = 0") simp_all
    from dom_visit_spec [OF N prems(8) P(1) tail(4) _ _ known] True obtain p where
      p: "dom_visit g rpost c (imm, changed) = Some (imm[c := Some p], changed \<or> imm ! c \<noteq> Some p)" "dom_fun imm p \<noteq> None"
        "above (dom_fun imm) p = agreed ?S (dom_fun imm) c"
      by blast
    have upd: "dom_fun (imm[c := Some p]) = (dom_fun imm)(c \<mapsto> p)" using dom_fun_update tail(4) prems(8) by simp
    have "pass_inv ?S m0 (insert c visited) (dom_fun (imm[c := Some p]))"
      unfolding upd
    proof (rule visit_inv [OF S T0 J0 prems(9)])
      show "\<forall>u\<in>ds_nodes ?S. ds_num ?S u < ds_num ?S c \<longrightarrow> u = 0 \<or> u \<in> visited" using earlier by simp
      show "\<forall>u\<in>visited. u = 0 \<or> ds_num ?S u < ds_num ?S c" using prems(7) True by simp
    qed (use True tail p in simp_all)
    moreover have "(changed \<or> imm ! c \<noteq> Some p) = (dom_fun (imm[c := Some p]) \<noteq> m0)"
    proof (cases "imm ! c = Some p")
      case True
      then show ?thesis using prems(10) list_update_id [of imm c] by simp
    next
      case False
      have "m0 c = imm ! c" using P(8) [OF tail(6)] tail(4) prems(8) by (simp add: dom_fun_def)
      then show ?thesis using False upd by (metis fun_upd_same)
    qed
    moreover have "\<forall>u\<in>insert c visited. \<forall>b\<in>set bs. rpost ! b \<noteq> 0 \<longrightarrow> rpost ! u < rpost ! b"
    proof (intro ballI impI)
      fix u b
      assume u: "u \<in> insert c visited" "b \<in> set bs" "rpost ! b \<noteq> 0"
      show "rpost ! u < rpost ! b"
      proof (cases "u = c")
        case True
        have "rpost ! c \<le> rpost ! b" using prems(1) u(2) by simp
        moreover have "rpost ! c \<noteq> rpost ! b"
          using inj_onD [OF numbering_okD(5) [OF N], of c b] tail \<open>c \<noteq> 0 \<and> rpost ! c \<noteq> 0\<close> u by auto
        ultimately show ?thesis using True by simp
      next
        case False
        then show ?thesis using u prems(7) by auto
      qed
    qed
    moreover have "?R \<subseteq> insert c visited \<union> set bs" "insert c visited \<inter> set bs = {}" "insert c visited \<subseteq> ?R"
      using prems(4-6) tail True by auto
    ultimately show ?thesis
      using Cons.IH [OF tail(1-3), of "insert c visited" "imm[c := Some p]" "changed \<or> imm ! c \<noteq> Some p"] p(1) prems(8) by simp
  qed
qed

lemma dom_iterate_spec:
  assumes N: "numbering_ok n g rpost" and order: "order = rpost_order rpost n"
  shows "length imm = n \<Longrightarrow> tree_ok (graph_setting n g rpost) (dom_fun imm) \<Longrightarrow> all_dominators (graph_setting n g rpost) (dom_fun imm) \<Longrightarrow>
    (\<And>v. v \<noteq> 0 \<Longrightarrow> refinable (graph_setting n g rpost) (dom_fun imm) v) \<Longrightarrow>
    \<exists>imm' k. dom_iterate g rpost order imm iterations = Some (imm', k) \<and> length imm' = n \<and>
      tree_ok (graph_setting n g rpost) (dom_fun imm') \<and>
      (\<forall>b<n. rpost ! b \<noteq> 0 \<longrightarrow> dom_fun imm' b \<noteq> None \<and> above (dom_fun imm') b = dominators (graph_setting n g rpost) b)"
proof (induction "dom_weight (graph_setting n g rpost) (dom_fun imm)" arbitrary: imm iterations rule: less_induct)
  case less
  let ?S = "graph_setting n g rpost" and ?R = "{b. b < n \<and> rpost ! b \<noteq> 0} - {0}"
  note prems = less.prems
  have S: "setting_ok ?S" by (rule graph_setting_ok [OF N])
  have o: "sorted (map ((!) rpost) order)" "distinct order" "set order = {..<n}" using rpost_order unfolding order by auto
  have "\<exists>imm' changed'. dom_pass g rpost order (imm, False) = Some (imm', changed') \<and> length imm' = n \<and>
      pass_inv ?S (dom_fun imm) ?R (dom_fun imm') \<and> changed' = (dom_fun imm' \<noteq> dom_fun imm)"
    by (rule dom_pass_spec [OF N prems(2,4) o(1,2), of "{}"]) (use o(3) prems(1) pass_start [OF prems(2,3)] in auto)
  then obtain imm' where imm': "dom_pass g rpost order (imm, False) = Some (imm', dom_fun imm' \<noteq> dom_fun imm)" "length imm' = n"
    "pass_inv ?S (dom_fun imm) ?R (dom_fun imm')" by auto
  note P = pass_invD [OF imm'(3)]
  have refine: "refinable ?S (dom_fun imm') v" if "v \<noteq> 0" for v
  proof (cases "v \<in> ?R")
    case False
    then have "dom_fun imm' v = None" using tree_okD(2) [OF P(1), of v] that by (cases "dom_fun imm' v") auto
    then show ?thesis by (simp add: refinable_def above_def)
  qed (rule P(5) [OF _ that])
  show ?case
  proof (cases "dom_fun imm' = dom_fun imm")
    case True
    then have it: "dom_iterate g rpost order imm iterations = Some (imm', iterations + 1)"
      using imm'(1) by (subst dom_iterate.simps) simp
    have "\<forall>v\<in>ds_nodes ?S. v \<noteq> 0 \<longrightarrow> above (dom_fun imm') v \<subseteq> insert v (agreed ?S (dom_fun imm') v)"
      using P(7) [OF _ _ True] by simp
    from settled_dominators [OF S P(1,2) this]
    have "above (dom_fun imm') b = dominators ?S b" if "b < n" "rpost ! b \<noteq> 0" for b using that by (metis graph_setting_simps(2))
    moreover have "dom_fun imm' b \<noteq> None" if "b < n" "rpost ! b \<noteq> 0" for b
      using that P(4) [of b] tree_okD(1) [OF P(1)] by (cases "b = 0") auto
    ultimately show ?thesis using it imm'(2) P(1) by blast
  next
    case False
    have "dom_weight ?S (dom_fun imm') < dom_weight ?S (dom_fun imm)" by (rule pass_less [OF S prems(2) imm'(3) False])
    from less.hyps [OF this imm'(2) P(1,2) refine, of "iterations + 1"]
    show ?thesis using imm'(1) False by (subst dom_iterate.simps) simp
  qed
qed

section \<open>The intervals of the tree\<close>

lemma dom_children_fold:
  "length (fold (\<lambda>b children. case imm ! b of None \<Rightarrow> children | Some p \<Rightarrow> children[p := children ! p @ [b]]) bs cs) = length cs \<and>
   (a < length cs \<longrightarrow> fold (\<lambda>b children. case imm ! b of None \<Rightarrow> children | Some p \<Rightarrow> children[p := children ! p @ [b]]) bs cs ! a =
      cs ! a @ filter (\<lambda>b. imm ! b = Some a) bs)"
  by (induction bs arbitrary: cs) (auto simp: nth_list_update split: option.splits)

lemma dom_children: "a < n \<Longrightarrow> dom_children imm n ! a = filter (\<lambda>b. imm ! b = Some a) [1..<n]"
  using dom_children_fold [where bs = "[1..<n]" and cs = "replicate n []"] by (simp add: dom_children_def)

definition interval_follows :: "dom_map \<Rightarrow> nat \<Rightarrow> intervals \<Rightarrow> search \<Rightarrow> bool" where
  "interval_follows m n s a \<longleftrightarrow> iv_stack s = sr_stack a \<and> length (iv_begin s) = n \<and> length (iv_end s) = n \<and>
     (\<forall>b\<in>set (sr_found a). iv_begin s ! b < iv_time s) \<and> (\<forall>b\<in>set (sr_done a). iv_end s ! b < iv_time s) \<and>
     sorted_wrt (\<lambda>x y. iv_begin s ! y < iv_begin s ! x) (grey a) \<and>
     (\<forall>x\<in>set (sr_found a). \<forall>y\<in>set (sr_found a). chain m y x \<longleftrightarrow> iv_begin s ! x \<le> iv_begin s ! y \<and>
        (x \<in> set (sr_done a) \<longrightarrow> y \<in> set (sr_done a) \<and> iv_end s ! y \<le> iv_end s ! x))"

lemma interval_pop:
  assumes R: "interval_follows m n s a" and ok: "search_ok succ n roots a" and st: "sr_stack a = (b, k) # rest" "k = length (succ b)"
    and c: "children ! b = succ b"
  shows "interval_follows m n (interval_step children s) (search_step succ a)"
proof -
  note D = search_okD [OF ok]
  have g: "grey a = b # map fst rest" by (simp add: grey_def st)
  have b: "b < n" "b \<in> set (sr_found a)" "b \<notin> set (sr_done a)" "b \<notin> set (map fst rest)" using D(2,4,6,7) g by auto
  have R': "length (iv_begin s) = n" "length (iv_end s) = n" "iv_stack s = (b, k) # rest"
    "\<forall>b\<in>set (sr_found a). iv_begin s ! b < iv_time s" "\<forall>b\<in>set (sr_done a). iv_end s ! b < iv_time s"
    "sorted_wrt (\<lambda>x y. iv_begin s ! y < iv_begin s ! x) (b # map fst rest)"
    using R st g by (simp_all add: interval_follows_def)
  have C: "chain m y x \<longleftrightarrow> iv_begin s ! x \<le> iv_begin s ! y \<and> (x \<in> set (sr_done a) \<longrightarrow> y \<in> set (sr_done a) \<and> iv_end s ! y \<le> iv_end s ! x)"
    if "x \<in> set (sr_found a)" "y \<in> set (sr_found a)" for x y
    using R that by (simp add: interval_follows_def)
  have sub: "x < n" if "x \<in> set (sr_done a)" for x using D(2,7) that by auto
  have open_less: "iv_begin s ! x < iv_begin s ! b" if "x \<in> set (sr_found a)" "x \<noteq> b" "x \<notin> set (sr_done a)" for x
    using that D(7) g R'(6) by auto
  let ?e = "(iv_end s)[b := iv_time s]"
  have e: "?e ! x = (if x = b then iv_time s else iv_end s ! x)" for x using b(1) R'(2) by (simp add: nth_list_update)
  have "chain m y x \<longleftrightarrow> iv_begin s ! x \<le> iv_begin s ! y \<and>
      (x \<in> insert b (set (sr_done a)) \<longrightarrow> y \<in> insert b (set (sr_done a)) \<and> ?e ! y \<le> ?e ! x)"
    if xy: "x \<in> set (sr_found a)" "y \<in> set (sr_found a)" for x y
  proof (cases "x = b")
    case True
    then show ?thesis using C [OF xy] b(3) open_less [OF xy(2)] R'(5) e by (cases "y = b") force+
  next
    case False
    then show ?thesis using C [OF xy] b(3) R'(5) e by (cases "y = b") force+
  qed
  moreover have "\<forall>x\<in>insert b (set (sr_done a)). ?e ! x < Suc (iv_time s)" using R'(5) e by (simp add: less_Suc_eq)
  moreover have "search_step succ a = a\<lparr>sr_stack := rest, sr_done := b # sr_done a\<rparr>" using st by (simp add: search_step_def)
  moreover have "interval_step children s = s\<lparr>iv_stack := rest, iv_end := ?e, iv_time := iv_time s + 1\<rparr>"
    using R'(3) st c by (simp add: interval_step_def)
  ultimately show ?thesis using R'(1,2,4,6) by (simp add: interval_follows_def grey_def less_Suc_eq)
qed

lemma interval_push:
  assumes T: "tree_ok S m" and R: "interval_follows m n s a" and ok: "search_ok succ n {0} a"
    and st: "sr_stack a = (b, k) # rest" "k < length (succ b)" and c: "children ! b = succ b"
    and succ: "\<And>x y. x < n \<Longrightarrow> y \<in> set (succ x) \<longleftrightarrow> y < n \<and> y \<noteq> 0 \<and> m y = Some x" "\<And>x. x < n \<Longrightarrow> distinct (succ x)"
  shows "succ b ! k \<notin> set (sr_found a) \<and> interval_follows m n (interval_step children s) (search_step succ a)"
proof -
  note D = search_okD [OF ok]
  let ?c = "succ b ! k"
  have g: "grey a = b # map fst rest" by (simp add: grey_def st)
  have b: "b < n" "b \<in> set (sr_found a)" "b \<notin> set (sr_done a)" "b \<notin> set (map fst rest)" using D(2,4,6,7) g by auto
  have cm: "?c < n" "?c \<noteq> 0" "m ?c = Some b" using succ(1) [OF b(1), of ?c] st(2) by auto
  have parent: "m x = Some y \<Longrightarrow> x \<in> set (sr_found a) \<Longrightarrow> x \<noteq> 0 \<Longrightarrow> y \<in> set (sr_found a) \<and> (\<exists>i. traversed succ a y i \<and> succ y ! i = x)" for x y
  proof -
    assume x: "m x = Some y" "x \<in> set (sr_found a)" "x \<noteq> 0"
    then obtain u i where u: "traversed succ a u i" "succ u ! i = x" using D(11) [of x] by auto
    have uf: "u \<in> set (sr_found a)" by (rule traversed_found [OF ok u(1)])
    then have un: "u < n" using D(2) by auto
    have "i < length (succ u)" using u(1) D(8) by (auto simp: traversed_def dest: less_le_trans)
    then have "m x = Some u" using succ(1) [OF un, of x] u(2) by auto
    then show ?thesis using x(1) uf u by auto
  qed
  have new: "?c \<notin> set (sr_found a)"
  proof
    assume "?c \<in> set (sr_found a)"
    then obtain i where i: "traversed succ a b i" "succ b ! i = ?c" using parent [OF cm(3)] cm(2) by blast
    have "i < length (succ b)" using i(1) D(8) by (auto simp: traversed_def dest: less_le_trans)
    then have "i = k" using i(2) st(2) succ(2) [OF b(1)] by (simp add: nth_eq_iff_index_eq)
    then show False using i(1) b(3,4) st(1) by (force simp: traversed_def)
  qed
  have R': "length (iv_begin s) = n" "length (iv_end s) = n" "iv_stack s = (b, k) # rest"
    "\<forall>b\<in>set (sr_found a). iv_begin s ! b < iv_time s" "\<forall>b\<in>set (sr_done a). iv_end s ! b < iv_time s"
    "sorted_wrt (\<lambda>x y. iv_begin s ! y < iv_begin s ! x) (b # map fst rest)"
    using R st g by (simp_all add: interval_follows_def)
  have C: "chain m y x \<longleftrightarrow> iv_begin s ! x \<le> iv_begin s ! y \<and> (x \<in> set (sr_done a) \<longrightarrow> y \<in> set (sr_done a) \<and> iv_end s ! y \<le> iv_end s ! x)"
    if "x \<in> set (sr_found a)" "y \<in> set (sr_found a)" for x y
    using R that by (simp add: interval_follows_def)
  have up: "chain m y x \<Longrightarrow> y \<in> set (sr_found a) \<Longrightarrow> x \<in> set (sr_found a)" for x y
  proof (induction rule: chain.induct)
    case (up y p x)
    then show ?case using parent [OF up.hyps(1)] tree_okD(1) [OF T] by (cases "y = 0") auto
  qed
  have "\<forall>x\<in>set (sr_done a). x < n" using D(2,7) by auto
  let ?b = "(iv_begin s)[?c := iv_time s]"
  have e: "?b ! x = (if x = ?c then iv_time s else iv_begin s ! x)" for x using cm(1) R'(1) by (simp add: nth_list_update)
  have nd: "?c \<notin> set (sr_done a)" using new D(7) by auto
  have "chain m y x \<longleftrightarrow> ?b ! x \<le> ?b ! y \<and> (x \<in> set (sr_done a) \<longrightarrow> y \<in> set (sr_done a) \<and> iv_end s ! y \<le> iv_end s ! x)"
    if xy: "x \<in> insert ?c (set (sr_found a))" "y \<in> insert ?c (set (sr_found a))" for x y
  proof -
    consider "x = ?c" "y = ?c" | "x = ?c" "y \<in> set (sr_found a)" | "x \<in> set (sr_found a)" "y = ?c" | "x \<in> set (sr_found a)" "y \<in> set (sr_found a)"
      using xy by blast
    then show ?thesis
    proof cases
      case 1
      then show ?thesis using nd chain.here [of m ?c] cm(3) by auto
    next
      case 2
      then have "\<not> chain m y x" using up new by blast
      moreover have "\<not> ?b ! x \<le> ?b ! y" using 2 e R'(4) new by auto
      ultimately show ?thesis by blast
    next
      case 3
      have ch: "chain m ?c x \<longleftrightarrow> chain m b x" using chain_unfold [of m ?c b x, OF cm(3)] 3(1) new by auto
      have "iv_begin s ! x < iv_time s" using R'(4) 3(1) by blast
      moreover have "chain m b x \<longleftrightarrow> x \<notin> set (sr_done a)"
      proof (cases "x \<in> set (sr_done a)")
        case True
        then show ?thesis using C [OF 3(1) b(2)] b(3) by auto
      next
        case False
        then have "x = b \<or> iv_begin s ! x < iv_begin s ! b" using 3(1) D(7) g R'(6) by auto
        then show ?thesis using False C [OF 3(1) b(2)] by auto
      qed
      ultimately show ?thesis using ch 3 e new nd by auto
    next
      case 4
      then show ?thesis using C [OF 4] e new by auto
    qed
  qed
  moreover have "sorted_wrt (\<lambda>x y. ?b ! y < ?b ! x) (?c # b # map fst rest)"
  proof -
    have "set (b # map fst rest) \<subseteq> set (sr_found a)" using D(7) g by auto
    then have "\<forall>x\<in>set (b # map fst rest). ?b ! x = iv_begin s ! x \<and> iv_begin s ! x < iv_time s" using e new R'(4) by auto
    moreover from this have "sorted_wrt (\<lambda>x y. ?b ! y < ?b ! x) (b # map fst rest)"
      by (intro sorted_wrt_mono_rel [OF _ R'(6)]) metis
    ultimately show ?thesis by (simp add: e)
  qed
  moreover have "\<forall>x\<in>insert ?c (set (sr_found a)). ?b ! x < Suc (iv_time s)" using R'(4) e by (simp add: less_Suc_eq)
  moreover have "search_step succ a = a\<lparr>sr_stack := (?c, 0) # (b, k + 1) # rest, sr_found := ?c # sr_found a\<rparr>"
    using st new by (simp add: search_step_def search_push_def Let_def)
  moreover have "interval_step children s = s\<lparr>iv_stack := (?c, 0) # (b, k + 1) # rest, iv_begin := ?b, iv_time := iv_time s + 1\<rparr>"
    using R'(3) st c by (simp add: interval_step_def Let_def)
  ultimately show ?thesis using R'(1,2,5) new by (simp add: interval_follows_def grey_def less_Suc_eq)
qed

lemma known_chain_root:
  assumes T: "tree_ok S m"
  shows "m b \<noteq> None \<Longrightarrow> chain m b 0"
proof (induction "ds_num S b" arbitrary: b rule: less_induct)
  case less
  then obtain p where p: "m b = Some p" by auto
  show ?case
  proof (cases "b = 0")
    case True
    then show ?thesis using p by (auto intro: chain.here)
  next
    case False
    then have "chain m p 0" using less.hyps [OF tree_okD(5) [OF T p False]] tree_okD(3) [OF T p] by blast
    then show ?thesis by (rule chain.up [of m b p, OF p])
  qed
qed

lemma number_tree_spec:
  assumes T: "tree_ok S (dom_fun imm)" and len: "length imm = n"
  shows "\<exists>s. number_tree (dom_children imm n) n = Some s \<and>
    (\<forall>x y. dom_fun imm x \<noteq> None \<longrightarrow> dom_fun imm y \<noteq> None \<longrightarrow>
      (chain (dom_fun imm) y x \<longleftrightarrow> iv_begin s ! x \<le> iv_begin s ! y \<and> iv_end s ! y \<le> iv_end s ! x))"
proof -
  let ?m = "dom_fun imm"
  define succ where "succ = (\<lambda>x. if x < n then dom_children imm n ! x else [])"
  have below: "b < n" if "?m b = Some p" for b p using that len by (simp add: dom_fun_def split: if_splits)
  have n: "0 < n" by (rule below [OF tree_okD(1) [OF T]])
  have succ: "y \<in> set (succ x) \<longleftrightarrow> y < n \<and> y \<noteq> 0 \<and> ?m y = Some x" if "x < n" for x y
    using that by (auto simp: succ_def dom_children dom_fun_def len)
  have dist: "distinct (succ x)" if "x < n" for x using that by (simp add: succ_def dom_children)
  have cl: "closed_below succ n" using succ by (auto simp: closed_below_def)
  have start: "search_ok succ n {0} (search_push 0 search_empty)"
    using search_start_ok [OF search_empty_ok, of 0 n succ] n by (simp add: search_empty_def)
  have init: "interval_follows ?m n (interval_start n) (search_push 0 search_empty)"
    using n tree_okD(1) [OF T] chain_root [of ?m] by (auto simp: interval_follows_def interval_start_def search_push_def search_empty_def grey_def)
  have "\<exists>s a. number_tree (dom_children imm n) n = Some s \<and> interval_follows ?m n s a \<and> search_ok succ n {0} a \<and> sr_stack a = []"
    unfolding number_tree_def
  proof (rule search_simulation [where R = "interval_follows ?m n", OF cl _ init start])
    fix s a
    assume R: "interval_follows ?m n s a" and ok: "search_ok succ n {0} a"
    have st: "iv_stack s = sr_stack a" using R by (simp add: interval_follows_def)
    show "(iv_stack s \<noteq> [] \<longleftrightarrow> sr_stack a \<noteq> []) \<and>
      (iv_stack s \<noteq> [] \<longrightarrow> interval_follows ?m n (interval_step (dom_children imm n) s) (search_step succ a))"
    proof (cases "sr_stack a")
      case (Cons q rest)
      obtain b k where q: "sr_stack a = (b, k) # rest" using Cons by (cases q) auto
      have "b < n" using search_okD(2,7) [OF ok] q by (auto simp: grey_def)
      then have c: "dom_children imm n ! b = succ b" by (simp add: succ_def)
      have k: "k \<le> length (succ b)" using search_okD(8) [OF ok, of b k] q by simp
      have "interval_follows ?m n (interval_step (dom_children imm n) s) (search_step succ a)"
      proof (cases "k = length (succ b)")
        case True
        show ?thesis by (rule interval_pop [OF R ok q True c])
      next
        case False
        then have "k < length (succ b)" using k by simp
        then show ?thesis using interval_push [OF T R ok q _ c succ dist] by blast
      qed
      then show ?thesis using st Cons by simp
    qed (simp add: st)
  qed
  then obtain s a where s: "number_tree (dom_children imm n) n = Some s" "interval_follows ?m n s a" "search_ok succ n {0} a" "sr_stack a = []"
    by blast
  have found: "set (sr_found a) = set (sr_done a)" using search_okD(7) [OF s(3)] s(4) by (simp add: grey_def)
  have known: "?m b \<noteq> None \<Longrightarrow> b \<in> set (sr_done a)" for b
  proof (induction "ds_num S b" arbitrary: b rule: less_induct)
    case less
    then obtain p where p: "?m b = Some p" by auto
    show ?case
    proof (cases "b = 0")
      case True
      then show ?thesis using search_okD(3) [OF s(3)] found by auto
    next
      case False
      have kp: "?m p \<noteq> None" by (rule tree_okD(3) [OF T p])
      then have pd: "p \<in> set (sr_done a)" using less.hyps [OF tree_okD(5) [OF T p False]] by blast
      have "p < n" using kp below by auto
      then have "b \<in> set (succ p)" using succ below [OF p] p False by simp
      then show ?thesis using finished_edges(1) [OF s(3,4) pd] by (metis in_set_conv_nth)
    qed
  qed
  then show ?thesis using s(1,2) found by (auto simp: interval_follows_def)
qed

section \<open>Dominance is lying on every path\<close>

definition on_every_path :: "flow_graph \<Rightarrow> nat \<Rightarrow> nat \<Rightarrow> bool" where
  "on_every_path g a b \<longleftrightarrow> (\<forall>p. node_path (targets_of g) p \<longrightarrow> hd p = 0 \<longrightarrow> last p = b \<longrightarrow> a \<in> set p)"

lemma node_path_append: "node_path succ (p @ [b]) \<longleftrightarrow> p = [] \<or> (node_path succ p \<and> b \<in> set (succ (last p)))"
  by (induction succ p rule: node_path.induct) auto

lemma reached_avoids:
  assumes N: "numbering_ok n g rpost"
  shows "avoids (graph_setting n g rpost) t b \<Longrightarrow> b < n \<and> rpost ! b \<noteq> 0 \<and> b \<noteq> t"
proof (induction rule: avoids.induct)
  case start
  then show ?case using setting_okD(2) [OF graph_setting_ok [OF N]] by simp
next
  case (step a b)
  then show ?case using setting_okD(3) [OF graph_setting_ok [OF N] step.hyps(2)] by simp
qed

lemma avoids_path:
  assumes N: "numbering_ok n g rpost"
  shows "avoids (graph_setting n g rpost) t b \<longleftrightarrow> (\<exists>p. node_path (targets_of g) p \<and> hd p = 0 \<and> last p = b \<and> t \<notin> set p)"
proof
  assume "avoids (graph_setting n g rpost) t b"
  then show "\<exists>p. node_path (targets_of g) p \<and> hd p = 0 \<and> last p = b \<and> t \<notin> set p"
  proof (induction rule: avoids.induct)
    case start
    then show ?case by (intro exI [of _ "[0]"]) simp
  next
    case (step a b)
    then obtain p where p: "node_path (targets_of g) p" "hd p = 0" "last p = a" "t \<notin> set p" by blast
    then have "p \<noteq> []" by auto
    then show ?case using p step.hyps(2,3) by (intro exI [of _ "p @ [b]"]) (simp add: node_path_append)
  qed
next
  assume "\<exists>p. node_path (targets_of g) p \<and> hd p = 0 \<and> last p = b \<and> t \<notin> set p"
  then obtain p where "node_path (targets_of g) p" "hd p = 0" "last p = b" "t \<notin> set p" by blast
  then show "avoids (graph_setting n g rpost) t b"
  proof (induction p arbitrary: b rule: rev_induct)
    case (snoc x p)
    show ?case
    proof (cases "p = []")
      case True
      then show ?thesis using snoc.prems by (auto intro: avoids.start)
    next
      case False
      have p: "avoids (graph_setting n g rpost) t (last p)" using snoc False by (simp add: node_path_append)
      have "last p \<in> ds_nodes (graph_setting n g rpost)" using reached_avoids [OF N p] by simp
      then have "(last p, x) \<in> ds_edges (graph_setting n g rpost)" using snoc.prems(1) False by (simp add: node_path_append)
      then show ?thesis using avoids.step [OF p] snoc.prems(3,4) by auto
    qed
  qed simp
qed

lemma graph_dominators_exact:
  assumes "function_graph_ok fg"
  shows "\<exists>t. graph_dominators fg = Some t \<and> (\<forall>a b. dominates t a b =
    (a < length (fn_nodes fg) \<and> b < length (fn_nodes fg) \<and> on_every_path (fn_flow fg) a b))"
proof -
  let ?n = "length (fn_nodes fg)" and ?g = "fn_flow fg" and ?r = "fn_rpost fg"
  let ?S = "graph_setting ?n ?g ?r"
  have N: "numbering_ok ?n ?g ?r" by (rule function_graph_numbering [OF assms])
  note S = graph_setting_ok [OF N]
  have n: "0 < ?n" by (rule numbering_okD(1) [OF N])
  have start: "dom_fun ((replicate ?n None)[0 := Some 0]) = dom_start"
    using n by (auto simp: dom_fun_def dom_start_def nth_list_update)
  obtain imm k where it: "dom_iterate ?g ?r (fn_order fg) ((replicate ?n None)[0 := Some 0]) 0 = Some (imm, k)" "length imm = ?n"
    "tree_ok ?S (dom_fun imm)" "\<forall>b<?n. ?r ! b \<noteq> 0 \<longrightarrow> dom_fun imm b \<noteq> None \<and> above (dom_fun imm) b = dominators ?S b"
    using dom_iterate_spec [OF N function_graph_okD(5) [OF assms], of "(replicate ?n None)[0 := Some 0]" 0]
      dom_start_ok [OF S] unfolding start by auto
  obtain s where s: "number_tree (dom_children imm ?n) ?n = Some s" "\<forall>x y. dom_fun imm x \<noteq> None \<longrightarrow> dom_fun imm y \<noteq> None \<longrightarrow>
      (chain (dom_fun imm) y x \<longleftrightarrow> iv_begin s ! x \<le> iv_begin s ! y \<and> iv_end s ! y \<le> iv_end s ! x)"
    using number_tree_spec [OF it(3,2)] by blast
  define t where "t = \<lparr>dt_immediate = imm, dt_begin = iv_begin s, dt_end = iv_end s, dt_iterations = k\<rparr>"
  have "graph_dominators fg = Some t" using it(1) s(1) by (simp add: graph_dominators_def Let_def t_def)
  moreover have "dominates t a b = (a < ?n \<and> b < ?n \<and> on_every_path ?g a b)" for a b
  proof (cases "a < ?n \<and> b < ?n")
    case True
    have path: "on_every_path ?g a b \<longleftrightarrow> a \<in> dominators ?S b"
      using avoids_path [OF N, of a b] by (auto simp: on_every_path_def dominators_def)
    have imm: "imm ! c = dom_fun imm c" if "c < ?n" for c using that it(2) by (simp add: dom_fun_def)
    show ?thesis
    proof (cases "?r ! b = 0")
      case r: True
      then have "dom_fun imm b = None" using tree_okD(2) [OF it(3), of b] by (cases "dom_fun imm b") auto
      moreover have "a \<in> dominators ?S b" using reached_avoids [OF N, of a b] r by (auto simp: dominators_def)
      ultimately show ?thesis using True path imm it(2) by (simp add: dominates_def t_def)
    next
      case r: False
      then have b: "dom_fun imm b \<noteq> None" "above (dom_fun imm) b = dominators ?S b" using it(4) True by blast+
      have "chain (dom_fun imm) b a \<longleftrightarrow> a \<in> dominators ?S b" using b by (auto simp: above_def)
      moreover have "dom_fun imm a \<noteq> None" if "chain (dom_fun imm) b a" using chain_below [OF it(3) that] by blast
      ultimately have "a \<in> dominators ?S b \<longleftrightarrow> dom_fun imm a \<noteq> None \<and> iv_begin s ! a \<le> iv_begin s ! b \<and> iv_end s ! b \<le> iv_end s ! a"
        using s(2) b(1) by blast
      moreover obtain q where "dom_fun imm b = Some q" using b(1) by auto
      ultimately show ?thesis using True path imm it(2) by (simp add: dominates_def t_def)
    qed
  qed (auto simp: dominates_def t_def it(2))
  ultimately show ?thesis by blast
qed

text \<open>C4: whenever the graph of a function is returned so is its dominator tree, and the query answers that a node
  dominates another exactly when it lies on every path of edges from the entry to it.\<close>

theorem dominators_exact:
  assumes "if_blocks f \<noteq> []"
  shows "case function_graph_analysis verify owner f of
      None \<Rightarrow> False
    | Some (Inl e) \<Rightarrow> dominator_analysis verify owner f = Some (Inl e)
    | Some (Inr fg) \<Rightarrow> (case dominator_analysis verify owner f of
          None \<Rightarrow> False
        | Some (Inl e) \<Rightarrow> False
        | Some (Inr t) \<Rightarrow> (\<forall>a b. dominates t a b =
            (a < length (fn_nodes fg) \<and> b < length (fn_nodes fg) \<and> on_every_path (fn_flow fg) a b)))"
proof -
  from function_graph_analysis_cases [OF assms, of verify owner] show ?thesis
  proof (elim disjE exE conjE)
    fix e
    assume "function_graph_analysis verify owner f = Some (Inl e)"
    then show ?thesis by (auto simp: dominator_analysis_def function_graph_analysis_def owner_error_def mk_error_def)
  next
    fix fg marks
    assume h: "function_graph_analysis verify owner f = Some (Inr fg)" "function_graph_ok fg"
    then have "owner = if_id f" by (auto simp: function_graph_analysis_def owner_error_def mk_error_def split: if_splits)
    with h(1) graph_dominators_exact [OF h(2)] show ?thesis by (auto simp: dominator_analysis_def)
  qed
qed

theorem dominators_exact_witness:
  "case function_graph_analysis (\<lambda>_. Inr ()) 0 loop_function of
      None \<Rightarrow> False
    | Some (Inl e) \<Rightarrow> dominator_analysis (\<lambda>_. Inr ()) 0 loop_function = Some (Inl e)
    | Some (Inr fg) \<Rightarrow> (case dominator_analysis (\<lambda>_. Inr ()) 0 loop_function of
          None \<Rightarrow> False
        | Some (Inl e) \<Rightarrow> False
        | Some (Inr t) \<Rightarrow> (\<forall>a b. dominates t a b =
            (a < length (fn_nodes fg) \<and> b < length (fn_nodes fg) \<and> on_every_path (fn_flow fg) a b)))"
  by (rule dominators_exact [OF loop_function_blocks(1)])

end
