(* ===== verification/MachineFlow.thy ===== *)
theory MachineFlow
  imports FunctionGraph MachineOperands
begin

text \<open>
  The control flow of a machine function (\<open>MachineControlFlow::build\<close> in \<open>lib/CodeGen/MachineIR.cpp\<close>) and its traversal
  and loop tree (\<open>lib/CodeGen/GraphAnalysis.cpp\<close>).  Node 0 is the entry, node 1 the exit, and the blocks follow.
\<close>

section \<open>Control flow\<close>

definition machine_label_block :: "machine_function \<Rightarrow> nat \<Rightarrow> nat result" where
  "machine_label_block f l = (case List.find (\<lambda>b. l \<in> set (mb_labels (mf_blocks f ! b))) [0..<length (mf_blocks f)] of
     None \<Rightarrow> mk_error InvalidArgument ''out_of_range'' | Some b \<Rightarrow> Inr (b + 2))"

definition machine_count :: "machine_function \<Rightarrow> nat" where
  "machine_count f = length (mf_blocks f) + 2"

definition node_body :: "machine_function \<Rightarrow> nat \<Rightarrow> machine_instruction list" where
  "node_body f b = mb_instructions (mf_blocks f ! (b - 2))"

text \<open>Labels whose address is taken, and the labels of \<open>LAddr\<close>.\<close>

definition block_marks :: "machine_function \<Rightarrow> machine_block \<Rightarrow> nat result list" where
  "block_marks f mb =
     concat (map (\<lambda>l. if list_ex (\<lambda>m. ml_pointer m = l \<and> ml_addressed m) (mf_labels f) then [machine_label_block f l] else []) (mb_labels mb)) @
     concat (map (\<lambda>i. if mi_opcode i = IROp (OMisc O_LAddr)
        then [case as_label (mi_operands i ! 1) of Some l \<Rightarrow> machine_label_block f l | None \<Rightarrow> mk_error InvalidArgument ''out_of_range'']
        else []) (mb_instructions mb))"

definition machine_marks :: "machine_function \<Rightarrow> nat list result" where
  "machine_marks f = collect (concat (map (block_marks f) (mf_blocks f)))"

definition label_edge :: "machine_function \<Rightarrow> nat \<Rightarrow> opcode \<Rightarrow> nat \<Rightarrow> operand \<Rightarrow> flow_edge result list" where
  "label_edge f b op p o1 = (case as_label o1 of
     None \<Rightarrow> []
   | Some l \<Rightarrow> [rbind (machine_label_block f l) (\<lambda>t. Inr (operand_edge b t (if op = OMisc O_Switch then EdgeSwitchCase else EdgeBranch) p))])"

definition machine_direct_edges :: "machine_function \<Rightarrow> nat \<Rightarrow> flow_edge list result" where
  "machine_direct_edges f b =
    (let n = machine_count f; body = node_body f b
     in case (if body = [] then Pseudo PseudoUse else mi_opcode (last body)) of
         Pseudo _ \<Rightarrow> Inr (fallthrough n b)
       | IROp op \<Rightarrow>
           let flow = control_flow (instruction_descriptor op); ops = mi_operands (last body)
           in rbind (collect (if flow = FlowNext then [] else concat (map (\<lambda>p. label_edge f b op p (ops ! p)) [0..<length ops]))) (\<lambda>es.
                Inr ((if flow \<noteq> FlowExit \<and> op \<noteq> OMisc O_Jmp then fallthrough n b else []) @ es)))"

definition machine_indirect_edges :: "machine_function \<Rightarrow> nat list \<Rightarrow> nat \<Rightarrow> flow_edge list" where
  "machine_indirect_edges f marks b =
    (let body = node_body f b
     in if body \<noteq> [] \<and> mi_opcode (last body) = IROp (OMisc O_JmpIndirect)
        then map (\<lambda>t. plain_edge b t EdgeIndirect) (filter (\<lambda>t. t \<in> set marks) [2..<machine_count f]) else [])"

definition machine_control_flow :: "(machine_function \<Rightarrow> unit result) \<Rightarrow> machine_function \<Rightarrow> flow_graph result" where
  "machine_control_flow verify f =
    rbind (verify f) (\<lambda>_. rbind (machine_marks f) (\<lambda>marks.
      rbind (collect (map (machine_direct_edges f) [2..<machine_count f])) (\<lambda>ess.
        Inr (fold entry_exit_edge [0..<machine_count f]
          (add_edges (concat ess @ concat (map (machine_indirect_edges f marks) [2..<machine_count f])) (empty_graph (machine_count f)))))))"

section \<open>The loop tree\<close>

text \<open>\<open>no_machine_node\<close> is \<^term>\<open>None\<close>.\<close>

record loop_node =
  ln_block :: "nat option"
  ln_entry :: "nat option"
  ln_parent :: "nat option"
  ln_children :: "nat list"

record loop_state =
  lo_nodes :: "loop_node list"
  lo_reps :: "nat list"
  lo_seen :: "nat list"
  lo_found :: bool

definition empty_node :: loop_node where
  "empty_node = \<lparr>ln_block = None, ln_entry = None, ln_parent = None, ln_children = []\<rparr>"

text \<open>The representative of a node, with the path to it compressed.\<close>

definition find_root :: "nat list \<Rightarrow> nat \<Rightarrow> nat option" where
  "find_root reps b = while_option (\<lambda>root. reps ! root \<noteq> root) (\<lambda>root. reps ! root) b"

definition compress_path :: "nat \<Rightarrow> nat list \<Rightarrow> nat \<Rightarrow> (nat list \<times> nat) option" where
  "compress_path root reps b = while_option (\<lambda>(reps, b). reps ! b \<noteq> b) (\<lambda>(reps, b). (reps[b := root], reps ! b)) (reps, b)"

definition top_node :: "nat \<Rightarrow> nat list \<Rightarrow> (nat \<times> nat list) option" where
  "top_node b reps = Option.bind (find_root reps b) (\<lambda>root. map_option (\<lambda>(reps, _). (root, reps)) (compress_path root reps b))"

record loop_search =
  ls_reps :: "nat list"
  ls_seen :: "nat list"
  ls_loop :: "nat list"
  ls_queue :: "nat list"
  ls_irreducible :: bool

definition collect_node :: "numbering \<Rightarrow> nat \<Rightarrow> nat \<Rightarrow> loop_search \<Rightarrow> loop_search option" where
  "collect_node nm epoch b s = map_option (\<lambda>(n, reps).
     let s = s\<lparr>ls_reps := reps\<rparr>
     in if ls_seen s ! n = epoch then s
        else let s = s\<lparr>ls_seen := (ls_seen s)[n := epoch]\<rparr>
             in if nm_preorder nm ! b = 0 \<and> nm_rpost nm ! b = 0 then s
                else s\<lparr>ls_loop := ls_loop s @ [n], ls_queue := ls_queue s @ [n]\<rparr>) (top_node b (ls_reps s))"

fun collect_nodes :: "numbering \<Rightarrow> nat \<Rightarrow> nat list \<Rightarrow> loop_search \<Rightarrow> loop_search option" where
  "collect_nodes nm epoch [] s = Some s"
| "collect_nodes nm epoch (b # bs) s = Option.bind (collect_node nm epoch b s) (collect_nodes nm epoch bs)"

definition loop_member :: "loop_node list \<Rightarrow> nat \<Rightarrow> nat" where
  "loop_member nodes n = (case ln_block (nodes ! n) of Some b \<Rightarrow> b | None \<Rightarrow> the (ln_block (nodes ! the (ln_entry (nodes ! n)))))"

definition other_sources :: "flow_graph \<Rightarrow> nat \<Rightarrow> nat \<Rightarrow> nat list" where
  "other_sources g entry b = filter (\<lambda>p. p \<noteq> entry) (map (\<lambda>eid. ed_source (fg_edges g ! eid)) (fg_incoming g ! b))"

text \<open>The search from the sources of the back edges stops at the entry of the function: the loop is irreducible.\<close>

partial_function (option) search_loop :: "flow_graph \<Rightarrow> numbering \<Rightarrow> loop_node list \<Rightarrow> nat \<Rightarrow> nat \<Rightarrow> loop_search \<Rightarrow> loop_search option" where
  "search_loop g nm nodes epoch entry s =
    (if ls_queue s = [] then Some s
     else let b = loop_member nodes (last (ls_queue s)); s = s\<lparr>ls_queue := butlast (ls_queue s)\<rparr>
          in if b = 0 then Some (s\<lparr>ls_irreducible := True\<rparr>)
             else Option.bind (collect_nodes nm epoch (other_sources g entry b) s) (search_loop g nm nodes epoch entry))"

lemmas search_loop_code [code] = search_loop.simps

definition adopt :: "nat \<Rightarrow> nat \<Rightarrow> loop_state \<Rightarrow> loop_state" where
  "adopt parent n s = (let nodes = (lo_nodes s)[parent := (lo_nodes s ! parent)\<lparr>ln_children := ln_children (lo_nodes s ! parent) @ [n]\<rparr>]
     in s\<lparr>lo_nodes := nodes[n := (nodes ! n)\<lparr>ln_parent := Some parent\<rparr>], lo_reps := (lo_reps s)[n := parent]\<rparr>)"

definition back_sources :: "flow_graph \<Rightarrow> numbering \<Rightarrow> nat \<Rightarrow> nat list" where
  "back_sources g nm entry = filter (\<lambda>p. p \<noteq> entry)
     (map (\<lambda>eid. ed_source (fg_edges g ! eid)) (filter (\<lambda>eid. nm_back nm ! eid) (fg_incoming g ! entry)))"

definition add_loop :: "flow_graph \<Rightarrow> numbering \<Rightarrow> nat \<times> nat \<Rightarrow> loop_state \<Rightarrow> loop_state option" where
  "add_loop g nm = (\<lambda>(epoch, entry) s.
     Option.bind (collect_nodes nm epoch (back_sources g nm entry)
        \<lparr>ls_reps = lo_reps s, ls_seen = lo_seen s, ls_loop = [], ls_queue = [], ls_irreducible = False\<rparr>) (\<lambda>q.
     map_option (\<lambda>q.
       let s = s\<lparr>lo_reps := ls_reps q, lo_seen := ls_seen q\<rparr>
       in if ls_irreducible q then s
          else let parent = length (lo_nodes s);
                   s = s\<lparr>lo_nodes := lo_nodes s @ [empty_node\<lparr>ln_entry := Some entry\<rparr>], lo_seen := lo_seen s @ [0], lo_reps := lo_reps s @ [parent]\<rparr>
               in (fold (adopt parent) (rev (ls_loop q @ [entry])) s)\<lparr>lo_found := True\<rparr>)
       (search_loop g nm (lo_nodes s) epoch entry q)))"

fun add_loops :: "flow_graph \<Rightarrow> numbering \<Rightarrow> (nat \<times> nat) list \<Rightarrow> loop_state \<Rightarrow> loop_state option" where
  "add_loops g nm [] s = Some s"
| "add_loops g nm (e # es) s = Option.bind (add_loop g nm e s) (add_loops g nm es)"

definition adopt_root :: "nat \<Rightarrow> nat \<Rightarrow> loop_state \<Rightarrow> loop_state option" where
  "adopt_root root b s = map_option (\<lambda>(n, reps).
     let s = s\<lparr>lo_reps := reps\<rparr> in if n \<noteq> root then adopt root n s else s) (top_node b (lo_reps s))"

fun adopt_roots :: "nat \<Rightarrow> nat list \<Rightarrow> loop_state \<Rightarrow> loop_state option" where
  "adopt_roots root [] s = Some s"
| "adopt_roots root (b # bs) s = Option.bind (adopt_root root b s) (adopt_roots root bs)"

definition loop_entries :: "flow_graph \<Rightarrow> numbering \<Rightarrow> nat \<Rightarrow> nat list" where
  "loop_entries g nm count = rev (sort_key (\<lambda>b. nm_rpost nm ! b)
     (rev (filter (\<lambda>b. list_ex (\<lambda>eid. nm_back nm ! eid) (fg_incoming g ! b)) [0..<count])))"

text \<open>Parents are created after their children: one pass from the last node gives every depth.\<close>

definition depth_step :: "loop_node list \<Rightarrow> nat \<Rightarrow> nat \<Rightarrow> nat list \<times> nat list \<Rightarrow> nat list \<times> nat list" where
  "depth_step nodes root n = (\<lambda>(depths, blocks).
     let depths = (case ln_parent (nodes ! n) of None \<Rightarrow> depths | Some p \<Rightarrow> depths[n := depths ! p + (if p \<noteq> root then 1 else 0)])
     in (depths, case ln_block (nodes ! n) of None \<Rightarrow> blocks | Some b \<Rightarrow> blocks[b := depths ! n]))"

definition loop_depths :: "loop_node list \<Rightarrow> nat \<Rightarrow> nat \<Rightarrow> nat list" where
  "loop_depths nodes root count =
     snd (fold (depth_step nodes root) (rev [0..<length nodes]) (replicate (length nodes) 0, replicate count 0))"

record machine_graph =
  mg_cfg :: flow_graph
  mg_preorder :: "nat list"
  mg_rpost :: "nat list"
  mg_back :: "bool list"
  mg_loops :: "loop_node list"
  mg_depth :: "nat list"
  mg_root :: nat
  mg_has_loops :: bool

definition loop_start :: "nat \<Rightarrow> loop_state" where
  "loop_start count = \<lparr>lo_nodes = map (\<lambda>b. empty_node\<lparr>ln_block := Some b, ln_entry := Some b\<rparr>) [0..<count], lo_reps = [0..<count],
     lo_seen = replicate count 0, lo_found = False\<rparr>"

definition analyze_graph :: "nat \<Rightarrow> flow_graph \<Rightarrow> machine_graph option" where
  "analyze_graph count g = Option.bind (number_graph g count) (\<lambda>nm.
     Option.bind (add_loops g nm (zip [1..<Suc (length (loop_entries g nm count))] (loop_entries g nm count)) (loop_start count)) (\<lambda>s.
       let root = length (lo_nodes s); s = s\<lparr>lo_nodes := lo_nodes s @ [empty_node], lo_reps := lo_reps s @ [root]\<rparr>
       in map_option (\<lambda>s. \<lparr>mg_cfg = g, mg_preorder = nm_preorder nm, mg_rpost = nm_rpost nm, mg_back = nm_back nm, mg_loops = lo_nodes s,
            mg_depth = loop_depths (lo_nodes s) root count, mg_root = root, mg_has_loops = lo_found s\<rparr>)
          (adopt_roots root [0..<count] s)))"

definition machine_graph_analysis :: "(machine_function \<Rightarrow> unit result) \<Rightarrow> machine_function \<Rightarrow> machine_graph result option" where
  "machine_graph_analysis verify f = (case machine_control_flow verify f of
     Inl e \<Rightarrow> Some (Inl e)
   | Inr g \<Rightarrow> map_option Inr (analyze_graph (machine_count f) g))"

end
