(* ===== verification/RegisterEffects.thy ===== *)
theory RegisterEffects
  imports MachineFlow
begin

text \<open>
  The registers an instruction defines and uses (\<open>lib/mirnext/CodeGen/Detail/RegisterEffects.hpp\<close>), those it
  overwrites early (\<open>lib/CodeGen/Liveness.cpp\<close>), and the analysis index of a register
  (\<open>lib/mirnext/CodeGen/Detail/RegisterIndex.hpp\<close>).
\<close>

section \<open>Definitions and uses\<close>

definition is_call :: "machine_opcode \<Rightarrow> bool" where
  "is_call c \<longleftrightarrow> c \<in> {IROp (OMisc O_Call), IROp (OMisc O_Inline), IROp (OMisc O_JCall)}"

definition upper_role :: "string \<Rightarrow> nat \<Rightarrow> bool" where
  "upper_role rs p \<longleftrightarrow> p < length rs \<and> (let c = of_char (rs ! p) :: nat in 65 \<le> c \<and> c \<le> 90)"

text \<open>How many results the prototype of a call has.\<close>

definition call_results :: "machine_instruction \<Rightarrow> nat" where
  "call_results i = (case mi_operands i of
     SymbolOp r # _ \<Rightarrow> (case ms_signature (sr_symbol r) of Some s \<Rightarrow> length (results s) | None \<Rightarrow> 0)
   | _ \<Rightarrow> 0)"

definition operand_is_output :: "machine_instruction \<Rightarrow> nat \<Rightarrow> bool" where
  "operand_is_output i p = (case native_vector_descriptor (mi_opcode i) of
     Some d \<Rightarrow> upper_role (nd_roles d) p
   | None \<Rightarrow> (case mi_opcode i of
       Pseudo ps \<Rightarrow> (ps = X86Mov128 \<or> ps = X86Mov128Unaligned) \<and> p = 0
     | IROp op \<Rightarrow>
         if op = OMisc O_LAddr then False
         else if is_call (mi_opcode i) then 2 \<le> p \<and> p - 2 < call_results i
         else operand_count (instruction_descriptor op) = CountFixed \<and> upper_role (roles (instruction_descriptor op)) p))"

text \<open>The registers of one operand that the visitor sees, and the dependency of a call argument that follows it.\<close>

definition operand_registers :: "machine_instruction \<Rightarrow> bool \<Rightarrow> nat \<Rightarrow> machine_register list" where
  "operand_registers i definitions p = (case mi_operands i ! p of
     VReg r \<Rightarrow> if operand_is_output i p = definitions then (case r of Some v \<Rightarrow> [VirtualReg v] | None \<Rightarrow> []) else []
   | PReg r \<Rightarrow> if operand_is_output i p = definitions then [PhysicalReg r] else []
   | Mem m \<Rightarrow> if definitions then []
       else (case mm_base m of Some r \<Rightarrow> [r] | None \<Rightarrow> []) @ (case mm_index m of Some r \<Rightarrow> [r] | None \<Rightarrow> [])
   | _ \<Rightarrow> [])"

fun visit_operands :: "machine_instruction \<Rightarrow> bool \<Rightarrow> nat list \<Rightarrow> (nat \<times> virtual_register) list \<Rightarrow> machine_register list" where
  "visit_operands i definitions [] deps = []"
| "visit_operands i definitions (p # ps) deps = operand_registers i definitions p @ (case deps of
     (q, v) # rest \<Rightarrow> if \<not> definitions \<and> q = p then VirtualReg v # visit_operands i definitions ps rest else visit_operands i definitions ps deps
   | [] \<Rightarrow> visit_operands i definitions ps deps)"

definition visit_registers :: "machine_instruction \<Rightarrow> bool \<Rightarrow> machine_register list" where
  "visit_registers i definitions = visit_operands i definitions [0..<length (mi_operands i)] (mi_dependencies i)"

section \<open>Early clobbers\<close>

definition target_register :: "target_machine \<Rightarrow> nat \<Rightarrow> physical_register" where
  "target_register m n = ri_reg (tm_registers m ! n)"

definition early_clobbers :: "target_machine \<Rightarrow> machine_opcode \<Rightarrow> physical_register list" where
  "early_clobbers m c = (case c of
     Pseudo _ \<Rightarrow> []
   | IROp op \<Rightarrow>
       if tm_architecture m = ArchAArch64
       then if op \<in> OArith ` {O_Mod, O_Mods, O_UMod, O_UMods} then [target_register m 8]
            else if op \<in> OOvf ` {O_Mulo, O_UMulo} then [target_register m 11]
            else []
       else if op \<in> OArith ` {O_Div, O_UDiv, O_Divs, O_UDivs, O_Mod, O_UMod, O_Mods, O_UMods} \<union> OOvf ` {O_UMulo, O_UMulos}
            then [target_register m 2]
            else if op \<in> OFCmp ` {O_FEq, O_FNe, O_DEq, O_DNe, O_LDEq, O_LDNe} then [target_register m 0, target_register m 2]
            else if op \<in> OFCmp ` {O_FLt, O_FLe, O_FGt, O_FGe, O_DLt, O_DLe, O_DGt, O_DGe, O_LDLt, O_LDLe, O_LDGt, O_LDGe}
            then [target_register m 0]
            else [])"

section \<open>The index of a register\<close>

text \<open>All registers of a function: the physical ones of the target, then the virtual ones.\<close>

definition all_registers :: "machine_function \<Rightarrow> machine_register list" where
  "all_registers f = map (\<lambda>info. PhysicalReg (ri_reg info)) (tm_registers (mf_target f)) @ map VirtualReg (mf_registers f)"

fun same_register :: "machine_register \<Rightarrow> machine_register \<Rightarrow> bool" where
  "same_register (VirtualReg a) (VirtualReg b) \<longleftrightarrow> vr_id a = vr_id b"
| "same_register (PhysicalReg a) (PhysicalReg b) \<longleftrightarrow> pr_encoding a = pr_encoding b"
| "same_register _ _ \<longleftrightarrow> False"

text \<open>The position in a list of registers; physical registers are found by their encoding.\<close>

definition register_position :: "machine_register list \<Rightarrow> machine_register \<Rightarrow> nat option" where
  "register_position rs r = List.find (\<lambda>k. same_register (rs ! k) r) [0..<length rs]"

text \<open>\<open>RegisterIndex::find\<close> over all registers also compares the architecture.\<close>

definition index_find :: "machine_function \<Rightarrow> machine_register \<Rightarrow> nat option" where
  "index_find f r = (case register_position (all_registers f) r of
     None \<Rightarrow> None
   | Some k \<Rightarrow> (case r of VirtualReg _ \<Rightarrow> Some k | PhysicalReg p \<Rightarrow> if all_registers f ! k = PhysicalReg p then Some k else None))"

text \<open>\<open>machine_register_effects\<close>; \<open>owned\<close> is whether the instruction belongs to the function.\<close>

record register_effects =
  re_definitions :: "machine_register list"
  re_uses :: "machine_register list"

definition liveness_invalid :: "machine_function \<Rightarrow> string \<Rightarrow> error" where
  "liveness_invalid f why = \<lparr>code = InvalidOperand, message = mf_module f @ ''/'' @ mf_name f @ '' ['' @
     machine_name (tm_abi (mf_target f)) @ '', machine-liveness]: '' @ why\<rparr>"

definition machine_register_effects :: "machine_function \<Rightarrow> bool \<Rightarrow> machine_instruction \<Rightarrow> register_effects result" where
  "machine_register_effects f owned i =
    (if \<not> owned then Inl (liveness_invalid f ''foreign instruction'')
     else Inr \<lparr>re_definitions = visit_registers i True, re_uses = visit_registers i False\<rparr>)"

end
