(* ===== verification/MachineLiveness.thy ===== *)
theory MachineLiveness
  imports RegisterEffects IRLiveness
begin

text \<open>
  Liveness of the machine registers (\<open>MachineLiveness::analyze\<close> in \<open>lib/CodeGen/Liveness.cpp\<close>): the registers a block
  reads and overwrites, found from its last instruction to its first, the rounds of the solver, register pressure,
  reference frequencies and the last uses.  A compact scan watches some registers only, and ignores what calls do.
\<close>

section \<open>What the analysis watches\<close>

record liveness_options =
  op_level :: nat
  op_frequencies :: bool
  op_scan :: "machine_register list"
  op_globals :: "physical_register list"

record scan_env =
  se_function :: machine_function
  se_registers :: "machine_register list"
  se_compact :: bool
  se_advanced :: bool
  se_frequencies :: bool
  se_clobbered :: bitset
  se_globals :: bitset

definition integer_register :: "machine_function \<Rightarrow> machine_register \<Rightarrow> bool" where
  "integer_register f r = (case r of
     VirtualReg v \<Rightarrow> is_integer (vr_type v)
   | PhysicalReg p \<Rightarrow> (case register_info (mf_target f) p of Some info \<Rightarrow> ri_bank info = BankInteger | None \<Rightarrow> False))"

definition own_register :: "machine_function \<Rightarrow> machine_register \<Rightarrow> bool" where
  "own_register f r = (case r of
     VirtualReg v \<Rightarrow> vr_id v < length (mf_registers f) \<and> mf_registers f ! vr_id v = v
   | PhysicalReg p \<Rightarrow> register_info (mf_target f) p \<noteq> None)"

definition scan_error :: "machine_function \<Rightarrow> machine_register \<Rightarrow> error" where
  "scan_error f r = liveness_invalid f (case r of VirtualReg _ \<Rightarrow> ''foreign or repeated scan register''
     | PhysicalReg _ \<Rightarrow> ''foreign or repeated physical scan register'')"

fun add_registers :: "machine_function \<Rightarrow> machine_register list \<Rightarrow> machine_register list \<Rightarrow> machine_register list result" where
  "add_registers f [] seen = Inr seen"
| "add_registers f (r # rs) seen =
    (if \<not> own_register f r \<or> register_position seen r \<noteq> None then Inl (scan_error f r) else add_registers f rs (seen @ [r]))"

section \<open>One block\<close>

record fact_state =
  fa_gen :: bitset
  fa_kill :: bitset
  fa_ints :: int
  fa_floats :: int
  fa_max_int :: int
  fa_max_float :: int
  fa_references :: "int list"

abbreviation (input) LONG_MAX :: int where "LONG_MAX \<equiv> 9223372036854775807"

text \<open>Five times the weight for every loop around the block, while it stays far from the maximum.\<close>

fun block_weight :: "nat \<Rightarrow> int \<Rightarrow> int" where
  "block_weight 0 w = w"
| "block_weight (Suc depth) w = (if w < LONG_MAX div 8 then block_weight depth (w * 5) else w)"

definition increase :: "machine_function \<Rightarrow> machine_register \<Rightarrow> fact_state \<Rightarrow> fact_state" where
  "increase f r s = (if integer_register f r
     then s\<lparr>fa_ints := fa_ints s + 1, fa_max_int := max (fa_max_int s) (fa_ints s + 1)\<rparr>
     else s\<lparr>fa_floats := fa_floats s + 1, fa_max_float := max (fa_max_float s) (fa_floats s + 1)\<rparr>)"

definition decrease :: "machine_function \<Rightarrow> machine_register \<Rightarrow> fact_state \<Rightarrow> fact_state" where
  "decrease f r s = (if integer_register f r then s\<lparr>fa_ints := fa_ints s - 1\<rparr> else s\<lparr>fa_floats := fa_floats s - 1\<rparr>)"

definition note_reference :: "scan_env \<Rightarrow> int \<Rightarrow> machine_register \<Rightarrow> nat \<Rightarrow> fact_state \<Rightarrow> fact_state" where
  "note_reference env weight r k s = (case r of
     PhysicalReg _ \<Rightarrow> s
   | VirtualReg _ \<Rightarrow>
       if se_frequencies env
       then let n = fa_references s ! k in s\<lparr>fa_references := (fa_references s)[k := (if n < LONG_MAX - weight then n + weight else LONG_MAX)]\<rparr>
       else s)"

definition note_definition :: "scan_env \<Rightarrow> int \<Rightarrow> machine_register \<Rightarrow> fact_state \<Rightarrow> fact_state" where
  "note_definition env weight r s = (case register_position (se_registers env) r of
     None \<Rightarrow> s
   | Some k \<Rightarrow>
       let s = (if se_advanced env \<and> bs_contains k (fa_gen s) then decrease (se_function env) r s else s)
       in note_reference env weight r k (s\<lparr>fa_gen := bs_erase k (fa_gen s), fa_kill := bs_insert k (fa_kill s)\<rparr>))"

definition note_use :: "scan_env \<Rightarrow> int \<Rightarrow> machine_register \<Rightarrow> fact_state \<Rightarrow> fact_state" where
  "note_use env weight r s = (case register_position (se_registers env) r of
     None \<Rightarrow> s
   | Some k \<Rightarrow>
       let s = (if se_advanced env \<and> \<not> bs_contains k (fa_gen s) then increase (se_function env) r s else s)
       in note_reference env weight r k (s\<lparr>fa_gen := bs_insert k (fa_gen s)\<rparr>))"

definition note_clobber :: "scan_env \<Rightarrow> physical_register \<Rightarrow> fact_state \<Rightarrow> fact_state" where
  "note_clobber env q s = (case register_position (se_registers env) (PhysicalReg q) of
     None \<Rightarrow> s
   | Some k \<Rightarrow>
       let s = (if se_advanced env then increase (se_function env) (PhysicalReg q) s else s);
           s = s\<lparr>fa_gen := bs_erase k (fa_gen s), fa_kill := bs_insert k (fa_kill s)\<rparr>
       in if se_advanced env then decrease (se_function env) (PhysicalReg q) s else s)"

definition note_argument :: "scan_env \<Rightarrow> physical_register \<Rightarrow> fact_state \<Rightarrow> fact_state" where
  "note_argument env q s = (case register_position (se_registers env) (PhysicalReg q) of
     None \<Rightarrow> s | Some k \<Rightarrow> s\<lparr>fa_gen := bs_insert k (fa_gen s)\<rparr>)"

definition note_call :: "scan_env \<Rightarrow> machine_instruction \<Rightarrow> fact_state \<Rightarrow> fact_state" where
  "note_call env i s = (if is_call (mi_opcode i) \<and> \<not> se_compact env
     then s\<lparr>fa_kill := fst (bs_union_with False (fa_kill s) (se_clobbered env)),
            fa_gen := fst (bs_union_with False (bs_subtract (fa_gen s) (se_clobbered env)) (se_globals env))\<rparr>
     else s)"

definition note_instruction :: "scan_env \<Rightarrow> int \<Rightarrow> machine_instruction \<Rightarrow> fact_state \<Rightarrow> fact_state" where
  "note_instruction env weight i s =
    (let s = fold (note_use env weight) (visit_registers i False) (fold (note_definition env weight) (visit_registers i True) (note_call env i s))
     in if se_compact env then s
        else let s = fold (note_clobber env) (early_clobbers (mf_target (se_function env)) (mi_opcode i)) s
             in if is_call (mi_opcode i) then fold (note_argument env) (mi_arguments i) s else s)"

definition fact_start :: "int list \<Rightarrow> fact_state" where
  "fact_start refs = \<lparr>fa_gen = [], fa_kill = [], fa_ints = 0, fa_floats = 0, fa_max_int = 0, fa_max_float = 0, fa_references = refs\<rparr>"

definition machine_body :: "machine_function \<Rightarrow> nat \<Rightarrow> machine_instruction list" where
  "machine_body f b = (if b < 2 then [] else node_body f b)"

record block_liveness =
  bl_in :: bitset
  bl_out :: bitset
  bl_gen :: bitset
  bl_kill :: bitset
  bl_int :: int
  bl_float :: int

definition empty_block :: block_liveness where
  "empty_block = \<lparr>bl_in = [], bl_out = [], bl_gen = [], bl_kill = [], bl_int = 0, bl_float = 0\<rparr>"

definition machine_facts :: "scan_env \<Rightarrow> nat list \<Rightarrow> nat \<Rightarrow> block_liveness list \<times> int list \<Rightarrow> block_liveness list \<times> int list" where
  "machine_facts env depth b = (\<lambda>(blocks, refs).
     let weight = (if se_advanced env \<and> se_frequencies env then block_weight (depth ! b) 1 else 1);
         s = fold (note_instruction env weight) (rev (node_body (se_function env) b)) (fact_start refs)
     in (blocks[b := (blocks ! b)\<lparr>bl_gen := fa_gen s, bl_kill := fa_kill s, bl_int := fa_max_int s, bl_float := fa_max_float s\<rparr>],
         fa_references s))"

section \<open>The solver\<close>

record round_state =
  ro_in :: "bitset list"
  ro_out :: "bitset list"
  ro_pending :: "nat list"
  ro_scheduled :: "nat list"

definition gather_changed :: "flow_graph \<Rightarrow> bitset list \<Rightarrow> nat \<Rightarrow> bitset \<times> bool \<Rightarrow> bitset \<times> bool" where
  "gather_changed g ins b = fold (\<lambda>eid (out, changed).
     let (out, c) = bs_union_with False out (ins ! ed_destination (fg_edges g ! eid)) in (out, changed \<or> c)) (fg_outgoing g ! b)"

definition schedule :: "nat \<Rightarrow> nat \<Rightarrow> round_state \<Rightarrow> round_state" where
  "schedule epoch p s = (if ro_scheduled s ! p = epoch then s
     else s\<lparr>ro_scheduled := (ro_scheduled s)[p := epoch], ro_pending := ro_pending s @ [p]\<rparr>)"

definition visit_node :: "flow_graph \<Rightarrow> bitset list \<Rightarrow> bitset list \<Rightarrow> bool \<Rightarrow> nat \<Rightarrow> nat \<Rightarrow> round_state \<Rightarrow> round_state" where
  "visit_node g gens kills first_round epoch b s =
    (let (out, changed) = gather_changed g (ro_in s) b (ro_out s ! b, first_round); s = s\<lparr>ro_out := (ro_out s)[b := out]\<rparr>
     in if \<not> changed then s
        else let new = live_transfer (gens ! b) (kills ! b) out
             in if new = ro_in s ! b then s
                else fold (schedule epoch) (map (\<lambda>eid. ed_source (fg_edges g ! eid)) (fg_incoming g ! b)) (s\<lparr>ro_in := (ro_in s)[b := new]\<rparr>))"

text \<open>The blocks in the order of their numbers.  Unreachable blocks share the number 0 and \<open>std::sort\<close> may take them in
  any order; the solution does not depend on it.\<close>

definition round_order :: "nat list \<Rightarrow> nat list \<Rightarrow> nat list" where
  "round_order rpost work = sort_key (\<lambda>b. - int (rpost ! b)) work"

text \<open>A round visits the blocks whose successors changed in the round before; the first one visits them all.\<close>

definition live_round :: "flow_graph \<Rightarrow> bitset list \<Rightarrow> bitset list \<Rightarrow> nat list \<Rightarrow> nat list \<times> nat \<times> round_state \<Rightarrow> nat list \<times> nat \<times> round_state" where
  "live_round g gens kills rpost = (\<lambda>(work, epoch, s).
     let s = fold (visit_node g gens kills (epoch = 0) (epoch + 1)) (round_order rpost work) (s\<lparr>ro_pending := []\<rparr>)
     in (ro_pending s, epoch + 1, s))"

definition solve_rounds :: "flow_graph \<Rightarrow> bitset list \<Rightarrow> bitset list \<Rightarrow> nat list \<Rightarrow> bitset list \<Rightarrow> nat \<Rightarrow> (nat list \<times> nat \<times> round_state) option" where
  "solve_rounds g gens kills rpost outs count =
     while_option (\<lambda>(work, _). work \<noteq> []) (live_round g gens kills rpost)
       ([0..<count], 0, \<lparr>ro_in = replicate count [], ro_out = outs, ro_pending = [], ro_scheduled = replicate count 0\<rparr>)"

section \<open>Pressure and last uses\<close>

text \<open>The positions of a compact scan are read as positions of the complete list, as the reference does.\<close>

definition add_pressure :: "machine_function \<Rightarrow> block_liveness \<Rightarrow> block_liveness" where
  "add_pressure f bl =
    (let s = fold (\<lambda>k s. increase f (all_registers f ! k) s) (bs_for_each (bl_out bl))
          ((fact_start [])\<lparr>fa_ints := bl_int bl, fa_floats := bl_float bl, fa_max_int := bl_int bl, fa_max_float := bl_float bl\<rparr>)
     in bl\<lparr>bl_int := fa_max_int s, bl_float := fa_max_float s\<rparr>)"

definition erase_register :: "scan_env \<Rightarrow> machine_register \<Rightarrow> bitset \<Rightarrow> bitset" where
  "erase_register env r live = (case register_position (se_registers env) r of None \<Rightarrow> live | Some k \<Rightarrow> bs_erase k live)"

definition insert_register :: "scan_env \<Rightarrow> machine_register \<Rightarrow> bitset \<Rightarrow> bitset" where
  "insert_register env r live = (case register_position (se_registers env) r of None \<Rightarrow> live | Some k \<Rightarrow> bs_insert k live)"

definition last_use :: "scan_env \<Rightarrow> machine_register \<Rightarrow> bitset \<times> machine_register list \<Rightarrow> bitset \<times> machine_register list" where
  "last_use env r = (\<lambda>(live, dead). case register_position (se_registers env) r of
     None \<Rightarrow> (live, dead)
   | Some k \<Rightarrow> (bs_insert k live, if bs_contains k live then dead else dead @ [r]))"

definition instruction_deaths :: "scan_env \<Rightarrow> machine_instruction \<Rightarrow> bitset \<Rightarrow> bitset \<times> machine_register list" where
  "instruction_deaths env i live =
    (let live = fold (erase_register env) (visit_registers i True) live;
         live = (if is_call (mi_opcode i) \<and> \<not> se_compact env
                 then fst (bs_union_with False (bs_subtract live (se_clobbered env)) (se_globals env)) else live);
         (live, dead) = fold (last_use env) (visit_registers i False) (live, []);
         live = (if se_compact env then live
                 else let live = fold (erase_register env) (map PhysicalReg (early_clobbers (mf_target (se_function env)) (mi_opcode i))) live
                      in if is_call (mi_opcode i) then fold (insert_register env) (map PhysicalReg (mi_arguments i)) live else live)
     in (live, dead))"

fun body_deaths :: "scan_env \<Rightarrow> machine_instruction list \<Rightarrow> bitset \<Rightarrow> machine_register list list" where
  "body_deaths env [] live = []"
| "body_deaths env (i # is) live = (let (live, dead) = instruction_deaths env i live in dead # body_deaths env is live)"

section \<open>The analysis\<close>

record machine_liveness =
  mv_level :: nat
  mv_compact :: bool
  mv_has_frequencies :: bool
  mv_registers :: "machine_register list"
  mv_globals :: "physical_register list"
  mv_blocks :: "block_liveness list"
  mv_frequencies :: "int list"
  mv_deaths :: "machine_register list list list option"

definition global_bits :: "machine_register list \<Rightarrow> physical_register list \<Rightarrow> bitset \<Rightarrow> bitset" where
  "global_bits rs qs bits = fold (\<lambda>q bits. case register_position rs (PhysicalReg q) of Some k \<Rightarrow> bs_insert k bits | None \<Rightarrow> bits) qs bits"

definition scan_environment :: "machine_function \<Rightarrow> liveness_options \<Rightarrow> machine_register list \<Rightarrow> scan_env" where
  "scan_environment f opts rs =
    (let compact = (op_scan opts \<noteq> []); clobbers = filter (\<lambda>q. call_clobbers (mf_target f) q (mk_type K_Undef)) (map ri_reg (tm_registers (mf_target f)))
     in \<lparr>se_function = f, se_registers = rs, se_compact = compact, se_advanced = (op_level opts \<noteq> 0), se_frequencies = op_frequencies opts,
         se_clobbered = (if compact then [] else global_bits rs clobbers []),
         se_globals = (if compact then [] else global_bits rs (mf_globals f @ op_globals opts) [])\<rparr>)"

definition global_register :: "machine_register \<Rightarrow> physical_register list" where
  "global_register r = (case r of PhysicalReg q \<Rightarrow> [q] | VirtualReg _ \<Rightarrow> [])"

definition finish_liveness :: "scan_env \<Rightarrow> liveness_options \<Rightarrow> block_liveness list \<Rightarrow> int list \<Rightarrow> machine_liveness" where
  "finish_liveness env opts blocks refs =
    (let f = se_function env; blocks = (if se_advanced env then map (add_pressure f) blocks else blocks)
     in \<lparr>mv_level = op_level opts, mv_compact = se_compact env, mv_has_frequencies = op_frequencies opts, mv_registers = se_registers env,
         mv_globals = concat (map (\<lambda>k. global_register (se_registers env ! k)) (bs_for_each (se_globals env))),
         mv_blocks = blocks, mv_frequencies = refs,
         mv_deaths = (if se_advanced env
           then Some (map (\<lambda>b. rev (body_deaths env (rev (machine_body f b)) (bl_out (blocks ! b)))) [0..<length blocks])
           else None)\<rparr>)"

definition solve_environment :: "scan_env \<Rightarrow> machine_graph \<Rightarrow> (block_liveness list \<times> int list) option" where
  "solve_environment env g =
    (let n = machine_count (se_function env);
         (blocks, refs) = fold (machine_facts env (mg_depth g)) [2..<n] (replicate n empty_block, replicate (length (se_registers env)) 0);
         outs = (replicate n [])[1 := se_globals env]
     in map_option (\<lambda>(_, _, s). (map (\<lambda>b. (blocks ! b)\<lparr>bl_in := ro_in s ! b, bl_out := ro_out s ! b\<rparr>) [0..<n], refs))
          (solve_rounds (mg_cfg g) (map bl_gen blocks) (map bl_kill blocks) (mg_rpost g) outs n))"

text \<open>\<open>is_current\<close> is whether the graph belongs to the function as it is.\<close>

definition analyze_liveness :: "machine_function \<Rightarrow> machine_graph \<Rightarrow> bool \<Rightarrow> liveness_options \<Rightarrow> machine_liveness result option" where
  "analyze_liveness f g is_current opts =
    (if 3 < op_level opts \<or> \<not> is_current then Some (Inl (liveness_invalid f ''invalid optimization level or stale/foreign CFG''))
     else case add_registers f (if op_scan opts = [] then all_registers f else op_scan opts) [] of
       Inl e \<Rightarrow> Some (Inl e)
     | Inr rs \<Rightarrow>
         if \<not> list_all (\<lambda>q. register_info (mf_target f) q \<noteq> None) (op_globals opts)
         then Some (Inl (liveness_invalid f ''foreign global hardware register''))
         else let env = scan_environment f opts rs
              in map_option (\<lambda>(blocks, refs). Inr (finish_liveness env opts blocks refs)) (solve_environment env g))"

section \<open>Reading the result\<close>

definition liveness_index :: "machine_function \<Rightarrow> machine_liveness \<Rightarrow> bool \<Rightarrow> machine_register \<Rightarrow> nat result" where
  "liveness_index f lv is_current r =
    (if \<not> is_current then Inl (liveness_invalid f ''stale analysis'')
     else case (case r of VirtualReg _ \<Rightarrow> register_position (mv_registers lv) r
                | PhysicalReg p \<Rightarrow> if register_info (mf_target f) p \<noteq> None then register_position (mv_registers lv) r else None) of
         Some k \<Rightarrow> Inr k
       | None \<Rightarrow> Inl (liveness_invalid f ''register is foreign or outside the selected scan''))"

definition liveness_contains :: "machine_function \<Rightarrow> machine_liveness \<Rightarrow> bool \<Rightarrow> bitset \<Rightarrow> machine_register \<Rightarrow> bool result" where
  "liveness_contains f lv is_current bits r = map_sum id (\<lambda>k. bs_contains k bits) (liveness_index f lv is_current r)"

definition liveness_frequency :: "machine_function \<Rightarrow> machine_liveness \<Rightarrow> bool \<Rightarrow> machine_register \<Rightarrow> int result" where
  "liveness_frequency f lv is_current r = map_sum id (\<lambda>k. mv_frequencies lv ! k) (liveness_index f lv is_current r)"

definition deaths_at :: "machine_function \<Rightarrow> machine_liveness \<Rightarrow> bool \<Rightarrow> nat \<times> nat \<Rightarrow> machine_register list result" where
  "deaths_at f lv is_current = (\<lambda>(b, k).
     if \<not> is_current then Inl (liveness_invalid f ''stale analysis or foreign instruction'')
     else case mv_deaths lv of
       Some ds \<Rightarrow> Inr (ds ! b ! k)
     | None \<Rightarrow> Inl (liveness_invalid f ''dead-variable metadata requires O1 or higher''))"

end
