(* ===== verification/MachineLive.thy ===== *)
theory MachineLive
  imports MachineLiveness
begin

text \<open>
  The machine liveness of \<open>lib/CodeGen/Liveness.cpp\<close> is exact: a register is live where some path leads to an
  instruction that reads it before any overwrites it, or to the exit when it is a global one.
\<close>

section \<open>What an instruction does to the live registers\<close>

definition positions :: "scan_env \<Rightarrow> machine_register list \<Rightarrow> nat set" where
  "positions env rs = {k. \<exists>r\<in>set rs. register_position (se_registers env) r = Some k}"

lemma positions_code [code]: "positions env rs = (\<Union>r\<in>set rs. case register_position (se_registers env) r of None \<Rightarrow> {} | Some k \<Rightarrow> {k})"
  by (auto simp: positions_def split: option.splits)

definition crosses_call :: "scan_env \<Rightarrow> machine_instruction \<Rightarrow> bool" where
  "crosses_call env i \<longleftrightarrow> is_call (mi_opcode i) \<and> \<not> se_compact env"

definition defined_registers :: "scan_env \<Rightarrow> machine_instruction \<Rightarrow> nat set" where
  "defined_registers env i = positions env (visit_registers i True)"

definition used_registers :: "scan_env \<Rightarrow> machine_instruction \<Rightarrow> nat set" where
  "used_registers env i = positions env (visit_registers i False)"

definition clobbered_early :: "scan_env \<Rightarrow> machine_instruction \<Rightarrow> nat set" where
  "clobbered_early env i = (if se_compact env then {}
     else positions env (map PhysicalReg (early_clobbers (mf_target (se_function env)) (mi_opcode i))))"

definition argument_registers :: "scan_env \<Rightarrow> machine_instruction \<Rightarrow> nat set" where
  "argument_registers env i = (if crosses_call env i then positions env (map PhysicalReg (mi_arguments i)) else {})"

text \<open>The registers an instruction overwrites, and those whose value before it is read.\<close>

definition overwrites :: "scan_env \<Rightarrow> machine_instruction \<Rightarrow> nat set" where
  "overwrites env i = (if crosses_call env i then bs_elems (se_clobbered env) else {}) \<union> defined_registers env i \<union> clobbered_early env i"

definition reads :: "scan_env \<Rightarrow> machine_instruction \<Rightarrow> nat set" where
  "reads env i = (((if crosses_call env i then bs_elems (se_globals env) else {}) - defined_registers env i \<union> used_registers env i) -
     clobbered_early env i) \<union> argument_registers env i"

definition live_before_instruction :: "scan_env \<Rightarrow> machine_instruction \<Rightarrow> nat set \<Rightarrow> nat set" where
  "live_before_instruction env i X = (X - overwrites env i) \<union> reads env i"

definition live_through :: "scan_env \<Rightarrow> machine_instruction list \<Rightarrow> nat set \<Rightarrow> nat set" where
  "live_through env is X = foldr (live_before_instruction env) is X"

definition env_wf :: "scan_env \<Rightarrow> bool" where
  "env_wf env \<longleftrightarrow> bs_wf (se_clobbered env) \<and> bs_wf (se_globals env)"

lemma live_through_simps [simp]:
  "live_through env [] X = X" "live_through env (i # is) X = live_before_instruction env i (live_through env is X)"
  by (simp_all add: live_through_def)

lemma live_through_append: "live_through env (xs @ ys) X = live_through env xs (live_through env ys X)"
  by (simp add: live_through_def)

definition overwritten :: "scan_env \<Rightarrow> machine_instruction list \<Rightarrow> nat set" where
  "overwritten env is = (\<Union>i\<in>set is. overwrites env i)"

lemma live_through_split: "live_through env is X = (X - overwritten env is) \<union> live_through env is {}"
  by (induction "is") (auto simp: live_before_instruction_def overwritten_def)

section \<open>The facts of a block\<close>

definition facts_wf :: "fact_state \<Rightarrow> bool" where
  "facts_wf s \<longleftrightarrow> bs_wf (fa_gen s) \<and> bs_wf (fa_kill s)"

lemma count_simps [simp]:
  "fa_gen (increase f r s) = fa_gen s" "fa_kill (increase f r s) = fa_kill s"
  "fa_gen (decrease f r s) = fa_gen s" "fa_kill (decrease f r s) = fa_kill s"
  "fa_gen (note_reference env w r k s) = fa_gen s" "fa_kill (note_reference env w r k s) = fa_kill s"
  by (auto simp: increase_def decrease_def note_reference_def Let_def split: machine_register.splits)

definition facts_sets :: "fact_state \<Rightarrow> nat set \<Rightarrow> nat set \<Rightarrow> bool" where
  "facts_sets s G K \<longleftrightarrow> facts_wf s \<and> bs_elems (fa_gen s) = G \<and> bs_elems (fa_kill s) = K"

lemma positions_Cons:
  "positions env (r # rs) = (case register_position (se_registers env) r of None \<Rightarrow> {} | Some k \<Rightarrow> {k}) \<union> positions env rs"
  by (auto simp: positions_def split: option.splits)

lemma positions_Nil [simp]: "positions env [] = {}"
  by (simp add: positions_def)

lemma fold_note_definition:
  "facts_sets s G K \<Longrightarrow> facts_sets (fold (note_definition env w) rs s) (G - positions env rs) (K \<union> positions env rs)"
proof (induction rs arbitrary: s G K)
  case (Cons r rs)
  have "facts_sets (note_definition env w r s) (G - positions env [r]) (K \<union> positions env [r])"
    using Cons.prems by (auto simp: facts_sets_def facts_wf_def note_definition_def Let_def positions_Cons bits.element_laws bits.invars split: option.splits)
  from Cons.IH [OF this] show ?case by (simp add: positions_Cons [of env r rs] positions_Cons [of env r "[]"] Diff_Un Un_ac Diff_eq Int_ac)
qed simp

lemma fold_note_use:
  "facts_sets s G K \<Longrightarrow> facts_sets (fold (note_use env w) rs s) (G \<union> positions env rs) K"
proof (induction rs arbitrary: s G)
  case (Cons r rs)
  have "facts_sets (note_use env w r s) (G \<union> positions env [r]) K"
    using Cons.prems by (auto simp: facts_sets_def facts_wf_def note_use_def Let_def positions_Cons bits.element_laws bits.invars split: option.splits)
  from Cons.IH [OF this] show ?case by (simp add: positions_Cons [of env r rs] positions_Cons [of env r "[]"] Un_ac)
qed simp

lemma fold_note_clobber:
  "facts_sets s G K \<Longrightarrow> facts_sets (fold (note_clobber env) qs s) (G - positions env (map PhysicalReg qs)) (K \<union> positions env (map PhysicalReg qs))"
proof (induction qs arbitrary: s G K)
  case (Cons q qs)
  have "facts_sets (note_clobber env q s) (G - positions env [PhysicalReg q]) (K \<union> positions env [PhysicalReg q])"
    using Cons.prems by (auto simp: facts_sets_def facts_wf_def note_clobber_def Let_def positions_Cons bits.element_laws bits.invars split: option.splits)
  from Cons.IH [OF this] show ?case
    by (simp add: positions_Cons [of env _ "map PhysicalReg qs"] positions_Cons [of env _ "[]"] Diff_Un Un_ac Diff_eq Int_ac)
qed simp

lemma fold_note_argument:
  "facts_sets s G K \<Longrightarrow> facts_sets (fold (note_argument env) qs s) (G \<union> positions env (map PhysicalReg qs)) K"
proof (induction qs arbitrary: s G)
  case (Cons q qs)
  have "facts_sets (note_argument env q s) (G \<union> positions env [PhysicalReg q]) K"
    using Cons.prems by (auto simp: facts_sets_def facts_wf_def note_argument_def positions_Cons bits.element_laws bits.invars split: option.splits)
  from Cons.IH [OF this] show ?case by (simp add: positions_Cons [of env _ "map PhysicalReg qs"] positions_Cons [of env _ "[]"] Un_ac)
qed simp

lemma note_call_sets:
  "env_wf env \<Longrightarrow> facts_sets s G K \<Longrightarrow> facts_sets (note_call env i s)
     (if crosses_call env i then (G - bs_elems (se_clobbered env)) \<union> bs_elems (se_globals env) else G)
     (if crosses_call env i then K \<union> bs_elems (se_clobbered env) else K)"
  by (auto simp: facts_sets_def facts_wf_def env_wf_def note_call_def crosses_call_def bits.element_laws bits.invars)

lemma note_instruction_sets:
  assumes env: "env_wf env" and s: "facts_sets s G K"
  shows "facts_sets (note_instruction env w i s) (live_before_instruction env i G) (K \<union> overwrites env i)"
proof -
  let ?s1 = "note_call env i s"
  let ?s3 = "fold (note_use env w) (visit_registers i False) (fold (note_definition env w) (visit_registers i True) ?s1)"
  let ?G1 = "if crosses_call env i then (G - bs_elems (se_clobbered env)) \<union> bs_elems (se_globals env) else G"
  let ?K1 = "if crosses_call env i then K \<union> bs_elems (se_clobbered env) else K"
  have s3: "facts_sets ?s3 (?G1 - defined_registers env i \<union> used_registers env i) (?K1 \<union> defined_registers env i)"
    unfolding defined_registers_def used_registers_def
    by (rule fold_note_use [OF fold_note_definition [OF note_call_sets [OF env s]]])
  show ?thesis
  proof (cases "se_compact env")
    case True
    then have "note_instruction env w i s = ?s3" by (simp add: note_instruction_def)
    then show ?thesis using s3 True
      by (simp add: live_before_instruction_def overwrites_def reads_def crosses_call_def clobbered_early_def argument_registers_def)
  next
    case False
    let ?s4 = "fold (note_clobber env) (early_clobbers (mf_target (se_function env)) (mi_opcode i)) ?s3"
    have s4: "facts_sets ?s4 (?G1 - defined_registers env i \<union> used_registers env i - clobbered_early env i)
        (?K1 \<union> defined_registers env i \<union> clobbered_early env i)"
      using fold_note_clobber [OF s3] False by (simp add: clobbered_early_def)
    have K: "?K1 \<union> defined_registers env i \<union> clobbered_early env i = K \<union> overwrites env i" by (auto simp: overwrites_def)
    show ?thesis
    proof (cases "is_call (mi_opcode i)")
      case True
      have "note_instruction env w i s = fold (note_argument env) (mi_arguments i) ?s4"
        using False True by (simp add: note_instruction_def Let_def)
      moreover have "?G1 - defined_registers env i \<union> used_registers env i - clobbered_early env i \<union> positions env (map PhysicalReg (mi_arguments i)) =
          live_before_instruction env i G"
        using True False by (auto simp: live_before_instruction_def overwrites_def reads_def crosses_call_def argument_registers_def)
      ultimately show ?thesis using fold_note_argument [OF s4, of env "mi_arguments i"] K by simp
    next
      case nocall: False
      have "note_instruction env w i s = ?s4" using False nocall by (simp add: note_instruction_def Let_def)
      moreover have "?G1 - defined_registers env i \<union> used_registers env i - clobbered_early env i = live_before_instruction env i G"
        using nocall by (auto simp: live_before_instruction_def overwrites_def reads_def crosses_call_def argument_registers_def)
      ultimately show ?thesis using s4 K by simp
    qed
  qed
qed

lemma note_body_sets:
  assumes env: "env_wf env"
  shows "facts_sets (fold (note_instruction env w) (rev is) (fact_start refs)) (live_through env is {}) (overwritten env is)"
proof (induction "is")
  case Nil
  then show ?case by (simp add: facts_sets_def facts_wf_def fact_start_def overwritten_def bits.element_laws bits.invars)
next
  case (Cons i "is")
  from note_instruction_sets [OF env Cons] show ?case by (simp add: overwritten_def Un_commute)
qed

text \<open>The facts of all blocks; the boundary nodes have none.\<close>

definition block_ok :: "scan_env \<Rightarrow> nat set \<Rightarrow> nat \<Rightarrow> block_liveness \<Rightarrow> bool" where
  "block_ok env D b bl \<longleftrightarrow> bs_wf (bl_gen bl) \<and> bs_wf (bl_kill bl) \<and>
     (b < 2 \<or> b \<in> D \<longrightarrow> bs_elems (bl_gen bl) = live_through env (machine_body (se_function env) b) {} \<and>
        bs_elems (bl_kill bl) = overwritten env (machine_body (se_function env) b))"

definition facts_ok :: "scan_env \<Rightarrow> nat \<Rightarrow> nat set \<Rightarrow> block_liveness list \<Rightarrow> bool" where
  "facts_ok env n D blocks \<longleftrightarrow> length blocks = n \<and> (\<forall>b<n. block_ok env D b (blocks ! b))"

lemma machine_facts_ok:
  assumes env: "env_wf env"
  shows "facts_ok env n D blocks \<Longrightarrow> \<forall>b\<in>set bs. 2 \<le> b \<Longrightarrow> facts_ok env n (D \<union> set bs) (fst (fold (machine_facts env depth) bs (blocks, refs)))"
proof (induction bs arbitrary: blocks refs D)
  case (Cons b bs)
  define w where "w = (if se_advanced env \<and> se_frequencies env then block_weight (depth ! b) 1 else 1)"
  define s where "s = fold (note_instruction env w) (rev (node_body (se_function env) b)) (fact_start refs)"
  let ?blocks = "blocks[b := (blocks ! b)\<lparr>bl_gen := fa_gen s, bl_kill := fa_kill s, bl_int := fa_max_int s, bl_float := fa_max_float s\<rparr>]"
  have st: "machine_facts env depth b (blocks, refs) = (?blocks, fa_references s)" by (simp add: machine_facts_def Let_def s_def w_def)
  have "facts_sets s (live_through env (node_body (se_function env) b) {}) (overwritten env (node_body (se_function env) b))"
    unfolding s_def by (rule note_body_sets [OF env])
  then have new: "block_ok env (insert b D) b ((blocks ! b)\<lparr>bl_gen := fa_gen s, bl_kill := fa_kill s, bl_int := fa_max_int s, bl_float := fa_max_float s\<rparr>)"
    using Cons.prems(2) by (simp add: block_ok_def facts_sets_def facts_wf_def machine_body_def)
  have "block_ok env (insert b D) a (?blocks ! a)" if "a < n" for a
  proof (cases "a = b")
    case True
    then show ?thesis using new that Cons.prems(1) by (simp add: facts_ok_def)
  next
    case False
    then show ?thesis using that Cons.prems(1) by (simp add: facts_ok_def block_ok_def)
  qed
  then have "facts_ok env n (insert b D) ?blocks" using Cons.prems(1) by (simp add: facts_ok_def)
  from Cons.IH [OF this] Cons.prems(2) show ?case by (simp add: st)
qed simp

lemma facts_start: "facts_ok env n {} (replicate n empty_block)"
  by (simp add: facts_ok_def block_ok_def empty_block_def machine_body_def overwritten_def bits.element_laws bits.invars)

section \<open>The rounds follow the abstract solver\<close>

definition rounds_problem :: "flow_graph \<Rightarrow> bitset list \<Rightarrow> bitset list \<Rightarrow> nat set \<Rightarrow> nat \<Rightarrow> flow_problem" where
  "rounds_problem g gens kills seed n = \<lparr>fp_nodes = n, fp_succ = (\<lambda>b. if b < n then set (targets_of g b) else {}),
     fp_gen = (\<lambda>b. if b < n then bs_elems (gens ! b) else {}), fp_kill = (\<lambda>b. bs_elems (kills ! b)),
     fp_seed = (\<lambda>b. if b = 1 then seed else {})\<rparr>"

lemma rounds_problem_simps [simp]:
  "fp_nodes (rounds_problem g gens kills seed n) = n"
  "b < n \<Longrightarrow> fp_succ (rounds_problem g gens kills seed n) b = set (targets_of g b)"
  "b < n \<Longrightarrow> fp_gen (rounds_problem g gens kills seed n) b = bs_elems (gens ! b)"
  "fp_kill (rounds_problem g gens kills seed n) b = bs_elems (kills ! b)"
  "fp_seed (rounds_problem g gens kills seed n) b = (if b = 1 then seed else {})"
  by (simp_all add: rounds_problem_def)

lemma flow_ok_more_work: "flow_ok p a \<Longrightarrow> X \<subseteq> {..<fp_nodes p} \<Longrightarrow> flow_ok p (a\<lparr>fs_work := fs_work a \<union> X\<rparr>)"
  by (auto simp: flow_ok_def Dataflow.settled_def flow_out_def)

definition union_changed :: "bitset \<Rightarrow> bitset \<times> bool \<Rightarrow> bitset \<times> bool" where
  "union_changed x = (\<lambda>(out, changed). let (out, c) = bs_union_with False out x in (out, changed \<or> c))"

lemma fold_union_changed:
  "bs_wf out \<Longrightarrow> \<forall>e\<in>set es. bs_wf (h e) \<Longrightarrow>
   fst (fold (\<lambda>e. union_changed (h e)) es (out, c)) = fold (\<lambda>e out. fst (bs_union_with False out (h e))) es out \<and>
   (snd (fold (\<lambda>e. union_changed (h e)) es (out, c)) \<longleftrightarrow> c \<or> \<not> (\<Union>e\<in>set es. bs_elems (h e)) \<subseteq> bs_elems out)"
proof (induction es arbitrary: out c)
  case (Cons e es)
  obtain o1 c1 where u: "bs_union_with False out (h e) = (o1, c1)" by fastforce
  have he: "bs_wf (h e)" and h: "\<forall>e\<in>set es. bs_wf (h e)" using Cons.prems(2) by simp_all
  have w: "bs_wf o1" "bs_elems o1 = bs_elems out \<union> bs_elems (h e)" "c1 \<longleftrightarrow> \<not> bs_elems (h e) \<subseteq> bs_elems out"
    using bits.union_with [OF Cons.prems(1) he] bits.invar_union_with [OF Cons.prems(1) he] bits.changed_union_with [OF Cons.prems(1) he] u by simp_all
  have st: "union_changed (h e) (out, c) = (o1, c \<or> c1)" using u by (simp add: union_changed_def)
  have "(c \<or> c1) \<or> \<not> (\<Union>e\<in>set es. bs_elems (h e)) \<subseteq> bs_elems o1 \<longleftrightarrow> c \<or> \<not> (\<Union>e\<in>set (e # es). bs_elems (h e)) \<subseteq> bs_elems out"
    unfolding w(2,3) by auto
  then show ?case using Cons.IH [OF w(1) h, of "c \<or> c1"] u st by simp
qed simp

lemma gather_changed_spec:
  assumes g: "graph_ok n g" and b: "b < n" and ins: "sets_follow n ins f" and out: "bs_wf out"
  shows "fst (gather_changed g ins b (out, c)) = gather_out g ins b out"
    "snd (gather_changed g ins b (out, c)) \<longleftrightarrow> c \<or> bs_elems (gather_out g ins b out) \<noteq> bs_elems out"
proof -
  have "ed_destination (fg_edges g ! eid) < n" if "eid \<in> set (fg_outgoing g ! b)" for eid
    using graph_okD(1) [OF g that b] graph_okD(4) [OF g] by blast
  then have t: "\<forall>eid\<in>set (fg_outgoing g ! b). bs_wf (ins ! ed_destination (fg_edges g ! eid))"
    using ins by (simp add: sets_follow_def)
  have gc: "gather_changed g ins b (out, c) = fold (\<lambda>eid. union_changed (ins ! ed_destination (fg_edges g ! eid))) (fg_outgoing g ! b) (out, c)"
    by (simp add: gather_changed_def union_changed_def)
  show "fst (gather_changed g ins b (out, c)) = gather_out g ins b out"
    unfolding gc gather_out_def by (rule conjunct1 [OF fold_union_changed [OF out t]])
  show "snd (gather_changed g ins b (out, c)) \<longleftrightarrow> c \<or> bs_elems (gather_out g ins b out) \<noteq> bs_elems out"
    unfolding gc gather_out_def conjunct2 [OF fold_union_changed [OF out t]] using fold_union [OF out t] by auto
qed

section \<open>A visit is a step of the solver\<close>

lemma schedule_fields [simp]: "ro_in (schedule e p s) = ro_in s" "ro_out (schedule e p s) = ro_out s"
  by (simp_all add: schedule_def)

definition scheduled_ok :: "nat \<Rightarrow> nat \<Rightarrow> round_state \<Rightarrow> bool" where
  "scheduled_ok n epoch s \<longleftrightarrow> length (ro_scheduled s) = n \<and> set (ro_pending s) \<subseteq> {..<n} \<and> distinct (ro_pending s) \<and>
     (\<forall>p<n. ro_scheduled s ! p = epoch \<longleftrightarrow> p \<in> set (ro_pending s))"

lemma schedule_ok:
  "scheduled_ok n epoch s \<Longrightarrow> p < n \<Longrightarrow> scheduled_ok n epoch (schedule epoch p s) \<and> set (ro_pending (schedule epoch p s)) = insert p (set (ro_pending s))"
  by (auto simp: scheduled_ok_def schedule_def nth_list_update)

lemma fold_schedule:
  "scheduled_ok n epoch s \<Longrightarrow> set ps \<subseteq> {..<n} \<Longrightarrow> scheduled_ok n epoch (fold (schedule epoch) ps s) \<and>
   set (ro_pending (fold (schedule epoch) ps s)) = set ps \<union> set (ro_pending s) \<and> ro_in (fold (schedule epoch) ps s) = ro_in s \<and>
   ro_out (fold (schedule epoch) ps s) = ro_out s"
proof (induction ps arbitrary: s)
  case (Cons p ps)
  then have p: "p < n" by simp
  note so = schedule_ok [OF Cons.prems(1) p]
  show ?case using Cons.IH [of "schedule epoch p s"] so Cons.prems(2) by auto
qed simp

text \<open>The state of a round: the sets are those of the abstract solver, whose work is what is left of the round and what
  is scheduled for the next.  After the first round every node has been visited.\<close>

definition round_follows :: "flow_problem \<Rightarrow> nat \<Rightarrow> nat \<Rightarrow> nat set \<Rightarrow> round_state \<Rightarrow> flow_state \<Rightarrow> bool" where
  "round_follows p n epoch left s a \<longleftrightarrow> flow_ok p a \<and> sets_follow n (ro_in s) (fs_in a) \<and> sets_follow n (ro_out s) (fs_out a) \<and>
     scheduled_ok n epoch s \<and> fs_work a = left \<union> set (ro_pending s)"

definition visited :: "flow_problem \<Rightarrow> nat set \<Rightarrow> flow_state \<Rightarrow> bool" where
  "visited p V a \<longleftrightarrow> (\<forall>b\<in>V. fs_in a b = flow_transfer p b (fs_out a b))"

definition deficit :: "flow_problem \<Rightarrow> flow_state \<Rightarrow> nat" where
  "deficit p a = (\<Sum>b<fp_nodes p. card (flow_facts p - fs_in a b))"

lemma flow_step_deficit:
  assumes ok: "flow_ok p a" "problem_ok p" "b \<in> fs_work a"
  shows "deficit p (flow_step p b a) \<le> deficit p a" "fs_in (flow_step p b a) \<noteq> fs_in a \<Longrightarrow> deficit p (flow_step p b a) < deficit p a"
proof -
  let ?a = "flow_step p b a"
  have b: "b < fp_nodes p" using ok by (auto simp: flow_ok_def)
  have le: "card (flow_facts p - fs_in ?a c) \<le> card (flow_facts p - fs_in a c)" for c
    using flow_step_grows [OF ok(1) b, of c] finite_flow_facts [OF ok(2)] by (intro card_mono) auto
  then show "deficit p ?a \<le> deficit p a" by (simp add: deficit_def sum_mono)
  assume ne: "fs_in ?a \<noteq> fs_in a"
  have other: "fs_in ?a c = fs_in a c" if "c \<noteq> b" for c using that by (simp add: flow_step_def Let_def)
  then have nb: "fs_in ?a b \<noteq> fs_in a b" using ne by (metis ext)
  have sub: "fs_in a b \<subseteq> fs_in ?a b" by (rule flow_step_grows [OF ok(1) b])
  have "flow_ok p ?a" by (rule flow_step_ok [OF ok])
  then have "fs_in ?a b \<subseteq> Collect (live_at p b)" using b by (auto simp: flow_ok_def)
  then have facts: "fs_in ?a b \<subseteq> flow_facts p" using live_at_facts [OF _ ok(2) b] by auto
  have "flow_facts p - fs_in ?a b \<subset> flow_facts p - fs_in a b" using nb sub facts by auto
  then have "card (flow_facts p - fs_in ?a b) < card (flow_facts p - fs_in a b)"
    using finite_flow_facts [OF ok(2)] by (intro psubset_card_mono) auto
  then show "deficit p ?a < deficit p a"
    unfolding deficit_def using le b by (intro sum_strict_mono_ex1) auto
qed

lemma flow_step_fields:
  "fs_out (flow_step p b a) = (fs_out a)(b := flow_out p a b)"
  "fs_in (flow_step p b a) = (fs_in a)(b := flow_transfer p b (flow_out p a b))"
  "fs_work (flow_step p b a) = fs_work a - {b} \<union> (if flow_transfer p b (flow_out p a b) = fs_in a b then {} else flow_preds p b)"
  by (auto simp: flow_step_def Let_def)

lemma visit_node_sets:
  assumes g: "graph_ok n g" and facts: "length gens = n" "length kills = n" "list_all bs_wf gens" "list_all bs_wf kills"
    and R: "round_follows p n epoch left s a" and p: "p = rounds_problem g gens kills seed n" and b: "b < n"
    and first: "first_round \<or> visited p {..<n} a"
  shows "sets_follow n (ro_in (visit_node g gens kills first_round epoch b s)) (fs_in (flow_step p b a))"
    "sets_follow n (ro_out (visit_node g gens kills first_round epoch b s)) (fs_out (flow_step p b a))"
    "scheduled_ok n epoch (visit_node g gens kills first_round epoch b s)"
    "set (ro_pending (visit_node g gens kills first_round epoch b s)) = set (ro_pending s) \<union>
       (if flow_transfer p b (flow_out p a b) = fs_in a b then {} else flow_preds p b)"
    "flow_transfer p b (flow_out p a b) = fs_in a b \<Longrightarrow> ro_pending (visit_node g gens kills first_round epoch b s) = ro_pending s"
proof -
  let ?v = "visit_node g gens kills first_round epoch b s"
  have sets: "sets_follow n (ro_in s) (fs_in a)" "sets_follow n (ro_out s) (fs_out a)" "scheduled_ok n epoch s" using R by (simp_all add: round_follows_def)
  have wf: "bs_wf (gens ! b)" "bs_wf (kills ! b)" "bs_wf (ro_out s ! b)" "bs_wf (ro_in s ! b)" "bs_elems (ro_in s ! b) = fs_in a b"
      "bs_elems (ro_out s ! b) = fs_out a b"
    using facts sets b by (simp_all add: list_all_length sets_follow_def)
  define out where "out = gather_out g (ro_in s) b (ro_out s ! b)"
  define new where "new = live_transfer (gens ! b) (kills ! b) out"
  let ?T = "flow_transfer p b (flow_out p a b)"
  have out: "bs_wf out" "bs_elems out = flow_out p a b"
    using gather_out_spec [OF g b sets(1) wf(3)] wf(6) b by (simp_all add: out_def flow_out_def p)
  have new: "bs_wf new" "bs_elems new = ?T"
    using live_transfer_spec [OF wf(1,2) out(1)] out(2) b by (simp_all add: new_def flow_transfer_def p)
  have same: "new = ro_in s ! b \<longleftrightarrow> ?T = fs_in a b" using bits.canonical [OF new(1) wf(4)] new(2) wf(5) by simp
  obtain changed where gc: "gather_changed g (ro_in s) b (ro_out s ! b, first_round) = (out, changed)" "changed \<longleftrightarrow> first_round \<or> flow_out p a b \<noteq> fs_out a b"
    using gather_changed_spec [OF g b sets(1) wf(3), of first_round] out(2) wf(6)
    by (cases "gather_changed g (ro_in s) b (ro_out s ! b, first_round)") (auto simp: out_def)
  let ?s = "s\<lparr>ro_out := (ro_out s)[b := out]\<rparr>"
  let ?preds = "map (\<lambda>eid. ed_source (fg_edges g ! eid)) (fg_incoming g ! b)"
  have unchanged: "?T = fs_in a b" if "\<not> changed"
  proof -
    have "flow_out p a b = fs_out a b" "visited p {..<n} a" using that gc(2) first by auto
    then show ?thesis using b by (simp add: visited_def)
  qed
  have v: "?v = (if ?T = fs_in a b then ?s else fold (schedule epoch) ?preds (?s\<lparr>ro_in := (ro_in s)[b := new]\<rparr>))"
    using unchanged same by (simp add: visit_node_def gc(1) Let_def new_def)
  have outs: "sets_follow n ((ro_out s)[b := out]) (fs_out (flow_step p b a))"
    using sets_follow_update [OF sets(2) out] by (simp add: flow_step_fields)
  have preds: "set ?preds = flow_preds p b" "set ?preds \<subseteq> {..<n}"
    using incoming_preds [OF g b] by (auto simp: flow_preds_def p)
  have ok: "scheduled_ok n epoch (?s\<lparr>ro_in := x\<rparr>)" "scheduled_ok n epoch ?s" for x using sets(3) by (simp_all add: scheduled_ok_def)
  note fs = fold_schedule [OF ok(1) preds(2), of "(ro_in s)[b := new]"]
  have "sets_follow n (ro_in ?v) (fs_in (flow_step p b a)) \<and> sets_follow n (ro_out ?v) (fs_out (flow_step p b a)) \<and> scheduled_ok n epoch ?v \<and>
    set (ro_pending ?v) = set (ro_pending s) \<union> (if ?T = fs_in a b then {} else flow_preds p b) \<and> (?T = fs_in a b \<longrightarrow> ro_pending ?v = ro_pending s)"
  proof (cases "?T = fs_in a b")
    case True
    then have "(fs_in a)(b := ?T) = fs_in a" by simp
    then show ?thesis unfolding v using True sets outs ok(2) by (simp add: flow_step_fields)
  next
    case False
    then show ?thesis unfolding v using fs preds(1) outs sets_follow_update [OF sets(1) new] by (auto simp: flow_step_fields)
  qed
  then show "sets_follow n (ro_in ?v) (fs_in (flow_step p b a))" "sets_follow n (ro_out ?v) (fs_out (flow_step p b a))" "scheduled_ok n epoch ?v"
    "set (ro_pending ?v) = set (ro_pending s) \<union> (if ?T = fs_in a b then {} else flow_preds p b)" "?T = fs_in a b \<Longrightarrow> ro_pending ?v = ro_pending s"
    by blast+
qed

lemma visit_node_follows:
  assumes g: "graph_ok n g" and facts: "length gens = n" "length kills = n" "list_all bs_wf gens" "list_all bs_wf kills"
    and R: "round_follows p n epoch left s a" and p: "p = rounds_problem g gens kills seed n" "problem_ok p" and b: "b < n" "b \<in> left"
    and first: "first_round \<or> visited p {..<n} a" and V: "visited p V a"
  shows "\<exists>a'. round_follows p n epoch (left - {b}) (visit_node g gens kills first_round epoch b s) a' \<and> visited p (insert b V) a' \<and>
    (visited p {..<n} a \<longrightarrow> visited p {..<n} a') \<and> deficit p a' \<le> deficit p a \<and>
    (ro_pending (visit_node g gens kills first_round epoch b s) \<noteq> ro_pending s \<longrightarrow> deficit p a' < deficit p a)"
proof -
  let ?v = "visit_node g gens kills first_round epoch b s" and ?X = "set (ro_pending s) \<inter> {b}"
  let ?a = "(flow_step p b a)\<lparr>fs_work := fs_work (flow_step p b a) \<union> ?X\<rparr>"
  note sets = visit_node_sets [OF g facts R p(1) b(1) first]
  have ok: "flow_ok p a" "fs_work a = left \<union> set (ro_pending s)" using R by (simp_all add: round_follows_def)
  have bw: "b \<in> fs_work a" using ok(2) b(2) by simp
  have "?X \<subseteq> {..<fp_nodes p}" using b(1) by (auto simp: p(1))
  then have ok': "flow_ok p ?a" by (rule flow_ok_more_work [OF flow_step_ok [OF ok(1) p(2) bw]])
  have "fs_work ?a = (left - {b}) \<union> set (ro_pending ?v)" unfolding sets(4) using ok(2) by (auto simp: flow_step_fields)
  then have R': "round_follows p n epoch (left - {b}) ?v ?a" using sets ok' by (simp add: round_follows_def)
  have vis: "visited p (insert b V) ?a" if "visited p V a" for V using that by (auto simp: visited_def flow_step_fields)
  have "visited p {..<n} ?a" if "visited p {..<n} a" using vis [OF that] by (auto simp: visited_def)
  moreover have d: "deficit p ?a = deficit p (flow_step p b a)" by (simp add: deficit_def)
  moreover have "fs_in (flow_step p b a) \<noteq> fs_in a" if "ro_pending ?v \<noteq> ro_pending s"
  proof -
    have "flow_transfer p b (flow_out p a b) \<noteq> fs_in a b" using sets(5) that by blast
    then show ?thesis by (metis flow_step_fields(2) fun_upd_same)
  qed
  ultimately show ?thesis using R' vis [OF V] flow_step_deficit [OF ok(1) p(2) bw] by (intro exI [of _ ?a]) auto
qed

lemma fold_visit_follows:
  assumes g: "graph_ok n g" and facts: "length gens = n" "length kills = n" "list_all bs_wf gens" "list_all bs_wf kills"
    and p: "p = rounds_problem g gens kills seed n" "problem_ok p"
  shows "round_follows p n epoch (set bs) s a \<Longrightarrow> distinct bs \<Longrightarrow> set bs \<subseteq> {..<n} \<Longrightarrow> first_round \<or> visited p {..<n} a \<Longrightarrow> visited p V a \<Longrightarrow>
    \<exists>a'. round_follows p n epoch {} (fold (visit_node g gens kills first_round epoch) bs s) a' \<and> visited p (V \<union> set bs) a' \<and>
      (visited p {..<n} a \<longrightarrow> visited p {..<n} a') \<and> deficit p a' \<le> deficit p a \<and>
      (ro_pending (fold (visit_node g gens kills first_round epoch) bs s) \<noteq> ro_pending s \<longrightarrow> deficit p a' < deficit p a)"
proof (induction bs arbitrary: s a V)
  case Nil
  then show ?case by auto
next
  case (Cons b bs)
  let ?s = "visit_node g gens kills first_round epoch b s"
  have b: "b < n" "b \<in> set (b # bs)" "set (b # bs) - {b} = set bs" using Cons.prems(2,3) by auto
  obtain a1 where a1: "round_follows p n epoch (set bs) ?s a1" "visited p (insert b V) a1" "visited p {..<n} a \<longrightarrow> visited p {..<n} a1"
    "deficit p a1 \<le> deficit p a" "ro_pending ?s \<noteq> ro_pending s \<longrightarrow> deficit p a1 < deficit p a"
    using visit_node_follows [OF g facts Cons.prems(1) p b(1,2) Cons.prems(4,5)] unfolding b(3) by blast
  have "first_round \<or> visited p {..<n} a1" using Cons.prems(4) a1(3) by blast
  from Cons.IH [OF a1(1) _ _ this a1(2)] Cons.prems(2,3) obtain a' where
    "round_follows p n epoch {} (fold (visit_node g gens kills first_round epoch) bs ?s) a'" "visited p (insert b V \<union> set bs) a'"
    "visited p {..<n} a1 \<longrightarrow> visited p {..<n} a'" "deficit p a' \<le> deficit p a1"
    "ro_pending (fold (visit_node g gens kills first_round epoch) bs ?s) \<noteq> ro_pending ?s \<longrightarrow> deficit p a' < deficit p a1" by auto
  then show ?case using a1 by (intro exI [of _ a']) auto
qed

text \<open>The marks of a round are its number.\<close>

definition marks_below :: "nat \<Rightarrow> nat \<Rightarrow> round_state \<Rightarrow> bool" where
  "marks_below n e s \<longleftrightarrow> (\<forall>b<n. ro_scheduled s ! b \<le> e)"

lemma marks_below_sets [simp]:
  "marks_below n e (s\<lparr>ro_in := x\<rparr>) = marks_below n e s" "marks_below n e (s\<lparr>ro_out := x\<rparr>) = marks_below n e s"
  "marks_below n e (s\<lparr>ro_pending := ps\<rparr>) = marks_below n e s"
  by (simp_all add: marks_below_def)

lemma marks_below_schedule: "marks_below n e s \<Longrightarrow> marks_below n e (schedule e p s)"
  by (cases "p < length (ro_scheduled s)") (auto simp: marks_below_def schedule_def nth_list_update list_update_beyond)

lemma marks_below_schedules: "marks_below n e s \<Longrightarrow> marks_below n e (fold (schedule e) ps s)"
  by (induction ps arbitrary: s) (simp_all add: marks_below_schedule)

lemma marks_below_visit: "marks_below n e s \<Longrightarrow> marks_below n e (visit_node g gens kills first_round e b s)"
  by (simp add: visit_node_def Let_def marks_below_schedules split: prod.splits)

lemma marks_below_visits: "marks_below n e s \<Longrightarrow> marks_below n e (fold (visit_node g gens kills first_round e) bs s)"
  by (induction bs arbitrary: s) (simp_all add: marks_below_visit)

text \<open>The rounds end, with what is live.\<close>

definition rounds_ok :: "flow_problem \<Rightarrow> nat \<Rightarrow> nat list \<times> nat \<times> round_state \<Rightarrow> flow_state \<Rightarrow> bool" where
  "rounds_ok p n = (\<lambda>(work, epoch, s) a. flow_ok p a \<and> sets_follow n (ro_in s) (fs_in a) \<and> sets_follow n (ro_out s) (fs_out a) \<and>
     length (ro_scheduled s) = n \<and> (\<forall>b<n. ro_scheduled s ! b \<le> epoch) \<and> fs_work a = set work \<and> distinct work \<and>
     (if epoch = 0 then set work = {..<n} else visited p {..<n} a))"

lemma live_round_ok:
  assumes g: "graph_ok n g" and facts: "length gens = n" "length kills = n" "list_all bs_wf gens" "list_all bs_wf kills"
    and p: "p = rounds_problem g gens kills seed n" "problem_ok p"
    and R: "rounds_ok p n (work, epoch, s) a"
  shows "\<exists>a'. rounds_ok p n (live_round g gens kills rpost (work, epoch, s)) a' \<and> deficit p a' \<le> deficit p a \<and>
    (fst (live_round g gens kills rpost (work, epoch, s)) \<noteq> [] \<longrightarrow> deficit p a' < deficit p a)"
proof -
  let ?s = "s\<lparr>ro_pending := []\<rparr>" and ?bs = "round_order rpost work"
  have bs: "set ?bs = set work" "distinct ?bs" using R by (simp_all add: rounds_ok_def round_order_def)
  have fresh: "ro_scheduled s ! b \<noteq> epoch + 1" if "b < n" for b using R that by (fastforce simp: rounds_ok_def)
  have "set work \<subseteq> {..<n}" using R by (auto simp: rounds_ok_def flow_ok_def p(1))
  then have sub: "set ?bs \<subseteq> {..<n}" by (simp add: bs)
  have F: "round_follows p n (epoch + 1) (set ?bs) ?s a"
    using R fresh by (auto simp: rounds_ok_def round_follows_def scheduled_ok_def bs)
  have first: "epoch = 0 \<or> visited p {..<n} a" using R by (auto simp: rounds_ok_def split: if_splits)
  have V: "visited p {} a" by (simp add: visited_def)
  obtain a' where a': "round_follows p n (epoch + 1) {} (fold (visit_node g gens kills (epoch = 0) (epoch + 1)) ?bs ?s) a'"
    "visited p (set ?bs) a'" "visited p {..<n} a \<longrightarrow> visited p {..<n} a'" "deficit p a' \<le> deficit p a"
    "ro_pending (fold (visit_node g gens kills (epoch = 0) (epoch + 1)) ?bs ?s) \<noteq> [] \<longrightarrow> deficit p a' < deficit p a"
    using fold_visit_follows [OF g facts p F bs(2) sub first V] by auto
  define s' where "s' = fold (visit_node g gens kills (epoch = 0) (epoch + 1)) ?bs ?s"
  have st: "live_round g gens kills rpost (work, epoch, s) = (ro_pending s', epoch + 1, s')" by (simp add: live_round_def Let_def s'_def)
  have "visited p {..<n} a'" using a'(2,3) R bs by (auto simp: rounds_ok_def split: if_splits)
  moreover have "ro_scheduled s' ! b \<le> epoch + 1" if "b < n" for b
  proof -
    have "ro_scheduled s ! a \<le> epoch + 1" if "a < n" for a using R that by (auto simp: rounds_ok_def le_SucI)
    then have "marks_below n (epoch + 1) ?s" by (simp add: marks_below_def)
    then show ?thesis using marks_below_visits that unfolding s'_def marks_below_def by blast
  qed
  ultimately show ?thesis using a' unfolding s'_def [symmetric] st
    by (intro exI [of _ a']) (auto simp: rounds_ok_def round_follows_def scheduled_ok_def)
qed


lemma rounds_end:
  assumes g: "graph_ok n g" and facts: "length gens = n" "length kills = n" "list_all bs_wf gens" "list_all bs_wf kills"
    and p: "p = rounds_problem g gens kills seed n" "problem_ok p"
  shows "rounds_ok p n st a \<Longrightarrow>
    \<exists>epoch s a'. while_option (\<lambda>(work, _). work \<noteq> []) (live_round g gens kills rpost) st = Some ([], epoch, s) \<and> rounds_ok p n ([], epoch, s) a'"
proof (induction "deficit p a" arbitrary: st a rule: less_induct)
  case less
  let ?round = "live_round g gens kills rpost" and ?more = "\<lambda>(work, _). work \<noteq> ([] :: nat list)"
  obtain work epoch s where st: "st = (work, epoch, s)" by (cases st)
  show ?case
  proof (cases "work = []")
    case True
    then show ?thesis using less.prems st by (subst while_option_unfold) auto
  next
    case False
    obtain work1 epoch1 s1 where st1: "?round st = (work1, epoch1, s1)" by (cases "?round st")
    obtain a1 where a1: "rounds_ok p n (work1, epoch1, s1) a1" "work1 \<noteq> [] \<longrightarrow> deficit p a1 < deficit p a"
      using live_round_ok [OF g facts p less.prems [unfolded st], of rpost] st1 unfolding st by auto
    have first: "while_option ?more ?round st = while_option ?more ?round (work1, epoch1, s1)"
      using False st1 unfolding st by (subst while_option_unfold) simp
    show ?thesis
    proof (cases "work1 = []")
      case True
      then have "while_option ?more ?round (work1, epoch1, s1) = Some ([], epoch1, s1)" by (subst while_option_unfold) simp
      then show ?thesis using first a1(1) True by auto
    next
      case False
      with less.hyps [OF _ a1(1)] a1(2) first show ?thesis by auto
    qed
  qed
qed

lemma rounds_problem_ok:
  "graph_ok n g \<Longrightarrow> length gens = n \<Longrightarrow> list_all bs_wf gens \<Longrightarrow> finite seed \<Longrightarrow> problem_ok (rounds_problem g gens kills seed n)"
  using graph_closed [of n g] finite_elems by (auto simp: problem_ok_def rounds_problem_def closed_below_def list_all_length)

lemma rounds_start:
  assumes p: "p = rounds_problem g gens kills (bs_elems seed) n" and seed: "bs_wf seed" and n: "1 < n"
  shows "rounds_ok p n ([0..<n], 0, \<lparr>ro_in = replicate n [], ro_out = (replicate n [])[1 := seed], ro_pending = [], ro_scheduled = replicate n 0\<rparr>)
    \<lparr>fs_in = (\<lambda>b. {}), fs_out = fp_seed p, fs_work = {..<n}\<rparr>"
proof -
  have "flow_ok p \<lparr>fs_in = (\<lambda>b. {}), fs_out = fp_seed p, fs_work = {..<n}\<rparr>" by (auto simp: flow_ok_def p)
  moreover have "sets_follow n ((replicate n [])[1 := seed]) (fp_seed p)"
    using seed n by (auto simp: sets_follow_def p nth_list_update bits.element_laws)
  ultimately show ?thesis by (auto simp: rounds_ok_def sets_follow_def bits.element_laws)
qed

lemma solve_rounds_exact:
  assumes g: "graph_ok n g" and facts: "length gens = n" "length kills = n" "list_all bs_wf gens" "list_all bs_wf kills"
    and seed: "bs_wf seed" and n: "1 < n"
  shows "\<exists>epoch s. solve_rounds g gens kills rpost ((replicate n [])[1 := seed]) n = Some ([], epoch, s) \<and>
    sets_follow n (ro_in s) (\<lambda>b. Collect (live_at (rounds_problem g gens kills (bs_elems seed) n) b)) \<and>
    sets_follow n (ro_out s) (\<lambda>b. Collect (live_end (rounds_problem g gens kills (bs_elems seed) n) b))"
proof -
  let ?p = "rounds_problem g gens kills (bs_elems seed) n"
  note p = rounds_problem_ok [OF g facts(1,3) finite_elems [OF seed], of kills]
  obtain epoch s a where s: "solve_rounds g gens kills rpost ((replicate n [])[1 := seed]) n = Some ([], epoch, s)"
    and a: "rounds_ok ?p n ([], epoch, s) a"
    using rounds_end [OF g facts refl p rounds_start [OF refl seed n], of rpost] unfolding solve_rounds_def by blast
  have ok: "flow_ok ?p a" "fs_work a = {}" "sets_follow n (ro_in s) (fs_in a)" "sets_follow n (ro_out s) (fs_out a)"
    using a by (simp_all add: rounds_ok_def)
  have "b < n \<Longrightarrow> fs_in a b = Collect (live_at ?p b) \<and> fs_out a b = Collect (live_end ?p b)" for b
    using flow_solved [OF ok(1) p ok(2)] by simp
  then show ?thesis using s ok(3,4) by (auto simp: sets_follow_def)
qed

section \<open>Liveness of a register\<close>

text \<open>Before instruction \<open>k\<close> of a node: the instruction reads the register, or it does not overwrite it and it is live after it.\<close>

inductive live_before :: "scan_env \<Rightarrow> flow_graph \<Rightarrow> nat \<Rightarrow> nat \<Rightarrow> nat \<Rightarrow> bool" for env g where
  used: "k < length (machine_body (se_function env) b) \<Longrightarrow> r \<in> reads env (machine_body (se_function env) b ! k) \<Longrightarrow> live_before env g b k r"
| kept: "k < length (machine_body (se_function env) b) \<Longrightarrow> r \<notin> overwrites env (machine_body (se_function env) b ! k) \<Longrightarrow>
    live_before env g b (Suc k) r \<Longrightarrow> live_before env g b k r"
| flow: "t \<in> set (targets_of g b) \<Longrightarrow> live_before env g t 0 r \<Longrightarrow> live_before env g b (length (machine_body (se_function env) b)) r"
| global: "r \<in> bs_elems (se_globals env) \<Longrightarrow> live_before env g 1 0 r"

definition function_facts :: "scan_env \<Rightarrow> nat \<Rightarrow> block_liveness list \<Rightarrow> bool" where
  "function_facts env n blocks \<longleftrightarrow> length blocks = n \<and> (\<forall>b<n. bs_wf (bl_gen (blocks ! b)) \<and> bs_wf (bl_kill (blocks ! b)) \<and>
     bs_elems (bl_gen (blocks ! b)) = live_through env (machine_body (se_function env) b) {} \<and>
     bs_elems (bl_kill (blocks ! b)) = overwritten env (machine_body (se_function env) b))"

definition machine_problem :: "scan_env \<Rightarrow> flow_graph \<Rightarrow> nat \<Rightarrow> block_liveness list \<Rightarrow> flow_problem" where
  "machine_problem env g n blocks = rounds_problem g (map bl_gen blocks) (map bl_kill blocks) (bs_elems (se_globals env)) n"

lemma machine_problem_through:
  assumes F: "function_facts env n blocks" and b: "b < n"
  shows "live_at (machine_problem env g n blocks) b r \<longleftrightarrow>
    r \<in> live_through env (machine_body (se_function env) b) (Collect (live_end (machine_problem env g n blocks) b))"
proof -
  have "length blocks = n" "bs_elems (bl_gen (blocks ! b)) = live_through env (machine_body (se_function env) b) {}"
    "bs_elems (bl_kill (blocks ! b)) = overwritten env (machine_body (se_function env) b)"
    using F b by (auto simp: function_facts_def)
  then have "live_at (machine_problem env g n blocks) b r \<longleftrightarrow> r \<in> live_through env (machine_body (se_function env) b) {} \<or>
      (live_end (machine_problem env g n blocks) b r \<and> r \<notin> overwritten env (machine_body (se_function env) b))"
    using b by (subst live_at_end) (simp add: machine_problem_def)
  also have "\<dots> \<longleftrightarrow> r \<in> live_through env (machine_body (se_function env) b) (Collect (live_end (machine_problem env g n blocks) b))"
    by (subst (2) live_through_split) auto
  finally show ?thesis .
qed

lemma live_through_step:
  "k < length is \<Longrightarrow> live_through env (drop k is) X = live_before_instruction env (is ! k) (live_through env (drop (Suc k) is) X)"
  by (simp add: Cons_nth_drop_Suc [symmetric])

text \<open>What is live at the end of a node is carried to each of its instructions.\<close>

lemma live_through_before:
  assumes X: "\<And>r. r \<in> X \<Longrightarrow> live_before env g b (length (machine_body (se_function env) b)) r"
  shows "k \<le> length (machine_body (se_function env) b) \<Longrightarrow> r \<in> live_through env (drop k (machine_body (se_function env) b)) X \<Longrightarrow> live_before env g b k r"
proof (induction "length (machine_body (se_function env) b) - k" arbitrary: k r)
  case 0
  then show ?case using X by simp
next
  case (Suc m)
  then have k: "k < length (machine_body (se_function env) b)" by simp
  with Suc show ?case
    by (auto simp: live_through_step [OF k] live_before_instruction_def intro: live_before.used live_before.kept)
qed

lemma live_at_before:
  assumes g: "graph_ok n g" and F: "function_facts env n blocks"
  shows "live_at (machine_problem env g n blocks) b r \<Longrightarrow> b < n \<Longrightarrow> live_before env g b 0 r"
proof (induction rule: live_at.induct)
  case (gen r b)
  then have "r \<in> live_through env (machine_body (se_function env) b) {}"
    using F by (auto simp: function_facts_def machine_problem_def)
  then show ?case using live_through_before [of "{}" env g b 0 r] by simp
next
  case (seed r b)
  then have "b = 1" "r \<in> bs_elems (se_globals env)" by (auto simp: machine_problem_def split: if_splits)
  then show ?case by (simp only: live_before.global)
next
  case (flow t b r)
  let ?body = "machine_body (se_function env) b"
  have t: "t \<in> set (targets_of g b)" using flow by (simp add: machine_problem_def)
  then have "live_before env g t 0 r" using flow.IH graph_closed [OF g] flow.prems by (auto simp: closed_below_def)
  then have e: "live_before env g b (length ?body) r" by (rule live_before.flow [OF t])
  have "r \<notin> overwritten env ?body" using flow F by (auto simp: function_facts_def machine_problem_def)
  then have "r \<in> live_through env ?body {r}" by (subst live_through_split) simp
  then show ?case using live_through_before [of "{r}" env g b 0 r] e by simp
qed

lemma live_end_before:
  assumes g: "graph_ok n g" and F: "function_facts env n blocks" and b: "b < n" and r: "live_end (machine_problem env g n blocks) b r"
  shows "live_before env g b (length (machine_body (se_function env) b)) r"
proof -
  from r b consider "b = 1" "r \<in> bs_elems (se_globals env)" | t where "t \<in> set (targets_of g b)" "live_at (machine_problem env g n blocks) t r"
    by (auto simp: live_end_def machine_problem_def split: if_splits)
  then show ?thesis
  proof cases
    case 1
    then show ?thesis using live_before.global [of r env g] by (simp add: machine_body_def)
  next
    case 2
    moreover have "t < n" using graph_closed [OF g] b 2(1) by (auto simp: closed_below_def)
    ultimately show ?thesis using live_at_before [OF g F] live_before.flow by blast
  qed
qed

lemma live_before_through:
  assumes g: "graph_ok n g" and F: "function_facts env n blocks"
  shows "live_before env g b k r \<Longrightarrow> b < n \<Longrightarrow> k \<le> length (machine_body (se_function env) b) \<and>
    r \<in> live_through env (drop k (machine_body (se_function env) b)) (Collect (live_end (machine_problem env g n blocks) b))"
proof (induction rule: live_before.induct)
  case (flow t b r)
  then have t: "t < n" using graph_closed [OF g] by (auto simp: closed_below_def)
  then have "live_at (machine_problem env g n blocks) t r" using flow.IH machine_problem_through [OF F t] by simp
  then show ?case using flow by (auto simp: live_end_def machine_problem_def)
next
  case (global r)
  then show ?case by (simp add: machine_body_def live_end_def machine_problem_def)
qed (auto simp: live_through_step live_before_instruction_def)

lemma live_before_exact:
  assumes g: "graph_ok n g" and F: "function_facts env n blocks" and b: "b < n"
  shows "Collect (live_at (machine_problem env g n blocks) b) = {r. live_before env g b 0 r}"
    "Collect (live_end (machine_problem env g n blocks) b) = {r. live_before env g b (length (machine_body (se_function env) b)) r}"
proof -
  show "Collect (live_at (machine_problem env g n blocks) b) = {r. live_before env g b 0 r}"
    using live_at_before [OF g F _ b] live_before_through [OF g F _ b, of 0] machine_problem_through [OF F b] by auto
  show "Collect (live_end (machine_problem env g n blocks) b) = {r. live_before env g b (length (machine_body (se_function env) b)) r}"
    using live_end_before [OF g F b] live_before_through [OF g F _ b, of "length (machine_body (se_function env) b)"] by auto
qed

section \<open>The graph of a machine function\<close>

lemma list_all_filter_imp: "list_all P xs \<Longrightarrow> list_all P (filter Q xs)"
  by (auto simp: list_all_iff)

lemma machine_label_block_bound: "machine_label_block f l = Inr t \<Longrightarrow> t < machine_count f"
  by (auto simp: machine_label_block_def machine_count_def mk_error_def find_Some_iff split: option.splits)

lemma machine_direct_edges_within:
  assumes "machine_direct_edges f b = Inr es" "b < machine_count f"
  shows "list_all (edge_within (machine_count f)) es"
proof -
  have fall: "list_all (edge_within (machine_count f)) (fallthrough (machine_count f) b)"
    using assms(2) by (simp add: fallthrough_def plain_edge_def edge_within_def)
  have label: "edge_within (machine_count f) e" if "Inr e \<in> set (label_edge f b op p o1)" for op p o1 e
    using that assms(2) machine_label_block_bound
    by (auto simp: label_edge_def operand_edge_def edge_within_def rbind_eq_Inr dest!: sym [of "Inr _"] split: option.splits)
  show ?thesis
  proof (cases "if node_body f b = [] then Pseudo PseudoUse else mi_opcode (last (node_body f b))")
    case (Pseudo q)
    then show ?thesis using assms(1) fall by (simp add: machine_direct_edges_def Let_def)
  next
    case (IROp op)
    let ?ops = "mi_operands (last (node_body f b))"
    obtain es' where es: "collect (if control_flow (instruction_descriptor op) = FlowNext then []
        else concat (map (\<lambda>p. label_edge f b op p (?ops ! p)) [0..<length ?ops])) = Inr es'"
      "es = (if control_flow (instruction_descriptor op) \<noteq> FlowExit \<and> op \<noteq> OMisc O_Jmp then fallthrough (machine_count f) b else []) @ es'"
      using assms(1) IROp by (auto simp: machine_direct_edges_def Let_def rbind_eq_Inr)
    have "list_all (edge_within (machine_count f)) es'"
      by (rule collect_all [OF es(1)]) (auto simp: list_all_iff split: if_splits intro: label)
    then show ?thesis using fall es(2) by simp
  qed
qed

lemma machine_control_flow_ok:
  assumes "machine_control_flow verify f = Inr g"
  shows "graph_ok (machine_count f) g"
proof -
  let ?n = "machine_count f"
  obtain marks ess where ess: "collect (map (machine_direct_edges f) [2..<?n]) = Inr ess"
    and g: "g = fold entry_exit_edge [0..<?n] (add_edges (concat ess @ concat (map (machine_indirect_edges f marks) [2..<?n])) (empty_graph ?n))"
    using assms by (auto simp: machine_control_flow_def rbind_eq_Inr)
  have "list_all (list_all (edge_within ?n)) ess"
    by (rule collect_all [OF ess]) (auto simp: list_all_iff dest!: sym [of "Inr _"] dest: machine_direct_edges_within [unfolded list_all_iff])
  moreover have "list_all (edge_within ?n) (machine_indirect_edges f marks b)" if "b < ?n" for b
    using that by (auto simp: machine_indirect_edges_def Let_def list_all_iff edge_within_def plain_edge_def)
  ultimately have "list_all (edge_within ?n) (concat ess @ concat (map (machine_indirect_edges f marks) [2..<?n]))"
    by (auto simp: list_all_iff)
  then show ?thesis unfolding g
    by (intro graph_ok_fold_entry_exit graph_ok_adds graph_ok_empty) (auto simp: list_all_iff machine_count_def)
qed

section \<open>The analysis is exact\<close>

lemma global_bits_wf: "bs_wf bits \<Longrightarrow> bs_wf (global_bits rs qs bits)"
  by (induction qs arbitrary: bits) (auto simp: global_bits_def bits.invars split: option.splits)

lemma scan_environment_wf: "env_wf (scan_environment f opts rs)"
  by (simp add: env_wf_def scan_environment_def Let_def global_bits_wf bits.element_laws bits.invars)

lemma scan_environment_fields [simp]:
  "se_function (scan_environment f opts rs) = f" "se_registers (scan_environment f opts rs) = rs"
  by (simp_all add: scan_environment_def Let_def)

lemma add_registers_list: "add_registers f rs seen = Inr xs \<Longrightarrow> xs = seen @ rs"
  by (induction f rs seen rule: add_registers.induct) (auto split: if_splits)

lemma add_pressure_sets [simp]: "bl_in (add_pressure f bl) = bl_in bl" "bl_gen (add_pressure f bl) = bl_gen bl" "bl_out (add_pressure f bl) = bl_out bl"
  by (simp_all add: add_pressure_def Let_def)

lemma finish_liveness_blocks:
  "length (mv_blocks (finish_liveness env opts blocks refs)) = length blocks"
  "b < length blocks \<Longrightarrow> bl_in (mv_blocks (finish_liveness env opts blocks refs) ! b) = bl_in (blocks ! b)"
  "b < length blocks \<Longrightarrow> bl_out (mv_blocks (finish_liveness env opts blocks refs) ! b) = bl_out (blocks ! b)"
  "b < length blocks \<Longrightarrow> bl_gen (mv_blocks (finish_liveness env opts blocks refs) ! b) = bl_gen (blocks ! b)"
  "mv_registers (finish_liveness env opts blocks refs) = se_registers env"
  by (simp_all add: finish_liveness_def Let_def)

lemma function_facts_start:
  assumes "env_wf env" "n = machine_count (se_function env)"
  shows "function_facts env n (fst (fold (machine_facts env depth) [2..<n] (replicate n empty_block, refs)))"
proof -
  have "\<forall>b\<in>set [2..<n]. 2 \<le> b" by simp
  from machine_facts_ok [OF assms(1) facts_start this, where n = n and depth = depth and refs = refs] show ?thesis
    unfolding facts_ok_def function_facts_def block_ok_def by (auto simp: not_less)
qed

lemma solve_environment_exact:
  assumes env: "env_wf env" and n: "n = machine_count (se_function env)" and g: "graph_ok n (mg_cfg g)"
  shows "\<exists>blocks refs. solve_environment env g = Some (blocks, refs) \<and> length blocks = n \<and>
    (\<forall>b<n. bs_wf (bl_gen (blocks ! b)) \<and> bs_wf (bl_in (blocks ! b)) \<and> bs_wf (bl_out (blocks ! b)) \<and>
       bs_elems (bl_in (blocks ! b)) = {r. live_before env (mg_cfg g) b 0 r} \<and>
       bs_elems (bl_out (blocks ! b)) = {r. live_before env (mg_cfg g) b (length (machine_body (se_function env) b)) r})"
proof -
  obtain blocks refs where f: "fold (machine_facts env (mg_depth g)) [2..<n] (replicate n empty_block, replicate (length (se_registers env)) 0) = (blocks, refs)"
    by fastforce
  have F: "function_facts env n blocks" using function_facts_start [OF env n, of "mg_depth g"] f by (metis fst_conv)
  have facts: "length (map bl_gen blocks) = n" "length (map bl_kill blocks) = n" "list_all bs_wf (map bl_gen blocks)" "list_all bs_wf (map bl_kill blocks)"
    using F by (simp_all add: function_facts_def list_all_length)
  have "bs_wf (se_globals env)" "1 < n" using env n by (simp_all add: env_wf_def machine_count_def)
  from solve_rounds_exact [OF g facts this, of "mg_rpost g"] obtain epoch s where
    s: "solve_rounds (mg_cfg g) (map bl_gen blocks) (map bl_kill blocks) (mg_rpost g) ((replicate n [])[1 := se_globals env]) n = Some ([], epoch, s)"
    and sets: "sets_follow n (ro_in s) (\<lambda>b. Collect (live_at (machine_problem env (mg_cfg g) n blocks) b))"
      "sets_follow n (ro_out s) (\<lambda>b. Collect (live_end (machine_problem env (mg_cfg g) n blocks) b))"
    unfolding machine_problem_def by blast
  have "solve_environment env g = Some (map (\<lambda>b. (blocks ! b)\<lparr>bl_in := ro_in s ! b, bl_out := ro_out s ! b\<rparr>) [0..<n], refs)"
    using s by (simp add: solve_environment_def Let_def n [symmetric] f del: upt_Suc)
  moreover have "bs_wf (bl_gen (blocks ! b))" if "b < n" for b using F that by (simp add: function_facts_def)
  ultimately show ?thesis using sets live_before_exact [OF g F] by (auto simp: sets_follow_def)
qed

text \<open>C8: the liveness of a machine function returns whenever its control flow graph was built, whatever registers are
  watched; a register is in the set at the start of a node, or at its end, exactly when some path from there leads to
  an instruction that reads it before any overwrites it, or to the exit when it is a global one.\<close>

theorem machine_liveness_exact:
  assumes "machine_control_flow verify f = Inr (mg_cfg g)"
  shows "case analyze_liveness f g is_current opts of
      None \<Rightarrow> False
    | Some (Inl e) \<Rightarrow> True
    | Some (Inr lv) \<Rightarrow> mv_registers lv = (if op_scan opts = [] then all_registers f else op_scan opts) \<and>
        (let env = scan_environment f opts (mv_registers lv) in
           map (\<lambda>bl. (bs_elems (bl_in bl), bs_elems (bl_out bl))) (mv_blocks lv) =
           map (\<lambda>b. ({r. live_before env (mg_cfg g) b 0 r}, {r. live_before env (mg_cfg g) b (length (machine_body f b)) r})) [0..<machine_count f])"
proof (cases "3 < op_level opts \<or> \<not> is_current \<or> \<not> list_all (\<lambda>q. register_info (mf_target f) q \<noteq> None) (op_globals opts)")
  case True
  then show ?thesis by (auto simp: analyze_liveness_def split: sum.splits)
next
  case False
  let ?scan = "if op_scan opts = [] then all_registers f else op_scan opts"
  show ?thesis
  proof (cases "add_registers f ?scan []")
    case (Inl e)
    then show ?thesis using False by (simp add: analyze_liveness_def)
  next
    case (Inr rs)
    let ?env = "scan_environment f opts rs"
    have rs: "rs = ?scan" using add_registers_list [OF Inr] by simp
    have n: "machine_count f = machine_count (se_function ?env)" by simp
    from solve_environment_exact [OF scan_environment_wf n machine_control_flow_ok [OF assms]] obtain blocks refs where
      s: "solve_environment ?env g = Some (blocks, refs)" "length blocks = machine_count f"
      and sets: "\<And>b. b < machine_count f \<Longrightarrow> bs_elems (bl_in (blocks ! b)) = {r. live_before ?env (mg_cfg g) b 0 r} \<and>
         bs_elems (bl_out (blocks ! b)) = {r. live_before ?env (mg_cfg g) b (length (machine_body f b)) r}"
      by auto
    have "analyze_liveness f g is_current opts = Some (Inr (finish_liveness ?env opts blocks refs))"
      using False Inr s(1) by (simp add: analyze_liveness_def Let_def)
    moreover have "map (\<lambda>bl. (bs_elems (bl_in bl), bs_elems (bl_out bl))) (mv_blocks (finish_liveness ?env opts blocks refs)) =
        map (\<lambda>b. ({r. live_before ?env (mg_cfg g) b 0 r}, {r. live_before ?env (mg_cfg g) b (length (machine_body f b)) r})) [0..<machine_count f]"
      by (rule nth_equalityI) (simp_all add: finish_liveness_blocks s(2) sets del: upt_Suc)
    ultimately show ?thesis using rs by (simp add: finish_liveness_blocks Let_def)
  qed
qed

section \<open>A loop\<close>

definition two_register_target :: target_machine where
  "two_register_target = \<lparr>tm_architecture = ArchX86_64, tm_abi = X86SysV,
     tm_registers = map (\<lambda>n. \<lparr>ri_reg = \<lparr>pr_architecture = ArchX86_64, pr_encoding = n\<rparr>, ri_name = ''r'', ri_bank = BankInteger, ri_reserved = False\<rparr>) [0, 1]\<rparr>"

definition loop_virtual :: "nat \<Rightarrow> virtual_register" where
  "loop_virtual n = \<lparr>vr_id = n, vr_type = type_i64\<rparr>"

definition machine_loop :: machine_function where
  "machine_loop = (let v = \<lambda>n. VReg (Some (loop_virtual n)) in
     \<lparr>mf_module = ''m'', mf_name = ''f'', mf_target = two_register_target,
      mf_blocks = [\<lparr>mb_labels = [], mb_instructions = [make_instruction (IROp (OMove O_Mov)) [v 0, IntOp 1]]\<rparr>,
        \<lparr>mb_labels = [0], mb_instructions = [make_instruction (IROp (OArith O_Add)) [v 1, v 0, v 0], make_instruction (IROp (OTest O_Bt)) [LabelOp 0, v 1]]\<rparr>,
        \<lparr>mb_labels = [], mb_instructions = [make_instruction (IROp (OMisc O_Ret)) [v 1]]\<rparr>],
      mf_labels = [\<lparr>ml_pointer = 0, ml_name = ''loop'', ml_ordinal = None, ml_addressed = False\<rparr>],
      mf_registers = [loop_virtual 0, loop_virtual 1], mf_globals = []\<rparr>)"

definition plain_options :: liveness_options where
  "plain_options = \<lparr>op_level = 0, op_frequencies = True, op_scan = [], op_globals = []\<rparr>"

definition loop_graph :: machine_graph where
  "loop_graph = \<lparr>mg_cfg = fold entry_exit_edge [0..<5] (add_edges [plain_edge 2 3 EdgeFallthrough, plain_edge 3 4 EdgeFallthrough,
       operand_edge 3 3 EdgeBranch 0] (empty_graph 5)),
     mg_preorder = [1, 2, 3, 4, 5], mg_rpost = [1, 5, 2, 3, 4], mg_back = [False, False, True, False, False, False], mg_loops = [],
     mg_depth = [0, 0, 0, 1, 0], mg_root = 0, mg_has_loops = True\<rparr>"

lemma loop_control_flow: "machine_control_flow (\<lambda>_. Inr ()) machine_loop = Inr (mg_cfg loop_graph)"
proof -
  have marks: "machine_marks machine_loop = Inr []" by code_simp
  have bodies: "node_body machine_loop 2 = [make_instruction (IROp (OMove O_Mov)) [VReg (Some (loop_virtual 0)), IntOp 1]]"
    "node_body machine_loop 3 = [make_instruction (IROp (OArith O_Add)) (map (\<lambda>n. VReg (Some (loop_virtual n))) [1, 0, 0]),
       make_instruction (IROp (OTest O_Bt)) [LabelOp 0, VReg (Some (loop_virtual 1))]]"
    "node_body machine_loop 4 = [make_instruction (IROp (OMisc O_Ret)) [VReg (Some (loop_virtual 1))]]"
    by (simp_all add: node_body_def machine_loop_def Let_def)
  have count: "machine_count machine_loop = 5" by code_simp
  have label: "machine_label_block machine_loop 0 = Inr 3" by code_simp
  have upt: "[2..<machine_count machine_loop] = [2, 3, 4]" unfolding count by code_simp
  have direct: "collect (map (machine_direct_edges machine_loop) [2..<machine_count machine_loop]) =
      Inr [[plain_edge 2 3 EdgeFallthrough], [plain_edge 3 4 EdgeFallthrough, operand_edge 3 3 EdgeBranch 0], []]"
    unfolding upt by (simp add: machine_direct_edges_def Let_def bodies count label label_edge_def fallthrough_def make_instruction_def upt_conv_Cons descriptor_row_def as_label_def)
  have indirect: "concat (map (machine_indirect_edges machine_loop []) [2..<machine_count machine_loop]) = []" by code_simp
  show ?thesis by (simp only: machine_control_flow_def marks direct indirect rbind_Inr) (simp add: count loop_graph_def)
qed

theorem machine_liveness_exact_witness:
  "case analyze_liveness machine_loop loop_graph True plain_options of
      None \<Rightarrow> False
    | Some (Inl e) \<Rightarrow> True
    | Some (Inr lv) \<Rightarrow> mv_registers lv = (if op_scan plain_options = [] then all_registers machine_loop else op_scan plain_options) \<and>
        (let env = scan_environment machine_loop plain_options (mv_registers lv) in
           map (\<lambda>bl. (bs_elems (bl_in bl), bs_elems (bl_out bl))) (mv_blocks lv) =
           map (\<lambda>b. ({r. live_before env (mg_cfg loop_graph) b 0 r},
             {r. live_before env (mg_cfg loop_graph) b (length (machine_body machine_loop b)) r})) [0..<machine_count machine_loop])"
  by (rule machine_liveness_exact [OF loop_control_flow])

end
