(* ===== verification/Assignment.thy ===== *)
theory Assignment
  imports MachineFlow TargetMachine SparseBitSet "HOL-Library.Product_Lexorder"
begin

text \<open>
  \<open>MachineAllocation::assign\<close> (\<open>lib/CodeGen/Assignment.cpp\<close>): the locations of the virtual registers of a function.  The
  live ranges, the call crossings and the loop depths come from the analyses and are arguments; a register is its
  index, the physical registers of the target first, and a block its index in the control flow graph.  From level 2
  on a register may be given a physical register that others hold across whole blocks: those ranges are split, which
  the \<open>gen\<close> sets of their blocks record.
\<close>

section \<open>What the assignment reads\<close>

record live_range =
  lg_start :: int
  lg_finish :: int
  lg_blocks :: "nat list"

record allocated_register =
  ar_type :: ir_type
  ar_binding :: "physical_register option"
  ar_memory_backed :: bool

record allocation_input =
  ai_function :: machine_function
  ai_virtuals :: "allocated_register list"
  ai_current :: bool
  ai_consistent :: bool
  ai_level :: nat
  ai_globals :: "physical_register list"
  ai_frequencies :: "int list"
  ai_ranges :: "live_range list list"
  ai_points :: int
  ai_crossed :: bitset
  ai_spill :: "(bitset \<times> bitset) list"
  ai_cfg :: flow_graph
  ai_depth :: "nat list"
  ai_loops :: "loop_node list"

abbreviation (input) INT_MAX :: int where "INT_MAX \<equiv> 2147483647"
abbreviation (input) INT_MIN :: int where "INT_MIN \<equiv> - 2147483648"

definition alloc_invalid :: "allocation_input \<Rightarrow> string \<Rightarrow> error" where
  "alloc_invalid inp why = \<lparr>code = InvalidOperand, message = mf_module (ai_function inp) @ ''/'' @ mf_name (ai_function inp) @ '' ['' @
     machine_name (tm_abi (mf_target (ai_function inp))) @ '', machine-assignment]: '' @ why\<rparr>"

definition physical_count :: "allocation_input \<Rightarrow> nat" where
  "physical_count inp = length (tm_registers (mf_target (ai_function inp)))"

definition register_count :: "allocation_input \<Rightarrow> nat" where
  "register_count inp = physical_count inp + length (ai_virtuals inp)"

definition register_at :: "allocation_input \<Rightarrow> nat \<Rightarrow> allocated_register" where
  "register_at inp r = ai_virtuals inp ! (r - physical_count inp)"

definition ranges_of :: "allocation_input \<Rightarrow> nat \<Rightarrow> live_range list" where
  "ranges_of inp r = ai_ranges inp ! r"

section \<open>Locations\<close>

datatype location = NoLocation | InRegister physical_register | OnStack nat nat

record point_locations =
  pl_physical :: bitset
  pl_stack :: bitset

definition stack_units :: "ir_type \<Rightarrow> nat" where
  "stack_units t = (if is_vector t \<or> type_kind t = K_LongDouble then 2 else 1)"

definition new_stack :: "ir_type \<Rightarrow> nat \<Rightarrow> nat \<times> nat" where
  "new_stack t stack_bytes = (let need = stack_units t * 8 in ((stack_bytes + need - 1) div need * need, need))"

definition mark_point :: "location \<Rightarrow> bool \<Rightarrow> point_locations \<Rightarrow> point_locations" where
  "mark_point loc on pl = (case loc of
     NoLocation \<Rightarrow> pl
   | InRegister q \<Rightarrow> pl\<lparr>pl_physical := (if on then bs_insert else bs_erase) (pr_encoding q) (pl_physical pl)\<rparr>
   | OnStack off sz \<Rightarrow> pl\<lparr>pl_stack := fold (if on then bs_insert else bs_erase) [off div 8..<(off + sz) div 8] (pl_stack pl)\<rparr>)"

definition reserve_points :: "location \<Rightarrow> live_range \<Rightarrow> bool \<Rightarrow> point_locations list \<Rightarrow> point_locations list" where
  "reserve_points loc lr on points = fold (\<lambda>p points. points[nat p := mark_point loc on (points ! nat p)]) [lg_start lr..lg_finish lr] points"

section \<open>Gaps: the splittable ranges that hold a physical register\<close>

record gap =
  gp_physical :: physical_register
  gp_reg :: nat
  gp_range :: nat

type_synonym gap_map = "((nat \<times> int) \<times> gap) list"

definition gap_insert :: "nat \<times> int \<Rightarrow> gap \<Rightarrow> gap_map \<Rightarrow> gap_map" where
  "gap_insert k g m = takeWhile (\<lambda>(k', _). k' < k) m @ (k, g) # dropWhile (\<lambda>(k', _). k' \<le> k) m"

definition gap_erase :: "nat \<times> int \<Rightarrow> gap_map \<Rightarrow> gap_map" where
  "gap_erase k m = filter (\<lambda>(k', _). k' \<noteq> k) m"

definition lower_gap :: "nat \<times> int \<Rightarrow> gap_map \<Rightarrow> ((nat \<times> int) \<times> gap) option" where
  "lower_gap k m = List.find (\<lambda>(k', _). k \<le> k') m"

text \<open>The entry before the upper bound of a key.\<close>

definition previous_gap :: "nat \<times> int \<Rightarrow> gap_map \<Rightarrow> ((nat \<times> int) \<times> gap) option" where
  "previous_gap k m = (let lower = takeWhile (\<lambda>(k', _). k' \<le> k) m in if lower = [] then None else Some (last lower))"

definition gap_live_range :: "allocation_input \<Rightarrow> gap \<Rightarrow> live_range" where
  "gap_live_range inp g = ranges_of inp (gp_reg g) ! gp_range g"

text \<open>The cost of splitting around a range: the cheaper side of each boundary, capped past \<open>INT_MAX\<close>.\<close>

definition boundary_depth :: "allocation_input \<Rightarrow> nat list \<Rightarrow> nat \<Rightarrow> bool \<Rightarrow> int" where
  "boundary_depth inp members b outgoing =
    (let others = if outgoing then targets_of (ai_cfg inp) b
                  else map (\<lambda>eid. ed_source (fg_edges (ai_cfg inp) ! eid)) (fg_incoming (ai_cfg inp) ! b)
     in fold (\<lambda>t m. if t \<in> set members then m else max m (int (ai_depth inp ! t) + 1)) others (- 1))"

definition boundary_cost :: "allocation_input \<Rightarrow> nat list \<Rightarrow> nat \<times> bool \<Rightarrow> int \<Rightarrow> int" where
  "boundary_cost inp members = (\<lambda>(b, outgoing) cost.
    if INT_MAX < cost then cost
    else let m = boundary_depth inp members b outgoing
         in if 0 \<le> m
            then let cost = cost + min (int (ai_depth inp ! b) + 1) m * 2 in if INT_MAX < cost then INT_MAX + 1 else cost
            else cost)"

definition spill_cost :: "allocation_input \<Rightarrow> live_range \<Rightarrow> int" where
  "spill_cost inp lr = fold (boundary_cost inp (lg_blocks lr)) (concat (map (\<lambda>b. [(b, True), (b, False)]) (lg_blocks lr))) 0"

definition register_free :: "physical_register \<Rightarrow> live_range \<Rightarrow> point_locations list \<Rightarrow> bool" where
  "register_free q lr points = list_all (\<lambda>p. \<not> bs_contains (pr_encoding q) (pl_physical (points ! nat p))) [lg_start lr..lg_finish lr]"

definition append_gap :: "allocation_input \<Rightarrow> gap \<Rightarrow> gap list \<times> int \<Rightarrow> gap list \<times> int" where
  "append_gap inp g = (\<lambda>(found, total).
    if found \<noteq> [] \<and> gp_reg (last found) = gp_reg g \<and> gp_range (last found) = gp_range g then (found, total)
    else (found @ [g], min (INT_MAX + 1) (total + spill_cost inp (gap_live_range inp g))))"

partial_function (option) scan_gaps ::
  "allocation_input \<Rightarrow> gap_map \<Rightarrow> nat \<Rightarrow> int \<Rightarrow> int \<Rightarrow> gap list \<times> int \<Rightarrow> (gap list \<times> int) option" where
  "scan_gaps inp m enc limit next_start st = (case lower_gap (enc, next_start) m of
     None \<Rightarrow> Some st
   | Some (k, g) \<Rightarrow>
       if fst k = enc \<and> snd k \<le> limit
       then scan_gaps inp m enc limit (lg_finish (gap_live_range inp g) + 1) (append_gap inp g st)
       else Some st)"

lemmas scan_gaps_code [code] = scan_gaps.simps

definition find_gaps :: "allocation_input \<Rightarrow> gap_map \<Rightarrow> physical_register \<Rightarrow> live_range \<Rightarrow> gap list \<Rightarrow> (gap list \<times> int) option" where
  "find_gaps inp m q lr found =
    (let (next_start, st) = (case previous_gap (pr_encoding q, lg_start lr) m of
         Some (k, g) \<Rightarrow>
           if fst k = pr_encoding q \<and> lg_start lr \<le> lg_finish (gap_live_range inp g)
           then (lg_finish (gap_live_range inp g) + 1, append_gap inp g (found, 0))
           else (lg_start lr + 1, (found, 0))
       | None \<Rightarrow> (lg_start lr + 1, (found, 0)))
     in scan_gaps inp m (pr_encoding q) (lg_finish lr) next_start st)"

section \<open>The state\<close>

record alloc_state =
  as_locations :: "location list"
  as_used :: "point_locations list"
  as_busy :: "point_locations list"
  as_stack_bytes :: nat
  as_reusable :: nat
  as_gaps :: gap_map
  as_spill :: "(bitset \<times> bitset) list"
  as_used_registers :: bitset
  as_order :: "nat list"

definition advanced :: "allocation_input \<Rightarrow> bool" where
  "advanced inp \<longleftrightarrow> 2 \<le> ai_level inp"

definition no_clobber_type :: ir_type where
  "no_clobber_type = mk_type K_Undef"

definition clobbered :: "allocation_input \<Rightarrow> physical_register \<Rightarrow> bool" where
  "clobbered inp q = call_clobbers (mf_target (ai_function inp)) q no_clobber_type"

text \<open>A value that crosses a call may not live in a register that is preserved only in part.\<close>

definition accepts_value :: "nat \<Rightarrow> allocation_input \<Rightarrow> nat \<Rightarrow> physical_register \<Rightarrow> bool" where
  "accepts_value ld_size inp reg q \<longleftrightarrow> (let m = mf_target (ai_function inp); t = ar_type (register_at inp reg) in
     accepts_register ld_size m q t \<and> (\<not> bs_contains reg (ai_crossed inp) \<or> clobbered inp q \<or> \<not> call_clobbers m q t))"

text \<open>What is used anywhere in the ranges of the register.\<close>

definition range_conflicts :: "live_range list \<Rightarrow> point_locations list \<Rightarrow> point_locations" where
  "range_conflicts lrs points =
    fold (\<lambda>lr pl. fold (\<lambda>p pl. \<lparr>pl_physical = fst (bs_union_with False (pl_physical pl) (pl_physical (points ! nat p))),
        pl_stack = fst (bs_union_with False (pl_stack pl) (pl_stack (points ! nat p)))\<rparr>) [lg_start lr..lg_finish lr] pl)
      lrs \<lparr>pl_physical = [], pl_stack = []\<rparr>"

definition better_free :: "nat \<Rightarrow> allocation_input \<Rightarrow> nat \<Rightarrow> point_locations \<Rightarrow> register_record \<Rightarrow> physical_register option \<Rightarrow> physical_register option" where
  "better_free ld_size inp reg conflicts info best =
    (let q = ri_reg info
     in if \<not> ri_reserved info \<and> accepts_value ld_size inp reg q \<and> \<not> bs_contains (pr_encoding q) (pl_physical conflicts)
        then (case best of None \<Rightarrow> Some q | Some b \<Rightarrow> if \<not> clobbered inp b \<and> clobbered inp q then Some q else best)
        else best)"

definition free_register :: "nat \<Rightarrow> allocation_input \<Rightarrow> nat \<Rightarrow> point_locations \<Rightarrow> physical_register option" where
  "free_register ld_size inp reg conflicts =
    fold (better_free ld_size inp reg conflicts) (tm_registers (mf_target (ai_function inp))) None"

subsection \<open>Splitting\<close>

record trial =
  tr_profit :: int
  tr_gap_size :: nat
  tr_candidate :: "gap list"

text \<open>\<open>None\<close> for a scan that does not end, then an error, then \<open>None\<close> when the register is impossible.\<close>

fun weigh_ranges :: "allocation_input \<Rightarrow> alloc_state \<Rightarrow> nat \<Rightarrow> physical_register \<Rightarrow> nat \<Rightarrow> live_range list \<Rightarrow> trial \<Rightarrow> trial option result option" where
  "weigh_ranges inp s reg q n [] tr = Some (Inr (Some tr))"
| "weigh_ranges inp s reg q n (lr # lrs) tr =
    (if register_free q lr (as_used s) then weigh_ranges inp s reg q (n + 1) lrs tr
     else if \<not> register_free q lr (as_busy s) \<and> lg_blocks lr = [] then Some (Inr None)
     else Option.bind
       (if register_free q lr (as_busy s)
        then map_option (\<lambda>(found, total). (total, tr_gap_size tr + nat (lg_finish lr - lg_start lr + 1), found))
               (find_gaps inp (as_gaps s) q lr (tr_candidate tr))
        else Some (spill_cost inp lr, tr_gap_size tr, tr_candidate tr @ [\<lparr>gp_physical = q, gp_reg = reg, gp_range = n\<rparr>]))
       (\<lambda>(deduction, gap_size, candidate).
         if INT_MAX < deduction then Some (Inl (alloc_invalid inp ''spill-cost arithmetic overflow''))
         else let profit = tr_profit tr - deduction
              in if profit < INT_MIN \<or> INT_MAX < profit then Some (Inl (alloc_invalid inp ''spill-profit arithmetic overflow''))
                 else weigh_ranges inp s reg q (n + 1) lrs \<lparr>tr_profit = profit, tr_gap_size = gap_size, tr_candidate = candidate\<rparr>))"

record choice =
  ch_best :: "physical_register option"
  ch_profit :: int
  ch_gap :: nat
  ch_spilled :: "gap list"

definition better_choice :: "allocation_input \<Rightarrow> physical_register \<Rightarrow> trial \<Rightarrow> choice \<Rightarrow> bool" where
  "better_choice inp q tr c \<longleftrightarrow> (case ch_best c of
     None \<Rightarrow> True
   | Some b \<Rightarrow> ch_profit c < tr_profit tr \<or> (tr_profit tr = ch_profit c \<and> \<not> clobbered inp b \<and> clobbered inp q) \<or>
       (tr_profit tr = ch_profit c \<and> clobbered inp b = clobbered inp q \<and> ch_gap c < tr_gap_size tr))"

text \<open>The frequency is narrowed to 32 bits.\<close>

definition start_profit :: "allocation_input \<Rightarrow> nat \<Rightarrow> int" where
  "start_profit inp reg = sint (word_of_int (ai_frequencies inp ! reg) :: 32 word)"

fun split_register :: "nat \<Rightarrow> allocation_input \<Rightarrow> alloc_state \<Rightarrow> nat \<Rightarrow> register_record list \<Rightarrow> choice \<Rightarrow> choice result option" where
  "split_register ld_size inp s reg [] c = Some (Inr c)"
| "split_register ld_size inp s reg (info # infos) c =
    (if ri_reserved info \<or> \<not> accepts_value ld_size inp reg (ri_reg info) then split_register ld_size inp s reg infos c
     else case weigh_ranges inp s reg (ri_reg info) 0 (ranges_of inp reg)
            \<lparr>tr_profit = start_profit inp reg, tr_gap_size = 0, tr_candidate = []\<rparr> of
         None \<Rightarrow> None
       | Some (Inl e) \<Rightarrow> Some (Inl e)
       | Some (Inr None) \<Rightarrow> split_register ld_size inp s reg infos c
       | Some (Inr (Some tr)) \<Rightarrow>
           if tr_profit tr < 0 then split_register ld_size inp s reg infos c
           else if better_choice inp (ri_reg info) tr c
           then split_register ld_size inp s reg infos
                  \<lparr>ch_best = Some (ri_reg info), ch_profit = tr_profit tr, ch_gap = tr_gap_size tr, ch_spilled = tr_candidate tr\<rparr>
           else split_register ld_size inp s reg infos c)"

section \<open>Assigning one register\<close>

function reuse_slot :: "nat \<Rightarrow> nat \<Rightarrow> bitset \<Rightarrow> nat \<Rightarrow> nat option" where
  "reuse_slot bytes need conflicts offset =
    (if bytes < offset + need then None
     else if offset mod need = 0 \<and> list_all (\<lambda>k. \<not> bs_contains k conflicts) [offset div 8..<(offset + need) div 8] then Some offset
     else reuse_slot bytes need conflicts (offset + 8))"
  by auto
termination by (relation "measure (\<lambda>(bytes, need, conflicts, offset). Suc bytes - offset)") auto

declare reuse_slot.simps [simp del]

definition evict_gap :: "allocation_input \<Rightarrow> nat \<Rightarrow> gap \<Rightarrow> alloc_state \<times> bitset \<Rightarrow> alloc_state \<times> bitset" where
  "evict_gap inp reg g = (\<lambda>(s, own).
    let lr = gap_live_range inp g;
        s = s\<lparr>as_spill := fold (\<lambda>b spill. spill[b := (bs_insert (gp_reg g) (fst (spill ! b)), snd (spill ! b))]) (lg_blocks lr) (as_spill s)\<rparr>
    in if gp_reg g = reg then (s, bs_insert (nat (lg_start lr)) own)
       else (s\<lparr>as_gaps := gap_erase (pr_encoding (gp_physical g), lg_start lr) (as_gaps s),
               as_used := reserve_points (InRegister (gp_physical g)) lr False (as_used s)\<rparr>, own))"

definition place_range :: "allocation_input \<Rightarrow> nat \<Rightarrow> location \<Rightarrow> bitset \<Rightarrow> nat \<Rightarrow> alloc_state \<Rightarrow> alloc_state" where
  "place_range inp reg loc own n s =
    (let lr = ranges_of inp reg ! n;
         simple = (\<not> advanced inp \<or> (case loc of OnStack _ _ \<Rightarrow> True | _ \<Rightarrow> False));
         reserved = (simple \<or> \<not> bs_contains (nat (lg_start lr)) own);
         s = (if reserved then s\<lparr>as_used := reserve_points loc lr True (as_used s)\<rparr> else s)
     in if simple then s
        else if lg_blocks lr = [] then s\<lparr>as_busy := reserve_points loc lr True (as_busy s)\<rparr>
        else if reserved
        then (case loc of InRegister q \<Rightarrow>
                s\<lparr>as_gaps := gap_insert (pr_encoding q, lg_start lr) \<lparr>gp_physical = q, gp_reg = reg, gp_range = n\<rparr> (as_gaps s)\<rparr>
              | _ \<Rightarrow> s)
        else s)"

text \<open>A free register, else from level 2 on one worth splitting for, else a reused or a new stack slot.\<close>

definition choose_register :: "nat \<Rightarrow> allocation_input \<Rightarrow> alloc_state \<Rightarrow> nat \<Rightarrow> point_locations \<Rightarrow> choice result option" where
  "choose_register ld_size inp s reg conflicts =
    (let best = free_register ld_size inp reg conflicts; c = \<lparr>ch_best = best, ch_profit = 0, ch_gap = 0, ch_spilled = []\<rparr>
     in if best = None \<and> advanced inp then split_register ld_size inp s reg (tm_registers (mf_target (ai_function inp))) c
        else Some (Inr c))"

definition choose_location :: "allocation_input \<Rightarrow> nat \<Rightarrow> point_locations \<Rightarrow> physical_register option \<Rightarrow> alloc_state \<Rightarrow> location \<times> alloc_state" where
  "choose_location inp reg conflicts best s = (case best of
     Some q \<Rightarrow> (InRegister q, s\<lparr>as_used_registers := bs_insert (pr_encoding q) (as_used_registers s)\<rparr>)
   | None \<Rightarrow>
       (let t = ar_type (register_at inp reg); need = stack_units t * 8
        in case reuse_slot (as_stack_bytes s) need (pl_stack conflicts) (as_reusable s) of
            Some offset \<Rightarrow> (OnStack offset need, s)
          | None \<Rightarrow> (let (offset, need) = new_stack t (as_stack_bytes s) in (OnStack offset need, s\<lparr>as_stack_bytes := offset + need\<rparr>))))"

definition settle_register :: "allocation_input \<Rightarrow> nat \<Rightarrow> point_locations \<Rightarrow> choice \<Rightarrow> alloc_state \<Rightarrow> alloc_state" where
  "settle_register inp reg conflicts c s =
    (let (loc, s) = choose_location inp reg conflicts (ch_best c) s;
         (s, own) = fold (evict_gap inp reg) (rev (ch_spilled c)) (s, []);
         s = s\<lparr>as_locations := (as_locations s)[reg := loc]\<rparr>
     in fold (place_range inp reg loc own) [0..<length (ranges_of inp reg)] s)"

definition assign_register :: "nat \<Rightarrow> allocation_input \<Rightarrow> nat \<Rightarrow> alloc_state \<Rightarrow> alloc_state result option" where
  "assign_register ld_size inp reg s =
    (let s = s\<lparr>as_order := as_order s @ [reg]\<rparr>
     in case ar_binding (register_at inp reg) of
         Some q \<Rightarrow> Some (Inr (s\<lparr>as_locations := (as_locations s)[reg := InRegister q]\<rparr>))
       | None \<Rightarrow>
           if ranges_of inp reg = [] then Some (Inr s)
           else let conflicts = range_conflicts (ranges_of inp reg) (as_used s)
                in case choose_register ld_size inp s reg conflicts of
                    None \<Rightarrow> None
                  | Some (Inl e) \<Rightarrow> Some (Inl e)
                  | Some (Inr c) \<Rightarrow> Some (Inr (settle_register inp reg conflicts c s)))"

fun assign_in_order :: "nat \<Rightarrow> allocation_input \<Rightarrow> nat list \<Rightarrow> alloc_state \<Rightarrow> alloc_state result option" where
  "assign_in_order ld_size inp [] s = Some (Inr s)"
| "assign_in_order ld_size inp (r # rs) s = (case assign_register ld_size inp r s of
     None \<Rightarrow> None | Some (Inl e) \<Rightarrow> Some (Inl e) | Some (Inr s) \<Rightarrow> assign_in_order ld_size inp rs s)"

section \<open>The function\<close>

text \<open>A register whose address is taken, or which is backed by memory, gets a slot of its own before all others.\<close>

definition address_operands :: "allocation_input \<Rightarrow> nat list result" where
  "address_operands inp = collect (concat (map (\<lambda>b. concat (map (\<lambda>i.
      if mi_opcode i \<in> {IROp (OMisc O_Addr), IROp (OMisc O_Addr8), IROp (OMisc O_Addr16), IROp (OMisc O_Addr32)}
      then [case mi_operands i ! 1 of VReg (Some v) \<Rightarrow>
              if vr_id v < length (ai_virtuals inp) then Inr (physical_count inp + vr_id v) else mk_error InvalidArgument ''out_of_range''
            | _ \<Rightarrow> Inl (alloc_invalid inp ''local address requires a virtual register'')]
      else []) (mb_instructions b))) (mf_blocks (ai_function inp))))"

definition place_addressable :: "allocation_input \<Rightarrow> nat \<Rightarrow> alloc_state \<Rightarrow> alloc_state" where
  "place_addressable inp r s =
    (let (offset, need) = new_stack (ar_type (register_at inp r)) (as_stack_bytes s)
     in s\<lparr>as_locations := (as_locations s)[r := OnStack offset need], as_stack_bytes := offset + need, as_reusable := offset + need\<rparr>)"

definition live_length :: "allocation_input \<Rightarrow> nat \<Rightarrow> nat" where
  "live_length inp r = sum_list (map (\<lambda>lr. nat (lg_finish lr - lg_start lr) + 1) (ranges_of inp r))"

text \<open>Bound registers first, then by falling frequency and length; ties by the order of declaration.\<close>

definition priority :: "allocation_input \<Rightarrow> nat \<Rightarrow> nat \<times> int \<times> int \<times> nat" where
  "priority inp r =
    (if ar_binding (register_at inp r) \<noteq> None then (0, 0, 0, r)
     else (1, - (ai_frequencies inp ! r), - int (live_length inp r), r))"

definition reserve_physical :: "allocation_input \<Rightarrow> nat \<Rightarrow> alloc_state \<Rightarrow> alloc_state" where
  "reserve_physical inp r s =
    (let loc = InRegister (ri_reg (tm_registers (mf_target (ai_function inp)) ! r))
     in fold (\<lambda>lr s. s\<lparr>as_used := reserve_points loc lr True (as_used s),
            as_busy := (if advanced inp then reserve_points loc lr True (as_busy s) else as_busy s)\<rparr>) (ranges_of inp r) s)"

definition alloc_start :: "allocation_input \<Rightarrow> alloc_state" where
  "alloc_start inp =
    (let globals = \<lparr>pl_physical = fold (\<lambda>q bits. bs_insert (pr_encoding q) bits) (ai_globals inp) [], pl_stack = []\<rparr>;
         used = replicate (nat (ai_points inp) + 1) globals
     in \<lparr>as_locations = replicate (register_count inp) NoLocation, as_used = used, as_busy = (if advanced inp then used else []),
         as_stack_bytes = 0, as_reusable = 0, as_gaps = [], as_spill = ai_spill inp, as_used_registers = [], as_order = []\<rparr>)"

text \<open>Blocks that start an innermost loop.\<close>

definition aligned_loops :: "allocation_input \<Rightarrow> nat list" where
  "aligned_loops inp = (if advanced inp then concat (map (\<lambda>node. case (ln_block node, ln_parent node) of
       (Some b, Some parent) \<Rightarrow>
         (let p = ai_loops inp ! parent
          in if ln_entry p = Some b \<and> list_all (\<lambda>c. ln_block (ai_loops inp ! c) \<noteq> None) (ln_children p) \<and> 2 \<le> b then [b] else [])
     | _ \<Rightarrow> []) (ai_loops inp)) else [])"

record allocation =
  al_locations :: "location list"
  al_lengths :: "nat list"
  al_order :: "nat list"
  al_used :: "point_locations list"
  al_busy :: "point_locations list"
  al_used_registers :: "physical_register list"
  al_spill :: "(bitset \<times> bitset) list"
  al_gaps :: "gap list"
  al_aligned :: "nat list"
  al_stack_bytes :: nat
  al_reusable :: nat

definition finish_allocation :: "allocation_input \<Rightarrow> nat list \<Rightarrow> alloc_state \<Rightarrow> allocation" where
  "finish_allocation inp order s =
    \<lparr>al_locations = as_locations s,
     al_lengths = map (\<lambda>r. if r \<in> set order then live_length inp r else 0) [0..<register_count inp],
     al_order = as_order s, al_used = as_used s, al_busy = as_busy s,
     al_used_registers = map (\<lambda>r. ri_reg (tm_registers (mf_target (ai_function inp)) ! r)) (bs_for_each (as_used_registers s)),
     al_spill = as_spill s, al_gaps = map snd (as_gaps s), al_aligned = aligned_loops inp,
     al_stack_bytes = as_stack_bytes s, al_reusable = as_reusable s\<rparr>"

text \<open>Addressable registers first, then the physical ones, then the others in the order of their priority.\<close>

definition assign_locations :: "nat \<Rightarrow> (machine_function \<Rightarrow> unit result) \<Rightarrow> allocation_input \<Rightarrow> allocation result option" where
  "assign_locations ld_size verify inp =
    (if \<not> ai_current inp then Some (Inl (alloc_invalid inp ''stale or foreign allocation analyses''))
     else if \<not> ai_consistent inp then Some (Inl (alloc_invalid inp ''inconsistent or compact allocation analyses''))
     else case verify (ai_function inp) of Inl e \<Rightarrow> Some (Inl e) | Inr _ \<Rightarrow>
       if ai_points inp < 0 \<or> ai_points inp = INT_MAX \<or> SIZE_MAX div 16 < register_count inp
       then Some (Inl (alloc_invalid inp ''allocation dimensions overflow''))
       else case address_operands inp of Inl e \<Rightarrow> Some (Inl e) | Inr addressed \<Rightarrow>
         let virtuals = [physical_count inp..<register_count inp];
             addressable = (\<lambda>r. ar_memory_backed (register_at inp r) \<or> r \<in> set addressed);
             s = fold (place_addressable inp) (filter addressable virtuals) (alloc_start inp);
             order = sort_key (priority inp) (filter (\<lambda>r. \<not> addressable r) virtuals);
             s = fold (reserve_physical inp) [0..<physical_count inp] s
         in map_option (map_sum id (finish_allocation inp order)) (assign_in_order ld_size inp order s))"

section \<open>Reading an allocation\<close>

text \<open>\<open>is_current\<close> is whether the allocation belongs to the function as it is; a register of another function is foreign.\<close>

definition allocation_index :: "allocation_input \<Rightarrow> bool \<Rightarrow> nat \<Rightarrow> nat result" where
  "allocation_index inp is_current v =
    (if \<not> is_current then Inl (alloc_invalid inp ''stale allocation'')
     else if length (ai_virtuals inp) \<le> v then Inl (alloc_invalid inp ''foreign register'')
     else Inr (physical_count inp + v))"

definition location_of :: "allocation_input \<Rightarrow> allocation \<Rightarrow> bool \<Rightarrow> nat \<Rightarrow> location result" where
  "location_of inp al is_current v = map_sum id (\<lambda>r. al_locations al ! r) (allocation_index inp is_current v)"

definition live_length_of :: "allocation_input \<Rightarrow> allocation \<Rightarrow> bool \<Rightarrow> nat \<Rightarrow> nat result" where
  "live_length_of inp al is_current v = map_sum id (\<lambda>r. al_lengths al ! r) (allocation_index inp is_current v)"

end
