(* ===== verification/LiveRanges.thy ===== *)
theory LiveRanges
  imports MachineLiveness Assignment
begin

text \<open>
  The live ranges of a machine function (\<open>MachineLiveRanges::build\<close> in \<open>lib/CodeGen/LiveRanges.cpp\<close>): every block is
  scanned from its last instruction to its first, a register opens a range where it becomes live and closes it at its
  definition or at the start of the block.  The points are then compressed and touching ranges merged.  The reference
  cost of a range, which is always 1, is left out.
\<close>

section \<open>The scan of the blocks\<close>

text \<open>\<open>rn_full\<close> maps the position of a watched register to its index among all registers, \<open>rn_scans\<close> maps back.\<close>

record range_env =
  rn_function :: machine_function
  rn_compact :: bool
  rn_globals :: "physical_register list"
  rn_full :: "nat list"
  rn_scans :: "nat option list"

record range_state =
  rg_ranges :: "live_range list list"
  rg_living :: bitset
  rg_referenced :: bitset
  rg_crossed :: bitset
  rg_spill :: "(bitset \<times> bitset) list"
  rg_point :: int

definition ranges_invalid :: "machine_function \<Rightarrow> string \<Rightarrow> error" where
  "ranges_invalid f why = \<lparr>code = InvalidOperand, message = mf_module f @ ''/'' @ mf_name f @ '' ['' @
     machine_name (tm_abi (mf_target f)) @ '', machine-live-ranges]: '' @ why\<rparr>"

definition advance_point :: "range_env \<Rightarrow> bool \<Rightarrow> range_state \<Rightarrow> range_state result" where
  "advance_point env increment s =
    (if \<not> increment then Inr s
     else if rg_point s = INT_MAX then Inl (ranges_invalid (rn_function env) ''live point overflow'')
     else Inr (s\<lparr>rg_point := rg_point s + 1\<rparr>))"

definition note_referenced :: "range_env \<Rightarrow> nat \<Rightarrow> bool \<Rightarrow> range_state \<Rightarrow> range_state" where
  "note_referenced env r instruction s =
    (if instruction \<and> \<not> rn_compact env then s\<lparr>rg_referenced := bs_insert r (rg_referenced s)\<rparr> else s)"

definition range_dead :: "range_env \<Rightarrow> bool \<Rightarrow> nat \<times> nat \<Rightarrow> range_state \<Rightarrow> range_state" where
  "range_dead env instruction = (\<lambda>(r, k) s.
    let s = note_referenced env r instruction s; lrs = rg_ranges s ! r
    in if bs_contains k (rg_living s)
       then s\<lparr>rg_living := bs_erase k (rg_living s), rg_ranges := (rg_ranges s)[r := butlast lrs @ [(last lrs)\<lparr>lg_finish := rg_point s\<rparr>]]\<rparr>
       else s\<lparr>rg_ranges := (rg_ranges s)[r := lrs @ [\<lparr>lg_start = rg_point s, lg_finish = rg_point s, lg_blocks = []\<rparr>]]\<rparr>)"

text \<open>A register that becomes live at the point its range ended, or at the next one, goes on with that range.\<close>

definition reopens :: "int \<Rightarrow> bool \<Rightarrow> live_range list \<Rightarrow> bool" where
  "reopens point instruction lrs \<longleftrightarrow> instruction \<and> lrs \<noteq> [] \<and> lg_blocks (last lrs) = [] \<and>
     (lg_finish (last lrs) = point \<or> lg_finish (last lrs) = point - 1)"

definition range_born :: "range_env \<Rightarrow> bool \<Rightarrow> nat \<times> nat \<Rightarrow> range_state \<Rightarrow> range_state \<times> bool" where
  "range_born env instruction = (\<lambda>(r, k) s.
    let s = note_referenced env r instruction s; lrs = rg_ranges s ! r
    in if bs_contains k (rg_living s) then (s, False)
       else let s = s\<lparr>rg_living := bs_insert k (rg_living s)\<rparr>
            in (if reopens (rg_point s) instruction lrs then s
                else s\<lparr>rg_ranges := (rg_ranges s)[r := lrs @ [\<lparr>lg_start = rg_point s, lg_finish = - 1, lg_blocks = []\<rparr>]]\<rparr>, True))"

text \<open>The index of a register and its position among the watched ones.  The registers of a verified function have an
  index; the code reads it without a check.\<close>

definition scanned :: "range_env \<Rightarrow> machine_register \<Rightarrow> (nat \<times> nat) list" where
  "scanned env reg = (case index_find (rn_function env) reg of
     None \<Rightarrow> []
   | Some r \<Rightarrow> (case rn_scans env ! r of None \<Rightarrow> [] | Some k \<Rightarrow> [(r, k)]))"

definition scanned_list :: "range_env \<Rightarrow> machine_register list \<Rightarrow> (nat \<times> nat) list" where
  "scanned_list env regs = concat (map (scanned env) regs)"

definition dead_all :: "range_env \<Rightarrow> (nat \<times> nat) list \<Rightarrow> range_state \<Rightarrow> range_state" where
  "dead_all env rks s = fold (range_dead env True) rks s"

definition born_step :: "range_env \<Rightarrow> nat \<times> nat \<Rightarrow> range_state \<times> bool \<Rightarrow> range_state \<times> bool" where
  "born_step env rk = (\<lambda>(s, increment). let (s, b) = range_born env True rk s in (s, increment \<or> b))"

definition born_all :: "range_env \<Rightarrow> (nat \<times> nat) list \<Rightarrow> range_state \<times> bool \<Rightarrow> range_state \<times> bool" where
  "born_all env rks si = fold (born_step env) rks si"

definition early_step :: "range_env \<Rightarrow> nat \<times> nat \<Rightarrow> range_state \<times> bool \<Rightarrow> range_state \<times> bool" where
  "early_step env rk = (\<lambda>(s, increment). (range_dead env True rk (fst (range_born env True rk s)), True))"

definition target_clobbers :: "machine_function \<Rightarrow> machine_register list" where
  "target_clobbers f = map PhysicalReg (filter (\<lambda>q. call_clobbers (mf_target f) q (mk_type K_Undef)) (map ri_reg (tm_registers (mf_target f))))"

definition virtual_index :: "range_env \<Rightarrow> nat \<Rightarrow> bool" where
  "virtual_index env r \<longleftrightarrow> (case all_registers (rn_function env) ! r of VirtualReg _ \<Rightarrow> True | PhysicalReg _ \<Rightarrow> False)"

definition note_crossed :: "range_env \<Rightarrow> range_state \<Rightarrow> range_state" where
  "note_crossed env s = s\<lparr>rg_crossed := fold (\<lambda>k crossed. if virtual_index env (rn_full env ! k) then bs_insert (rn_full env ! k) crossed else crossed)
     (bs_for_each (rg_living s)) (rg_crossed s)\<rparr>"

definition scan_call :: "range_env \<Rightarrow> machine_instruction \<Rightarrow> range_state \<Rightarrow> range_state \<times> bool" where
  "scan_call env i s =
    (let clobbers = scanned_list env (target_clobbers (rn_function env));
         s = dead_all env clobbers s;
         (s, _) = born_all env (scanned_list env (map PhysicalReg (rn_globals env))) (s, False);
         (s, _) = born_all env (scanned_list env (map PhysicalReg (mi_arguments i))) (s, False)
     in (note_crossed env s, clobbers \<noteq> []))"

definition scan_reads :: "range_env \<Rightarrow> machine_instruction \<Rightarrow> range_state \<times> bool \<Rightarrow> range_state result" where
  "scan_reads env i = (\<lambda>(s, increment). rbind (advance_point env increment s) (\<lambda>s.
    let (s, increment) = born_all env (scanned_list env (visit_registers i False)) (s, False);
        (s, increment) = (if rn_compact env then (s, increment)
          else fold (early_step env) (scanned_list env (map PhysicalReg (early_clobbers (mf_target (rn_function env)) (mi_opcode i)))) (s, increment))
    in advance_point env increment s))"

definition scan_instruction :: "range_env \<Rightarrow> machine_instruction \<Rightarrow> range_state \<Rightarrow> range_state result" where
  "scan_instruction env i s =
    (let defs = scanned_list env (visit_registers i True); s = dead_all env defs s
     in rbind (if \<not> rn_compact env \<and> is_call (mi_opcode i)
               then rbind (advance_point env (defs \<noteq> []) s) (\<lambda>s. Inr (scan_call env i s))
               else Inr (s, defs \<noteq> [])) (scan_reads env i))"

fun scan_body :: "range_env \<Rightarrow> machine_instruction list \<Rightarrow> range_state \<Rightarrow> range_state result" where
  "scan_body env [] s = Inr s"
| "scan_body env (i # is) s = rbind (scan_instruction env i s) (scan_body env is)"

definition start_block :: "range_env \<Rightarrow> bitset \<Rightarrow> range_state \<Rightarrow> range_state" where
  "start_block env out s = fold (\<lambda>k s. fst (range_born env False (rn_full env ! k, k) s)) (bs_for_each out)
     (s\<lparr>rg_living := [], rg_referenced := []\<rparr>)"

text \<open>A register that is live at the start of a block and not referenced in it is live in all of it.\<close>

definition finish_range :: "range_env \<Rightarrow> nat \<Rightarrow> nat \<Rightarrow> range_state \<Rightarrow> range_state" where
  "finish_range env b k s =
    (let r = rn_full env ! k; s = range_dead env False (r, k) s; lrs = rg_ranges s ! r
     in if \<not> rn_compact env \<and> \<not> bs_contains r (rg_referenced s)
        then s\<lparr>rg_ranges := (rg_ranges s)[r := butlast lrs @ [(last lrs)\<lparr>lg_blocks := lg_blocks (last lrs) @ [b]\<rparr>]]\<rparr>
        else s)"

definition block_spill :: "range_env \<Rightarrow> nat \<Rightarrow> range_state \<Rightarrow> range_state" where
  "block_spill env b s = (if rn_compact env then s
     else s\<lparr>rg_spill := (rg_spill s)[b := ([], fold (\<lambda>r kill. if virtual_index env r then bs_insert r kill else kill) (bs_for_each (rg_referenced s)) [])]\<rparr>)"

definition skipped_block :: "machine_function \<Rightarrow> nat \<Rightarrow> bool" where
  "skipped_block f b \<longleftrightarrow> node_body f b = [] \<and> mb_labels (mf_blocks f ! (b - 2)) = []"

definition scan_block :: "range_env \<Rightarrow> block_liveness list \<Rightarrow> nat \<Rightarrow> range_state \<Rightarrow> range_state result" where
  "scan_block env blocks b s =
    (if skipped_block (rn_function env) b then Inr s
     else rbind (scan_body env (rev (node_body (rn_function env) b)) (start_block env (bl_out (blocks ! b)) s)) (\<lambda>s.
       if rg_living s \<noteq> bl_in (blocks ! b) then Inl (ranges_invalid (rn_function env) ''live-in disagrees with reverse instruction scan'')
       else advance_point env (bl_in (blocks ! b) \<noteq> [])
              (block_spill env b (fold (finish_range env b) (bs_for_each (bl_in (blocks ! b))) s))))"

fun scan_blocks :: "range_env \<Rightarrow> block_liveness list \<Rightarrow> nat list \<Rightarrow> range_state \<Rightarrow> range_state result" where
  "scan_blocks env blocks [] s = Inr s"
| "scan_blocks env blocks (b # bs) s = rbind (scan_block env blocks b s) (scan_blocks env blocks bs)"

section \<open>Compression\<close>

text \<open>The points where ranges start and end, and the map of the points: a birth after a death begins a new one.\<close>

record compression =
  cp_map :: "int list"
  cp_last :: int
  cp_dead :: bool

definition range_births :: "live_range list \<Rightarrow> bitset" where
  "range_births lrs = fold (\<lambda>lr. bs_insert (nat (lg_start lr))) lrs []"

definition range_deaths :: "live_range list \<Rightarrow> bitset" where
  "range_deaths lrs = fold (\<lambda>lr. bs_insert (nat (lg_finish lr))) lrs []"

definition compress_event :: "bitset \<Rightarrow> bitset \<Rightarrow> nat \<Rightarrow> compression \<Rightarrow> compression" where
  "compress_event births deaths p c =
    (let n = (if cp_dead c \<and> bs_contains p births then cp_last c + 1 else cp_last c)
     in \<lparr>cp_map = (cp_map c)[p := n], cp_last = n, cp_dead = bs_contains p deaths\<rparr>)"

definition compress_points :: "live_range list \<Rightarrow> int \<Rightarrow> compression" where
  "compress_points lrs point =
    (let births = range_births lrs; deaths = range_deaths lrs
     in fold (compress_event births deaths) (bs_for_each (fst (bs_union_with False births deaths)))
          \<lparr>cp_map = replicate (nat (point + 1)) 0, cp_last = - 1, cp_dead = True\<rparr>)"

definition map_range :: "int list \<Rightarrow> live_range \<Rightarrow> live_range" where
  "map_range points lr = lr\<lparr>lg_start := points ! nat (lg_start lr), lg_finish := points ! nat (lg_finish lr)\<rparr>"

text \<open>The ranges of a register come latest first.\<close>

definition merge_range :: "live_range list \<Rightarrow> live_range \<Rightarrow> live_range list" where
  "merge_range merged lr =
    (if merged = [] \<or> (lg_start (last merged) \<noteq> lg_finish lr \<and> lg_start (last merged) - 1 \<noteq> lg_finish lr) \<or>
        (lg_blocks (last merged) = []) \<noteq> (lg_blocks lr = [])
     then merged @ [lr]
     else butlast merged @ [(last merged)\<lparr>lg_start := lg_start lr, lg_blocks := rev (lg_blocks lr) @ lg_blocks (last merged)\<rparr>])"

definition merge_ranges :: "int list \<Rightarrow> live_range list \<Rightarrow> live_range list" where
  "merge_ranges points lrs = foldl merge_range [] (map (map_range points) lrs)"

section \<open>The result\<close>

record live_ranges =
  lr_registers :: "machine_register list"
  lr_scan :: "machine_register list"
  lr_compact :: bool
  lr_level :: nat
  lr_globals :: "physical_register list"
  lr_ranges :: "live_range list list"
  lr_raw :: "live_range list list"
  lr_spill :: "(bitset \<times> bitset) list"
  lr_crossed :: bitset
  lr_point_map :: "int list"
  lr_points :: int
  lr_raw_points :: int

definition scan_positions :: "nat \<Rightarrow> nat list \<Rightarrow> nat option list" where
  "scan_positions n full = fold (\<lambda>k scans. scans[full ! k := Some k]) [0..<length full] (replicate n None)"

definition range_environment :: "machine_function \<Rightarrow> machine_liveness \<Rightarrow> range_env" where
  "range_environment f lv =
    (let full = map (\<lambda>reg. the (index_find f reg)) (mv_registers lv)
     in \<lparr>rn_function = f, rn_compact = mv_compact lv, rn_globals = mv_globals lv,
         rn_full = full, rn_scans = scan_positions (length (all_registers f)) full\<rparr>)"

definition block_order :: "machine_graph \<Rightarrow> nat \<Rightarrow> nat \<Rightarrow> nat list" where
  "block_order g level n = (if level = 1 then sort_key (\<lambda>b. - int (mg_rpost g ! b)) [2..<n] else [2..<n])"

definition range_start :: "machine_function \<Rightarrow> machine_liveness \<Rightarrow> range_state" where
  "range_start f lv = \<lparr>rg_ranges = replicate (length (all_registers f)) [], rg_living = [], rg_referenced = [], rg_crossed = [],
     rg_spill = map (\<lambda>bl. (bl_gen bl, bl_kill bl)) (mv_blocks lv), rg_point = 0\<rparr>"

definition finish_ranges :: "machine_function \<Rightarrow> machine_liveness \<Rightarrow> range_state \<Rightarrow> live_ranges result" where
  "finish_ranges f lv s =
    (let raw = map rev (rg_ranges s)
     in if \<not> list_all (\<lambda>lr. 0 \<le> lg_start lr \<and> lg_start lr \<le> lg_finish lr) (concat raw) then Inl (ranges_invalid f ''unfinished live range'')
        else let c = compress_points (concat raw) (rg_point s)
             in if cp_last c = INT_MAX then Inl (ranges_invalid f ''compressed live point overflow'')
                else Inr \<lparr>lr_registers = all_registers f, lr_scan = (if mv_compact lv then mv_registers lv else []), lr_compact = mv_compact lv,
                  lr_level = mv_level lv, lr_globals = mv_globals lv, lr_ranges = map (merge_ranges (cp_map c)) raw, lr_raw = raw,
                  lr_spill = rg_spill s, lr_crossed = rg_crossed s, lr_point_map = cp_map c, lr_points = cp_last c + 1, lr_raw_points = rg_point s\<rparr>)"

text \<open>\<open>is_current\<close> is whether the graph and the liveness belong to the function as it is.\<close>

definition build_ranges :: "(machine_function \<Rightarrow> unit result) \<Rightarrow> machine_function \<Rightarrow> machine_graph \<Rightarrow> bool \<Rightarrow> machine_liveness \<Rightarrow> live_ranges result" where
  "build_ranges verify f g is_current lv =
    (if \<not> is_current then Inl (ranges_invalid f ''stale or foreign CFG/liveness'')
     else rbind (verify f) (\<lambda>_. rbind (scan_blocks (range_environment f lv) (mv_blocks lv)
         (block_order g (mv_level lv) (machine_count f)) (range_start f lv)) (finish_ranges f lv)))"

definition ranges_at :: "machine_function \<Rightarrow> live_ranges \<Rightarrow> bool \<Rightarrow> machine_register \<Rightarrow> live_range list result" where
  "ranges_at f lr is_current reg =
    (if \<not> is_current then Inl (ranges_invalid f ''stale live ranges'')
     else case index_find f reg of None \<Rightarrow> Inl (ranges_invalid f ''foreign register'') | Some r \<Rightarrow> Inr (lr_ranges lr ! r))"

end
