(* ===== verification/RangeScan.thy ===== *)
theory RangeScan
  imports LiveRanges
begin

text \<open>
  The scan of \<open>MachineLiveRanges::build\<close> (\<open>lib/CodeGen/LiveRanges.cpp\<close>): the rows of ranges stay in order, and the
  registers that are live together, or live after an instruction that defines another, share a point.
\<close>

section \<open>The ranges of a register\<close>

text \<open>Ranges of a register follow each other; only ranges without blocks may share a point.\<close>

definition range_before :: "live_range \<Rightarrow> live_range \<Rightarrow> bool" where
  "range_before a b \<longleftrightarrow> lg_finish a < lg_start b \<or> (lg_finish a = lg_start b \<and> lg_blocks a = [] \<and> lg_blocks b = [])"

definition closed_range :: "nat \<Rightarrow> int \<Rightarrow> int \<Rightarrow> live_range \<Rightarrow> bool" where
  "closed_range n lim q lr \<longleftrightarrow> 0 \<le> lg_start lr \<and> lg_start lr \<le> lg_finish lr \<and> lg_finish lr \<le> lim \<and> (lg_finish lr < q \<or> lg_blocks lr = []) \<and>
     set (lg_blocks lr) \<subseteq> {..<n}"

definition open_range :: "int \<Rightarrow> live_range \<Rightarrow> bool" where
  "open_range pt lr \<longleftrightarrow> 0 \<le> lg_start lr \<and> lg_start lr \<le> pt \<and> lg_blocks lr = []"

text \<open>While the register is live its last range is open; \<open>fresh\<close> is whether that one started with the block.\<close>

definition row_ok :: "nat \<Rightarrow> int \<Rightarrow> int \<Rightarrow> int \<Rightarrow> bool \<Rightarrow> bool \<Rightarrow> live_range list \<Rightarrow> bool" where
  "row_ok n lim q pt fresh live lrs \<longleftrightarrow> sorted_wrt range_before lrs \<and>
     (if live then lrs \<noteq> [] \<and> (\<forall>lr\<in>set (butlast lrs). closed_range n lim q lr) \<and> open_range pt (last lrs) \<and>
        (fresh \<longrightarrow> (\<forall>lr\<in>set (butlast lrs). lg_finish lr < lg_start (last lrs)))
      else (\<forall>lr\<in>set lrs. closed_range n lim q lr))"

lemma closed_range_mono: "closed_range n lim q lr \<Longrightarrow> lim \<le> lim' \<Longrightarrow> q \<le> q' \<Longrightarrow> closed_range n lim' q' lr"
  by (auto simp: closed_range_def)

lemma row_ok_mono:
  "row_ok n lim q pt fresh live lrs \<Longrightarrow> lim \<le> lim' \<Longrightarrow> q \<le> q' \<Longrightarrow> pt \<le> pt' \<Longrightarrow> (live \<Longrightarrow> fresh' \<Longrightarrow> fresh) \<Longrightarrow> row_ok n lim' q' pt' fresh' live lrs"
  unfolding row_ok_def open_range_def using closed_range_mono by (auto split: if_splits)

lemma row_openD:
  assumes "row_ok n lim q pt fresh True lrs"
  obtains xs lr where "lrs = xs @ [lr]" "sorted_wrt range_before (xs @ [lr])" "\<forall>x\<in>set xs. closed_range n lim q x" "open_range pt lr"
    "fresh \<longrightarrow> (\<forall>x\<in>set xs. lg_finish x < lg_start lr)"
proof -
  obtain xs lr where "lrs = xs @ [lr]" using assms by (cases lrs rule: rev_cases) (auto simp: row_ok_def)
  then show thesis using that assms by (simp add: row_ok_def)
qed

lemma row_close:
  assumes "row_ok n lim q pt fresh True lrs" "lim \<le> pt"
  shows "row_ok n pt q pt fresh' False (butlast lrs @ [(last lrs)\<lparr>lg_finish := pt\<rparr>])"
  using assms(1)
proof (rule row_openD)
  fix xs lr
  assume a: "lrs = xs @ [lr]" "sorted_wrt range_before (xs @ [lr])" "\<forall>x\<in>set xs. closed_range n lim q x" "open_range pt lr"
  then have "\<forall>x\<in>set xs. closed_range n pt q x" using closed_range_mono assms(2) by blast
  then show ?thesis using a by (auto simp: row_ok_def sorted_wrt_append range_before_def closed_range_def open_range_def)
qed

lemma row_finish:
  assumes "row_ok n lim q pt True True lrs" "lim \<le> pt" "q \<le> pt + 1" "b < n"
  shows "row_ok n pt (pt + 1) pt fresh' False (butlast lrs @ [(last lrs)\<lparr>lg_finish := pt, lg_blocks := lg_blocks (last lrs) @ [b]\<rparr>])"
  using assms(1)
proof (rule row_openD)
  fix xs lr
  assume a: "lrs = xs @ [lr]" "sorted_wrt range_before (xs @ [lr])" "\<forall>x\<in>set xs. closed_range n lim q x" "open_range pt lr"
    "True \<longrightarrow> (\<forall>x\<in>set xs. lg_finish x < lg_start lr)"
  then have "\<forall>x\<in>set xs. closed_range n pt (pt + 1) x" using closed_range_mono assms(2,3) by blast
  then show ?thesis using a assms(4) by (auto simp: row_ok_def sorted_wrt_append range_before_def closed_range_def open_range_def)
qed

lemma closed_before:
  assumes "closed_range n lim q x" "lim \<le> pt" "q \<le> pt" "lg_start y = pt" "lg_blocks y = []"
  shows "range_before x y"
  using assms by (auto simp: closed_range_def range_before_def)

lemma row_point:
  assumes "row_ok n lim q pt fresh False lrs" "lim \<le> pt" "q \<le> pt" "0 \<le> pt"
  shows "row_ok n pt q pt fresh' False (lrs @ [\<lparr>lg_start = pt, lg_finish = pt, lg_blocks = []\<rparr>])"
proof -
  have "\<forall>x\<in>set lrs. closed_range n lim q x" "sorted_wrt range_before lrs" using assms(1) by (simp_all add: row_ok_def)
  then show ?thesis using assms closed_before [OF _ assms(2,3)] closed_range_mono [OF _ assms(2) order_refl]
    by (auto simp: row_ok_def sorted_wrt_append closed_range_def)
qed

lemma row_push:
  assumes "row_ok n lim q pt fresh False lrs" "lim \<le> pt" "q \<le> pt" "0 \<le> pt" "fresh' \<Longrightarrow> lim < pt"
  shows "row_ok n lim q pt fresh' True (lrs @ [\<lparr>lg_start = pt, lg_finish = - 1, lg_blocks = []\<rparr>])"
proof -
  have c: "\<forall>x\<in>set lrs. closed_range n lim q x" "sorted_wrt range_before lrs" using assms(1) by (simp_all add: row_ok_def)
  then have "lim < pt \<Longrightarrow> \<forall>x\<in>set lrs. lg_finish x < pt" by (auto simp: closed_range_def)
  then show ?thesis using assms c closed_before [OF _ assms(2,3)]
    by (auto simp: row_ok_def sorted_wrt_append open_range_def)
qed

lemma row_reopen:
  assumes "row_ok n lim q pt fresh False lrs" "reopens pt instruction lrs" "lim \<le> pt"
  shows "row_ok n lim q pt False True lrs"
proof -
  obtain xs lr where l: "lrs = xs @ [lr]" using assms(2) by (cases lrs rule: rev_cases) (auto simp: reopens_def)
  then show ?thesis using assms by (auto simp: row_ok_def reopens_def open_range_def closed_range_def)
qed

text \<open>A range covers a point; an open one also those up to now.\<close>

definition row_covers :: "bool \<Rightarrow> live_range list \<Rightarrow> int \<Rightarrow> bool" where
  "row_covers live lrs p \<longleftrightarrow> (\<exists>lr\<in>set lrs. lg_start lr \<le> p \<and> p \<le> lg_finish lr) \<or> (live \<and> lrs \<noteq> [] \<and> lg_start (last lrs) \<le> p)"

lemma row_covers_close:
  "row_covers True lrs p \<Longrightarrow> p \<le> pt \<Longrightarrow> row_covers live (butlast lrs @ [(last lrs)\<lparr>lg_finish := pt\<rparr>]) p"
  by (cases lrs rule: rev_cases) (auto simp: row_covers_def)

lemma row_covers_blocks:
  "row_covers live (xs @ [lr]) p \<Longrightarrow> row_covers live (xs @ [lr\<lparr>lg_blocks := bs\<rparr>]) p"
  by (auto simp: row_covers_def)

lemma row_covers_append: "row_covers False lrs p \<Longrightarrow> row_covers live (lrs @ [lr]) p"
  by (auto simp: row_covers_def)

lemma row_covers_reopen: "row_covers False lrs p \<Longrightarrow> row_covers live lrs p"
  by (auto simp: row_covers_def)

section \<open>The state of the scan\<close>

definition env_ok :: "range_env \<Rightarrow> bool" where
  "env_ok env \<longleftrightarrow> distinct (rn_full env) \<and> set (rn_full env) \<subseteq> {..<length (all_registers (rn_function env))} \<and>
     (\<forall>r<length (all_registers (rn_function env)). \<forall>k. rn_scans env ! r = Some k \<longleftrightarrow> k < length (rn_full env) \<and> rn_full env ! k = r)"

definition open_registers :: "range_env \<Rightarrow> range_state \<Rightarrow> nat set" where
  "open_registers env s = (\<lambda>k. rn_full env ! k) ` bs_elems (rg_living s)"

definition state_ok :: "range_env \<Rightarrow> int \<Rightarrow> int \<Rightarrow> range_state \<Rightarrow> bool" where
  "state_ok env lim q s \<longleftrightarrow> length (rg_ranges s) = length (all_registers (rn_function env)) \<and>
     bs_wf (rg_living s) \<and> bs_elems (rg_living s) \<subseteq> {..<length (rn_full env)} \<and> bs_wf (rg_referenced s) \<and>
     0 \<le> rg_point s \<and> lim \<le> rg_point s \<and>
     (\<forall>r<length (rg_ranges s). row_ok (machine_count (rn_function env)) lim q (rg_point s)
        (\<not> rn_compact env \<and> r \<notin> bs_elems (rg_referenced s)) (r \<in> open_registers env s) (rg_ranges s ! r))"

definition pair_ok :: "range_env \<Rightarrow> nat \<times> nat \<Rightarrow> bool" where
  "pair_ok env rk \<longleftrightarrow> snd rk < length (rn_full env) \<and> fst rk = rn_full env ! snd rk"

definition covered :: "range_env \<Rightarrow> range_state \<Rightarrow> nat \<Rightarrow> int \<Rightarrow> bool" where
  "covered env s r p \<longleftrightarrow> p \<le> rg_point s \<and> row_covers (r \<in> open_registers env s) (rg_ranges s ! r) p"

definition extends :: "range_env \<Rightarrow> range_state \<Rightarrow> range_state \<Rightarrow> bool" where
  "extends env s s' \<longleftrightarrow> rg_point s \<le> rg_point s' \<and> (\<forall>r<length (all_registers (rn_function env)). \<forall>p. covered env s r p \<longrightarrow> covered env s' r p)"

lemma extends_refl [simp]: "extends env s s"
  by (simp add: extends_def)

lemma extends_trans: "extends env s t \<Longrightarrow> extends env t u \<Longrightarrow> extends env s u"
  by (auto simp: extends_def)

lemma extendsD: "extends env s s' \<Longrightarrow> covered env s r p \<Longrightarrow> r < length (all_registers (rn_function env)) \<Longrightarrow> covered env s' r p"
  by (simp add: extends_def)

lemma pair_register: "env_ok env \<Longrightarrow> pair_ok env rk \<Longrightarrow> fst rk < length (all_registers (rn_function env))"
  by (auto simp: env_ok_def pair_ok_def dest!: subsetD)

lemma open_register:
  assumes "env_ok env" "state_ok env lim q s" "pair_ok env (r, k)"
  shows "r \<in> open_registers env s \<longleftrightarrow> k \<in> bs_elems (rg_living s)"
proof -
  have "j = k" if "j \<in> bs_elems (rg_living s)" "rn_full env ! j = rn_full env ! k" for j
    using assms that nth_eq_iff_index_eq [of "rn_full env" j k] by (auto simp: env_ok_def state_ok_def pair_ok_def)
  then show ?thesis using assms(3) by (auto simp: open_registers_def pair_ok_def image_iff)
qed

lemma scanned_pair: "env_ok env \<Longrightarrow> rk \<in> set (scanned env reg) \<Longrightarrow> pair_ok env rk"
proof -
  assume e: "env_ok env" and rk: "rk \<in> set (scanned env reg)"
  then obtain r k where f: "index_find (rn_function env) reg = Some r" "rn_scans env ! r = Some k" "rk = (r, k)"
    by (cases "index_find (rn_function env) reg"; cases "rn_scans env ! the (index_find (rn_function env) reg)") (auto simp: scanned_def)
  have "r < length (all_registers (rn_function env))"
    using f(1) by (auto simp: index_find_def register_position_def find_Some_iff split: option.splits machine_register.splits if_splits)
  then show ?thesis using e f(2,3) by (auto simp: env_ok_def pair_ok_def)
qed

lemma scanned_pairs: "env_ok env \<Longrightarrow> \<forall>rk\<in>set (scanned_list env regs). pair_ok env rk"
  using scanned_pair by (auto simp: scanned_list_def)

text \<open>Changing the row of one register.\<close>

lemma state_ok_row:
  assumes ok: "state_ok env lim q s" and r: "r < length (rg_ranges s)"
    and s': "rg_ranges s' = (rg_ranges s)[r := row]" "rg_point s' = rg_point s"
      "bs_wf (rg_living s')" "bs_elems (rg_living s') \<subseteq> {..<length (rn_full env)}" "bs_wf (rg_referenced s')"
      "open_registers env s' - {r} = open_registers env s - {r}" "bs_elems (rg_referenced s) \<subseteq> bs_elems (rg_referenced s')"
    and le: "lim \<le> lim'" "lim' \<le> rg_point s" "q \<le> q'"
    and row: "row_ok (machine_count (rn_function env)) lim' q' (rg_point s) (\<not> rn_compact env \<and> r \<notin> bs_elems (rg_referenced s')) (r \<in> open_registers env s') row"
  shows "state_ok env lim' q' s'"
proof -
  have "row_ok (machine_count (rn_function env)) lim' q' (rg_point s) (\<not> rn_compact env \<and> a \<notin> bs_elems (rg_referenced s')) (a \<in> open_registers env s') (rg_ranges s' ! a)"
    if a: "a < length (rg_ranges s)" for a
  proof (cases "a = r")
    case True
    then show ?thesis using row s'(1) r by simp
  next
    case False
    have "row_ok (machine_count (rn_function env)) lim q (rg_point s) (\<not> rn_compact env \<and> a \<notin> bs_elems (rg_referenced s)) (a \<in> open_registers env s) (rg_ranges s ! a)"
      using ok a by (simp add: state_ok_def)
    then have "row_ok (machine_count (rn_function env)) lim' q' (rg_point s) (\<not> rn_compact env \<and> a \<notin> bs_elems (rg_referenced s')) (a \<in> open_registers env s) (rg_ranges s ! a)"
      by (rule row_ok_mono) (use le s'(7) in auto)
    moreover have "a \<in> open_registers env s' \<longleftrightarrow> a \<in> open_registers env s" using s'(6) False by blast
    ultimately show ?thesis using s'(1) False by simp
  qed
  then show ?thesis using ok s' le(2) by (simp add: state_ok_def)
qed

lemma extends_row:
  assumes s': "rg_ranges s' = (rg_ranges s)[r := row]" "rg_point s' = rg_point s" "open_registers env s' - {r} = open_registers env s - {r}"
    and r: "r < length (rg_ranges s)"
    and row: "\<And>p. p \<le> rg_point s \<Longrightarrow> row_covers (r \<in> open_registers env s) (rg_ranges s ! r) p \<Longrightarrow> row_covers (r \<in> open_registers env s') row p"
  shows "extends env s s'"
proof -
  have "covered env s' a p" if c: "covered env s a p" for a p
  proof (cases "a = r")
    case True
    then show ?thesis using c row r s'(1,2) by (simp add: covered_def)
  next
    case False
    then have "a \<in> open_registers env s' \<longleftrightarrow> a \<in> open_registers env s" using s'(3) by blast
    then show ?thesis using c False s'(1,2) by (simp add: covered_def)
  qed
  then show ?thesis using s'(2) by (simp add: extends_def)
qed

section \<open>Births and deaths\<close>

lemma bits_simps:
  "bs_wf s \<Longrightarrow> bs_contains k s \<longleftrightarrow> k \<in> bs_elems s" "bs_wf s \<Longrightarrow> bs_wf (bs_insert k s)" "bs_wf s \<Longrightarrow> bs_wf (bs_erase k s)"
  "bs_wf s \<Longrightarrow> bs_elems (bs_insert k s) = insert k (bs_elems s)" "bs_wf s \<Longrightarrow> bs_elems (bs_erase k s) = bs_elems s - {k}"
  by (auto simp: bits.element_laws bits.invars)

lemma note_referenced_fields [simp]:
  "rg_ranges (note_referenced env r i s) = rg_ranges s" "rg_living (note_referenced env r i s) = rg_living s"
  "rg_point (note_referenced env r i s) = rg_point s" "rg_crossed (note_referenced env r i s) = rg_crossed s"
  "rg_spill (note_referenced env r i s) = rg_spill s" "open_registers env (note_referenced env r i s) = open_registers env s"
  by (simp_all add: note_referenced_def open_registers_def)

lemma note_referenced_elems:
  "bs_wf (rg_referenced s) \<Longrightarrow> bs_wf (rg_referenced (note_referenced env r i s)) \<and>
   bs_elems (rg_referenced (note_referenced env r i s)) = (if i \<and> \<not> rn_compact env then insert r (bs_elems (rg_referenced s)) else bs_elems (rg_referenced s))"
  by (simp add: note_referenced_def bits_simps)

lemma open_registers_change:
  assumes "env_ok env" "pair_ok env (r, k)" "bs_elems (rg_living s) \<subseteq> {..<length (rn_full env)}"
    "bs_elems (rg_living s') = bs_elems (rg_living s) - {k} \<or> bs_elems (rg_living s') = insert k (bs_elems (rg_living s)) \<or>
     bs_elems (rg_living s') = bs_elems (rg_living s)"
  shows "open_registers env s' - {r} = open_registers env s - {r}"
  using assms unfolding open_registers_def pair_ok_def by auto

text \<open>The effect of a change on the set of what is live, on the points and on the rows.\<close>

definition scan_effect :: "range_env \<Rightarrow> range_state \<Rightarrow> nat set \<Rightarrow> range_state \<Rightarrow> bool" where
  "scan_effect env s L s' \<longleftrightarrow> bs_elems (rg_living s') = L \<and> rg_point s' = rg_point s \<and> extends env s s' \<and>
     bs_elems (rg_referenced s) \<subseteq> bs_elems (rg_referenced s')"

lemma range_dead_ok:
  assumes env: "env_ok env" and ok: "state_ok env lim q s" and rk: "pair_ok env (r, k)" and q: "q \<le> rg_point s"
  shows "state_ok env (rg_point s) q (range_dead env i (r, k) s) \<and>
    scan_effect env s (bs_elems (rg_living s) - {k}) (range_dead env i (r, k) s) \<and> covered env (range_dead env i (r, k) s) r (rg_point s)"
proof -
  let ?s' = "range_dead env i (r, k) s" and ?lrs = "rg_ranges s ! r"
  have wf: "bs_wf (rg_living s)" "bs_wf (rg_referenced s)" and lim: "lim \<le> rg_point s" and pt: "0 \<le> rg_point s"
    and sub: "bs_elems (rg_living s) \<subseteq> {..<length (rn_full env)}"
    using ok by (simp_all add: state_ok_def)
  have r: "r < length (rg_ranges s)" using pair_register [OF env rk] ok by (simp add: state_ok_def)
  have opn: "r \<in> open_registers env s \<longleftrightarrow> k \<in> bs_elems (rg_living s)" by (rule open_register [OF env ok rk])
  have row: "row_ok (machine_count (rn_function env)) lim q (rg_point s) (\<not> rn_compact env \<and> r \<notin> bs_elems (rg_referenced s)) (k \<in> bs_elems (rg_living s)) ?lrs"
    using ok r unfolding opn [symmetric] by (simp add: state_ok_def)
  define row' where "row' = (if k \<in> bs_elems (rg_living s) then butlast ?lrs @ [(last ?lrs)\<lparr>lg_finish := rg_point s\<rparr>]
    else ?lrs @ [\<lparr>lg_start = rg_point s, lg_finish = rg_point s, lg_blocks = []\<rparr>])"
  have s': "rg_ranges ?s' = (rg_ranges s)[r := row']" "rg_point ?s' = rg_point s" "bs_wf (rg_living ?s')"
    "bs_elems (rg_living ?s') = bs_elems (rg_living s) - {k}"
    using wf by (auto simp: range_dead_def Let_def bits_simps row'_def)
  have refd: "rg_referenced ?s' = rg_referenced (note_referenced env r i s)" by (simp add: range_dead_def Let_def)
  then have ref: "bs_wf (rg_referenced ?s')" "bs_elems (rg_referenced s) \<subseteq> bs_elems (rg_referenced ?s')"
    using note_referenced_elems [OF wf(2), of env r i] by auto
  have others: "open_registers env ?s' - {r} = open_registers env s - {r}"
    by (rule open_registers_change [OF env rk sub]) (simp add: s'(4))
  have closed: "r \<notin> open_registers env ?s'"
  proof
    assume "r \<in> open_registers env ?s'"
    then obtain j where j: "j \<in> bs_elems (rg_living s)" "j \<noteq> k" "rn_full env ! j = r" by (auto simp: open_registers_def s'(4))
    then have "j < length (rn_full env)" "k < length (rn_full env)" "rn_full env ! j = rn_full env ! k" using sub rk by (auto simp: pair_ok_def)
    then show False using env j(2) nth_eq_iff_index_eq [of "rn_full env" j k] by (simp add: env_ok_def)
  qed
  have row'_ok: "row_ok (machine_count (rn_function env)) (rg_point s) q (rg_point s) fresh False row'" for fresh
    using row row_close [OF _ lim] row_point [OF _ lim q pt] by (auto simp: row'_def)
  have ext: "extends env s ?s'"
    using row_covers_close row_covers_append opn closed by (intro extends_row [OF s'(1,2) others r]) (auto simp: row'_def)
  have cov: "row_covers live row' (rg_point s)" for live
  proof (cases "k \<in> bs_elems (rg_living s)")
    case True
    then have "row_ok (machine_count (rn_function env)) lim q (rg_point s) (\<not> rn_compact env \<and> r \<notin> bs_elems (rg_referenced s)) True ?lrs" using row by simp
    then have "lg_start (last ?lrs) \<le> rg_point s" by (simp add: row_ok_def open_range_def)
    then show ?thesis using True by (simp add: row'_def row_covers_def)
  next
    case False
    then show ?thesis by (simp add: row'_def row_covers_def)
  qed
  have "bs_elems (rg_living ?s') \<subseteq> {..<length (rn_full env)}" using s'(4) sub by auto
  then have "state_ok env (rg_point s) q ?s'"
    using closed row'_ok by (intro state_ok_row [OF ok r s'(1,2,3) _ ref(1) others ref(2) lim]) auto
  then show ?thesis using s' ext ref cov r by (simp add: scan_effect_def covered_def)
qed

lemma range_born_ok:
  assumes env: "env_ok env" and ok: "state_ok env lim q s" and rk: "pair_ok env (r, k)" and q: "q \<le> rg_point s"
    and i: "\<not> i \<Longrightarrow> lim < rg_point s"
  shows "state_ok env lim q (fst (range_born env i (r, k) s)) \<and>
    scan_effect env s (insert k (bs_elems (rg_living s))) (fst (range_born env i (r, k) s))"
proof -
  let ?s' = "fst (range_born env i (r, k) s)" and ?lrs = "rg_ranges s ! r"
  have wf: "bs_wf (rg_living s)" "bs_wf (rg_referenced s)" and lim: "lim \<le> rg_point s" and pt: "0 \<le> rg_point s"
    and sub: "bs_elems (rg_living s) \<subseteq> {..<length (rn_full env)}"
    using ok by (simp_all add: state_ok_def)
  have r: "r < length (rg_ranges s)" using pair_register [OF env rk] ok by (simp add: state_ok_def)
  have k: "k < length (rn_full env)" "rn_full env ! k = r" using rk by (simp_all add: pair_ok_def)
  have opn: "r \<in> open_registers env s \<longleftrightarrow> k \<in> bs_elems (rg_living s)" by (rule open_register [OF env ok rk])
  have row: "row_ok (machine_count (rn_function env)) lim q (rg_point s) (\<not> rn_compact env \<and> r \<notin> bs_elems (rg_referenced s)) (k \<in> bs_elems (rg_living s)) ?lrs"
    using ok r unfolding opn [symmetric] by (simp add: state_ok_def)
  define row' where "row' = (if k \<in> bs_elems (rg_living s) \<or> reopens (rg_point s) i ?lrs then ?lrs
    else ?lrs @ [\<lparr>lg_start = rg_point s, lg_finish = - 1, lg_blocks = []\<rparr>])"
  have s': "rg_ranges ?s' = (rg_ranges s)[r := row']" "rg_point ?s' = rg_point s" "bs_wf (rg_living ?s')"
    "bs_elems (rg_living ?s') = insert k (bs_elems (rg_living s))"
    using wf r by (auto simp: range_born_def Let_def bits_simps row'_def)
  have refd: "rg_referenced ?s' = rg_referenced (note_referenced env r i s)" by (simp add: range_born_def Let_def)
  then have ref: "bs_wf (rg_referenced ?s')" "bs_elems (rg_referenced s) \<subseteq> bs_elems (rg_referenced ?s')"
    "i \<Longrightarrow> \<not> rn_compact env \<Longrightarrow> r \<in> bs_elems (rg_referenced ?s')"
    using note_referenced_elems [OF wf(2), of env r i] by auto
  have others: "open_registers env ?s' - {r} = open_registers env s - {r}"
    by (rule open_registers_change [OF env rk sub]) (simp add: s'(4))
  have opened: "r \<in> open_registers env ?s'" using k by (auto simp: open_registers_def s'(4))
  let ?fresh = "\<not> rn_compact env \<and> r \<notin> bs_elems (rg_referenced ?s')"
  have row'_ok: "row_ok (machine_count (rn_function env)) lim q (rg_point s) ?fresh True row'"
  proof (cases "k \<in> bs_elems (rg_living s)")
    case True
    then have "row_ok (machine_count (rn_function env)) lim q (rg_point s) ?fresh True ?lrs"
      using row ref(2) by (auto elim!: row_ok_mono [OF _ order_refl order_refl order_refl])
    then show ?thesis using True by (simp add: row'_def)
  next
    case out: False
    show ?thesis
    proof (cases "reopens (rg_point s) i ?lrs")
      case True
      then have nf: "?fresh = False" using ref(3) by (auto simp: reopens_def)
      have "row_ok (machine_count (rn_function env)) lim q (rg_point s) False True ?lrs"
        using row_reopen [OF _ True lim] row out by simp
      then show ?thesis unfolding nf using True by (simp add: row'_def)
    next
      case False
      have "lim < rg_point s" if ?fresh using that ref(3) i by blast
      from row_push [OF _ lim q pt this] show ?thesis using row out False by (simp add: row'_def)
    qed
  qed
  have ext: "extends env s ?s'"
    using row_covers_append row_covers_reopen opn opened by (intro extends_row [OF s'(1,2) others r]) (auto simp: row'_def)
  have "bs_elems (rg_living ?s') \<subseteq> {..<length (rn_full env)}" using s'(4) sub k by auto
  then have "state_ok env lim q ?s'"
    using opened row'_ok by (intro state_ok_row [OF ok r s'(1,2,3) _ ref(1) others ref(2) order_refl lim]) auto
  then show ?thesis using s' ext ref by (simp add: scan_effect_def)
qed

text \<open>The registers that are live share the current point.\<close>

lemma living_covered:
  assumes env: "env_ok env" and ok: "state_ok env lim q s" and k: "k \<in> bs_elems (rg_living s)"
  shows "covered env s (rn_full env ! k) (rg_point s)"
proof -
  have kn: "k < length (rn_full env)" using ok k by (auto simp: state_ok_def)
  then have rk: "pair_ok env (rn_full env ! k, k)" by (simp add: pair_ok_def)
  have "rn_full env ! k < length (rg_ranges s)" using pair_register [OF env rk] ok by (simp add: state_ok_def)
  moreover have "rn_full env ! k \<in> open_registers env s" using k by (auto simp: open_registers_def)
  ultimately show ?thesis using ok by (auto simp: state_ok_def covered_def row_covers_def row_ok_def open_range_def)
qed

lemma advance_point_ok:
  assumes ok: "state_ok env lim q s" and a: "advance_point env increment s = Inr s'"
    and lim: "lim' < rg_point s + 1" "if increment then lim \<le> lim' \<and> q \<le> q' else lim' = lim \<and> q' = q"
  shows "state_ok env lim' q' s' \<and> extends env s s' \<and> bs_elems (rg_living s') = bs_elems (rg_living s) \<and>
    rg_point s' = (if increment then rg_point s + 1 else rg_point s) \<and> rg_referenced s' = rg_referenced s"
proof (cases increment)
  case True
  then have s': "s' = s\<lparr>rg_point := rg_point s + 1\<rparr>" using a by (simp add: advance_point_def split: if_splits)
  have opn: "open_registers env s' = open_registers env s" by (simp add: s' open_registers_def)
  have "state_ok env lim' q' s'"
    using ok True lim by (auto simp: state_ok_def s' opn [unfolded s'] elim!: row_ok_mono)
  then show ?thesis using True by (auto simp: s' extends_def covered_def opn [unfolded s'])
next
  case False
  then show ?thesis using a lim ok by (simp add: advance_point_def)
qed

section \<open>Instructions\<close>

definition shares :: "range_env \<Rightarrow> range_state \<Rightarrow> nat set \<Rightarrow> bool" where
  "shares env s X \<longleftrightarrow> (\<exists>p. \<forall>k\<in>X. covered env s (rn_full env ! k) p)"

lemma shares_extends:
  assumes "env_ok env" "shares env s X" "extends env s s'" "X \<subseteq> {..<length (rn_full env)}"
  shows "shares env s' X"
proof -
  obtain p where p: "\<forall>k\<in>X. covered env s (rn_full env ! k) p" using assms(2) by (auto simp: shares_def)
  have "rn_full env ! k < length (all_registers (rn_function env))" if "k \<in> X" for k
    using assms(1,4) that by (auto simp: env_ok_def dest!: subsetD)
  then have "\<forall>k\<in>X. covered env s' (rn_full env ! k) p" using p extendsD [OF assms(3)] by blast
  then show ?thesis unfolding shares_def by (rule exI)
qed

lemma shares_subset: "shares env s X \<Longrightarrow> Y \<subseteq> X \<Longrightarrow> shares env s Y"
  by (auto simp: shares_def)

definition settled :: "range_env \<Rightarrow> range_state \<Rightarrow> bool" where
  "settled env s \<longleftrightarrow> state_ok env (rg_point s - 1) (rg_point s) s"

lemma scan_effect_trans:
  "scan_effect env s L t \<Longrightarrow> scan_effect env t M u \<Longrightarrow> scan_effect env s M u"
  using extends_trans by (auto simp: scan_effect_def)

lemma scan_effect_refl: "scan_effect env s (bs_elems (rg_living s)) s"
  by (simp add: scan_effect_def)

lemma dead_all_ok:
  assumes env: "env_ok env"
  shows "state_ok env lim q s \<Longrightarrow> \<forall>rk\<in>set rks. pair_ok env rk \<Longrightarrow> q \<le> rg_point s \<Longrightarrow>
    state_ok env (if rks = [] then lim else rg_point s) q (dead_all env rks s) \<and>
    scan_effect env s (bs_elems (rg_living s) - snd ` set rks) (dead_all env rks s) \<and>
    (\<forall>rk\<in>set rks. covered env (dead_all env rks s) (fst rk) (rg_point s))"
proof (induction rks arbitrary: s lim)
  case Nil
  then show ?case by (simp add: dead_all_def scan_effect_refl)
next
  case (Cons rk rks)
  obtain r k where rk: "rk = (r, k)" by fastforce
  let ?t = "range_dead env True (r, k) s"
  have pair: "pair_ok env (r, k)" using Cons.prems(2) rk by simp
  note D = range_dead_ok [OF env Cons.prems(1) pair Cons.prems(3), of True]
  have t: "rg_point ?t = rg_point s" "bs_elems (rg_living ?t) = bs_elems (rg_living s) - {k}" using D by (simp_all add: scan_effect_def)
  have "state_ok env (rg_point s) q ?t" "\<forall>rk\<in>set rks. pair_ok env rk" "q \<le> rg_point ?t" using D Cons.prems t by simp_all
  note IH = Cons.IH [OF this, unfolded t]
  have st: "dead_all env (rk # rks) s = dead_all env rks ?t" by (simp add: dead_all_def rk)
  have reg: "r < length (all_registers (rn_function env))" using pair_register [OF env pair] by simp
  have minus: "bs_elems (rg_living s) - snd ` set (rk # rks) = bs_elems (rg_living s) - {k} - snd ` set rks" by (auto simp: rk)
  have "covered env (dead_all env rks ?t) r (rg_point s)"
    by (rule extendsD [OF _ _ reg, of ?t]) (use D IH in \<open>simp_all add: scan_effect_def\<close>)
  moreover have "scan_effect env s (bs_elems (rg_living s) - snd ` set (rk # rks)) (dead_all env rks ?t)"
    unfolding minus by (rule scan_effect_trans [of env s "bs_elems (rg_living s) - {k}" ?t]) (use D IH in blast)+
  ultimately show ?case using IH unfolding st by (simp add: rk)
qed

lemma born_all_ok:
  assumes env: "env_ok env"
  shows "state_ok env lim q s \<Longrightarrow> \<forall>rk\<in>set rks. pair_ok env rk \<Longrightarrow> q \<le> rg_point s \<Longrightarrow>
    state_ok env lim q (fst (born_all env rks (s, b))) \<and>
    scan_effect env s (bs_elems (rg_living s) \<union> snd ` set rks) (fst (born_all env rks (s, b)))"
proof (induction rks arbitrary: s b)
  case Nil
  then show ?case by (simp add: born_all_def scan_effect_refl)
next
  case (Cons rk rks)
  obtain r k where rk: "rk = (r, k)" by fastforce
  obtain t c where t: "range_born env True (r, k) s = (t, c)" by fastforce
  have pair: "pair_ok env (r, k)" using Cons.prems(2) rk by simp
  have D: "state_ok env lim q t" "scan_effect env s (insert k (bs_elems (rg_living s))) t"
    using range_born_ok [OF env Cons.prems(1) pair Cons.prems(3), of True] t by simp_all
  have "rg_point t = rg_point s" "bs_elems (rg_living t) = insert k (bs_elems (rg_living s))" using D(2) by (simp_all add: scan_effect_def)
  note IH = Cons.IH [OF D(1) _ , of "b \<or> c", unfolded this]
  have st: "born_all env (rk # rks) (s, b) = born_all env rks (t, b \<or> c)" by (simp add: born_all_def born_step_def rk t)
  show ?case using IH D(2) Cons.prems scan_effect_trans [OF D(2)] unfolding st by (simp add: rk)
qed

lemma early_all_ok:
  assumes env: "env_ok env"
  shows "state_ok env lim q s \<Longrightarrow> \<forall>rk\<in>set rks. pair_ok env rk \<Longrightarrow> q \<le> rg_point s \<Longrightarrow>
    state_ok env (if rks = [] then lim else rg_point s) q (fst (fold (early_step env) rks (s, b))) \<and>
    snd (fold (early_step env) rks (s, b)) = (b \<or> rks \<noteq> []) \<and>
    scan_effect env s (bs_elems (rg_living s) - snd ` set rks) (fst (fold (early_step env) rks (s, b))) \<and>
    (\<forall>rk\<in>set rks. covered env (fst (fold (early_step env) rks (s, b))) (fst rk) (rg_point s))"
proof (induction rks arbitrary: s b lim)
  case Nil
  then show ?case by (simp add: scan_effect_refl)
next
  case (Cons rk rks)
  obtain r k where rk: "rk = (r, k)" by fastforce
  let ?u = "fst (range_born env True (r, k) s)"
  let ?t = "range_dead env True (r, k) ?u"
  have pair: "pair_ok env (r, k)" using Cons.prems(2) rk by simp
  have B: "state_ok env lim q ?u" "scan_effect env s (insert k (bs_elems (rg_living s))) ?u"
    using range_born_ok [OF env Cons.prems(1) pair Cons.prems(3), of True] by simp_all
  have u: "rg_point ?u = rg_point s" "bs_elems (rg_living ?u) = insert k (bs_elems (rg_living s))" using B(2) by (simp_all add: scan_effect_def)
  have "q \<le> rg_point ?u" using Cons.prems(3) u by simp
  note D = range_dead_ok [OF env B(1) pair this, of True, unfolded u]
  have t: "rg_point ?t = rg_point s" "bs_elems (rg_living ?t) = bs_elems (rg_living s) - {k}" using D by (auto simp: scan_effect_def u)
  have E: "scan_effect env s (bs_elems (rg_living s) - {k}) ?t" using scan_effect_trans [OF B(2)] D by simp
  have "state_ok env (rg_point s) q ?t" "\<forall>rk\<in>set rks. pair_ok env rk" "q \<le> rg_point ?t" using D Cons.prems t by simp_all
  note IH = Cons.IH [OF this, of True, unfolded t]
  have st: "fold (early_step env) (rk # rks) (s, b) = fold (early_step env) rks (?t, True)" by (simp add: early_step_def rk)
  have reg: "r < length (all_registers (rn_function env))" using pair_register [OF env pair] by simp
  have minus: "bs_elems (rg_living s) - snd ` set (rk # rks) = bs_elems (rg_living s) - {k} - snd ` set rks" by (auto simp: rk)
  have "covered env (fst (fold (early_step env) rks (?t, True))) r (rg_point s)"
    by (rule extendsD [OF _ _ reg, of ?t]) (use D IH in \<open>simp_all add: scan_effect_def\<close>)
  moreover have "scan_effect env s (bs_elems (rg_living s) - snd ` set (rk # rks)) (fst (fold (early_step env) rks (?t, True)))"
    unfolding minus by (rule scan_effect_trans [OF E]) (use IH in blast)
  ultimately show ?case using IH unfolding st by (simp add: rk)
qed

lemma settled_advance:
  assumes ok: "state_ok env lim (rg_point s) s" "lim \<le> rg_point s" and dead: "\<not> increment \<Longrightarrow> lim \<le> rg_point s - 1"
    and a: "advance_point env increment s = Inr s'"
  shows "settled env s' \<and> extends env s s' \<and> bs_elems (rg_living s') = bs_elems (rg_living s) \<and> bs_elems (rg_referenced s') = bs_elems (rg_referenced s)"
proof (cases increment)
  case True
  then show ?thesis
    using advance_point_ok [OF ok(1) a, of "rg_point s" "rg_point s + 1"] ok(2) unfolding settled_def by auto
next
  case False
  then have s': "s' = s" using a by (simp add: advance_point_def)
  have "state_ok env (rg_point s - 1) (rg_point s) s"
    using ok(1) dead [OF False] by (auto simp: state_ok_def elim!: row_ok_mono)
  then show ?thesis unfolding s' settled_def by simp
qed

text \<open>What the scan does to the live positions; it visits the definitions of a call before what the call overwrites.\<close>

definition scan_defs :: "range_env \<Rightarrow> machine_instruction \<Rightarrow> nat set" where
  "scan_defs env i = snd ` set (scanned_list env (visit_registers i True))"

definition scan_uses :: "range_env \<Rightarrow> machine_instruction \<Rightarrow> nat set" where
  "scan_uses env i = snd ` set (scanned_list env (visit_registers i False))"

definition scans_call :: "range_env \<Rightarrow> machine_instruction \<Rightarrow> bool" where
  "scans_call env i \<longleftrightarrow> \<not> rn_compact env \<and> is_call (mi_opcode i)"

definition scan_clobbers :: "range_env \<Rightarrow> machine_instruction \<Rightarrow> nat set" where
  "scan_clobbers env i = (if scans_call env i then snd ` set (scanned_list env (target_clobbers (rn_function env))) else {})"

definition scan_inputs :: "range_env \<Rightarrow> machine_instruction \<Rightarrow> nat set" where
  "scan_inputs env i = (if scans_call env i then snd ` set (scanned_list env (map PhysicalReg (rn_globals env))) \<union>
     snd ` set (scanned_list env (map PhysicalReg (mi_arguments i))) else {})"

definition scan_early :: "range_env \<Rightarrow> machine_instruction \<Rightarrow> nat set" where
  "scan_early env i = (if rn_compact env then {}
     else snd ` set (scanned_list env (map PhysicalReg (early_clobbers (mf_target (rn_function env)) (mi_opcode i)))))"

definition scan_live :: "range_env \<Rightarrow> machine_instruction \<Rightarrow> nat set \<Rightarrow> nat set" where
  "scan_live env i L = (L - scan_defs env i - scan_clobbers env i \<union> scan_inputs env i \<union> scan_uses env i) - scan_early env i"

text \<open>The groups of registers that an instruction keeps apart: what it defines and what is live after it; what a call
  overwrites and what is live across it; what it overwrites early and what it reads or is live across it.\<close>

definition instruction_shares :: "range_env \<Rightarrow> range_state \<Rightarrow> machine_instruction \<Rightarrow> nat set \<Rightarrow> bool" where
  "instruction_shares env s i L \<longleftrightarrow> shares env s (L \<union> scan_defs env i) \<and> shares env s ((L - scan_defs env i) \<union> scan_clobbers env i) \<and>
     shares env s (scan_live env i L \<union> scan_early env i)"

lemma scanned_positions: "env_ok env \<Longrightarrow> snd ` set (scanned_list env regs) \<subseteq> {..<length (rn_full env)}"
  using scanned_pairs [of env regs] by (auto simp: pair_ok_def)

lemma scan_sets_within:
  assumes "env_ok env"
  shows "scan_defs env i \<subseteq> {..<length (rn_full env)}" "scan_uses env i \<subseteq> {..<length (rn_full env)}" "scan_clobbers env i \<subseteq> {..<length (rn_full env)}"
    "scan_inputs env i \<subseteq> {..<length (rn_full env)}" "scan_early env i \<subseteq> {..<length (rn_full env)}"
  using scanned_positions [OF assms] by (simp_all add: scan_defs_def scan_uses_def scan_clobbers_def scan_inputs_def scan_early_def)

lemma covered_pairs:
  assumes "env_ok env" "\<forall>rk\<in>set (scanned_list env regs). covered env s (fst rk) p" "k \<in> snd ` set (scanned_list env regs)"
  shows "covered env s (rn_full env ! k) p"
  using assms scanned_pairs [OF assms(1), of regs] by (auto simp: pair_ok_def)

lemma covered_extends:
  assumes "env_ok env" "extends env s s'" "covered env s (rn_full env ! k) p" "k < length (rn_full env)"
  shows "covered env s' (rn_full env ! k) p"
proof -
  have "rn_full env ! k < length (all_registers (rn_function env))" using assms(1,4) by (auto simp: env_ok_def dest!: subsetD)
  then show ?thesis by (rule extendsD [OF assms(2,3)])
qed

text \<open>A state whose live registers share the point, and then registers that die there.\<close>

lemma dead_shares:
  assumes env: "env_ok env" and ok: "state_ok env lim q s" and e: "extends env s t"
    and d: "\<forall>rk\<in>set (scanned_list env regs). covered env t (fst rk) (rg_point s)"
  shows "shares env t (bs_elems (rg_living s) \<union> snd ` set (scanned_list env regs))"
proof -
  have "covered env t (rn_full env ! k) (rg_point s)" if "k \<in> bs_elems (rg_living s)" for k
    using covered_extends [OF env e living_covered [OF env ok that]] ok that by (auto simp: state_ok_def)
  then show ?thesis using covered_pairs [OF env d] by (auto simp: shares_def)
qed

lemma note_crossed_fields [simp]:
  "rg_ranges (note_crossed env s) = rg_ranges s" "rg_living (note_crossed env s) = rg_living s" "rg_point (note_crossed env s) = rg_point s"
  "rg_referenced (note_crossed env s) = rg_referenced s" "rg_spill (note_crossed env s) = rg_spill s"
  by (simp_all add: note_crossed_def)

lemma note_crossed_ok [simp]:
  "state_ok env lim q (note_crossed env s) = state_ok env lim q s" "covered env (note_crossed env s) = covered env s"
  "scan_effect env s L (note_crossed env t) = scan_effect env s L t"
  by (simp_all add: state_ok_def open_registers_def covered_def scan_effect_def extends_def fun_eq_iff)

lemma scan_call_ok:
  assumes env: "env_ok env" and s: "settled env s" and call: "scans_call env i" and c: "scan_call env i s = (s', increment)"
  shows "state_ok env (rg_point s) (rg_point s) s' \<and> (\<not> increment \<longrightarrow> state_ok env (rg_point s - 1) (rg_point s) s') \<and>
    scan_effect env s (bs_elems (rg_living s) - scan_clobbers env i \<union> scan_inputs env i) s' \<and>
    shares env s' (bs_elems (rg_living s) \<union> scan_clobbers env i)"
proof -
  let ?cs = "scanned_list env (target_clobbers (rn_function env))"
  let ?gs = "scanned_list env (map PhysicalReg (rn_globals env))" and ?as = "scanned_list env (map PhysicalReg (mi_arguments i))"
  define s1 where "s1 = dead_all env ?cs s"
  define s2 where "s2 = fst (born_all env ?gs (s1, False))"
  define s3 where "s3 = fst (born_all env ?as (s2, False))"
  have s': "s' = note_crossed env s3" "increment = (?cs \<noteq> [])"
    using c by (auto simp: scan_call_def Let_def s1_def s2_def s3_def split: prod.splits)
  have ok: "state_ok env (rg_point s - 1) (rg_point s) s" using s by (simp add: settled_def)
  note D = dead_all_ok [OF env ok scanned_pairs [OF env] order_refl, of "target_clobbers (rn_function env)", folded s1_def]
  let ?lim = "if ?cs = [] then rg_point s - 1 else rg_point s"
  have p1: "rg_point s1 = rg_point s" "bs_elems (rg_living s1) = bs_elems (rg_living s) - snd ` set ?cs" using D by (simp_all add: scan_effect_def)
  then have "state_ok env ?lim (rg_point s) s1" "rg_point s \<le> rg_point s1" using D by simp_all
  note G = born_all_ok [OF env this(1) scanned_pairs [OF env] this(2), of "map PhysicalReg (rn_globals env)" False, folded s2_def]
  have p2: "rg_point s2 = rg_point s" "bs_elems (rg_living s2) = bs_elems (rg_living s1) \<union> snd ` set ?gs" using G p1 by (simp_all add: scan_effect_def)
  then have "state_ok env ?lim (rg_point s) s2" "rg_point s \<le> rg_point s2" using G by simp_all
  note A = born_all_ok [OF env this(1) scanned_pairs [OF env] this(2), of "map PhysicalReg (mi_arguments i)" False, folded s3_def]
  have E: "scan_effect env s (bs_elems (rg_living s) - scan_clobbers env i \<union> scan_inputs env i) s3"
    using scan_effect_trans [OF scan_effect_trans [OF conjunct1 [OF conjunct2 [OF D]] conjunct2 [OF G]] conjunct2 [OF A]] call
    by (simp add: p1 p2 scan_clobbers_def scan_inputs_def Un_assoc)
  have "extends env s1 s3" using extends_trans G A by (auto simp: scan_effect_def)
  moreover have "fst rk < length (all_registers (rn_function env))" if "rk \<in> set ?cs" for rk
    using pair_register [OF env] scanned_pairs [OF env] that by blast
  ultimately have "\<forall>rk\<in>set ?cs. covered env s3 (fst rk) (rg_point s)" using D extendsD by blast
  then have "shares env s3 (bs_elems (rg_living s) \<union> scan_clobbers env i)"
    using dead_shares [OF env ok, of s3 "target_clobbers (rn_function env)"] E call by (simp add: scan_clobbers_def scan_effect_def)
  moreover have "state_ok env ?lim (rg_point s) s3" using A by simp
  moreover have "state_ok env (rg_point s) (rg_point s) s3"
    using calculation(2) p2 A by (auto simp: state_ok_def scan_effect_def elim!: row_ok_mono split: if_splits)
  ultimately show ?thesis using E unfolding s' by (auto simp: shares_def split: if_splits)
qed

lemma scan_uses_ok:
  assumes env: "env_ok env" and s: "settled env s" and m: "born_all env (scanned_list env (visit_registers i False)) (s, False) = (t, b)"
    and e: "(if rn_compact env then (t, b)
      else fold (early_step env) (scanned_list env (map PhysicalReg (early_clobbers (mf_target (rn_function env)) (mi_opcode i)))) (t, b)) = (u, c)"
    and a: "advance_point env c u = Inr s'"
  shows "settled env s' \<and> extends env s s' \<and> bs_elems (rg_living s') = bs_elems (rg_living s) \<union> scan_uses env i - scan_early env i \<and>
    bs_elems (rg_referenced s) \<subseteq> bs_elems (rg_referenced s') \<and>
    shares env s' (bs_elems (rg_living s) \<union> scan_uses env i \<union> scan_early env i)"
proof -
  let ?regs = "if rn_compact env then [] else map PhysicalReg (early_clobbers (mf_target (rn_function env)) (mi_opcode i))"
  have ok: "state_ok env (rg_point s - 1) (rg_point s) s" using s by (simp add: settled_def)
  have B: "state_ok env (rg_point s - 1) (rg_point s) t" "scan_effect env s (bs_elems (rg_living s) \<union> scan_uses env i) t"
    using born_all_ok [OF env ok scanned_pairs [OF env] order_refl, of "visit_registers i False" False] unfolding m by (simp_all add: scan_uses_def)
  then have t: "rg_point t = rg_point s" "bs_elems (rg_living t) = bs_elems (rg_living s) \<union> scan_uses env i" by (simp_all add: scan_effect_def)
  have e': "fold (early_step env) (scanned_list env ?regs) (t, b) = (u, c)" using e by (cases "rn_compact env") (simp_all add: scanned_list_def)
  have early: "snd ` set (scanned_list env ?regs) = scan_early env i" by (simp add: scan_early_def scanned_list_def)
  have "rg_point s \<le> rg_point t" by (simp add: t)
  note E = early_all_ok [OF env B(1) scanned_pairs [OF env] this, of ?regs b, unfolded e' fst_conv snd_conv early]
  let ?lim = "if scanned_list env ?regs = [] then rg_point s - 1 else rg_point t"
  have u: "rg_point u = rg_point s" "extends env t u" "bs_elems (rg_living u) = bs_elems (rg_living s) \<union> scan_uses env i - scan_early env i"
    "bs_elems (rg_referenced s) \<subseteq> bs_elems (rg_referenced u)"
    using E B(2) by (auto simp: scan_effect_def t)
  have sh: "shares env u (bs_elems (rg_living t) \<union> scan_early env i)"
    using dead_shares [OF env B(1) u(2), of ?regs] E unfolding early by simp
  have A: "settled env s' \<and> extends env u s' \<and> bs_elems (rg_living s') = bs_elems (rg_living u) \<and> bs_elems (rg_referenced s') = bs_elems (rg_referenced u)"
    by (rule settled_advance [of _ ?lim, OF _ _ _ a]) (use E u(1) t(1) in \<open>auto split: if_splits\<close>)
  have "bs_elems (rg_living t) \<union> scan_early env i \<subseteq> {..<length (rn_full env)}"
    using B(1) scan_sets_within [OF env] by (simp add: state_ok_def)
  then have "shares env s' (bs_elems (rg_living t) \<union> scan_early env i)" using shares_extends [OF env sh] A by blast
  moreover have "extends env s t" "extends env u s'" using B(2) A by (simp_all add: scan_effect_def)
  then have "extends env s s'" using extends_trans [OF extends_trans [OF _ u(2)]] by blast
  ultimately show ?thesis using A u t by simp
qed

lemma scan_instruction_ok:
  assumes env: "env_ok env" and s: "settled env s" and i: "scan_instruction env i s = Inr s'"
  shows "settled env s' \<and> extends env s s' \<and> bs_elems (rg_living s') = scan_live env i (bs_elems (rg_living s)) \<and>
    bs_elems (rg_referenced s) \<subseteq> bs_elems (rg_referenced s') \<and> instruction_shares env s' i (bs_elems (rg_living s))"
proof -
  let ?L = "bs_elems (rg_living s)" and ?defs = "scanned_list env (visit_registers i True)"
  define s1 where "s1 = dead_all env ?defs s"
  have ok: "state_ok env (rg_point s - 1) (rg_point s) s" using s by (simp add: settled_def)
  have within: "?L \<subseteq> {..<length (rn_full env)}" using ok by (simp add: state_ok_def)
  note D = dead_all_ok [OF env ok scanned_pairs [OF env] order_refl, of "visit_registers i True", folded s1_def]
  have s1: "rg_point s1 = rg_point s" "bs_elems (rg_living s1) = ?L - scan_defs env i" "extends env s s1" "bs_elems (rg_referenced s) \<subseteq> bs_elems (rg_referenced s1)"
    using D by (simp_all add: scan_effect_def scan_defs_def)
  have sh1: "shares env s1 (?L \<union> scan_defs env i)"
    unfolding scan_defs_def by (rule dead_shares [OF env ok s1(3)]) (use D in blast)
  let ?lim = "if ?defs = [] then rg_point s - 1 else rg_point s"
  obtain s2 b where m: "(if scans_call env i then rbind (advance_point env (?defs \<noteq> []) s1) (\<lambda>s. Inr (scan_call env i s)) else Inr (s1, ?defs \<noteq> [])) = Inr (s2, b)"
    and r: "scan_reads env i (s2, b) = Inr s'"
    using i unfolding scan_instruction_def Let_def s1_def [symmetric] scans_call_def [symmetric] by (auto simp: rbind_eq_Inr)
  obtain s3 where s3: "advance_point env b s2 = Inr s3" using r by (auto simp: scan_reads_def rbind_eq_Inr)
  obtain t c where t: "born_all env (scanned_list env (visit_registers i False)) (s3, False) = (t, c)" by fastforce
  obtain u d where u: "(if rn_compact env then (t, c)
      else fold (early_step env) (scanned_list env (map PhysicalReg (early_clobbers (mf_target (rn_function env)) (mi_opcode i)))) (t, c)) = (u, d)"
    by fastforce
  have a: "advance_point env d u = Inr s'"
    using r u by (cases "rn_compact env") (simp_all add: scan_reads_def s3 t)
  have mid: "settled env s3 \<and> extends env s1 s3 \<and> bs_elems (rg_living s3) = ?L - scan_defs env i - scan_clobbers env i \<union> scan_inputs env i \<and>
      bs_elems (rg_referenced s1) \<subseteq> bs_elems (rg_referenced s3) \<and> shares env s3 ((?L - scan_defs env i) \<union> scan_clobbers env i)"
  proof (cases "scans_call env i")
    case False
    then have s2: "s2 = s1" "b = (?defs \<noteq> [])" using m by auto
    have A: "settled env s3 \<and> extends env s1 s3 \<and> bs_elems (rg_living s3) = bs_elems (rg_living s1) \<and> bs_elems (rg_referenced s3) = bs_elems (rg_referenced s1)"
      by (rule settled_advance [of _ ?lim, OF _ _ _ s3 [unfolded s2]]) (use D s1(1) in \<open>auto split: if_splits\<close>)
    have "shares env s3 (?L - scan_defs env i)"
      using shares_subset [OF shares_extends [OF env sh1, of s3]] A within scan_sets_within [OF env] by blast
    then show ?thesis using A s1(2) False by (simp add: scan_clobbers_def scan_inputs_def)
  next
    case True
    then obtain s0 where s0: "advance_point env (?defs \<noteq> []) s1 = Inr s0" "scan_call env i s0 = (s2, b)" using m by (auto simp: rbind_eq_Inr)
    have A: "settled env s0 \<and> extends env s1 s0 \<and> bs_elems (rg_living s0) = bs_elems (rg_living s1) \<and> bs_elems (rg_referenced s0) = bs_elems (rg_referenced s1)"
      by (rule settled_advance [of _ ?lim, OF _ _ _ s0(1)]) (use D s1(1) in \<open>auto split: if_splits\<close>)
    have L0: "bs_elems (rg_living s0) = ?L - scan_defs env i" using A s1(2) by simp
    note C = scan_call_ok [OF env conjunct1 [OF A] True s0(2), unfolded L0]
    have p2: "rg_point s2 = rg_point s0" "extends env s0 s2" "bs_elems (rg_referenced s0) \<subseteq> bs_elems (rg_referenced s2)"
      "bs_elems (rg_living s2) = ?L - scan_defs env i - scan_clobbers env i \<union> scan_inputs env i"
      using C by (simp_all add: scan_effect_def)
    have A2: "settled env s3 \<and> extends env s2 s3 \<and> bs_elems (rg_living s3) = bs_elems (rg_living s2) \<and> bs_elems (rg_referenced s3) = bs_elems (rg_referenced s2)"
      by (rule settled_advance [of _ "if b then rg_point s0 else rg_point s0 - 1", OF _ _ _ s3]) (use C p2(1) in \<open>auto split: if_splits\<close>)
    have "(?L - scan_defs env i) \<union> scan_clobbers env i \<subseteq> {..<length (rn_full env)}" using within scan_sets_within [OF env] by blast
    then have "shares env s3 ((?L - scan_defs env i) \<union> scan_clobbers env i)" using shares_extends [OF env] C A2 by blast
    moreover have "extends env s1 s3" using extends_trans A p2(2) A2 by blast
    ultimately show ?thesis using A A2 p2 by auto
  qed
  note U = scan_uses_ok [OF env conjunct1 [OF mid] t u a]
  have e: "extends env s1 s3" "extends env s3 s'" using mid U by simp_all
  have "extends env s1 s'" by (rule extends_trans [OF e])
  have cut: "?L \<union> scan_defs env i \<subseteq> {..<length (rn_full env)}" "?L - scan_defs env i \<union> scan_clobbers env i \<subseteq> {..<length (rn_full env)}"
    using within scan_sets_within [OF env, of i] by blast+
  have sh: "shares env s' (?L \<union> scan_defs env i)" "shares env s' ((?L - scan_defs env i) \<union> scan_clobbers env i)"
    using shares_extends [OF env sh1 \<open>extends env s1 s'\<close> cut(1)] shares_extends [OF env _ e(2) cut(2)] mid by blast+
  have "shares env s' (scan_live env i ?L \<union> scan_early env i)"
    by (rule shares_subset [OF conjunct2 [OF conjunct2 [OF conjunct2 [OF conjunct2 [OF U]]]]]) (use mid in \<open>auto simp: scan_live_def\<close>)
  moreover have "extends env s s'" by (rule extends_trans [OF s1(3) \<open>extends env s1 s'\<close>])
  ultimately show ?thesis using U mid s1(4) sh by (auto simp: instruction_shares_def scan_live_def)
qed

section \<open>Blocks\<close>

fun body_shares :: "range_env \<Rightarrow> range_state \<Rightarrow> machine_instruction list \<Rightarrow> nat set \<Rightarrow> bool" where
  "body_shares env s [] L \<longleftrightarrow> shares env s L"
| "body_shares env s (i # is) L \<longleftrightarrow> instruction_shares env s i L \<and> body_shares env s is (scan_live env i L)"

lemma scan_live_within: "env_ok env \<Longrightarrow> L \<subseteq> {..<length (rn_full env)} \<Longrightarrow> scan_live env i L \<subseteq> {..<length (rn_full env)}"
  using scan_sets_within [of env i] unfolding scan_live_def by blast

lemma instruction_shares_extends:
  assumes "env_ok env" "instruction_shares env s i L" "extends env s s'" "L \<subseteq> {..<length (rn_full env)}"
  shows "instruction_shares env s' i L"
proof -
  have "L \<union> scan_defs env i \<subseteq> {..<length (rn_full env)}" "L - scan_defs env i \<union> scan_clobbers env i \<subseteq> {..<length (rn_full env)}"
    "scan_live env i L \<union> scan_early env i \<subseteq> {..<length (rn_full env)}"
    using assms(4) scan_sets_within [OF assms(1), of i] scan_live_within [OF assms(1,4), of i] by auto
  then show ?thesis using assms(2) shares_extends [OF assms(1) _ assms(3)] by (simp add: instruction_shares_def)
qed

lemma body_shares_extends:
  "env_ok env \<Longrightarrow> body_shares env s is L \<Longrightarrow> extends env s s' \<Longrightarrow> L \<subseteq> {..<length (rn_full env)} \<Longrightarrow> body_shares env s' is L"
  by (induction "is" arbitrary: L) (auto intro: shares_extends instruction_shares_extends dest: scan_live_within)

lemma settled_within: "settled env s \<Longrightarrow> bs_elems (rg_living s) \<subseteq> {..<length (rn_full env)}"
  by (simp add: settled_def state_ok_def)

lemma scan_body_ok:
  assumes env: "env_ok env"
  shows "settled env s \<Longrightarrow> scan_body env is s = Inr s' \<Longrightarrow>
    settled env s' \<and> extends env s s' \<and> body_shares env s' is (bs_elems (rg_living s)) \<and>
    bs_elems (rg_living s') = fold (scan_live env) is (bs_elems (rg_living s))"
proof (induction "is" arbitrary: s)
  case Nil
  have "shares env s (bs_elems (rg_living s))"
    using living_covered [OF env] Nil.prems(1) unfolding shares_def settled_def by blast
  then show ?case using Nil by simp
next
  case (Cons i "is")
  obtain t where t: "scan_instruction env i s = Inr t" "scan_body env is t = Inr s'" using Cons.prems(2) by (auto simp: rbind_eq_Inr)
  note I = scan_instruction_ok [OF env Cons.prems(1) t(1)]
  have "settled env s' \<and> extends env t s' \<and> body_shares env s' is (bs_elems (rg_living t)) \<and>
      bs_elems (rg_living s') = fold (scan_live env) is (bs_elems (rg_living t))" using Cons.IH [OF _ t(2)] I by blast
  then show ?case using I extends_trans instruction_shares_extends [OF env _ _ settled_within [OF Cons.prems(1)]] by auto
qed

lemma start_block_ok:
  assumes env: "env_ok env" and s: "settled env s" "bs_elems (rg_living s) = {}" and out: "bs_wf out" "bs_elems out \<subseteq> {..<length (rn_full env)}"
  shows "settled env (start_block env out s) \<and> extends env s (start_block env out s) \<and> bs_elems (rg_living (start_block env out s)) = bs_elems out"
proof -
  let ?s = "s\<lparr>rg_living := [], rg_referenced := []\<rparr>"
  have empty: "bs_wf []" "bs_elems [] = {}" by (simp_all add: bits.element_laws bits.invars)
  have opn: "open_registers env ?s = open_registers env s" using s(2) empty by (simp add: open_registers_def)
  have none: "open_registers env s = {}" using s(2) by (simp add: open_registers_def)
  have start: "state_ok env (rg_point ?s - 1) (rg_point ?s) ?s"
    using s(1) empty unfolding settled_def state_ok_def opn none by (simp add: row_ok_def)
  have e0: "extends env s ?s" by (simp add: extends_def covered_def opn)
  have step: "state_ok env lim q s \<Longrightarrow> q \<le> rg_point s \<Longrightarrow> lim < rg_point s \<Longrightarrow> set ks \<subseteq> {..<length (rn_full env)} \<Longrightarrow>
      state_ok env lim q (fold (\<lambda>k s. fst (range_born env False (rn_full env ! k, k) s)) ks s) \<and>
      scan_effect env s (bs_elems (rg_living s) \<union> set ks) (fold (\<lambda>k s. fst (range_born env False (rn_full env ! k, k) s)) ks s)" for lim q ks s
  proof (induction ks arbitrary: s)
    case Nil
    then show ?case by (simp add: scan_effect_refl)
  next
    case (Cons k ks)
    let ?t = "fst (range_born env False (rn_full env ! k, k) s)"
    have pair: "pair_ok env (rn_full env ! k, k)" using Cons.prems(4) by (simp add: pair_ok_def)
    note B = range_born_ok [OF env Cons.prems(1) pair Cons.prems(2), of False, simplified, OF Cons.prems(3)]
    have "rg_point ?t = rg_point s" "bs_elems (rg_living ?t) = insert k (bs_elems (rg_living s))" using B by (simp_all add: scan_effect_def)
    then show ?case using Cons.IH [of ?t] B Cons.prems scan_effect_trans [OF conjunct2 [OF B]] by simp
  qed
  have "set (bs_for_each out) = bs_elems out" by (rule set_bs_for_each [OF out(1)])
  then have R: "state_ok env (rg_point s - 1) (rg_point s) (start_block env out s) \<and> scan_effect env ?s (bs_elems out) (start_block env out s)"
    using step [OF start, of "bs_for_each out"] out(2) empty by (simp add: start_block_def)
  then show ?thesis using extends_trans [OF e0] by (auto simp: settled_def scan_effect_def)
qed

lemma finish_range_ok:
  assumes env: "env_ok env" and ok: "state_ok env lim (rg_point s + 1) s" and k: "k \<in> bs_elems (rg_living s)" and b: "b < machine_count (rn_function env)"
  shows "state_ok env (rg_point s) (rg_point s + 1) (finish_range env b k s) \<and> rg_point (finish_range env b k s) = rg_point s \<and>
    bs_elems (rg_living (finish_range env b k s)) = bs_elems (rg_living s) - {k} \<and> extends env s (finish_range env b k s)"
proof -
  let ?s' = "finish_range env b k s" and ?r = "rn_full env ! k"
  let ?lrs = "rg_ranges s ! ?r"
  have kn: "k < length (rn_full env)" using ok k by (auto simp: state_ok_def)
  then have rk: "pair_ok env (?r, k)" by (simp add: pair_ok_def)
  have wf: "bs_wf (rg_living s)" "bs_wf (rg_referenced s)" and lim: "lim \<le> rg_point s"
    and sub: "bs_elems (rg_living s) \<subseteq> {..<length (rn_full env)}"
    using ok by (simp_all add: state_ok_def)
  have r: "?r < length (rg_ranges s)" using pair_register [OF env rk] ok by (simp add: state_ok_def)
  have opn: "?r \<in> open_registers env s" using k by (auto simp: open_registers_def)
  let ?whole = "\<not> rn_compact env \<and> ?r \<notin> bs_elems (rg_referenced s)"
  have "row_ok (machine_count (rn_function env)) lim (rg_point s + 1) (rg_point s) ?whole (?r \<in> open_registers env s) ?lrs"
    using ok r by (simp add: state_ok_def)
  then have row: "row_ok (machine_count (rn_function env)) lim (rg_point s + 1) (rg_point s) ?whole True ?lrs" using opn by simp
  define row' where "row' = (if ?whole then butlast ?lrs @ [(last ?lrs)\<lparr>lg_finish := rg_point s, lg_blocks := lg_blocks (last ?lrs) @ [b]\<rparr>]
    else butlast ?lrs @ [(last ?lrs)\<lparr>lg_finish := rg_point s\<rparr>])"
  have s': "rg_ranges ?s' = (rg_ranges s)[?r := row']" "rg_point ?s' = rg_point s" "bs_wf (rg_living ?s')"
    "bs_elems (rg_living ?s') = bs_elems (rg_living s) - {k}" "rg_referenced ?s' = rg_referenced s"
    using wf k r by (auto simp: finish_range_def range_dead_def note_referenced_def Let_def bits_simps row'_def)
  have others: "open_registers env ?s' - {?r} = open_registers env s - {?r}"
    by (rule open_registers_change [OF env rk sub]) (simp add: s'(4))
  have row'_ok: "row_ok (machine_count (rn_function env)) (rg_point s) (rg_point s + 1) (rg_point s) fresh False row'" for fresh
  proof (cases ?whole)
    case True
    then have "row_ok (machine_count (rn_function env)) lim (rg_point s + 1) (rg_point s) True True ?lrs" using row by simp
    from row_finish [OF this lim order_refl b] show ?thesis using True by (simp add: row'_def)
  next
    case False
    then show ?thesis using row_close [OF row lim] by (simp only: row'_def if_False)
  qed
  have cov: "row_covers live row' p" if "p \<le> rg_point s" "row_covers True ?lrs p" for live p
    using row_covers_close [OF that(2,1), of live] row_covers_blocks [of live "butlast ?lrs" "(last ?lrs)\<lparr>lg_finish := rg_point s\<rparr>" p]
    by (simp add: row'_def)
  have ext: "extends env s ?s'" using cov opn by (intro extends_row [OF s'(1,2) others r]) simp
  have closed: "?r \<notin> open_registers env ?s'"
  proof
    assume "?r \<in> open_registers env ?s'"
    then obtain j where j: "j \<in> bs_elems (rg_living ?s')" "rn_full env ! j = ?r" unfolding open_registers_def by (metis image_iff)
    then have "j \<in> bs_elems (rg_living s)" "j \<noteq> k" by (simp_all add: s'(4))
    then show False using j(2) env sub kn nth_eq_iff_index_eq [of "rn_full env" j k] by (auto simp: env_ok_def)
  qed
  have "bs_elems (rg_living ?s') \<subseteq> {..<length (rn_full env)}" using s'(4) sub by auto
  then have "state_ok env (rg_point s) (rg_point s + 1) ?s'"
    using closed row'_ok wf s' by (intro state_ok_row [OF ok r s'(1,2,3) _ _ others _ lim]) auto
  then show ?thesis using s' ext by simp
qed

lemma finish_ranges_ok:
  assumes env: "env_ok env" and b: "b < machine_count (rn_function env)"
  shows "state_ok env lim (rg_point s + 1) s \<Longrightarrow> distinct ks \<Longrightarrow> set ks \<subseteq> bs_elems (rg_living s) \<Longrightarrow>
    state_ok env (if ks = [] then lim else rg_point s) (rg_point s + 1) (fold (finish_range env b) ks s) \<and> rg_point (fold (finish_range env b) ks s) = rg_point s \<and>
    bs_elems (rg_living (fold (finish_range env b) ks s)) = bs_elems (rg_living s) - set ks \<and> extends env s (fold (finish_range env b) ks s)"
proof (induction ks arbitrary: s lim)
  case (Cons k ks)
  let ?t = "finish_range env b k s"
  have "k \<in> bs_elems (rg_living s)" using Cons.prems(3) by simp
  note F = finish_range_ok [OF env Cons.prems(1) this b]
  have "state_ok env (rg_point s) (rg_point ?t + 1) ?t" "distinct ks" "set ks \<subseteq> bs_elems (rg_living ?t)" using F Cons.prems by auto
  note IH = Cons.IH [OF this]
  have "bs_elems (rg_living s) - set (k # ks) = bs_elems (rg_living s) - {k} - set ks" by auto
  then show ?case using F IH extends_trans by (auto split: if_splits)
qed simp

lemma block_spill_fields [simp]:
  "rg_ranges (block_spill env b s) = rg_ranges s" "rg_living (block_spill env b s) = rg_living s" "rg_point (block_spill env b s) = rg_point s"
  "rg_referenced (block_spill env b s) = rg_referenced s"
  by (simp_all add: block_spill_def)

lemma block_spill_ok [simp]:
  "state_ok env lim q (block_spill env b s) = state_ok env lim q s" "extends env t (block_spill env b s) = extends env t s"
  "extends env (block_spill env b s) t = extends env s t"
  by (simp_all add: state_ok_def open_registers_def extends_def covered_def)

definition idle :: "range_env \<Rightarrow> range_state \<Rightarrow> bool" where
  "idle env s \<longleftrightarrow> settled env s \<and> bs_elems (rg_living s) = {}"

lemma scan_block_ok:
  assumes env: "env_ok env" and s: "idle env s" and blk: "scan_block env blocks b s = Inr s'" and b: "b < machine_count (rn_function env)"
    and out: "bs_wf (bl_out (blocks ! b))" "bs_elems (bl_out (blocks ! b)) \<subseteq> {..<length (rn_full env)}"
  shows "idle env s' \<and> extends env s s' \<and>
    (\<not> skipped_block (rn_function env) b \<longrightarrow> body_shares env s' (rev (node_body (rn_function env) b)) (bs_elems (bl_out (blocks ! b))))"
proof (cases "skipped_block (rn_function env) b")
  case True
  then show ?thesis using blk s by (simp add: scan_block_def)
next
  case False
  let ?in = "bl_in (blocks ! b)" and ?body = "rev (node_body (rn_function env) b)"
  let ?s1 = "start_block env (bl_out (blocks ! b)) s"
  obtain s2 where s2: "scan_body env ?body ?s1 = Inr s2" "rg_living s2 = ?in"
    "advance_point env (?in \<noteq> []) (block_spill env b (fold (finish_range env b) (bs_for_each ?in) s2)) = Inr s'"
    using blk False by (auto simp: scan_block_def rbind_eq_Inr split: if_splits)
  have S: "settled env ?s1 \<and> extends env s ?s1 \<and> bs_elems (rg_living ?s1) = bs_elems (bl_out (blocks ! b))"
    using start_block_ok [OF env _ _ out] s by (simp add: idle_def)
  have B: "settled env s2 \<and> extends env ?s1 s2 \<and> body_shares env s2 ?body (bs_elems (bl_out (blocks ! b)))"
    using scan_body_ok [OF env conjunct1 [OF S] s2(1)] S by simp
  have inn: "bs_wf ?in" "set (bs_for_each ?in) = bs_elems (rg_living s2)"
    using B set_bs_for_each [of ?in] unfolding s2(2) by (auto simp: settled_def state_ok_def s2(2))
  have ok2: "state_ok env (rg_point s2 - 1) (rg_point s2 + 1) s2"
    using B by (auto simp: settled_def state_ok_def elim!: row_ok_mono)
  have dist: "distinct (bs_for_each ?in)" using sorted_bs_for_each [OF inn(1)] strict_sorted_iff by blast
  let ?u = "fold (finish_range env b) (bs_for_each ?in) s2"
  note F = finish_ranges_ok [OF env b ok2 dist equalityD1 [OF inn(2)]]
  have ends: "settled env s' \<and> extends env ?u s' \<and> bs_elems (rg_living s') = bs_elems (rg_living ?u)"
  proof (cases "?in = []")
    case True
    then have "bs_for_each ?in = []" by (simp add: bs_for_each_def)
    then show ?thesis using s2(3) True B by (auto simp: advance_point_def settled_def open_registers_def)
  next
    case ne: False
    have e: "bs_wf []" "bs_elems [] = {}" by (simp_all add: bits.element_laws bits.invars)
    have "bs_elems ?in \<noteq> {}" using bits.canonical [OF inn(1) e(1)] e(2) ne by auto
    then have "bs_for_each ?in \<noteq> []" using inn(2) s2(2) by auto
    then have "state_ok env (rg_point s2) (rg_point s2 + 1) (block_spill env b ?u)" using F by simp
    from advance_point_ok [OF this s2(3), of "rg_point s2" "rg_point s2 + 1"] F ne show ?thesis
      by (auto simp: settled_def)
  qed
  have e: "extends env s ?s1" "extends env ?s1 s2" "extends env s2 ?u" "extends env ?u s'" using S B F ends by simp_all
  have e2: "extends env s2 s'" by (rule extends_trans [OF e(3,4)])
  have "extends env s s'" by (rule extends_trans [OF e(1) extends_trans [OF e(2) e2]])
  moreover have "body_shares env s' ?body (bs_elems (bl_out (blocks ! b)))" using body_shares_extends [OF env _ e2 out(2)] B by simp
  moreover have "bs_elems (rg_living s') = {}" using ends F inn(2) by simp
  ultimately show ?thesis using ends by (simp add: idle_def)
qed

lemma scan_blocks_ok:
  assumes env: "env_ok env" and out: "\<forall>b<machine_count (rn_function env). bs_wf (bl_out (blocks ! b)) \<and> bs_elems (bl_out (blocks ! b)) \<subseteq> {..<length (rn_full env)}"
  shows "idle env s \<Longrightarrow> scan_blocks env blocks bs s = Inr s' \<Longrightarrow> set bs \<subseteq> {..<machine_count (rn_function env)} \<Longrightarrow>
    idle env s' \<and> extends env s s' \<and>
    (\<forall>b\<in>set bs. \<not> skipped_block (rn_function env) b \<longrightarrow> body_shares env s' (rev (node_body (rn_function env) b)) (bs_elems (bl_out (blocks ! b))))"
proof (induction bs arbitrary: s)
  case (Cons b bs)
  obtain t where t: "scan_block env blocks b s = Inr t" "scan_blocks env blocks bs t = Inr s'" using Cons.prems(2) by (auto simp: rbind_eq_Inr)
  have b: "b < machine_count (rn_function env)" using Cons.prems(3) by simp
  have "bs_wf (bl_out (blocks ! b))" "bs_elems (bl_out (blocks ! b)) \<subseteq> {..<length (rn_full env)}" using out b by auto
  note B = scan_block_ok [OF env Cons.prems(1) t(1) b this]
  have "set bs \<subseteq> {..<machine_count (rn_function env)}" using Cons.prems(3) by simp
  note IH = Cons.IH [OF conjunct1 [OF B] t(2) this]
  have "extends env s t" "extends env t s'" using B IH by simp_all
  moreover have "body_shares env s' (rev (node_body (rn_function env) b)) (bs_elems (bl_out (blocks ! b)))" if "\<not> skipped_block (rn_function env) b"
    using body_shares_extends [OF env _ calculation(2)] B out b that by blast
  ultimately show ?case using IH extends_trans by simp
qed simp

section \<open>The points used\<close>

lemma point_kept [simp]:
  "rg_point (range_dead env i rk s) = rg_point s" "rg_point (fst (range_born env i rk s)) = rg_point s"
  "rg_point (dead_all env rks s) = rg_point s"
proof -
  show D: "rg_point (range_dead env i rk s) = rg_point s" for rk s i by (cases rk) (simp add: range_dead_def Let_def)
  show "rg_point (fst (range_born env i rk s)) = rg_point s" by (cases rk) (simp add: range_born_def Let_def)
  show "rg_point (dead_all env rks s) = rg_point s" by (induction rks arbitrary: s) (simp_all add: dead_all_def D)
qed

lemma point_born [simp]: "rg_point (fst (born_all env rks sb)) = rg_point (fst sb)"
proof (induction rks arbitrary: sb)
  case (Cons rk rks)
  obtain s b where sb: "sb = (s, b)" by fastforce
  obtain t c where t: "range_born env True rk s = (t, c)" by fastforce
  have "rg_point (fst (born_step env rk sb)) = rg_point (fst sb)"
    using point_kept(2) [of env True rk s] by (simp add: born_step_def sb t)
  then show ?case using Cons.IH [of "born_step env rk sb"] by (simp add: born_all_def)
qed (simp add: born_all_def)

lemma point_early [simp]: "rg_point (fst (fold (early_step env) rks sb)) = rg_point (fst sb)"
proof (induction rks arbitrary: sb)
  case (Cons rk rks)
  have "rg_point (fst (early_step env rk sb)) = rg_point (fst sb)" by (cases sb) (simp add: early_step_def)
  then show ?case using Cons.IH [of "early_step env rk sb"] by simp
qed simp

lemma point_call [simp]: "rg_point (fst (scan_call env i s)) = rg_point s"
proof -
  obtain s1 b1 where b1: "born_all env (scanned_list env (map PhysicalReg (rn_globals env))) (dead_all env (scanned_list env (target_clobbers (rn_function env))) s, False) = (s1, b1)"
    by fastforce
  obtain s2 b2 where b2: "born_all env (scanned_list env (map PhysicalReg (mi_arguments i))) (s1, False) = (s2, b2)" by fastforce
  have "rg_point s1 = rg_point s" "rg_point s2 = rg_point s1"
    using arg_cong [OF b1, of "\<lambda>x. rg_point (fst x)"] arg_cong [OF b2, of "\<lambda>x. rg_point (fst x)"] by simp_all
  then show ?thesis by (simp add: scan_call_def Let_def b1 b2)
qed

lemma advance_fits: "rg_point s < INT_MAX \<Longrightarrow> \<exists>s'. advance_point env b s = Inr s' \<and> rg_point s' \<le> rg_point s + 1"
  by (auto simp: advance_point_def)

lemma reads_fit: "rg_point s + 2 \<le> INT_MAX \<Longrightarrow> \<exists>s'. scan_reads env i (s, b) = Inr s' \<and> rg_point s' \<le> rg_point s + 2"
proof -
  assume p: "rg_point s + 2 \<le> INT_MAX"
  obtain t where t: "advance_point env b s = Inr t" "rg_point t \<le> rg_point s + 1" using advance_fits [of s env b] p by auto
  obtain u c where u: "born_all env (scanned_list env (visit_registers i False)) (t, False) = (u, c)" by fastforce
  let ?E = "fold (early_step env) (scanned_list env (map PhysicalReg (early_clobbers (mf_target (rn_function env)) (mi_opcode i)))) (u, c)"
  obtain v d where v: "(if rn_compact env then (u, c) else ?E) = (v, d)" by fastforce
  have "rg_point u = rg_point t" using arg_cong [OF u, of "\<lambda>x. rg_point (fst x)"] by simp
  moreover have "rg_point v = rg_point u" using v point_early [of env _ "(u, c)"] by (auto split: if_splits dest!: arg_cong [of _ "(v, d)" fst])
  ultimately have vp: "rg_point v \<le> rg_point s + 1" using t(2) by simp
  then obtain s' where s': "advance_point env d v = Inr s'" "rg_point s' \<le> rg_point v + 1" using advance_fits [of v env d] p by auto
  have "scan_reads env i (s, b) = Inr s'" using s'(1) v by (cases "rn_compact env") (simp_all add: scan_reads_def t(1) u)
  then show ?thesis using s'(2) vp by auto
qed

lemma instruction_fits: "rg_point s + 3 \<le> INT_MAX \<Longrightarrow> \<exists>s'. scan_instruction env i s = Inr s' \<and> rg_point s' \<le> rg_point s + 3"
proof -
  assume p: "rg_point s + 3 \<le> INT_MAX"
  define s1 where "s1 = dead_all env (scanned_list env (visit_registers i True)) s"
  let ?b = "scanned_list env (visit_registers i True) \<noteq> []"
  have s1: "rg_point s1 = rg_point s" by (simp add: s1_def)
  have "\<exists>s2 b. (if scans_call env i then rbind (advance_point env ?b s1) (\<lambda>s. Inr (scan_call env i s)) else Inr (s1, ?b)) = Inr (s2, b) \<and> rg_point s2 \<le> rg_point s + 1"
  proof (cases "scans_call env i")
    case True
    obtain t where t: "advance_point env ?b s1 = Inr t" "rg_point t \<le> rg_point s + 1" using advance_fits [of s1 env ?b] p s1 by auto
    obtain s2 b where c: "scan_call env i t = (s2, b)" by fastforce
    have "rg_point s2 = rg_point t" using point_call [of env i t] c by simp
    then show ?thesis using True t c by simp
  qed (simp add: s1)
  then obtain s2 b where m: "(if scans_call env i then rbind (advance_point env ?b s1) (\<lambda>s. Inr (scan_call env i s)) else Inr (s1, ?b)) = Inr (s2, b)"
    "rg_point s2 \<le> rg_point s + 1" by blast
  have "scan_instruction env i s = scan_reads env i (s2, b)"
    using m(1) unfolding scan_instruction_def Let_def s1_def [symmetric] scans_call_def [symmetric] by simp
  then show ?thesis using reads_fit [of s2 env i b] m(2) p by auto
qed

lemma body_fits:
  "rg_point s + 3 * int (length is) \<le> INT_MAX \<Longrightarrow> \<exists>s'. scan_body env is s = Inr s' \<and> rg_point s' \<le> rg_point s + 3 * int (length is)"
proof (induction "is" arbitrary: s)
  case (Cons i "is")
  obtain t where t: "scan_instruction env i s = Inr t" "rg_point t \<le> rg_point s + 3" using instruction_fits [of s env i] Cons.prems by auto
  then show ?case using Cons.IH [of t] Cons.prems by auto
qed simp

lemma point_start [simp]: "rg_point (start_block env out s) = rg_point s"
proof -
  have "rg_point (fold (\<lambda>k s. fst (range_born env False (rn_full env ! k, k) s)) ks s) = rg_point s" for ks s
    by (induction ks arbitrary: s) simp_all
  then show ?thesis by (simp add: start_block_def)
qed

lemma point_finish [simp]: "rg_point (fold (finish_range env b) ks s) = rg_point s"
proof (induction ks arbitrary: s)
  case (Cons k ks)
  have "rg_point (finish_range env b k s) = rg_point s" by (simp add: finish_range_def Let_def)
  then show ?case using Cons.IH [of "finish_range env b k s"] by simp
qed simp

section \<open>The scan succeeds\<close>

text \<open>At most three points for an instruction and one for a block.\<close>

definition block_points :: "machine_function \<Rightarrow> nat \<Rightarrow> int" where
  "block_points f b = 3 * int (length (node_body f b)) + 1"

definition scan_agrees :: "range_env \<Rightarrow> block_liveness list \<Rightarrow> nat \<Rightarrow> bool" where
  "scan_agrees env blocks b \<longleftrightarrow> bs_wf (bl_in (blocks ! b)) \<and>
     bs_elems (bl_in (blocks ! b)) = fold (scan_live env) (rev (node_body (rn_function env) b)) (bs_elems (bl_out (blocks ! b)))"

lemma block_fits:
  assumes env: "env_ok env" and s: "idle env s" and agrees: "scan_agrees env blocks b"
    and out: "bs_wf (bl_out (blocks ! b))" "bs_elems (bl_out (blocks ! b)) \<subseteq> {..<length (rn_full env)}"
    and p: "rg_point s + block_points (rn_function env) b \<le> INT_MAX"
  shows "\<exists>s'. scan_block env blocks b s = Inr s' \<and> rg_point s' \<le> rg_point s + block_points (rn_function env) b"
proof (cases "skipped_block (rn_function env) b")
  case True
  then show ?thesis by (simp add: scan_block_def block_points_def)
next
  case False
  let ?s1 = "start_block env (bl_out (blocks ! b)) s" and ?body = "rev (node_body (rn_function env) b)"
  have S: "settled env ?s1 \<and> extends env s ?s1 \<and> bs_elems (rg_living ?s1) = bs_elems (bl_out (blocks ! b))"
    using start_block_ok [OF env _ _ out] s by (simp add: idle_def)
  obtain s2 where s2: "scan_body env ?body ?s1 = Inr s2" "rg_point s2 \<le> rg_point s + 3 * int (length ?body)"
    using body_fits [of ?s1 ?body env] p by (auto simp: block_points_def)
  note B = scan_body_ok [OF env conjunct1 [OF S] s2(1)]
  have "bs_elems (rg_living s2) = bs_elems (bl_in (blocks ! b))" using B S agrees by (simp add: scan_agrees_def)
  moreover have "bs_wf (rg_living s2)" using B by (simp add: settled_def state_ok_def)
  ultimately have living: "rg_living s2 = bl_in (blocks ! b)" using bits.canonical [of "rg_living s2" "bl_in (blocks ! b)"] agrees by (simp add: scan_agrees_def)
  let ?u = "block_spill env b (fold (finish_range env b) (bs_for_each (bl_in (blocks ! b))) s2)"
  have "rg_point ?u < INT_MAX" using s2(2) p by (simp add: block_points_def)
  from advance_fits [OF this] obtain s' where s': "advance_point env (bl_in (blocks ! b) \<noteq> []) ?u = Inr s'" "rg_point s' \<le> rg_point ?u + 1" by blast
  then show ?thesis using False s2 living by (simp add: scan_block_def block_points_def)
qed

lemma blocks_fit:
  assumes env: "env_ok env" and out: "\<forall>b<machine_count (rn_function env). bs_wf (bl_out (blocks ! b)) \<and> bs_elems (bl_out (blocks ! b)) \<subseteq> {..<length (rn_full env)}"
  shows "idle env s \<Longrightarrow> set bs \<subseteq> {..<machine_count (rn_function env)} \<Longrightarrow> \<forall>b\<in>set bs. scan_agrees env blocks b \<Longrightarrow>
    rg_point s + sum_list (map (block_points (rn_function env)) bs) \<le> INT_MAX \<Longrightarrow>
    \<exists>s'. scan_blocks env blocks bs s = Inr s' \<and> rg_point s' \<le> rg_point s + sum_list (map (block_points (rn_function env)) bs)"
proof (induction bs arbitrary: s)
  case (Cons b bs)
  have b: "b < machine_count (rn_function env)" using Cons.prems(2) by simp
  have o: "bs_wf (bl_out (blocks ! b))" "bs_elems (bl_out (blocks ! b)) \<subseteq> {..<length (rn_full env)}" using out b by auto
  have "0 \<le> sum_list (map (block_points (rn_function env)) bs)" by (rule sum_list_nonneg) (auto simp: block_points_def)
  then have p: "rg_point s + block_points (rn_function env) b \<le> INT_MAX" using Cons.prems(4) by simp
  obtain t where t: "scan_block env blocks b s = Inr t" "rg_point t \<le> rg_point s + block_points (rn_function env) b"
    using block_fits [OF env Cons.prems(1) _ o p] Cons.prems(3) by auto
  have "idle env t" using scan_block_ok [OF env Cons.prems(1) t(1) b o] by simp
  then show ?case using Cons.IH [of t] Cons.prems t by auto
qed simp

end
