(* ===== verification/RangeMerge.thy ===== *)
theory RangeMerge
  imports RangeScan
begin

text \<open>
  Compressing the points and merging the ranges of a register (\<open>lib/CodeGen/LiveRanges.cpp\<close>) keeps what they cover, and
  the ranges of a register come apart.
\<close>

section \<open>The map of the points\<close>

definition points_compressed :: "nat set \<Rightarrow> nat set \<Rightarrow> nat \<Rightarrow> nat list \<Rightarrow> compression \<Rightarrow> bool" where
  "points_compressed B D n es c \<longleftrightarrow> length (cp_map c) = n \<and> (\<forall>p\<in>set es. 0 \<le> cp_map c ! p \<and> cp_map c ! p \<le> cp_last c) \<and>
     (\<forall>p\<in>set es. \<forall>p'\<in>set es. p < p' \<longrightarrow> cp_map c ! p \<le> cp_map c ! p' \<and> (p \<in> D \<and> p' \<in> B \<longrightarrow> cp_map c ! p < cp_map c ! p')) \<and>
     (\<not> cp_dead c \<longrightarrow> (\<forall>p\<in>set es \<inter> D. cp_map c ! p < cp_last c)) \<and> (if es = [] then cp_dead c \<and> cp_last c = - 1 else 0 \<le> cp_last c)"

lemma compress_event_ok:
  assumes births: "bs_wf births" "bs_elems births = B" and deaths: "bs_wf deaths" "bs_elems deaths = D"
    and c: "points_compressed B D n es c" and e: "\<forall>p\<in>set es. p < e" "e < n" "e \<in> B \<union> D" "es = [] \<Longrightarrow> e \<in> B"
  shows "points_compressed B D n (es @ [e]) (compress_event births deaths e c)"
proof -
  define new where "new = (if cp_dead c \<and> e \<in> B then cp_last c + 1 else cp_last c)"
  have st: "compress_event births deaths e c = \<lparr>cp_map = (cp_map c)[e := new], cp_last = new, cp_dead = (e \<in> D)\<rparr>"
    using births deaths by (simp add: compress_event_def Let_def bits_simps new_def)
  have len: "length (cp_map c) = n" and old: "\<forall>p\<in>set es. 0 \<le> cp_map c ! p \<and> cp_map c ! p \<le> cp_last c"
    and dead: "\<not> cp_dead c \<longrightarrow> (\<forall>p\<in>set es \<inter> D. cp_map c ! p < cp_last c)" and none: "if es = [] then cp_dead c \<and> cp_last c = - 1 else 0 \<le> cp_last c"
    and mono: "\<forall>p\<in>set es. \<forall>p'\<in>set es. p < p' \<longrightarrow> cp_map c ! p \<le> cp_map c ! p' \<and> (p \<in> D \<and> p' \<in> B \<longrightarrow> cp_map c ! p < cp_map c ! p')"
    using c by (simp_all add: points_compressed_def)
  have at: "(cp_map c)[e := new] ! e = new" using len e(2) by simp
  have keep: "(cp_map c)[e := new] ! p = cp_map c ! p" if "p \<in> set es" for p using e(1) that by (auto simp: nth_list_update)
  have ge: "cp_map c ! p \<le> new" if "p \<in> set es" for p using old that by (auto simp: new_def)
  have strict: "cp_map c ! p < new" if "p \<in> set es" "p \<in> D" "e \<in> B" for p
    using old dead that by (cases "cp_dead c") (force simp: new_def)+
  have pos: "0 \<le> new" using none e(4) by (auto simp: new_def split: if_splits)
  let ?map = "(cp_map c)[e := new]"
  show ?thesis
    unfolding points_compressed_def st compression.simps
  proof (intro conjI)
    show "length ?map = n" by (simp add: len)
    show "\<forall>p\<in>set (es @ [e]). 0 \<le> ?map ! p \<and> ?map ! p \<le> new"
      using at pos keep ge old by (simp del: nth_list_update_eq)
    show "\<forall>p\<in>set (es @ [e]). \<forall>p'\<in>set (es @ [e]). p < p' \<longrightarrow> ?map ! p \<le> ?map ! p' \<and> (p \<in> D \<and> p' \<in> B \<longrightarrow> ?map ! p < ?map ! p')"
    proof (intro ballI impI)
      fix p p'
      assume p: "p \<in> set (es @ [e])" "p' \<in> set (es @ [e])" "p < p'"
      then have pes: "p \<in> set es" using e(1) by force
      show "?map ! p \<le> ?map ! p' \<and> (p \<in> D \<and> p' \<in> B \<longrightarrow> ?map ! p < ?map ! p')"
      proof (cases "p' = e")
        case True
        then show ?thesis using at keep [OF pes] ge [OF pes] strict [OF pes] by (simp del: nth_list_update_eq)
      next
        case False
        then have "p' \<in> set es" using p(2) by simp
        then show ?thesis using keep pes mono p(3) by (simp del: nth_list_update_eq)
      qed
    qed
    show "\<not> (e \<in> D) \<longrightarrow> (\<forall>p\<in>set (es @ [e]) \<inter> D. ?map ! p < new)"
    proof (intro impI ballI)
      fix p
      assume "\<not> (e \<in> D)" "p \<in> set (es @ [e]) \<inter> D"
      then have "p \<in> set es" "p \<in> D" "e \<in> B" using e(3) by auto
      then show "?map ! p < new" using strict keep by (simp del: nth_list_update_eq)
    qed
    show "if es @ [e] = [] then e \<in> D \<and> new = - 1 else 0 \<le> new" using pos by simp
  qed
qed

lemma compress_events_ok:
  assumes births: "bs_wf births" "bs_elems births = B" and deaths: "bs_wf deaths" "bs_elems deaths = D"
  shows "sorted_wrt (<) es \<Longrightarrow> set es \<subseteq> (B \<union> D) \<inter> {..<n} \<Longrightarrow> (es \<noteq> [] \<Longrightarrow> hd es \<in> B) \<Longrightarrow>
    points_compressed B D n es (fold (compress_event births deaths) es \<lparr>cp_map = replicate n 0, cp_last = - 1, cp_dead = True\<rparr>)"
proof (induction es rule: rev_induct)
  case Nil
  then show ?case by (simp add: points_compressed_def)
next
  case (snoc e es)
  have "points_compressed B D n es (fold (compress_event births deaths) es \<lparr>cp_map = replicate n 0, cp_last = - 1, cp_dead = True\<rparr>)"
  proof (rule snoc.IH)
    show "hd es \<in> B" if "es \<noteq> []" using snoc.prems(3) that by simp
  qed (use snoc.prems in \<open>simp_all add: sorted_wrt_append\<close>)
  moreover have "e \<in> B" if "es = []" using snoc.prems(3) that by simp
  ultimately show ?case using compress_event_ok [OF births deaths] snoc.prems by (simp add: sorted_wrt_append)
qed

lemma compress_last: "cp_last (fold (compress_event births deaths) es c) \<le> cp_last c + int (length es)"
proof (induction es arbitrary: c)
  case (Cons e es)
  have "cp_last (compress_event births deaths e c) \<le> cp_last c + 1" by (simp add: compress_event_def Let_def)
  then show ?case using Cons.IH [of "compress_event births deaths e c"] by simp
qed simp

lemma fold_insert_images:
  "bs_wf s \<Longrightarrow> bs_wf (fold (\<lambda>x. bs_insert (h x)) xs s) \<and> bs_elems (fold (\<lambda>x. bs_insert (h x)) xs s) = bs_elems s \<union> h ` set xs"
  by (induction xs arbitrary: s) (auto simp: bits_simps)

definition start_points :: "live_range list \<Rightarrow> nat set" where
  "start_points lrs = (\<lambda>lr. nat (lg_start lr)) ` set lrs"

definition finish_points :: "live_range list \<Rightarrow> nat set" where
  "finish_points lrs = (\<lambda>lr. nat (lg_finish lr)) ` set lrs"

lemma compress_points_ok:
  assumes lrs: "\<forall>lr\<in>set lrs. 0 \<le> lg_start lr \<and> lg_start lr \<le> lg_finish lr \<and> lg_finish lr \<le> point"
  shows "\<exists>es. set es = start_points lrs \<union> finish_points lrs \<and>
    points_compressed (start_points lrs) (finish_points lrs) (nat (point + 1)) es (compress_points lrs point) \<and>
    (0 \<le> point \<longrightarrow> cp_last (compress_points lrs point) \<le> point)"
proof -
  have e: "bs_wf []" "bs_elems [] = {}" by (simp_all add: bits.element_laws bits.invars)
  have B: "bs_wf (range_births lrs)" "bs_elems (range_births lrs) = start_points lrs"
    and D: "bs_wf (range_deaths lrs)" "bs_elems (range_deaths lrs) = finish_points lrs"
    using fold_insert_images [OF e(1), of "\<lambda>lr. nat (lg_start lr)" lrs] fold_insert_images [OF e(1), of "\<lambda>lr. nat (lg_finish lr)" lrs] e(2)
    by (simp_all add: range_births_def range_deaths_def start_points_def finish_points_def)
  let ?events = "fst (bs_union_with False (range_births lrs) (range_deaths lrs))"
  let ?es = "bs_for_each ?events"
  have ev: "bs_wf ?events" "bs_elems ?events = start_points lrs \<union> finish_points lrs"
    using bits.union_with [OF B(1) D(1)] bits.invar_union_with [OF B(1) D(1)] B(2) D(2) by simp_all
  have s: "sorted_wrt (<) ?es" "set ?es = start_points lrs \<union> finish_points lrs"
    using sorted_bs_for_each [OF ev(1)] set_bs_for_each [OF ev(1)] ev(2) by simp_all
  have "nat x \<le> nat point" if "0 \<le> x" "x \<le> point" for x using that by simp
  then have within: "set ?es \<subseteq> (start_points lrs \<union> finish_points lrs) \<inter> {..<nat (point + 1)}"
    using lrs s(2) by (fastforce simp: start_points_def finish_points_def)
  have first: "hd ?es \<in> start_points lrs" if ne: "?es \<noteq> []"
  proof -
    have least: "hd ?es \<le> p" if "p \<in> set ?es" for p using s(1) that ne by (cases ?es) auto
    have "hd ?es \<in> start_points lrs \<union> finish_points lrs" using s(2) ne hd_in_set by blast
    then show ?thesis
    proof
      assume "hd ?es \<in> finish_points lrs"
      then obtain lr where lr: "lr \<in> set lrs" "hd ?es = nat (lg_finish lr)" by (auto simp: finish_points_def)
      then have "nat (lg_start lr) \<in> start_points lrs" "nat (lg_start lr) \<le> hd ?es" using lrs by (auto simp: start_points_def)
      then show ?thesis using least [of "nat (lg_start lr)"] s(2) by (metis UnI1 le_antisym)
    qed
  qed
  have "points_compressed (start_points lrs) (finish_points lrs) (nat (point + 1)) ?es (compress_points lrs point)"
    using compress_events_ok [OF B D s(1) within first] by (simp add: compress_points_def Let_def)
  moreover have "cp_last (compress_points lrs point) \<le> point" if p: "0 \<le> point"
  proof -
    have "length ?es = card (set ?es)" using distinct_card [of ?es] s(1) strict_sorted_iff by fastforce
    also have "\<dots> \<le> card {..<nat (point + 1)}" using calculation(1) within by (intro card_mono) auto
    finally have "int (length ?es) \<le> point + 1" using p by simp
    then show ?thesis
      using compress_last [of "range_births lrs" "range_deaths lrs" ?es "\<lparr>cp_map = replicate (nat (point + 1)) 0, cp_last = - 1, cp_dead = True\<rparr>"]
      by (simp add: compress_points_def Let_def)
  qed
  ultimately show ?thesis using s(2) by blast
qed

section \<open>Merging\<close>

definition ranges_descend :: "live_range list \<Rightarrow> bool" where
  "ranges_descend lrs \<longleftrightarrow> sorted_wrt (\<lambda>a b. lg_finish b < lg_start a) lrs \<and> (\<forall>lr\<in>set lrs. lg_start lr \<le> lg_finish lr)"

definition range_inside :: "live_range \<Rightarrow> live_range \<Rightarrow> bool" where
  "range_inside a b \<longleftrightarrow> lg_start b \<le> lg_start a \<and> lg_finish a \<le> lg_finish b"

lemma range_inside_refl [simp]: "range_inside a a"
  by (simp add: range_inside_def)

lemma range_inside_self: "x \<in> S \<Longrightarrow> \<exists>y\<in>S. range_inside x y"
  using range_inside_refl by blast

lemma merge_range_ok:
  assumes m: "ranges_descend m" "m \<noteq> [] \<Longrightarrow> range_before lr (last m)" and lr: "lg_start lr \<le> lg_finish lr"
  shows "ranges_descend (merge_range m lr)" "merge_range m lr \<noteq> []" "lg_start (last (merge_range m lr)) = lg_start lr"
    "lg_blocks (last (merge_range m lr)) = [] \<longleftrightarrow> lg_blocks lr = []"
    "\<forall>x\<in>insert lr (set m). \<exists>y\<in>set (merge_range m lr). range_inside x y"
    "\<forall>y\<in>set (merge_range m lr). (\<exists>x\<in>insert lr (set m). lg_start y = lg_start x) \<and> (\<exists>x\<in>insert lr (set m). lg_finish y = lg_finish x) \<and>
       set (lg_blocks y) \<subseteq> (\<Union>x\<in>insert lr (set m). set (lg_blocks x))"
proof -
  have "ranges_descend (merge_range m lr) \<and> merge_range m lr \<noteq> [] \<and> lg_start (last (merge_range m lr)) = lg_start lr \<and>
    (lg_blocks (last (merge_range m lr)) = [] \<longleftrightarrow> lg_blocks lr = []) \<and>
    (\<forall>x\<in>insert lr (set m). \<exists>y\<in>set (merge_range m lr). range_inside x y) \<and>
    (\<forall>y\<in>set (merge_range m lr). (\<exists>x\<in>insert lr (set m). lg_start y = lg_start x) \<and> (\<exists>x\<in>insert lr (set m). lg_finish y = lg_finish x) \<and>
       set (lg_blocks y) \<subseteq> (\<Union>x\<in>insert lr (set m). set (lg_blocks x)))"
  proof (cases m rule: rev_cases)
    case Nil
    then show ?thesis using lr by (auto simp: merge_range_def ranges_descend_def)
  next
    case (snoc xs l)
    have b: "range_before lr l" and d: "ranges_descend (xs @ [l])" using m snoc by simp_all
    then have xs: "\<forall>x\<in>set xs. lg_finish l < lg_start x \<and> lg_start x \<le> lg_finish x" "ranges_descend xs" "lg_start l \<le> lg_finish l"
      by (auto simp: ranges_descend_def sorted_wrt_append)
    show ?thesis
    proof (cases "(lg_start l \<noteq> lg_finish lr \<and> lg_start l - 1 \<noteq> lg_finish lr) \<or> (lg_blocks l = []) \<noteq> (lg_blocks lr = [])")
      case True
      then have r: "merge_range m lr = xs @ [l, lr]" unfolding snoc by (simp add: merge_range_def)
      have "lg_finish lr < lg_start l" using b True by (auto simp: range_before_def)
      then have "ranges_descend (xs @ [l, lr])" using xs d lr by (fastforce simp: ranges_descend_def sorted_wrt_append)
      then show ?thesis unfolding r by (auto simp: snoc intro: range_inside_self)
    next
      case False
      let ?l = "l\<lparr>lg_start := lg_start lr, lg_blocks := rev (lg_blocks lr) @ lg_blocks l\<rparr>"
      have r: "merge_range m lr = xs @ [?l]" unfolding snoc using False by (simp add: merge_range_def)
      have f: "lg_finish lr \<le> lg_start l" using False by auto
      then have "ranges_descend (xs @ [?l])" using xs d lr by (auto simp: ranges_descend_def sorted_wrt_append)
      moreover have "range_inside l ?l" "range_inside lr ?l" using f xs(3) lr by (simp_all add: range_inside_def)
      ultimately show ?thesis unfolding r using False by (auto simp: snoc intro: range_inside_self)
    qed
  qed
  then show "ranges_descend (merge_range m lr)" "merge_range m lr \<noteq> []" "lg_start (last (merge_range m lr)) = lg_start lr"
    "lg_blocks (last (merge_range m lr)) = [] \<longleftrightarrow> lg_blocks lr = []"
    "\<forall>x\<in>insert lr (set m). \<exists>y\<in>set (merge_range m lr). range_inside x y"
    "\<forall>y\<in>set (merge_range m lr). (\<exists>x\<in>insert lr (set m). lg_start y = lg_start x) \<and> (\<exists>x\<in>insert lr (set m). lg_finish y = lg_finish x) \<and>
       set (lg_blocks y) \<subseteq> (\<Union>x\<in>insert lr (set m). set (lg_blocks x))"
    by blast+
qed

lemma range_inside_trans: "range_inside a b \<Longrightarrow> range_inside b c \<Longrightarrow> range_inside a c"
  by (simp add: range_inside_def)

lemma merge_fold_ok:
  "ranges_descend m \<Longrightarrow> \<forall>lr\<in>set lrs. lg_start lr \<le> lg_finish lr \<Longrightarrow> sorted_wrt (\<lambda>a b. range_before b a) lrs \<Longrightarrow>
   (m \<noteq> [] \<Longrightarrow> \<forall>lr\<in>set lrs. range_before lr (last m)) \<Longrightarrow>
   ranges_descend (foldl merge_range m lrs) \<and> (\<forall>x\<in>set m \<union> set lrs. \<exists>y\<in>set (foldl merge_range m lrs). range_inside x y) \<and>
   (\<forall>y\<in>set (foldl merge_range m lrs). (\<exists>x\<in>set m \<union> set lrs. lg_start y = lg_start x) \<and> (\<exists>x\<in>set m \<union> set lrs. lg_finish y = lg_finish x) \<and>
      set (lg_blocks y) \<subseteq> (\<Union>x\<in>set m \<union> set lrs. set (lg_blocks x)))"
proof (induction lrs arbitrary: m)
  case Nil
  then show ?case by (auto intro: range_inside_self)
next
  case (Cons lr lrs)
  have b: "m \<noteq> [] \<Longrightarrow> range_before lr (last m)" and v: "lg_start lr \<le> lg_finish lr" using Cons.prems by auto
  note M = merge_range_ok [OF Cons.prems(1) b v]
  let ?m = "merge_range m lr"
  have "range_before x (last ?m)" if "x \<in> set lrs" for x
  proof -
    have "range_before x lr" using Cons.prems(3) that by simp
    then show ?thesis using M(3,4) by (auto simp: range_before_def)
  qed
  then have IH: "ranges_descend (foldl merge_range ?m lrs)" "\<forall>x\<in>set ?m \<union> set lrs. \<exists>y\<in>set (foldl merge_range ?m lrs). range_inside x y"
    "\<forall>y\<in>set (foldl merge_range ?m lrs). (\<exists>x\<in>set ?m \<union> set lrs. lg_start y = lg_start x) \<and> (\<exists>x\<in>set ?m \<union> set lrs. lg_finish y = lg_finish x) \<and>
      set (lg_blocks y) \<subseteq> (\<Union>x\<in>set ?m \<union> set lrs. set (lg_blocks x))"
    using Cons.IH [OF M(1)] Cons.prems(2,3) by simp_all
  have "\<exists>y\<in>set (foldl merge_range ?m lrs). range_inside x y" if "x \<in> set m \<union> set (lr # lrs)" for x
  proof (cases "x \<in> set lrs")
    case True
    then show ?thesis using IH(2) by blast
  next
    case False
    then have "x \<in> insert lr (set m)" using that by simp
    then obtain z where "z \<in> set ?m" "range_inside x z" using M(5) by blast
    then show ?thesis using IH(2) range_inside_trans by blast
  qed
  moreover have "(\<exists>x\<in>set m \<union> set (lr # lrs). lg_start y = lg_start x) \<and> (\<exists>x\<in>set m \<union> set (lr # lrs). lg_finish y = lg_finish x) \<and>
      set (lg_blocks y) \<subseteq> (\<Union>x\<in>set m \<union> set (lr # lrs). set (lg_blocks x))" if y: "y \<in> set (foldl merge_range ?m lrs)" for y
  proof -
    obtain x1 x2 where x: "x1 \<in> set ?m \<union> set lrs" "lg_start y = lg_start x1" "x2 \<in> set ?m \<union> set lrs" "lg_finish y = lg_finish x2"
      "set (lg_blocks y) \<subseteq> (\<Union>x\<in>set ?m \<union> set lrs. set (lg_blocks x))"
      using IH(3) y by blast
    have "\<exists>x\<in>set m \<union> set (lr # lrs). lg_start x1 = lg_start x" "\<exists>x\<in>set m \<union> set (lr # lrs). lg_finish x2 = lg_finish x"
      using x(1,3) M(6) by fastforce+
    moreover have "(\<Union>x\<in>set ?m \<union> set lrs. set (lg_blocks x)) \<subseteq> (\<Union>x\<in>set m \<union> set (lr # lrs). set (lg_blocks x))"
      using M(6) by fastforce
    ultimately show ?thesis unfolding x(2,4) by (intro conjI order_trans [OF x(5)])
  qed
  ultimately show ?case using IH(1) by simp
qed

section \<open>The rows of all registers\<close>

definition rows_closed :: "nat \<Rightarrow> int \<Rightarrow> live_range list list \<Rightarrow> bool" where
  "rows_closed n pt rows \<longleftrightarrow> (\<forall>row\<in>set rows. sorted_wrt range_before row \<and>
     (\<forall>lr\<in>set row. 0 \<le> lg_start lr \<and> lg_start lr \<le> lg_finish lr \<and> lg_finish lr \<le> pt \<and> set (lg_blocks lr) \<subseteq> {..<n}))"

definition range_at :: "live_range \<Rightarrow> int \<Rightarrow> bool" where
  "range_at lr p \<longleftrightarrow> lg_start lr \<le> p \<and> p \<le> lg_finish lr"

lemma row_map_ok:
  assumes rows: "rows_closed n pt rows" and c: "points_compressed (start_points (concat (map rev rows))) (finish_points (concat (map rev rows))) m es c"
      "set es = start_points (concat (map rev rows)) \<union> finish_points (concat (map rev rows))"
    and x: "x \<in> set (concat rows)" and y: "y \<in> set (concat rows)"
  shows "lg_start x \<le> lg_start y \<Longrightarrow> cp_map c ! nat (lg_start x) \<le> cp_map c ! nat (lg_start y)"
    "lg_start x \<le> lg_finish y \<Longrightarrow> cp_map c ! nat (lg_start x) \<le> cp_map c ! nat (lg_finish y)"
    "lg_finish x < lg_start y \<Longrightarrow> cp_map c ! nat (lg_finish x) < cp_map c ! nat (lg_start y)"
    "0 \<le> cp_map c ! nat (lg_start x)" "cp_map c ! nat (lg_finish x) \<le> cp_last c"
proof -
  have pos: "0 \<le> lg_start x" "0 \<le> lg_start y" "0 \<le> lg_finish x" "0 \<le> lg_finish y" using rows x y by (force simp: rows_closed_def)+
  have ev: "nat (lg_start x) \<in> set es" "nat (lg_start y) \<in> set es" "nat (lg_finish x) \<in> set es" "nat (lg_finish y) \<in> set es"
    and B: "nat (lg_start y) \<in> start_points (concat (map rev rows))" and D: "nat (lg_finish x) \<in> finish_points (concat (map rev rows))"
    using x y unfolding c(2) by (auto simp: start_points_def finish_points_def)
  have mono: "cp_map c ! p \<le> cp_map c ! p'" if "p \<in> set es" "p' \<in> set es" "p \<le> p'" for p p'
    using c(1) that unfolding points_compressed_def by (cases "p = p'") auto
  show "lg_start x \<le> lg_start y \<Longrightarrow> cp_map c ! nat (lg_start x) \<le> cp_map c ! nat (lg_start y)"
    "lg_start x \<le> lg_finish y \<Longrightarrow> cp_map c ! nat (lg_start x) \<le> cp_map c ! nat (lg_finish y)"
    using mono ev nat_mono by blast+
  show "cp_map c ! nat (lg_finish x) < cp_map c ! nat (lg_start y)" if "lg_finish x < lg_start y"
  proof -
    have "nat (lg_finish x) < nat (lg_start y)" using that pos by simp
    then show ?thesis using c(1) ev B D unfolding points_compressed_def by blast
  qed
  show "0 \<le> cp_map c ! nat (lg_start x)" "cp_map c ! nat (lg_finish x) \<le> cp_last c"
    using c(1) ev unfolding points_compressed_def by blast+
qed

definition row_result :: "nat \<Rightarrow> int \<Rightarrow> live_range list \<Rightarrow> bool" where
  "row_result n last_point lrs \<longleftrightarrow> ranges_descend lrs \<and> (\<forall>lr\<in>set lrs. 0 \<le> lg_start lr \<and> lg_finish lr \<le> last_point \<and> set (lg_blocks lr) \<subseteq> {..<n})"

lemma merge_ranges_ok:
  assumes rows: "rows_closed n pt rows" and c: "points_compressed (start_points (concat (map rev rows))) (finish_points (concat (map rev rows))) m es c"
      "set es = start_points (concat (map rev rows)) \<union> finish_points (concat (map rev rows))"
    and row: "row \<in> set rows"
  shows "row_result n (cp_last c) (merge_ranges (cp_map c) (rev row))"
    "\<forall>lr\<in>set row. \<exists>y\<in>set (merge_ranges (cp_map c) (rev row)). range_inside (map_range (cp_map c) lr) y"
proof -
  let ?m = "map_range (cp_map c)"
  let ?ls = "map ?m (rev row)"
  have mem: "lr \<in> set (concat rows)" if "lr \<in> set row" for lr using row that by auto
  have fields: "lg_start (?m lr) = cp_map c ! nat (lg_start lr)" "lg_finish (?m lr) = cp_map c ! nat (lg_finish lr)" "lg_blocks (?m lr) = lg_blocks lr" for lr
    by (simp_all add: map_range_def)
  have s: "sorted_wrt range_before row" "\<forall>lr\<in>set row. lg_start lr \<le> lg_finish lr \<and> set (lg_blocks lr) \<subseteq> {..<n}" using rows row by (auto simp: rows_closed_def)
  have valid: "\<forall>lr\<in>set ?ls. lg_start lr \<le> lg_finish lr"
    using row_map_ok(2) [OF rows c] mem s(2) by (auto simp: fields)
  have before: "range_before (?m a) (?m b)" if "range_before a b" "a \<in> set row" "b \<in> set row" for a b
    using that row_map_ok(3) [OF rows c mem mem, of a b] by (auto simp: range_before_def fields)
  have "sorted_wrt (\<lambda>a b. range_before (?m a) (?m b)) row"
    by (rule sorted_wrt_mono_rel [OF _ s(1)]) (use before in blast)
  then have "sorted_wrt (\<lambda>a b. range_before b a) ?ls" by (simp add: sorted_wrt_map sorted_wrt_rev)
  note F = merge_fold_ok [of "[]" ?ls, OF _ valid this, simplified]
  have R: "ranges_descend (merge_ranges (cp_map c) (rev row))" "\<forall>x\<in>set row. \<exists>y\<in>set (merge_ranges (cp_map c) (rev row)). range_inside (?m x) y"
    "\<forall>y\<in>set (merge_ranges (cp_map c) (rev row)). (\<exists>x\<in>set row. lg_start y = lg_start (?m x)) \<and> (\<exists>x\<in>set row. lg_finish y = lg_finish (?m x)) \<and>
      set (lg_blocks y) \<subseteq> (\<Union>x\<in>set row. set (lg_blocks (?m x)))"
    using F by (simp_all add: merge_ranges_def ranges_descend_def)
  have "0 \<le> lg_start y \<and> lg_finish y \<le> cp_last c \<and> set (lg_blocks y) \<subseteq> {..<n}" if y: "y \<in> set (merge_ranges (cp_map c) (rev row))" for y
  proof -
    obtain x1 x2 where x: "x1 \<in> set row" "lg_start y = lg_start (?m x1)" "x2 \<in> set row" "lg_finish y = lg_finish (?m x2)"
      "set (lg_blocks y) \<subseteq> (\<Union>x\<in>set row. set (lg_blocks (?m x)))"
      using R(3) y by blast
    have "set (lg_blocks y) \<subseteq> {..<n}" using x(5) s(2) unfolding fields by blast
    then show ?thesis using x row_map_ok(4) [OF rows c mem mem, of x1 x1] row_map_ok(5) [OF rows c mem mem, of x2 x2] by (simp add: fields)
  qed
  then show "row_result n (cp_last c) (merge_ranges (cp_map c) (rev row))" using R(1) by (simp add: row_result_def)
  show "\<forall>lr\<in>set row. \<exists>y\<in>set (merge_ranges (cp_map c) (rev row)). range_inside (?m lr) y" by (rule R(2))
qed

text \<open>Registers that share a point share one after it.\<close>

lemma merge_shares:
  assumes rows: "rows_closed n pt rows" and c: "points_compressed (start_points (concat (map rev rows))) (finish_points (concat (map rev rows))) m es c"
      "set es = start_points (concat (map rev rows)) \<union> finish_points (concat (map rev rows))"
  shows "\<exists>q. \<forall>row\<in>set rows. (\<exists>lr\<in>set row. range_at lr p) \<longrightarrow> (\<exists>y\<in>set (merge_ranges (cp_map c) (rev row)). range_at y q)"
proof -
  let ?C = "{lr \<in> set (concat rows). range_at lr p}"
  show ?thesis
  proof (cases "?C = {}")
    case True
    then show ?thesis by fastforce
  next
    case False
    have fin: "finite (lg_start ` ?C)" by simp
    then have "Max (lg_start ` ?C) \<in> lg_start ` ?C" by (rule Max_in) (use False in blast)
    then obtain z where z: "z \<in> ?C" "Max (lg_start ` ?C) = lg_start z" by blast
    have greatest: "lg_start x \<le> lg_start z" if "x \<in> ?C" for x unfolding z(2) [symmetric] by (rule Max_ge [OF fin imageI [OF that]])
    let ?q = "cp_map c ! nat (lg_start z)"
    have zc: "z \<in> set (concat rows)" "range_at z p" using z(1) by simp_all
    have "\<exists>y\<in>set (merge_ranges (cp_map c) (rev row)). range_at y ?q" if row: "row \<in> set rows" "lr \<in> set row" "range_at lr p" for row lr
    proof -
      have lr: "lr \<in> set (concat rows)" using row by auto
      have "lg_start lr \<le> lg_start z" using greatest lr row(3) by blast
      moreover have "lg_start z \<le> lg_finish lr" using zc(2) row(3) by (simp add: range_at_def)
      ultimately have "range_at (map_range (cp_map c) lr) ?q"
        using row_map_ok(1) [OF rows c lr zc(1)] row_map_ok(2) [OF rows c zc(1) lr] by (simp add: range_at_def map_range_def)
      moreover obtain y where "y \<in> set (merge_ranges (cp_map c) (rev row))" "range_inside (map_range (cp_map c) lr) y"
        using merge_ranges_ok(2) [OF rows c row(1)] row(2) by blast
      ultimately show ?thesis by (intro bexI [of _ y]) (auto simp: range_at_def range_inside_def)
    qed
    then show ?thesis by blast
  qed
qed

end
