(* ===== verification/AssignmentPoints.thy ===== *)
theory AssignmentPoints
  imports Assignment
begin

text \<open>
  What the marks of the program points say: the points of a live range, and the registers and stack units that
  \<open>reserve\<close>, \<open>available\<close> and the conflict sets of \<open>lib/CodeGen/Assignment.cpp\<close> set and read there.
\<close>

section \<open>Points\<close>

definition covers :: "live_range \<Rightarrow> nat \<Rightarrow> bool" where
  "covers lr p \<longleftrightarrow> lg_start lr \<le> int p \<and> int p \<le> lg_finish lr"

definition overlap :: "live_range \<Rightarrow> live_range \<Rightarrow> bool" where
  "overlap a b \<longleftrightarrow> (\<exists>p. covers a p \<and> covers b p)"

lemma overlap_iff:
  "0 \<le> lg_start a \<Longrightarrow> 0 \<le> lg_start b \<Longrightarrow> lg_start a \<le> lg_finish a \<Longrightarrow> lg_start b \<le> lg_finish b \<Longrightarrow>
   overlap a b \<longleftrightarrow> lg_start a \<le> lg_finish b \<and> lg_start b \<le> lg_finish a"
proof
  assume w: "0 \<le> lg_start a" "0 \<le> lg_start b" "lg_start a \<le> lg_finish a" "lg_start b \<le> lg_finish b"
    and o: "lg_start a \<le> lg_finish b \<and> lg_start b \<le> lg_finish a"
  show "overlap a b"
    unfolding overlap_def covers_def by (rule exI [of _ "nat (max (lg_start a) (lg_start b))"]) (use w o in auto)
qed (auto simp: overlap_def covers_def)

definition range_within :: "nat \<Rightarrow> live_range \<Rightarrow> bool" where
  "range_within n lr \<longleftrightarrow> 0 \<le> lg_start lr \<and> lg_start lr \<le> lg_finish lr \<and> lg_finish lr < int n"

definition points_ok :: "nat \<Rightarrow> point_locations list \<Rightarrow> bool" where
  "points_ok n pts \<longleftrightarrow> length pts = n \<and> (\<forall>p<n. bs_wf (pl_physical (pts ! p)) \<and> bs_wf (pl_stack (pts ! p)))"

definition registers_at :: "point_locations list \<Rightarrow> nat \<Rightarrow> nat set" where
  "registers_at pts p = bs_elems (pl_physical (pts ! p))"

definition units_at :: "point_locations list \<Rightarrow> nat \<Rightarrow> nat set" where
  "units_at pts p = bs_elems (pl_stack (pts ! p))"

fun location_register :: "location \<Rightarrow> nat set" where
  "location_register (InRegister q) = {pr_encoding q}"
| "location_register _ = {}"

fun location_units :: "location \<Rightarrow> nat set" where
  "location_units (OnStack off sz) = {off div 8..<(off + sz) div 8}"
| "location_units _ = {}"

lemma fold_update_points:
  "distinct ps \<Longrightarrow> \<forall>p\<in>set ps. 0 \<le> p \<and> nat p < length pts \<Longrightarrow>
   length (fold (\<lambda>p pts. pts[nat p := h (pts ! nat p)]) ps pts) = length pts \<and>
   (\<forall>i<length pts. fold (\<lambda>p pts. pts[nat p := h (pts ! nat p)]) ps pts ! i = (if int i \<in> set ps then h (pts ! i) else pts ! i))"
proof (induction ps arbitrary: pts)
  case (Cons p ps)
  have "\<forall>q\<in>set ps. 0 \<le> q \<and> nat q < length (pts[nat p := h (pts ! nat p)])" using Cons.prems(2) by simp
  from Cons.IH [OF _ this] Cons.prems show ?case by (auto simp: nth_list_update)
qed simp

lemma reserve_points_nth:
  assumes "range_within (length pts) lr"
  shows "length (reserve_points loc lr on pts) = length pts"
    "i < length pts \<Longrightarrow> reserve_points loc lr on pts ! i = (if covers lr i then mark_point loc on (pts ! i) else pts ! i)"
proof -
  have "\<forall>p\<in>set [lg_start lr..lg_finish lr]. 0 \<le> p \<and> nat p < length pts" using assms by (auto simp: range_within_def)
  from fold_update_points [OF _ this, of "mark_point loc on"]
  show "length (reserve_points loc lr on pts) = length pts"
    "i < length pts \<Longrightarrow> reserve_points loc lr on pts ! i = (if covers lr i then mark_point loc on (pts ! i) else pts ! i)"
    by (simp_all add: reserve_points_def covers_def)
qed

lemma fold_bits:
  "bs_wf s \<Longrightarrow> bs_wf (fold (if on then bs_insert else bs_erase) ks s) \<and>
   bs_elems (fold (if on then bs_insert else bs_erase) ks s) = (if on then bs_elems s \<union> set ks else bs_elems s - set ks)"
  by (induction ks arbitrary: s) (auto simp: bits.element_laws bits.invars)

lemma mark_point_spec:
  assumes "bs_wf (pl_physical pl)" "bs_wf (pl_stack pl)"
  shows "bs_wf (pl_physical (mark_point loc on pl))" "bs_wf (pl_stack (mark_point loc on pl))"
    "bs_elems (pl_physical (mark_point loc on pl)) =
      (if on then bs_elems (pl_physical pl) \<union> location_register loc else bs_elems (pl_physical pl) - location_register loc)"
    "bs_elems (pl_stack (mark_point loc on pl)) =
      (if on then bs_elems (pl_stack pl) \<union> location_units loc else bs_elems (pl_stack pl) - location_units loc)"
  using assms fold_bits [OF assms(2), of on] by (auto simp: mark_point_def bits.element_laws bits.invars split: location.splits)

lemma reserve_points_spec:
  assumes "points_ok n pts" "range_within n lr"
  shows "points_ok n (reserve_points loc lr on pts)"
    "p < n \<Longrightarrow> registers_at (reserve_points loc lr on pts) p =
      (if covers lr p then (if on then registers_at pts p \<union> location_register loc else registers_at pts p - location_register loc)
       else registers_at pts p)"
    "p < n \<Longrightarrow> units_at (reserve_points loc lr on pts) p =
      (if covers lr p then (if on then units_at pts p \<union> location_units loc else units_at pts p - location_units loc) else units_at pts p)"
proof -
  have l: "range_within (length pts) lr" "length pts = n" using assms by (simp_all add: points_ok_def)
  show "points_ok n (reserve_points loc lr on pts)"
    "p < n \<Longrightarrow> registers_at (reserve_points loc lr on pts) p =
      (if covers lr p then (if on then registers_at pts p \<union> location_register loc else registers_at pts p - location_register loc)
       else registers_at pts p)"
    "p < n \<Longrightarrow> units_at (reserve_points loc lr on pts) p =
      (if covers lr p then (if on then units_at pts p \<union> location_units loc else units_at pts p - location_units loc) else units_at pts p)"
    using assms(1) reserve_points_nth [OF l(1)] l(2) mark_point_spec
    by (simp_all add: points_ok_def registers_at_def units_at_def)
qed

lemma register_free_iff:
  assumes "points_ok n pts" "range_within n lr"
  shows "register_free q lr pts \<longleftrightarrow> (\<forall>p. covers lr p \<longrightarrow> pr_encoding q \<notin> registers_at pts p)"
proof -
  have "nat p < n \<and> int (nat p) = p" if "p \<in> set [lg_start lr..lg_finish lr]" for p
    using that assms(2) by (auto simp: range_within_def)
  then have "register_free q lr pts \<longleftrightarrow> (\<forall>p\<in>set [lg_start lr..lg_finish lr]. pr_encoding q \<notin> registers_at pts (nat p))"
    using assms(1) by (auto simp: register_free_def list_all_iff registers_at_def points_ok_def bits.element_laws)
  also have "\<dots> \<longleftrightarrow> (\<forall>p. covers lr p \<longrightarrow> pr_encoding q \<notin> registers_at pts p)"
  proof safe
    fix p
    assume "\<forall>p\<in>set [lg_start lr..lg_finish lr]. pr_encoding q \<notin> registers_at pts (nat p)" "covers lr p" "pr_encoding q \<in> registers_at pts p"
    then show False by (auto simp: covers_def dest!: bspec [of _ _ "int p"])
  next
    fix p
    assume "\<forall>p. covers lr p \<longrightarrow> pr_encoding q \<notin> registers_at pts p" "p \<in> set [lg_start lr..lg_finish lr]" "pr_encoding q \<in> registers_at pts (nat p)"
    then show False using assms(2) by (auto simp: covers_def range_within_def)
  qed
  finally show ?thesis .
qed

text \<open>The conflicts of a register are what is used at some point of its ranges.\<close>

lemma range_conflicts_spec:
  assumes pts: "points_ok n pts" and lrs: "\<forall>lr\<in>set lrs. range_within n lr"
  shows "bs_wf (pl_physical (range_conflicts lrs pts))" "bs_wf (pl_stack (range_conflicts lrs pts))"
    "bs_elems (pl_physical (range_conflicts lrs pts)) = (\<Union>lr\<in>set lrs. \<Union>p\<in>{p. covers lr p}. registers_at pts p)"
    "bs_elems (pl_stack (range_conflicts lrs pts)) = (\<Union>lr\<in>set lrs. \<Union>p\<in>{p. covers lr p}. units_at pts p)"
proof -
  define ok where "ok pl R U \<longleftrightarrow> bs_wf (pl_physical pl) \<and> bs_wf (pl_stack pl) \<and> bs_elems (pl_physical pl) = R \<and> bs_elems (pl_stack pl) = U"
    for pl :: point_locations and R U
  let ?step = "\<lambda>p pl. \<lparr>pl_physical = fst (bs_union_with False (pl_physical pl) (pl_physical (pts ! nat p))),
        pl_stack = fst (bs_union_with False (pl_stack pl) (pl_stack (pts ! nat p)))\<rparr>"
  have inner: "ok pl R U \<Longrightarrow> \<forall>p\<in>set ps. nat p < n \<Longrightarrow>
      ok (fold ?step ps pl) (R \<union> (\<Union>p\<in>set ps. registers_at pts (nat p))) (U \<union> (\<Union>p\<in>set ps. units_at pts (nat p)))" for ps R U and pl :: point_locations
  proof (induction ps arbitrary: pl R U)
    case (Cons p ps)
    have "ok (?step p pl) (R \<union> registers_at pts (nat p)) (U \<union> units_at pts (nat p))"
      using Cons.prems pts by (simp add: ok_def points_ok_def registers_at_def units_at_def bits.element_laws bits.invars)
    from Cons.IH [OF this] Cons.prems(2) show ?case by (simp add: Un_assoc)
  qed simp
  have image: "(\<Union>p\<in>set [lg_start lr..lg_finish lr]. g (nat p)) = (\<Union>p\<in>{p. covers lr p}. g p)" if "range_within n lr" for lr and g :: "nat \<Rightarrow> nat set"
  proof -
    have "nat ` set [lg_start lr..lg_finish lr] = {p. covers lr p}"
    proof (intro equalityI subsetI)
      fix p assume "p \<in> {p. covers lr p}"
      then have "int p \<in> set [lg_start lr..lg_finish lr]" by (simp add: covers_def)
      then show "p \<in> nat ` set [lg_start lr..lg_finish lr]" by (metis image_eqI nat_int)
    qed (use that in \<open>auto simp: covers_def range_within_def\<close>)
    then show ?thesis by (metis (no_types) image_image)
  qed
  have outer: "ok pl R U \<Longrightarrow> \<forall>lr\<in>set lrs. range_within n lr \<Longrightarrow> ok (fold (\<lambda>lr. fold ?step [lg_start lr..lg_finish lr]) lrs pl)
      (R \<union> (\<Union>lr\<in>set lrs. \<Union>p\<in>{p. covers lr p}. registers_at pts p)) (U \<union> (\<Union>lr\<in>set lrs. \<Union>p\<in>{p. covers lr p}. units_at pts p))" for lrs R U and pl :: point_locations
  proof (induction lrs arbitrary: pl R U)
    case (Cons lr lrs)
    have w: "range_within n lr" using Cons.prems(2) by simp
    then have "\<forall>p\<in>set [lg_start lr..lg_finish lr]. nat p < n" by (auto simp: range_within_def)
    from inner [OF Cons.prems(1) this] have
      "ok (fold ?step [lg_start lr..lg_finish lr] pl) (R \<union> (\<Union>p\<in>{p. covers lr p}. registers_at pts p)) (U \<union> (\<Union>p\<in>{p. covers lr p}. units_at pts p))"
      by (simp only: image [OF w])
    from Cons.IH [OF this] Cons.prems(2) show ?case by (simp add: Un_assoc)
  qed simp
  have "ok (range_conflicts lrs pts) (\<Union>lr\<in>set lrs. \<Union>p\<in>{p. covers lr p}. registers_at pts p) (\<Union>lr\<in>set lrs. \<Union>p\<in>{p. covers lr p}. units_at pts p)"
    unfolding range_conflicts_def using outer [of "\<lparr>pl_physical = [], pl_stack = []\<rparr>" "{}" "{}" lrs] lrs by (simp add: ok_def bits.element_laws bits.invars)
  then show "bs_wf (pl_physical (range_conflicts lrs pts))" "bs_wf (pl_stack (range_conflicts lrs pts))"
    "bs_elems (pl_physical (range_conflicts lrs pts)) = (\<Union>lr\<in>set lrs. \<Union>p\<in>{p. covers lr p}. registers_at pts p)"
    "bs_elems (pl_stack (range_conflicts lrs pts)) = (\<Union>lr\<in>set lrs. \<Union>p\<in>{p. covers lr p}. units_at pts p)"
    by (simp_all add: ok_def)
qed

end
