(* ===== verification/AssignmentGaps.thy ===== *)
theory AssignmentGaps
  imports AssignmentPoints
begin

text \<open>
  The ordered map of gaps of \<open>lib/CodeGen/Assignment.cpp\<close>: its lookups, and that \<open>find_gaps\<close> ends and meets every gap of
  a physical register that overlaps a range.
\<close>

section \<open>The map\<close>

definition gaps_sorted :: "gap_map \<Rightarrow> bool" where
  "gaps_sorted m \<longleftrightarrow> sorted_wrt (<) (map fst m)"

lemma gaps_sorted_simps [simp]:
  "gaps_sorted []" "gaps_sorted (e # m) \<longleftrightarrow> (\<forall>e'\<in>set m. fst e < fst e') \<and> gaps_sorted m"
  by (auto simp: gaps_sorted_def)

lemma gaps_sorted_append:
  "gaps_sorted (a @ b) \<longleftrightarrow> gaps_sorted a \<and> gaps_sorted b \<and> (\<forall>e\<in>set a. \<forall>e'\<in>set b. fst e < fst e')"
  by (induction a) auto

lemma gap_key_unique: "gaps_sorted m \<Longrightarrow> e \<in> set m \<Longrightarrow> e' \<in> set m \<Longrightarrow> fst e = fst e' \<Longrightarrow> e = e'"
  by (induction m) auto

lemma set_takeWhile_keys:
  "gaps_sorted m \<Longrightarrow> (\<And>a b. a < b \<Longrightarrow> P b \<Longrightarrow> P a) \<Longrightarrow> set (takeWhile (\<lambda>e. P (fst e)) m) = {e \<in> set m. P (fst e)}"
  by (induction m) auto

lemma set_dropWhile_keys:
  "gaps_sorted m \<Longrightarrow> (\<And>a b. a < b \<Longrightarrow> P b \<Longrightarrow> P a) \<Longrightarrow> set (dropWhile (\<lambda>e. P (fst e)) m) = {e \<in> set m. \<not> P (fst e)}"
  by (induction m) auto

lemma gaps_sorted_While: "gaps_sorted m \<Longrightarrow> gaps_sorted (takeWhile P m) \<and> gaps_sorted (dropWhile P m)"
  by (metis gaps_sorted_append takeWhile_dropWhile_id)

lemma gap_split:
  assumes "gaps_sorted m"
  shows "set (takeWhile (\<lambda>(k', _). k' < k) m) = {e \<in> set m. fst e < k}"
    "set (dropWhile (\<lambda>(k', _). k' \<le> k) m) = {e \<in> set m. k < fst e}"
    "set (takeWhile (\<lambda>(k', _). k' \<le> k) m) = {e \<in> set m. fst e \<le> k}"
proof -
  have "set (takeWhile (\<lambda>e. fst e < k) m) = {e \<in> set m. fst e < k}"
    by (rule set_takeWhile_keys [OF assms]) (erule less_trans, assumption)
  then show "set (takeWhile (\<lambda>(k', _). k' < k) m) = {e \<in> set m. fst e < k}" by (simp add: case_prod_unfold)
  have "set (takeWhile (\<lambda>e. fst e \<le> k) m) = {e \<in> set m. fst e \<le> k}"
    by (rule set_takeWhile_keys [OF assms]) (meson less_imp_le order_trans)
  then show "set (takeWhile (\<lambda>(k', _). k' \<le> k) m) = {e \<in> set m. fst e \<le> k}" by (simp add: case_prod_unfold)
  have "set (dropWhile (\<lambda>e. fst e \<le> k) m) = {e \<in> set m. \<not> fst e \<le> k}"
    by (rule set_dropWhile_keys [OF assms]) (meson less_imp_le order_trans)
  then show "set (dropWhile (\<lambda>(k', _). k' \<le> k) m) = {e \<in> set m. k < fst e}" by (simp only: case_prod_unfold not_le)
qed

lemma gap_insert_spec:
  assumes "gaps_sorted m"
  shows "gaps_sorted (gap_insert k g m)" "set (gap_insert k g m) = insert (k, g) {e \<in> set m. fst e \<noteq> k}"
proof -
  have "\<forall>e\<in>{e \<in> set m. fst e < k}. \<forall>e'\<in>{e \<in> set m. k < fst e}. fst e < fst e'" by (blast intro: less_trans)
  then show "gaps_sorted (gap_insert k g m)"
    using gap_split [OF assms, of k] gaps_sorted_While [OF assms]
    by (simp only: gap_insert_def gaps_sorted_append gaps_sorted_simps list.set) auto
  show "set (gap_insert k g m) = insert (k, g) {e \<in> set m. fst e \<noteq> k}"
    using gap_split(1,2) [OF assms, of k] by (simp only: gap_insert_def set_append list.set) (auto simp only: neq_iff)
qed

lemma gap_erase_spec:
  assumes "gaps_sorted m"
  shows "gaps_sorted (gap_erase k m)" "set (gap_erase k m) = {e \<in> set m. fst e \<noteq> k}"
  using assms by (induction m) (auto simp: gap_erase_def)

lemma lower_gap_None: "lower_gap k m = None \<Longrightarrow> e \<in> set m \<Longrightarrow> fst e < k"
  by (cases e) (auto simp: lower_gap_def find_None_iff not_le)

lemma lower_gap_Some:
  assumes "gaps_sorted m" "lower_gap k m = Some e"
  shows "e \<in> set m" "k \<le> fst e" "e' \<in> set m \<Longrightarrow> k \<le> fst e' \<Longrightarrow> fst e \<le> fst e'"
  using assms by (induction m) (auto simp: lower_gap_def split: if_splits dest: less_imp_le)

lemma previous_gap_None: "gaps_sorted m \<Longrightarrow> previous_gap k m = None \<Longrightarrow> e \<in> set m \<Longrightarrow> k < fst e"
  using gap_split(3) [of m k] by (cases e) (auto simp: previous_gap_def Let_def not_le split: if_splits)

lemma last_is_greatest: "gaps_sorted m \<Longrightarrow> m \<noteq> [] \<Longrightarrow> e \<in> set m \<Longrightarrow> fst e \<le> fst (last m)"
  by (induction m) (auto dest: less_imp_le)

lemma previous_gap_Some:
  assumes "gaps_sorted m" "previous_gap k m = Some e"
  shows "e \<in> set m" "fst e \<le> k" "e' \<in> set m \<Longrightarrow> fst e' \<le> k \<Longrightarrow> fst e' \<le> fst e"
proof -
  let ?b = "takeWhile (\<lambda>(k', _). k' \<le> k) m"
  have b: "?b \<noteq> []" "e = last ?b" using assms(2) by (auto simp: previous_gap_def Let_def split: if_splits)
  then have "e \<in> set ?b" using last_in_set by blast
  then show "e \<in> set m" "fst e \<le> k" using gap_split(3) [OF assms(1), of k] by auto
  show "e' \<in> set m \<Longrightarrow> fst e' \<le> k \<Longrightarrow> fst e' \<le> fst e"
    using last_is_greatest [OF conjunct1 [OF gaps_sorted_While [OF assms(1)]] b(1)] gap_split(3) [OF assms(1), of k] b(2) by auto
qed

section \<open>Searching for gaps\<close>

definition gap_hold :: "gap \<Rightarrow> nat \<times> nat" where
  "gap_hold g = (gp_reg g, gp_range g)"

text \<open>The gaps of one physical register do not overlap, and are keyed by where they start.\<close>

definition gaps_apart :: "allocation_input \<Rightarrow> gap_map \<Rightarrow> bool" where
  "gaps_apart inp m \<longleftrightarrow> gaps_sorted m \<and>
     (\<forall>e\<in>set m. snd (fst e) = lg_start (gap_live_range inp (snd e)) \<and> 0 \<le> snd (fst e) \<and> snd (fst e) \<le> lg_finish (gap_live_range inp (snd e))) \<and>
     (\<forall>e\<in>set m. \<forall>e'\<in>set m. fst (fst e) = fst (fst e') \<and> snd (fst e) < snd (fst e') \<longrightarrow> lg_finish (gap_live_range inp (snd e)) < snd (fst e'))"

lemma append_gap_spec:
  assumes "append_gap inp g (f, t) = (f', t')"
  shows "set f \<subseteq> set f'" "set f' \<subseteq> insert g (set f)" "gap_hold g \<in> gap_hold ` set f'"
proof -
  show "set f \<subseteq> set f'" "set f' \<subseteq> insert g (set f)" using assms by (auto simp: append_gap_def split: if_splits)
  show "gap_hold g \<in> gap_hold ` set f'"
  proof (cases "f \<noteq> [] \<and> gp_reg (last f) = gp_reg g \<and> gp_range (last f) = gp_range g")
    case True
    then have "gap_hold g = gap_hold (last f)" "last f \<in> set f'" using assms by (auto simp: append_gap_def gap_hold_def)
    then show ?thesis by simp
  next
    case False
    then have "g \<in> set f'" using assms by (auto simp: append_gap_def split: if_splits)
    then show ?thesis by simp
  qed
qed

lemma scan_gaps_spec:
  assumes "gaps_apart inp m"
  shows "\<exists>f' t'. scan_gaps inp m enc limit from (f, t) = Some (f', t') \<and> set f \<subseteq> set f' \<and>
    set f' \<subseteq> set f \<union> snd ` {e \<in> set m. fst (fst e) = enc} \<and>
    (\<forall>e\<in>set m. fst (fst e) = enc \<and> from \<le> snd (fst e) \<and> snd (fst e) \<le> limit \<longrightarrow> gap_hold (snd e) \<in> gap_hold ` set f')"
proof (induction "length (List.filter (\<lambda>e. (enc, from) \<le> fst e) m)" arbitrary: "from" f t rule: less_induct)
  case less
  have s: "gaps_sorted m" using assms by (simp add: gaps_apart_def)
  show ?case
  proof (cases "lower_gap (enc, from) m")
    case None
    have "\<forall>e\<in>set m. fst e < (enc, from)" using lower_gap_None [OF None] by blast
    then have "\<forall>e\<in>set m. \<not> (fst (fst e) = enc \<and> from \<le> snd (fst e))" by (auto simp: less_prod_def)
    then show ?thesis using None by (subst scan_gaps.simps) auto
  next
    case (Some e)
    obtain k g where e: "e = (k, g)" by (cases e)
    note low = lower_gap_Some [OF s Some]
    show ?thesis
    proof (cases "fst k = enc \<and> snd k \<le> limit")
      case False
      have "\<not> (fst (fst e') = enc \<and> from \<le> snd (fst e') \<and> snd (fst e') \<le> limit)" if "e' \<in> set m" for e'
        using low(2) low(3) [OF that] False e by (auto simp: less_eq_prod_def)
      then show ?thesis using Some e False by (subst scan_gaps.simps) auto
    next
      case True
      let ?next = "lg_finish (gap_live_range inp g) + 1"
      obtain f1 t1 where ap: "append_gap inp g (f, t) = (f1, t1)" by fastforce
      have start: "snd k \<le> lg_finish (gap_live_range inp g)" using assms low(1) e by (auto simp: gaps_apart_def)
      have k: "(enc, from) \<le> k" "k < (enc, ?next)"
        using low(2) e True start by (auto simp: less_prod_def)
      have sub: "List.filter (\<lambda>e. (enc, ?next) \<le> fst e) m = List.filter (\<lambda>e. (enc, ?next) \<le> fst e) (List.filter (\<lambda>e. (enc, from) \<le> fst e) m)"
        unfolding filter_filter by (rule filter_cong [OF refl]) (use k in \<open>meson less_imp_le order_trans\<close>)
      have "length (List.filter (\<lambda>e. (enc, ?next) \<le> fst e) m) < length (List.filter (\<lambda>e. (enc, from) \<le> fst e) m)"
        unfolding sub by (rule length_filter_less [of e]) (use low(1) k e in auto)
      from less [OF this, of f1 t1] obtain f' t' where r: "scan_gaps inp m enc limit ?next (f1, t1) = Some (f', t')" "set f1 \<subseteq> set f'"
        "set f' \<subseteq> set f1 \<union> snd ` {e \<in> set m. fst (fst e) = enc}"
        "\<And>e. e \<in> set m \<Longrightarrow> fst (fst e) = enc \<Longrightarrow> ?next \<le> snd (fst e) \<Longrightarrow> snd (fst e) \<le> limit \<Longrightarrow> gap_hold (snd e) \<in> gap_hold ` set f'"
        by auto
      have cov: "gap_hold (snd e') \<in> gap_hold ` set f'"
        if "e' \<in> set m" "fst (fst e') = enc" "from \<le> snd (fst e')" "snd (fst e') \<le> limit" for e'
      proof (cases "fst e' = k")
        case True
        then have "e' = e" using gap_key_unique [OF s that(1) low(1)] e by simp
        then show ?thesis using append_gap_spec(3) [OF ap] r(2) e by auto
      next
        case False
        have "k \<le> fst e'" using low(3) [OF that(1)] e that(2,3) by (auto simp: less_eq_prod_def)
        then have "snd k < snd (fst e')" using False that(2) True by (cases k; cases "fst e'") (auto simp: less_eq_prod_def)
        then have "?next \<le> snd (fst e')" using assms low(1) that(1,2) e True by (fastforce simp: gaps_apart_def)
        then show ?thesis using r(4) [OF that(1,2)] that(4) by simp
      qed
      have "set f' \<subseteq> set f \<union> snd ` {e \<in> set m. fst (fst e) = enc}"
        using r(3) append_gap_spec(2) [OF ap] low(1) e True by force
      then show ?thesis
        using Some e True r(1,2) append_gap_spec(1) [OF ap] cov ap by (subst scan_gaps.simps) auto
    qed
  qed
qed

lemma find_gaps_spec:
  assumes apart: "gaps_apart inp m" and lr: "0 \<le> lg_start lr" "lg_start lr \<le> lg_finish lr"
  shows "\<exists>f' t'. find_gaps inp m q lr f = Some (f', t') \<and> set f \<subseteq> set f' \<and>
    set f' \<subseteq> set f \<union> snd ` {e \<in> set m. fst (fst e) = pr_encoding q} \<and>
    (\<forall>e\<in>set m. fst (fst e) = pr_encoding q \<and> overlap (gap_live_range inp (snd e)) lr \<longrightarrow> gap_hold (snd e) \<in> gap_hold ` set f')"
proof -
  let ?enc = "pr_encoding q"
  let ?fin = "\<lambda>e. lg_finish (gap_live_range inp (snd e))"
  have s: "gaps_sorted m" using apart by (simp add: gaps_apart_def)
  have e_props: "snd (fst e) = lg_start (gap_live_range inp (snd e))" "0 \<le> snd (fst e)" "snd (fst e) \<le> ?fin e" if "e \<in> set m" for e
    using that apart by (auto simp: gaps_apart_def)
  have ov: "overlap (gap_live_range inp (snd e)) lr \<longleftrightarrow> snd (fst e) \<le> lg_finish lr \<and> lg_start lr \<le> ?fin e" if "e \<in> set m" for e
    using overlap_iff [of "gap_live_range inp (snd e)" lr] e_props [OF that] lr by auto
  have apartD: "?fin e < snd (fst e')"
    if "e \<in> set m" "e' \<in> set m" "fst (fst e) = fst (fst e')" "snd (fst e) < snd (fst e')" for e e'
    using that apart by (auto simp: gaps_apart_def)
  show ?thesis
  proof (cases "\<exists>e. previous_gap (?enc, lg_start lr) m = Some e \<and> fst (fst e) = ?enc \<and> lg_start lr \<le> ?fin e")
    case True
    then obtain e where e: "previous_gap (?enc, lg_start lr) m = Some e" "fst (fst e) = ?enc" "lg_start lr \<le> ?fin e" by blast
    obtain f1 t1 where ap: "append_gap inp (snd e) (f, 0) = (f1, t1)" by fastforce
    note prev = previous_gap_Some [OF s e(1)]
    obtain f' t' where r: "scan_gaps inp m ?enc (lg_finish lr) (?fin e + 1) (f1, t1) = Some (f', t')" "set f1 \<subseteq> set f'"
        "set f' \<subseteq> set f1 \<union> snd ` {e \<in> set m. fst (fst e) = ?enc}"
        "\<And>e'. e' \<in> set m \<Longrightarrow> fst (fst e') = ?enc \<Longrightarrow> ?fin e + 1 \<le> snd (fst e') \<Longrightarrow> snd (fst e') \<le> lg_finish lr \<Longrightarrow> gap_hold (snd e') \<in> gap_hold ` set f'"
      using scan_gaps_spec [OF apart, of ?enc "lg_finish lr" "?fin e + 1" f1 t1] by (elim exE conjE) (rule that, assumption+, blast)
    have cov: "gap_hold (snd e') \<in> gap_hold ` set f'"
      if e': "e' \<in> set m" "fst (fst e') = ?enc" "overlap (gap_live_range inp (snd e')) lr" for e'
    proof -
      consider "snd (fst e') < snd (fst e)" | "snd (fst e') = snd (fst e)" | "snd (fst e) < snd (fst e')" by linarith
      then show ?thesis
      proof cases
        case 1
        then have "?fin e' < snd (fst e)" using apartD [OF e'(1) prev(1)] e'(2) e(2) by simp
        moreover have "snd (fst e) \<le> lg_start lr" using prev(2) e(2) by (auto simp: less_eq_prod_def)
        ultimately show ?thesis using e'(3) ov [OF e'(1)] by simp
      next
        case 2
        then have "e' = e" using gap_key_unique [OF s e'(1) prev(1)] e'(2) e(2) by (simp add: prod_eq_iff)
        then show ?thesis using append_gap_spec(3) [OF ap] r(2) by auto
      next
        case 3
        then show ?thesis using apartD [OF prev(1) e'(1)] e'(2,3) e(2) r(4) [OF e'(1,2)] ov [OF e'(1)] by simp
      qed
    qed
    have "find_gaps inp m q lr f = Some (f', t')" using e r(1) ap by (auto simp: find_gaps_def split_beta)
    moreover have "set f' \<subseteq> set f \<union> snd ` {e \<in> set m. fst (fst e) = ?enc}"
      using r(3) append_gap_spec(2) [OF ap] prev(1) e(2) by force
    ultimately show ?thesis using append_gap_spec(1) [OF ap] r(2) cov by auto
  next
    case False
    obtain f' t' where r: "scan_gaps inp m ?enc (lg_finish lr) (lg_start lr + 1) (f, 0) = Some (f', t')" "set f \<subseteq> set f'"
        "set f' \<subseteq> set f \<union> snd ` {e \<in> set m. fst (fst e) = ?enc}"
        "\<And>e'. e' \<in> set m \<Longrightarrow> fst (fst e') = ?enc \<Longrightarrow> lg_start lr + 1 \<le> snd (fst e') \<Longrightarrow> snd (fst e') \<le> lg_finish lr \<Longrightarrow> gap_hold (snd e') \<in> gap_hold ` set f'"
      using scan_gaps_spec [OF apart, of ?enc "lg_finish lr" "lg_start lr + 1" f 0] by (elim exE conjE) (rule that, assumption+, blast)
    have cov: "gap_hold (snd e') \<in> gap_hold ` set f'"
      if e': "e' \<in> set m" "fst (fst e') = ?enc" "overlap (gap_live_range inp (snd e')) lr" for e'
    proof (cases "lg_start lr < snd (fst e')")
      case True
      then show ?thesis using r(4) [OF e'(1,2)] e'(3) ov [OF e'(1)] by simp
    next
      case le: False
      then have below: "fst e' \<le> (?enc, lg_start lr)" using e'(2) by (cases "fst e'") (auto simp: less_eq_prod_def)
      then obtain e where e: "previous_gap (?enc, lg_start lr) m = Some e"
        using previous_gap_None [OF s _ e'(1)] by (meson leD option.exhaust)
      note prev = previous_gap_Some [OF s e]
      have ge: "fst e' \<le> fst e" using prev(3) [OF e'(1) below] .
      then have enc: "fst (fst e) = ?enc" using prev(2) e'(2) by (auto simp: less_eq_prod_def)
      have "e' = e"
      proof (rule ccontr)
        assume ne: "e' \<noteq> e"
        then have "fst e' \<noteq> fst e" using gap_key_unique [OF s e'(1) prev(1)] by blast
        then have "snd (fst e') < snd (fst e)" using ge enc e'(2) by (cases "fst e"; cases "fst e'") (auto simp: less_eq_prod_def)
        then have "?fin e' < snd (fst e)" using apartD [OF e'(1) prev(1)] enc e'(2) by simp
        moreover have "snd (fst e) \<le> lg_start lr" using prev(2) enc by (auto simp: less_eq_prod_def)
        ultimately show False using e'(3) ov [OF e'(1)] by simp
      qed
      then show ?thesis using False e enc e'(3) ov [OF e'(1)] by auto
    qed
    have "find_gaps inp m q lr f = Some (f', t')"
      using False r(1) by (auto simp: find_gaps_def split: option.splits prod.splits)
    then show ?thesis using r(2,3) cov by auto
  qed
qed

end
