(* ===== verification/AssignmentHolds.thy ===== *)
theory AssignmentHolds
  imports AssignmentGaps
begin

text \<open>
  What holds a location where: an assigned register holds its location across the ranges that are not split around.
  The invariant of the assignment relates the marks of the points, the gaps and the spill sets of
  \<open>lib/CodeGen/Assignment.cpp\<close> to the ranges held, and evicting and placing a range keep it.
\<close>

section \<open>Inputs the analyses produce\<close>

definition ranges_apart :: "live_range list \<Rightarrow> bool" where
  "ranges_apart lrs \<longleftrightarrow> sorted_wrt (\<lambda>a b. lg_finish a < lg_start b \<or> lg_finish b < lg_start a) lrs"

text \<open>
  Ranges lie within the points and those of a register are disjoint; their blocks have spill sets; a physical register
  is the row of its encoding.
\<close>

definition allocation_wf :: "allocation_input \<Rightarrow> bool" where
  "allocation_wf inp \<longleftrightarrow> length (ai_ranges inp) = register_count inp \<and>
     list_all (\<lambda>lrs. ranges_apart lrs \<and> list_all (\<lambda>lr. 0 \<le> lg_start lr \<and> lg_start lr \<le> lg_finish lr \<and> lg_finish lr \<le> ai_points inp \<and>
        list_all (\<lambda>b. b < length (ai_spill inp)) (lg_blocks lr)) lrs) (ai_ranges inp) \<and>
     list_all (\<lambda>sp. bs_wf (fst sp)) (ai_spill inp) \<and>
     list_all (\<lambda>r. pr_encoding (ri_reg (tm_registers (mf_target (ai_function inp)) ! r)) = r) [0..<physical_count inp]"

type_synonym hold = "nat \<times> nat"

definition hold_range :: "allocation_input \<Rightarrow> hold \<Rightarrow> live_range" where
  "hold_range inp h = ranges_of inp (fst h) ! snd h"

definition holds :: "allocation_input \<Rightarrow> hold set" where
  "holds inp = {(r, n). r < register_count inp \<and> n < length (ranges_of inp r)}"

definition hold_location :: "allocation_input \<Rightarrow> location list \<Rightarrow> hold \<Rightarrow> location" where
  "hold_location inp locs h = (if fst h < physical_count inp then InRegister (ri_reg (tm_registers (mf_target (ai_function inp)) ! fst h)) else locs ! fst h)"

definition point_total :: "allocation_input \<Rightarrow> nat" where
  "point_total inp = nat (ai_points inp) + 1"

lemma hold_in_range: "h \<in> holds inp \<Longrightarrow> fst h < register_count inp \<and> hold_range inp h \<in> set (ranges_of inp (fst h))"
  by (auto simp: holds_def hold_range_def)

lemma hold_wf:
  assumes "allocation_wf inp" "h \<in> holds inp"
  shows "range_within (point_total inp) (hold_range inp h)" "b \<in> set (lg_blocks (hold_range inp h)) \<Longrightarrow> b < length (ai_spill inp)"
proof -
  have "ranges_of inp (fst h) \<in> set (ai_ranges inp)"
    using assms hold_in_range [OF assms(2)] by (auto simp: allocation_wf_def ranges_of_def)
  then have f: "0 \<le> lg_start (hold_range inp h)" "lg_start (hold_range inp h) \<le> lg_finish (hold_range inp h)"
    "lg_finish (hold_range inp h) \<le> ai_points inp" "\<forall>b\<in>set (lg_blocks (hold_range inp h)). b < length (ai_spill inp)"
    using assms hold_in_range [OF assms(2)] unfolding allocation_wf_def list_all_iff by blast+
  then show "range_within (point_total inp) (hold_range inp h)"
    "b \<in> set (lg_blocks (hold_range inp h)) \<Longrightarrow> b < length (ai_spill inp)"
    by (auto simp: range_within_def point_total_def)
qed

lemma hold_bounds:
  "allocation_wf inp \<Longrightarrow> h \<in> holds inp \<Longrightarrow> 0 \<le> lg_start (hold_range inp h) \<and> lg_start (hold_range inp h) \<le> lg_finish (hold_range inp h)"
  using hold_wf(1) by (auto simp: range_within_def)

lemma same_register_apart:
  assumes "allocation_wf inp" "h \<in> holds inp" "h' \<in> holds inp" "fst h = fst h'" "overlap (hold_range inp h) (hold_range inp h')"
  shows "h = h'"
proof (rule ccontr)
  let ?lrs = "ranges_of inp (fst h)"
  assume "h \<noteq> h'"
  then have ne: "snd h \<noteq> snd h'" using assms(4) by (simp add: prod_eq_iff)
  have l: "snd h < length ?lrs" "snd h' < length ?lrs" using assms(2-4) by (auto simp: holds_def)
  have "?lrs \<in> set (ai_ranges inp)"
    using assms(1) hold_in_range [OF assms(2)] by (auto simp: allocation_wf_def ranges_of_def)
  then have "sorted_wrt (\<lambda>a b. lg_finish a < lg_start b \<or> lg_finish b < lg_start a) ?lrs"
    using assms(1) by (simp add: allocation_wf_def ranges_apart_def list_all_iff)
  then have "lg_finish (?lrs ! snd h) < lg_start (?lrs ! snd h') \<or> lg_finish (?lrs ! snd h') < lg_start (?lrs ! snd h)"
    using l ne unfolding sorted_wrt_iff_nth_less by (meson nat_neq_iff)
  then show False using assms(4,5) by (auto simp: overlap_def covers_def hold_range_def)
qed

lemma same_start_overlap:
  "allocation_wf inp \<Longrightarrow> h \<in> holds inp \<Longrightarrow> h' \<in> holds inp \<Longrightarrow> lg_start (hold_range inp h) = lg_start (hold_range inp h') \<Longrightarrow>
   overlap (hold_range inp h) (hold_range inp h')"
  using hold_bounds [of inp h] hold_bounds [of inp h'] by (simp add: overlap_iff)

lemma overlap_sym: "overlap a b \<Longrightarrow> overlap b a"
  by (auto simp: overlap_def)

section \<open>The marks of the ranges held\<close>

definition held_at :: "allocation_input \<Rightarrow> hold set \<Rightarrow> nat \<Rightarrow> hold set" where
  "held_at inp H p = {h \<in> H. covers (hold_range inp h) p}"

definition marks_registers :: "allocation_input \<Rightarrow> point_locations list \<Rightarrow> location list \<Rightarrow> nat set \<Rightarrow> hold set \<Rightarrow> bool" where
  "marks_registers inp pts locs G H \<longleftrightarrow> points_ok (point_total inp) pts \<and>
     (\<forall>p<point_total inp. registers_at pts p = G \<union> (\<Union>h\<in>held_at inp H p. location_register (hold_location inp locs h)))"

definition marks_units :: "allocation_input \<Rightarrow> point_locations list \<Rightarrow> location list \<Rightarrow> hold set \<Rightarrow> bool" where
  "marks_units inp pts locs H \<longleftrightarrow>
     (\<forall>p<point_total inp. units_at pts p = (\<Union>h\<in>held_at inp H p. location_units (hold_location inp locs h)))"

lemma held_at_insert: "held_at inp (insert h H) p = (if covers (hold_range inp h) p then insert h (held_at inp H p) else held_at inp H p)"
  by (auto simp: held_at_def)

lemma marks_reserve:
  assumes wf: "allocation_wf inp" and h: "h \<in> holds inp" "hold_location inp locs h = loc" and m: "marks_registers inp pts locs G H"
  shows "marks_registers inp (reserve_points loc (hold_range inp h) True pts) locs G (insert h H)"
    "marks_units inp pts locs H \<Longrightarrow> marks_units inp (reserve_points loc (hold_range inp h) True pts) locs (insert h H)"
proof -
  have ok: "points_ok (point_total inp) pts" using m by (simp add: marks_registers_def)
  note spec = reserve_points_spec [OF ok hold_wf(1) [OF wf h(1)], where loc = loc and on = True]
  show "marks_registers inp (reserve_points loc (hold_range inp h) True pts) locs G (insert h H)"
    using spec m h(2) by (auto simp: marks_registers_def held_at_insert)
  show "marks_units inp pts locs H \<Longrightarrow> marks_units inp (reserve_points loc (hold_range inp h) True pts) locs (insert h H)"
    using spec h(2) by (auto simp: marks_units_def held_at_insert)
qed

lemma marks_release:
  assumes wf: "allocation_wf inp" and h: "h \<in> holds inp" "hold_location inp locs h = InRegister q"
    and alone: "pr_encoding q \<notin> G" "\<And>h'. h' \<in> H \<Longrightarrow> h' \<noteq> h \<Longrightarrow> overlap (hold_range inp h') (hold_range inp h) \<Longrightarrow> pr_encoding q \<notin> location_register (hold_location inp locs h')"
    and m: "marks_registers inp pts locs G H"
  shows "marks_registers inp (reserve_points (InRegister q) (hold_range inp h) False pts) locs G (H - {h})"
    "marks_units inp pts locs H \<Longrightarrow> marks_units inp (reserve_points (InRegister q) (hold_range inp h) False pts) locs (H - {h})"
proof -
  have ok: "points_ok (point_total inp) pts" using m by (simp add: marks_registers_def)
  note spec = reserve_points_spec [OF ok hold_wf(1) [OF wf h(1)], where loc = "InRegister q" and on = False]
  have at: "held_at inp (H - {h}) p = held_at inp H p - {h}" for p by (auto simp: held_at_def)
  show "marks_registers inp (reserve_points (InRegister q) (hold_range inp h) False pts) locs G (H - {h})"
    unfolding marks_registers_def
  proof (intro conjI allI impI)
    fix p assume p: "p < point_total inp"
    have r: "registers_at pts p = G \<union> (\<Union>h\<in>held_at inp H p. location_register (hold_location inp locs h))"
      using m p by (simp add: marks_registers_def)
    show "registers_at (reserve_points (InRegister q) (hold_range inp h) False pts) p =
        G \<union> (\<Union>h\<in>held_at inp (H - {h}) p. location_register (hold_location inp locs h))"
    proof (cases "covers (hold_range inp h) p")
      case True
      have "pr_encoding q \<notin> location_register (hold_location inp locs h')" if "h' \<in> held_at inp H p - {h}" for h'
        by (rule alone(2)) (use that True in \<open>auto simp: held_at_def overlap_def\<close>)
      then have "(\<Union>h\<in>held_at inp H p. location_register (hold_location inp locs h)) - {pr_encoding q} =
          (\<Union>h\<in>held_at inp H p - {h}. location_register (hold_location inp locs h))"
        using h(2) by (fastforce split: if_splits)
      then show ?thesis using spec(2) [OF p] r True alone(1) by (simp add: at Un_Diff)
    next
      case False
      then have "held_at inp H p - {h} = held_at inp H p" by (auto simp: held_at_def)
      then show ?thesis using spec(2) [OF p] r False by (simp add: at)
    qed
  qed (rule spec(1))
  show "marks_units inp pts locs H \<Longrightarrow> marks_units inp (reserve_points (InRegister q) (hold_range inp h) False pts) locs (H - {h})"
    using spec(3) h(2) by (auto simp: marks_units_def at)
qed

lemma hold_location_update: "fst h \<noteq> r \<Longrightarrow> hold_location inp (locs[r := l]) h = hold_location inp locs h"
  by (simp add: hold_location_def)

lemma marks_update:
  assumes "\<And>h. h \<in> H \<Longrightarrow> fst h \<noteq> r"
  shows "marks_registers inp pts (locs[r := l]) G H = marks_registers inp pts locs G H"
    "marks_units inp pts (locs[r := l]) H = marks_units inp pts locs H"
proof -
  have "\<And>h p. h \<in> held_at inp H p \<Longrightarrow> hold_location inp (locs[r := l]) h = hold_location inp locs h"
    using assms by (intro hold_location_update) (auto simp: held_at_def)
  then show "marks_registers inp pts (locs[r := l]) G H = marks_registers inp pts locs G H"
    "marks_units inp pts (locs[r := l]) H = marks_units inp pts locs H"
    by (simp_all add: marks_registers_def marks_units_def)
qed

lemma marks_skip:
  "location_register (hold_location inp locs h) = {} \<Longrightarrow> marks_registers inp pts locs G (insert h H) = marks_registers inp pts locs G H"
  by (simp add: marks_registers_def held_at_insert)

lemma marks_at:
  "marks_registers inp pts locs G H \<Longrightarrow> h \<in> H \<Longrightarrow> covers (hold_range inp h) p \<Longrightarrow> p < point_total inp \<Longrightarrow>
   location_register (hold_location inp locs h) \<subseteq> registers_at pts p"
  by (auto simp: marks_registers_def held_at_def)

section \<open>The invariant\<close>

definition clash :: "location \<Rightarrow> location \<Rightarrow> bool" where
  "clash a b \<longleftrightarrow> location_register a \<inter> location_register b \<noteq> {} \<or> location_units a \<inter> location_units b \<noteq> {}"

lemma clash_sym: "clash a b \<Longrightarrow> clash b a"
  by (auto simp: clash_def)

definition global_encodings :: "allocation_input \<Rightarrow> nat set" where
  "global_encodings inp = pr_encoding ` set (ai_globals inp)"

definition fixed_holds :: "allocation_input \<Rightarrow> hold set \<Rightarrow> hold set" where
  "fixed_holds inp H = {h \<in> H. fst h < physical_count inp \<or> lg_blocks (hold_range inp h) = []}"

definition gap_of :: "allocation_input \<Rightarrow> physical_register \<Rightarrow> hold \<Rightarrow> (nat \<times> int) \<times> gap" where
  "gap_of inp q h = ((pr_encoding q, lg_start (hold_range inp h)), \<lparr>gp_physical = q, gp_reg = fst h, gp_range = snd h\<rparr>)"

definition gap_marks :: "allocation_input \<Rightarrow> gap_map \<Rightarrow> location list \<Rightarrow> hold set \<Rightarrow> bool" where
  "gap_marks inp m locs H \<longleftrightarrow> gaps_sorted m \<and>
     set m = {e. \<exists>h\<in>H. \<exists>q. physical_count inp \<le> fst h \<and> lg_blocks (hold_range inp h) \<noteq> [] \<and>
       hold_location inp locs h = InRegister q \<and> e = gap_of inp q h}"

text \<open>A range is split when the register is spilled around in every block of the range.\<close>

definition is_split :: "allocation_input \<Rightarrow> (bitset \<times> bitset) list \<Rightarrow> hold \<Rightarrow> bool" where
  "is_split inp spill h \<longleftrightarrow> lg_blocks (hold_range inp h) \<noteq> [] \<and>
     list_all (\<lambda>b. fst h \<in> bs_elems (fst (spill ! b))) (lg_blocks (hold_range inp h))"

definition spill_wf :: "allocation_input \<Rightarrow> (bitset \<times> bitset) list \<Rightarrow> bool" where
  "spill_wf inp spill \<longleftrightarrow> length spill = length (ai_spill inp) \<and> (\<forall>b<length spill. bs_wf (fst (spill ! b)))"

definition spill_grows :: "(bitset \<times> bitset) list \<Rightarrow> (bitset \<times> bitset) list \<Rightarrow> bool" where
  "spill_grows sp sp' \<longleftrightarrow> length sp' = length sp \<and> (\<forall>b<length sp. bs_elems (fst (sp ! b)) \<subseteq> bs_elems (fst (sp' ! b)))"

definition held_apart :: "allocation_input \<Rightarrow> location list \<Rightarrow> hold set \<Rightarrow> bool" where
  "held_apart inp locs H \<longleftrightarrow> (\<forall>h\<in>H. \<forall>h'\<in>H. fst h \<noteq> fst h' \<and> overlap (hold_range inp h) (hold_range inp h') \<longrightarrow>
     \<not> clash (hold_location inp locs h) (hold_location inp locs h'))"

definition alloc_inv :: "allocation_input \<Rightarrow> alloc_state \<Rightarrow> hold set \<Rightarrow> bool" where
  "alloc_inv inp s H \<longleftrightarrow> H \<subseteq> holds inp \<and> length (as_locations s) = register_count inp \<and> spill_wf inp (as_spill s) \<and>
     marks_registers inp (as_used s) (as_locations s) (global_encodings inp) H \<and> marks_units inp (as_used s) (as_locations s) H \<and>
     (advanced inp \<longrightarrow> marks_registers inp (as_busy s) (as_locations s) (global_encodings inp) (fixed_holds inp H) \<and>
        gap_marks inp (as_gaps s) (as_locations s) H) \<and>
     held_apart inp (as_locations s) H \<and>
     (\<forall>h\<in>H. physical_count inp \<le> fst h \<longrightarrow> location_register (hold_location inp (as_locations s) h) \<inter> global_encodings inp = {})"

lemma alloc_invD:
  assumes "alloc_inv inp s H"
  shows "H \<subseteq> holds inp" "length (as_locations s) = register_count inp" "spill_wf inp (as_spill s)"
    "marks_registers inp (as_used s) (as_locations s) (global_encodings inp) H" "marks_units inp (as_used s) (as_locations s) H"
    "advanced inp \<Longrightarrow> marks_registers inp (as_busy s) (as_locations s) (global_encodings inp) (fixed_holds inp H)"
    "advanced inp \<Longrightarrow> gap_marks inp (as_gaps s) (as_locations s) H"
    "held_apart inp (as_locations s) H"
    "h \<in> H \<Longrightarrow> physical_count inp \<le> fst h \<Longrightarrow> location_register (hold_location inp (as_locations s) h) \<inter> global_encodings inp = {}"
  using assms unfolding alloc_inv_def by blast+

lemma spill_growsD: "spill_grows sp sp' \<Longrightarrow> is_split inp sp h \<Longrightarrow> \<forall>b\<in>set (lg_blocks (hold_range inp h)). b < length sp \<Longrightarrow> is_split inp sp' h"
  by (fastforce simp: is_split_def spill_grows_def list_all_iff)

lemma spill_grows_trans [trans]: "spill_grows a b \<Longrightarrow> spill_grows b c \<Longrightarrow> spill_grows a c"
  by (fastforce simp: spill_grows_def)

end
