(* ===== verification/RangeResult.thy ===== *)
theory RangeResult
  imports RangeMerge MachineLive AssignmentHolds
begin

text \<open>
  What the live ranges of a machine function promise (\<open>lib/CodeGen/LiveRanges.cpp\<close>): they are what the assignment of
  locations expects, and registers that are live together have ranges that overlap.
\<close>

section \<open>Spill sets\<close>

lemma spill_kept [simp]:
  "rg_spill (range_dead env i rk s) = rg_spill s" "rg_spill (fst (range_born env i rk s)) = rg_spill s"
  "rg_spill (dead_all env rks s) = rg_spill s"
proof -
  show D: "rg_spill (range_dead env i rk s) = rg_spill s" for rk s i by (cases rk) (simp add: range_dead_def Let_def)
  show "rg_spill (fst (range_born env i rk s)) = rg_spill s" by (cases rk) (simp add: range_born_def Let_def)
  show "rg_spill (dead_all env rks s) = rg_spill s" by (induction rks arbitrary: s) (simp_all add: dead_all_def D)
qed

lemma spill_born [simp]: "rg_spill (fst (born_all env rks sb)) = rg_spill (fst sb)"
proof (induction rks arbitrary: sb)
  case (Cons rk rks)
  obtain s b where sb: "sb = (s, b)" by fastforce
  obtain t c where t: "range_born env True rk s = (t, c)" by fastforce
  have "rg_spill (fst (born_step env rk sb)) = rg_spill (fst sb)"
    using spill_kept(2) [of env True rk s] by (simp add: born_step_def sb t)
  then show ?case using Cons.IH [of "born_step env rk sb"] by (simp add: born_all_def)
qed (simp add: born_all_def)

lemma spill_early [simp]: "rg_spill (fst (fold (early_step env) rks sb)) = rg_spill (fst sb)"
proof (induction rks arbitrary: sb)
  case (Cons rk rks)
  have "rg_spill (fst (early_step env rk sb)) = rg_spill (fst sb)" by (cases sb) (simp add: early_step_def)
  then show ?case using Cons.IH [of "early_step env rk sb"] by simp
qed simp

lemma spill_advance: "advance_point env b s = Inr s' \<Longrightarrow> rg_spill s' = rg_spill s"
  by (auto simp: advance_point_def split: if_splits)

lemma spill_call [simp]: "rg_spill (fst (scan_call env i s)) = rg_spill s"
proof -
  obtain s1 b1 where b1: "born_all env (scanned_list env (map PhysicalReg (rn_globals env))) (dead_all env (scanned_list env (target_clobbers (rn_function env))) s, False) = (s1, b1)"
    by fastforce
  obtain s2 b2 where b2: "born_all env (scanned_list env (map PhysicalReg (mi_arguments i))) (s1, False) = (s2, b2)" by fastforce
  have "rg_spill s1 = rg_spill s" "rg_spill s2 = rg_spill s1"
    using arg_cong [OF b1, of "\<lambda>x. rg_spill (fst x)"] arg_cong [OF b2, of "\<lambda>x. rg_spill (fst x)"] by simp_all
  then show ?thesis by (simp add: scan_call_def Let_def b1 b2)
qed

lemma spill_reads: "scan_reads env i sb = Inr s' \<Longrightarrow> rg_spill s' = rg_spill (fst sb)"
proof -
  assume r: "scan_reads env i sb = Inr s'"
  obtain s b where sb: "sb = (s, b)" by fastforce
  obtain t where t: "advance_point env b s = Inr t" using r by (auto simp: scan_reads_def sb rbind_eq_Inr)
  obtain u c where u: "born_all env (scanned_list env (visit_registers i False)) (t, False) = (u, c)" by fastforce
  let ?E = "fold (early_step env) (scanned_list env (map PhysicalReg (early_clobbers (mf_target (rn_function env)) (mi_opcode i)))) (u, c)"
  obtain v d where v: "(if rn_compact env then (u, c) else ?E) = (v, d)" by fastforce
  have "advance_point env d v = Inr s'" using r v by (cases "rn_compact env") (simp_all add: scan_reads_def sb t u)
  moreover have "rg_spill v = rg_spill u" using v spill_early [of env _ "(u, c)"] by (auto split: if_splits dest!: arg_cong [of _ "(v, d)" fst])
  moreover have "rg_spill u = rg_spill t" using arg_cong [OF u, of "\<lambda>x. rg_spill (fst x)"] by simp
  ultimately show ?thesis using spill_advance [OF t] spill_advance sb by auto
qed

lemma spill_instruction: "scan_instruction env i s = Inr s' \<Longrightarrow> rg_spill s' = rg_spill s"
proof -
  assume i: "scan_instruction env i s = Inr s'"
  define s1 where "s1 = dead_all env (scanned_list env (visit_registers i True)) s"
  obtain s2 b where m: "(if scans_call env i then rbind (advance_point env (scanned_list env (visit_registers i True) \<noteq> []) s1) (\<lambda>s. Inr (scan_call env i s))
      else Inr (s1, scanned_list env (visit_registers i True) \<noteq> [])) = Inr (s2, b)" and r: "scan_reads env i (s2, b) = Inr s'"
    using i unfolding scan_instruction_def Let_def s1_def [symmetric] scans_call_def [symmetric] by (auto simp: rbind_eq_Inr)
  have "rg_spill s2 = rg_spill s1"
  proof (cases "scans_call env i")
    case True
    then obtain t where t: "advance_point env (scanned_list env (visit_registers i True) \<noteq> []) s1 = Inr t" "scan_call env i t = (s2, b)"
      using m by (auto simp: rbind_eq_Inr)
    then show ?thesis using spill_advance [OF t(1)] spill_call [of env i t] by simp
  next
    case False
    then show ?thesis using m by simp
  qed
  then show ?thesis using spill_reads [OF r] by (simp add: s1_def)
qed

lemma spill_body: "scan_body env is s = Inr s' \<Longrightarrow> rg_spill s' = rg_spill s"
  by (induction "is" arbitrary: s) (auto simp: rbind_eq_Inr dest!: spill_instruction)

lemma spill_start [simp]: "rg_spill (start_block env out s) = rg_spill s"
proof -
  have "rg_spill (fold (\<lambda>k s. fst (range_born env False (rn_full env ! k, k) s)) ks s) = rg_spill s" for ks s
    by (induction ks arbitrary: s) simp_all
  then show ?thesis by (simp add: start_block_def)
qed

lemma spill_finish [simp]: "rg_spill (fold (finish_range env b) ks s) = rg_spill s"
proof (induction ks arbitrary: s)
  case (Cons k ks)
  have "rg_spill (finish_range env b k s) = rg_spill s" by (simp add: finish_range_def Let_def)
  then show ?case using Cons.IH [of "finish_range env b k s"] by simp
qed simp

definition spill_ok :: "nat \<Rightarrow> range_state \<Rightarrow> bool" where
  "spill_ok n s \<longleftrightarrow> length (rg_spill s) = n \<and> list_all (\<lambda>sp. bs_wf (fst sp)) (rg_spill s)"

lemma spill_blocks:
  "scan_blocks env blocks bs s = Inr s' \<Longrightarrow> spill_ok n s \<Longrightarrow> spill_ok n s'"
proof (induction bs arbitrary: s)
  case (Cons b bs)
  obtain t where t: "scan_block env blocks b s = Inr t" "scan_blocks env blocks bs t = Inr s'" using Cons.prems(1) by (auto simp: rbind_eq_Inr)
  have upd: "spill_ok n (block_spill env b u)" if "spill_ok n u" for u
    using that by (auto simp: spill_ok_def block_spill_def list_all_iff bits.invars dest!: set_update_subset_insert [THEN subsetD])
  have keep: "spill_ok n u \<longleftrightarrow> spill_ok n v" if "rg_spill u = rg_spill v" for u v using that by (simp add: spill_ok_def)
  have "spill_ok n t"
  proof (cases "skipped_block (rn_function env) b")
    case True
    then show ?thesis using t(1) Cons.prems(2) by (simp add: scan_block_def)
  next
    case False
    then obtain u where u: "scan_body env (rev (node_body (rn_function env) b)) (start_block env (bl_out (blocks ! b)) s) = Inr u"
      "advance_point env (bl_in (blocks ! b) \<noteq> []) (block_spill env b (fold (finish_range env b) (bs_for_each (bl_in (blocks ! b))) u)) = Inr t"
      using t(1) by (auto simp: scan_block_def rbind_eq_Inr split: if_splits)
    have "spill_ok n u" using Cons.prems(2) keep [OF spill_body [OF u(1)]] by (simp add: spill_ok_def)
    then have "spill_ok n (fold (finish_range env b) (bs_for_each (bl_in (blocks ! b))) u)" by (simp add: spill_ok_def)
    then show ?thesis using keep [OF spill_advance [OF u(2)]] upd by blast
  qed
  then show ?case using Cons.IH t(2) by blast
qed simp

section \<open>The registers of a function\<close>

text \<open>What the verification of a function checks: its registers, and those its instructions name, are its own.\<close>

definition instruction_registers :: "machine_function \<Rightarrow> machine_instruction \<Rightarrow> machine_register set" where
  "instruction_registers f i = set (visit_registers i True) \<union> set (visit_registers i False) \<union>
     PhysicalReg ` (set (mi_arguments i) \<union> set (early_clobbers (mf_target f) (mi_opcode i)))"

definition function_owned :: "machine_function \<Rightarrow> bool" where
  "function_owned f \<longleftrightarrow>
     list_all (\<lambda>r. ri_reg (tm_registers (mf_target f) ! r) = \<lparr>pr_architecture = tm_architecture (mf_target f), pr_encoding = r\<rparr>)
       [0..<length (tm_registers (mf_target f))] \<and>
     map vr_id (mf_registers f) = [0..<length (mf_registers f)] \<and>
     list_all (\<lambda>mb. list_all (\<lambda>i. \<forall>r\<in>instruction_registers f i. own_register f r) (mb_instructions mb)) (mf_blocks f)"

definition register_number :: "machine_function \<Rightarrow> machine_register \<Rightarrow> nat" where
  "register_number f reg = (case reg of PhysicalReg p \<Rightarrow> pr_encoding p | VirtualReg v \<Rightarrow> length (tm_registers (mf_target f)) + vr_id v)"

lemma own_physical:
  assumes "function_owned f" "own_register f (PhysicalReg p)"
  shows "pr_encoding p < length (tm_registers (mf_target f))" "ri_reg (tm_registers (mf_target f) ! pr_encoding p) = p"
proof -
  have p: "pr_architecture p = tm_architecture (mf_target f)" "pr_encoding p < length (tm_registers (mf_target f))"
    using assms(2) by (auto simp: own_register_def register_info_def split: if_splits)
  then show "pr_encoding p < length (tm_registers (mf_target f))" by simp
  show "ri_reg (tm_registers (mf_target f) ! pr_encoding p) = p"
    using assms(1) p by (auto simp: function_owned_def list_all_iff)
qed

lemma own_virtual: "own_register f (VirtualReg v) \<Longrightarrow> vr_id v < length (mf_registers f) \<and> mf_registers f ! vr_id v = v"
  by (simp add: own_register_def)

lemma same_own:
  assumes "function_owned f" "own_register f a" "own_register f b"
  shows "same_register a b \<longleftrightarrow> a = b"
proof (cases a)
  case (VirtualReg v)
  then show ?thesis using assms own_virtual by (cases b) (auto dest: own_virtual)
next
  case (PhysicalReg p)
  then show ?thesis using assms own_physical(2) [OF assms(1)] by (cases b) (auto, metis)
qed

lemma register_position_Some:
  assumes own: "function_owned f" "\<forall>r\<in>set rs. own_register f r" "distinct rs" "own_register f reg"
  shows "register_position rs reg = Some k \<longleftrightarrow> k < length rs \<and> rs ! k = reg"
proof -
  have same: "same_register (rs ! j) reg \<longleftrightarrow> rs ! j = reg" if "j < length rs" for j using same_own [OF own(1) _ own(4)] own(2) that by simp
  show ?thesis
  proof
    assume "register_position rs reg = Some k"
    then have "k < length rs" "same_register (rs ! k) reg" by (auto simp: register_position_def find_Some_iff)
    then show "k < length rs \<and> rs ! k = reg" using same by blast
  next
    assume k: "k < length rs \<and> rs ! k = reg"
    have "\<not> same_register (rs ! j) reg" if "j < k" for j
      using that k same [of j] own(3) nth_eq_iff_index_eq [of rs j k] by auto
    then show "register_position rs reg = Some k"
      using k same unfolding register_position_def by (auto simp: find_Some_iff intro!: exI [of _ k])
  qed
qed

lemma all_registers_own:
  assumes "function_owned f"
  shows "\<forall>r\<in>set (all_registers f). own_register f r" "distinct (all_registers f)"
    "k < length (all_registers f) \<Longrightarrow> register_number f (all_registers f ! k) = k"
proof -
  let ?n = "length (tm_registers (mf_target f))"
  have t: "ri_reg (tm_registers (mf_target f) ! r) = \<lparr>pr_architecture = tm_architecture (mf_target f), pr_encoding = r\<rparr>" if "r < ?n" for r
    using assms that by (auto simp: function_owned_def list_all_iff)
  have ids: "map vr_id (mf_registers f) = [0..<length (mf_registers f)]" using assms by (simp add: function_owned_def)
  have v: "vr_id (mf_registers f ! k) = k" if "k < length (mf_registers f)" for k
    using arg_cong [OF ids, of "\<lambda>xs. xs ! k"] that by simp
  have n: "register_number f (all_registers f ! k) = k" if "k < length (all_registers f)" for k
    using that t v by (simp add: all_registers_def register_number_def nth_append)
  then show "k < length (all_registers f) \<Longrightarrow> register_number f (all_registers f ! k) = k" .
  show "distinct (all_registers f)" unfolding distinct_conv_nth using n by metis
  have "own_register f (all_registers f ! k)" if "k < length (all_registers f)" for k
    using that t [of k] v [of "k - ?n"] by (auto simp: all_registers_def own_register_def register_info_def nth_append)
  then show "\<forall>r\<in>set (all_registers f). own_register f r" by (metis in_set_conv_nth)
qed

lemma own_number:
  assumes "function_owned f" "own_register f reg"
  shows "register_number f reg < length (all_registers f)" "all_registers f ! register_number f reg = reg"
    "index_find f reg = Some (register_number f reg)"
proof -
  have "register_number f reg < length (all_registers f) \<and> all_registers f ! register_number f reg = reg"
    using assms own_physical [OF assms(1)] own_virtual by (cases reg) (fastforce simp: all_registers_def register_number_def nth_append)+
  then show r: "register_number f reg < length (all_registers f)" "all_registers f ! register_number f reg = reg" by simp_all
  have "register_position (all_registers f) reg = Some (register_number f reg)"
    using register_position_Some [OF assms(1) all_registers_own(1,2) [OF assms(1)] assms(2)] r by simp
  then show "index_find f reg = Some (register_number f reg)" using r(2) by (cases reg) (simp_all add: index_find_def)
qed

lemma own_number_inj: "function_owned f \<Longrightarrow> own_register f a \<Longrightarrow> own_register f b \<Longrightarrow> register_number f a = register_number f b \<longleftrightarrow> a = b"
  using own_number(2) by metis

lemma add_registers_own:
  "add_registers f rs seen = Inr xs \<Longrightarrow> (\<forall>r\<in>set seen. own_register f r) \<Longrightarrow> distinct seen \<Longrightarrow>
   (\<forall>r\<in>set xs. own_register f r) \<and> distinct xs"
proof (induction f rs seen rule: add_registers.induct)
  case (2 f r rs seen)
  have "same_register r r" by (cases r) simp_all
  moreover have "register_position seen r = None" using "2.prems"(1) by (auto split: if_splits)
  ultimately have "r \<notin> set seen" by (auto simp: register_position_def find_None_iff in_set_conv_nth)
  then show ?case using 2 by (auto split: if_splits)
qed simp

section \<open>The positions of the scan\<close>

lemma scan_positions_spec:
  assumes full: "distinct full" "set full \<subseteq> {..<n}"
  shows "length (scan_positions n full) = n" "r < n \<Longrightarrow> scan_positions n full ! r = Some k \<longleftrightarrow> k < length full \<and> full ! k = r"
proof -
  have "m \<le> length full \<Longrightarrow> length (fold (\<lambda>k scans. scans[full ! k := Some k]) [0..<m] (replicate n None)) = n \<and>
      (\<forall>r<n. \<forall>k. fold (\<lambda>k scans. scans[full ! k := Some k]) [0..<m] (replicate n None) ! r = Some k \<longleftrightarrow> k < m \<and> full ! k = r)" for m
  proof (induction m)
    case (Suc m)
    have ne: "full ! k \<noteq> full ! m" if "k < m" for k using full(1) that Suc.prems nth_eq_iff_index_eq [of full k m] by simp
    let ?F = "fold (\<lambda>k scans. scans[full ! k := Some k]) [0..<m] (replicate n None)"
    have IH: "length ?F = n" "\<And>r k. r < n \<Longrightarrow> ?F ! r = Some k \<longleftrightarrow> k < m \<and> full ! k = r" using Suc by auto
    have "?F[full ! m := Some m] ! r = Some k \<longleftrightarrow> k < Suc m \<and> full ! k = r" if r: "r < n" for r k
    proof (cases "full ! m = r")
      case True
      then show ?thesis using ne IH(1) r by (auto simp: less_Suc_eq)
    next
      case False
      then show ?thesis using IH(2) [OF r] by (auto simp: less_Suc_eq)
    qed
    then show ?case using IH(1) by simp
  qed simp
  from this [OF order_refl] show "length (scan_positions n full) = n" "r < n \<Longrightarrow> scan_positions n full ! r = Some k \<longleftrightarrow> k < length full \<and> full ! k = r"
    by (simp_all add: scan_positions_def)
qed

text \<open>The watched registers are registers of the function, each of them once.\<close>

definition watched_ok :: "machine_function \<Rightarrow> machine_liveness \<Rightarrow> bool" where
  "watched_ok f lv \<longleftrightarrow> function_owned f \<and> (\<forall>r\<in>set (mv_registers lv). own_register f r) \<and> distinct (mv_registers lv)"

lemma range_environment_simps [simp]:
  "rn_function (range_environment f lv) = f" "rn_compact (range_environment f lv) = mv_compact lv" "rn_globals (range_environment f lv) = mv_globals lv"
  "length (rn_full (range_environment f lv)) = length (mv_registers lv)"
  by (simp_all add: range_environment_def Let_def)

lemma full_number:
  assumes "watched_ok f lv" "k < length (mv_registers lv)"
  shows "rn_full (range_environment f lv) ! k = register_number f (mv_registers lv ! k)"
  using assms own_number(3) by (simp add: range_environment_def Let_def watched_ok_def)

lemma range_environment_ok:
  assumes w: "watched_ok f lv"
  shows "env_ok (range_environment f lv)"
proof -
  let ?full = "rn_full (range_environment f lv)" and ?n = "length (all_registers f)"
  have inj: "distinct ?full"
    unfolding distinct_conv_nth using full_number [OF w] own_number_inj w by (auto simp: watched_ok_def nth_eq_iff_index_eq)
  have sub: "set ?full \<subseteq> {..<?n}"
  proof
    fix r
    assume "r \<in> set ?full"
    then obtain k where k: "k < length (mv_registers lv)" "r = register_number f (mv_registers lv ! k)"
      using full_number [OF w] by (auto simp: in_set_conv_nth)
    then have "own_register f (mv_registers lv ! k)" using w nth_mem by (auto simp: watched_ok_def)
    then show "r \<in> {..<?n}" using own_number(1) w k(2) by (auto simp: watched_ok_def)
  qed
  have "rn_scans (range_environment f lv) = scan_positions ?n ?full" by (simp add: range_environment_def Let_def)
  then show ?thesis using inj sub scan_positions_spec(2) [OF inj sub] by (simp add: env_ok_def)
qed

lemma scanned_position:
  assumes w: "watched_ok f lv" and own: "own_register f reg"
  shows "k \<in> snd ` set (scanned (range_environment f lv) reg) \<longleftrightarrow> register_position (mv_registers lv) reg = Some k"
proof -
  let ?env = "range_environment f lv"
  have f: "function_owned f" and regs: "\<forall>r\<in>set (mv_registers lv). own_register f r" "distinct (mv_registers lv)"
    using w by (simp_all add: watched_ok_def)
  have "k \<in> snd ` set (scanned ?env reg) \<longleftrightarrow> rn_scans ?env ! register_number f reg = Some k"
    using own_number(3) [OF f own] by (cases "rn_scans ?env ! register_number f reg") (auto simp: scanned_def)
  also have "\<dots> \<longleftrightarrow> k < length (rn_full ?env) \<and> rn_full ?env ! k = register_number f reg"
    using range_environment_ok [OF w] own_number(1) [OF f own] by (simp add: env_ok_def)
  also have "\<dots> \<longleftrightarrow> k < length (mv_registers lv) \<and> mv_registers lv ! k = reg"
    using full_number [OF w] own_number_inj [OF f _ own] regs(1) by (auto simp: nth_mem)
  also have "\<dots> \<longleftrightarrow> register_position (mv_registers lv) reg = Some k" using register_position_Some [OF f regs own] by simp
  finally show ?thesis .
qed

lemma scanned_positions_eq:
  assumes w: "watched_ok f lv" and own: "\<forall>r\<in>set regs. own_register f r" and se: "se_registers se = mv_registers lv"
  shows "snd ` set (scanned_list (range_environment f lv) regs) = positions se regs"
proof -
  have "k \<in> snd ` set (scanned_list (range_environment f lv) regs) \<longleftrightarrow> (\<exists>r\<in>set regs. k \<in> snd ` set (scanned (range_environment f lv) r))" for k
    by (auto simp: scanned_list_def)
  also have "\<dots> k \<longleftrightarrow> k \<in> positions se regs" for k using scanned_position [OF w] own by (auto simp: positions_def se)
  finally show ?thesis by blast
qed

section \<open>The scan of the ranges follows the liveness\<close>

definition analysed :: "machine_function \<Rightarrow> liveness_options \<Rightarrow> machine_liveness \<Rightarrow> bool" where
  "analysed f opts lv \<longleftrightarrow> function_owned f \<and> (\<exists>g is_current. analyze_liveness f g is_current opts = Some (Inr lv))"

lemma analysedD:
  assumes "analysed f opts lv"
  shows "watched_ok f lv" "mv_compact lv = se_compact (scan_environment f opts (mv_registers lv))"
    "mv_globals lv = concat (map (\<lambda>k. global_register (mv_registers lv ! k)) (bs_for_each (se_globals (scan_environment f opts (mv_registers lv)))))"
    "mv_level lv = op_level opts"
proof -
  obtain g c where a: "analyze_liveness f g c opts = Some (Inr lv)" and f: "function_owned f" using assms by (auto simp: analysed_def)
  let ?scan = "if op_scan opts = [] then all_registers f else op_scan opts"
  obtain rs where rs: "add_registers f ?scan [] = Inr rs" using a by (cases "add_registers f ?scan []") (auto simp: analyze_liveness_def split: if_splits)
  then obtain blocks refs where lv: "lv = finish_liveness (scan_environment f opts rs) opts blocks refs"
    using a by (auto simp: analyze_liveness_def Let_def split: if_splits)
  then have regs: "mv_registers lv = rs" by (simp add: finish_liveness_blocks)
  then show "watched_ok f lv" using add_registers_own [OF rs] f by (simp add: watched_ok_def)
  show "mv_compact lv = se_compact (scan_environment f opts (mv_registers lv))"
    "mv_globals lv = concat (map (\<lambda>k. global_register (mv_registers lv ! k)) (bs_for_each (se_globals (scan_environment f opts (mv_registers lv)))))"
    "mv_level lv = op_level opts"
    unfolding regs unfolding lv by (simp_all add: finish_liveness_def Let_def)
qed

lemma global_bits_elems:
  "bs_wf bits \<Longrightarrow> bs_elems (global_bits rs qs bits) = bs_elems bits \<union> {k. \<exists>q\<in>set qs. register_position rs (PhysicalReg q) = Some k}"
proof (induction qs arbitrary: bits)
  case (Cons q qs)
  show ?case
  proof (cases "register_position rs (PhysicalReg q)")
    case None
    then show ?thesis using Cons by (simp add: global_bits_def)
  next
    case (Some k)
    then show ?thesis using Cons.IH [of "bs_insert k bits"] Cons.prems by (auto simp: global_bits_def bits_simps)
  qed
qed (simp add: global_bits_def)

lemma globals_positions:
  assumes a: "analysed f opts lv"
  shows "positions (scan_environment f opts (mv_registers lv)) (map PhysicalReg (mv_globals lv)) = bs_elems (se_globals (scan_environment f opts (mv_registers lv)))"
proof -
  let ?se = "scan_environment f opts (mv_registers lv)" and ?rs = "mv_registers lv"
  have w: "function_owned f" "\<forall>r\<in>set ?rs. own_register f r" "distinct ?rs" using analysedD(1) [OF a] by (simp_all add: watched_ok_def)
  have e: "bs_wf []" "bs_elems [] = {}" by (simp_all add: bits.element_laws bits.invars)
  have wf: "bs_wf (se_globals ?se)" using scan_environment_wf [of f opts ?rs] by (simp add: env_wf_def)
  have phys: "\<exists>q. ?rs ! k = PhysicalReg q" "k < length ?rs" if k: "k \<in> bs_elems (se_globals ?se)" for k
  proof -
    obtain q where "register_position ?rs (PhysicalReg q) = Some k"
      using k e global_bits_elems [OF e(1)] by (auto simp: scan_environment_def Let_def split: if_splits)
    then have "k < length ?rs" "same_register (?rs ! k) (PhysicalReg q)" by (auto simp: register_position_def find_Some_iff)
    then show "\<exists>q. ?rs ! k = PhysicalReg q" "k < length ?rs" by (cases "?rs ! k"; simp)+
  qed
  have gl: "set (mv_globals lv) = {q. \<exists>k\<in>bs_elems (se_globals ?se). ?rs ! k = PhysicalReg q}"
    using analysedD(3) [OF a] set_bs_for_each [OF wf] by (auto simp: global_register_def split: machine_register.splits)
  have pos: "register_position ?rs (PhysicalReg q) = Some k \<longleftrightarrow> ?rs ! k = PhysicalReg q" if "k < length ?rs" "own_register f (PhysicalReg q)" for q k
    using register_position_Some [OF w that(2)] that(1) by simp
  show ?thesis
  proof (intro equalityI subsetI)
    fix k
    assume "k \<in> positions ?se (map PhysicalReg (mv_globals lv))"
    then obtain q j where q: "register_position ?rs (PhysicalReg q) = Some k" "j \<in> bs_elems (se_globals ?se)" "?rs ! j = PhysicalReg q"
      by (auto simp: positions_def gl)
    have own: "own_register f (PhysicalReg q)" using w(2) phys(2) [OF q(2)] q(3) nth_mem by metis
    then have "k < length ?rs" "?rs ! k = PhysicalReg q" using register_position_Some [OF w own, of k] q(1) by simp_all
    then have "k = j" using w(3) phys(2) [OF q(2)] q(3) nth_eq_iff_index_eq by metis
    then show "k \<in> bs_elems (se_globals ?se)" using q(2) by simp
  next
    fix k
    assume k: "k \<in> bs_elems (se_globals ?se)"
    then obtain q where q: "?rs ! k = PhysicalReg q" using phys(1) by blast
    then have "own_register f (PhysicalReg q)" using w(2) phys(2) [OF k] nth_mem by metis
    then have "register_position ?rs (PhysicalReg q) = Some k" using pos phys(2) [OF k] q by simp
    moreover have "q \<in> set (mv_globals lv)" using gl k q by blast
    ultimately show "k \<in> positions ?se (map PhysicalReg (mv_globals lv))" by (auto simp: positions_def)
  qed
qed

lemma scan_sets:
  assumes a: "analysed f opts lv" and own: "\<forall>r\<in>instruction_registers f i. own_register f r"
  defines "se \<equiv> scan_environment f opts (mv_registers lv)" and "en \<equiv> range_environment f lv"
  shows "scan_defs en i = defined_registers se i" "scan_uses en i = used_registers se i" "scans_call en i = crosses_call se i"
    "scan_clobbers en i = (if crosses_call se i then bs_elems (se_clobbered se) else {})"
    "scan_inputs en i = (if crosses_call se i then bs_elems (se_globals se) else {}) \<union> argument_registers se i"
    "scan_early en i = clobbered_early se i"
proof -
  have w: "watched_ok f lv" and f: "function_owned f" using analysedD(1) [OF a] by (simp_all add: watched_ok_def)
  have se: "se_registers se = mv_registers lv" "se_function se = f" and compact: "mv_compact lv = se_compact se"
    using analysedD(2) [OF a] by (simp_all add: se_def)
  note eq = scanned_positions_eq [OF w _ se(1), folded en_def]
  have en: "rn_function en = f" "rn_compact en = mv_compact lv" "rn_globals en = mv_globals lv" by (simp_all add: en_def)
  have regs: "snd ` set (scanned_list en rs) = positions se rs" if "set rs \<subseteq> instruction_registers f i" for rs
    by (rule eq) (use own that in auto)
  have visited: "set (visit_registers i True) \<subseteq> instruction_registers f i" "set (visit_registers i False) \<subseteq> instruction_registers f i"
    "set (map PhysicalReg (early_clobbers (mf_target f) (mi_opcode i))) \<subseteq> instruction_registers f i"
    by (auto simp: instruction_registers_def)
  show "scan_defs en i = defined_registers se i" "scan_uses en i = used_registers se i"
    by (simp_all add: scan_defs_def defined_registers_def scan_uses_def used_registers_def regs visited)
  show "scan_early en i = clobbered_early se i"
    using regs [OF visited(3)] by (simp add: scan_early_def clobbered_early_def en se(2) compact del: set_map)
  show call: "scans_call en i = crosses_call se i" by (auto simp: scans_call_def crosses_call_def compact en)
  have targets: "\<forall>r\<in>set (target_clobbers f). own_register f r"
    using all_registers_own(1) [OF f] by (auto simp: target_clobbers_def all_registers_def)
  have e: "bs_wf []" "bs_elems [] = {}" by (simp_all add: bits.element_laws bits.invars)
  have "bs_elems (se_clobbered se) = positions se (target_clobbers f)" if "\<not> se_compact se"
    using that global_bits_elems [OF e(1)] e(2)
    by (simp add: se_def scan_environment_def Let_def positions_def target_clobbers_def)
  then show "scan_clobbers en i = (if crosses_call se i then bs_elems (se_clobbered se) else {})"
    using eq [OF targets] call by (simp add: scan_clobbers_def crosses_call_def en)
  have "\<forall>r\<in>set (map PhysicalReg (mv_globals lv)). own_register f r"
  proof
    fix r
    assume "r \<in> set (map PhysicalReg (mv_globals lv))"
    then obtain k where k: "k \<in> set (bs_for_each (se_globals se))" "mv_registers lv ! k = r"
      using analysedD(3) [OF a] by (auto simp: global_register_def se_def split: machine_register.splits)
    have wf: "bs_wf (se_globals se)" using scan_environment_wf by (simp add: env_wf_def se_def)
    have "k \<in> positions se (map PhysicalReg (mv_globals lv))" using k(1) globals_positions [OF a] set_bs_for_each [OF wf] by (simp add: se_def)
    then have "k < length (mv_registers lv)" by (auto simp: positions_def se(1) register_position_def find_Some_iff)
    then show "own_register f r" using w k(2) nth_mem by (auto simp: watched_ok_def)
  qed
  then have "snd ` set (scanned_list en (map PhysicalReg (mv_globals lv))) = bs_elems (se_globals se)"
    using eq globals_positions [OF a] by (simp add: se_def)
  moreover have "snd ` set (scanned_list en (map PhysicalReg (mi_arguments i))) = positions se (map PhysicalReg (mi_arguments i))"
    by (rule eq) (use own in \<open>auto simp: instruction_registers_def\<close>)
  ultimately show "scan_inputs en i = (if crosses_call se i then bs_elems (se_globals se) else {}) \<union> argument_registers se i"
    using call by (simp add: scan_inputs_def argument_registers_def en)
qed

lemma call_clobbers_none: "is_call c \<Longrightarrow> early_clobbers m c = []"
  by (auto simp: is_call_def early_clobbers_def)

lemma scan_live_superset:
  assumes a: "analysed f opts lv" and own: "\<forall>r\<in>instruction_registers f i. own_register f r" and X: "X \<subseteq> L"
  shows "live_before_instruction (scan_environment f opts (mv_registers lv)) i X \<subseteq> scan_live (range_environment f lv) i L"
proof (cases "crosses_call (scan_environment f opts (mv_registers lv)) i")
  case True
  then have "clobbered_early (scan_environment f opts (mv_registers lv)) i = {}"
    by (simp add: clobbered_early_def crosses_call_def call_clobbers_none)
  then show ?thesis using X True unfolding scan_live_def scan_sets [OF a own] live_before_instruction_def overwrites_def reads_def by auto
next
  case False
  then have "argument_registers (scan_environment f opts (mv_registers lv)) i = {}" by (simp add: argument_registers_def)
  then show ?thesis using X False unfolding scan_live_def scan_sets [OF a own] live_before_instruction_def overwrites_def reads_def by auto
qed

lemma live_before_step:
  assumes k: "k < length (machine_body (se_function env) b)" and l: "live_before env g b k r"
  shows "r \<in> live_before_instruction env (machine_body (se_function env) b ! k) {r. live_before env g b (Suc k) r}"
  using l
proof cases
  case global
  then show ?thesis using k by (simp add: machine_body_def)
qed (use k in \<open>auto simp: live_before_instruction_def\<close>)

lemma scan_follows_live:
  assumes a: "analysed f opts lv" and own: "\<forall>i\<in>set (machine_body f b). \<forall>r\<in>instruction_registers f i. own_register f r"
    and L: "{r. live_before (scan_environment f opts (mv_registers lv)) g b (length (machine_body f b)) r} \<subseteq> L"
  shows "k \<le> length (machine_body f b) \<Longrightarrow>
    {r. live_before (scan_environment f opts (mv_registers lv)) g b k r} \<subseteq> fold (scan_live (range_environment f lv)) (rev (drop k (machine_body f b))) L"
proof (induction rule: inc_induct)
  case base
  then show ?case using L by simp
next
  case (step k)
  let ?se = "scan_environment f opts (mv_registers lv)" and ?body = "machine_body f b"
  have k: "k < length (machine_body (se_function ?se) b)" using step(2) by simp
  have d: "rev (drop k ?body) = rev (drop (Suc k) ?body) @ [?body ! k]" using step(2) by (simp add: Cons_nth_drop_Suc [symmetric])
  have "{r. live_before ?se g b k r} \<subseteq> live_before_instruction ?se (?body ! k) {r. live_before ?se g b (Suc k) r}"
    using live_before_step [OF k] by auto
  also have "\<dots> \<subseteq> scan_live (range_environment f lv) (?body ! k) (fold (scan_live (range_environment f lv)) (rev (drop (Suc k) ?body)) L)"
    by (rule scan_live_superset [OF a _ step(3)]) (use own nth_mem [OF step(2)] in blast)
  finally show ?case unfolding d by simp
qed

section \<open>Registers live together share a point\<close>

lemma body_shares_at:
  assumes "body_shares env s (rev body) L" "k < length body"
  shows "instruction_shares env s (body ! k) (fold (scan_live env) (rev (drop (Suc k) body)) L)"
proof -
  have split: "body_shares env s (xs @ i # ys) L \<Longrightarrow> instruction_shares env s i (fold (scan_live env) xs L)" for xs i ys L
    by (induction xs arbitrary: L) simp_all
  have "rev body = rev (drop (Suc k) body) @ body ! k # rev (take k body)"
    using id_take_nth_drop [OF assms(2)] by (metis append.assoc append_Cons append_Nil rev.simps(2) rev_append)
  then show ?thesis using split assms(1) by metis
qed

lemma instruction_shares_subset:
  assumes "instruction_shares env s i L" "X \<subseteq> L" "Y \<subseteq> scan_live env i L"
  shows "shares env s (X \<union> scan_defs env i)" "shares env s (X - scan_defs env i \<union> scan_clobbers env i)" "shares env s (Y \<union> scan_early env i)"
proof -
  have "X \<union> scan_defs env i \<subseteq> L \<union> scan_defs env i" "X - scan_defs env i \<union> scan_clobbers env i \<subseteq> L - scan_defs env i \<union> scan_clobbers env i"
    "Y \<union> scan_early env i \<subseteq> scan_live env i L \<union> scan_early env i"
    using assms(2,3) by auto
  then show "shares env s (X \<union> scan_defs env i)" "shares env s (X - scan_defs env i \<union> scan_clobbers env i)" "shares env s (Y \<union> scan_early env i)"
    using assms(1) shares_subset unfolding instruction_shares_def by blast+
qed

lemma positions_within: "positions env rs \<subseteq> {..<length (se_registers env)}"
  by (auto simp: positions_def register_position_def find_Some_iff)

lemma scan_environment_globals: "bs_elems (se_globals (scan_environment f opts rs)) \<subseteq> {..<length rs}"
proof -
  have e: "bs_wf []" "bs_elems [] = {}" by (simp_all add: bits.element_laws bits.invars)
  have "bs_elems (global_bits rs qs []) \<subseteq> {..<length rs}" for qs
    unfolding global_bits_elems [OF e(1)] e(2) by (auto simp: register_position_def find_Some_iff)
  then show ?thesis using e(2) by (simp add: scan_environment_def Let_def)
qed

lemma live_before_within:
  "live_before env g b k r \<Longrightarrow> bs_elems (se_globals env) \<subseteq> {..<length (se_registers env)} \<Longrightarrow> r < length (se_registers env)"
proof (induction rule: live_before.induct)
  case (used k b r)
  then show ?case
    using positions_within [of env] by (auto simp: reads_def used_registers_def argument_registers_def split: if_splits)
qed auto

definition blocks_ok :: "machine_function \<Rightarrow> liveness_options \<Rightarrow> flow_graph \<Rightarrow> machine_liveness \<Rightarrow> bool" where
  "blocks_ok f opts g lv \<longleftrightarrow> length (mv_blocks lv) = machine_count f \<and>
     (\<forall>b<machine_count f. bs_wf (bl_gen (mv_blocks lv ! b)) \<and> bs_wf (bl_in (mv_blocks lv ! b)) \<and> bs_wf (bl_out (mv_blocks lv ! b)) \<and>
        bs_elems (bl_in (mv_blocks lv ! b)) = {r. live_before (scan_environment f opts (mv_registers lv)) g b 0 r} \<and>
        bs_elems (bl_out (mv_blocks lv ! b)) = {r. live_before (scan_environment f opts (mv_registers lv)) g b (length (machine_body f b)) r})"

lemma analyze_liveness_blocks:
  assumes g: "graph_ok (machine_count f) (mg_cfg g)" and a: "analyze_liveness f g c opts = Some (Inr lv)"
  shows "blocks_ok f opts (mg_cfg g) lv"
proof -
  let ?scan = "if op_scan opts = [] then all_registers f else op_scan opts"
  obtain rs where rs: "add_registers f ?scan [] = Inr rs" using a by (cases "add_registers f ?scan []") (auto simp: analyze_liveness_def split: if_splits)
  let ?env = "scan_environment f opts rs"
  have n: "machine_count f = machine_count (se_function ?env)" by simp
  from solve_environment_exact [OF scan_environment_wf n g] obtain blocks refs where
    s: "solve_environment ?env g = Some (blocks, refs)" "length blocks = machine_count f"
    and sets: "\<And>b. b < machine_count f \<Longrightarrow> bs_wf (bl_gen (blocks ! b)) \<and> bs_wf (bl_in (blocks ! b)) \<and> bs_wf (bl_out (blocks ! b)) \<and>
       bs_elems (bl_in (blocks ! b)) = {r. live_before ?env (mg_cfg g) b 0 r} \<and>
       bs_elems (bl_out (blocks ! b)) = {r. live_before ?env (mg_cfg g) b (length (machine_body f b)) r}"
    by auto
  have lv: "lv = finish_liveness ?env opts blocks refs"
    using a rs s(1) by (auto simp: analyze_liveness_def Let_def split: if_splits)
  then show ?thesis using sets s(2) by (simp add: blocks_ok_def finish_liveness_blocks)
qed

definition ranges_share :: "live_ranges \<Rightarrow> nat set \<Rightarrow> bool" where
  "ranges_share lr X \<longleftrightarrow> (\<exists>q. \<forall>r\<in>X. \<exists>y\<in>set (lr_ranges lr ! r). range_at y q)"

definition live_ranges_wf :: "machine_function \<Rightarrow> live_ranges \<Rightarrow> bool" where
  "live_ranges_wf f lr \<longleftrightarrow> length (lr_ranges lr) = length (all_registers f) \<and>
     list_all (row_result (machine_count f) (lr_points lr - 1)) (lr_ranges lr) \<and>
     length (lr_spill lr) = machine_count f \<and> list_all (\<lambda>sp. bs_wf (fst sp)) (lr_spill lr)"

lemma range_start_idle: "idle (range_environment f lv) (range_start f lv)"
proof -
  have e: "bs_wf []" "bs_elems [] = {}" by (simp_all add: bits.element_laws bits.invars)
  then show ?thesis by (simp add: idle_def settled_def state_ok_def range_start_def open_registers_def row_ok_def)
qed

lemma idle_rows:
  assumes "idle env s"
  shows "rows_closed (machine_count (rn_function env)) (rg_point s) (rg_ranges s)"
proof -
  have "open_registers env s = {}" using assms by (simp add: idle_def open_registers_def)
  then have "row_ok (machine_count (rn_function env)) (rg_point s - 1) (rg_point s) (rg_point s) (\<not> rn_compact env \<and> r \<notin> bs_elems (rg_referenced s)) False (rg_ranges s ! r)"
    if "r < length (rg_ranges s)" for r using assms that by (simp add: idle_def settled_def state_ok_def)
  then show ?thesis unfolding rows_closed_def all_set_conv_all_nth [of "rg_ranges s"] by (fastforce simp: row_ok_def closed_range_def)
qed

lemma idle_shares:
  assumes env: "env_ok env" and s: "idle env s" and X: "shares env s X" "X \<subseteq> {..<length (rn_full env)}"
  shows "\<exists>p. \<forall>k\<in>X. rn_full env ! k < length (rg_ranges s) \<and> (\<exists>lr\<in>set (rg_ranges s ! (rn_full env ! k)). range_at lr p)"
proof -
  have "open_registers env s = {}" using s by (simp add: idle_def open_registers_def)
  moreover have "rn_full env ! k < length (rg_ranges s)" if "k \<in> X" for k
    using env s X(2) that by (auto simp: env_ok_def idle_def settled_def state_ok_def dest!: subsetD)
  moreover obtain p where "\<forall>k\<in>X. covered env s (rn_full env ! k) p" using X(1) by (auto simp: shares_def)
  ultimately show ?thesis by (intro exI [of _ p]) (simp add: covered_def row_covers_def range_at_def)
qed

lemma block_order_set: "set (block_order g level n) = {2..<n}"
  by (auto simp: block_order_def)

text \<open>What an instruction keeps apart, as numbers of registers.\<close>

definition register_numbers :: "scan_env \<Rightarrow> nat set \<Rightarrow> nat set" where
  "register_numbers env X = (\<lambda>k. register_number (se_function env) (se_registers env ! k)) ` X"

definition interference :: "scan_env \<Rightarrow> flow_graph \<Rightarrow> (nat set \<Rightarrow> bool) \<Rightarrow> nat \<Rightarrow> nat \<Rightarrow> bool" where
  "interference env g together b k \<longleftrightarrow>
    (let i = machine_body (se_function env) b ! k; after = {r. live_before env g b (Suc k) r}; defs = defined_registers env i
     in together (register_numbers env (after \<union> defs)) \<and>
        together (register_numbers env (after - defs \<union> (if crosses_call env i then bs_elems (se_clobbered env) else {}))) \<and>
        together (register_numbers env ({r. live_before env g b k r} \<union> clobbered_early env i)))"

definition all_interference :: "scan_env \<Rightarrow> flow_graph \<Rightarrow> (nat set \<Rightarrow> bool) \<Rightarrow> bool" where
  "all_interference env g together \<longleftrightarrow>
     list_all (\<lambda>b. list_all (interference env g together b) [0..<length (machine_body (se_function env) b)]) [2..<machine_count (se_function env)]"

lemma build_ranges_spec:
  assumes a: "analysed f opts lv" and blocks: "blocks_ok f opts g lv" and build: "build_ranges verify f mg c lv = Inr lr"
  shows "live_ranges_wf f lr"
    "all_interference (scan_environment f opts (mv_registers lv)) g (ranges_share lr)"
proof -
  let ?en = "range_environment f lv" and ?se = "scan_environment f opts (mv_registers lv)" and ?n = "machine_count f"
  have w: "watched_ok f lv" and f: "function_owned f" using analysedD(1) [OF a] by (simp_all add: watched_ok_def)
  note env = range_environment_ok [OF w]
  obtain s where s: "scan_blocks ?en (mv_blocks lv) (block_order mg (mv_level lv) ?n) (range_start f lv) = Inr s" "finish_ranges f lv s = Inr lr"
    using build by (auto simp: build_ranges_def rbind_eq_Inr split: if_splits)
  have within: "{r. live_before ?se g b k r} \<subseteq> {..<length (mv_registers lv)}" for b k
    using live_before_within [of ?se g b k] scan_environment_globals by auto
  have out: "\<forall>b<machine_count (rn_function ?en). bs_wf (bl_out (mv_blocks lv ! b)) \<and> bs_elems (bl_out (mv_blocks lv ! b)) \<subseteq> {..<length (rn_full ?en)}"
    using blocks within by (simp add: blocks_ok_def)
  have order: "set (block_order mg (mv_level lv) ?n) \<subseteq> {..<machine_count (rn_function ?en)}" by (auto simp: block_order_set)
  note S = scan_blocks_ok [OF env out range_start_idle s(1) order]
  let ?rows = "rg_ranges s"
  let ?c = "compress_points (concat (map rev ?rows)) (rg_point s)"
  have rows: "rows_closed ?n (rg_point s) ?rows" using idle_rows S by (metis range_environment_simps(1))
  then have "\<forall>lr\<in>set (concat (map rev ?rows)). 0 \<le> lg_start lr \<and> lg_start lr \<le> lg_finish lr \<and> lg_finish lr \<le> rg_point s"
    by (auto simp: rows_closed_def)
  from compress_points_ok [OF this] obtain es where es: "set es = start_points (concat (map rev ?rows)) \<union> finish_points (concat (map rev ?rows))"
    and c: "points_compressed (start_points (concat (map rev ?rows))) (finish_points (concat (map rev ?rows))) (nat (rg_point s + 1)) es ?c" by blast
  have lr: "lr_ranges lr = map (\<lambda>row. merge_ranges (cp_map ?c) (rev row)) ?rows" "lr_points lr = cp_last ?c + 1" "lr_spill lr = rg_spill s"
    using s(2) by (auto simp: finish_ranges_def Let_def comp_def split: if_splits)
  have len: "length ?rows = length (all_registers f)" using S by (simp add: idle_def settled_def state_ok_def)
  have "spill_ok ?n (range_start f lv)" using blocks by (simp add: spill_ok_def range_start_def blocks_ok_def list_all_length)
  then have "spill_ok ?n s" by (rule spill_blocks [OF s(1)])
  then show "live_ranges_wf f lr"
    using merge_ranges_ok(1) [OF rows c es] by (auto simp: live_ranges_wf_def lr len spill_ok_def list_all_iff)
  have share: "ranges_share lr (register_numbers ?se X)" if "shares ?en s X" "X \<subseteq> {..<length (mv_registers lv)}" for X
  proof -
    have "X \<subseteq> {..<length (rn_full ?en)}" using that(2) by simp
    from idle_shares [OF env conjunct1 [OF S] that(1) this] obtain p where
      p: "\<And>k. k \<in> X \<Longrightarrow> rn_full ?en ! k < length ?rows \<and> (\<exists>lr\<in>set (?rows ! (rn_full ?en ! k)). range_at lr p)" by blast
    obtain q where q: "\<forall>row\<in>set ?rows. (\<exists>lr\<in>set row. range_at lr p) \<longrightarrow> (\<exists>y\<in>set (merge_ranges (cp_map ?c) (rev row)). range_at y q)"
      using merge_shares [OF rows c es] by blast
    have "\<exists>y\<in>set (lr_ranges lr ! register_number f (mv_registers lv ! k)). range_at y q" if k: "k \<in> X" for k
    proof -
      have full: "rn_full ?en ! k = register_number f (mv_registers lv ! k)" using full_number [OF w] k \<open>X \<subseteq> {..<length (mv_registers lv)}\<close> by auto
      then show ?thesis using p [OF k] q nth_mem by (simp add: lr(1))
    qed
    then show ?thesis by (auto simp: ranges_share_def register_numbers_def)
  qed
  have "interference ?se g (ranges_share lr) b k" if b: "2 \<le> b" "b < ?n" and k: "k < length (machine_body f b)" for b k
  proof -
    let ?i = "machine_body f b ! k" and ?L = "bs_elems (bl_out (mv_blocks lv ! b))"
    have body: "machine_body f b = node_body f b" using b(1) by (simp add: machine_body_def)
    then have "\<not> skipped_block (rn_function ?en) b" using k by (auto simp: skipped_block_def)
    then have "body_shares ?en s (rev (machine_body f b)) ?L" using S b by (simp add: block_order_set body)
    note I = body_shares_at [OF this k]
    have mem: "mf_blocks f ! (b - 2) \<in> set (mf_blocks f)" using b by (simp add: machine_count_def)
    then have own: "\<forall>i\<in>set (machine_body f b). \<forall>r\<in>instruction_registers f i. own_register f r"
      using f unfolding function_owned_def list_all_iff body node_body_def by blast
    have i: "\<forall>r\<in>instruction_registers f ?i. own_register f r" using own nth_mem [OF k] by blast
    have L: "{r. live_before ?se g b (length (machine_body f b)) r} \<subseteq> ?L" using blocks b(2) by (simp add: blocks_ok_def)
    have after: "{r. live_before ?se g b (Suc k) r} \<subseteq> fold (scan_live ?en) (rev (drop (Suc k) (machine_body f b))) ?L"
      using scan_follows_live [OF a own L] k by simp
    have "rev (drop k (machine_body f b)) = rev (drop (Suc k) (machine_body f b)) @ [?i]" using k by (simp add: Cons_nth_drop_Suc [symmetric])
    then have before: "{r. live_before ?se g b k r} \<subseteq> scan_live ?en ?i (fold (scan_live ?en) (rev (drop (Suc k) (machine_body f b))) ?L)"
      using scan_follows_live [OF a own L, of k] k by simp
    note sets = scan_sets [OF a i]
    have sub: "scan_defs ?en ?i \<subseteq> {..<length (mv_registers lv)}" "scan_clobbers ?en ?i \<subseteq> {..<length (mv_registers lv)}" "scan_early ?en ?i \<subseteq> {..<length (mv_registers lv)}"
      using scan_sets_within [OF env, of ?i] by simp_all
    note parts = instruction_shares_subset [OF I after before]
    have "ranges_share lr (register_numbers ?se ({r. live_before ?se g b (Suc k) r} \<union> scan_defs ?en ?i))"
      "ranges_share lr (register_numbers ?se ({r. live_before ?se g b (Suc k) r} - scan_defs ?en ?i \<union> scan_clobbers ?en ?i))"
      "ranges_share lr (register_numbers ?se ({r. live_before ?se g b k r} \<union> scan_early ?en ?i))"
      by (rule share [OF parts(1)] share [OF parts(2)] share [OF parts(3)]; use within sub in blast)+
    then show ?thesis by (simp add: interference_def Let_def sets)
  qed
  then show "all_interference ?se g (ranges_share lr)" by (simp add: all_interference_def list_all_iff)
qed

section \<open>When the ranges are built\<close>

text \<open>The scan takes a global register for an input of every call, also of one that defines it; the liveness analysis does
  not.  They agree when no call defines a global register.\<close>

definition calls_apart :: "scan_env \<Rightarrow> bool" where
  "calls_apart env \<longleftrightarrow> list_all (\<lambda>mb. list_all (\<lambda>i. crosses_call env i \<longrightarrow> defined_registers env i \<inter> bs_elems (se_globals env) = {})
     (mb_instructions mb)) (mf_blocks (se_function env))"

lemma scan_live_exact:
  assumes a: "analysed f opts lv" and own: "\<forall>r\<in>instruction_registers f i. own_register f r"
    and c: "crosses_call (scan_environment f opts (mv_registers lv)) i \<Longrightarrow>
      defined_registers (scan_environment f opts (mv_registers lv)) i \<inter> bs_elems (se_globals (scan_environment f opts (mv_registers lv))) = {}"
  shows "scan_live (range_environment f lv) i X = live_before_instruction (scan_environment f opts (mv_registers lv)) i X"
proof (cases "crosses_call (scan_environment f opts (mv_registers lv)) i")
  case True
  then have "clobbered_early (scan_environment f opts (mv_registers lv)) i = {}"
    by (simp add: clobbered_early_def crosses_call_def call_clobbers_none)
  then show ?thesis using True c unfolding scan_live_def scan_sets [OF a own] live_before_instruction_def overwrites_def reads_def by auto
next
  case False
  then have "argument_registers (scan_environment f opts (mv_registers lv)) i = {}" by (simp add: argument_registers_def)
  then show ?thesis using False unfolding scan_live_def scan_sets [OF a own] live_before_instruction_def overwrites_def reads_def by auto
qed

lemma live_before_again:
  assumes k: "k < length (machine_body (se_function env) b)"
  shows "live_before_instruction env (machine_body (se_function env) b ! k) {r. live_before env g b (Suc k) r} = {r. live_before env g b k r}"
  using live_before_step [OF k] k by (auto simp: live_before_instruction_def intro: live_before.used live_before.kept)

lemma block_instructions:
  assumes "function_owned f" "b < machine_count f" "2 \<le> b"
  shows "\<forall>i\<in>set (machine_body f b). \<forall>r\<in>instruction_registers f i. own_register f r"
proof -
  have "mf_blocks f ! (b - 2) \<in> set (mf_blocks f)" using assms(2,3) by (simp add: machine_count_def)
  then show ?thesis using assms(1,3) unfolding function_owned_def list_all_iff machine_body_def node_body_def by auto
qed

lemma scan_agrees_live:
  assumes a: "analysed f opts lv" and blocks: "blocks_ok f opts g lv" and c: "calls_apart (scan_environment f opts (mv_registers lv))"
    and b: "2 \<le> b" "b < machine_count f"
  shows "scan_agrees (range_environment f lv) (mv_blocks lv) b"
proof -
  let ?se = "scan_environment f opts (mv_registers lv)" and ?body = "machine_body f b"
  have f: "function_owned f" using a by (simp add: analysed_def)
  have body: "?body = node_body f b" using b(1) by (simp add: machine_body_def)
  have mem: "mf_blocks f ! (b - 2) \<in> set (mf_blocks f)" using b by (simp add: machine_count_def)
  have "k \<le> length ?body \<Longrightarrow> fold (scan_live (range_environment f lv)) (rev (drop k ?body)) {r. live_before ?se g b (length ?body) r} = {r. live_before ?se g b k r}" for k
  proof (induction rule: inc_induct)
    case (step k)
    have own: "\<forall>r\<in>instruction_registers f (?body ! k). own_register f r" using block_instructions [OF f b(2,1)] nth_mem [OF step(2)] by blast
    have "?body ! k \<in> set (mb_instructions (mf_blocks f ! (b - 2)))" using nth_mem [OF step(2)] by (simp add: body node_body_def)
    then have "crosses_call ?se (?body ! k) \<Longrightarrow> defined_registers ?se (?body ! k) \<inter> bs_elems (se_globals ?se) = {}"
      using c mem unfolding calls_apart_def list_all_iff by auto
    note e = scan_live_exact [OF a own this]
    have k: "k < length (machine_body (se_function ?se) b)" using step(2) by simp
    have d: "rev (drop k ?body) = rev (drop (Suc k) ?body) @ [?body ! k]" using step(2) by (simp add: Cons_nth_drop_Suc [symmetric])
    show ?case unfolding d using step(3) e live_before_again [OF k] by simp
  qed simp
  from this [of 0] show ?thesis using blocks b by (simp add: scan_agrees_def blocks_ok_def body)
qed

text \<open>The ranges are built when the points suffice.\<close>

definition scan_points :: "machine_function \<Rightarrow> int" where
  "scan_points f = sum_list (map (block_points f) [2..<machine_count f])"

lemma sum_insort: "sum_list (map h (insort_key k x xs)) = h x + sum_list (map h xs)" for h :: "'a \<Rightarrow> int"
  by (induction xs) simp_all

lemma block_order_points: "sum_list (map h (block_order g level n)) = sum_list (map h [2..<n])" for h :: "nat \<Rightarrow> int"
proof -
  have "sum_list (map h (sort_key k xs)) = sum_list (map h xs)" for k :: "nat \<Rightarrow> int" and xs by (induction xs) (simp_all add: sum_insort)
  then show ?thesis by (simp add: block_order_def)
qed

lemma build_ranges_fits:
  assumes a: "analysed f opts lv" and blocks: "blocks_ok f opts g lv" and c: "calls_apart (scan_environment f opts (mv_registers lv))"
    and verify: "verify f = Inr ()" and p: "scan_points f < INT_MAX"
  shows "\<exists>lr. build_ranges verify f mg True lv = Inr lr"
proof -
  let ?en = "range_environment f lv" and ?n = "machine_count f"
  let ?order = "block_order mg (mv_level lv) ?n"
  have w: "watched_ok f lv" using analysedD(1) [OF a] .
  note env = range_environment_ok [OF w]
  have within: "{r. live_before (scan_environment f opts (mv_registers lv)) g b k r} \<subseteq> {..<length (mv_registers lv)}" for b k
    using live_before_within [of "scan_environment f opts (mv_registers lv)" g b k] scan_environment_globals by auto
  have out: "\<forall>b<machine_count (rn_function ?en). bs_wf (bl_out (mv_blocks lv ! b)) \<and> bs_elems (bl_out (mv_blocks lv ! b)) \<subseteq> {..<length (rn_full ?en)}"
    using blocks within by (simp add: blocks_ok_def)
  have order: "set ?order \<subseteq> {..<machine_count (rn_function ?en)}" by (auto simp: block_order_set)
  have agrees: "\<forall>b\<in>set ?order. scan_agrees ?en (mv_blocks lv) b"
    using scan_agrees_live [OF a blocks c] by (simp add: block_order_set)
  have start: "rg_point (range_start f lv) = 0" by (simp add: range_start_def)
  have sum: "sum_list (map (block_points (rn_function ?en)) ?order) = scan_points f" by (simp add: scan_points_def block_order_points)
  obtain s where s: "scan_blocks ?en (mv_blocks lv) ?order (range_start f lv) = Inr s" "rg_point s \<le> scan_points f"
    using blocks_fit [OF env out range_start_idle order agrees] p unfolding start sum by auto
  note S = scan_blocks_ok [OF env out range_start_idle s(1) order]
  have rows: "rows_closed ?n (rg_point s) (rg_ranges s)" using idle_rows S by (metis range_environment_simps(1))
  then have "\<forall>lr\<in>set (concat (map rev (rg_ranges s))). 0 \<le> lg_start lr \<and> lg_start lr \<le> lg_finish lr \<and> lg_finish lr \<le> rg_point s"
    by (auto simp: rows_closed_def)
  moreover have "0 \<le> rg_point s" using S by (simp add: idle_def settled_def state_ok_def)
  ultimately have "cp_last (compress_points (concat (map rev (rg_ranges s))) (rg_point s)) \<le> rg_point s" using compress_points_ok by blast
  then have "finish_ranges f lv s \<noteq> Inl e" for e
    using rows s(2) p by (auto simp: finish_ranges_def Let_def rows_closed_def list_all_iff)
  then obtain lr where "finish_ranges f lv s = Inr lr" by (metis sum.exhaust)
  then show ?thesis using s(1) verify by (simp add: build_ranges_def)
qed

end
