(* ===== verification/AssignmentSteps.thy ===== *)
theory AssignmentSteps
  imports AssignmentHolds
begin

text \<open>
  Evicting gaps and placing the ranges of a register (\<open>lib/CodeGen/Assignment.cpp\<close>): each step keeps the invariant,
  with the ranges it releases or holds.
\<close>

lemma gap_of_simps [simp]:
  "gap_live_range inp (snd (gap_of inp q h)) = hold_range inp h" "fst (gap_of inp q h) = (pr_encoding q, lg_start (hold_range inp h))"
  "gap_hold (snd (gap_of inp q h)) = h" "gp_physical (snd (gap_of inp q h)) = q"
  by (simp_all add: gap_of_def gap_live_range_def hold_range_def gap_hold_def)

lemma gap_hold_simps [simp]: "fst (gap_hold g) = gp_reg g" "gap_live_range inp g = hold_range inp (gap_hold g)"
  by (simp_all add: gap_hold_def gap_live_range_def hold_range_def)

lemma gap_marksD:
  assumes "gap_marks inp m locs H" "e \<in> set m"
  obtains h q where "h \<in> H" "physical_count inp \<le> fst h" "lg_blocks (hold_range inp h) \<noteq> []" "hold_location inp locs h = InRegister q" "e = gap_of inp q h"
  using assms unfolding gap_marks_def by blast

lemma clash_register [simp]: "clash (InRegister q) loc \<longleftrightarrow> pr_encoding q \<in> location_register loc" "clash loc (InRegister q) \<longleftrightarrow> pr_encoding q \<in> location_register loc"
  by (auto simp: clash_def)

lemma held_apartD:
  "held_apart inp locs H \<Longrightarrow> h \<in> H \<Longrightarrow> h' \<in> H \<Longrightarrow> fst h \<noteq> fst h' \<Longrightarrow> overlap (hold_range inp h) (hold_range inp h') \<Longrightarrow>
   \<not> clash (hold_location inp locs h) (hold_location inp locs h')"
  by (auto simp: held_apart_def)

text \<open>Two ranges held in one physical register do not overlap.\<close>

lemma held_once:
  assumes "allocation_wf inp" "H \<subseteq> holds inp" "held_apart inp locs H" "h \<in> H" "h' \<in> H"
    "hold_location inp locs h = InRegister q" "pr_encoding q \<in> location_register (hold_location inp locs h')"
    "overlap (hold_range inp h) (hold_range inp h')"
  shows "h = h'"
proof (cases "fst h = fst h'")
  case True
  then show ?thesis using same_register_apart [OF assms(1)] assms(2,4,5,8) by blast
next
  case False
  then show ?thesis using held_apartD [OF assms(3-5) False assms(8)] assms(6,7) by simp
qed

lemma gap_marks_apart:
  assumes wf: "allocation_wf inp" "H \<subseteq> holds inp" "held_apart inp locs H" and m: "gap_marks inp m locs H"
  shows "gaps_apart inp m"
  unfolding gaps_apart_def
proof (intro conjI ballI impI)
  show "gaps_sorted m" using m by (simp add: gap_marks_def)
  fix e assume e: "e \<in> set m"
  obtain h q where h: "h \<in> H" "hold_location inp locs h = InRegister q" "e = gap_of inp q h" by (rule gap_marksD [OF m e])
  have b: "0 \<le> lg_start (hold_range inp h) \<and> lg_start (hold_range inp h) \<le> lg_finish (hold_range inp h)"
    using hold_bounds [OF wf(1)] wf(2) h(1) by blast
  then show "snd (fst e) = lg_start (gap_live_range inp (snd e))" "0 \<le> snd (fst e)" "snd (fst e) \<le> lg_finish (gap_live_range inp (snd e))"
    unfolding h(3) gap_of_simps by simp_all
  fix e' assume e': "e' \<in> set m" and k: "fst (fst e) = fst (fst e') \<and> snd (fst e) < snd (fst e')"
  obtain h' q' where h': "h' \<in> H" "hold_location inp locs h' = InRegister q'" "e' = gap_of inp q' h'" by (rule gap_marksD [OF m e'])
  have b': "0 \<le> lg_start (hold_range inp h') \<and> lg_start (hold_range inp h') \<le> lg_finish (hold_range inp h')"
    using hold_bounds [OF wf(1)] wf(2) h'(1) by blast
  have k': "pr_encoding q = pr_encoding q'" "lg_start (hold_range inp h) < lg_start (hold_range inp h')"
    using k by (simp_all add: h(3) h'(3))
  have "\<not> overlap (hold_range inp h) (hold_range inp h')"
    using held_once [OF wf h(1) h'(1) h(2)] k' h'(2) by auto
  then have "lg_finish (hold_range inp h) < lg_start (hold_range inp h')"
    using overlap_iff [of "hold_range inp h" "hold_range inp h'"] b b' k'(2) by linarith
  then show "lg_finish (gap_live_range inp (snd e)) < snd (fst e')"
    unfolding h(3) h'(3) gap_of_simps by simp
qed

section \<open>Evicting\<close>

definition note_spill :: "nat \<Rightarrow> nat list \<Rightarrow> (bitset \<times> bitset) list \<Rightarrow> (bitset \<times> bitset) list" where
  "note_spill r bs spill = fold (\<lambda>b spill. spill[b := (bs_insert r (fst (spill ! b)), snd (spill ! b))]) bs spill"

lemma note_spill_spec:
  assumes "\<forall>b\<in>set bs. b < length spill" "\<forall>b<length spill. bs_wf (fst (spill ! b))"
  shows "length (note_spill r bs spill) = length spill \<and> (\<forall>b<length spill. bs_wf (fst (note_spill r bs spill ! b)) \<and>
    bs_elems (fst (note_spill r bs spill ! b)) = bs_elems (fst (spill ! b)) \<union> (if b \<in> set bs then {r} else {}))"
  using assms
proof (induction bs arbitrary: spill)
  case (Cons a bs)
  let ?sp = "spill[a := (bs_insert r (fst (spill ! a)), snd (spill ! a))]"
  have w: "\<forall>b\<in>set bs. b < length ?sp" "\<forall>b<length ?sp. bs_wf (fst (?sp ! b))"
    using Cons.prems by (auto simp: nth_list_update bits.invars)
  have st: "note_spill r (a # bs) spill = note_spill r bs ?sp" by (simp add: note_spill_def)
  show ?case unfolding st using Cons.IH [OF w] Cons.prems by (auto simp: nth_list_update bits.element_laws)
qed (simp add: note_spill_def)

lemma evict_gap_cases:
  "evict_gap inp reg g (s, own) =
    (let lr = hold_range inp (gap_hold g); s = s\<lparr>as_spill := note_spill (gp_reg g) (lg_blocks lr) (as_spill s)\<rparr>
     in if gp_reg g = reg then (s, bs_insert (nat (lg_start lr)) own)
        else (s\<lparr>as_gaps := gap_erase (pr_encoding (gp_physical g), lg_start lr) (as_gaps s),
                as_used := reserve_points (InRegister (gp_physical g)) lr False (as_used s)\<rparr>, own))"
  by (simp add: evict_gap_def note_spill_def)

lemma note_spill_split:
  assumes wf: "allocation_wf inp" and h: "h \<in> holds inp" "lg_blocks (hold_range inp h) \<noteq> []" and sp: "spill_wf inp spill"
  shows "spill_wf inp (note_spill (fst h) (lg_blocks (hold_range inp h)) spill)"
    "spill_grows spill (note_spill (fst h) (lg_blocks (hold_range inp h)) spill)"
    "is_split inp (note_spill (fst h) (lg_blocks (hold_range inp h)) spill) h"
proof -
  have b: "\<forall>b\<in>set (lg_blocks (hold_range inp h)). b < length spill" using hold_wf(2) [OF wf h(1)] sp by (simp add: spill_wf_def)
  have w: "\<forall>b<length spill. bs_wf (fst (spill ! b))" using sp by (simp add: spill_wf_def)
  note spec = note_spill_spec [OF b w, of "fst h"]
  show "spill_wf inp (note_spill (fst h) (lg_blocks (hold_range inp h)) spill)"
    "spill_grows spill (note_spill (fst h) (lg_blocks (hold_range inp h)) spill)"
    "is_split inp (note_spill (fst h) (lg_blocks (hold_range inp h)) spill) h"
    using spec b h(2) sp by (auto simp: spill_wf_def spill_grows_def is_split_def list_all_iff)
qed

lemma gap_marks_erase:
  assumes wf: "allocation_wf inp" "H \<subseteq> holds inp" "h \<in> holds inp" and q: "hold_location inp locs h = InRegister q"
    and alone: "\<And>h'. h' \<in> H \<Longrightarrow> h' \<noteq> h \<Longrightarrow> overlap (hold_range inp h') (hold_range inp h) \<Longrightarrow> pr_encoding q \<notin> location_register (hold_location inp locs h')"
    and m: "gap_marks inp m locs H"
  shows "gap_marks inp (gap_erase (pr_encoding q, lg_start (hold_range inp h)) m) locs (H - {h})"
proof -
  let ?k = "(pr_encoding q, lg_start (hold_range inp h))"
  have s: "gaps_sorted m" using m by (simp add: gap_marks_def)
  have key: "fst (gap_of inp q' h') = ?k \<longleftrightarrow> h' = h" if h': "h' \<in> H" "hold_location inp locs h' = InRegister q'" for h' q'
  proof
    assume k: "fst (gap_of inp q' h') = ?k"
    then have "overlap (hold_range inp h') (hold_range inp h)"
      by (intro same_start_overlap [OF wf(1)]) (use wf(2,3) h'(1) in auto)
    then show "h' = h" using alone [OF h'(1)] h'(2) k by auto
  qed (use q h'(2) in auto)
  show ?thesis
    using gap_erase_spec [OF s, of ?k] m key unfolding gap_marks_def by blast
qed

lemma evict_other:
  assumes wf: "allocation_wf inp" and inv: "alloc_inv inp s H" and adv: "advanced inp"
    and h: "gap_hold g \<in> holds inp" "physical_count inp \<le> gp_reg g" "lg_blocks (hold_range inp (gap_hold g)) \<noteq> []"
      "hold_location inp (as_locations s) (gap_hold g) = InRegister (gp_physical g)" "gp_reg g \<noteq> reg"
    and alone: "pr_encoding (gp_physical g) \<notin> global_encodings inp"
      "\<And>h'. h' \<in> H \<Longrightarrow> h' \<noteq> gap_hold g \<Longrightarrow> overlap (hold_range inp h') (hold_range inp (gap_hold g)) \<Longrightarrow>
        pr_encoding (gp_physical g) \<notin> location_register (hold_location inp (as_locations s) h')"
    and e: "evict_gap inp reg g (s, own) = (s', own')"
  shows "alloc_inv inp s' (H - {gap_hold g})" "own' = own" "is_split inp (as_spill s') (gap_hold g)"
    "spill_grows (as_spill s) (as_spill s')" "as_locations s' = as_locations s" "as_stack_bytes s' = as_stack_bytes s" "as_reusable s' = as_reusable s" "as_order s' = as_order s"
proof -
  let ?h = "gap_hold g" and ?q = "gp_physical g"
  note d = alloc_invD [OF inv]
  have s': "s' = s\<lparr>as_spill := note_spill (gp_reg g) (lg_blocks (hold_range inp ?h)) (as_spill s),
      as_gaps := gap_erase (pr_encoding ?q, lg_start (hold_range inp ?h)) (as_gaps s),
      as_used := reserve_points (InRegister ?q) (hold_range inp ?h) False (as_used s)\<rparr>" and own: "own' = own"
    using e h(5) by (auto simp: evict_gap_cases Let_def)
  note sp = note_spill_split [OF wf h(1,3) d(3), unfolded gap_hold_simps(1)]
  have fixed: "fixed_holds inp (H - {?h}) = fixed_holds inp H" using h(2,3) by (auto simp: fixed_holds_def)
  have "held_apart inp (as_locations s) (H - {?h})" using d(8) by (auto simp: held_apart_def)
  then show "alloc_inv inp s' (H - {?h})"
    unfolding alloc_inv_def s'
    using d(1,2,9) sp(1) marks_release(1) [OF wf h(1,4) alone d(4)] marks_release(2) [OF wf h(1,4) alone d(4) d(5)] d(6) [OF adv]
      gap_marks_erase [OF wf d(1) h(1,4) alone(2) d(7) [OF adv]]
    by (auto simp: fixed)
  show "own' = own" by (rule own)
  show "is_split inp (as_spill s') ?h" "spill_grows (as_spill s) (as_spill s')" "as_locations s' = as_locations s"
    "as_stack_bytes s' = as_stack_bytes s" "as_reusable s' = as_reusable s" "as_order s' = as_order s"
    using sp by (simp_all add: s')
qed

lemma evict_own:
  assumes wf: "allocation_wf inp" and inv: "alloc_inv inp s H"
    and h: "gap_hold g \<in> holds inp" "lg_blocks (hold_range inp (gap_hold g)) \<noteq> []" "gp_reg g = reg"
    and e: "evict_gap inp reg g (s, own) = (s', own')"
  shows "alloc_inv inp s' H" "own' = bs_insert (nat (lg_start (hold_range inp (gap_hold g)))) own" "is_split inp (as_spill s') (gap_hold g)"
    "spill_grows (as_spill s) (as_spill s')" "as_locations s' = as_locations s" "as_stack_bytes s' = as_stack_bytes s" "as_reusable s' = as_reusable s" "as_order s' = as_order s"
proof -
  note d = alloc_invD [OF inv]
  have s': "s' = s\<lparr>as_spill := note_spill (gp_reg g) (lg_blocks (hold_range inp (gap_hold g))) (as_spill s)\<rparr>"
    and own: "own' = bs_insert (nat (lg_start (hold_range inp (gap_hold g)))) own"
    using e h(3) by (auto simp: evict_gap_cases Let_def)
  note sp = note_spill_split [OF wf h(1,2) d(3), unfolded gap_hold_simps(1)]
  show "alloc_inv inp s' H" using inv sp(1) by (simp add: alloc_inv_def s')
  show "own' = bs_insert (nat (lg_start (hold_range inp (gap_hold g)))) own" by (rule own)
  show "is_split inp (as_spill s') (gap_hold g)" "spill_grows (as_spill s) (as_spill s')" "as_locations s' = as_locations s"
    "as_stack_bytes s' = as_stack_bytes s" "as_reusable s' = as_reusable s" "as_order s' = as_order s"
    using sp by (simp_all add: s')
qed

text \<open>A gap that may be evicted: an own range, or one that holds its physical register alone.\<close>

definition evictable :: "allocation_input \<Rightarrow> location list \<Rightarrow> hold set \<Rightarrow> nat \<Rightarrow> gap \<Rightarrow> bool" where
  "evictable inp locs H reg g \<longleftrightarrow> advanced inp \<and> gap_hold g \<in> holds inp \<and> lg_blocks (hold_range inp (gap_hold g)) \<noteq> [] \<and>
     (gp_reg g \<noteq> reg \<longrightarrow> physical_count inp \<le> gp_reg g \<and> hold_location inp locs (gap_hold g) = InRegister (gp_physical g) \<and>
        pr_encoding (gp_physical g) \<notin> global_encodings inp \<and>
        (\<forall>h'\<in>H. h' \<noteq> gap_hold g \<and> overlap (hold_range inp h') (hold_range inp (gap_hold g)) \<longrightarrow>
           pr_encoding (gp_physical g) \<notin> location_register (hold_location inp locs h')))"

definition evicted :: "nat \<Rightarrow> gap list \<Rightarrow> hold set" where
  "evicted reg gs = gap_hold ` {g \<in> set gs. gp_reg g \<noteq> reg}"

definition own_starts :: "allocation_input \<Rightarrow> nat \<Rightarrow> gap list \<Rightarrow> nat set" where
  "own_starts inp reg gs = (\<lambda>g. nat (lg_start (hold_range inp (gap_hold g)))) ` {g \<in> set gs. gp_reg g = reg}"

lemma evict_gaps:
  assumes wf: "allocation_wf inp"
  shows "alloc_inv inp s H \<Longrightarrow> bs_wf own \<Longrightarrow> \<forall>g\<in>set gs. evictable inp (as_locations s) H reg g \<Longrightarrow> fold (evict_gap inp reg) gs (s, own) = (s', own') \<Longrightarrow>
    alloc_inv inp s' (H - evicted reg gs) \<and> bs_wf own' \<and> bs_elems own' = bs_elems own \<union> own_starts inp reg gs \<and>
    (\<forall>g\<in>set gs. is_split inp (as_spill s') (gap_hold g)) \<and> spill_grows (as_spill s) (as_spill s') \<and>
    as_locations s' = as_locations s \<and> as_stack_bytes s' = as_stack_bytes s \<and> as_reusable s' = as_reusable s \<and> as_order s' = as_order s"
proof (induction gs arbitrary: s H own)
  case Nil
  then show ?case by (auto simp: evicted_def own_starts_def spill_grows_def)
next
  case (Cons g gs)
  obtain s1 own1 where e: "evict_gap inp reg g (s, own) = (s1, own1)" by fastforce
  have ev: "evictable inp (as_locations s) H reg g" using Cons.prems(3) by simp
  have rest: "fold (evict_gap inp reg) gs (s1, own1) = (s', own')" using Cons.prems(4) e by simp
  let ?H = "if gp_reg g = reg then H else H - {gap_hold g}"
  have all: "alloc_inv inp s1 ?H \<and> bs_wf own1 \<and>
      bs_elems own1 = bs_elems own \<union> (if gp_reg g = reg then {nat (lg_start (hold_range inp (gap_hold g)))} else {}) \<and>
      is_split inp (as_spill s1) (gap_hold g) \<and> spill_grows (as_spill s) (as_spill s1) \<and>
      as_locations s1 = as_locations s \<and> as_stack_bytes s1 = as_stack_bytes s \<and> as_reusable s1 = as_reusable s \<and> as_order s1 = as_order s"
  proof (cases "gp_reg g = reg")
    case True
    have h: "gap_hold g \<in> holds inp" "lg_blocks (hold_range inp (gap_hold g)) \<noteq> []" using ev by (auto simp: evictable_def)
    note own = evict_own [OF wf Cons.prems(1) h True e]
    show ?thesis
      using own True Cons.prems(2) by (simp add: bits.element_laws bits.invars)
  next
    case False
    have h: "advanced inp" "gap_hold g \<in> holds inp" "physical_count inp \<le> gp_reg g" "lg_blocks (hold_range inp (gap_hold g)) \<noteq> []"
      "hold_location inp (as_locations s) (gap_hold g) = InRegister (gp_physical g)" "pr_encoding (gp_physical g) \<notin> global_encodings inp"
      "\<And>h'. h' \<in> H \<Longrightarrow> h' \<noteq> gap_hold g \<Longrightarrow> overlap (hold_range inp h') (hold_range inp (gap_hold g)) \<Longrightarrow>
        pr_encoding (gp_physical g) \<notin> location_register (hold_location inp (as_locations s) h')"
      using ev False unfolding evictable_def by blast+
    note other = evict_other [OF wf Cons.prems(1) h(1-5) False h(6,7) e]
    show ?thesis
      using other False Cons.prems(2) by simp
  qed
  have st: "alloc_inv inp s1 ?H" "bs_wf own1"
      "bs_elems own1 = bs_elems own \<union> (if gp_reg g = reg then {nat (lg_start (hold_range inp (gap_hold g)))} else {})"
      "is_split inp (as_spill s1) (gap_hold g)" "spill_grows (as_spill s) (as_spill s1)"
      "as_locations s1 = as_locations s" "as_stack_bytes s1 = as_stack_bytes s" "as_reusable s1 = as_reusable s" "as_order s1 = as_order s"
    using all by blast+
  have ev': "\<forall>g\<in>set gs. evictable inp (as_locations s1) ?H reg g"
    using Cons.prems(3) by (auto simp: evictable_def st(6))
  note IH = Cons.IH [OF st(1,2) ev' rest]
  have sets: "?H - evicted reg gs = H - evicted reg (g # gs)" "bs_elems own1 \<union> own_starts inp reg gs = bs_elems own \<union> own_starts inp reg (g # gs)"
    using st(3) by (auto simp: evicted_def own_starts_def)
  have "is_split inp (as_spill s') (gap_hold g)"
  proof (rule spill_growsD [OF _ st(4)])
    show "spill_grows (as_spill s1) (as_spill s')" using IH by blast
    show "\<forall>b\<in>set (lg_blocks (hold_range inp (gap_hold g))). b < length (as_spill s1)"
      using hold_wf(2) [OF wf, of "gap_hold g"] ev alloc_invD(3) [OF st(1)] by (auto simp: evictable_def spill_wf_def)
  qed
  then show ?case using IH st(5-9) sets spill_grows_trans [OF st(5)] by auto
qed

section \<open>Placing\<close>

lemma held_apart_insert:
  assumes "held_apart inp locs H"
    "\<And>h'. h' \<in> H \<Longrightarrow> fst h' \<noteq> fst h \<Longrightarrow> overlap (hold_range inp h') (hold_range inp h) \<Longrightarrow> \<not> clash (hold_location inp locs h') (hold_location inp locs h)"
  shows "held_apart inp locs (insert h H)"
  unfolding held_apart_def
proof (intro ballI impI)
  fix a b assume ab: "a \<in> insert h H" "b \<in> insert h H" "fst a \<noteq> fst b \<and> overlap (hold_range inp a) (hold_range inp b)"
  then consider "a \<in> H" "b \<in> H" | "a = h" "b \<in> H" | "a \<in> H" "b = h" by auto
  then show "\<not> clash (hold_location inp locs a) (hold_location inp locs b)"
  proof cases
    case 1 then show ?thesis using held_apartD [OF assms(1)] ab(3) by blast
  next
    case 2 then show ?thesis using assms(2) [of b] ab(3) overlap_sym clash_sym by (metis (no_types))
  next
    case 3 then show ?thesis using assms(2) [of a] ab(3) by blast
  qed
qed

lemma gap_marks_insert:
  assumes wf: "allocation_wf inp" "H \<subseteq> holds inp" "h \<in> holds inp" "physical_count inp \<le> fst h" "lg_blocks (hold_range inp h) \<noteq> []"
    and q: "hold_location inp locs h = InRegister q"
    and free: "\<And>h'. h' \<in> H \<Longrightarrow> fst h' \<noteq> fst h \<Longrightarrow> overlap (hold_range inp h') (hold_range inp h) \<Longrightarrow> \<not> clash (hold_location inp locs h') (hold_location inp locs h)"
    and m: "gap_marks inp m locs H"
  shows "gap_marks inp (gap_insert (pr_encoding q, lg_start (hold_range inp h)) \<lparr>gp_physical = q, gp_reg = fst h, gp_range = snd h\<rparr> m) locs (insert h H)"
proof -
  let ?k = "(pr_encoding q, lg_start (hold_range inp h))"
  have s: "gaps_sorted m" using m by (simp add: gap_marks_def)
  have new: "e = gap_of inp q h" if e: "e \<in> set m" "fst e = ?k" for e
  proof -
    obtain h' q' where h': "h' \<in> H" "hold_location inp locs h' = InRegister q'" "e = gap_of inp q' h'" by (rule gap_marksD [OF m e(1)])
    have k: "pr_encoding q' = pr_encoding q" "lg_start (hold_range inp h') = lg_start (hold_range inp h)" using e(2) h'(3) by auto
    have ov: "overlap (hold_range inp h') (hold_range inp h)" using same_start_overlap [OF wf(1)] wf(2,3) h'(1) k(2) by blast
    have "fst h' = fst h" using free [OF h'(1) _ ov] h'(2) q k(1) by auto
    then have "h' = h" using same_register_apart [OF wf(1)] wf(2,3) h'(1) ov by blast
    then show ?thesis using h'(2,3) q by simp
  qed
  have k: "(?k, \<lparr>gp_physical = q, gp_reg = fst h, gp_range = snd h\<rparr>) = gap_of inp q h" by (simp add: gap_of_def)
  have sm: "set m = {e. \<exists>h\<in>H. \<exists>q. physical_count inp \<le> fst h \<and> lg_blocks (hold_range inp h) \<noteq> [] \<and>
      hold_location inp locs h = InRegister q \<and> e = gap_of inp q h}" using m by (simp add: gap_marks_def)
  have "insert (gap_of inp q h) {e \<in> set m. fst e \<noteq> ?k} = insert (gap_of inp q h) (set m)" using new by blast
  also have "\<dots> = {e. \<exists>h\<in>insert h H. \<exists>q. physical_count inp \<le> fst h \<and> lg_blocks (hold_range inp h) \<noteq> [] \<and>
      hold_location inp locs h = InRegister q \<and> e = gap_of inp q h}" unfolding sm using wf(4,5) q by auto
  finally show ?thesis using gap_insert_spec [OF s, of ?k] unfolding gap_marks_def by (simp only: k simp_thms)
qed

definition keeps_range :: "allocation_input \<Rightarrow> location \<Rightarrow> bitset \<Rightarrow> hold \<Rightarrow> bool" where
  "keeps_range inp loc own h \<longleftrightarrow> (\<not> advanced inp \<or> (case loc of OnStack _ _ \<Rightarrow> True | _ \<Rightarrow> False)) \<or>
     \<not> bs_contains (nat (lg_start (hold_range inp h))) own"

lemma place_range_inv:
  assumes wf: "allocation_wf inp" and inv: "alloc_inv inp s H" and h: "(reg, n) \<in> holds inp" "physical_count inp \<le> reg"
    and loc: "as_locations s ! reg = loc" "loc \<noteq> NoLocation"
    and keep: "keeps_range inp loc own (reg, n) \<Longrightarrow> location_register loc \<inter> global_encodings inp = {} \<and>
      (\<forall>h'\<in>H. fst h' \<noteq> reg \<and> overlap (hold_range inp h') (hold_range inp (reg, n)) \<longrightarrow> \<not> clash (hold_location inp (as_locations s) h') loc)"
    and drop: "\<not> keeps_range inp loc own (reg, n) \<Longrightarrow> lg_blocks (hold_range inp (reg, n)) \<noteq> []"
  shows "alloc_inv inp (place_range inp reg loc own n s) (if keeps_range inp loc own (reg, n) then insert (reg, n) H else H)"
proof -
  let ?h = "(reg, n)" and ?lr = "hold_range inp (reg, n)" and ?locs = "as_locations s"
  note d = alloc_invD [OF inv]
  have at: "hold_location inp ?locs ?h = loc" using h loc by (simp add: hold_location_def)
  have lr: "ranges_of inp reg ! n = ?lr" by (simp add: hold_range_def)
  show ?thesis
  proof (cases "keeps_range inp loc own ?h")
    case False
    then have "place_range inp reg loc own n s = s"
      using drop by (auto simp: place_range_def keeps_range_def lr Let_def)
    then show ?thesis using False inv by simp
  next
    case True
    note k = keep [OF True]
    have free: "\<And>h'. h' \<in> H \<Longrightarrow> fst h' \<noteq> fst ?h \<Longrightarrow> overlap (hold_range inp h') ?lr \<Longrightarrow> \<not> clash (hold_location inp ?locs h') (hold_location inp ?locs ?h)"
      using k by (simp add: at)
    have apart: "held_apart inp ?locs (insert ?h H)" by (rule held_apart_insert [OF d(8) free])
    have used: "marks_registers inp (reserve_points loc ?lr True (as_used s)) ?locs (global_encodings inp) (insert ?h H)"
      "marks_units inp (reserve_points loc ?lr True (as_used s)) ?locs (insert ?h H)"
      using marks_reserve [OF wf h(1) at d(4)] d(5) by auto
    have common: "insert ?h H \<subseteq> holds inp" "\<forall>h\<in>insert ?h H. physical_count inp \<le> fst h \<longrightarrow> location_register (hold_location inp ?locs h) \<inter> global_encodings inp = {}"
      using d(1,9) h(1) k by (auto simp: at)
    let ?s = "s\<lparr>as_used := reserve_points loc ?lr True (as_used s)\<rparr>"
    show ?thesis
    proof (cases "\<not> advanced inp \<or> (case loc of OnStack _ _ \<Rightarrow> True | _ \<Rightarrow> False)")
      case simple: True
      then have p: "place_range inp reg loc own n s = ?s" by (simp add: place_range_def lr Let_def)
      have stack: "location_register loc = {}" "\<not> (\<exists>q. loc = InRegister q)" if "advanced inp" using simple that by (auto split: location.splits)
      have "marks_registers inp (as_busy s) ?locs (global_encodings inp) (fixed_holds inp (insert ?h H))" if "advanced inp"
      proof -
        have "fixed_holds inp (insert ?h H) = (if lg_blocks ?lr = [] then insert ?h (fixed_holds inp H) else fixed_holds inp H)"
          using h(2) by (auto simp: fixed_holds_def)
        then show ?thesis using d(6) [OF that] stack [OF that] by (simp add: marks_skip at)
      qed
      moreover have "gap_marks inp (as_gaps s) ?locs (insert ?h H)" if "advanced inp"
        using d(7) [OF that] stack(2) [OF that] unfolding gap_marks_def by (auto simp: at)
      ultimately show ?thesis using True used common apart d(2,3) by (simp add: p alloc_inv_def)
    next
      case split: False
      then obtain q where q: "loc = InRegister q" using loc(2) by (cases loc) auto
      have adv: "advanced inp" and notown: "\<not> bs_contains (nat (lg_start ?lr)) own" using split True by (auto simp: keeps_range_def)
      show ?thesis
      proof (cases "lg_blocks ?lr = []")
        case blocks: True
        then have p: "place_range inp reg loc own n s = ?s\<lparr>as_busy := reserve_points loc ?lr True (as_busy s)\<rparr>"
          using adv notown q by (simp add: place_range_def lr Let_def)
        have f: "fixed_holds inp (insert ?h H) = insert ?h (fixed_holds inp H)" using blocks by (auto simp: fixed_holds_def)
        have "gap_marks inp (as_gaps s) ?locs (insert ?h H)"
          using d(7) [OF adv] blocks unfolding gap_marks_def by auto
        then show ?thesis using True used common apart d(2,3) marks_reserve(1) [OF wf h(1) at d(6) [OF adv]]
          by (simp add: p alloc_inv_def f)
      next
        case blocks: False
        have g: "gap_marks inp (gap_insert (pr_encoding q, lg_start ?lr) \<lparr>gp_physical = q, gp_reg = reg, gp_range = n\<rparr> (as_gaps s)) ?locs (insert ?h H)"
          using gap_marks_insert [OF wf d(1) h(1) _ blocks _ free d(7) [OF adv], of q] h(2) q by (simp add: at)
        have p: "place_range inp reg loc own n s = ?s\<lparr>as_gaps := gap_insert (pr_encoding q, lg_start ?lr) \<lparr>gp_physical = q, gp_reg = reg, gp_range = n\<rparr> (as_gaps s)\<rparr>"
          using adv notown q blocks by (simp add: place_range_def lr Let_def)
        have f: "fixed_holds inp (insert ?h H) = fixed_holds inp H" using blocks h(2) by (auto simp: fixed_holds_def)
        show ?thesis using True used common apart d(2,3) d(6) [OF adv] g by (simp add: p alloc_inv_def f)
      qed
    qed
  qed
qed

lemma place_range_frame [simp]:
  "as_locations (place_range inp reg loc own n s) = as_locations s" "as_spill (place_range inp reg loc own n s) = as_spill s"
  "as_stack_bytes (place_range inp reg loc own n s) = as_stack_bytes s" "as_reusable (place_range inp reg loc own n s) = as_reusable s"
  "as_order (place_range inp reg loc own n s) = as_order s"
  by (auto simp: place_range_def Let_def split: location.splits)

lemma place_ranges_frame [simp]:
  "as_locations (fold (place_range inp reg loc own) ns s) = as_locations s" "as_spill (fold (place_range inp reg loc own) ns s) = as_spill s"
  "as_stack_bytes (fold (place_range inp reg loc own) ns s) = as_stack_bytes s" "as_reusable (fold (place_range inp reg loc own) ns s) = as_reusable s"
  "as_order (fold (place_range inp reg loc own) ns s) = as_order s"
  by (induction ns arbitrary: s) simp_all

lemma place_ranges_inv:
  assumes wf: "allocation_wf inp" and reg: "reg < register_count inp" "physical_count inp \<le> reg" and loc: "loc \<noteq> NoLocation"
  shows "alloc_inv inp s H \<Longrightarrow> as_locations s ! reg = loc \<Longrightarrow> \<forall>n\<in>set ns. n < length (ranges_of inp reg) \<Longrightarrow>
    \<forall>n\<in>set ns. (if keeps_range inp loc own (reg, n) then location_register loc \<inter> global_encodings inp = {} \<and>
        (\<forall>h'\<in>H. fst h' \<noteq> reg \<and> overlap (hold_range inp h') (hold_range inp (reg, n)) \<longrightarrow> \<not> clash (hold_location inp (as_locations s) h') loc)
      else lg_blocks (hold_range inp (reg, n)) \<noteq> []) \<Longrightarrow>
    alloc_inv inp (fold (place_range inp reg loc own) ns s) (H \<union> Pair reg ` {n \<in> set ns. keeps_range inp loc own (reg, n)})"
proof (induction ns arbitrary: s H)
  case (Cons n ns)
  let ?H = "if keeps_range inp loc own (reg, n) then insert (reg, n) H else H"
  have h: "(reg, n) \<in> holds inp" using Cons.prems(3) reg(1) by (simp add: holds_def)
  have step: "alloc_inv inp (place_range inp reg loc own n s) ?H"
    by (rule place_range_inv [OF wf Cons.prems(1) h reg(2) Cons.prems(2) loc]) (use Cons.prems(4) in auto)
  have "alloc_inv inp (fold (place_range inp reg loc own) ns (place_range inp reg loc own n s))
      (?H \<union> Pair reg ` {n \<in> set ns. keeps_range inp loc own (reg, n)})"
    by (rule Cons.IH [OF step]) (use Cons.prems(2-4) in auto)
  moreover have "?H \<union> Pair reg ` {n \<in> set ns. keeps_range inp loc own (reg, n)} =
      H \<union> Pair reg ` {m \<in> set (n # ns). keeps_range inp loc own (reg, m)}" by auto
  ultimately show ?case by simp
qed simp

end
