(* ===== verification/AssignmentChoice.thy ===== *)
theory AssignmentChoice
  imports AssignmentSteps
begin

text \<open>
  Choosing the location of a register (\<open>lib/CodeGen/Assignment.cpp\<close>): a register that is chosen is free across the
  ranges but for the gaps that are evicted with it, and a stack slot is free across the ranges.
\<close>

section \<open>Choosing a register\<close>

definition allocatable :: "nat \<Rightarrow> allocation_input \<Rightarrow> nat \<Rightarrow> physical_register \<Rightarrow> bool" where
  "allocatable ld_size inp reg q \<longleftrightarrow>
     (\<exists>info\<in>set (tm_registers (mf_target (ai_function inp))). q = ri_reg info \<and> \<not> ri_reserved info) \<and> accepts_value ld_size inp reg q"

lemma free_register_spec:
  assumes "free_register ld_size inp reg conflicts = Some q"
  shows "allocatable ld_size inp reg q \<and> \<not> bs_contains (pr_encoding q) (pl_physical conflicts)"
proof -
  have "fold (better_free ld_size inp reg conflicts) infos best = Some q \<Longrightarrow>
      (best = Some q \<or> (\<exists>info\<in>set infos. q = ri_reg info \<and> \<not> ri_reserved info \<and> accepts_value ld_size inp reg q \<and>
        \<not> bs_contains (pr_encoding q) (pl_physical conflicts)))" for infos best
  proof (induction infos arbitrary: best)
    case (Cons info infos)
    then have "fold (better_free ld_size inp reg conflicts) infos (better_free ld_size inp reg conflicts info best) = Some q" by simp
    from Cons.IH [OF this] show ?case by (auto simp: better_free_def Let_def split: if_splits option.splits)
  qed simp
  then show ?thesis using assms by (auto simp: free_register_def allocatable_def)
qed

text \<open>A candidate is a range of the register itself or a gap of the physical register.\<close>

definition candidates_ok :: "allocation_input \<Rightarrow> alloc_state \<Rightarrow> nat \<Rightarrow> physical_register \<Rightarrow> gap list \<Rightarrow> bool" where
  "candidates_ok inp s reg q cs \<longleftrightarrow> (\<forall>g\<in>set cs. (gp_reg g = reg \<and> gap_hold g \<in> holds inp \<and> lg_blocks (hold_range inp (gap_hold g)) \<noteq> []) \<or>
     (\<exists>e\<in>set (as_gaps s). snd e = g \<and> fst (fst e) = pr_encoding q))"

text \<open>A range is cleared when it is split itself, or whatever holds the physical register across it is a candidate.\<close>

definition cleared :: "allocation_input \<Rightarrow> alloc_state \<Rightarrow> hold set \<Rightarrow> physical_register \<Rightarrow> gap list \<Rightarrow> hold \<Rightarrow> bool" where
  "cleared inp s H q cs h \<longleftrightarrow> h \<in> gap_hold ` set cs \<or>
     (pr_encoding q \<notin> global_encodings inp \<and> (\<forall>h'\<in>H. overlap (hold_range inp h') (hold_range inp h) \<and>
        pr_encoding q \<in> location_register (hold_location inp (as_locations s) h') \<longrightarrow> h' \<in> gap_hold ` set cs))"

lemma cleared_mono: "cleared inp s H q cs h \<Longrightarrow> set cs \<subseteq> set cs' \<Longrightarrow> cleared inp s H q cs' h"
  unfolding cleared_def by blast

lemma free_used_cleared:
  assumes wf: "allocation_wf inp" and inv: "alloc_inv inp s H" and h: "h \<in> holds inp"
    and free: "\<And>p. covers (hold_range inp h) p \<Longrightarrow> pr_encoding q \<notin> registers_at (as_used s) p"
  shows "cleared inp s H q cs h"
proof -
  note m = alloc_invD(4) [OF inv]
  have p: "p < point_total inp" if "covers (hold_range inp h) p" for p
    using that hold_wf(1) [OF wf h] by (auto simp: covers_def range_within_def)
  have "covers (hold_range inp h) (nat (lg_start (hold_range inp h)))" using hold_bounds [OF wf h] by (simp add: covers_def)
  then have "pr_encoding q \<notin> global_encodings inp" using free p m by (fastforce simp: marks_registers_def)
  moreover have "pr_encoding q \<notin> location_register (hold_location inp (as_locations s) h')"
    if "h' \<in> H" "overlap (hold_range inp h') (hold_range inp h)" for h'
    using that free p marks_at [OF m that(1)] unfolding overlap_def by blast
  ultimately show ?thesis by (auto simp: cleared_def)
qed

text \<open>Outside the ranges that may not be split, only gaps hold the register.\<close>

lemma free_busy_cleared:
  assumes wf: "allocation_wf inp" and inv: "alloc_inv inp s H" and adv: "advanced inp" and h: "h \<in> holds inp"
    and free: "\<And>p. covers (hold_range inp h) p \<Longrightarrow> pr_encoding q \<notin> registers_at (as_busy s) p"
    and all: "\<forall>e\<in>set (as_gaps s). fst (fst e) = pr_encoding q \<and> overlap (gap_live_range inp (snd e)) (hold_range inp h) \<longrightarrow> gap_hold (snd e) \<in> gap_hold ` set cs"
  shows "cleared inp s H q cs h"
proof -
  note m = alloc_invD(6) [OF inv adv] and g = alloc_invD(7) [OF inv adv]
  have p: "p < point_total inp" if "covers (hold_range inp h) p" for p
    using that hold_wf(1) [OF wf h] by (auto simp: covers_def range_within_def)
  have "covers (hold_range inp h) (nat (lg_start (hold_range inp h)))" using hold_bounds [OF wf h] by (simp add: covers_def)
  then have "pr_encoding q \<notin> global_encodings inp" using free p m by (fastforce simp: marks_registers_def)
  moreover have "h' \<in> gap_hold ` set cs"
    if h': "h' \<in> H" "overlap (hold_range inp h') (hold_range inp h)" "pr_encoding q \<in> location_register (hold_location inp (as_locations s) h')" for h'
  proof -
    have "h' \<notin> fixed_holds inp H"
      using h'(2,3) free p marks_at [OF m] unfolding overlap_def by blast
    then have f: "physical_count inp \<le> fst h'" "lg_blocks (hold_range inp h') \<noteq> []" using h'(1) by (auto simp: fixed_holds_def)
    obtain q' where q': "hold_location inp (as_locations s) h' = InRegister q'" "pr_encoding q' = pr_encoding q"
      using h'(3) by (cases "hold_location inp (as_locations s) h'") auto
    have "gap_of inp q' h' \<in> set (as_gaps s)" using g h'(1) f q'(1) unfolding gap_marks_def by blast
    then show ?thesis using bspec [OF all] h'(2) q'(2) by fastforce
  qed
  ultimately show ?thesis by (auto simp: cleared_def)
qed

lemma free_points:
  assumes wf: "allocation_wf inp" and h: "h \<in> holds inp" and m: "marks_registers inp pts locs G H"
  shows "register_free q (hold_range inp h) pts \<longleftrightarrow> (\<forall>p. covers (hold_range inp h) p \<longrightarrow> pr_encoding q \<notin> registers_at pts p)"
  using register_free_iff [OF _ hold_wf(1) [OF wf h]] m by (simp add: marks_registers_def)

definition register_kept :: "allocation_input \<Rightarrow> alloc_state \<Rightarrow> hold set \<Rightarrow> nat \<Rightarrow> nat \<Rightarrow> trial \<Rightarrow> trial option result option \<Rightarrow> physical_register \<Rightarrow> bool" where
  "register_kept inp s H reg n tr res q \<longleftrightarrow> (case res of None \<Rightarrow> False | Some (Inl e) \<Rightarrow> True | Some (Inr None) \<Rightarrow> True
     | Some (Inr (Some tr')) \<Rightarrow> set (tr_candidate tr) \<subseteq> set (tr_candidate tr') \<and>
         (candidates_ok inp s reg q (tr_candidate tr) \<longrightarrow> candidates_ok inp s reg q (tr_candidate tr')) \<and>
         (\<forall>i. n \<le> i \<and> i < length (ranges_of inp reg) \<longrightarrow> cleared inp s H q (tr_candidate tr') (reg, i)))"

lemma weigh_ranges_spec:
  assumes wf: "allocation_wf inp" and inv: "alloc_inv inp s H" and adv: "advanced inp" and reg: "reg < register_count inp"
  shows "lrs = drop n (ranges_of inp reg) \<Longrightarrow> register_kept inp s H reg n tr (weigh_ranges inp s reg q n lrs tr) q"
proof (induction lrs arbitrary: n tr)
  case Nil
  then show ?case by (auto simp: register_kept_def)
next
  case (Cons lr lrs)
  have n: "n < length (ranges_of inp reg)" using Cons.prems by (metis drop_all linorder_not_le list.distinct(1))
  have d: "lr = hold_range inp (reg, n)" "lrs = drop (n + 1) (ranges_of inp reg)"
    using Cons.prems n by (simp_all add: hold_range_def Cons_nth_drop_Suc [symmetric])
  have h: "(reg, n) \<in> holds inp" using n reg by (simp add: holds_def)
  have fu: "register_free q lr (as_used s) \<Longrightarrow> cleared inp s H q cs (reg, n)" for cs
    using free_used_cleared [OF wf inv h] free_points [OF wf h alloc_invD(4) [OF inv]] d(1) by simp
  have ext: "register_kept inp s H reg n tr res q"
    if k: "register_kept inp s H reg (n + 1) tr1 res q" "set (tr_candidate tr) \<subseteq> set (tr_candidate tr1)"
      "candidates_ok inp s reg q (tr_candidate tr) \<Longrightarrow> candidates_ok inp s reg q (tr_candidate tr1)"
      "cleared inp s H q (tr_candidate tr1) (reg, n)" for tr1 res
  proof -
    have "cleared inp s H q (tr_candidate tr') (reg, i)"
      if "set (tr_candidate tr1) \<subseteq> set (tr_candidate tr')" "\<forall>i. n + 1 \<le> i \<and> i < length (ranges_of inp reg) \<longrightarrow> cleared inp s H q (tr_candidate tr') (reg, i)"
        "n \<le> i" "i < length (ranges_of inp reg)" for tr' i
      using that cleared_mono [OF k(4)] by (cases "i = n") auto
    note later = this
    show ?thesis
    proof (cases "\<exists>tr'. res = Some (Inr (Some tr'))")
      case True
      then obtain tr' where res: "res = Some (Inr (Some tr'))" by blast
      have r: "set (tr_candidate tr1) \<subseteq> set (tr_candidate tr')" "candidates_ok inp s reg q (tr_candidate tr1) \<longrightarrow> candidates_ok inp s reg q (tr_candidate tr')"
        "\<forall>i. n + 1 \<le> i \<and> i < length (ranges_of inp reg) \<longrightarrow> cleared inp s H q (tr_candidate tr') (reg, i)"
        using k(1) by (simp_all add: register_kept_def res)
      show ?thesis using r(1,2) k(2,3) later [OF r(1,3)] by (auto simp: register_kept_def res)
    next
      case False
      then show ?thesis using k(1) by (auto simp: register_kept_def split: option.splits sum.splits)
    qed
  qed
  show ?case
  proof (cases "register_free q lr (as_used s)")
    case True
    then show ?thesis using ext [OF Cons.IH [OF d(2), of tr]] fu by simp
  next
    case used: False
    show ?thesis
    proof (cases "register_free q lr (as_busy s)")
      case True
      have apart: "gaps_apart inp (as_gaps s)"
        using gap_marks_apart [OF wf alloc_invD(1,8) [OF inv] alloc_invD(7) [OF inv adv]] .
      have b: "0 \<le> lg_start lr" "lg_start lr \<le> lg_finish lr" using hold_bounds [OF wf h] d(1) by auto
      obtain f' t' where f: "find_gaps inp (as_gaps s) q lr (tr_candidate tr) = Some (f', t')" "set (tr_candidate tr) \<subseteq> set f'"
          "set f' \<subseteq> set (tr_candidate tr) \<union> snd ` {e \<in> set (as_gaps s). fst (fst e) = pr_encoding q}"
          "\<forall>e\<in>set (as_gaps s). fst (fst e) = pr_encoding q \<and> overlap (gap_live_range inp (snd e)) lr \<longrightarrow> gap_hold (snd e) \<in> gap_hold ` set f'"
        using find_gaps_spec [OF apart b, of q "tr_candidate tr"] by blast
      have c: "cleared inp s H q f' (reg, n)"
        by (rule free_busy_cleared [OF wf inv adv h])
          (use True free_points [OF wf h alloc_invD(6) [OF inv adv]] d(1) f(4) in auto)
      have ok: "candidates_ok inp s reg q (tr_candidate tr) \<Longrightarrow> candidates_ok inp s reg q f'"
        using f(3) unfolding candidates_ok_def by blast
      let ?tr = "\<lparr>tr_profit = tr_profit tr - t', tr_gap_size = tr_gap_size tr + nat (lg_finish lr - lg_start lr + 1), tr_candidate = f'\<rparr>"
      show ?thesis
        using used True f(1) ext [OF Cons.IH [OF d(2), of ?tr]] f(2) c ok by (auto simp: register_kept_def Let_def)
    next
      case busy: False
      let ?g = "\<lparr>gp_physical = q, gp_reg = reg, gp_range = n\<rparr>"
      let ?tr = "\<lparr>tr_profit = tr_profit tr - spill_cost inp lr, tr_gap_size = tr_gap_size tr, tr_candidate = tr_candidate tr @ [?g]\<rparr>"
      have g: "gap_hold ?g = (reg, n)" by (simp add: gap_hold_def)
      show ?thesis
      proof (cases "lg_blocks lr = []")
        case True
        then show ?thesis using used busy by (simp add: register_kept_def)
      next
        case False
        have ok: "candidates_ok inp s reg q (tr_candidate tr) \<Longrightarrow> candidates_ok inp s reg q (tr_candidate tr @ [?g])"
          using h False d(1) g by (auto simp: candidates_ok_def)
        have c: "cleared inp s H q (tr_candidate tr @ [?g]) (reg, n)" by (simp add: cleared_def g)
        show ?thesis
          using used busy False ext [OF Cons.IH [OF d(2), of ?tr]] c ok by (auto simp: register_kept_def Let_def)
      qed
    qed
  qed
qed

definition choice_ok :: "nat \<Rightarrow> allocation_input \<Rightarrow> alloc_state \<Rightarrow> hold set \<Rightarrow> nat \<Rightarrow> choice \<Rightarrow> bool" where
  "choice_ok ld_size inp s H reg c \<longleftrightarrow> (ch_spilled c \<noteq> [] \<longrightarrow> advanced inp) \<and>
     (case ch_best c of None \<Rightarrow> ch_spilled c = []
      | Some q \<Rightarrow> allocatable ld_size inp reg q \<and> candidates_ok inp s reg q (ch_spilled c) \<and>
          (\<forall>i<length (ranges_of inp reg). cleared inp s H q (ch_spilled c) (reg, i)))"

lemma split_register_spec:
  assumes wf: "allocation_wf inp" and inv: "alloc_inv inp s H" and adv: "advanced inp" and reg: "reg < register_count inp"
  shows "choice_ok ld_size inp s H reg c \<Longrightarrow> set infos \<subseteq> set (tm_registers (mf_target (ai_function inp))) \<Longrightarrow>
    case split_register ld_size inp s reg infos c of None \<Rightarrow> False | Some (Inl e) \<Rightarrow> True | Some (Inr c') \<Rightarrow> choice_ok ld_size inp s H reg c'"
proof (induction infos arbitrary: c)
  case (Cons info infos)
  note rest = Cons.IH [OF Cons.prems(1)]
  let ?tr = "\<lparr>tr_profit = start_profit inp reg, tr_gap_size = 0, tr_candidate = []\<rparr>"
  show ?case
  proof (cases "ri_reserved info \<or> \<not> accepts_value ld_size inp reg (ri_reg info)")
    case True
    then show ?thesis using rest Cons.prems(2) by simp
  next
    case False
    then have al: "allocatable ld_size inp reg (ri_reg info)" using Cons.prems(2) by (auto simp: allocatable_def)
    have k: "register_kept inp s H reg 0 ?tr (weigh_ranges inp s reg (ri_reg info) 0 (ranges_of inp reg) ?tr) (ri_reg info)"
      by (rule weigh_ranges_spec [OF wf inv adv reg]) simp
    have new: "choice_ok ld_size inp s H reg \<lparr>ch_best = Some (ri_reg info), ch_profit = tr_profit tr, ch_gap = tr_gap_size tr, ch_spilled = tr_candidate tr\<rparr>"
      if "weigh_ranges inp s reg (ri_reg info) 0 (ranges_of inp reg) ?tr = Some (Inr (Some tr))" for tr
      using k adv al unfolding that by (simp add: register_kept_def choice_ok_def) (simp add: candidates_ok_def)
    show ?thesis
      using False k new Cons.IH [OF new] rest Cons.prems(2)
      by (auto simp: register_kept_def split: option.splits sum.splits)
  qed
qed simp

lemma choose_register_spec:
  assumes wf: "allocation_wf inp" and inv: "alloc_inv inp s H" and reg: "reg < register_count inp"
    and conflicts: "conflicts = range_conflicts (ranges_of inp reg) (as_used s)"
  shows "case choose_register ld_size inp s reg conflicts of None \<Rightarrow> False | Some (Inl e) \<Rightarrow> True | Some (Inr c) \<Rightarrow> choice_ok ld_size inp s H reg c"
proof (cases "free_register ld_size inp reg conflicts")
  case None
  show ?thesis
  proof (cases "advanced inp")
    case True
    show ?thesis
      using None True split_register_spec [OF wf inv True reg, of ld_size "\<lparr>ch_best = None, ch_profit = 0, ch_gap = 0, ch_spilled = []\<rparr>" "tm_registers (mf_target (ai_function inp))"]
      by (simp add: choose_register_def choice_ok_def)
  qed (simp add: None choose_register_def choice_ok_def)
next
  case (Some q)
  note f = free_register_spec [OF Some]
  have pts: "points_ok (point_total inp) (as_used s)" using alloc_invD(4) [OF inv] by (simp add: marks_registers_def)
  have rng: "\<forall>lr\<in>set (ranges_of inp reg). range_within (point_total inp) lr"
  proof
    fix lr assume "lr \<in> set (ranges_of inp reg)"
    then obtain n where "n < length (ranges_of inp reg)" "lr = hold_range inp (reg, n)" by (auto simp: in_set_conv_nth hold_range_def)
    then show "range_within (point_total inp) lr" using hold_wf(1) [OF wf, of "(reg, n)"] reg by (simp add: holds_def)
  qed
  note spec = range_conflicts_spec [OF pts rng]
  have "cleared inp s H q [] (reg, i)" if i: "i < length (ranges_of inp reg)" for i
  proof (rule free_used_cleared [OF wf inv])
    show "(reg, i) \<in> holds inp" using i reg by (simp add: holds_def)
    fix p assume "covers (hold_range inp (reg, i)) p"
    moreover have "hold_range inp (reg, i) \<in> set (ranges_of inp reg)" using i by (simp add: hold_range_def)
    ultimately show "pr_encoding q \<notin> registers_at (as_used s) p"
      using f spec(1,3) by (auto simp: conflicts bits.element_laws)
  qed
  then show ?thesis using f by (simp add: Some choose_register_def choice_ok_def candidates_ok_def)
qed

section \<open>Choosing a slot\<close>

definition location_fits :: "nat \<Rightarrow> allocation_input \<Rightarrow> nat \<Rightarrow> nat \<Rightarrow> nat \<Rightarrow> location \<Rightarrow> bool" where
  "location_fits ld_size inp low high r loc \<longleftrightarrow> (case loc of
     NoLocation \<Rightarrow> False
   | InRegister q \<Rightarrow> allocatable ld_size inp r q
   | OnStack off sz \<Rightarrow> sz = stack_units (ar_type (register_at inp r)) * 8 \<and> off mod sz = 0 \<and> low \<le> off \<and> off + sz \<le> high)"

lemma stack_units_cases: "stack_units t = 1 \<or> stack_units t = 2"
  by (simp add: stack_units_def)

lemma reuse_slot_spec:
  "reuse_slot bytes need conflicts start = Some off \<Longrightarrow> start \<le> off \<and> off mod need = 0 \<and> off + need \<le> bytes \<and>
   (\<forall>k\<in>{off div 8..<(off + need) div 8}. \<not> bs_contains k conflicts)"
proof (induction bytes need conflicts start rule: reuse_slot.induct)
  case (1 bytes need conflicts start)
  show ?case
  proof (cases "bytes < start + need")
    case False
    show ?thesis
    proof (cases "start mod need = 0 \<and> list_all (\<lambda>k. \<not> bs_contains k conflicts) [start div 8..<(start + need) div 8]")
      case True
      then have "off = start" using 1(2) False by (subst (asm) reuse_slot.simps) simp
      then show ?thesis using True False by (auto simp: list_all_iff)
    next
      case nf: False
      then have "reuse_slot bytes need conflicts start = reuse_slot bytes need conflicts (start + 8)"
        by (subst reuse_slot.simps) (simp only: False nf if_False)
      then have "reuse_slot bytes need conflicts (start + 8) = Some off" using 1(2) by simp
      then show ?thesis using 1(1) [OF False nf] by simp
    qed
  qed (use 1(2) in \<open>subst (asm) reuse_slot.simps, simp\<close>)
qed

lemma new_stack_spec:
  "new_stack t bytes = (off, need) \<Longrightarrow> need = stack_units t * 8 \<and> off mod need = 0 \<and> bytes \<le> off"
proof -
  assume n: "new_stack t bytes = (off, need)"
  have s: "need = 8 \<or> need = 16" "need = stack_units t * 8" using n stack_units_cases [of t] by (auto simp: new_stack_def Let_def)
  have "off = (bytes + need - 1) div need * need" using n by (auto simp: new_stack_def Let_def)
  then show ?thesis using s by auto
qed

end
