(* ===== verification/AssignmentSound.thy ===== *)
theory AssignmentSound
  imports AssignmentChoice
begin

text \<open>
  \<open>MachineAllocation::assign\<close> (\<open>lib/CodeGen/Assignment.cpp\<close>) is sound: assigning one register keeps the invariant, the
  invariant holds at the start, and at the end registers that hold values at the same point share no location unless
  one of the ranges is split.
\<close>

section \<open>Assigning a register\<close>

definition unbound :: "allocation_input \<Rightarrow> nat \<Rightarrow> bool" where
  "unbound inp r \<longleftrightarrow> ar_binding (register_at inp r) = None"

definition settled :: "nat \<Rightarrow> allocation_input \<Rightarrow> alloc_state \<Rightarrow> hold set \<Rightarrow> nat set \<Rightarrow> bool" where
  "settled ld_size inp s H D \<longleftrightarrow> D \<subseteq> {physical_count inp..<register_count inp} \<and> as_reusable s \<le> as_stack_bytes s \<and>
     (\<forall>h\<in>H. fst h < physical_count inp \<or> fst h \<in> D \<and> unbound inp (fst h)) \<and>
     (\<forall>r\<in>D. unbound inp r \<and> ranges_of inp r \<noteq> [] \<longrightarrow> location_fits ld_size inp (as_reusable s) (as_stack_bytes s) r (as_locations s ! r)) \<and>
     (\<forall>r\<in>D. unbound inp r \<longrightarrow> (\<forall>n<length (ranges_of inp r). (r, n) \<in> H \<or> is_split inp (as_spill s) (r, n)))"

lemma settledD:
  assumes "settled ld_size inp s H D"
  shows "D \<subseteq> {physical_count inp..<register_count inp}" "h \<in> H \<Longrightarrow> fst h < physical_count inp \<or> fst h \<in> D \<and> unbound inp (fst h)"
    "r \<in> D \<Longrightarrow> unbound inp r \<Longrightarrow> ranges_of inp r \<noteq> [] \<Longrightarrow> location_fits ld_size inp (as_reusable s) (as_stack_bytes s) r (as_locations s ! r)"
    "r \<in> D \<Longrightarrow> unbound inp r \<Longrightarrow> n < length (ranges_of inp r) \<Longrightarrow> (r, n) \<in> H \<or> is_split inp (as_spill s) (r, n)"
    "as_reusable s \<le> as_stack_bytes s"
  using assms unfolding settled_def by blast+

lemma gap_marks_update: "(\<And>h. h \<in> H \<Longrightarrow> fst h \<noteq> r) \<Longrightarrow> gap_marks inp m (locs[r := l]) H = gap_marks inp m locs H"
  unfolding gap_marks_def by (simp add: hold_location_update cong: bex_cong)

lemma alloc_inv_update:
  assumes inv: "alloc_inv inp s H" and r: "\<And>h. h \<in> H \<Longrightarrow> fst h \<noteq> r"
  shows "alloc_inv inp (s\<lparr>as_locations := (as_locations s)[r := l]\<rparr>) H"
proof -
  have f: "\<And>h. h \<in> fixed_holds inp H \<Longrightarrow> fst h \<noteq> r" using r by (auto simp: fixed_holds_def)
  have "held_apart inp ((as_locations s)[r := l]) H = held_apart inp (as_locations s) H"
    using r unfolding held_apart_def by (simp add: hold_location_update cong: ball_cong)
  moreover have "(\<forall>h\<in>H. physical_count inp \<le> fst h \<longrightarrow> location_register (hold_location inp ((as_locations s)[r := l]) h) \<inter> global_encodings inp = {})"
    using alloc_invD(9) [OF inv] r by (auto simp: hold_location_update)
  ultimately show ?thesis
    using alloc_invD(1-8) [OF inv] marks_update [OF r] marks_update(1) [OF f] gap_marks_update [OF r] by (simp add: alloc_inv_def)
qed

lemma alloc_inv_frame:
  "alloc_inv inp s H \<Longrightarrow> as_locations s' = as_locations s \<Longrightarrow> as_used s' = as_used s \<Longrightarrow> as_busy s' = as_busy s \<Longrightarrow> as_gaps s' = as_gaps s \<Longrightarrow>
   as_spill s' = as_spill s \<Longrightarrow> alloc_inv inp s' H"
  by (simp add: alloc_inv_def)

lemma location_fits_units:
  assumes "location_fits ld_size inp low high r loc"
  shows "loc \<noteq> NoLocation" "k \<in> location_units loc \<Longrightarrow> low div 8 \<le> k \<and> k < high div 8"
proof -
  show "loc \<noteq> NoLocation" using assms by (auto simp: location_fits_def)
  show "k \<in> location_units loc \<Longrightarrow> low div 8 \<le> k \<and> k < high div 8"
  proof (cases loc)
    case (OnStack off sz)
    assume k: "k \<in> location_units loc"
    have "low div 8 \<le> off div 8" "(off + sz) div 8 \<le> high div 8"
      using assms OnStack by (auto simp: location_fits_def intro: div_le_mono)
    then show ?thesis using k OnStack by auto
  qed auto
qed

lemma location_fits_mono: "location_fits ld_size inp low high r loc \<Longrightarrow> high \<le> high' \<Longrightarrow> location_fits ld_size inp low high' r loc"
  by (auto simp: location_fits_def split: location.splits)

text \<open>A gap that may be evicted when a register is chosen.\<close>

lemma candidates_evictable:
  assumes wf: "allocation_wf inp" and inv: "alloc_inv inp s H" and adv: "advanced inp" and c: "candidates_ok inp s reg q cs" and g: "g \<in> set cs"
  shows "evictable inp (as_locations s) H reg g" "gp_reg g \<noteq> reg \<Longrightarrow> gap_hold g \<in> H"
proof -
  note d = alloc_invD [OF inv]
  have "evictable inp (as_locations s) H reg g \<and> (gp_reg g \<noteq> reg \<longrightarrow> gap_hold g \<in> H)"
  proof (cases "gp_reg g = reg \<and> gap_hold g \<in> holds inp \<and> lg_blocks (hold_range inp (gap_hold g)) \<noteq> []")
    case True
    then show ?thesis using adv by (simp add: evictable_def)
  next
    case False
    then obtain e where e: "e \<in> set (as_gaps s)" "snd e = g" using c g unfolding candidates_ok_def by blast
    obtain h q' where h: "h \<in> H" "physical_count inp \<le> fst h" "lg_blocks (hold_range inp h) \<noteq> []"
      "hold_location inp (as_locations s) h = InRegister q'" "e = gap_of inp q' h" by (rule gap_marksD [OF d(7) [OF adv] e(1)])
    have g: "gap_hold g = h" "gp_physical g = q'" using e(2) h(5) by auto
    have "pr_encoding q' \<notin> location_register (hold_location inp (as_locations s) h')"
      if "h' \<in> H" "h' \<noteq> h" "overlap (hold_range inp h') (hold_range inp h)" for h'
      using held_once [OF wf d(1,8) h(1) that(1) h(4)] that(2,3) overlap_sym by blast
    moreover have "pr_encoding q' \<notin> global_encodings inp" using d(9) [OF h(1,2)] h(4) by simp
    ultimately show ?thesis using adv h d(1) g gap_hold_simps(1) [of g] by (auto simp: evictable_def)
  qed
  then show "evictable inp (as_locations s) H reg g" "gp_reg g \<noteq> reg \<Longrightarrow> gap_hold g \<in> H" by blast+
qed

text \<open>The location chosen is free across every range that will hold it.\<close>

lemma choose_location_spec:
  assumes wf: "allocation_wf inp" and inv: "alloc_inv inp s H" and set: "settled ld_size inp s H D" and reg: "reg < register_count inp" "reg \<notin> D" "physical_count inp \<le> reg"
    and conflicts: "conflicts = range_conflicts (ranges_of inp reg) (as_used s)" and ok: "choice_ok ld_size inp s H reg c"
    and ch: "choose_location inp reg conflicts (ch_best c) s = (loc, s1)"
  shows "location_fits ld_size inp (as_reusable s1) (as_stack_bytes s1) reg loc"
    "\<forall>h\<in>H. \<forall>n<length (ranges_of inp reg). overlap (hold_range inp h) (hold_range inp (reg, n)) \<longrightarrow>
       location_units (hold_location inp (as_locations s) h) \<inter> location_units loc = {}"
    "as_stack_bytes s \<le> as_stack_bytes s1" "as_reusable s1 = as_reusable s"
    "alloc_inv inp s1 H" "as_locations s1 = as_locations s" "as_spill s1 = as_spill s" "as_gaps s1 = as_gaps s" "as_order s1 = as_order s"
    "ch_best c = Some q \<Longrightarrow> loc = InRegister q" "ch_best c = None \<Longrightarrow> \<exists>off sz. loc = OnStack off sz"
proof -
  note d = alloc_invD [OF inv]
  have pts: "points_ok (point_total inp) (as_used s)" using d(4) by (simp add: marks_registers_def)
  have hreg: "(reg, n) \<in> holds inp" if "n < length (ranges_of inp reg)" for n using that reg(1) by (simp add: holds_def)
  have rng: "\<forall>lr\<in>set (ranges_of inp reg). range_within (point_total inp) lr"
    using hold_wf(1) [OF wf hreg] by (auto simp: in_set_conv_nth hold_range_def)
  note spec = range_conflicts_spec [OF pts rng]
  define t where "t = ar_type (register_at inp reg)"
  have all: "location_fits ld_size inp (as_reusable s1) (as_stack_bytes s1) reg loc \<and>
    (\<forall>h\<in>H. \<forall>n<length (ranges_of inp reg). overlap (hold_range inp h) (hold_range inp (reg, n)) \<longrightarrow>
       location_units (hold_location inp (as_locations s) h) \<inter> location_units loc = {}) \<and> as_stack_bytes s \<le> as_stack_bytes s1 \<and>
    (ch_best c = None \<longrightarrow> (\<exists>off sz. loc = OnStack off sz))"
  proof (cases "ch_best c")
    case (Some q)
    then show ?thesis using ch ok by (auto simp: choose_location_def choice_ok_def location_fits_def)
  next
    case None
    show ?thesis
    proof (cases "reuse_slot (as_stack_bytes s) (stack_units t * 8) (pl_stack conflicts) (as_reusable s)")
      case (Some off)
      note r = reuse_slot_spec [OF Some]
      have s1: "s1 = s" "loc = OnStack off (stack_units t * 8)" using ch None Some by (auto simp: choose_location_def t_def Let_def)
      have "location_units (hold_location inp (as_locations s) h) \<inter> location_units loc = {}"
        if h: "h \<in> H" "n < length (ranges_of inp reg)" "overlap (hold_range inp h) (hold_range inp (reg, n))" for h n
      proof -
        obtain p where p: "covers (hold_range inp h) p" "covers (hold_range inp (reg, n)) p" using h(3) by (auto simp: overlap_def)
        have pn: "p < point_total inp" using p(2) hold_wf(1) [OF wf hreg [OF h(2)]] by (auto simp: covers_def range_within_def)
        have "location_units (hold_location inp (as_locations s) h) \<subseteq> units_at (as_used s) p"
          using d(5) h(1) p(1) pn by (auto simp: marks_units_def held_at_def)
        moreover have "hold_range inp (reg, n) \<in> set (ranges_of inp reg)" using h(2) by (simp add: hold_range_def)
        ultimately have "location_units (hold_location inp (as_locations s) h) \<subseteq> bs_elems (pl_stack conflicts)"
          using p(2) spec(4) by (auto simp: conflicts)
        then show ?thesis using r spec(2) by (auto simp: s1 conflicts bits.element_laws)
      qed
      then show ?thesis using r by (auto simp: s1 location_fits_def t_def)
    next
      case new: None
      obtain off need where n: "new_stack t (as_stack_bytes s) = (off, need)" by fastforce
      note ns = new_stack_spec [OF n]
      have s1: "s1 = s\<lparr>as_stack_bytes := off + need\<rparr>" "loc = OnStack off need" using ch None new n by (auto simp: choose_location_def t_def Let_def)
      have "location_units (hold_location inp (as_locations s) h) \<inter> location_units loc = {}" if h: "h \<in> H" for h
      proof (cases "fst h < physical_count inp")
        case False
        have f: "location_fits ld_size inp (as_reusable s) (as_stack_bytes s) (fst h) (as_locations s ! fst h)"
          using settledD(2) [OF set h] False settledD(3) [OF set, of "fst h"] d(1) h by (force simp: holds_def)
        have lt: "k < off div 8" if "k \<in> location_units (as_locations s ! fst h)" for k
          using location_fits_units(2) [OF f that] div_le_mono [of "as_stack_bytes s" off 8] ns by linarith
        then show ?thesis using False by (auto simp: s1 hold_location_def dest!: lt)
      qed (simp add: hold_location_def)
      then show ?thesis using ns settledD(5) [OF set] by (auto simp: s1 location_fits_def t_def)
    qed
  qed
  show "location_fits ld_size inp (as_reusable s1) (as_stack_bytes s1) reg loc"
    "\<forall>h\<in>H. \<forall>n<length (ranges_of inp reg). overlap (hold_range inp h) (hold_range inp (reg, n)) \<longrightarrow>
       location_units (hold_location inp (as_locations s) h) \<inter> location_units loc = {}"
    "as_stack_bytes s \<le> as_stack_bytes s1" "ch_best c = None \<Longrightarrow> \<exists>off sz. loc = OnStack off sz"
    using all by blast+
  show "as_reusable s1 = as_reusable s" "alloc_inv inp s1 H" "as_locations s1 = as_locations s" "as_spill s1 = as_spill s" "as_gaps s1 = as_gaps s"
    "as_order s1 = as_order s" "ch_best c = Some q \<Longrightarrow> loc = InRegister q"
    using ch by (auto simp: choose_location_def Let_def split: option.splits prod.splits intro: alloc_inv_frame [OF inv])
qed

lemma own_start_hold:
  assumes wf: "allocation_wf inp" and g: "g \<in> set gs" "gp_reg g = reg" "gap_hold g \<in> holds inp" and n: "(reg, n) \<in> holds inp"
    and start: "nat (lg_start (hold_range inp (reg, n))) = nat (lg_start (hold_range inp (gap_hold g)))"
  shows "gap_hold g = (reg, n)"
proof (rule same_register_apart [OF wf g(3) n])
  show "fst (gap_hold g) = fst (reg, n)" using g(2) by simp
  have "lg_start (hold_range inp (gap_hold g)) = lg_start (hold_range inp (reg, n))"
    using start hold_bounds [OF wf g(3)] hold_bounds [OF wf n] by linarith
  then show "overlap (hold_range inp (gap_hold g)) (hold_range inp (reg, n))" by (rule same_start_overlap [OF wf g(3) n])
qed

lemma settle_register_step:
  assumes wf: "allocation_wf inp" and inv: "alloc_inv inp s H" and set: "settled ld_size inp s H D"
    and reg: "reg < register_count inp" "reg \<notin> D" "physical_count inp \<le> reg" "unbound inp reg"
    and conflicts: "conflicts = range_conflicts (ranges_of inp reg) (as_used s)" and ok: "choice_ok ld_size inp s H reg c"
    and s': "settle_register inp reg conflicts c s = s'"
  shows "\<exists>H'. alloc_inv inp s' H' \<and> settled ld_size inp s' H' (insert reg D) \<and> {h \<in> H. fst h < physical_count inp} \<subseteq> H'" "as_reusable s' = as_reusable s" "as_order s' = as_order s"
    "r \<noteq> reg \<Longrightarrow> as_locations s' ! r = as_locations s ! r"
proof -
  note d = alloc_invD [OF inv]
  let ?gs = "rev (ch_spilled c)" and ?n = "length (ranges_of inp reg)"
  obtain loc s1 where ch: "choose_location inp reg conflicts (ch_best c) s = (loc, s1)" by fastforce
  obtain s2 own where ev: "fold (evict_gap inp reg) ?gs (s1, []) = (s2, own)" by fastforce
  note cl = choose_location_spec [OF wf inv set reg(1-3) conflicts ok ch]
  let ?s3 = "s2\<lparr>as_locations := (as_locations s2)[reg := loc]\<rparr>"
  have s4: "s' = fold (place_range inp reg loc own) [0..<?n] ?s3" using s' ch ev by (simp add: settle_register_def)
  have hreg: "(reg, n) \<in> holds inp" if "n < ?n" for n using that reg(1) by (simp add: holds_def)
  have no: "fst h \<noteq> reg" if "h \<in> H" for h using settledD(2) [OF set that] reg(2,3) by auto
  have cand: "evictable inp (as_locations s) H reg g \<and> (gp_reg g \<noteq> reg \<longrightarrow> gap_hold g \<in> H)" if "g \<in> set ?gs" for g
  proof -
    have g: "g \<in> set (ch_spilled c)" using that by simp
    then have "advanced inp" using ok by (auto simp: choice_ok_def)
    moreover obtain q where "candidates_ok inp s reg q (ch_spilled c)" using ok g by (auto simp: choice_ok_def split: option.splits)
    ultimately show ?thesis using candidates_evictable [OF wf inv _ _ g] by blast
  qed
  have evs: "\<forall>g\<in>set ?gs. evictable inp (as_locations s1) H reg g" using cand cl(6) by simp
  note e = evict_gaps [OF wf cl(5) _ evs ev]
  have e1: "alloc_inv inp s2 (H - evicted reg ?gs)" "bs_wf own" "bs_elems own = own_starts inp reg ?gs"
    "\<And>g. g \<in> set ?gs \<Longrightarrow> is_split inp (as_spill s2) (gap_hold g)" "spill_grows (as_spill s) (as_spill s2)" "as_locations s2 = as_locations s"
    "as_stack_bytes s2 = as_stack_bytes s1" "as_reusable s2 = as_reusable s" "as_order s2 = as_order s"
    using e cl(4,6,7,9) by (simp_all add: bits.invars bits.element_laws)
  let ?H = "H - evicted reg ?gs"
  have inv3: "alloc_inv inp ?s3 ?H" by (rule alloc_inv_update [OF e1(1)]) (use no in auto)
  have ownhold: "\<exists>g\<in>set ?gs. gap_hold g = (reg, n)" if n: "n < ?n" and b: "bs_contains (nat (lg_start (hold_range inp (reg, n)))) own" for n
  proof -
    have "nat (lg_start (hold_range inp (reg, n))) \<in> own_starts inp reg ?gs" using b e1(2,3) by (simp add: bits.element_laws)
    then obtain g where g: "g \<in> set ?gs" "gp_reg g = reg" "nat (lg_start (hold_range inp (reg, n))) = nat (lg_start (hold_range inp (gap_hold g)))"
      unfolding own_starts_def by blast
    have "gap_hold g \<in> holds inp" using cand [OF g(1)] by (simp add: evictable_def)
    then show ?thesis using own_start_hold [OF wf g(1,2) _ hreg [OF n] g(3)] g(1) by blast
  qed
  have dropped: "\<exists>g\<in>set ?gs. gap_hold g = (reg, n)" if "n < ?n" "\<not> keeps_range inp loc own (reg, n)" for n
    using ownhold [OF that(1)] that(2) by (simp add: keeps_range_def)
  have keep: "if keeps_range inp loc own (reg, n) then location_register loc \<inter> global_encodings inp = {} \<and>
        (\<forall>h'\<in>?H. fst h' \<noteq> reg \<and> overlap (hold_range inp h') (hold_range inp (reg, n)) \<longrightarrow> \<not> clash (hold_location inp (as_locations ?s3) h') loc)
      else lg_blocks (hold_range inp (reg, n)) \<noteq> []" if n: "n < ?n" for n
  proof (cases "keeps_range inp loc own (reg, n)")
    case False
    then obtain g where "g \<in> set ?gs" "gap_hold g = (reg, n)" using dropped [OF n] by blast
    then show ?thesis using False cand [of g] by (auto simp: evictable_def)
  next
    case True
    have locs: "hold_location inp (as_locations ?s3) h' = hold_location inp (as_locations s) h'" if "h' \<in> ?H" for h'
      using that no by (simp add: e1(6) hold_location_update)
    have "location_register loc \<inter> global_encodings inp = {} \<and>
        (\<forall>h'\<in>?H. overlap (hold_range inp h') (hold_range inp (reg, n)) \<longrightarrow> \<not> clash (hold_location inp (as_locations s) h') loc)"
    proof (cases "ch_best c")
      case None
      then obtain off sz where "loc = OnStack off sz" using cl(11) by blast
      then show ?thesis using cl(2) n by (auto simp: clash_def)
    next
      case (Some q)
      have loc: "loc = InRegister q" by (rule cl(10) [OF Some])
      have nc: "(reg, n) \<notin> gap_hold ` set (ch_spilled c)"
      proof
        assume "(reg, n) \<in> gap_hold ` set (ch_spilled c)"
        then obtain g where g: "g \<in> set ?gs" "gap_hold g = (reg, n)" by auto
        have "gp_reg g = reg" using g(2) gap_hold_simps(1) [of g] by simp
        then have "nat (lg_start (hold_range inp (reg, n))) \<in> own_starts inp reg ?gs" using g unfolding own_starts_def by force
        then have "bs_contains (nat (lg_start (hold_range inp (reg, n)))) own" using e1(2,3) by (simp add: bits.element_laws)
        moreover have "advanced inp" using ok g(1) by (auto simp: choice_ok_def)
        ultimately show False using True loc by (simp add: keeps_range_def)
      qed
      have "cleared inp s H q (ch_spilled c) (reg, n)" using ok Some n by (simp add: choice_ok_def)
      then have c: "pr_encoding q \<notin> global_encodings inp" "\<And>h'. h' \<in> H \<Longrightarrow> overlap (hold_range inp h') (hold_range inp (reg, n)) \<Longrightarrow>
          pr_encoding q \<in> location_register (hold_location inp (as_locations s) h') \<Longrightarrow> h' \<in> gap_hold ` set (ch_spilled c)"
        using nc by (auto simp: cleared_def)
      have "h' \<in> evicted reg ?gs" if "h' \<in> H" "h' \<in> gap_hold ` set (ch_spilled c)" for h'
        using that no [OF that(1)] gap_hold_simps(1) unfolding evicted_def by force
      then show ?thesis using c by (auto simp: loc)
    qed
    then show ?thesis using True locs by simp
  qed
  let ?K = "Pair reg ` {n \<in> set [0..<?n]. keeps_range inp loc own (reg, n)}"
  have at: "as_locations ?s3 ! reg = loc" using d(2) reg(1) by (simp add: e1(6))
  have inv4: "alloc_inv inp s' (?H \<union> ?K)"
    unfolding s4 by (rule place_ranges_inv [OF wf reg(1,3) location_fits_units(1) [OF cl(1)] inv3 at]) (simp, intro ballI keep, simp)
  have f: "as_locations s' = (as_locations s)[reg := loc]" "as_spill s' = as_spill s2" "as_stack_bytes s' = as_stack_bytes s1" "as_reusable s' = as_reusable s"
    "as_order s' = as_order s" by (simp_all add: s4 e1)
  have "settled ld_size inp s' (?H \<union> ?K) (insert reg D)"
    unfolding settled_def
  proof (intro conjI ballI impI allI)
    show "insert reg D \<subseteq> {physical_count inp..<register_count inp}" using settledD(1) [OF set] reg by auto
    show "as_reusable s' \<le> as_stack_bytes s'" using settledD(5) [OF set] cl(3) by (simp add: f)
  next
    fix h assume "h \<in> ?H \<union> ?K"
    then show "fst h < physical_count inp \<or> fst h \<in> insert reg D \<and> unbound inp (fst h)" using settledD(2) [OF set, of h] reg(4) by auto
  next
    fix r assume r: "r \<in> insert reg D" "unbound inp r \<and> ranges_of inp r \<noteq> []"
    show "location_fits ld_size inp (as_reusable s') (as_stack_bytes s') r (as_locations s' ! r)"
    proof (cases "r = reg")
      case True
      then show ?thesis using cl(1,4) d(2) reg(1) by (simp add: f)
    next
      case False
      then show ?thesis using settledD(3) [OF set, of r] r cl(3) by (auto simp: f intro: location_fits_mono)
    qed
  next
    fix r n assume r: "r \<in> insert reg D" "unbound inp r" "n < length (ranges_of inp r)"
    have sp: "is_split inp (as_spill s2) (r', m)" if "(r', m) \<in> gap_hold ` set ?gs" for r' m
      using that e1(4) by auto
    show "(r, n) \<in> ?H \<union> ?K \<or> is_split inp (as_spill s') (r, n)"
    proof (cases "r = reg")
      case True
      show ?thesis
      proof (cases "keeps_range inp loc own (reg, n)")
        case True
        then show ?thesis using \<open>r = reg\<close> r(3) by simp
      next
        case False
        then obtain g where "g \<in> set ?gs" "gap_hold g = (reg, n)" using dropped [of n] r(3) \<open>r = reg\<close> by blast
        then show ?thesis using e1(4) \<open>r = reg\<close> by (fastforce simp: f)
      qed
    next
      case False
      then have "r \<in> D" using r(1) by simp
      then consider "(r, n) \<in> H" | "is_split inp (as_spill s) (r, n)" using settledD(4) [OF set _ r(2,3)] by blast
      then show ?thesis
      proof cases
        case 1
        then show ?thesis using sp [of r n] by (auto simp: f evicted_def)
      next
        case 2
        have "r < register_count inp" using \<open>r \<in> D\<close> settledD(1) [OF set] by auto
        then have "(r, n) \<in> holds inp" using r(3) by (simp add: holds_def)
        then have "\<forall>b\<in>set (lg_blocks (hold_range inp (r, n))). b < length (as_spill s)"
          using hold_wf(2) [OF wf] d(3) by (simp add: spill_wf_def)
        then show ?thesis using spill_growsD [OF e1(5) 2] by (simp add: f)
      qed
    qed
  qed
  moreover have "{h \<in> H. fst h < physical_count inp} \<subseteq> ?H \<union> ?K"
  proof
    fix h assume h: "h \<in> {h \<in> H. fst h < physical_count inp}"
    have "h \<notin> evicted reg ?gs"
    proof
      assume "h \<in> evicted reg ?gs"
      then obtain g where g: "g \<in> set ?gs" "gp_reg g \<noteq> reg" "h = gap_hold g" by (auto simp: evicted_def)
      then have "physical_count inp \<le> gp_reg g" using cand [OF g(1)] by (simp add: evictable_def)
      then show False using h g(3) by simp
    qed
    then show "h \<in> ?H \<union> ?K" using h by simp
  qed
  ultimately show "\<exists>H'. alloc_inv inp s' H' \<and> settled ld_size inp s' H' (insert reg D) \<and> {h \<in> H. fst h < physical_count inp} \<subseteq> H'"
    using inv4 by blast
  show "as_reusable s' = as_reusable s" "as_order s' = as_order s" "r \<noteq> reg \<Longrightarrow> as_locations s' ! r = as_locations s ! r" by (simp_all add: f)
qed

lemma assign_register_step:
  assumes wf: "allocation_wf inp" and inv: "alloc_inv inp s H" and set: "settled ld_size inp s H D"
    and reg: "reg < register_count inp" "reg \<notin> D" "physical_count inp \<le> reg"
  shows "case assign_register ld_size inp reg s of None \<Rightarrow> False | Some (Inl e) \<Rightarrow> True
    | Some (Inr s') \<Rightarrow> (\<exists>H'. alloc_inv inp s' H' \<and> settled ld_size inp s' H' (insert reg D) \<and> {h \<in> H. fst h < physical_count inp} \<subseteq> H') \<and> as_reusable s' = as_reusable s \<and>
        as_order s' = as_order s @ [reg] \<and> (\<forall>r. r \<noteq> reg \<longrightarrow> as_locations s' ! r = as_locations s ! r)"
proof -
  let ?s = "s\<lparr>as_order := as_order s @ [reg]\<rparr>"
  have inv': "alloc_inv inp ?s H" by (rule alloc_inv_frame [OF inv]) simp_all
  have set': "settled ld_size inp ?s H D" using set by (simp add: settled_def)
  have no: "fst h \<noteq> reg" if "h \<in> H" for h using settledD(2) [OF set that] reg(2,3) by auto
  have keepD: "settled ld_size inp (?s\<lparr>as_locations := ls\<rparr>) H (insert reg D)"
    if "ar_binding (register_at inp reg) \<noteq> None \<or> ranges_of inp reg = []" "\<And>r. r \<in> D \<Longrightarrow> ls ! r = as_locations s ! r" for ls
    using set reg that by (auto simp: settled_def unbound_def)
  show ?thesis
  proof (cases "ar_binding (register_at inp reg)")
    case (Some q)
    have "settled ld_size inp (?s\<lparr>as_locations := (as_locations s)[reg := InRegister q]\<rparr>) H (insert reg D)"
      by (rule keepD) (use Some reg(2) in \<open>auto intro!: nth_list_update_neq\<close>)
    then show ?thesis using Some alloc_inv_update [OF inv', of reg] no by (auto simp: assign_register_def)
  next
    case None
    show ?thesis
    proof (cases "ranges_of inp reg = []")
      case True
      have "settled ld_size inp (?s\<lparr>as_locations := as_locations s\<rparr>) H (insert reg D)" by (rule keepD) (use True in auto)
      then have "settled ld_size inp ?s H (insert reg D)" by (simp add: settled_def)
      then show ?thesis using None True inv' by (auto simp: assign_register_def)
    next
      case False
      note ch = choose_register_spec [OF wf inv' reg(1) refl, of ld_size]
      show ?thesis
      proof (cases "\<exists>c. choose_register ld_size inp ?s reg (range_conflicts (ranges_of inp reg) (as_used ?s)) = Some (Inr c)")
        case True
        then obtain c where c: "choose_register ld_size inp ?s reg (range_conflicts (ranges_of inp reg) (as_used ?s)) = Some (Inr c)" by blast
        then have ok: "choice_ok ld_size inp ?s H reg c" using ch by simp
        note st = settle_register_step [OF wf inv' set' reg _ refl ok refl]
        show ?thesis using None False c st by (simp add: assign_register_def unbound_def)
      next
        case no: False
        then show ?thesis using ch None False by (auto simp: assign_register_def Let_def split: option.splits sum.splits)
      qed
    qed
  qed
qed

lemma assign_in_order_steps:
  assumes wf: "allocation_wf inp"
  shows "alloc_inv inp s H \<Longrightarrow> settled ld_size inp s H D \<Longrightarrow> distinct rs \<Longrightarrow> set rs \<inter> D = {} \<Longrightarrow> set rs \<subseteq> {physical_count inp..<register_count inp} \<Longrightarrow>
    case assign_in_order ld_size inp rs s of None \<Rightarrow> False | Some (Inl e) \<Rightarrow> True
    | Some (Inr s') \<Rightarrow> (\<exists>H'. alloc_inv inp s' H' \<and> settled ld_size inp s' H' (D \<union> set rs) \<and> {h \<in> H. fst h < physical_count inp} \<subseteq> H') \<and> as_reusable s' = as_reusable s \<and>
        as_order s' = as_order s @ rs \<and> (\<forall>r. r \<notin> set rs \<longrightarrow> as_locations s' ! r = as_locations s ! r)"
proof (induction rs arbitrary: s H D)
  case Nil
  then show ?case by auto
next
  case (Cons r rs)
  have r: "r < register_count inp" "r \<notin> D" "physical_count inp \<le> r" using Cons.prems(4,5) by auto
  note st = assign_register_step [OF wf Cons.prems(1,2) r]
  show ?case
  proof (cases "\<exists>s1. assign_register ld_size inp r s = Some (Inr s1)")
    case False
    then show ?thesis using st by (auto split: option.splits sum.splits)
  next
    case True
    then obtain s1 where s1: "assign_register ld_size inp r s = Some (Inr s1)" by blast
    then obtain H1 where h: "alloc_inv inp s1 H1" "settled ld_size inp s1 H1 (insert r D)" "as_reusable s1 = as_reusable s"
      "as_order s1 = as_order s @ [r]" "\<forall>r'. r' \<noteq> r \<longrightarrow> as_locations s1 ! r' = as_locations s ! r'" "{h \<in> H. fst h < physical_count inp} \<subseteq> H1" using st by auto
    have "distinct rs" "set rs \<inter> insert r D = {}" "set rs \<subseteq> {physical_count inp..<register_count inp}" using Cons.prems(3-5) by auto
    note IH = Cons.IH [OF h(1,2) this]
    show ?thesis
    proof (cases "\<exists>s2. assign_in_order ld_size inp rs s1 = Some (Inr s2)")
      case False
      then show ?thesis using IH s1 by (auto split: option.splits sum.splits)
    next
      case True
      then obtain s2 where s2: "assign_in_order ld_size inp rs s1 = Some (Inr s2)" by blast
      then obtain H2 where h2: "alloc_inv inp s2 H2" "settled ld_size inp s2 H2 (insert r D \<union> set rs)" "{h \<in> H1. fst h < physical_count inp} \<subseteq> H2"
        using IH by auto
      moreover have "{h \<in> H. fst h < physical_count inp} \<subseteq> H2" using h(6) h2(3) by blast
      moreover have "insert r D \<union> set rs = D \<union> set (r # rs)" by auto
      ultimately show ?thesis using IH s1 s2 h(3-5) by auto
    qed
  qed
qed

section \<open>The start\<close>

lemma global_bits:
  "bs_wf bits \<Longrightarrow> bs_wf (fold (\<lambda>q bits. bs_insert (pr_encoding q) bits) qs bits) \<and>
   bs_elems (fold (\<lambda>q bits. bs_insert (pr_encoding q) bits) qs bits) = bs_elems bits \<union> pr_encoding ` set qs"
  by (induction qs arbitrary: bits) (auto simp: bits.invars bits.element_laws)

lemma alloc_start_inv:
  assumes wf: "allocation_wf inp"
  shows "alloc_inv inp (alloc_start inp) {}"
proof -
  let ?g = "fold (\<lambda>q bits. bs_insert (pr_encoding q) bits) (ai_globals inp) []"
  have g: "bs_wf ?g" "bs_elems ?g = global_encodings inp" using global_bits [of "[]" "ai_globals inp"] by (auto simp: global_encodings_def bits.invars bits.element_laws)
  have pts: "points_ok (point_total inp) (replicate (nat (ai_points inp) + 1) \<lparr>pl_physical = ?g, pl_stack = []\<rparr>)"
    "\<And>p. p < point_total inp \<Longrightarrow> registers_at (replicate (nat (ai_points inp) + 1) \<lparr>pl_physical = ?g, pl_stack = []\<rparr>) p = global_encodings inp"
    "\<And>p. p < point_total inp \<Longrightarrow> units_at (replicate (nat (ai_points inp) + 1) \<lparr>pl_physical = ?g, pl_stack = []\<rparr>) p = {}"
    using g by (simp_all add: points_ok_def point_total_def registers_at_def units_at_def bits.invars bits.element_laws del: replicate.simps)
  have sp: "spill_wf inp (ai_spill inp)" using wf by (auto simp: allocation_wf_def spill_wf_def list_all_iff)
  have e: "held_at inp {} p = {}" "fixed_holds inp {} = {}" for p by (simp_all add: held_at_def fixed_holds_def)
  show ?thesis
    using pts sp by (simp add: alloc_inv_def alloc_start_def Let_def marks_registers_def marks_units_def e held_apart_def gap_marks_def del: replicate.simps)
qed

text \<open>The slots of the addressable registers.\<close>

fun separate :: "location \<Rightarrow> location \<Rightarrow> bool" where
  "separate (InRegister a) (InRegister b) \<longleftrightarrow> pr_encoding a \<noteq> pr_encoding b"
| "separate (OnStack off sz) (OnStack off' sz') \<longleftrightarrow> off + sz \<le> off' \<or> off' + sz' \<le> off"
| "separate _ _ \<longleftrightarrow> True"

lemma separate_sym: "separate a b \<Longrightarrow> separate b a"
  by (cases a; cases b) auto

definition slots_ok :: "allocation_input \<Rightarrow> location list \<Rightarrow> nat \<Rightarrow> nat set \<Rightarrow> bool" where
  "slots_ok inp locs bytes A \<longleftrightarrow>
     (\<forall>r\<in>A. \<exists>off. locs ! r = OnStack off (stack_units (ar_type (register_at inp r)) * 8) \<and>
        off mod (stack_units (ar_type (register_at inp r)) * 8) = 0 \<and> off + stack_units (ar_type (register_at inp r)) * 8 \<le> bytes) \<and>
     (\<forall>r\<in>A. \<forall>r'\<in>A. r \<noteq> r' \<longrightarrow> separate (locs ! r) (locs ! r'))"

lemma slots_okD:
  assumes "slots_ok inp locs bytes A"
  shows "r \<in> A \<Longrightarrow> \<exists>off. locs ! r = OnStack off (stack_units (ar_type (register_at inp r)) * 8) \<and>
      off mod (stack_units (ar_type (register_at inp r)) * 8) = 0 \<and> off + stack_units (ar_type (register_at inp r)) * 8 \<le> bytes"
    "r \<in> A \<Longrightarrow> r' \<in> A \<Longrightarrow> r \<noteq> r' \<Longrightarrow> separate (locs ! r) (locs ! r')"
  using assms unfolding slots_ok_def by blast+

lemma place_addressables:
  "distinct rs \<Longrightarrow> set rs \<inter> A = {} \<Longrightarrow> set rs \<subseteq> {physical_count inp..<register_count inp} \<Longrightarrow> alloc_inv inp s {} \<Longrightarrow>
   slots_ok inp (as_locations s) (as_stack_bytes s) A \<Longrightarrow> as_reusable s = as_stack_bytes s \<Longrightarrow> as_order s = [] \<Longrightarrow>
   let s' = fold (place_addressable inp) rs s in alloc_inv inp s' {} \<and> slots_ok inp (as_locations s') (as_stack_bytes s') (A \<union> set rs) \<and>
     as_reusable s' = as_stack_bytes s' \<and> as_order s' = []"
proof (induction rs arbitrary: s A)
  case (Cons r rs)
  obtain off need where n: "new_stack (ar_type (register_at inp r)) (as_stack_bytes s) = (off, need)" by fastforce
  note ns = new_stack_spec [OF n]
  let ?s1 = "s\<lparr>as_locations := (as_locations s)[r := OnStack off need]\<rparr>"
  let ?s = "?s1\<lparr>as_stack_bytes := off + need, as_reusable := off + need\<rparr>"
  have p: "place_addressable inp r s = ?s" using n by (simp add: place_addressable_def)
  have "alloc_inv inp ?s1 {}" by (rule alloc_inv_update [OF Cons.prems(4)]) simp
  then have inv: "alloc_inv inp ?s {}" by (rule alloc_inv_frame) simp_all
  have len: "r < length (as_locations s)" using alloc_invD(2) [OF Cons.prems(4)] Cons.prems(3) by simp
  have old: "\<exists>o'. as_locations s ! r' = OnStack o' (stack_units (ar_type (register_at inp r')) * 8) \<and>
        o' mod (stack_units (ar_type (register_at inp r')) * 8) = 0 \<and> o' + stack_units (ar_type (register_at inp r')) * 8 \<le> off" if "r' \<in> A" for r'
    using Cons.prems(5) that ns unfolding slots_ok_def by fastforce
  have at: "as_locations ?s ! r' = (if r' = r then OnStack off need else as_locations s ! r')" for r' using len by simp
  have slots: "slots_ok inp (as_locations ?s) (as_stack_bytes ?s) (insert r A)"
    unfolding slots_ok_def
  proof (intro conjI ballI impI)
    fix r' assume r': "r' \<in> insert r A"
    show "\<exists>o'. as_locations ?s ! r' = OnStack o' (stack_units (ar_type (register_at inp r')) * 8) \<and>
        o' mod (stack_units (ar_type (register_at inp r')) * 8) = 0 \<and> o' + stack_units (ar_type (register_at inp r')) * 8 \<le> as_stack_bytes ?s"
    proof (cases "r' = r")
      case True
      have need: "stack_units (ar_type (register_at inp r')) * 8 = need" and off: "off mod need = 0" using ns True by blast+
      show ?thesis unfolding need using True len off by simp
    next
      case False then show ?thesis using old [of r'] r' by fastforce
    qed
    fix r'' assume r'': "r'' \<in> insert r A" "r' \<noteq> r''"
    show "separate (as_locations ?s ! r') (as_locations ?s ! r'')"
    proof (cases "r' = r \<or> r'' = r")
      case True
      then show ?thesis using old r' r'' ns unfolding at by fastforce
    next
      case False
      then show ?thesis using Cons.prems(5) r' r'' unfolding at slots_ok_def by simp
    qed
  qed
  have "let s' = fold (place_addressable inp) rs ?s in alloc_inv inp s' {} \<and> slots_ok inp (as_locations s') (as_stack_bytes s') (insert r A \<union> set rs) \<and>
     as_reusable s' = as_stack_bytes s' \<and> as_order s' = []"
    by (rule Cons.IH [OF _ _ _ inv slots]) (use Cons.prems(1-3,7) in auto)
  then show ?case by (simp add: p del: Un_insert_left) (simp add: Let_def)
qed (simp add: Let_def)

end
