(* ===== verification/AssignmentResult.thy ===== *)
theory AssignmentResult
  imports AssignmentSound
begin

text \<open>
  The result of \<open>MachineAllocation::assign\<close> (\<open>lib/CodeGen/Assignment.cpp\<close>): a sound allocation, for the input of the
  analyses.
\<close>

section \<open>Reserving the physical registers\<close>

lemma fold_nth: "fold f xs s = fold (\<lambda>n. f (xs ! n)) [0..<length xs] s"
proof -
  have "fold f xs s = fold f (map ((!) xs) [0..<length xs]) s" by (simp only: map_nth)
  also have "\<dots> = fold (\<lambda>n. f (xs ! n)) [0..<length xs] s" by (simp only: fold_map comp_def)
  finally show ?thesis .
qed

definition reserve_both :: "allocation_input \<Rightarrow> location \<Rightarrow> live_range \<Rightarrow> alloc_state \<Rightarrow> alloc_state" where
  "reserve_both inp loc lr s = s\<lparr>as_used := reserve_points loc lr True (as_used s),
     as_busy := (if advanced inp then reserve_points loc lr True (as_busy s) else as_busy s)\<rparr>"

lemma reserve_physical_both:
  "reserve_physical inp r s = fold (\<lambda>n. reserve_both inp (InRegister (ri_reg (tm_registers (mf_target (ai_function inp)) ! r))) (hold_range inp (r, n)))
     [0..<length (ranges_of inp r)] s"
  unfolding reserve_physical_def Let_def hold_range_def fst_conv snd_conv
  by (subst fold_nth) (intro fold_cong refl, simp add: reserve_both_def fun_eq_iff)

definition physical_holds :: "allocation_input \<Rightarrow> hold set \<Rightarrow> bool" where
  "physical_holds inp H \<longleftrightarrow> (\<forall>h\<in>H. fst h < physical_count inp)"

lemma physical_location:
  "allocation_wf inp \<Longrightarrow> fst h < physical_count inp \<Longrightarrow> location_register (hold_location inp locs h) = {fst h} \<and> location_units (hold_location inp locs h) = {}"
  by (auto simp: hold_location_def allocation_wf_def list_all_iff)

lemma reserve_both_inv:
  assumes wf: "allocation_wf inp" and h: "h \<in> holds inp" "fst h < physical_count inp" and inv: "alloc_inv inp s H" and phys: "physical_holds inp H"
  shows "alloc_inv inp (reserve_both inp (InRegister (ri_reg (tm_registers (mf_target (ai_function inp)) ! fst h))) (hold_range inp h) s) (insert h H) \<and>
    physical_holds inp (insert h H)"
proof -
  let ?loc = "InRegister (ri_reg (tm_registers (mf_target (ai_function inp)) ! fst h))" and ?locs = "as_locations s"
  note d = alloc_invD [OF inv]
  have at: "hold_location inp ?locs h = ?loc" using h(2) by (simp add: hold_location_def)
  have lt: "fst h' < physical_count inp" if "h' \<in> insert h H" for h' using that h(2) phys by (auto simp: physical_holds_def)
  have fixed: "fixed_holds inp (insert h H) = insert h (fixed_holds inp H)" using h(2) by (auto simp: fixed_holds_def)
  have apart: "held_apart inp ?locs (insert h H)"
    unfolding held_apart_def clash_def using physical_location [OF wf lt] by auto
  have gaps: "gap_marks inp (as_gaps s) ?locs (insert h H)" if "advanced inp"
    using d(7) [OF that] h(2) unfolding gap_marks_def by auto
  have low: "\<forall>h'\<in>insert h H. physical_count inp \<le> fst h' \<longrightarrow> location_register (hold_location inp ?locs h') \<inter> global_encodings inp = {}"
    using lt by (meson linorder_not_less)
  have "alloc_inv inp (reserve_both inp ?loc (hold_range inp h) s) (insert h H)"
    unfolding alloc_inv_def
    using d(1,2,3) h(1) marks_reserve(1) [OF wf h(1) at d(4)] marks_reserve(2) [OF wf h(1) at d(4) d(5)]
      marks_reserve(1) [OF wf h(1) at d(6)] apart gaps low by (simp add: reserve_both_def fixed)
  then show ?thesis using lt by (simp add: physical_holds_def)
qed

lemma reserve_both_frame [simp]:
  "as_locations (reserve_both inp loc lr s) = as_locations s" "as_stack_bytes (reserve_both inp loc lr s) = as_stack_bytes s"
  "as_reusable (reserve_both inp loc lr s) = as_reusable s" "as_order (reserve_both inp loc lr s) = as_order s"
  by (simp_all add: reserve_both_def)

definition same_frame :: "alloc_state \<Rightarrow> alloc_state \<Rightarrow> bool" where
  "same_frame s s' \<longleftrightarrow> as_locations s' = as_locations s \<and> as_stack_bytes s' = as_stack_bytes s \<and> as_reusable s' = as_reusable s \<and> as_order s' = as_order s"

lemma reserve_physical_inv:
  assumes wf: "allocation_wf inp" and r: "r < physical_count inp" and inv: "alloc_inv inp s H" "physical_holds inp H"
  shows "alloc_inv inp (reserve_physical inp r s) (H \<union> Pair r ` {..<length (ranges_of inp r)}) \<and>
    physical_holds inp (H \<union> Pair r ` {..<length (ranges_of inp r)}) \<and> same_frame s (reserve_physical inp r s)"
proof -
  let ?f = "\<lambda>n. reserve_both inp (InRegister (ri_reg (tm_registers (mf_target (ai_function inp)) ! r))) (hold_range inp (r, n))"
  have "alloc_inv inp (fold ?f [0..<k] s) (H \<union> Pair r ` {..<k}) \<and> physical_holds inp (H \<union> Pair r ` {..<k}) \<and> same_frame s (fold ?f [0..<k] s)"
    if "k \<le> length (ranges_of inp r)" for k
    using that
  proof (induction k)
    case 0
    then show ?case using inv by (simp add: same_frame_def)
  next
    case (Suc k)
    then have IH: "alloc_inv inp (fold ?f [0..<k] s) (H \<union> Pair r ` {..<k})" "physical_holds inp (H \<union> Pair r ` {..<k})" "same_frame s (fold ?f [0..<k] s)" by auto
    have h: "(r, k) \<in> holds inp" using Suc.prems r by (simp add: holds_def register_count_def)
    have "insert (r, k) (H \<union> Pair r ` {..<k}) = H \<union> Pair r ` {..<Suc k}" by (auto simp: lessThan_Suc)
    then show ?case using reserve_both_inv [OF wf h _ IH(1,2)] r IH(3) by (simp add: same_frame_def)
  qed
  from this [OF order_refl] show ?thesis unfolding reserve_physical_both .
qed

lemma reserve_physicals_inv:
  assumes wf: "allocation_wf inp" and inv: "alloc_inv inp s {}"
  shows "k \<le> physical_count inp \<Longrightarrow> alloc_inv inp (fold (reserve_physical inp) [0..<k] s) {h \<in> holds inp. fst h < k} \<and>
    same_frame s (fold (reserve_physical inp) [0..<k] s)"
proof (induction k)
  case 0
  then show ?case using inv by (simp add: same_frame_def)
next
  case (Suc k)
  then have IH: "alloc_inv inp (fold (reserve_physical inp) [0..<k] s) {h \<in> holds inp. fst h < k}"
    "same_frame s (fold (reserve_physical inp) [0..<k] s)" and k: "k < physical_count inp" by auto
  have phys: "physical_holds inp {h \<in> holds inp. fst h < k}" using k by (auto simp: physical_holds_def)
  have "{h \<in> holds inp. fst h < k} \<union> Pair k ` {..<length (ranges_of inp k)} = {h \<in> holds inp. fst h < Suc k}"
    using k by (auto simp: holds_def less_Suc_eq register_count_def)
  then show ?case using reserve_physical_inv [OF wf k IH(1) phys] IH(2) by (simp add: same_frame_def)
qed

section \<open>Soundness\<close>

text \<open>A slot kept apart: the location of an addressable register, which no other register shares.\<close>

definition slot_kept :: "allocation_input \<Rightarrow> allocation \<Rightarrow> nat \<Rightarrow> bool" where
  "slot_kept inp al r \<longleftrightarrow> (case al_locations al ! r of
     OnStack off sz \<Rightarrow> sz = stack_units (ar_type (register_at inp r)) * 8 \<and> off mod sz = 0 \<and> off + sz \<le> al_reusable al \<and> al_reusable al \<le> al_stack_bytes al
   | _ \<Rightarrow> False) \<and>
   (\<forall>r'. physical_count inp \<le> r' \<and> r' < register_count inp \<and> r' \<noteq> r \<and> (r' \<in> set (al_order al) \<longrightarrow> unbound inp r' \<and> ranges_of inp r' \<noteq> []) \<longrightarrow>
      separate (al_locations al ! r') (al_locations al ! r))"

text \<open>A range kept apart: no register that may hold a value at one of its points has its location there.\<close>

definition range_kept :: "allocation_input \<Rightarrow> allocation \<Rightarrow> nat \<Rightarrow> nat \<Rightarrow> bool" where
  "range_kept inp al r n \<longleftrightarrow>
     (\<forall>q\<in>set (ai_globals inp). separate (InRegister q) (al_locations al ! r)) \<and>
     (\<forall>h\<in>holds inp. fst h \<noteq> r \<and> overlap (hold_range inp h) (hold_range inp (r, n)) \<and>
        (fst h < physical_count inp \<or> fst h \<in> set (al_order al) \<and> unbound inp (fst h) \<and> \<not> is_split inp (al_spill al) h) \<longrightarrow>
        separate (hold_location inp (al_locations al) h) (al_locations al ! r))"

definition allocation_sound :: "nat \<Rightarrow> allocation_input \<Rightarrow> allocation \<Rightarrow> bool" where
  "allocation_sound ld_size inp al \<longleftrightarrow>
     set (al_order al) \<subseteq> {physical_count inp..<register_count inp} \<and>
     (\<forall>r\<in>set (al_order al). unbound inp r \<and> ranges_of inp r \<noteq> [] \<longrightarrow>
        location_fits ld_size inp (al_reusable al) (al_stack_bytes al) r (al_locations al ! r)) \<and>
     (\<forall>r\<in>set (al_order al). unbound inp r \<longrightarrow> (\<forall>n<length (ranges_of inp r). is_split inp (al_spill al) (r, n) \<or> range_kept inp al r n)) \<and>
     (\<forall>r\<in>{physical_count inp..<register_count inp} - set (al_order al). slot_kept inp al r)"

lemma fits_blocks:
  assumes "location_fits ld_size inp low high r (OnStack off sz)"
  obtains i j where "off = 8 * i" "sz = 8 * j" "0 < j"
proof -
  have sz: "sz = stack_units (ar_type (register_at inp r)) * 8" "sz dvd off" using assms by (auto simp: location_fits_def mod_eq_0_iff_dvd)
  then obtain k where "off = sz * k" by (elim dvdE)
  then have "off = 8 * (stack_units (ar_type (register_at inp r)) * k)" using sz(1) by simp
  moreover have "sz = 8 * stack_units (ar_type (register_at inp r))" "0 < stack_units (ar_type (register_at inp r))"
    using sz(1) stack_units_cases [of "ar_type (register_at inp r)"] by auto
  ultimately show ?thesis by (rule that)
qed

lemma fits_separate:
  assumes "location_fits ld_size inp low high r a" "location_fits ld_size inp low' high' r' b" "\<not> clash a b"
  shows "separate a b"
proof (cases a; cases b)
  fix off sz off' sz' assume ab: "a = OnStack off sz" "b = OnStack off' sz'"
  obtain i j where ij: "off = 8 * i" "sz = 8 * j" "0 < j" by (rule fits_blocks [OF assms(1) [unfolded ab]])
  obtain m k where mk: "off' = 8 * m" "sz' = 8 * k" "0 < k" by (rule fits_blocks [OF assms(2) [unfolded ab]])
  have "(8 * i + 8 * j) div 8 = i + j" "(8 * m + 8 * k) div 8 = m + k" by simp_all
  then have d: "{i..<i + j} \<inter> {m..<m + k} = {}" using assms(3) by (simp add: clash_def ab ij mk)
  have "i + j \<le> m \<or> m + k \<le> i"
  proof (rule ccontr)
    assume "\<not> (i + j \<le> m \<or> m + k \<le> i)"
    then have "max i m \<in> {i..<i + j} \<inter> {m..<m + k}" using ij(3) mk(3) by auto
    then show False using d by blast
  qed
  then show "separate a b" by (auto simp: ab ij mk)
qed (use assms in \<open>auto simp: clash_def\<close>)

text \<open>What the invariant says of a finished state.\<close>

lemma settled_separate:
  assumes wf: "allocation_wf inp" and inv: "alloc_inv inp s H" and set: "settled ld_size inp s H D"
    and h: "(r, n) \<in> H" "physical_count inp \<le> r"
    and h': "h' \<in> holds inp" "fst h' \<noteq> r" "overlap (hold_range inp h') (hold_range inp (r, n))" "h' \<in> H"
  shows "separate (hold_location inp (as_locations s) h') (as_locations s ! r)"
proof -
  note d = alloc_invD [OF inv]
  have loc: "hold_location inp (as_locations s) (r, n) = as_locations s ! r" using h(2) by (simp add: hold_location_def)
  have nc: "\<not> clash (hold_location inp (as_locations s) h') (as_locations s ! r)"
    using held_apartD [OF d(8) h'(4) h(1)] h'(2,3) loc by simp
  have fits: "location_fits ld_size inp (as_reusable s) (as_stack_bytes s) (fst h) (hold_location inp (as_locations s) h)"
    if "h \<in> H" "physical_count inp \<le> fst h" for h
    using settledD(2) [OF set that(1)] settledD(3) [OF set, of "fst h"] d(1) that by (force simp: holds_def hold_location_def)
  show ?thesis
  proof (cases "fst h' < physical_count inp")
    case True
    then show ?thesis using nc by (cases "as_locations s ! r") (auto simp: hold_location_def)
  next
    case False
    then show ?thesis using fits_separate [OF fits [OF h'(4)] fits [OF h(1)]] nc h(2) loc by simp
  qed
qed

lemma settled_sound:
  assumes wf: "allocation_wf inp" and inv: "alloc_inv inp s H" and set: "settled ld_size inp s H D"
    and phys: "{h \<in> holds inp. fst h < physical_count inp} \<subseteq> H"
    and order: "set (al_order al) = D" and al: "al_locations al = as_locations s" "al_spill al = as_spill s" "al_reusable al = as_reusable s" "al_stack_bytes al = as_stack_bytes s"
    and slots: "slots_ok inp (as_locations s) (as_reusable s) ({physical_count inp..<register_count inp} - D)"
  shows "allocation_sound ld_size inp al"
  unfolding allocation_sound_def
proof (intro conjI ballI impI allI)
  note d = alloc_invD [OF inv]
  show "set (al_order al) \<subseteq> {physical_count inp..<register_count inp}" using settledD(1) [OF set] order by simp
  show "location_fits ld_size inp (al_reusable al) (al_stack_bytes al) r (al_locations al ! r)"
    if "r \<in> set (al_order al)" "unbound inp r \<and> ranges_of inp r \<noteq> []" for r
    unfolding al by (rule settledD(3) [OF set]) (use that order in blast)+
  show "is_split inp (al_spill al) (r, n) \<or> range_kept inp al r n"
    if r: "r \<in> set (al_order al)" "unbound inp r" "n < length (ranges_of inp r)" for r n
  proof (cases "(r, n) \<in> H")
    case False
    then show ?thesis using settledD(4) [OF set _ r(2,3)] r(1) unfolding al order by blast
  next
    case True
    have rD: "physical_count inp \<le> r" "r \<in> D" using r(1) settledD(1) [OF set] order by auto
    have held: "h \<in> H" if "h \<in> holds inp" "fst h < physical_count inp \<or> fst h \<in> D \<and> unbound inp (fst h) \<and> \<not> is_split inp (as_spill s) h" for h
      using that phys settledD(4) [OF set, of "fst h" "snd h"] by (auto simp: holds_def)
    have "separate (InRegister q) (as_locations s ! r)" if "q \<in> set (ai_globals inp)" for q
      using d(9) [OF True] rD(1) that by (cases "as_locations s ! r") (auto simp: hold_location_def global_encodings_def image_iff)
    moreover have "separate (hold_location inp (as_locations s) h) (as_locations s ! r)"
      if "h \<in> holds inp" "fst h \<noteq> r \<and> overlap (hold_range inp h) (hold_range inp (r, n)) \<and>
        (fst h < physical_count inp \<or> fst h \<in> D \<and> unbound inp (fst h) \<and> \<not> is_split inp (as_spill s) h)" for h
      by (rule settled_separate [OF wf inv set True rD(1) that(1)]) (use that(2) held [OF that(1)] in blast)+
    ultimately have "range_kept inp al r n" unfolding range_kept_def al order by blast
    then show ?thesis by simp
  qed
  show "slot_kept inp al r" if r: "r \<in> {physical_count inp..<register_count inp} - set (al_order al)" for r
  proof -
    have rA: "r \<in> {physical_count inp..<register_count inp} - D" using r by (simp only: order)
    obtain off where off: "as_locations s ! r = OnStack off (stack_units (ar_type (register_at inp r)) * 8)"
      "off mod (stack_units (ar_type (register_at inp r)) * 8) = 0" "off + stack_units (ar_type (register_at inp r)) * 8 \<le> as_reusable s"
      using slots_okD(1) [OF slots rA] by (elim exE conjE) (rule that)
    have "separate (as_locations s ! r') (as_locations s ! r)"
      if r': "physical_count inp \<le> r'" "r' < register_count inp" "r' \<noteq> r" "r' \<in> D \<longrightarrow> unbound inp r' \<and> ranges_of inp r' \<noteq> []" for r'
    proof (cases "r' \<in> D")
      case True
      then have "location_fits ld_size inp (as_reusable s) (as_stack_bytes s) r' (as_locations s ! r')" using settledD(3) [OF set] r'(4) by blast
      then show ?thesis using off by (auto simp: location_fits_def split: location.splits)
    next
      case False
      then show ?thesis using r r' by (intro slots_okD(2) [OF slots]) (auto simp: order)
    qed
    then show ?thesis using off settledD(5) [OF set] by (simp add: slot_kept_def al order)
  qed
qed

section \<open>The theorem\<close>

definition addressed_registers :: "allocation_input \<Rightarrow> nat list \<Rightarrow> nat list" where
  "addressed_registers inp addressed = filter (\<lambda>r. ar_memory_backed (register_at inp r) \<or> r \<in> set addressed) [physical_count inp..<register_count inp]"

definition ordered_registers :: "allocation_input \<Rightarrow> nat list \<Rightarrow> nat list" where
  "ordered_registers inp addressed = sort_key (priority inp)
     (filter (\<lambda>r. \<not> (ar_memory_backed (register_at inp r) \<or> r \<in> set addressed)) [physical_count inp..<register_count inp])"

definition prepared :: "allocation_input \<Rightarrow> nat list \<Rightarrow> alloc_state" where
  "prepared inp addressed = fold (reserve_physical inp) [0..<physical_count inp] (fold (place_addressable inp) (addressed_registers inp addressed) (alloc_start inp))"

lemma prepared_inv:
  assumes wf: "allocation_wf inp"
  shows "alloc_inv inp (prepared inp addressed) {h \<in> holds inp. fst h < physical_count inp}"
    "settled ld_size inp (prepared inp addressed) {h \<in> holds inp. fst h < physical_count inp} {}"
    "slots_ok inp (as_locations (prepared inp addressed)) (as_reusable (prepared inp addressed)) (set (addressed_registers inp addressed))"
    "as_order (prepared inp addressed) = []"
proof -
  let ?s = "fold (place_addressable inp) (addressed_registers inp addressed) (alloc_start inp)"
  have st: "slots_ok inp (as_locations (alloc_start inp)) (as_stack_bytes (alloc_start inp)) {}" "as_reusable (alloc_start inp) = as_stack_bytes (alloc_start inp)"
    "as_order (alloc_start inp) = []" by (simp_all add: slots_ok_def alloc_start_def Let_def)
  have rs: "distinct (addressed_registers inp addressed)" "set (addressed_registers inp addressed) \<subseteq> {physical_count inp..<register_count inp}"
    by (auto simp: addressed_registers_def)
  have a: "alloc_inv inp ?s {}" "slots_ok inp (as_locations ?s) (as_stack_bytes ?s) (set (addressed_registers inp addressed))" "as_reusable ?s = as_stack_bytes ?s" "as_order ?s = []"
    using place_addressables [OF rs(1) _ rs(2) alloc_start_inv [OF wf] st(1-3)] by (simp_all add: Let_def)
  note p = reserve_physicals_inv [OF wf a(1) order_refl]
  show "alloc_inv inp (prepared inp addressed) {h \<in> holds inp. fst h < physical_count inp}" using p by (simp add: prepared_def)
  show "settled ld_size inp (prepared inp addressed) {h \<in> holds inp. fst h < physical_count inp} {}"
    "slots_ok inp (as_locations (prepared inp addressed)) (as_reusable (prepared inp addressed)) (set (addressed_registers inp addressed))"
    "as_order (prepared inp addressed) = []"
    using p a by (auto simp: prepared_def settled_def same_frame_def)
qed

lemma assign_in_order_sound:
  assumes wf: "allocation_wf inp"
  shows "case map_option (map_sum id (finish_allocation inp (ordered_registers inp addressed)))
        (assign_in_order ld_size inp (ordered_registers inp addressed) (prepared inp addressed)) of None \<Rightarrow> False | Some (Inl e) \<Rightarrow> True
      | Some (Inr al) \<Rightarrow> allocation_sound ld_size inp al"
proof -
  let ?rs = "ordered_registers inp addressed" and ?s = "prepared inp addressed"
  note p = prepared_inv [OF wf, where addressed = addressed]
  have rs: "distinct ?rs" "set ?rs \<subseteq> {physical_count inp..<register_count inp}"
    "set (addressed_registers inp addressed) = {physical_count inp..<register_count inp} - set ?rs" by (auto simp: ordered_registers_def addressed_registers_def)
  have st: "case assign_in_order ld_size inp ?rs ?s of None \<Rightarrow> False | Some (Inl e) \<Rightarrow> True
    | Some (Inr s') \<Rightarrow> (\<exists>H'. alloc_inv inp s' H' \<and> settled ld_size inp s' H' ({} \<union> set ?rs) \<and>
        {h \<in> {h \<in> holds inp. fst h < physical_count inp}. fst h < physical_count inp} \<subseteq> H') \<and> as_reusable s' = as_reusable ?s \<and>
        as_order s' = as_order ?s @ ?rs \<and> (\<forall>r. r \<notin> set ?rs \<longrightarrow> as_locations s' ! r = as_locations ?s ! r)"
    by (rule assign_in_order_steps [OF wf p(1,2) rs(1) _ rs(2)]) simp
  show ?thesis
  proof (cases "\<exists>s'. assign_in_order ld_size inp ?rs ?s = Some (Inr s')")
    case False
    then show ?thesis using st by (auto split: option.splits sum.splits)
  next
    case True
    then obtain s' H where s': "assign_in_order ld_size inp ?rs ?s = Some (Inr s')" "alloc_inv inp s' H" "settled ld_size inp s' H (set ?rs)"
      "as_reusable s' = as_reusable ?s" "as_order s' = ?rs" "\<And>r. r \<notin> set ?rs \<Longrightarrow> as_locations s' ! r = as_locations ?s ! r"
      "{h \<in> holds inp. fst h < physical_count inp} \<subseteq> H"
      using st p(4) by auto
    have "slots_ok inp (as_locations s') (as_reusable s') ({physical_count inp..<register_count inp} - set ?rs)"
      using p(3) s'(4,6) unfolding slots_ok_def rs(3) by simp
    then have "allocation_sound ld_size inp (finish_allocation inp ?rs s')"
      by (intro settled_sound [OF wf s'(2,3,7)]) (simp_all add: finish_allocation_def s'(5))
    then show ?thesis using s'(1) by simp
  qed
qed

lemma assign_locations_sound:
  assumes wf: "allocation_wf inp"
  shows "case assign_locations ld_size verify inp of None \<Rightarrow> False | Some (Inl e) \<Rightarrow> True | Some (Inr al) \<Rightarrow> allocation_sound ld_size inp al"
proof -
  have run: "case map_option (map_sum id (finish_allocation inp (ordered_registers inp addressed)))
        (assign_in_order ld_size inp (ordered_registers inp addressed) (prepared inp addressed)) of None \<Rightarrow> False | Some (Inl e) \<Rightarrow> True
      | Some (Inr al) \<Rightarrow> allocation_sound ld_size inp al" for addressed
    by (rule assign_in_order_sound [OF wf])
  show ?thesis
    using run by (auto simp: assign_locations_def Let_def ordered_registers_def prepared_def addressed_registers_def split: sum.split)
qed

text \<open>C3: assignment returns, with an error or with a sound allocation: registers that hold values at a common point are
  apart, unless a range of one of them is split, addressable slots are shared with nobody, and every location suits
  its register.\<close>

theorem assignment_sound:
  assumes wf: "allocation_wf inp"
  shows "case assign_locations ld_size verify inp of None \<Rightarrow> False | Some (Inl e) \<Rightarrow> True | Some (Inr al) \<Rightarrow> allocation_sound ld_size inp al"
  by (rule assign_locations_sound [OF wf])

definition small_target :: target_machine where
  "small_target = \<lparr>tm_architecture = ArchX86_64, tm_abi = X86SysV,
     tm_registers = map (\<lambda>n. \<lparr>ri_reg = \<lparr>pr_architecture = ArchX86_64, pr_encoding = n\<rparr>, ri_name = ''r'', ri_bank = BankInteger, ri_reserved = (n = 2)\<rparr>) [0, 1, 2]\<rparr>"

definition span_range :: "int \<Rightarrow> int \<Rightarrow> nat list \<Rightarrow> live_range" where
  "span_range a b bs = \<lparr>lg_start = a, lg_finish = b, lg_blocks = bs\<rparr>"

definition plain_register :: "bool \<Rightarrow> allocated_register" where
  "plain_register m = \<lparr>ar_type = type_i64, ar_binding = None, ar_memory_backed = m\<rparr>"

text \<open>Two registers for three values that live together: one of them is split.\<close>

definition crowded_input :: allocation_input where
  "crowded_input = \<lparr>ai_function = \<lparr>mf_module = ''m'', mf_name = ''f'', mf_target = small_target, mf_blocks = [], mf_labels = [], mf_registers = [], mf_globals = []\<rparr>,
     ai_virtuals = [plain_register False, plain_register False, plain_register False, plain_register True], ai_current = True, ai_consistent = True, ai_level = 2,
     ai_globals = [\<lparr>pr_architecture = ArchX86_64, pr_encoding = 2\<rparr>], ai_frequencies = [0, 0, 0, 9, 3, 9, 1],
     ai_ranges = [[span_range 2 3 []], [], [], [span_range 0 4 [2]], [span_range 4 5 [], span_range 7 8 []], [span_range 0 8 [2]], []], ai_points = 9, ai_crossed = [],
     ai_spill = replicate 3 ([], []), ai_cfg = empty_graph 3, ai_depth = [0, 0, 0], ai_loops = []\<rparr>"

lemma crowded_input_wf: "allocation_wf crowded_input"
  by code_simp

theorem assignment_sound_witness:
  "case assign_locations 16 (\<lambda>_. Inr ()) crowded_input of None \<Rightarrow> False | Some (Inl e) \<Rightarrow> True | Some (Inr al) \<Rightarrow> allocation_sound 16 crowded_input al"
  by (rule assignment_sound [OF crowded_input_wf])

end
