(* ===== verification/RangeAllocation.thy ===== *)
theory RangeAllocation
  imports RangeResult AssignmentResult
begin

text \<open>
  Liveness, live ranges and the assignment of locations together (\<open>lib/CodeGen/Liveness.cpp\<close>,
  \<open>lib/CodeGen/LiveRanges.cpp\<close>, \<open>lib/CodeGen/Assignment.cpp\<close>): registers that some instruction keeps apart get
  locations that do not overlap, unless one of them is split around the place.
\<close>

section \<open>Ranges\<close>

text \<open>C5: the live ranges of a verified and analysed function are built, unless its instructions need more points than there
  are, or a call defines a global register.  The ranges of a register come apart and lie within the points, and what is
  live after an instruction shares a point with what it defines, what is live across a call with what calls overwrite, and
  what is live before an instruction with what it overwrites early.\<close>

theorem live_ranges_interfere:
  assumes "machine_control_flow verify f = Inr (mg_cfg g)" "function_owned f" "analyze_liveness f g True opts = Some (Inr lv)"
  shows "case build_ranges verify f g True lv of
      Inl e \<Rightarrow> INT_MAX \<le> scan_points f \<or> \<not> calls_apart (scan_environment f opts (mv_registers lv))
    | Inr lr \<Rightarrow> live_ranges_wf f lr \<and> all_interference (scan_environment f opts (mv_registers lv)) (mg_cfg g) (ranges_share lr)"
proof -
  have a: "analysed f opts lv" using assms(2,3) by (auto simp: analysed_def)
  note blocks = analyze_liveness_blocks [OF machine_control_flow_ok [OF assms(1)] assms(3)]
  have verify: "verify f = Inr ()" using assms(1) by (auto simp: machine_control_flow_def rbind_eq_Inr)
  show ?thesis
  proof (cases "build_ranges verify f g True lv")
    case (Inl e)
    then show ?thesis using build_ranges_fits [where verify = verify and mg = g, OF a blocks _ verify] by fastforce
  next
    case (Inr lr)
    then show ?thesis using build_ranges_spec [OF a blocks Inr] by simp
  qed
qed

section \<open>Locations\<close>

text \<open>What the assignment reads of the analyses.\<close>

definition range_input :: "machine_function \<Rightarrow> allocated_register list \<Rightarrow> machine_graph \<Rightarrow> machine_liveness \<Rightarrow> live_ranges \<Rightarrow> allocation_input" where
  "range_input f virtuals g lv lr = \<lparr>ai_function = f, ai_virtuals = virtuals, ai_current = True,
     ai_consistent = (mv_has_frequencies lv \<and> \<not> mv_compact lv \<and> \<not> lr_compact lr \<and> mv_level lv = lr_level lr \<and>
       mv_globals lv = lr_globals lr \<and> mv_registers lv = lr_registers lr),
     ai_level = mv_level lv, ai_globals = mv_globals lv, ai_frequencies = mv_frequencies lv, ai_ranges = lr_ranges lr, ai_points = lr_points lr,
     ai_crossed = lr_crossed lr, ai_spill = lr_spill lr, ai_cfg = mg_cfg g, ai_depth = mg_depth g, ai_loops = mg_loops g\<rparr>"

lemma range_input_simps [simp]:
  "ai_function (range_input f virtuals g lv lr) = f" "ai_virtuals (range_input f virtuals g lv lr) = virtuals"
  "ai_ranges (range_input f virtuals g lv lr) = lr_ranges lr" "ai_points (range_input f virtuals g lv lr) = lr_points lr"
  "ai_spill (range_input f virtuals g lv lr) = lr_spill lr"
  by (simp_all add: range_input_def)

lemma ranges_descend_apart: "ranges_descend lrs \<Longrightarrow> ranges_apart lrs"
  unfolding ranges_descend_def ranges_apart_def by (auto elim!: sorted_wrt_mono_rel [rotated])

lemma range_input_wf:
  assumes f: "function_owned f" and lr: "live_ranges_wf f lr" and v: "length virtuals = length (mf_registers f)"
  shows "allocation_wf (range_input f virtuals g lv lr)"
proof -
  let ?inp = "range_input f virtuals g lv lr"
  have count: "register_count ?inp = length (all_registers f)"
    by (simp add: register_count_def physical_count_def all_registers_def v)
  have rows: "row_result (machine_count f) (lr_points lr - 1) lrs" if "lrs \<in> set (lr_ranges lr)" for lrs
    using lr that by (auto simp: live_ranges_wf_def list_all_iff)
  have "ranges_apart lrs \<and> list_all (\<lambda>x. 0 \<le> lg_start x \<and> lg_start x \<le> lg_finish x \<and> lg_finish x \<le> lr_points lr \<and>
      list_all (\<lambda>b. b < length (lr_spill lr)) (lg_blocks x)) lrs" if m: "lrs \<in> set (lr_ranges lr)" for lrs
  proof -
    have d: "ranges_descend lrs" "\<forall>x\<in>set lrs. 0 \<le> lg_start x \<and> lg_finish x \<le> lr_points lr - 1 \<and> set (lg_blocks x) \<subseteq> {..<machine_count f}"
      using rows [OF m] by (simp_all add: row_result_def)
    have "\<forall>x\<in>set lrs. lg_start x \<le> lg_finish x" using d(1) by (simp add: ranges_descend_def)
    then show ?thesis using d ranges_descend_apart [OF d(1)] lr by (fastforce simp: live_ranges_wf_def list_all_iff)
  qed
  moreover have "pr_encoding (ri_reg (tm_registers (mf_target f) ! r)) = r" if "r < physical_count ?inp" for r
    using f that by (simp add: function_owned_def list_all_iff physical_count_def)
  ultimately show ?thesis
    using lr count by (simp add: allocation_wf_def live_ranges_wf_def list_all_iff)
qed

text \<open>Two registers, the first of them virtual, that hold values at a common point.\<close>

definition apart_or_split :: "allocation_input \<Rightarrow> allocation \<Rightarrow> nat \<Rightarrow> nat \<Rightarrow> bool" where
  "apart_or_split inp al r r' \<longleftrightarrow> (\<exists>n<length (ranges_of inp r). \<exists>n'<length (ranges_of inp r').
     overlap (hold_range inp (r', n')) (hold_range inp (r, n)) \<and>
     (r \<in> set (al_order al) \<and> is_split inp (al_spill al) (r, n) \<or> r' \<in> set (al_order al) \<and> is_split inp (al_spill al) (r', n') \<or>
      separate (hold_location inp (al_locations al) (r', n')) (al_locations al ! r)))"

definition locations_apart :: "allocation_input \<Rightarrow> allocation \<Rightarrow> nat set \<Rightarrow> bool" where
  "locations_apart inp al X \<longleftrightarrow>
     (\<forall>r\<in>X. \<forall>r'\<in>X. r \<noteq> r' \<and> physical_count inp \<le> r \<and> unbound inp r \<and> (r' < physical_count inp \<or> unbound inp r') \<longrightarrow>
        apart_or_split inp al r r')"

lemma sound_apart:
  assumes sound: "allocation_sound ld_size inp al" and r: "physical_count inp \<le> r" "r < register_count inp" "unbound inp r" "n < length (ranges_of inp r)"
    and r': "r' < register_count inp" "r' < physical_count inp \<or> unbound inp r'" "n' < length (ranges_of inp r')" "r \<noteq> r'"
    and o: "overlap (hold_range inp (r', n')) (hold_range inp (r, n))"
  shows "apart_or_split inp al r r'"
proof -
  have kept: "is_split inp (al_spill al) (r, n) \<or> range_kept inp al r n" if "r \<in> set (al_order al)"
    using sound r that by (simp add: allocation_sound_def)
  have slot: "slot_kept inp al a" if "physical_count inp \<le> a" "a < register_count inp" "a \<notin> set (al_order al)" for a
    using sound that by (simp add: allocation_sound_def)
  have hold: "(r', n') \<in> holds inp" using r' by (simp add: holds_def)
  have ne: "ranges_of inp r \<noteq> []" "ranges_of inp r' \<noteq> []" using r(4) r'(3) by auto
  have "r \<in> set (al_order al) \<and> is_split inp (al_spill al) (r, n) \<or> r' \<in> set (al_order al) \<and> is_split inp (al_spill al) (r', n') \<or>
      separate (hold_location inp (al_locations al) (r', n')) (al_locations al ! r)"
  proof (cases "r \<in> set (al_order al)")
    case True
    show ?thesis
    proof (cases "physical_count inp \<le> r' \<and> r' \<notin> set (al_order al)")
      case False
      then show ?thesis using kept [OF True] True hold o r' by (force simp: range_kept_def)
    next
      case slotted: True
      then have "separate (al_locations al ! r) (al_locations al ! r')"
        using slot [of r'] r r' ne by (simp add: slot_kept_def)
      then show ?thesis using separate_sym slotted by (auto simp: hold_location_def)
    qed
  next
    case False
    then have s: "slot_kept inp al r" using slot r by blast
    show ?thesis
    proof (cases "r' < physical_count inp")
      case True
      then show ?thesis using s by (auto simp: slot_kept_def hold_location_def split: location.splits)
    next
      case False
      then have "separate (al_locations al ! r') (al_locations al ! r)" using s r' ne by (simp add: slot_kept_def)
      then show ?thesis using False by (simp add: hold_location_def)
    qed
  qed
  then show ?thesis using r(4) r'(3) o by (auto simp: apart_or_split_def)
qed

lemma share_apart:
  assumes sound: "allocation_sound ld_size inp al" and wf: "allocation_wf inp" and inp: "ai_ranges inp = lr_ranges lr"
    and X: "ranges_share lr X" "X \<subseteq> {..<register_count inp}"
  shows "locations_apart inp al X"
  unfolding locations_apart_def
proof (intro ballI impI)
  fix r r'
  assume m: "r \<in> X" "r' \<in> X" and c: "r \<noteq> r' \<and> physical_count inp \<le> r \<and> unbound inp r \<and> (r' < physical_count inp \<or> unbound inp r')"
  obtain q where q: "\<And>a. a \<in> X \<Longrightarrow> \<exists>y\<in>set (lr_ranges lr ! a). range_at y q" using X(1) by (auto simp: ranges_share_def)
  have pick: "\<exists>n<length (ranges_of inp a). range_at (hold_range inp (a, n)) q" if "a \<in> X" for a
    using q [OF that] by (auto simp: ranges_of_def inp hold_range_def in_set_conv_nth)
  obtain n n' where n: "n < length (ranges_of inp r)" "range_at (hold_range inp (r, n)) q" "n' < length (ranges_of inp r')" "range_at (hold_range inp (r', n')) q"
    using pick [OF m(1)] pick [OF m(2)] by blast
  have reg: "r < register_count inp" "r' < register_count inp" using X(2) m by auto
  then have "(r, n) \<in> holds inp" using n(1) by (simp add: holds_def)
  then have "0 \<le> q" using hold_bounds [OF wf, of "(r, n)"] n(2) by (simp add: range_at_def)
  then have "overlap (hold_range inp (r', n')) (hold_range inp (r, n))"
    using n(2,4) unfolding overlap_def covers_def range_at_def by (intro exI [of _ "nat q"]) simp
  then show "apart_or_split inp al r r'" using sound_apart [OF sound _ reg(1) _ n(1) reg(2) _ n(3)] c by blast
qed

lemma register_numbers_within:
  assumes "watched_ok f lv" "X \<subseteq> {..<length (mv_registers lv)}"
  shows "register_numbers (scan_environment f opts (mv_registers lv)) X \<subseteq> {..<length (all_registers f)}"
  using assms own_number(1) by (fastforce simp: register_numbers_def watched_ok_def)

lemma scan_environment_clobbered: "bs_elems (se_clobbered (scan_environment f opts rs)) \<subseteq> {..<length rs}"
proof -
  have e: "bs_wf []" "bs_elems [] = {}" by (simp_all add: bits.element_laws bits.invars)
  have "bs_elems (global_bits rs qs []) \<subseteq> {..<length rs}" for qs
    unfolding global_bits_elems [OF e(1)] e(2) by (auto simp: register_position_def find_Some_iff)
  then show ?thesis using e(2) by (simp add: scan_environment_def Let_def)
qed

lemma all_interference_mono:
  assumes "all_interference (scan_environment f opts rs) g P"
    and mono: "\<And>X. X \<subseteq> {..<length rs} \<Longrightarrow> P (register_numbers (scan_environment f opts rs) X) \<Longrightarrow> Q (register_numbers (scan_environment f opts rs) X)"
  shows "all_interference (scan_environment f opts rs) g Q"
proof -
  let ?env = "scan_environment f opts rs"
  have live: "{r. live_before ?env g b k r} \<subseteq> {..<length rs}" for b k
    using live_before_within [of ?env g b k] scan_environment_globals by auto
  have defs: "defined_registers ?env i \<subseteq> {..<length rs}" "clobbered_early ?env i \<subseteq> {..<length rs}" for i
    using positions_within [of ?env] by (simp_all add: defined_registers_def clobbered_early_def)
  have "interference ?env g Q b k" if "interference ?env g P b k" for b k
  proof -
    let ?i = "machine_body f b ! k" and ?after = "{r. live_before ?env g b (Suc k) r}"
    have "?after \<union> defined_registers ?env ?i \<subseteq> {..<length rs}"
      "?after - defined_registers ?env ?i \<union> (if crosses_call ?env ?i then bs_elems (se_clobbered ?env) else {}) \<subseteq> {..<length rs}"
      "{r. live_before ?env g b k r} \<union> clobbered_early ?env ?i \<subseteq> {..<length rs}"
      using live defs scan_environment_clobbered by auto
    then show ?thesis using that mono by (simp add: interference_def Let_def)
  qed
  then show ?thesis using assms(1) by (simp add: all_interference_def list_all_iff)
qed

text \<open>C2: the assignment of locations to the virtual registers of an analysed function returns; whatever an instruction
  keeps apart (what is live after it and what it defines, what is live across a call and what calls overwrite, what is
  live before it and what it overwrites early) then has locations that do not overlap, unless a range of one of the two
  registers is split at a common point.\<close>

theorem allocation_respects_liveness:
  assumes cfg: "machine_control_flow verify f = Inr (mg_cfg g)" and f: "function_owned f"
    and lv: "analyze_liveness f g True opts = Some (Inr lv)" and lr: "build_ranges verify f g True lv = Inr lr"
    and v: "length virtuals = length (mf_registers f)"
  shows "case assign_locations ld_size verify (range_input f virtuals g lv lr) of
      None \<Rightarrow> False
    | Some (Inl e) \<Rightarrow> True
    | Some (Inr al) \<Rightarrow> all_interference (scan_environment f opts (mv_registers lv)) (mg_cfg g) (locations_apart (range_input f virtuals g lv lr) al)"
proof -
  let ?inp = "range_input f virtuals g lv lr"
  have a: "analysed f opts lv" using f lv by (auto simp: analysed_def)
  note spec = build_ranges_spec [OF a analyze_liveness_blocks [OF machine_control_flow_ok [OF cfg] lv] lr]
  have wf: "allocation_wf ?inp" by (rule range_input_wf [OF f spec(1) v])
  have count: "register_count ?inp = length (all_registers f)"
    by (simp add: register_count_def physical_count_def all_registers_def v)
  have "all_interference (scan_environment f opts (mv_registers lv)) (mg_cfg g) (locations_apart ?inp al)" if "allocation_sound ld_size ?inp al" for al
  proof (rule all_interference_mono [OF spec(2)])
    fix X
    assume X: "X \<subseteq> {..<length (mv_registers lv)}" and s: "ranges_share lr (register_numbers (scan_environment f opts (mv_registers lv)) X)"
    show "locations_apart ?inp al (register_numbers (scan_environment f opts (mv_registers lv)) X)"
      by (rule share_apart [OF that wf _ s]) (use register_numbers_within [OF analysedD(1) [OF a] X] count in simp_all)
  qed
  then show ?thesis using assign_locations_sound [OF wf, of ld_size verify] by (auto split: option.splits sum.splits)
qed

section \<open>The loop\<close>

lemma machine_loop_owned: "function_owned machine_loop"
  by code_simp

lemma machine_loop_registers: "add_registers machine_loop (all_registers machine_loop) [] = Inr (all_registers machine_loop)"
  by code_simp

lemma machine_loop_ranges:
  "\<exists>lv lr. analyze_liveness machine_loop loop_graph True plain_options = Some (Inr lv) \<and> build_ranges (\<lambda>_. Inr ()) machine_loop loop_graph True lv = Inr lr"
proof -
  let ?env = "scan_environment machine_loop plain_options (all_registers machine_loop)"
  have g: "graph_ok (machine_count machine_loop) (mg_cfg loop_graph)" by (rule machine_control_flow_ok [OF loop_control_flow])
  have n: "machine_count machine_loop = machine_count (se_function ?env)" by simp
  obtain blocks refs where s: "solve_environment ?env loop_graph = Some (blocks, refs)"
    using solve_environment_exact [OF scan_environment_wf n g] by blast
  let ?lv = "finish_liveness ?env plain_options blocks refs"
  have lv: "analyze_liveness machine_loop loop_graph True plain_options = Some (Inr ?lv)"
    using s machine_loop_registers by (simp add: analyze_liveness_def plain_options_def Let_def)
  then have a: "analysed machine_loop plain_options ?lv" using machine_loop_owned by (auto simp: analysed_def)
  have "list_all (\<lambda>mb. list_all (\<lambda>i. \<not> is_call (mi_opcode i)) (mb_instructions mb)) (mf_blocks machine_loop)" by code_simp
  then have "calls_apart ?env" by (auto simp: calls_apart_def crosses_call_def list_all_iff)
  then have c: "calls_apart (scan_environment machine_loop plain_options (mv_registers ?lv))" by (simp add: finish_liveness_blocks)
  have "scan_points machine_loop < INT_MAX" by code_simp
  from build_ranges_fits [OF a analyze_liveness_blocks [OF g lv] c refl this] lv show ?thesis by blast
qed

theorem live_ranges_interfere_witness:
  "\<exists>lv. analyze_liveness machine_loop loop_graph True plain_options = Some (Inr lv) \<and>
    (case build_ranges (\<lambda>_. Inr ()) machine_loop loop_graph True lv of
      Inl e \<Rightarrow> INT_MAX \<le> scan_points machine_loop \<or> \<not> calls_apart (scan_environment machine_loop plain_options (mv_registers lv))
    | Inr lr \<Rightarrow> live_ranges_wf machine_loop lr \<and>
        all_interference (scan_environment machine_loop plain_options (mv_registers lv)) (mg_cfg loop_graph) (ranges_share lr))"
proof -
  obtain lv where "analyze_liveness machine_loop loop_graph True plain_options = Some (Inr lv)" using machine_loop_ranges by blast
  with live_ranges_interfere [OF loop_control_flow machine_loop_owned this] show ?thesis by blast
qed

theorem allocation_respects_liveness_witness:
  "\<exists>lv lr. build_ranges (\<lambda>_. Inr ()) machine_loop loop_graph True lv = Inr lr \<and>
    (case assign_locations 16 (\<lambda>_. Inr ()) (range_input machine_loop [plain_register False, plain_register False] loop_graph lv lr) of
      None \<Rightarrow> False
    | Some (Inl e) \<Rightarrow> True
    | Some (Inr al) \<Rightarrow> all_interference (scan_environment machine_loop plain_options (mv_registers lv)) (mg_cfg loop_graph)
        (locations_apart (range_input machine_loop [plain_register False, plain_register False] loop_graph lv lr) al))"
proof -
  obtain lv lr where h: "analyze_liveness machine_loop loop_graph True plain_options = Some (Inr lv)"
    "build_ranges (\<lambda>_. Inr ()) machine_loop loop_graph True lv = Inr lr"
    using machine_loop_ranges by blast
  have "length [plain_register False, plain_register False] = length (mf_registers machine_loop)" by (simp add: machine_loop_def Let_def)
  from h(2) allocation_respects_liveness [OF loop_control_flow machine_loop_owned h this] show ?thesis by blast
qed

end
