(* ===== verification/Spec2Isabelle.thy ===== *)
theory Spec2Isabelle
  imports SparseBitSet Compression InterpreterScalar InterpreterVector TargetMachine CodeMemory CompiledBlock X86Listing AArch64Listing AddressModes IRLiveness Dominators MachineLive RangeAllocation
begin

text \<open>
  mirnext is a just-in-time compiler: an intermediate representation with 64-bit registers, an interpreter for it,
  code generators for x86-64 and AArch64, a code memory that publishes the machine code, and a binary module format.
  This development models the parts that compute, as functions over records and datatypes that follow the sources,
  and proves what makes each correct.  Source paths are relative to the root of the repository.

  Parts and theories.

  \<^item> \<open>Prelude\<close>: results (an error or a value, \<open>include/mirnext/Support/Result.hpp\<close>), byte lists and little-endian
    words, the limits of the machine types, the \<open>result_simps\<close> collection.
  \<^item> \<open>SparseBitSet\<close> (\<open>include/mirnext/Support/SparseBitSet.hpp\<close>): sorted vectors of 64-bit words; every operation
    refines its set operation, the representation is canonical; the set interface is the locale \<open>sparse_set\<close>, which
    the bit set interprets.
  \<^item> \<open>Compression\<close> (\<open>lib/Serialization/Compression.cpp\<close>): the dictionary coder of the module format.  Loops over the
    hash chains are partial functions, and the round trip proves that they return.
  \<^item> \<open>IRTypes\<close>, \<open>Opcodes\<close> (\<open>include/mirnext/IR/Type.hpp\<close>, \<open>Opcodes.def\<close>, \<open>lib/mirnext/IR/Vector.hpp\<close>): types, the
    opcode table with its wire codes, the operand rules of vector operations.
  \<^item> \<open>IntegerFolding\<close> (\<open>lib/Transforms/IntegerFolding.cpp\<close>), \<open>Values\<close> (\<open>lib/Execution/Value.cpp\<close>),
    \<open>InterpreterScalar\<close>, \<open>InterpreterVector\<close> (\<open>lib/Execution\<close>): folding shared by the optimizer and the interpreter,
    the values that cross a call, scalar and vector evaluation.  Host floating point is the record \<open>host_fp\<close>.
  \<^item> \<open>X86ABI\<close>, \<open>TargetMachine\<close> (\<open>lib/Target\<close>): argument and result layouts, register files, type layouts,
    addressing modes, vector costs.
  \<^item> \<open>CodeMemory\<close> (\<open>lib/Execution/CodeMemory.cpp\<close>): reservations, arenas and publication over a memory provider,
    which is an argument (the operating system's pages).
  \<^item> \<open>CodeBytes\<close>, \<open>CodeFields\<close>: reads, writes and disjoint fields of byte buffers, with the interface
    \<open>byte_store\<close> that the buffers of the artifacts interpret.
  \<^item> \<open>CompiledFunction\<close>, \<open>CompiledBlock\<close> (\<open>lib/CodeGen\<close>): finished artifacts, their verification and relocation to an
    address, the successors of separately published blocks.
  \<^item> \<open>MachineOperands\<close> (\<open>MachineIR.hpp\<close>, \<open>NativeVector.hpp\<close>): operands, instructions and functions handed to the
    encoders.
  \<^item> \<open>PatternTables\<close>, \<open>X86Recipes\<close>, \<open>X86Patterns\<close>, \<open>AArch64Patterns\<close>: the declaration tables, compiled from their
    strings as the \<open>consteval\<close> functions do, and the selection of a row.  The rows themselves
    (\<open>include/mirnext/Target/*.def\<close>) are an argument: the theorems hold for every table that passes the stated checks.
  \<^item> \<open>X86Address\<close>, \<open>X86Encoding\<close>; \<open>AArch64Encoding\<close>: the two encoders.  \<open>X86Layout\<close>, \<open>AArch64Layout\<close>: the fields
    they leave open are disjoint and patching fills them.  \<open>BodyListing\<close>: what it means for a body to hold the blocks of a
    function in order.  \<open>X86Listing\<close>, \<open>AArch64Listing\<close>: an encoded function has such a listing, and its branches, tables and
    pool constants decode to the places it gives.  \<open>AddressModes\<close>: the optimizer's address predicate against both encoders.
  \<^item> \<open>FunctionIR\<close>: what the analyses read of a function (\<open>IR.hpp\<close>).  \<open>GraphSearch\<close>, \<open>Dataflow\<close>, \<open>DominatorSets\<close>: the
    depth-first search, the backward gen/kill solver and the dominator chains as sets, stated once; the analyses follow them.
  \<^item> \<open>FlowGraph\<close> (\<open>lib/Analysis/ControlFlow.cpp\<close>), \<open>FunctionGraph\<close>, \<open>IRLiveness\<close>, \<open>Dominators\<close>
    (\<open>lib/Analysis/FunctionGraph.cpp\<close>): the graph of a function and its numbering, register liveness, dominators.
  \<^item> \<open>Assignment\<close> (\<open>lib/CodeGen/Assignment.cpp\<close>): the locations of virtual registers, with ranges split from level 2 on.
    \<open>AssignmentPoints\<close>, \<open>AssignmentGaps\<close>, \<open>AssignmentHolds\<close>, \<open>AssignmentSteps\<close>, \<open>AssignmentChoice\<close>, \<open>AssignmentSound\<close>: the marks of
    the points, the ordered map of gaps, the invariant over the ranges held, and that each step keeps it;
    \<open>AssignmentResult\<close>: the allocation is sound.
  \<^item> \<open>MachineFlow\<close> (\<open>MachineControlFlow::build\<close> in \<open>lib/CodeGen/MachineIR.cpp\<close>, \<open>GraphAnalysis.cpp\<close>): the graph of a machine function,
    its numbering and loop tree.  \<open>RegisterEffects\<close>, \<open>MachineLiveness\<close> (\<open>RegisterEffects.hpp\<close>, \<open>RegisterIndex.hpp\<close>, \<open>Liveness.cpp\<close>): the
    registers an instruction reads and overwrites, and the liveness of registers; \<open>MachineLive\<close>: it is exact.
  \<^item> \<open>LiveRanges\<close> (\<open>lib/CodeGen/LiveRanges.cpp\<close>): the ranges of the registers.  \<open>RangeScan\<close>: the scan of the blocks follows the
    liveness; \<open>RangeMerge\<close>: compressing the points and merging ranges keeps common points; \<open>RangeResult\<close>: the ranges built.
    \<open>RangeAllocation\<close> composes the three: registers that an instruction keeps apart get locations that do not overlap.

  What the groups of lemmas show.  Each component has an invariant or a well-formedness predicate that its operations
  keep (bit set words, compressor table, argument layout, arena, engine of an encoder), an account of its errors as
  values of the result type, and one to three properties over it.  The artifacts compose: an encoder ends in
  \<open>finish_artifact\<close> of \<open>CompiledFunction\<close>, whose verified form is what relocation and \<open>CompiledBlock\<close> build on.

  Bounds and termination.  Machine words keep their width; sizes and offsets are natural numbers with the limit checks
  of the source written out.  Loops that could run for ever are \<open>partial_function (option)\<close> or carry a termination
  proof; no fuel is used.  Relocation is stated for bodies below \<open>2^48\<close> bytes, the size of an address space.

  Not modelled.  The construction and verification of IR (\<open>lib/IR/Builder.cpp\<close>, \<open>IR.cpp\<close>, \<open>SSA.cpp\<close>), its text and
  binary forms, the optimizer passes, instruction selection, the rewriting of allocated code, and the runtime of sessions and
  native calls.  They are mutable object graphs of tens of thousands of lines; they are outside this development.  \<open>run_block\<close> of the encoders, the
  editing interface of machine functions, floating point of the host and the operating system calls are left out or
  are arguments.  Object identity (labels, registers, symbols) is a number.
\<close>

end
